(* ===== verification/Prelude.thy ===== *)
theory Prelude
  imports Main "HOL-Library.Word"
begin

text \<open>
  Shared vocabulary of the development: bytes, bounded machine arithmetic written out on
  \<^typ>\<open>nat\<close>, little-endian integers, list slices, byte search, UTF-8 validity, and the
  generic facts about them that the component theories use.  It models no component itself.

  Rust's \<open>usize\<close>, \<open>u64\<close> and \<open>u32\<close> are \<^typ>\<open>nat\<close> with the bound written out wherever the
  code checks or saturates; \<open>i64\<close> timestamps are \<^typ>\<open>int\<close>; words are used where the code
  works bitwise.
\<close>

named_theorems framing "byte-conservation facts of the framers"

section \<open>Bytes and machine bounds\<close>

type_synonym byte = "8 word"

abbreviation LF :: byte where "LF \<equiv> 10"
abbreviation CR :: byte where "CR \<equiv> 13"

type_synonym uuid = "byte list"

definition u64_max :: nat where "u64_max = 2 ^ 64 - 1"
definition u32_max :: nat where "u32_max = 2 ^ 32 - 1"

definition checked_add_u64 :: "nat \<Rightarrow> nat \<Rightarrow> nat option" where
  "checked_add_u64 a b = (if a + b \<le> u64_max then Some (a + b) else None)"

definition saturating_add_u64 :: "nat \<Rightarrow> nat \<Rightarrow> nat" where
  "saturating_add_u64 a b = min (a + b) u64_max"

lemma checked_add_u64_Some [simp]:
  "checked_add_u64 a b = Some c \<longleftrightarrow> a + b \<le> u64_max \<and> c = a + b"
  by (auto simp: checked_add_u64_def)

lemma checked_add_u64_None [simp]: "checked_add_u64 a b = None \<longleftrightarrow> u64_max < a + b"
  by (auto simp: checked_add_u64_def)

lemma saturating_add_u64_le: "saturating_add_u64 a b \<le> u64_max"
  by (simp add: saturating_add_u64_def)

lemma saturating_add_u64_exact: "a + b \<le> u64_max \<Longrightarrow> saturating_add_u64 a b = a + b"
  by (simp add: saturating_add_u64_def)

section \<open>Little-endian integers\<close>

fun le_bytes :: "nat \<Rightarrow> nat \<Rightarrow> byte list" where
  "le_bytes 0 n = []"
| "le_bytes (Suc k) n = word_of_nat (n mod 256) # le_bytes k (n div 256)"

fun le_nat :: "byte list \<Rightarrow> nat" where
  "le_nat [] = 0"
| "le_nat (b # bs) = unat b + 256 * le_nat bs"

lemma length_le_bytes [simp]: "length (le_bytes k n) = k"
  by (induction k arbitrary: n) auto

lemma unat_byte_of_mod: "unat (word_of_nat (n mod 256) :: byte) = n mod 256"
  by (simp add: unat_of_nat take_bit_eq_mod)

lemma le_nat_le_bytes [simp]: "n < 256 ^ k \<Longrightarrow> le_nat (le_bytes k n) = n"
proof (induction k arbitrary: n)
  case 0
  then show ?case by simp
next
  case (Suc k)
  from Suc.prems have "n div 256 < 256 ^ k"
    by (simp add: less_mult_imp_div_less mult.commute)
  then have "le_nat (le_bytes k (n div 256)) = n div 256"
    by (rule Suc.IH)
  then show ?case by (simp add: unat_byte_of_mod)
qed

lemma unat_byte_less: "unat (b :: byte) < 256"
proof -
  have "unat b < 2 ^ LENGTH(8)" by (rule unsigned_less)
  then show ?thesis by simp
qed

lemma le_nat_less: "le_nat bs < 256 ^ length bs"
proof (induction bs)
  case Nil
  then show ?case by simp
next
  case (Cons b bs)
  have "unat b < 256" by (rule unat_byte_less)
  with Cons show ?case by simp
qed

lemma le_bytes_le_nat [simp]: "le_bytes (length bs) (le_nat bs) = bs"
proof (induction bs)
  case Nil
  then show ?case by simp
next
  case (Cons b bs)
  have "unat b < 256" by (rule unat_byte_less)
  with Cons show ?case by simp
qed

section \<open>Slices and lists\<close>

text \<open>\<open>xs[a..b]\<close>; the components prove that the ranges they use are in bounds.\<close>

definition segment :: "'a list \<Rightarrow> nat \<Rightarrow> nat \<Rightarrow> 'a list" where
  "segment xs a b = take (b - a) (drop a xs)"

lemma length_segment [simp]: "length (segment xs a b) = min (b - a) (length xs - a)"
  by (simp add: segment_def)

lemma segment_empty [simp]: "segment xs a a = []"
  by (simp add: segment_def)

lemma segment_full [simp]: "segment xs 0 (length xs) = xs"
  by (simp add: segment_def)

lemma segment_append_slice:
  "a \<le> b \<Longrightarrow> b \<le> c \<Longrightarrow> segment xs a b @ segment xs b c = segment xs a c"
  unfolding segment_def
  by (metis Nat.add_diff_assoc2 drop_drop le_add_diff_inverse2 le_add_diff_inverse take_add)

lemma segment_drop: "segment (drop n xs) a b = segment xs (n + a) (n + b)"
  by (simp add: segment_def add.commute)

lemma drop_segment: "drop k (segment xs a b) = segment xs (a + k) b"
  by (simp add: segment_def drop_take add.commute)

lemma take_segment: "a + k \<le> b \<Longrightarrow> take k (segment xs a b) = segment xs a (a + k)"
  by (simp add: segment_def min_def)

lemma segment_alt: "segment xs a b = drop a (take b xs)"
  by (simp add: segment_def drop_take)

lemma set_segment: "set (segment xs a b) \<subseteq> set (take b xs)"
  by (auto simp: segment_alt dest: in_set_dropD)

lemma segment_Suc: "i < length xs \<Longrightarrow> segment xs i (Suc i) = [xs ! i]"
  by (simp add: segment_def Suc_diff_le take_Suc_conv_app_nth hd_drop_conv_nth)

lemma segment_append:
  "segment (xs @ ys) a b = segment xs a b @ segment ys (a - length xs) (b - length xs)"
proof (cases "a \<le> length xs")
  case True
  then show ?thesis by (simp add: segment_def)
next
  case False
  then have "b - length xs - (a - length xs) = b - a" by simp
  with False show ?thesis by (simp add: segment_def)
qed

lemma segment_Cons_pos:
  "0 < a \<Longrightarrow> segment (x # xs) a b = segment xs (a - 1) (b - 1)"
  using segment_append [of "[x]" xs a b] by (simp add: segment_def)

lemma segment_all [simp]: "length xs \<le> b \<Longrightarrow> segment xs 0 b = xs"
  by (simp add: segment_def)

lemma segment_none [simp]: "b \<le> a \<or> length xs \<le> a \<Longrightarrow> segment xs a b = []"
  by (auto simp: segment_def)

definition last_opt :: "'a list \<Rightarrow> 'a option" where
  "last_opt xs = (if xs = [] then None else Some (last xs))"

lemma last_opt_simps [simp]:
  "last_opt [] = None"
  "last_opt (xs @ [x]) = Some x"
  by (simp_all add: last_opt_def)

lemma last_opt_append:
  "last_opt (xs @ ys) = (case last_opt ys of None \<Rightarrow> last_opt xs | Some y \<Rightarrow> Some y)"
  by (simp add: last_opt_def)

lemma foldl_inv:
  "P s \<Longrightarrow> (\<And>s x. P s \<Longrightarrow> x \<in> set xs \<Longrightarrow> P (f s x)) \<Longrightarrow> P (foldl f s xs)"
  by (induction xs arbitrary: s) auto

text \<open>Decimal digits, as \<open>format!("{}", n)\<close> writes them.\<close>

function show_nat :: "nat \<Rightarrow> string" where
  "show_nat n = (if n < 10 then [char_of (48 + n)] else show_nat (n div 10) @ [char_of (48 + n mod 10)])"
  by pat_completeness auto
termination by (relation "measure id") auto

declare show_nat.simps [simp del]

text \<open>\<open>slice::chunks(n)\<close>; callers pass a positive \<open>n\<close>.\<close>

function chunks_of :: "nat \<Rightarrow> 'a list \<Rightarrow> 'a list list" where
  "chunks_of n xs = (if xs = [] \<or> n = 0 then [] else take n xs # chunks_of n (drop n xs))"
  by pat_completeness auto
termination by (relation "measure (\<lambda>(n, xs). length xs)") auto

declare chunks_of.simps [simp del]

lemma concat_chunks_of: "0 < n \<Longrightarrow> concat (chunks_of n xs) = xs"
proof (induction n xs rule: chunks_of.induct)
  case (1 n xs)
  then show ?case by (subst chunks_of.simps) simp
qed

lemma chunks_of_bounded: "c \<in> set (chunks_of n xs) \<Longrightarrow> c \<noteq> [] \<and> length c \<le> n"
proof (induction n xs rule: chunks_of.induct)
  case (1 n xs)
  show ?case
  proof (cases "xs = [] \<or> n = 0")
    case True
    then show ?thesis using "1.prems" by (subst (asm) chunks_of.simps) simp
  next
    case False
    then have "c = take n xs \<or> c \<in> set (chunks_of n (drop n xs))"
      using "1.prems" by (subst (asm) chunks_of.simps) simp
    then show ?thesis using 1(1) False by auto
  qed
qed

section \<open>Byte search\<close>

text \<open>\<open>iter().position(|b| *b == c)\<close>.\<close>

fun find_byte :: "byte \<Rightarrow> byte list \<Rightarrow> nat option" where
  "find_byte c [] = None"
| "find_byte c (b # bs) = (if b = c then Some 0 else map_option Suc (find_byte c bs))"

lemma find_byte_None: "find_byte c xs = None \<longleftrightarrow> c \<notin> set xs"
  by (induction xs) auto

lemma find_byte_Some:
  "find_byte c xs = Some i \<longleftrightarrow> i < length xs \<and> xs ! i = c \<and> c \<notin> set (take i xs)"
proof (induction xs arbitrary: i)
  case Nil
  then show ?case by simp
next
  case (Cons x xs)
  show ?case by (cases i) (auto simp: Cons)
qed

lemma find_byte_append:
  "c \<notin> set xs \<Longrightarrow> find_byte c (xs @ ys) = map_option ((+) (length xs)) (find_byte c ys)"
proof (induction xs)
  case Nil
  show ?case by (cases "find_byte c ys") simp_all
next
  case (Cons x xs)
  then show ?case by (cases "find_byte c ys") auto
qed

lemma find_byte_first [simp]: "c \<notin> set xs \<Longrightarrow> find_byte c (xs @ c # ys) = Some (length xs)"
  by (simp add: find_byte_append)

text \<open>
  The crate \<open>memchr\<close> is a parameter of the definitions that call it; this is what it
  documents: the index of the first occurrence.
\<close>

definition memchr_ok :: "(byte \<Rightarrow> byte list \<Rightarrow> nat option) \<Rightarrow> bool" where
  "memchr_ok mc \<longleftrightarrow> (\<forall>c xs. case mc c xs of
      None \<Rightarrow> c \<notin> set xs
    | Some i \<Rightarrow> i < length xs \<and> xs ! i = c \<and> c \<notin> set (take i xs))"

lemma memchr_ok_find_byte [simp]: "memchr_ok find_byte"
  by (auto simp: memchr_ok_def find_byte_Some find_byte_None split: option.split)

lemma memchr_ok_eq: "memchr_ok mc \<Longrightarrow> mc = find_byte"
proof (intro ext)
  fix c xs
  assume "memchr_ok mc"
  then have "case mc c xs of None \<Rightarrow> c \<notin> set xs
    | Some i \<Rightarrow> i < length xs \<and> xs ! i = c \<and> c \<notin> set (take i xs)"
    by (simp add: memchr_ok_def)
  then show "mc c xs = find_byte c xs"
  proof (cases "mc c xs")
    case None
    then show ?thesis using \<open>case mc c xs of None \<Rightarrow> _ | Some i \<Rightarrow> _ i\<close>
      by (simp add: find_byte_None eq_commute [of None])
  next
    case (Some i)
    then have "find_byte c xs = Some i"
      using \<open>case mc c xs of None \<Rightarrow> _ | Some i \<Rightarrow> _ i\<close> by (simp add: find_byte_Some)
    with Some show ?thesis by simp
  qed
qed

section \<open>UTF-8\<close>

text \<open>\<open>std::str::from_utf8(..).is_ok()\<close>: shortest form, no surrogates, at most U+10FFFF.\<close>

definition utf8_cont :: "byte \<Rightarrow> bool" where
  "utf8_cont b \<longleftrightarrow> 128 \<le> b \<and> b \<le> 191"

fun utf8_valid :: "byte list \<Rightarrow> bool" where
  "utf8_valid [] = True"
| "utf8_valid (a # xs) =
    (if a \<le> 127 then utf8_valid xs
     else if 194 \<le> a \<and> a \<le> 223 then
       (case xs of b # ys \<Rightarrow> utf8_cont b \<and> utf8_valid ys | _ \<Rightarrow> False)
     else if 224 \<le> a \<and> a \<le> 239 then
       (case xs of b # c # ys \<Rightarrow>
          utf8_cont b \<and> utf8_cont c \<and> (a = 224 \<longrightarrow> 160 \<le> b) \<and> (a = 237 \<longrightarrow> b \<le> 159)
            \<and> utf8_valid ys
        | _ \<Rightarrow> False)
     else if 240 \<le> a \<and> a \<le> 244 then
       (case xs of b # c # d # ys \<Rightarrow>
          utf8_cont b \<and> utf8_cont c \<and> utf8_cont d \<and> (a = 240 \<longrightarrow> 144 \<le> b)
            \<and> (a = 244 \<longrightarrow> b \<le> 143) \<and> utf8_valid ys
        | _ \<Rightarrow> False)
     else False)"

section \<open>Systems that keep an invariant\<close>

text \<open>
  Several components are a state and a step relation.  What they share: an invariant every
  step keeps holds in every state reached.
\<close>

locale invariant_system =
  fixes step :: "'s \<Rightarrow> 's \<Rightarrow> bool"
    and inv :: "'s \<Rightarrow> bool"
  assumes step_inv: "inv s \<Longrightarrow> step s s' \<Longrightarrow> inv s'"
begin

lemma run_inv: "step\<^sup>*\<^sup>* s s' \<Longrightarrow> inv s \<Longrightarrow> inv s'"
  by (induction rule: rtranclp_induct) (auto intro: step_inv)

lemma run_then_step_inv: "step\<^sup>*\<^sup>* s s' \<Longrightarrow> inv s \<Longrightarrow> step s' t \<Longrightarrow> inv s' \<and> inv t"
  using run_inv step_inv by blast

end

section \<open>Framers of a byte stream\<close>

text \<open>
  The contract between a capture loop and the framer it feeds (\<open>Framer\<close>, \<open>SseFramer\<close>,
  \<open>HttpFramer\<close>): a push returns, and what comes out plus what is still held is what was
  held plus what went in; finishing hands out everything held.  \<open>'e\<close> is what one call reads
  from its environment (clock, CPU clock, identity).
\<close>

fun feed :: "('e \<Rightarrow> 'f \<Rightarrow> byte list \<Rightarrow> ('f \<times> 'r list) option)
    \<Rightarrow> ('e \<times> byte list) list \<Rightarrow> 'f \<Rightarrow> ('f \<times> 'r list) option" where
  "feed push [] f = Some (f, [])"
| "feed push ((e, xs) # rest) f =
    (case push e f xs of
       None \<Rightarrow> None
     | Some (f1, rs) \<Rightarrow>
         (case feed push rest f1 of
            None \<Rightarrow> None
          | Some (f2, rs2) \<Rightarrow> Some (f2, rs @ rs2)))"

locale stream_framer =
  fixes push :: "'e \<Rightarrow> 'f \<Rightarrow> byte list \<Rightarrow> ('f \<times> 'r list) option"
    and finish :: "'e \<Rightarrow> 'f \<Rightarrow> 'f \<times> 'r list"
    and held :: "'f \<Rightarrow> byte list"
    and content :: "'r \<Rightarrow> byte list"
    and ok :: "'f \<Rightarrow> bool"
  assumes push_law: "ok f \<Longrightarrow> \<exists>f' rs. push e f xs = Some (f', rs) \<and> ok f'
      \<and> concat (map content rs) @ held f' = held f @ xs"
    and finish_law: "ok f \<Longrightarrow> finish e f = (f', rs) \<Longrightarrow>
      ok f' \<and> held f' = [] \<and> concat (map content rs) = held f"
begin

lemma push_defined: "ok f \<Longrightarrow> push e f xs \<noteq> None"
  using push_law by fastforce

lemma push_keeps:
  "ok f \<Longrightarrow> push e f xs = Some (f', rs) \<Longrightarrow>
    ok f' \<and> concat (map content rs) @ held f' = held f @ xs"
  using push_law [of f e xs] by auto

lemma feed_conserves:
  "ok f \<Longrightarrow> \<exists>f' rs. feed push chunks f = Some (f', rs) \<and> ok f'
    \<and> concat (map content rs) @ held f' = held f @ concat (map snd chunks)"
proof (induction chunks arbitrary: f)
  case Nil
  then show ?case by simp
next
  case (Cons c chunks)
  obtain e xs where c: "c = (e, xs)" by (cases c)
  obtain f1 rs1 where p: "push e f xs = Some (f1, rs1)" "ok f1"
    "concat (map content rs1) @ held f1 = held f @ xs"
    using push_law [OF Cons.prems] by blast
  obtain f2 rs2 where q: "feed push chunks f1 = Some (f2, rs2)" "ok f2"
    "concat (map content rs2) @ held f2 = held f1 @ concat (map snd chunks)"
    using Cons.IH [OF p(2)] by blast
  have "concat (map content (rs1 @ rs2)) @ held f2
      = (concat (map content rs1) @ held f1) @ concat (map snd chunks)"
    by (simp add: q(3))
  then show ?case using c p q by simp
qed

lemma stream_conserves:
  assumes "ok f" and "held f = []"
  shows "\<exists>f1 rs f2 rs2. feed push chunks f = Some (f1, rs) \<and> finish e f1 = (f2, rs2)
    \<and> ok f2 \<and> held f2 = [] \<and> concat (map content (rs @ rs2)) = concat (map snd chunks)"
proof -
  obtain f1 rs where fed: "feed push chunks f = Some (f1, rs)" "ok f1"
    "concat (map content rs) @ held f1 = concat (map snd chunks)"
    using feed_conserves [OF assms(1)] assms(2) by fastforce
  obtain f2 rs2 where fin: "finish e f1 = (f2, rs2)" by (metis surj_pair)
  show ?thesis using fed fin finish_law [OF fed(2) fin] by auto
qed

end

section \<open>Reading a log page by page\<close>

text \<open>
  The contract between a reader that pages through a store and the store: a page read at the
  offset of record \<open>i\<close> returns the next records, at least one when any is left, the offset
  of the record after them, and whether that is the end.  The loop of such a reader is
  \<open>collect_pages\<close>; it need not end in general, so its result is an option.
\<close>

partial_function (option) collect_pages ::
  "(nat \<Rightarrow> 'e + ('r list \<times> nat \<times> bool)) \<Rightarrow> nat \<Rightarrow> 'r list \<Rightarrow> ('e + 'r list) option" where
  "collect_pages page offset records =
    (case page offset of
       Inl e \<Rightarrow> Some (Inl e)
     | Inr (rs, next_offset, end_of_log) \<Rightarrow>
         if end_of_log then Some (Inr (records @ rs))
         else collect_pages page next_offset (records @ rs))"

locale paged_log =
  fixes page :: "'s \<Rightarrow> nat \<Rightarrow> 'e + ('r list \<times> nat \<times> bool)"
    and content :: "'s \<Rightarrow> 'v list"
    and view :: "'r \<Rightarrow> 'v"
    and mark :: "'s \<Rightarrow> nat \<Rightarrow> nat"
    and ok :: "'s \<Rightarrow> bool"
  assumes page_law: "ok s \<Longrightarrow> i \<le> length (content s) \<Longrightarrow> \<exists>rs j.
      page s (mark s i) = Inr (rs, mark s j, j = length (content s)) \<and> i \<le> j
    \<and> j \<le> length (content s) \<and> (i < length (content s) \<longrightarrow> i < j)
    \<and> map view rs = segment (content s) i j"
begin

lemma collect_from:
  assumes "ok s" "i \<le> length (content s)"
  shows "\<exists>rs. collect_pages (page s) (mark s i) acc = Some (Inr (acc @ rs))
    \<and> map view rs = drop i (content s)"
  using assms(2)
proof (induction "length (content s) - i" arbitrary: i acc rule: less_induct)
  case less
  obtain rs j where p: "page s (mark s i) = Inr (rs, mark s j, j = length (content s))"
    "i \<le> j" "j \<le> length (content s)" "i < length (content s) \<longrightarrow> i < j"
    "map view rs = segment (content s) i j"
    using page_law [OF assms(1) less.prems] by blast
  have cut: "drop i (content s) = segment (content s) i j @ drop j (content s)"
    using p(2) append_take_drop_id [of "j - i" "drop i (content s)"]
    by (simp add: segment_def del: append_take_drop_id)
  show ?case
  proof (cases "j = length (content s)")
    case True
    then show ?thesis using p cut by (subst collect_pages.simps) simp
  next
    case False
    then have "length (content s) - j < length (content s) - i" using p by linarith
    from less.hyps [OF this p(3), of "acc @ rs"] obtain rs' where
      "collect_pages (page s) (mark s j) (acc @ rs) = Some (Inr ((acc @ rs) @ rs'))"
      "map view rs' = drop j (content s)" by blast
    then show ?thesis
      using p(1,5) cut False
      by (subst collect_pages.simps) (intro exI [of _ "rs @ rs'"], simp)
  qed
qed

lemma collect_all:
  "ok s \<Longrightarrow> mark s 0 = 0 \<Longrightarrow>
    \<exists>rs. collect_pages (page s) 0 [] = Some (Inr rs) \<and> map view rs = content s"
  using collect_from [of s 0 "[]"] by simp

end

end
