(* ===== verification/Ordered_Maps.thy ===== *)
theory Ordered_Maps
  imports Main "HOL-Library.AList" "HOL-Library.Sublist"
begin

text \<open>
  The maps of the standard library that the components keep: a \<open>HashMap\<close> is an association list
  with distinct keys, a \<open>BTreeMap\<close> one with strictly increasing keys, so that its first entry is
  its head.  Removal is \<^const>\<open>AList.delete\<close> and update of a \<open>HashMap\<close> \<^const>\<open>AList.update\<close>.
\<close>

named_theorems tree_map "facts of ordered association lists"

fun bt_insert :: "'k::linorder \<Rightarrow> 'v \<Rightarrow> ('k \<times> 'v) list \<Rightarrow> ('k \<times> 'v) list" where
  "bt_insert k v [] = [(k, v)]"
| "bt_insert k v ((a, b) # xs) =
    (if k < a then (k, v) # (a, b) # xs
     else if k = a then (k, v) # xs
     else (a, b) # bt_insert k v xs)"

definition bt_ok :: "('k::linorder \<times> 'v) list \<Rightarrow> bool" where
  "bt_ok xs \<longleftrightarrow> sorted_wrt (<) (map fst xs)"

lemma bt_ok_simps [simp]:
  "bt_ok []" "bt_ok ((k, v) # xs) \<longleftrightarrow> (\<forall>p \<in> set xs. k < fst p) \<and> bt_ok xs"
  by (auto simp: bt_ok_def)

lemma bt_ok_distinct: "bt_ok xs \<Longrightarrow> distinct (map fst xs)"
  using strict_sorted_iff by (auto simp: bt_ok_def)

lemma set_bt_insert [tree_map]:
  "bt_ok xs \<Longrightarrow> set (bt_insert k v xs) = {(k, v)} \<union> {p \<in> set xs. fst p \<noteq> k}"
  by (induction k v xs rule: bt_insert.induct) auto

lemma bt_ok_insert [tree_map]: "bt_ok xs \<Longrightarrow> bt_ok (bt_insert k v xs)"
  by (induction k v xs rule: bt_insert.induct) (auto simp: set_bt_insert)

lemma map_of_bt_insert [tree_map]: "bt_ok xs \<Longrightarrow> map_of (bt_insert k v xs) = (map_of xs)(k \<mapsto> v)"
  by (induction k v xs rule: bt_insert.induct) (auto simp: fun_eq_iff)

lemma length_bt_insert_fresh [tree_map]:
  "k \<notin> fst ` set xs \<Longrightarrow> length (bt_insert k v xs) = Suc (length xs)"
  by (induction k v xs rule: bt_insert.induct) auto

lemma bt_insert_last [tree_map]: "\<forall>p \<in> set xs. fst p < k \<Longrightarrow> bt_insert k v xs = xs @ [(k, v)]"
  by (induction k v xs rule: bt_insert.induct) auto

lemma set_delete [tree_map]: "set (AList.delete k xs) = {p \<in> set xs. fst p \<noteq> k}"
  by (auto simp: AList.delete_eq)

lemma bt_ok_delete [tree_map]: "bt_ok xs \<Longrightarrow> bt_ok (AList.delete k xs)"
  by (induction xs) (auto simp: set_delete)

lemma bt_head_least: "bt_ok ((k, v) # xs) \<Longrightarrow> p \<in> set xs \<Longrightarrow> k < fst p"
  by simp

lemma delete_head [tree_map]: "bt_ok ((k, v) # xs) \<Longrightarrow> AList.delete k ((k, v) # xs) = xs"
  by (auto simp: intro!: AList.delete_id)

lemma length_delete_member:
  "distinct (map fst xs) \<Longrightarrow> k \<in> fst ` set xs \<Longrightarrow> Suc (length (AList.delete k xs)) = length xs"
  by (induction xs) auto

lemma map_of_update [tree_map]: "map_of (AList.update k v xs) = (map_of xs)(k \<mapsto> v)"
  by (rule AList.update_conv')

lemma map_of_delete_upd [tree_map]: "map_of (AList.delete k xs) = (map_of xs)(k := None)"
  by (rule AList.delete_conv')

lemma distinct_map_fst_delete [simp]: "distinct (map fst xs) \<Longrightarrow> distinct (map fst (AList.delete k xs))"
  by (rule AList.distinct_delete)

lemma distinct_map_fst_update [simp]: "distinct (map fst xs) \<Longrightarrow> distinct (map fst (AList.update k v xs))"
  by (rule AList.distinct_update)

lemma length_update_fresh:
  "k \<notin> fst ` set xs \<Longrightarrow> length (AList.update k v xs) = Suc (length xs)"
  by (induction xs) auto

text \<open>\<open>Iterator::position\<close>: the index of the first element that satisfies a predicate.\<close>

fun find_index_opt :: "('a \<Rightarrow> bool) \<Rightarrow> 'a list \<Rightarrow> nat option" where
  "find_index_opt p [] = None"
| "find_index_opt p (x # xs) = (if p x then Some 0 else map_option Suc (find_index_opt p xs))"

lemma find_index_opt_Some:
  "find_index_opt p xs = Some i \<Longrightarrow> i < length xs \<and> p (xs ! i) \<and> (\<forall>j < i. \<not> p (xs ! j))"
proof (induction xs arbitrary: i)
  case (Cons x xs)
  then show ?case by (auto simp: nth_Cons less_Suc_eq_0_disj split: if_splits nat.splits)
qed simp

end
