(* ===== verification/Chars.thy ===== *)
theory Chars
  imports Prelude
begin

text \<open>
  Text as the Rust components hold it: a \<open>char\<close> is its code point, a string the list of its code
  points, and its length in bytes that of its UTF-8 encoding.  The alphabetic and alphanumeric
  classes of the standard library are Unicode tables and are a parameter, \<open>char_tables\<close>;
  \<open>is_whitespace\<close>, \<open>is_control\<close> and the ASCII classes are small and are written out.
\<close>

type_synonym ustr = "nat list"

abbreviation ch :: "char \<Rightarrow> nat" where "ch c \<equiv> of_char c"

definition ustr_of :: "string \<Rightarrow> ustr" where "ustr_of s = map of_char s"

record char_tables =
  ct_alphabetic :: "nat \<Rightarrow> bool"
  ct_alphanumeric :: "nat \<Rightarrow> bool"

definition is_ascii_digit :: "nat \<Rightarrow> bool" where
  "is_ascii_digit c \<longleftrightarrow> 48 \<le> c \<and> c \<le> 57"

definition is_ascii_alphabetic :: "nat \<Rightarrow> bool" where
  "is_ascii_alphabetic c \<longleftrightarrow> (65 \<le> c \<and> c \<le> 90) \<or> (97 \<le> c \<and> c \<le> 122)"

definition is_whitespace :: "nat \<Rightarrow> bool" where
  "is_whitespace c \<longleftrightarrow> (9 \<le> c \<and> c \<le> 13) \<or> c = 32 \<or> c = 133 \<or> c = 160 \<or> c = 5760
    \<or> (8192 \<le> c \<and> c \<le> 8202) \<or> c = 8232 \<or> c = 8233 \<or> c = 8239 \<or> c = 8287 \<or> c = 12288"

definition ascii_tables :: char_tables where
  "ascii_tables = \<lparr>ct_alphabetic = is_ascii_alphabetic,
     ct_alphanumeric = (\<lambda>c. is_ascii_alphabetic c \<or> is_ascii_digit c)\<rparr>"

definition trim :: "ustr \<Rightarrow> ustr" where
  "trim s = rev (dropWhile is_whitespace (rev (dropWhile is_whitespace s)))"

definition get_char :: "ustr \<Rightarrow> nat \<Rightarrow> nat option" where
  "get_char cs i = (if i < length cs then Some (cs ! i) else None)"

lemma get_char_Some [simp]: "get_char cs i = Some c \<longleftrightarrow> i < length cs \<and> c = cs ! i"
  by (auto simp: get_char_def)

definition is_ascii_alphanumeric :: "nat \<Rightarrow> bool" where
  "is_ascii_alphanumeric c \<longleftrightarrow> is_ascii_alphabetic c \<or> is_ascii_digit c"

definition is_control :: "nat \<Rightarrow> bool" where
  "is_control c \<longleftrightarrow> c < 32 \<or> (127 \<le> c \<and> c < 160)"

definition char_utf8_len :: "nat \<Rightarrow> nat" where
  "char_utf8_len c = (if c < 128 then 1 else if c < 2048 then 2 else if c < 65536 then 3 else 4)"

definition utf8_len :: "ustr \<Rightarrow> nat" where
  "utf8_len s = sum_list (map char_utf8_len s)"

lemma utf8_len_simps [simp]:
  "utf8_len [] = 0" "utf8_len (c # s) = char_utf8_len c + utf8_len s"
  "utf8_len (s @ t) = utf8_len s + utf8_len t"
  by (simp_all add: utf8_len_def)

lemma char_utf8_len_pos: "0 < char_utf8_len c"
  by (simp add: char_utf8_len_def)

lemma ustr_of_simps [simp]:
  "ustr_of [] = []" "ustr_of (c # s) = of_char c # ustr_of s" "length (ustr_of s) = length s"
  "ustr_of (s @ t) = ustr_of s @ ustr_of t"
  by (simp_all add: ustr_of_def)

lemma ustr_of_inject [simp]: "ustr_of s = ustr_of t \<longleftrightarrow> s = t"
  unfolding ustr_of_def by (rule inj_map_eq_map) (simp add: inj_on_def)

section \<open>Prefixes and suffixes\<close>

definition starts_with :: "'a list \<Rightarrow> 'a list \<Rightarrow> bool" where
  "starts_with s p \<longleftrightarrow> take (length p) s = p"

definition strip_prefix :: "'a list \<Rightarrow> 'a list \<Rightarrow> 'a list option" where
  "strip_prefix s p = (if starts_with s p then Some (drop (length p) s) else None)"

definition strip_suffix_char :: "'a list \<Rightarrow> 'a \<Rightarrow> 'a list option" where
  "strip_suffix_char s c = (if s \<noteq> [] \<and> last s = c then Some (butlast s) else None)"

lemma strip_prefix_Some [simp]: "strip_prefix s p = Some t \<longleftrightarrow> s = p @ t"
  by (auto simp: strip_prefix_def starts_with_def) (metis append_take_drop_id)

lemma strip_suffix_char_Some [simp]: "strip_suffix_char s c = Some t \<longleftrightarrow> s = t @ [c]"
  unfolding strip_suffix_char_def by (cases s rule: rev_cases) auto

lemma starts_with_append [simp]: "starts_with (p @ t) p"
  by (simp add: starts_with_def)

lemma starts_withD: "starts_with s p \<Longrightarrow> \<exists>t. s = p @ t"
  unfolding starts_with_def by (metis append_take_drop_id)

section \<open>Decimal numbers\<close>

fun read_digits :: "string \<Rightarrow> nat \<Rightarrow> nat" where
  "read_digits [] n = n"
| "read_digits (c # s) n = read_digits s (10 * n + (of_char c - 48))"

lemma read_digits_append: "read_digits (s @ t) n = read_digits t (read_digits s n)"
  by (induction s n rule: read_digits.induct) auto

lemma of_char_digit: "n < 10 \<Longrightarrow> of_char (char_of (48 + n) :: char) = 48 + (n :: nat)"
  by simp

lemma read_show_nat [simp]: "read_digits (show_nat n) 0 = n"
proof (induction n rule: show_nat.induct)
  case (1 n)
  then show ?case by (subst show_nat.simps) (simp add: read_digits_append)
qed

lemma show_nat_inject [simp]: "show_nat m = show_nat n \<longleftrightarrow> m = n"
  using read_show_nat by metis

lemma show_nat_head: "show_nat n \<noteq> [] \<and> hd (show_nat n) \<noteq> CHR ''-''"
proof (induction n rule: show_nat.induct)
  case (1 n)
  have "char_of (48 + n) \<noteq> CHR ''-''" if "n < 10"
  proof
    assume "char_of (48 + n) = CHR ''-''"
    then have "of_char (char_of (48 + n) :: char) = (of_char CHR ''-'' :: nat)" by (rule arg_cong)
    then show False unfolding of_char_digit [OF that] by simp
  qed
  then show ?case using 1 by (subst (1 2) show_nat.simps) (auto simp: hd_append)
qed

definition show_int :: "int \<Rightarrow> string" where
  "show_int i = (if i < 0 then CHR ''-'' # show_nat (nat (- i)) else show_nat (nat i))"

lemma show_int_inject [simp]: "show_int i = show_int j \<longleftrightarrow> i = j"
  using show_nat_head [of "nat i"] show_nat_head [of "nat j"]
  by (auto simp: show_int_def split: if_splits) (metis list.sel(1))+

end
