(* ===== verification/Model.thy ===== *)
theory Model
  imports Prelude
begin

text \<open>
  The data model of \<open>crates/lvu-core/src/model.rs\<close> and the records of
  \<open>acquisition.rs\<close>: source and record identities, byte ranges over a shared backing,
  captured and raw records.
\<close>

section \<open>Identities\<close>

datatype source_id = SourceId uuid

record record_id =
  rid_source :: source_id
  rid_sequence :: nat

datatype stream_kind = Stdout | Stderr | File | Http | Stdin

datatype chunk_position = Complete | Start | Continue | End

section \<open>Byte ranges\<close>

text \<open>
  \<open>RecordBytes\<close> is a range of a backing allocation that several records may share.
  Equality in the code is equality of \<open>as_slice\<close>.
\<close>

record record_bytes =
  rb_backing :: "byte list"
  rb_start :: nat
  rb_end :: nat

definition from_shared :: "byte list \<Rightarrow> nat \<Rightarrow> nat \<Rightarrow> record_bytes" where
  "from_shared backing a b = \<lparr>rb_backing = backing, rb_start = a, rb_end = b\<rparr>"

definition owned_bytes :: "byte list \<Rightarrow> record_bytes" where
  "owned_bytes xs = \<lparr>rb_backing = xs, rb_start = 0, rb_end = length xs\<rparr>"

definition as_slice :: "record_bytes \<Rightarrow> byte list" where
  "as_slice rb = segment (rb_backing rb) (rb_start rb) (rb_end rb)"

definition retained_payload_bytes :: "record_bytes \<Rightarrow> nat" where
  "retained_payload_bytes rb = length (rb_backing rb)"

definition bytes_in_range :: "record_bytes \<Rightarrow> bool" where
  "bytes_in_range rb \<longleftrightarrow> rb_start rb \<le> rb_end rb \<and> rb_end rb \<le> length (rb_backing rb)"

lemma as_slice_owned [simp]: "as_slice (owned_bytes xs) = xs"
  by (simp add: as_slice_def owned_bytes_def)

lemma as_slice_shared [simp]: "as_slice (from_shared xs a b) = segment xs a b"
  by (simp add: as_slice_def from_shared_def)

lemma in_range_owned [simp]: "bytes_in_range (owned_bytes xs)"
  by (simp add: bytes_in_range_def owned_bytes_def)

lemma in_range_shared [simp]: "bytes_in_range (from_shared xs a b) \<longleftrightarrow> a \<le> b \<and> b \<le> length xs"
  by (simp add: bytes_in_range_def from_shared_def)

section \<open>Records\<close>

record captured_record =
  cr_captured_at :: int
  cr_stream :: stream_kind
  cr_bytes :: record_bytes
  cr_delimiter :: record_bytes
  cr_acquisition :: uuid
  cr_chunk :: chunk_position
  cr_reader_cpu :: nat

record raw_record =
  rr_id :: record_id
  rr_captured_at :: int
  rr_stream :: stream_kind
  rr_bytes :: record_bytes
  rr_delimiter :: record_bytes
  rr_acquisition :: uuid
  rr_chunk :: chunk_position

definition into_raw :: "captured_record \<Rightarrow> source_id \<Rightarrow> raw_record" where
  "into_raw c src = \<lparr>rr_id = \<lparr>rid_source = src, rid_sequence = 0\<rparr>,
     rr_captured_at = cr_captured_at c, rr_stream = cr_stream c, rr_bytes = cr_bytes c,
     rr_delimiter = cr_delimiter c, rr_acquisition = cr_acquisition c, rr_chunk = cr_chunk c\<rparr>"

text \<open>The bytes a record accounts for in the input: its payload and its delimiter.\<close>

definition record_content :: "captured_record \<Rightarrow> byte list" where
  "record_content r = as_slice (cr_bytes r) @ as_slice (cr_delimiter r)"

definition record_in_range :: "captured_record \<Rightarrow> bool" where
  "record_in_range r \<longleftrightarrow> bytes_in_range (cr_bytes r) \<and> bytes_in_range (cr_delimiter r)"

section \<open>Fragment sequences\<close>

text \<open>
  The chunk marks of a stream: a line is either one \<open>Complete\<close> record or a \<open>Start\<close>,
  any number of \<open>Continue\<close> and an \<open>End\<close>.  \<open>chunk_next\<close> reads one mark in a state that
  says whether a line is open; \<open>None\<close> is an ill-formed sequence.
\<close>

fun chunk_next :: "bool \<Rightarrow> chunk_position \<Rightarrow> bool option" where
  "chunk_next False Complete = Some False"
| "chunk_next False Start = Some True"
| "chunk_next True Continue = Some True"
| "chunk_next True End = Some False"
| "chunk_next _ _ = None"

fun chunk_run :: "bool \<Rightarrow> chunk_position list \<Rightarrow> bool option" where
  "chunk_run s [] = Some s"
| "chunk_run s (c # cs) = (case chunk_next s c of None \<Rightarrow> None | Some s' \<Rightarrow> chunk_run s' cs)"

lemma chunk_run_append:
  "chunk_run s (xs @ ys) = (case chunk_run s xs of None \<Rightarrow> None | Some s' \<Rightarrow> chunk_run s' ys)"
  by (induction xs arbitrary: s) (auto split: option.splits)

definition chunk_of :: "bool \<Rightarrow> bool \<Rightarrow> chunk_position" where
  "chunk_of fragmented ends =
    (case (fragmented, ends) of
       (False, True) \<Rightarrow> Complete
     | (False, False) \<Rightarrow> Start
     | (True, False) \<Rightarrow> Continue
     | (True, True) \<Rightarrow> End)"

lemma chunk_next_of [simp]: "chunk_next f (chunk_of f e) = Some (\<not> e)"
  by (cases f; cases e) (simp_all add: chunk_of_def)

lemma chunk_of_ends: "(chunk_of f e = Complete \<or> chunk_of f e = End) \<longleftrightarrow> e"
  by (cases f; cases e) (simp_all add: chunk_of_def)

section \<open>Order of record identities\<close>

text \<open>\<open>RecordId\<close> derives \<open>Ord\<close>: by source, then by sequence.\<close>

instantiation source_id :: linorder
begin

definition less_eq_source_id :: "source_id \<Rightarrow> source_id \<Rightarrow> bool" where
  "less_eq_source_id a b =
    (case (a, b) of (SourceId x, SourceId y) \<Rightarrow> map unat x = map unat y
       \<or> (map unat x, map unat y) \<in> lexord {(m, n). m < (n::nat)})"

definition less_source_id :: "source_id \<Rightarrow> source_id \<Rightarrow> bool" where
  "less_source_id a b =
    (case (a, b) of (SourceId x, SourceId y) \<Rightarrow>
       (map unat x, map unat y) \<in> lexord {(m, n). m < (n::nat)})"

instance
proof
  have irr: "(u, u) \<notin> lexord {(m, n). m < (n::nat)}" for u
    by (rule lexord_irreflexive) simp
  have tr: "trans (lexord {(m, n). m < (n::nat)})"
    by (rule lexord_transI) (auto simp: trans_def)
  have lin: "(u, v) \<in> lexord {(m, n). m < (n::nat)} \<or> u = v
      \<or> (v, u) \<in> lexord {(m, n). m < (n::nat)}" for u v
    by (rule lexord_linear) auto
  have inj: "map unat x = map unat y \<longleftrightarrow> x = y" for x y :: "byte list"
    by (rule inj_map_eq_map) (auto simp: inj_def word_unat_eq_iff)
  fix a b c :: source_id
  obtain x y z where abc: "a = SourceId x" "b = SourceId y" "c = SourceId z"
    by (cases a; cases b; cases c) auto
  show "(a < b) = (a \<le> b \<and> \<not> b \<le> a)"
    using abc irr tr by (auto simp: less_source_id_def less_eq_source_id_def dest: transD)
  show "a \<le> a" using abc by (simp add: less_eq_source_id_def)
  show "a \<le> b \<Longrightarrow> b \<le> c \<Longrightarrow> a \<le> c"
    using abc tr by (auto simp: less_eq_source_id_def dest: transD)
  show "a \<le> b \<Longrightarrow> b \<le> a \<Longrightarrow> a = b"
    using abc irr tr inj by (auto simp: less_eq_source_id_def dest: transD)
  show "a \<le> b \<or> b \<le> a"
    using abc lin [of "map unat x" "map unat y"] by (auto simp: less_eq_source_id_def)
qed

end

end
