(* ===== verification/Framer.thy ===== *)
theory Framer
  imports Model
begin

text \<open>
  The newline framer of \<open>crates/lvu-core/src/acquisition.rs\<close> (\<open>Framer\<close>) and the
  byte-at-a-time loop it replaced (\<open>framing_equivalence::reference\<close>).  Definitions keep the
  code's index arithmetic over the shared backing; the lemmas show that every range is in
  bounds, that the scan frames exactly as the byte loop, and what follows from that: no byte
  lost or repeated, bounded records, well-formed fragment marks, and independence of how the
  input was cut into reads.

  A call that does not return (an endless fragment loop when \<open>maximum\<close> is 0, or the
  subtraction underflow when \<open>pending\<close> exceeds it) is \<open>None\<close>.  \<open>now\<close> gives the clock
  reading of the i-th record of a call; \<open>cpu\<close> is the call's \<open>ThreadCpu\<close> reading.
\<close>

section \<open>Operations\<close>

record framer =
  fr_pending :: "byte list"
  fr_fragmented :: bool
  fr_maximum :: nat
  fr_reader_cpu_pending :: nat

definition framer_new :: "nat \<Rightarrow> framer" where
  "framer_new maximum = \<lparr>fr_pending = [], fr_fragmented = False, fr_maximum = maximum,
     fr_reader_cpu_pending = 0\<rparr>"

definition framer_record ::
  "framer \<Rightarrow> int \<Rightarrow> record_bytes \<Rightarrow> record_bytes \<Rightarrow> stream_kind \<Rightarrow> uuid \<Rightarrow> bool \<Rightarrow> captured_record"
where
  "framer_record fr t bytes delimiter st aq ends =
    \<lparr>cr_captured_at = t, cr_stream = st, cr_bytes = bytes, cr_delimiter = delimiter,
     cr_acquisition = aq, cr_chunk = chunk_of (fr_fragmented fr) ends, cr_reader_cpu = 0\<rparr>"

text \<open>The inner \<open>while\<close> of \<open>push\<close>: cut fragments while the run overflows \<open>maximum\<close>.\<close>

partial_function (option) framer_cuts ::
  "byte list \<Rightarrow> nat \<Rightarrow> nat \<Rightarrow> (nat \<Rightarrow> int) \<Rightarrow> stream_kind \<Rightarrow> uuid
    \<Rightarrow> framer \<Rightarrow> captured_record list \<Rightarrow> nat \<Rightarrow> (framer \<times> captured_record list \<times> nat) option"
where
  "framer_cuts backing start run now st aq fr out consumed =
    (if length (fr_pending fr) + (run - consumed) > fr_maximum fr then
       if length (fr_pending fr) > fr_maximum fr then None
       else
         let amount = fr_maximum fr - length (fr_pending fr);
             bytes = (if fr_pending fr = []
               then from_shared backing (start + consumed) (start + consumed + amount)
               else owned_bytes (take (fr_maximum fr)
                 (fr_pending fr @ segment (drop start backing) consumed (consumed + amount))));
             rec = framer_record fr (now (length out)) bytes (owned_bytes []) st aq False
         in framer_cuts backing start run now st aq
              (fr\<lparr>fr_pending := [], fr_fragmented := True\<rparr>) (out @ [rec]) (consumed + amount)
     else Some (fr, out, consumed))"

text \<open>The record a terminator closes.\<close>

definition framer_close ::
  "byte list \<Rightarrow> nat \<Rightarrow> nat \<Rightarrow> nat \<Rightarrow> int \<Rightarrow> stream_kind \<Rightarrow> uuid \<Rightarrow> framer \<Rightarrow> framer \<times> captured_record"
where
  "framer_close backing start index consumed t st aq fr =
    (let tail = segment (drop start backing) consumed index;
         carried = (fr_pending fr \<noteq> []);
         last_byte = (case last_opt tail of None \<Rightarrow> last_opt (fr_pending fr) | Some b \<Rightarrow> Some b);
         delimiter = (if last_byte = Some CR then [CR, LF] else [LF]);
         body_length = length (fr_pending fr) + length tail + 1 - length delimiter;
         bytes = (if carried then owned_bytes (take body_length (fr_pending fr @ tail))
                  else from_shared backing (start + consumed) (start + consumed + body_length));
         fr1 = fr\<lparr>fr_pending := []\<rparr>;
         delim = (if length delimiter = 2 \<and> tail = [] then owned_bytes [CR, LF]
                  else from_shared backing (start + index + 1 - length delimiter)
                         (start + index + 1));
         rec = framer_record fr1 t bytes delim st aq True
     in (fr1\<lparr>fr_fragmented := False\<rparr>, rec))"

function framer_lines ::
  "(byte \<Rightarrow> byte list \<Rightarrow> nat option) \<Rightarrow> byte list \<Rightarrow> (nat \<Rightarrow> int) \<Rightarrow> stream_kind \<Rightarrow> uuid
    \<Rightarrow> nat \<Rightarrow> framer \<Rightarrow> captured_record list \<Rightarrow> (framer \<times> captured_record list) option"
where
  "framer_lines mc backing now st aq start fr out =
    (if start < length backing then
       let rest = drop start backing;
           terminator = mc LF rest;
           run = (case terminator of None \<Rightarrow> length rest | Some i \<Rightarrow> i)
       in case framer_cuts backing start run now st aq fr out 0 of
            None \<Rightarrow> None
          | Some (fr1, out1, consumed) \<Rightarrow>
              (case terminator of
                 None \<Rightarrow>
                   Some (fr1\<lparr>fr_pending := fr_pending fr1 @ segment rest consumed run\<rparr>, out1)
               | Some index \<Rightarrow>
                   let (fr2, rec) =
                     framer_close backing start index consumed (now (length out1)) st aq fr1
                   in framer_lines mc backing now st aq (start + index + 1) fr2 (out1 @ [rec]))
     else Some (fr, out))"
  by pat_completeness auto
termination
  by (relation "measure (\<lambda>(mc, backing, now, st, aq, start, fr, out). length backing - start)") auto

declare framer_lines.simps [simp del]

text \<open>The charge of a call's CPU to the first record of its output.\<close>

definition charge_cpu ::
  "nat \<Rightarrow> framer \<times> captured_record list \<Rightarrow> framer \<times> captured_record list"
where
  "charge_cpu cpu = (\<lambda>(fr, out).
    let total = saturating_add_u64 (fr_reader_cpu_pending fr) cpu in
    (case out of
       [] \<Rightarrow> (fr\<lparr>fr_reader_cpu_pending := total\<rparr>, [])
     | r # rs \<Rightarrow> (fr\<lparr>fr_reader_cpu_pending := 0\<rparr>, r\<lparr>cr_reader_cpu := total\<rparr> # rs)))"

definition framer_push ::
  "(byte \<Rightarrow> byte list \<Rightarrow> nat option) \<Rightarrow> (nat \<Rightarrow> int) \<Rightarrow> nat \<Rightarrow> stream_kind \<Rightarrow> uuid
    \<Rightarrow> framer \<Rightarrow> byte list \<Rightarrow> (framer \<times> captured_record list) option"
where
  "framer_push mc now cpu st aq fr input =
    map_option (charge_cpu cpu) (framer_lines mc input now st aq 0 fr [])"

definition framer_finish ::
  "int \<Rightarrow> nat \<Rightarrow> stream_kind \<Rightarrow> uuid \<Rightarrow> framer \<Rightarrow> framer \<times> captured_record list"
where
  "framer_finish t cpu st aq fr =
    (if fr_pending fr = [] then
       if fr_fragmented fr then
         charge_cpu cpu (fr\<lparr>fr_fragmented := False\<rparr>,
           [\<lparr>cr_captured_at = t, cr_stream = st, cr_bytes = owned_bytes [],
             cr_delimiter = owned_bytes [], cr_acquisition = aq, cr_chunk = End,
             cr_reader_cpu = 0\<rparr>])
       else (fr, [])
     else
       let fr1 = fr\<lparr>fr_pending := []\<rparr>;
           rec = framer_record fr1 t (owned_bytes (fr_pending fr)) (owned_bytes []) st aq True;
           (fr2, recs) = charge_cpu cpu (fr1, [rec])
       in (fr2\<lparr>fr_fragmented := False\<rparr>, recs))"

definition framer_flush_partial ::
  "int \<Rightarrow> nat \<Rightarrow> stream_kind \<Rightarrow> uuid \<Rightarrow> framer \<Rightarrow> framer \<times> captured_record list"
where
  "framer_flush_partial t cpu st aq fr =
    (let keep = (if last_opt (fr_pending fr) = Some CR then 1 else 0);
         emit_length = length (fr_pending fr) - keep
     in if emit_length = 0 then (fr, [])
        else
          let bytes = take emit_length (fr_pending fr);
              fr1 = fr\<lparr>fr_pending := drop emit_length (fr_pending fr)\<rparr>;
              rec = framer_record fr1 t (owned_bytes bytes) (owned_bytes []) st aq False
          in charge_cpu cpu (fr1\<lparr>fr_fragmented := True\<rparr>, [rec]))"

definition framer_buffered_len :: "framer \<Rightarrow> nat" where
  "framer_buffered_len fr = length (fr_pending fr)"

section \<open>The byte loop the scan replaced\<close>

type_synonym byte_frame = "byte list \<times> byte list \<times> bool"

definition ref_byte ::
  "nat \<Rightarrow> byte list \<times> bool \<times> byte_frame list \<Rightarrow> byte \<Rightarrow> byte list \<times> bool \<times> byte_frame list"
where
  "ref_byte maximum = (\<lambda>(pending, fragmented, out) b.
    let p = pending @ [b] in
    if b = LF then
      let delimiter = (if length p \<ge> 2 \<and> p ! (length p - 2) = CR then [CR, LF] else [LF]);
          body_length = length p - length delimiter
      in ([], False, out @ [(take body_length p, delimiter, True)])
    else if length p > maximum then (drop maximum p, True, out @ [(take maximum p, [], False)])
    else (p, fragmented, out))"

definition ref_frames ::
  "nat \<Rightarrow> byte list \<times> bool \<times> byte_frame list \<Rightarrow> byte list \<Rightarrow> byte list \<times> bool \<times> byte_frame list"
where
  "ref_frames maximum s input = foldl (ref_byte maximum) s input"

definition observe :: "captured_record \<Rightarrow> byte_frame" where
  "observe r = (as_slice (cr_bytes r), as_slice (cr_delimiter r),
     cr_chunk r = Complete \<or> cr_chunk r = End)"

definition framer_ok :: "framer \<Rightarrow> bool" where
  "framer_ok fr \<longleftrightarrow> 0 < fr_maximum fr \<and> length (fr_pending fr) \<le> fr_maximum fr"


section \<open>The byte loop on runs\<close>

lemma ref_byte_plain:
  "b \<noteq> LF \<Longrightarrow> length p < m \<Longrightarrow> ref_byte m (p, f, out) b = (p @ [b], f, out)"
  by (simp add: ref_byte_def)

lemma ref_byte_full:
  "b \<noteq> LF \<Longrightarrow> length q = m \<Longrightarrow> ref_byte m (q, f, out) b = ([b], True, out @ [(q, [], False)])"
  by (simp add: ref_byte_def)

lemma ref_run_plain:
  "LF \<notin> set u \<Longrightarrow> length p + length u \<le> m
    \<Longrightarrow> foldl (ref_byte m) (p, f, out) u = (p @ u, f, out)"
  by (induction u arbitrary: p) (auto simp: ref_byte_plain)

lemma ref_run_cut:
  assumes "0 < m" and p: "length p \<le> m" and lf: "LF \<notin> set u" and over: "m < length p + length u"
  defines "n \<equiv> m - length p"
  shows "foldl (ref_byte m) (p, f, out) u
    = foldl (ref_byte m) ([], True, out @ [(p @ take n u, [], False)]) (drop n u)"
proof -
  have n: "n < length u" using p over by (simp add: n_def)
  define b v where "b = u ! n" and "v = drop (Suc n) u"
  have u: "u = take n u @ b # v" and d: "drop n u = b # v"
    using n by (simp_all add: b_def v_def id_take_nth_drop Cons_nth_drop_Suc)
  have b: "b \<noteq> LF" using lf nth_mem [OF n] by (auto simp: b_def)
  have "foldl (ref_byte m) (p, f, out) (take n u) = (p @ take n u, f, out)"
    using lf n p by (intro ref_run_plain) (auto simp: n_def dest: in_set_takeD)
  moreover have "length (p @ take n u) = m" using n p by (simp add: n_def)
  then have "ref_byte m (p @ take n u, f, out) b = ([b], True, out @ [(p @ take n u, [], False)])"
    using ref_byte_full [OF b] by blast
  moreover have "ref_byte m ([], True, out') b = ([b], True, out')" for out'
    using b \<open>0 < m\<close> by (simp add: ref_byte_def)
  ultimately show ?thesis by (subst u) (simp add: d)
qed

lemma ref_last_is_CR:
  "(2 \<le> length (p @ [LF]) \<and> (p @ [LF]) ! (length (p @ [LF]) - 2) = CR) \<longleftrightarrow> last_opt p = Some CR"
  by (cases p rule: rev_cases) (auto simp: nth_append)

lemma ref_byte_LF:
  "ref_byte m (p, f, out) LF =
    (let d = (if last_opt p = Some CR then [CR, LF] else [LF])
     in ([], False, out @ [(take (length p + 1 - length d) (p @ [LF]), d, True)]))"
  unfolding ref_byte_def Let_def using ref_last_is_CR [of p] by simp

section \<open>The scan frames as the byte loop does\<close>

text \<open>
  What every framer operation keeps between the state before it, the state after it, and the
  records it emits.
\<close>

definition framer_step :: "framer \<Rightarrow> framer \<Rightarrow> captured_record list \<Rightarrow> bool" where
  "framer_step fr fr' new \<longleftrightarrow>
     fr_maximum fr' = fr_maximum fr
   \<and> chunk_run (fr_fragmented fr) (map cr_chunk new) = Some (fr_fragmented fr')
   \<and> (\<forall>r \<in> set new. record_in_range r \<and> length (as_slice (cr_bytes r)) \<le> fr_maximum fr)"

lemma framer_step_refl [simp]: "fr_maximum fr' = fr_maximum fr \<Longrightarrow>
    fr_fragmented fr' = fr_fragmented fr \<Longrightarrow> framer_step fr fr' []"
  by (simp add: framer_step_def)

lemma framer_step_trans:
  "framer_step a b xs \<Longrightarrow> framer_step b c ys \<Longrightarrow> framer_step a c (xs @ ys)"
  by (auto simp: framer_step_def chunk_run_append)

lemma framer_cuts_ref:
  assumes "framer_ok fr" and run: "run \<le> length (drop start backing)"
    and lf: "LF \<notin> set (take run (drop start backing))" and c: "consumed \<le> run"
  shows "\<exists>fr1 new c1. framer_cuts backing start run now st aq fr out consumed
        = Some (fr1, out @ new, c1)
      \<and> framer_step fr fr1 new \<and> consumed \<le> c1 \<and> c1 \<le> run
      \<and> length (fr_pending fr1) + (run - c1) \<le> fr_maximum fr
      \<and> (\<forall>ob. foldl (ref_byte (fr_maximum fr)) (fr_pending fr, fr_fragmented fr, ob)
            (segment (drop start backing) consumed run)
          = (fr_pending fr1 @ segment (drop start backing) c1 run, fr_fragmented fr1,
             ob @ map observe new))"
  using assms
proof (induction "length (fr_pending fr) + (run - consumed)" arbitrary: fr out consumed
    rule: less_induct)
  case less
  let ?p = "fr_pending fr" and ?m = "fr_maximum fr" and ?rest = "drop start backing"
  have ok: "0 < ?m" "length ?p \<le> ?m" using less.prems(1) by (simp_all add: framer_ok_def)
  have lf': "LF \<notin> set (segment ?rest a run)" for a
    using less.prems(3) set_segment [of ?rest a run] by auto
  have len: "length (segment ?rest a run) = run - a" if "a \<le> run" for a
    using that less.prems(2) by simp
  show ?case
  proof (cases "length ?p + (run - consumed) > ?m")
    case False
    then have "framer_cuts backing start run now st aq fr out consumed = Some (fr, out, consumed)"
      by (subst framer_cuts.simps) simp
    moreover have "foldl (ref_byte ?m) (?p, fr_fragmented fr, ob) (segment ?rest consumed run)
        = (?p @ segment ?rest consumed run, fr_fragmented fr, ob)" for ob
      using False lf' len [OF less.prems(4)] by (intro ref_run_plain) auto
    ultimately show ?thesis using False less.prems(4)
      by (intro exI [of _ fr] exI [of _ "[]"] exI [of _ consumed]) simp
  next
    case True
    define n where "n = ?m - length ?p"
    define bytes where "bytes = (if ?p = []
        then from_shared backing (start + consumed) (start + consumed + n)
        else owned_bytes (take ?m (?p @ segment ?rest consumed (consumed + n))))"
    define rec where
      "rec = framer_record fr (now (length out)) bytes (owned_bytes []) st aq False"
    define fr' where "fr' = fr\<lparr>fr_pending := [], fr_fragmented := True\<rparr>"
    have cn: "consumed + n < run" using True ok by (simp add: n_def)
    have sl: "as_slice bytes = ?p @ take n (segment ?rest consumed run)"
      using ok cn less.prems(2) by (auto simp: bytes_def n_def segment_drop take_segment ac_simps)
    have rng: "bytes_in_range bytes"
      using cn less.prems(2) by (auto simp: bytes_def)
    have unfold: "framer_cuts backing start run now st aq fr out consumed
        = framer_cuts backing start run now st aq fr' (out @ [rec]) (consumed + n)"
      using True ok less.prems(4)
      unfolding framer_cuts.simps [of backing start run now st aq fr out consumed]
      by (simp add: Let_def n_def [symmetric] bytes_def [symmetric] rec_def fr'_def)
    have step: "framer_step fr fr' [rec]"
      using ok rng sl len [OF less.prems(4)] cn by (auto simp: framer_step_def fr'_def rec_def
          framer_record_def record_in_range_def n_def)
    have "length (fr_pending fr') + (run - (consumed + n)) < length ?p + (run - consumed)"
      using cn ok by (cases "?p = []") (simp_all add: fr'_def n_def)
    from less.hyps [OF this _ less.prems(2,3), of "out @ [rec]"]
    obtain fr1 new c1 where ih: "framer_cuts backing start run now st aq fr' (out @ [rec])
          (consumed + n) = Some (fr1, (out @ [rec]) @ new, c1)"
      "framer_step fr' fr1 new" "consumed + n \<le> c1" "c1 \<le> run"
      "length (fr_pending fr1) + (run - c1) \<le> ?m"
      "\<And>ob. foldl (ref_byte ?m) ([], True, ob) (segment ?rest (consumed + n) run)
          = (fr_pending fr1 @ segment ?rest c1 run, fr_fragmented fr1, ob @ map observe new)"
      using ok cn by (auto simp: fr'_def framer_ok_def)
    have "foldl (ref_byte ?m) (?p, fr_fragmented fr, ob) (segment ?rest consumed run)
        = (fr_pending fr1 @ segment ?rest c1 run, fr_fragmented fr1, ob @ map observe (rec # new))"
      for ob
    proof -
      have "foldl (ref_byte ?m) (?p, fr_fragmented fr, ob) (segment ?rest consumed run)
        = foldl (ref_byte ?m) ([], True, ob @ [(?p @ take n (segment ?rest consumed run), [], False)])
            (drop n (segment ?rest consumed run))"
        unfolding n_def
        using ok lf' True len [OF less.prems(4)] by (intro ref_run_cut) simp_all
      also have "drop n (segment ?rest consumed run) = segment ?rest (consumed + n) run"
        by (rule drop_segment)
      also have "(?p @ take n (segment ?rest consumed run), [], False) = observe rec"
        using sl by (simp add: observe_def rec_def framer_record_def chunk_of_ends)
      finally show ?thesis by (simp add: ih(6))
    qed
    moreover have "framer_step fr fr1 (rec # new)"
      using framer_step_trans [OF step ih(2)] by simp
    ultimately show ?thesis using ih unfold
      by (intro exI [of _ fr1] exI [of _ "rec # new"] exI [of _ c1]) simp
  qed
qed

lemma framer_close_ref:
  assumes bound: "length (fr_pending fr) + (index - consumed) \<le> fr_maximum fr"
    and idx: "consumed \<le> index" "start + index < length backing"
    and nl: "backing ! (start + index) = LF"
    and eq: "framer_close backing start index consumed t st aq fr = (fr', rec)"
  shows "framer_step fr fr' [rec] \<and> fr_pending fr' = []
    \<and> (\<forall>ob. ref_byte (fr_maximum fr)
          (fr_pending fr @ segment (drop start backing) consumed index, fr_fragmented fr, ob) LF
        = ([], False, ob @ [observe rec])) \<and> \<not> fr_fragmented fr'"
proof -
  define tail where "tail = segment (drop start backing) consumed index"
  define p where "p = fr_pending fr @ tail"
  define d where "d = (if last_opt p = Some CR then [CR, LF] else [LF])"
  define n where "n = length p + 1 - length d"
  define bytes where "bytes = (if fr_pending fr \<noteq> [] then owned_bytes (take n p)
      else from_shared backing (start + consumed) (start + consumed + n))"
  define delim where "delim = (if length d = 2 \<and> tail = [] then owned_bytes [CR, LF]
      else from_shared backing (start + index + 1 - length d) (start + index + 1))"
  have last: "last_opt p = (case last_opt tail of None \<Rightarrow> last_opt (fr_pending fr) | Some b \<Rightarrow> Some b)"
    by (simp add: p_def last_opt_append)
  have len_p: "length (fr_pending fr) + length tail = length p" by (simp add: p_def)
  have "framer_close backing start index consumed t st aq fr =
      (fr\<lparr>fr_pending := [], fr_fragmented := False\<rparr>,
       framer_record (fr\<lparr>fr_pending := []\<rparr>) t bytes delim st aq True)"
    unfolding framer_close_def Let_def tail_def [symmetric] last [symmetric] p_def [symmetric]
      d_def [symmetric] len_p n_def [symmetric] bytes_def delim_def by simp
  then have fr': "fr' = fr\<lparr>fr_pending := [], fr_fragmented := False\<rparr>"
    and rec: "rec = framer_record (fr\<lparr>fr_pending := []\<rparr>) t bytes delim st aq True"
    using eq by simp_all
  have len_tail: "length tail = index - consumed" using idx by (simp add: tail_def)
  have p0: "p \<noteq> []" if "length d = 2" using that by (auto simp: d_def split: if_splits)
  have n_le: "n \<le> length p" using p0 by (auto simp: n_def d_def Suc_le_eq)
  have sl: "as_slice bytes = take n p"
    using n_le idx len_tail
    by (auto simp: bytes_def p_def tail_def segment_drop take_segment ac_simps)
  have rng: "bytes_in_range bytes"
    using n_le idx len_tail by (auto simp: bytes_def p_def)
  have two: "segment backing (start + index - 1) (start + index + 1) = [CR, LF]"
    if "length d = 2" "tail \<noteq> []"
  proof -
    from that have "last tail = CR"
      by (auto simp: d_def p_def last_opt_def split: if_splits)
    moreover have "last tail = backing ! (start + index - 1)"
      using that(2) idx len_tail
      by (simp add: last_conv_nth tail_def segment_def)
    moreover have "0 < index" using that(2) len_tail idx(1) by (cases index) auto
    ultimately show ?thesis using idx nl
      segment_append_slice [of "start + index - 1" "start + index" "start + index + 1" backing]
      segment_Suc [of "start + index - 1" backing] segment_Suc [of "start + index" backing]
      by simp
  qed
  have dl: "as_slice delim = d"
  proof (cases "length d = 2")
    case True
    then have "last_opt p = Some CR" by (auto simp: d_def split: if_splits)
    with True two show ?thesis by (cases "tail = []") (auto simp: delim_def d_def)
  next
    case False
    then have "d = [LF]" by (auto simp: d_def)
    then show ?thesis using nl idx by (simp add: delim_def segment_Suc)
  qed
  have drng: "bytes_in_range delim" using idx by (auto simp: delim_def)
  have "observe rec = (take n p, d, True)"
    using sl dl by (simp add: observe_def rec framer_record_def chunk_of_ends)
  moreover have "ref_byte (fr_maximum fr) (p, f, ob) LF = ([], False, ob @ [(take n p, d, True)])"
    for f ob
    using n_le by (simp add: ref_byte_LF Let_def d_def n_def)
  moreover have "framer_step fr fr' [rec]"
    using rng drng sl n_le bound len_tail
    by (auto simp: framer_step_def rec fr' framer_record_def record_in_range_def p_def)
  ultimately show ?thesis by (simp add: fr' p_def tail_def)
qed


lemma framer_lines_ref:
  assumes "framer_ok fr"
  shows "\<exists>fr1 new. framer_lines find_byte backing now st aq start fr out = Some (fr1, out @ new)
      \<and> framer_step fr fr1 new \<and> framer_ok fr1
      \<and> (\<forall>ob. foldl (ref_byte (fr_maximum fr)) (fr_pending fr, fr_fragmented fr, ob)
            (drop start backing)
          = (fr_pending fr1, fr_fragmented fr1, ob @ map observe new))"
  using assms
proof (induction "length backing - start" arbitrary: start fr out rule: less_induct)
  case less
  let ?rest = "drop start backing" and ?m = "fr_maximum fr"
  show ?case
  proof (cases "start < length backing")
    case False
    with less.prems show ?thesis
      by (intro exI [of _ fr] exI [of _ "[]"]) (simp add: framer_lines.simps)
  next
    case True
    define run where "run = (case find_byte LF ?rest of None \<Rightarrow> length ?rest | Some i \<Rightarrow> i)"
    have run: "run \<le> length ?rest" "LF \<notin> set (take run ?rest)"
      by (auto simp: run_def find_byte_Some find_byte_None split: option.splits)
    obtain fr1 new1 c1 where cuts:
      "framer_cuts backing start run now st aq fr out 0 = Some (fr1, out @ new1, c1)"
      "framer_step fr fr1 new1" "c1 \<le> run" "length (fr_pending fr1) + (run - c1) \<le> ?m"
      "\<And>ob. foldl (ref_byte ?m) (fr_pending fr, fr_fragmented fr, ob) (segment ?rest 0 run)
          = (fr_pending fr1 @ segment ?rest c1 run, fr_fragmented fr1, ob @ map observe new1)"
      using framer_cuts_ref [OF less.prems run, of 0 now st aq out] by auto
    have m1: "fr_maximum fr1 = ?m" using cuts(2) by (simp add: framer_step_def)
    show ?thesis
    proof (cases "find_byte LF ?rest")
      case None
      then have r: "run = length ?rest" by (simp add: run_def)
      have "framer_lines find_byte backing now st aq start fr out
          = Some (fr1\<lparr>fr_pending := fr_pending fr1 @ segment ?rest c1 run\<rparr>, out @ new1)"
        using True None cuts(1) by (subst framer_lines.simps) (simp add: run_def Let_def)
      moreover have "framer_step fr (fr1\<lparr>fr_pending := fr_pending fr1 @ segment ?rest c1 run\<rparr>) new1"
        using cuts(2) by (simp add: framer_step_def)
      moreover have "segment ?rest 0 run = ?rest" using r by (simp only: segment_full)
      ultimately show ?thesis
        using cuts(4,5) m1 less.prems r run(1)
        by (intro exI [of _ "fr1\<lparr>fr_pending := fr_pending fr1 @ segment ?rest c1 run\<rparr>"]
            exI [of _ new1]) (simp add: framer_ok_def)
    next
      case (Some i)
      then have "run = i" by (simp add: run_def)
      moreover from Some have "start + i < length backing" "backing ! (start + i) = LF"
        by (auto simp: find_byte_Some)
      ultimately have i: "run = i" "start + i < length backing" "backing ! (start + i) = LF"
        by simp_all
      obtain fr2 rec where cl:
        "framer_close backing start i c1 (now (length (out @ new1))) st aq fr1 = (fr2, rec)"
        by (metis surj_pair)
      have close: "framer_step fr1 fr2 [rec]" "fr_pending fr2 = []" "\<not> fr_fragmented fr2"
        "\<And>ob. ref_byte ?m (fr_pending fr1 @ segment ?rest c1 i, fr_fragmented fr1, ob) LF
          = ([], False, ob @ [observe rec])"
        using framer_close_ref [OF _ _ i(2,3) cl] cuts(3,4) i(1) m1 by auto
      have m2: "fr_maximum fr2 = ?m" using close(1) m1 by (simp add: framer_step_def)
      have ok2: "framer_ok fr2" using close(2) m2 less.prems by (simp add: framer_ok_def)
      have "length backing - (start + i + 1) < length backing - start" using True by arith
      from less.hyps [OF this ok2, of "(out @ new1) @ [rec]"]
      obtain fr3 new3 where ih:
        "framer_lines find_byte backing now st aq (start + i + 1) fr2 ((out @ new1) @ [rec])
           = Some (fr3, ((out @ new1) @ [rec]) @ new3)"
        "framer_step fr2 fr3 new3" "framer_ok fr3"
        "\<And>ob. foldl (ref_byte ?m) ([], False, ob) (drop (start + i + 1) backing)
          = (fr_pending fr3, fr_fragmented fr3, ob @ map observe new3)"
        using close(2,3) m2 by auto
      have "framer_lines find_byte backing now st aq start fr out
          = Some (fr3, out @ (new1 @ [rec] @ new3))"
        using True Some cuts(1) i(1) cl ih(1) by (subst framer_lines.simps) (simp add: Let_def)
      moreover have "framer_step fr fr3 (new1 @ [rec] @ new3)"
        by (intro framer_step_trans [OF cuts(2)] framer_step_trans [OF close(1)] ih(2))
      moreover have rest: "?rest = segment ?rest 0 i @ LF # drop (start + i + 1) backing"
        using i(2,3) id_take_nth_drop [of i ?rest] by (simp add: segment_def add.commute)
      have "foldl (ref_byte ?m) (fr_pending fr, fr_fragmented fr, ob) ?rest
          = (fr_pending fr3, fr_fragmented fr3, ob @ map observe (new1 @ [rec] @ new3))" for ob
        by (subst rest) (simp add: cuts(5) [unfolded i(1)] close(4) ih(4) [simplified])
      ultimately show ?thesis using ih(3) by blast
    qed
  qed
qed

lemma charge_cpu_props:
  "charge_cpu cpu (fr, out) = (fr', out') \<Longrightarrow>
     fr_pending fr' = fr_pending fr \<and> fr_fragmented fr' = fr_fragmented fr
   \<and> fr_maximum fr' = fr_maximum fr \<and> map observe out' = map observe out
   \<and> map cr_chunk out' = map cr_chunk out
   \<and> map cr_bytes out' = map cr_bytes out \<and> map cr_delimiter out' = map cr_delimiter out"
  by (auto simp: charge_cpu_def Let_def observe_def split: list.splits)

lemma map_eq_pred:
  assumes "map f xs = map f ys" "map g xs = map g ys" "\<And>x y. f x = f y \<Longrightarrow> g x = g y \<Longrightarrow> P x = P y"
  shows "(\<forall>x \<in> set xs. P x) = (\<forall>y \<in> set ys. P y)"
  using assms(1,2)
proof (induction xs arbitrary: ys)
  case Nil
  then show ?case by simp
next
  case (Cons x xs)
  then obtain y ys' where ys: "ys = y # ys'" by (cases ys) auto
  with Cons show ?case using assms(3) [of x y] by auto
qed

lemma framer_step_charge:
  assumes "framer_step fr fr1 new" and ch: "charge_cpu cpu (fr1, new) = (fr', new')"
  shows "framer_step fr fr' new'"
proof -
  note eq = charge_cpu_props [OF ch]
  have "(\<forall>r \<in> set new'. record_in_range r \<and> length (as_slice (cr_bytes r)) \<le> fr_maximum fr)
      = (\<forall>r \<in> set new. record_in_range r \<and> length (as_slice (cr_bytes r)) \<le> fr_maximum fr)"
    by (rule map_eq_pred [of cr_bytes _ _ cr_delimiter]) (use eq in \<open>auto simp: record_in_range_def\<close>)
  with assms(1) eq show ?thesis by (simp add: framer_step_def)
qed

text \<open>The whole contract of \<open>push\<close>; every property of the framer follows from it.\<close>

lemma framer_push_spec:
  assumes "framer_ok fr"
  shows "\<exists>fr' recs. framer_push find_byte now cpu st aq fr input = Some (fr', recs)
      \<and> framer_step fr fr' recs \<and> framer_ok fr'
      \<and> ref_frames (fr_maximum fr) (fr_pending fr, fr_fragmented fr, []) input
          = (fr_pending fr', fr_fragmented fr', map observe recs)"
proof -
  obtain fr1 new where l: "framer_lines find_byte input now st aq 0 fr [] = Some (fr1, new)"
    "framer_step fr fr1 new" "framer_ok fr1"
    "foldl (ref_byte (fr_maximum fr)) (fr_pending fr, fr_fragmented fr, []) input
      = (fr_pending fr1, fr_fragmented fr1, map observe new)"
    using framer_lines_ref [OF assms, of input now st aq 0 "[]"] by auto
  obtain fr' recs where ch: "charge_cpu cpu (fr1, new) = (fr', recs)" by (metis surj_pair)
  show ?thesis
    using l framer_step_charge [OF l(2) ch] charge_cpu_props [OF ch] ch
    by (intro exI [of _ fr'] exI [of _ recs])
      (simp add: framer_push_def ref_frames_def framer_ok_def)
qed

section \<open>Consequences\<close>

definition frame_content :: "byte_frame \<Rightarrow> byte list" where
  "frame_content f = fst f @ fst (snd f)"

lemma frame_content_observe [simp]: "frame_content (observe r) = record_content r"
  by (simp add: frame_content_def observe_def record_content_def)

lemma ref_byte_conserves:
  assumes "ref_byte m (p, f, out) b = (p', f', out')"
  shows "concat (map frame_content out') @ p' = concat (map frame_content out) @ p @ [b]"
proof (cases "b = LF")
  case True
  have tk: "take (length p + 1 - length d) (p @ [LF]) @ d = p @ [LF]"
    if d: "d = (if last_opt p = Some CR then [CR, LF] else [LF])" for d
    using d by (cases p rule: rev_cases) auto
  show ?thesis
    using assms True tk by (auto simp: ref_byte_LF Let_def frame_content_def)
next
  case False
  with assms show ?thesis
    by (auto simp: ref_byte_def Let_def frame_content_def split: if_splits)
qed

lemma ref_frames_conserves:
  assumes "ref_frames m (p, f, out) input = (p', f', out')"
  shows "concat (map frame_content out') @ p' = concat (map frame_content out) @ p @ input"
  using assms
proof (induction input arbitrary: p f out)
  case Nil
  then show ?case by (simp add: ref_frames_def)
next
  case (Cons b bs)
  obtain p1 f1 out1 where s: "ref_byte m (p, f, out) b = (p1, f1, out1)" by (metis prod_cases3)
  with Cons.prems have "ref_frames m (p1, f1, out1) bs = (p', f', out')"
    by (simp add: ref_frames_def)
  from Cons.IH [OF this] ref_byte_conserves [OF s] show ?case by simp
qed

lemma observe_contents:
  "map observe xs = ys \<Longrightarrow> concat (map record_content xs) = concat (map frame_content ys)"
  by (auto simp: comp_def)

lemma framer_push_conserves [framing]:
  assumes "framer_ok fr"
  shows "\<exists>fr' recs. framer_push find_byte now cpu st aq fr input = Some (fr', recs)
    \<and> framer_ok fr' \<and> concat (map record_content recs) @ fr_pending fr' = fr_pending fr @ input"
proof -
  from framer_push_spec [OF assms, of now cpu st aq input]
  obtain fr' recs where "framer_push find_byte now cpu st aq fr input = Some (fr', recs)"
    "framer_ok fr'"
    "ref_frames (fr_maximum fr) (fr_pending fr, fr_fragmented fr, []) input
       = (fr_pending fr', fr_fragmented fr', map observe recs)" by blast
  then show ?thesis
    using ref_frames_conserves observe_contents [OF refl, of recs] by fastforce
qed

lemma framer_finish_spec:
  assumes "framer_ok fr" and fin: "framer_finish t cpu st aq fr = (fr', recs)"
  shows "framer_step fr fr' recs \<and> framer_ok fr' \<and> fr_pending fr' = [] \<and> \<not> fr_fragmented fr'
    \<and> concat (map record_content recs) = fr_pending fr"
  using assms
  by (auto simp: framer_finish_def framer_step_def framer_ok_def charge_cpu_def Let_def
      record_content_def record_in_range_def framer_record_def split: if_splits prod.splits)

lemma framer_flush_partial_spec:
  assumes "framer_ok fr" and fl: "framer_flush_partial t cpu st aq fr = (fr', recs)"
  shows "framer_step fr fr' recs \<and> framer_ok fr'
    \<and> concat (map record_content recs) @ fr_pending fr' = fr_pending fr
    \<and> set (fr_pending fr') \<subseteq> {CR}"
proof -
  have rest: "set (drop (length p - Suc 0) p) \<subseteq> {CR}" if "last_opt p = Some CR" for p
    using that by (cases p rule: rev_cases) auto
  show ?thesis
    using assms rest [of "fr_pending fr"]
    by (auto simp: framer_flush_partial_def framer_step_def framer_ok_def charge_cpu_def Let_def
        record_content_def record_in_range_def framer_record_def split: if_splits)
      (use assms(1) in \<open>simp_all add: framer_ok_def\<close>)
qed

section \<open>The framer as a stream framer\<close>

text \<open>What a call reads from its environment: clock, CPU clock, stream kind, acquisition.\<close>

type_synonym frame_env = "(nat \<Rightarrow> int) \<times> nat \<times> stream_kind \<times> uuid"

definition newline_push :: "(byte \<Rightarrow> byte list \<Rightarrow> nat option) \<Rightarrow> frame_env \<Rightarrow> framer \<Rightarrow> byte list
    \<Rightarrow> (framer \<times> captured_record list) option" where
  "newline_push mc = (\<lambda>(now, cpu, st, aq). framer_push mc now cpu st aq)"

definition newline_finish :: "frame_env \<Rightarrow> framer \<Rightarrow> framer \<times> captured_record list" where
  "newline_finish = (\<lambda>(now, cpu, st, aq). framer_finish (now 0) cpu st aq)"

interpretation nl: stream_framer "newline_push find_byte" newline_finish fr_pending
    record_content framer_ok
proof
  fix f e and xs :: "byte list"
  assume "framer_ok f"
  then show "\<exists>f' rs. newline_push find_byte e f xs = Some (f', rs) \<and> framer_ok f'
      \<and> concat (map record_content rs) @ fr_pending f' = fr_pending f @ xs"
    by (cases e) (simp add: newline_push_def framer_push_conserves)
next
  fix f e f' rs
  assume "framer_ok f" "newline_finish e f = (f', rs)"
  then show "framer_ok f' \<and> fr_pending f' = [] \<and> concat (map record_content rs) = fr_pending f"
    by (cases e) (auto simp: newline_finish_def dest: framer_finish_spec)
qed

lemma framer_ok_new [simp]: "0 < m \<Longrightarrow> framer_ok (framer_new m)"
  by (simp add: framer_ok_def framer_new_def)

lemma framer_new_simps [simp]:
  "fr_pending (framer_new m) = []" "fr_fragmented (framer_new m) = False"
  "fr_maximum (framer_new m) = m"
  by (simp_all add: framer_new_def)

section \<open>Properties\<close>

text \<open>C13. Scanning a read for terminators frames it exactly as the byte-at-a-time loop it
  replaced: same records, same leftover, same fragment flag, from every reachable state.\<close>

theorem framer_scan_equals_byte_loop:
  assumes "memchr_ok mc" and "framer_ok fr"
  shows "\<exists>fr' recs. framer_push mc now cpu st aq fr input = Some (fr', recs)
    \<and> ref_frames (fr_maximum fr) (fr_pending fr, fr_fragmented fr, []) input
        = (fr_pending fr', fr_fragmented fr', map observe recs)"
  using framer_push_spec [OF assms(2), of now cpu st aq input] memchr_ok_eq [OF assms(1)] by blast

theorem framer_scan_equals_byte_loop_witness:
  "\<exists>fr' recs. framer_push find_byte (\<lambda>_. 0) 0 File [] (framer_new 2) [97, 98, 99, CR, LF] = Some (fr', recs)
    \<and> ref_frames 2 ([], False, []) [97, 98, 99, CR, LF]
        = (fr_pending fr', fr_fragmented fr', map observe recs)"
  using framer_scan_equals_byte_loop [of find_byte "framer_new 2" "\<lambda>_. 0" 0 File "[]"
      "[97, 98, 99, CR, LF]"] by simp

text \<open>C14. Capture is byte-exact however the input is cut into reads: feeding any list of reads
  and finishing returns, and payloads plus delimiters concatenate to exactly the input.\<close>

theorem framer_lossless:
  assumes "0 < maximum" and "memchr_ok mc"
  shows "\<exists>f1 rs f2 rs2. feed (newline_push mc) chunks (framer_new maximum) = Some (f1, rs)
    \<and> newline_finish e f1 = (f2, rs2)
    \<and> concat (map record_content (rs @ rs2)) = concat (map snd chunks)"
  using nl.stream_conserves [of "framer_new maximum" chunks e] assms memchr_ok_eq [OF assms(2)]
  by auto

theorem framer_lossless_witness:
  "\<exists>f1 rs f2 rs2.
     feed (newline_push find_byte) [(((\<lambda>_. 0), 0, File, []), [97, CR]), (((\<lambda>_. 1), 0, File, []), [LF, 98])]
       (framer_new 4) = Some (f1, rs)
    \<and> newline_finish ((\<lambda>_. 2), 0, File, []) f1 = (f2, rs2)
    \<and> concat (map record_content (rs @ rs2)) = [97, CR, LF, 98]"
  using framer_lossless [of 4 find_byte "[(((\<lambda>_. 0), 0, File, []), [97, CR]),
      (((\<lambda>_. 1), 0, File, []), [LF, 98])]" "((\<lambda>_. 2), 0, File, [])"] by simp

text \<open>Every record of a push is bounded by \<open>maximum\<close>, its ranges lie inside their backings
  (so reading them never panics), and the chunk marks continue a well-formed sequence of
  whole lines and Start/Continue/End fragments.\<close>

theorem framer_push_bounded_and_marked:
  assumes "memchr_ok mc" and "framer_ok fr"
    and "framer_push mc now cpu st aq fr input = Some (fr', recs)"
  shows "(\<forall>r \<in> set recs. record_in_range r \<and> length (as_slice (cr_bytes r)) \<le> fr_maximum fr)
    \<and> chunk_run (fr_fragmented fr) (map cr_chunk recs) = Some (fr_fragmented fr')
    \<and> framer_ok fr' \<and> fr_maximum fr' = fr_maximum fr"
  using framer_push_spec [OF assms(2), of now cpu st aq input] assms(3) memchr_ok_eq [OF assms(1)]
  by (auto simp: framer_step_def)

theorem framer_push_bounded_and_marked_witness:
  "\<exists>fr' recs. framer_push find_byte (\<lambda>_. 0) 0 File [] (framer_new 2) [97, 98, 99, LF] = Some (fr', recs)
    \<and> chunk_run False (map cr_chunk recs) = Some (fr_fragmented fr')"
proof -
  have ok: "framer_ok (framer_new 2)" by simp
  from framer_push_spec [OF ok, of "\<lambda>_. 0" 0 File "[]" "[97, 98, 99, LF]"] obtain fr' recs
    where p: "framer_push find_byte (\<lambda>_. 0) 0 File [] (framer_new 2) [97, 98, 99, LF]
      = Some (fr', recs)" by blast
  from framer_push_bounded_and_marked [OF memchr_ok_find_byte ok p] p show ?thesis by auto
qed

lemma ref_frames_out:
  "ref_frames m (p, f, out) xs =
    (case ref_frames m (p, f, []) xs of (p', f', out') \<Rightarrow> (p', f', out @ out'))"
proof (induction xs arbitrary: p f out)
  case Nil
  then show ?case by (simp add: ref_frames_def)
next
  case (Cons b xs)
  obtain p1 f1 o1 where s: "ref_byte m (p, f, []) b = (p1, f1, o1)" by (metis prod_cases3)
  then have s': "ref_byte m (p, f, out) b = (p1, f1, out @ o1)"
    by (auto simp: ref_byte_def Let_def split: if_splits)
  have step: "ref_frames m (p, f, x) (b # xs) = ref_frames m (ref_byte m (p, f, x) b) xs" for x
    by (simp add: ref_frames_def)
  have a: "ref_frames m (p1, f1, x) xs = (case ref_frames m (p1, f1, []) xs of
      (p', f', out') \<Rightarrow> (p', f', x @ out'))" for x
    by (rule Cons.IH)
  show ?case unfolding step s s' a [of "out @ o1"] a [of o1] by (simp split: prod.splits)
qed

text \<open>C15. Framing does not depend on how the input was cut into reads: two reads frame as one.\<close>

theorem framer_read_split_invariant:
  assumes "memchr_ok mc" and "framer_ok fr"
    and "framer_push mc n1 c1 st aq fr xs = Some (fa, ra)"
    and "framer_push mc n2 c2 st aq fa ys = Some (fb, rb)"
    and "framer_push mc n3 c3 st aq fr (xs @ ys) = Some (fc, rc)"
  shows "map observe rc = map observe ra @ map observe rb
    \<and> fr_pending fc = fr_pending fb \<and> fr_fragmented fc = fr_fragmented fb"
proof -
  note mc = memchr_ok_eq [OF assms(1)]
  have a: "ref_frames (fr_maximum fr) (fr_pending fr, fr_fragmented fr, []) xs
      = (fr_pending fa, fr_fragmented fa, map observe ra)" "framer_ok fa"
    "fr_maximum fa = fr_maximum fr"
    using framer_push_spec [OF assms(2), of n1 c1 st aq xs] assms(3) mc
    by (auto simp: framer_step_def)
  have b: "ref_frames (fr_maximum fr) (fr_pending fa, fr_fragmented fa, []) ys
      = (fr_pending fb, fr_fragmented fb, map observe rb)"
    using framer_push_spec [OF a(2), of n2 c2 st aq ys] assms(4) mc a(3) by auto
  have c: "ref_frames (fr_maximum fr) (fr_pending fr, fr_fragmented fr, []) (xs @ ys)
      = (fr_pending fc, fr_fragmented fc, map observe rc)"
    using framer_push_spec [OF assms(2), of n3 c3 st aq "xs @ ys"] assms(5) mc by auto
  have "ref_frames (fr_maximum fr) (fr_pending fr, fr_fragmented fr, []) (xs @ ys)
      = ref_frames (fr_maximum fr) (fr_pending fa, fr_fragmented fa, map observe ra) ys"
    using a(1) by (simp add: ref_frames_def)
  also have "\<dots> = (fr_pending fb, fr_fragmented fb, map observe ra @ map observe rb)"
    by (subst ref_frames_out) (simp add: b)
  finally show ?thesis using c by simp
qed

theorem framer_read_split_invariant_witness:
  "\<exists>fa ra fb rb fc rc.
     framer_push find_byte (\<lambda>_. 0) 0 File [] (framer_new 8) [97, CR] = Some (fa, ra)
   \<and> framer_push find_byte (\<lambda>_. 1) 0 File [] fa [LF] = Some (fb, rb)
   \<and> framer_push find_byte (\<lambda>_. 0) 0 File [] (framer_new 8) [97, CR, LF] = Some (fc, rc)
   \<and> map observe rc = map observe ra @ map observe rb"
proof -
  have ok: "framer_ok (framer_new 8)" by simp
  from framer_push_spec [OF ok, of "\<lambda>_. 0" 0 File "[]" "[97, CR]"] obtain fa ra
    where a: "framer_push find_byte (\<lambda>_. 0) 0 File [] (framer_new 8) [97, CR] = Some (fa, ra)"
      "framer_ok fa" by blast
  from framer_push_spec [OF a(2), of "\<lambda>_. 1" 0 File "[]" "[LF]"] obtain fb rb
    where b: "framer_push find_byte (\<lambda>_. 1) 0 File [] fa [LF] = Some (fb, rb)" by blast
  from framer_push_spec [OF ok, of "\<lambda>_. 0" 0 File "[]" "[97, CR, LF]"] obtain fc rc
    where c: "framer_push find_byte (\<lambda>_. 0) 0 File [] (framer_new 8) [97, CR, LF] = Some (fc, rc)"
    by blast
  from framer_read_split_invariant [OF memchr_ok_find_byte ok a(1) b] a(1) b c show ?thesis
    by fastforce
qed

end
