(* ===== verification/Sse.thy ===== *)
theory Sse
  imports Framer
begin

text \<open>
  Server-Sent Events framing of \<open>crates/lvu-core/src/http.rs\<close>: \<open>SseFramer\<close>,
  \<open>FrameOutcome\<close>, \<open>last_event_id\<close> and \<open>split_sse_lines\<close>.  An event is the bytes up to and
  including the blank line that ends it; the record holds the field lines and the delimiter
  the blank line's terminator.  As in \<^theory_text>\<open>Framer\<close>, a call that does not return (the fragment
  loop with \<open>maximum\<close> 0) is \<open>None\<close>.
\<close>

section \<open>Lines and the last event id\<close>

function split_sse_lines_at :: "byte list \<Rightarrow> nat \<Rightarrow> nat \<Rightarrow> byte list list \<Rightarrow> byte list list" where
  "split_sse_lines_at event start index lines =
    (if index < length event then
       if event ! index = CR then
         let index' = index + (if index + 1 < length event \<and> event ! (index + 1) = LF
                               then 2 else 1)
         in split_sse_lines_at event index' index' (lines @ [segment event start index])
       else if event ! index = LF then
         split_sse_lines_at event (index + 1) (index + 1) (lines @ [segment event start index])
       else split_sse_lines_at event start (index + 1) lines
     else if start < length event then lines @ [drop start event] else lines)"
  by pat_completeness auto
termination
  by (relation "measure (\<lambda>(event, start, index, lines). length event - index)") auto

declare split_sse_lines_at.simps [simp del]

definition split_sse_lines :: "byte list \<Rightarrow> byte list list" where
  "split_sse_lines event = split_sse_lines_at event 0 0 []"

definition maximum_detail_bytes :: nat where "maximum_detail_bytes = 512"

text \<open>One line of the loop of \<open>last_event_id\<close>: \<open>None\<close> is \<open>continue\<close>.\<close>

definition id_line :: "byte list \<Rightarrow> byte list option" where
  "id_line line =
    (if take 2 line = [105, 100] then
       (case drop 2 line of
          [] \<Rightarrow> Some []
        | c # value \<Rightarrow>
            if c = 58 then Some (case value of b # v \<Rightarrow> if b = 32 then v else value | [] \<Rightarrow> [])
            else None)
     else None)"

definition last_event_id :: "byte list \<Rightarrow> byte list option" where
  "last_event_id event = foldl (\<lambda>found line.
     (case id_line line of
        None \<Rightarrow> found
      | Some value \<Rightarrow>
          if 0 \<in> set value \<or> maximum_detail_bytes < length value then found
          else if utf8_valid value then Some value else found))
     None (split_sse_lines event)"

section \<open>Operations\<close>

record sse_framer =
  sse_pending :: "byte list"
  sse_line_start :: nat
  sse_carriage_return :: bool
  sse_fragmented :: bool
  sse_maximum :: nat

record frame_outcome =
  fo_records :: "captured_record list"
  fo_last_event_id :: "byte list option"
  fo_oversized :: bool
  fo_invalid_utf8 :: bool
  fo_limit_bytes :: nat

definition sse_new :: "nat \<Rightarrow> sse_framer" where
  "sse_new maximum = \<lparr>sse_pending = [], sse_line_start = 0, sse_carriage_return = False,
     sse_fragmented = False, sse_maximum = maximum\<rparr>"

definition sse_record ::
  "sse_framer \<Rightarrow> int \<Rightarrow> byte list \<Rightarrow> byte list \<Rightarrow> uuid \<Rightarrow> bool \<Rightarrow> captured_record" where
  "sse_record f t bytes delimiter aq ends =
    \<lparr>cr_captured_at = t, cr_stream = Http, cr_bytes = owned_bytes bytes,
     cr_delimiter = owned_bytes delimiter, cr_acquisition = aq,
     cr_chunk = chunk_of (sse_fragmented f) ends, cr_reader_cpu = 0\<rparr>"

definition sse_close_line ::
  "(nat \<Rightarrow> int) \<Rightarrow> uuid \<Rightarrow> nat \<Rightarrow> sse_framer \<times> frame_outcome \<Rightarrow> sse_framer \<times> frame_outcome" where
  "sse_close_line now aq terminator = (\<lambda>(f, outcome).
    let end_at = length (sse_pending f);
        body_end = end_at - terminator
    in if body_end = sse_line_start f then
         let bytes = take body_end (sse_pending f);
             delimiter = take terminator (drop body_end (sse_pending f));
             f1 = f\<lparr>sse_pending := [], sse_line_start := 0\<rparr>;
             o1 = (case last_event_id bytes of None \<Rightarrow> outcome
                   | Some i \<Rightarrow> outcome\<lparr>fo_last_event_id := Some i\<rparr>);
             o2 = (if utf8_valid bytes then o1 else o1\<lparr>fo_invalid_utf8 := True\<rparr>);
             rec = sse_record f1 (now (length (fo_records o2))) bytes delimiter aq True
         in (f1\<lparr>sse_fragmented := False\<rparr>, o2\<lparr>fo_records := fo_records o2 @ [rec]\<rparr>)
       else (f\<lparr>sse_line_start := end_at\<rparr>, outcome))"

partial_function (option) sse_enforce_limit ::
  "(nat \<Rightarrow> int) \<Rightarrow> uuid \<Rightarrow> sse_framer \<Rightarrow> frame_outcome \<Rightarrow> (sse_framer \<times> frame_outcome) option" where
  "sse_enforce_limit now aq f outcome =
    (if length (sse_pending f) > sse_maximum f then
       let bytes = take (sse_maximum f) (sse_pending f);
           f1 = f\<lparr>sse_pending := drop (sse_maximum f) (sse_pending f)\<rparr>;
           o1 = (if utf8_valid bytes then outcome else outcome\<lparr>fo_invalid_utf8 := True\<rparr>);
           rec = sse_record f1 (now (length (fo_records o1))) bytes [] aq False
       in sse_enforce_limit now aq
            (f1\<lparr>sse_fragmented := True, sse_line_start := sse_line_start f - sse_maximum f\<rparr>)
            (o1\<lparr>fo_oversized := True, fo_records := fo_records o1 @ [rec]\<rparr>)
     else Some (f, outcome))"

text \<open>One byte of the loop of \<open>push\<close>.\<close>

definition sse_byte ::
  "(nat \<Rightarrow> int) \<Rightarrow> uuid \<Rightarrow> sse_framer \<times> frame_outcome \<Rightarrow> byte \<Rightarrow> (sse_framer \<times> frame_outcome) option"
where
  "sse_byte now aq s b = (case s of (f, outcome) \<Rightarrow>
    if sse_carriage_return f \<and> b = LF then
      let f1 = f\<lparr>sse_carriage_return := False, sse_pending := sse_pending f @ [b]\<rparr>;
          (f2, o2) = sse_close_line now aq 2 (f1, outcome)
      in sse_enforce_limit now aq f2 o2
    else
      let (f1, o1) =
            (if sse_carriage_return f
             then sse_close_line now aq 1 (f\<lparr>sse_carriage_return := False\<rparr>, outcome)
             else (f, outcome));
          f2 = f1\<lparr>sse_pending := sse_pending f1 @ [b]\<rparr>
      in if b = CR then sse_enforce_limit now aq (f2\<lparr>sse_carriage_return := True\<rparr>) o1
         else
           let (f3, o3) = (if b = LF then sse_close_line now aq 1 (f2, o1) else (f2, o1))
           in sse_enforce_limit now aq f3 o3)"

fun sse_bytes ::
  "(nat \<Rightarrow> int) \<Rightarrow> uuid \<Rightarrow> sse_framer \<times> frame_outcome \<Rightarrow> byte list
    \<Rightarrow> (sse_framer \<times> frame_outcome) option" where
  "sse_bytes now aq s [] = Some s"
| "sse_bytes now aq s (b # bs) =
    (case sse_byte now aq s b of None \<Rightarrow> None | Some s' \<Rightarrow> sse_bytes now aq s' bs)"

definition empty_outcome :: "nat \<Rightarrow> frame_outcome" where
  "empty_outcome limit = \<lparr>fo_records = [], fo_last_event_id = None, fo_oversized = False,
     fo_invalid_utf8 = False, fo_limit_bytes = limit\<rparr>"

definition sse_push ::
  "(nat \<Rightarrow> int) \<Rightarrow> uuid \<Rightarrow> sse_framer \<Rightarrow> byte list \<Rightarrow> (sse_framer \<times> frame_outcome) option" where
  "sse_push now aq f input = sse_bytes now aq (f, empty_outcome (sse_maximum f)) input"

definition sse_finish :: "int \<Rightarrow> uuid \<Rightarrow> sse_framer \<Rightarrow> sse_framer \<times> captured_record list" where
  "sse_finish t aq f =
    (let f0 = f\<lparr>sse_carriage_return := False, sse_line_start := 0\<rparr> in
     if sse_pending f0 = [] then
       if sse_fragmented f0 then
         (f0\<lparr>sse_fragmented := False\<rparr>,
          [\<lparr>cr_captured_at = t, cr_stream = Http, cr_bytes = owned_bytes [],
            cr_delimiter = owned_bytes [], cr_acquisition = aq, cr_chunk = End,
            cr_reader_cpu = 0\<rparr>])
       else (f0, [])
     else
       let f1 = f0\<lparr>sse_pending := []\<rparr>;
           rec = sse_record f1 t (sse_pending f0) [] aq True
       in (f1\<lparr>sse_fragmented := False\<rparr>, [rec]))"

section \<open>What every step keeps\<close>

text \<open>Between bytes: at most \<open>maximum\<close> bytes are held, and a remembered carriage return is
  the last of them.\<close>

definition sse_ok :: "sse_framer \<Rightarrow> bool" where
  "sse_ok f \<longleftrightarrow> 0 < sse_maximum f \<and> length (sse_pending f) \<le> sse_maximum f
    \<and> (sse_carriage_return f \<longrightarrow> last_opt (sse_pending f) = Some CR)"

definition outcome_content :: "frame_outcome \<Rightarrow> byte list" where
  "outcome_content out = concat (map record_content (fo_records out))"

text \<open>A step from one state of the loop to another that consumed \<open>xs\<close>.\<close>

definition sse_step ::
  "byte list \<Rightarrow> sse_framer \<times> frame_outcome \<Rightarrow> sse_framer \<times> frame_outcome \<Rightarrow> bool" where
  "sse_step xs = (\<lambda>(f, out) (f', out').
     sse_maximum f' = sse_maximum f \<and> fo_limit_bytes out' = fo_limit_bytes out
   \<and> outcome_content out' @ sse_pending f' = outcome_content out @ sse_pending f @ xs
   \<and> (\<exists>new. fo_records out' = fo_records out @ new
        \<and> chunk_run (sse_fragmented f) (map cr_chunk new) = Some (sse_fragmented f')
        \<and> (\<forall>r \<in> set new. length (as_slice (cr_bytes r)) \<le> sse_maximum f)))"

lemma sse_step_trans:
  assumes "sse_step xs s t" and "sse_step ys t u"
  shows "sse_step (xs @ ys) s u"
proof -
  obtain f out f' out' f'' out'' where s: "s = (f, out)" "t = (f', out')" "u = (f'', out'')"
    by (metis surj_pair)
  have "outcome_content out'' @ sse_pending f'' = (outcome_content out' @ sse_pending f') @ ys"
    using assms s by (simp add: sse_step_def)
  also have "outcome_content out' @ sse_pending f' = outcome_content out @ sse_pending f @ xs"
    using assms s by (simp add: sse_step_def)
  finally have content: "outcome_content out'' @ sse_pending f''
      = outcome_content out @ sse_pending f @ xs @ ys" by simp
  obtain n1 n2 where "fo_records out' = fo_records out @ n1"
    "chunk_run (sse_fragmented f) (map cr_chunk n1) = Some (sse_fragmented f')"
    "\<forall>r \<in> set n1. length (as_slice (cr_bytes r)) \<le> sse_maximum f"
    "fo_records out'' = fo_records out' @ n2"
    "chunk_run (sse_fragmented f') (map cr_chunk n2) = Some (sse_fragmented f'')"
    "\<forall>r \<in> set n2. length (as_slice (cr_bytes r)) \<le> sse_maximum f"
    using assms s by (auto simp: sse_step_def)
  then have "\<exists>new. fo_records out'' = fo_records out @ new
      \<and> chunk_run (sse_fragmented f) (map cr_chunk new) = Some (sse_fragmented f'')
      \<and> (\<forall>r \<in> set new. length (as_slice (cr_bytes r)) \<le> sse_maximum f)"
    by (intro exI [of _ "n1 @ n2"]) (auto simp: chunk_run_append)
  with content assms s show ?thesis by (simp add: sse_step_def)
qed

lemma sse_step_refl [simp]: "sse_maximum f' = sse_maximum f \<Longrightarrow> sse_pending f' = sse_pending f
    \<Longrightarrow> sse_fragmented f' = sse_fragmented f \<Longrightarrow> sse_step [] (f, out) (f', out)"
  by (simp add: sse_step_def)

lemma sse_step_push [simp]: "sse_maximum f' = sse_maximum f
    \<Longrightarrow> sse_pending f' = sse_pending f @ xs
    \<Longrightarrow> sse_fragmented f' = sse_fragmented f \<Longrightarrow> sse_step xs (f, out) (f', out)"
  by (simp add: sse_step_def)

lemma sse_close_line_step:
  assumes "0 < n" "n \<le> length (sse_pending f)" "length (sse_pending f) \<le> sse_maximum f + 1"
    and eq: "sse_close_line now aq n (f, out) = (f', out')"
  shows "sse_step [] (f, out) (f', out') \<and> sse_carriage_return f' = sse_carriage_return f
    \<and> (sse_pending f' = [] \<or> sse_pending f' = sse_pending f)"
proof (cases "length (sse_pending f) - n = sse_line_start f")
  case True
  have "take (length (sse_pending f) - n) (sse_pending f)
      @ take n (drop (length (sse_pending f) - n) (sse_pending f)) = sse_pending f"
    using assms(2) by simp
  with True eq assms show ?thesis
    by (auto simp: sse_close_line_def Let_def sse_step_def outcome_content_def sse_record_def
        record_content_def split: option.splits if_splits)
next
  case False
  with eq show ?thesis by (auto simp: sse_close_line_def Let_def sse_step_def)
qed

lemma sse_enforce_limit_step:
  assumes "0 < sse_maximum f"
  shows "\<exists>f' out'. sse_enforce_limit now aq f out = Some (f', out')
    \<and> sse_step [] (f, out) (f', out') \<and> length (sse_pending f') \<le> sse_maximum f
    \<and> sse_carriage_return f' = sse_carriage_return f
    \<and> last_opt (sse_pending f') = last_opt (sse_pending f)"
  using assms
proof (induction "length (sse_pending f)" arbitrary: f out rule: less_induct)
  case less
  show ?case
  proof (cases "length (sse_pending f) > sse_maximum f")
    case False
    then have "sse_enforce_limit now aq f out = Some (f, out)"
      by (simp add: sse_enforce_limit.simps [of now aq f out])
    with False show ?thesis by simp
  next
    case True
    let ?m = "sse_maximum f" and ?p = "sse_pending f"
    define f1 where "f1 = f\<lparr>sse_pending := drop ?m ?p, sse_fragmented := True,
      sse_line_start := sse_line_start f - ?m\<rparr>"
    define o1 where "o1 = (if utf8_valid (take ?m ?p) then out else out\<lparr>fo_invalid_utf8 := True\<rparr>)"
    define rec where "rec = sse_record f (now (length (fo_records o1))) (take ?m ?p) [] aq False"
    define o2 where "o2 = o1\<lparr>fo_oversized := True, fo_records := fo_records o1 @ [rec]\<rparr>"
    have unfold: "sse_enforce_limit now aq f out = sse_enforce_limit now aq f1 o2"
      using True unfolding sse_enforce_limit.simps [of now aq f out]
      by (simp add: Let_def f1_def o1_def o2_def rec_def sse_record_def)
    have o1: "fo_records o1 = fo_records out" "fo_limit_bytes o1 = fo_limit_bytes out"
      by (simp_all add: o1_def)
    have step: "sse_step [] (f, out) (f1, o2)"
      by (simp add: sse_step_def f1_def o2_def o1 rec_def sse_record_def outcome_content_def
          record_content_def)
    have "length (sse_pending f1) < length ?p" "0 < sse_maximum f1"
      using True less.prems by (simp_all add: f1_def)
    from less.hyps [OF this, of o2] obtain f' out' where ih:
      "sse_enforce_limit now aq f1 o2 = Some (f', out')" "sse_step [] (f1, o2) (f', out')"
      "length (sse_pending f') \<le> sse_maximum f1"
      "sse_carriage_return f' = sse_carriage_return f1"
      "last_opt (sse_pending f') = last_opt (sse_pending f1)" by blast
    have "last_opt (sse_pending f1) = last_opt ?p"
      using True by (auto simp: f1_def last_opt_def)
    then show ?thesis
      using ih unfold sse_step_trans [OF step ih(2)] by (simp add: f1_def)
  qed
qed

text \<open>Closing a line and then enforcing the limit, the tail shared by three branches.\<close>

lemma sse_byte_step:
  assumes ok: "sse_ok f"
  shows "\<exists>f' out'. sse_byte now aq (f, out) b = Some (f', out')
    \<and> sse_step [b] (f, out) (f', out') \<and> sse_ok f'"
proof -
  have m: "0 < sse_maximum f" and len: "length (sse_pending f) \<le> sse_maximum f"
    and cr: "sse_carriage_return f \<Longrightarrow> sse_pending f \<noteq> []"
    using ok by (auto simp: sse_ok_def last_opt_def split: if_splits)
  have finish: "\<exists>f' out'. sse_enforce_limit now aq g go = Some (f', out')
      \<and> sse_step [b] (f, out) (f', out') \<and> sse_ok f'"
    if g: "sse_step [b] (f, out) (g, go)"
      "sse_carriage_return g \<Longrightarrow> last_opt (sse_pending g) = Some CR" for g go
  proof -
    have mg: "sse_maximum g = sse_maximum f" using g(1) by (simp add: sse_step_def)
    from sse_enforce_limit_step [of g now aq go] m mg obtain f' out' where e:
      "sse_enforce_limit now aq g go = Some (f', out')" "sse_step [] (g, go) (f', out')"
      "length (sse_pending f') \<le> sse_maximum g"
      "sse_carriage_return f' = sse_carriage_return g"
      "last_opt (sse_pending f') = last_opt (sse_pending g)" by auto
    have "sse_maximum f' = sse_maximum g" using e(2) by (simp add: sse_step_def)
    then show ?thesis
      using e g(2) m mg sse_step_trans [OF g(1) e(2)] by (auto simp: sse_ok_def)
  qed
  show ?thesis
  proof (cases "sse_carriage_return f \<and> b = LF")
    case True
    define f1 where "f1 = f\<lparr>sse_carriage_return := False, sse_pending := sse_pending f @ [b]\<rparr>"
    obtain f2 o2 where c: "sse_close_line now aq 2 (f1, out) = (f2, o2)" by (metis surj_pair)
    have s1: "sse_step [b] (f, out) (f1, out)" by (simp add: f1_def)
    have "2 \<le> length (sse_pending f1)" using True cr by (cases "sse_pending f") (auto simp: f1_def)
    then have s2: "sse_step [] (f1, out) (f2, o2)" "\<not> sse_carriage_return f2"
      using sse_close_line_step [OF _ _ _ c] len by (auto simp: f1_def)
    from sse_step_trans [OF s1 s2(1)] s2(2) finish [of f2 o2] show ?thesis
      using True c by (simp add: sse_byte_def f1_def)
  next
    case False
    define f0 o0 where "f0 = fst (if sse_carriage_return f
        then sse_close_line now aq 1 (f\<lparr>sse_carriage_return := False\<rparr>, out) else (f, out))"
      and "o0 = snd (if sse_carriage_return f
        then sse_close_line now aq 1 (f\<lparr>sse_carriage_return := False\<rparr>, out) else (f, out))"
    have s0: "sse_step [] (f, out) (f0, o0) \<and> \<not> sse_carriage_return f0
        \<and> (sse_pending f0 = [] \<or> sse_pending f0 = sse_pending f)"
    proof (cases "sse_carriage_return f")
      case True
      define g where "g = f\<lparr>sse_carriage_return := False\<rparr>"
      obtain f' o' where c: "sse_close_line now aq 1 (g, out) = (f', o')" by (metis surj_pair)
      have "sse_step [] (f, out) (g, out)" by (simp add: g_def)
      moreover have "sse_step [] (g, out) (f', o') \<and> \<not> sse_carriage_return f'
          \<and> (sse_pending f' = [] \<or> sse_pending f' = sse_pending f)"
        using sse_close_line_step [OF _ _ _ c] cr [OF True] len
        by (auto simp: g_def Suc_le_eq)
      ultimately show ?thesis
        using True c sse_step_trans [of "[]" "(f, out)" "(g, out)" "[]" "(f', o')"]
        by (simp add: f0_def o0_def g_def)
    next
      case False
      then show ?thesis by (simp add: f0_def o0_def)
    qed
    define f2 where "f2 = f0\<lparr>sse_pending := sse_pending f0 @ [b]\<rparr>"
    have s2: "sse_step [b] (f, out) (f2, o0)"
    proof -
      have "sse_step [b] (f0, o0) (f2, o0)" by (simp add: f2_def)
      from sse_step_trans [of "[]", OF _ this] s0 show ?thesis by simp
    qed
    have m0: "sse_maximum f0 = sse_maximum f" using s0 by (simp add: sse_step_def)
    have len2: "length (sse_pending f2) \<le> sse_maximum f2 + 1"
      using s0 len m0 by (auto simp: f2_def)
    have unfold: "sse_byte now aq (f, out) b =
        (if b = CR then sse_enforce_limit now aq (f2\<lparr>sse_carriage_return := True\<rparr>) o0
         else let (f3, o3) = (if b = LF then sse_close_line now aq 1 (f2, o0) else (f2, o0))
              in sse_enforce_limit now aq f3 o3)"
      using False by (simp add: sse_byte_def f0_def o0_def f2_def split_beta Let_def)
    consider "b = CR" | "b = LF" | "b \<noteq> CR" "b \<noteq> LF" by blast
    then show ?thesis
    proof cases
      case 1
      have "sse_step [] (f2, o0) (f2\<lparr>sse_carriage_return := True\<rparr>, o0)" by simp
      from sse_step_trans [OF s2 this] 1 finish [of "f2\<lparr>sse_carriage_return := True\<rparr>" o0] unfold
      show ?thesis by (simp add: f2_def)
    next
      case 2
      obtain f3 o3 where c: "sse_close_line now aq 1 (f2, o0) = (f3, o3)" by (metis surj_pair)
      have "sse_step [] (f2, o0) (f3, o3) \<and> \<not> sse_carriage_return f3"
        using sse_close_line_step [OF _ _ len2 c] s0 by (auto simp: f2_def)
      with sse_step_trans [OF s2] 2 finish [of f3 o3] c unfold show ?thesis by fastforce
    next
      case 3
      then show ?thesis using finish [OF s2] s0 unfold by (simp add: f2_def)
    qed
  qed
qed

lemma sse_bytes_step:
  "sse_ok f \<Longrightarrow> \<exists>f' out'. sse_bytes now aq (f, out) xs = Some (f', out')
    \<and> sse_step xs (f, out) (f', out') \<and> sse_ok f'"
proof (induction xs arbitrary: f out)
  case Nil
  then show ?case by simp
next
  case (Cons b xs)
  obtain f1 o1 where s1: "sse_byte now aq (f, out) b = Some (f1, o1)"
    "sse_step [b] (f, out) (f1, o1)" "sse_ok f1"
    using sse_byte_step [OF Cons.prems] by blast
  obtain f2 o2 where s2: "sse_bytes now aq (f1, o1) xs = Some (f2, o2)"
    "sse_step xs (f1, o1) (f2, o2)" "sse_ok f2"
    using Cons.IH [OF s1(3)] by blast
  show ?case using s1 s2 sse_step_trans [OF s1(2) s2(2)] by simp
qed

lemma sse_push_spec:
  assumes "sse_ok f"
  shows "\<exists>f' out. sse_push now aq f xs = Some (f', out) \<and> sse_ok f'
    \<and> sse_maximum f' = sse_maximum f \<and> fo_limit_bytes out = sse_maximum f
    \<and> outcome_content out @ sse_pending f' = sse_pending f @ xs
    \<and> chunk_run (sse_fragmented f) (map cr_chunk (fo_records out)) = Some (sse_fragmented f')
    \<and> (\<forall>r \<in> set (fo_records out). length (as_slice (cr_bytes r)) \<le> sse_maximum f)"
  using sse_bytes_step [OF assms, of now aq "empty_outcome (sse_maximum f)" xs]
  by (auto simp: sse_push_def sse_step_def empty_outcome_def outcome_content_def)

lemma sse_finish_spec:
  assumes "sse_ok f" and "sse_finish t aq f = (f', recs)"
  shows "sse_ok f' \<and> sse_pending f' = [] \<and> \<not> sse_fragmented f'
    \<and> concat (map record_content recs) = sse_pending f
    \<and> chunk_run (sse_fragmented f) (map cr_chunk recs) = Some False
    \<and> (\<forall>r \<in> set recs. length (as_slice (cr_bytes r)) \<le> sse_maximum f)"
  using assms
  by (auto simp: sse_finish_def sse_ok_def Let_def sse_record_def record_content_def
      split: if_splits)

lemma sse_bytes_append:
  "sse_bytes now aq s (xs @ ys) =
    (case sse_bytes now aq s xs of None \<Rightarrow> None | Some s' \<Rightarrow> sse_bytes now aq s' ys)"
  by (induction xs arbitrary: s) (auto split: option.splits)

text \<open>The SSE framer meets the contract of a stream framer; the clock and the acquisition are
  its environment.\<close>

definition sse_push_records :: "(nat \<Rightarrow> int) \<times> uuid \<Rightarrow> sse_framer \<Rightarrow> byte list
    \<Rightarrow> (sse_framer \<times> captured_record list) option" where
  "sse_push_records = (\<lambda>(now, aq) f xs.
     map_option (\<lambda>(f', out). (f', fo_records out)) (sse_push now aq f xs))"

definition sse_finish_records :: "(nat \<Rightarrow> int) \<times> uuid \<Rightarrow> sse_framer
    \<Rightarrow> sse_framer \<times> captured_record list" where
  "sse_finish_records = (\<lambda>(now, aq). sse_finish (now 0) aq)"

interpretation sse: stream_framer sse_push_records sse_finish_records sse_pending
    record_content sse_ok
proof
  fix f and e :: "(nat \<Rightarrow> int) \<times> uuid" and xs :: "byte list"
  assume ok: "sse_ok f"
  obtain now aq where e: "e = (now, aq)" by (cases e)
  from sse_push_spec [OF ok, of now aq xs]
  show "\<exists>f' rs. sse_push_records e f xs = Some (f', rs) \<and> sse_ok f'
      \<and> concat (map record_content rs) @ sse_pending f' = sse_pending f @ xs"
    by (auto simp: sse_push_records_def e outcome_content_def)
next
  fix f e f' rs
  assume "sse_ok f" "sse_finish_records e f = (f', rs)"
  then show "sse_ok f' \<and> sse_pending f' = [] \<and> concat (map record_content rs) = sse_pending f"
    by (cases e) (auto simp: sse_finish_records_def dest: sse_finish_spec)
qed

section \<open>Well-formed event streams\<close>

text \<open>An event as a server writes it: non-blank lines, each ended by \<open>LF\<close>.\<close>

definition plain_line :: "byte list \<Rightarrow> bool" where
  "plain_line l \<longleftrightarrow> l \<noteq> [] \<and> CR \<notin> set l \<and> LF \<notin> set l"

definition sse_event :: "byte list list \<Rightarrow> byte list" where
  "sse_event ls = concat (map (\<lambda>l. l @ [LF]) ls)"

text \<open>The state between two events.\<close>

definition sse_idle :: "sse_framer \<Rightarrow> bool" where
  "sse_idle f \<longleftrightarrow> sse_pending f = [] \<and> sse_line_start f = 0 \<and> \<not> sse_carriage_return f
    \<and> \<not> sse_fragmented f"

lemma sse_enforce_short:
  "length (sse_pending f) \<le> sse_maximum f \<Longrightarrow> sse_enforce_limit now aq f out = Some (f, out)"
  by (simp add: sse_enforce_limit.simps [of now aq f out])

lemma sse_byte_plain:
  "\<not> sse_carriage_return f \<Longrightarrow> b \<noteq> CR \<Longrightarrow> b \<noteq> LF \<Longrightarrow> length (sse_pending f) < sse_maximum f
    \<Longrightarrow> sse_byte now aq (f, out) b = Some (f\<lparr>sse_pending := sse_pending f @ [b]\<rparr>, out)"
  by (simp add: sse_byte_def Let_def sse_enforce_short)

lemma sse_byte_LF_line:
  "\<not> sse_carriage_return f \<Longrightarrow> length (sse_pending f) < sse_maximum f
    \<Longrightarrow> sse_line_start f \<noteq> length (sse_pending f)
    \<Longrightarrow> sse_byte now aq (f, out) LF = Some (f\<lparr>sse_pending := sse_pending f @ [LF],
          sse_line_start := length (sse_pending f) + 1\<rparr>, out)"
  by (simp add: sse_byte_def sse_close_line_def Let_def sse_enforce_short)

lemma sse_bytes_plain:
  "\<not> sse_carriage_return f \<Longrightarrow> CR \<notin> set l \<Longrightarrow> LF \<notin> set l
    \<Longrightarrow> length (sse_pending f) + length l \<le> sse_maximum f
    \<Longrightarrow> sse_bytes now aq (f, out) l = Some (f\<lparr>sse_pending := sse_pending f @ l\<rparr>, out)"
  by (induction l arbitrary: f) (auto simp: sse_byte_plain)

lemma sse_bytes_line:
  assumes "\<not> sse_carriage_return f" "plain_line l" "sse_line_start f = length (sse_pending f)"
    "length (sse_pending f) + length l + 1 \<le> sse_maximum f"
  shows "sse_bytes now aq (f, out) (l @ [LF]) = Some (f\<lparr>sse_pending := sse_pending f @ l @ [LF],
      sse_line_start := length (sse_pending f @ l @ [LF])\<rparr>, out)"
  using assms by (simp add: sse_bytes_append sse_bytes_plain sse_byte_LF_line plain_line_def)

lemma sse_bytes_lines:
  "\<not> sse_carriage_return f \<Longrightarrow> \<forall>l \<in> set ls. plain_line l
    \<Longrightarrow> sse_line_start f = length (sse_pending f)
    \<Longrightarrow> length (sse_pending f) + length (sse_event ls) \<le> sse_maximum f
    \<Longrightarrow> sse_bytes now aq (f, out) (sse_event ls) = Some (f\<lparr>sse_pending := sse_pending f @ sse_event ls,
          sse_line_start := length (sse_pending f @ sse_event ls)\<rparr>, out)"
proof (induction ls arbitrary: f)
  case Nil
  then show ?case by (simp add: sse_event_def)
next
  case (Cons l ls)
  let ?f = "f\<lparr>sse_pending := sse_pending f @ l @ [LF],
      sse_line_start := length (sse_pending f @ l @ [LF])\<rparr>"
  have ev: "sse_event (l # ls) = (l @ [LF]) @ sse_event ls" by (simp add: sse_event_def)
  have "sse_bytes now aq (f, out) (l @ [LF]) = Some (?f, out)"
    using Cons.prems ev by (intro sse_bytes_line) auto
  moreover have "sse_bytes now aq (?f, out) (sse_event ls) = Some (?f\<lparr>sse_pending :=
      sse_pending ?f @ sse_event ls, sse_line_start := length (sse_pending ?f @ sse_event ls)\<rparr>, out)"
    using Cons.prems ev by (intro Cons.IH) auto
  ultimately show ?case unfolding ev sse_bytes_append by simp
qed

text \<open>What a record shows of an event.\<close>

definition event_view :: "captured_record \<Rightarrow> byte list \<times> byte list \<times> chunk_position" where
  "event_view r = (as_slice (cr_bytes r), as_slice (cr_delimiter r), cr_chunk r)"

lemma sse_bytes_event:
  assumes "sse_idle f" "\<forall>l \<in> set ls. plain_line l" "length (sse_event ls) \<le> sse_maximum f"
    "0 < sse_maximum f"
  shows "\<exists>f' out' r. sse_bytes now aq (f, out) (sse_event ls @ [LF]) = Some (f', out')
    \<and> sse_idle f' \<and> sse_maximum f' = sse_maximum f
    \<and> fo_records out' = fo_records out @ [r] \<and> event_view r = (sse_event ls, [LF], Complete)
    \<and> fo_last_event_id out' = (case last_event_id (sse_event ls) of
          None \<Rightarrow> fo_last_event_id out | Some i \<Rightarrow> Some i)"
proof -
  let ?g = "f\<lparr>sse_pending := sse_event ls, sse_line_start := length (sse_event ls)\<rparr>"
  have "sse_bytes now aq (f, out) (sse_event ls) = Some (?g, out)"
    using assms sse_bytes_lines [of f ls now aq out] by (simp add: sse_idle_def)
  then show ?thesis
    using assms by (auto simp: sse_bytes_append sse_byte_def sse_close_line_def Let_def
        sse_idle_def sse_enforce_short sse_record_def event_view_def chunk_of_def
        split: option.split)
qed

lemma sse_bytes_events:
  "sse_idle f \<Longrightarrow> 0 < sse_maximum f
    \<Longrightarrow> \<forall>ls \<in> set evs. (\<forall>l \<in> set ls. plain_line l) \<and> length (sse_event ls) \<le> sse_maximum f
    \<Longrightarrow> \<exists>f' out' new. sse_bytes now aq (f, out) (concat (map (\<lambda>ls. sse_event ls @ [LF]) evs))
          = Some (f', out')
      \<and> sse_idle f' \<and> fo_records out' = fo_records out @ new
      \<and> map event_view new = map (\<lambda>ls. (sse_event ls, [LF], Complete)) evs
      \<and> fo_last_event_id out' = foldl (\<lambda>acc ls. case last_event_id (sse_event ls) of
            None \<Rightarrow> acc | Some i \<Rightarrow> Some i) (fo_last_event_id out) evs"
proof (induction evs arbitrary: f out)
  case Nil
  then show ?case by simp
next
  case (Cons ls evs)
  obtain f1 o1 r where s: "sse_bytes now aq (f, out) (sse_event ls @ [LF]) = Some (f1, o1)"
    "sse_idle f1" "sse_maximum f1 = sse_maximum f" "fo_records o1 = fo_records out @ [r]"
    "event_view r = (sse_event ls, [LF], Complete)"
    "fo_last_event_id o1 = (case last_event_id (sse_event ls) of
        None \<Rightarrow> fo_last_event_id out | Some i \<Rightarrow> Some i)"
    using sse_bytes_event [of f ls now aq out] Cons.prems by auto
  obtain f2 o2 new where t:
    "sse_bytes now aq (f1, o1) (concat (map (\<lambda>ls. sse_event ls @ [LF]) evs)) = Some (f2, o2)"
    "sse_idle f2" "fo_records o2 = fo_records o1 @ new"
    "map event_view new = map (\<lambda>ls. (sse_event ls, [LF], Complete)) evs"
    "fo_last_event_id o2 = foldl (\<lambda>acc ls. case last_event_id (sse_event ls) of
        None \<Rightarrow> acc | Some i \<Rightarrow> Some i) (fo_last_event_id o1) evs"
    using Cons.IH [of f1 o1] Cons.prems s(2,3) by auto
  have "concat (map (\<lambda>ls. sse_event ls @ [LF]) (ls # evs))
      = (sse_event ls @ [LF]) @ concat (map (\<lambda>ls. sse_event ls @ [LF]) evs)" by simp
  then have "sse_bytes now aq (f, out) (concat (map (\<lambda>ls. sse_event ls @ [LF]) (ls # evs)))
      = Some (f2, o2)"
    by (simp only: sse_bytes_append [of now aq "(f, out)" "sse_event ls @ [LF]"] s(1) t(1)
        option.case)
  then show ?case using s t by (intro exI [of _ f2] exI [of _ o2] exI [of _ "r # new"]) simp
qed

section \<open>Properties\<close>

lemma sse_idle_new [simp]: "sse_idle (sse_new m)" "sse_maximum (sse_new m) = m"
  "sse_pending (sse_new m) = []"
  by (simp_all add: sse_idle_def sse_new_def)

lemma sse_ok_new [simp]: "0 < m \<Longrightarrow> sse_ok (sse_new m)"
  by (simp add: sse_ok_def sse_new_def)

text \<open>C16. SSE capture is byte-exact: any reads followed by a finish return, and the records'
  payloads and delimiters concatenate to the stream.\<close>

theorem sse_lossless:
  assumes "0 < maximum"
  shows "\<exists>f1 rs f2 rs2. feed sse_push_records chunks (sse_new maximum) = Some (f1, rs)
    \<and> sse_finish_records e f1 = (f2, rs2)
    \<and> concat (map record_content (rs @ rs2)) = concat (map snd chunks)"
  using sse.stream_conserves [of "sse_new maximum" chunks e] assms by (simp del: map_append) blast

theorem sse_lossless_witness:
  "\<exists>f1 rs f2 rs2. feed sse_push_records [(((\<lambda>_. 0), []), [97, CR]), (((\<lambda>_. 0), []), [LF, CR])]
      (sse_new 3) = Some (f1, rs)
    \<and> sse_finish_records ((\<lambda>_. 0), []) f1 = (f2, rs2)
    \<and> concat (map record_content (rs @ rs2)) = [97, CR, LF, CR]"
  using sse_lossless [of 3 "[(((\<lambda>_. 0), []), [97, CR]), (((\<lambda>_. 0), []), [LF, CR])]" "((\<lambda>_. 0), [])"]
  by simp

text \<open>A stream of events that fit the limit is framed one record per event: field lines as
  the payload, the blank line as the delimiter, marked Complete, and the resume point is the
  last event's id that set one.\<close>

theorem sse_frames_events:
  assumes "0 < maximum"
    and "\<forall>ls \<in> set evs. (\<forall>l \<in> set ls. plain_line l) \<and> length (sse_event ls) \<le> maximum"
  shows "\<exists>f' out. sse_push now aq (sse_new maximum) (concat (map (\<lambda>ls. sse_event ls @ [LF]) evs))
        = Some (f', out)
    \<and> sse_idle f'
    \<and> map event_view (fo_records out) = map (\<lambda>ls. (sse_event ls, [LF], Complete)) evs
    \<and> fo_last_event_id out = foldl (\<lambda>acc ls. case last_event_id (sse_event ls) of
          None \<Rightarrow> acc | Some i \<Rightarrow> Some i) None evs"
  using sse_bytes_events [of "sse_new maximum" evs now aq "empty_outcome maximum"] assms
  by (auto simp: sse_push_def empty_outcome_def)

theorem sse_frames_events_witness:
  "\<exists>f' out. sse_push (\<lambda>_. 0) [] (sse_new 8) [105, 100, 58, 55, LF, LF, 97, LF, LF] = Some (f', out)
    \<and> map event_view (fo_records out)
        = [([105, 100, 58, 55, LF], [LF], Complete), ([97, LF], [LF], Complete)]"
  using sse_frames_events [of 8 "[[[105, 100, 58, 55]], [[97]]]" "\<lambda>_. 0" "[]"]
  by (auto simp: plain_line_def sse_event_def)

text \<open>Where the framing does not do what its documentation says: an event ends at a blank
  line, but when the limit cuts a fragment just before the CR of a CRLF, the cut line's
  terminator is taken for one and the event is closed although no blank line was received.\<close>

theorem sse_crlf_cut_closes_event:
  "map_option (\<lambda>(f, out). (sse_fragmented f, map event_view (fo_records out)))
      (sse_push (\<lambda>_. 0) [] (sse_new 3) [97, 98, 99, CR, LF])
    = Some (False, [([97, 98, 99], [], Start), ([], [CR, LF], End)])"
  by (simp add: sse_push_def sse_byte_def sse_close_line_def Let_def sse_new_def empty_outcome_def
      sse_enforce_limit.simps sse_record_def event_view_def chunk_of_def last_event_id_def
      split_sse_lines_def split_sse_lines_at.simps)

end
