(* ===== verification/Restart.thy ===== *)
theory Restart
  imports Prelude
begin

text \<open>
  Bounded restart arithmetic of \<open>crates/lvu-core/src/restart.rs\<close>: exponential backoff with
  downward jitter, the splitmix64 jitter source, the sliding window of attempts, and the
  restart decision.  Durations and instants are nanoseconds; \<open>now.duration_since(o)\<close>
  saturates at zero, as subtraction on \<^typ>\<open>nat\<close> does.
\<close>

unbundle bit_operations_syntax

section \<open>Backoff\<close>

definition nanos_per_milli :: nat where "nanos_per_milli = 1000000"

definition maximum_backoff :: nat where "maximum_backoff = 300 * 1000000000"

definition maximum_tracked_attempts :: nat where "maximum_tracked_attempts = 1024"

record backoff =
  bo_initial :: nat
  bo_maximum :: nat
  bo_jitter_percent :: nat

definition backoff_default :: backoff where
  "backoff_default = \<lparr>bo_initial = 500 * nanos_per_milli,
     bo_maximum = 30000 * nanos_per_milli, bo_jitter_percent = 25\<rparr>"

definition base_delay :: "backoff \<Rightarrow> nat \<Rightarrow> nat" where
  "base_delay b attempt =
    (let ceiling = min (bo_maximum b) maximum_backoff in
     if attempt \<le> 1 then min (bo_initial b) ceiling
     else
       let shift = min (attempt - 1) 32;
           scaled = min (min ((bo_initial b div nanos_per_milli) * 2 ^ shift) (2 ^ 128 - 1)) u64_max
       in min (scaled * nanos_per_milli) ceiling)"

definition delay_with_jitter :: "backoff \<Rightarrow> nat \<Rightarrow> nat \<Rightarrow> nat" where
  "delay_with_jitter b attempt fraction0 =
    (let base = base_delay b attempt;
         percent = min (bo_jitter_percent b) 100;
         fraction = min fraction0 10000;
         millis = base div nanos_per_milli;
         removed = millis * percent * fraction div (100 * 10000)
     in min (millis - removed) u64_max * nanos_per_milli)"

section \<open>Jitter\<close>

datatype jitter = Jitter "64 word"

definition jitter_from_seed :: "64 word \<Rightarrow> jitter" where
  "jitter_from_seed seed = Jitter (seed OR 1)"

text \<open>splitmix64; the result is in 0..=10000.\<close>

definition next_fraction :: "jitter \<Rightarrow> nat \<times> jitter" where
  "next_fraction j = (case j of Jitter s0 \<Rightarrow>
    let s = s0 + 0x9E3779B97F4A7C15;
        z1 = (s XOR drop_bit 30 s) * 0xBF58476D1CE4E5B9;
        z2 = (z1 XOR drop_bit 27 z1) * 0x94D049BB133111EB;
        z3 = z2 XOR drop_bit 31 z2
    in (unat z3 mod 10001, Jitter s))"

definition backoff_delay :: "backoff \<Rightarrow> nat \<Rightarrow> jitter \<Rightarrow> nat \<times> jitter" where
  "backoff_delay b attempt j =
    (let (fraction, j') = next_fraction j in (delay_with_jitter b attempt fraction, j'))"

section \<open>The window of attempts\<close>

record attempt_window =
  aw_maximum :: nat
  aw_window :: nat
  aw_attempts :: "nat list"

definition window_new :: "nat \<Rightarrow> nat \<Rightarrow> attempt_window" where
  "window_new maximum window = \<lparr>aw_maximum = maximum, aw_window = window, aw_attempts = []\<rparr>"

text \<open>\<open>expire\<close> pops from the front while the oldest attempt has left the window.\<close>

fun expire_front :: "nat \<Rightarrow> nat \<Rightarrow> nat list \<Rightarrow> nat list" where
  "expire_front window now [] = []"
| "expire_front window now (oldest # rest) =
    (if now - oldest \<ge> window then expire_front window now rest else oldest # rest)"

definition window_expire :: "attempt_window \<Rightarrow> nat \<Rightarrow> attempt_window" where
  "window_expire w now = w\<lparr>aw_attempts := expire_front (aw_window w) now (aw_attempts w)\<rparr>"

definition window_used :: "attempt_window \<Rightarrow> nat \<Rightarrow> nat \<times> attempt_window" where
  "window_used w now = (let w' = window_expire w now in (length (aw_attempts w'), w'))"

definition window_permits :: "attempt_window \<Rightarrow> nat \<Rightarrow> bool \<times> attempt_window" where
  "window_permits w now = (let (used, w') = window_used w now in (used < aw_maximum w', w'))"

definition window_record :: "attempt_window \<Rightarrow> nat \<Rightarrow> attempt_window" where
  "window_record w now =
    (let w' = window_expire w now;
         kept = (if length (aw_attempts w') \<ge> maximum_tracked_attempts
                 then tl (aw_attempts w') else aw_attempts w')
     in w'\<lparr>aw_attempts := kept @ [now]\<rparr>)"

section \<open>Restart decisions\<close>

datatype restart_policy = Never | OnFailure | Always

record restart_bounds =
  rb_backoff :: backoff
  rb_maximum_restarts :: nat
  rb_window :: nat

definition restart_bounds_default :: restart_bounds where
  "restart_bounds_default = \<lparr>rb_backoff = backoff_default, rb_maximum_restarts = 5,
     rb_window = 60 * 1000000000\<rparr>"

datatype restart_decision =
    PolicyDeclines
  | BudgetExhausted nat nat
  | Restart nat nat

definition policy_restarts :: "restart_policy \<Rightarrow> bool option \<Rightarrow> bool" where
  "policy_restarts policy success =
    (case policy of
       Never \<Rightarrow> False
     | OnFailure \<Rightarrow> \<not> (case success of None \<Rightarrow> False | Some s \<Rightarrow> s)
     | Always \<Rightarrow> True)"

definition decide_restart ::
  "restart_policy \<Rightarrow> bool option \<Rightarrow> restart_bounds \<Rightarrow> attempt_window \<Rightarrow> jitter \<Rightarrow> nat
    \<Rightarrow> restart_decision \<times> attempt_window \<times> jitter" where
  "decide_restart policy success bounds w j now =
    (if \<not> policy_restarts policy success then (PolicyDeclines, w, j)
     else
       let (permitted, w1) = window_permits w now in
       if \<not> permitted then
         let (used, w2) = window_used w1 now
         in (BudgetExhausted used (aw_maximum w2), w2, j)
       else
         let w2 = window_record w1 now;
             (attempt, w3) = window_used w2 now;
             (delay, j') = backoff_delay (rb_backoff bounds) attempt j
         in (Restart attempt delay, w3, j'))"

section \<open>Backoff lemmas\<close>

lemma next_fraction_le: "fst (next_fraction j) \<le> 10000"
proof -
  have "n mod 10001 \<le> 10000" for n :: nat
    using mod_less_divisor [of 10001 n] by linarith
  then show ?thesis by (cases j) (simp add: next_fraction_def Let_def)
qed

lemma base_delay_ceiling: "base_delay b n \<le> min (bo_maximum b) maximum_backoff"
  by (auto simp: base_delay_def Let_def)

lemma base_delay_double:
  assumes "bo_initial b = k * nanos_per_milli"
  shows "base_delay b n = min (k * 2 ^ min (n - 1) 32 * nanos_per_milli)
      (min (bo_maximum b) maximum_backoff)"
proof (cases "n \<le> 1")
  case True
  then show ?thesis using assms by (simp add: base_delay_def Let_def)
next
  case False
  define x where "x = k * 2 ^ min (n - 1) 32"
  define c where "c = min (bo_maximum b) maximum_backoff"
  have big: "maximum_backoff < u64_max" "(u64_max :: nat) \<le> 2 ^ 128 - 1"
    by (simp_all add: maximum_backoff_def u64_max_def)
  have k: "bo_initial b div nanos_per_milli = k"
    using assms by (simp add: nanos_per_milli_def)
  have "min (min (min x (2 ^ 128 - 1)) u64_max * nanos_per_milli) c = min (x * nanos_per_milli) c"
  proof (cases "x \<le> u64_max")
    case True
    with big(2) have "min (min x (2 ^ 128 - 1)) u64_max = x" by (simp only: min.absorb1 order_trans)
    then show ?thesis by (simp only:)
  next
    case False
    with big(2) have u: "min (min x (2 ^ 128 - 1)) u64_max = u64_max"
      by (intro min.absorb2) (simp add: min_def)
    have c: "c \<le> y * nanos_per_milli" if "u64_max \<le> y" for y
    proof -
      have "c \<le> maximum_backoff" by (simp add: c_def)
      also have "\<dots> \<le> y" using big(1) that by simp
      also have "\<dots> \<le> y * nanos_per_milli" by (simp add: nanos_per_milli_def)
      finally show ?thesis .
    qed
    have "min (u64_max * nanos_per_milli) c = c" by (intro min.absorb2 c order_refl)
    moreover have "min (x * nanos_per_milli) c = c" using False by (intro min.absorb2 c) simp
    ultimately show ?thesis unfolding u by (simp only:)
  qed
  with False k show ?thesis
    unfolding base_delay_def Let_def x_def [symmetric] c_def [symmetric] by (simp add: x_def c_def)
qed

lemma delay_with_jitter_bounds:
  "delay_with_jitter b n f \<le> base_delay b n
   \<and> (base_delay b n div nanos_per_milli)
       - (base_delay b n div nanos_per_milli) * min (bo_jitter_percent b) 100 div 100
     \<le> delay_with_jitter b n f div nanos_per_milli"
proof -
  define m where "m = base_delay b n div nanos_per_milli"
  define p where "p = min (bo_jitter_percent b) 100"
  define removed where "removed = m * p * min f 10000 div (100 * 10000)"
  have "m \<le> u64_max"
  proof -
    have "base_delay b n \<le> maximum_backoff" using base_delay_ceiling [of b n] by simp
    then have "m \<le> maximum_backoff" by (simp add: m_def nanos_per_milli_def)
    then show ?thesis by (simp add: maximum_backoff_def u64_max_def)
  qed
  then have "m - removed \<le> u64_max" by simp
  then have d: "delay_with_jitter b n f = (m - removed) * nanos_per_milli"
    unfolding delay_with_jitter_def Let_def m_def [symmetric] p_def [symmetric]
      removed_def [symmetric] by (simp only: min.absorb1)
  have "removed \<le> m * p * 10000 div (100 * 10000)"
    unfolding removed_def by (intro div_le_mono mult_le_mono2) simp
  also have "\<dots> = m * p div 100" by simp
  finally have "removed \<le> m * p div 100" .
  moreover have "(m - removed) * nanos_per_milli \<le> m * nanos_per_milli"
    by (intro mult_le_mono1) simp
  moreover have "m * nanos_per_milli \<le> base_delay b n"
    unfolding m_def by (rule div_times_less_eq_dividend)
  ultimately show ?thesis
    unfolding d m_def [symmetric] p_def [symmetric]
    by (auto simp: nanos_per_milli_def intro: diff_le_mono2 order_trans)
qed

section \<open>Attempt budgets\<close>

text \<open>
  The contract a restarting loop relies on, whatever it restarts: calls at non-decreasing
  times are granted or refused, and the ghost history \<open>g\<close> of granted times shows at most
  \<open>limit\<close> of them in the window ending at each grant.
\<close>

text \<open>Times of which every window holds at most \<open>limit\<close> are few over any longer span.\<close>

lemma windowed_length:
  fixes g :: "nat list"
  assumes "sorted g" "0 < window" "\<forall>y \<in> set g. lo \<le> y \<and> y \<le> hi"
    and "\<And>pre x post. g = pre @ x # post \<Longrightarrow> length (filter (\<lambda>y. x - y < window) (pre @ [x])) \<le> limit"
  shows "length g \<le> limit * ((hi - lo) div window + 1)"
  using assms(1,3,4)
proof (induction g arbitrary: hi rule: length_induct)
  case (1 g)
  show ?case
  proof (cases g rule: rev_cases)
    case Nil
    then show ?thesis by simp
  next
    case (snoc ys x)
    let ?near = "filter (\<lambda>y. x - y < window) g"
    let ?far = "filter (\<lambda>y. \<not> x - y < window) g"
    have near: "length ?near \<le> limit" using 1(4) [of ys x "[]"] snoc by simp
    have x: "lo \<le> x" "x \<le> hi" "\<forall>y \<in> set g. y \<le> x" using 1(2,3) snoc by (auto simp: sorted_append)
    have split: "g = ?far @ ?near"
    proof -
      have "zs = filter (\<lambda>y. \<not> x - y < window) zs @ filter (\<lambda>y. x - y < window) zs" if "sorted zs" for zs
        using that
      proof (induction zs)
        case Nil
        then show ?case by simp
      next
        case (Cons z zs)
        show ?case
        proof (cases "x - z < window")
          case True
          then have "\<forall>y \<in> set zs. x - y < window" using Cons.prems by auto
          then have "filter (\<lambda>y. \<not> x - y < window) zs = []" "filter (\<lambda>y. x - y < window) zs = zs"
            by (auto simp: filter_empty_conv)
          then show ?thesis using True by simp
        next
          case False
          then show ?thesis using Cons by simp
        qed
      qed
      then show ?thesis using 1(2) .
    qed
    show ?thesis
    proof (cases "?far = []")
      case True
      then have "length g \<le> limit" using near split by (metis append_Nil)
      then show ?thesis by (simp add: trans_le_add1)
    next
      case False
      have x_in: "x \<in> set g" using snoc by simp
      have shorter: "length ?far < length g"
        using x_in assms(2) length_filter_less [of x g] by auto
      obtain y where y: "y \<in> set g" "\<not> x - y < window" using False by (auto simp: filter_empty_conv)
      then have far_off: "window \<le> x - lo" using 1(3) by fastforce
      have far_sorted: "sorted ?far" using 1(2) sorted_wrt_filter by blast
      have far_span: "\<forall>y \<in> set ?far. lo \<le> y \<and> y \<le> x - window"
      proof
        fix y
        assume "y \<in> set ?far"
        then have "lo \<le> y" "window \<le> x - y" using 1(3) by auto
        then show "lo \<le> y \<and> y \<le> x - window" using assms(2) by linarith
      qed
      have far_window: "length (filter (\<lambda>y. z - y < window) (pre @ [z])) \<le> limit"
        if "?far = pre @ z # post" for pre z post
        using 1(4) [of pre z "post @ ?near"] split that by simp
      have "length ?far \<le> limit * ((x - window - lo) div window + 1)"
        using 1(1) shorter far_sorted far_span far_window by blast
      also have "x - window - lo = x - lo - window" by simp
      also have "(x - lo - window) div window + 1 = (x - lo) div window"
        using far_off assms(2) by (simp add: le_div_geq)
      also have "limit * ((x - lo) div window) \<le> limit * ((hi - lo) div window)"
        using x by (intro mult_le_mono2 div_le_mono) simp
      finally have "length ?far \<le> limit * ((hi - lo) div window)" .
      moreover have "length g = length ?far + length ?near" using split by (metis length_append)
      ultimately show ?thesis using near by (simp add: add_mult_distrib2)
    qed
  qed
qed

fun granted_times :: "('w \<Rightarrow> 'c \<Rightarrow> nat \<Rightarrow> bool \<times> 'w) \<Rightarrow> 'w \<Rightarrow> ('c \<times> nat) list \<Rightarrow> nat list" where
  "granted_times att w [] = []"
| "granted_times att w ((c, t) # calls) =
    (let (granted, w') = att w c t
     in (if granted then [t] else []) @ granted_times att w' calls)"

locale attempt_budget =
  fixes attempt :: "'w \<Rightarrow> 'c \<Rightarrow> nat \<Rightarrow> bool \<times> 'w"
    and inv :: "'w \<Rightarrow> nat list \<Rightarrow> nat \<Rightarrow> bool"
    and limit :: nat
    and window :: nat
  assumes attempt_inv: "inv w g t \<Longrightarrow> t \<le> now \<Longrightarrow> attempt w c now = (granted, w')
      \<Longrightarrow> inv w' (if granted then g @ [now] else g) now"
    and attempt_limit: "inv w g t \<Longrightarrow> t \<le> now \<Longrightarrow> attempt w c now = (True, w')
      \<Longrightarrow> length (filter (\<lambda>y. now - y < window) (g @ [now])) \<le> limit"
begin

lemma granted_in_budget:
  "inv w g t \<Longrightarrow> sorted (t # map snd calls) \<Longrightarrow> granted_times attempt w calls = pre @ x # post
    \<Longrightarrow> length (filter (\<lambda>y. x - y < window) (g @ pre @ [x])) \<le> limit"
proof (induction calls arbitrary: w g t pre)
  case Nil
  then show ?case by simp
next
  case (Cons call calls)
  obtain c now where call: "call = (c, now)" by (cases call)
  obtain granted w' where att: "attempt w c now = (granted, w')" by (metis surj_pair)
  have t: "t \<le> now" "sorted (now # map snd calls)" using Cons.prems(2) call by auto
  have inv': "inv w' (if granted then g @ [now] else g) now"
    using attempt_inv [OF Cons.prems(1) t(1) att] .
  show ?case
  proof (cases granted)
    case False
    then show ?thesis using Cons.IH [of w' g now pre] inv' t Cons.prems(3) call att by simp
  next
    case True
    then have eq: "now # granted_times attempt w' calls = pre @ x # post"
      using Cons.prems(3) call att by simp
    show ?thesis
    proof (cases pre)
      case Nil
      then show ?thesis using eq attempt_limit [OF Cons.prems(1) t(1)] att True by simp
    next
      case (Cons p pre')
      then have "granted_times attempt w' calls = pre' @ x # post" "p = now"
        using eq by simp_all
      then show ?thesis
        using Cons.IH [of w' "g @ [now]" now pre'] inv' t(2) True Cons by simp
    qed
  qed
qed

text \<open>Over a span of any length, no more than \<open>limit\<close> per window begun.\<close>

lemma granted_sorted:
  "sorted (map snd calls) \<Longrightarrow> sorted (granted_times attempt w calls)
    \<and> set (granted_times attempt w calls) \<subseteq> set (map snd calls)"
  by (induction calls arbitrary: w) (fastforce split: prod.splits)+

lemma granted_bound:
  assumes "inv w [] t" "sorted (t # map snd calls)" "0 < window"
    and "\<forall>y \<in> set (map snd calls). lo \<le> y \<and> y \<le> hi"
  shows "length (granted_times attempt w calls) \<le> limit * ((hi - lo) div window + 1)"
proof (rule windowed_length [OF _ assms(3)])
  show "sorted (granted_times attempt w calls)"
    "\<forall>y \<in> set (granted_times attempt w calls). lo \<le> y \<and> y \<le> hi"
    using granted_sorted [of calls w] assms(2,4) by auto
  show "length (filter (\<lambda>y. x - y < window) (pre @ [x])) \<le> limit"
    if "granted_times attempt w calls = pre @ x # post" for pre x post
    using granted_in_budget [OF assms(1,2) that] by simp
qed

end

section \<open>The window keeps its budget\<close>

definition window_inv :: "nat \<Rightarrow> nat \<Rightarrow> attempt_window \<Rightarrow> nat list \<Rightarrow> nat \<Rightarrow> bool" where
  "window_inv limit window w g t \<longleftrightarrow>
     sorted g \<and> (\<forall>x \<in> set g. x \<le> t) \<and> 0 < window \<and> limit \<le> maximum_tracked_attempts
   \<and> aw_maximum w = limit \<and> aw_window w = window
   \<and> aw_attempts w = filter (\<lambda>x. t - x < window) g"

lemma expire_front_filter:
  "sorted xs \<Longrightarrow> expire_front window now xs = filter (\<lambda>x. now - x < window) xs"
proof (induction xs)
  case Nil
  then show ?case by simp
next
  case (Cons x xs)
  show ?case
  proof (cases "now - x \<ge> window")
    case True
    then show ?thesis using Cons by simp
  next
    case False
    have "now - y < window" if "y \<in> set xs" for y
    proof -
      have "x \<le> y" using Cons.prems that by simp
      then show ?thesis using False by simp
    qed
    then have "filter (\<lambda>x. now - x < window) xs = xs" by simp
    with False show ?thesis by simp
  qed
qed

lemma window_expire_inv:
  assumes "window_inv limit window w g t" "t \<le> now"
  shows "window_inv limit window (window_expire w now) g now"
proof -
  have "filter (\<lambda>x. now - x < window) (filter (\<lambda>x. t - x < window) g)
      = filter (\<lambda>x. now - x < window) g"
    using assms(2) by (auto simp: filter_filter intro!: filter_cong)
  then show ?thesis
    using assms by (auto simp: window_inv_def window_expire_def expire_front_filter sorted_wrt_filter
        intro: order_trans)
qed

lemma window_expire_again [simp]:
  "window_inv limit window w g t \<Longrightarrow> window_expire w t = w"
  by (simp add: window_inv_def window_expire_def expire_front_filter sorted_wrt_filter)

text \<open>Asking and, when permitted, recording: what both restarting loops do at one instant.\<close>

definition window_try :: "attempt_window \<Rightarrow> unit \<Rightarrow> nat \<Rightarrow> bool \<times> attempt_window" where
  "window_try w u now =
    (let (permitted, w1) = window_permits w now
     in if permitted then (True, window_record w1 now) else (False, w1))"

lemma window_record_inv:
  assumes "window_inv limit window w g now" "length (aw_attempts w) < limit"
  shows "window_inv limit window (window_record w now) (g @ [now]) now"
proof -
  have "window_record w now = w\<lparr>aw_attempts := aw_attempts w @ [now]\<rparr>"
    unfolding window_record_def Let_def window_expire_again [OF assms(1)]
    using assms by (simp add: window_inv_def)
  then show ?thesis using assms by (auto simp: window_inv_def sorted_append)
qed

text \<open>A window last touched at some earlier instant.\<close>

definition window_hist :: "nat \<Rightarrow> nat \<Rightarrow> attempt_window \<Rightarrow> nat list \<Rightarrow> nat \<Rightarrow> bool" where
  "window_hist limit window w g t \<longleftrightarrow> (\<exists>t' \<le> t. window_inv limit window w g t')"

lemma window_histE:
  assumes "window_hist limit window w g t" "t \<le> now"
  obtains t' where "t' \<le> now" "window_inv limit window w g t'"
  using assms by (auto simp: window_hist_def intro: order_trans)

lemma window_histI: "window_inv limit window w g t \<Longrightarrow> window_hist limit window w g t"
  by (auto simp: window_hist_def)

lemma window_hist_new:
  "0 < window \<Longrightarrow> limit \<le> maximum_tracked_attempts
    \<Longrightarrow> window_hist limit window (window_new limit window) [] t"
  by (intro window_histI) (simp add: window_inv_def window_new_def)

interpretation wb: attempt_budget window_try "window_hist limit window" limit window
  for limit window
proof
  fix w g t0 now c granted w'
  assume hist: "window_hist limit window w g t0" "t0 \<le> now"
  from window_histE [OF hist] obtain t
    where t: "t \<le> now" and inv: "window_inv limit window w g t" .
  let ?w1 = "window_expire w now"
  note inv1 = window_expire_inv [OF inv t]
  have permits: "window_permits w now = (length (aw_attempts ?w1) < limit, ?w1)"
    using inv1 by (simp add: window_permits_def window_used_def Let_def window_inv_def)
  {
    assume "window_try w c now = (granted, w')"
    then show "window_hist limit window w' (if granted then g @ [now] else g) now"
      using window_histI [OF inv1] window_histI [OF window_record_inv [OF inv1]]
      by (auto simp: window_try_def permits split: if_splits)
  }
  {
    assume "window_try w c now = (True, w')"
    then have "length (aw_attempts ?w1) < limit"
      by (auto simp: window_try_def permits split: if_splits)
    then show "length (filter (\<lambda>x. now - x < window) (g @ [now])) \<le> limit"
      using inv1 by (simp add: window_inv_def)
  }
qed

text \<open>\<open>decide_restart\<close> as an attempt: the call is the policy and the outcome.\<close>

definition restart_attempt :: "restart_bounds \<Rightarrow> attempt_window \<times> jitter
    \<Rightarrow> restart_policy \<times> bool option \<Rightarrow> nat \<Rightarrow> bool \<times> (attempt_window \<times> jitter)" where
  "restart_attempt bounds = (\<lambda>(w, j) (policy, success) now.
    case decide_restart policy success bounds w j now of
      (Restart attempt delay, w', j') \<Rightarrow> (True, (w', j'))
    | (_, w', j') \<Rightarrow> (False, (w', j')))"

lemma decide_restart_try:
  assumes "window_inv limit window w g t" "t \<le> now"
  shows "decide_restart policy success bounds w j now =
    (if \<not> policy_restarts policy success then (PolicyDeclines, w, j)
     else case window_try w () now of
       (False, w') \<Rightarrow> (BudgetExhausted (length (aw_attempts w')) limit, w', j)
     | (True, w') \<Rightarrow>
         (let (d, j') = backoff_delay (rb_backoff bounds) (length (aw_attempts w')) j
          in (Restart (length (aw_attempts w')) d, w', j')))"
proof -
  let ?w1 = "window_expire w now"
  note inv1 = window_expire_inv [OF assms]
  have permits: "window_permits w now = (length (aw_attempts ?w1) < limit, ?w1)"
    using inv1 by (simp add: window_permits_def window_used_def Let_def window_inv_def)
  have mx: "aw_maximum ?w1 = limit" using inv1 by (simp add: window_inv_def)
  show ?thesis
    using inv1 mx window_expire_again [OF inv1] window_expire_again [OF window_record_inv [OF inv1]]
    by (auto simp: decide_restart_def window_try_def permits window_used_def Let_def
        split: prod.splits)
qed

interpretation rb: attempt_budget "restart_attempt bounds"
    "\<lambda>s g t. window_hist limit window (fst s) g t" limit window
  for bounds limit window
proof
  fix s :: "attempt_window \<times> jitter" and g t0 now and c :: "restart_policy \<times> bool option"
    and granted s'
  assume hist: "window_hist limit window (fst s) g t0" "t0 \<le> now"
  from window_histE [OF hist] obtain t
    where t: "t \<le> now" and inv: "window_inv limit window (fst s) g t" .
  obtain w j policy success where s: "s = (w, j)" "c = (policy, success)" by (metis surj_pair)
  have wi: "window_inv limit window w g t" using inv s by simp
  obtain b w' where tr: "window_try w () now = (b, w')" by (metis surj_pair)
  have att: "restart_attempt bounds s c now =
      (if policy_restarts policy success
       then (b, (w', if b then snd (backoff_delay (rb_backoff bounds) (length (aw_attempts w')) j)
                     else j))
       else (False, (w, j)))"
    unfolding restart_attempt_def s by (simp add: decide_restart_try [OF wi t] tr Let_def
        split: prod.splits bool.splits)
  have keep: "window_hist limit window w' (if b then g @ [now] else g) now"
    using wb.attempt_inv [OF window_histI [OF wi] t tr] .
  have same: "window_hist limit window w g now"
    using t wi by (auto simp: window_hist_def)
  {
    assume "restart_attempt bounds s c now = (granted, s')"
    then show "window_hist limit window (fst s') (if granted then g @ [now] else g) now"
      using keep same att by (auto split: if_splits)
  }
  {
    assume "restart_attempt bounds s c now = (True, s')"
    then have "b" using att by (auto split: if_splits)
    then show "length (filter (\<lambda>y. now - y < window) (g @ [now])) \<le> limit"
      using wb.attempt_limit [OF window_histI [OF wi] t] tr by simp
  }
qed


section \<open>Beyond the tracked attempts\<close>

text \<open>
  \<open>record\<close> keeps at most \<^const>\<open>maximum_tracked_attempts\<close> attempts, whatever the maximum; a
  larger maximum is therefore never reached.
\<close>

lemma expire_front_length: "length (expire_front window now xs) \<le> length xs"
  by (induction xs) auto

lemma window_expire_small:
  "length (aw_attempts w) \<le> n \<Longrightarrow> length (aw_attempts (window_expire w now)) \<le> n"
  using expire_front_length [of "aw_window w" now "aw_attempts w"]
  by (simp add: window_expire_def)

lemma window_expire_maximum [simp]: "aw_maximum (window_expire w now) = aw_maximum w"
  by (simp add: window_expire_def)

lemma window_record_small:
  assumes "length (aw_attempts w) \<le> maximum_tracked_attempts"
  shows "length (aw_attempts (window_record w now)) \<le> maximum_tracked_attempts
       \<and> aw_maximum (window_record w now) = aw_maximum w"
  using window_expire_small [OF assms, of now]
  by (auto simp: window_record_def Let_def maximum_tracked_attempts_def)

lemma restart_attempt_untracked:
  assumes "length (aw_attempts w) \<le> maximum_tracked_attempts"
    and "maximum_tracked_attempts < aw_maximum w"
  obtains w' j' where
    "restart_attempt bounds (w, j) (policy, success) now = (policy_restarts policy success, (w', j'))"
    "length (aw_attempts w') \<le> maximum_tracked_attempts" "aw_maximum w' = aw_maximum w"
proof (cases "policy_restarts policy success")
  case False
  show ?thesis
    by (rule that [of w j]) (use False assms in \<open>simp_all add: restart_attempt_def decide_restart_def\<close>)
next
  case True
  let ?w1 = "window_expire w now"
  let ?w3 = "window_expire (window_record ?w1 now) now"
  have small: "length (aw_attempts ?w1) \<le> maximum_tracked_attempts"
    using assms(1) by (rule window_expire_small)
  have permits: "window_permits w now = (True, ?w1)"
    using small assms(2) by (simp add: window_permits_def window_used_def Let_def)
  note rec = window_record_small [OF small, of now]
  obtain d j' where d: "backoff_delay (rb_backoff bounds) (length (aw_attempts ?w3)) j = (d, j')"
    by (metis surj_pair)
  have "decide_restart policy success bounds w j now
      = (Restart (length (aw_attempts ?w3)) d, ?w3, j')"
    using True by (simp add: decide_restart_def permits window_used_def Let_def d)
  moreover have "length (aw_attempts ?w3) \<le> maximum_tracked_attempts" "aw_maximum ?w3 = aw_maximum w"
    using rec window_expire_small [of "window_record ?w1 now" maximum_tracked_attempts now] by auto
  ultimately show ?thesis
    using True by (intro that [of ?w3 j']) (simp_all add: restart_attempt_def)
qed

section \<open>Properties\<close>

text \<open>Restart budget.  A command source asks \<open>decide_restart\<close> after each finished run, at
  non-decreasing instants, with any policies and outcomes, from a fresh window and any jitter
  state.  Every restart granted is, together with the earlier grants still inside the window that
  ends at it, within \<open>maximum_restarts\<close>, for every maximum up to the number of attempts tracked.\<close>

theorem restart_budget:
  assumes "0 < window" "limit \<le> maximum_tracked_attempts"
    and "sorted (map snd calls)"
    and "granted_times (restart_attempt bounds) (window_new limit window, j) calls = pre @ x # post"
  shows "length (filter (\<lambda>y. x - y < window) (pre @ [x])) \<le> limit"
proof -
  have "sorted (0 # map snd calls)" using assms(3) by simp
  then show ?thesis
    using rb.granted_in_budget [of limit window "(window_new limit window, j)" "[]" 0 calls bounds
        pre x post] window_hist_new [OF assms(1,2)] assms(4)
    by simp
qed

theorem restart_budget_witness:
  "length (filter (\<lambda>y. 3 - y < (10::nat)) ([] @ [3])) \<le> (1::nat)"
proof (rule restart_budget [of 10 1 "[((Always, None), 3), ((OnFailure, Some False), 5)]"
      restart_bounds_default "Jitter 1" "[]" 3 "[]"])
  show "granted_times (restart_attempt restart_bounds_default) (window_new 1 10, Jitter 1)
      [((Always, None), 3), ((OnFailure, Some False), 5)] = [] @ 3 # []"
    by (simp add: restart_attempt_def decide_restart_def window_permits_def window_used_def
        window_expire_def window_record_def window_new_def policy_restarts_def
        maximum_tracked_attempts_def split: prod.splits)
qed (simp_all add: maximum_tracked_attempts_def)

text \<open>A restart decision on every branch.  On a window that holds exactly the granted attempts
  of its period: a policy that does not restart the outcome declines and touches nothing; a spent
  budget is reported with the number of attempts in the window and the maximum, granting nothing;
  otherwise the attempt is recorded, numbered by its position in the window, and delayed by no
  more than the configured maximum and the five minute ceiling.\<close>

theorem decide_restart_branches:
  assumes "window_inv limit window w g t" "t \<le> now"
  defines "used \<equiv> length (filter (\<lambda>x. now - x < window) g)"
  shows "case decide_restart policy success bounds w j now of
      (PolicyDeclines, w', j') \<Rightarrow> \<not> policy_restarts policy success \<and> w' = w \<and> j' = j
    | (BudgetExhausted n m, w', j') \<Rightarrow> policy_restarts policy success \<and> n = used \<and> m = limit
        \<and> limit \<le> used \<and> j' = j \<and> window_inv limit window w' g now
    | (Restart n d, w', j') \<Rightarrow> policy_restarts policy success \<and> n = used + 1 \<and> n \<le> limit
        \<and> d \<le> min (bo_maximum (rb_backoff bounds)) maximum_backoff
        \<and> window_inv limit window w' (g @ [now]) now"
proof -
  let ?w1 = "window_expire w now"
  note inv1 = window_expire_inv [OF assms(1,2)]
  have len: "length (aw_attempts ?w1) = used" using inv1 by (simp add: window_inv_def used_def)
  have permits: "window_permits w now = (used < limit, ?w1)"
    using inv1 len by (simp add: window_permits_def window_used_def Let_def window_inv_def)
  have delay: "fst (backoff_delay b n j) \<le> min (bo_maximum b) maximum_backoff" for b n
    using delay_with_jitter_bounds [of b n] base_delay_ceiling [of b n]
    by (auto simp: backoff_delay_def split: prod.splits intro: order_trans)
  show ?thesis
  proof (cases "policy_restarts policy success \<and> used < limit")
    case True
    note inv2 = window_record_inv [OF inv1, unfolded len, OF True [THEN conjunct2]]
    have "length (aw_attempts (window_record ?w1 now)) = used + 1"
      using inv2 assms(1) by (simp add: window_inv_def used_def)
    with True inv2 delay [of "rb_backoff bounds" "used + 1"] show ?thesis
      unfolding decide_restart_try [OF assms(1,2)]
      by (auto simp: window_try_def permits split: prod.splits)
  next
    case False
    then show ?thesis
      unfolding decide_restart_try [OF assms(1,2)]
      using inv1 len by (auto simp: window_try_def permits)
  qed
qed

theorem decide_restart_branches_witness:
  "case decide_restart OnFailure None restart_bounds_default (window_new 1 60) (Jitter 1) 7 of
      (PolicyDeclines, w', j') \<Rightarrow> False
    | (BudgetExhausted n m, w', j') \<Rightarrow> False
    | (Restart n d, w', j') \<Rightarrow> n = 1 \<and> d \<le> 30000 * nanos_per_milli \<and> window_inv 1 60 w' [7] 7"
proof -
  have "window_inv 1 60 (window_new 1 60) [] 0"
    by (simp add: window_inv_def window_new_def maximum_tracked_attempts_def)
  from decide_restart_branches [OF this, where now = 7 and policy = OnFailure and success = None
      and bounds = restart_bounds_default and j = "Jitter 1"]
  show ?thesis
    by (auto simp: policy_restarts_def restart_bounds_default_def backoff_default_def
        split: prod.splits restart_decision.splits)
qed

text \<open>Backoff.  For an initial delay of whole milliseconds the delay before attempt \<open>n\<close> is the
  initial delay doubled \<open>n - 1\<close> times (at most 32), cut at the configured maximum and at
  five minutes, and jitter takes away at most the configured share: the delay drawn lies between
  the delay less its share and the delay, in milliseconds.\<close>

theorem backoff_doubles_with_bounded_jitter:
  assumes "bo_initial b = k * nanos_per_milli"
  shows "let base = min (k * 2 ^ min (n - 1) 32 * nanos_per_milli)
           (min (bo_maximum b) maximum_backoff);
         millis = base div nanos_per_milli;
         d = fst (backoff_delay b n j)
     in base_delay b n = base \<and> d \<le> base
        \<and> millis - millis * min (bo_jitter_percent b) 100 div 100 \<le> d div nanos_per_milli"
  using delay_with_jitter_bounds [of b n "fst (next_fraction j)"]
  unfolding Let_def base_delay_double [OF assms, of n]
  by (simp add: backoff_delay_def case_prod_beta)

theorem backoff_doubles_with_bounded_jitter_witness:
  "base_delay backoff_default 3 = 2000 * nanos_per_milli
   \<and> fst (backoff_delay backoff_default 3 (Jitter 7)) \<le> 2000 * nanos_per_milli"
  using backoff_doubles_with_bounded_jitter [of backoff_default 500 3 "Jitter 7"]
  by (simp add: backoff_default_def nanos_per_milli_def maximum_backoff_def Let_def)

text \<open>A maximum above 1024 is no budget.  The window remembers at most 1024 attempts, so with a
  larger configured maximum every call whose policy restarts is granted, however many there are in
  one window and whatever the window is.\<close>

theorem restart_budget_lost_above_tracked:
  assumes "maximum_tracked_attempts < limit"
  shows "granted_times (restart_attempt bounds) (window_new limit window, j) calls
       = map snd (filter (\<lambda>((policy, success), t). policy_restarts policy success) calls)"
proof -
  have "granted_times (restart_attempt bounds) (w, j) calls
       = map snd (filter (\<lambda>((policy, success), t). policy_restarts policy success) calls)"
    if "length (aw_attempts w) \<le> maximum_tracked_attempts"
      "maximum_tracked_attempts < aw_maximum w" for w
    using that
  proof (induction calls arbitrary: w j)
    case Nil
    then show ?case by simp
  next
    case (Cons call calls)
    obtain policy success t where call: "call = ((policy, success), t)" by (metis surj_pair)
    from restart_attempt_untracked [OF Cons.prems, of bounds j policy success t]
    obtain w' j' where att: "restart_attempt bounds (w, j) (policy, success) t
        = (policy_restarts policy success, (w', j'))"
      and w': "length (aw_attempts w') \<le> maximum_tracked_attempts" "aw_maximum w' = aw_maximum w" .
    show ?case
      using Cons.IH [of w' j'] w' Cons.prems(2) by (simp add: call att)
  qed
  then show ?thesis using assms by (simp add: window_new_def)
qed

theorem restart_budget_lost_above_tracked_witness:
  "granted_times (restart_attempt restart_bounds_default) (window_new 2000 60, Jitter 1)
      (replicate 3000 ((Always, None), 7)) = replicate 3000 7"
  by (simp add: restart_budget_lost_above_tracked maximum_tracked_attempts_def policy_restarts_def)

end
