(* ===== verification/Journal.thy ===== *)
theory Journal
  imports Model "HOL-Library.Sublist"
begin

text \<open>
  The journal file of \<open>crates/lvu-core/src/journal.rs\<close>: the frame format (encode, frame,
  header, body), the recovery scan, and bounded paging.  The checksum \<open>crc32fast::hash\<close> is the
  parameter \<open>crc\<close>, any function of the bytes; nothing here relies on it detecting anything.
  A file is the list of its bytes; the \<open>io::Error\<close>s of the operating system on a read are
  returned by the code unchanged and are left out, an \<open>UnexpectedEof\<close> is not.
\<close>

section \<open>Constants and errors\<close>

definition journal_magic :: "byte list" where "journal_magic = [76, 86, 85, 50]"
definition journal_header :: nat where "journal_header = 16"
definition journal_fixed :: nat where "journal_fixed = 58"
definition max_frame :: nat where "max_frame = 2 * 1024 * 1024"

datatype journal_error =
    Io
  | Corrupt nat string
  | AlreadyOpen
  | Poisoned
  | WrongSource
  | FrameTooLarge

section \<open>Encoding\<close>

definition i64_bytes :: "int \<Rightarrow> byte list" where
  "i64_bytes t = le_bytes 8 (nat (t mod 2 ^ 64))"

definition i64_value :: "byte list \<Rightarrow> int" where
  "i64_value bs = (let n = int (le_nat bs) in if n < 2 ^ 63 then n else n - 2 ^ 64)"

definition stream_code :: "stream_kind \<Rightarrow> byte" where
  "stream_code s = (case s of Stdout \<Rightarrow> 0 | Stderr \<Rightarrow> 1 | File \<Rightarrow> 2 | Http \<Rightarrow> 3 | Stdin \<Rightarrow> 4)"

definition code_stream :: "byte \<Rightarrow> stream_kind option" where
  "code_stream b =
    (if b = 0 then Some Stdout else if b = 1 then Some Stderr else if b = 2 then Some File
     else if b = 3 then Some Http else if b = 4 then Some Stdin else None)"

definition chunk_code :: "chunk_position \<Rightarrow> byte" where
  "chunk_code c = (case c of Complete \<Rightarrow> 0 | Start \<Rightarrow> 1 | Continue \<Rightarrow> 2 | End \<Rightarrow> 3)"

definition code_chunk :: "byte \<Rightarrow> chunk_position option" where
  "code_chunk b =
    (if b = 0 then Some Complete else if b = 1 then Some Start
     else if b = 2 then Some Continue else if b = 3 then Some End else None)"

fun source_bytes :: "source_id \<Rightarrow> uuid" where "source_bytes (SourceId u) = u"

definition encode_into :: "raw_record \<Rightarrow> journal_error + byte list" where
  "encode_into r =
    (let bytes = as_slice (rr_bytes r); delimiter = as_slice (rr_delimiter r) in
     if journal_fixed + length bytes + length delimiter > max_frame then Inl FrameTooLarge
     else Inr (le_bytes 8 (rid_sequence (rr_id r)) @ source_bytes (rid_source (rr_id r))
       @ i64_bytes (rr_captured_at r) @ [stream_code (rr_stream r)] @ rr_acquisition r
       @ [chunk_code (rr_chunk r)] @ le_bytes 4 (length bytes) @ le_bytes 4 (length delimiter)
       @ bytes @ delimiter))"

text \<open>The header's checksum is taken over the twelve bytes just written.\<close>

definition push_frame :: "(byte list \<Rightarrow> 32 word) \<Rightarrow> byte list \<Rightarrow> byte list \<Rightarrow> byte list" where
  "push_frame crc out body =
    (let start = length out;
         out1 = out @ journal_magic @ le_bytes 4 (length body) @ le_bytes 4 (unat (crc body));
         header_checksum = crc (segment out1 start (start + 12))
     in out1 @ le_bytes 4 (unat header_checksum) @ body)"

section \<open>Reading frames\<close>

definition read_exact :: "byte list \<Rightarrow> nat \<Rightarrow> nat \<Rightarrow> journal_error + byte list" where
  "read_exact file offset n =
    (if offset + n \<le> length file then Inr (segment file offset (offset + n)) else Inl Io)"

record frame_header =
  fh_length :: nat
  fh_body_checksum :: nat

definition read_header ::
  "(byte list \<Rightarrow> 32 word) \<Rightarrow> byte list \<Rightarrow> nat \<Rightarrow> journal_error + frame_header" where
  "read_header crc file offset =
    (case read_exact file offset journal_header of
       Inl e \<Rightarrow> Inl e
     | Inr bytes \<Rightarrow>
         if take 4 bytes \<noteq> journal_magic then Inl (Corrupt offset ''bad frame magic'')
         else if unat (crc (take 12 bytes)) \<noteq> le_nat (segment bytes 12 16)
         then Inl (Corrupt offset ''header checksum mismatch'')
         else
           let len = le_nat (segment bytes 4 8) in
           if \<not> (journal_fixed \<le> len \<and> len \<le> max_frame)
           then Inl (Corrupt offset ''invalid frame length'')
           else Inr \<lparr>fh_length = len, fh_body_checksum = le_nat (segment bytes 8 12)\<rparr>)"

text \<open>\<open>decode\<close> is called on bodies of at least 58 bytes only (\<open>read_header\<close> checks it), so
  none of its slices is out of range.\<close>

definition decode :: "byte list \<Rightarrow> source_id \<Rightarrow> raw_record option" where
  "decode body source =
    (if segment body 8 24 \<noteq> source_bytes source then None
     else case code_stream (body ! 32) of
       None \<Rightarrow> None
     | Some stream \<Rightarrow>
         (case code_chunk (body ! 49) of
            None \<Rightarrow> None
          | Some chunk \<Rightarrow>
              let bytes_len = le_nat (segment body 50 54);
                  delimiter_len = le_nat (segment body 54 58)
              in if journal_fixed + bytes_len + delimiter_len \<noteq> length body then None
                 else Some \<lparr>rr_id = \<lparr>rid_source = source,
                          rid_sequence = le_nat (segment body 0 8)\<rparr>,
                        rr_captured_at = i64_value (segment body 24 32),
                        rr_stream = stream,
                        rr_bytes = from_shared body 58 (58 + bytes_len),
                        rr_delimiter = from_shared body (58 + bytes_len) (length body),
                        rr_acquisition = segment body 33 49,
                        rr_chunk = chunk\<rparr>))"

definition read_body ::
  "(byte list \<Rightarrow> 32 word) \<Rightarrow> byte list \<Rightarrow> nat \<Rightarrow> source_id \<Rightarrow> frame_header
    \<Rightarrow> journal_error + (raw_record \<times> nat)" where
  "read_body crc file offset source header =
    (case read_exact file (offset + journal_header) (fh_length header) of
       Inl e \<Rightarrow> Inl e
     | Inr body \<Rightarrow>
         if unat (crc body) \<noteq> fh_body_checksum header
         then Inl (Corrupt offset ''body checksum mismatch'')
         else case decode body source of
                None \<Rightarrow> Inl (Corrupt offset ''invalid frame body'')
              | Some r \<Rightarrow> Inr (r, journal_header + fh_length header))"

definition read_complete_frame ::
  "(byte list \<Rightarrow> 32 word) \<Rightarrow> byte list \<Rightarrow> nat \<Rightarrow> nat \<Rightarrow> source_id
    \<Rightarrow> journal_error + (raw_record \<times> nat)" where
  "read_complete_frame crc file offset len_total source =
    (if len_total - offset < journal_header
     then Inl (Corrupt offset ''page begins at incomplete frame'')
     else case read_header crc file offset of
            Inl e \<Rightarrow> Inl e
          | Inr header \<Rightarrow>
              if len_total - offset < journal_header + fh_length header
              then Inl (Corrupt offset ''page encounters incomplete frame'')
              else read_body crc file offset source header)"

section \<open>The recovery scan\<close>

record scan_meta =
  sm_records :: nat
  sm_valid_len :: nat
  sm_maximum_sequence :: "nat option"

function scan_from ::
  "(byte list \<Rightarrow> 32 word) \<Rightarrow> byte list \<Rightarrow> source_id \<Rightarrow> nat \<Rightarrow> nat \<Rightarrow> nat option
    \<Rightarrow> journal_error + scan_meta" where
  "scan_from crc file source offset records maximum =
    (let scan_end = Inr \<lparr>sm_records = records, sm_valid_len = offset, sm_maximum_sequence = maximum\<rparr>;
         len_total = length file
     in
     if \<not> offset < len_total then scan_end
     else if len_total - offset < journal_header then scan_end
     else case read_header crc file offset of
       Inl e \<Rightarrow> Inl e
     | Inr header \<Rightarrow>
         let frame_len = journal_header + fh_length header in
         if len_total - offset < frame_len then scan_end
         else case read_body crc file offset source header of
           Inl e \<Rightarrow> Inl e
         | Inr (r, _) \<Rightarrow>
             let sequence = rid_sequence (rr_id r) in
             if (case maximum of None \<Rightarrow> False | Some l \<Rightarrow> sequence \<le> l)
             then Inl (Corrupt offset ''non-monotonic sequence'')
             else scan_from crc file source (offset + frame_len) (records + 1) (Some sequence))"
  by pat_completeness auto
termination
  by (relation "measure (\<lambda>(crc, file, source, offset, records, maximum). length file - offset)")
     (auto simp: journal_header_def)

declare scan_from.simps [simp del]

definition scan_metadata ::
  "(byte list \<Rightarrow> 32 word) \<Rightarrow> byte list \<Rightarrow> source_id \<Rightarrow> journal_error + scan_meta" where
  "scan_metadata crc file source = scan_from crc file source 0 0 None"

section \<open>Pages\<close>

record journal_page =
  pg_records :: "raw_record list"
  pg_next_offset :: nat
  pg_end_of_journal :: bool

definition payload_bytes :: "raw_record \<Rightarrow> nat" where
  "payload_bytes r = length (as_slice (rr_bytes r)) + length (as_slice (rr_delimiter r))"

text \<open>The loop of \<open>read_page_from\<close>: cursor, bytes decoded so far, records so far.  A
  \<open>usize\<close> saturates at \<open>2 ^ 64 - 1\<close>.\<close>

function page_from ::
  "(byte list \<Rightarrow> 32 word) \<Rightarrow> byte list \<Rightarrow> source_id \<Rightarrow> nat \<Rightarrow> nat \<Rightarrow> nat \<Rightarrow> nat
    \<Rightarrow> raw_record list \<Rightarrow> journal_error + (raw_record list \<times> nat)" where
  "page_from crc file source max_records max_bytes cursor decoded records =
    (if cursor < length file \<and> length records < max_records then
       case read_complete_frame crc file cursor (length file) source of
         Inl e \<Rightarrow> Inl e
       | Inr (r, frame_len) \<Rightarrow>
           let decoded' = saturating_add_u64 decoded (payload_bytes r) in
           if records \<noteq> [] \<and> decoded' > max_bytes then Inr (records, cursor)
           else if decoded' \<ge> max_bytes then Inr (records @ [r], cursor + frame_len)
           else page_from crc file source max_records max_bytes (cursor + frame_len) decoded'
                  (records @ [r])
     else Inr (records, cursor))"
  by pat_completeness auto
termination
  by (relation "measure (\<lambda>(crc, file, source, mr, mb, cursor, d, records). mr - length records)")
     auto

declare page_from.simps [simp del]

definition read_page_from ::
  "(byte list \<Rightarrow> 32 word) \<Rightarrow> byte list \<Rightarrow> source_id \<Rightarrow> nat \<Rightarrow> nat \<Rightarrow> nat
    \<Rightarrow> journal_error + journal_page" where
  "read_page_from crc file source offset max_records max_bytes =
    (let len_total = length file in
     if offset > len_total then Inl (Corrupt offset ''page offset beyond journal'')
     else if max_records = 0 \<or> max_bytes = 0
     then Inr \<lparr>pg_records = [], pg_next_offset = offset, pg_end_of_journal = (offset = len_total)\<rparr>
     else case page_from crc file source max_records max_bytes offset 0 [] of
       Inl e \<Rightarrow> Inl e
     | Inr (records, cursor) \<Rightarrow>
         Inr \<lparr>pg_records = records, pg_next_offset = cursor,
              pg_end_of_journal = (cursor = len_total)\<rparr>)"

section \<open>What a record is on disk\<close>

text \<open>The values Rust's types admit, for a record of \<open>source\<close>.\<close>

definition record_ok :: "source_id \<Rightarrow> raw_record \<Rightarrow> bool" where
  "record_ok source r \<longleftrightarrow>
     rid_source (rr_id r) = source \<and> length (source_bytes source) = 16
   \<and> rid_sequence (rr_id r) < 2 ^ 64 \<and> length (rr_acquisition r) = 16
   \<and> - (2 ^ 63) \<le> rr_captured_at r \<and> rr_captured_at r < 2 ^ 63"

text \<open>What the derived equality of \<open>RawRecord\<close> compares.\<close>

definition raw_view :: "raw_record \<Rightarrow>
    record_id \<times> int \<times> stream_kind \<times> byte list \<times> byte list \<times> uuid \<times> chunk_position" where
  "raw_view r = (rr_id r, rr_captured_at r, rr_stream r, as_slice (rr_bytes r),
     as_slice (rr_delimiter r), rr_acquisition r, rr_chunk r)"

definition frame :: "(byte list \<Rightarrow> 32 word) \<Rightarrow> byte list \<Rightarrow> byte list" where
  "frame crc body = push_frame crc [] body"

lemma length_magic [simp]: "length journal_magic = 4"
  by (simp add: journal_magic_def)

lemma push_frame_append: "push_frame crc out body = out @ frame crc body"
  by (simp add: frame_def push_frame_def Let_def segment_append)

lemma frame_layout:
  "\<exists>h. frame crc body = journal_magic @ le_bytes 4 (length body) @ le_bytes 4 (unat (crc body))
       @ le_bytes 4 (unat h) @ body
     \<and> h = crc (take 12 (frame crc body))"
  by (simp add: frame_def push_frame_def Let_def segment_append segment_def)

lemma length_frame [simp]: "length (frame crc body) = journal_header + length body"
  by (simp add: frame_def push_frame_def Let_def journal_header_def)

lemma unat_crc_less: "unat (w :: 32 word) < 4294967296"
proof -
  have "unat w < 2 ^ LENGTH(32)" by (rule unsigned_less)
  then show ?thesis by simp
qed

lemma i64_value_bytes:
  assumes "- (2 ^ 63) \<le> t" "t < 2 ^ 63"
  shows "i64_value (i64_bytes t) = t"
proof -
  have n: "nat (t mod 2 ^ 64) < 256 ^ 8"
    using pos_mod_bound [of "2 ^ 64" t] by (simp add: nat_less_iff)
  have v: "int (le_nat (i64_bytes t)) = t mod 2 ^ 64"
    unfolding i64_bytes_def using n by simp
  show ?thesis
  proof (cases "0 \<le> t")
    case True
    then have "t mod 2 ^ 64 = t" using assms by simp
    then show ?thesis using assms by (simp add: i64_value_def v Let_def)
  next
    case False
    then have "(t + 2 ^ 64) mod 2 ^ 64 = t + 2 ^ 64"
      using assms by (intro mod_pos_pos_trivial) auto
    then have "t mod 2 ^ 64 = t + 2 ^ 64" by (simp only: mod_add_self2)
    then show ?thesis using assms False by (simp add: i64_value_def v Let_def)
  qed
qed

lemma code_stream_code [simp]: "code_stream (stream_code s) = Some s"
  by (cases s) (simp_all add: code_stream_def stream_code_def)

lemma code_chunk_code [simp]: "code_chunk (chunk_code c) = Some c"
  by (cases c) (simp_all add: code_chunk_def chunk_code_def)

lemma length_i64_bytes [simp]: "length (i64_bytes t) = 8"
  by (simp add: i64_bytes_def)

lemma encode_into_Inr:
  "encode_into r = Inr body \<longleftrightarrow>
     journal_fixed + length (as_slice (rr_bytes r)) + length (as_slice (rr_delimiter r)) \<le> max_frame
   \<and> body = le_bytes 8 (rid_sequence (rr_id r)) @ source_bytes (rid_source (rr_id r))
       @ i64_bytes (rr_captured_at r) @ [stream_code (rr_stream r)] @ rr_acquisition r
       @ [chunk_code (rr_chunk r)] @ le_bytes 4 (length (as_slice (rr_bytes r)))
       @ le_bytes 4 (length (as_slice (rr_delimiter r)))
       @ as_slice (rr_bytes r) @ as_slice (rr_delimiter r)"
  by (auto simp: encode_into_def Let_def)

lemma encode_into_length:
  assumes "record_ok source r" "encode_into r = Inr body"
  shows "length body = journal_fixed + length (as_slice (rr_bytes r))
           + length (as_slice (rr_delimiter r))"
    and "journal_fixed \<le> length body" "length body \<le> max_frame"
  using assms by (auto simp: encode_into_Inr record_ok_def journal_fixed_def)

lemma decode_encode:
  assumes ok: "record_ok source r" and enc: "encode_into r = Inr body"
  shows "\<exists>r'. decode body source = Some r' \<and> raw_view r' = raw_view r
    \<and> retained_payload_bytes (rr_bytes r') = length body
    \<and> bytes_in_range (rr_bytes r') \<and> bytes_in_range (rr_delimiter r')"
proof -
  let ?p = "as_slice (rr_bytes r)" and ?d = "as_slice (rr_delimiter r)"
  have lens: "length (source_bytes source) = 16" "length (rr_acquisition r) = 16"
    "rid_source (rr_id r) = source" "rid_sequence (rr_id r) < 256 ^ 8"
    using ok by (simp_all add: record_ok_def)
  have body: "body = le_bytes 8 (rid_sequence (rr_id r)) @ source_bytes source
       @ i64_bytes (rr_captured_at r) @ [stream_code (rr_stream r)] @ rr_acquisition r
       @ [chunk_code (rr_chunk r)] @ le_bytes 4 (length ?p) @ le_bytes 4 (length ?d) @ ?p @ ?d"
    using enc lens(3) by (simp add: encode_into_Inr)
  have small: "length ?p < 256 ^ 4" "length ?d < 256 ^ 4"
    using enc by (simp_all add: encode_into_Inr max_frame_def)
  have fields: "segment body 0 8 = le_bytes 8 (rid_sequence (rr_id r))"
    "segment body 8 24 = source_bytes source"
    "segment body 24 32 = i64_bytes (rr_captured_at r)"
    "segment body 33 49 = rr_acquisition r"
    "segment body 50 54 = le_bytes 4 (length ?p)" "segment body 54 58 = le_bytes 4 (length ?d)"
    "body ! 32 = stream_code (rr_stream r)" "body ! 49 = chunk_code (rr_chunk r)"
    "segment body 58 (58 + length ?p) = ?p"
    "segment body (58 + length ?p) (length body) = ?d"
    "length body = 58 + length ?p + length ?d"
    unfolding body using lens(1,2) by (simp_all add: segment_append segment_Cons_pos nth_append)
  have i: "i64_value (i64_bytes (rr_captured_at r)) = rr_captured_at r"
    using ok by (intro i64_value_bytes) (simp_all add: record_ok_def)
  have id: "\<lparr>rid_source = source, rid_sequence = rid_sequence (rr_id r)\<rparr> = rr_id r"
    using lens(3) by simp
  have n: "le_nat (le_bytes 8 (rid_sequence (rr_id r))) = rid_sequence (rr_id r)"
    "le_nat (le_bytes 4 (length ?p)) = length ?p" "le_nat (le_bytes 4 (length ?d)) = length ?d"
    using lens(4) small by (simp_all only: le_nat_le_bytes)
  have "decode body source = Some \<lparr>rr_id = rr_id r, rr_captured_at = rr_captured_at r,
      rr_stream = rr_stream r, rr_bytes = from_shared body 58 (58 + length ?p),
      rr_delimiter = from_shared body (58 + length ?p) (length body),
      rr_acquisition = rr_acquisition r, rr_chunk = rr_chunk r\<rparr>"
    unfolding decode_def fields Let_def n i id journal_fixed_def by simp
  then show ?thesis
    using fields(9-11) by (simp add: raw_view_def retained_payload_bytes_def from_shared_def
        as_slice_def bytes_in_range_def del: length_segment)
qed

text \<open>A 32-bit length field holds the length of any body a journal frames.\<close>

lemma header_fields:
  assumes "journal_fixed \<le> length body" "length body \<le> max_frame"
    and "take 16 rest = take 16 (frame crc body)" "16 \<le> length rest"
  shows "read_header crc (pre @ rest) (length pre)
       = Inr \<lparr>fh_length = length body, fh_body_checksum = unat (crc body)\<rparr>"
proof -
  obtain h where fr: "frame crc body = journal_magic @ le_bytes 4 (length body)
      @ le_bytes 4 (unat (crc body)) @ le_bytes 4 (unat h) @ body"
    and h: "h = crc (take 12 (frame crc body))" using frame_layout by blast
  have read: "read_exact (pre @ rest) (length pre) journal_header = Inr (take 16 (frame crc body))"
    using assms(3,4) by (simp add: read_exact_def journal_header_def segment_append)
      (simp add: segment_def)
  have small: "length body < 256 ^ 4" "unat (crc body) < 256 ^ 4" "unat h < 256 ^ 4"
    using assms(2) unat_crc_less by (simp_all add: max_frame_def)
  let ?b = "take 16 (frame crc body)"
  have parts: "take 4 ?b = journal_magic" "take 12 ?b = take 12 (frame crc body)"
    "segment ?b 12 16 = le_bytes 4 (unat h)" "segment ?b 4 8 = le_bytes 4 (length body)"
    "segment ?b 8 12 = le_bytes 4 (unat (crc body))"
    unfolding fr by (simp_all add: segment_append)
  show ?thesis
    unfolding read_header_def read sum.case parts Let_def h [symmetric]
    using assms(1,2) small by simp
qed

section \<open>Whole frames\<close>

definition storable :: "source_id \<Rightarrow> raw_record \<Rightarrow> bool" where
  "storable source r \<longleftrightarrow> record_ok source r \<and>
     journal_fixed + length (as_slice (rr_bytes r)) + length (as_slice (rr_delimiter r)) \<le> max_frame"

definition record_frame :: "(byte list \<Rightarrow> 32 word) \<Rightarrow> raw_record \<Rightarrow> byte list" where
  "record_frame crc r = (case encode_into r of Inl _ \<Rightarrow> [] | Inr body \<Rightarrow> frame crc body)"

definition journal_bytes :: "(byte list \<Rightarrow> 32 word) \<Rightarrow> raw_record list \<Rightarrow> byte list" where
  "journal_bytes crc rs = concat (map (record_frame crc) rs)"

definition rr_sequence :: "raw_record \<Rightarrow> nat" where
  "rr_sequence r = rid_sequence (rr_id r)"

lemma journal_bytes_simps [simp]:
  "journal_bytes crc [] = []"
  "journal_bytes crc (r # rs) = record_frame crc r @ journal_bytes crc rs"
  "journal_bytes crc (rs @ rs') = journal_bytes crc rs @ journal_bytes crc rs'"
  by (simp_all add: journal_bytes_def)

lemma raw_view_sequence: "raw_view r' = raw_view r \<Longrightarrow> rr_sequence r' = rr_sequence r"
  by (simp add: raw_view_def rr_sequence_def)

lemma raw_view_payload: "raw_view r' = raw_view r \<Longrightarrow> payload_bytes r' = payload_bytes r"
  by (simp add: raw_view_def payload_bytes_def)

lemma storableE:
  assumes "storable source r"
  obtains body where "encode_into r = Inr body" "record_frame crc r = frame crc body"
    "journal_fixed \<le> length body" "length body \<le> max_frame" "record_ok source r"
    "length body = journal_fixed + payload_bytes r"
proof -
  have "\<exists>body. encode_into r = Inr body"
    using assms by (simp add: storable_def encode_into_Inr)
  then obtain body where b: "encode_into r = Inr body" ..
  have ok: "record_ok source r" using assms by (simp add: storable_def)
  show ?thesis
    using that [OF b] encode_into_length [OF ok b] ok b
    by (simp add: record_frame_def payload_bytes_def)
qed

lemma record_frame_length:
  "storable source r \<Longrightarrow> length (record_frame crc r) = journal_header + journal_fixed + payload_bytes r"
  by (erule storableE [where crc = crc]) simp

lemma read_whole_frame:
  assumes "storable source r"
  shows "\<exists>h r'. read_header crc (pre @ record_frame crc r @ post) (length pre) = Inr h
    \<and> journal_header + fh_length h = length (record_frame crc r)
    \<and> read_body crc (pre @ record_frame crc r @ post) (length pre) source h
        = Inr (r', length (record_frame crc r))
    \<and> raw_view r' = raw_view r \<and> bytes_in_range (rr_bytes r') \<and> bytes_in_range (rr_delimiter r')"
proof -
  obtain body where enc: "encode_into r = Inr body" "record_frame crc r = frame crc body"
    and len: "journal_fixed \<le> length body" "length body \<le> max_frame" and ok: "record_ok source r"
    using storableE [OF assms] by metis
  obtain r' where dec: "decode body source = Some r'" "raw_view r' = raw_view r"
    "bytes_in_range (rr_bytes r')" "bytes_in_range (rr_delimiter r')"
    using decode_encode [OF ok enc(1)] by blast
  have hdr: "read_header crc (pre @ frame crc body @ post) (length pre)
      = Inr \<lparr>fh_length = length body, fh_body_checksum = unat (crc body)\<rparr>"
    using len by (intro header_fields) (simp_all add: journal_header_def journal_fixed_def)
  obtain h where fr: "frame crc body = journal_magic @ le_bytes 4 (length body)
      @ le_bytes 4 (unat (crc body)) @ le_bytes 4 (unat h) @ body"
    and "h = crc (take 12 (frame crc body))" using frame_layout by blast
  have "read_exact (pre @ frame crc body @ post) (length pre + journal_header) (length body) = Inr body"
    unfolding read_exact_def fr by (simp add: segment_append journal_header_def)
  with dec show ?thesis
    unfolding enc(2) hdr by (simp add: read_body_def)
qed

section \<open>Recovery\<close>

text \<open>What an interrupted write leaves after the last whole frame: a proper prefix of a frame.\<close>

definition torn_tail :: "(byte list \<Rightarrow> 32 word) \<Rightarrow> source_id \<Rightarrow> byte list \<Rightarrow> bool" where
  "torn_tail crc source t \<longleftrightarrow> (\<exists>r. storable source r \<and> strict_prefix t (record_frame crc r))"

lemma scan_torn:
  assumes "t = [] \<or> torn_tail crc source t"
  shows "scan_from crc (pre @ t) source (length pre) n mx
    = Inr \<lparr>sm_records = n, sm_valid_len = length pre, sm_maximum_sequence = mx\<rparr>"
proof (cases "length t < journal_header")
  case True
  then show ?thesis by (subst scan_from.simps) (simp add: Let_def)
next
  case False
  then have "t \<noteq> []" by (auto simp: journal_header_def)
  with assms obtain r where r: "storable source r" "strict_prefix t (record_frame crc r)"
    by (auto simp: torn_tail_def)
  obtain body where enc: "record_frame crc r = frame crc body"
    and len: "journal_fixed \<le> length body" "length body \<le> max_frame"
    using storableE [OF r(1)] by metis
  obtain u where u: "frame crc body = t @ u" "u \<noteq> []"
    using r(2) enc by (auto simp: strict_prefix_def prefix_def)
  have "read_header crc (pre @ t) (length pre)
      = Inr \<lparr>fh_length = length body, fh_body_checksum = unat (crc body)\<rparr>"
    using False u by (intro header_fields len) (simp_all add: journal_header_def)
  moreover have "length t < journal_header + length body"
    using arg_cong [OF u(1), of length] u(2) by simp
  ultimately show ?thesis using False by (subst scan_from.simps) (simp add: Let_def)
qed

lemma scan_frames:
  assumes "t = [] \<or> torn_tail crc source t"
    and "\<forall>r \<in> set rs. storable source r" and "sorted_wrt (<) (map rr_sequence rs)"
    and "\<forall>l. mx = Some l \<longrightarrow> (\<forall>r \<in> set rs. l < rr_sequence r)"
  shows "scan_from crc (pre @ journal_bytes crc rs @ t) source (length pre) n mx
    = Inr \<lparr>sm_records = n + length rs, sm_valid_len = length pre + length (journal_bytes crc rs),
           sm_maximum_sequence = (if rs = [] then mx else Some (rr_sequence (last rs)))\<rparr>"
  using assms(2-4)
proof (induction rs arbitrary: pre n mx)
  case Nil
  then show ?case using scan_torn [OF assms(1)] by simp
next
  case (Cons r rs)
  let ?post = "journal_bytes crc rs @ t"
  obtain h r' where h: "read_header crc (pre @ record_frame crc r @ ?post) (length pre) = Inr h"
    "journal_header + fh_length h = length (record_frame crc r)"
    "read_body crc (pre @ record_frame crc r @ ?post) (length pre) source h
        = Inr (r', length (record_frame crc r))" "raw_view r' = raw_view r"
    using read_whole_frame [of source r crc pre ?post] Cons.prems(1) by auto
  have long: "journal_header \<le> length (record_frame crc r)" using h(2) by linarith
  then have pos: "0 < length (record_frame crc r)" by (auto simp: journal_header_def)
  have s: "rid_sequence (rr_id r') = rr_sequence r"
    using raw_view_sequence [OF h(4)] by (simp add: rr_sequence_def)
  have mono: "\<not> (case mx of None \<Rightarrow> False | Some l \<Rightarrow> rid_sequence (rr_id r') \<le> l)"
    using Cons.prems(3) s by (auto split: option.splits)
  have IH: "scan_from crc ((pre @ record_frame crc r) @ ?post) source
      (length (pre @ record_frame crc r)) (n + 1) (Some (rr_sequence r))
    = Inr \<lparr>sm_records = n + 1 + length rs,
           sm_valid_len = length (pre @ record_frame crc r) + length (journal_bytes crc rs),
           sm_maximum_sequence = (if rs = [] then Some (rr_sequence r)
                                  else Some (rr_sequence (last rs)))\<rparr>"
    using Cons.prems by (intro Cons.IH) auto
  have "scan_from crc (pre @ record_frame crc r @ ?post) source (length pre) n mx
      = scan_from crc (pre @ record_frame crc r @ ?post) source
          (length pre + length (record_frame crc r)) (n + 1) (Some (rr_sequence r))"
    using long pos mono by (subst scan_from.simps) (simp add: h s Let_def)
  then show ?case using IH by simp
qed

section \<open>Soundness of what is read\<close>

lemma code_stream_Some: "code_stream b = Some x \<Longrightarrow> stream_code x = b"
  by (auto simp: code_stream_def stream_code_def split: if_splits)

lemma code_chunk_Some: "code_chunk b = Some x \<Longrightarrow> chunk_code x = b"
  by (auto simp: code_chunk_def chunk_code_def split: if_splits)

lemma i64_bytes_value:
  assumes "length bs = 8"
  shows "i64_bytes (i64_value bs) = bs" "- (2 ^ 63) \<le> i64_value bs" "i64_value bs < 2 ^ 63"
proof -
  have "le_nat bs < 256 ^ 8" using le_nat_less [of bs] assms by simp
  then have n: "int (le_nat bs) < 2 ^ 64" by simp
  then have "i64_value bs mod 2 ^ 64 = int (le_nat bs)"
    by (simp add: i64_value_def Let_def mod_diff_eq [symmetric] mod_pos_pos_trivial
        del: of_nat_numeral)
  then show "i64_bytes (i64_value bs) = bs"
    using le_bytes_le_nat [of bs] assms by (simp add: i64_bytes_def)
  show "- (2 ^ 63) \<le> i64_value bs" "i64_value bs < 2 ^ 63"
    using n by (simp_all add: i64_value_def Let_def)
qed

lemma body_fields:
  assumes "58 \<le> length (body :: byte list)" "p \<le> length body - 58"
  shows "body = segment body 0 8 @ segment body 8 24 @ segment body 24 32 @ [body ! 32]
      @ segment body 33 49 @ [body ! 49] @ segment body 50 54 @ segment body 54 58
      @ segment body 58 (58 + p) @ segment body (58 + p) (length body)"
proof -
  have cut: "segment body a (length body) = segment body a b @ segment body b (length body)"
    if "a \<le> b" "b \<le> length body" for a b
    using that by (simp add: segment_append_slice)
  have one: "segment body i (length body) = [body ! i] @ segment body (Suc i) (length body)"
    if "i < length body" for i
    using cut [of i "Suc i"] that by (simp add: segment_Suc)
  have "body = segment body 0 (length body)" by simp
  also have "\<dots> = segment body 0 8 @ segment body 8 24 @ segment body 24 32
      @ segment body 32 (length body)"
    using assms cut [of 0 8] cut [of 8 24] cut [of 24 32] by simp
  also have "segment body 32 (length body) = [body ! 32] @ segment body 33 49
      @ segment body 49 (length body)"
    using assms one [of 32] cut [of 33 49] by simp
  also have "segment body 49 (length body) = [body ! 49] @ segment body 50 54
      @ segment body 54 58 @ segment body 58 (58 + p) @ segment body (58 + p) (length body)"
    using assms one [of 49] cut [of 50 54] cut [of 54 58] cut [of 58 "58 + p"] by simp
  finally show ?thesis by simp
qed

lemma decode_sound:
  assumes dec: "decode body source = Some r"
    and len: "58 \<le> length body" "length body \<le> max_frame" and src: "length (source_bytes source) = 16"
  shows "record_ok source r \<and> encode_into r = Inr body"
proof -
  obtain st ch where st: "code_stream (body ! 32) = Some st" and ch: "code_chunk (body ! 49) = Some ch"
    and sb: "segment body 8 24 = source_bytes source"
    using dec by (auto simp: decode_def split: if_splits option.splits)
  define p where "p = le_nat (segment body 50 54)"
  define d where "d = le_nat (segment body 54 58)"
  have fits: "58 + p + d = length body"
    and r: "r = \<lparr>rr_id = \<lparr>rid_source = source, rid_sequence = le_nat (segment body 0 8)\<rparr>,
       rr_captured_at = i64_value (segment body 24 32), rr_stream = st,
       rr_bytes = from_shared body 58 (58 + p), rr_delimiter = from_shared body (58 + p) (length body),
       rr_acquisition = segment body 33 49, rr_chunk = ch\<rparr>"
    using dec st ch sb by (auto simp: decode_def journal_fixed_def p_def d_def Let_def split: if_splits)
  have seq: "le_bytes 8 (le_nat (segment body 0 8)) = segment body 0 8"
    "le_bytes 4 p = segment body 50 54" "le_bytes 4 d = segment body 54 58"
    using le_bytes_le_nat [of "segment body 0 8"] le_bytes_le_nat [of "segment body 50 54"]
      le_bytes_le_nat [of "segment body 54 58"] len by (simp_all add: p_def d_def)
  have plen: "length (segment body 58 (58 + p)) = p" "length (segment body (58 + p) (length body)) = d"
    using fits by simp_all
  have i64: "i64_bytes (i64_value (segment body 24 32)) = segment body 24 32"
    "- (2 ^ 63) \<le> i64_value (segment body 24 32)" "i64_value (segment body 24 32) < 2 ^ 63"
    using i64_bytes_value [of "segment body 24 32"] len by simp_all
  have "le_nat (segment body 0 8) < 2 ^ 64"
    using le_nat_less [of "segment body 0 8"] len by simp
  then have "record_ok source r"
    unfolding record_ok_def r using src i64 len by simp
  moreover have "encode_into r = Inr body"
    unfolding encode_into_Inr r
    using body_fields [of body p] fits len seq plen i64(1) sb code_stream_Some [OF st] code_chunk_Some [OF ch]
    by (simp add: journal_fixed_def)
  ultimately show ?thesis by simp
qed

text \<open>A frame read at an offset is there, byte for byte, as the writer would write it.\<close>

lemma frame_read_sound:
  assumes h: "read_header crc file offset = Inr h"
    and b: "read_body crc file offset source h = Inr (r, n)"
    and src: "length (source_bytes source) = 16"
  shows "n = journal_header + fh_length h \<and> offset + n \<le> length file
    \<and> storable source r \<and> segment file offset (offset + n) = record_frame crc r"
proof -
  let ?hb = "segment file offset (offset + 16)"
  have room: "offset + 16 \<le> length file" "read_exact file offset journal_header = Inr ?hb"
    using h by (auto simp: read_header_def read_exact_def journal_header_def split: if_splits)
  have hdr: "take 4 ?hb = journal_magic" "unat (crc (take 12 ?hb)) = le_nat (segment ?hb 12 16)"
    "journal_fixed \<le> fh_length h" "fh_length h \<le> max_frame"
    "fh_length h = le_nat (segment ?hb 4 8)" "fh_body_checksum h = le_nat (segment ?hb 8 12)"
    using h room(2) by (auto simp: read_header_def Let_def split: if_splits)
  let ?body = "segment file (offset + 16) (offset + 16 + fh_length h)"
  have bd: "offset + 16 + fh_length h \<le> length file" "unat (crc ?body) = fh_body_checksum h"
    "decode ?body source = Some r" "n = 16 + fh_length h"
    using b by (auto simp: read_body_def read_exact_def journal_header_def
        split: if_splits option.splits sum.splits)
  have blen: "length ?body = fh_length h" using bd(1) by simp
  have rec: "record_ok source r" "encode_into r = Inr ?body"
    using decode_sound [OF bd(3) _ _ src] blen hdr(3,4) by (simp_all add: journal_fixed_def)
  have le: "le_bytes 4 (fh_length h) = segment ?hb 4 8" "le_bytes 4 (fh_body_checksum h) = segment ?hb 8 12"
    "le_bytes 4 (unat (crc (take 12 ?hb))) = segment ?hb 12 16"
    using le_bytes_le_nat [of "segment ?hb 4 8"] le_bytes_le_nat [of "segment ?hb 8 12"]
      le_bytes_le_nat [of "segment ?hb 12 16"] room(1) hdr(2,5,6) by simp_all
  have hb12: "take 12 ?hb = journal_magic @ segment ?hb 4 8 @ segment ?hb 8 12"
  proof -
    have "take 12 ?hb = take 4 ?hb @ segment ?hb 4 8 @ segment ?hb 8 12"
      using take_add [of 4 8 "take 16 (drop offset file)"]
        take_add [of 4 4 "drop 4 (take 16 (drop offset file))"]
      by (simp add: segment_def drop_take add.commute)
    then show ?thesis by (simp only: hdr(1))
  qed
  have hb: "?hb = take 12 ?hb @ segment ?hb 12 16"
    using append_take_drop_id [of 12 ?hb] by (simp add: drop_segment segment_alt)
  have "frame crc ?body = take 12 ?hb @ le_bytes 4 (unat (crc (take 12 ?hb))) @ ?body"
    unfolding frame_def push_frame_def Let_def blen bd(2) le hb12
    using room(1) by (simp add: segment_append le min_def)
  also have "\<dots> = ?hb @ ?body" using hb le(3) by simp
  also have "\<dots> = segment file offset (offset + n)"
    using bd(1,4) by (simp add: segment_append_slice add.assoc)
  finally have "segment file offset (offset + n) = record_frame crc r"
    using rec(2) by (simp add: record_frame_def)
  moreover have "storable source r"
    using rec by (simp add: storable_def encode_into_Inr)
  ultimately show ?thesis using bd(1,4) by (simp add: journal_header_def)
qed

lemma scan_sound:
  assumes "scan_from crc file source offset n mx = Inr m" "length (source_bytes source) = 16"
    and "offset \<le> length file"
  shows "\<exists>rs. offset \<le> sm_valid_len m \<and> sm_valid_len m \<le> length file
    \<and> segment file offset (sm_valid_len m) = journal_bytes crc rs
    \<and> (\<forall>r \<in> set rs. storable source r) \<and> sm_records m = n + length rs
    \<and> sorted_wrt (<) (map rr_sequence rs) \<and> (\<forall>l. mx = Some l \<longrightarrow> (\<forall>r \<in> set rs. l < rr_sequence r))
    \<and> sm_maximum_sequence m = (if rs = [] then mx else Some (rr_sequence (last rs)))"
  using assms
proof (induction "length file - offset" arbitrary: offset n mx rule: less_induct)
  case less
  show ?case
  proof (cases "m = \<lparr>sm_records = n, sm_valid_len = offset, sm_maximum_sequence = mx\<rparr>")
    case True
    then show ?thesis using less.prems(3) by (intro exI [of _ "[]"]) simp
  next
    case False
    then obtain h where nxt: "offset < length file" "\<not> length file - offset < journal_header"
      and h: "read_header crc file offset = Inr h"
      and room: "\<not> length file - offset < journal_header + fh_length h"
      using less.prems(1)
      by (subst (asm) scan_from.simps) (auto simp: Let_def split: if_splits sum.splits)
    with False obtain r k where b: "read_body crc file offset source h = Inr (r, k)"
      and mono: "\<not> (case mx of None \<Rightarrow> False | Some l \<Rightarrow> rid_sequence (rr_id r) \<le> l)"
      and rest: "scan_from crc file source (offset + (journal_header + fh_length h)) (n + 1)
        (Some (rid_sequence (rr_id r))) = Inr m"
      using less.prems(1)
      by (subst (asm) scan_from.simps) (auto simp: Let_def split: if_splits sum.splits)
    note sound = frame_read_sound [OF h b less.prems(2)]
    have "offset + (journal_header + fh_length h) \<le> length file" using sound by simp
    moreover have "length file - (offset + (journal_header + fh_length h)) < length file - offset"
      using nxt by (simp add: journal_header_def)
    ultimately obtain rs
      where rs: "offset + (journal_header + fh_length h) \<le> sm_valid_len m" "sm_valid_len m \<le> length file"
        "segment file (offset + (journal_header + fh_length h)) (sm_valid_len m) = journal_bytes crc rs"
        "\<forall>r \<in> set rs. storable source r" "sm_records m = n + 1 + length rs"
        "sorted_wrt (<) (map rr_sequence rs)" "\<forall>x \<in> set rs. rid_sequence (rr_id r) < rr_sequence x"
        "sm_maximum_sequence m = (if rs = [] then Some (rid_sequence (rr_id r))
            else Some (rr_sequence (last rs)))"
      using less.hyps [OF _ rest less.prems(2)] by auto
    have "segment file offset (sm_valid_len m)
        = segment file offset (offset + k) @ segment file (offset + k) (sm_valid_len m)"
      using sound rs(1) by (intro segment_append_slice [symmetric]) auto
    then have "segment file offset (sm_valid_len m) = journal_bytes crc (r # rs)"
      using sound rs(3) by (metis journal_bytes_simps(2))
    then show ?thesis
      using rs mono sound by (intro exI [of _ "r # rs"]) (auto simp: rr_sequence_def split: option.splits)
  qed
qed

section \<open>Paging\<close>

definition journal_page_at ::
  "(byte list \<Rightarrow> 32 word) \<Rightarrow> source_id \<Rightarrow> nat \<Rightarrow> nat \<Rightarrow> byte list \<Rightarrow> nat
    \<Rightarrow> journal_error + (raw_record list \<times> nat \<times> bool)" where
  "journal_page_at crc source max_records max_bytes file offset =
    (case read_page_from crc file source offset max_records max_bytes of
       Inl e \<Rightarrow> Inl e
     | Inr page \<Rightarrow> Inr (pg_records page, pg_next_offset page, pg_end_of_journal page))"

text \<open>\<open>collect_all_records\<close> pages through the whole file.  The file is the one with the write buffer
  handed over: the first \<open>read_page\<close> does that, and the others find the buffer empty.\<close>

definition collect_all_records ::
  "(byte list \<Rightarrow> 32 word) \<Rightarrow> source_id \<Rightarrow> byte list \<Rightarrow> (journal_error + raw_record list) option" where
  "collect_all_records crc source file =
    collect_pages (journal_page_at crc source 1024 (8 * 1024 * 1024) file) 0 []"

definition payloads :: "raw_record list \<Rightarrow> nat" where
  "payloads rs = sum_list (map payload_bytes rs)"

lemma payloads_simps [simp]:
  "payloads [] = 0"
  "payloads (r # rs) = payload_bytes r + payloads rs"
  "payloads (rs @ rs') = payloads rs + payloads rs'"
  by (simp_all add: payloads_def)

lemma read_complete_whole:
  assumes "storable source r"
  shows "\<exists>r'. read_complete_frame crc (pre @ record_frame crc r @ post) (length pre)
      (length (pre @ record_frame crc r @ post)) source = Inr (r', length (record_frame crc r))
    \<and> raw_view r' = raw_view r"
proof -
  obtain h r' where h: "read_header crc (pre @ record_frame crc r @ post) (length pre) = Inr h"
    "journal_header + fh_length h = length (record_frame crc r)"
    "read_body crc (pre @ record_frame crc r @ post) (length pre) source h
        = Inr (r', length (record_frame crc r))" "raw_view r' = raw_view r"
    using read_whole_frame [OF assms, of crc pre post] by auto
  then have "journal_header \<le> length (record_frame crc r)" by linarith
  then show ?thesis using h by (simp add: read_complete_frame_def)
qed

text \<open>What a page holds: a run of the records, as long as the limits allow.\<close>

definition page_run :: "nat \<Rightarrow> nat \<Rightarrow> nat \<Rightarrow> nat \<Rightarrow> raw_record list \<Rightarrow> nat \<Rightarrow> bool" where
  "page_run max_records max_bytes had decoded rs n \<longleftrightarrow>
     n \<le> length rs \<and> (n = 0 \<or> had + n \<le> max_records)
   \<and> (n = 0 \<or> decoded + payloads (take n rs) \<le> max_bytes \<or> had = 0 \<and> n = 1)
   \<and> (n = length rs \<or> max_records \<le> had + n \<or> max_bytes \<le> decoded + payloads (take n rs)
        \<or> had + n \<noteq> 0 \<and> max_bytes < decoded + payloads (take (Suc n) rs))"

lemma page_from_run:
  assumes "\<forall>r \<in> set rs. storable source r" "decoded + payloads rs \<le> u64_max"
    and "decoded < max_bytes"
  shows "\<exists>n page. page_from crc (pre @ journal_bytes crc rs) source max_records max_bytes
        (length pre) decoded acc
      = Inr (acc @ page, length pre + length (journal_bytes crc (take n rs)))
    \<and> map raw_view page = map raw_view (take n rs)
    \<and> page_run max_records max_bytes (length acc) decoded rs n"
  using assms
proof (induction rs arbitrary: pre decoded acc)
  case Nil
  then show ?case
    by (intro exI [of _ 0] exI [of _ "[]"]) (simp add: page_from.simps page_run_def)
next
  case (Cons r rs)
  let ?file = "pre @ record_frame crc r @ journal_bytes crc rs"
  have st: "storable source r" using Cons.prems(1) by simp
  have long: "record_frame crc r \<noteq> []"
    using record_frame_length [OF st, of crc] by (auto simp: journal_header_def)
  obtain r' where rd: "read_complete_frame crc ?file (length pre) (length ?file) source
      = Inr (r', length (record_frame crc r))" and v: "raw_view r' = raw_view r"
    using read_complete_whole [OF st, of crc pre "journal_bytes crc rs"] by blast
  have d: "saturating_add_u64 decoded (payload_bytes r') = decoded + payload_bytes r"
    using Cons.prems(2) raw_view_payload [OF v] by (simp add: saturating_add_u64_def)
  let ?d = "decoded + payload_bytes r"
  have step: "page_from crc ?file source max_records max_bytes (length pre) decoded acc
    = (if length acc < max_records then
         if acc \<noteq> [] \<and> ?d > max_bytes then Inr (acc, length pre)
         else if ?d \<ge> max_bytes then Inr (acc @ [r'], length pre + length (record_frame crc r))
         else page_from crc ?file source max_records max_bytes
           (length pre + length (record_frame crc r)) ?d (acc @ [r'])
       else Inr (acc, length pre))"
    using rd long d by (subst page_from.simps) (simp add: Let_def)
  show ?case
  proof (cases "length acc < max_records \<and> \<not> (acc \<noteq> [] \<and> ?d > max_bytes)")
    case False
    then show ?thesis unfolding journal_bytes_simps step
      by (intro exI [of _ 0] exI [of _ "[]"]) (auto simp: page_run_def)
  next
    case more: True
    show ?thesis
    proof (cases "?d \<ge> max_bytes")
      case True
      then show ?thesis unfolding journal_bytes_simps step using more v
        by (intro exI [of _ 1] exI [of _ "[r']"]) (auto simp: page_run_def)
    next
      case False
      obtain n page where n: "page_from crc ((pre @ record_frame crc r) @ journal_bytes crc rs) source
          max_records max_bytes (length (pre @ record_frame crc r)) ?d (acc @ [r'])
        = Inr ((acc @ [r']) @ page,
            length (pre @ record_frame crc r) + length (journal_bytes crc (take n rs)))"
        "map raw_view page = map raw_view (take n rs)"
        "page_run max_records max_bytes (length (acc @ [r'])) ?d rs n"
        using Cons.IH [of ?d "pre @ record_frame crc r" "acc @ [r']"] Cons.prems False by auto
      have "page_run max_records max_bytes (length acc) decoded (r # rs) (Suc n)"
        using n(3) more False by (auto simp: page_run_def add.assoc)
      with n(1,2) v more False show ?thesis unfolding journal_bytes_simps step
        by (intro exI [of _ "Suc n"] exI [of _ "r' # page"]) simp
    qed
  qed
qed

text \<open>The offset at which record \<open>i\<close> starts.\<close>

definition record_mark :: "(byte list \<Rightarrow> 32 word) \<Rightarrow> raw_record list \<Rightarrow> nat \<Rightarrow> nat" where
  "record_mark crc rs i = length (journal_bytes crc (take i rs))"

lemma read_page_at_mark:
  assumes "\<forall>r \<in> set rs. storable source r" "payloads rs \<le> u64_max" "i \<le> length rs"
    and "0 < max_records" "0 < max_bytes"
  shows "\<exists>n page. read_page_from crc (journal_bytes crc rs) source (record_mark crc rs i)
        max_records max_bytes
      = Inr \<lparr>pg_records = page, pg_next_offset = record_mark crc rs (i + n),
             pg_end_of_journal = (i + n = length rs)\<rparr>
    \<and> map raw_view page = map raw_view (take n (drop i rs))
    \<and> page_run max_records max_bytes 0 0 (drop i rs) n"
proof -
  let ?pre = "journal_bytes crc (take i rs)"
  have split: "journal_bytes crc rs = ?pre @ journal_bytes crc (drop i rs)"
    by (metis append_take_drop_id journal_bytes_simps(3))
  have pay: "payloads (drop i rs) \<le> u64_max"
    using assms(2) payloads_simps(3) [of "take i rs" "drop i rs"] by simp
  obtain n page where n: "page_from crc (?pre @ journal_bytes crc (drop i rs)) source max_records
        max_bytes (length ?pre) 0 []
      = Inr (page, length ?pre + length (journal_bytes crc (take n (drop i rs))))"
    "map raw_view page = map raw_view (take n (drop i rs))"
    "page_run max_records max_bytes 0 0 (drop i rs) n"
    using page_from_run [of "drop i rs" source 0 max_bytes crc ?pre max_records "[]"]
      assms pay by (auto dest: in_set_dropD)
  have mark: "length ?pre + length (journal_bytes crc (take n (drop i rs))) = record_mark crc rs (i + n)"
    by (simp add: record_mark_def take_add)
  have "n \<le> length (drop i rs)" using n(3) by (simp add: page_run_def)
  then have le: "i + n \<le> length rs" using assms(3) by simp
  have total_: "record_mark crc rs (i + n) = length (journal_bytes crc rs) \<longleftrightarrow> i + n = length rs"
  proof
    assume eq: "record_mark crc rs (i + n) = length (journal_bytes crc rs)"
    have "journal_bytes crc rs = journal_bytes crc (take (i + n) rs) @ journal_bytes crc (drop (i + n) rs)"
      by (metis append_take_drop_id journal_bytes_simps(3))
    from arg_cong [OF this, of length] eq have none: "journal_bytes crc (drop (i + n) rs) = []"
      by (simp add: record_mark_def)
    show "i + n = length rs"
    proof (rule ccontr)
      assume "i + n \<noteq> length rs"
      then obtain r rest where d: "drop (i + n) rs = r # rest"
        using le by (metis drop_eq_Nil list.exhaust le_antisym)
      then have "r \<in> set rs" by (metis in_set_dropD list.set_intros(1))
      then have "0 < length (record_frame crc r)"
        using assms(1) record_frame_length [of source r crc] by (simp add: journal_header_def)
      with none d show False by simp
    qed
  qed (simp add: record_mark_def)
  have "record_mark crc rs i \<le> length (journal_bytes crc rs)"
    using split by (simp add: record_mark_def)
  with n assms(4,5) show ?thesis
    by (intro exI [of _ n] exI [of _ page])
      (simp add: read_page_from_def record_mark_def mark [unfolded record_mark_def] total_ [unfolded record_mark_def] flip: split)
qed

text \<open>The store a reader pages through: the journal of the records \<open>rs\<close>.\<close>

definition pageable :: "source_id \<Rightarrow> nat \<Rightarrow> nat \<Rightarrow> raw_record list \<Rightarrow> bool" where
  "pageable source max_records max_bytes rs \<longleftrightarrow>
     (\<forall>r \<in> set rs. storable source r) \<and> payloads rs \<le> u64_max \<and> 0 < max_records \<and> 0 < max_bytes"

interpretation jp: paged_log
    "\<lambda>rs. journal_page_at crc source max_records max_bytes (journal_bytes crc rs)"
    "map raw_view" raw_view "record_mark crc" "pageable source max_records max_bytes"
  for crc source max_records max_bytes
proof
  fix rs i
  assume ok: "pageable source max_records max_bytes rs" and i: "i \<le> length (map raw_view rs)"
  have i': "i \<le> length rs" using i by simp
  obtain n page where p: "read_page_from crc (journal_bytes crc rs) source (record_mark crc rs i)
        max_records max_bytes
      = Inr \<lparr>pg_records = page, pg_next_offset = record_mark crc rs (i + n),
             pg_end_of_journal = (i + n = length rs)\<rparr>"
    "map raw_view page = map raw_view (take n (drop i rs))"
    "page_run max_records max_bytes 0 0 (drop i rs) n"
    using read_page_at_mark [of rs source i max_records max_bytes crc] ok i'
    by (auto simp: pageable_def)
  have "i < length rs \<longrightarrow> 0 < n"
    using p(3) ok by (cases n) (auto simp: page_run_def pageable_def)
  moreover have "i + n \<le> length rs"
  proof -
    have "n \<le> length rs - i" using p(3) by (simp add: page_run_def)
    then show ?thesis using i' by simp
  qed
  ultimately show "\<exists>rs' j. journal_page_at crc source max_records max_bytes (journal_bytes crc rs)
        (record_mark crc rs i) = Inr (rs', record_mark crc rs j, j = length (map raw_view rs))
      \<and> i \<le> j \<and> j \<le> length (map raw_view rs) \<and> (i < length (map raw_view rs) \<longrightarrow> i < j)
      \<and> map raw_view rs' = segment (map raw_view rs) i j"
    using p(1,2) by (intro exI [of _ page] exI [of _ "i + n"])
      (simp add: journal_page_at_def segment_def take_map drop_map)
qed

section \<open>Properties\<close>

text \<open>A small record, for the witnesses.\<close>

definition sample_record :: "nat \<Rightarrow> byte list \<Rightarrow> raw_record" where
  "sample_record n xs = \<lparr>rr_id = \<lparr>rid_source = SourceId (replicate 16 7), rid_sequence = n\<rparr>,
     rr_captured_at = -5, rr_stream = Stdin, rr_bytes = owned_bytes xs, rr_delimiter = owned_bytes [LF],
     rr_acquisition = replicate 16 9, rr_chunk = End\<rparr>"

lemma sample_record_ok [simp]:
  "n < 1000 \<Longrightarrow> length xs < 1000 \<Longrightarrow> storable (SourceId (replicate 16 7)) (sample_record n xs)"
  by (simp add: storable_def record_ok_def sample_record_def journal_fixed_def max_frame_def)

lemma sample_record_fields [simp]:
  "rr_sequence (sample_record n xs) = n"
  "payload_bytes (sample_record n xs) = Suc (length xs)"
  by (simp_all add: rr_sequence_def payload_bytes_def sample_record_def)

text \<open>C5. Encoding and decoding a record.  Every record the frame limit admits is encoded, and
  decoding its body gives a record equal to it, whose payload and delimiter are ranges inside the
  one body; a record over the limit is refused.  Conversely whatever body decodes, decodes to a
  record that encodes to exactly that body: no byte of a frame is ignored or ambiguous.\<close>

theorem encode_decode:
  assumes "record_ok source r"
  shows "(case encode_into r of
      Inl e \<Rightarrow> e = FrameTooLarge \<and> max_frame < journal_fixed + payload_bytes r
    | Inr body \<Rightarrow> journal_fixed + payload_bytes r = length body \<and> length body \<le> max_frame
        \<and> (\<exists>r'. decode body source = Some r' \<and> raw_view r' = raw_view r
             \<and> bytes_in_range (rr_bytes r') \<and> bytes_in_range (rr_delimiter r')))
    \<and> (\<forall>body r'. journal_fixed \<le> length body \<and> length body \<le> max_frame
        \<and> decode body source = Some r' \<longrightarrow> encode_into r' = Inr body)"
proof -
  have src: "length (source_bytes source) = 16" using assms by (simp add: record_ok_def)
  have conv: "encode_into r' = Inr body" if "journal_fixed \<le> length body" "length body \<le> max_frame"
    "decode body source = Some r'" for body r'
    using decode_sound [OF that(3) _ that(2) src] that(1) by (simp add: journal_fixed_def)
  show ?thesis
  proof (cases "encode_into r")
    case (Inl e)
    then show ?thesis using conv by (auto simp: encode_into_def payload_bytes_def Let_def split: if_splits)
  next
    case (Inr body)
    then show ?thesis
      using conv decode_encode [OF assms Inr] encode_into_length [OF assms Inr]
      by (simp add: payload_bytes_def) blast
  qed
qed

theorem encode_decode_witness:
  "\<exists>body r'. encode_into (sample_record 3 [97, 98]) = Inr body
    \<and> decode body (SourceId (replicate 16 7)) = Some r' \<and> raw_view r' = raw_view (sample_record 3 [97, 98])"
proof -
  have ok: "storable (SourceId (replicate 16 7)) (sample_record 3 [97, 98])" by simp
  then have "record_ok (SourceId (replicate 16 7)) (sample_record 3 [97, 98])" by (simp add: storable_def)
  from encode_decode [OF this] storableE [OF ok] show ?thesis
    by (auto split: sum.splits)
qed

text \<open>C3. Recovery.  Whatever the checksum function is, the scan of a file that holds whole frames
  of records with increasing sequence numbers followed by the torn prefix of one more frame
  succeeds, counts exactly the whole frames, finds the last sequence number, and puts the valid
  length at the end of the last whole frame: a torn tail is cut, no committed record is lost.\<close>

theorem recovery_keeps_whole_frames:
  assumes "\<forall>r \<in> set rs. storable source r" and "sorted_wrt (<) (map rr_sequence rs)"
    and "t = [] \<or> torn_tail crc source t"
  shows "scan_metadata crc (journal_bytes crc rs @ t) source
    = Inr \<lparr>sm_records = length rs, sm_valid_len = length (journal_bytes crc rs),
           sm_maximum_sequence = (if rs = [] then None else Some (rr_sequence (last rs)))\<rparr>"
  using scan_frames [OF assms(3,1,2), of None "[]" 0] by (simp add: scan_metadata_def)

theorem recovery_keeps_whole_frames_witness:
  "scan_metadata (\<lambda>_. 5) (journal_bytes (\<lambda>_. 5) [sample_record 1 [97], sample_record 4 []]
      @ take 40 (record_frame (\<lambda>_. 5) (sample_record 5 [98]))) (SourceId (replicate 16 7))
    = Inr \<lparr>sm_records = 2,
           sm_valid_len = length (journal_bytes (\<lambda>_. 5) [sample_record 1 [97], sample_record 4 []]),
           sm_maximum_sequence = Some 4\<rparr>"
proof -
  let ?crc = "\<lambda>_. 5" and ?src = "SourceId (replicate 16 7)"
  let ?fr = "record_frame ?crc (sample_record 5 [98])"
  have "length ?fr = 76"
    by (subst record_frame_length [of ?src]) (simp_all add: journal_header_def journal_fixed_def)
  then have "length (take 40 ?fr) < length ?fr" by simp
  then have "take 40 ?fr \<noteq> ?fr" by (metis less_irrefl)
  then have "strict_prefix (take 40 ?fr) ?fr"
    using take_is_prefix by (auto simp: strict_prefix_def)
  then have "torn_tail ?crc ?src (take 40 ?fr)"
    unfolding torn_tail_def by (intro exI [of _ "sample_record 5 [98]"]) simp
  then show ?thesis
    using recovery_keeps_whole_frames [of "[sample_record 1 [97], sample_record 4 []]" ?src
        "take 40 ?fr" ?crc] by simp
qed

text \<open>C4. What a scan accepts.  If recovery of any file at all succeeds, the kept prefix is exactly the
  frames of some records of this source, in increasing order of sequence number; the counts and
  the last sequence number it reports are theirs.\<close>

theorem recovery_accepts_only_frames:
  assumes "scan_metadata crc file source = Inr m" and "length (source_bytes source) = 16"
  shows "\<exists>rs. take (sm_valid_len m) file = journal_bytes crc rs \<and> sm_valid_len m \<le> length file
    \<and> (\<forall>r \<in> set rs. storable source r) \<and> sorted_wrt (<) (map rr_sequence rs)
    \<and> sm_records m = length rs
    \<and> sm_maximum_sequence m = (if rs = [] then None else Some (rr_sequence (last rs)))"
proof -
  have cut: "take (sm_valid_len m) file = segment file 0 (sm_valid_len m)" by (simp add: segment_def)
  obtain rs where "sm_valid_len m \<le> length file"
    "segment file 0 (sm_valid_len m) = journal_bytes crc rs" "\<forall>r \<in> set rs. storable source r"
    "sm_records m = 0 + length rs" "sorted_wrt (<) (map rr_sequence rs)"
    "sm_maximum_sequence m = (if rs = [] then None else Some (rr_sequence (last rs)))"
    using scan_sound [OF assms(1) [unfolded scan_metadata_def] assms(2)] by blast
  then show ?thesis unfolding cut by (intro exI [of _ rs]) simp
qed

theorem recovery_accepts_only_frames_witness:
  "\<exists>rs. journal_bytes (\<lambda>_. 5) [sample_record 1 [97]] = journal_bytes (\<lambda>_. 5) rs
    \<and> sorted_wrt (<) (map rr_sequence rs) \<and> length rs = 1"
proof -
  let ?src = "SourceId (replicate 16 7)" and ?file = "journal_bytes (\<lambda>_. 5) [sample_record 1 [97]]"
  have "scan_metadata (\<lambda>_. 5) ?file ?src
      = Inr \<lparr>sm_records = 1, sm_valid_len = length ?file, sm_maximum_sequence = Some 1\<rparr>"
    using scan_frames [of "[]" "\<lambda>_. 5" ?src "[sample_record 1 [97]]" None "[]" 0]
    by (simp add: scan_metadata_def)
  from recovery_accepts_only_frames [OF this] obtain rs where
    "?file = journal_bytes (\<lambda>_. 5) rs" "sorted_wrt (<) (map rr_sequence rs)" "length rs = 1"
    by fastforce
  then show ?thesis by (intro exI [of _ rs]) blast
qed

text \<open>One page.  A page read at a record's offset returns the following records in order, at
  least one and at most \<open>max_records\<close>, with payloads within \<open>max_bytes\<close> unless it is a single
  record, and stops only at the end of the journal or when a limit is reached; \<open>next_offset\<close> is
  where the next record starts.\<close>

theorem page_reads_a_run:
  assumes "\<forall>r \<in> set rs. storable source r" "payloads rs \<le> u64_max" "i < length rs"
    and "0 < max_records" "0 < max_bytes"
  shows "\<exists>n page. read_page_from crc (journal_bytes crc rs) source (record_mark crc rs i)
        max_records max_bytes
      = Inr \<lparr>pg_records = page, pg_next_offset = record_mark crc rs (i + n),
             pg_end_of_journal = (i + n = length rs)\<rparr>
    \<and> map raw_view page = map raw_view (take n (drop i rs))
    \<and> 0 < n \<and> n \<le> max_records \<and> i + n \<le> length rs
    \<and> (payloads (take n (drop i rs)) \<le> max_bytes \<or> n = 1)
    \<and> (i + n = length rs \<or> n = max_records \<or> max_bytes \<le> payloads (take n (drop i rs))
        \<or> max_bytes < payloads (take (Suc n) (drop i rs)))"
proof -
  obtain n page where p: "read_page_from crc (journal_bytes crc rs) source (record_mark crc rs i)
        max_records max_bytes
      = Inr \<lparr>pg_records = page, pg_next_offset = record_mark crc rs (i + n),
             pg_end_of_journal = (i + n = length rs)\<rparr>"
    "map raw_view page = map raw_view (take n (drop i rs))"
    "page_run max_records max_bytes 0 0 (drop i rs) n"
    using read_page_at_mark [OF assms(1,2) _ assms(4,5), of i crc] assms(3) by auto
  have n: "0 < n" using p(3) assms(3-5) by (cases n) (auto simp: page_run_def)
  then have "n \<le> length rs - i" "n \<le> max_records" using p(3) by (auto simp: page_run_def)
  with p n assms(3) show ?thesis
    by (intro exI [of _ n] exI [of _ page]) (auto simp: page_run_def)
qed

theorem page_reads_a_run_witness:
  "\<exists>page. read_page_from (\<lambda>_. 5) (journal_bytes (\<lambda>_. 5) [sample_record 1 [97], sample_record 4 []])
      (SourceId (replicate 16 7)) 0 1 100
    = Inr \<lparr>pg_records = page, pg_next_offset = length (record_frame (\<lambda>_. 5) (sample_record 1 [97])),
           pg_end_of_journal = False\<rparr> \<and> map raw_view page = [raw_view (sample_record 1 [97])]"
proof -
  let ?rs = "[sample_record 1 [97], sample_record 4 []]"
  obtain n page where n: "read_page_from (\<lambda>_. 5) (journal_bytes (\<lambda>_. 5) ?rs)
      (SourceId (replicate 16 7)) (record_mark (\<lambda>_. 5) ?rs 0) 1 100
    = Inr \<lparr>pg_records = page, pg_next_offset = record_mark (\<lambda>_. 5) ?rs (0 + n),
           pg_end_of_journal = (0 + n = length ?rs)\<rparr>"
    "map raw_view page = map raw_view (take n (drop 0 ?rs))" "0 < n" "n \<le> 1"
    using page_reads_a_run [of ?rs "SourceId (replicate 16 7)" 0 1 100 "\<lambda>_. 5"]
    by (auto simp: u64_max_def)
  then have "n = 1" by simp
  with n show ?thesis by (intro exI [of _ page]) (simp add: record_mark_def)
qed

text \<open>C6. Reading everything back.  Paging from offset zero ends and returns every record of
  the journal, once and in order, whatever the checksum function.\<close>

theorem collect_all_records_complete:
  assumes "\<forall>r \<in> set rs. storable source r" and "payloads rs \<le> u64_max"
  shows "\<exists>rs'. collect_all_records crc source (journal_bytes crc rs) = Some (Inr rs')
    \<and> map raw_view rs' = map raw_view rs"
  using jp.collect_all [of source 1024 "8 * 1024 * 1024" rs crc] assms
  by (simp add: collect_all_records_def pageable_def record_mark_def)

theorem collect_all_records_complete_witness:
  "\<exists>rs'. collect_all_records (\<lambda>_. 5) (SourceId (replicate 16 7))
      (journal_bytes (\<lambda>_. 5) [sample_record 1 [97], sample_record 4 []]) = Some (Inr rs')
    \<and> map raw_view rs' = map raw_view [sample_record 1 [97], sample_record 4 []]"
  by (rule collect_all_records_complete) (simp_all add: u64_max_def)

end
