(* ===== verification/Journal_Writer.thy ===== *)
theory Journal_Writer
  imports Journal
begin

text \<open>
  The writer of \<open>crates/lvu-core/src/journal.rs\<close>: opening with recovery, the sequence
  watermark, buffered appends, hand-over, flush and sync, poisoning, and the ownership claim.
  The operating system is an explicit \<open>disk\<close> and, per call, the outcome of each system call;
  a journal lives in a world where the process may stop at any point and the machine may lose
  whatever was not synced.
\<close>

section \<open>The disk\<close>

text \<open>The journal file, how much of it a crash cannot take away, and the \<open>.seq\<close> file: what a
  reader sees and what survives a crash.\<close>

record disk =
  dk_file :: "byte list"
  dk_synced :: nat
  dk_seq :: "byte list option"
  dk_seq_stable :: "byte list option"

definition sequence_block :: nat where "sequence_block = 1024"
definition write_buffer_bytes :: nat where "write_buffer_bytes = 256 * 1024"

text \<open>How \<open>write_watermark\<close> can end: written and synced; an error before or at the rename, so
  the old value stays; an error of the directory sync, so the new value is visible only.\<close>

datatype watermark_io = Watermark_Ok | Watermark_Lost | Watermark_Unsynced

definition write_watermark :: "watermark_io \<Rightarrow> nat \<Rightarrow> disk \<Rightarrow> bool \<times> disk" where
  "write_watermark io value d = (let bytes = Some (le_bytes 8 value) in
    case io of
      Watermark_Ok \<Rightarrow> (True, d\<lparr>dk_seq := bytes, dk_seq_stable := bytes\<rparr>)
    | Watermark_Lost \<Rightarrow> (False, d)
    | Watermark_Unsynced \<Rightarrow> (False, d\<lparr>dk_seq := bytes\<rparr>))"

definition read_watermark :: "bool \<Rightarrow> disk \<Rightarrow> journal_error + nat option" where
  "read_watermark io d =
    (if \<not> io then Inl Io
     else case dk_seq d of
       None \<Rightarrow> Inr None
     | Some value \<Rightarrow> if length value = 8 then Inr (Some (le_nat value)) else Inl Io)"

section \<open>The journal\<close>

record journal =
  jn_source :: source_id
  jn_next_sequence :: nat
  jn_reserved_until :: nat
  jn_written_bytes :: nat
  jn_buffer :: "byte list"
  jn_poisoned :: bool

record recovery =
  rc_records :: nat
  rc_truncated_tail_bytes :: nat
  rc_next_sequence :: nat
  rc_last_sequence :: "nat option"

text \<open>The outcomes of the system calls of \<open>open\<close>; \<open>oi_record_lock\<close> is \<open>None\<close> for an error.\<close>

record open_io =
  oi_lock_file :: bool
  oi_record_lock :: "bool option"
  oi_journal_file :: bool
  oi_set_len :: bool
  oi_sync :: bool
  oi_read_seq :: bool

text \<open>The registry of lock paths this process owns.\<close>

definition claim_take :: "string set \<Rightarrow> string \<Rightarrow> bool \<times> string set" where
  "claim_take claimed path = (path \<notin> claimed, insert path claimed)"

definition claim_drop :: "string set \<Rightarrow> string \<Rightarrow> string set" where
  "claim_drop claimed path = claimed - {path}"

text \<open>After the locks are taken: scan, cut the torn tail, choose the next sequence.\<close>

definition recover ::
  "(byte list \<Rightarrow> 32 word) \<Rightarrow> open_io \<Rightarrow> source_id \<Rightarrow> disk
    \<Rightarrow> (journal_error + journal \<times> recovery) \<times> disk" where
  "recover crc io source d =
    (case scan_metadata crc (dk_file d) source of
       Inl e \<Rightarrow> (Inl e, d)
     | Inr scan \<Rightarrow>
         let valid = sm_valid_len scan;
             truncated = length (dk_file d) - valid;
             cut = d\<lparr>dk_file := take valid (dk_file d), dk_synced := min (dk_synced d) valid\<rparr>
         in
         if truncated > 0 \<and> \<not> oi_set_len io then (Inl Io, d)
         else if truncated > 0 \<and> \<not> oi_sync io then (Inl Io, cut)
         else
           let d1 = (if truncated > 0 then cut\<lparr>dk_synced := valid\<rparr> else d) in
           case read_watermark (oi_read_seq io) d1 of
             Inl e \<Rightarrow> (Inl e, d1)
           | Inr w \<Rightarrow>
               let watermark = (case w of None \<Rightarrow> 0 | Some v \<Rightarrow> v);
                   after_records = (case sm_maximum_sequence scan of None \<Rightarrow> 0
                     | Some v \<Rightarrow> saturating_add_u64 v 1);
                   next_sequence = max watermark after_records
               in (Inr (\<lparr>jn_source = source, jn_next_sequence = next_sequence,
                         jn_reserved_until = next_sequence, jn_written_bytes = valid,
                         jn_buffer = [], jn_poisoned = False\<rparr>,
                       \<lparr>rc_records = sm_records scan, rc_truncated_tail_bytes = truncated,
                         rc_next_sequence = next_sequence,
                         rc_last_sequence = sm_maximum_sequence scan\<rparr>), d1))"

text \<open>A failed open drops its claim when it returns, unless it never got one.\<close>

definition open_journal ::
  "(byte list \<Rightarrow> 32 word) \<Rightarrow> open_io \<Rightarrow> string \<Rightarrow> source_id \<Rightarrow> string set \<Rightarrow> disk
    \<Rightarrow> (journal_error + journal \<times> recovery) \<times> string set \<times> disk" where
  "open_journal crc io path source claimed d =
    (let (taken, claimed1) = claim_take claimed path in
     if \<not> taken then (Inl AlreadyOpen, claimed1, d)
     else if \<not> oi_lock_file io then (Inl Io, claim_drop claimed1 path, d)
     else case oi_record_lock io of
       None \<Rightarrow> (Inl Io, claim_drop claimed1 path, d)
     | Some False \<Rightarrow> (Inl AlreadyOpen, claim_drop claimed1 path, d)
     | Some True \<Rightarrow>
         if \<not> oi_journal_file io then (Inl Io, claim_drop claimed1 path, d)
         else case recover crc io source d of
           (Inl e, d1) \<Rightarrow> (Inl e, claim_drop claimed1 path, d1)
         | (Inr r, d1) \<Rightarrow> (Inr r, claimed1, d1))"

text \<open>\<open>write_buffer\<close>: \<open>None\<close> is a complete write, \<open>Some k\<close> an error that left \<open>k\<close> bytes.\<close>

definition write_buffer ::
  "nat option \<Rightarrow> journal \<Rightarrow> disk \<Rightarrow> (journal_error + unit) \<times> journal \<times> disk" where
  "write_buffer io j d =
    (if jn_buffer j = [] then (Inr (), j, d)
     else case io of
       Some k \<Rightarrow> (Inl Io, j\<lparr>jn_poisoned := True, jn_buffer := []\<rparr>,
                   d\<lparr>dk_file := dk_file d @ take k (jn_buffer j)\<rparr>)
     | None \<Rightarrow> (Inr (), j\<lparr>jn_buffer := []\<rparr>, d\<lparr>dk_file := dk_file d @ jn_buffer j\<rparr>))"

text \<open>The outcomes of the calls of \<open>append\<close>; \<open>ai_position\<close> is the file cursor the two
  exhaustion errors report.\<close>

record append_io =
  ai_watermark :: watermark_io
  ai_position :: nat
  ai_write :: "nat option"

definition set_sequence :: "raw_record \<Rightarrow> nat \<Rightarrow> raw_record" where
  "set_sequence r n = r\<lparr>rr_id := (rr_id r)\<lparr>rid_sequence := n\<rparr>\<rparr>"

definition append_record ::
  "(byte list \<Rightarrow> 32 word) \<Rightarrow> append_io \<Rightarrow> journal \<Rightarrow> disk \<Rightarrow> raw_record
    \<Rightarrow> (journal_error + record_id) \<times> journal \<times> disk" where
  "append_record crc io j d r0 =
    (if jn_poisoned j then (Inl Poisoned, j, d)
     else if rid_source (rr_id r0) \<noteq> jn_source j then (Inl WrongSource, j, d)
     else
       let sequence = jn_next_sequence j in
       case checked_add_u64 sequence 1 of
         None \<Rightarrow> (Inl (Corrupt (ai_position io) ''sequence exhausted''), j, d)
       | Some next \<Rightarrow>
           let r = set_sequence r0 sequence in
           case encode_into r of
             Inl e \<Rightarrow> (Inl e, j, d)
           | Inr body \<Rightarrow>
               let reserve =
                 (if next > jn_reserved_until j then
                    (case checked_add_u64 sequence sequence_block of
                       None \<Rightarrow> (Inl (Corrupt (ai_position io) ''sequence reservation exhausted''), d)
                     | Some limit \<Rightarrow>
                         (case write_watermark (ai_watermark io) limit d of
                            (False, d1) \<Rightarrow> (Inl Io, d1)
                          | (True, d1) \<Rightarrow> (Inr limit, d1)))
                  else (Inr (jn_reserved_until j), d))
               in case reserve of
                    (Inl e, d1) \<Rightarrow> (Inl e, j, d1)
                  | (Inr reserved, d1) \<Rightarrow>
                      let buffer = push_frame crc (jn_buffer j) body;
                          j1 = j\<lparr>jn_reserved_until := reserved,
                          jn_buffer := buffer,
                          jn_written_bytes := jn_written_bytes j + (journal_header + length body),
                          jn_next_sequence := next\<rparr>
                      in if length buffer \<ge> write_buffer_bytes then
                           (case write_buffer (ai_write io) j1 d1 of
                              (Inl e, j2, d2) \<Rightarrow> (Inl e, j2, d2)
                            | (Inr _, j2, d2) \<Rightarrow> (Inr (rr_id r), j2, d2))
                         else (Inr (rr_id r), j1, d1))"

definition flush_journal ::
  "nat option \<Rightarrow> bool \<Rightarrow> journal \<Rightarrow> disk \<Rightarrow> (journal_error + unit) \<times> journal \<times> disk" where
  "flush_journal wr fl j d =
    (if jn_poisoned j then (Inl Poisoned, j, d)
     else case write_buffer wr j d of
       (Inl e, j1, d1) \<Rightarrow> (Inl e, j1, d1)
     | (Inr _, j1, d1) \<Rightarrow>
         if fl then (Inr (), j1, d1) else (Inl Io, j1\<lparr>jn_poisoned := True\<rparr>, d1))"

definition sync_data ::
  "nat option \<Rightarrow> bool \<Rightarrow> journal \<Rightarrow> disk \<Rightarrow> (journal_error + unit) \<times> journal \<times> disk" where
  "sync_data wr sy j d =
    (if jn_poisoned j then (Inl Poisoned, j, d)
     else case write_buffer wr j d of
       (Inl e, j1, d1) \<Rightarrow> (Inl e, j1, d1)
     | (Inr _, j1, d1) \<Rightarrow>
         if sy then (Inr (), j1, d1\<lparr>dk_synced := length (dk_file d1)\<rparr>)
         else (Inl Io, j1\<lparr>jn_poisoned := True\<rparr>, d1))"

text \<open>\<open>read_page\<close> hands the buffer over first.\<close>

definition read_page ::
  "(byte list \<Rightarrow> 32 word) \<Rightarrow> nat option \<Rightarrow> nat \<Rightarrow> nat \<Rightarrow> nat \<Rightarrow> journal \<Rightarrow> disk
    \<Rightarrow> (journal_error + journal_page) \<times> journal \<times> disk" where
  "read_page crc wr offset max_records max_bytes j d =
    (case write_buffer wr j d of
       (Inl e, j1, d1) \<Rightarrow> (Inl e, j1, d1)
     | (Inr _, j1, d1) \<Rightarrow>
         (read_page_from crc (dk_file d1) (jn_source j) offset max_records max_bytes, j1, d1))"

section \<open>The life of a journal\<close>

text \<open>
  A world is one source's journal: the registry claim, the open journal if any, the disk, and
  three ghosts: the sequence numbers issued so far, the records accepted since the last sync,
  and the records a successful \<open>sync_data\<close> has promised to keep.
\<close>

record world =
  wd_claimed :: "string set"
  wd_journal :: "journal option"
  wd_disk :: disk
  wd_issued :: "nat list"
  wd_pending :: "raw_record list"
  wd_durable :: "raw_record list"

definition raw_typed :: "raw_record \<Rightarrow> bool" where
  "raw_typed r \<longleftrightarrow> length (rr_acquisition r) = 16
     \<and> - (2 ^ 63) \<le> rr_captured_at r \<and> rr_captured_at r < 2 ^ 63"

inductive journal_step ::
  "(byte list \<Rightarrow> 32 word) \<Rightarrow> string \<Rightarrow> source_id \<Rightarrow> world \<Rightarrow> world \<Rightarrow> bool"
  for crc path source where
  step_open:
    "open_journal crc io path source (wd_claimed w) (wd_disk w) = (res, claimed, d)
      \<Longrightarrow> journal_step crc path source w (w\<lparr>wd_claimed := claimed, wd_disk := d,
            wd_journal := (case res of Inr (j, rec) \<Rightarrow> Some j | Inl _ \<Rightarrow> wd_journal w)\<rparr>)"
| step_append:
    "wd_journal w = Some j \<Longrightarrow> raw_typed r
      \<Longrightarrow> append_record crc io j (wd_disk w) r = (res, j', d)
      \<Longrightarrow> journal_step crc path source w (w\<lparr>wd_journal := Some j', wd_disk := d,
            wd_issued := wd_issued w @ [jn_next_sequence j..<jn_next_sequence j'],
            wd_pending := (case res of Inr _ \<Rightarrow> wd_pending w @ [set_sequence r (jn_next_sequence j)]
                             | Inl _ \<Rightarrow> wd_pending w)\<rparr>)"
| step_flush:
    "wd_journal w = Some j \<Longrightarrow> flush_journal wr fl j (wd_disk w) = (res, j', d)
      \<Longrightarrow> journal_step crc path source w (w\<lparr>wd_journal := Some j', wd_disk := d\<rparr>)"
| step_read:
    "wd_journal w = Some j \<Longrightarrow> read_page crc wr off mr mb j (wd_disk w) = (res, j', d)
      \<Longrightarrow> journal_step crc path source w (w\<lparr>wd_journal := Some j', wd_disk := d\<rparr>)"
| step_sync:
    "wd_journal w = Some j \<Longrightarrow> sync_data wr sy j (wd_disk w) = (res, j', d)
      \<Longrightarrow> journal_step crc path source w (w\<lparr>wd_journal := Some j', wd_disk := d,
            wd_durable := (case res of Inr _ \<Rightarrow> wd_durable w @ wd_pending w | Inl _ \<Rightarrow> wd_durable w),
            wd_pending := (case res of Inr _ \<Rightarrow> [] | Inl _ \<Rightarrow> wd_pending w)\<rparr>)"
| step_drop:
    "journal_step crc path source w (w\<lparr>wd_claimed := claim_drop (wd_claimed w) path,
       wd_journal := None, wd_pending := []\<rparr>)"
| step_crash:
    "dk_synced (wd_disk w) \<le> k
      \<Longrightarrow> s = dk_seq (wd_disk w) \<or> s = dk_seq_stable (wd_disk w)
      \<Longrightarrow> journal_step crc path source w (w\<lparr>wd_claimed := {}, wd_journal := None,
            wd_disk := (wd_disk w)\<lparr>dk_file := take k (dk_file (wd_disk w)),
                          dk_seq := s, dk_seq_stable := s\<rparr>,
            wd_pending := []\<rparr>)"

definition empty_world :: world where
  "empty_world = \<lparr>wd_claimed = {}, wd_journal = None,
     wd_disk = \<lparr>dk_file = [], dk_synced = 0, dk_seq = None, dk_seq_stable = None\<rparr>,
     wd_issued = [], wd_pending = [], wd_durable = []\<rparr>"

definition journal_reachable :: "(byte list \<Rightarrow> 32 word) \<Rightarrow> string \<Rightarrow> source_id \<Rightarrow> world \<Rightarrow> bool" where
  "journal_reachable crc path source = (journal_step crc path source)\<^sup>*\<^sup>* empty_world"

section \<open>A written prefix\<close>

lemma prefix_frames:
  assumes "prefix xs (journal_bytes crc rs)" "\<forall>r \<in> set rs. storable source r"
  shows "\<exists>n t. n \<le> length rs \<and> xs = journal_bytes crc (take n rs) @ t
    \<and> (t = [] \<or> torn_tail crc source t)
    \<and> (\<forall>m \<le> length rs. length (journal_bytes crc (take m rs)) \<le> length xs \<longrightarrow> m \<le> n)"
  using assms
proof (induction rs arbitrary: xs)
  case Nil
  then show ?case by simp
next
  case (Cons r rs)
  show ?case
  proof (cases "strict_prefix xs (record_frame crc r)")
    case True
    then have "length xs < length (record_frame crc r)" by (rule prefix_length_less)
    then have "m = 0" if "length (journal_bytes crc (take m (r # rs))) \<le> length xs" for m
      using that by (cases m) auto
    moreover have "torn_tail crc source xs" using True Cons.prems(2) by (auto simp: torn_tail_def)
    ultimately show ?thesis by (intro exI [of _ 0] exI [of _ xs]) auto
  next
    case False
    then have "prefix (record_frame crc r) xs"
      using Cons.prems(1) prefix_same_cases [of xs "record_frame crc r @ journal_bytes crc rs"
          "record_frame crc r"] by (auto simp: strict_prefix_def)
    then obtain xs' where f: "xs = record_frame crc r @ xs'" by (auto simp: prefix_def)
    then obtain n t where n: "n \<le> length rs" "xs' = journal_bytes crc (take n rs) @ t"
      "t = [] \<or> torn_tail crc source t"
      "\<forall>m \<le> length rs. length (journal_bytes crc (take m rs)) \<le> length xs' \<longrightarrow> m \<le> n"
      using Cons.IH [of xs'] Cons.prems by auto
    have "m \<le> Suc n" if "m \<le> length (r # rs)" "length (journal_bytes crc (take m (r # rs))) \<le> length xs" for m
      using that n(4) f by (cases m) auto
    then show ?thesis using n f by (intro exI [of _ "Suc n"] exI [of _ t]) auto
  qed
qed

section \<open>What every step keeps\<close>

definition watermark_of :: "byte list option \<Rightarrow> nat" where
  "watermark_of s = (case s of None \<Rightarrow> 0 | Some bs \<Rightarrow> le_nat bs)"

definition seq_ok :: "byte list option \<Rightarrow> bool" where
  "seq_ok s \<longleftrightarrow> (case s of None \<Rightarrow> True | Some bs \<Rightarrow> length bs = 8)"

definition disk_inv :: "(byte list \<Rightarrow> 32 word) \<Rightarrow> source_id \<Rightarrow> disk \<Rightarrow> raw_record list
    \<Rightarrow> raw_record list \<Rightarrow> nat list \<Rightarrow> bool" where
  "disk_inv crc source d content durable issued \<longleftrightarrow>
     (\<forall>r \<in> set content. storable source r) \<and> sorted_wrt (<) (map rr_sequence content)
   \<and> rr_sequence ` set content \<subseteq> set issued \<and> sorted_wrt (<) issued
   \<and> (\<forall>n \<in> set issued. n < watermark_of (dk_seq d) \<and> n < watermark_of (dk_seq_stable d))
   \<and> seq_ok (dk_seq d) \<and> seq_ok (dk_seq_stable d)
   \<and> prefix (dk_file d) (journal_bytes crc content) \<and> dk_synced d \<le> length (dk_file d)
   \<and> (\<exists>m \<le> length content. length (journal_bytes crc (take m content)) \<le> dk_synced d
        \<and> subseq durable (take m content))"

definition journal_inv :: "(byte list \<Rightarrow> 32 word) \<Rightarrow> source_id \<Rightarrow> journal \<Rightarrow> disk \<Rightarrow> raw_record list
    \<Rightarrow> raw_record list \<Rightarrow> raw_record list \<Rightarrow> nat list \<Rightarrow> bool" where
  "journal_inv crc source j d content durable pending issued \<longleftrightarrow>
     jn_source j = source
   \<and> (if jn_poisoned j then jn_buffer j = []
      else dk_file d @ jn_buffer j = journal_bytes crc content \<and> subseq (durable @ pending) content)
   \<and> (\<forall>n \<in> set issued. n < jn_next_sequence j) \<and> jn_next_sequence j \<le> jn_reserved_until j
   \<and> jn_next_sequence j \<le> u64_max
   \<and> (jn_next_sequence j = jn_reserved_until j
      \<or> jn_reserved_until j \<le> watermark_of (dk_seq d)
        \<and> jn_reserved_until j \<le> watermark_of (dk_seq_stable d))"

definition world_inv :: "(byte list \<Rightarrow> 32 word) \<Rightarrow> string \<Rightarrow> source_id \<Rightarrow> world \<Rightarrow> bool" where
  "world_inv crc path source w \<longleftrightarrow> length (source_bytes source) = 16
   \<and> (path \<in> wd_claimed w \<longleftrightarrow> wd_journal w \<noteq> None)
   \<and> (\<exists>content. disk_inv crc source (wd_disk w) content (wd_durable w) (wd_issued w)
      \<and> (case wd_journal w of None \<Rightarrow> wd_pending w = []
         | Some j \<Rightarrow> journal_inv crc source j (wd_disk w) content (wd_durable w) (wd_pending w) (wd_issued w)))"

lemma watermark_of_le:
  assumes "seq_ok s"
  shows "watermark_of s \<le> u64_max"
proof (cases s)
  case None
  then show ?thesis by (simp add: watermark_of_def)
next
  case (Some bs)
  then have "le_nat bs < 2 ^ 64" using assms le_nat_less [of bs] by (simp add: seq_ok_def)
  then show ?thesis using Some by (simp add: watermark_of_def u64_max_def)
qed

lemma watermark_written:
  "v \<le> u64_max \<Longrightarrow> watermark_of (Some (le_bytes 8 v)) = v \<and> seq_ok (Some (le_bytes 8 v))"
  by (simp add: watermark_of_def seq_ok_def u64_max_def)

text \<open>The hand-over of the buffer, whatever the write does.\<close>

lemma write_buffer_inv:
  assumes "disk_inv crc source d content durable issued"
    and "journal_inv crc source j d content durable pending issued"
    and "write_buffer wr j d = (res, j', d')"
  shows "disk_inv crc source d' content durable issued
    \<and> journal_inv crc source j' d' content durable pending issued
    \<and> (res = Inr () \<longrightarrow> jn_buffer j' = [] \<and> jn_poisoned j' = jn_poisoned j)
    \<and> jn_next_sequence j' = jn_next_sequence j"
proof (cases "jn_buffer j = []")
  case True
  then show ?thesis using assms by (simp add: write_buffer_def)
next
  case False
  then have live: "\<not> jn_poisoned j" "dk_file d @ jn_buffer j = journal_bytes crc content"
    using assms(2) by (auto simp: journal_inv_def split: if_splits)
  have pre: "prefix (dk_file d @ take k (jn_buffer j)) (journal_bytes crc content)" for k
    unfolding live(2) [symmetric] by (simp add: take_is_prefix)
  have keep: "disk_inv crc source (d\<lparr>dk_file := dk_file d @ take k (jn_buffer j)\<rparr>) content durable issued" for k
    using assms(1) pre [of k] by (simp add: disk_inv_def trans_le_add1)
  show ?thesis
  proof (cases wr)
    case None
    then have eq: "res = Inr ()" "j' = j\<lparr>jn_buffer := []\<rparr>"
      "d' = d\<lparr>dk_file := dk_file d @ take (length (jn_buffer j)) (jn_buffer j)\<rparr>"
      using assms(3) False by (simp_all add: write_buffer_def)
    have "journal_inv crc source j' d' content durable pending issued"
      using assms(2) live unfolding eq by (simp add: journal_inv_def)
    with keep [of "length (jn_buffer j)"] show ?thesis unfolding eq by simp
  next
    case (Some k)
    then have eq: "res = Inl Io" "j' = j\<lparr>jn_poisoned := True, jn_buffer := []\<rparr>"
      "d' = d\<lparr>dk_file := dk_file d @ take k (jn_buffer j)\<rparr>"
      using assms(3) False by (simp_all add: write_buffer_def)
    have "journal_inv crc source j' d' content durable pending issued"
      using assms(2) unfolding eq by (simp add: journal_inv_def)
    with keep [of k] show ?thesis unfolding eq by simp
  qed
qed

section \<open>Appending\<close>

text \<open>The journal with one more frame in its buffer.\<close>

definition accepted :: "(byte list \<Rightarrow> 32 word) \<Rightarrow> journal \<Rightarrow> nat \<Rightarrow> byte list \<Rightarrow> journal" where
  "accepted crc j reserved body = j\<lparr>jn_reserved_until := reserved,
     jn_buffer := push_frame crc (jn_buffer j) body,
     jn_written_bytes := jn_written_bytes j + (journal_header + length body),
     jn_next_sequence := jn_next_sequence j + 1\<rparr>"

text \<open>The reservation an append makes before it uses a sequence number.\<close>

definition reservation :: "append_io \<Rightarrow> journal \<Rightarrow> disk \<Rightarrow> (journal_error + nat) \<times> disk" where
  "reservation io j d =
    (if jn_next_sequence j + 1 > jn_reserved_until j then
       (case checked_add_u64 (jn_next_sequence j) sequence_block of
          None \<Rightarrow> (Inl (Corrupt (ai_position io) ''sequence reservation exhausted''), d)
        | Some limit \<Rightarrow>
            (case write_watermark (ai_watermark io) limit d of
               (False, d1) \<Rightarrow> (Inl Io, d1)
             | (True, d1) \<Rightarrow> (Inr limit, d1)))
     else (Inr (jn_reserved_until j), d))"

lemma append_refused:
  assumes "jn_poisoned j \<or> rid_source (rr_id r0) \<noteq> jn_source j \<or> u64_max < jn_next_sequence j + 1
    \<or> (\<exists>e. encode_into (set_sequence r0 (jn_next_sequence j)) = Inl e)"
  shows "\<exists>e. append_record crc io j d r0 = (Inl e, j, d)"
  using assms by (auto simp: append_record_def Let_def checked_add_u64_def)

lemma append_taken:
  assumes "\<not> jn_poisoned j" "rid_source (rr_id r0) = jn_source j" "jn_next_sequence j + 1 \<le> u64_max"
    and "encode_into (set_sequence r0 (jn_next_sequence j)) = Inr body"
  shows "append_record crc io j d r0 =
    (case reservation io j d of
       (Inl e, d1) \<Rightarrow> (Inl e, j, d1)
     | (Inr reserved, d1) \<Rightarrow>
         (if length (push_frame crc (jn_buffer j) body) \<ge> write_buffer_bytes then
            (case write_buffer (ai_write io) (accepted crc j reserved body) d1 of
               (Inl e, j2, d2) \<Rightarrow> (Inl e, j2, d2)
             | (Inr _, j2, d2) \<Rightarrow> (Inr (rr_id (set_sequence r0 (jn_next_sequence j))), j2, d2))
          else (Inr (rr_id (set_sequence r0 (jn_next_sequence j))), accepted crc j reserved body, d1)))"
proof -
  have c: "checked_add_u64 (jn_next_sequence j) 1 = Some (jn_next_sequence j + 1)"
    using assms(3) by simp
  have src: "(rid_source (rr_id r0) \<noteq> jn_source j) = False" and live: "jn_poisoned j = False"
    using assms(1,2) by simp_all
  show ?thesis
    unfolding append_record_def reservation_def accepted_def Let_def c option.case assms(4) sum.case
      src live if_False by simp
qed

text \<open>A reservation changes nothing but the watermark, which it never takes below a number in use.\<close>

lemma reservation_inv:
  assumes "disk_inv crc source d content durable issued"
    and "journal_inv crc source j d content durable pending issued"
    and "reservation io j d = (res, d1)"
  shows "disk_inv crc source d1 content durable issued
    \<and> journal_inv crc source j d1 content durable pending issued
    \<and> (\<forall>reserved. res = Inr reserved \<longrightarrow> jn_next_sequence j < reserved
        \<and> reserved \<le> watermark_of (dk_seq d1) \<and> reserved \<le> watermark_of (dk_seq_stable d1))"
proof (cases "jn_next_sequence j + 1 > jn_reserved_until j")
  case False
  then show ?thesis using assms by (auto simp: reservation_def journal_inv_def)
next
  case True
  then have at: "jn_reserved_until j = jn_next_sequence j"
    using assms(2) by (simp add: journal_inv_def)
  show ?thesis
  proof (cases "checked_add_u64 (jn_next_sequence j) sequence_block")
    case None
    show ?thesis using True assms by (auto simp add: reservation_def None)
  next
    case (Some limit)
    then have limit: "limit \<le> u64_max" "limit = jn_next_sequence j + 1024"
      by (simp_all add: sequence_block_def)
    have used: "\<forall>n \<in> set issued. n < limit"
      using assms(2) limit(2) by (auto simp: journal_inv_def)
    note wr = watermark_written [OF limit(1)]
    have d1: "d1 = d \<or> d1 = d\<lparr>dk_seq := Some (le_bytes 8 limit)\<rparr>
        \<or> d1 = d\<lparr>dk_seq := Some (le_bytes 8 limit), dk_seq_stable := Some (le_bytes 8 limit)\<rparr>"
      and ok: "res = Inr reserved \<longrightarrow> reserved = limit
        \<and> d1 = d\<lparr>dk_seq := Some (le_bytes 8 limit), dk_seq_stable := Some (le_bytes 8 limit)\<rparr>" for reserved
      using assms(3) True
      by (auto simp: reservation_def Some write_watermark_def Let_def split: watermark_io.splits)
    have "disk_inv crc source d1 content durable issued"
      using d1 assms(1) wr used by (auto simp: disk_inv_def)
    moreover have "journal_inv crc source j d1 content durable pending issued"
      using d1 assms(2) at by (auto simp: journal_inv_def split: if_splits)
    moreover have "res = Inr reserved \<longrightarrow> jn_next_sequence j < reserved
        \<and> reserved \<le> watermark_of (dk_seq d1) \<and> reserved \<le> watermark_of (dk_seq_stable d1)" for reserved
      using ok [of reserved] limit(2) wr by auto
    ultimately show ?thesis by blast
  qed
qed

text \<open>Taking a record into the buffer.\<close>

lemma accepted_inv:
  assumes "disk_inv crc source d content durable issued"
    and "journal_inv crc source j d content durable pending issued"
    and "\<not> jn_poisoned j" "jn_next_sequence j + 1 \<le> u64_max" "jn_next_sequence j < reserved"
    and "reserved \<le> watermark_of (dk_seq d)" "reserved \<le> watermark_of (dk_seq_stable d)"
    and "storable source r" "rr_sequence r = jn_next_sequence j" "encode_into r = Inr body"
  shows "disk_inv crc source d (content @ [r]) durable (issued @ [jn_next_sequence j])
    \<and> journal_inv crc source (accepted crc j reserved body) d (content @ [r]) durable (pending @ [r])
        (issued @ [jn_next_sequence j])"
proof -
  let ?n = "jn_next_sequence j"
  have below: "\<forall>n \<in> set issued. n < ?n" using assms(2) by (simp add: journal_inv_def)
  have seqs: "\<forall>x \<in> set content. rr_sequence x < ?n"
    using assms(1) below by (auto simp: disk_inv_def)
  have jb: "journal_bytes crc (content @ [r]) = journal_bytes crc content @ frame crc body"
    using assms(10) by (simp add: record_frame_def)
  have live: "dk_file d @ jn_buffer j = journal_bytes crc content" "subseq (durable @ pending) content"
    using assms(2,3) by (simp_all add: journal_inv_def)
  have "disk_inv crc source d (content @ [r]) durable (issued @ [?n])"
  proof -
    obtain m where m: "m \<le> length content" "length (journal_bytes crc (take m content)) \<le> dk_synced d"
      "subseq durable (take m content)" using assms(1) by (auto simp: disk_inv_def)
    then have "\<exists>m' \<le> length (content @ [r]). length (journal_bytes crc (take m' (content @ [r]))) \<le> dk_synced d
        \<and> subseq durable (take m' (content @ [r]))"
      by (intro exI [of _ m]) simp
    moreover have "prefix (dk_file d) (journal_bytes crc (content @ [r]))"
      unfolding jb using assms(1) by (simp add: disk_inv_def prefix_append)
    ultimately show ?thesis
      using assms(1,5-9) below seqs by (auto simp: disk_inv_def sorted_wrt_append)
  qed
  moreover have "journal_inv crc source (accepted crc j reserved body) d (content @ [r]) durable
      (pending @ [r]) (issued @ [?n])"
  proof -
    have "subseq ((durable @ pending) @ [r]) (content @ [r])"
      using live(2) by (intro list_emb_append_mono) simp_all
    then show ?thesis
      using assms(2-7) below live(1) jb
      by (auto simp: journal_inv_def accepted_def push_frame_append simp flip: append_assoc)
  qed
  ultimately show ?thesis by simp
qed

lemma journal_inv_poisoned:
  "journal_inv crc source j d content durable pending issued \<Longrightarrow> jn_poisoned j
    \<Longrightarrow> journal_inv crc source j d content durable pending' issued"
  by (simp add: journal_inv_def)

lemma append_inv:
  assumes "disk_inv crc source d content durable issued"
    and "journal_inv crc source j d content durable pending issued"
    and "raw_typed r0" "length (source_bytes source) = 16"
    and "append_record crc io j d r0 = (res, j', d')"
  shows "\<exists>content'. disk_inv crc source d' content' durable
        (issued @ [jn_next_sequence j..<jn_next_sequence j'])
    \<and> journal_inv crc source j' d' content' durable
        (case res of Inr _ \<Rightarrow> pending @ [set_sequence r0 (jn_next_sequence j)] | Inl _ \<Rightarrow> pending)
        (issued @ [jn_next_sequence j..<jn_next_sequence j'])"
proof (cases "jn_poisoned j \<or> rid_source (rr_id r0) \<noteq> jn_source j \<or> u64_max < jn_next_sequence j + 1
    \<or> (\<exists>e. encode_into (set_sequence r0 (jn_next_sequence j)) = Inl e)")
  case True
  from append_refused [OF this, of crc io d] assms(5) obtain e where "res = Inl e" "j' = j" "d' = d"
    by auto
  then show ?thesis using assms(1,2) by (intro exI [of _ content]) simp
next
  case False
  let ?n = "jn_next_sequence j" and ?r = "set_sequence r0 (jn_next_sequence j)"
  obtain body where enc: "encode_into ?r = Inr body"
    using False by (cases "encode_into ?r") auto
  have live: "\<not> jn_poisoned j" "rid_source (rr_id r0) = jn_source j" "?n + 1 \<le> u64_max"
    using False by auto
  note taken = append_taken [OF live enc, of crc io d]
  obtain rv d1 where rsv: "reservation io j d = (rv, d1)" by (metis surj_pair)
  note ri = reservation_inv [OF assms(1,2) rsv]
  show ?thesis
  proof (cases rv)
    case (Inl e)
    then have "res = Inl e" "j' = j" "d' = d1" using assms(5) taken rsv by auto
    then show ?thesis using ri by (intro exI [of _ content]) simp
  next
    case (Inr reserved)
    have r: "storable source ?r" "rr_sequence ?r = ?n"
    proof -
      have "jn_source j = source" using assms(2) by (simp add: journal_inv_def)
      then have "record_ok source ?r"
        using assms(3,4) live(2,3) by (simp add: record_ok_def set_sequence_def raw_typed_def u64_max_def)
      then show "storable source ?r" using enc by (simp add: storable_def encode_into_Inr)
      show "rr_sequence ?r = ?n" by (simp add: rr_sequence_def set_sequence_def)
    qed
    have acc: "disk_inv crc source d1 (content @ [?r]) durable (issued @ [?n])"
      "journal_inv crc source (accepted crc j reserved body) d1 (content @ [?r]) durable
        (pending @ [?r]) (issued @ [?n])"
      using accepted_inv [OF _ _ live(1,3) _ _ _ r enc] ri Inr by blast+
    have next_: "jn_next_sequence (accepted crc j reserved body) = Suc ?n"
      by (simp add: accepted_def)
    show ?thesis
    proof (cases "length (push_frame crc (jn_buffer j) body) \<ge> write_buffer_bytes")
      case False
      then have "res = Inr (rr_id ?r)" "j' = accepted crc j reserved body" "d' = d1"
        using assms(5) taken rsv Inr by auto
      then show ?thesis using acc next_ by (intro exI [of _ "content @ [?r]"]) simp
    next
      case True
      obtain wres j2 d2 where wb: "write_buffer (ai_write io) (accepted crc j reserved body) d1 = (wres, j2, d2)"
        by (metis surj_pair)
      then have eq: "j' = j2" "d' = d2" "res = (case wres of Inl e \<Rightarrow> Inl e | Inr _ \<Rightarrow> Inr (rr_id ?r))"
        using assms(5) taken rsv Inr True by (auto split: sum.splits)
      note w = write_buffer_inv [OF acc wb]
      show ?thesis
      proof (cases wres)
        case (Inr u)
        then show ?thesis using w eq next_ by (intro exI [of _ "content @ [?r]"]) simp
      next
        case (Inl e)
        then have "jn_poisoned j2" using wb by (auto simp: write_buffer_def split: if_splits option.splits)
        then have "journal_inv crc source j2 d2 (content @ [?r]) durable pending (issued @ [?n])"
          using w journal_inv_poisoned by blast
        then show ?thesis using w eq next_ Inl by (intro exI [of _ "content @ [?r]"]) simp
      qed
    qed
  qed
qed

section \<open>Recovering\<close>

lemma recover_inv:
  assumes "disk_inv crc source d content durable issued"
    and "recover crc io source d = (res, d')"
  shows "\<exists>content'. disk_inv crc source d' content' durable issued
    \<and> (case res of Inl e \<Rightarrow> True
       | Inr (j, rec) \<Rightarrow> journal_inv crc source j d' content' durable [] issued
           \<and> dk_file d' = journal_bytes crc content' \<and> rc_records rec = length content'
           \<and> rc_truncated_tail_bytes rec = length (dk_file d) - length (dk_file d')
           \<and> subseq durable content')
    \<and> (oi_set_len io \<and> oi_sync io \<and> oi_read_seq io \<longrightarrow> (\<exists>r. res = Inr r))"
proof -
  have inv: "\<forall>r \<in> set content. storable source r" "sorted_wrt (<) (map rr_sequence content)"
    "prefix (dk_file d) (journal_bytes crc content)" "dk_synced d \<le> length (dk_file d)"
    "seq_ok (dk_seq d)"
    using assms(1) by (simp_all add: disk_inv_def)
  obtain n t where n: "n \<le> length content" "dk_file d = journal_bytes crc (take n content) @ t"
    "t = [] \<or> torn_tail crc source t"
    "\<forall>m \<le> length content. length (journal_bytes crc (take m content)) \<le> length (dk_file d) \<longrightarrow> m \<le> n"
    using prefix_frames [OF inv(3,1)] by blast
  let ?kept = "take n content"
  let ?valid = "length (journal_bytes crc ?kept)"
  have kept: "\<forall>r \<in> set ?kept. storable source r" "sorted_wrt (<) (map rr_sequence ?kept)"
    using inv(1,2) by (auto dest: in_set_takeD simp flip: take_map intro: sorted_wrt_take)
  have scan: "scan_metadata crc (dk_file d) source = Inr \<lparr>sm_records = n, sm_valid_len = ?valid,
      sm_maximum_sequence = (if ?kept = [] then None else Some (rr_sequence (last ?kept)))\<rparr>"
    using scan_frames [OF n(3) kept, of None "[]" 0] n(1,2) by (simp add: scan_metadata_def)
  obtain m where m: "m \<le> length content" "length (journal_bytes crc (take m content)) \<le> dk_synced d"
    "subseq durable (take m content)" using assms(1) by (auto simp: disk_inv_def)
  have mn: "m \<le> n" using m n(4) inv(4) by auto
  have sub: "subseq durable ?kept"
  proof -
    have "take m content = take m (take n content)" using mn by simp
    then have "subseq (take m content) ?kept" by (metis prefix_imp_subseq take_is_prefix)
    then show ?thesis using m(3) subseq_order.trans by blast
  qed
  define e where "e = d\<lparr>dk_file := take ?valid (dk_file d), dk_synced := min (dk_synced d) ?valid\<rparr>"
  have len_m: "length (journal_bytes crc (take m ?kept)) \<le> ?valid"
    by (metis append_take_drop_id journal_bytes_simps(3) le_add1 length_append)
  have inv_of: "disk_inv crc source d2 ?kept durable issued"
    if "dk_file d2 = journal_bytes crc ?kept" "dk_seq d2 = dk_seq d" "dk_seq_stable d2 = dk_seq_stable d"
      "min (dk_synced d) ?valid \<le> dk_synced d2" "dk_synced d2 \<le> ?valid" for d2
  proof -
    have "length (journal_bytes crc (take m ?kept)) \<le> dk_synced d2"
      using that(4) m(2) mn len_m by (simp add: min_def split: if_splits)
    moreover have "subseq durable (take m ?kept)" using m(3) mn by simp
    ultimately have "\<exists>m \<le> length ?kept. length (journal_bytes crc (take m ?kept)) \<le> dk_synced d2
        \<and> subseq durable (take m ?kept)" using mn n(1) by (intro exI [of _ m]) simp
    moreover have "rr_sequence ` set ?kept \<subseteq> set issued"
      using assms(1) set_take_subset [of n content] by (auto simp: disk_inv_def)
    ultimately show ?thesis
      using assms(1) kept that by (simp add: disk_inv_def)
  qed
  define ms where "ms = (if ?kept = [] then None else Some (rr_sequence (last ?kept)))"
  note scan = scan [folded ms_def]
  define nxt where "nxt = max (watermark_of (dk_seq d))
    (case ms of None \<Rightarrow> 0 | Some v \<Rightarrow> saturating_add_u64 v 1)"
  have nxt: "nxt \<le> u64_max" "\<forall>k \<in> set issued. k < nxt"
    using watermark_of_le [OF inv(5)] saturating_add_u64_le assms(1)
    by (auto simp: nxt_def disk_inv_def less_max_iff_disj split: option.splits)
  let ?j = "\<lparr>jn_source = source, jn_next_sequence = nxt, jn_reserved_until = nxt,
    jn_written_bytes = ?valid, jn_buffer = [], jn_poisoned = False\<rparr>"
  let ?rec = "\<lparr>rc_records = n, rc_truncated_tail_bytes = length (dk_file d) - ?valid,
    rc_next_sequence = nxt, rc_last_sequence = ms\<rparr>"
  have tail: "length (dk_file d) - ?valid = length t" "take ?valid (dk_file d) = journal_bytes crc ?kept"
    using n(2) by simp_all
  have opened: "journal_inv crc source ?j d2 ?kept durable [] issued"
    if "dk_file d2 = journal_bytes crc ?kept" for d2
    using that nxt sub by (simp add: journal_inv_def)
  have wm: "read_watermark (oi_read_seq io) d2 = (if oi_read_seq io then Inr (map_option le_nat (dk_seq d)) else Inl Io)"
    if "dk_seq d2 = dk_seq d" for d2
    using that inv(5) by (auto simp: read_watermark_def seq_ok_def split: option.splits)
  have wv: "(case map_option le_nat (dk_seq d) of None \<Rightarrow> 0 | Some v \<Rightarrow> v) = watermark_of (dk_seq d)"
    by (simp add: watermark_of_def split: option.splits)
  define d1 where "d1 = (if length t > 0 then e\<lparr>dk_synced := ?valid\<rparr> else d)"
  have d1: "dk_file d1 = journal_bytes crc ?kept" "dk_seq d1 = dk_seq d" "dk_seq_stable d1 = dk_seq_stable d"
    "min (dk_synced d) ?valid \<le> dk_synced d1" "dk_synced d1 \<le> ?valid"
    using n(2) inv(4) tail by (auto simp: d1_def e_def)
  have rec: "recover crc io source d =
      (if length t > 0 \<and> \<not> oi_set_len io then (Inl Io, d)
       else if length t > 0 \<and> \<not> oi_sync io then (Inl Io, e)
       else if oi_read_seq io then (Inr (?j, ?rec), d1) else (Inl Io, d1))"
  proof (cases "oi_read_seq io")
    case True
    then have rd: "read_watermark (oi_read_seq io) d1 = Inr (map_option le_nat (dk_seq d))"
      using wm [OF d1(2)] by simp
    from True show ?thesis
      unfolding recover_def scan sum.case Let_def scan_meta.select_convs tail(1) e_def [symmetric]
        d1_def [symmetric] rd wv nxt_def [symmetric] by simp
  next
    case False
    then have "read_watermark (oi_read_seq io) d1 = Inl Io" using wm [OF d1(2)] by simp
    with False show ?thesis
      unfolding recover_def scan sum.case Let_def scan_meta.select_convs tail(1) e_def [symmetric]
        d1_def [symmetric] by simp
  qed
  have "disk_inv crc source e ?kept durable issued"
    using tail(2) by (intro inv_of) (simp_all add: e_def)
  moreover have "disk_inv crc source d1 ?kept durable issued" using d1 by (intro inv_of)
  ultimately show ?thesis
    using assms rec opened [OF d1(1)] d1(1) sub n(1) tail(1) by (auto split: if_splits)
qed

section \<open>Every step keeps the invariant\<close>

lemma open_claimed:
  "path \<in> claimed \<Longrightarrow> open_journal crc io path source claimed d = (Inl AlreadyOpen, claimed, d)"
  by (auto simp: open_journal_def claim_take_def Let_def insert_absorb)

lemma open_free:
  assumes "path \<notin> claimed"
  shows "open_journal crc io path source claimed d = (Inl Io, claimed, d)
      \<or> open_journal crc io path source claimed d = (Inl AlreadyOpen, claimed, d)
      \<or> oi_lock_file io \<and> oi_record_lock io = Some True \<and> oi_journal_file io
        \<and> open_journal crc io path source claimed d = (case recover crc io source d of
             (Inl e, d1) \<Rightarrow> (Inl e, claimed, d1) | (Inr r, d1) \<Rightarrow> (Inr r, insert path claimed, d1))"
  using assms by (auto simp: open_journal_def claim_take_def claim_drop_def Let_def
      split: option.splits bool.splits prod.splits sum.splits)

lemma journal_inv_poison:
  "journal_inv crc source j d content durable pending issued \<Longrightarrow> jn_buffer j = []
    \<Longrightarrow> journal_inv crc source (j\<lparr>jn_poisoned := True\<rparr>) d content durable pending issued"
  by (auto simp: journal_inv_def)

lemma flush_inv:
  assumes "disk_inv crc source d content durable issued"
    and "journal_inv crc source j d content durable pending issued"
    and "flush_journal wr fl j d = (res, j', d')"
  shows "disk_inv crc source d' content durable issued
    \<and> journal_inv crc source j' d' content durable pending issued"
proof (cases "jn_poisoned j")
  case True
  then show ?thesis using assms by (simp add: flush_journal_def)
next
  case False
  obtain r j1 d1 where wb: "write_buffer wr j d = (r, j1, d1)" by (metis surj_pair)
  note w = write_buffer_inv [OF assms(1,2) wb]
  have "(j' = j1 \<or> j' = j1\<lparr>jn_poisoned := True\<rparr> \<and> jn_buffer j1 = []) \<and> d' = d1"
    using assms(3) False w by (cases r) (auto simp: flush_journal_def wb split: if_splits)
  then show ?thesis using w by (auto simp: journal_inv_def)
qed

lemma sync_inv:
  assumes "disk_inv crc source d content durable issued"
    and "journal_inv crc source j d content durable pending issued"
    and "sync_data wr sy j d = (res, j', d')"
  shows "case res of
      Inl e \<Rightarrow> disk_inv crc source d' content durable issued
        \<and> journal_inv crc source j' d' content durable pending issued
    | Inr _ \<Rightarrow> disk_inv crc source d' content (durable @ pending) issued
        \<and> journal_inv crc source j' d' content (durable @ pending) [] issued"
proof (cases "jn_poisoned j")
  case True
  then show ?thesis using assms by (auto simp: sync_data_def)
next
  case False
  obtain r j1 d1 where wb: "write_buffer wr j d = (r, j1, d1)" by (metis surj_pair)
  note w = write_buffer_inv [OF assms(1,2) wb]
  show ?thesis
  proof (cases r)
    case (Inl e)
    then show ?thesis using assms(3) False w by (auto simp: sync_data_def wb)
  next
    case (Inr u)
    show ?thesis
    proof (cases sy)
      case sy: False
      have "res = Inl Io" "j' = j1\<lparr>jn_poisoned := True\<rparr>" "d' = d1"
        using assms(3) False sy Inr by (auto simp: sync_data_def wb)
      then show ?thesis using w Inr journal_inv_poison by auto
    next
      case sy: True
      have eq: "res = Inr ()" "j' = j1" "d' = d1\<lparr>dk_synced := length (dk_file d1)\<rparr>"
        using assms(3) False sy Inr by (auto simp: sync_data_def wb)
      have full: "dk_file d1 = journal_bytes crc content" "subseq (durable @ pending) content"
        using w Inr False by (auto simp: journal_inv_def)
      then have "\<exists>m \<le> length content. length (journal_bytes crc (take m content)) \<le> length (dk_file d1)
          \<and> subseq (durable @ pending) (take m content)"
        by (intro exI [of _ "length content"]) simp
      then have "disk_inv crc source d' content (durable @ pending) issued"
        using w unfolding eq by (simp add: disk_inv_def)
      moreover have "journal_inv crc source j' d' content (durable @ pending) [] issued"
        using w full Inr unfolding eq by (auto simp: journal_inv_def)
      ultimately show ?thesis using eq by simp
    qed
  qed
qed

lemma crash_inv:
  assumes "disk_inv crc source d content durable issued" "dk_synced d \<le> k"
    and "s = dk_seq d \<or> s = dk_seq_stable d"
  shows "disk_inv crc source (d\<lparr>dk_file := take k (dk_file d), dk_seq := s, dk_seq_stable := s\<rparr>)
      content durable issued"
  using assms by (auto simp: disk_inv_def intro: prefix_order.trans [OF take_is_prefix])

interpretation js: invariant_system "journal_step crc path source" "world_inv crc path source"
  for crc path source
proof
  fix w w' :: world
  assume inv: "world_inv crc path source w" and step: "journal_step crc path source w w'"
  then obtain content where di: "disk_inv crc source (wd_disk w) content (wd_durable w) (wd_issued w)"
    and src: "length (source_bytes source) = 16"
    and cl: "path \<in> wd_claimed w \<longleftrightarrow> wd_journal w \<noteq> None"
    and none: "wd_journal w = None \<Longrightarrow> wd_pending w = []"
    and some: "\<And>j. wd_journal w = Some j \<Longrightarrow>
      journal_inv crc source j (wd_disk w) content (wd_durable w) (wd_pending w) (wd_issued w)"
    by (auto simp: world_inv_def)
  from step show "world_inv crc path source w'"
  proof cases
    case (step_open io res claimed d)
    show ?thesis
    proof (cases "path \<in> wd_claimed w")
      case True
      then have "res = Inl AlreadyOpen" "claimed = wd_claimed w" "d = wd_disk w"
        using step_open(2) open_claimed by auto
      then show ?thesis using step_open(1) inv by (simp add: world_inv_def)
    next
      case False
      then have nj: "wd_journal w = None" using cl by simp
      obtain rr d1 where rc: "recover crc io source (wd_disk w) = (rr, d1)" by (metis surj_pair)
      obtain content' where c: "disk_inv crc source d1 content' (wd_durable w) (wd_issued w)"
        "case rr of Inl e \<Rightarrow> True
         | Inr (j, rec) \<Rightarrow> journal_inv crc source j d1 content' (wd_durable w) [] (wd_issued w)
             \<and> dk_file d1 = journal_bytes crc content' \<and> rc_records rec = length content'
             \<and> rc_truncated_tail_bytes rec = length (dk_file (wd_disk w)) - length (dk_file d1)
             \<and> subseq (wd_durable w) content'"
        using recover_inv [OF di rc] by blast
      from open_free [OF False, of crc io source "wd_disk w"] show ?thesis
      proof (elim disjE conjE)
        assume "open_journal crc io path source (wd_claimed w) (wd_disk w) = (Inl Io, wd_claimed w, wd_disk w)"
        then show ?thesis using step_open inv by (simp add: world_inv_def)
      next
        assume "open_journal crc io path source (wd_claimed w) (wd_disk w) = (Inl AlreadyOpen, wd_claimed w, wd_disk w)"
        then show ?thesis using step_open inv by (simp add: world_inv_def)
      next
        assume "open_journal crc io path source (wd_claimed w) (wd_disk w) = (case recover crc io source (wd_disk w) of
             (Inl e, d1) \<Rightarrow> (Inl e, wd_claimed w, d1) | (Inr r, d1) \<Rightarrow> (Inr r, insert path (wd_claimed w), d1))"
        then show ?thesis
          using step_open rc c src nj none False
          by (cases rr) (auto simp: world_inv_def)
      qed
    qed
  next
    case (step_append j r io res j' d)
    from append_inv [OF di some [OF step_append(2)] step_append(3) src step_append(4)]
    show ?thesis using step_append(1,2) cl src by (auto simp: world_inv_def)
  next
    case (step_flush j wr fl res j' d)
    from flush_inv [OF di some [OF step_flush(2)] step_flush(3)]
    show ?thesis using step_flush(1,2) cl src by (auto simp: world_inv_def)
  next
    case (step_read j wr off mr mb res j' d)
    obtain r where "write_buffer wr j (wd_disk w) = (r, j', d)"
      using step_read(3) by (auto simp: read_page_def split: prod.splits sum.splits)
    from write_buffer_inv [OF di some [OF step_read(2)] this]
    show ?thesis using step_read(1,2) cl src by (auto simp: world_inv_def)
  next
    case (step_sync j wr sy res j' d)
    from sync_inv [OF di some [OF step_sync(2)] step_sync(3)]
    show ?thesis using step_sync(1,2) cl src by (cases res) (auto simp: world_inv_def)
  next
    case step_drop
    then show ?thesis using di src by (auto simp: world_inv_def claim_drop_def)
  next
    case (step_crash k s)
    from crash_inv [OF di step_crash(2,3)] show ?thesis
      using step_crash(1) src by (auto simp: world_inv_def)
  qed
qed

lemma empty_world_inv: "length (source_bytes source) = 16 \<Longrightarrow> world_inv crc path source empty_world"
  by (auto simp: world_inv_def empty_world_def disk_inv_def seq_ok_def)

lemma reachable_inv:
  assumes "length (source_bytes source) = 16" "journal_reachable crc path source w"
  shows "world_inv crc path source w"
  using js.run_inv assms empty_world_inv unfolding journal_reachable_def by blast

section \<open>A small life, for the witnesses\<close>

abbreviation sample_source :: source_id where "sample_source \<equiv> SourceId (replicate 16 7)"

lemma sample_set_sequence [simp]: "set_sequence (sample_record n xs) k = sample_record k xs"
  by (simp add: set_sequence_def sample_record_def)

lemma sample_typed [simp]: "raw_typed (sample_record n xs)"
  by (simp add: raw_typed_def sample_record_def)

lemma sample_encodes:
  "length xs < 1000 \<Longrightarrow> n < 1000 \<Longrightarrow> \<exists>body. encode_into (sample_record n xs) = Inr body"
  by (rule storableE [of sample_source "sample_record n xs"]) auto

lemma sample_reaches_append:
  "\<exists>w j. journal_reachable (\<lambda>_. 5) ''j'' sample_source w \<and> wd_journal w = Some j
    \<and> \<not> jn_poisoned j \<and> jn_buffer j \<noteq> [] \<and> wd_pending w = [sample_record 0 [97]]
    \<and> wd_issued w = [0] \<and> wd_durable w = []"
proof -
  let ?crc = "\<lambda>_. 5" and ?p = "''j''"
  let ?io = "\<lparr>oi_lock_file = True, oi_record_lock = Some True, oi_journal_file = True,
               oi_set_len = True, oi_sync = True, oi_read_seq = True\<rparr>"
  let ?j = "\<lparr>jn_source = sample_source, jn_next_sequence = 0, jn_reserved_until = 0,
     jn_written_bytes = 0, jn_buffer = [], jn_poisoned = False\<rparr>"
  let ?rec = "\<lparr>rc_records = 0, rc_truncated_tail_bytes = 0, rc_next_sequence = 0, rc_last_sequence = None\<rparr>"
  have op: "open_journal ?crc ?io ?p sample_source (wd_claimed empty_world) (wd_disk empty_world)
      = (Inr (?j, ?rec), {?p}, wd_disk empty_world)"
    by (simp add: open_journal_def claim_take_def empty_world_def recover_def scan_metadata_def
        scan_from.simps read_watermark_def)
  let ?w1 = "empty_world\<lparr>wd_claimed := {?p}, wd_journal := Some ?j\<rparr>"
  have s1: "journal_step ?crc ?p sample_source empty_world ?w1"
    using step_open [OF op] by (simp add: empty_world_def)
  let ?aio = "\<lparr>ai_watermark = Watermark_Ok, ai_position = 0, ai_write = None\<rparr>"
  obtain body where body: "encode_into (sample_record 0 [97]) = Inr body" using sample_encodes by force
  have len: "length body = 60"
    using storableE [of sample_source "sample_record 0 [97]"] body by (auto simp: journal_fixed_def)
  have src: "rid_source (rr_id (sample_record 5 [97])) = sample_source" by (simp add: sample_record_def)
  obtain d where rsv: "reservation ?aio ?j (wd_disk ?w1) = (Inr 1024, d)"
    by (simp add: reservation_def sequence_block_def checked_add_u64_def u64_max_def
        write_watermark_def Let_def)
  have "append_record ?crc ?aio ?j (wd_disk ?w1) (sample_record 5 [97])
      = (Inr (rr_id (sample_record 0 [97])), accepted ?crc ?j 1024 body, d)"
    using append_taken [of ?j "sample_record 5 [97]" body ?crc ?aio "wd_disk ?w1"] src body rsv len
    by (simp add: u64_max_def push_frame_append write_buffer_bytes_def journal_header_def)
  from step_append [of ?w1 ?j "sample_record 5 [97]" ?crc ?aio, OF _ _ this]
  have s2: "journal_step ?crc ?p sample_source ?w1 (?w1\<lparr>wd_journal := Some (accepted ?crc ?j 1024 body),
      wd_disk := d, wd_issued := [0], wd_pending := [sample_record 0 [97]]\<rparr>)"
    by (simp add: accepted_def empty_world_def)
  have "frame ?crc body \<noteq> []"
    using len length_frame [of ?crc body] by (metis add_is_0 list.size(3) zero_neq_numeral)
  then have "jn_buffer (accepted ?crc ?j 1024 body) \<noteq> []"
    by (simp add: accepted_def push_frame_append)
  moreover let ?w2 = "?w1\<lparr>wd_journal := Some (accepted ?crc ?j 1024 body),
      wd_disk := d, wd_issued := [0], wd_pending := [sample_record 0 [97]]\<rparr>"
  have "journal_reachable ?crc ?p sample_source ?w2"
    unfolding journal_reachable_def using s1 s2 by (meson r_into_rtranclp rtranclp.rtrancl_into_rtrancl)
  moreover have "\<not> jn_poisoned (accepted ?crc ?j 1024 body)" "wd_durable ?w2 = []"
    by (simp_all add: accepted_def empty_world_def)
  ultimately show ?thesis
    by (intro exI [of _ ?w2] exI [of _ "accepted ?crc ?j 1024 body"]) simp
qed

lemma sample_reaches_sync:
  "\<exists>w. journal_reachable (\<lambda>_. 5) ''j'' sample_source w \<and> wd_journal w = None
    \<and> wd_issued w = [0] \<and> wd_durable w = [sample_record 0 [97]]"
proof -
  let ?crc = "\<lambda>_. 5" and ?p = "''j''"
  obtain w j where w: "journal_reachable ?crc ?p sample_source w" "wd_journal w = Some j"
    "\<not> jn_poisoned j" "wd_pending w = [sample_record 0 [97]]" "wd_issued w = [0]" "wd_durable w = []"
    using sample_reaches_append by blast
  obtain res j' d where sy0: "sync_data None True j (wd_disk w) = (res, j', d)" by (metis surj_pair)
  moreover have "res = Inr ()"
    using w(3) sy0 by (auto simp: sync_data_def write_buffer_def split: if_splits)
  ultimately have sy: "sync_data None True j (wd_disk w) = (Inr (), j', d)" by simp
  let ?w1 = "w\<lparr>wd_journal := Some j', wd_disk := d, wd_durable := [sample_record 0 [97]], wd_pending := []\<rparr>"
  let ?w2 = "?w1\<lparr>wd_claimed := claim_drop (wd_claimed ?w1) ?p, wd_journal := None, wd_pending := []\<rparr>"
  have "journal_step ?crc ?p sample_source w ?w1"
    using step_sync [OF w(2) sy] w(4,6) by simp
  moreover have "journal_step ?crc ?p sample_source ?w1 ?w2" by (rule step_drop)
  ultimately have "journal_reachable ?crc ?p sample_source ?w2"
    using w(1) unfolding journal_reachable_def by (meson rtranclp.rtrancl_into_rtrancl)
  then show ?thesis using w(5) by (intro exI [of _ ?w2]) simp
qed

section \<open>Properties\<close>

text \<open>C2. Sequence numbers are never reused.  In every world a journal of this source can reach,
  through opens, appends, failed and partial writes, flushes, syncs, pages, drops and machine
  crashes that lose unsynced data and an unsynced watermark, in any order: the sequence numbers
  given to records, over the whole life of the source, are strictly increasing.\<close>

theorem sequences_never_reused:
  assumes "length (source_bytes source) = 16" "journal_reachable crc path source w"
  shows "sorted_wrt (<) (wd_issued w) \<and> distinct (wd_issued w)"
proof -
  have "sorted_wrt (<) (wd_issued w)"
    using reachable_inv [OF assms] by (auto simp: world_inv_def disk_inv_def)
  then show ?thesis using strict_sorted_iff by blast
qed

theorem sequences_never_reused_witness:
  "\<exists>w :: world. wd_issued w = [0] \<and> sorted_wrt (<) (wd_issued w) \<and> distinct (wd_issued w)"
proof -
  obtain w where w: "journal_reachable (\<lambda>_. 5) ''j'' sample_source w" "wd_issued w = [0]"
    using sample_reaches_sync by blast
  from sequences_never_reused [OF _ w(1)] w(2) show ?thesis by (intro exI [of _ w]) auto
qed

text \<open>C1. What was synced survives.  From every reachable world in which the journal is not open,
  opening it with no I/O error succeeds; the file is then the frames of storable records in
  increasing order of sequence, among them, in order, every record accepted before a successful
  \<open>sync_data\<close>, whatever crashes came since; the recovery report counts exactly them.\<close>

theorem synced_records_survive:
  assumes "length (source_bytes source) = 16" "journal_reachable crc path source w"
    and "wd_journal w = None"
    and "io = \<lparr>oi_lock_file = True, oi_record_lock = Some True, oi_journal_file = True,
               oi_set_len = True, oi_sync = True, oi_read_seq = True\<rparr>"
  shows "\<exists>j rec claimed d rs. open_journal crc io path source (wd_claimed w) (wd_disk w)
        = (Inr (j, rec), claimed, d)
    \<and> dk_file d = journal_bytes crc rs \<and> (\<forall>r \<in> set rs. storable source r)
    \<and> sorted_wrt (<) (map rr_sequence rs) \<and> subseq (wd_durable w) rs
    \<and> rc_records rec = length rs
    \<and> rc_truncated_tail_bytes rec = length (dk_file (wd_disk w)) - length (dk_file d)
    \<and> (\<forall>n \<in> set (wd_issued w). n < jn_next_sequence j)"
proof -
  obtain content where di: "disk_inv crc source (wd_disk w) content (wd_durable w) (wd_issued w)"
    and free: "path \<notin> wd_claimed w"
    using reachable_inv [OF assms(1,2)] assms(3) by (auto simp: world_inv_def)
  obtain res d where rc: "recover crc io source (wd_disk w) = (res, d)" by (metis surj_pair)
  obtain rs where rs: "disk_inv crc source d rs (wd_durable w) (wd_issued w)"
    "case res of Inl e \<Rightarrow> True
       | Inr (j, rec) \<Rightarrow> journal_inv crc source j d rs (wd_durable w) [] (wd_issued w)
           \<and> dk_file d = journal_bytes crc rs \<and> rc_records rec = length rs
           \<and> rc_truncated_tail_bytes rec = length (dk_file (wd_disk w)) - length (dk_file d)
           \<and> subseq (wd_durable w) rs"
    "oi_set_len io \<and> oi_sync io \<and> oi_read_seq io \<longrightarrow> (\<exists>r. res = Inr r)"
    using recover_inv [OF di rc] by blast
  then obtain j rec where r: "res = Inr (j, rec)" using assms(4) by auto
  have "open_journal crc io path source (wd_claimed w) (wd_disk w)
      = (Inr (j, rec), insert path (wd_claimed w), d)"
    using free rc r assms(4) by (simp add: open_journal_def claim_take_def)
  then show ?thesis using rs r by (auto simp: disk_inv_def journal_inv_def)
qed

theorem synced_records_survive_witness:
  "\<exists>(w :: world) j rec claimed d rs. open_journal (\<lambda>_. 5) \<lparr>oi_lock_file = True, oi_record_lock = Some True,
        oi_journal_file = True, oi_set_len = True, oi_sync = True, oi_read_seq = True\<rparr> ''j''
        sample_source (wd_claimed w) (wd_disk w) = (Inr (j, rec), claimed, d)
    \<and> dk_file d = journal_bytes (\<lambda>_. 5) rs \<and> subseq [sample_record 0 [97]] rs"
proof -
  obtain w where w: "journal_reachable (\<lambda>_. 5) ''j'' sample_source w" "wd_journal w = None"
    "wd_durable w = [sample_record 0 [97]]"
    using sample_reaches_sync by blast
  from synced_records_survive [OF _ w(1,2) refl] w(3) show ?thesis
    by (intro exI [of _ w]) (simp, blast)
qed

text \<open>A reader never sees less than was accepted.  While a journal of a reachable world is open
  and not poisoned, a page read whose hand-over succeeds is read from a file that holds exactly
  whole frames, among them in order every record accepted since the journal was opened.\<close>

theorem read_page_sees_accepted:
  assumes "length (source_bytes source) = 16" "journal_reachable crc path source w"
    and "wd_journal w = Some j" "\<not> jn_poisoned j"
    and "read_page crc None offset max_records max_bytes j (wd_disk w) = (res, j', d)"
  shows "\<exists>rs. dk_file d = journal_bytes crc rs \<and> subseq (wd_pending w) rs
    \<and> (\<forall>r \<in> set rs. storable source r)
    \<and> res = read_page_from crc (journal_bytes crc rs) source offset max_records max_bytes"
proof -
  obtain content where di: "disk_inv crc source (wd_disk w) content (wd_durable w) (wd_issued w)"
    and ji: "journal_inv crc source j (wd_disk w) content (wd_durable w) (wd_pending w) (wd_issued w)"
    using reachable_inv [OF assms(1,2)] assms(3) by (auto simp: world_inv_def)
  obtain r j1 d1 where wb: "write_buffer None j (wd_disk w) = (r, j1, d1)" by (metis surj_pair)
  note w = write_buffer_inv [OF di ji wb]
  have r: "r = Inr ()" using wb by (auto simp: write_buffer_def split: if_splits)
  have src: "jn_source j = source" using ji by (simp add: journal_inv_def)
  have eq: "d = d1" "res = read_page_from crc (dk_file d1) source offset max_records max_bytes"
    using assms(5) wb r src by (auto simp: read_page_def)
  have full: "dk_file d1 = journal_bytes crc content" "subseq (wd_durable w @ wd_pending w) content"
    using w r assms(4) by (auto simp: journal_inv_def)
  then have "subseq (wd_pending w) content"
    by (meson subseq_append_iff subseq_order.trans list_emb_append2 subseq_order.refl)
  then show ?thesis using di full eq by (intro exI [of _ content]) (simp add: disk_inv_def)
qed

theorem read_page_sees_accepted_witness:
  "\<exists>j d0 res j' d rs. read_page (\<lambda>_. 5) None 0 10 100 j d0 = (res, j', d)
    \<and> dk_file d = journal_bytes (\<lambda>_. 5) rs \<and> subseq [sample_record 0 [97]] rs"
proof -
  obtain w j where w: "journal_reachable (\<lambda>_. 5) ''j'' sample_source w" "wd_journal w = Some j"
    "\<not> jn_poisoned j" "wd_pending w = [sample_record 0 [97]]"
    using sample_reaches_append by blast
  obtain res j' d where rd: "read_page (\<lambda>_. 5) None 0 10 100 j (wd_disk w) = (res, j', d)"
    by (metis surj_pair)
  from read_page_sees_accepted [OF _ w(1-3) rd] w(4) rd show ?thesis by fastforce
qed

section \<open>Failing hand-overs\<close>

text \<open>Every operation of an open journal that can write, with the outcomes of its system calls, and
  what it answers.  \<open>with_write\<close> is the same call with another outcome of its write.\<close>

datatype journal_call =
    Append append_io raw_record
  | Flush "nat option" bool
  | Sync "nat option" bool
  | Read "nat option" nat nat nat

datatype journal_answer = Appended record_id | Handed_Over | Page journal_page

fun run_call :: "(byte list \<Rightarrow> 32 word) \<Rightarrow> journal_call \<Rightarrow> journal \<Rightarrow> disk
    \<Rightarrow> (journal_error + journal_answer) \<times> journal \<times> disk" where
  "run_call crc (Append io r) j d = apfst (map_sum id Appended) (append_record crc io j d r)"
| "run_call crc (Flush wr fl) j d = apfst (map_sum id (\<lambda>_. Handed_Over)) (flush_journal wr fl j d)"
| "run_call crc (Sync wr sy) j d = apfst (map_sum id (\<lambda>_. Handed_Over)) (sync_data wr sy j d)"
| "run_call crc (Read wr offset max_records max_bytes) j d =
     apfst (map_sum id Page) (read_page crc wr offset max_records max_bytes j d)"

fun run_calls :: "(byte list \<Rightarrow> 32 word) \<Rightarrow> journal_call list \<Rightarrow> journal \<Rightarrow> disk
    \<Rightarrow> (journal_error + journal_answer) list \<times> journal \<times> disk" where
  "run_calls crc [] j d = ([], j, d)"
| "run_calls crc (c # cs) j d =
    (let (answer, j1, d1) = run_call crc c j d; (answers, j2, d2) = run_calls crc cs j1 d1
     in (answer # answers, j2, d2))"

fun with_write :: "nat option \<Rightarrow> journal_call \<Rightarrow> journal_call" where
  "with_write w (Append io r) = Append (io\<lparr>ai_write := w\<rparr>) r"
| "with_write w (Flush _ fl) = Flush w fl"
| "with_write w (Sync _ sy) = Sync w sy"
| "with_write w (Read _ offset max_records max_bytes) = Read w offset max_records max_bytes"

text \<open>What a poisoned journal with nothing in its buffer answers: pages of the file as it is, and
  refusals.\<close>

fun poisoned_answer :: "(byte list \<Rightarrow> 32 word) \<Rightarrow> journal \<Rightarrow> disk \<Rightarrow> journal_call \<Rightarrow> journal_error + journal_answer" where
  "poisoned_answer crc j d (Read _ offset max_records max_bytes) =
     map_sum id Page (read_page_from crc (dk_file d) (jn_source j) offset max_records max_bytes)"
| "poisoned_answer crc j d _ = Inl Poisoned"

lemma poisoned_run_call:
  assumes "jn_poisoned j" "jn_buffer j = []"
  shows "run_call crc c j d = (poisoned_answer crc j d c, j, d)"
  using assms
  by (cases c) (simp_all add: append_record_def flush_journal_def sync_data_def read_page_def write_buffer_def)

lemma poisoned_run_calls:
  assumes "jn_poisoned j" "jn_buffer j = []"
  shows "run_calls crc cs j d = (map (poisoned_answer crc j d) cs, j, d)"
  by (induction cs) (simp_all add: poisoned_run_call [OF assms])

lemma failed_write_buffer:
  assumes "write_buffer None j d = (ok, j1, d1)" "dk_file d1 = dk_file d @ b" "b \<noteq> []"
  shows "b = jn_buffer j \<and> write_buffer (Some k) j d
    = (Inl Io, j\<lparr>jn_poisoned := True, jn_buffer := []\<rparr>, d\<lparr>dk_file := dk_file d @ take k b\<rparr>)"
  using assms by (auto simp: write_buffer_def split: if_splits)

lemma reservation_file:
  "reservation io j d = (res, d1) \<Longrightarrow> dk_file d1 = dk_file d \<and> dk_synced d1 = dk_synced d"
  by (auto simp: reservation_def write_watermark_def Let_def split: if_splits option.splits watermark_io.splits)

lemma reservation_write [simp]: "reservation (io\<lparr>ai_write := w\<rparr>) j d = reservation io j d"
  by (auto simp: reservation_def split: option.split)

text \<open>An append that grows the file took its record and reached the threshold.\<close>

lemma failed_append:
  assumes "append_record crc (io\<lparr>ai_write := None\<rparr>) j d r = (ok, j1, d1)" "dk_file d1 = dk_file d @ b" "b \<noteq> []"
    and "append_record crc (io\<lparr>ai_write := Some k\<rparr>) j d r = (res, j', d')"
  shows "res = Inl Io \<and> jn_poisoned j' \<and> jn_buffer j' = []
    \<and> dk_file d' = dk_file d @ take k b \<and> dk_synced d' = dk_synced d"
proof -
  have live: "\<not> (jn_poisoned j \<or> rid_source (rr_id r) \<noteq> jn_source j \<or> u64_max < jn_next_sequence j + 1
      \<or> (\<exists>e. encode_into (set_sequence r (jn_next_sequence j)) = Inl e))"
    using append_refused [of j r crc "io\<lparr>ai_write := None\<rparr>" d] assms(1-3) by auto
  then obtain body where body: "encode_into (set_sequence r (jn_next_sequence j)) = Inr body"
    by (cases "encode_into (set_sequence r (jn_next_sequence j))") auto
  have taken: "\<not> jn_poisoned j" "rid_source (rr_id r) = jn_source j" "jn_next_sequence j + 1 \<le> u64_max"
    using live by auto
  note run = append_taken [OF taken body, of crc]
  obtain reserve d0 where res: "reservation io j d = (reserve, d0)" by (metis surj_pair)
  note kept = reservation_file [OF res]
  obtain reserved where ok: "reserve = Inr reserved"
    using assms(1-3) kept by (cases reserve) (auto simp: run res)
  have full: "write_buffer_bytes \<le> length (push_frame crc (jn_buffer j) body)"
    using assms(1-3) kept by (auto simp: run res ok split: if_splits)
  obtain ans j2 where handed: "write_buffer None (accepted crc j reserved body) d0 = (ans, j2, d1)"
    using assms(1) full by (auto simp: run res ok split: prod.splits sum.splits)
  show ?thesis
    using failed_write_buffer [OF handed, of b k] assms(2-4) kept full by (auto simp: run res ok)
qed

lemma failed_call:
  assumes "run_call crc (with_write None c) j d = (ok, j1, d1)" "dk_file d1 = dk_file d @ b" "b \<noteq> []"
    and "run_call crc (with_write (Some k) c) j d = (answer, j', d')"
  shows "answer = Inl Io \<and> jn_poisoned j' \<and> jn_buffer j' = []
    \<and> dk_file d' = dk_file d @ take k b \<and> dk_synced d' = dk_synced d"
proof (cases c)
  case (Append io r)
  obtain ok1 where one: "append_record crc (io\<lparr>ai_write := None\<rparr>) j d r = (ok1, j1, d1)"
    using assms(1) Append by (auto simp: apfst_def map_prod_def split: prod.splits)
  obtain res where two: "append_record crc (io\<lparr>ai_write := Some k\<rparr>) j d r = (res, j', d')"
    "answer = map_sum id Appended res"
    using assms(4) Append by (auto simp: apfst_def map_prod_def split: prod.splits)
  show ?thesis using failed_append [OF one assms(2,3) two(1)] two(2) by simp
next
  case (Flush wr fl)
  obtain ok1 j0 where wb: "write_buffer None j d = (ok1, j0, d1)"
    using assms(1-3) Flush by (auto simp: flush_journal_def split: if_splits prod.splits sum.splits)
  have "\<not> jn_poisoned j" using assms(1-3) Flush by (auto simp: flush_journal_def)
  then show ?thesis using failed_write_buffer [OF wb assms(2,3), of k] assms(4) Flush by (auto simp: flush_journal_def)
next
  case (Sync wr sy)
  obtain ok1 j0 d0 where wb: "write_buffer None j d = (ok1, j0, d0)" "dk_file d0 = dk_file d1"
    using assms(1-3) Sync by (auto simp: sync_data_def split: if_splits prod.splits sum.splits)
  have "\<not> jn_poisoned j" using assms(1-3) Sync by (auto simp: sync_data_def)
  then show ?thesis using failed_write_buffer [OF wb(1), of b k] wb(2) assms(2-4) Sync by (auto simp: sync_data_def)
next
  case (Read wr offset max_records max_bytes)
  obtain ok1 j0 where wb: "write_buffer None j d = (ok1, j0, d1)"
    using assms(1-3) Read by (auto simp: read_page_def split: prod.splits sum.splits)
  show ?thesis using failed_write_buffer [OF wb assms(2,3), of k] assms(4) Read by (auto simp: read_page_def)
qed

text \<open>C7. A failed hand-over poisons the writer, whichever operation makes it: an append whose buffer
  reaches the threshold, a flush, a sync or a page read.  Whenever the operation would have written
  the bytes \<open>b\<close> to the file, and the write fails after \<open>k\<close> of them instead, the operation reports the
  error and the file ends with what arrived.  From then on, over any further operations, appends,
  flushes and syncs are refused, pages are read from the file as it is, and neither the journal nor
  the disk changes: nothing is ever written after a torn frame.\<close>

theorem failed_write_poisons:
  assumes "run_call crc (with_write None c) j d = (ok, j1, d1)" "dk_file d1 = dk_file d @ b" "b \<noteq> []"
    and "run_call crc (with_write (Some k) c) j d = (answer, j', d')"
  shows "answer = Inl Io \<and> dk_file d' = dk_file d @ take k b \<and> dk_synced d' = dk_synced d
    \<and> run_calls crc later j' d' = (map (poisoned_answer crc j' d') later, j', d')"
  using failed_call [OF assms] poisoned_run_calls [of j' crc later d'] by simp

text \<open>An append that reaches the threshold, whose write tears the buffer, and three calls after it.\<close>

definition full_journal :: journal where
  "full_journal = \<lparr>jn_source = sample_source, jn_next_sequence = 4, jn_reserved_until = 9,
     jn_written_bytes = 2, jn_buffer = replicate write_buffer_bytes 1, jn_poisoned = False\<rparr>"

theorem failed_write_poisons_witness:
  "\<exists>j' d'. run_call (\<lambda>_. 5) (Append \<lparr>ai_watermark = Watermark_Ok, ai_position = 0, ai_write = Some 2\<rparr>
        (sample_record 0 [97])) full_journal
      \<lparr>dk_file = [], dk_synced = 0, dk_seq = None, dk_seq_stable = None\<rparr> = (Inl Io, j', d')
    \<and> dk_file d' = [1, 1]
    \<and> run_calls (\<lambda>_. 5) [Append \<lparr>ai_watermark = Watermark_Ok, ai_position = 0, ai_write = None\<rparr> (sample_record 0 [98]),
        Flush None True, Sync None True] j' d' = ([Inl Poisoned, Inl Poisoned, Inl Poisoned], j', d')"
proof -
  let ?d = "\<lparr>dk_file = [], dk_synced = 0, dk_seq = None, dk_seq_stable = None\<rparr>"
  let ?io = "\<lambda>w. \<lparr>ai_watermark = Watermark_Ok, ai_position = 0, ai_write = w\<rparr>"
  let ?c = "Append (?io None) (sample_record 0 [97])"
  let ?r = "set_sequence (sample_record 0 [97]) (jn_next_sequence full_journal)"
  have r: "?r = sample_record 4 [97]" by (simp add: full_journal_def set_sequence_def sample_record_def)
  obtain body where body: "encode_into ?r = Inr body"
    unfolding r using sample_encodes [of "[97]" 4] by auto
  have taken: "\<not> jn_poisoned full_journal" "rid_source (rr_id (sample_record 0 [97])) = jn_source full_journal"
    "jn_next_sequence full_journal + 1 \<le> u64_max"
    by (simp_all add: full_journal_def sample_record_def u64_max_def)
  let ?b = "push_frame (\<lambda>_. 5) (jn_buffer full_journal) body"
  have b: "?b = replicate write_buffer_bytes 1 @ frame (\<lambda>_. 5) body"
    by (simp add: push_frame_append full_journal_def)
  then have full: "write_buffer_bytes \<le> length ?b" by simp
  have buffer: "jn_buffer (accepted (\<lambda>_. 5) full_journal 9 body) = ?b" by (simp add: accepted_def)
  have room: "reservation (?io None) full_journal ?d = (Inr 9, ?d)" by (simp add: reservation_def full_journal_def)
  have nonempty: "?b \<noteq> []" using full by (auto simp: write_buffer_bytes_def)
  obtain ok j1 d1 where one: "run_call (\<lambda>_. 5) (with_write None ?c) full_journal ?d = (ok, j1, d1)"
    by (metis surj_pair)
  have grown: "dk_file d1 = dk_file ?d @ ?b"
    using one nonempty by (auto simp: append_taken [OF taken body] room full write_buffer_def buffer)
  obtain answer j' d' where two: "run_call (\<lambda>_. 5) (with_write (Some 2) ?c) full_journal ?d = (answer, j', d')"
    by (metis surj_pair)
  have torn: "take 2 ?b = [1, 1]" by (simp add: b write_buffer_bytes_def numeral_2_eq_2)
  show ?thesis
    using failed_write_poisons [OF one grown nonempty two,
        of "[Append (?io None) (sample_record 0 [98]), Flush None True, Sync None True]"] two torn
    by simp
qed

end
