(* ===== verification/Capture.thy ===== *)
theory Capture
  imports Framer "HOL-Library.Sublist"
begin

text \<open>
  The capture loops of \<open>crates/lvu-core/src/acquisition.rs\<close> that read one stream: the events a
  capture publishes, how an event is handed over (\<open>emit\<close>, \<open>emit_records\<close>), and the loops
  \<open>run_reader\<close> (standard input) and \<open>read_stream\<close> (a command's output).

  A loop waits on several sources at once; which one completes, and with what, is a script of
  outcomes, one per round.  A script that runs out before the loop returns leaves it waiting
  (\<open>None\<close>).  Each hand-over to the consumer succeeds or fails as \<open>ce_deliver\<close> says; the clocks
  of the i-th framer call are \<open>ce_clock i\<close>.
\<close>

section \<open>Events\<close>

datatype boundary_reason = Started | Rotated | Truncated

record file_identity =
  fi_device :: nat
  fi_inode :: nat

record file_resume_cursor =
  rc_offset :: nat
  rc_identity :: "file_identity option"
  rc_evidence :: "byte list"
  rc_content_crc32 :: nat

datatype file_encoding = Plain | Gzip nat nat "byte list"

datatype capture_event =
    Boundary uuid boundary_reason
  | Records "captured_record list"
  | FileCheckpoint uuid file_resume_cursor file_encoding
  | CommandExit uuid "int option" bool
  | CaptureError uuid string
  | CaptureStopped uuid

record capture_limits =
  cl_channel_capacity :: nat
  cl_read_chunk_bytes :: nat
  cl_maximum_record_bytes :: nat
  cl_poll_interval :: nat
  cl_partial_flush_interval :: nat
  cl_history_capacity :: nat

definition limits_valid :: "capture_limits \<Rightarrow> bool" where
  "limits_valid l \<longleftrightarrow> \<not> (cl_channel_capacity l = 0 \<or> cl_read_chunk_bytes l = 0
     \<or> cl_maximum_record_bytes l = 0 \<or> cl_partial_flush_interval l = 0 \<or> cl_poll_interval l = 0)"

record completion =
  cc_aborted :: bool
  cc_discarded_buffered_bytes :: nat

definition completion_default :: completion where
  "completion_default = \<lparr>cc_aborted = False, cc_discarded_buffered_bytes = 0\<rparr>"

definition aborted :: "nat \<Rightarrow> completion" where
  "aborted n = \<lparr>cc_aborted = True, cc_discarded_buffered_bytes = n\<rparr>"

fun records_of :: "capture_event \<Rightarrow> captured_record list" where
  "records_of (Records rs) = rs"
| "records_of _ = []"

section \<open>Handing events over\<close>

text \<open>What the environment decides: whether the i-th hand-over succeeds (it fails once capture is
  cancelled or the consumer is gone), and the clock and CPU readings of the i-th framer call.\<close>

record capture_env =
  ce_memchr :: "byte \<Rightarrow> byte list \<Rightarrow> nat option"
  ce_deliver :: "nat \<Rightarrow> bool"
  ce_clock :: "nat \<Rightarrow> (nat \<Rightarrow> int) \<times> nat"

record sink =
  sk_events :: "capture_event list"
  sk_sends :: nat
  sk_framer_calls :: nat

definition emit :: "capture_env \<Rightarrow> capture_event \<Rightarrow> sink \<Rightarrow> bool \<times> sink" where
  "emit env ev s =
    (let s1 = s\<lparr>sk_sends := sk_sends s + 1\<rparr> in
     if ce_deliver env (sk_sends s) then (True, s1\<lparr>sk_events := sk_events s @ [ev]\<rparr>)
     else (False, s1))"

definition emit_records :: "capture_env \<Rightarrow> captured_record list \<Rightarrow> sink \<Rightarrow> bool \<times> sink" where
  "emit_records env records s = (if records = [] then (True, s) else emit env (Records records) s)"

definition tick_clock :: "capture_env \<Rightarrow> sink \<Rightarrow> ((nat \<Rightarrow> int) \<times> nat) \<times> sink" where
  "tick_clock env s = (ce_clock env (sk_framer_calls s), s\<lparr>sk_framer_calls := sk_framer_calls s + 1\<rparr>)"

text \<open>The framer calls of a loop, with the clocks of that call.\<close>

definition loop_push ::
  "capture_env \<Rightarrow> stream_kind \<Rightarrow> uuid \<Rightarrow> byte list \<Rightarrow> framer \<times> sink
    \<Rightarrow> ((framer \<times> captured_record list) \<times> sink) option" where
  "loop_push env st aq input = (\<lambda>(f, s).
    let ((clock, cpu), s1) = tick_clock env s in
    (case framer_push (ce_memchr env) clock cpu st aq f input of
       None \<Rightarrow> None
     | Some out \<Rightarrow> Some (out, s1)))"

definition loop_finish ::
  "capture_env \<Rightarrow> stream_kind \<Rightarrow> uuid \<Rightarrow> framer \<times> sink \<Rightarrow> (framer \<times> captured_record list) \<times> sink" where
  "loop_finish env st aq = (\<lambda>(f, s).
    let ((clock, cpu), s1) = tick_clock env s in (framer_finish (clock 0) cpu st aq f, s1))"

definition loop_flush ::
  "capture_env \<Rightarrow> stream_kind \<Rightarrow> uuid \<Rightarrow> framer \<times> sink \<Rightarrow> (framer \<times> captured_record list) \<times> sink" where
  "loop_flush env st aq = (\<lambda>(f, s).
    let ((clock, cpu), s1) = tick_clock env s in (framer_flush_partial (clock 0) cpu st aq f, s1))"

section \<open>Reading standard input\<close>

text \<open>One round of the loop: what its \<open>select!\<close> yields.\<close>

datatype read_event =
    ReadCancelled
  | ReadStopped
  | ReadClosed
  | ReadTick
  | ReadBytes "byte list"
  | ReadError string

fun reader_loop ::
  "capture_env \<Rightarrow> uuid \<Rightarrow> framer \<Rightarrow> sink \<Rightarrow> read_event list \<Rightarrow> (completion \<times> sink) option" where
  "reader_loop env aq f s [] = None"
| "reader_loop env aq f s (ev # script) =
    (case ev of
       ReadCancelled \<Rightarrow> Some (aborted (framer_buffered_len f), s)
     | ReadStopped \<Rightarrow>
         (let ((f1, records), s1) = loop_finish env Stdin aq (f, s);
              (_, s2) = emit_records env records s1
          in Some (completion_default, s2))
     | ReadClosed \<Rightarrow> Some (aborted (framer_buffered_len f), s)
     | ReadTick \<Rightarrow>
         (let ((f1, records), s1) = loop_flush env Stdin aq (f, s);
              (sent, s2) = emit_records env records s1
          in if \<not> sent then Some (aborted (framer_buffered_len f1), s2)
             else reader_loop env aq f1 s2 script)
     | ReadBytes [] \<Rightarrow>
         (let ((f1, records), s1) = loop_finish env Stdin aq (f, s);
              (_, s2) = emit_records env records s1
          in Some (completion_default, s2))
     | ReadBytes bytes \<Rightarrow>
         (case loop_push env Stdin aq bytes (f, s) of
            None \<Rightarrow> None
          | Some ((f1, records), s1) \<Rightarrow>
              (let (sent, s2) = emit_records env records s1
               in if \<not> sent then Some (aborted (framer_buffered_len f1), s2)
                  else reader_loop env aq f1 s2 script))
     | ReadError detail \<Rightarrow>
         (let ((f1, records), s1) = loop_finish env Stdin aq (f, s);
              discarded = sum_list (map (\<lambda>r. length (as_slice (cr_bytes r))
                + length (as_slice (cr_delimiter r))) records);
              (sent, s2) = emit_records env records s1
          in if \<not> sent then Some (aborted discarded, s2)
             else
               let (sent2, s3) = emit env (CaptureError aq detail) s2
               in if \<not> sent2 then Some (aborted 0, s3) else Some (completion_default, s3)))"

definition new_sink :: sink where
  "new_sink = \<lparr>sk_events = [], sk_sends = 0, sk_framer_calls = 0\<rparr>"

definition run_reader ::
  "capture_env \<Rightarrow> uuid \<Rightarrow> capture_limits \<Rightarrow> read_event list \<Rightarrow> (completion \<times> sink) option" where
  "run_reader env aq limits script =
    (let (sent, s) = emit env (Boundary aq Started) new_sink in
     if \<not> sent then Some (aborted 0, s)
     else reader_loop env aq (framer_new (cl_maximum_record_bytes limits)) s script)"

section \<open>Reading a command's output\<close>

text \<open>The same rounds, without a stop signal; the result is the bytes not handed over.\<close>

fun stream_loop ::
  "capture_env \<Rightarrow> stream_kind \<Rightarrow> uuid \<Rightarrow> framer \<Rightarrow> sink \<Rightarrow> read_event list \<Rightarrow> (nat \<times> sink) option" where
  "stream_loop env st aq f s [] = None"
| "stream_loop env st aq f s (ev # script) =
    (case ev of
       ReadCancelled \<Rightarrow> Some (framer_buffered_len f, s)
     | ReadStopped \<Rightarrow> None
     | ReadClosed \<Rightarrow> None
     | ReadTick \<Rightarrow>
         (let ((f1, records), s1) = loop_flush env st aq (f, s);
              (sent, s2) = emit_records env records s1
          in if \<not> sent then Some (framer_buffered_len f1, s2)
             else stream_loop env st aq f1 s2 script)
     | ReadBytes [] \<Rightarrow>
         (let ((f1, records), s1) = loop_finish env st aq (f, s);
              (_, s2) = emit_records env records s1
          in Some (0, s2))
     | ReadBytes bytes \<Rightarrow>
         (case loop_push env st aq bytes (f, s) of
            None \<Rightarrow> None
          | Some ((f1, records), s1) \<Rightarrow>
              (let (sent, s2) = emit_records env records s1
               in if \<not> sent then Some (framer_buffered_len f1, s2)
                  else stream_loop env st aq f1 s2 script))
     | ReadError detail \<Rightarrow>
         (let (_, s1) = emit env (CaptureError aq detail) s
          in Some (framer_buffered_len f, s1)))"

definition read_stream ::
  "capture_env \<Rightarrow> stream_kind \<Rightarrow> uuid \<Rightarrow> capture_limits \<Rightarrow> sink \<Rightarrow> read_event list \<Rightarrow> (nat \<times> sink) option" where
  "read_stream env st aq limits s script =
    stream_loop env st aq (framer_new (cl_maximum_record_bytes limits)) s script"

section \<open>What a loop hands over\<close>

definition content :: "captured_record list \<Rightarrow> byte list" where
  "content rs = concat (map record_content rs)"

definition events_content :: "capture_event list \<Rightarrow> byte list" where
  "events_content evs = content (concat (map records_of evs))"

text \<open>The bytes a script offers: those of its reads before the round that ends the loop.\<close>

fun script_input :: "read_event list \<Rightarrow> byte list" where
  "script_input [] = []"
| "script_input (ev # script) =
    (case ev of
       ReadTick \<Rightarrow> script_input script
     | ReadBytes [] \<Rightarrow> []
     | ReadBytes bytes \<Rightarrow> bytes @ script_input script
     | _ \<Rightarrow> [])"

definition ends_loop :: "read_event \<Rightarrow> bool" where
  "ends_loop ev \<longleftrightarrow> (case ev of ReadTick \<Rightarrow> False | ReadBytes bytes \<Rightarrow> bytes = [] | _ \<Rightarrow> True)"

lemma content_simps [simp]:
  "content [] = []"
  "content (rs @ rs') = content rs @ content rs'"
  by (simp_all add: content_def)

lemma events_content_simps [simp]:
  "events_content [] = []"
  "events_content (evs @ evs') = events_content evs @ events_content evs'"
  "events_content (ev # evs) = content (records_of ev) @ events_content evs"
  by (simp_all add: events_content_def content_def)

lemma emit_spec:
  "emit env ev s = (sent, s') \<Longrightarrow>
     sent = ce_deliver env (sk_sends s) \<and> sk_events s' = sk_events s @ (if sent then [ev] else [])"
  by (auto simp: emit_def Let_def split: if_splits)

text \<open>A hand-over either publishes the whole batch or nothing of it.\<close>

lemma emit_records_spec:
  assumes "emit_records env rs s = (sent, s')"
  shows "\<exists>out. sk_events s' = sk_events s @ out
    \<and> events_content out = (if sent then content rs else [])
    \<and> ((\<forall>i. ce_deliver env i) \<longrightarrow> sent)"
  using assms emit_spec [of env "Records rs" s sent s']
  by (auto simp: emit_records_def split: if_splits)

lemma loop_push_spec:
  assumes "framer_ok f" "memchr_ok (ce_memchr env)"
  shows "\<exists>f' rs s'. loop_push env st aq xs (f, s) = Some ((f', rs), s') \<and> framer_ok f'
    \<and> content rs @ fr_pending f' = fr_pending f @ xs \<and> sk_events s' = sk_events s"
proof -
  obtain clock cpu where c: "ce_clock env (sk_framer_calls s) = (clock, cpu)" by (metis surj_pair)
  obtain f' rs where p: "newline_push find_byte (clock, cpu, st, aq) f xs = Some (f', rs)" "framer_ok f'"
    "concat (map record_content rs) @ fr_pending f' = fr_pending f @ xs"
    using nl.push_law [OF assms(1)] by blast
  then show ?thesis
    using memchr_ok_eq [OF assms(2)] c
    by (simp add: loop_push_def tick_clock_def newline_push_def content_def)
qed

lemma loop_finish_spec:
  assumes "framer_ok f" "loop_finish env st aq (f, s) = ((f', rs), s')"
  shows "framer_ok f' \<and> content rs = fr_pending f \<and> sk_events s' = sk_events s"
proof -
  obtain clock cpu where c: "ce_clock env (sk_framer_calls s) = (clock, cpu)" by (metis surj_pair)
  then have "newline_finish (clock, cpu, st, aq) f = (f', rs)" "sk_events s' = sk_events s"
    using assms(2) by (auto simp: loop_finish_def tick_clock_def newline_finish_def)
  with nl.finish_law [OF assms(1)] show ?thesis by (auto simp: content_def)
qed

lemma loop_flush_spec:
  assumes "framer_ok f" "loop_flush env st aq (f, s) = ((f', rs), s')"
  shows "framer_ok f' \<and> content rs @ fr_pending f' = fr_pending f \<and> sk_events s' = sk_events s"
proof -
  obtain clock cpu where c: "ce_clock env (sk_framer_calls s) = (clock, cpu)" by (metis surj_pair)
  then have "framer_flush_partial (clock 0) cpu st aq f = (f', rs)" "sk_events s' = sk_events s"
    using assms(2) by (auto simp: loop_flush_def tick_clock_def)
  with framer_flush_partial_spec [OF assms(1)] show ?thesis by (auto simp: content_def)
qed

text \<open>The account a loop keeps: what it published is a prefix of what it held and read, all of it
  when it returns without aborting and every hand-over succeeded, and otherwise what it did not
  publish is what it reports as discarded.\<close>

definition accounts :: "capture_env \<Rightarrow> byte list \<Rightarrow> byte list \<Rightarrow> bool \<Rightarrow> nat \<Rightarrow> bool" where
  "accounts env published offered whole discarded \<longleftrightarrow>
     prefix published offered
   \<and> ((\<forall>i. ce_deliver env i) \<longrightarrow>
        length published + discarded = length offered \<and> (whole \<longrightarrow> published = offered))"

lemma accounts_held:
  "accounts env [] (p @ xs) whole discarded \<longleftrightarrow>
     ((\<forall>i. ce_deliver env i) \<longrightarrow> discarded = length p + length xs \<and> (whole \<longrightarrow> p = [] \<and> xs = []))"
  by (auto simp: accounts_def)

lemma accounts_append:
  "accounts env out (p' @ xs) whole n \<Longrightarrow> c @ p' = p \<Longrightarrow> accounts env (c @ out) (p @ xs) whole n"
  by (auto simp: accounts_def)

lemma reader_loop_account:
  assumes "framer_ok f" "memchr_ok (ce_memchr env)"
    and "reader_loop env aq f s script = Some (c, s')"
  shows "\<exists>out. sk_events s' = sk_events s @ out
    \<and> accounts env (events_content out) (fr_pending f @ script_input script)
        (\<not> cc_aborted c) (cc_discarded_buffered_bytes c)"
  using assms(1,3)
proof (induction script arbitrary: f s)
  case Nil
  then show ?case by simp
next
  case (Cons ev script)
  let ?goal = "\<lambda>xs. \<exists>out. sk_events s' = sk_events s @ out \<and> accounts env (events_content out)
      (fr_pending f @ xs) (\<not> cc_aborted c) (cc_discarded_buffered_bytes c)"
  have finished: "?goal []"
    if fin: "loop_finish env Stdin aq (f, s) = ((f1, rs), s1)"
      and em: "emit_records env rs s1 = (sent, s2)" and eq: "c = completion_default" "s' = s2"
    for f1 rs s1 sent s2
    using loop_finish_spec [OF Cons.prems(1) fin] emit_records_spec [OF em] eq
    by (auto simp: accounts_def completion_default_def)
  have held: "?goal xs" if "c = aborted (framer_buffered_len f)" "s' = s" "xs = []" for xs
    using that by (auto simp: accounts_def aborted_def framer_buffered_len_def)
  have onward: "?goal (xs @ script_input script)"
    if cons: "framer_ok f1" "content rs @ fr_pending f1 = fr_pending f @ xs" "sk_events s1 = sk_events s"
      and em: "emit_records env rs s1 = (sent, s2)"
      and rest: "(if \<not> sent then Some (aborted (framer_buffered_len f1), s2)
        else reader_loop env aq f1 s2 script) = Some (c, s')"
    for f1 rs s1 sent s2 xs
  proof -
    obtain out where out: "sk_events s2 = sk_events s1 @ out"
      "events_content out = (if sent then content rs else [])" "(\<forall>i. ce_deliver env i) \<longrightarrow> sent"
      using emit_records_spec [OF em] by blast
    show ?thesis
    proof (cases sent)
      case False
      then show ?thesis using out cons(3) rest
        by (intro exI [of _ out]) (auto simp: accounts_def aborted_def)
    next
      case True
      then obtain out2 where o2: "sk_events s' = sk_events s2 @ out2"
        "accounts env (events_content out2) (fr_pending f1 @ script_input script)
          (\<not> cc_aborted c) (cc_discarded_buffered_bytes c)"
        using Cons.IH [OF cons(1)] rest by auto
      have "accounts env (content rs @ events_content out2) ((fr_pending f @ xs) @ script_input script)
          (\<not> cc_aborted c) (cc_discarded_buffered_bytes c)"
        using accounts_append [OF o2(2) cons(2)] .
      then show ?thesis using out o2(1) cons(3) True
        by (intro exI [of _ "out @ out2"]) simp
    qed
  qed
  obtain f1 rs s1 where fin: "loop_finish env Stdin aq (f, s) = ((f1, rs), s1)" by (metis surj_pair)
  obtain sent s2 where em: "emit_records env rs s1 = (sent, s2)" by (metis surj_pair)
  show ?case
  proof (cases ev)
    case ReadCancelled
    then show ?thesis using held [of "[]"] Cons.prems(2) by simp
  next
    case ReadClosed
    then show ?thesis using held [of "[]"] Cons.prems(2) by simp
  next
    case ReadStopped
    then show ?thesis using finished [OF fin em] Cons.prems(2) fin em by simp
  next
    case ReadTick
    obtain f2 rs2 s3 where fl: "loop_flush env Stdin aq (f, s) = ((f2, rs2), s3)" by (metis surj_pair)
    obtain sent2 s4 where em2: "emit_records env rs2 s3 = (sent2, s4)" by (metis surj_pair)
    show ?thesis
      using onward [where ?f1.0 = f2 and rs = rs2 and ?s1.0 = s3 and xs = "[]" and sent = sent2 and ?s2.0 = s4] loop_flush_spec [OF Cons.prems(1) fl] em2 fl ReadTick
        Cons.prems(2) by (simp split: if_splits)
  next
    case (ReadBytes bytes)
    show ?thesis
    proof (cases bytes)
      case Nil
      then show ?thesis using finished [OF fin em] ReadBytes Cons.prems(2) fin em by simp
    next
      case (Cons b bs)
      obtain f2 rs2 s3 where pu: "loop_push env Stdin aq bytes (f, s) = Some ((f2, rs2), s3)"
        "framer_ok f2" "content rs2 @ fr_pending f2 = fr_pending f @ bytes" "sk_events s3 = sk_events s"
        using loop_push_spec [OF Cons.prems(1) assms(2)] by blast
      obtain sent2 s4 where em2: "emit_records env rs2 s3 = (sent2, s4)" by (metis surj_pair)
      show ?thesis
        using onward [OF pu(2-4) em2] pu(1) em2 ReadBytes Cons Cons.prems(2) by (simp split: if_splits)
    qed
  next
    case (ReadError detail)
    obtain out where out: "sk_events s2 = sk_events s1 @ out"
      "events_content out = (if sent then content rs else [])" "(\<forall>i. ce_deliver env i) \<longrightarrow> sent"
      using emit_records_spec [OF em] by blast
    note fs = loop_finish_spec [OF Cons.prems(1) fin]
    obtain sent3 s3 where em3: "emit env (CaptureError aq detail) s2 = (sent3, s3)" by (metis surj_pair)
    note e3 = emit_spec [OF em3]
    show ?thesis
    proof (cases sent)
      case False
      then have "sk_events s' = sk_events s2" "c = aborted (sum_list (map (\<lambda>r. length (as_slice (cr_bytes r))
                + length (as_slice (cr_delimiter r))) rs))"
        using Cons.prems(2) ReadError fin em by auto
      then show ?thesis using out False fs ReadError by (intro exI [of _ out]) (auto simp: accounts_def)
    next
      case True
      then have "s' = s3" "c = (if sent3 then completion_default else aborted 0)"
        using Cons.prems(2) ReadError fin em em3 by (auto split: if_splits)
      then show ?thesis using out True fs ReadError e3
        by (intro exI [of _ "out @ (if sent3 then [CaptureError aq detail] else [])"])
          (auto simp: accounts_def completion_default_def aborted_def)
    qed
  qed
qed

text \<open>A loop whose script reaches an outcome that ends it returns.\<close>

lemma reader_loop_returns:
  assumes "framer_ok f" "memchr_ok (ce_memchr env)" "\<exists>ev \<in> set script. ends_loop ev"
  shows "reader_loop env aq f s script \<noteq> None"
  using assms(1,3)
proof (induction script arbitrary: f s)
  case Nil
  then show ?case by simp
next
  case (Cons ev script)
  show ?case
  proof (cases "ends_loop ev")
    case True
    then show ?thesis
      by (cases ev) (auto simp: ends_loop_def Let_def split: prod.splits list.splits)
  next
    case False
    then have later: "\<exists>ev \<in> set script. ends_loop ev" using Cons.prems(2) by auto
    show ?thesis
    proof (cases ev)
      case ReadTick
      obtain f2 rs2 s3 where fl: "loop_flush env Stdin aq (f, s) = ((f2, rs2), s3)" by (metis surj_pair)
      then show ?thesis
        using loop_flush_spec [OF Cons.prems(1) fl] ReadTick Cons.IH [OF _ later]
        by (auto simp: Let_def split: prod.splits)
    next
      case (ReadBytes bytes)
      obtain f2 rs2 s3 where "loop_push env Stdin aq bytes (f, s) = Some ((f2, rs2), s3)" "framer_ok f2"
        using loop_push_spec [OF Cons.prems(1) assms(2)] by blast
      then show ?thesis
        using ReadBytes False Cons.IH [OF _ later]
        by (auto simp: ends_loop_def Let_def split: prod.splits list.splits)
    qed (use False in \<open>auto simp: ends_loop_def\<close>)
  qed
qed

text \<open>The loop of a command's output, on the same account; it never finishes its framer on an
  error, and reports what it held.\<close>

lemma stream_loop_account:
  assumes "framer_ok f" "memchr_ok (ce_memchr env)"
    and "stream_loop env st aq f s script = Some (n, s')"
  shows "\<exists>out. sk_events s' = sk_events s @ out
    \<and> accounts env (events_content out) (fr_pending f @ script_input script) (n = 0) n"
  using assms(1,3)
proof (induction script arbitrary: f s)
  case Nil
  then show ?case by simp
next
  case (Cons ev script)
  let ?goal = "\<lambda>xs. \<exists>out. sk_events s' = sk_events s @ out
    \<and> accounts env (events_content out) (fr_pending f @ xs) (n = 0) n"
  have onward: "?goal (xs @ script_input script)"
    if cons: "framer_ok f1" "content rs @ fr_pending f1 = fr_pending f @ xs" "sk_events s1 = sk_events s"
      and em: "emit_records env rs s1 = (sent, s2)"
      and rest: "(if \<not> sent then Some (framer_buffered_len f1, s2)
        else stream_loop env st aq f1 s2 script) = Some (n, s')"
    for f1 rs s1 sent s2 xs
  proof -
    obtain out where out: "sk_events s2 = sk_events s1 @ out"
      "events_content out = (if sent then content rs else [])" "(\<forall>i. ce_deliver env i) \<longrightarrow> sent"
      using emit_records_spec [OF em] by blast
    show ?thesis
    proof (cases sent)
      case False
      then show ?thesis using out cons(3) rest
        by (intro exI [of _ out]) (auto simp: accounts_def)
    next
      case True
      then obtain out2 where o2: "sk_events s' = sk_events s2 @ out2"
        "accounts env (events_content out2) (fr_pending f1 @ script_input script) (n = 0) n"
        using Cons.IH [OF cons(1)] rest by auto
      have "accounts env (content rs @ events_content out2) ((fr_pending f @ xs) @ script_input script)
          (n = 0) n"
        using accounts_append [OF o2(2) cons(2)] .
      then show ?thesis using out o2(1) cons(3) True
        by (intro exI [of _ "out @ out2"]) simp
    qed
  qed
  show ?case
  proof (cases ev)
    case ReadCancelled
    then show ?thesis using Cons.prems(2) by (auto simp: accounts_def framer_buffered_len_def)
  next
    case ReadTick
    obtain f2 rs2 s3 where fl: "loop_flush env st aq (f, s) = ((f2, rs2), s3)" by (metis surj_pair)
    obtain sent2 s4 where em2: "emit_records env rs2 s3 = (sent2, s4)" by (metis surj_pair)
    show ?thesis
      using onward [where ?f1.0 = f2 and rs = rs2 and ?s1.0 = s3 and xs = "[]" and sent = sent2 and ?s2.0 = s4]
        loop_flush_spec [OF Cons.prems(1) fl] em2 fl ReadTick Cons.prems(2) by (simp split: if_splits)
  next
    case (ReadBytes bytes)
    show ?thesis
    proof (cases bytes)
      case Nil
      obtain f1 rs s1 where fin: "loop_finish env st aq (f, s) = ((f1, rs), s1)" by (metis surj_pair)
      obtain sent s2 where em: "emit_records env rs s1 = (sent, s2)" by (metis surj_pair)
      have "n = 0" "s' = s2" using Nil ReadBytes Cons.prems(2) fin em by auto
      then show ?thesis
        using loop_finish_spec [OF Cons.prems(1) fin] emit_records_spec [OF em] Nil ReadBytes
        by (auto simp: accounts_def)
    next
      case (Cons b bs)
      obtain f2 rs2 s3 where pu: "loop_push env st aq bytes (f, s) = Some ((f2, rs2), s3)"
        "framer_ok f2" "content rs2 @ fr_pending f2 = fr_pending f @ bytes" "sk_events s3 = sk_events s"
        using loop_push_spec [OF Cons.prems(1) assms(2)] by blast
      obtain sent2 s4 where em2: "emit_records env rs2 s3 = (sent2, s4)" by (metis surj_pair)
      show ?thesis
        using onward [OF pu(2-4) em2] pu(1) em2 ReadBytes Cons Cons.prems(2) by (simp split: if_splits)
    qed
  next
    case (ReadError detail)
    obtain sent s1 where em: "emit env (CaptureError aq detail) s = (sent, s1)" by (metis surj_pair)
    then show ?thesis using Cons.prems(2) ReadError emit_spec [OF em]
      by (intro exI [of _ "if sent then [CaptureError aq detail] else []"])
        (auto simp: accounts_def framer_buffered_len_def)
  qed (use Cons.prems(2) in auto)
qed

section \<open>Properties\<close>

text \<open>Standard input is captured exactly.  Once a round ends it, \<open>run_reader\<close> returns; what it
  published, in order, is a prefix of the bytes read.  If every hand-over succeeded it is all of
  them when the run is not reported aborted, and otherwise all but as many as it reports
  discarded.\<close>

theorem reader_accounts_for_input:
  assumes "limits_valid limits" "memchr_ok (ce_memchr env)" "\<exists>ev \<in> set script. ends_loop ev"
  shows "\<exists>c s. run_reader env aq limits script = Some (c, s)
    \<and> prefix (events_content (sk_events s)) (script_input script)
    \<and> ((\<forall>i. ce_deliver env i) \<longrightarrow>
         length (events_content (sk_events s)) + cc_discarded_buffered_bytes c = length (script_input script)
       \<and> (\<not> cc_aborted c \<longrightarrow> events_content (sk_events s) = script_input script)
       \<and> (\<exists>rest. sk_events s = Boundary aq Started # rest))"
proof -
  have ok: "framer_ok (framer_new (cl_maximum_record_bytes limits))"
    using assms(1) by (simp add: limits_valid_def)
  obtain sent s0 where em: "emit env (Boundary aq Started) new_sink = (sent, s0)" by (metis surj_pair)
  note e = emit_spec [OF em]
  show ?thesis
  proof (cases sent)
    case False
    then show ?thesis using em e by (auto simp: run_reader_def new_sink_def)
  next
    case True
    obtain c s where r: "reader_loop env aq (framer_new (cl_maximum_record_bytes limits)) s0 script = Some (c, s)"
      using reader_loop_returns [OF ok assms(2,3), of aq s0] by auto
    obtain out where out: "sk_events s = sk_events s0 @ out"
      "accounts env (events_content out) (script_input script) (\<not> cc_aborted c) (cc_discarded_buffered_bytes c)"
      using reader_loop_account [OF ok assms(2) r] by auto
    have "events_content (sk_events s) = events_content out"
      using out(1) e True by (simp add: new_sink_def)
    moreover have "sk_events s = Boundary aq Started # out"
      using out(1) e True by (simp add: new_sink_def)
    ultimately show ?thesis
      using r em True out(2) by (auto simp: run_reader_def accounts_def)
  qed
qed

theorem reader_accounts_for_input_witness:
  "\<exists>c s. run_reader \<lparr>ce_memchr = find_byte, ce_deliver = \<lambda>_. True, ce_clock = \<lambda>_. ((\<lambda>_. 0), 0)\<rparr> [1]
      \<lparr>cl_channel_capacity = 8, cl_read_chunk_bytes = 4, cl_maximum_record_bytes = 2, cl_poll_interval = 5,
       cl_partial_flush_interval = 5, cl_history_capacity = 1\<rparr>
      [ReadBytes [97, LF, 98], ReadTick, ReadBytes [99], ReadStopped] = Some (c, s)
    \<and> (\<not> cc_aborted c \<longrightarrow> events_content (sk_events s) = [97, LF, 98, 99])"
  using reader_accounts_for_input [of "\<lparr>cl_channel_capacity = 8, cl_read_chunk_bytes = 4,
      cl_maximum_record_bytes = 2, cl_poll_interval = 5, cl_partial_flush_interval = 5, cl_history_capacity = 1\<rparr>"
      "\<lparr>ce_memchr = find_byte, ce_deliver = \<lambda>_. True, ce_clock = \<lambda>_. ((\<lambda>_. 0), 0)\<rparr>"
      "[ReadBytes [97, LF, 98], ReadTick, ReadBytes [99], ReadStopped]" "[1]"]
  by (auto simp: limits_valid_def ends_loop_def)

text \<open>A command's output stream, with the same account: what is published is a prefix of what was
  read, and with every hand-over succeeding the count it returns is exactly what it did not
  publish.\<close>

theorem stream_accounts_for_input:
  assumes "limits_valid limits" "memchr_ok (ce_memchr env)"
    and "read_stream env st aq limits s script = Some (n, s')"
  shows "\<exists>out. sk_events s' = sk_events s @ out
    \<and> prefix (events_content out) (script_input script)
    \<and> ((\<forall>i. ce_deliver env i) \<longrightarrow> length (events_content out) + n = length (script_input script)
         \<and> (n = 0 \<longrightarrow> events_content out = script_input script))"
proof -
  have ok: "framer_ok (framer_new (cl_maximum_record_bytes limits))"
    using assms(1) by (simp add: limits_valid_def)
  show ?thesis
    using stream_loop_account [OF ok assms(2)] assms(3) by (auto simp: read_stream_def accounts_def)
qed

theorem stream_accounts_for_input_witness:
  "\<exists>n s'. read_stream \<lparr>ce_memchr = find_byte, ce_deliver = \<lambda>_. True, ce_clock = \<lambda>_. ((\<lambda>_. 0), 0)\<rparr> Stderr [1]
      \<lparr>cl_channel_capacity = 8, cl_read_chunk_bytes = 4, cl_maximum_record_bytes = 9, cl_poll_interval = 5,
       cl_partial_flush_interval = 5, cl_history_capacity = 1\<rparr> new_sink
      [ReadBytes [97, 98], ReadError ''broken''] = Some (n, s') \<and> n = 2"
proof -
  let ?env = "\<lparr>ce_memchr = find_byte, ce_deliver = \<lambda>_. True, ce_clock = \<lambda>_. ((\<lambda>_. 0 :: int), 0)\<rparr>"
  let ?limits = "\<lparr>cl_channel_capacity = 8, cl_read_chunk_bytes = 4, cl_maximum_record_bytes = 9,
    cl_poll_interval = 5, cl_partial_flush_interval = 5, cl_history_capacity = 1\<rparr>"
  have "\<exists>s'. read_stream ?env Stderr [1] ?limits new_sink [ReadBytes [97, 98], ReadError ''broken''] = Some (2, s')
      \<and> (\<forall>out. sk_events s' = sk_events new_sink @ out \<longrightarrow> events_content out = [])"
    by (simp add: read_stream_def loop_push_def tick_clock_def framer_push_def framer_lines.simps
        framer_cuts.simps framer_new_def charge_cpu_def emit_records_def emit_def new_sink_def
        framer_buffered_len_def Let_def)
  then obtain s' where r: "read_stream ?env Stderr [1] ?limits new_sink
      [ReadBytes [97, 98], ReadError ''broken''] = Some (2, s')" by blast
  have v: "limits_valid ?limits" by (simp add: limits_valid_def)
  from stream_accounts_for_input [OF v _ r] r show ?thesis by auto
qed

text \<open>Where the count of discarded bytes falls short: when the consumer refuses the records of a
  read, the run is reported aborted with only what the framer still holds; the bytes of the
  refused records are neither published nor counted.\<close>

theorem reader_undercounts_refused_records:
  "map_option (\<lambda>(c, s). (cc_aborted c, cc_discarded_buffered_bytes c, events_content (sk_events s)))
     (run_reader \<lparr>ce_memchr = find_byte, ce_deliver = \<lambda>i. i = 0, ce_clock = \<lambda>_. ((\<lambda>_. 0), 0)\<rparr> [1]
      \<lparr>cl_channel_capacity = 8, cl_read_chunk_bytes = 4, cl_maximum_record_bytes = 9, cl_poll_interval = 5,
       cl_partial_flush_interval = 5, cl_history_capacity = 1\<rparr> [ReadBytes [97, LF]])
   = Some (True, 0, [])"
  by (simp add: run_reader_def loop_push_def tick_clock_def framer_push_def framer_lines.simps
      framer_cuts.simps framer_close_def framer_new_def charge_cpu_def emit_records_def emit_def new_sink_def
      framer_buffered_len_def aborted_def Let_def events_content_def)

end
