(* ===== verification/File_Capture.thy ===== *)
theory File_Capture
  imports Capture
begin

text \<open>
  Capturing a plain file, the second half of \<open>crates/lvu-core/src/acquisition.rs\<close>: opening with an
  optional resume cursor and its validation (\<open>validate_resume\<close>, \<open>open_file_state\<close>), the
  acknowledgement of published bytes and the checkpoints that a later run resumes from
  (\<open>acknowledge_file\<close>, \<open>emit_checkpoint\<close>), following across rotation and truncation
  (\<open>update_follow_state\<close>), and the loop \<open>run_file\<close>.

  What the operating system answers is part of the script: the result of each open, metadata, seek
  and read.  The running CRC is the library's hasher; its state is the bytes it was fed, and
  \<open>crc\<close>, a parameter, is what it yields for them.
\<close>

definition file_evidence_bytes :: nat where
  "file_evidence_bytes = 4096"

definition file_checkpoint_interval_bytes :: nat where
  "file_checkpoint_interval_bytes = 262144"

text \<open>The last \<open>n\<close> elements, what draining the front of a vector down to \<open>n\<close> leaves.\<close>

definition keep_last :: "nat \<Rightarrow> 'a list \<Rightarrow> 'a list" where
  "keep_last n xs = drop (length xs - n) xs"

section \<open>Resuming\<close>

text \<open>One round of the validating read: a signal, a failure, or the bytes of one read.\<close>

datatype resume_event = ResumeCancelled | ResumeStopped | ResumeFailed string
  | ResumeRead "byte list"

fun resume_loop ::
  "nat \<Rightarrow> byte list \<Rightarrow> byte list \<Rightarrow> resume_event list
    \<Rightarrow> (string + (byte list \<times> byte list) option) option" where
  "resume_loop 0 hashed tail script = Some (Inr (Some (hashed, tail)))"
| "resume_loop (Suc n) hashed tail [] = None"
| "resume_loop (Suc n) hashed tail (ev # script) =
    (case ev of
       ResumeCancelled \<Rightarrow> Some (Inl ''file resume validation aborted'')
     | ResumeStopped \<Rightarrow> Some (Inl ''file resume validation stopped'')
     | ResumeFailed e \<Rightarrow> Some (Inl e)
     | ResumeRead bytes \<Rightarrow>
         if length bytes > min (Suc n) 65536 then None
         else if bytes = [] then Some (Inr None)
         else resume_loop (Suc n - length bytes) (hashed @ bytes)
                (keep_last file_evidence_bytes (tail @ bytes)) script)"

record file_open =
  op_open :: "string + file_identity option"
  op_len :: "string + nat"
  op_rewind :: "string option"
  op_reads :: "resume_event list"
  op_seek :: "string option"
  op_id :: uuid

text \<open>The offset to read from, the evidence and the hashed bytes kept, and why.\<close>

definition fresh_start :: "boundary_reason \<Rightarrow> nat \<times> byte list \<times> byte list \<times> boundary_reason" where
  "fresh_start reason = (0, [], [], reason)"

definition validate_resume ::
  "(byte list \<Rightarrow> nat) \<Rightarrow> file_identity option \<Rightarrow> file_resume_cursor option \<Rightarrow> file_open
    \<Rightarrow> (string + nat \<times> byte list \<times> byte list \<times> boundary_reason) option" where
  "validate_resume crc identity resume io =
    (case resume of
       None \<Rightarrow> Some (Inr (fresh_start Started))
     | Some cursor \<Rightarrow>
         if rc_identity cursor \<noteq> identity then Some (Inr (fresh_start Rotated))
         else if length (rc_evidence cursor) > file_evidence_bytes
           \<or> length (rc_evidence cursor) > rc_offset cursor
         then Some (Inl ''invalid file resume evidence'')
         else case op_len io of
           Inl e \<Rightarrow> Some (Inl e)
         | Inr len \<Rightarrow>
             if len < rc_offset cursor then Some (Inr (fresh_start Truncated))
             else case op_rewind io of
               Some e \<Rightarrow> Some (Inl e)
             | None \<Rightarrow>
                 (case resume_loop (rc_offset cursor) [] [] (op_reads io) of
                    None \<Rightarrow> None
                  | Some (Inl e) \<Rightarrow> Some (Inl e)
                  | Some (Inr None) \<Rightarrow> Some (Inr (fresh_start Truncated))
                  | Some (Inr (Some (hashed, tail))) \<Rightarrow>
                      if tail \<noteq> rc_evidence cursor \<or> crc hashed \<noteq> rc_content_crc32 cursor
                      then Some (Inr (fresh_start Truncated))
                      else Some (Inr (rc_offset cursor, rc_evidence cursor, hashed, Started))))"

record file_state =
  fl_identity :: "file_identity option"
  fl_offset :: nat
  fl_acquisition :: uuid
  fl_framer :: framer
  fl_acknowledged_offset :: nat
  fl_unacknowledged :: "byte list"
  fl_evidence :: "byte list"
  fl_checkpointed_offset :: nat
  fl_content_hasher :: "byte list"

definition open_file_state ::
  "(byte list \<Rightarrow> nat) \<Rightarrow> nat \<Rightarrow> file_resume_cursor option \<Rightarrow> file_open
    \<Rightarrow> (string + file_state \<times> boundary_reason) option" where
  "open_file_state crc maximum resume io =
    (case op_open io of
       Inl e \<Rightarrow> Some (Inl e)
     | Inr identity \<Rightarrow>
         (case validate_resume crc identity resume io of
            None \<Rightarrow> None
          | Some (Inl e) \<Rightarrow> Some (Inl e)
          | Some (Inr (offset, evidence, hasher, reason)) \<Rightarrow>
              (case op_seek io of
                 Some e \<Rightarrow> Some (Inl e)
               | None \<Rightarrow> Some (Inr (\<lparr>fl_identity = identity, fl_offset = offset,
                   fl_acquisition = op_id io, fl_framer = framer_new maximum,
                   fl_acknowledged_offset = offset, fl_unacknowledged = [], fl_evidence = evidence,
                   fl_checkpointed_offset = offset, fl_content_hasher = hasher\<rparr>, reason)))))"

section \<open>Acknowledging what was published\<close>

definition emit_checkpoint ::
  "(byte list \<Rightarrow> nat) \<Rightarrow> capture_env \<Rightarrow> file_state \<Rightarrow> sink \<Rightarrow> bool \<times> sink" where
  "emit_checkpoint crc env st s =
    emit env (FileCheckpoint (fl_acquisition st)
      \<lparr>rc_offset = fl_acknowledged_offset st, rc_identity = fl_identity st,
       rc_evidence = fl_evidence st, rc_content_crc32 = crc (fl_content_hasher st)\<rparr> Plain) s"

text \<open>How the evidence takes in acknowledged bytes: cleared, drained or left, then extended by at
  most its size.\<close>

definition extend_evidence :: "byte list \<Rightarrow> byte list \<Rightarrow> byte list" where
  "extend_evidence evidence acknowledged =
    (let keep = min (length acknowledged) file_evidence_bytes;
         kept = (if keep = file_evidence_bytes then []
                 else if length evidence + keep > file_evidence_bytes
                 then drop (length evidence + keep - file_evidence_bytes) evidence
                 else evidence)
     in kept @ drop (length acknowledged - keep) acknowledged)"

definition acknowledge :: "file_state \<Rightarrow> file_state" where
  "acknowledge st =
    (let emitted = length (fl_unacknowledged st) - framer_buffered_len (fl_framer st)
     in if emitted > 0 then
          let acknowledged = take emitted (fl_unacknowledged st)
          in st\<lparr>fl_acknowledged_offset := fl_acknowledged_offset st + emitted,
                fl_content_hasher := fl_content_hasher st @ acknowledged,
                fl_evidence := extend_evidence (fl_evidence st) acknowledged,
                fl_unacknowledged := drop emitted (fl_unacknowledged st)\<rparr>
        else st)"

definition acknowledge_file ::
  "(byte list \<Rightarrow> nat) \<Rightarrow> capture_env \<Rightarrow> bool \<Rightarrow> file_state \<Rightarrow> sink \<Rightarrow> bool \<times> file_state \<times> sink" where
  "acknowledge_file crc env force st0 s =
    (let st = acknowledge st0
     in if fl_acknowledged_offset st = fl_checkpointed_offset st
          \<or> (\<not> force \<and> fl_acknowledged_offset st - fl_checkpointed_offset st < file_checkpoint_interval_bytes)
        then (True, st, s)
        else case emit_checkpoint crc env st s of
          (True, s1) \<Rightarrow> (True, st\<lparr>fl_checkpointed_offset := fl_acknowledged_offset st\<rparr>, s1)
        | (False, s1) \<Rightarrow> (False, st, s1))"

text \<open>Publish the records of a round, then acknowledge them; refused, nothing is acknowledged and the
  caller returns.\<close>

definition publish_round ::
  "(byte list \<Rightarrow> nat) \<Rightarrow> capture_env \<Rightarrow> bool \<Rightarrow> captured_record list \<times> file_state \<times> sink
    \<Rightarrow> bool \<times> file_state \<times> sink" where
  "publish_round crc env force = (\<lambda>(records, st, s).
    (case emit_records env records s of
       (False, s1) \<Rightarrow> (False, st, s1)
     | (True, s1) \<Rightarrow> acknowledge_file crc env force st s1))"

text \<open>Publishing what the framer still holds and acknowledging it, as rotation, truncation and the
  end do.\<close>

definition finish_framer :: "capture_env \<Rightarrow> file_state \<Rightarrow> sink \<Rightarrow> captured_record list \<times> file_state \<times> sink" where
  "finish_framer env st s =
    (let ((f, records), s1) = loop_finish env File (fl_acquisition st) (fl_framer st, s)
     in (records, st\<lparr>fl_framer := f\<rparr>, s1))"

text \<open>The last event is offered without waiting, so it may be taken after a cancellation has made
  every other hand-over fail: \<open>room\<close> is whether the channel takes it.\<close>

definition try_emit :: "bool \<Rightarrow> capture_event \<Rightarrow> sink \<Rightarrow> sink" where
  "try_emit room ev s = (if room then s\<lparr>sk_events := sk_events s @ [ev]\<rparr> else s)"

definition finish_file ::
  "(byte list \<Rightarrow> nat) \<Rightarrow> capture_env \<Rightarrow> bool \<Rightarrow> bool option \<Rightarrow> file_state \<Rightarrow> sink \<Rightarrow> file_state \<times> sink" where
  "finish_file crc env cancelled stopped st0 s0 =
    (let round = finish_framer env st0 s0;
         (st1, s1) = (if cancelled then snd round else snd (publish_round crc env True round))
     in (case stopped of
           None \<Rightarrow> (st1, s1)
         | Some room \<Rightarrow> (st1, try_emit room (CaptureStopped (fl_acquisition st1)) s1)))"

section \<open>Following\<close>

record follow_io =
  fw_path :: "string + (file_identity option \<times> nat)"
  fw_handle_len :: "string + nat"
  fw_open :: file_open
  fw_seek :: "string option"
  fw_id :: uuid

text \<open>The publish-then-acknowledge step both branches start with; refused, the code returns.\<close>

definition drain_file ::
  "(byte list \<Rightarrow> nat) \<Rightarrow> capture_env \<Rightarrow> file_state \<Rightarrow> sink \<Rightarrow> bool \<times> file_state \<times> sink" where
  "drain_file crc env st s = publish_round crc env True (finish_framer env st s)"

definition truncated_state :: "capture_limits \<Rightarrow> uuid \<Rightarrow> file_state \<Rightarrow> file_state" where
  "truncated_state limits aq st =
    st\<lparr>fl_offset := 0, fl_acquisition := aq, fl_framer := framer_new (cl_maximum_record_bytes limits),
       fl_acknowledged_offset := 0, fl_unacknowledged := [], fl_evidence := [],
       fl_checkpointed_offset := 0, fl_content_hasher := []\<rparr>"

definition announce :: "(byte list \<Rightarrow> nat) \<Rightarrow> capture_env \<Rightarrow> boundary_reason \<Rightarrow> file_state \<Rightarrow> sink \<Rightarrow> sink" where
  "announce crc env reason st s =
    snd (emit_checkpoint crc env st (snd (emit env (Boundary (fl_acquisition st) reason) s)))"

definition update_follow_state ::
  "(byte list \<Rightarrow> nat) \<Rightarrow> capture_env \<Rightarrow> capture_limits \<Rightarrow> follow_io \<Rightarrow> file_state \<Rightarrow> sink
    \<Rightarrow> ((string + unit) \<times> file_state \<times> sink) option" where
  "update_follow_state crc env limits io st s =
    (case fw_path io of
       Inl e \<Rightarrow> Some (Inl e, st, s)
     | Inr (path_identity, path_len) \<Rightarrow>
         if fl_identity st \<noteq> None \<and> path_identity \<noteq> fl_identity st then
           (case fw_handle_len io of
              Inl e \<Rightarrow> Some (Inl e, st, s)
            | Inr handle_len \<Rightarrow>
                if handle_len > fl_offset st then Some (Inr (), st, s)
                else case drain_file crc env st s of
                  (False, st1, s1) \<Rightarrow> Some (Inr (), st1, s1)
                | (True, st1, s1) \<Rightarrow>
                    (case open_file_state crc (cl_maximum_record_bytes limits) None (fw_open io) of
                       None \<Rightarrow> None
                     | Some (Inl e) \<Rightarrow> Some (Inl e, st1, s1)
                     | Some (Inr (st2, _)) \<Rightarrow> Some (Inr (), st2, announce crc env Rotated st2 s1)))
         else if path_len < fl_offset st then
           (case drain_file crc env st s of
              (False, st1, s1) \<Rightarrow> Some (Inr (), st1, s1)
            | (True, st1, s1) \<Rightarrow>
                (case fw_seek io of
                   Some e \<Rightarrow> Some (Inl e, st1, s1)
                 | None \<Rightarrow>
                     let st2 = truncated_state limits (fw_id io) st1
                     in Some (Inr (), st2, announce crc env Truncated st2 s1)))
         else Some (Inr (), st, s))"

section \<open>The loop\<close>

text \<open>One round: a cancellation carries the value of the flag and whether the last event is taken,
  a stop the latter; the end of the file, when following, how the wait ended.\<close>

datatype follow_poll = PollCancelled bool bool | Polled follow_io

datatype file_event =
    FileCancelled bool bool
  | FileStopped bool
  | FileClosed
  | FileTick
  | FileRead byte "byte list"
  | FileEof follow_poll
  | FileFailed string

definition file_push :: "capture_env \<Rightarrow> byte list \<Rightarrow> file_state \<Rightarrow> sink
    \<Rightarrow> (captured_record list \<times> file_state \<times> sink) option" where
  "file_push env bytes st s =
    map_option (\<lambda>((f, records), s1). (records,
        st\<lparr>fl_offset := fl_offset st + length bytes,
           fl_unacknowledged := fl_unacknowledged st @ bytes, fl_framer := f\<rparr>, s1))
      (loop_push env File (fl_acquisition st) bytes (fl_framer st, s))"

definition file_flush :: "capture_env \<Rightarrow> file_state \<Rightarrow> sink \<Rightarrow> captured_record list \<times> file_state \<times> sink" where
  "file_flush env st s =
    (let ((f, records), s1) = loop_flush env File (fl_acquisition st) (fl_framer st, s)
     in (records, st\<lparr>fl_framer := f\<rparr>, s1))"

definition lost :: "file_state \<Rightarrow> completion" where
  "lost st = aborted (framer_buffered_len (fl_framer st))"

fun file_loop ::
  "(byte list \<Rightarrow> nat) \<Rightarrow> capture_env \<Rightarrow> bool \<Rightarrow> capture_limits \<Rightarrow> file_state \<Rightarrow> sink \<Rightarrow> file_event list
    \<Rightarrow> (completion \<times> sink) option" where
  "file_loop crc env follow limits st s [] = None"
| "file_loop crc env follow limits st s (ev # script) =
    (case ev of
       FileCancelled flag room \<Rightarrow> Some (lost st, snd (finish_file crc env flag (Some room) st s))
     | FileStopped room \<Rightarrow> Some (completion_default, snd (finish_file crc env False (Some room) st s))
     | FileClosed \<Rightarrow> Some (lost st, s)
     | FileTick \<Rightarrow>
         (case publish_round crc env True (file_flush env st s) of
            (False, st1, s1) \<Rightarrow> Some (lost st1, s1)
          | (True, st1, s1) \<Rightarrow> file_loop crc env follow limits st1 s1 script)
     | FileRead b bs \<Rightarrow>
         (case file_push env (b # bs) st s of
            None \<Rightarrow> None
          | Some round \<Rightarrow>
              (case publish_round crc env False round of
                 (False, st1, s1) \<Rightarrow> Some (lost st1, s1)
               | (True, st1, s1) \<Rightarrow> file_loop crc env follow limits st1 s1 script))
     | FileEof io \<Rightarrow>
         if \<not> follow then Some (completion_default, snd (finish_file crc env False None st s))
         else (case io of
             PollCancelled flag room \<Rightarrow>
               (let (st1, s1) = finish_file crc env flag (Some room) st s in Some (lost st1, s1))
           | Polled poll \<Rightarrow>
               (case update_follow_state crc env limits poll st s of
                  None \<Rightarrow> None
                | Some (Inr _, st1, s1) \<Rightarrow> file_loop crc env follow limits st1 s1 script
                | Some (Inl e, st1, s1) \<Rightarrow>
                    (case emit env (CaptureError (fl_acquisition st1) e) s1 of
                       (False, s2) \<Rightarrow> Some (lost st1, s2)
                     | (True, s2) \<Rightarrow> file_loop crc env follow limits st1 s2 script)))
     | FileFailed e \<Rightarrow>
         Some (\<lparr>cc_aborted = False,
                cc_discarded_buffered_bytes = framer_buffered_len (fl_framer st)\<rparr>,
           snd (emit env (CaptureError (fl_acquisition st) e) s)))"

text \<open>\<open>run_file\<close> once the file has been found not to be compressed.  The error of a resume cursor
  for another encoding, and of a failed open, carry fresh identifiers.\<close>

definition run_plain_file ::
  "(byte list \<Rightarrow> nat) \<Rightarrow> capture_env \<Rightarrow> bool \<Rightarrow> capture_limits \<Rightarrow> uuid
    \<Rightarrow> (file_resume_cursor \<times> file_encoding) option \<Rightarrow> file_open \<Rightarrow> file_event list
    \<Rightarrow> (completion \<times> sink) option" where
  "run_plain_file crc env follow limits error_id resume io script =
    (case resume of
       Some (_, Gzip _ _ _) \<Rightarrow>
         Some (completion_default, snd (emit env (CaptureError error_id
           ''file encoding changed from gzip to plain; create a new source identity'') new_sink))
     | _ \<Rightarrow>
         (case open_file_state crc (cl_maximum_record_bytes limits) (map_option fst resume) io of
            None \<Rightarrow> None
          | Some (Inl e) \<Rightarrow> Some (completion_default, snd (emit env (CaptureError error_id e) new_sink))
          | Some (Inr (st, reason)) \<Rightarrow>
              (case emit env (Boundary (fl_acquisition st) reason) new_sink of
                 (False, s1) \<Rightarrow> Some (lost st, s1)
               | (True, s1) \<Rightarrow>
                   (case emit_checkpoint crc env st s1 of
                      (False, s2) \<Rightarrow> Some (aborted 0, s2)
                    | (True, s2) \<Rightarrow> file_loop crc env follow limits st s2 script))))"

section \<open>What the checkpoints promise\<close>

lemma length_keep_last: "length (keep_last n xs) = min n (length xs)"
  by (simp add: keep_last_def min_def)

lemma keep_last_rev: "keep_last n xs = rev (take n (rev xs))"
  by (simp add: keep_last_def take_rev)

lemma keep_last_append:
  "keep_last n (keep_last n xs @ ys) = keep_last n (xs @ ys)"
  by (simp add: keep_last_rev min_def)

lemma keep_last_short: "length xs \<le> n \<Longrightarrow> keep_last n xs = xs"
  by (simp add: keep_last_def)

lemma extend_evidence_keep_last:
  assumes "evidence = keep_last file_evidence_bytes xs"
  shows "extend_evidence evidence ys = keep_last file_evidence_bytes (xs @ ys)"
proof -
  let ?n = file_evidence_bytes
  have "extend_evidence evidence ys = keep_last ?n (evidence @ ys)"
    using assms length_keep_last [of ?n xs]
    by (auto simp: extend_evidence_def Let_def keep_last_def min_def)
  then show ?thesis using assms by (simp add: keep_last_append)
qed

text \<open>The bytes of the file before the reader's position, as the events tell it: those the resumed
  run skipped, then what was published; an announced rotation or truncation starts over.\<close>

fun position_step :: "byte list \<Rightarrow> byte list \<Rightarrow> capture_event \<Rightarrow> byte list" where
  "position_step skipped cur (Boundary _ Started) = skipped"
| "position_step skipped cur (Boundary _ _) = []"
| "position_step skipped cur (Records rs) = cur @ content rs"
| "position_step skipped cur _ = cur"

definition published_bytes :: "byte list \<Rightarrow> capture_event list \<Rightarrow> byte list" where
  "published_bytes skipped evs = foldl (position_step skipped) [] evs"

definition cursor_for ::
  "(byte list \<Rightarrow> nat) \<Rightarrow> file_identity option \<Rightarrow> byte list \<Rightarrow> file_resume_cursor" where
  "cursor_for crc identity bytes =
    \<lparr>rc_offset = length bytes, rc_identity = identity,
     rc_evidence = keep_last file_evidence_bytes bytes, rc_content_crc32 = crc bytes\<rparr>"

lemma cursor_for_identity [simp]: "rc_identity (cursor_for crc i bytes) = i"
  by (simp add: cursor_for_def)

fun checkpoint_exact :: "(byte list \<Rightarrow> nat) \<Rightarrow> byte list \<Rightarrow> capture_event \<Rightarrow> bool" where
  "checkpoint_exact crc cur (FileCheckpoint _ c encoding) \<longleftrightarrow>
     c = cursor_for crc (rc_identity c) cur \<and> encoding = Plain"
| "checkpoint_exact crc cur _ \<longleftrightarrow> True"

text \<open>Every checkpoint among the events describes exactly the bytes published before it.\<close>

definition checkpoints_exact :: "(byte list \<Rightarrow> nat) \<Rightarrow> byte list \<Rightarrow> capture_event list \<Rightarrow> bool" where
  "checkpoints_exact crc skipped evs \<longleftrightarrow>
     (\<forall>k < length evs. checkpoint_exact crc (published_bytes skipped (take k evs)) (evs ! k))"

lemma published_bytes_snoc [simp]:
  "published_bytes skipped [] = []"
  "published_bytes skipped (evs @ [ev]) = position_step skipped (published_bytes skipped evs) ev"
  by (simp_all add: published_bytes_def)

lemma checkpoints_exact_snoc [simp]:
  "checkpoints_exact crc skipped []"
  "checkpoints_exact crc skipped (evs @ [ev]) \<longleftrightarrow>
     checkpoints_exact crc skipped evs \<and> checkpoint_exact crc (published_bytes skipped evs) ev"
  by (auto simp: checkpoints_exact_def nth_append less_Suc_eq)

lemma checkpoints_exactD:
  "checkpoints_exact crc skipped evs \<Longrightarrow> evs = pre @ ev # post
    \<Longrightarrow> checkpoint_exact crc (published_bytes skipped pre) ev"
  unfolding checkpoints_exact_def by (drule spec [of _ "length pre"]) simp

text \<open>A hand-over that is refused is never followed by one that succeeds: the cancellation and the
  closing of the channel are both permanent.\<close>

definition delivery_stops :: "capture_env \<Rightarrow> bool" where
  "delivery_stops env \<longleftrightarrow> (\<forall>i j. i \<le> j \<longrightarrow> ce_deliver env j \<longrightarrow> ce_deliver env i)"

definition dead :: "capture_env \<Rightarrow> sink \<Rightarrow> bool" where
  "dead env s \<longleftrightarrow> (\<forall>i \<ge> sk_sends s. \<not> ce_deliver env i)"

lemma emit_dead:
  assumes "emit env ev s = (sent, s')" "delivery_stops env"
  shows "(\<not> sent \<longrightarrow> dead env s' \<and> sk_events s' = sk_events s)
    \<and> (sent \<longrightarrow> \<not> dead env s \<and> sk_events s' = sk_events s @ [ev])"
  using assms by (fastforce simp: emit_def dead_def delivery_stops_def Let_def split: if_splits
      dest: le_trans [OF le_SucI [OF order_refl]])

text \<open>The state between a framer call that yielded \<open>rs\<close> and their publication; with no records it
  is the state between rounds.\<close>

definition holds ::
  "byte list \<Rightarrow> captured_record list \<Rightarrow> file_state \<Rightarrow> sink \<Rightarrow> bool" where
  "holds skipped rs st s \<longleftrightarrow>
     (let cur = published_bytes skipped (sk_events s)
      in fl_content_hasher st @ fl_unacknowledged st = cur @ content rs @ fr_pending (fl_framer st)
       \<and> length (fl_content_hasher st) \<le> length cur
       \<and> fl_acknowledged_offset st = length (fl_content_hasher st)
       \<and> fl_evidence st = keep_last file_evidence_bytes (fl_content_hasher st))"

definition file_inv ::
  "(byte list \<Rightarrow> nat) \<Rightarrow> capture_env \<Rightarrow> byte list \<Rightarrow> captured_record list \<times> file_state \<times> sink \<Rightarrow> bool" where
  "file_inv crc env skipped = (\<lambda>(rs, st, s).
     framer_ok (fl_framer st) \<and> checkpoints_exact crc skipped (sk_events s)
   \<and> (holds skipped rs st s \<or> dead env s))"

lemma acknowledge_holds:
  assumes "holds skipped [] st s"
  shows "holds skipped [] (acknowledge st) s
    \<and> fl_content_hasher (acknowledge st) = published_bytes skipped (sk_events s)"
proof -
  let ?cur = "published_bytes skipped (sk_events s)"
  let ?h = "fl_content_hasher st" and ?u = "fl_unacknowledged st" and ?p = "fr_pending (fl_framer st)"
  have eq: "?h @ ?u = ?cur @ ?p" and le: "length ?h \<le> length ?cur"
    using assms by (simp_all add: holds_def Let_def)
  define e where "e = length ?cur - length ?h"
  have len: "length ?u = e + length ?p"
    using arg_cong [OF eq, of length] le by (simp add: e_def)
  have cur: "?cur = ?h @ take e ?u" and rest: "drop e ?u = ?p"
  proof -
    have "take (length ?h + e) (?h @ ?u) = take (length ?cur) (?cur @ ?p)"
      using eq le by (simp add: e_def)
    then show "?cur = ?h @ take e ?u" by simp
    have "drop (length ?h + e) (?h @ ?u) = drop (length ?cur) (?cur @ ?p)"
      using eq le by (simp add: e_def)
    then show "drop e ?u = ?p" by simp
  qed
  show ?thesis
  proof (cases "e = 0")
    case True
    then show ?thesis using assms cur len by (simp add: acknowledge_def framer_buffered_len_def Let_def)
  next
    case False
    then have "acknowledge st = st\<lparr>fl_acknowledged_offset := fl_acknowledged_offset st + e,
        fl_content_hasher := ?cur, fl_evidence := extend_evidence (fl_evidence st) (take e ?u),
        fl_unacknowledged := ?p\<rparr>"
      using len cur rest by (simp add: acknowledge_def framer_buffered_len_def Let_def)
    moreover have "extend_evidence (fl_evidence st) (take e ?u) = keep_last file_evidence_bytes ?cur"
      using extend_evidence_keep_last [of "fl_evidence st" ?h] assms cur by (simp add: holds_def Let_def)
    moreover have "fl_acknowledged_offset st + e = length ?cur"
      using assms le by (simp add: e_def holds_def Let_def)
    ultimately show ?thesis by (simp add: holds_def)
  qed
qed

lemma acknowledge_framer [simp]: "fl_framer (acknowledge st) = fl_framer st"
  by (simp add: acknowledge_def Let_def)

lemma emit_checkpoint_inv:
  assumes "emit_checkpoint crc env st s = (sent, s')" "delivery_stops env"
    and "file_inv crc env skipped ([], st, s)"
    and "holds skipped [] st s \<Longrightarrow> fl_content_hasher st = published_bytes skipped (sk_events s)"
  shows "file_inv crc env skipped ([], st, s')"
proof -
  note e = emit_dead [OF assms(1) [unfolded emit_checkpoint_def] assms(2)]
  show ?thesis
  proof (cases sent)
    case False
    then show ?thesis using e assms(3) by (simp add: file_inv_def)
  next
    case True
    then have h: "holds skipped [] st s" using e assms(3) by (simp add: file_inv_def)
    with assms(4) have eq: "fl_content_hasher st = published_bytes skipped (sk_events s)" by blast
    have "checkpoint_exact crc (published_bytes skipped (sk_events s)) (FileCheckpoint (fl_acquisition st)
      \<lparr>rc_offset = fl_acknowledged_offset st, rc_identity = fl_identity st,
       rc_evidence = fl_evidence st, rc_content_crc32 = crc (fl_content_hasher st)\<rparr> Plain)"
      using h eq by (simp add: cursor_for_def holds_def Let_def)
    then show ?thesis using True e h assms(3) by (simp add: file_inv_def holds_def)
  qed
qed

lemma acknowledge_file_inv:
  assumes "acknowledge_file crc env force st s = (ok, st', s')" "delivery_stops env"
    and "file_inv crc env skipped ([], st, s)"
  shows "file_inv crc env skipped ([], st', s')"
proof -
  let ?a = "acknowledge st"
  have a: "file_inv crc env skipped ([], ?a, s)"
    using assms(3) acknowledge_holds [of skipped st s] by (auto simp: file_inv_def)
  have hold: "holds skipped [] ?a s \<Longrightarrow> fl_content_hasher ?a = published_bytes skipped (sk_events s)
      \<or> dead env s"
    using assms(3) acknowledge_holds [of skipped st s] by (auto simp: file_inv_def)
  obtain sent s1 where em: "emit_checkpoint crc env ?a s = (sent, s1)" by (metis surj_pair)
  have inv1: "file_inv crc env skipped ([], ?a, s1)"
  proof (cases "dead env s")
    case True
    then show ?thesis
      using emit_dead [OF em [unfolded emit_checkpoint_def] assms(2)] a
      by (auto simp: file_inv_def)
  next
    case False
    then show ?thesis using emit_checkpoint_inv [OF em assms(2) a] hold by blast
  qed
  have upd: "file_inv crc env skipped ([], ?a\<lparr>fl_checkpointed_offset := n\<rparr>, s1)" for n
    using inv1 by (simp add: file_inv_def holds_def)
  show ?thesis
    using assms(1) em a inv1 upd
    by (auto simp: acknowledge_file_def Let_def split: if_splits bool.splits)
qed

lemma publish_round_inv:
  assumes "publish_round crc env force (rs, st, s) = (ok, st', s')" "delivery_stops env"
    and "file_inv crc env skipped (rs, st, s)"
  shows "file_inv crc env skipped ([], st', s')"
proof -
  obtain sent s1 where em: "emit_records env rs s = (sent, s1)" by (metis surj_pair)
  have inv: "file_inv crc env skipped ([], st, s1)"
  proof (cases "rs = []")
    case True
    then show ?thesis using em assms(3) by (simp add: emit_records_def)
  next
    case False
    then have "emit env (Records rs) s = (sent, s1)" using em by (simp add: emit_records_def)
    from emit_dead [OF this assms(2)] show ?thesis
      using assms(3) by (cases sent) (auto simp: file_inv_def holds_def Let_def)
  qed
  show ?thesis
  proof (cases sent)
    case True
    then show ?thesis
      using acknowledge_file_inv [OF _ assms(2) inv] assms(1) em by (simp add: publish_round_def)
  next
    case False
    then show ?thesis using inv assms(1) em by (simp add: publish_round_def)
  qed
qed

lemma finish_framer_inv:
  assumes "file_inv crc env skipped ([], st, s)"
  shows "file_inv crc env skipped (finish_framer env st s)"
proof -
  obtain f rs s1 where fin: "loop_finish env File (fl_acquisition st) (fl_framer st, s) = ((f, rs), s1)"
    by (metis surj_pair)
  have "framer_ok (fl_framer st)" using assms by (simp add: file_inv_def)
  note fs = loop_finish_spec [OF this fin]
  have "fr_pending f = []" "sk_sends s1 = sk_sends s"
    using fin by (auto simp: loop_finish_def tick_clock_def framer_finish_def charge_cpu_def Let_def
        split: prod.splits if_splits)
  then show ?thesis
    using assms fin fs by (auto simp: finish_framer_def file_inv_def holds_def dead_def Let_def)
qed

lemma file_flush_inv:
  assumes "file_inv crc env skipped ([], st, s)"
  shows "file_inv crc env skipped (file_flush env st s)"
proof -
  obtain f rs s1 where fl: "loop_flush env File (fl_acquisition st) (fl_framer st, s) = ((f, rs), s1)"
    by (metis surj_pair)
  have "framer_ok (fl_framer st)" using assms by (simp add: file_inv_def)
  note fs = loop_flush_spec [OF this fl]
  have "sk_sends s1 = sk_sends s"
    using fl by (auto simp: loop_flush_def tick_clock_def split: prod.splits)
  then show ?thesis
    using assms fl fs by (auto simp: file_flush_def file_inv_def holds_def dead_def Let_def)
qed

lemma file_push_inv:
  assumes "file_inv crc env skipped ([], st, s)" "memchr_ok (ce_memchr env)"
  shows "\<exists>round. file_push env bytes st s = Some round \<and> file_inv crc env skipped round"
proof -
  have ok: "framer_ok (fl_framer st)" using assms(1) by (simp add: file_inv_def)
  obtain f rs s1 where pu:
    "loop_push env File (fl_acquisition st) bytes (fl_framer st, s) = Some ((f, rs), s1)" "framer_ok f"
    "content rs @ fr_pending f = fr_pending (fl_framer st) @ bytes" "sk_events s1 = sk_events s"
    using loop_push_spec [OF ok assms(2)] by blast
  have "sk_sends s1 = sk_sends s"
    using pu(1) by (auto simp: loop_push_def tick_clock_def split: prod.splits option.splits)
  then have "holds skipped [] st s \<Longrightarrow> holds skipped rs (st\<lparr>fl_offset := fl_offset st + length bytes,
      fl_unacknowledged := fl_unacknowledged st @ bytes, fl_framer := f\<rparr>) s1" "dead env s1 = dead env s"
    using pu by (simp_all add: holds_def dead_def Let_def flip: append_assoc)
  then show ?thesis using assms(1) pu by (auto simp: file_push_def file_inv_def)
qed

lemma announce_inv:
  assumes "delivery_stops env" "file_inv crc env skipped ([], st0, s)" "framer_ok (fl_framer st)"
    and "fl_content_hasher st = []" "fl_unacknowledged st = []" "fl_evidence st = []"
      "fl_acknowledged_offset st = 0" "fr_pending (fl_framer st) = []" "reason \<noteq> Started"
  shows "file_inv crc env skipped ([], st, announce crc env reason st s)"
proof -
  obtain sent s1 where em: "emit env (Boundary (fl_acquisition st) reason) s = (sent, s1)"
    by (metis surj_pair)
  obtain sent2 s2 where cp: "emit_checkpoint crc env st s1 = (sent2, s2)" by (metis surj_pair)
  have p: "position_step skipped cur (Boundary a reason) = []" for cur a
    using assms(9) by (cases reason) auto
  note e = emit_dead [OF em assms(1)]
  have inv1: "file_inv crc env skipped ([], st, s1) \<and> (\<not> sent \<longrightarrow> dead env s1)
      \<and> (sent \<longrightarrow> published_bytes skipped (sk_events s1) = [])"
    using e assms p by (cases sent) (simp_all add: file_inv_def holds_def keep_last_def)
  have "file_inv crc env skipped ([], st, s2)"
  proof (cases sent)
    case True
    then show ?thesis using emit_checkpoint_inv [OF cp assms(1)] inv1 assms(4) by simp
  next
    case False
    then have "dead env s1" using inv1 by simp
    then show ?thesis
      using emit_dead [OF cp [unfolded emit_checkpoint_def] assms(1)] inv1 by (auto simp: file_inv_def)
  qed
  then show ?thesis using em cp by (simp add: announce_def)
qed

lemma drain_file_inv:
  assumes "drain_file crc env st s = (ok, st', s')" "delivery_stops env"
    and "file_inv crc env skipped ([], st, s)"
  shows "file_inv crc env skipped ([], st', s')"
proof -
  obtain rs st1 s1 where f: "finish_framer env st s = (rs, st1, s1)" by (metis prod_cases3)
  show ?thesis
    using publish_round_inv [OF _ assms(2)] finish_framer_inv [OF assms(3)] assms(1) f
    by (simp add: drain_file_def)
qed

lemma open_fresh:
  assumes "open_file_state crc maximum None io = Some (Inr (st, reason))" "0 < maximum"
  shows "framer_ok (fl_framer st)" "fl_content_hasher st = []" "fl_unacknowledged st = []"
    "fl_evidence st = []" "fl_acknowledged_offset st = 0" "fr_pending (fl_framer st) = []"
  using assms by (auto simp: open_file_state_def validate_resume_def fresh_start_def
      split: sum.splits option.splits)

lemma update_follow_inv:
  assumes "update_follow_state crc env limits io st s = Some (res, st', s')"
    and "delivery_stops env" "limits_valid limits" "file_inv crc env skipped ([], st, s)"
  shows "file_inv crc env skipped ([], st', s')"
proof -
  obtain ok st1 s1 where d: "drain_file crc env st s = (ok, st1, s1)" by (metis prod_cases3)
  note d1 = drain_file_inv [OF d assms(2,4)]
  have pos: "0 < cl_maximum_record_bytes limits" using assms(3) by (simp add: limits_valid_def)
  have rot: "file_inv crc env skipped ([], st2, announce crc env Rotated st2 s1)"
    if "open_file_state crc (cl_maximum_record_bytes limits) None (fw_open io) = Some (Inr (st2, r))" for st2 r
    using announce_inv [OF assms(2) d1 open_fresh [OF that pos]] by simp
  have tru: "file_inv crc env skipped ([], truncated_state limits aq st1,
      announce crc env Truncated (truncated_state limits aq st1) s1)" for aq
    using announce_inv [OF assms(2) d1, of "truncated_state limits aq st1" Truncated] pos
    by (simp add: truncated_state_def)
  show ?thesis
    using assms(1,4) d d1 rot tru
    by (auto simp: update_follow_state_def Let_def split: sum.splits prod.splits if_splits bool.splits option.splits)
qed

lemma try_emit_exact:
  "checkpoints_exact crc skipped (sk_events (try_emit room (CaptureStopped aq) s))
     \<longleftrightarrow> checkpoints_exact crc skipped (sk_events s)"
  by (simp add: try_emit_def)

lemma finish_file_exact:
  assumes "delivery_stops env" "file_inv crc env skipped ([], st, s)"
  shows "checkpoints_exact crc skipped (sk_events (snd (finish_file crc env cancelled stopped st s)))"
proof -
  obtain rs st1 s1 where f: "finish_framer env st s = (rs, st1, s1)" by (metis prod_cases3)
  obtain ok st2 s2 where p: "publish_round crc env True (rs, st1, s1) = (ok, st2, s2)" by (metis prod_cases3)
  have "file_inv crc env skipped (rs, st1, s1)" using finish_framer_inv [OF assms(2)] f by simp
  with publish_round_inv [OF p assms(1) this]
  have "checkpoints_exact crc skipped (sk_events s1)" "checkpoints_exact crc skipped (sk_events s2)"
    by (simp_all add: file_inv_def)
  then show ?thesis
    using f p by (auto simp: finish_file_def try_emit_exact Let_def split: option.splits)
qed

lemma round_exact: "file_inv crc env skipped (rs, st, s) \<Longrightarrow> checkpoints_exact crc skipped (sk_events s)"
  by (simp add: file_inv_def)

lemma error_inv:
  assumes "emit env (CaptureError aq e) s = (sent, s')" "delivery_stops env"
    and "file_inv crc env skipped ([], st, s)"
  shows "file_inv crc env skipped ([], st, s')"
  using emit_dead [OF assms(1,2)] assms(3) by (cases sent) (auto simp: file_inv_def holds_def)

lemma file_loop_exact:
  assumes "memchr_ok (ce_memchr env)" "limits_valid limits" "delivery_stops env"
    and "file_inv crc env skipped ([], st, s)" "file_loop crc env follow limits st s script = Some (c, s')"
  shows "checkpoints_exact crc skipped (sk_events s')"
  using assms(4,5)
proof (induction script arbitrary: st s)
  case Nil
  then show ?case by simp
next
  case (Cons ev script)
  note fin = finish_file_exact [OF assms(3) Cons.prems(1)]
  have onward: ?case
    if "file_inv crc env skipped round" "publish_round crc env force round = (ok, st1, s1)"
      "(case (ok, st1, s1) of (False, st1, s1) \<Rightarrow> Some (lost st1, s1)
         | (True, st1, s1) \<Rightarrow> file_loop crc env follow limits st1 s1 script) = Some (c, s')"
    for round force ok st1 s1
  proof -
    obtain rs st0 s0 where r: "round = (rs, st0, s0)" by (metis prod_cases3)
    from publish_round_inv [OF that(2) [unfolded r] assms(3) that(1) [unfolded r]]
    have "file_inv crc env skipped ([], st1, s1)" .
    then show ?thesis using that(3) Cons.IH round_exact by (cases ok) auto
  qed
  show ?case
  proof (cases ev)
    case (FileCancelled flag room)
    then show ?thesis using Cons.prems(2) fin by auto
  next
    case (FileStopped room)
    then show ?thesis using Cons.prems(2) fin by auto
  next
    case FileClosed
    then show ?thesis using Cons.prems round_exact by auto
  next
    case FileTick
    obtain ok st1 s1 where p: "publish_round crc env True (file_flush env st s) = (ok, st1, s1)"
      by (metis prod_cases3)
    show ?thesis
      using onward [OF file_flush_inv [OF Cons.prems(1)] p] Cons.prems(2) FileTick p by simp
  next
    case (FileRead b bs)
    obtain round where r: "file_push env (b # bs) st s = Some round" "file_inv crc env skipped round"
      using file_push_inv [OF Cons.prems(1) assms(1)] by blast
    obtain ok st1 s1 where p: "publish_round crc env False round = (ok, st1, s1)" by (metis prod_cases3)
    show ?thesis using onward [OF r(2) p] Cons.prems(2) FileRead r(1) p by simp
  next
    case (FileEof io)
    show ?thesis
    proof (cases "follow")
      case False
      then show ?thesis using Cons.prems(2) FileEof fin by auto
    next
      case True
      show ?thesis
      proof (cases io)
        case (PollCancelled flag room)
        then show ?thesis using Cons.prems(2) FileEof True fin [of flag "Some room"]
          by (auto split: prod.splits)
      next
        case (Polled poll)
        then obtain res st1 s1 where u: "update_follow_state crc env limits poll st s = Some (res, st1, s1)"
          using Cons.prems(2) FileEof True by (auto split: option.splits)
        note inv = update_follow_inv [OF u assms(3,2) Cons.prems(1)]
        show ?thesis
        proof (cases res)
          case (Inr x)
          then show ?thesis using Cons.IH [OF inv] Cons.prems(2) FileEof True Polled u by simp
        next
          case (Inl e)
          obtain sent s2 where em: "emit env (CaptureError (fl_acquisition st1) e) s1 = (sent, s2)"
            by (metis surj_pair)
          note inv2 = error_inv [OF em assms(3) inv]
          show ?thesis
            using Cons.IH [OF inv2] round_exact [OF inv2] Cons.prems(2) FileEof True Polled u Inl em
            by (cases sent) auto
        qed
      qed
    qed
  next
    case (FileFailed e)
    obtain sent s2 where em: "emit env (CaptureError (fl_acquisition st) e) s = (sent, s2)"
      by (metis surj_pair)
    show ?thesis
      using round_exact [OF error_inv [OF em assms(3) Cons.prems(1)]] Cons.prems(2) FileFailed em by auto
  qed
qed

section \<open>Resuming from a checkpoint\<close>

text \<open>The validating reads deliver \<open>bytes\<close>: each within the code's limit and not empty.\<close>

fun reads_deliver :: "byte list \<Rightarrow> resume_event list \<Rightarrow> bool" where
  "reads_deliver bytes (ResumeRead chunk # script) \<longleftrightarrow>
     bytes = [] \<or> (chunk \<noteq> [] \<and> length chunk \<le> min (length bytes) 65536
       \<and> take (length chunk) bytes = chunk \<and> reads_deliver (drop (length chunk) bytes) script)"
| "reads_deliver bytes _ \<longleftrightarrow> bytes = []"

lemma resume_loop_reads:
  assumes "reads_deliver bytes script" "tail = keep_last file_evidence_bytes hashed"
  shows "resume_loop (length bytes) hashed tail script
    = Some (Inr (Some (hashed @ bytes, keep_last file_evidence_bytes (hashed @ bytes))))"
  using assms
proof (induction bytes script arbitrary: hashed tail rule: reads_deliver.induct)
  case (1 bytes chunk script)
  show ?case
  proof (cases "bytes = []")
    case True
    then show ?thesis using 1 by simp
  next
    case False
    then obtain n where n: "length bytes = Suc n" by (cases bytes) auto
    have c: "chunk \<noteq> []" "length chunk \<le> min (length bytes) 65536" "take (length chunk) bytes = chunk"
      "reads_deliver (drop (length chunk) bytes) script"
      using 1 False by auto
    have whole: "chunk @ drop (length chunk) bytes = bytes"
      using append_take_drop_id [of "length chunk" bytes] c(3) by simp
    show ?thesis
      using 1(1) [OF c(4), of "keep_last file_evidence_bytes (tail @ chunk)" "hashed @ chunk"]
        c n whole 1(3) keep_last_append [of file_evidence_bytes hashed chunk]
      by simp
  qed
qed auto

lemma validate_resume_reads:
  assumes "rc_identity cursor = identity" "rc_offset cursor = length bytes"
    and "length (rc_evidence cursor) \<le> min file_evidence_bytes (length bytes)"
    and "op_len io = Inr len" "length bytes \<le> len" "op_rewind io = None" "reads_deliver bytes (op_reads io)"
  shows "validate_resume crc identity (Some cursor) io =
    Some (Inr (if rc_evidence cursor = keep_last file_evidence_bytes bytes
                 \<and> rc_content_crc32 cursor = crc bytes
               then (length bytes, rc_evidence cursor, bytes, Started) else fresh_start Truncated))"
proof -
  have "resume_loop (rc_offset cursor) [] [] (op_reads io)
      = Some (Inr (Some (bytes, keep_last file_evidence_bytes bytes)))"
    using resume_loop_reads [OF assms(7), of "[]" "[]"] assms(2) by (simp add: keep_last_def)
  then show ?thesis using assms by (auto simp: validate_resume_def)
qed

fun resume_bytes :: "resume_event \<Rightarrow> byte list" where
  "resume_bytes (ResumeRead bytes) = bytes"
| "resume_bytes _ = []"

definition skipped_bytes :: "file_resume_cursor option \<Rightarrow> file_open \<Rightarrow> byte list" where
  "skipped_bytes resume io =
    (case resume of None \<Rightarrow> []
     | Some cursor \<Rightarrow> take (rc_offset cursor) (concat (map resume_bytes (op_reads io))))"

lemma resume_loop_some:
  assumes "resume_loop n hashed tail script = Some (Inr (Some (h, t)))"
    and "tail = keep_last file_evidence_bytes hashed"
  shows "h = hashed @ take n (concat (map resume_bytes script)) \<and> length h = length hashed + n
    \<and> t = keep_last file_evidence_bytes h"
  using assms
proof (induction n hashed tail script rule: resume_loop.induct)
  case (3 n hashed tail ev script)
  then obtain bytes where ev: "ev = ResumeRead bytes" by (cases ev) auto
  have c: "length bytes \<le> min (Suc n) 65536" "bytes \<noteq> []"
    "resume_loop (Suc n - length bytes) (hashed @ bytes)
       (keep_last file_evidence_bytes (tail @ bytes)) script = Some (Inr (Some (h, t)))"
    using 3(2) ev by (auto split: if_splits)
  have "\<not> min (Suc n) 65536 < length bytes" using c(1) by simp
  note ih = 3(1) [OF ev this c(2,3)]
  have t: "keep_last file_evidence_bytes (tail @ bytes) = keep_last file_evidence_bytes (hashed @ bytes)"
    using 3(3) by (simp add: keep_last_append)
  have "h = hashed @ take (Suc n) (concat (map resume_bytes (ev # script)))"
    using ih [OF t] c(1) ev by simp
  moreover have "length h = length hashed + Suc n"
    using conjunct1 [OF conjunct2 [OF ih [OF t]]] c(1) by simp
  ultimately show ?case using ih [OF t] by blast
qed auto

lemma open_started:
  assumes "open_file_state crc maximum resume io = Some (Inr (st, reason))" "0 < maximum"
  shows "framer_ok (fl_framer st) \<and> fr_pending (fl_framer st) = [] \<and> fl_unacknowledged st = []
    \<and> fl_acknowledged_offset st = length (fl_content_hasher st)
    \<and> fl_evidence st = keep_last file_evidence_bytes (fl_content_hasher st)
    \<and> fl_content_hasher st = (if reason = Started then skipped_bytes resume io else [])"
proof -
  obtain identity offset evidence hasher where v:
    "validate_resume crc identity resume io = Some (Inr (offset, evidence, hasher, reason))"
    and st: "fl_framer st = framer_new maximum" "fl_unacknowledged st = []"
      "fl_acknowledged_offset st = offset" "fl_evidence st = evidence" "fl_content_hasher st = hasher"
    using assms(1) by (auto simp: open_file_state_def split: sum.splits option.splits)
  have "offset = length hasher \<and> evidence = keep_last file_evidence_bytes hasher
      \<and> hasher = (if reason = Started then skipped_bytes resume io else [])"
  proof (cases resume)
    case None
    then show ?thesis using v by (auto simp: validate_resume_def fresh_start_def skipped_bytes_def keep_last_def)
  next
    case (Some cursor)
    show ?thesis
    proof (cases "reason = Started")
      case False
      then show ?thesis using v Some
        by (auto simp: validate_resume_def fresh_start_def keep_last_def split: if_splits sum.splits option.splits)
    next
      case True
      then have r: "resume_loop (rc_offset cursor) [] [] (op_reads io) = Some (Inr (Some (hasher, evidence)))"
        "offset = rc_offset cursor"
        using v Some by (auto simp: validate_resume_def fresh_start_def split: if_splits sum.splits option.splits)
      have "[] = keep_last file_evidence_bytes []" by (simp add: keep_last_def)
      note h = resume_loop_some [OF r(1) this]
      then have "hasher = skipped_bytes resume io" using Some by (simp add: skipped_bytes_def)
      moreover have "offset = length hasher" using h r(2) by (metis add_0 list.size(3))
      ultimately show ?thesis using True h by simp
    qed
  qed
  then show ?thesis using st assms(2) by simp
qed

text \<open>The rounds after which the loop returns.\<close>

fun ends_file :: "bool \<Rightarrow> file_event \<Rightarrow> bool" where
  "ends_file follow FileTick = False"
| "ends_file follow (FileRead b bs) = False"
| "ends_file follow (FileEof (Polled io)) = (\<not> follow)"
| "ends_file follow _ = True"

lemma open_fresh_returns: "open_file_state crc maximum None io \<noteq> None"
  by (auto simp: open_file_state_def validate_resume_def fresh_start_def split: sum.splits option.splits)

lemma update_follow_returns: "update_follow_state crc env limits io st s \<noteq> None"
  using open_fresh_returns [of crc "cl_maximum_record_bytes limits" "fw_open io"]
  by (auto simp: update_follow_state_def Let_def split: sum.splits prod.splits bool.splits option.splits)

lemma file_loop_returns:
  assumes "memchr_ok (ce_memchr env)" "limits_valid limits" "delivery_stops env"
    and "file_inv crc env skipped ([], st, s)" "\<exists>ev \<in> set script. ends_file follow ev"
  shows "\<exists>c s'. file_loop crc env follow limits st s script = Some (c, s')"
  using assms(4,5)
proof (induction script arbitrary: st s)
  case Nil
  then show ?case by simp
next
  case (Cons ev script)
  show ?case
  proof (cases "ends_file follow ev")
    case True
    then show ?thesis by (cases "(follow, ev)" rule: ends_file.cases) (auto split: prod.splits)
  next
    case False
    then have later: "\<exists>ev \<in> set script. ends_file follow ev" using Cons.prems(2) by auto
    have onward: "\<exists>c s'. (case (ok, st1, s1) of (False, st1, s1) \<Rightarrow> Some (lost st1, s1)
         | (True, st1, s1) \<Rightarrow> file_loop crc env follow limits st1 s1 script) = Some (c, s')"
      if "file_inv crc env skipped round" "publish_round crc env force round = (ok, st1, s1)"
      for round force ok st1 s1
    proof -
      obtain rs st0 s0 where r: "round = (rs, st0, s0)" by (metis prod_cases3)
      from publish_round_inv [OF that(2) [unfolded r] assms(3) that(1) [unfolded r]] Cons.IH later
      show ?thesis by (cases ok) auto
    qed
    show ?thesis
    proof (cases ev)
      case FileTick
      obtain ok st1 s1 where p: "publish_round crc env True (file_flush env st s) = (ok, st1, s1)"
        by (metis prod_cases3)
      show ?thesis using onward [OF file_flush_inv [OF Cons.prems(1)] p] FileTick p by simp
    next
      case (FileRead b bs)
      obtain round where r: "file_push env (b # bs) st s = Some round" "file_inv crc env skipped round"
        using file_push_inv [OF Cons.prems(1) assms(1)] by blast
      obtain ok st1 s1 where p: "publish_round crc env False round = (ok, st1, s1)" by (metis prod_cases3)
      show ?thesis using onward [OF r(2) p] FileRead r(1) p by simp
    next
      case (FileEof io)
      then obtain poll where io: "io = Polled poll" "follow" using False by (cases io) auto
      obtain res st1 s1 where u: "update_follow_state crc env limits poll st s = Some (res, st1, s1)"
        using update_follow_returns [of crc env limits poll st s] by auto
      note inv = update_follow_inv [OF u assms(3,2) Cons.prems(1)]
      show ?thesis
      proof (cases res)
        case (Inr x)
        then show ?thesis using Cons.IH [OF inv later] FileEof io u by simp
      next
        case (Inl e)
        obtain sent s2 where em: "emit env (CaptureError (fl_acquisition st1) e) s1 = (sent, s2)"
          by (metis surj_pair)
        show ?thesis
          using Cons.IH [OF error_inv [OF em assms(3) inv] later] FileEof io u Inl em by (cases sent) auto
      qed
    qed (use False in auto)
  qed
qed

lemma first_error_exact:
  "checkpoints_exact crc skipped (sk_events (snd (emit env (CaptureError aq e) new_sink)))"
  by (simp add: emit_def new_sink_def checkpoints_exact_def Let_def)

lemma plain_file_exact:
  assumes "memchr_ok (ce_memchr env)" "limits_valid limits" "delivery_stops env"
    and "open_file_state crc (cl_maximum_record_bytes limits) (map_option fst resume) io \<noteq> None
      \<or> (\<exists>cursor a b d. resume = Some (cursor, Gzip a b d))"
    and "\<exists>ev \<in> set script. ends_file follow ev"
  shows "\<exists>c s. run_plain_file crc env follow limits error_id resume io script = Some (c, s)
    \<and> checkpoints_exact crc (skipped_bytes (map_option fst resume) io) (sk_events s)"
proof (cases "\<exists>cursor a b d. resume = Some (cursor, Gzip a b d)")
  case True
  then show ?thesis using first_error_exact by (auto simp: run_plain_file_def)
next
  case False
  let ?skip = "skipped_bytes (map_option fst resume) io"
  let ?open = "open_file_state crc (cl_maximum_record_bytes limits) (map_option fst resume) io"
  have run: "run_plain_file crc env follow limits error_id resume io script =
    (case ?open of
       None \<Rightarrow> None
     | Some (Inl e) \<Rightarrow> Some (completion_default, snd (emit env (CaptureError error_id e) new_sink))
     | Some (Inr (st, reason)) \<Rightarrow>
         (case emit env (Boundary (fl_acquisition st) reason) new_sink of
            (False, s1) \<Rightarrow> Some (lost st, s1)
          | (True, s1) \<Rightarrow>
              (case emit_checkpoint crc env st s1 of
                 (False, s2) \<Rightarrow> Some (aborted 0, s2)
               | (True, s2) \<Rightarrow> file_loop crc env follow limits st s2 script)))"
    using False by (auto simp: run_plain_file_def split: option.splits file_encoding.splits)
  obtain res where res: "?open = Some res" using assms(4) False by blast
  show ?thesis
  proof (cases res)
    case (Inl e)
    then show ?thesis using run res first_error_exact by simp
  next
    case (Inr out)
    obtain st reason where out: "out = (st, reason)" by (metis surj_pair)
    have pos: "0 < cl_maximum_record_bytes limits" using assms(2) by (simp add: limits_valid_def)
    note st = open_started [OF res [unfolded Inr out] pos]
    obtain sent s1 where em: "emit env (Boundary (fl_acquisition st) reason) new_sink = (sent, s1)"
      by (metis surj_pair)
    note e = emit_dead [OF em assms(3)]
    obtain sent2 s2 where cp: "emit_checkpoint crc env st s1 = (sent2, s2)" by (metis surj_pair)
    show ?thesis
    proof (cases sent)
      case False
      then show ?thesis using run res Inr out em e by (simp add: new_sink_def)
    next
      case True
      have pub: "published_bytes ?skip (sk_events s1) = fl_content_hasher st"
        using e True st by (cases reason) (simp_all add: new_sink_def published_bytes_def)
      have inv1: "file_inv crc env ?skip ([], st, s1)"
        using st pub e True by (simp add: file_inv_def holds_def new_sink_def checkpoints_exact_def)
      have inv2: "file_inv crc env ?skip ([], st, s2)"
        using emit_checkpoint_inv [OF cp assms(3) inv1] pub by simp
      then show ?thesis
        using file_loop_returns [OF assms(1-3) inv2 assms(5)] file_loop_exact [OF assms(1-3) inv2]
          round_exact [OF inv2] run res Inr out em True cp
        by (cases sent2) auto
    qed
  qed
qed

section \<open>Properties\<close>

text \<open>C18. A file capture never checkpoints a byte it has not published.  Once the resume validation
  has an outcome and a round ends the loop, the run returns, and every checkpoint it published, in
  any run with reads, flushes, rotations, truncations, errors and refused hand-overs, holds the
  length, the last bytes and the checksum of exactly the bytes of that file published before it,
  counting the ones a resumed run skipped.  Refusals are permanent.\<close>

theorem checkpoints_cover_published:
  assumes "memchr_ok (ce_memchr env)" "limits_valid limits" "delivery_stops env"
    and "open_file_state crc (cl_maximum_record_bytes limits) (map_option fst resume) io \<noteq> None"
    and "\<exists>ev \<in> set script. ends_file follow ev"
  shows "\<exists>c s. run_plain_file crc env follow limits error_id resume io script = Some (c, s)
    \<and> checkpoints_exact crc (skipped_bytes (map_option fst resume) io) (sk_events s)"
  using plain_file_exact [OF assms(1-3) disjI1 [OF assms(4)] assms(5)] .

theorem checkpoints_cover_published_witness:
  "\<exists>c s. run_plain_file length \<lparr>ce_memchr = find_byte, ce_deliver = \<lambda>i. i < 6, ce_clock = \<lambda>_. ((\<lambda>_. 0), 0)\<rparr>
      False \<lparr>cl_channel_capacity = 8, cl_read_chunk_bytes = 4, cl_maximum_record_bytes = 2,
        cl_poll_interval = 5, cl_partial_flush_interval = 5, cl_history_capacity = 1\<rparr> [9]
      (Some (cursor_for length None [97, LF], Plain))
      \<lparr>op_open = Inr None, op_len = Inr 3, op_rewind = None, op_reads = [ResumeRead [97, LF]],
       op_seek = None, op_id = [1]\<rparr>
      [FileRead 98 [LF], FileTick, FileRead 99 [], FileEof (PollCancelled False False)] = Some (c, s)
    \<and> checkpoints_exact length [97, LF] (sk_events s)"
proof -
  let ?io = "\<lparr>op_open = Inr None, op_len = Inr 3, op_rewind = None, op_reads = [ResumeRead [97, LF]],
    op_seek = None, op_id = [1]\<rparr>"
  let ?resume = "Some (cursor_for length None [97, LF], Plain)"
  let ?limits = "\<lparr>cl_channel_capacity = 8, cl_read_chunk_bytes = 4, cl_maximum_record_bytes = 2,
    cl_poll_interval = 5, cl_partial_flush_interval = 5, cl_history_capacity = 1\<rparr>"
  have "open_file_state length 2 (map_option fst ?resume) ?io \<noteq> None"
    by (simp add: open_file_state_def validate_resume_def cursor_for_def keep_last_def
        file_evidence_bytes_def numeral_2_eq_2)
  then have o: "open_file_state length (cl_maximum_record_bytes ?limits) (map_option fst ?resume) ?io \<noteq> None"
    by simp
  have skip: "skipped_bytes (map_option fst ?resume) ?io = [97, LF]"
    by (simp add: skipped_bytes_def cursor_for_def)
  show ?thesis
    using checkpoints_cover_published [of "\<lparr>ce_memchr = find_byte, ce_deliver = \<lambda>i. i < 6,
        ce_clock = \<lambda>_. ((\<lambda>_. 0), 0)\<rparr>" ?limits length ?resume ?io
        "[FileRead 98 [LF], FileTick, FileRead 99 [], FileEof (PollCancelled False False)]" False "[9]"]
      o skip
    by (simp add: limits_valid_def delivery_stops_def)
qed

text \<open>C19. A published checkpoint resumes where it says.  Given any checkpoint for some bytes, opening
  the same file again, its reads delivering as many bytes, starts at the checkpoint's offset, with
  the evidence and the running checksum of those bytes and nothing pending, exactly when the last
  bytes and the checksum are those of the bytes found; otherwise it starts over and says the file
  was truncated.\<close>

theorem checkpoint_resumes:
  assumes "op_open io = Inr identity" "op_len io = Inr len" "length found \<le> len"
    and "op_rewind io = None" "op_seek io = None" "reads_deliver found (op_reads io)"
    and "length published = length found"
  shows "open_file_state crc maximum (Some (cursor_for crc identity published)) io =
    (let same = keep_last file_evidence_bytes found = keep_last file_evidence_bytes published
           \<and> crc found = crc published
     in Some (Inr
       (\<lparr>fl_identity = identity, fl_offset = (if same then length published else 0),
         fl_acquisition = op_id io, fl_framer = framer_new maximum,
         fl_acknowledged_offset = (if same then length published else 0), fl_unacknowledged = [],
         fl_evidence = (if same then keep_last file_evidence_bytes published else []),
         fl_checkpointed_offset = (if same then length published else 0),
         fl_content_hasher = (if same then found else [])\<rparr>,
        if same then Started else Truncated)))"
proof -
  have "validate_resume crc identity (Some (cursor_for crc identity published)) io =
    Some (Inr (if keep_last file_evidence_bytes found = keep_last file_evidence_bytes published
        \<and> crc found = crc published
      then (length published, keep_last file_evidence_bytes published, found, Started)
      else fresh_start Truncated))"
    using validate_resume_reads [of "cursor_for crc identity published" identity found io len crc] assms
    by (simp add: cursor_for_def length_keep_last eq_commute)
  then show ?thesis using assms(1,5) by (simp add: open_file_state_def fresh_start_def Let_def)
qed

theorem checkpoint_resumes_witness:
  "map_option (map_sum id snd) (open_file_state length 4 (Some (cursor_for length None [1, 2]))
     \<lparr>op_open = Inr None, op_len = Inr 3, op_rewind = None, op_reads = [ResumeRead [1], ResumeRead [2]],
      op_seek = None, op_id = [1]\<rparr>) = Some (Inr Started)
   \<and> map_option (map_sum id snd) (open_file_state length 4 (Some (cursor_for length None [1, 2]))
     \<lparr>op_open = Inr None, op_len = Inr 3, op_rewind = None, op_reads = [ResumeRead [1, 3]],
      op_seek = None, op_id = [1]\<rparr>) = Some (Inr Truncated)"
  using checkpoint_resumes [of "\<lparr>op_open = Inr None, op_len = Inr 3, op_rewind = None,
      op_reads = [ResumeRead [1], ResumeRead [2]], op_seek = None, op_id = [1]\<rparr>" None 3 "[1, 2]" "[1, 2]"
      length 4]
    checkpoint_resumes [of "\<lparr>op_open = Inr None, op_len = Inr 3, op_rewind = None,
      op_reads = [ResumeRead [1, 3]], op_seek = None, op_id = [1]\<rparr>" None 3 "[1, 3]" "[1, 2]" length 4]
  by (simp add: keep_last_def file_evidence_bytes_def Let_def)

end
