(* ===== verification/Gzip_Capture.thy ===== *)
theory Gzip_Capture
  imports File_Capture
begin

text \<open>
  Capturing a compressed file, the gzip part of \<open>crates/lvu-core/src/acquisition.rs\<close>: the decoder
  thread (\<open>spawn_gzip_decoder\<close>, \<open>fingerprint_std\<close>, \<open>send_gzip\<close>) and the capture that consumes its
  outputs (\<open>run_gzip_file\<close>, \<open>acknowledge_gzip\<close>, \<open>emit_gzip_checkpoint\<close>).

  \<open>flate2\<close>'s decoder is the script: what each of its reads yields.  The two sides share a channel and
  an atomic signal; what a load of the signal sees and what \<open>try_send\<close> answers are in the script
  too, so every interleaving of the two threads is covered.
\<close>

section \<open>The archive's fingerprint\<close>

datatype gzip_signal = GzipRunning | GzipStopping | GzipAborting

text \<open>One round of the loop: the signal had changed, the read failed, or its bytes.\<close>

datatype fingerprint_event = FingerprintStopped | FingerprintFailed string | FingerprintRead "byte list"

fun fingerprint_loop ::
  "byte list \<Rightarrow> byte list \<Rightarrow> fingerprint_event list \<Rightarrow> (string + byte list \<times> byte list) option" where
  "fingerprint_loop hashed evidence [] = None"
| "fingerprint_loop hashed evidence (ev # script) =
    (case ev of
       FingerprintStopped \<Rightarrow> Some (Inl ''gzip fingerprint stopped'')
     | FingerprintFailed e \<Rightarrow> Some (Inl e)
     | FingerprintRead bytes \<Rightarrow>
         if bytes = [] then Some (Inr (hashed, evidence))
         else fingerprint_loop (hashed @ bytes) (keep_last file_evidence_bytes (evidence @ bytes)) script)"

record fingerprint_io =
  fp_seek :: "string option"
  fp_len :: "string + nat"
  fp_reads :: "fingerprint_event list"

definition fingerprint_std :: "(byte list \<Rightarrow> nat) \<Rightarrow> fingerprint_io \<Rightarrow> (string + file_encoding) option" where
  "fingerprint_std crc io =
    (case fp_seek io of
       Some e \<Rightarrow> Some (Inl e)
     | None \<Rightarrow>
         (case fp_len io of
            Inl e \<Rightarrow> Some (Inl e)
          | Inr len \<Rightarrow>
              (case fingerprint_loop [] [] (fp_reads io) of
                 None \<Rightarrow> None
               | Some (Inl e) \<Rightarrow> Some (Inl e)
               | Some (Inr (hashed, evidence)) \<Rightarrow> Some (Inr (Gzip len (crc hashed) evidence)))))"

section \<open>The decoder thread\<close>

datatype gzip_output =
    GzipReady "file_identity option" file_encoding
  | GzipBytes "byte list"
  | GzipComplete
  | GzipStopped
  | GzipError string

datatype send_try = Sent | ReceiverClosed | ChannelFull gzip_signal

fun send_gzip :: "bool \<Rightarrow> send_try list \<Rightarrow> bool option" where
  "send_gzip deliver_when_stopping [] = None"
| "send_gzip deliver_when_stopping (t # ts) =
    (case t of
       Sent \<Rightarrow> Some True
     | ReceiverClosed \<Rightarrow> Some False
     | ChannelFull signal \<Rightarrow>
         if signal = GzipAborting \<or> (signal = GzipStopping \<and> \<not> deliver_when_stopping) then Some False
         else send_gzip deliver_when_stopping ts)"

text \<open>A send whose outcome nothing depends on: the outputs it adds.\<close>

definition offer_gzip :: "bool \<Rightarrow> gzip_output \<Rightarrow> send_try list \<Rightarrow> gzip_output list option" where
  "offer_gzip deliver_when_stopping output tries =
    map_option (\<lambda>sent. if sent then [output] else []) (send_gzip deliver_when_stopping tries)"

text \<open>One round of the decode loop: what the decoder's read yields and the signal seen when it
  failed; the tries of the send of its bytes and the signal seen after it; those of a last send; at
  the end of the stream, the second fingerprint.\<close>

record decode_round =
  dr_read :: "string + byte list"
  dr_signal :: gzip_signal
  dr_send :: "send_try list"
  dr_after :: gzip_signal
  dr_last :: "send_try list"
  dr_final :: fingerprint_io

text \<open>The outputs sent, and \<open>Some e\<close> where the closure returns an error.\<close>

fun decode_loop ::
  "(byte list \<Rightarrow> nat) \<Rightarrow> file_encoding \<Rightarrow> decode_round list \<Rightarrow> (gzip_output list \<times> string option) option" where
  "decode_loop crc encoding [] = None"
| "decode_loop crc encoding (r # rs) =
    (case dr_read r of
       Inl e \<Rightarrow>
         if dr_signal r \<noteq> GzipRunning
         then map_option (\<lambda>out. (out, None)) (offer_gzip True GzipStopped (dr_last r))
         else Some ([], Some e)
     | Inr bytes \<Rightarrow>
         if bytes = [] then
           (case fingerprint_std crc (dr_final r) of
              None \<Rightarrow> None
            | Some (Inl e) \<Rightarrow> Some ([], Some e)
            | Some (Inr final_encoding) \<Rightarrow>
                if final_encoding \<noteq> encoding
                then Some ([], Some ''gzip archive changed while it was being decoded'')
                else map_option (\<lambda>out. (out, None)) (offer_gzip False GzipComplete (dr_last r)))
         else
           (case send_gzip True (dr_send r) of
              None \<Rightarrow> None
            | Some False \<Rightarrow> Some ([], None)
            | Some True \<Rightarrow>
                if dr_after r \<noteq> GzipRunning
                then map_option (\<lambda>out. (GzipBytes bytes # out, None)) (offer_gzip True GzipStopped (dr_last r))
                else map_option (\<lambda>(out, e). (GzipBytes bytes # out, e)) (decode_loop crc encoding rs)))"

record decoder_io =
  di_metadata :: "string + bool \<times> file_identity option"
  di_clone :: "string option"
  di_first :: fingerprint_io
  di_rewind :: "string option"
  di_signal :: gzip_signal
  di_stopped :: "send_try list"
  di_ready :: "send_try list"
  di_rounds :: "decode_round list"
  di_failed_signal :: gzip_signal
  di_failed :: "send_try list"

text \<open>The closure of the thread.\<close>

definition decode_archive ::
  "(byte list \<Rightarrow> nat) \<Rightarrow> decoder_io \<Rightarrow> (gzip_output list \<times> string option) option" where
  "decode_archive crc io =
    (case di_metadata io of
       Inl e \<Rightarrow> Some ([], Some e)
     | Inr (is_file, identity) \<Rightarrow>
         if \<not> is_file then Some ([], Some ''gzip capture requires a regular file'')
         else case di_clone io of
           Some e \<Rightarrow> Some ([], Some e)
         | None \<Rightarrow>
             (case fingerprint_std crc (di_first io) of
                None \<Rightarrow> None
              | Some (Inl e) \<Rightarrow> Some ([], Some e)
              | Some (Inr encoding) \<Rightarrow>
                  (case di_rewind io of
                     Some e \<Rightarrow> Some ([], Some e)
                   | None \<Rightarrow>
                       if di_signal io \<noteq> GzipRunning
                       then map_option (\<lambda>out. (out, None)) (offer_gzip True GzipStopped (di_stopped io))
                       else case send_gzip False (di_ready io) of
                         None \<Rightarrow> None
                       | Some False \<Rightarrow> Some ([], None)
                       | Some True \<Rightarrow>
                           map_option (\<lambda>(out, e). (GzipReady identity encoding # out, e))
                             (decode_loop crc encoding (di_rounds io)))))"

text \<open>The whole thread: an error is sent as such, or as a stop where the signal had changed.\<close>

definition gzip_decoder :: "(byte list \<Rightarrow> nat) \<Rightarrow> decoder_io \<Rightarrow> gzip_output list option" where
  "gzip_decoder crc io =
    (case decode_archive crc io of
       None \<Rightarrow> None
     | Some (out, None) \<Rightarrow> Some out
     | Some (out, Some e) \<Rightarrow>
         if di_failed_signal io = GzipRunning
         then map_option (\<lambda>last. out @ last) (offer_gzip False (GzipError e) (di_failed io))
         else map_option (\<lambda>last. out @ last) (offer_gzip True GzipStopped (di_failed io)))"

section \<open>Acknowledging decoded bytes\<close>

record gzip_state =
  gz_identity :: "file_identity option"
  gz_encoding :: file_encoding
  gz_acquisition :: uuid
  gz_framer :: framer
  gz_acknowledged_offset :: nat
  gz_unacknowledged :: "byte list"
  gz_evidence :: "byte list"
  gz_checkpointed_offset :: nat
  gz_content_hasher :: "byte list"

definition emit_gzip_checkpoint ::
  "(byte list \<Rightarrow> nat) \<Rightarrow> capture_env \<Rightarrow> gzip_state \<Rightarrow> sink \<Rightarrow> bool \<times> sink" where
  "emit_gzip_checkpoint crc env st s =
    emit env (FileCheckpoint (gz_acquisition st)
      \<lparr>rc_offset = gz_acknowledged_offset st, rc_identity = gz_identity st,
       rc_evidence = gz_evidence st, rc_content_crc32 = crc (gz_content_hasher st)\<rparr> (gz_encoding st)) s"

definition acknowledge_decoded :: "gzip_state \<Rightarrow> gzip_state" where
  "acknowledge_decoded st =
    (let emitted = length (gz_unacknowledged st) - framer_buffered_len (gz_framer st)
     in if emitted > 0 then
          let acknowledged = take emitted (gz_unacknowledged st)
          in st\<lparr>gz_acknowledged_offset := gz_acknowledged_offset st + emitted,
                gz_content_hasher := gz_content_hasher st @ acknowledged,
                gz_evidence := extend_evidence (gz_evidence st) acknowledged,
                gz_unacknowledged := drop emitted (gz_unacknowledged st)\<rparr>
        else st)"

definition acknowledge_gzip ::
  "(byte list \<Rightarrow> nat) \<Rightarrow> capture_env \<Rightarrow> bool \<Rightarrow> gzip_state \<Rightarrow> sink \<Rightarrow> bool \<times> gzip_state \<times> sink" where
  "acknowledge_gzip crc env force st0 s =
    (let st = acknowledge_decoded st0
     in if gz_acknowledged_offset st = gz_checkpointed_offset st
          \<or> (\<not> force \<and> gz_acknowledged_offset st - gz_checkpointed_offset st < file_checkpoint_interval_bytes)
        then (True, st, s)
        else case emit_gzip_checkpoint crc env st s of
          (True, s1) \<Rightarrow> (True, st\<lparr>gz_checkpointed_offset := gz_acknowledged_offset st\<rparr>, s1)
        | (False, s1) \<Rightarrow> (False, st, s1))"

text \<open>Publish the records of a round, then acknowledge them.\<close>

definition gzip_round ::
  "(byte list \<Rightarrow> nat) \<Rightarrow> capture_env \<Rightarrow> bool \<Rightarrow> captured_record list \<times> gzip_state \<times> sink
    \<Rightarrow> bool \<times> gzip_state \<times> sink" where
  "gzip_round crc env force = (\<lambda>(records, st, s).
    (case emit_records env records s of
       (False, s1) \<Rightarrow> (False, st, s1)
     | (True, s1) \<Rightarrow> acknowledge_gzip crc env force st s1))"

definition gzip_push :: "capture_env \<Rightarrow> byte list \<Rightarrow> gzip_state \<Rightarrow> sink
    \<Rightarrow> (captured_record list \<times> gzip_state \<times> sink) option" where
  "gzip_push env bytes st s =
    map_option (\<lambda>((f, records), s1). (records,
        st\<lparr>gz_unacknowledged := gz_unacknowledged st @ bytes, gz_framer := f\<rparr>, s1))
      (loop_push env File (gz_acquisition st) bytes (gz_framer st, s))"

definition gzip_flush :: "capture_env \<Rightarrow> gzip_state \<Rightarrow> sink \<Rightarrow> captured_record list \<times> gzip_state \<times> sink" where
  "gzip_flush env st s =
    (let ((f, records), s1) = loop_flush env File (gz_acquisition st) (gz_framer st, s)
     in (records, st\<lparr>gz_framer := f\<rparr>, s1))"

definition gzip_finish :: "capture_env \<Rightarrow> gzip_state \<Rightarrow> sink \<Rightarrow> captured_record list \<times> gzip_state \<times> sink" where
  "gzip_finish env st s =
    (let ((f, records), s1) = loop_finish env File (gz_acquisition st) (gz_framer st, s)
     in (records, st\<lparr>gz_framer := f\<rparr>, s1))"

section \<open>The consumer\<close>

text \<open>What \<open>select!\<close> yields in a round.  A stop is waited for only while not stopping, the flush tick
  only once the resume is validated.\<close>

datatype gzip_event =
    GzCancelled
  | GzStopRequested
  | GzClosed
  | GzTick
  | GzOutput "gzip_output option"

text \<open>The validation of a resume cursor against the decoded prefix.\<close>

record validation =
  va_skipped :: nat
  va_hasher :: "byte list"
  va_tail :: "byte list"
  va_validated :: bool

definition lost_gzip :: "gzip_state \<Rightarrow> completion" where
  "lost_gzip st = aborted (framer_buffered_len (gz_framer st))"

text \<open>Taking decoded bytes before the resume is validated: how many are skipped, and what is left of
  them.\<close>

definition skip_bytes :: "nat \<Rightarrow> byte list \<Rightarrow> validation \<Rightarrow> byte list \<times> validation" where
  "skip_bytes resume_offset bytes va =
    (let n = min (resume_offset - va_skipped va) (length bytes)
     in (drop n bytes,
         va\<lparr>va_skipped := va_skipped va + n, va_hasher := va_hasher va @ take n bytes,
            va_tail := keep_last file_evidence_bytes (va_tail va @ take n bytes)\<rparr>))"

text \<open>The decoded offset to resume at.\<close>

definition resume_point :: "file_resume_cursor option \<Rightarrow> nat" where
  "resume_point resume = (case resume of None \<Rightarrow> 0 | Some c \<Rightarrow> rc_offset c)"

text \<open>How a round leaves the loop: the capture returns, or it breaks with a terminal error or none.\<close>

datatype gzip_exit = GzReturn completion sink | GzBreak "string option" gzip_state bool validation sink

definition push_decoded ::
  "(byte list \<Rightarrow> nat) \<Rightarrow> capture_env \<Rightarrow> byte list \<Rightarrow> gzip_state \<Rightarrow> validation \<Rightarrow> sink
    \<Rightarrow> (gzip_exit + gzip_state \<times> validation \<times> sink) option" where
  "push_decoded crc env bytes st va s =
    (if va_validated va \<and> bytes \<noteq> [] then
       (case gzip_push env bytes st s of
          None \<Rightarrow> None
        | Some round \<Rightarrow>
            (case gzip_round crc env False round of
               (False, st1, s1) \<Rightarrow> Some (Inl (GzReturn (lost_gzip st1) s1))
             | (True, st1, s1) \<Rightarrow> Some (Inr (st1, va, s1))))
     else Some (Inr (st, va, s)))"

definition take_bytes ::
  "(byte list \<Rightarrow> nat) \<Rightarrow> capture_env \<Rightarrow> file_resume_cursor option \<Rightarrow> byte list
    \<Rightarrow> gzip_state \<Rightarrow> bool \<Rightarrow> validation \<Rightarrow> sink
    \<Rightarrow> (gzip_exit + gzip_state \<times> validation \<times> sink) option" where
  "take_bytes crc env resume bytes0 st stopping va0 s =
    (if va_validated va0 then push_decoded crc env bytes0 st va0 s
     else
       let resume_offset = resume_point resume;
           (bytes, va) = skip_bytes resume_offset bytes0 va0
       in if va_skipped va = resume_offset then
            (case resume of
               None \<Rightarrow> None
             | Some cursor \<Rightarrow>
                 if crc (va_hasher va) \<noteq> rc_content_crc32 cursor \<or> va_tail va \<noteq> rc_evidence cursor
                 then Some (Inl (GzBreak (Some ''decoded gzip prefix no longer matches durable cursor'')
                        st stopping va s))
                 else
                   let st1 = st\<lparr>gz_content_hasher := va_hasher va\<rparr>
                   in (case emit_gzip_checkpoint crc env st1 s of
                         (False, s1) \<Rightarrow> Some (Inl (GzReturn (aborted 0) s1))
                       | (True, s1) \<Rightarrow> push_decoded crc env bytes st1 (va\<lparr>va_validated := True\<rparr>) s1))
          else push_decoded crc env bytes st va s)"

fun gzip_loop ::
  "(byte list \<Rightarrow> nat) \<Rightarrow> capture_env \<Rightarrow> file_resume_cursor option
    \<Rightarrow> gzip_state \<Rightarrow> bool \<Rightarrow> validation \<Rightarrow> sink \<Rightarrow> gzip_event list \<Rightarrow> gzip_exit option" where
  "gzip_loop crc env resume st stopping va s [] = None"
| "gzip_loop crc env resume st stopping va s (ev # script) =
    (case ev of
       GzCancelled \<Rightarrow> Some (GzReturn (lost_gzip st) s)
     | GzStopRequested \<Rightarrow> if stopping then None else gzip_loop crc env resume st True va s script
     | GzClosed \<Rightarrow> Some (GzReturn (lost_gzip st) s)
     | GzTick \<Rightarrow>
         if \<not> va_validated va then None
         else (case gzip_round crc env True (gzip_flush env st s) of
                 (False, st1, s1) \<Rightarrow> Some (GzReturn (lost_gzip st1) s1)
               | (True, st1, s1) \<Rightarrow> gzip_loop crc env resume st1 stopping va s1 script)
     | GzOutput (Some (GzipBytes bytes)) \<Rightarrow>
         (case take_bytes crc env resume bytes st stopping va s of
            None \<Rightarrow> None
          | Some (Inl exit) \<Rightarrow> Some exit
          | Some (Inr (st1, va1, s1)) \<Rightarrow> gzip_loop crc env resume st1 stopping va1 s1 script)
     | GzOutput (Some (GzipError e)) \<Rightarrow> Some (GzBreak (Some e) st stopping va s)
     | GzOutput (Some GzipComplete) \<Rightarrow> Some (GzBreak None st stopping va s)
     | GzOutput (Some GzipStopped) \<Rightarrow> Some (GzBreak None st stopping va s)
     | GzOutput (Some (GzipReady _ _)) \<Rightarrow>
         Some (GzBreak (Some ''gzip decoder published duplicate fingerprint metadata'') st stopping va s)
     | GzOutput None \<Rightarrow> Some (GzBreak None st stopping va s))"

text \<open>After the loop; \<open>room\<close> is whether the channel takes the last event.\<close>

definition finish_gzip ::
  "(byte list \<Rightarrow> nat) \<Rightarrow> capture_env \<Rightarrow> bool \<Rightarrow> gzip_exit \<Rightarrow> completion \<times> sink" where
  "finish_gzip crc env room exit =
    (case exit of
       GzReturn c s \<Rightarrow> (c, s)
     | GzBreak error0 st stopping va s \<Rightarrow>
         let error = (if \<not> va_validated va \<and> \<not> stopping
               then Some ''gzip stream ended before durable decoded offset'' else error0);
             pending = framer_buffered_len (gz_framer st);
             (records, st1, s1) = gzip_finish env st s
         in (case emit_records env records s1 of
               (False, s2) \<Rightarrow> (aborted pending, s2)
             | (True, s2) \<Rightarrow>
                 (case acknowledge_gzip crc env True st1 s2 of
                    (False, st2, s3) \<Rightarrow> (aborted 0, s3)
                  | (True, st2, s3) \<Rightarrow>
                      (case error of
                         Some e \<Rightarrow>
                           (case emit env (CaptureError (gz_acquisition st2) e) s3 of
                              (False, s4) \<Rightarrow> (aborted 0, s4)
                            | (True, s4) \<Rightarrow> (completion_default, s4))
                       | None \<Rightarrow>
                           (completion_default,
                            if stopping then try_emit room (CaptureStopped (gz_acquisition st2)) s3 else s3)))))"

definition gzip_start ::
  "file_identity option \<Rightarrow> file_encoding \<Rightarrow> uuid \<Rightarrow> nat \<Rightarrow> file_resume_cursor option \<Rightarrow> gzip_state" where
  "gzip_start identity encoding aq maximum resume =
    \<lparr>gz_identity = identity, gz_encoding = encoding, gz_acquisition = aq,
     gz_framer = framer_new maximum,
     gz_acknowledged_offset = resume_point resume, gz_unacknowledged = [],
     gz_evidence = (case resume of None \<Rightarrow> [] | Some c \<Rightarrow> rc_evidence c),
     gz_checkpointed_offset = resume_point resume, gz_content_hasher = []\<rparr>"

definition validation_start :: "file_resume_cursor option \<Rightarrow> validation" where
  "validation_start resume =
    \<lparr>va_skipped = 0, va_hasher = [], va_tail = [], va_validated = (resume_point resume = 0)\<rparr>"

text \<open>The first output is waited for together with the signals; a stop is remembered and the output
  waited for still.\<close>

datatype first_event = FirstCancelled | FirstOutput bool "gzip_output option"

definition run_gzip_file ::
  "(byte list \<Rightarrow> nat) \<Rightarrow> capture_env \<Rightarrow> capture_limits \<Rightarrow> uuid \<Rightarrow> uuid \<Rightarrow> bool
    \<Rightarrow> (file_resume_cursor \<times> file_encoding) option \<Rightarrow> first_event \<Rightarrow> gzip_event list
    \<Rightarrow> (completion \<times> sink) option" where
  "run_gzip_file crc env limits error_id aq room resume0 first script =
    (case first of
       FirstCancelled \<Rightarrow> Some (aborted 0, new_sink)
     | FirstOutput stopping (Some (GzipReady identity encoding)) \<Rightarrow>
         (if (case resume0 of None \<Rightarrow> False
              | Some (cursor, e) \<Rightarrow> \<not> (e = encoding \<and> rc_identity cursor = identity))
          then Some (completion_default, snd (emit env (CaptureError error_id
            ''gzip archive changed; create a new source identity to capture the replacement'') new_sink))
          else
            let resume = map_option fst resume0;
                st = gzip_start identity encoding aq (cl_maximum_record_bytes limits) resume
            in (case emit env (Boundary aq Started) new_sink of
                  (False, s1) \<Rightarrow> Some (aborted 0, s1)
                | (True, s1) \<Rightarrow>
                    (case (if resume_point resume = 0 then emit_gzip_checkpoint crc env st s1 else (True, s1)) of
                       (False, s2) \<Rightarrow> Some (aborted 0, s2)
                     | (True, s2) \<Rightarrow>
                         map_option (finish_gzip crc env room)
                           (gzip_loop crc env resume st stopping (validation_start resume) s2 script))))
     | FirstOutput stopping (Some (GzipError e)) \<Rightarrow>
         Some (completion_default, snd (emit env (CaptureError error_id e) new_sink))
     | FirstOutput stopping (Some GzipStopped) \<Rightarrow> Some (completion_default, new_sink)
     | FirstOutput stopping None \<Rightarrow> Some (completion_default, new_sink)
     | FirstOutput stopping (Some _) \<Rightarrow>
         Some (completion_default, try_emit room (CaptureError error_id
           ''gzip decoder did not publish its fingerprint first'') new_sink))"

section \<open>Opening a file\<close>

text \<open>The first two bytes say whether a file is compressed.  A read fills at most the room left.\<close>

fun magic_loop :: "byte list \<Rightarrow> (string + byte list) list \<Rightarrow> (string + byte list) option" where
  "magic_loop magic reads =
    (if length magic < 2 then
       (case reads of
          [] \<Rightarrow> None
        | Inl e # rest \<Rightarrow> Some (Inl e)
        | Inr bytes # rest \<Rightarrow>
            if bytes = [] then Some (Inr magic)
            else magic_loop (magic @ take (2 - length magic) bytes) rest)
     else Some (Inr magic))"

declare magic_loop.simps [simp del]

record magic_io =
  mg_open :: "string option"
  mg_metadata :: "string + bool"
  mg_reads :: "(string + byte list) list"
  mg_seek :: "string option"

definition open_with_magic :: "magic_io \<Rightarrow> (string + bool) option" where
  "open_with_magic io =
    (case mg_open io of
       Some e \<Rightarrow> Some (Inl e)
     | None \<Rightarrow>
         (case mg_metadata io of
            Inl e \<Rightarrow> Some (Inl e)
          | Inr is_file \<Rightarrow>
              if \<not> is_file then Some (Inl ''file capture requires a regular file'')
              else case magic_loop [] (mg_reads io) of
                None \<Rightarrow> None
              | Some (Inl e) \<Rightarrow> Some (Inl e)
              | Some (Inr magic) \<Rightarrow>
                  (case mg_seek io of
                     Some e \<Rightarrow> Some (Inl e)
                   | None \<Rightarrow> Some (Inr (magic = [0x1f, 0x8b])))))"

definition run_file ::
  "(byte list \<Rightarrow> nat) \<Rightarrow> capture_env \<Rightarrow> bool \<Rightarrow> capture_limits \<Rightarrow> uuid \<Rightarrow> uuid \<Rightarrow> bool
    \<Rightarrow> (file_resume_cursor \<times> file_encoding) option \<Rightarrow> magic_io \<Rightarrow> file_open \<Rightarrow> file_event list
    \<Rightarrow> first_event \<Rightarrow> gzip_event list \<Rightarrow> (completion \<times> sink) option" where
  "run_file crc env follow limits error_id aq room resume magic io script first gzip_script =
    (case open_with_magic magic of
       None \<Rightarrow> None
     | Some (Inl e) \<Rightarrow> Some (completion_default, try_emit room (CaptureError error_id e) new_sink)
     | Some (Inr gzip) \<Rightarrow>
         if gzip then run_gzip_file crc env limits error_id aq room resume first gzip_script
         else run_plain_file crc env follow limits error_id resume io script)"

text \<open>The capture a caller starts, by what its task yields; limits of zero start none.\<close>

definition capture_file_auto_from ::
  "(byte list \<Rightarrow> nat) \<Rightarrow> capture_env \<Rightarrow> bool \<Rightarrow> capture_limits \<Rightarrow> uuid \<Rightarrow> uuid \<Rightarrow> bool
    \<Rightarrow> (file_resume_cursor \<times> file_encoding) option \<Rightarrow> magic_io \<Rightarrow> file_open \<Rightarrow> file_event list
    \<Rightarrow> first_event \<Rightarrow> gzip_event list \<Rightarrow> string + (completion \<times> sink) option" where
  "capture_file_auto_from crc env follow limits error_id aq room resume magic io script first gzip_script =
    (if limits_valid limits
     then Inr (run_file crc env follow limits error_id aq room resume magic io script first gzip_script)
     else Inl ''capture limits must be nonzero'')"

definition capture_file_from ::
  "(byte list \<Rightarrow> nat) \<Rightarrow> capture_env \<Rightarrow> bool \<Rightarrow> capture_limits \<Rightarrow> uuid \<Rightarrow> uuid \<Rightarrow> bool
    \<Rightarrow> file_resume_cursor option \<Rightarrow> magic_io \<Rightarrow> file_open \<Rightarrow> file_event list
    \<Rightarrow> first_event \<Rightarrow> gzip_event list \<Rightarrow> string + (completion \<times> sink) option" where
  "capture_file_from crc env follow limits error_id aq room resume =
    capture_file_auto_from crc env follow limits error_id aq room (map_option (\<lambda>cursor. (cursor, Plain)) resume)"

text \<open>However the first bytes arrive, the file is taken for compressed exactly when it starts so.\<close>

lemma magic_loop_prefix:
  assumes "magic_loop magic (map Inr reads) = Some (Inr found)" "length magic \<le> 2"
    and "\<forall>i < length reads. reads ! i = [] \<longrightarrow> drop i reads = [[]]"
  shows "found = take 2 (magic @ concat reads)"
  using assms
proof (induction reads arbitrary: magic)
  case Nil
  then show ?case by (simp add: magic_loop.simps split: if_splits)
next
  case (Cons bytes reads)
  have shape: "bytes = [] \<Longrightarrow> reads = []" using Cons.prems(3) by (force dest: spec [of _ 0])
  have rest: "\<forall>i < length reads. reads ! i = [] \<longrightarrow> drop i reads = [[]]" using Cons.prems(3) by force
  show ?case
  proof (cases "length magic < 2 \<and> bytes \<noteq> []")
    case True
    then have step: "magic_loop (magic @ take (2 - length magic) bytes) (map Inr reads) = Some (Inr found)"
      using Cons.prems(1) by (subst (asm) magic_loop.simps) simp
    have "found = take 2 ((magic @ take (2 - length magic) bytes) @ concat reads)"
      by (rule Cons.IH [OF step _ rest]) (use Cons.prems(2) in simp)
    also have "\<dots> = take 2 (magic @ concat (bytes # reads))"
      by (cases "2 - length magic \<le> length bytes") simp_all
    finally show ?thesis .
  next
    case False
    then show ?thesis using Cons.prems(1,2) shape
      by (subst (asm) magic_loop.simps) (auto split: if_splits)
  qed
qed

section \<open>The decoder's outputs\<close>

text \<open>The decoder publishes the fingerprint first, then only decoded bytes, and says that the archive
  is complete only where the fingerprint taken at the end is the one it published.\<close>

definition fingerprinted :: "(byte list \<Rightarrow> nat) \<Rightarrow> file_encoding \<Rightarrow> decode_round list \<Rightarrow> bool" where
  "fingerprinted crc encoding rounds \<longleftrightarrow>
     list_ex (\<lambda>r. dr_read r = Inr [] \<and> fingerprint_std crc (dr_final r) = Some (Inr encoding)) rounds"

definition decoded_bytes :: "gzip_output list \<Rightarrow> byte list" where
  "decoded_bytes outs = concat (map (\<lambda>out. case out of GzipBytes bytes \<Rightarrow> bytes | _ \<Rightarrow> []) outs)"

lemma decoded_bytes_simps [simp]:
  "decoded_bytes [] = []"
  "decoded_bytes (out # outs) = (case out of GzipBytes bytes \<Rightarrow> bytes | _ \<Rightarrow> []) @ decoded_bytes outs"
  by (simp_all add: decoded_bytes_def)

text \<open>The shape of what follows the fingerprint: bytes, then one last word or none.\<close>

fun decoded_run :: "gzip_output list \<Rightarrow> bool" where
  "decoded_run [] = True"
| "decoded_run (GzipBytes bytes # outs) = (bytes \<noteq> [] \<and> decoded_run outs)"
| "decoded_run (GzipReady i e # outs) = False"
| "decoded_run (out # outs) = (outs = [])"

lemma offer_gzip_cases:
  "offer_gzip b out tries = Some outs \<Longrightarrow> outs = [] \<or> outs = [out]"
  by (auto simp: offer_gzip_def)

lemma decode_loop_run:
  "decode_loop crc encoding rounds = Some (outs, e) \<Longrightarrow>
     decoded_run outs \<and> (GzipComplete \<in> set outs \<longrightarrow> fingerprinted crc encoding rounds)
   \<and> (e \<noteq> None \<longrightarrow> (\<forall>out. out \<noteq> GzipComplete \<longrightarrow> (\<forall>i enc. out \<noteq> GzipReady i enc) \<longrightarrow> (\<forall>b. out \<noteq> GzipBytes b)
        \<longrightarrow> decoded_run (outs @ [out])) \<and> GzipComplete \<notin> set outs)"
proof (induction rounds arbitrary: outs e)
  case Nil
  then show ?case by simp
next
  case (Cons r rs)
  have last: "decoded_run [out]" if "out \<noteq> GzipComplete" "\<forall>i enc. out \<noteq> GzipReady i enc" "\<forall>b. out \<noteq> GzipBytes b" for out
    using that by (cases out) auto
  show ?case
  proof (cases "dr_read r")
    case (Inl err)
    then show ?thesis using Cons.prems last
      by (auto split: if_splits dest!: offer_gzip_cases)
  next
    case (Inr bytes)
    show ?thesis
    proof (cases "bytes = []")
      case True
      show ?thesis
      proof (cases "fingerprint_std crc (dr_final r)")
        case None
        then show ?thesis using Cons.prems Inr True by simp
      next
        case (Some fp)
        show ?thesis
        proof (cases fp)
          case (Inl err)
          then show ?thesis using Cons.prems Inr True Some last by simp
        next
          case fin: (Inr final)
          show ?thesis
          proof (cases "final = encoding")
            case False
            then show ?thesis using Cons.prems Inr True Some fin last by simp
          next
            case True
            then show ?thesis using Cons.prems Inr \<open>bytes = []\<close> Some fin
              by (auto simp: fingerprinted_def dest!: offer_gzip_cases)
          qed
        qed
      qed
    next
      case False
      show ?thesis
      proof (cases "send_gzip True (dr_send r)")
        case None
        then show ?thesis using Cons.prems Inr False by simp
      next
        case (Some sent)
        show ?thesis
        proof (cases "sent \<and> dr_after r = GzipRunning")
          case True
          then obtain outs' where rest: "decode_loop crc encoding rs = Some (outs', e)" "outs = GzipBytes bytes # outs'"
            using Cons.prems Inr False Some by auto
          then show ?thesis using Cons.IH [OF rest(1)] False by (auto simp: fingerprinted_def)
        next
          case stop: False
          then show ?thesis using Cons.prems Inr False Some last
            by (cases sent) (auto dest!: offer_gzip_cases)
        qed
      qed
    qed
  qed
qed

lemma gzip_decoder_outputs:
  assumes "gzip_decoder crc io = Some outs" "GzipComplete \<in> set outs"
  obtains identity encoding rest where "outs = GzipReady identity encoding # rest" "decoded_run rest"
    "fingerprint_std crc (di_first io) = Some (Inr encoding)" "fingerprinted crc encoding (di_rounds io)"
proof -
  obtain sent e where d: "decode_archive crc io = Some (sent, e)"
    using assms(1) by (auto simp: gzip_decoder_def split: option.splits)
  have extra: "\<exists>more. outs = sent @ more \<and> (e = None \<longrightarrow> more = [])
      \<and> (\<forall>out \<in> set more. out \<noteq> GzipComplete \<and> (\<forall>i enc. out \<noteq> GzipReady i enc) \<and> (\<forall>b. out \<noteq> GzipBytes b))
      \<and> length more \<le> 1"
    using assms(1) d by (auto simp: gzip_decoder_def split: option.splits if_splits dest!: offer_gzip_cases)
  then obtain more where more: "outs = sent @ more" "e = None \<longrightarrow> more = []"
    "\<forall>out \<in> set more. out \<noteq> GzipComplete \<and> (\<forall>i enc. out \<noteq> GzipReady i enc) \<and> (\<forall>b. out \<noteq> GzipBytes b)"
    "length more \<le> 1" by blast
  then have complete: "GzipComplete \<in> set sent" using assms(2) by auto
  obtain identity encoding rest where s: "sent = GzipReady identity encoding # rest"
    "fingerprint_std crc (di_first io) = Some (Inr encoding)"
    "decode_loop crc encoding (di_rounds io) = Some (rest, e)"
    using d complete
    by (auto simp: decode_archive_def split: sum.splits option.splits if_splits bool.splits dest!: offer_gzip_cases)
  note r = decode_loop_run [OF s(3)]
  have "GzipComplete \<in> set rest" using complete s(1) by simp
  then have "e = None" using r by auto
  then show ?thesis using that [of identity encoding rest] s r more \<open>GzipComplete \<in> set rest\<close> by simp
qed

section \<open>The state machine of a plain file\<close>

text \<open>A gzip capture acknowledges and publishes as a plain one does; only the encoding its
  checkpoints name differs.\<close>

definition as_file :: "gzip_state \<Rightarrow> file_state" where
  "as_file st = \<lparr>fl_identity = gz_identity st, fl_offset = 0, fl_acquisition = gz_acquisition st,
     fl_framer = gz_framer st, fl_acknowledged_offset = gz_acknowledged_offset st,
     fl_unacknowledged = gz_unacknowledged st, fl_evidence = gz_evidence st,
     fl_checkpointed_offset = gz_checkpointed_offset st, fl_content_hasher = gz_content_hasher st\<rparr>"

lemma as_file_simps [simp]:
  "fl_identity (as_file st) = gz_identity st" "fl_acquisition (as_file st) = gz_acquisition st"
  "fl_framer (as_file st) = gz_framer st" "fl_acknowledged_offset (as_file st) = gz_acknowledged_offset st"
  "fl_unacknowledged (as_file st) = gz_unacknowledged st" "fl_evidence (as_file st) = gz_evidence st"
  "fl_checkpointed_offset (as_file st) = gz_checkpointed_offset st"
  "fl_content_hasher (as_file st) = gz_content_hasher st"
  by (simp_all add: as_file_def)

fun plain_event :: "capture_event \<Rightarrow> capture_event" where
  "plain_event (FileCheckpoint a c e) = FileCheckpoint a c Plain"
| "plain_event ev = ev"

definition plain_sink :: "sink \<Rightarrow> sink" where
  "plain_sink s = s\<lparr>sk_events := map plain_event (sk_events s)\<rparr>"

lemma emit_plain: "emit env ev s = (b, s') \<Longrightarrow> emit env (plain_event ev) (plain_sink s) = (b, plain_sink s')"
  by (auto simp: emit_def plain_sink_def Let_def split: if_splits)

lemma emit_records_plain: "emit_records env rs s = (b, s') \<Longrightarrow> emit_records env rs (plain_sink s) = (b, plain_sink s')"
  using emit_plain [of env "Records rs" s b s'] by (auto simp: emit_records_def split: if_splits)

lemma checkpoint_plain:
  assumes "emit_gzip_checkpoint crc env st s = (b, s')"
  shows "emit_checkpoint crc env (as_file st) (plain_sink s) = (b, plain_sink s')"
  using emit_plain [OF assms [unfolded emit_gzip_checkpoint_def]] by (simp add: emit_checkpoint_def)

lemma acknowledge_as_file: "as_file (acknowledge_decoded st) = acknowledge (as_file st)"
  by (simp add: acknowledge_decoded_def acknowledge_def Let_def as_file_def)

lemma acknowledge_gzip_plain:
  assumes "acknowledge_gzip crc env force st s = (b, st', s')"
  shows "acknowledge_file crc env force (as_file st) (plain_sink s) = (b, as_file st', plain_sink s')"
proof -
  let ?a = "acknowledge_decoded st"
  obtain sent s1 where em: "emit_gzip_checkpoint crc env ?a s = (sent, s1)" by (metis surj_pair)
  have upd: "as_file (?a\<lparr>gz_checkpointed_offset := n\<rparr>) = (as_file ?a)\<lparr>fl_checkpointed_offset := n\<rparr>" for n
    by (simp add: as_file_def)
  show ?thesis
    using assms em checkpoint_plain [OF em] upd
    by (auto simp: acknowledge_gzip_def acknowledge_file_def acknowledge_as_file [symmetric] Let_def
        split: if_splits bool.splits)
qed

lemma gzip_round_plain:
  assumes "gzip_round crc env force (rs, st, s) = (b, st', s')"
  shows "publish_round crc env force (rs, as_file st, plain_sink s) = (b, as_file st', plain_sink s')"
proof -
  obtain sent s1 where em: "emit_records env rs s = (sent, s1)" by (metis surj_pair)
  show ?thesis
    using assms em emit_records_plain [OF em] acknowledge_gzip_plain [of crc env force st s1]
    by (auto simp: gzip_round_def publish_round_def split: bool.splits)
qed

lemma loops_plain:
  "loop_push env st aq xs (f, s) = Some (r, s') \<Longrightarrow> loop_push env st aq xs (f, plain_sink s) = Some (r, plain_sink s')"
  "loop_flush env st aq (f, s) = (r, s') \<Longrightarrow> loop_flush env st aq (f, plain_sink s) = (r, plain_sink s')"
  "loop_finish env st aq (f, s) = (r, s') \<Longrightarrow> loop_finish env st aq (f, plain_sink s) = (r, plain_sink s')"
  by (auto simp: loop_push_def loop_flush_def loop_finish_def tick_clock_def plain_sink_def Let_def
      split: prod.splits option.splits)

lemma gzip_flush_plain:
  assumes "gzip_flush env st s = (rs, st', s')"
  shows "file_flush env (as_file st) (plain_sink s) = (rs, as_file st', plain_sink s')"
proof -
  obtain f rs1 s1 where fl: "loop_flush env File (gz_acquisition st) (gz_framer st, s) = ((f, rs1), s1)"
    by (metis surj_pair)
  show ?thesis using assms fl loops_plain(2) [OF fl] by (auto simp: gzip_flush_def file_flush_def as_file_def)
qed

lemma gzip_finish_plain:
  assumes "gzip_finish env st s = (rs, st', s')"
  shows "finish_framer env (as_file st) (plain_sink s) = (rs, as_file st', plain_sink s')"
proof -
  obtain f rs1 s1 where fl: "loop_finish env File (gz_acquisition st) (gz_framer st, s) = ((f, rs1), s1)"
    by (metis surj_pair)
  show ?thesis using assms fl loops_plain(3) [OF fl] by (auto simp: gzip_finish_def finish_framer_def as_file_def)
qed

section \<open>The invariant of the capture\<close>

text \<open>Every checkpoint names the archive, and no error is published before the end.\<close>

definition names_archive :: "file_identity option \<Rightarrow> file_encoding \<Rightarrow> capture_event \<Rightarrow> bool" where
  "names_archive identity encoding ev \<longleftrightarrow>
     (case ev of
        FileCheckpoint a c e \<Rightarrow> rc_identity c = identity \<and> e = encoding
      | CaptureError a detail \<Rightarrow> False
      | _ \<Rightarrow> True)"

definition archive_inv :: "file_identity option \<Rightarrow> file_encoding \<Rightarrow> gzip_state \<Rightarrow> sink \<Rightarrow> bool" where
  "archive_inv identity encoding st s \<longleftrightarrow>
     gz_identity st = identity \<and> gz_encoding st = encoding
   \<and> list_all (names_archive identity encoding) (sk_events s)"

text \<open>Once validated: the plain file's invariant, and the bytes taken in so far are those hashed and
  those not acknowledged yet.\<close>

definition running_inv ::
  "(byte list \<Rightarrow> nat) \<Rightarrow> capture_env \<Rightarrow> byte list \<Rightarrow> byte list \<Rightarrow> captured_record list \<times> gzip_state \<times> sink \<Rightarrow> bool" where
  "running_inv crc env skipped consumed = (\<lambda>(rs, st, s).
     file_inv crc env skipped (rs, as_file st, plain_sink s)
   \<and> gz_content_hasher st @ gz_unacknowledged st = consumed)"

lemma acknowledge_keeps [simp]:
  "gz_content_hasher (acknowledge_decoded st) @ gz_unacknowledged (acknowledge_decoded st)
     = gz_content_hasher st @ gz_unacknowledged st"
  "gz_identity (acknowledge_decoded st) = gz_identity st" "gz_encoding (acknowledge_decoded st) = gz_encoding st"
  by (simp_all add: acknowledge_decoded_def Let_def)

lemma emit_archive:
  "emit env ev s = (b, s') \<Longrightarrow> names_archive identity encoding ev \<Longrightarrow> archive_inv identity encoding st s
    \<Longrightarrow> archive_inv identity encoding st s'"
  using emit_spec [of env ev s b s'] by (auto simp: archive_inv_def)

lemma checkpoint_archive:
  "emit_gzip_checkpoint crc env st s = (b, s') \<Longrightarrow> archive_inv identity encoding st s
    \<Longrightarrow> archive_inv identity encoding st s'"
  unfolding emit_gzip_checkpoint_def by (erule emit_archive) (auto simp: names_archive_def archive_inv_def)

lemma acknowledge_gzip_archive:
  assumes "acknowledge_gzip crc env force st s = (b, st', s')" "archive_inv identity encoding st s"
  shows "archive_inv identity encoding st' s'
    \<and> gz_content_hasher st' @ gz_unacknowledged st' = gz_content_hasher st @ gz_unacknowledged st"
proof -
  let ?a = "acknowledge_decoded st"
  obtain sent s1 where em: "emit_gzip_checkpoint crc env ?a s = (sent, s1)" by (metis surj_pair)
  have a: "archive_inv identity encoding ?a s" using assms(2) by (simp add: archive_inv_def)
  note checkpoint_archive [OF em a]
  then show ?thesis using assms(1) em a
    by (auto simp: acknowledge_gzip_def archive_inv_def Let_def split: if_splits bool.splits)
qed

lemma gzip_round_archive:
  assumes "gzip_round crc env force (rs, st, s) = (b, st', s')" "archive_inv identity encoding st s"
  shows "archive_inv identity encoding st' s'
    \<and> gz_content_hasher st' @ gz_unacknowledged st' = gz_content_hasher st @ gz_unacknowledged st"
proof -
  obtain sent s1 where em: "emit_records env rs s = (sent, s1)" by (metis surj_pair)
  have "archive_inv identity encoding st s1"
    using em assms(2) emit_archive [of env "Records rs" s sent s1 identity encoding st]
    by (auto simp: emit_records_def names_archive_def split: if_splits)
  then show ?thesis
    using assms em acknowledge_gzip_archive [of crc env force st s1 b st' s' identity encoding]
    by (auto simp: gzip_round_def split: bool.splits)
qed

lemma gzip_round_running:
  assumes "gzip_round crc env force (rs, st, s) = (b, st', s')" "delivery_stops env"
    and "running_inv crc env skipped consumed (rs, st, s)" "archive_inv identity encoding st s"
  shows "running_inv crc env skipped consumed ([], st', s')" "archive_inv identity encoding st' s'"
  using publish_round_inv [OF gzip_round_plain [OF assms(1)] assms(2)] gzip_round_archive [OF assms(1,4)] assms(3)
  by (simp_all add: running_inv_def)

lemma loops_events:
  "loop_push env st aq xs (f, s) = Some (r, s') \<Longrightarrow> sk_events s' = sk_events s"
  "loop_flush env st aq (f, s) = (r, s') \<Longrightarrow> sk_events s' = sk_events s"
  "loop_finish env st aq (f, s) = (r, s') \<Longrightarrow> sk_events s' = sk_events s"
  by (auto simp: loop_push_def loop_flush_def loop_finish_def tick_clock_def Let_def split: prod.splits option.splits)

lemma gzip_flush_running:
  assumes "gzip_flush env st s = (rs, st', s')"
    and "running_inv crc env skipped consumed ([], st, s)" "archive_inv identity encoding st s"
  shows "running_inv crc env skipped consumed (rs, st', s')" "archive_inv identity encoding st' s'"
  using file_flush_inv [of crc env skipped "as_file st" "plain_sink s"] gzip_flush_plain [OF assms(1)] assms
  by (auto simp: running_inv_def gzip_flush_def archive_inv_def dest: loops_events split: prod.splits)

lemma gzip_finish_running:
  assumes "gzip_finish env st s = (rs, st', s')"
    and "running_inv crc env skipped consumed ([], st, s)" "archive_inv identity encoding st s"
  shows "running_inv crc env skipped consumed (rs, st', s')" "archive_inv identity encoding st' s'"
  using finish_framer_inv [of crc env skipped "as_file st" "plain_sink s"] gzip_finish_plain [OF assms(1)] assms
  by (auto simp: running_inv_def gzip_finish_def archive_inv_def dest: loops_events split: prod.splits)

lemma gzip_push_running:
  assumes "running_inv crc env skipped consumed ([], st, s)" "archive_inv identity encoding st s"
    and "memchr_ok (ce_memchr env)"
  obtains rs st' s' where "gzip_push env bytes st s = Some (rs, st', s')"
    "running_inv crc env skipped (consumed @ bytes) (rs, st', s')" "archive_inv identity encoding st' s'"
proof -
  obtain round where f: "file_push env bytes (as_file st) (plain_sink s) = Some round"
    "file_inv crc env skipped round"
    using file_push_inv [of crc env skipped "as_file st" "plain_sink s" bytes] assms by (auto simp: running_inv_def)
  have ok: "framer_ok (gz_framer st)" using assms(1) by (simp add: running_inv_def file_inv_def)
  obtain fr rs s1 where pu: "loop_push env File (gz_acquisition st) bytes (gz_framer st, s) = Some ((fr, rs), s1)"
    using loop_push_spec [OF ok assms(3)] by blast
  let ?st = "st\<lparr>gz_unacknowledged := gz_unacknowledged st @ bytes, gz_framer := fr\<rparr>"
  have "round = (rs, (as_file ?st)\<lparr>fl_offset := length bytes\<rparr>, plain_sink s1)"
    using f(1) loops_plain(1) [OF pu] by (simp add: file_push_def as_file_def)
  with f(2) have "file_inv crc env skipped (rs, as_file ?st, plain_sink s1)"
    by (simp add: file_inv_def holds_def)
  then show ?thesis
    using that [of rs ?st s1] pu loops_events(1) [OF pu] assms(1,2)
    by (simp add: gzip_push_def running_inv_def archive_inv_def)
qed

text \<open>Before the resume is validated nothing but the start has been published, and what was decoded
  is being hashed.\<close>

definition validating_inv ::
  "file_resume_cursor option \<Rightarrow> byte list \<Rightarrow> gzip_state \<Rightarrow> validation \<Rightarrow> sink \<Rightarrow> bool" where
  "validating_inv resume consumed st va s \<longleftrightarrow>
     (\<exists>aq. sk_events s = [Boundary aq Started])
   \<and> (\<exists>m > 0. gz_framer st = framer_new m)
   \<and> gz_unacknowledged st = [] \<and> gz_content_hasher st = []
   \<and> gz_acknowledged_offset st = resume_point resume \<and> gz_checkpointed_offset st = resume_point resume
   \<and> (case resume of None \<Rightarrow> False | Some c \<Rightarrow> gz_evidence st = rc_evidence c)
   \<and> va_hasher va = consumed \<and> va_tail va = keep_last file_evidence_bytes consumed
   \<and> va_skipped va = length consumed \<and> length consumed < resume_point resume"

definition gzip_inv ::
  "(byte list \<Rightarrow> nat) \<Rightarrow> capture_env \<Rightarrow> file_identity option \<Rightarrow> file_encoding \<Rightarrow> file_resume_cursor option
    \<Rightarrow> byte list \<Rightarrow> byte list \<Rightarrow> gzip_state \<Rightarrow> validation \<Rightarrow> sink \<Rightarrow> bool" where
  "gzip_inv crc env identity encoding resume skipped consumed st va s \<longleftrightarrow>
     archive_inv identity encoding st s
   \<and> (if va_validated va then running_inv crc env skipped consumed ([], st, s)
      else validating_inv resume consumed st va s)"

text \<open>What every checkpoint among the events of an archive must be.\<close>

definition gzip_checkpoints_exact ::
  "(byte list \<Rightarrow> nat) \<Rightarrow> file_identity option \<Rightarrow> file_encoding \<Rightarrow> byte list \<Rightarrow> capture_event list \<Rightarrow> bool" where
  "gzip_checkpoints_exact crc identity encoding skipped evs \<longleftrightarrow>
     (\<forall>k < length evs. case evs ! k of
        FileCheckpoint a c e \<Rightarrow> c = cursor_for crc identity (published_bytes skipped (take k evs)) \<and> e = encoding
      | _ \<Rightarrow> True)"

lemma position_step_plain: "position_step skipped cur (plain_event ev) = position_step skipped cur ev"
  by (cases ev) auto

lemma published_bytes_plain: "published_bytes skipped (map plain_event evs) = published_bytes skipped evs"
  unfolding published_bytes_def by (simp add: foldl_map position_step_plain)

lemma gzip_checkpoints_exactI:
  assumes "checkpoints_exact crc skipped (map plain_event evs)" "list_all (names_archive identity encoding) evs"
  shows "gzip_checkpoints_exact crc identity encoding skipped evs"
  unfolding gzip_checkpoints_exact_def
proof (intro allI impI)
  fix k
  assume k: "k < length evs"
  have one: "checkpoint_exact crc (published_bytes skipped (take k evs)) (plain_event (evs ! k))"
    using assms(1) k by (simp add: checkpoints_exact_def take_map published_bytes_plain)
  have two: "names_archive identity encoding (evs ! k)" using assms(2) k by (simp add: list_all_length)
  show "case evs ! k of
        FileCheckpoint a c e \<Rightarrow> c = cursor_for crc identity (published_bytes skipped (take k evs)) \<and> e = encoding
      | _ \<Rightarrow> True"
    using one two by (auto simp: names_archive_def split: capture_event.splits)
qed

lemma running_exact:
  assumes "running_inv crc env skipped consumed (rs, st, s)" "archive_inv identity encoding st s"
  shows "gzip_checkpoints_exact crc identity encoding skipped (sk_events s)"
  using assms by (intro gzip_checkpoints_exactI) (simp_all add: running_inv_def file_inv_def archive_inv_def plain_sink_def)

lemma gzip_inv_exact:
  assumes "gzip_inv crc env identity encoding resume skipped consumed st va s"
  shows "gzip_checkpoints_exact crc identity encoding skipped (sk_events s)"
proof (cases "va_validated va")
  case True
  then show ?thesis
    using assms running_exact [of crc env skipped consumed "[]" st s] by (simp add: gzip_inv_def)
next
  case False
  then obtain aq where "sk_events s = [Boundary aq Started]" using assms by (auto simp: gzip_inv_def validating_inv_def)
  then show ?thesis by (simp add: gzip_checkpoints_exact_def)
qed

lemma push_decoded_inv:
  assumes "gzip_inv crc env identity encoding resume skipped consumed st va s"
    and "memchr_ok (ce_memchr env)" "delivery_stops env" "va_validated va \<or> bytes = []"
  shows "case push_decoded crc env bytes st va s of
      None \<Rightarrow> False
    | Some (Inl (GzReturn c s')) \<Rightarrow> gzip_checkpoints_exact crc identity encoding skipped (sk_events s')
    | Some (Inl (GzBreak e st' b va' s')) \<Rightarrow> False
    | Some (Inr (st', va', s')) \<Rightarrow> va' = va
        \<and> gzip_inv crc env identity encoding resume skipped (consumed @ bytes) st' va' s'"
proof (cases "va_validated va \<and> bytes \<noteq> []")
  case False
  then show ?thesis using assms by (auto simp: push_decoded_def)
next
  case True
  then have inv: "running_inv crc env skipped consumed ([], st, s)" "archive_inv identity encoding st s"
    using assms(1) by (simp_all add: gzip_inv_def)
  obtain rs st1 s1 where pu: "gzip_push env bytes st s = Some (rs, st1, s1)"
    "running_inv crc env skipped (consumed @ bytes) (rs, st1, s1)" "archive_inv identity encoding st1 s1"
    using gzip_push_running [OF inv assms(2)] .
  obtain ok st2 s2 where rd: "gzip_round crc env False (rs, st1, s1) = (ok, st2, s2)" by (metis prod_cases3)
  note r = gzip_round_running [OF rd assms(3) pu(2,3)]
  show ?thesis
    using True pu(1) rd r running_exact [OF r]
    by (cases ok) (simp_all add: push_decoded_def gzip_inv_def)
qed

lemma take_bytes_inv:
  assumes "gzip_inv crc env identity encoding resume skipped consumed st va s"
    and "memchr_ok (ce_memchr env)" "delivery_stops env"
    and "va_validated va \<or> skipped = take (resume_point resume) (consumed @ bytes @ rest)"
  shows "case take_bytes crc env resume bytes st stopping va s of
      None \<Rightarrow> False
    | Some (Inl (GzReturn c s')) \<Rightarrow> gzip_checkpoints_exact crc identity encoding skipped (sk_events s')
    | Some (Inl (GzBreak e st' b va' s')) \<Rightarrow>
        (\<exists>e'. e = Some e') \<and> \<not> va_validated va'
      \<and> gzip_checkpoints_exact crc identity encoding skipped (sk_events s')
      \<and> archive_inv identity encoding st' s' \<and> (\<exists>m > 0. gz_framer st' = framer_new m)
      \<and> gz_unacknowledged st' = [] \<and> gz_acknowledged_offset st' = gz_checkpointed_offset st'
    | Some (Inr (st', va', s')) \<Rightarrow>
        gzip_inv crc env identity encoding resume skipped (consumed @ bytes) st' va' s'
      \<and> (va_validated va' \<or> skipped = take (resume_point resume) ((consumed @ bytes) @ rest))"
proof (cases "va_validated va")
  case True
  then show ?thesis
    using push_decoded_inv [OF assms(1-3), of bytes]
    by (auto simp: take_bytes_def split: option.splits sum.splits gzip_exit.splits)
next
  case False
  then have v: "validating_inv resume consumed st va s" and arch: "archive_inv identity encoding st s"
    using assms(1) by (simp_all add: gzip_inv_def)
  obtain cursor where cursor: "resume = Some cursor" "gz_evidence st = rc_evidence cursor"
    using v by (auto simp: validating_inv_def split: option.splits)
  define n where "n = min (resume_point resume - va_skipped va) (length bytes)"
  define va1 where "va1 = va\<lparr>va_skipped := va_skipped va + n, va_hasher := va_hasher va @ take n bytes,
      va_tail := keep_last file_evidence_bytes (va_tail va @ take n bytes)\<rparr>"
  have skip: "skip_bytes (resume_point resume) bytes va = (drop n bytes, va1)"
    unfolding skip_bytes_def Let_def n_def va1_def by (rule refl)
  have va1: "va_hasher va1 = consumed @ take n bytes" "va_tail va1 = keep_last file_evidence_bytes (consumed @ take n bytes)"
    "va_skipped va1 = length (consumed @ take n bytes)" "\<not> va_validated va1"
    using v False by (simp_all add: va1_def validating_inv_def keep_last_append n_def)
  note tb = take_bytes_def [of crc env resume bytes st stopping va s, unfolded skip Let_def]
  show ?thesis
  proof (cases "va_skipped va1 = resume_point resume")
    case short: False
    have "n = length bytes" "length (consumed @ bytes) < resume_point resume"
      using v short by (auto simp: va1_def validating_inv_def n_def)
    then have inv: "gzip_inv crc env identity encoding resume skipped (consumed @ bytes) st va1 s"
      using v va1 arch by (simp add: gzip_inv_def validating_inv_def)
    have "push_decoded crc env (drop n bytes) st va1 s = Some (Inr (st, va1, s))"
      using va1(4) by (simp add: push_decoded_def)
    then show ?thesis using False short tb inv assms(4) by simp
  next
    case reached: True
    have len: "length (consumed @ take n bytes) = resume_point resume" using reached va1(3) by simp
    have skipped: "skipped = consumed @ take n bytes"
    proof -
      have "skipped = take (resume_point resume) (consumed @ bytes @ rest)" using assms(4) False by simp
      also have "consumed @ bytes @ rest = (consumed @ take n bytes) @ drop n bytes @ rest" by simp
      also have "take (resume_point resume) \<dots> = consumed @ take n bytes" using len by (metis append_eq_conv_conj)
      finally show ?thesis .
    qed
    show ?thesis
    proof (cases "crc (va_hasher va1) \<noteq> rc_content_crc32 cursor \<or> va_tail va1 \<noteq> rc_evidence cursor")
      case mismatch: True
      have "gzip_checkpoints_exact crc identity encoding skipped (sk_events s)" using gzip_inv_exact [OF assms(1)] .
      then show ?thesis
        using False reached tb cursor(1) mismatch va1(4) v arch by (auto simp: validating_inv_def)
    next
      case match: False
      define st1 where "st1 = st\<lparr>gz_content_hasher := va_hasher va1\<rparr>"
      obtain aq m where fresh: "sk_events s = [Boundary aq Started]" "0 < m" "gz_framer st = framer_new m"
        "gz_unacknowledged st = []" "gz_acknowledged_offset st = resume_point resume"
        using v by (auto simp: validating_inv_def)
      have run: "running_inv crc env skipped skipped ([], st1, s)"
        using fresh va1 match cursor(2) skipped len
        by (simp add: running_inv_def file_inv_def holds_def st1_def plain_sink_def published_bytes_def
            checkpoints_exact_def as_file_def)
      have arch1: "archive_inv identity encoding st1 s" using arch by (simp add: st1_def archive_inv_def)
      obtain sent s1 where em: "emit_gzip_checkpoint crc env st1 s = (sent, s1)" by (metis surj_pair)
      have pub: "fl_content_hasher (as_file st1) = published_bytes skipped (sk_events (plain_sink s))"
        using fresh(1) skipped va1(1) by (simp add: st1_def plain_sink_def published_bytes_def)
      have "file_inv crc env skipped ([], as_file st1, plain_sink s1)"
        using emit_checkpoint_inv [OF checkpoint_plain [OF em] assms(3)] run pub by (simp add: running_inv_def)
      then have run1: "running_inv crc env skipped skipped ([], st1, s1)" using run by (simp add: running_inv_def)
      have arch2: "archive_inv identity encoding st1 s1" using checkpoint_archive [OF em arch1] .
      let ?va = "va1\<lparr>va_validated := True\<rparr>"
      have inv: "gzip_inv crc env identity encoding resume skipped skipped st1 ?va s1"
        using run1 arch2 by (simp add: gzip_inv_def)
      have all: "skipped @ drop n bytes = consumed @ bytes" using skipped by simp
      have step: "take_bytes crc env resume bytes st stopping va s =
          (if sent then push_decoded crc env (drop n bytes) st1 ?va s1 else Some (Inl (GzReturn (aborted 0) s1)))"
        using False reached tb cursor(1) match em by (auto simp: st1_def split: bool.splits)
      show ?thesis
        using push_decoded_inv [OF inv assms(2,3), of "drop n bytes"] running_exact [OF run1 arch2] all step
        by (auto split: option.splits sum.splits gzip_exit.splits if_splits)
    qed
  qed
qed

section \<open>The loop and the end\<close>

fun script_outputs :: "gzip_event list \<Rightarrow> gzip_output list" where
  "script_outputs [] = []"
| "script_outputs (GzOutput (Some out) # script) = out # script_outputs script"
| "script_outputs (ev # script) = script_outputs script"

text \<open>The state in which the loop is left.\<close>

definition break_inv ::
  "(byte list \<Rightarrow> nat) \<Rightarrow> capture_env \<Rightarrow> file_identity option \<Rightarrow> file_encoding
    \<Rightarrow> byte list \<Rightarrow> gzip_state \<Rightarrow> validation \<Rightarrow> sink \<Rightarrow> bool" where
  "break_inv crc env identity encoding skipped st va s \<longleftrightarrow>
     archive_inv identity encoding st s \<and> gzip_checkpoints_exact crc identity encoding skipped (sk_events s)
   \<and> (if va_validated va then \<exists>consumed. running_inv crc env skipped consumed ([], st, s)
      else (\<exists>m > 0. gz_framer st = framer_new m)
         \<and> gz_unacknowledged st = [] \<and> gz_acknowledged_offset st = gz_checkpointed_offset st)"

lemma gzip_inv_break:
  assumes "gzip_inv crc env identity encoding resume skipped consumed st va s"
  shows "break_inv crc env identity encoding skipped st va s"
  using assms gzip_inv_exact [OF assms] by (auto simp: break_inv_def gzip_inv_def validating_inv_def)

lemma gzip_loop_exact:
  assumes "memchr_ok (ce_memchr env)" "delivery_stops env"
    and "gzip_inv crc env identity encoding resume skipped consumed st va s"
    and "va_validated va \<or> skipped = take (resume_point resume) (consumed @ decoded_bytes (script_outputs script))"
    and "gzip_loop crc env resume st stopping va s script = Some exit"
  shows "case exit of
      GzReturn c s' \<Rightarrow> gzip_checkpoints_exact crc identity encoding skipped (sk_events s')
    | GzBreak e st' stopping' va' s' \<Rightarrow> break_inv crc env identity encoding skipped st' va' s'"
  using assms(3-5)
proof (induction script arbitrary: consumed st stopping va s)
  case Nil
  then show ?case by simp
next
  case (Cons ev script)
  note inv = Cons.prems(1)
  note exact = gzip_inv_exact [OF inv] and brk = gzip_inv_break [OF inv]
  show ?case
  proof (cases ev)
    case GzStopRequested
    then show ?thesis using Cons.IH [OF inv] Cons.prems(2,3) by (simp split: if_splits)
  next
    case GzTick
    then have valid: "va_validated va" using Cons.prems(3) by (simp split: if_splits)
    then have run: "running_inv crc env skipped consumed ([], st, s)" "archive_inv identity encoding st s"
      using inv by (simp_all add: gzip_inv_def)
    obtain rs st1 s1 where fl: "gzip_flush env st s = (rs, st1, s1)" by (metis prod_cases3)
    obtain ok st2 s2 where rd: "gzip_round crc env True (rs, st1, s1) = (ok, st2, s2)" by (metis prod_cases3)
    note f = gzip_flush_running [OF fl run]
    note r = gzip_round_running [OF rd assms(2) f]
    show ?thesis
    proof (cases ok)
      case True
      have "gzip_inv crc env identity encoding resume skipped consumed st2 va s2"
        using r valid by (simp add: gzip_inv_def)
      then show ?thesis using Cons.IH valid Cons.prems(3) GzTick fl rd True by simp
    next
      case False
      then show ?thesis using running_exact [OF r] Cons.prems(3) GzTick fl rd valid by auto
    qed
  next
    case (GzOutput got)
    show ?thesis
    proof (cases "\<exists>bytes. got = Some (GzipBytes bytes)")
      case False
      then show ?thesis using Cons.prems(3) GzOutput brk
        by (auto split: option.splits gzip_output.splits)
    next
      case True
      then obtain bytes where bytes: "ev = GzOutput (Some (GzipBytes bytes))" using GzOutput by blast
      note tb = take_bytes_inv [OF inv assms(1,2), of bytes "decoded_bytes (script_outputs script)" stopping]
      obtain res where res: "take_bytes crc env resume bytes st stopping va s = Some res"
        using Cons.prems(3) bytes by (auto split: option.splits)
      show ?thesis
      proof (cases res)
        case (Inl exit')
        then have "exit = exit'" using Cons.prems(3) bytes res by simp
        then show ?thesis using tb res Inl Cons.prems(2) bytes
          by (auto simp: break_inv_def split: gzip_exit.splits)
      next
        case (Inr next_state)
        obtain st1 va1 s1 where n: "next_state = (st1, va1, s1)" by (metis prod_cases3)
        have next_inv: "gzip_inv crc env identity encoding resume skipped (consumed @ bytes) st1 va1 s1"
          "va_validated va1 \<or> skipped = take (resume_point resume)
             ((consumed @ bytes) @ decoded_bytes (script_outputs script))"
          using tb res Inr n Cons.prems(2) bytes by simp_all
        show ?thesis using Cons.IH [OF next_inv] Cons.prems(3) bytes res Inr n by simp
      qed
    qed
  qed (use Cons.prems(3) exact in auto)
qed

lemma exact_snoc:
  assumes "gzip_checkpoints_exact crc identity encoding skipped evs" "\<forall>a c e. ev \<noteq> FileCheckpoint a c e"
  shows "gzip_checkpoints_exact crc identity encoding skipped (evs @ [ev])"
  unfolding gzip_checkpoints_exact_def
proof (intro allI impI)
  fix k
  assume "k < length (evs @ [ev])"
  then consider "k < length evs" | "k = length evs" by fastforce
  then show "case (evs @ [ev]) ! k of
        FileCheckpoint a c e \<Rightarrow>
          c = cursor_for crc identity (published_bytes skipped (take k (evs @ [ev]))) \<and> e = encoding
      | _ \<Rightarrow> True"
  proof cases
    case 1
    then have "take k (evs @ [ev]) = take k evs" "(evs @ [ev]) ! k = evs ! k" by (simp_all add: nth_append)
    then show ?thesis using assms(1) 1 by (simp only: gzip_checkpoints_exact_def)
  next
    case 2
    then show ?thesis using assms(2) by (auto split: capture_event.splits)
  qed
qed

text \<open>What the framer held is published and acknowledged; only then an error or a stop is.\<close>

lemma finish_round:
  assumes "break_inv crc env identity encoding skipped st va s" "delivery_stops env"
    and "gzip_finish env st s = (rs, st1, s1)" "gzip_round crc env True (rs, st1, s1) = (ok, st2, s2)"
  shows "gzip_checkpoints_exact crc identity encoding skipped (sk_events s1)"
    "gzip_checkpoints_exact crc identity encoding skipped (sk_events s2)" "archive_inv identity encoding st2 s2"
proof -
  have arch: "archive_inv identity encoding st s" and exact: "gzip_checkpoints_exact crc identity encoding skipped (sk_events s)"
    using assms(1) by (simp_all add: break_inv_def)
  have "gzip_checkpoints_exact crc identity encoding skipped (sk_events s1)
    \<and> gzip_checkpoints_exact crc identity encoding skipped (sk_events s2) \<and> archive_inv identity encoding st2 s2"
  proof (cases "va_validated va")
    case True
    then obtain consumed where run: "running_inv crc env skipped consumed ([], st, s)"
      using assms(1) by (auto simp: break_inv_def)
    note f = gzip_finish_running [OF assms(3) run arch]
    note r = gzip_round_running [OF assms(4,2) f]
    show ?thesis using running_exact [OF f] running_exact [OF r] r by simp
  next
    case False
    then have fresh: "\<exists>m > 0. gz_framer st = framer_new m" "gz_unacknowledged st = []"
      "gz_acknowledged_offset st = gz_checkpointed_offset st"
      using assms(1) by (auto simp: break_inv_def)
    then have rs: "rs = []" "sk_events s1 = sk_events s" "gz_unacknowledged st1 = []"
      "gz_acknowledged_offset st1 = gz_checkpointed_offset st1" "gz_identity st1 = gz_identity st"
      "gz_encoding st1 = gz_encoding st"
      using assms(3) by (auto simp: gzip_finish_def loop_finish_def tick_clock_def framer_finish_def framer_new_def Let_def
          split: prod.splits)
    then have "s2 = s1" "st2 = st1"
      using assms(4) by (auto simp: gzip_round_def emit_records_def acknowledge_gzip_def acknowledge_decoded_def Let_def)
    then show ?thesis using rs exact arch by (simp add: archive_inv_def)
  qed
  then show "gzip_checkpoints_exact crc identity encoding skipped (sk_events s1)"
    "gzip_checkpoints_exact crc identity encoding skipped (sk_events s2)" "archive_inv identity encoding st2 s2"
    by simp_all
qed

text \<open>\<open>finish_gzip\<close> is that round, and what it reports after it.\<close>

lemma finish_gzip_round:
  assumes "gzip_finish env st s = (rs, st1, s1)" "gzip_round crc env True (rs, st1, s1) = (ok, st2, s2)"
  shows "finish_gzip crc env room (GzBreak error0 st stopping va s) =
    (if \<not> ok then (aborted (if fst (emit_records env rs s1) then 0 else framer_buffered_len (gz_framer st)), s2)
     else
       (case (if \<not> va_validated va \<and> \<not> stopping
              then Some ''gzip stream ended before durable decoded offset'' else error0) of
          Some e \<Rightarrow>
            (case emit env (CaptureError (gz_acquisition st2) e) s2 of
               (False, s4) \<Rightarrow> (aborted 0, s4)
             | (True, s4) \<Rightarrow> (completion_default, s4))
        | None \<Rightarrow>
            (completion_default, if stopping then try_emit room (CaptureStopped (gz_acquisition st2)) s2 else s2)))"
  using assms by (auto simp: finish_gzip_def gzip_round_def Let_def split: bool.splits prod.splits)

lemma finish_gzip_exact:
  assumes "case exit of
      GzReturn c s' \<Rightarrow> gzip_checkpoints_exact crc identity encoding skipped (sk_events s')
    | GzBreak e st' stopping' va' s' \<Rightarrow> break_inv crc env identity encoding skipped st' va' s'"
    and "delivery_stops env" "finish_gzip crc env room exit = (c, s)"
  shows "gzip_checkpoints_exact crc identity encoding skipped (sk_events s)"
proof (cases exit)
  case (GzReturn c' s')
  then show ?thesis using assms by (simp add: finish_gzip_def)
next
  case (GzBreak error0 st stopping va s0)
  obtain rs st1 s1 where fin: "gzip_finish env st s0 = (rs, st1, s1)" by (metis prod_cases3)
  obtain ok st2 s2 where rd: "gzip_round crc env True (rs, st1, s1) = (ok, st2, s2)" by (metis prod_cases3)
  have "break_inv crc env identity encoding skipped st va s0" using assms(1) GzBreak by simp
  note f = finish_round [OF this assms(2) fin rd]
  have err: "gzip_checkpoints_exact crc identity encoding skipped (sk_events s4)"
    if "emit env (CaptureError a e) s2 = (b, s4)" for a e b s4
    using emit_spec [OF that] f(2) exact_snoc [OF f(2), of "CaptureError a e"] by auto
  have stop: "gzip_checkpoints_exact crc identity encoding skipped (sk_events (try_emit room (CaptureStopped a) s2))" for a
    using f(2) exact_snoc [OF f(2), of "CaptureStopped a"] by (simp add: try_emit_def)
  show ?thesis
    using assms(3) f(2) err stop unfolding GzBreak finish_gzip_round [OF fin rd]
    by (auto split: if_splits option.splits prod.splits bool.splits)
qed

section \<open>A capture nothing interrupts\<close>

text \<open>A script of outputs and flushes alone.\<close>

definition undisturbed :: "gzip_event list \<Rightarrow> bool" where
  "undisturbed script \<longleftrightarrow> list_all (\<lambda>ev. ev = GzTick \<or> (\<exists>out. ev = GzOutput (Some out))) script"

text \<open>A cursor for the first bytes of what is decoded.\<close>

definition cursor_of_prefix ::
  "(byte list \<Rightarrow> nat) \<Rightarrow> file_identity option \<Rightarrow> byte list \<Rightarrow> file_resume_cursor option \<Rightarrow> bool" where
  "cursor_of_prefix crc identity decoded resume \<longleftrightarrow>
     (case resume of
        None \<Rightarrow> True
      | Some c \<Rightarrow> rc_offset c \<le> length decoded \<and> c = cursor_for crc identity (take (rc_offset c) decoded))"

lemma delivered_round:
  assumes "\<forall>i. ce_deliver env i" "gzip_round crc env force (rs, st, s) = (ok, st', s')"
  shows ok
proof -
  have e: "fst (emit env ev s)" for ev s using assms(1) by (simp add: emit_def Let_def)
  obtain sent s1 where em: "emit_records env rs s = (sent, s1)" by (metis surj_pair)
  have sent using em e [of "Records rs" s] by (cases "rs = []") (auto simp: emit_records_def)
  obtain b s2 where cp: "emit_gzip_checkpoint crc env (acknowledge_decoded st) s1 = (b, s2)" by (metis surj_pair)
  then have b using e unfolding emit_gzip_checkpoint_def by (metis fst_conv)
  then show ?thesis using assms(2) em \<open>sent\<close> cp
    by (auto simp: gzip_round_def acknowledge_gzip_def Let_def split: if_splits)
qed

lemma delivered_push:
  assumes "\<forall>i. ce_deliver env i" "push_decoded crc env bytes st va s = Some res"
  shows "\<exists>next_state. res = Inr next_state"
proof (cases "va_validated va \<and> bytes \<noteq> []")
  case False
  then show ?thesis using assms(2) by (auto simp: push_decoded_def)
next
  case True
  then obtain rs st1 s1 where pu: "gzip_push env bytes st s = Some (rs, st1, s1)"
    using assms(2) by (auto simp: push_decoded_def split: option.splits)
  obtain ok st2 s2 where rd: "gzip_round crc env False (rs, st1, s1) = (ok, st2, s2)" by (metis prod_cases3)
  show ?thesis using delivered_round [OF assms(1) rd] True pu rd assms(2) by (auto simp: push_decoded_def)
qed

lemma delivered_take:
  assumes "\<forall>i. ce_deliver env i" "take_bytes crc env resume bytes st stopping va s = Some res"
    and "gzip_inv crc env identity encoding resume skipped consumed st va s"
    and "va_validated va \<or> cursor_of_prefix crc identity (consumed @ bytes @ rest) resume"
  shows "\<exists>next_state. res = Inr next_state"
proof (cases "va_validated va")
  case True
  then show ?thesis using delivered_push [OF assms(1)] assms(2) by (simp add: take_bytes_def)
next
  case False
  then have v: "validating_inv resume consumed st va s" using assms(3) by (simp add: gzip_inv_def)
  obtain cursor where cursor: "resume = Some cursor" using v by (auto simp: validating_inv_def split: option.splits)
  let ?n = "min (rc_offset cursor - va_skipped va) (length bytes)"
  obtain bytes1 va1 where skip: "skip_bytes (rc_offset cursor) bytes va = (bytes1, va1)" by (metis surj_pair)
  have va1: "va_hasher va1 = consumed @ take ?n bytes" "va_tail va1 = keep_last file_evidence_bytes (consumed @ take ?n bytes)"
    "va_skipped va1 = length (consumed @ take ?n bytes)"
    using v skip by (auto simp: skip_bytes_def Let_def validating_inv_def keep_last_append)
  show ?thesis
  proof (cases "va_skipped va1 = rc_offset cursor")
    case short: False
    then show ?thesis using delivered_push [OF assms(1)] assms(2) False cursor skip
      by (simp add: take_bytes_def resume_point_def Let_def)
  next
    case True
    have pre: "take (rc_offset cursor) (consumed @ bytes @ rest) = consumed @ take ?n bytes"
    proof -
      have len: "length (consumed @ take ?n bytes) = rc_offset cursor" using True va1(3) by simp
      have "consumed @ bytes @ rest = (consumed @ take ?n bytes) @ drop ?n bytes @ rest" by simp
      then show ?thesis using len by (metis append_eq_conv_conj)
    qed
    have c: "cursor = cursor_for crc identity (consumed @ take ?n bytes)"
      using assms(4) False cursor pre by (auto simp: cursor_of_prefix_def)
    have match: "crc (va_hasher va1) = rc_content_crc32 cursor" "va_tail va1 = rc_evidence cursor"
      by (simp_all add: va1 c [THEN arg_cong [of _ _ rc_content_crc32]] c [THEN arg_cong [of _ _ rc_evidence]]
          cursor_for_def)
    let ?st = "st\<lparr>gz_content_hasher := va_hasher va1\<rparr>"
    obtain b s1 where cp: "emit_gzip_checkpoint crc env ?st s = (b, s1)" by (metis surj_pair)
    have b using cp assms(1) by (auto simp: emit_gzip_checkpoint_def emit_def Let_def split: if_splits)
    then show ?thesis using delivered_push [OF assms(1)] assms(2) False cursor skip True match cp
      by (simp add: take_bytes_def resume_point_def Let_def)
  qed
qed

lemma gzip_loop_complete:
  assumes "\<forall>i. ce_deliver env i" "memchr_ok (ce_memchr env)"
    and "gzip_inv crc env identity encoding resume skipped consumed st va s"
    and "va_validated va \<or> skipped = take (resume_point resume) (consumed @ decoded_bytes (script_outputs script))
        \<and> cursor_of_prefix crc identity (consumed @ decoded_bytes (script_outputs script)) resume"
    and "undisturbed script" "decoded_run (script_outputs script)" "GzipComplete \<in> set (script_outputs script)"
    and "gzip_loop crc env resume st stopping va s script = Some exit"
  shows "\<exists>st' va' s'. exit = GzBreak None st' stopping va' s' \<and> va_validated va'
    \<and> running_inv crc env skipped (consumed @ decoded_bytes (script_outputs script)) ([], st', s')
    \<and> archive_inv identity encoding st' s'"
  using assms(3-8)
proof (induction script arbitrary: consumed st va s)
  case Nil
  then show ?case by simp
next
  case (Cons ev script)
  have stops: "delivery_stops env" using assms(1) by (simp add: delivery_stops_def)
  note inv = Cons.prems(1)
  have rest: "undisturbed script" using Cons.prems(3) by (simp add: undisturbed_def)
  consider (tick) "ev = GzTick" | (out) out where "ev = GzOutput (Some out)"
    using Cons.prems(3) by (auto simp: undisturbed_def)
  then show ?case
  proof cases
    case tick
    then have valid: "va_validated va" using Cons.prems(6) by (simp split: if_splits)
    then have run: "running_inv crc env skipped consumed ([], st, s)" "archive_inv identity encoding st s"
      using inv by (simp_all add: gzip_inv_def)
    obtain rs st1 s1 where fl: "gzip_flush env st s = (rs, st1, s1)" by (metis prod_cases3)
    obtain ok st2 s2 where rd: "gzip_round crc env True (rs, st1, s1) = (ok, st2, s2)" by (metis prod_cases3)
    note f = gzip_flush_running [OF fl run]
    note r = gzip_round_running [OF rd stops f]
    have ok using delivered_round [OF assms(1) rd] .
    then show ?thesis
      using Cons.IH [of consumed st2 va s2] Cons.prems rest r valid tick fl rd by (simp add: gzip_inv_def)
  next
    case out
    show ?thesis
    proof (cases "\<exists>bytes. out = GzipBytes bytes")
      case False
      then have o: "out = GzipComplete" "script_outputs script = []"
        using Cons.prems(4,5) out by (cases out; auto)+
      have "va_validated va"
      proof (rule ccontr)
        assume "\<not> va_validated va"
        then have "length consumed < resume_point resume" "resume_point resume \<le> length consumed"
          using inv Cons.prems(2) out o
          by (auto simp: gzip_inv_def validating_inv_def cursor_of_prefix_def resume_point_def split: option.splits)
        then show False by simp
      qed
      then show ?thesis using Cons.prems(6) out o inv
        by (intro exI [of _ st] exI [of _ va] exI [of _ s]) (auto simp: gzip_inv_def)
    next
      case True
      then obtain bytes where bytes: "out = GzipBytes bytes" by blast
      let ?d = "decoded_bytes (script_outputs script)"
      obtain res where res: "take_bytes crc env resume bytes st stopping va s = Some res"
        using Cons.prems(6) out bytes by (auto split: option.splits)
      have "\<exists>next_state. res = Inr next_state"
        using delivered_take [OF assms(1) res inv, of ?d] Cons.prems(2) out bytes by auto
      then obtain st1 va1 s1 where n: "res = Inr (st1, va1, s1)" by auto
      have tb: "gzip_inv crc env identity encoding resume skipped (consumed @ bytes) st1 va1 s1"
        "va_validated va1 \<or> skipped = take (resume_point resume) ((consumed @ bytes) @ ?d)"
        using take_bytes_inv [OF inv assms(2) stops, of bytes ?d stopping] Cons.prems(2) out bytes res n by auto
      have pre: "va_validated va1 \<or> skipped = take (resume_point resume) ((consumed @ bytes) @ ?d)
          \<and> cursor_of_prefix crc identity ((consumed @ bytes) @ ?d) resume"
      proof (cases "va_validated va")
        case True
        then have "va_validated va1"
          using res n push_decoded_inv [OF inv assms(2) stops, of bytes] by (auto simp: take_bytes_def)
        then show ?thesis by simp
      next
        case False
        then show ?thesis using tb(2) Cons.prems(2) out bytes by auto
      qed
      show ?thesis
        using Cons.IH [OF tb(1) pre rest] Cons.prems(4-6) out bytes res n by simp
    qed
  qed
qed
section \<open>Whole captures\<close>

text \<open>A capture of an archive whose fingerprint the decoder published: it refuses a replaced one, or
  starts, and is then the loop and its end.\<close>

lemma run_gzip_ready:
  assumes "run_gzip_file crc env limits error_id aq room resume0
      (FirstOutput stopping (Some (GzipReady identity encoding))) script = Some (c, s)"
  obtains (refused) "\<exists>ev. (\<forall>a cur e. ev \<noteq> FileCheckpoint a cur e) \<and> (sk_events s = [] \<or> sk_events s = [ev])"
  | (unstarted) "sk_events s = []"
  | (uncheckpointed) "sk_events s = [Boundary aq Started]"
  | (looped) resume st s1 s2 exit where "resume = map_option fst resume0"
      "st = gzip_start identity encoding aq (cl_maximum_record_bytes limits) resume"
      "emit env (Boundary aq Started) new_sink = (True, s1)"
      "(if resume_point resume = 0 then emit_gzip_checkpoint crc env st s1 else (True, s1)) = (True, s2)"
      "gzip_loop crc env resume st stopping (validation_start resume) s2 script = Some exit"
      "finish_gzip crc env room exit = (c, s)"
proof -
  let ?resume = "map_option fst resume0"
  let ?st = "gzip_start identity encoding aq (cl_maximum_record_bytes limits) ?resume"
  obtain b1 s1 where em: "emit env (Boundary aq Started) new_sink = (b1, s1)" by (metis surj_pair)
  obtain b2 s2 where cp: "(if resume_point ?resume = 0 then emit_gzip_checkpoint crc env ?st s1 else (True, s1)) = (b2, s2)"
    by (metis surj_pair)
  have fresh: "sk_events new_sink = []" by (simp add: new_sink_def)
  have s1: "sk_events s1 = (if b1 then [Boundary aq Started] else [])" using emit_spec [OF em] fresh by auto
  have s2: "\<not> b2 \<Longrightarrow> sk_events s2 = sk_events s1"
    using cp emit_spec by (auto simp: emit_gzip_checkpoint_def split: if_splits)
  have note_event: "sk_events (snd (emit env ev new_sink)) \<in> {[], [ev]}" for ev
    using emit_spec [of env ev new_sink] fresh by (cases "emit env ev new_sink") auto
  show thesis
  proof (cases "case resume0 of None \<Rightarrow> False | Some (cursor, e) \<Rightarrow> \<not> (e = encoding \<and> rc_identity cursor = identity)")
    case True
    then have s: "s = snd (emit env (CaptureError error_id
        ''gzip archive changed; create a new source identity to capture the replacement'') new_sink)"
      using assms by (simp add: run_gzip_file_def)
    show thesis
    proof (rule refused, intro exI conjI)
      show "sk_events s = [] \<or> sk_events s = [CaptureError error_id
        ''gzip archive changed; create a new source identity to capture the replacement'']"
        using note_event s by auto
    qed simp
  next
    case False
    then have run: "(case (b1, s1) of
          (False, s1) \<Rightarrow> Some (aborted 0, s1)
        | (True, s1) \<Rightarrow>
            (case (b2, s2) of
               (False, s2) \<Rightarrow> Some (aborted 0, s2)
             | (True, s2) \<Rightarrow>
                 map_option (finish_gzip crc env room)
                   (gzip_loop crc env ?resume ?st stopping (validation_start ?resume) s2 script))) = Some (c, s)"
      using assms False cp by (cases b1) (simp_all add: run_gzip_file_def Let_def em split del: if_split)
    show thesis
    proof (cases b1)
      case False
      then show thesis using run s1 unstarted by simp
    next
      case started: True
      show thesis
      proof (cases b2)
        case False
        then show thesis using run started s1 s2 uncheckpointed by simp
      next
        case True
        then obtain exit where "gzip_loop crc env ?resume ?st stopping (validation_start ?resume) s2 script = Some exit"
          "finish_gzip crc env room exit = (c, s)"
          using run started by auto
        then show thesis using looped [OF refl refl] em cp started True by simp
      qed
    qed
  qed
qed

lemma gzip_start_inv:
  assumes "limits_valid limits" "delivery_stops env"
    and "case resume of None \<Rightarrow> True | Some c \<Rightarrow> length (rc_evidence c) \<le> rc_offset c"
    and "st = gzip_start identity encoding aq (cl_maximum_record_bytes limits) resume"
    and "emit env (Boundary aq Started) new_sink = (True, s1)"
    and "(if resume_point resume = 0 then emit_gzip_checkpoint crc env st s1 else (True, s1)) = (True, s2)"
    and "resume_point resume = 0 \<Longrightarrow> skipped = []"
  shows "gzip_inv crc env identity encoding resume skipped [] st (validation_start resume) s2"
proof -
  have positive: "0 < cl_maximum_record_bytes limits" using assms(1) by (simp add: limits_valid_def)
  have s1: "sk_events s1 = [Boundary aq Started]" using emit_spec [OF assms(5)] by (simp add: new_sink_def)
  have arch: "archive_inv identity encoding st s1" using s1 assms(4) by (simp add: archive_inv_def gzip_start_def names_archive_def)
  show ?thesis
  proof (cases "resume_point resume = 0")
    case True
    have cp: "emit_gzip_checkpoint crc env st s1 = (True, s2)" using assms(6) True by simp
    have "gz_evidence st = []" using assms(3,4) True by (auto simp: gzip_start_def resume_point_def split: option.splits)
    then have run: "running_inv crc env skipped [] ([], st, s1)"
      using s1 assms(4,7) True positive
      by (simp add: running_inv_def file_inv_def holds_def plain_sink_def published_bytes_def gzip_start_def
          checkpoints_exact_def as_file_def keep_last_def)
    have pub: "fl_content_hasher (as_file st) = published_bytes skipped (sk_events (plain_sink s1))"
      using s1 assms(4,7) True by (simp add: plain_sink_def published_bytes_def gzip_start_def)
    have "file_inv crc env skipped ([], as_file st, plain_sink s2)"
      using emit_checkpoint_inv [OF checkpoint_plain [OF cp] assms(2)] run pub by (simp add: running_inv_def)
    then have "running_inv crc env skipped [] ([], st, s2)" using run by (simp add: running_inv_def)
    then show ?thesis using checkpoint_archive [OF cp arch] True by (simp add: gzip_inv_def validation_start_def)
  next
    case False
    then have "s2 = s1" using assms(6) by simp
    then show ?thesis using False s1 arch positive assms(4)
      by (auto simp: gzip_inv_def validation_start_def validating_inv_def gzip_start_def keep_last_def
          resume_point_def split: option.splits)
  qed
qed
text \<open>What \<open>select!\<close> can yield, over the script alone: \<open>remaining\<close> decoded bytes are to be skipped, the
  flush tick is waited for once none is, a stop is waited for once, and the script ends the loop.\<close>

fun admissible :: "nat \<Rightarrow> bool \<Rightarrow> gzip_event list \<Rightarrow> bool" where
  "admissible remaining stopping [] = False"
| "admissible remaining stopping (GzTick # script) = (remaining = 0 \<and> admissible remaining stopping script)"
| "admissible remaining stopping (GzStopRequested # script) = (\<not> stopping \<and> admissible remaining True script)"
| "admissible remaining stopping (GzOutput (Some (GzipBytes bytes)) # script)
     = admissible (remaining - length bytes) stopping script"
| "admissible remaining stopping (ev # script) = True"

lemma take_bytes_reaches:
  assumes "take_bytes crc env resume bytes st stopping va s = Some (Inr (st', va', s'))"
    and "\<not> va_validated va" "va_validated va'"
  shows "resume_point resume \<le> va_skipped va + length bytes"
proof -
  obtain bytes1 va1 where skip: "skip_bytes (resume_point resume) bytes va = (bytes1, va1)" by (metis surj_pair)
  have va1: "va_skipped va1 = va_skipped va + min (resume_point resume - va_skipped va) (length bytes)"
    "va_validated va1 = va_validated va"
    using skip by (auto simp: skip_bytes_def Let_def)
  have keeps: "va'' = va1'" if "push_decoded crc env bs st1 va1' s1 = Some (Inr (st'', va'', s''))" for bs st1 va1' s1 st'' va'' s''
    using that by (auto simp: push_decoded_def split: if_splits option.splits prod.splits bool.splits)
  have "va_skipped va1 = resume_point resume"
    using assms skip va1 by (auto simp: take_bytes_def Let_def split: if_splits dest!: keeps)
  then show ?thesis using va1 by simp
qed

lemma gzip_loop_total:
  assumes "memchr_ok (ce_memchr env)" "delivery_stops env"
    and "gzip_inv crc env identity encoding resume skipped consumed st va s"
    and "va_validated va \<or> skipped = take (resume_point resume) (consumed @ decoded_bytes (script_outputs script))"
    and "admissible (if va_validated va then 0 else resume_point resume - length consumed) stopping script"
  shows "gzip_loop crc env resume st stopping va s script \<noteq> None"
  using assms(3-5)
proof (induction script arbitrary: consumed st stopping va s)
  case Nil
  then show ?case by simp
next
  case (Cons ev script)
  note inv = Cons.prems(1)
  consider (tick) "ev = GzTick" | (stop) "ev = GzStopRequested" | (bytes) bytes where "ev = GzOutput (Some (GzipBytes bytes))"
    | (other) "ev \<noteq> GzTick" "ev \<noteq> GzStopRequested" "\<forall>bytes. ev \<noteq> GzOutput (Some (GzipBytes bytes))"
    by blast
  then show ?case
  proof cases
    case tick
    have valid: "va_validated va"
    proof (rule ccontr)
      assume "\<not> va_validated va"
      then show False using inv Cons.prems(3) tick by (simp add: gzip_inv_def validating_inv_def)
    qed
    then have run: "running_inv crc env skipped consumed ([], st, s)" "archive_inv identity encoding st s"
      using inv by (simp_all add: gzip_inv_def)
    obtain rs st1 s1 where fl: "gzip_flush env st s = (rs, st1, s1)" by (metis prod_cases3)
    obtain ok st2 s2 where rd: "gzip_round crc env True (rs, st1, s1) = (ok, st2, s2)" by (metis prod_cases3)
    note f = gzip_flush_running [OF fl run]
    note r = gzip_round_running [OF rd assms(2) f]
    have "gzip_inv crc env identity encoding resume skipped consumed st2 va s2"
      using r valid by (simp add: gzip_inv_def)
    then show ?thesis using Cons.IH [of consumed st2 va s2 stopping] valid Cons.prems(3) tick fl rd
      by (cases ok) simp_all
  next
    case stop
    then show ?thesis using Cons.IH [OF inv, of True] Cons.prems(2,3) by simp
  next
    case bytes
    note tb = take_bytes_inv [OF inv assms(1,2), of bytes "decoded_bytes (script_outputs script)" stopping]
    obtain res where res: "take_bytes crc env resume bytes st stopping va s = Some res"
      using tb Cons.prems(2) bytes by (auto split: option.splits)
    show ?thesis
    proof (cases res)
      case (Inl exit)
      then show ?thesis using res bytes by simp
    next
      case (Inr next_state)
      obtain st1 va1 s1 where n: "next_state = (st1, va1, s1)" by (metis prod_cases3)
      have next_inv: "gzip_inv crc env identity encoding resume skipped (consumed @ bytes) st1 va1 s1"
        "va_validated va1 \<or> skipped = take (resume_point resume)
           ((consumed @ bytes) @ decoded_bytes (script_outputs script))"
        using tb res Inr n Cons.prems(2) bytes by simp_all
      have left: "(if va_validated va then 0 else resume_point resume - length consumed) - length bytes
          = (if va_validated va1 then 0 else resume_point resume - length (consumed @ bytes))"
      proof (cases "va_validated va")
        case True
        then have "va_validated va1"
          using res Inr n push_decoded_inv [OF inv assms(1,2), of bytes] by (auto simp: take_bytes_def)
        then show ?thesis using True by simp
      next
        case False
        then have "va_skipped va = length consumed" using inv by (simp add: gzip_inv_def validating_inv_def)
        then show ?thesis
          using take_bytes_reaches [of crc env resume bytes st stopping va s st1 va1 s1] res Inr n False by auto
      qed
      show ?thesis using Cons.IH [OF next_inv] Cons.prems(3) bytes res Inr n left by simp
    qed
  next
    case other
    then show ?thesis by (cases ev) (auto split: option.splits gzip_output.splits)
  qed
qed
lemma gzip_finish_empties:
  assumes "gzip_finish env st s = (rs, st', s')"
  shows "fr_pending (gz_framer st') = []"
  using assms
  by (auto simp: gzip_finish_def loop_finish_def tick_clock_def framer_finish_def charge_cpu_def Let_def
      split: prod.splits if_splits list.splits)

lemma acknowledge_gzip_framer:
  "acknowledge_gzip crc env force st s = (b, st', s') \<Longrightarrow> gz_framer st' = gz_framer st"
  by (auto simp: acknowledge_gzip_def acknowledge_decoded_def Let_def split: if_splits bool.splits prod.splits)

lemma gzip_round_framer:
  "gzip_round crc env force (rs, st, s) = (b, st', s') \<Longrightarrow> gz_framer st' = gz_framer st"
  by (auto simp: gzip_round_def split: prod.splits bool.splits dest: acknowledge_gzip_framer)

text \<open>The end of a capture nothing interrupted: everything taken in has been published.\<close>

lemma finish_gzip_complete:
  assumes "\<forall>i. ce_deliver env i" "va_validated va"
    and "running_inv crc env skipped consumed ([], st, s)" "archive_inv identity encoding st s"
  shows "\<exists>s'. finish_gzip crc env room (GzBreak None st False va s) = (completion_default, s')
    \<and> published_bytes skipped (sk_events s') = consumed
    \<and> list_all (names_archive identity encoding) (sk_events s')"
proof -
  have stops: "delivery_stops env" using assms(1) by (simp add: delivery_stops_def)
  obtain rs st1 s1 where fin: "gzip_finish env st s = (rs, st1, s1)" by (metis prod_cases3)
  obtain ok st2 s2 where rd: "gzip_round crc env True (rs, st1, s1) = (ok, st2, s2)" by (metis prod_cases3)
  note f = gzip_finish_running [OF fin assms(3,4)]
  note r = gzip_round_running [OF rd stops f]
  have ok using delivered_round [OF assms(1) rd] .
  have empty: "fr_pending (gz_framer st2) = []" using gzip_finish_empties [OF fin] gzip_round_framer [OF rd] by simp
  have "\<not> dead env (plain_sink s2)" using assms(1) by (auto simp: dead_def)
  then have "holds skipped [] (as_file st2) (plain_sink s2)" using r(1) by (simp add: running_inv_def file_inv_def)
  moreover have "gz_content_hasher st2 @ gz_unacknowledged st2 = consumed" using r(1) by (simp add: running_inv_def)
  ultimately have "published_bytes skipped (sk_events s2) = consumed"
    using empty by (simp add: holds_def Let_def plain_sink_def published_bytes_plain)
  then show ?thesis
    using \<open>ok\<close> assms(2) r(2) unfolding finish_gzip_round [OF fin rd] by (simp add: archive_inv_def)
qed
lemma decoded_prefix_wf:
  "cursor_of_prefix crc identity decoded resume \<Longrightarrow>
     (case resume of None \<Rightarrow> True | Some c \<Rightarrow> length (rc_evidence c) \<le> rc_offset c)"
  by (auto simp: cursor_of_prefix_def cursor_for_def length_keep_last min_def
      dest!: arg_cong [of _ _ "\<lambda>c. length (rc_evidence c)"] split: option.splits)

lemma emit_delivered:
  "\<forall>i. ce_deliver env i \<Longrightarrow> \<exists>s'. emit env ev s = (True, s')"
  by (simp add: emit_def Let_def)

lemma admissible_start:
  assumes "admissible (resume_point resume) stopping script"
  shows "admissible (if va_validated (validation_start resume) then 0 else resume_point resume - length []) stopping script"
  using assms by (cases "resume_point resume = 0") (simp_all add: validation_start_def)

lemma gzip_run_complete:
  assumes "\<forall>i. ce_deliver env i" "memchr_ok (ce_memchr env)" "limits_valid limits"
    and "decoded_run outs" "GzipComplete \<in> set outs"
    and "undisturbed script" "script_outputs script = outs"
    and "admissible (resume_point (map_option fst resume0)) False script"
    and "map_option snd resume0 \<in> {None, Some encoding}"
    and "cursor_of_prefix crc identity (decoded_bytes outs) (map_option fst resume0)"
  shows "\<exists>s. run_gzip_file crc env limits error_id aq room resume0
        (FirstOutput False (Some (GzipReady identity encoding))) script = Some (completion_default, s)
    \<and> published_bytes (take (resume_point (map_option fst resume0)) (decoded_bytes outs)) (sk_events s) = decoded_bytes outs
    \<and> list_all (names_archive identity encoding) (sk_events s)"
proof -
  let ?resume = "map_option fst resume0"
  let ?d = "decoded_bytes outs"
  let ?skipped = "take (resume_point ?resume) ?d"
  let ?st = "gzip_start identity encoding aq (cl_maximum_record_bytes limits) ?resume"
  have stops: "delivery_stops env" using assms(1) by (simp add: delivery_stops_def)
  have accepted: "\<not> (case resume0 of None \<Rightarrow> False
      | Some (cursor, e) \<Rightarrow> \<not> (e = encoding \<and> rc_identity cursor = identity))"
    using assms(9,10) by (auto simp: cursor_of_prefix_def split: option.splits
        dest!: arg_cong [of _ _ rc_identity])
  obtain s1 where em: "emit env (Boundary aq Started) new_sink = (True, s1)"
    using emit_delivered [OF assms(1)] by blast
  obtain s' where "emit_gzip_checkpoint crc env ?st s1 = (True, s')"
    using emit_delivered [OF assms(1)] unfolding emit_gzip_checkpoint_def by blast
  then obtain s2 where cp: "(if resume_point ?resume = 0 then emit_gzip_checkpoint crc env ?st s1 else (True, s1)) = (True, s2)"
    by (cases "resume_point ?resume = 0") simp_all
  have run: "run_gzip_file crc env limits error_id aq room resume0
        (FirstOutput False (Some (GzipReady identity encoding))) script
      = map_option (finish_gzip crc env room) (gzip_loop crc env ?resume ?st False (validation_start ?resume) s2 script)"
    using accepted cp by (simp add: run_gzip_file_def Let_def em split del: if_split)
  have inv: "gzip_inv crc env identity encoding ?resume ?skipped [] ?st (validation_start ?resume) s2"
    using gzip_start_inv [OF assms(3) stops decoded_prefix_wf [OF assms(10)] refl em cp] by simp
  have "gzip_loop crc env ?resume ?st False (validation_start ?resume) s2 script \<noteq> None"
    by (rule gzip_loop_total [OF assms(2) stops inv _ admissible_start [OF assms(8)]]) (use assms(7) in simp)
  then obtain exit where loop: "gzip_loop crc env ?resume ?st False (validation_start ?resume) s2 script = Some exit"
    by blast
  have "\<exists>st' va' s'. exit = GzBreak None st' False va' s' \<and> va_validated va'
      \<and> running_inv crc env ?skipped ([] @ decoded_bytes (script_outputs script)) ([], st', s')
      \<and> archive_inv identity encoding st' s'"
    by (rule gzip_loop_complete [OF assms(1,2) inv _ assms(6) _ _ loop]) (use assms(4,5,7,10) in simp_all)
  then obtain st' va' s' where exit: "exit = GzBreak None st' False va' s'" "va_validated va'"
    "running_inv crc env ?skipped ?d ([], st', s')" "archive_inv identity encoding st' s'"
    using assms(7) by auto
  show ?thesis using finish_gzip_complete [OF assms(1) exit(2-4)] run loop exit(1) by simp
qed

lemma gzip_run_exact:
  assumes "memchr_ok (ce_memchr env)" "limits_valid limits" "delivery_stops env"
    and "case map_option fst resume0 of None \<Rightarrow> True | Some c \<Rightarrow> length (rc_evidence c) \<le> rc_offset c"
    and "run_gzip_file crc env limits error_id aq room resume0
        (FirstOutput stopping (Some (GzipReady identity encoding))) script = Some (c, s)"
  shows "gzip_checkpoints_exact crc identity encoding
      (take (resume_point (map_option fst resume0)) (decoded_bytes (script_outputs script))) (sk_events s)"
  using assms(5)
proof (cases rule: run_gzip_ready)
  case refused
  then show ?thesis by (auto simp: gzip_checkpoints_exact_def split: capture_event.splits)
next
  case unstarted
  then show ?thesis by (simp add: gzip_checkpoints_exact_def)
next
  case uncheckpointed
  then show ?thesis by (simp add: gzip_checkpoints_exact_def)
next
  case (looped resume st s1 s2 exit)
  let ?skipped = "take (resume_point resume) (decoded_bytes (script_outputs script))"
  have inv: "gzip_inv crc env identity encoding resume ?skipped [] st (validation_start resume) s2"
    using gzip_start_inv [OF assms(2,3) _ looped(2,3,4)] assms(4) looped(1) by simp
  note e = gzip_loop_exact [OF assms(1,3) inv _ looped(5)]
  have "gzip_checkpoints_exact crc identity encoding ?skipped (sk_events s)"
    by (rule finish_gzip_exact [OF e assms(3) looped(6)]) simp
  then show ?thesis using looped(1) by simp
qed
lemma gzip_run_returns:
  assumes "memchr_ok (ce_memchr env)" "limits_valid limits" "delivery_stops env"
    and "case map_option fst resume0 of None \<Rightarrow> True | Some c \<Rightarrow> length (rc_evidence c) \<le> rc_offset c"
    and "admissible (resume_point (map_option fst resume0)) stopping script"
  shows "\<exists>c s. run_gzip_file crc env limits error_id aq room resume0
        (FirstOutput stopping (Some (GzipReady identity encoding))) script = Some (c, s)"
proof -
  let ?resume = "map_option fst resume0"
  let ?st = "gzip_start identity encoding aq (cl_maximum_record_bytes limits) ?resume"
  let ?skipped = "take (resume_point ?resume) (decoded_bytes (script_outputs script))"
  obtain b1 s1 where em: "emit env (Boundary aq Started) new_sink = (b1, s1)" by (metis surj_pair)
  obtain b2 s2 where cp: "(if resume_point ?resume = 0 then emit_gzip_checkpoint crc env ?st s1 else (True, s1)) = (b2, s2)"
    by (metis surj_pair)
  let ?refused = "case resume0 of None \<Rightarrow> False | Some (cursor, e) \<Rightarrow> \<not> (e = encoding \<and> rc_identity cursor = identity)"
  consider (refused) ?refused | (failed) "\<not> ?refused" "\<not> (b1 \<and> b2)" | (started) "\<not> ?refused" "b1 \<and> b2" by blast
  then show ?thesis
  proof cases
    case refused
    then show ?thesis by (simp add: run_gzip_file_def)
  next
    case failed
    then show ?thesis using cp
      by (cases b1) (simp_all add: run_gzip_file_def Let_def em split del: if_split)
  next
    case started
    then have em1: "emit env (Boundary aq Started) new_sink = (True, s1)"
      and cp1: "(if resume_point ?resume = 0 then emit_gzip_checkpoint crc env ?st s1 else (True, s1)) = (True, s2)"
      using em cp by simp_all
    have inv: "gzip_inv crc env identity encoding ?resume ?skipped [] ?st (validation_start ?resume) s2"
      using gzip_start_inv [OF assms(2,3,4) refl em1 cp1] by simp
    have "gzip_loop crc env ?resume ?st stopping (validation_start ?resume) s2 script \<noteq> None"
      by (rule gzip_loop_total [OF assms(1,3) inv _ admissible_start [OF assms(5)]]) simp
    then obtain exit where loop: "gzip_loop crc env ?resume ?st stopping (validation_start ?resume) s2 script = Some exit"
      by blast
    obtain c s where fin: "finish_gzip crc env room exit = (c, s)" by (metis surj_pair)
    show ?thesis
      using cp1 started(1) by (simp add: run_gzip_file_def Let_def em1 loop fin split del: if_split)
  qed
qed

section \<open>Properties\<close>

text \<open>C20. Every durable checkpoint of a compressed file names the archive's fingerprint and exactly the
  decoded bytes published before it, on top of the prefix the capture resumed after: its offset, its
  evidence and its checksum are those of these bytes, whatever the decoder yields, wherever the
  capture is stopped, cancelled or abandoned by its consumer, and the capture always returns.\<close>

theorem gzip_checkpoints_cover_published:
  assumes "memchr_ok (ce_memchr env)" "limits_valid limits" "delivery_stops env"
    and "case map_option fst resume0 of None \<Rightarrow> True | Some c \<Rightarrow> length (rc_evidence c) \<le> rc_offset c"
    and "admissible (resume_point (map_option fst resume0)) stopping script"
  shows "\<exists>c s. run_gzip_file crc env limits error_id aq room resume0
        (FirstOutput stopping (Some (GzipReady identity encoding))) script = Some (c, s)
    \<and> gzip_checkpoints_exact crc identity encoding
        (take (resume_point (map_option fst resume0)) (decoded_bytes (script_outputs script))) (sk_events s)"
  using gzip_run_returns [OF assms] gzip_run_exact [OF assms(1-4)] by blast

theorem gzip_checkpoints_cover_published_witness:
  "\<exists>c s. run_gzip_file length \<lparr>ce_memchr = find_byte, ce_deliver = \<lambda>i. i < 6, ce_clock = \<lambda>_. ((\<lambda>_. 0), 0)\<rparr>
      \<lparr>cl_channel_capacity = 8, cl_read_chunk_bytes = 4, cl_maximum_record_bytes = 2,
        cl_poll_interval = 5, cl_partial_flush_interval = 5, cl_history_capacity = 1\<rparr> [9] [1] True
      (Some (cursor_for length None [97, LF], Gzip 20 7 [1]))
      (FirstOutput False (Some (GzipReady None (Gzip 20 7 [1]))))
      [GzOutput (Some (GzipBytes [97])), GzOutput (Some (GzipBytes [LF, 98, LF, 99])), GzTick, GzStopRequested,
       GzOutput (Some GzipStopped)] = Some (c, s)
    \<and> gzip_checkpoints_exact length None (Gzip 20 7 [1]) [97, LF] (sk_events s)"
  using gzip_checkpoints_cover_published [of "\<lparr>ce_memchr = find_byte, ce_deliver = \<lambda>i. i < 6,
        ce_clock = \<lambda>_. ((\<lambda>_. 0), 0)\<rparr>" "\<lparr>cl_channel_capacity = 8, cl_read_chunk_bytes = 4,
        cl_maximum_record_bytes = 2, cl_poll_interval = 5, cl_partial_flush_interval = 5, cl_history_capacity = 1\<rparr>"
      "Some (cursor_for length None [97, LF], Gzip 20 7 [1])" False
      "[GzOutput (Some (GzipBytes [97])), GzOutput (Some (GzipBytes [LF, 98, LF, 99])), GzTick, GzStopRequested,
       GzOutput (Some GzipStopped)]" length "[9]" "[1]" True None "Gzip 20 7 [1]"]
  by (simp add: memchr_ok_find_byte limits_valid_def delivery_stops_def cursor_for_def resume_point_def keep_last_def
      file_evidence_bytes_def)

text \<open>C21. A decoder that ran to the end of the archive and a capture nothing interrupts publish, after
  the prefix it resumed from, exactly the decoded content: no byte is lost, repeated or reordered, no
  error is reported, and the fingerprint the checkpoints name was found both before and after decoding.\<close>

theorem gzip_capture_publishes_archive:
  assumes "\<forall>i. ce_deliver env i" "memchr_ok (ce_memchr env)" "limits_valid limits"
    and "gzip_decoder crc io = Some (GzipReady identity encoding # outs)" "GzipComplete \<in> set outs"
    and "undisturbed script" "script_outputs script = outs"
    and "admissible (resume_point (map_option fst resume0)) False script"
    and "map_option snd resume0 \<in> {None, Some encoding}"
    and "cursor_of_prefix crc identity (decoded_bytes outs) (map_option fst resume0)"
  shows "\<exists>s. run_gzip_file crc env limits error_id aq room resume0
        (FirstOutput False (Some (GzipReady identity encoding))) script = Some (completion_default, s)
    \<and> fingerprint_std crc (di_first io) = Some (Inr encoding) \<and> fingerprinted crc encoding (di_rounds io)
    \<and> published_bytes (take (resume_point (map_option fst resume0)) (decoded_bytes outs)) (sk_events s)
        = decoded_bytes outs
    \<and> list_all (names_archive identity encoding) (sk_events s)"
proof -
  have complete: "GzipComplete \<in> set (GzipReady identity encoding # outs)" using assms(5) by simp
  obtain run: "decoded_run outs" "fingerprint_std crc (di_first io) = Some (Inr encoding)"
    "fingerprinted crc encoding (di_rounds io)"
    using gzip_decoder_outputs [OF assms(4) complete] by auto
  then show ?thesis
    using gzip_run_complete [OF assms(1-3) run(1) assms(5-10)] by blast
qed

definition sample_archive :: decoder_io where
  "sample_archive =
    (let fp = \<lparr>fp_seek = None, fp_len = Inr 20, fp_reads = [FingerprintRead [7, 8], FingerprintRead []]\<rparr>;
         r = \<lparr>dr_read = Inr [97, LF, 98], dr_signal = GzipRunning, dr_send = [ChannelFull GzipRunning, Sent],
              dr_after = GzipRunning, dr_last = [Sent], dr_final = fp\<rparr>
     in \<lparr>di_metadata = Inr (True, None), di_clone = None, di_first = fp, di_rewind = None,
         di_signal = GzipRunning, di_stopped = [], di_ready = [Sent],
         di_rounds = [r, r\<lparr>dr_read := Inr []\<rparr>], di_failed_signal = GzipRunning, di_failed = []\<rparr>)"

lemma sample_archive_outputs:
  "gzip_decoder length sample_archive =
    Some [GzipReady None (Gzip 20 2 [7, 8]), GzipBytes [97, LF, 98], GzipComplete]"
  by (simp add: gzip_decoder_def decode_archive_def sample_archive_def fingerprint_std_def offer_gzip_def Let_def
      keep_last_def file_evidence_bytes_def)

theorem gzip_capture_publishes_archive_witness:
  "\<exists>s. run_gzip_file length \<lparr>ce_memchr = find_byte, ce_deliver = \<lambda>i. True, ce_clock = \<lambda>_. ((\<lambda>_. 0), 0)\<rparr>
      \<lparr>cl_channel_capacity = 8, cl_read_chunk_bytes = 4, cl_maximum_record_bytes = 2,
        cl_poll_interval = 5, cl_partial_flush_interval = 5, cl_history_capacity = 1\<rparr> [9] [1] True
      (Some (cursor_for length None [97], Gzip 20 2 [7, 8]))
      (FirstOutput False (Some (GzipReady None (Gzip 20 2 [7, 8]))))
      [GzOutput (Some (GzipBytes [97, LF, 98])), GzTick, GzOutput (Some GzipComplete)] = Some (completion_default, s)
    \<and> fingerprinted length (Gzip 20 2 [7, 8]) (di_rounds sample_archive)
    \<and> published_bytes [97] (sk_events s) = [97, LF, 98]"
proof -
  have c: "resume_point (map_option fst (Some (cursor_for length None [97], Gzip 20 2 [7, 8]))) = 1"
    by (simp add: resume_point_def cursor_for_def)
  show ?thesis
    using gzip_capture_publishes_archive [of "\<lparr>ce_memchr = find_byte, ce_deliver = \<lambda>i. True,
          ce_clock = \<lambda>_. ((\<lambda>_. 0), 0)\<rparr>" "\<lparr>cl_channel_capacity = 8, cl_read_chunk_bytes = 4,
          cl_maximum_record_bytes = 2, cl_poll_interval = 5, cl_partial_flush_interval = 5, cl_history_capacity = 1\<rparr>"
        length sample_archive None "Gzip 20 2 [7, 8]" "[GzipBytes [97, LF, 98], GzipComplete]"
        "[GzOutput (Some (GzipBytes [97, LF, 98])), GzTick, GzOutput (Some GzipComplete)]"
        "Some (cursor_for length None [97], Gzip 20 2 [7, 8])" "[9]" "[1]" True]
    unfolding c
    by (simp add: memchr_ok_find_byte limits_valid_def sample_archive_outputs undisturbed_def
        cursor_of_prefix_def cursor_for_def) (elim exE conjE, rule exI, simp)
qed

text \<open>The error a capture breaks with before its resume is validated never reaches the history: what
  is reported is that the stream ended, also where the prefix did not match or the decoder failed.\<close>

lemma prefix_mismatch_misreported:
  assumes "\<forall>i. ce_deliver env i" "\<not> va_validated va" "gz_framer st = framer_new m" "gz_unacknowledged st = []"
    and "gz_acknowledged_offset st = gz_checkpointed_offset st"
  shows "sk_events (snd (finish_gzip crc env room
      (GzBreak (Some ''decoded gzip prefix no longer matches durable cursor'') st False va s))) =
    sk_events s @ [CaptureError (gz_acquisition st) ''gzip stream ended before durable decoded offset'']"
  using assms
  by (simp add: finish_gzip_def gzip_finish_def loop_finish_def tick_clock_def framer_finish_def framer_new_def
      emit_records_def acknowledge_gzip_def acknowledge_decoded_def emit_def Let_def split: prod.splits)
text \<open>A whole capture in which that happens: the decoded prefix has the length of the durable one but
  other bytes.\<close>

lemma mismatched_prefix_run:
  "map_option (\<lambda>(c, s). sk_events s)
     (run_gzip_file length \<lparr>ce_memchr = find_byte, ce_deliver = \<lambda>i. True, ce_clock = \<lambda>_. ((\<lambda>_. 0), 0)\<rparr>
        \<lparr>cl_channel_capacity = 8, cl_read_chunk_bytes = 4, cl_maximum_record_bytes = 2,
          cl_poll_interval = 5, cl_partial_flush_interval = 5, cl_history_capacity = 1\<rparr> [9] [1] True
        (Some (cursor_for length None [97], Gzip 20 2 [7, 8]))
        (FirstOutput False (Some (GzipReady None (Gzip 20 2 [7, 8])))) [GzOutput (Some (GzipBytes [98]))])
   = Some [Boundary [1] Started, CaptureError [1] ''gzip stream ended before durable decoded offset'']"
  by (simp add: run_gzip_file_def gzip_start_def validation_start_def cursor_for_def resume_point_def
      take_bytes_def skip_bytes_def keep_last_def file_evidence_bytes_def new_sink_def
      finish_gzip_def gzip_finish_def loop_finish_def tick_clock_def framer_finish_def framer_new_def
      emit_records_def acknowledge_gzip_def acknowledge_decoded_def emit_def Let_def)

end
