(* ===== verification/Http.thy ===== *)
theory Http
  imports Sse Restart Capture
begin

text \<open>
  HTTP capture of \<open>crates/lvu-core/src/http.rs\<close>: the framer chosen by the source's framing, the
  once-only notices, one connection (\<open>connect_and_stream\<close>, \<open>stream_body\<close>) and the reconnecting
  session (\<open>run_http\<close>) with its published history (\<open>source_event.rs\<close>).

  The network and the clocks are scripts: what \<open>select!\<close> yields in each round of a body, what
  the request yields, and per connection the instant of the retry decision and how the wait
  ended.  Whether \<open>reqwest\<close> takes an event id as a header value is the parameter \<open>header_ok\<close>.
  The history is the list of events handed to the sink, in order.
\<close>

section \<open>Published history\<close>

datatype resume_mode = Initial | LastEventId "byte list" | ByteRange nat | NoResume

definition resumed :: "resume_mode \<Rightarrow> bool" where
  "resumed m \<longleftrightarrow> (case m of LastEventId _ \<Rightarrow> True | ByteRange _ \<Rightarrow> True | _ \<Rightarrow> False)"

datatype disconnect_reason =
    EndOfStream
  | TruncatedFrame nat
  | ReadTimeout
  | Transport string
  | DisconnectCancelled

datatype source_event =
    HttpConnecting uuid nat string resume_mode
  | HttpConnected uuid nat bool bool
  | HttpRejected uuid nat string
  | HttpDisconnected uuid disconnect_reason nat
  | CaptureGap uuid uuid resume_mode
  | FrameOversized uuid nat
  | InvalidUtf8 uuid nat
  | RetryScheduled nat nat nat
  | RetriesExhausted nat nat
  | ReconnectDisabled
  | CommandStarted uuid nat
  | CommandExited uuid "int option" bool
  | RestartDeclined restart_policy "bool option"
  | RestartScheduled restart_policy nat nat nat
  | RestartsExhausted restart_policy nat nat
  | RestartFailed string

section \<open>Configuration\<close>

datatype http_framing = FrameNewline | FrameSse

record http_limits =
  hl_maximum_frame_bytes :: nat
  hl_maximum_pending_bytes :: nat
  hl_connect_timeout :: nat
  hl_read_timeout :: nat

definition http_limits_default :: http_limits where
  "http_limits_default = \<lparr>hl_maximum_frame_bytes = 64 * 1024,
     hl_maximum_pending_bytes = 4 * 1024 * 1024, hl_connect_timeout = 10 * 1000000000,
     hl_read_timeout = 60 * 1000000000\<rparr>"

definition validate_http_limits :: "http_limits \<Rightarrow> bool" where
  "validate_http_limits l \<longleftrightarrow> \<not> (hl_maximum_frame_bytes l = 0 \<or> hl_maximum_pending_bytes l = 0
     \<or> hl_connect_timeout l = 0 \<or> hl_read_timeout l = 0)"

record reconnect_policy =
  rp_enabled :: bool
  rp_delay :: nat
  rp_maximum_delay :: nat
  rp_jitter_percent :: nat
  rp_maximum_attempts :: nat
  rp_attempt_window :: nat
  rp_resume :: bool

definition reconnect_policy_default :: reconnect_policy where
  "reconnect_policy_default = \<lparr>rp_enabled = True, rp_delay = 500 * nanos_per_milli,
     rp_maximum_delay = 30 * 1000000000, rp_jitter_percent = 25, rp_maximum_attempts = 10,
     rp_attempt_window = 300 * 1000000000, rp_resume = True\<rparr>"

record http_session =
  ss_endpoint :: string
  ss_framing :: http_framing
  ss_reconnect :: reconnect_policy
  ss_http :: http_limits
  ss_read_chunk_bytes :: nat

section \<open>The framer of a body\<close>

datatype http_framer = NewlineFramer framer nat | SseFramer sse_framer

definition http_framer_new :: "http_framing \<Rightarrow> http_limits \<Rightarrow> http_framer" where
  "http_framer_new framing limits =
    (let limit = max (min (hl_maximum_frame_bytes limits) (hl_maximum_pending_bytes limits)) 1 in
     case framing of
       FrameNewline \<Rightarrow> NewlineFramer (framer_new limit) limit
     | FrameSse \<Rightarrow> SseFramer (sse_new limit))"

definition charge_first :: "nat \<Rightarrow> captured_record list \<Rightarrow> captured_record list" where
  "charge_first cpu rs = (case rs of [] \<Rightarrow> [] | r # rest \<Rightarrow> r\<lparr>cr_reader_cpu := cpu\<rparr> # rest)"

definition http_push ::
  "(byte \<Rightarrow> byte list \<Rightarrow> nat option) \<Rightarrow> (nat \<Rightarrow> int) \<Rightarrow> nat \<Rightarrow> uuid \<Rightarrow> http_framer \<Rightarrow> byte list
    \<Rightarrow> (http_framer \<times> frame_outcome) option" where
  "http_push mc clock cpu aq f input =
    (case f of
       NewlineFramer framer limit \<Rightarrow>
         (case framer_push mc clock cpu Http aq framer input of
            None \<Rightarrow> None
          | Some (framer', records) \<Rightarrow>
              Some (NewlineFramer framer' limit,
                \<lparr>fo_records = records, fo_last_event_id = None,
                  fo_oversized = list_ex (\<lambda>r. length (as_slice (cr_bytes r)) \<ge> limit
                    \<and> as_slice (cr_delimiter r) = []) records,
                  fo_invalid_utf8 = list_ex (\<lambda>r. \<not> utf8_valid (as_slice (cr_bytes r))) records,
                  fo_limit_bytes = limit\<rparr>))
     | SseFramer framer \<Rightarrow>
         (case sse_push clock aq framer input of
            None \<Rightarrow> None
          | Some (framer', outcome) \<Rightarrow>
              Some (SseFramer framer',
                outcome\<lparr>fo_records := charge_first cpu (fo_records outcome)\<rparr>)))"

definition http_finish ::
  "(nat \<Rightarrow> int) \<Rightarrow> nat \<Rightarrow> uuid \<Rightarrow> http_framer \<Rightarrow> http_framer \<times> captured_record list" where
  "http_finish clock cpu aq f =
    (case f of
       NewlineFramer framer limit \<Rightarrow>
         (let (framer', records) = framer_finish (clock 0) cpu Http aq framer
          in (NewlineFramer framer' limit, records))
     | SseFramer framer \<Rightarrow>
         (let (framer', records) = sse_finish (clock 0) aq framer
          in (SseFramer framer', charge_first cpu records)))"

definition http_buffered_len :: "http_framer \<Rightarrow> nat" where
  "http_buffered_len f = (case f of NewlineFramer framer _ \<Rightarrow> framer_buffered_len framer
     | SseFramer framer \<Rightarrow> length (sse_pending framer))"

text \<open>Notices are published once per connection.\<close>

record frame_notices =
  fn_oversized :: bool
  fn_invalid_utf8 :: bool

definition notices_default :: frame_notices where
  "notices_default = \<lparr>fn_oversized = False, fn_invalid_utf8 = False\<rparr>"

definition notices_report ::
  "uuid \<Rightarrow> frame_outcome \<Rightarrow> nat \<Rightarrow> frame_notices \<times> source_event list \<Rightarrow> frame_notices \<times> source_event list"
where
  "notices_report aq outcome offset = (\<lambda>(n, history).
    let (n1, h1) =
          (if fo_oversized outcome \<and> \<not> fn_oversized n
           then (n\<lparr>fn_oversized := True\<rparr>, history @ [FrameOversized aq (fo_limit_bytes outcome)])
           else (n, history))
    in if fo_invalid_utf8 outcome \<and> \<not> fn_invalid_utf8 n1
       then (n1\<lparr>fn_invalid_utf8 := True\<rparr>, h1 @ [InvalidUtf8 aq offset])
       else (n1, h1))"

section \<open>One connection\<close>

record resume_state =
  rs_last_event_id :: "byte list option"
  rs_received_bytes :: nat
  rs_range_supported :: bool

definition resume_default :: resume_state where
  "resume_default = \<lparr>rs_last_event_id = None, rs_received_bytes = 0, rs_range_supported = False\<rparr>"

datatype connection_end =
    Ended disconnect_reason nat
  | Aborted nat
  | Stopped

text \<open>What a round of the body loop yields.\<close>

datatype body_event =
    BodyCancelled
  | BodyStopped
  | BodyClosed
  | BodyTimeout
  | BodyError string
  | BodyEnd
  | BodyChunk "byte list"

text \<open>What the request yields; a response has a status, whether \<open>accept-ranges\<close> says bytes, and a body.\<close>

datatype connect_event =
    ConnectCancelled
  | ConnectStopped
  | ConnectTimeout
  | ConnectError string
  | Response nat bool "body_event list"

text \<open>Everything a connection changes.\<close>

record stream_state =
  st_framer :: http_framer
  st_notices :: frame_notices
  st_body_bytes :: nat
  st_resume :: resume_state
  st_sink :: sink
  st_history :: "source_event list"

definition state_finish :: "capture_env \<Rightarrow> uuid \<Rightarrow> stream_state \<Rightarrow> captured_record list \<times> stream_state" where
  "state_finish env aq s =
    (let ((clock, cpu), k) = tick_clock env (st_sink s);
         (f, records) = http_finish clock cpu aq (st_framer s)
     in (records, s\<lparr>st_framer := f, st_sink := k\<rparr>))"

definition state_emit :: "capture_env \<Rightarrow> capture_event \<Rightarrow> stream_state \<Rightarrow> bool \<times> stream_state" where
  "state_emit env ev s = (let (sent, k) = emit env ev (st_sink s) in (sent, s\<lparr>st_sink := k\<rparr>))"

definition state_emit_records ::
  "capture_env \<Rightarrow> captured_record list \<Rightarrow> stream_state \<Rightarrow> bool \<times> stream_state" where
  "state_emit_records env rs s = (let (sent, k) = emit_records env rs (st_sink s) in (sent, s\<lparr>st_sink := k\<rparr>))"

text \<open>One slice of a chunk; \<open>False\<close> when the consumer refused its records.\<close>

definition body_slice :: "capture_env \<Rightarrow> uuid \<Rightarrow> stream_state \<Rightarrow> byte list \<Rightarrow> (bool \<times> stream_state) option"
where
  "body_slice env aq s part =
    (let ((clock, cpu), k) = tick_clock env (st_sink s);
         body = st_body_bytes s + length part;
         resume = (st_resume s)\<lparr>rs_received_bytes :=
           saturating_add_u64 (rs_received_bytes (st_resume s)) (length part)\<rparr>
     in case http_push (ce_memchr env) clock cpu aq (st_framer s) part of
          None \<Rightarrow> None
        | Some (f, outcome) \<Rightarrow>
            let (notices, history) = notices_report aq outcome body (st_notices s, st_history s);
                resume1 = (case fo_last_event_id outcome of
                    None \<Rightarrow> resume | Some i \<Rightarrow> resume\<lparr>rs_last_event_id := Some i\<rparr>);
                s1 = s\<lparr>st_framer := f, st_notices := notices, st_body_bytes := body,
                       st_resume := resume1, st_sink := k, st_history := history\<rparr>
            in Some (state_emit_records env (fo_records outcome) s1))"

text \<open>The slices of one chunk, until one is refused.\<close>

fun body_slices :: "capture_env \<Rightarrow> uuid \<Rightarrow> stream_state \<Rightarrow> byte list list \<Rightarrow> (bool \<times> stream_state) option"
where
  "body_slices env aq s [] = Some (True, s)"
| "body_slices env aq s (part # rest) =
    (case body_slice env aq s part of
       None \<Rightarrow> None
     | Some (sent, s1) \<Rightarrow> if sent then body_slices env aq s1 rest else Some (False, s1))"

definition read_timeout_detail :: string where
  "read_timeout_detail = ''no HTTP body bytes within the read timeout''"

fun stream_body ::
  "capture_env \<Rightarrow> nat \<Rightarrow> uuid \<Rightarrow> stream_state \<Rightarrow> body_event list \<Rightarrow> (connection_end \<times> stream_state) option"
where
  "stream_body env read_chunk aq s [] = None"
| "stream_body env read_chunk aq s (ev # script) =
    (let pending = http_buffered_len (st_framer s) in
     case ev of
       BodyCancelled \<Rightarrow> Some (Aborted pending, s)
     | BodyStopped \<Rightarrow>
         (let (records, s1) = state_finish env aq s;
              (_, s2) = state_emit_records env records s1
          in Some (Stopped, s2))
     | BodyClosed \<Rightarrow> Some (Aborted pending, s)
     | BodyTimeout \<Rightarrow>
         (let (_, s1) = state_emit env (CaptureError aq read_timeout_detail) s;
              (records, s2) = state_finish env aq s1;
              (_, s3) = state_emit_records env records s2
          in Some (Ended (if pending > 0 then TruncatedFrame pending else ReadTimeout)
                    (st_body_bytes s3), s3))
     | BodyError detail \<Rightarrow>
         (let (records, s1) = state_finish env aq s;
              (_, s2) = state_emit_records env records s1;
              (_, s3) = state_emit env (CaptureError aq detail) s2
          in Some (Ended (if pending > 0 then TruncatedFrame pending else Transport detail)
                    (st_body_bytes s3), s3))
     | BodyEnd \<Rightarrow>
         (let (records, s1) = state_finish env aq s;
              (sent, s2) = state_emit_records env records s1
          in if \<not> sent then Some (Aborted 0, s2)
             else Some (Ended (if pending > 0 then TruncatedFrame pending else EndOfStream)
                    (st_body_bytes s2), s2))
     | BodyChunk bytes \<Rightarrow>
         (case body_slices env aq s (chunks_of (max read_chunk 1) bytes) of
            None \<Rightarrow> None
          | Some (True, s1) \<Rightarrow> stream_body env read_chunk aq s1 script
          | Some (False, s1) \<Rightarrow> Some (Aborted (http_buffered_len (st_framer s1)), s1)))"

section \<open>Connecting\<close>

definition resume_mode_of :: "http_session \<Rightarrow> resume_state \<Rightarrow> bool \<Rightarrow> resume_mode" where
  "resume_mode_of session resume first =
    (if first then Initial
     else if \<not> rp_resume (ss_reconnect session) then NoResume
     else case ss_framing session of
       FrameSse \<Rightarrow> (case rs_last_event_id resume of Some i \<Rightarrow> LastEventId i | None \<Rightarrow> NoResume)
     | FrameNewline \<Rightarrow>
         if rs_range_supported resume \<and> rs_received_bytes resume > 0
         then ByteRange (rs_received_bytes resume) else NoResume)"

definition connect_timeout_detail :: string where
  "connect_timeout_detail = ''no response headers within the connect timeout''"

definition rejected_detail :: "nat \<Rightarrow> string \<Rightarrow> string" where
  "rejected_detail status endpoint = ''HTTP '' @ show_nat status @ '' from '' @ endpoint"

text \<open>The header a request adds: \<open>last-event-id\<close> only when the id is a valid header value.\<close>

datatype resume_header = LastEventIdHeader "byte list" | RangeHeader string

definition request_header :: "(byte list \<Rightarrow> bool) \<Rightarrow> resume_mode \<Rightarrow> resume_header option" where
  "request_header header_ok mode =
    (case mode of
       LastEventId i \<Rightarrow> if header_ok i then Some (LastEventIdHeader i) else None
     | ByteRange offset \<Rightarrow> Some (RangeHeader (''bytes='' @ show_nat offset @ ''-''))
     | _ \<Rightarrow> None)"

definition connect_and_stream ::
  "(byte list \<Rightarrow> bool) \<Rightarrow> capture_env \<Rightarrow> http_session \<Rightarrow> uuid \<Rightarrow> resume_mode
    \<Rightarrow> resume_state \<times> sink \<times> source_event list \<Rightarrow> connect_event
    \<Rightarrow> (connection_end \<times> resume_state \<times> sink \<times> source_event list) option" where
  "connect_and_stream header_ok env session aq mode = (\<lambda>(resume0, k, history) ev.
    let resume =
      (case mode of
         LastEventId i \<Rightarrow>
           if request_header header_ok mode \<noteq> None then resume0
           else resume0\<lparr>rs_last_event_id := None\<rparr>
       | _ \<Rightarrow> resume0)
    in case ev of
         ConnectCancelled \<Rightarrow> Some (Aborted 0, resume, k, history)
       | ConnectStopped \<Rightarrow> Some (Stopped, resume, k, history)
       | ConnectTimeout \<Rightarrow>
           (let (_, k1) = emit env (CaptureError aq connect_timeout_detail) k
            in Some (Ended (Transport connect_timeout_detail) 0, resume, k1, history))
       | ConnectError detail \<Rightarrow>
           (let (_, k1) = emit env (CaptureError aq detail) k
            in Some (Ended (Transport detail) 0, resume, k1, history))
       | Response status accepts_bytes body \<Rightarrow>
           if \<not> (200 \<le> status \<and> status < 300) then
             (let detail = rejected_detail status (ss_endpoint session);
                  (_, k1) = emit env (CaptureError aq detail) k
              in Some (Ended (Transport detail) 0, resume, k1,
                   history @ [HttpRejected aq status detail]))
           else
             let partial = (status = 206);
                 was_resumed = (case mode of ByteRange _ \<Rightarrow> partial | LastEventId _ \<Rightarrow> True | _ \<Rightarrow> False);
                 resume1 = (case mode of
                     ByteRange _ \<Rightarrow> if \<not> partial then resume\<lparr>rs_received_bytes := 0\<rparr> else resume
                   | _ \<Rightarrow> resume);
                 resume2 = resume1\<lparr>rs_range_supported := accepts_bytes\<rparr>;
                 s = \<lparr>st_framer = http_framer_new (ss_framing session) (ss_http session),
                      st_notices = notices_default, st_body_bytes = 0, st_resume = resume2,
                      st_sink = k,
                      st_history = history @ [HttpConnected aq status was_resumed accepts_bytes]\<rparr>
             in case stream_body env (ss_read_chunk_bytes session) aq s body of
                  None \<Rightarrow> None
                | Some (ended, s') \<Rightarrow> Some (ended, st_resume s', st_sink s', st_history s'))"

section \<open>The session\<close>

datatype wait_event = Waited | WaitCancelled | WaitStopped

text \<open>One connection's script: its acquisition id, what the request yields, the instant of the
  retry decision and how the wait before the next connection ends.\<close>

record http_round =
  hr_id :: uuid
  hr_connect :: connect_event
  hr_now :: nat
  hr_wait :: wait_event

definition duration_millis :: "nat \<Rightarrow> nat" where
  "duration_millis d = min (d div nanos_per_milli) u64_max"

record session_state =
  se_window :: attempt_window
  se_jitter :: jitter
  se_resume :: resume_state
  se_previous :: "uuid option"
  se_connection :: nat
  se_sink :: sink
  se_history :: "source_event list"

definition session_backoff :: "http_session \<Rightarrow> backoff" where
  "session_backoff session = \<lparr>bo_initial = rp_delay (ss_reconnect session),
     bo_maximum = rp_maximum_delay (ss_reconnect session),
     bo_jitter_percent = rp_jitter_percent (ss_reconnect session)\<rparr>"

definition exhausted_detail :: "nat \<Rightarrow> string" where
  "exhausted_detail used = ''HTTP reconnect budget exhausted after '' @ show_nat used @ '' attempts''"

text \<open>The decision after a connection ended: \<open>Inl\<close> ends the session, \<open>Inr\<close> connects again.\<close>

definition retry_step ::
  "capture_env \<Rightarrow> http_session \<Rightarrow> http_round \<Rightarrow> session_state
    \<Rightarrow> (completion \<times> session_state) + session_state" where
  "retry_step env session round s =
    (if \<not> rp_enabled (ss_reconnect session) then
       Inl (completion_default, s\<lparr>se_history := se_history s @ [ReconnectDisabled]\<rparr>)
     else
       let (permitted, w1) = window_permits (se_window s) (hr_now round) in
       if \<not> permitted then
         let (used, w2) = window_used w1 (hr_now round);
             (_, k) = emit env (CaptureError (hr_id round) (exhausted_detail used)) (se_sink s)
         in Inl (completion_default,
              s\<lparr>se_window := w2, se_sink := k,
                se_history := se_history s @ [RetriesExhausted used (duration_millis (aw_window w2))]\<rparr>)
       else
         let w2 = window_record w1 (hr_now round);
             (attempt, w3) = window_used w2 (hr_now round);
             (delay, j) = backoff_delay (session_backoff session) attempt (se_jitter s);
             s1 = s\<lparr>se_window := w3, se_jitter := j,
                    se_history := se_history s @
                      [RetryScheduled attempt (aw_maximum w3) (duration_millis delay)]\<rparr>
         in (case hr_wait round of
               Waited \<Rightarrow> Inr s1
             | WaitCancelled \<Rightarrow> Inl (aborted 0, s1)
             | WaitStopped \<Rightarrow> Inl (completion_default, s1)))"

text \<open>One turn of the loop.\<close>

definition session_turn ::
  "(byte list \<Rightarrow> bool) \<Rightarrow> capture_env \<Rightarrow> http_session \<Rightarrow> http_round \<Rightarrow> session_state
    \<Rightarrow> ((completion \<times> session_state) + session_state) option" where
  "session_turn header_ok env session round s =
    (let connection = min (se_connection s + 1) u32_max;
         aq = hr_id round;
         mode = resume_mode_of session (se_resume s) (se_previous s = None);
         gap = (case se_previous s of None \<Rightarrow> [] | Some p \<Rightarrow> [CaptureGap p aq mode]);
         history = se_history s @ [HttpConnecting aq connection (ss_endpoint session) mode] @ gap;
         (sent, k) = emit env (Boundary aq Started) (se_sink s);
         s1 = s\<lparr>se_connection := connection, se_history := history, se_sink := k\<rparr>
     in if \<not> sent then Some (Inl (aborted 0, s1))
        else case connect_and_stream header_ok env session aq mode (se_resume s, k, history) (hr_connect round) of
          None \<Rightarrow> None
        | Some (ended, resume, k2, history2) \<Rightarrow>
            let s2 = s1\<lparr>se_previous := Some aq, se_resume := resume, se_sink := k2, se_history := history2\<rparr>
            in (case ended of
                  Aborted n \<Rightarrow> Some (Inl (aborted n, s2))
                | Stopped \<Rightarrow> Some (Inl (completion_default, s2))
                | Ended reason body_bytes \<Rightarrow>
                    Some (retry_step env session round
                      (s2\<lparr>se_history := history2 @ [HttpDisconnected aq reason body_bytes]\<rparr>))))"

fun session_loop ::
  "(byte list \<Rightarrow> bool) \<Rightarrow> capture_env \<Rightarrow> http_session \<Rightarrow> session_state \<Rightarrow> http_round list
    \<Rightarrow> (completion \<times> session_state) option" where
  "session_loop header_ok env session s [] = None"
| "session_loop header_ok env session s (round # script) =
    (case session_turn header_ok env session round s of
       None \<Rightarrow> None
     | Some (Inl done) \<Rightarrow> Some done
     | Some (Inr s') \<Rightarrow> session_loop header_ok env session s' script)"

definition run_http ::
  "(byte list \<Rightarrow> bool) \<Rightarrow> capture_env \<Rightarrow> http_session \<Rightarrow> jitter \<Rightarrow> http_round list
    \<Rightarrow> (completion \<times> session_state) option" where
  "run_http header_ok env session j script =
    session_loop header_ok env session
      \<lparr>se_window = window_new (rp_maximum_attempts (ss_reconnect session))
          (rp_attempt_window (ss_reconnect session)),
        se_jitter = j, se_resume = resume_default, se_previous = None, se_connection = 0,
        se_sink = new_sink, se_history = []\<rparr> script"

section \<open>The framer keeps the contract\<close>

definition http_held :: "http_framer \<Rightarrow> byte list" where
  "http_held f = (case f of NewlineFramer framer _ \<Rightarrow> fr_pending framer | SseFramer framer \<Rightarrow> sse_pending framer)"

definition http_ok :: "http_framer \<Rightarrow> bool" where
  "http_ok f = (case f of NewlineFramer framer _ \<Rightarrow> framer_ok framer | SseFramer framer \<Rightarrow> sse_ok framer)"

definition http_push_records ::
  "((nat \<Rightarrow> int) \<times> nat) \<times> uuid \<Rightarrow> http_framer \<Rightarrow> byte list \<Rightarrow> (http_framer \<times> captured_record list) option"
where
  "http_push_records = (\<lambda>((clock, cpu), aq) f xs.
    map_option (\<lambda>(f', out). (f', fo_records out)) (http_push find_byte clock cpu aq f xs))"

definition http_finish_records ::
  "((nat \<Rightarrow> int) \<times> nat) \<times> uuid \<Rightarrow> http_framer \<Rightarrow> http_framer \<times> captured_record list" where
  "http_finish_records = (\<lambda>((clock, cpu), aq) f. http_finish clock cpu aq f)"

lemma charge_first_content [simp]:
  "concat (map record_content (charge_first cpu rs)) = concat (map record_content rs)"
  by (auto simp: charge_first_def record_content_def split: list.splits)

interpretation hf: stream_framer http_push_records http_finish_records http_held record_content http_ok
proof
  fix f :: http_framer and e :: "((nat \<Rightarrow> int) \<times> nat) \<times> uuid" and xs :: "byte list"
  assume ok: "http_ok f"
  obtain clock cpu aq where e: "e = ((clock, cpu), aq)" by (metis surj_pair)
  show "\<exists>f' rs. http_push_records e f xs = Some (f', rs) \<and> http_ok f'
      \<and> concat (map record_content rs) @ http_held f' = http_held f @ xs"
  proof (cases f)
    case (NewlineFramer framer limit)
    then obtain fr' rs where "newline_push find_byte (clock, cpu, Http, aq) framer xs = Some (fr', rs)"
      "framer_ok fr'" "concat (map record_content rs) @ fr_pending fr' = fr_pending framer @ xs"
      using nl.push_law [of framer "(clock, cpu, Http, aq)" xs] ok by (auto simp: http_ok_def)
    then show ?thesis
      using NewlineFramer e by (simp add: http_push_records_def http_push_def newline_push_def http_ok_def http_held_def)
  next
    case (SseFramer framer)
    then obtain fr' rs where r: "sse_push_records (clock, aq) framer xs = Some (fr', rs)"
      "sse_ok fr'" "concat (map record_content rs) @ sse_pending fr' = sse_pending framer @ xs"
      using sse.push_law [of framer "(clock, aq)" xs] ok by (auto simp: http_ok_def)
    then obtain out where "sse_push clock aq framer xs = Some (fr', out)" "rs = fo_records out"
      by (auto simp: sse_push_records_def)
    then show ?thesis
      using SseFramer e r(2,3) by (simp add: http_push_records_def http_push_def http_ok_def http_held_def)
  qed
next
  fix f f' rs and e :: "((nat \<Rightarrow> int) \<times> nat) \<times> uuid"
  assume ok: "http_ok f" and fin: "http_finish_records e f = (f', rs)"
  obtain clock cpu aq where e: "e = ((clock, cpu), aq)" by (metis surj_pair)
  show "http_ok f' \<and> http_held f' = [] \<and> concat (map record_content rs) = http_held f"
  proof (cases f)
    case (NewlineFramer framer limit)
    obtain fr' rs' where "newline_finish (clock, cpu, Http, aq) framer = (fr', rs')" by (metis surj_pair)
    with nl.finish_law [OF _ this] show ?thesis
      using NewlineFramer e fin ok
      by (auto simp: http_finish_records_def http_finish_def newline_finish_def http_ok_def http_held_def)
  next
    case (SseFramer framer)
    obtain fr' rs' where "sse_finish_records (clock, aq) framer = (fr', rs')" by (metis surj_pair)
    with sse.finish_law [OF _ this] show ?thesis
      using SseFramer e fin ok
      by (auto simp: http_finish_records_def http_finish_def sse_finish_records_def http_ok_def http_held_def)
  qed
qed

lemma http_ok_new [simp]: "http_ok (http_framer_new framing limits)"
  by (simp add: http_framer_new_def http_ok_def Let_def split: http_framing.splits)

lemma http_held_new [simp]: "http_held (http_framer_new framing limits) = []"
  by (simp add: http_framer_new_def http_held_def Let_def sse_new_def split: http_framing.splits)

lemma http_buffered_held: "http_buffered_len f = length (http_held f)"
  by (simp add: http_buffered_len_def http_held_def framer_buffered_len_def split: http_framer.splits)

lemma http_push_keeps:
  assumes "http_ok f" "memchr_ok mc"
  shows "\<exists>f' out. http_push mc clock cpu aq f xs = Some (f', out) \<and> http_ok f'
    \<and> content (fo_records out) @ http_held f' = http_held f @ xs"
  using hf.push_law [OF assms(1), of "((clock, cpu), aq)" xs] memchr_ok_eq [OF assms(2)]
  by (auto simp: http_push_records_def content_def)

section \<open>One connection accounts for its body\<close>

fun body_input :: "body_event list \<Rightarrow> byte list" where
  "body_input [] = []"
| "body_input (ev # script) = (case ev of BodyChunk bytes \<Rightarrow> bytes @ body_input script | _ \<Rightarrow> [])"

definition ends_body :: "body_event \<Rightarrow> bool" where
  "ends_body ev \<longleftrightarrow> (case ev of BodyChunk _ \<Rightarrow> False | _ \<Rightarrow> True)"

lemma saturating_add_twice:
  "saturating_add_u64 (saturating_add_u64 a b) c = saturating_add_u64 a (b + c)"
  by (simp add: saturating_add_u64_def)

lemma notices_report_history:
  "\<exists>n' h. notices_report aq out off (n, history) = (n', history @ h)
    \<and> (\<forall>ev \<in> set h. (\<exists>l. ev = FrameOversized aq l) \<or> (\<exists>b. ev = InvalidUtf8 aq b))"
  by (simp add: notices_report_def Let_def)

text \<open>What a step of the body changes, apart from its records.\<close>

definition quiet :: "source_event \<Rightarrow> bool" where
  "quiet ev \<longleftrightarrow> (case ev of HttpConnecting _ _ _ _ \<Rightarrow> False | CaptureGap _ _ _ \<Rightarrow> False | _ \<Rightarrow> True)"

definition stream_ok :: "stream_state \<Rightarrow> bool" where
  "stream_ok s \<longleftrightarrow> http_ok (st_framer s) \<and> rs_received_bytes (st_resume s) \<le> u64_max"

definition body_progress :: "capture_env \<Rightarrow> stream_state \<Rightarrow> stream_state \<Rightarrow> byte list \<Rightarrow> bool \<Rightarrow> bool" where
  "body_progress env s s' xs sent \<longleftrightarrow>
     stream_ok s'
   \<and> st_body_bytes s' = st_body_bytes s + length xs
   \<and> rs_received_bytes (st_resume s') = saturating_add_u64 (rs_received_bytes (st_resume s)) (length xs)
   \<and> rs_range_supported (st_resume s') = rs_range_supported (st_resume s)
   \<and> (\<exists>h. st_history s' = st_history s @ h \<and> (\<forall>ev \<in> set h. quiet ev))
   \<and> (\<exists>out. sk_events (st_sink s') = sk_events (st_sink s) @ out
        \<and> prefix (events_content out) (http_held (st_framer s) @ xs)
        \<and> (sent \<longrightarrow> events_content out @ http_held (st_framer s') = http_held (st_framer s) @ xs))
   \<and> ((\<forall>i. ce_deliver env i) \<longrightarrow> sent)"

lemma body_slice_progress:
  assumes "stream_ok s" "memchr_ok (ce_memchr env)"
  shows "\<exists>sent s'. body_slice env aq s xs = Some (sent, s') \<and> body_progress env s s' xs sent"
proof -
  obtain clock cpu where c: "ce_clock env (sk_framer_calls (st_sink s)) = (clock, cpu)" by (metis surj_pair)
  obtain f' out where p: "http_push (ce_memchr env) clock cpu aq (st_framer s) xs = Some (f', out)"
    "http_ok f'" "content (fo_records out) @ http_held f' = http_held (st_framer s) @ xs"
    using http_push_keeps [OF _ assms(2)] assms(1) unfolding stream_ok_def by blast
  obtain n' h where n: "notices_report aq out (st_body_bytes s + length xs) (st_notices s, st_history s)
      = (n', st_history s @ h)" "\<forall>ev \<in> set h. quiet ev"
    using notices_report_history [of aq out "st_body_bytes s + length xs" "st_notices s" "st_history s"]
    by (fastforce simp: quiet_def)
  let ?k = "snd (tick_clock env (st_sink s))"
  obtain sent k2 where em: "emit_records env (fo_records out) ?k = (sent, k2)" by (metis surj_pair)
  obtain evs where evs: "sk_events k2 = sk_events (st_sink s) @ evs"
    "events_content evs = (if sent then content (fo_records out) else [])" "(\<forall>i. ce_deliver env i) \<longrightarrow> sent"
    using emit_records_spec [OF em] by (auto simp: tick_clock_def)
  have pre: "prefix (events_content evs) (http_held (st_framer s) @ xs)"
    using evs(2) p(3) by (metis prefixI prefix_bot.bot_least)
  show ?thesis
    using c p n em evs pre
    by (simp add: body_slice_def stream_ok_def saturating_add_u64_le tick_clock_def state_emit_records_def body_progress_def Let_def
        split: option.splits)
qed

lemma body_progress_trans:
  assumes "body_progress env s s1 xs True" "body_progress env s1 s2 ys sent"
  shows "body_progress env s s2 (xs @ ys) sent"
proof -
  obtain o1 h1 where 1: "sk_events (st_sink s1) = sk_events (st_sink s) @ o1"
    "events_content o1 @ http_held (st_framer s1) = http_held (st_framer s) @ xs"
    "st_history s1 = st_history s @ h1" "\<forall>ev \<in> set h1. quiet ev"
    using assms(1) by (auto simp: body_progress_def)
  obtain o2 h2 where 2: "sk_events (st_sink s2) = sk_events (st_sink s1) @ o2"
    "prefix (events_content o2) (http_held (st_framer s1) @ ys)"
    "sent \<longrightarrow> events_content o2 @ http_held (st_framer s2) = http_held (st_framer s1) @ ys"
    "st_history s2 = st_history s1 @ h2" "\<forall>ev \<in> set h2. quiet ev"
    using assms(2) by (auto simp: body_progress_def)
  have "prefix (events_content o1 @ events_content o2) (http_held (st_framer s) @ xs @ ys)"
    using 1(2) 2(2) by (metis append_assoc same_prefix_prefix)
  moreover have "sent \<longrightarrow> (events_content o1 @ events_content o2) @ http_held (st_framer s2)
      = http_held (st_framer s) @ xs @ ys"
    using 1(2) 2(3) by (metis append_assoc)
  moreover have "\<forall>ev \<in> set (h1 @ h2). quiet ev" using 1(4) 2(5) by auto
  ultimately show ?thesis
    using assms 1(1,3) 2(1,4)
    by (simp add: body_progress_def saturating_add_twice)
qed

lemma body_slices_progress:
  assumes "stream_ok s" "memchr_ok (ce_memchr env)"
  shows "\<exists>sent s' rest. body_slices env aq s parts = Some (sent, s')
    \<and> (\<exists>xs. body_progress env s s' xs sent \<and> xs @ rest = concat parts \<and> (sent \<longrightarrow> rest = []))"
  using assms(1)
proof (induction parts arbitrary: s)
  case Nil
  have "body_progress env s s [] True"
    using Nil by (simp add: body_progress_def stream_ok_def saturating_add_u64_exact)
  then show ?case by (intro exI [of _ True] exI [of _ s] exI [of _ "[]"]) auto
next
  case (Cons p parts)
  obtain sent s1 where 1: "body_slice env aq s p = Some (sent, s1)" "body_progress env s s1 p sent"
    using body_slice_progress [OF Cons.prems assms(2)] by blast
  show ?case
  proof (cases sent)
    case False
    then show ?thesis using 1 by (intro exI [of _ False] exI [of _ s1] exI [of _ "concat parts"]) auto
  next
    case True
    have "stream_ok s1" using 1(2) by (simp add: body_progress_def)
    from Cons.IH [OF this] obtain sent2 s2 rest xs where 2: "body_slices env aq s1 parts = Some (sent2, s2)"
      "body_progress env s1 s2 xs sent2" "xs @ rest = concat parts" "sent2 \<longrightarrow> rest = []" by blast
    have "body_progress env s s2 (p @ xs) sent2"
      using body_progress_trans [OF _ 2(2), of s p] 1(2) True by simp
    then show ?thesis using 1(1) 2 True
      by (intro exI [of _ sent2] exI [of _ s2] exI [of _ rest]) auto
  qed
qed

lemma state_finish_spec:
  assumes "stream_ok s" "state_finish env aq s = (rs, s1)"
  shows "content rs = http_held (st_framer s) \<and> sk_events (st_sink s1) = sk_events (st_sink s)
    \<and> st_body_bytes s1 = st_body_bytes s \<and> st_resume s1 = st_resume s \<and> st_history s1 = st_history s"
proof -
  obtain clock cpu where c: "ce_clock env (sk_framer_calls (st_sink s)) = (clock, cpu)" by (metis surj_pair)
  obtain f rs' where f: "http_finish_records ((clock, cpu), aq) (st_framer s) = (f, rs')" by (metis surj_pair)
  have "content rs' = http_held (st_framer s)"
    using hf.finish_law [OF _ f] assms(1) by (simp add: stream_ok_def content_def)
  moreover have "http_finish clock cpu aq (st_framer s) = (f, rs')"
    using f by (simp add: http_finish_records_def)
  ultimately show ?thesis using assms(2) c
    by (auto simp: state_finish_def tick_clock_def)
qed

lemma state_emit_spec:
  assumes "state_emit env ev s = (sent, s1)"
  shows "(\<exists>out. sk_events (st_sink s1) = sk_events (st_sink s) @ out \<and> events_content out
          = (if sent then content (records_of ev) else []))
    \<and> st_framer s1 = st_framer s \<and> st_body_bytes s1 = st_body_bytes s
    \<and> st_resume s1 = st_resume s \<and> st_history s1 = st_history s"
  using assms emit_spec [of env ev "st_sink s"] by (auto simp: state_emit_def split: prod.splits)

lemma state_emit_records_spec:
  assumes "state_emit_records env rs s = (sent, s1)"
  shows "(\<exists>out. sk_events (st_sink s1) = sk_events (st_sink s) @ out
          \<and> events_content out = (if sent then content rs else []) \<and> ((\<forall>i. ce_deliver env i) \<longrightarrow> sent))
    \<and> st_framer s1 = st_framer s \<and> st_body_bytes s1 = st_body_bytes s
    \<and> st_resume s1 = st_resume s \<and> st_history s1 = st_history s"
  using assms emit_records_spec [of env rs "st_sink s"]
  by (auto simp: state_emit_records_def split: prod.splits)

text \<open>The account of a connection from a state on: \<open>xs\<close> is what it took of the body.\<close>

definition body_account :: "capture_env \<Rightarrow> stream_state \<Rightarrow> stream_state \<Rightarrow> byte list \<Rightarrow> connection_end \<Rightarrow> bool"
where
  "body_account env s s' offered ended \<longleftrightarrow>
     (\<exists>xs rest out h. xs @ rest = offered
      \<and> sk_events (st_sink s') = sk_events (st_sink s) @ out
      \<and> st_history s' = st_history s @ h \<and> (\<forall>ev \<in> set h. quiet ev)
      \<and> st_body_bytes s' = st_body_bytes s + length xs
      \<and> rs_received_bytes (st_resume s') = saturating_add_u64 (rs_received_bytes (st_resume s)) (length xs)
      \<and> rs_range_supported (st_resume s') = rs_range_supported (st_resume s)
      \<and> prefix (events_content out) (http_held (st_framer s) @ xs)
      \<and> (case ended of
           Ended reason n \<Rightarrow> rest = [] \<and> n = st_body_bytes s'
             \<and> ((\<forall>i. ce_deliver env i) \<longrightarrow> events_content out = http_held (st_framer s) @ xs)
         | Stopped \<Rightarrow> rest = []
             \<and> ((\<forall>i. ce_deliver env i) \<longrightarrow> events_content out = http_held (st_framer s) @ xs)
         | Aborted n \<Rightarrow> (\<forall>i. ce_deliver env i) \<longrightarrow>
             rest = [] \<and> length (events_content out) + n = length (http_held (st_framer s) @ xs)))"

lemma body_accountE:
  assumes "body_account env s s' offered ended"
  obtains xs rest out h where "xs @ rest = offered" "sk_events (st_sink s') = sk_events (st_sink s) @ out"
    "st_history s' = st_history s @ h" "\<forall>ev \<in> set h. quiet ev"
    "st_body_bytes s' = st_body_bytes s + length xs"
    "rs_received_bytes (st_resume s') = saturating_add_u64 (rs_received_bytes (st_resume s)) (length xs)"
    "rs_range_supported (st_resume s') = rs_range_supported (st_resume s)"
    "prefix (events_content out) (http_held (st_framer s) @ xs)"
    "case ended of
       Ended reason n \<Rightarrow> rest = [] \<and> n = st_body_bytes s'
         \<and> ((\<forall>i. ce_deliver env i) \<longrightarrow> events_content out = http_held (st_framer s) @ xs)
     | Stopped \<Rightarrow> rest = []
         \<and> ((\<forall>i. ce_deliver env i) \<longrightarrow> events_content out = http_held (st_framer s) @ xs)
     | Aborted n \<Rightarrow> (\<forall>i. ce_deliver env i) \<longrightarrow>
         rest = [] \<and> length (events_content out) + n = length (http_held (st_framer s) @ xs)"
  using assms unfolding body_account_def by blast

lemma body_account_ended:
  "body_account env s s' offered (Ended reason n) \<Longrightarrow>
     n = st_body_bytes s' \<and> st_body_bytes s' = st_body_bytes s + length offered
   \<and> rs_received_bytes (st_resume s') = saturating_add_u64 (rs_received_bytes (st_resume s)) (length offered)
   \<and> rs_range_supported (st_resume s') = rs_range_supported (st_resume s)"
  by (auto simp: body_account_def)

lemma body_account_history:
  "body_account env s s' offered ended \<Longrightarrow> \<exists>h. st_history s' = st_history s @ h"
  by (auto simp: body_account_def)

text \<open>A connection that ends without taking more of the body.\<close>

lemma body_account_last:
  assumes "stream_ok s" "sk_events (st_sink s') = sk_events (st_sink s) @ out"
    and "st_body_bytes s' = st_body_bytes s" "st_resume s' = st_resume s" "st_history s' = st_history s"
    and "prefix (events_content out) (http_held (st_framer s))"
    and "case ended of
        Ended reason n \<Rightarrow> n = st_body_bytes s'
          \<and> ((\<forall>i. ce_deliver env i) \<longrightarrow> events_content out = http_held (st_framer s))
      | Stopped \<Rightarrow> (\<forall>i. ce_deliver env i) \<longrightarrow> events_content out = http_held (st_framer s)
      | Aborted n \<Rightarrow> (\<forall>i. ce_deliver env i) \<longrightarrow>
          length (events_content out) + n = length (http_held (st_framer s))"
  shows "body_account env s s' [] ended"
  unfolding body_account_def
  by (intro exI [of _ "[]"] exI [of _ out])
    (use assms in \<open>simp add: stream_ok_def saturating_add_u64_exact split: connection_end.splits\<close>)

lemma body_account_step:
  assumes "body_progress env s s1 xs True" "body_account env s1 s' offered ended"
  shows "body_account env s s' (xs @ offered) ended"
proof -
  obtain o1 h1 where 1: "sk_events (st_sink s1) = sk_events (st_sink s) @ o1"
    "events_content o1 @ http_held (st_framer s1) = http_held (st_framer s) @ xs"
    "st_history s1 = st_history s @ h1" "\<forall>ev \<in> set h1. quiet ev"
    using assms(1) by (auto simp: body_progress_def)
  obtain ys rest o2 h2 where 2: "ys @ rest = offered"
    "sk_events (st_sink s') = sk_events (st_sink s1) @ o2"
    "st_history s' = st_history s1 @ h2" "\<forall>ev \<in> set h2. quiet ev"
    "st_body_bytes s' = st_body_bytes s1 + length ys"
    "rs_received_bytes (st_resume s') = saturating_add_u64 (rs_received_bytes (st_resume s1)) (length ys)"
    "rs_range_supported (st_resume s') = rs_range_supported (st_resume s1)"
    "prefix (events_content o2) (http_held (st_framer s1) @ ys)"
    "case ended of
        Ended reason n \<Rightarrow> rest = [] \<and> n = st_body_bytes s'
          \<and> ((\<forall>i. ce_deliver env i) \<longrightarrow> events_content o2 = http_held (st_framer s1) @ ys)
      | Stopped \<Rightarrow> rest = [] \<and> ((\<forall>i. ce_deliver env i) \<longrightarrow> events_content o2 = http_held (st_framer s1) @ ys)
      | Aborted n \<Rightarrow> (\<forall>i. ce_deliver env i) \<longrightarrow>
          rest = [] \<and> length (events_content o2) + n = length (http_held (st_framer s1) @ ys)"
    using assms(2) unfolding body_account_def by blast
  have whole: "events_content (o1 @ o2) = http_held (st_framer s) @ xs @ ys"
    if "events_content o2 = http_held (st_framer s1) @ ys"
    using that 1(2) by simp
  have len: "length (events_content (o1 @ o2)) + n = length (http_held (st_framer s) @ xs @ ys)"
    if "length (events_content o2) + n = length (http_held (st_framer s1) @ ys)" for n
    using that arg_cong [OF 1(2), of length] by simp
  have pre: "prefix (events_content (o1 @ o2)) (http_held (st_framer s) @ xs @ ys)"
    using 1(2) 2(8) by simp (metis append_assoc same_prefix_prefix)
  have q: "\<forall>ev \<in> set (h1 @ h2). quiet ev" using 1(4) 2(4) by auto
  show ?thesis
    unfolding body_account_def
    by (intro exI [of _ "xs @ ys"] exI [of _ rest] exI [of _ "o1 @ o2"] exI [of _ "h1 @ h2"])
      (use assms(1) 1(1,3) 2(1-3,5-7,9) whole len pre q in
        \<open>auto simp: body_progress_def saturating_add_twice split: connection_end.splits\<close>)
qed

lemma stream_body_account:
  assumes "stream_ok s" "memchr_ok (ce_memchr env)"
    and "stream_body env rc aq s script = Some (ended, s')"
  shows "body_account env s s' (body_input script) ended"
  using assms(1,3)
proof (induction script arbitrary: s)
  case Nil
  then show ?case by simp
next
  case (Cons ev script)
  let ?held = "http_held (st_framer s)"
  show ?case
  proof (cases ev)
    case BodyCancelled
    then show ?thesis using Cons.prems
      by (auto intro!: body_account_last [where out = "[]"] simp: http_buffered_held)
  next
    case BodyClosed
    then show ?thesis using Cons.prems
      by (auto intro!: body_account_last [where out = "[]"] simp: http_buffered_held)
  next
    case BodyStopped
    obtain rs s1 where f: "state_finish env aq s = (rs, s1)" by (metis surj_pair)
    obtain sent s2 where e: "state_emit_records env rs s1 = (sent, s2)" by (metis surj_pair)
    note fs = state_finish_spec [OF Cons.prems(1) f]
    obtain out where out: "sk_events (st_sink s2) = sk_events (st_sink s1) @ out"
      "events_content out = (if sent then content rs else [])" "(\<forall>i. ce_deliver env i) \<longrightarrow> sent"
      using state_emit_records_spec [OF e] by blast
    have "ended = Stopped" "s' = s2" using Cons.prems(2) BodyStopped f e by auto
    then show ?thesis
      using BodyStopped fs out state_emit_records_spec [OF e]
      by (auto intro!: body_account_last [OF Cons.prems(1), where out = out])
  next
    case BodyTimeout
    obtain sent0 s1 where e0: "state_emit env (CaptureError aq read_timeout_detail) s = (sent0, s1)"
      by (metis surj_pair)
    obtain o0 where o0: "sk_events (st_sink s1) = sk_events (st_sink s) @ o0" "events_content o0 = []"
      using state_emit_spec [OF e0] by auto
    note es = state_emit_spec [OF e0]
    have ok1: "stream_ok s1" using Cons.prems(1) es by (simp add: stream_ok_def)
    obtain rs s2 where f: "state_finish env aq s1 = (rs, s2)" by (metis surj_pair)
    note fs = state_finish_spec [OF ok1 f]
    obtain sent s3 where e: "state_emit_records env rs s2 = (sent, s3)" by (metis surj_pair)
    obtain out where out: "sk_events (st_sink s3) = sk_events (st_sink s2) @ out"
      "events_content out = (if sent then content rs else [])" "(\<forall>i. ce_deliver env i) \<longrightarrow> sent"
      using state_emit_records_spec [OF e] by blast
    have "ended = Ended (if http_buffered_len (st_framer s) > 0 then TruncatedFrame (http_buffered_len (st_framer s))
        else ReadTimeout) (st_body_bytes s3)" "s' = s3"
      using Cons.prems(2) BodyTimeout e0 f e by (auto simp: Let_def)
    then show ?thesis
      using BodyTimeout es fs out o0 state_emit_records_spec [OF e]
      by (auto intro!: body_account_last [OF Cons.prems(1), where out = "o0 @ out"])
  next
    case (BodyError detail)
    obtain rs s1 where f: "state_finish env aq s = (rs, s1)" by (metis surj_pair)
    note fs = state_finish_spec [OF Cons.prems(1) f]
    obtain sent s2 where e: "state_emit_records env rs s1 = (sent, s2)" by (metis surj_pair)
    obtain out where out: "sk_events (st_sink s2) = sk_events (st_sink s1) @ out"
      "events_content out = (if sent then content rs else [])" "(\<forall>i. ce_deliver env i) \<longrightarrow> sent"
      using state_emit_records_spec [OF e] by blast
    obtain sent3 s3 where e3: "state_emit env (CaptureError aq detail) s2 = (sent3, s3)" by (metis surj_pair)
    obtain o3 where o3: "sk_events (st_sink s3) = sk_events (st_sink s2) @ o3" "events_content o3 = []"
      using state_emit_spec [OF e3] by auto
    have "ended = Ended (if http_buffered_len (st_framer s) > 0 then TruncatedFrame (http_buffered_len (st_framer s))
        else Transport detail) (st_body_bytes s3)" "s' = s3"
      using Cons.prems(2) BodyError f e e3 by (auto simp: Let_def)
    then show ?thesis
      using BodyError fs out o3 state_emit_records_spec [OF e] state_emit_spec [OF e3]
      by (auto intro!: body_account_last [OF Cons.prems(1), where out = "out @ o3"])
  next
    case BodyEnd
    obtain rs s1 where f: "state_finish env aq s = (rs, s1)" by (metis surj_pair)
    note fs = state_finish_spec [OF Cons.prems(1) f]
    obtain sent s2 where e: "state_emit_records env rs s1 = (sent, s2)" by (metis surj_pair)
    obtain out where out: "sk_events (st_sink s2) = sk_events (st_sink s1) @ out"
      "events_content out = (if sent then content rs else [])" "(\<forall>i. ce_deliver env i) \<longrightarrow> sent"
      using state_emit_records_spec [OF e] by blast
    have "ended = (if \<not> sent then Aborted 0 else
        Ended (if http_buffered_len (st_framer s) > 0 then TruncatedFrame (http_buffered_len (st_framer s))
          else EndOfStream) (st_body_bytes s2))" "s' = s2"
      using Cons.prems(2) BodyEnd f e by (auto simp: Let_def split: if_splits)
    then show ?thesis
      using BodyEnd fs out state_emit_records_spec [OF e]
      by (auto intro!: body_account_last [OF Cons.prems(1), where out = out])
  next
    case (BodyChunk bytes)
    obtain sent s1 rest xs where b: "body_slices env aq s (chunks_of (max rc 1) bytes) = Some (sent, s1)"
      "body_progress env s s1 xs sent" "xs @ rest = concat (chunks_of (max rc 1) bytes)" "sent \<longrightarrow> rest = []"
      using body_slices_progress [OF Cons.prems(1) assms(2)] by blast
    have bytes: "xs @ rest = bytes" using b(3) by (simp add: concat_chunks_of)
    show ?thesis
    proof (cases sent)
      case True
      then have "body_account env s1 s' (body_input script) ended"
        using Cons.IH [of s1] b(1,2) Cons.prems(2) BodyChunk by (simp add: body_progress_def)
      then show ?thesis
        using body_account_step [of env s s1 xs] b(2,4) bytes True BodyChunk by simp
    next
      case False
      then have eq: "ended = Aborted (http_buffered_len (st_framer s1))" "s' = s1"
        using b(1) Cons.prems(2) BodyChunk by auto
      have nd: "\<not> (\<forall>i. ce_deliver env i)" using b(2) False by (auto simp: body_progress_def)
      obtain out h where "sk_events (st_sink s1) = sk_events (st_sink s) @ out"
        "prefix (events_content out) (?held @ xs)" "st_history s1 = st_history s @ h" "\<forall>ev \<in> set h. quiet ev"
        using b(2) by (auto simp: body_progress_def)
      then show ?thesis
        unfolding body_account_def
        by (intro exI [of _ xs] exI [of _ "rest @ body_input script"] exI [of _ out] exI [of _ h])
          (use b(2) bytes BodyChunk eq nd in \<open>auto simp: body_progress_def\<close>)
    qed
  qed
qed

lemma stream_body_returns:
  assumes "stream_ok s" "memchr_ok (ce_memchr env)" "\<exists>ev \<in> set script. ends_body ev"
  shows "stream_body env rc aq s script \<noteq> None"
  using assms(1,3)
proof (induction script arbitrary: s)
  case Nil
  then show ?case by simp
next
  case (Cons ev script)
  show ?case
  proof (cases "ends_body ev")
    case True
    then show ?thesis by (cases ev) (auto simp: ends_body_def Let_def split: prod.splits)
  next
    case False
    then obtain bytes where ev: "ev = BodyChunk bytes" by (cases ev) (auto simp: ends_body_def)
    obtain sent s1 xs where b: "body_slices env aq s (chunks_of (max rc 1) bytes) = Some (sent, s1)"
      "body_progress env s s1 xs sent"
      using body_slices_progress [OF Cons.prems(1) assms(2)] by blast
    have "stream_body env rc aq s1 script \<noteq> None"
      using Cons.IH [of s1] b(2) Cons.prems(2) False by (auto simp: body_progress_def)
    then show ?thesis using b(1) ev by (cases sent) auto
  qed
qed

section \<open>The history of a session\<close>

text \<open>A successful response streams its body from a state with a fresh framer.\<close>

lemma connect_success:
  assumes "rs_received_bytes resume \<le> u64_max" "200 \<le> status" "status < 300"
    and "connect_and_stream header_ok env session aq mode (resume, k, history) (Response status accepts body)
        = Some (ended, resume', k', history')"
  obtains s s' where "stream_body env (ss_read_chunk_bytes session) aq s body = Some (ended, s')"
    "stream_ok s" "http_held (st_framer s) = []" "st_body_bytes s = 0" "st_sink s = k"
    "\<exists>b. st_history s = history @ [HttpConnected aq status b accepts]
       \<and> (b \<longleftrightarrow> (case mode of ByteRange _ \<Rightarrow> status = 206 | LastEventId _ \<Rightarrow> True | _ \<Rightarrow> False))"
    "rs_received_bytes (st_resume s)
       = (case mode of ByteRange _ \<Rightarrow> if status \<noteq> 206 then 0 else rs_received_bytes resume
          | _ \<Rightarrow> rs_received_bytes resume)"
    "rs_range_supported (st_resume s) = accepts"
    "resume' = st_resume s'" "k' = st_sink s'" "history' = st_history s'"
proof -
  define r1 where "r1 = (case mode of
      LastEventId i \<Rightarrow>
        if request_header header_ok mode \<noteq> None then resume else resume\<lparr>rs_last_event_id := None\<rparr>
    | _ \<Rightarrow> resume)"
  define r2 where "r2 = (case mode of
      ByteRange _ \<Rightarrow> if \<not> status = 206 then r1\<lparr>rs_received_bytes := 0\<rparr> else r1
    | _ \<Rightarrow> r1)"
  define b where "b = (case mode of ByteRange _ \<Rightarrow> status = 206 | LastEventId _ \<Rightarrow> True | _ \<Rightarrow> False)"
  define s where "s = \<lparr>st_framer = http_framer_new (ss_framing session) (ss_http session),
      st_notices = notices_default, st_body_bytes = 0, st_resume = r2\<lparr>rs_range_supported := accepts\<rparr>,
      st_sink = k, st_history = history @ [HttpConnected aq status b accepts]\<rparr>"
  have ok: "(\<not> (200 \<le> status \<and> status < 300)) = False" using assms(2,3) by simp
  have "(case stream_body env (ss_read_chunk_bytes session) aq s body of
       None \<Rightarrow> None
     | Some (ended, s') \<Rightarrow> Some (ended, st_resume s', st_sink s', st_history s'))
     = Some (ended, resume', k', history')"
    using assms(4)
    unfolding connect_and_stream_def prod.case Let_def connect_event.case ok if_False
      r1_def [symmetric] r2_def [symmetric] b_def [symmetric] s_def [symmetric] .
  then obtain s' where "stream_body env (ss_read_chunk_bytes session) aq s body = Some (ended, s')"
    "resume' = st_resume s'" "k' = st_sink s'" "history' = st_history s'"
    by (auto split: option.splits)
  moreover have "stream_ok s"
    using assms(1) by (auto simp: s_def r2_def r1_def stream_ok_def split: resume_mode.splits)
  moreover have "rs_received_bytes (st_resume s)
       = (case mode of ByteRange _ \<Rightarrow> if status \<noteq> 206 then 0 else rs_received_bytes resume
          | _ \<Rightarrow> rs_received_bytes resume)"
    by (simp add: s_def r2_def r1_def split: resume_mode.splits)
  moreover have "\<exists>b. st_history s = history @ [HttpConnected aq status b accepts]
       \<and> (b \<longleftrightarrow> (case mode of ByteRange _ \<Rightarrow> status = 206 | LastEventId _ \<Rightarrow> True | _ \<Rightarrow> False))"
    by (intro exI [of _ b]) (simp add: s_def b_def)
  moreover have "http_held (st_framer s) = []" "st_body_bytes s = 0" "st_sink s = k"
    "rs_range_supported (st_resume s) = accepts"
    by (simp_all add: s_def)
  ultimately show ?thesis using that [of s s'] by blast
qed

text \<open>What connecting adds to the history never announces a connection or a gap.\<close>

lemma connect_quiet:
  assumes "memchr_ok (ce_memchr env)" "rs_received_bytes resume \<le> u64_max"
    and "connect_and_stream header_ok env session aq mode (resume, k, history) ev = Some (ended, resume', k', history')"
  shows "(\<exists>h. history' = history @ h \<and> (\<forall>e \<in> set h. quiet e)) \<and> rs_received_bytes resume' \<le> u64_max"
proof (cases ev)
  case (Response status accepts body)
  show ?thesis
  proof (cases "200 \<le> status \<and> status < 300")
    case False
    then have "history' = history @ [HttpRejected aq status (rejected_detail status (ss_endpoint session))]"
      "rs_received_bytes resume' = rs_received_bytes resume"
      using assms(3) Response
      by (auto simp: connect_and_stream_def Let_def split: prod.splits resume_mode.splits if_splits)
    then show ?thesis using assms(2) by (simp add: quiet_def)
  next
    case True
    from connect_success [OF assms(2) True [THEN conjunct1] True [THEN conjunct2] assms(3) [unfolded Response]]
    obtain s s' where s: "stream_body env (ss_read_chunk_bytes session) aq s body = Some (ended, s')"
      "stream_ok s" "\<exists>b. st_history s = history @ [HttpConnected aq status b accepts]"
      "history' = st_history s'" "resume' = st_resume s'" by metis
    obtain h n where h: "st_history s' = st_history s @ h" "\<forall>e \<in> set h. quiet e"
      "rs_received_bytes (st_resume s') = saturating_add_u64 (rs_received_bytes (st_resume s)) n"
      using stream_body_account [OF s(2) assms(1) s(1)] by (auto simp: body_account_def)
    obtain b where "st_history s = history @ [HttpConnected aq status b accepts]" using s(3) by blast
    then have "history' = history @ (HttpConnected aq status b accepts # h)" using s(4) h(1) by simp
    moreover have "\<forall>e \<in> set (HttpConnected aq status b accepts # h). quiet e"
      using h(2) by (simp add: quiet_def)
    ultimately show ?thesis using h(3) s(5) saturating_add_u64_le by metis
  qed
qed (use assms(2,3) in \<open>auto simp: connect_and_stream_def Let_def split: prod.splits resume_mode.splits if_splits\<close>)

text \<open>Reading the history as a chain of connections: every connection after the first is announced
  together with the gap to the one before it.  The result is the last connection, or \<open>None\<close>
  where the chain is broken.\<close>

fun gap_chain :: "uuid option \<Rightarrow> source_event list \<Rightarrow> uuid option option" where
  "gap_chain previous [] = Some previous"
| "gap_chain previous (HttpConnecting aq n ep mode # rest) =
    (case previous of
       None \<Rightarrow> if mode = Initial then gap_chain (Some aq) rest else None
     | Some p \<Rightarrow>
         (case rest of
            CaptureGap p' aq' mode' # rest' \<Rightarrow>
              if p' = p \<and> aq' = aq \<and> mode' = mode \<and> mode \<noteq> Initial then gap_chain (Some aq) rest' else None
          | _ \<Rightarrow> None))"
| "gap_chain previous (ev # rest) = (if quiet ev then gap_chain previous rest else None)"

lemma gap_chain_append:
  "gap_chain p xs = Some p' \<Longrightarrow> gap_chain p (xs @ ys) = gap_chain p' ys"
  by (induction p xs rule: gap_chain.induct)
    (auto split: if_splits option.splits list.splits source_event.splits)

lemma gap_chain_quiet: "\<forall>ev \<in> set xs. quiet ev \<Longrightarrow> gap_chain p xs = Some p"
proof (induction xs)
  case Nil
  then show ?case by simp
next
  case (Cons ev xs)
  then show ?case by (cases ev) (auto simp: quiet_def)
qed

lemma gap_chain_turn:
  assumes "mode = resume_mode_of session resume (previous = None)"
  shows "gap_chain previous (HttpConnecting aq n ep mode #
     (case previous of None \<Rightarrow> [] | Some p \<Rightarrow> [CaptureGap p aq mode])) = Some (Some aq)"
  using assms
  by (auto simp: resume_mode_of_def split: option.splits http_framing.splits if_splits)

definition session_ok :: "session_state \<Rightarrow> bool" where
  "session_ok s \<longleftrightarrow> gap_chain None (se_history s) = Some (se_previous s)
     \<and> rs_received_bytes (se_resume s) \<le> u64_max"

lemma retry_step_history:
  assumes "retry_step env session round s = r"
  shows "\<exists>h s'. (\<forall>ev \<in> set h. quiet ev) \<and> se_history s' = se_history s @ h
    \<and> se_previous s' = se_previous s \<and> se_resume s' = se_resume s
    \<and> (r = Inr s' \<or> (\<exists>c. r = Inl (c, s')))"
  using assms
  by (auto simp: retry_step_def Let_def quiet_def split: prod.splits wait_event.splits if_splits)

lemma session_turn_chain:
  assumes "session_ok s" "memchr_ok (ce_memchr env)"
    and "session_turn header_ok env session round s = Some r"
  shows "case r of Inl (c, s') \<Rightarrow> gap_chain None (se_history s') \<noteq> None | Inr s' \<Rightarrow> session_ok s'"
proof -
  let ?aq = "hr_id round" and ?n = "min (se_connection s + 1) u32_max"
  let ?mode = "resume_mode_of session (se_resume s) (se_previous s = None)"
  let ?gap = "case se_previous s of None \<Rightarrow> [] | Some p \<Rightarrow> [CaptureGap p ?aq ?mode]"
  let ?history = "se_history s @ [HttpConnecting ?aq ?n (ss_endpoint session) ?mode] @ ?gap"
  have chain: "gap_chain None ?history = Some (Some ?aq)"
    using gap_chain_append [of None "se_history s" "se_previous s"] assms(1)
      gap_chain_turn [OF refl, where previous = "se_previous s" and session = session and resume = "se_resume s"]
    by (simp add: session_ok_def)
  obtain sent k where em: "emit env (Boundary ?aq Started) (se_sink s) = (sent, k)" by (metis surj_pair)
  show ?thesis
  proof (cases sent)
    case False
    then have "r = Inl (aborted 0, s\<lparr>se_connection := ?n, se_history := ?history, se_sink := k\<rparr>)"
      using assms(3) em by (simp add: session_turn_def Let_def)
    then show ?thesis using chain by simp
  next
    case True
    obtain ended resume k2 history2 where c: "connect_and_stream header_ok env session ?aq ?mode
        (se_resume s, k, ?history) (hr_connect round) = Some (ended, resume, k2, history2)"
      using assms(3) em True by (auto simp: session_turn_def Let_def split: option.splits)
    obtain h where h: "history2 = ?history @ h" "\<forall>e \<in> set h. quiet e" "rs_received_bytes resume \<le> u64_max"
      using connect_quiet [OF assms(2) _ c] assms(1) by (auto simp: session_ok_def)
    have chain2: "gap_chain None history2 = Some (Some ?aq)"
      using gap_chain_append [OF chain, of h] gap_chain_quiet [OF h(2)] h(1) by simp
    let ?s2 = "s\<lparr>se_connection := ?n, se_history := ?history, se_sink := k, se_previous := Some ?aq,
      se_resume := resume, se_sink := k2, se_history := history2\<rparr>"
    have turn: "Some r = (case ended of
        Aborted n \<Rightarrow> Some (Inl (aborted n, ?s2))
      | Stopped \<Rightarrow> Some (Inl (completion_default, ?s2))
      | Ended reason body \<Rightarrow> Some (retry_step env session round
          (?s2\<lparr>se_history := history2 @ [HttpDisconnected ?aq reason body]\<rparr>)))"
      using assms(3) em True c by (simp add: session_turn_def Let_def split: connection_end.splits)
    show ?thesis
    proof (cases ended)
      case (Ended reason body)
      let ?s3 = "?s2\<lparr>se_history := history2 @ [HttpDisconnected ?aq reason body]\<rparr>"
      obtain h' s' where r: "\<forall>ev \<in> set h'. quiet ev" "se_history s' = se_history ?s3 @ h'"
        "se_previous s' = se_previous ?s3" "se_resume s' = se_resume ?s3"
        "r = Inr s' \<or> (\<exists>c. r = Inl (c, s'))"
        using retry_step_history [of env session round ?s3 r] turn Ended by auto
      have "gap_chain None (history2 @ HttpDisconnected ?aq reason body # h') = Some (Some ?aq)"
        using gap_chain_append [OF chain2] gap_chain_quiet [of "HttpDisconnected ?aq reason body # h'"] r(1)
        by (simp add: quiet_def)
      then show ?thesis using r h(3) by (auto simp: session_ok_def)
    qed (use turn chain2 in auto)
  qed
qed

section \<open>The reconnect budget of a session\<close>

text \<open>The instants at which the session decided to connect again.\<close>

fun reconnect_instants ::
  "(byte list \<Rightarrow> bool) \<Rightarrow> capture_env \<Rightarrow> http_session \<Rightarrow> session_state \<Rightarrow> http_round list \<Rightarrow> nat list" where
  "reconnect_instants header_ok env session s [] = []"
| "reconnect_instants header_ok env session s (round # script) =
    (case session_turn header_ok env session round s of
       Some (Inr s') \<Rightarrow> hr_now round # reconnect_instants header_ok env session s' script
     | _ \<Rightarrow> [])"

definition session_attempt ::
  "(byte list \<Rightarrow> bool) \<Rightarrow> capture_env \<Rightarrow> http_session \<Rightarrow> session_state \<Rightarrow> http_round \<Rightarrow> nat
    \<Rightarrow> bool \<times> session_state" where
  "session_attempt header_ok env session s round now =
    (case session_turn header_ok env session (round\<lparr>hr_now := now\<rparr>) s of
       Some (Inr s') \<Rightarrow> (True, s')
     | _ \<Rightarrow> (False, s))"

lemma retry_step_window:
  assumes "retry_step env session round s = Inr s'" "window_inv limit window (se_window s) g t"
    and "t \<le> hr_now round"
  shows "window_try (se_window s) () (hr_now round) = (True, se_window s')"
proof -
  let ?now = "hr_now round" and ?w1 = "window_expire (se_window s) (hr_now round)"
  note inv1 = window_expire_inv [OF assms(2,3)]
  have permits: "window_permits (se_window s) ?now = (length (aw_attempts ?w1) < limit, ?w1)"
    using inv1 by (simp add: window_permits_def window_used_def Let_def window_inv_def)
  have small: "length (aw_attempts ?w1) < limit"
    using assms(1) permits by (auto simp: retry_step_def Let_def split: if_splits prod.splits)
  note again = window_expire_again [OF window_record_inv [OF inv1 small]]
  have "se_window s' = window_record ?w1 ?now"
    using assms(1) permits small again
    by (auto simp: retry_step_def window_used_def Let_def split: if_splits prod.splits wait_event.splits)
  then show ?thesis using permits small by (simp add: window_try_def)
qed

lemma session_turn_window:
  assumes "session_turn header_ok env session round s = Some (Inr s')"
    and "window_inv limit window (se_window s) g t" "t \<le> hr_now round"
  shows "window_try (se_window s) () (hr_now round) = (True, se_window s')"
proof -
  obtain s0 where "retry_step env session round s0 = Inr s'" "se_window s0 = se_window s"
    using assms(1)
    by (auto simp: session_turn_def Let_def split: prod.splits option.splits connection_end.splits if_splits)
  then show ?thesis using retry_step_window assms(2,3) by metis
qed

interpretation hs: attempt_budget "session_attempt header_ok env session"
    "\<lambda>s g t. window_hist limit window (se_window s) g t" limit window
  for header_ok env session limit window
proof
  fix s s' :: session_state and g t0 now and c :: http_round and granted
  assume hist: "window_hist limit window (se_window s) g t0" "t0 \<le> now"
  from window_histE [OF hist] obtain t
    where t: "t \<le> now" and inv: "window_inv limit window (se_window s) g t" .
  have same: "window_hist limit window (se_window s) g now"
    using t inv by (auto simp: window_hist_def)
  have tried: "window_try (se_window s) () now = (True, se_window s')"
    if "session_attempt header_ok env session s c now = (True, s')"
    using that session_turn_window [of header_ok env session "c\<lparr>hr_now := now\<rparr>" s s'] inv t
    by (auto simp: session_attempt_def split: option.splits sum.splits)
  {
    assume att: "session_attempt header_ok env session s c now = (granted, s')"
    show "window_hist limit window (se_window s') (if granted then g @ [now] else g) now"
    proof (cases granted)
      case True
      then show ?thesis using wb.attempt_inv [OF window_histI [OF inv] t] tried att by fastforce
    next
      case False
      then have "s' = s" using att by (auto simp: session_attempt_def split: option.splits sum.splits)
      then show ?thesis using same False by simp
    qed
  }
  {
    assume "session_attempt header_ok env session s c now = (True, s')"
    then show "length (filter (\<lambda>y. now - y < window) (g @ [now])) \<le> limit"
      using wb.attempt_limit [OF window_histI [OF inv] t] tried by blast
  }
qed

lemma reconnect_instants_granted:
  "\<exists>n. reconnect_instants header_ok env session s script
     = granted_times (session_attempt header_ok env session) s (map (\<lambda>r. (r, hr_now r)) (take n script))"
proof (induction script arbitrary: s)
  case Nil
  then show ?case by simp
next
  case (Cons round script)
  show ?case
  proof (cases "\<exists>s'. session_turn header_ok env session round s = Some (Inr s')")
    case True
    then obtain s' where s': "session_turn header_ok env session round s = Some (Inr s')" by blast
    obtain n where "reconnect_instants header_ok env session s' script
       = granted_times (session_attempt header_ok env session) s' (map (\<lambda>r. (r, hr_now r)) (take n script))"
      using Cons.IH by blast
    moreover have "session_attempt header_ok env session s round (hr_now round) = (True, s')"
      using s' by (simp add: session_attempt_def)
    ultimately show ?thesis using s' by (intro exI [of _ "Suc n"]) simp
  next
    case False
    then show ?thesis by (intro exI [of _ 0]) (auto split: option.splits sum.splits)
  qed
qed

section \<open>Small values for the witnesses\<close>

abbreviation sample_env :: capture_env where
  "sample_env \<equiv> \<lparr>ce_memchr = find_byte, ce_deliver = \<lambda>_. True, ce_clock = \<lambda>_. ((\<lambda>_. 0), 0)\<rparr>"

abbreviation sample_session :: http_session where
  "sample_session \<equiv> \<lparr>ss_endpoint = ''http://h/'', ss_framing = FrameNewline,
     ss_reconnect = reconnect_policy_default, ss_http = http_limits_default, ss_read_chunk_bytes = 8\<rparr>"

abbreviation sample_session_state :: session_state where
  "sample_session_state \<equiv> \<lparr>se_window = window_new 10 (300 * 1000000000), se_jitter = Jitter 1,
     se_resume = resume_default, se_previous = None, se_connection = 0, se_sink = new_sink, se_history = []\<rparr>"

text \<open>A response of two bytes without a terminator, then the end of the stream.\<close>

lemma sample_two_bytes:
  "\<exists>resume' k' history'. connect_and_stream (\<lambda>_. False) sample_env sample_session [1] mode
      (resume, new_sink, []) (Response 200 True [BodyChunk [97, 98], BodyEnd])
    = Some (Ended (TruncatedFrame 2) 2, resume', k', history')"
  by (simp add: connect_and_stream_def chunks_of.simps body_slice_def tick_clock_def http_framer_new_def
      http_limits_default_def http_push_def framer_push_def framer_lines.simps framer_cuts.simps framer_new_def
      charge_cpu_def notices_report_def notices_default_def state_emit_records_def emit_records_def emit_def
      state_finish_def http_finish_def framer_finish_def http_buffered_len_def framer_buffered_len_def
      framer_record_def Let_def)

lemma sample_emit [simp]: "fst (emit sample_env ev k)"
  by (simp add: emit_def)

lemma sample_retry:
  assumes "se_window s = window_new 10 (300 * 1000000000)" "hr_wait round = Waited"
  shows "\<exists>s'. retry_step sample_env sample_session round s = Inr s'"
proof -
  have w: "window_permits (se_window s) t = (True, window_new 10 (300 * 1000000000))" for t
    using assms(1) by (simp add: window_permits_def window_used_def window_expire_def window_new_def)
  show ?thesis
    using assms(2) by (simp add: retry_step_def w reconnect_policy_default_def Let_def split: prod.splits)
qed

lemma sample_first_turn:
  "\<exists>s'. session_turn (\<lambda>_. True) sample_env sample_session
      \<lparr>hr_id = [1], hr_connect = ConnectError ''refused'', hr_now = 3, hr_wait = Waited\<rparr> sample_session_state
    = Some (Inr s')"
  by (simp add: session_turn_def connect_and_stream_def emit_def resume_mode_of_def Let_def sample_retry)

lemma sample_second_turn:
  "\<exists>c s'. session_turn (\<lambda>_. True) sample_env sample_session
      \<lparr>hr_id = [2], hr_connect = ConnectStopped, hr_now = 5, hr_wait = Waited\<rparr> s
    = Some (Inl (c, s'))"
  by (simp add: session_turn_def connect_and_stream_def emit_def Let_def)

section \<open>Properties\<close>

text \<open>C17. One HTTP connection accounts for its body.  For either framing and any limits, a successful
  response whose body script ends returns; what is published is, in order, a prefix of the body.
  With every hand-over succeeding: when the connection ended or was stopped, the whole body is
  published byte for byte and the reported \<open>body_bytes\<close> is its length; when it was aborted, what is
  not published is exactly the count reported as discarded.\<close>

theorem connection_accounts_for_body:
  assumes "memchr_ok (ce_memchr env)" "rs_received_bytes resume \<le> u64_max" "200 \<le> status" "status < 300"
    and "connect_and_stream header_ok env session aq mode (resume, k, history) (Response status accepts body)
        = Some (ended, resume', k', history')"
  shows "\<exists>out. sk_events k' = sk_events k @ out \<and> prefix (events_content out) (body_input body)
    \<and> ((\<forall>i. ce_deliver env i) \<longrightarrow>
         (case ended of
            Ended reason n \<Rightarrow> events_content out = body_input body \<and> n = length (body_input body)
          | Stopped \<Rightarrow> events_content out = body_input body
          | Aborted n \<Rightarrow> length (events_content out) + n = length (body_input body)))"
proof -
  obtain s s' where s: "stream_body env (ss_read_chunk_bytes session) aq s body = Some (ended, s')"
    "stream_ok s" "http_held (st_framer s) = []" "st_body_bytes s = 0" "st_sink s = k" "k' = st_sink s'"
    using connect_success [OF assms(2-5)] by metis
  obtain xs rest out where o: "xs @ rest = body_input body" "sk_events k' = sk_events k @ out"
    "st_body_bytes s' = length xs" "prefix (events_content out) xs"
    "case ended of
       Ended reason n \<Rightarrow> rest = [] \<and> n = st_body_bytes s' \<and> ((\<forall>i. ce_deliver env i) \<longrightarrow> events_content out = xs)
     | Stopped \<Rightarrow> rest = [] \<and> ((\<forall>i. ce_deliver env i) \<longrightarrow> events_content out = xs)
     | Aborted n \<Rightarrow> (\<forall>i. ce_deliver env i) \<longrightarrow> rest = [] \<and> length (events_content out) + n = length xs"
    by (rule body_accountE [OF stream_body_account [OF s(2) assms(1) s(1)],
          unfolded s(3-5) s(6) [symmetric] append_Nil add_0]) (rule that; assumption)
  have "prefix (events_content out) (body_input body)" using o(1,4) by (metis prefix_prefix)
  with o show ?thesis by (intro exI [of _ out]) (auto split: connection_end.splits)
qed

theorem connection_accounts_for_body_witness:
  "\<exists>resume' k' history' out. connect_and_stream (\<lambda>_. False) sample_env sample_session [1] Initial
      (resume_default, new_sink, []) (Response 200 True [BodyChunk [97, 98], BodyEnd])
    = Some (Ended (TruncatedFrame 2) 2, resume', k', history')
    \<and> sk_events k' = out \<and> events_content out = [97, 98]"
proof -
  obtain resume' k' history' where c: "connect_and_stream (\<lambda>_. False) sample_env sample_session [1] Initial
      (resume_default, new_sink, []) (Response 200 True [BodyChunk [97, 98], BodyEnd])
    = Some (Ended (TruncatedFrame 2) 2, resume', k', history')" using sample_two_bytes by blast
  have "memchr_ok (ce_memchr sample_env)" "rs_received_bytes resume_default \<le> u64_max"
    by (simp_all add: resume_default_def)
  from connection_accounts_for_body [OF this _ _ c] c show ?thesis by (auto simp: new_sink_def)
qed

text \<open>No reconnect goes unannounced.  In the history of every session, for any network script,
  the first connection is announced as initial, and each later connection is announced with its
  resume mode and immediately followed by a capture gap that names the connection before it and
  carries the same resume mode; no gap is announced otherwise.\<close>

theorem reconnects_are_announced:
  assumes "memchr_ok (ce_memchr env)"
    and "run_http header_ok env session j script = Some (c, s)"
  shows "\<exists>last_connection. gap_chain None (se_history s) = Some last_connection"
proof -
  have loop: "gap_chain None (se_history s) \<noteq> None"
    if "session_ok s0" "session_loop header_ok env session s0 script = Some (c, s)" for s0
    using that
  proof (induction script arbitrary: s0)
    case Nil
    then show ?case by simp
  next
    case (Cons round script)
    then show ?case
      using session_turn_chain [OF Cons.prems(1) assms(1), of header_ok session round]
      by (auto split: option.splits sum.splits)
  qed
  have start: "session_ok \<lparr>se_window = window_new (rp_maximum_attempts (ss_reconnect session))
      (rp_attempt_window (ss_reconnect session)), se_jitter = j, se_resume = resume_default,
      se_previous = None, se_connection = 0, se_sink = new_sink, se_history = []\<rparr>"
    by (simp add: session_ok_def resume_default_def)
  have "gap_chain None (se_history s) \<noteq> None"
    using loop [OF start] assms(2) unfolding run_http_def by blast
  then show ?thesis by blast
qed

theorem reconnects_are_announced_witness:
  "\<exists>c s. run_http (\<lambda>_. True) sample_env sample_session (Jitter 1)
      [\<lparr>hr_id = [1], hr_connect = ConnectError ''refused'', hr_now = 3, hr_wait = Waited\<rparr>,
       \<lparr>hr_id = [2], hr_connect = ConnectStopped, hr_now = 5, hr_wait = Waited\<rparr>] = Some (c, s)
    \<and> (\<exists>l. gap_chain None (se_history s) = Some l)"
proof -
  obtain s1 where t1: "session_turn (\<lambda>_. True) sample_env sample_session
      \<lparr>hr_id = [1], hr_connect = ConnectError ''refused'', hr_now = 3, hr_wait = Waited\<rparr> sample_session_state
    = Some (Inr s1)" using sample_first_turn by blast
  obtain c s where t2: "session_turn (\<lambda>_. True) sample_env sample_session
      \<lparr>hr_id = [2], hr_connect = ConnectStopped, hr_now = 5, hr_wait = Waited\<rparr> s1 = Some (Inl (c, s))"
    using sample_second_turn by blast
  have start: "window_new (rp_maximum_attempts reconnect_policy_default)
      (rp_attempt_window reconnect_policy_default) = window_new 10 (300 * 1000000000)"
    by (simp add: reconnect_policy_default_def)
  have r: "run_http (\<lambda>_. True) sample_env sample_session (Jitter 1)
      [\<lparr>hr_id = [1], hr_connect = ConnectError ''refused'', hr_now = 3, hr_wait = Waited\<rparr>,
       \<lparr>hr_id = [2], hr_connect = ConnectStopped, hr_now = 5, hr_wait = Waited\<rparr>] = Some (c, s)"
    unfolding run_http_def http_session.select_convs start session_loop.simps t1 option.case sum.case t2 ..
  have "memchr_ok (ce_memchr sample_env)" by simp
  from reconnects_are_announced [OF this r] r show ?thesis by blast
qed

text \<open>The reconnect budget.  Over a whole session, with retry decisions at non-decreasing
  instants, the decisions to connect again that fall in one \<open>attempt_window\<close> never exceed
  \<open>maximum_attempts\<close> (up to the 1024 attempts the window tracks).\<close>

theorem reconnect_budget:
  assumes "0 < rp_attempt_window (ss_reconnect session)"
    and "rp_maximum_attempts (ss_reconnect session) \<le> maximum_tracked_attempts"
    and "sorted (map hr_now script)"
    and "se_window s = window_new (rp_maximum_attempts (ss_reconnect session))
        (rp_attempt_window (ss_reconnect session))"
    and "reconnect_instants header_ok env session s script = pre @ x # post"
  shows "length (filter (\<lambda>y. x - y < rp_attempt_window (ss_reconnect session)) (pre @ [x]))
    \<le> rp_maximum_attempts (ss_reconnect session)"
proof -
  let ?limit = "rp_maximum_attempts (ss_reconnect session)"
  let ?window = "rp_attempt_window (ss_reconnect session)"
  obtain n where n: "granted_times (session_attempt header_ok env session) s
      (map (\<lambda>r. (r, hr_now r)) (take n script)) = pre @ x # post"
    using reconnect_instants_granted [of header_ok env session s script] assms(5) by metis
  have "sorted (take n (map hr_now script))" using assms(3) by (rule sorted_wrt_take)
  then have "sorted (0 # map snd (map (\<lambda>r. (r, hr_now r)) (take n script)))"
    by (simp add: comp_def take_map)
  from hs.granted_in_budget [OF _ this n, of ?limit ?window "[]"] show ?thesis
    using window_hist_new [OF assms(1,2)] assms(4) by simp
qed

theorem reconnect_budget_witness:
  "length (filter (\<lambda>y. 3 - y < 300 * 1000000000) ([] @ [3 :: nat])) \<le> 10"
proof -
  have "reconnect_instants (\<lambda>_. True) sample_env sample_session sample_session_state
      [\<lparr>hr_id = [1], hr_connect = ConnectError ''refused'', hr_now = 3, hr_wait = Waited\<rparr>] = [] @ 3 # []"
    using sample_first_turn by fastforce
  from reconnect_budget [OF _ _ _ _ this] show ?thesis
    by (simp add: reconnect_policy_default_def maximum_tracked_attempts_def)
qed

text \<open>The byte cursor accumulates over connections that start from the beginning.  A newline
  connection made without a range request replays the response from its first byte, but the
  cursor keeps what earlier connections received: the next range request then asks for the sum,
  past the \<open>n\<close> bytes this connection is at, and the bytes between are never fetched.\<close>

theorem byte_cursor_accumulates:
  assumes "memchr_ok (ce_memchr env)" "0 < rs_received_bytes resume"
    and "rs_received_bytes resume + n \<le> u64_max" "0 < n"
    and "ss_framing session = FrameNewline" "rp_resume (ss_reconnect session)"
    and "connect_and_stream header_ok env session aq NoResume (resume, k, history) (Response 200 True body)
        = Some (Ended reason n, resume', k', history')"
  shows "resume_mode_of session resume' False = ByteRange (rs_received_bytes resume + n)
    \<and> n < rs_received_bytes resume + n"
proof -
  have le: "rs_received_bytes resume \<le> u64_max" using assms(3) by simp
  have ok: "200 \<le> (200 :: nat)" "(200 :: nat) < 300" by simp_all
  obtain s s' where s: "stream_body env (ss_read_chunk_bytes session) aq s body = Some (Ended reason n, s')"
    "stream_ok s" "st_body_bytes s = 0"
    "rs_received_bytes (st_resume s)
       = (case NoResume of ByteRange _ \<Rightarrow> if (200 :: nat) \<noteq> 206 then 0 else rs_received_bytes resume
          | _ \<Rightarrow> rs_received_bytes resume)"
    "rs_range_supported (st_resume s) = True" "resume' = st_resume s'"
    by (rule connect_success [OF le ok assms(7)]) (rule that; assumption)
  note acc = body_account_ended [OF stream_body_account [OF s(2) assms(1) s(1)]]
  show ?thesis
    using acc assms(2-6) s(3-6) by (simp add: resume_mode_of_def saturating_add_u64_exact)
qed

theorem byte_cursor_accumulates_witness:
  "\<exists>resume'. resume_mode_of sample_session resume' False = ByteRange (4 + 2)"
proof -
  let ?resume = "\<lparr>rs_last_event_id = None, rs_received_bytes = 4, rs_range_supported = False\<rparr>"
  obtain resume' k' history' where c: "connect_and_stream (\<lambda>_. False) sample_env sample_session [1] NoResume
      (?resume, new_sink, []) (Response 200 True [BodyChunk [97, 98], BodyEnd])
    = Some (Ended (TruncatedFrame 2) 2, resume', k', history')" using sample_two_bytes by blast
  from byte_cursor_accumulates [OF _ _ _ _ _ _ c] show ?thesis
    by (intro exI [of _ resume']) (simp add: u64_max_def reconnect_policy_default_def)
qed

text \<open>A resume that was not asked for is published as one.  When the last event id cannot be sent
  as a header, the request carries no resume point, yet a successful response is announced as
  resumed.\<close>

theorem unsent_event_id_announced_as_resumed:
  assumes "memchr_ok (ce_memchr env)" "rs_received_bytes resume \<le> u64_max"
    and "\<not> header_ok i"
    and "connect_and_stream header_ok env session aq (LastEventId i) (resume, k, history)
        (Response 200 accepts body) = Some (ended, resume', k', history')"
  shows "request_header header_ok (LastEventId i) = None
    \<and> HttpConnected aq 200 True accepts \<in> set history'"
proof -
  have ok: "200 \<le> (200 :: nat)" "(200 :: nat) < 300" by simp_all
  obtain s s' where s: "stream_body env (ss_read_chunk_bytes session) aq s body = Some (ended, s')"
    "stream_ok s"
    "\<exists>b. st_history s = history @ [HttpConnected aq 200 b accepts]
       \<and> (b \<longleftrightarrow> (case LastEventId i of ByteRange _ \<Rightarrow> (200 :: nat) = 206 | LastEventId _ \<Rightarrow> True | _ \<Rightarrow> False))"
    "history' = st_history s'"
    by (rule connect_success [OF assms(2) ok assms(4)]) (rule that; assumption)
  obtain h where "st_history s' = st_history s @ h"
    using body_account_history [OF stream_body_account [OF s(2) assms(1) s(1)]] by blast
  then show ?thesis using s(3,4) assms(3) by (auto simp: request_header_def)
qed

theorem unsent_event_id_announced_as_resumed_witness:
  "\<exists>ended resume' k' history'. connect_and_stream (\<lambda>_. False) sample_env sample_session [1] (LastEventId [10])
      (resume_default, new_sink, []) (Response 200 True [BodyChunk [97, 98], BodyEnd])
    = Some (ended, resume', k', history')
    \<and> request_header (\<lambda>_. False) (LastEventId [10]) = None \<and> HttpConnected [1] 200 True True \<in> set history'"
proof -
  obtain resume' k' history' where c: "connect_and_stream (\<lambda>_. False) sample_env sample_session [1] (LastEventId [10])
      (resume_default, new_sink, []) (Response 200 True [BodyChunk [97, 98], BodyEnd])
    = Some (Ended (TruncatedFrame 2) 2, resume', k', history')" using sample_two_bytes by blast
  from unsent_event_id_announced_as_resumed [OF _ _ _ c] c show ?thesis
    by (simp add: resume_default_def)
qed

text \<open>Valid text is reported as invalid UTF-8.  The check is made on each fragment, so when the
  frame limit cuts inside a character, a body that is valid UTF-8 is announced as not being so.\<close>

theorem cut_character_reported_invalid:
  "utf8_valid [97, 195, 169, 10]
   \<and> map_option (\<lambda>(f, out). (fo_invalid_utf8 out, content (fo_records out)))
       (http_push find_byte (\<lambda>_. 0) 0 [] (http_framer_new FrameNewline
          \<lparr>hl_maximum_frame_bytes = 2, hl_maximum_pending_bytes = 9, hl_connect_timeout = 1, hl_read_timeout = 1\<rparr>)
          [97, 195, 169, 10])
     = Some (True, [97, 195, 169, 10])"
  by (simp add: http_push_def http_framer_new_def framer_push_def framer_lines.simps framer_cuts.simps
      framer_close_def framer_new_def framer_record_def charge_cpu_def segment_def from_shared_def as_slice_def
      owned_bytes_def content_def record_content_def utf8_cont_def Let_def)

end
