(* ===== verification/Fold_Pattern.thy ===== *)
theory Fold_Pattern
  imports Chars "HOL-Library.Monad_Syntax"
begin

text \<open>
  The keys of \<open>lvu-view/src/folding.rs\<close>: the matchers of volatile substrings, the derivation of
  the pattern key, and the truncation that keeps a base character with its combining marks.

  The Unicode tables of the character classes are the parameter \<open>ct\<close>.  An index past the end is
  \<^const>\<open>None\<close> of \<open>get_char\<close>, as \<open>chars.get\<close> has it; the indexing of the code is behind its own
  length checks, which the bounds lemmas of the matchers confirm.
\<close>

named_theorems matcher "a matcher ends after its start and inside the text"

section \<open>Runs and digits\<close>

definition is_token_char :: "char_tables \<Rightarrow> nat \<Rightarrow> bool" where
  "is_token_char ct c \<longleftrightarrow> ct_alphanumeric ct c \<or> c = ch CHR ''_''"

definition is_hex :: "nat \<Rightarrow> bool" where
  "is_hex c \<longleftrightarrow> is_ascii_digit c \<or> (65 \<le> c \<and> c \<le> 70) \<or> (97 \<le> c \<and> c \<le> 102)"

definition run_len :: "ustr \<Rightarrow> nat \<Rightarrow> (nat \<Rightarrow> bool) \<Rightarrow> nat" where
  "run_len cs start p = length (takeWhile p (drop start cs))"

definition exact_digits :: "ustr \<Rightarrow> nat \<Rightarrow> nat \<Rightarrow> nat option" where
  "exact_digits cs start count =
    (if start + count > length cs then None
     else if list_all is_ascii_digit (segment cs start (start + count)) then Some (start + count)
     else None)"

definition literal :: "ustr \<Rightarrow> nat \<Rightarrow> nat \<Rightarrow> nat option" where
  "literal cs start expected = (if get_char cs start = Some expected then Some (start + 1) else None)"

text \<open>\<open>!chars.get(at).copied().is_some_and(is_token_char)\<close>, the guard several matchers end with.\<close>

definition token_follows :: "char_tables \<Rightarrow> ustr \<Rightarrow> nat \<Rightarrow> bool" where
  "token_follows ct cs i = (case get_char cs i of None \<Rightarrow> False | Some c \<Rightarrow> is_token_char ct c)"

section \<open>Matchers\<close>

definition match_clock :: "ustr \<Rightarrow> nat \<Rightarrow> nat option" where
  "match_clock cs start = do {
     a \<leftarrow> exact_digits cs start 2;
     b \<leftarrow> literal cs a (ch CHR '':'');
     c \<leftarrow> exact_digits cs b 2;
     d \<leftarrow> literal cs c (ch CHR '':'');
     e \<leftarrow> exact_digits cs d 2;
     Some (if get_char cs e = Some (ch CHR ''.'') \<or> get_char cs e = Some (ch CHR '','') then
             let fraction = run_len cs (e + 1) is_ascii_digit
             in if fraction > 0 then e + (1 + fraction) else e
           else e)
   }"

definition match_zone :: "ustr \<Rightarrow> nat \<Rightarrow> nat" where
  "match_zone cs start =
    (if get_char cs start = Some (ch CHR ''Z'') \<or> get_char cs start = Some (ch CHR ''z'')
     then start + 1
     else if get_char cs start = Some (ch CHR ''+'') \<or> get_char cs start = Some (ch CHR ''-'') then
       (case exact_digits cs (start + 1) 2 of
          None \<Rightarrow> start
        | Some a \<Rightarrow>
            let b = (if get_char cs a = Some (ch CHR '':'') then a + 1 else a)
            in (case exact_digits cs b 2 of None \<Rightarrow> start | Some e \<Rightarrow> e))
     else start)"

definition match_iso_datetime :: "ustr \<Rightarrow> nat \<Rightarrow> nat option" where
  "match_iso_datetime cs start = do {
     a \<leftarrow> exact_digits cs start 4;
     b \<leftarrow> literal cs a (ch CHR ''-'');
     c \<leftarrow> exact_digits cs b 2;
     d \<leftarrow> literal cs c (ch CHR ''-'');
     e \<leftarrow> exact_digits cs d 2;
     let separated = (if get_char cs e \<in> {Some (ch CHR ''T''), Some (ch CHR ''t''), Some (ch CHR '' '')}
                      then Some (e + 1) else None);
     case Option.bind separated (match_clock cs) of
       Some clock_end \<Rightarrow> Some (match_zone cs clock_end)
     | None \<Rightarrow> Some e
   }"

definition match_timestamp :: "char_tables \<Rightarrow> ustr \<Rightarrow> nat \<Rightarrow> nat option" where
  "match_timestamp ct cs start =
    (case match_iso_datetime cs start of
       Some e \<Rightarrow> Some e
     | None \<Rightarrow> (case match_clock cs start of
           None \<Rightarrow> None
         | Some e \<Rightarrow> if token_follows ct cs e then None else Some e))"

fun uuid_groups :: "ustr \<Rightarrow> bool \<Rightarrow> nat list \<Rightarrow> nat \<Rightarrow> nat option" where
  "uuid_groups cs head [] i = Some i"
| "uuid_groups cs head (n # ns) i =
    (case (if head then Some i else literal cs i (ch CHR ''-'')) of
       None \<Rightarrow> None
     | Some j \<Rightarrow>
         if j + n > length cs \<or> \<not> list_all is_hex (segment cs j (j + n)) then None
         else uuid_groups cs False ns (j + n))"

definition match_uuid :: "char_tables \<Rightarrow> ustr \<Rightarrow> nat \<Rightarrow> nat option" where
  "match_uuid ct cs start =
    (case uuid_groups cs True [8, 4, 4, 4, 12] start of
       None \<Rightarrow> None
     | Some e \<Rightarrow> if token_follows ct cs e then None else Some e)"

fun ipv4_groups :: "ustr \<Rightarrow> bool \<Rightarrow> nat \<Rightarrow> nat \<Rightarrow> nat option" where
  "ipv4_groups cs head 0 i = Some i"
| "ipv4_groups cs head (Suc n) i =
    (case (if head then Some i else literal cs i (ch CHR ''.'')) of
       None \<Rightarrow> None
     | Some j \<Rightarrow>
         let digits = run_len cs j is_ascii_digit
         in if \<not> (1 \<le> digits \<and> digits \<le> 3) then None
            else ipv4_groups cs False n (j + digits))"

definition match_ipv4 :: "char_tables \<Rightarrow> ustr \<Rightarrow> nat \<Rightarrow> nat option" where
  "match_ipv4 ct cs start =
    (case ipv4_groups cs True 4 start of
       None \<Rightarrow> None
     | Some e \<Rightarrow> if token_follows ct cs e then None else Some e)"

function quoted_end :: "ustr \<Rightarrow> nat \<Rightarrow> nat \<Rightarrow> nat option" where
  "quoted_end cs quote i =
    (if i < length cs then
       if cs ! i = ch CHR 0x5C then quoted_end cs quote (i + 2)
       else if cs ! i = quote then Some (i + 1)
       else quoted_end cs quote (i + 1)
     else None)"
  by pat_completeness auto
termination
  by (relation "measure (\<lambda>(cs, quote, i). length cs - i)") auto

declare quoted_end.simps [simp del]

definition match_quoted :: "ustr \<Rightarrow> nat \<Rightarrow> nat option" where
  "match_quoted cs start = do {
     quote \<leftarrow> get_char cs start;
     if quote \<noteq> ch CHR 0x22 \<and> quote \<noteq> ch CHR 0x27 then None
     else quoted_end cs quote (start + 1)
   }"

definition is_path_char :: "char_tables \<Rightarrow> nat \<Rightarrow> bool" where
  "is_path_char ct c \<longleftrightarrow> ct_alphanumeric ct c \<or> c \<in> set (ustr_of ''/._-+@%~*'')"

definition match_path :: "char_tables \<Rightarrow> ustr \<Rightarrow> nat \<Rightarrow> nat option" where
  "match_path ct cs start = do {
     head \<leftarrow> get_char cs start;
     let anchored =
       (if head = ch CHR ''/'' then True
        else if head = ch CHR ''.'' \<or> head = ch CHR ''~'' then
          let probe = (if head = ch CHR ''.'' \<and> get_char cs (start + 1) = Some (ch CHR ''.'')
                       then start + 2 else start + 1)
          in get_char cs probe = Some (ch CHR ''/'')
        else False);
     if \<not> anchored then None
     else let e = start + run_len cs start (is_path_char ct)
          in if e - start \<ge> 2 then Some e else None
   }"

definition match_hex :: "char_tables \<Rightarrow> ustr \<Rightarrow> nat \<Rightarrow> bool \<Rightarrow> nat option" where
  "match_hex ct cs start bare =
    (if get_char cs start = Some (ch CHR ''0'')
        \<and> (get_char cs (start + 1) = Some (ch CHR ''x'') \<or> get_char cs (start + 1) = Some (ch CHR ''X''))
        \<and> (case get_char cs (start + 2) of None \<Rightarrow> False | Some c \<Rightarrow> is_hex c)
     then Some (start + 2 + run_len cs (start + 2) is_hex)
     else if \<not> bare then None
     else
       let digits = run_len cs start is_hex
       in if digits < 8 \<or> token_follows ct cs (start + digits) then None
          else if list_ex is_ascii_alphabetic (segment cs start (start + digits))
          then Some (start + digits) else None)"

definition match_mixed_token :: "char_tables \<Rightarrow> ustr \<Rightarrow> nat \<Rightarrow> nat option" where
  "match_mixed_token ct cs start =
    (let len = run_len cs start (is_token_char ct)
     in if len = 0 then None
        else
          let span = segment cs start (start + len);
              has_digit = list_ex is_ascii_digit span;
              has_letter = list_ex (ct_alphabetic ct) span
          in if has_digit \<and> has_letter then Some (start + len) else None)"

definition match_number :: "ustr \<Rightarrow> nat \<Rightarrow> bool \<Rightarrow> nat option" where
  "match_number cs start boundary =
    (let a = (if boundary \<and> (get_char cs start = Some (ch CHR ''+'')
                            \<or> get_char cs start = Some (ch CHR ''-''))
              then start + 1 else start);
         integer = run_len cs a is_ascii_digit
     in if integer = 0 then None
        else
          let b = a + integer;
              fraction = run_len cs (b + 1) is_ascii_digit;
              c = (if get_char cs b = Some (ch CHR ''.'') \<and> fraction > 0
                   then b + (1 + fraction) else b)
          in if get_char cs c = Some (ch CHR ''e'') \<or> get_char cs c = Some (ch CHR ''E'') then
               let probe = (if get_char cs (c + 1) = Some (ch CHR ''+'')
                              \<or> get_char cs (c + 1) = Some (ch CHR ''-'')
                            then c + 2 else c + 1);
                   exponent = run_len cs probe is_ascii_digit
               in Some (if exponent > 0 then probe + exponent else c)
             else Some c)"

lemma run_len_bound: "i \<le> length cs \<Longrightarrow> i + run_len cs i p \<le> length cs"
  using length_takeWhile_le [of p "drop i cs"] by (simp add: run_len_def)

lemma run_len_inside: "0 < run_len cs i p \<Longrightarrow> i + run_len cs i p \<le> length cs"
  using run_len_bound [of i cs p] by (cases "i \<le> length cs") (auto simp: run_len_def)

lemma run_len_pos: "0 < run_len cs i p \<longleftrightarrow> i < length cs \<and> p (cs ! i)"
  by (cases "i < length cs") (auto simp: run_len_def Cons_nth_drop_Suc [symmetric])

lemma run_len_step:
  assumes "k \<le> length cs"
  shows "(if q \<and> 0 < run_len cs (k + 1) p then k + (1 + run_len cs (k + 1) p) else k) \<le> length cs"
  using assms run_len_inside [of cs "k + 1" p] by simp

lemma exact_digits_bound [matcher]:
  "exact_digits cs i n = Some e \<Longrightarrow> e = i + n \<and> e \<le> length cs"
  by (auto simp: exact_digits_def split: if_splits)

lemma literal_bound [matcher]: "literal cs i c = Some e \<Longrightarrow> e = i + 1 \<and> e \<le> length cs"
  by (auto simp: literal_def split: if_splits)

lemma clock_bound [matcher]:
  assumes "match_clock cs i = Some e"
  shows "i < e \<and> e \<le> length cs"
proof -
  obtain a b c d k where "exact_digits cs i 2 = Some a" "literal cs a (ch CHR '':'') = Some b"
    "exact_digits cs b 2 = Some c" "literal cs c (ch CHR '':'') = Some d"
    and k: "exact_digits cs d 2 = Some k"
    and e: "e = (if (get_char cs k = Some (ch CHR ''.'') \<or> get_char cs k = Some (ch CHR '',''))
      \<and> 0 < run_len cs (k + 1) is_ascii_digit then k + (1 + run_len cs (k + 1) is_ascii_digit) else k)"
    using assms unfolding match_clock_def Let_def bind_eq_Some_conv by (auto split: if_splits)
  then have "i < k" by (auto dest!: exact_digits_bound literal_bound)
  moreover have "k \<le> length cs" using k by (simp add: exact_digits_bound)
  moreover from this have "e \<le> length cs" unfolding e by (rule run_len_step)
  ultimately show ?thesis using e by (auto split: if_splits)
qed

lemma zone_bound [matcher]: "i \<le> length cs \<Longrightarrow> i \<le> match_zone cs i \<and> match_zone cs i \<le> length cs"
  by (auto simp: match_zone_def Let_def dest!: exact_digits_bound split: option.splits if_splits)

lemma iso_bound [matcher]:
  assumes "match_iso_datetime cs i = Some e"
  shows "i < e \<and> e \<le> length cs"
proof -
  obtain a b c d k where "exact_digits cs i 4 = Some a" "literal cs a (ch CHR ''-'') = Some b"
    "exact_digits cs b 2 = Some c" "literal cs c (ch CHR ''-'') = Some d"
    and k: "exact_digits cs d 2 = Some k"
    and e: "e = k \<or> (\<exists>m. match_clock cs (k + 1) = Some m \<and> e = match_zone cs m)"
    using assms unfolding match_iso_datetime_def Let_def bind_eq_Some_conv
    by (auto split: option.splits if_splits)
  then have "i < k" by (auto dest!: exact_digits_bound literal_bound)
  moreover have "k \<le> length cs" using k by (simp add: exact_digits_bound)
  moreover have "k < match_zone cs m \<and> match_zone cs m \<le> length cs" if "match_clock cs (k + 1) = Some m" for m
    using clock_bound [OF that] zone_bound [of m cs] by simp
  ultimately show ?thesis using e by auto
qed

lemma timestamp_bound [matcher]: "match_timestamp ct cs i = Some e \<Longrightarrow> i < e \<and> e \<le> length cs"
  by (auto simp: match_timestamp_def dest: iso_bound clock_bound split: option.splits if_splits)

lemma uuid_groups_bound:
  "uuid_groups cs h ns i = Some e \<Longrightarrow> i + sum_list ns \<le> e \<and> (ns \<noteq> [] \<longrightarrow> e \<le> length cs)"
  by (induction cs h ns i rule: uuid_groups.induct)
     (fastforce dest!: literal_bound split: option.splits if_splits)+

lemma uuid_bound [matcher]: "match_uuid ct cs i = Some e \<Longrightarrow> i < e \<and> e \<le> length cs"
  by (auto simp: match_uuid_def simp del: uuid_groups.simps dest!: uuid_groups_bound
      split: option.splits if_splits)

lemma ipv4_groups_bound:
  "ipv4_groups cs h n i = Some e \<Longrightarrow> i + n \<le> e \<and> (0 < n \<longrightarrow> e \<le> length cs)"
proof (induction cs h n i rule: ipv4_groups.induct)
  case (2 cs h n i)
  then obtain j where j: "(if h then Some i else literal cs i (ch CHR ''.'')) = Some j"
    and d: "1 \<le> run_len cs j is_ascii_digit" "run_len cs j is_ascii_digit \<le> 3"
    and e: "ipv4_groups cs False n (j + run_len cs j is_ascii_digit) = Some e"
    by (auto simp: Let_def split: option.splits if_splits)
  have "i \<le> j" using j by (auto dest!: literal_bound split: if_splits)
  moreover have "j + run_len cs j is_ascii_digit \<le> length cs" using d by (simp add: run_len_inside)
  moreover have "j + run_len cs j is_ascii_digit + n \<le> e \<and> (0 < n \<longrightarrow> e \<le> length cs)"
    using "2.IH" [OF j refl] d e by simp
  moreover have "n = 0 \<Longrightarrow> e = j + run_len cs j is_ascii_digit" using e by simp
  ultimately show ?case using d by (cases "n = 0") auto
qed simp

lemma ipv4_bound [matcher]: "match_ipv4 ct cs i = Some e \<Longrightarrow> i < e \<and> e \<le> length cs"
  by (auto simp: match_ipv4_def simp del: ipv4_groups.simps dest!: ipv4_groups_bound
      split: option.splits if_splits)

lemma quoted_end_bound: "quoted_end cs q i = Some e \<Longrightarrow> i < e \<and> e \<le> length cs"
proof (induction cs q i rule: quoted_end.induct)
  case (1 cs q i)
  then show ?case by (auto simp: quoted_end.simps [of cs q i] split: if_splits)
qed

lemma quoted_bound [matcher]: "match_quoted cs i = Some e \<Longrightarrow> i < e \<and> e \<le> length cs"
  by (auto simp: match_quoted_def bind_eq_Some_conv dest!: quoted_end_bound split: if_splits)

lemma path_bound [matcher]: "match_path ct cs i = Some e \<Longrightarrow> i < e \<and> e \<le> length cs"
  by (auto simp: match_path_def bind_eq_Some_conv Let_def run_len_inside split: if_splits)

lemma hex_bound [matcher]:
  assumes "match_hex ct cs i b = Some e"
  shows "i < e \<and> e \<le> length cs"
proof -
  have "i + 2 + run_len cs (i + 2) is_hex \<le> length cs" if "i + 2 < length cs"
    using run_len_bound [of "i + 2" cs is_hex] that by simp
  moreover have "i + run_len cs i is_hex \<le> length cs" if "8 \<le> run_len cs i is_hex"
    using run_len_inside [of cs i is_hex] that by simp
  ultimately show ?thesis
    using assms unfolding match_hex_def Let_def by (auto split: if_splits option.splits)
qed

lemma mixed_token_bound [matcher]: "match_mixed_token ct cs i = Some e \<Longrightarrow> i < e \<and> e \<le> length cs"
  by (auto simp: match_mixed_token_def Let_def run_len_inside split: if_splits)

lemma number_steps:
  assumes "i + run_len cs i p \<le> length cs"
  shows "(if q \<and> 0 < run_len cs (i + run_len cs i p + 1) p
          then i + run_len cs i p + (1 + run_len cs (i + run_len cs i p + 1) p)
          else i + run_len cs i p) \<le> length cs"
  using assms by (rule run_len_step)

lemma number_bound [matcher]:
  assumes "match_number cs i b = Some e"
  shows "i < e \<and> e \<le> length cs"
proof -
  define a where "a = (if b \<and> (get_char cs i = Some (ch CHR ''+'') \<or> get_char cs i = Some (ch CHR ''-''))
    then i + 1 else i)"
  define c where "c = (if get_char cs (a + run_len cs a is_ascii_digit) = Some (ch CHR ''.'')
      \<and> 0 < run_len cs (a + run_len cs a is_ascii_digit + 1) is_ascii_digit
    then a + run_len cs a is_ascii_digit + (1 + run_len cs (a + run_len cs a is_ascii_digit + 1) is_ascii_digit)
    else a + run_len cs a is_ascii_digit)"
  define probe where "probe = (if get_char cs (c + 1) = Some (ch CHR ''+'')
      \<or> get_char cs (c + 1) = Some (ch CHR ''-'') then c + 2 else c + 1)"
  have n: "0 < run_len cs a is_ascii_digit"
    and e: "e = (if (get_char cs c = Some (ch CHR ''e'') \<or> get_char cs c = Some (ch CHR ''E''))
      \<and> 0 < run_len cs probe is_ascii_digit then probe + run_len cs probe is_ascii_digit else c)"
    using assms unfolding match_number_def Let_def a_def [symmetric] c_def [symmetric]
      probe_def [symmetric] by (auto split: if_splits)
  have "i \<le> a" by (simp add: a_def)
  moreover have "a + run_len cs a is_ascii_digit \<le> length cs" using n by (rule run_len_inside)
  moreover from this have "c \<le> length cs" unfolding c_def by (rule number_steps)
  moreover have "a + run_len cs a is_ascii_digit \<le> c" "c < probe" by (simp_all add: c_def probe_def)
  moreover have "0 < run_len cs probe is_ascii_digit \<Longrightarrow>
      probe + run_len cs probe is_ascii_digit \<le> length cs" by (rule run_len_inside)
  ultimately show ?thesis using n e by (auto split: if_splits)
qed

lemma number_at_digit:
  assumes "i < length cs" "is_ascii_digit (cs ! i)"
  shows "match_number cs i b \<noteq> None"
proof -
  have "(if b \<and> (get_char cs i = Some (ch CHR ''+'') \<or> get_char cs i = Some (ch CHR ''-''))
      then i + 1 else i) = i"
    using assms(2) by (auto simp: is_ascii_digit_def)
  moreover have "run_len cs i is_ascii_digit \<noteq> 0" using assms run_len_pos [of cs i] by simp
  ultimately show ?thesis unfolding match_number_def Let_def by (simp split: if_splits)
qed

section \<open>Truncation\<close>

definition is_combining :: "nat \<Rightarrow> bool" where
  "is_combining c \<longleftrightarrow> list_ex (\<lambda>(a, b). a \<le> c \<and> c \<le> b)
    [(0x0300, 0x036F), (0x0483, 0x0489), (0x0591, 0x05BD), (0x0610, 0x061A), (0x064B, 0x065F),
     (0x0670, 0x0670), (0x06D6, 0x06DC), (0x0730, 0x074A), (0x07A6, 0x07B0), (0x093A, 0x093C),
     (0x0941, 0x0948), (0x094D, 0x094D), (0x0951, 0x0957), (0x0E31, 0x0E31), (0x0E34, 0x0E3A),
     (0x0E47, 0x0E4E), (0x1AB0, 0x1AFF), (0x1DC0, 0x1DFF), (0x200D, 0x200D), (0x20D0, 0x20F0),
     (0xFE00, 0xFE0F), (0xFE20, 0xFE2F), (0x1F3FB, 0x1F3FF)]"

definition character_count :: "ustr \<Rightarrow> nat" where
  "character_count s = length (filter (\<lambda>c. \<not> is_combining c) s)"

fun truncate_loop :: "nat \<Rightarrow> ustr \<Rightarrow> nat \<Rightarrow> ustr \<Rightarrow> ustr" where
  "truncate_loop limit [] counted out = out"
| "truncate_loop limit (c # cs) counted out =
    (if is_combining c then
       if counted = 0 then truncate_loop limit cs counted out
       else truncate_loop limit cs counted (out @ [c])
     else if counted = limit then out
     else truncate_loop limit cs (counted + 1) (out @ [c]))"

definition truncate_chars :: "ustr \<Rightarrow> nat \<Rightarrow> ustr" where
  "truncate_chars s limit = (if limit = 0 then [] else truncate_loop limit s 0 [])"

section \<open>The pattern key\<close>

datatype normalisation = Conservative | Standard | Aggressive

definition quotes_and_paths :: "normalisation \<Rightarrow> bool" where
  "quotes_and_paths m \<longleftrightarrow> m \<noteq> Conservative"

definition bare_hex :: "normalisation \<Rightarrow> bool" where
  "bare_hex m \<longleftrightarrow> m \<noteq> Conservative"

definition mixed_tokens :: "normalisation \<Rightarrow> bool" where
  "mixed_tokens m \<longleftrightarrow> m = Aggressive"

text \<open>The chain of \<open>if let\<close>s of the loop body: the first rule whose guard holds and which matches.\<close>

fun first_rule :: "(bool \<times> nat option \<times> string) list \<Rightarrow> (string \<times> nat) option" where
  "first_rule [] = None"
| "first_rule ((guard, m, placeholder) # rules) =
    (if guard then (case m of Some e \<Rightarrow> Some (placeholder, e) | None \<Rightarrow> first_rule rules)
     else first_rule rules)"

definition pattern_rules ::
  "char_tables \<Rightarrow> normalisation \<Rightarrow> ustr \<Rightarrow> nat \<Rightarrow> bool \<Rightarrow> (bool \<times> nat option \<times> string) list" where
  "pattern_rules ct mode cs i boundary =
    [(boundary, match_timestamp ct cs i, ''<ts>''),
     (boundary, match_uuid ct cs i, ''<uuid>''),
     (boundary, match_ipv4 ct cs i, ''<ip>''),
     (quotes_and_paths mode, match_quoted cs i, ''<str>''),
     (quotes_and_paths mode \<and> boundary, match_path ct cs i, ''<path>''),
     (boundary, match_hex ct cs i (bare_hex mode), ''<hex>''),
     (mixed_tokens mode \<and> boundary, match_mixed_token ct cs i, ''<tok>''),
     (True, match_number cs i boundary, ''<num>'')]"

definition pattern_step ::
  "char_tables \<Rightarrow> normalisation \<Rightarrow> ustr \<Rightarrow> nat \<Rightarrow> ustr \<Rightarrow> nat \<times> ustr" where
  "pattern_step ct mode cs i out =
    (let boundary = (i = 0 \<or> \<not> is_token_char ct (cs ! (i - 1)))
     in if is_whitespace (cs ! i) then
          (i + run_len cs i is_whitespace, if out \<noteq> [] then out @ [ch CHR '' ''] else out)
        else case first_rule (pattern_rules ct mode cs i boundary) of
          Some (placeholder, e) \<Rightarrow> (e, out @ ustr_of placeholder)
        | None \<Rightarrow> (i + 1, out @ [cs ! i]))"

lemma first_rule_Some:
  "first_rule rules = Some (p, e) \<Longrightarrow> \<exists>g. (g, Some e, p) \<in> set rules \<and> g"
  by (induction rules rule: first_rule.induct) (auto split: if_splits option.splits)

lemma first_rule_None:
  "first_rule rules = None \<Longrightarrow> (g, m, p) \<in> set rules \<Longrightarrow> g \<Longrightarrow> m = None"
  by (induction rules rule: first_rule.induct) (auto split: if_splits option.splits)

lemma pattern_rules_bound:
  "first_rule (pattern_rules ct mode cs i b) = Some (p, e) \<Longrightarrow> i < e \<and> e \<le> length cs"
  by (drule first_rule_Some, simp only: pattern_rules_def list.set insert_iff prod.inject empty_iff)
     (elim exE conjE disjE; simp add: matcher)

lemma pattern_step_bound:
  assumes "i < length cs" "pattern_step ct mode cs i out = (i', out')"
  shows "i < i' \<and> i' \<le> length cs"
proof -
  have "0 < run_len cs i is_whitespace" if "is_whitespace (cs ! i)"
    using that assms(1) by (simp add: run_len_pos)
  moreover have "i + run_len cs i is_whitespace \<le> length cs"
    using assms(1) by (simp add: run_len_bound)
  ultimately show ?thesis
    using assms by (auto simp: pattern_step_def Let_def dest: pattern_rules_bound
        split: if_splits option.splits)
qed

function pattern_loop ::
  "char_tables \<Rightarrow> normalisation \<Rightarrow> ustr \<Rightarrow> nat \<Rightarrow> ustr \<Rightarrow> ustr" where
  "pattern_loop ct mode cs i out =
    (if i < length cs then
       case pattern_step ct mode cs i out of (i', out') \<Rightarrow> pattern_loop ct mode cs i' out'
     else out)"
  by pat_completeness auto
termination
proof (relation "measure (\<lambda>(ct, mode, cs, i, out). length cs - i)", goal_cases)
  case (2 ct mode cs i out i' out')
  then have "pattern_step ct mode cs i out = (i', out')" "i < length cs" by simp_all
  then show ?case using pattern_step_bound [of i cs ct mode out i' out'] by simp arith
qed simp

declare pattern_loop.simps [simp del]

definition level_prefix :: "ustr \<Rightarrow> ustr" where
  "level_prefix level = (if level = [] then [] else take 32 level @ [ch CHR ''|''])"

text \<open>The policy of an engine, \<open>FoldConfig\<close>, and the scope of a run.\<close>

datatype fold_scope = Adjacent | Lookback nat

definition gap_limit :: "fold_scope \<Rightarrow> nat" where
  "gap_limit s = (case s of Adjacent \<Rightarrow> 1 | Lookback window \<Rightarrow> saturating_add_u64 window 1)"

record fold_config =
  fc_enabled :: bool
  fc_minimum_run :: nat
  fc_scope :: fold_scope
  fc_aggressiveness :: normalisation
  fc_maximum_patterns :: nat
  fc_maximum_run :: nat
  fc_maximum_entries :: nat
  fc_maximum_members :: nat
  fc_maximum_sample_chars :: nat
  fc_maximum_key_chars :: nat
  fc_maximum_scan_chars :: nat

definition fold_config_default :: fold_config where
  "fold_config_default = \<lparr>fc_enabled = False, fc_minimum_run = 3, fc_scope = Adjacent,
     fc_aggressiveness = Standard, fc_maximum_patterns = 256, fc_maximum_run = 100000,
     fc_maximum_entries = 8192, fc_maximum_members = 65536, fc_maximum_sample_chars = 512,
     fc_maximum_key_chars = 256, fc_maximum_scan_chars = 4096\<rparr>"

definition fold_config_enabled :: fold_config where
  "fold_config_enabled = fold_config_default\<lparr>fc_enabled := True\<rparr>"

definition effective_minimum_run :: "fold_config \<Rightarrow> nat" where
  "effective_minimum_run c = max (fc_minimum_run c) 2"

definition pattern_key :: "char_tables \<Rightarrow> ustr \<Rightarrow> ustr \<Rightarrow> fold_config \<Rightarrow> ustr" where
  "pattern_key ct s level c =
    (let cs = take (fc_maximum_scan_chars c) s
     in truncate_chars (trim (pattern_loop ct (fc_aggressiveness c) cs 0 (level_prefix level)))
          (fc_maximum_key_chars c))"

section \<open>What truncation keeps\<close>

lemma truncate_loop_out: "truncate_loop n s k out = out @ truncate_loop n s k []"
proof (induction s arbitrary: k out)
  case (Cons c cs)
  have "truncate_loop n cs j (out @ [c]) = out @ truncate_loop n cs j [c]" for j
    using Cons.IH [of j "out @ [c]"] Cons.IH [of j "[c]"] by simp
  then show ?case using Cons.IH [of k out] by (cases "k = 0") auto
qed simp

lemma truncate_loop_Cons:
  "0 < k \<Longrightarrow> truncate_loop n (c # cs) k [] =
    (if is_combining c then c # truncate_loop n cs k []
     else if k = n then [] else c # truncate_loop n cs (k + 1) [])"
  using truncate_loop_out [of n cs _ "[c]"] by auto

lemma truncate_loop_prefix:
  assumes "0 < k" "k \<le> n"
  shows "\<exists>rest. s = truncate_loop n s k [] @ rest \<and> (rest \<noteq> [] \<longrightarrow> \<not> is_combining (hd rest))
    \<and> character_count (truncate_loop n s k []) = min (n - k) (character_count s)"
  using assms
proof (induction s arbitrary: k)
  case (Cons c cs)
  consider "is_combining c" | "\<not> is_combining c" "k = n" | "\<not> is_combining c" "k < n"
    using Cons.prems(2) by linarith
  then show ?case
  proof cases
    case 1
    then show ?thesis using Cons.IH [of k] Cons.prems
      by (auto simp: truncate_loop_Cons character_count_def simp del: truncate_loop.simps)
  next
    case 2
    then show ?thesis using Cons.prems
      by (auto simp: truncate_loop_Cons character_count_def simp del: truncate_loop.simps)
  next
    case 3
    then show ?thesis using Cons.IH [of "k + 1"] Cons.prems
      by (fastforce simp: truncate_loop_Cons character_count_def simp del: truncate_loop.simps)
  qed
qed (simp add: character_count_def)

lemma truncate_loop_leading:
  "truncate_loop n s 0 [] = truncate_loop n (dropWhile is_combining s) 0 []"
  by (induction s) auto

lemma character_count_dropWhile:
  "character_count (dropWhile is_combining s) = character_count s"
  by (induction s) (auto simp: character_count_def)

lemma truncate_chars_clusters:
  "\<exists>rest. dropWhile is_combining s = truncate_chars s n @ rest
    \<and> (rest \<noteq> [] \<longrightarrow> \<not> is_combining (hd rest))
    \<and> character_count (truncate_chars s n) = min n (character_count s)"
proof (cases "n = 0 \<or> dropWhile is_combining s = []")
  case True
  then show ?thesis
    using truncate_loop_leading [of n s] character_count_dropWhile [of s] hd_dropWhile [of is_combining s]
    by (cases "dropWhile is_combining s = []") (auto simp: truncate_chars_def character_count_def)
next
  case False
  then obtain c cs where s: "dropWhile is_combining s = c # cs" "\<not> is_combining c"
    using hd_dropWhile [of is_combining s] by (cases "dropWhile is_combining s") auto
  have t: "truncate_chars s n = c # truncate_loop n cs 1 []"
    using False s truncate_loop_leading [of n s] truncate_loop_out [of n cs 1 "[c]"]
    by (simp add: truncate_chars_def)
  have "character_count s = 1 + character_count cs"
    using s character_count_dropWhile [of s] by (simp add: character_count_def)
  then show ?thesis
    using truncate_loop_prefix [of 1 n cs] False s t by (auto simp: character_count_def)
qed

text \<open>Truncation to \<open>n\<close> characters keeps whole clusters: after the combining marks that lead
  the text, the result is a prefix, what is cut off does not start with a combining mark, and
  exactly \<open>n\<close> characters, or all when there are fewer, are kept.\<close>

theorem truncate_keeps_clusters:
  "\<exists>rest. dropWhile is_combining s = truncate_chars s n @ rest
    \<and> (case rest of [] \<Rightarrow> True | c # _ \<Rightarrow> \<not> is_combining c)
    \<and> character_count (truncate_chars s n) = min n (character_count s)"
  using truncate_chars_clusters [of s n] by (fastforce split: list.split)

text \<open>What is kept is bounded in characters only: combining marks after the last kept
  character are all retained, so the retained key of a limit of one character can be of any
  length, although \<open>fold_key\<close> says that the retained key stays bounded.\<close>

theorem truncated_key_unbounded:
  "truncate_chars (ch CHR ''a'' # replicate k 0x301) 1 = ch CHR ''a'' # replicate k 0x301"
proof -
  have "truncate_loop 1 (replicate k 0x301) 1 [] = replicate k 0x301"
    by (induction k) (auto simp: truncate_loop_Cons is_combining_def simp del: truncate_loop.simps(2))
  then show ?thesis
    using truncate_loop_out [of 1 "replicate k 0x301" 1 "[ch CHR ''a'']"]
    by (simp add: truncate_chars_def is_combining_def)
qed

section \<open>What the pattern hides\<close>

definition digit_free :: "ustr \<Rightarrow> bool" where
  "digit_free s = list_all (\<lambda>c. \<not> is_ascii_digit c) s"

lemma digit_free_append [simp]: "digit_free (s @ t) \<longleftrightarrow> digit_free s \<and> digit_free t"
  by (simp add: digit_free_def)

lemma digit_free_subset: "digit_free s \<Longrightarrow> set t \<subseteq> set s \<Longrightarrow> digit_free t"
  by (auto simp: digit_free_def list_all_iff)

lemma digit_free_placeholder:
  "(g, m, p) \<in> set (pattern_rules ct mode cs i b) \<Longrightarrow> digit_free (ustr_of p)"
  by (auto simp: pattern_rules_def digit_free_def ustr_of_def is_ascii_digit_def)

lemma pattern_step_digit_free:
  assumes "i < length cs" "digit_free out" "pattern_step ct mode cs i out = (i', out')"
  shows "digit_free out'"
proof -
  define b where "b = (i = 0 \<or> \<not> is_token_char ct (cs ! (i - 1)))"
  have step: "(i', out') = (if is_whitespace (cs ! i) then
      (i + run_len cs i is_whitespace, if out \<noteq> [] then out @ [ch CHR '' ''] else out)
    else case first_rule (pattern_rules ct mode cs i b) of
      Some (placeholder, e) \<Rightarrow> (e, out @ ustr_of placeholder)
    | None \<Rightarrow> (i + 1, out @ [cs ! i]))"
    using assms(3) [symmetric] unfolding pattern_step_def Let_def b_def [symmetric] .
  have "\<not> is_ascii_digit (cs ! i)" if "first_rule (pattern_rules ct mode cs i b) = None"
  proof -
    have "match_number cs i b = None"
      by (rule first_rule_None [OF that, of True _ "''<num>''"]) (simp_all add: pattern_rules_def)
    then show ?thesis using number_at_digit assms(1) by blast
  qed
  moreover have "digit_free (ustr_of p)" if "first_rule (pattern_rules ct mode cs i b) = Some (p, e)" for p e
    using first_rule_Some [OF that] digit_free_placeholder by blast
  ultimately show ?thesis
    using step assms(2) by (auto simp: digit_free_def is_ascii_digit_def split: if_splits option.splits)
qed

lemma pattern_loop_digit_free: "digit_free out \<Longrightarrow> digit_free (pattern_loop ct mode cs i out)"
proof (induction ct mode cs i out rule: pattern_loop.induct)
  case (1 ct mode cs i out)
  then show ?case
    using pattern_step_digit_free [of i cs out ct mode]
    by (subst pattern_loop.simps) (auto split: prod.splits)
qed

lemma set_trim: "set (trim s) \<subseteq> set s"
  unfolding trim_def set_rev by (metis set_dropWhileD set_rev subsetI)

lemma set_truncate_loop: "set (truncate_loop n s k out) \<subseteq> set out \<union> set s"
  by (induction n s k out rule: truncate_loop.induct) auto

lemma set_truncate_chars: "set (truncate_chars s n) \<subseteq> set s"
  using set_truncate_loop [of n s 0 "[]"] by (auto simp: truncate_chars_def)

text \<open>Whatever the text, its numbers never reach the key: at every aggressiveness a key whose
  level holds no digit holds none, and it has at most the configured number of characters.\<close>

theorem pattern_key_hides_numbers:
  assumes "digit_free level"
  shows "digit_free (pattern_key ct s level c)
    \<and> character_count (pattern_key ct s level c) \<le> fc_maximum_key_chars c"
proof -
  have "digit_free (level_prefix level)"
    using assms digit_free_subset [of level "take 32 level"]
    by (auto simp: level_prefix_def digit_free_def is_ascii_digit_def dest: set_take_subset [THEN subsetD])
  then have "digit_free (trim (pattern_loop ct m cs 0 (level_prefix level)))" for m cs
    by (rule digit_free_subset [OF pattern_loop_digit_free set_trim])
  then have "digit_free (pattern_key ct s level c)"
    unfolding pattern_key_def Let_def by (rule digit_free_subset [OF _ set_truncate_chars])
  moreover obtain t n where "pattern_key ct s level c = truncate_chars t n" "n = fc_maximum_key_chars c"
    by (simp add: pattern_key_def)
  ultimately show ?thesis
    using truncate_chars_clusters [of t n] by auto
qed

lemma pattern_key_hides_numbers_witness:
  "digit_free (pattern_key ascii_tables (ustr_of ''took 12.5ms at 10:42:07 id=0xfe19'')
      (ustr_of ''WARN'') fold_config_enabled)
    \<and> character_count (pattern_key ascii_tables (ustr_of ''took 12.5ms at 10:42:07 id=0xfe19'')
      (ustr_of ''WARN'') fold_config_enabled) \<le> fc_maximum_key_chars fold_config_enabled"
  by (rule pattern_key_hides_numbers) (simp add: digit_free_def ustr_of_def is_ascii_digit_def)

end
