(* ===== verification/Folding.thy ===== *)
theory Folding
  imports Fold_Pattern Ordered_Maps "HOL-Library.Multiset"
begin

text \<open>
  The folding engine of \<open>lvu-view/src/folding.rs\<close>: fold keys, entries, the engine with its open
  runs and their recency, and the eviction of patterns and entries.

  The \<open>HashMap\<close> of open runs and the \<open>BTreeMap\<close> of their last positions are the association
  lists of \<open>Ordered_Maps\<close>.  The approximate heap size in the statistics depends on the layout
  of the compiled structures and is left out.
\<close>

section \<open>Keys\<close>

record row_id =
  ri_source :: ustr
  ri_sequence :: nat

datatype fold_key_column = Pattern | Column ustr

definition key_column :: "fold_key_column \<Rightarrow> ustr option" where
  "key_column k = (case k of Pattern \<Rightarrow> None | Column name \<Rightarrow> Some name)"

definition from_column :: "ustr option \<Rightarrow> fold_key_column" where
  "from_column name = (case map_option trim name of
     None \<Rightarrow> Pattern | Some [] \<Rightarrow> Pattern | Some n \<Rightarrow> Column n)"

record fold_event =
  ev_id :: row_id
  ev_text :: ustr
  ev_level :: ustr
  ev_timestamp :: "int option"
  ev_columns :: "(ustr \<times> ustr) list"

definition event_column :: "fold_event \<Rightarrow> ustr \<Rightarrow> ustr option" where
  "event_column e column = map_of (ev_columns e) column"

definition fold_key :: "char_tables \<Rightarrow> fold_event \<Rightarrow> fold_key_column \<Rightarrow> fold_config \<Rightarrow> ustr option"
where
  "fold_key ct e key c =
    (case key of
       Pattern \<Rightarrow> Some (pattern_key ct (ev_text e) (ev_level e) c)
     | Column column \<Rightarrow>
         map_option (\<lambda>v. truncate_chars v (fc_maximum_key_chars c)) (event_column e column))"

section \<open>Entries\<close>

record fold_member =
  fm_id :: row_id
  fm_position :: nat
  fm_timestamp :: "int option"

record fold_entry =
  en_pattern :: ustr
  en_members :: "fold_member list"
  en_folded :: bool
  en_first_sample :: ustr
  en_last_sample :: ustr

definition entry_count :: "fold_entry \<Rightarrow> nat" where
  "entry_count e = length (en_members e)"

definition entry_expand :: "fold_entry \<Rightarrow> row_id list" where
  "entry_expand e = map fm_id (en_members e)"

definition entry_contains :: "fold_entry \<Rightarrow> row_id \<Rightarrow> bool" where
  "entry_contains e i = list_ex (\<lambda>m. fm_id m = i) (en_members e)"

definition expand_entries :: "fold_entry list \<Rightarrow> row_id list" where
  "expand_entries entries =
    map snd (sort_key fst
      (concat (map (\<lambda>e. map (\<lambda>m. (fm_position m, fm_id m)) (en_members e)) entries)))"

record fold_stats =
  fs_entries :: nat
  fs_retained_members :: nat
  fs_open_patterns :: nat
  fs_evicted_entries :: nat
  fs_evicted_members :: nat
  fs_observed_events :: nat

definition fold_stats_default :: fold_stats where
  "fold_stats_default = \<lparr>fs_entries = 0, fs_retained_members = 0, fs_open_patterns = 0,
     fs_evicted_entries = 0, fs_evicted_members = 0, fs_observed_events = 0\<rparr>"

section \<open>The engine\<close>

record open_run =
  or_serial :: nat
  or_last_position :: nat

record fold_engine =
  fe_config :: fold_config
  fe_key :: fold_key_column
  fe_entries :: "fold_entry list"
  fe_base_serial :: nat
  fe_open :: "(ustr \<times> open_run) list"
  fe_recency :: "(nat \<times> ustr) list"
  fe_first_position :: nat
  fe_next_position :: nat
  fe_retained_members :: nat
  fe_stats :: fold_stats

definition starting_at :: "fold_config \<Rightarrow> fold_key_column \<Rightarrow> nat \<Rightarrow> fold_engine" where
  "starting_at c key first = \<lparr>fe_config = c, fe_key = key, fe_entries = [], fe_base_serial = 0,
     fe_open = [], fe_recency = [], fe_first_position = first, fe_next_position = first,
     fe_retained_members = 0, fe_stats = fold_stats_default\<rparr>"

definition engine_with_key :: "fold_config \<Rightarrow> fold_key_column \<Rightarrow> fold_engine" where
  "engine_with_key c key = starting_at c key 0"

definition fold_engine_new :: "fold_config \<Rightarrow> fold_engine" where
  "fold_engine_new c = engine_with_key c Pattern"

definition engine_reset :: "fold_engine \<Rightarrow> fold_engine" where
  "engine_reset s = s\<lparr>fe_entries := [], fe_base_serial := 0, fe_open := [], fe_recency := [],
     fe_next_position := fe_first_position s, fe_retained_members := 0,
     fe_stats := fold_stats_default\<rparr>"

definition engine_stats :: "fold_engine \<Rightarrow> fold_stats" where
  "engine_stats s = (fe_stats s)\<lparr>fs_entries := length (fe_entries s),
     fs_retained_members := fe_retained_members s, fs_open_patterns := length (fe_open s)\<rparr>"

record fold_frame =
  ff_entries :: "fold_entry list"
  ff_stats :: fold_stats

definition engine_frame :: "fold_engine \<Rightarrow> fold_frame" where
  "engine_frame s = \<lparr>ff_entries = fe_entries s, ff_stats = engine_stats s\<rparr>"

definition entry_of :: "fold_frame \<Rightarrow> row_id \<Rightarrow> nat option" where
  "entry_of f i = find_index_opt (\<lambda>e. entry_contains e i) (ff_entries f)"

definition total_members :: "fold_frame \<Rightarrow> nat" where
  "total_members f = sum_list (map entry_count (ff_entries f))"

definition index_of :: "fold_engine \<Rightarrow> nat \<Rightarrow> nat option" where
  "index_of s serial =
    (if serial < fe_base_serial s then None
     else let offset = serial - fe_base_serial s
          in if offset < length (fe_entries s) then Some offset else None)"

definition close_pattern :: "ustr \<Rightarrow> fold_engine \<Rightarrow> fold_engine" where
  "close_pattern p s =
    (case map_of (fe_open s) p of
       None \<Rightarrow> s
     | Some run \<Rightarrow> s\<lparr>fe_open := AList.delete p (fe_open s),
                     fe_recency := AList.delete (or_last_position run) (fe_recency s)\<rparr>)"

definition touch :: "ustr \<Rightarrow> nat \<Rightarrow> fold_engine \<Rightarrow> fold_engine" where
  "touch p position s =
    (case map_of (fe_open s) p of
       None \<Rightarrow> s
     | Some run \<Rightarrow>
         s\<lparr>fe_open := AList.update p (run\<lparr>or_last_position := position\<rparr>) (fe_open s),
           fe_recency := bt_insert position p
             (AList.delete (or_last_position run) (fe_recency s))\<rparr>)"

text \<open>The loops that close the least recently extended runs consume the recency map from its
  front: the first argument is the map as the loop has it.\<close>

fun stale_loop ::
  "nat \<Rightarrow> (nat \<times> ustr) list \<Rightarrow> (ustr \<times> open_run) list \<Rightarrow> (nat \<times> ustr) list \<times> (ustr \<times> open_run) list"
where
  "stale_loop threshold [] runs = ([], runs)"
| "stale_loop threshold ((l, p) # recency) runs =
    (if l \<ge> threshold then ((l, p) # recency, runs)
     else stale_loop threshold recency (AList.delete p runs))"

definition close_stale :: "nat \<Rightarrow> fold_engine \<Rightarrow> fold_engine" where
  "close_stale position s =
    (let limit = gap_limit (fc_scope (fe_config s));
         (recency, runs) = stale_loop (position - limit) (fe_recency s) (fe_open s)
     in s\<lparr>fe_recency := recency, fe_open := runs\<rparr>)"

fun cap_loop ::
  "nat \<Rightarrow> (nat \<times> ustr) list \<Rightarrow> (ustr \<times> open_run) list \<Rightarrow> (nat \<times> ustr) list \<times> (ustr \<times> open_run) list"
where
  "cap_loop cap [] runs = ([], runs)"
| "cap_loop cap ((l, p) # recency) runs =
    (if length runs > cap then cap_loop cap recency (AList.delete p runs)
     else ((l, p) # recency, runs))"

definition enforce_pattern_cap :: "fold_engine \<Rightarrow> fold_engine" where
  "enforce_pattern_cap s =
    (let cap = max (fc_maximum_patterns (fe_config s)) 1;
         (recency, runs) = cap_loop cap (fe_recency s) (fe_open s)
     in s\<lparr>fe_recency := recency, fe_open := runs\<rparr>)"

text \<open>How many entries leave the front, the members that stay and the count of those that went.\<close>

fun evict_loop :: "nat \<Rightarrow> nat \<Rightarrow> fold_entry list \<Rightarrow> nat \<Rightarrow> nat \<Rightarrow> nat \<Rightarrow> nat \<times> nat \<times> nat" where
  "evict_loop entry_target member_target [] evicted retained gone = (evicted, retained, gone)"
| "evict_loop entry_target member_target (e # es) evicted retained gone =
    (if length (e # es) > entry_target \<or> retained > member_target
     then evict_loop entry_target member_target es (evicted + 1) (retained - length (en_members e))
            (saturating_add_u64 gone (length (en_members e)))
     else (evicted, retained, gone))"

definition enforce_retention :: "fold_engine \<Rightarrow> fold_engine" where
  "enforce_retention s =
    (let entry_cap = max (fc_maximum_entries (fe_config s)) 1;
         member_cap = max (fc_maximum_members (fe_config s)) 1
     in if length (fe_entries s) \<le> entry_cap \<and> fe_retained_members s \<le> member_cap then s
        else
          let entry_target = entry_cap - entry_cap div 4;
              member_target = member_cap - member_cap div 4;
              (evicted, retained, gone) = evict_loop entry_target member_target (fe_entries s) 0
                (fe_retained_members s) (fs_evicted_members (fe_stats s));
              s1 = s\<lparr>fe_retained_members := retained,
                     fe_stats := (fe_stats s)\<lparr>fs_evicted_members := gone\<rparr>\<rparr>
          in if evicted = 0 then s1
             else
               let closed = map en_pattern (take evicted (fe_entries s));
                   s2 = fold close_pattern closed (s1\<lparr>fe_entries := drop evicted (fe_entries s)\<rparr>)
               in s2\<lparr>fe_base_serial := fe_base_serial s2 + evicted,
                     fe_stats := (fe_stats s2)\<lparr>fs_evicted_entries :=
                       saturating_add_u64 (fs_evicted_entries (fe_stats s2)) evicted\<rparr>\<rparr>)"

definition member_of :: "fold_event \<Rightarrow> nat \<Rightarrow> fold_member" where
  "member_of e position = \<lparr>fm_id = ev_id e, fm_position = position, fm_timestamp = ev_timestamp e\<rparr>"

definition append_member :: "nat \<Rightarrow> fold_event \<Rightarrow> nat \<Rightarrow> fold_engine \<Rightarrow> fold_engine" where
  "append_member index e position s =
    (let minimum = effective_minimum_run (fe_config s);
         sample = truncate_chars (ev_text e) (fc_maximum_sample_chars (fe_config s));
         entry = fe_entries s ! index;
         members = en_members entry @ [member_of e position]
     in s\<lparr>fe_entries := (fe_entries s)[index := entry\<lparr>en_members := members, en_last_sample := sample,
              en_folded := (length members \<ge> minimum)\<rparr>],
          fe_retained_members := fe_retained_members s + 1\<rparr>)"

definition start_entry :: "ustr \<Rightarrow> fold_event \<Rightarrow> nat \<Rightarrow> bool \<Rightarrow> fold_engine \<Rightarrow> fold_engine" where
  "start_entry p e position opens s =
    (let serial = fe_base_serial s + length (fe_entries s);
         sample = truncate_chars (ev_text e) (fc_maximum_sample_chars (fe_config s));
         s1 = s\<lparr>fe_entries := fe_entries s @ [\<lparr>en_pattern = p, en_members = [member_of e position],
                  en_folded = False, en_first_sample = sample, en_last_sample = sample\<rparr>],
                fe_retained_members := fe_retained_members s + 1\<rparr>
     in if opens then
          let s2 = close_pattern p s1
          in enforce_pattern_cap (s2\<lparr>
               fe_open := AList.update p \<lparr>or_serial = serial, or_last_position = position\<rparr> (fe_open s2),
               fe_recency := bt_insert position p (fe_recency s2)\<rparr>)
        else s1)"

definition push :: "char_tables \<Rightarrow> fold_engine \<Rightarrow> fold_event \<Rightarrow> fold_engine" where
  "push ct s0 e =
    (let position = fe_next_position s0;
         s = s0\<lparr>fe_next_position := saturating_add_u64 position 1,
                fe_stats := (fe_stats s0)\<lparr>fs_observed_events :=
                  saturating_add_u64 (fs_observed_events (fe_stats s0)) 1\<rparr>\<rparr>
     in if \<not> fc_enabled (fe_config s) then enforce_retention (start_entry [] e position False s)
        else case fold_key ct e (fe_key s) (fe_config s) of
          None \<Rightarrow> enforce_retention (start_entry [] e position False s)
        | Some p \<Rightarrow>
            let s1 = close_stale position s
            in case map_of (fe_open s1) p of
                 None \<Rightarrow> enforce_retention (start_entry p e position True s1)
               | Some run \<Rightarrow>
                   (case (case index_of s1 (or_serial run) of None \<Rightarrow> None
                          | Some index \<Rightarrow>
                              if length (en_members (fe_entries s1 ! index)) < fc_maximum_run (fe_config s1)
                              then Some index else None) of
                      Some index \<Rightarrow> enforce_retention (touch p position (append_member index e position s1))
                    | None \<Rightarrow> enforce_retention (start_entry p e position True (close_pattern p s1))))"

definition engine_extend :: "char_tables \<Rightarrow> fold_engine \<Rightarrow> fold_event list \<Rightarrow> fold_engine" where
  "engine_extend ct s es = foldl (push ct) s es"

definition fold_rows_by :: "char_tables \<Rightarrow> fold_config \<Rightarrow> fold_key_column \<Rightarrow> fold_event list \<Rightarrow> fold_frame"
where
  "fold_rows_by ct c key rows = engine_frame (engine_extend ct (engine_with_key c key) rows)"

definition fold_rows :: "char_tables \<Rightarrow> fold_config \<Rightarrow> fold_event list \<Rightarrow> fold_frame" where
  "fold_rows ct c rows = fold_rows_by ct c Pattern rows"

section \<open>The index of open runs\<close>

text \<open>The two maps always describe the same runs: recency is the inverse of last positions.\<close>

definition index_ok :: "(ustr \<times> open_run) list \<Rightarrow> (nat \<times> ustr) list \<Rightarrow> bool" where
  "index_ok runs recency \<longleftrightarrow> distinct (map fst runs) \<and> bt_ok recency
    \<and> (\<forall>l p. map_of recency l = Some p
        \<longleftrightarrow> (\<exists>r. map_of runs p = Some r \<and> or_last_position r = l))"

declare map_of_eq_Some_iff [simp del]

lemma index_ok_empty [simp]: "index_ok [] []"
  by (simp add: index_ok_def)

lemma index_ok_runs: "index_ok runs recency \<Longrightarrow> map_of runs p = Some r \<Longrightarrow>
    map_of recency (or_last_position r) = Some p"
  by (auto simp: index_ok_def)

lemma index_ok_recency: "index_ok runs recency \<Longrightarrow> map_of recency l = Some p \<Longrightarrow>
    \<exists>r. map_of runs p = Some r \<and> or_last_position r = l"
  by (auto simp: index_ok_def)

lemma index_ok_Nil: "index_ok runs [] \<Longrightarrow> runs = []"
  by (cases runs) (auto dest: index_ok_runs)

lemma index_okI:
  assumes "distinct (map fst runs)" "bt_ok recency"
    and "\<And>l p. map_of recency l = Some p \<Longrightarrow> \<exists>r. map_of runs p = Some r \<and> or_last_position r = l"
    and "\<And>p r. map_of runs p = Some r \<Longrightarrow> map_of recency (or_last_position r) = Some p"
  shows "index_ok runs recency"
  using assms unfolding index_ok_def by blast

lemma index_ok_maps: "index_ok runs recency \<Longrightarrow> distinct (map fst runs) \<and> bt_ok recency"
  by (simp add: index_ok_def)

lemma index_ok_unique:
  "index_ok runs recency \<Longrightarrow> map_of runs p = Some r \<Longrightarrow> map_of runs q = Some r' \<Longrightarrow>
    or_last_position r = or_last_position r' \<Longrightarrow> p = q"
  by (metis index_ok_runs option.inject)

lemma index_ok_remove:
  assumes "index_ok runs recency" "map_of runs p = Some r"
  shows "index_ok (AList.delete p runs) (AList.delete (or_last_position r) recency)"
proof (rule index_okI)
  show "\<exists>r'. map_of (AList.delete p runs) q = Some r' \<and> or_last_position r' = l"
    if "map_of (AList.delete (or_last_position r) recency) l = Some q" for l q
  proof -
    have l: "l \<noteq> or_last_position r" "map_of recency l = Some q"
      using that by (auto simp: map_of_delete_upd split: if_splits)
    then obtain r' where r': "map_of runs q = Some r'" "or_last_position r' = l"
      using index_ok_recency [OF assms(1)] by blast
    then have "q \<noteq> p" using l assms(2) by auto
    then show ?thesis using r' by (simp add: map_of_delete_upd)
  qed
  show "map_of (AList.delete (or_last_position r) recency) (or_last_position r') = Some q"
    if "map_of (AList.delete p runs) q = Some r'" for q r'
  proof -
    have q: "q \<noteq> p" "map_of runs q = Some r'" using that by (auto simp: map_of_delete_upd split: if_splits)
    then have "or_last_position r' \<noteq> or_last_position r"
      using index_ok_unique [OF assms(1) q(2) assms(2)] by blast
    then show ?thesis using index_ok_runs [OF assms(1) q(2)] by (simp add: map_of_delete_upd)
  qed
qed (use index_ok_maps [OF assms(1)] in \<open>auto simp: bt_ok_delete\<close>)

lemma index_ok_add:
  assumes "index_ok runs recency" "map_of runs p = None" "map_of recency position = None"
    "or_last_position r = position"
  shows "index_ok (AList.update p r runs) (bt_insert position p recency)"
  using index_ok_maps [OF assms(1)] index_ok_runs [OF assms(1)] assms(2-4)
    index_ok_recency [OF assms(1)]
  by (intro index_okI)
     (fastforce simp: map_of_update map_of_bt_insert bt_ok_insert split: if_splits)+

lemma index_ok_cong:
  "index_ok runs recency \<Longrightarrow> distinct (map fst runs') \<Longrightarrow> map_of runs' = map_of runs \<Longrightarrow>
    index_ok runs' recency"
  by (simp add: index_ok_def)

lemma index_ok_touch:
  assumes "index_ok runs recency" "map_of runs p = Some r" "map_of recency position = None"
  shows "index_ok (AList.update p (r\<lparr>or_last_position := position\<rparr>) runs)
    (bt_insert position p (AList.delete (or_last_position r) recency))"
proof (rule index_ok_cong)
  show "index_ok (AList.update p (r\<lparr>or_last_position := position\<rparr>) (AList.delete p runs))
      (bt_insert position p (AList.delete (or_last_position r) recency))"
    using assms by (intro index_ok_add index_ok_remove) (auto simp: map_of_delete_upd)
qed (use index_ok_maps [OF assms(1)] in \<open>auto simp: map_of_update map_of_delete_upd\<close>)

lemma index_ok_pop:
  assumes "index_ok runs ((l, p) # recency)"
  shows "index_ok (AList.delete p runs) recency"
proof -
  obtain r where r: "map_of runs p = Some r" "or_last_position r = l"
    using index_ok_recency [OF assms, of l p] by auto
  have "bt_ok ((l, p) # recency)" using assms by (simp add: index_ok_def)
  then show ?thesis
    using index_ok_remove [OF assms r(1)] r(2) delete_head [of l p recency] by simp
qed

lemma stale_loop_spec:
  assumes "index_ok runs recency" "stale_loop t recency runs = (recency', runs')"
  shows "index_ok runs' recency'
    \<and> (\<forall>p r. map_of runs' p = Some r \<longleftrightarrow> map_of runs p = Some r \<and> t \<le> or_last_position r)
    \<and> length runs' \<le> length runs"
  using assms
proof (induction t recency runs rule: stale_loop.induct)
  case (1 t runs)
  then show ?case using index_ok_Nil [of runs] by auto
next
  case (2 t l p recency runs)
  have least: "l \<le> or_last_position r" if "map_of runs q = Some r" for q r
  proof -
    have "map_of ((l, p) # recency) (or_last_position r) = Some q"
      using index_ok_runs [OF "2.prems"(1) that] .
    then have "(or_last_position r, q) \<in> set ((l, p) # recency)" by (rule map_of_SomeD)
    moreover have "bt_ok ((l, p) # recency)" using "2.prems"(1) by (simp add: index_ok_def)
    ultimately show ?thesis by fastforce
  qed
  show ?case
  proof (cases "l \<ge> t")
    case True
    then have "t \<le> or_last_position r" if "map_of runs q = Some r" for q r
      using least [OF that] by simp
    then show ?thesis using "2.prems" True by auto
  next
    case False
    then have ih: "index_ok runs' recency'
        \<and> (\<forall>q r. map_of runs' q = Some r \<longleftrightarrow>
              map_of (AList.delete p runs) q = Some r \<and> t \<le> or_last_position r)
        \<and> length runs' \<le> length (AList.delete p runs)"
      using "2.IH" index_ok_pop "2.prems" by simp
    obtain r where "map_of runs p = Some r" "or_last_position r = l"
      using index_ok_recency [OF "2.prems"(1), of l p] by auto
    then have "\<not> t \<le> or_last_position r'" if "map_of runs p = Some r'" for r'
      using that False by simp
    then show ?thesis
      using ih AList.length_delete_le [of p runs] by (auto simp: map_of_delete_upd)
  qed
qed

lemma cap_loop_spec:
  assumes "index_ok runs recency" "cap_loop n recency runs = (recency', runs')"
  shows "index_ok runs' recency' \<and> (\<forall>p r. map_of runs' p = Some r \<longrightarrow> map_of runs p = Some r)
    \<and> length runs' \<le> n \<and> (length runs \<le> n \<longrightarrow> runs' = runs)
    \<and> (length runs = Suc n \<longrightarrow> recency \<noteq> [] \<and> runs' = AList.delete (snd (hd recency)) runs)"
  using assms
proof (induction n recency runs rule: cap_loop.induct)
  case (1 n runs)
  then show ?case using index_ok_Nil [of runs] by auto
next
  case (2 n l p recency runs)
  show ?case
  proof (cases "n < length runs")
    case False
    then show ?thesis using "2.prems" by auto
  next
    case True
    obtain r where "map_of runs p = Some r" "or_last_position r = l"
      using index_ok_recency [OF "2.prems"(1), of l p] by auto
    then have "p \<in> fst ` set runs" by (force dest!: map_of_SomeD)
    moreover have "distinct (map fst runs)" using "2.prems"(1) by (simp add: index_ok_def)
    ultimately have "Suc (length (AList.delete p runs)) = length runs"
      by (intro length_delete_member)
    moreover have ih: "index_ok runs' recency'
        \<and> (\<forall>q r. map_of runs' q = Some r \<longrightarrow> map_of (AList.delete p runs) q = Some r)
        \<and> length runs' \<le> n \<and> (length (AList.delete p runs) \<le> n \<longrightarrow> runs' = AList.delete p runs)"
      using "2.IH" [OF True index_ok_pop] "2.prems" True by simp
    moreover have "map_of runs q = Some r" if "map_of runs' q = Some r" for q r
    proof -
      have "map_of (AList.delete p runs) q = Some r" using ih that by blast
      then show ?thesis by (simp add: map_of_delete_upd split: if_splits)
    qed
    ultimately show ?thesis using True by auto
  qed
qed

section \<open>The invariant of the engine\<close>

definition all_members :: "fold_entry list \<Rightarrow> fold_member list" where
  "all_members es = concat (map en_members es)"

lemma all_members_simps [simp]:
  "all_members [] = []" "all_members (e # es) = en_members e @ all_members es"
  "all_members (es @ fs) = all_members es @ all_members fs"
  by (simp_all add: all_members_def)

lemma all_members_update:
  "i < length es \<Longrightarrow> en_members e = en_members (es ! i) @ [m] \<Longrightarrow>
    mset (all_members (es[i := e])) = add_mset m (mset (all_members es))"
proof (induction es arbitrary: i)
  case (Cons a es)
  then show ?case by (cases i) auto
qed simp

text \<open>What holds of one entry: it is not empty, its members are in order, it is a fold exactly from
  the minimum run on, and it is no longer than a run may be.\<close>

definition entry_ok :: "fold_config \<Rightarrow> fold_entry \<Rightarrow> bool" where
  "entry_ok c e \<longleftrightarrow> en_members e \<noteq> [] \<and> sorted_wrt (<) (map fm_position (en_members e))
    \<and> en_folded e = (effective_minimum_run c \<le> length (en_members e))
    \<and> length (en_members e) \<le> max 1 (fc_maximum_run c)"

text \<open>An open run is the retained entry of its pattern, extended last at its last position.\<close>

definition runs_ok :: "fold_engine \<Rightarrow> bool" where
  "runs_ok s \<longleftrightarrow> (\<forall>p r. map_of (fe_open s) p = Some r \<longrightarrow>
     fe_base_serial s \<le> or_serial r \<and> or_serial r < fe_base_serial s + length (fe_entries s)
     \<and> en_pattern (fe_entries s ! (or_serial r - fe_base_serial s)) = p
     \<and> fm_position (last (en_members (fe_entries s ! (or_serial r - fe_base_serial s))))
         = or_last_position r)"

text \<open>The members are those of the events seen, each at its own position, and whatever is not
  retained has been counted as evicted.\<close>

definition members_ok :: "fold_event list \<Rightarrow> fold_engine \<Rightarrow> bool" where
  "members_ok es s \<longleftrightarrow>
     (\<forall>m \<in> set (all_members (fe_entries s)). \<exists>k < length es.
        m = member_of (es ! k) (fe_first_position s + k))
     \<and> distinct (map fm_position (all_members (fe_entries s)))
     \<and> fe_retained_members s = length (all_members (fe_entries s))
     \<and> fs_evicted_members (fe_stats s) + fe_retained_members s = length es"

definition open_bounded :: "fold_engine \<Rightarrow> bool" where
  "open_bounded s \<longleftrightarrow> length (fe_open s) \<le> max (fc_maximum_patterns (fe_config s)) 1"

definition core_inv :: "fold_event list \<Rightarrow> fold_engine \<Rightarrow> bool" where
  "core_inv es s \<longleftrightarrow> index_ok (fe_open s) (fe_recency s) \<and> runs_ok s \<and> members_ok es s
     \<and> (\<forall>e \<in> set (fe_entries s). entry_ok (fe_config s) e) \<and> open_bounded s"

definition caps_ok :: "fold_engine \<Rightarrow> bool" where
  "caps_ok s \<longleftrightarrow> length (fe_entries s) \<le> max (fc_maximum_entries (fe_config s)) 1
     \<and> fe_retained_members s \<le> max (fc_maximum_members (fe_config s)) 1"

definition engine_inv :: "fold_event list \<Rightarrow> fold_engine \<Rightarrow> bool" where
  "engine_inv es s \<longleftrightarrow> core_inv es s \<and> caps_ok s
     \<and> fe_next_position s = fe_first_position s + length es
     \<and> fs_observed_events (fe_stats s) = length es"

text \<open>The operations on the runs leave everything else as it is.\<close>

definition same_but_runs :: "fold_engine \<Rightarrow> fold_engine \<Rightarrow> bool" where
  "same_but_runs s s' \<longleftrightarrow> s' = s\<lparr>fe_open := fe_open s', fe_recency := fe_recency s'\<rparr>"

lemma same_but_runs_fields:
  "same_but_runs s s' \<Longrightarrow> fe_config s' = fe_config s \<and> fe_key s' = fe_key s
    \<and> fe_entries s' = fe_entries s \<and> fe_base_serial s' = fe_base_serial s
    \<and> fe_first_position s' = fe_first_position s \<and> fe_next_position s' = fe_next_position s
    \<and> fe_retained_members s' = fe_retained_members s \<and> fe_stats s' = fe_stats s"
  by (cases s; cases s') (simp add: same_but_runs_def)

lemma same_but_runs_close: "same_but_runs s (close_pattern p s)"
  by (cases s) (simp add: same_but_runs_def close_pattern_def split: option.splits)

lemma same_but_runs_stale: "same_but_runs s (close_stale position s)"
  by (cases s) (simp add: same_but_runs_def close_stale_def Let_def split: prod.splits)

lemma same_but_runs_touch: "same_but_runs s (touch p position s)"
  by (cases s) (simp add: same_but_runs_def touch_def split: option.splits)

lemma same_but_runs_cap: "same_but_runs s (enforce_pattern_cap s)"
  by (cases s) (simp add: same_but_runs_def enforce_pattern_cap_def Let_def split: prod.splits)

lemma same_but_runs_trans: "same_but_runs s t \<Longrightarrow> same_but_runs t u \<Longrightarrow> same_but_runs s u"
  by (cases s; cases t; cases u) (simp add: same_but_runs_def)

lemma same_but_runs_refl: "same_but_runs s s"
  by (cases s) (simp add: same_but_runs_def)

lemmas close_fields [simp] = same_but_runs_fields [OF same_but_runs_close]
lemmas stale_fields [simp] = same_but_runs_fields [OF same_but_runs_stale]
lemmas touch_fields [simp] = same_but_runs_fields [OF same_but_runs_touch]
lemmas cap_fields [simp] = same_but_runs_fields [OF same_but_runs_cap]

lemma close_pattern_runs:
  assumes "index_ok (fe_open s) (fe_recency s)"
  shows "index_ok (fe_open (close_pattern p s)) (fe_recency (close_pattern p s))
    \<and> map_of (fe_open (close_pattern p s)) = (map_of (fe_open s))(p := None)
    \<and> length (fe_open (close_pattern p s)) \<le> length (fe_open s)"
  using assms index_ok_remove [OF assms, of p] AList.length_delete_le [of p "fe_open s"]
  by (auto simp: close_pattern_def map_of_delete_upd split: option.splits)

lemma close_patterns_runs:
  assumes "index_ok (fe_open s) (fe_recency s)"
  shows "same_but_runs s (fold close_pattern ps s)
    \<and> index_ok (fe_open (fold close_pattern ps s)) (fe_recency (fold close_pattern ps s))
    \<and> map_of (fe_open (fold close_pattern ps s)) = map_of (fe_open s) |` (- set ps)
    \<and> length (fe_open (fold close_pattern ps s)) \<le> length (fe_open s)"
  using assms
proof (induction ps arbitrary: s)
  case (Cons p ps)
  have c: "index_ok (fe_open (close_pattern p s)) (fe_recency (close_pattern p s))"
    "map_of (fe_open (close_pattern p s)) = (map_of (fe_open s))(p := None)"
    "length (fe_open (close_pattern p s)) \<le> length (fe_open s)"
    using close_pattern_runs [OF Cons.prems, of p] by simp_all
  have "map_of (fe_open (fold close_pattern (p # ps) s)) = map_of (fe_open s) |` (- set (p # ps))"
    using Cons.IH [OF c(1)] by (auto simp: c(2) restrict_map_def fun_eq_iff)
  then show ?case
    using Cons.IH [OF c(1)] c(3) same_but_runs_trans [OF same_but_runs_close] by auto
qed (simp add: same_but_runs_refl restrict_map_def)

text \<open>An operation that only removes runs preserves the invariant.\<close>

lemma runs_ok_fewer:
  assumes "runs_ok s" "same_but_runs s s'"
    "\<And>p r. map_of (fe_open s') p = Some r \<Longrightarrow> map_of (fe_open s) p = Some r"
  shows "runs_ok s'"
  using assms(1,3) same_but_runs_fields [OF assms(2)] unfolding runs_ok_def by auto

lemma core_inv_fewer_runs:
  assumes "core_inv es s" "same_but_runs s s'" "index_ok (fe_open s') (fe_recency s')"
    "\<And>p r. map_of (fe_open s') p = Some r \<Longrightarrow> map_of (fe_open s) p = Some r"
    "length (fe_open s') \<le> length (fe_open s)"
  shows "core_inv es s'"
proof -
  have "runs_ok s'" using assms by (intro runs_ok_fewer [OF _ assms(2)]) (auto simp: core_inv_def)
  then show ?thesis
    using assms(1,3,5) same_but_runs_fields [OF assms(2)]
    by (auto simp: core_inv_def members_ok_def open_bounded_def)
qed

lemma core_inv_close: "core_inv es s \<Longrightarrow> core_inv es (close_pattern p s)"
  by (rule core_inv_fewer_runs [OF _ same_but_runs_close])
     (auto simp: core_inv_def dest: close_pattern_runs [of _ p] split: if_splits)

lemma close_stale_runs:
  assumes "index_ok (fe_open s) (fe_recency s)"
  shows "index_ok (fe_open (close_stale n s)) (fe_recency (close_stale n s))
    \<and> (\<forall>p r. map_of (fe_open (close_stale n s)) p = Some r \<longleftrightarrow> map_of (fe_open s) p = Some r
          \<and> n - gap_limit (fc_scope (fe_config s)) \<le> or_last_position r)
    \<and> length (fe_open (close_stale n s)) \<le> length (fe_open s)"
  using stale_loop_spec [OF assms] by (simp add: close_stale_def Let_def split: prod.splits)

lemma core_inv_stale: "core_inv es s \<Longrightarrow> core_inv es (close_stale n s)"
  by (rule core_inv_fewer_runs [OF _ same_but_runs_stale])
     (auto simp: core_inv_def dest: close_stale_runs [of _ n])

section \<open>Every operation keeps the invariant\<close>

lemma index_fresh_position:
  assumes "index_ok runs recency" "\<And>p r. map_of runs p = Some r \<Longrightarrow> or_last_position r \<noteq> position"
  shows "map_of recency position = None"
  using index_ok_recency [OF assms(1), of position] assms(2) by (cases "map_of recency position") auto

lemma runs_okD:
  assumes "runs_ok s" "map_of (fe_open s) p = Some r"
  shows "fe_base_serial s \<le> or_serial r" "or_serial r < fe_base_serial s + length (fe_entries s)"
    "en_pattern (fe_entries s ! (or_serial r - fe_base_serial s)) = p"
    "fm_position (last (en_members (fe_entries s ! (or_serial r - fe_base_serial s))))
      = or_last_position r"
  using assms unfolding runs_ok_def by blast+

lemma runs_ok_last:
  assumes "runs_ok s" "map_of (fe_open s) p = Some r" "\<forall>e \<in> set (fe_entries s). en_members e \<noteq> []"
  shows "or_last_position r \<in> fm_position ` set (all_members (fe_entries s))"
proof -
  define e where "e = fe_entries s ! (or_serial r - fe_base_serial s)"
  have "e \<in> set (fe_entries s)" "fm_position (last (en_members e)) = or_last_position r"
    using assms(1,2) by (fastforce simp: runs_ok_def e_def)+
  moreover from this(1) have "last (en_members e) \<in> set (all_members (fe_entries s))"
    using assms(3) last_in_set by (fastforce simp: all_members_def)
  ultimately show ?thesis by force
qed

lemma members_old_position:
  "members_ok es s \<Longrightarrow> m \<in> set (all_members (fe_entries s)) \<Longrightarrow>
    fm_position m < fe_first_position s + length es"
  by (auto simp: members_ok_def member_of_def)

lemma core_inv_last_old:
  assumes "core_inv es s" "map_of (fe_open s) p = Some r"
  shows "or_last_position r < fe_first_position s + length es"
  using runs_ok_last [of s p r] members_old_position [of es s] assms
  by (auto simp: core_inv_def entry_ok_def)

lemma members_ok_add:
  assumes "members_ok es s" "fe_first_position s' = fe_first_position s" "fe_stats s' = fe_stats s"
    "fe_retained_members s' = Suc (fe_retained_members s)"
    "mset (all_members (fe_entries s')) = add_mset (member_of e (fe_first_position s + length es))
       (mset (all_members (fe_entries s)))"
  shows "members_ok (es @ [e]) s'"
proof -
  let ?m = "member_of e (fe_first_position s + length es)"
  have "set (all_members (fe_entries s')) = insert ?m (set (all_members (fe_entries s)))"
    using arg_cong [OF assms(5), of set_mset] by simp
  moreover have "mset (map fm_position (all_members (fe_entries s')))
      = mset (fm_position ?m # map fm_position (all_members (fe_entries s)))"
    using arg_cong [OF assms(5), of "image_mset fm_position"] by simp
  then have "distinct (map fm_position (all_members (fe_entries s')))
      = distinct (fm_position ?m # map fm_position (all_members (fe_entries s)))"
    by (rule mset_eq_imp_distinct_iff)
  moreover have "fm_position ?m \<notin> fm_position ` set (all_members (fe_entries s))"
    using members_old_position [OF assms(1)] by (force simp: member_of_def)
  moreover have "length (all_members (fe_entries s')) = Suc (length (all_members (fe_entries s)))"
    using arg_cong [OF assms(5), of size] by simp
  moreover have "\<exists>k < length (es @ [e]). m = member_of ((es @ [e]) ! k) (fe_first_position s + k)"
    if "\<exists>k < length es. m = member_of (es ! k) (fe_first_position s + k)" for m
  proof -
    from that obtain k where "k < length es" "m = member_of (es ! k) (fe_first_position s + k)"
      by blast
    then show ?thesis by (intro exI [of _ k]) (simp add: nth_append)
  qed
  moreover have "\<exists>k < length (es @ [e]). ?m = member_of ((es @ [e]) ! k) (fe_first_position s + k)"
    by (rule exI [of _ "length es"]) simp
  ultimately show ?thesis using assms(1-4) by (auto simp: members_ok_def)
qed

text \<open>The entry a new event starts.\<close>

definition fresh_entry :: "fold_engine \<Rightarrow> ustr \<Rightarrow> fold_event \<Rightarrow> nat \<Rightarrow> fold_entry" where
  "fresh_entry s p e position =
    (let sample = truncate_chars (ev_text e) (fc_maximum_sample_chars (fe_config s))
     in \<lparr>en_pattern = p, en_members = [member_of e position], en_folded = False,
         en_first_sample = sample, en_last_sample = sample\<rparr>)"

lemma fresh_entry_ok: "entry_ok c (fresh_entry s p e position)"
  by (simp add: entry_ok_def fresh_entry_def effective_minimum_run_def Let_def)

lemma start_entry_closed:
  "start_entry p e position False s = s\<lparr>fe_entries := fe_entries s @ [fresh_entry s p e position],
     fe_retained_members := fe_retained_members s + 1\<rparr>"
  by (simp add: start_entry_def fresh_entry_def Let_def)

lemma start_entry_open:
  "start_entry p e position True s =
    (let s2 = close_pattern p (start_entry p e position False s)
     in enforce_pattern_cap (s2\<lparr>
          fe_open := AList.update p \<lparr>or_serial = fe_base_serial s + length (fe_entries s),
                       or_last_position = position\<rparr> (fe_open s2),
          fe_recency := bt_insert position p (fe_recency s2)\<rparr>))"
  by (simp add: start_entry_def Let_def)

lemma core_inv_start_closed:
  assumes "core_inv es s" "position = fe_first_position s + length es"
  shows "core_inv (es @ [e]) (start_entry p e position False s)"
proof -
  have "members_ok (es @ [e]) (start_entry p e position False s)"
    using assms by (intro members_ok_add [where s = s])
      (auto simp: core_inv_def start_entry_closed fresh_entry_def Let_def)
  then show ?thesis
    using assms(1) fresh_entry_ok [of _ s p e position]
    by (fastforce simp: core_inv_def start_entry_closed runs_ok_def open_bounded_def nth_append)
qed

lemma enforce_pattern_cap_runs:
  assumes "index_ok (fe_open s) (fe_recency s)"
  shows "index_ok (fe_open (enforce_pattern_cap s)) (fe_recency (enforce_pattern_cap s))
    \<and> (\<forall>p r. map_of (fe_open (enforce_pattern_cap s)) p = Some r \<longrightarrow> map_of (fe_open s) p = Some r)
    \<and> open_bounded (enforce_pattern_cap s)
    \<and> (open_bounded s \<longrightarrow> fe_open (enforce_pattern_cap s) = fe_open s)"
  using cap_loop_spec [OF assms]
  by (simp add: enforce_pattern_cap_def open_bounded_def Let_def split: prod.splits)

lemma core_inv_start_open:
  assumes "core_inv es s" "position = fe_first_position s + length es"
  shows "core_inv (es @ [e]) (start_entry p e position True s)"
proof -
  define s1 where "s1 = start_entry p e position False s"
  define s2 where "s2 = close_pattern p s1"
  define run where "run = \<lparr>or_serial = fe_base_serial s + length (fe_entries s), or_last_position = position\<rparr>"
  define s3 where "s3 = s2\<lparr>fe_open := AList.update p run (fe_open s2),
    fe_recency := bt_insert position p (fe_recency s2)\<rparr>"
  have s1: "core_inv (es @ [e]) s1"
    unfolding s1_def using assms by (rule core_inv_start_closed)
  then have c1: "core_inv (es @ [e]) s2" unfolding s2_def by (rule core_inv_close)
  have open1: "fe_open s1 = fe_open s" "fe_recency s1 = fe_recency s"
    by (simp_all add: s1_def start_entry_closed)
  have open2: "map_of (fe_open s2) = (map_of (fe_open s))(p := None)"
    using s1 close_pattern_runs [of s1 p] open1 by (simp add: s2_def core_inv_def)
  have fields: "fe_entries s2 = fe_entries s @ [fresh_entry s p e position]"
    "fe_base_serial s2 = fe_base_serial s" "fe_config s2 = fe_config s"
    by (simp_all add: s2_def s1_def start_entry_closed)
  have "map_of (fe_recency s2) position = None"
  proof (rule index_fresh_position)
    show "index_ok (fe_open s2) (fe_recency s2)" using c1 by (simp add: core_inv_def)
    show "or_last_position r \<noteq> position" if "map_of (fe_open s2) q = Some r" for q r
      using core_inv_last_old [OF assms(1), of q r] that assms(2) open2 by (simp split: if_splits)
  qed
  then have index3: "index_ok (fe_open s3) (fe_recency s3)"
    using c1 open2 by (auto simp: s3_def run_def core_inv_def intro!: index_ok_add)
  have "runs_ok s3"
    using c1 unfolding core_inv_def runs_ok_def s3_def
    by (auto simp: map_of_update run_def fields fresh_entry_def member_of_def Let_def)
  then have "runs_ok (enforce_pattern_cap s3)"
    using enforce_pattern_cap_runs [OF index3] by (intro runs_ok_fewer [OF _ same_but_runs_cap]) auto
  moreover have "members_ok (es @ [e]) (enforce_pattern_cap s3)"
    "\<forall>x \<in> set (fe_entries (enforce_pattern_cap s3)). entry_ok (fe_config (enforce_pattern_cap s3)) x"
    using c1 by (simp_all add: core_inv_def members_ok_def s3_def)
  ultimately have "core_inv (es @ [e]) (enforce_pattern_cap s3)"
    using enforce_pattern_cap_runs [OF index3] by (simp add: core_inv_def)
  moreover have "start_entry p e position True s = enforce_pattern_cap s3"
    by (simp add: start_entry_open s3_def s2_def s1_def run_def Let_def)
  ultimately show ?thesis by simp
qed

lemma append_member_alt:
  "append_member i e position s =
    (let entry = fe_entries s ! i;
         grown = entry\<lparr>en_members := en_members entry @ [member_of e position],
           en_last_sample := truncate_chars (ev_text e) (fc_maximum_sample_chars (fe_config s)),
           en_folded := (effective_minimum_run (fe_config s) \<le> length (en_members entry) + 1)\<rparr>
     in s\<lparr>fe_entries := (fe_entries s)[i := grown],
          fe_retained_members := fe_retained_members s + 1\<rparr>)"
  by (simp add: append_member_def Let_def)

lemma touch_runs:
  assumes "map_of (fe_open s) p = Some run"
  shows "fe_open (touch p position s) = AList.update p (run\<lparr>or_last_position := position\<rparr>) (fe_open s)"
    "fe_recency (touch p position s)
      = bt_insert position p (AList.delete (or_last_position run) (fe_recency s))"
  using assms by (simp_all add: touch_def)

lemma length_update_member:
  "k \<in> fst ` set xs \<Longrightarrow> length (AList.update k v xs) = length xs"
  by (induction xs) auto

lemma core_inv_append:
  assumes inv: "core_inv es s" and position: "position = fe_first_position s + length es"
    and run: "map_of (fe_open s) p = Some run" and index: "index_of s (or_serial run) = Some i"
    and room: "length (en_members (fe_entries s ! i)) < fc_maximum_run (fe_config s)"
  shows "core_inv (es @ [e]) (touch p position (append_member i e position s))"
proof -
  define s1 where "s1 = append_member i e position s"
  define s2 where "s2 = touch p position s1"
  define grown where "grown = (fe_entries s ! i)
    \<lparr>en_members := en_members (fe_entries s ! i) @ [member_of e position],
     en_last_sample := truncate_chars (ev_text e) (fc_maximum_sample_chars (fe_config s)),
     en_folded := (effective_minimum_run (fe_config s) \<le> length (en_members (fe_entries s ! i)) + 1)\<rparr>"
  have i: "i < length (fe_entries s)" "i = or_serial run - fe_base_serial s" "fe_base_serial s \<le> or_serial run"
    using index by (auto simp: index_of_def Let_def split: if_splits)
  have fields1: "fe_entries s1 = (fe_entries s)[i := grown]" "fe_open s1 = fe_open s"
    "fe_recency s1 = fe_recency s" "fe_base_serial s1 = fe_base_serial s" "fe_config s1 = fe_config s"
    "fe_first_position s1 = fe_first_position s" "fe_stats s1 = fe_stats s"
    "fe_retained_members s1 = Suc (fe_retained_members s)"
    by (simp_all add: s1_def append_member_alt grown_def Let_def)
  have fields2: "fe_entries s2 = (fe_entries s)[i := grown]" "fe_base_serial s2 = fe_base_serial s"
    "fe_config s2 = fe_config s" "fe_first_position s2 = fe_first_position s"
    "fe_stats s2 = fe_stats s" "fe_retained_members s2 = Suc (fe_retained_members s)"
    "fe_open s2 = AList.update p (run\<lparr>or_last_position := position\<rparr>) (fe_open s)"
    "fe_recency s2 = bt_insert position p (AList.delete (or_last_position run) (fe_recency s))"
    using touch_runs [of s1 p run position] run by (simp_all add: s2_def fields1)
  have old: "or_last_position r < position" if "map_of (fe_open s) q = Some r" for q r
    using core_inv_last_old [OF inv that] position by simp
  have "map_of (fe_recency s) position = None"
    using old inv less_irrefl by (intro index_fresh_position [of "fe_open s"]) (auto simp: core_inv_def dest: old)
  then have index2: "index_ok (fe_open s2) (fe_recency s2)"
    unfolding fields2 using inv run by (intro index_ok_touch) (auto simp: core_inv_def)
  have members2: "members_ok (es @ [e]) s2"
    using inv i(1) by (intro members_ok_add [where s = s])
      (auto simp: fields2 core_inv_def all_members_update grown_def position)
  have "entry_ok (fe_config s) (fe_entries s ! i)" using inv i(1) by (simp add: core_inv_def)
  moreover have "fm_position m < position" if "m \<in> set (en_members (fe_entries s ! i))" for m
  proof -
    have "m \<in> set (all_members (fe_entries s))" using that i(1) by (auto simp: all_members_def)
    then show ?thesis using inv members_old_position position by (auto simp: core_inv_def)
  qed
  ultimately have "entry_ok (fe_config s) grown"
    using room by (auto simp: entry_ok_def grown_def sorted_wrt_append member_of_def)
  then have entries2: "\<forall>x \<in> set (fe_entries s2). entry_ok (fe_config s2) x"
    using inv by (auto simp: fields2 core_inv_def dest: set_update_subset_insert [THEN subsetD])
  have other: "or_serial r \<noteq> or_serial run" if "map_of (fe_open s) q = Some r" "q \<noteq> p" for q r
    using runs_okD(3) [OF _ that(1)] runs_okD(3) [OF _ run] that(2) inv by (auto simp: core_inv_def)
  have "runs_ok s2"
    unfolding runs_ok_def
  proof (intro allI impI)
    fix q r
    assume q: "map_of (fe_open s2) q = Some r"
    have e2: "fe_entries s2 ! (or_serial r - fe_base_serial s2) =
        (if or_serial r - fe_base_serial s = i then grown else fe_entries s ! (or_serial r - fe_base_serial s))"
      using i(1) by (simp add: fields2 nth_list_update)
    show "fe_base_serial s2 \<le> or_serial r \<and> or_serial r < fe_base_serial s2 + length (fe_entries s2)
      \<and> en_pattern (fe_entries s2 ! (or_serial r - fe_base_serial s2)) = q
      \<and> fm_position (last (en_members (fe_entries s2 ! (or_serial r - fe_base_serial s2))))
          = or_last_position r"
    proof (cases "q = p")
      case True
      then have "r = run\<lparr>or_last_position := position\<rparr>" using q by (simp add: fields2 map_of_update)
      then show ?thesis
        using i inv run True unfolding e2
        by (auto simp: fields2 grown_def member_of_def core_inv_def runs_ok_def)
    next
      case False
      then have r: "map_of (fe_open s) q = Some r" using q by (simp add: fields2 map_of_update)
      then have ok: "fe_base_serial s \<le> or_serial r" "or_serial r < fe_base_serial s + length (fe_entries s)"
        "en_pattern (fe_entries s ! (or_serial r - fe_base_serial s)) = q"
        "fm_position (last (en_members (fe_entries s ! (or_serial r - fe_base_serial s)))) = or_last_position r"
        using inv by (auto simp: core_inv_def runs_ok_def)
      have "or_serial r - fe_base_serial s \<noteq> i" using other [OF r False] ok(1) i by linarith
      then show ?thesis using ok unfolding e2 by (simp add: fields2)
    qed
  qed
  moreover have "open_bounded s2"
  proof -
    have "p \<in> fst ` set (fe_open s)" using run by (force dest!: map_of_SomeD)
    then show ?thesis using inv by (simp add: open_bounded_def fields2 length_update_member core_inv_def)
  qed
  ultimately show ?thesis
    using index2 members2 entries2 by (simp add: core_inv_def s2_def s1_def)
qed

section \<open>Retention\<close>

lemma evict_loop_spec:
  assumes "retained = length (all_members es)" "gone + retained \<le> u64_max"
    "evict_loop et mt es evicted retained gone = (evicted', retained', gone')"
  shows "\<exists>k \<le> length es. evicted' = evicted + k \<and> retained' = length (all_members (drop k es))
    \<and> gone' + retained' = gone + retained
    \<and> (k < length es \<longrightarrow> length es - k \<le> et \<and> retained' \<le> mt)"
  using assms
proof (induction et mt es evicted retained gone rule: evict_loop.induct)
  case (2 et mt e es evicted retained gone)
  let ?n = "length (en_members e)"
  show ?case
  proof (cases "length (e # es) > et \<or> retained > mt")
    case False
    then show ?thesis using "2.prems" by (intro exI [of _ 0]) auto
  next
    case True
    have n: "?n \<le> retained" "retained - ?n = length (all_members es)" "gone + ?n \<le> u64_max"
      using "2.prems"(1,2) by simp_all
    then have g: "saturating_add_u64 gone ?n = gone + ?n" by (simp add: saturating_add_u64_exact)
    obtain k where k: "k \<le> length es" "evicted' = evicted + 1 + k"
      "retained' = length (all_members (drop k es))"
      "gone' + retained' = gone + ?n + (retained - ?n)"
      "k < length es \<longrightarrow> length es - k \<le> et \<and> retained' \<le> mt"
      using "2.IH" [OF True n(2)] "2.prems" True n g by auto
    then show ?thesis using n(1) by (intro exI [of _ "Suc k"]) auto
  qed
qed (auto simp: Let_def)

lemma all_members_drop_sub: "set (all_members (drop k es)) \<subseteq> set (all_members es)"
  by (auto simp: all_members_def dest: in_set_dropD)

lemma all_members_drop_distinct:
  "distinct (map f (all_members es)) \<Longrightarrow> distinct (map f (all_members (drop k es)))"
  using all_members_simps(3) [of "take k es" "drop k es"] by (metis append_take_drop_id distinct_append map_append)

text \<open>Eviction drops some number of entries from the front with their members, closes the runs of
  their patterns, and leaves the caps respected.\<close>

lemma enforce_retention_spec:
  assumes inv: "core_inv es s" and bound: "length es \<le> u64_max"
  shows "core_inv es (enforce_retention s) \<and> caps_ok (enforce_retention s)
    \<and> fe_config (enforce_retention s) = fe_config s \<and> fe_key (enforce_retention s) = fe_key s
    \<and> fe_first_position (enforce_retention s) = fe_first_position s
    \<and> fe_next_position (enforce_retention s) = fe_next_position s
    \<and> fs_observed_events (fe_stats (enforce_retention s)) = fs_observed_events (fe_stats s)
    \<and> (\<exists>k. fe_entries (enforce_retention s) = drop k (fe_entries s))"
proof (cases "caps_ok s")
  case True
  then have "enforce_retention s = s" by (simp add: enforce_retention_def caps_ok_def)
  then show ?thesis using inv True by (auto intro: exI [of _ 0])
next
  case False
  define ec where "ec = max (fc_maximum_entries (fe_config s)) 1"
  define mc where "mc = max (fc_maximum_members (fe_config s)) 1"
  obtain ev rt gn where loop: "evict_loop (ec - ec div 4) (mc - mc div 4) (fe_entries s) 0
      (fe_retained_members s) (fs_evicted_members (fe_stats s)) = (ev, rt, gn)"
    by (metis prod_cases3)
  have count: "fe_retained_members s = length (all_members (fe_entries s))"
    "fs_evicted_members (fe_stats s) + fe_retained_members s = length es"
    using inv by (simp_all add: core_inv_def members_ok_def)
  obtain k where k: "k \<le> length (fe_entries s)" "ev = k" "rt = length (all_members (drop k (fe_entries s)))"
    "gn + rt = length es"
    "k < length (fe_entries s) \<longrightarrow> length (fe_entries s) - k \<le> ec - ec div 4 \<and> rt \<le> mc - mc div 4"
    using evict_loop_spec [OF count(1) _ loop] count(2) bound by auto
  define s1 where "s1 = s\<lparr>fe_retained_members := rt,
    fe_stats := (fe_stats s)\<lparr>fs_evicted_members := gn\<rparr>\<rparr>"
  define s2 where "s2 = fold close_pattern (map en_pattern (take k (fe_entries s)))
    (s1\<lparr>fe_entries := drop k (fe_entries s)\<rparr>)"
  define s3 where "s3 = s2\<lparr>fe_base_serial := fe_base_serial s2 + k,
    fe_stats := (fe_stats s2)\<lparr>fs_evicted_entries :=
      saturating_add_u64 (fs_evicted_entries (fe_stats s2)) k\<rparr>\<rparr>"
  have "k \<noteq> 0"
  proof
    assume "k = 0"
    then have "\<not> (k < length (fe_entries s))" using k(3,5) False count
      by (auto simp: caps_ok_def ec_def mc_def)
    then have "fe_entries s = []" using \<open>k = 0\<close> by simp
    then show False using False count by (simp add: caps_ok_def)
  qed
  moreover have over: "(length (fe_entries s) \<le> ec \<and> fe_retained_members s \<le> mc) = False"
    using False by (auto simp: caps_ok_def ec_def mc_def)
  ultimately have result: "enforce_retention s = s3"
    using loop k(2) unfolding enforce_retention_def Let_def ec_def [symmetric] mc_def [symmetric] over
    by (simp add: s3_def s2_def s1_def)
  have index: "index_ok (fe_open (s1\<lparr>fe_entries := drop k (fe_entries s)\<rparr>))
      (fe_recency (s1\<lparr>fe_entries := drop k (fe_entries s)\<rparr>))"
    using inv by (simp add: s1_def core_inv_def)
  note closed = close_patterns_runs [OF index, of "map en_pattern (take k (fe_entries s))", folded s2_def]
  have fields: "fe_entries s3 = drop k (fe_entries s)" "fe_base_serial s3 = fe_base_serial s + k"
    "fe_config s3 = fe_config s" "fe_key s3 = fe_key s" "fe_first_position s3 = fe_first_position s"
    "fe_next_position s3 = fe_next_position s" "fe_retained_members s3 = rt"
    "fs_evicted_members (fe_stats s3) = gn" "fs_observed_events (fe_stats s3) = fs_observed_events (fe_stats s)"
    using same_but_runs_fields [OF conjunct1 [OF closed]] by (simp_all add: s3_def s1_def)
  have open3: "map_of (fe_open s3) = map_of (fe_open s) |` (- en_pattern ` set (take k (fe_entries s)))"
    "length (fe_open s3) \<le> length (fe_open s)" "index_ok (fe_open s3) (fe_recency s3)"
    using closed by (simp_all add: s3_def s1_def)
  have "runs_ok s3"
    unfolding runs_ok_def
  proof (intro allI impI)
    fix p r
    assume "map_of (fe_open s3) p = Some r"
    then have p: "map_of (fe_open s) p = Some r" "p \<notin> en_pattern ` set (take k (fe_entries s))"
      unfolding open3(1) by (auto simp: restrict_map_def split: if_splits)
    have "runs_ok s" using inv by (simp add: core_inv_def)
    note ok = runs_okD [OF this p(1)]
    have "fe_base_serial s + k \<le> or_serial r"
    proof (rule ccontr)
      assume "\<not> fe_base_serial s + k \<le> or_serial r"
      then have "or_serial r - fe_base_serial s < k" using ok(1) by linarith
      then have "fe_entries s ! (or_serial r - fe_base_serial s) \<in> set (take k (fe_entries s))"
        using k(1) by (metis in_set_conv_nth length_take min.absorb2 nth_take)
      then show False using p(2) ok(3) by blast
    qed
    then show "fe_base_serial s3 \<le> or_serial r \<and> or_serial r < fe_base_serial s3 + length (fe_entries s3)
      \<and> en_pattern (fe_entries s3 ! (or_serial r - fe_base_serial s3)) = p
      \<and> fm_position (last (en_members (fe_entries s3 ! (or_serial r - fe_base_serial s3))))
          = or_last_position r"
      using ok k(1) by (simp add: fields)
  qed
  moreover have "members_ok es s3"
    using inv k(3,4) all_members_drop_sub [of k "fe_entries s"]
    by (auto simp: core_inv_def members_ok_def fields intro!: all_members_drop_distinct)
  moreover have "\<forall>e \<in> set (fe_entries s3). entry_ok (fe_config s3) e"
    using inv by (auto simp: core_inv_def fields dest: in_set_dropD)
  moreover have "open_bounded s3"
    using inv open3(2) by (auto simp: core_inv_def open_bounded_def fields)
  ultimately have "core_inv es s3" using open3(3) by (simp add: core_inv_def)
  moreover have "caps_ok s3"
  proof (cases "k < length (fe_entries s)")
    case True
    then have "length (fe_entries s) - k \<le> ec" "rt \<le> mc" using k(5) diff_le_self le_trans by blast+
    then show ?thesis by (simp add: caps_ok_def fields ec_def mc_def)
  qed (use k(1,3) in \<open>simp add: caps_ok_def fields\<close>)
  ultimately show ?thesis unfolding result using fields by auto
qed

section \<open>A stream of events\<close>

lemma core_inv_counts: "core_inv es s \<Longrightarrow> core_inv es (s\<lparr>fe_next_position := n,
    fe_stats := (fe_stats s)\<lparr>fs_observed_events := m\<rparr>\<rparr>)"
  by (simp add: core_inv_def runs_ok_def members_ok_def open_bounded_def)

lemma start_entry_fields:
  "fe_config (start_entry p e n b s) = fe_config s" "fe_key (start_entry p e n b s) = fe_key s"
  "fe_first_position (start_entry p e n b s) = fe_first_position s"
  "fe_next_position (start_entry p e n b s) = fe_next_position s"
  "fe_stats (start_entry p e n b s) = fe_stats s"
  "fe_entries (start_entry p e n b s) = fe_entries s @ [fresh_entry s p e n]"
  by (cases b; simp add: start_entry_open start_entry_closed Let_def)+

lemma append_member_fields:
  "fe_config (append_member i e n s) = fe_config s" "fe_key (append_member i e n s) = fe_key s"
  "fe_first_position (append_member i e n s) = fe_first_position s"
  "fe_next_position (append_member i e n s) = fe_next_position s"
  "fe_stats (append_member i e n s) = fe_stats s"
  by (simp_all add: append_member_alt Let_def)

lemma core_inv_start:
  "core_inv es s \<Longrightarrow> n = fe_first_position s + length es \<Longrightarrow>
    core_inv (es @ [e]) (start_entry p e n b s)"
  by (cases b) (auto intro: core_inv_start_open core_inv_start_closed)

text \<open>What \<open>push\<close> does before retention is enforced, on each of its branches.\<close>

definition place_event :: "char_tables \<Rightarrow> fold_engine \<Rightarrow> fold_event \<Rightarrow> nat \<Rightarrow> fold_engine" where
  "place_event ct s e position =
    (if \<not> fc_enabled (fe_config s) then start_entry [] e position False s
     else case fold_key ct e (fe_key s) (fe_config s) of
       None \<Rightarrow> start_entry [] e position False s
     | Some p \<Rightarrow>
         let s1 = close_stale position s
         in case map_of (fe_open s1) p of
              None \<Rightarrow> start_entry p e position True s1
            | Some run \<Rightarrow>
                (case index_of s1 (or_serial run) of
                   None \<Rightarrow> start_entry p e position True (close_pattern p s1)
                 | Some index \<Rightarrow>
                     if length (en_members (fe_entries s1 ! index)) < fc_maximum_run (fe_config s1)
                     then touch p position (append_member index e position s1)
                     else start_entry p e position True (close_pattern p s1)))"

definition count_event :: "fold_engine \<Rightarrow> fold_engine" where
  "count_event s = s\<lparr>fe_next_position := saturating_add_u64 (fe_next_position s) 1,
     fe_stats := (fe_stats s)\<lparr>fs_observed_events := saturating_add_u64 (fs_observed_events (fe_stats s)) 1\<rparr>\<rparr>"

lemma push_place:
  "push ct s e = enforce_retention (place_event ct (count_event s) e (fe_next_position s))"
  unfolding push_def place_event_def count_event_def Let_def
  by (simp split: option.splits)

lemma place_event_spec:
  assumes inv: "core_inv es s" and n: "n = fe_first_position s + length es"
  shows "core_inv (es @ [e]) (place_event ct s e n)"
    "fe_config (place_event ct s e n) = fe_config s \<and> fe_key (place_event ct s e n) = fe_key s
      \<and> fe_first_position (place_event ct s e n) = fe_first_position s
      \<and> fe_next_position (place_event ct s e n) = fe_next_position s
      \<and> fe_stats (place_event ct s e n) = fe_stats s"
proof -
  have c: "core_inv es (close_stale n s)" "core_inv es (close_pattern p (close_stale n s))" for p
    using inv by (simp_all add: core_inv_stale core_inv_close)
  have "core_inv (es @ [e]) (touch p n (append_member i e n (close_stale n s)))"
    if "map_of (fe_open (close_stale n s)) p = Some run"
      "index_of (close_stale n s) (or_serial run) = Some i"
      "length (en_members (fe_entries (close_stale n s) ! i)) < fc_maximum_run (fe_config (close_stale n s))"
    for p run i
    using core_inv_append [OF c(1) _ that] n by simp
  moreover have "core_inv (es @ [e]) (start_entry p e n b s)"
    "core_inv (es @ [e]) (start_entry p e n b (close_stale n s))"
    "core_inv (es @ [e]) (start_entry p e n b (close_pattern p (close_stale n s)))" for p b
    using inv n c by (auto intro!: core_inv_start)
  ultimately show "core_inv (es @ [e]) (place_event ct s e n)"
    by (simp add: place_event_def Let_def split: option.splits)
  show "fe_config (place_event ct s e n) = fe_config s \<and> fe_key (place_event ct s e n) = fe_key s
      \<and> fe_first_position (place_event ct s e n) = fe_first_position s
      \<and> fe_next_position (place_event ct s e n) = fe_next_position s
      \<and> fe_stats (place_event ct s e n) = fe_stats s"
    by (simp add: place_event_def Let_def start_entry_fields append_member_fields split: option.splits)
qed

lemma push_inv:
  assumes "engine_inv es s" "fe_first_position s + Suc (length es) \<le> u64_max"
  shows "engine_inv (es @ [e]) (push ct s e)
    \<and> fe_config (push ct s e) = fe_config s \<and> fe_key (push ct s e) = fe_key s
    \<and> fe_first_position (push ct s e) = fe_first_position s"
proof -
  define t where "t = place_event ct (count_event s) e (fe_next_position s)"
  have s: "core_inv es s" "fe_next_position s = fe_first_position s + length es"
    "fs_observed_events (fe_stats s) = length es"
    using assms(1) by (simp_all add: engine_inv_def)
  have n: "fe_next_position s = fe_first_position (count_event s) + length es"
    using s(2) by (simp add: count_event_def)
  have "core_inv es (count_event s)" unfolding count_event_def by (rule core_inv_counts [OF s(1)])
  note t = place_event_spec [OF this n, where e = e and ct = ct, folded t_def]
  have "length (es @ [e]) \<le> u64_max" using assms(2) by simp
  note r = enforce_retention_spec [OF t(1) this]
  have "push ct s e = enforce_retention t" by (simp add: push_place t_def)
  then show ?thesis
    using r t(2) s(2,3) assms(2) by (simp add: engine_inv_def count_event_def saturating_add_u64_exact)
qed

lemma starting_at_inv: "engine_inv [] (starting_at c key first)"
  by (simp add: engine_inv_def core_inv_def starting_at_def runs_ok_def members_ok_def caps_ok_def
      open_bounded_def fold_stats_default_def)

lemma extend_inv:
  assumes "first + length es \<le> u64_max"
  shows "engine_inv es (engine_extend ct (starting_at c key first) es)
    \<and> fe_config (engine_extend ct (starting_at c key first) es) = c
    \<and> fe_key (engine_extend ct (starting_at c key first) es) = key
    \<and> fe_first_position (engine_extend ct (starting_at c key first) es) = first"
  using assms
proof (induction es rule: rev_induct)
  case Nil
  show ?case using starting_at_inv by (simp add: engine_extend_def starting_at_def)
next
  case (snoc e es)
  then show ?case
    using push_inv [of es "engine_extend ct (starting_at c key first) es" e ct]
    by (simp add: engine_extend_def)
qed

lemma extend_invD:
  assumes "first + length es \<le> u64_max" "s = engine_extend ct (starting_at c key first) es"
  shows "engine_inv es s" "fe_config s = c" "fe_key s = key" "fe_first_position s = first"
  using extend_inv [OF assms(1), of ct c key] assms(2) by simp_all

text \<open>Every event is in exactly one place: each retained member is the event of its position
  with its own identity, no position occurs twice, and what is not retained has been counted as
  evicted.\<close>

theorem fold_accounts_for_events:
  assumes "first + length es \<le> u64_max" "s = engine_extend ct (starting_at c key first) es"
  shows "(\<forall>e \<in> set (fe_entries s). \<forall>m \<in> set (en_members e). \<exists>k < length es.
            m = \<lparr>fm_id = ev_id (es ! k), fm_position = first + k, fm_timestamp = ev_timestamp (es ! k)\<rparr>)
    \<and> distinct (concat (map (\<lambda>e. map fm_position (en_members e)) (fe_entries s)))
    \<and> sum_list (map entry_count (fe_entries s)) = fe_retained_members s
    \<and> fe_retained_members s + fs_evicted_members (fe_stats s) = length es
    \<and> fs_observed_events (fe_stats s) = length es"
proof -
  note inv = extend_invD [OF assms]
  have "map fm_position (all_members (fe_entries s))
      = concat (map (\<lambda>e. map fm_position (en_members e)) (fe_entries s))"
    by (simp add: all_members_def map_concat comp_def)
  moreover have "length (all_members (fe_entries s)) = sum_list (map entry_count (fe_entries s))"
    by (simp add: all_members_def length_concat comp_def entry_count_def [abs_def])
  ultimately show ?thesis
    using inv(1,4) by (fastforce simp: engine_inv_def core_inv_def members_ok_def member_of_def all_members_def)
qed

text \<open>C25. Expanding all entries gives the identities of the retained events in their original
  order, and gives back the input exactly when nothing was evicted.\<close>

theorem fold_expands_in_order:
  assumes "first + length es \<le> u64_max" "s = engine_extend ct (starting_at c key first) es"
  shows "(\<exists>ks. sorted_wrt (<) ks \<and> set ks \<subseteq> {..<length es} \<and> length ks = fe_retained_members s
      \<and> expand_entries (fe_entries s) = map (\<lambda>k. ev_id (es ! k)) ks)
    \<and> (fs_evicted_members (fe_stats s) = 0 \<longrightarrow> expand_entries (fe_entries s) = map ev_id es)"
proof -
  note inv = extend_invD [OF assms]
  define ms where "ms = all_members (fe_entries s)"
  define ps where "ps = sort_key fst (map (\<lambda>m. (fm_position m, fm_id m)) ms)"
  define ks where "ks = map (\<lambda>p. fst p - first) ps"
  have ms: "distinct (map fm_position ms)" "fe_retained_members s = length ms"
    "fs_evicted_members (fe_stats s) + length ms = length es"
    and at_: "m \<in> set ms \<Longrightarrow> \<exists>k < length es. m = member_of (es ! k) (first + k)" for m
    using inv(1,4) by (auto simp: engine_inv_def core_inv_def members_ok_def ms_def)
  have place: "first \<le> fst p \<and> fst p - first < length es \<and> snd p = ev_id (es ! (fst p - first))"
    if "p \<in> set ps" for p
  proof -
    have "p \<in> (\<lambda>m. (fm_position m, fm_id m)) ` set ms" using that by (simp add: ps_def)
    then obtain m where "m \<in> set ms" "p = (fm_position m, fm_id m)" by blast
    then show ?thesis using at_ [of m] by (auto simp: member_of_def)
  qed
  have "mset (map fst ps) = mset (map fm_position ms)"
    by (simp add: ps_def multiset.map_comp comp_def)
  then have "distinct (map fst ps)" using ms(1) mset_eq_imp_distinct_iff by blast
  moreover have "sorted (map fst ps)" by (simp add: ps_def)
  ultimately have "sorted_wrt (<) (map fst ps)" by (simp add: strict_sorted_iff)
  then have sorted: "sorted_wrt (<) ks"
    unfolding ks_def sorted_wrt_map
    by (rule sorted_wrt_mono_rel [rotated]) (use place in \<open>force\<close>)
  have ids: "expand_entries (fe_entries s) = map (\<lambda>k. ev_id (es ! k)) ks"
  proof -
    have "expand_entries (fe_entries s) = map snd ps"
      by (simp add: expand_entries_def ps_def ms_def all_members_def map_concat comp_def)
    also have "\<dots> = map (\<lambda>k. ev_id (es ! k)) ks" using place by (simp add: ks_def)
    finally show ?thesis .
  qed
  have len: "length ks = length ms" by (simp add: ks_def ps_def)
  have range: "set ks \<subseteq> {..<length es}" using place by (auto simp: ks_def)
  have "expand_entries (fe_entries s) = map ev_id es" if "fs_evicted_members (fe_stats s) = 0"
  proof -
    have "set ks = {..<length es}"
      using range sorted len ms(3) that by (intro card_subset_eq) (auto simp: strict_sorted_iff distinct_card)
    then have k: "ks = [0..<length es]"
      using sorted by (intro strict_sorted_equal) (auto simp: lessThan_atLeast0)
    show ?thesis unfolding ids k by (rule nth_equalityI) simp_all
  qed
  then show ?thesis using sorted range len ids ms(2) by auto
qed

text \<open>Every accumulator is capped, and an entry shows as a fold exactly from the minimum run
  on.\<close>

theorem fold_caps_hold:
  assumes "first + length es \<le> u64_max" "s = engine_extend ct (starting_at c key first) es"
  shows "length (fe_entries s) \<le> max (fc_maximum_entries c) 1
    \<and> fe_retained_members s \<le> max (fc_maximum_members c) 1
    \<and> length (fe_open s) \<le> max (fc_maximum_patterns c) 1
    \<and> (\<forall>e \<in> set (fe_entries s). 0 < entry_count e \<and> entry_count e \<le> max 1 (fc_maximum_run c)
        \<and> en_folded e = (effective_minimum_run c \<le> entry_count e))"
  using extend_invD [OF assms]
  by (auto simp: engine_inv_def core_inv_def caps_ok_def open_bounded_def entry_ok_def entry_count_def)

section \<open>Adjacent folding against its specification\<close>

text \<open>The specification: events in order, each with its key if it has one; a run is a maximal group
  of consecutive events with one key, cut at the maximum run.\<close>

definition add_to_group ::
  "nat \<Rightarrow> (ustr option \<times> fold_event list) list \<Rightarrow> ustr option \<times> fold_event
    \<Rightarrow> (ustr option \<times> fold_event list) list" where
  "add_to_group limit groups = (\<lambda>(k, e).
    (if groups \<noteq> [] \<and> k \<noteq> None \<and> fst (last groups) = k \<and> length (snd (last groups)) < limit
     then butlast groups @ [(k, snd (last groups) @ [e])]
     else groups @ [(k, [e])]))"

definition adjacent_runs ::
  "nat \<Rightarrow> (ustr option \<times> fold_event) list \<Rightarrow> (ustr option \<times> fold_event list) list" where
  "adjacent_runs limit kes = foldl (add_to_group limit) [] kes"

definition entry_view :: "fold_entry \<Rightarrow> ustr \<times> row_id list" where
  "entry_view e = (en_pattern e, map fm_id (en_members e))"

definition group_view :: "ustr option \<times> fold_event list \<Rightarrow> ustr \<times> row_id list" where
  "group_view g = (case fst g of None \<Rightarrow> [] | Some p \<Rightarrow> p, map ev_id (snd g))"

text \<open>The run just started survives the pattern cap: what goes is the least recently extended.\<close>

lemma start_entry_keeps_run:
  assumes inv: "core_inv es s" and n: "n = fe_first_position s + length es"
  shows "map_of (fe_open (start_entry p e n True s)) p
      = Some \<lparr>or_serial = fe_base_serial s + length (fe_entries s), or_last_position = n\<rparr>"
    "\<And>q r. map_of (fe_open (start_entry p e n True s)) q = Some r \<Longrightarrow> q \<noteq> p \<Longrightarrow>
      map_of (fe_open s) q = Some r"
proof -
  define run where "run = \<lparr>or_serial = fe_base_serial s + length (fe_entries s), or_last_position = n\<rparr>"
  define s2 where "s2 = close_pattern p (start_entry p e n False s)"
  define runs where "runs = AList.update p run (fe_open s2)"
  define rec where "rec = bt_insert n p (fe_recency s2)"
  have s1: "index_ok (fe_open (start_entry p e n False s)) (fe_recency (start_entry p e n False s))"
    using inv by (simp add: start_entry_closed core_inv_def)
  have s2: "index_ok (fe_open s2) (fe_recency s2)" "map_of (fe_open s2) = (map_of (fe_open s))(p := None)"
    "length (fe_open s2) \<le> length (fe_open s)"
    using close_pattern_runs [OF s1, of p] by (simp_all add: s2_def start_entry_closed)
  have old: "or_last_position r < n" if "map_of (fe_open s2) q = Some r" for q r
    using core_inv_last_old [OF inv, of q r] that s2(2) n by (simp split: if_splits)
  then have fresh: "map_of (fe_recency s2) n = None"
    using s2(1) by (intro index_fresh_position) (auto dest: old)
  have idx: "index_ok runs rec"
    unfolding runs_def rec_def using s2 fresh by (intro index_ok_add) (auto simp: run_def)
  have len: "length runs \<le> Suc (max (fc_maximum_patterns (fe_config s)) 1)"
  proof -
    have "p \<notin> fst ` set (fe_open s2)" using s2(2) by (auto simp flip: map_of_eq_None_iff)
    then have "length runs = Suc (length (fe_open s2))" by (simp add: runs_def length_update_fresh)
    then show ?thesis using s2(3) inv by (simp add: core_inv_def open_bounded_def)
  qed
  define cap where "cap = max (fc_maximum_patterns (fe_config s)) 1"
  obtain rec' runs' where cl: "cap_loop cap rec runs = (rec', runs')" by (cases "cap_loop cap rec runs")
  have result: "fe_open (start_entry p e n True s) = runs'"
    using cl by (simp add: start_entry_open Let_def enforce_pattern_cap_def s2_def [symmetric]
        run_def [symmetric] runs_def [symmetric] rec_def [symmetric])
       (simp add: s2_def start_entry_closed cap_def)
  note spec = cap_loop_spec [OF idx cl]
  show "map_of (fe_open (start_entry p e n True s)) p = Some run"
  proof (cases "length runs \<le> cap")
    case True
    then show ?thesis using spec result by (simp add: runs_def map_of_update)
  next
    case False
    then have full: "length runs = Suc cap" using len by (simp add: cap_def)
    then obtain l q rest where hd: "rec = (l, q) # rest" using spec by (cases rec) auto
    have "q \<noteq> p"
    proof
      assume "q = p"
      obtain r where "map_of runs p = Some r" "or_last_position r = l"
        using index_ok_recency [OF idx, of l q] hd \<open>q = p\<close> by auto
      then have l: "l = n" by (auto simp: runs_def map_of_update run_def)
      have "fe_open s2 = []"
      proof (rule ccontr)
        assume "fe_open s2 \<noteq> []"
        then obtain q' r' xs where "fe_open s2 = (q', r') # xs" by (cases "fe_open s2") auto
        then have q': "map_of (fe_open s2) q' = Some r'" by simp
        then have "(or_last_position r', q') \<in> set (fe_recency s2)"
          using index_ok_runs [OF s2(1)] map_of_SomeD by metis
        then have "(or_last_position r', q') \<in> set rec"
          using old [OF q'] index_ok_maps [OF s2(1)] by (auto simp: rec_def set_bt_insert)
        then have "l \<le> or_last_position r'"
          using index_ok_maps [OF idx] hd by fastforce
        then show False using old [OF q'] l by simp
      qed
      then have "length runs = 1" by (simp add: runs_def)
      then show False using full by (simp add: cap_def)
    qed
    then show ?thesis using spec full hd result by (auto simp: runs_def map_of_update map_of_delete_upd)
  qed
  show "map_of (fe_open s) q = Some r"
    if "map_of (fe_open (start_entry p e n True s)) q = Some r" "q \<noteq> p" for q r
  proof -
    have "map_of runs q = Some r" using spec that(1) result by simp
    then show ?thesis using that(2) s2(2) by (simp add: runs_def map_of_update)
  qed
qed

text \<open>The engine on a stream it can hold without evicting, against the specification.\<close>

definition adjacent_config :: "fold_config \<Rightarrow> nat \<Rightarrow> bool" where
  "adjacent_config c n \<longleftrightarrow> fc_enabled c \<and> fc_scope c = Adjacent
     \<and> n \<le> fc_maximum_entries c \<and> n \<le> fc_maximum_members c"

definition keyed :: "char_tables \<Rightarrow> fold_config \<Rightarrow> fold_key_column \<Rightarrow> fold_event
    \<Rightarrow> ustr option \<times> fold_event" where
  "keyed ct c key e = (fold_key ct e key c, e)"

text \<open>The run of the last event, if it had a key, is open and is the last entry; any other open
  run is already out of reach.\<close>

definition adjacent_rel :: "(ustr option \<times> fold_event list) list \<Rightarrow> fold_event list \<Rightarrow> fold_engine \<Rightarrow> bool"
where
  "adjacent_rel groups es s \<longleftrightarrow> map entry_view (fe_entries s) = map group_view groups
     \<and> map (\<lambda>e. length (en_members e)) (fe_entries s) = map (\<lambda>g. length (snd g)) groups
     \<and> fe_base_serial s = 0
     \<and> (groups = [] \<longrightarrow> es = [] \<and> fe_open s = [])
     \<and> (\<forall>p r. map_of (fe_open s) p = Some r \<and> Suc (or_last_position r) = fe_first_position s + length es
          \<longrightarrow> fst (last groups) = Some p)
     \<and> (\<forall>p. groups \<noteq> [] \<and> fst (last groups) = Some p \<longrightarrow>
          map_of (fe_open s) p = Some \<lparr>or_serial = length (fe_entries s) - 1,
            or_last_position = fe_first_position s + length es - 1\<rparr>)"

lemma list_update_at_end: "xs \<noteq> [] \<Longrightarrow> i = length xs - 1 \<Longrightarrow> xs[i := y] = butlast xs @ [y]"
  by (cases xs rule: rev_cases) auto

lemma adjacent_relI:
  assumes "map entry_view (fe_entries s) = map group_view groups"
    "map (\<lambda>e. length (en_members e)) (fe_entries s) = map (\<lambda>g. length (snd g)) groups"
    "fe_base_serial s = 0" "groups \<noteq> []"
    "\<And>p r. map_of (fe_open s) p = Some r \<Longrightarrow> Suc (or_last_position r) = fe_first_position s + length es \<Longrightarrow>
      fst (last groups) = Some p"
    "\<And>p. fst (last groups) = Some p \<Longrightarrow>
      map_of (fe_open s) p = Some \<lparr>or_serial = length (fe_entries s) - 1,
        or_last_position = fe_first_position s + length es - 1\<rparr>"
  shows "adjacent_rel groups es s"
  using assms unfolding adjacent_rel_def by blast

lemma adjacent_start:
  assumes inv: "core_inv es s" and n: "n = fe_first_position s + length es"
    and rel: "map entry_view (fe_entries s) = map group_view groups"
      "map (\<lambda>e. length (en_members e)) (fe_entries s) = map (\<lambda>g. length (snd g)) groups"
      "fe_base_serial s = 0"
    and k: "k = (if b then Some p else None)" "p = (case k of None \<Rightarrow> [] | Some q \<Rightarrow> q)"
  shows "adjacent_rel (groups @ [(k, [e])]) (es @ [e]) (start_entry p e n b s)"
proof -
  have base: "fe_base_serial (start_entry p e n b s) = 0"
    using rel(3) by (cases b) (simp_all add: start_entry_open start_entry_closed Let_def)
  have old: "or_last_position r < n" if "map_of (fe_open s) q = Some r" for q r
    using core_inv_last_old [OF inv that] n by simp
  have only: "k = Some q" if "map_of (fe_open (start_entry p e n b s)) q = Some r"
    "Suc (or_last_position r) = Suc n" for q r
  proof (cases b)
    case True
    then show ?thesis using start_entry_keeps_run(2) [OF inv n, of p e q r] that old [of q r] k(1) by force
  next
    case False
    then show ?thesis using that old [of q r] by (simp add: start_entry_closed)
  qed
  have opened: "map_of (fe_open (start_entry p e n b s)) q
      = Some \<lparr>or_serial = length (fe_entries s), or_last_position = n\<rparr>" if "k = Some q" for q
  proof -
    have "b" "q = p" using that k(1) by (auto split: if_splits)
    then show ?thesis using start_entry_keeps_run(1) [OF inv n, of p e] rel(3) by simp
  qed
  have "group_view (k, [e]) = (p, [ev_id e])"
    using k(2) by (cases k) (simp_all add: group_view_def)
  then have views: "map entry_view (fe_entries (start_entry p e n b s)) = map group_view (groups @ [(k, [e])])"
    using rel(1) by (simp add: start_entry_fields fresh_entry_def entry_view_def member_of_def Let_def)
  have lens: "map (\<lambda>e. length (en_members e)) (fe_entries (start_entry p e n b s))
      = map (\<lambda>g. length (snd g)) (groups @ [(k, [e])])"
    using rel(2) by (simp add: start_entry_fields fresh_entry_def Let_def)
  show ?thesis
  proof (rule adjacent_relI [OF views lens base])
    show "fst (last (groups @ [(k, [e])])) = Some q"
      if "map_of (fe_open (start_entry p e n b s)) q = Some r"
        "Suc (or_last_position r) = fe_first_position (start_entry p e n b s) + length (es @ [e])" for q r
    proof -
      have "Suc (or_last_position r) = Suc n" using that(2) n by (simp add: start_entry_fields)
      then show ?thesis using only [OF that(1)] by simp
    qed
    show "map_of (fe_open (start_entry p e n b s)) q =
        Some \<lparr>or_serial = length (fe_entries (start_entry p e n b s)) - 1,
          or_last_position = fe_first_position (start_entry p e n b s) + length (es @ [e]) - 1\<rparr>"
      if "fst (last (groups @ [(k, [e])])) = Some q" for q
    proof -
      have "k = Some q" using that by simp
      from opened [OF this] show ?thesis using n by (simp add: start_entry_fields)
    qed
  qed simp
qed

lemma adjacent_relD:
  assumes "adjacent_rel groups es s"
  shows "map entry_view (fe_entries s) = map group_view groups"
    "map (\<lambda>e. length (en_members e)) (fe_entries s) = map (\<lambda>g. length (snd g)) groups"
    "fe_base_serial s = 0"
    "groups = [] \<Longrightarrow> es = []" "groups = [] \<Longrightarrow> fe_open s = []"
    "map_of (fe_open s) p = Some r \<Longrightarrow> Suc (or_last_position r) = fe_first_position s + length es \<Longrightarrow>
      fst (last groups) = Some p"
    "groups \<noteq> [] \<Longrightarrow> fst (last groups) = Some p \<Longrightarrow>
      map_of (fe_open s) p = Some \<lparr>or_serial = length (fe_entries s) - 1,
        or_last_position = fe_first_position s + length es - 1\<rparr>"
  using assms unfolding adjacent_rel_def by blast+

lemma adjacent_place:
  assumes inv: "core_inv es s" and n: "n = fe_first_position s + length es"
    and conf: "fc_enabled (fe_config s)" "fc_scope (fe_config s) = Adjacent"
    and rel: "adjacent_rel groups es s" and g: "\<forall>g \<in> set groups. snd g \<noteq> []"
  shows "adjacent_rel (add_to_group (fc_maximum_run (fe_config s)) groups
      (keyed ct (fe_config s) (fe_key s) e)) (es @ [e]) (place_event ct s e n)"
proof (cases "fold_key ct e (fe_key s) (fe_config s)")
  case None
  have "adjacent_rel (groups @ [(None, [e])]) (es @ [e]) (start_entry [] e n False s)"
    using adjacent_relD(1-3) [OF rel] by (intro adjacent_start [OF inv n]) simp_all
  then show ?thesis
    using conf None by (simp add: place_event_def add_to_group_def keyed_def)
next
  case (Some p)
  define s1 where "s1 = close_stale n s"
  define limit where "limit = fc_maximum_run (fe_config s)"
  have inv1: "core_inv es s1" and fields1: "fe_entries s1 = fe_entries s" "fe_base_serial s1 = 0"
    "fe_config s1 = fe_config s" "fe_first_position s1 = fe_first_position s"
    using inv rel by (simp_all add: s1_def core_inv_stale adjacent_rel_def)
  have n1: "n = fe_first_position s1 + length es" using n fields1 by simp
  have stale: "map_of (fe_open s1) q = Some r \<longleftrightarrow> map_of (fe_open s) q = Some r \<and> n - 1 \<le> or_last_position r" for q r
    using close_stale_runs [of s n] inv conf(2) by (simp add: s1_def core_inv_def gap_limit_def)
  have start: "adjacent_rel (groups @ [(Some p, [e])]) (es @ [e]) (start_entry p e n True t)"
    if "t = s1 \<or> t = close_pattern p s1" for t
    using that adjacent_relD(1-3) [OF rel] inv1 core_inv_close [OF inv1, of p] n1 fields1
    by (intro adjacent_start) auto
  have added: "add_to_group limit groups (keyed ct (fe_config s) (fe_key s) e) =
      (if groups \<noteq> [] \<and> fst (last groups) = Some p \<and> length (snd (last groups)) < limit
       then butlast groups @ [(Some p, snd (last groups) @ [e])] else groups @ [(Some p, [e])])"
    by (simp add: add_to_group_def keyed_def Some)
  show ?thesis
  proof (cases "map_of (fe_open s1) p")
    case closed: None
    have "\<not> (groups \<noteq> [] \<and> fst (last groups) = Some p)"
    proof
      assume a: "groups \<noteq> [] \<and> fst (last groups) = Some p"
      then have "map_of (fe_open s) p = Some \<lparr>or_serial = length (fe_entries s) - 1,
          or_last_position = fe_first_position s + length es - 1\<rparr>"
        using adjacent_relD(7) [OF rel] by blast
      then have "map_of (fe_open s1) p \<noteq> None" unfolding stale not_None_eq using n by auto
      then show False using closed by simp
    qed
    then have "add_to_group limit groups (keyed ct (fe_config s) (fe_key s) e) = groups @ [(Some p, [e])]"
      using added by (simp only: simp_thms if_False) argo
    moreover have "place_event ct s e n = start_entry p e n True s1"
      using closed conf(1) Some by (simp add: place_event_def s1_def [symmetric] Let_def)
    ultimately show ?thesis using start [of s1] by (simp add: limit_def)
  next
    case (Some run)
    then have run: "map_of (fe_open s) p = Some run" "n - 1 \<le> or_last_position run" using stale by auto
    then have "Suc (or_last_position run) = n" using core_inv_last_old [OF inv run(1)] n by simp
    moreover have ne: "groups \<noteq> []" using adjacent_relD(5) [OF rel] run(1) by auto
    ultimately have last: "fst (last groups) = Some p" using adjacent_relD(6) [OF rel run(1)] n by simp
    then have runv: "run = \<lparr>or_serial = length (fe_entries s) - 1, or_last_position = n - 1\<rparr>"
      using adjacent_relD(7) [OF rel ne last] run(1) n by simp
    have lens: "length (fe_entries s) = length groups"
      using arg_cong [OF adjacent_relD(1) [OF rel], of length] by simp
    define i where "i = length groups - 1"
    have i: "i < length (fe_entries s)" "Suc i = length groups" using ne lens by (auto simp: i_def)
    have index: "index_of s1 (or_serial run) = Some i"
      using i lens by (simp add: index_of_def fields1 runv i_def)
    have li: "length (en_members (fe_entries s ! i)) = length (snd (last groups))"
      "entry_view (fe_entries s ! i) = group_view (last groups)"
    proof -
      have "last groups = groups ! i" using ne i by (simp add: last_conv_nth i_def)
      then show "length (en_members (fe_entries s ! i)) = length (snd (last groups))"
        using arg_cong [OF adjacent_relD(2) [OF rel], of "\<lambda>xs. xs ! i"] i lens by simp
      show "entry_view (fe_entries s ! i) = group_view (last groups)"
        using arg_cong [OF adjacent_relD(1) [OF rel], of "\<lambda>xs. xs ! i"] i lens \<open>last groups = groups ! i\<close>
        by simp
    qed
    show ?thesis
    proof (cases "length (snd (last groups)) < limit")
      case False
      then have "place_event ct s e n = start_entry p e n True (close_pattern p s1)"
        using conf(1) \<open>fold_key ct e (fe_key s) (fe_config s) = Some p\<close> Some index li(1) fields1
        by (simp add: place_event_def s1_def [symmetric] limit_def [symmetric] Let_def)
      then show ?thesis
        using start [of "close_pattern p s1"] added False by (simp add: limit_def)
    next
      case True
      define t where "t = touch p n (append_member i e n s1)"
      have place: "place_event ct s e n = t"
        using True conf \<open>fold_key ct e (fe_key s) (fe_config s) = Some p\<close> Some index li(1) fields1
        by (simp add: place_event_def s1_def [symmetric] limit_def [symmetric] t_def Let_def)
      have app: "fe_open (append_member i e n s1) = fe_open s1" by (simp add: append_member_alt Let_def)
      have t_open: "fe_open t = AList.update p (run\<lparr>or_last_position := n\<rparr>) (fe_open s1)"
        unfolding t_def using touch_runs(1) [of "append_member i e n s1" p run n] Some app by simp
      define grown where "grown = (fe_entries s ! i)
        \<lparr>en_members := en_members (fe_entries s ! i) @ [member_of e n],
         en_last_sample := truncate_chars (ev_text e) (fc_maximum_sample_chars (fe_config s)),
         en_folded := (effective_minimum_run (fe_config s) \<le> length (en_members (fe_entries s ! i)) + 1)\<rparr>"
      have t: "fe_entries t = (fe_entries s)[i := grown]" "fe_base_serial t = 0"
        "fe_first_position t = fe_first_position s"
        by (simp_all add: t_def append_member_alt fields1 grown_def Let_def)
      have upd: "map f ((fe_entries s)[i := grown]) = butlast (map f (fe_entries s)) @ [f grown]" for f :: "fold_entry \<Rightarrow> 'x"
        using i lens by (subst list_update_at_end) (auto simp: map_butlast i_def)
      have views: "map entry_view (fe_entries t) = map group_view (butlast groups @ [(Some p, snd (last groups) @ [e])])"
      proof -
        have "entry_view grown = group_view (Some p, snd (last groups) @ [e])"
          using li(2) last by (simp add: grown_def entry_view_def group_view_def member_of_def)
        then show ?thesis unfolding t upd adjacent_relD(1) [OF rel] by (simp add: map_butlast)
      qed
      have lens2: "map (\<lambda>e. length (en_members e)) (fe_entries t)
          = map (\<lambda>g. length (snd g)) (butlast groups @ [(Some p, snd (last groups) @ [e])])"
      proof -
        have "length (en_members grown) = length (snd (Some p, snd (last groups) @ [e]))"
          using li(1) by (simp add: grown_def)
        then show ?thesis unfolding t upd adjacent_relD(2) [OF rel] by (simp add: map_butlast)
      qed
      have only: "q = p" if "map_of (fe_open t) q = Some r" "Suc (or_last_position r) = Suc n" for q r
        using that core_inv_last_old [OF inv1, of q r] n1
        by (auto simp: t_open map_of_update split: if_splits)
      have "adjacent_rel (butlast groups @ [(Some p, snd (last groups) @ [e])]) (es @ [e]) t"
      proof (rule adjacent_relI [OF views lens2 t(2)])
        show "fst (last (butlast groups @ [(Some p, snd (last groups) @ [e])])) = Some q"
          if "map_of (fe_open t) q = Some r"
            "Suc (or_last_position r) = fe_first_position t + length (es @ [e])" for q r
        proof -
          have "Suc (or_last_position r) = Suc n" using that(2) n by (simp add: t)
          from only [OF that(1) this] show ?thesis by simp
        qed
        show "map_of (fe_open t) q = Some \<lparr>or_serial = length (fe_entries t) - 1,
            or_last_position = fe_first_position t + length (es @ [e]) - 1\<rparr>"
          if "fst (last (butlast groups @ [(Some p, snd (last groups) @ [e])])) = Some q" for q
        proof -
          have "q = p" using that by simp
          then show ?thesis using n by (simp add: t t_open map_of_update runv)
        qed
      qed simp
      then show ?thesis using added True last ne place by (simp add: limit_def)
    qed
  qed
qed

lemma add_to_group_shape:
  "g \<in> set (add_to_group limit groups ke) \<Longrightarrow> (\<forall>g \<in> set groups. snd g \<noteq> []) \<Longrightarrow> snd g \<noteq> []"
  "length (add_to_group limit groups ke) \<le> Suc (length groups)"
  by (auto simp: add_to_group_def split: if_splits prod.splits dest: in_set_butlastD)

lemma adjacent_runs_snoc:
  "adjacent_runs limit (kes @ [ke]) = add_to_group limit (adjacent_runs limit kes) ke"
  by (simp add: adjacent_runs_def)

lemma adjacent_runs_shape:
  "(\<forall>g \<in> set (adjacent_runs limit kes). snd g \<noteq> []) \<and> length (adjacent_runs limit kes) \<le> length kes"
proof (induction kes rule: rev_induct)
  case (snoc ke kes)
  then show ?case
    using add_to_group_shape(1) [of _ limit "adjacent_runs limit kes" ke]
      add_to_group_shape(2) [of limit "adjacent_runs limit kes" ke]
    by (fastforce simp: adjacent_runs_snoc)
qed (simp add: adjacent_runs_def)

lemma adjacent_extend:
  assumes "first + length es \<le> u64_max" "adjacent_config c (length es)"
  shows "adjacent_rel (adjacent_runs (fc_maximum_run c) (map (keyed ct c key) es)) es
      (engine_extend ct (starting_at c key first) es)
    \<and> fs_evicted_members (fe_stats (engine_extend ct (starting_at c key first) es)) = 0"
  using assms
proof (induction es rule: rev_induct)
  case Nil
  show ?case
    by (simp add: engine_extend_def starting_at_def adjacent_rel_def adjacent_runs_def fold_stats_default_def)
next
  case (snoc e es)
  define s where "s = engine_extend ct (starting_at c key first) es"
  define t where "t = place_event ct (count_event s) e (fe_next_position s)"
  define groups where "groups = adjacent_runs (fc_maximum_run c) (map (keyed ct c key) es)"
  have bound: "first + length es \<le> u64_max" "adjacent_config c (length es)"
    using snoc.prems by (simp_all add: adjacent_config_def)
  have rel: "adjacent_rel groups es s" and none: "fs_evicted_members (fe_stats s) = 0"
    using snoc.IH [OF bound] by (simp_all add: s_def groups_def)
  note inv = extend_invD [OF bound(1) s_def]
  have core: "core_inv es (count_event s)"
    using inv(1) core_inv_counts unfolding count_event_def by (auto simp: engine_inv_def)
  have n: "fe_next_position s = fe_first_position (count_event s) + length es"
    using inv(1) by (simp add: engine_inv_def count_event_def)
  have conf: "fe_config (count_event s) = c" "fe_key (count_event s) = key"
    using inv(2,3) by (simp_all add: count_event_def)
  have "adjacent_rel groups es (count_event s) = adjacent_rel groups es s"
    unfolding adjacent_rel_def count_event_def by simp
  then have "adjacent_rel groups es (count_event s)" using rel by blast
  then have rel': "adjacent_rel (adjacent_runs (fc_maximum_run c) (map (keyed ct c key) (es @ [e])))
      (es @ [e]) t"
    using adjacent_place [OF core n, of groups ct e] bound(2) conf adjacent_runs_shape
    by (simp add: adjacent_config_def adjacent_runs_snoc groups_def t_def)
  note placed = place_event_spec [OF core n, where e = e and ct = ct, folded t_def]
  have members: "fe_retained_members t \<le> length (es @ [e])"
    using placed(1) by (simp add: core_inv_def members_ok_def)
  have "length (fe_entries t) = length (adjacent_runs (fc_maximum_run c) (map (keyed ct c key) (es @ [e])))"
    using arg_cong [OF adjacent_relD(1) [OF rel'], of length] by simp
  then have "length (fe_entries t) \<le> length (es @ [e])"
    using adjacent_runs_shape [of "fc_maximum_run c" "map (keyed ct c key) (es @ [e])"] by simp
  moreover have "fe_config t = c"
    using placed(2) conf by simp
  ultimately have "enforce_retention t = t"
    using snoc.prems(2) members unfolding enforce_retention_def by (simp add: adjacent_config_def)
  then have "engine_extend ct (starting_at c key first) (es @ [e]) = t"
    by (simp add: engine_extend_def s_def [unfolded engine_extend_def, symmetric] push_place t_def)
  moreover have "fs_evicted_members (fe_stats t) = 0"
    using placed(2) none by (simp add: count_event_def)
  ultimately show ?case using rel' by simp
qed

text \<open>C26. With adjacent scope and a stream within the retention caps the entries are the maximal
  groups of consecutive events with one key, cut at the maximum run, with the identities of their
  events; an event without the key column is a group of its own.\<close>

theorem adjacent_folding_refines_runs:
  assumes "first + length es \<le> u64_max" "adjacent_config c (length es)"
    "s = engine_extend ct (starting_at c key first) es"
  shows "map entry_view (fe_entries s)
      = map group_view (adjacent_runs (fc_maximum_run c) (map (keyed ct c key) es))
    \<and> fs_evicted_members (fe_stats s) = 0"
  using adjacent_extend [OF assms(1,2), of ct key] assms(3) adjacent_relD(1) by blast

section \<open>Witnesses\<close>

definition sample_event :: "nat \<Rightarrow> ustr \<Rightarrow> fold_event" where
  "sample_event n v = \<lparr>ev_id = \<lparr>ri_source = [], ri_sequence = n\<rparr>, ev_text = [], ev_level = [],
     ev_timestamp = None, ev_columns = [([107], v)]\<rparr>"

definition sample_stream :: "fold_event list" where
  "sample_stream = [sample_event 0 [97], sample_event 1 [97], sample_event 2 [98]]"

definition sample_engine :: fold_engine where
  "sample_engine = engine_extend ascii_tables (starting_at fold_config_enabled (Column [107]) 5) sample_stream"

lemma fold_accounts_for_events_witness:
  "distinct (concat (map (\<lambda>e. map fm_position (en_members e)) (fe_entries sample_engine)))
    \<and> sum_list (map entry_count (fe_entries sample_engine)) = fe_retained_members sample_engine
    \<and> fe_retained_members sample_engine + fs_evicted_members (fe_stats sample_engine) = length sample_stream
    \<and> fs_observed_events (fe_stats sample_engine) = length sample_stream"
  using fold_accounts_for_events [OF _ sample_engine_def] by (simp add: sample_stream_def u64_max_def)

lemma fold_expands_in_order_witness:
  "\<exists>ks. sorted_wrt (<) ks \<and> set ks \<subseteq> {..<length sample_stream}
      \<and> length ks = fe_retained_members sample_engine
      \<and> expand_entries (fe_entries sample_engine) = map (\<lambda>k. ev_id (sample_stream ! k)) ks"
proof -
  have "length sample_stream < u64_max" "5 + length sample_stream < u64_max"
    by (simp_all add: sample_stream_def u64_max_def)
  then show ?thesis using fold_expands_in_order [OF _ sample_engine_def] by auto
qed

lemma fold_caps_hold_witness:
  "length (fe_entries sample_engine) \<le> max (fc_maximum_entries fold_config_enabled) 1
    \<and> fe_retained_members sample_engine \<le> max (fc_maximum_members fold_config_enabled) 1
    \<and> length (fe_open sample_engine) \<le> max (fc_maximum_patterns fold_config_enabled) 1"
  using fold_caps_hold [OF _ sample_engine_def] by (simp add: sample_stream_def u64_max_def)

lemma adjacent_folding_refines_runs_witness:
  "map entry_view (fe_entries sample_engine) = map group_view (adjacent_runs
      (fc_maximum_run fold_config_enabled)
      (map (keyed ascii_tables fold_config_enabled (Column [107])) sample_stream))
    \<and> fs_evicted_members (fe_stats sample_engine) = 0"
  by (rule adjacent_folding_refines_runs [OF _ _ sample_engine_def])
     (simp_all add: sample_stream_def u64_max_def adjacent_config_def fold_config_enabled_def
        fold_config_default_def)

section \<open>A run closed by the eviction of an older entry\<close>

definition tight_config :: fold_config where
  "tight_config = fold_config_enabled\<lparr>fc_maximum_run := 2, fc_maximum_entries := 1\<rparr>"

text \<open>Evicting an entry closes the open run of its pattern even when that run is a newer entry:
  the third of three events with one key is retained in an entry of one member where runs may have
  two, yet no run is open, and a fourth event starts another entry instead of joining it.\<close>

theorem eviction_closes_newer_run:
  "map entry_count (fe_entries (engine_extend ct (starting_at tight_config (Column [107]) 0)
      [sample_event 0 [97], sample_event 1 [97], sample_event 2 [97]])) = [1]
    \<and> fe_open (engine_extend ct (starting_at tight_config (Column [107]) 0)
      [sample_event 0 [97], sample_event 1 [97], sample_event 2 [97]]) = []
    \<and> map entry_view (fe_entries (engine_extend ct (starting_at tight_config (Column [107]) 0)
      [sample_event 0 [97], sample_event 1 [97], sample_event 2 [97], sample_event 3 [97]]))
      = [([97], [ev_id (sample_event 3 [97])])]"
  by (simp add: engine_extend_def push_def starting_at_def tight_config_def fold_config_enabled_def
      fold_config_default_def fold_key_def event_column_def sample_event_def truncate_chars_def
      is_combining_def close_stale_def gap_limit_def saturating_add_u64_def u64_max_def
      start_entry_def close_pattern_def enforce_pattern_cap_def enforce_retention_def
      append_member_def touch_def index_of_def member_of_def entry_view_def entry_count_def
      effective_minimum_run_def fold_stats_default_def Let_def)

end
