(* ===== verification/Shared_Control.thy ===== *)
theory Shared_Control
  imports Prelude
begin

text \<open>
  The control channel of the shared worker: the bounded JSON-lines framing of
  \<open>lvu-shared/src/frame.rs\<close> and the viewer lifetime policy of \<open>lvu-shared/src/lifetime.rs\<close>.

  Parsing and printing JSON is \<open>serde_json\<close>, a parameter of the framing.  Instants and durations
  are nanoseconds, and a set of process ids is a finite set.
\<close>

section \<open>Control frames\<close>

definition max_control_message_bytes :: nat where
  "max_control_message_bytes = 262144"

datatype frame_error = TooLarge nat | Overflow | Malformed string

definition encode_frame :: "('j \<Rightarrow> string + byte list) \<Rightarrow> 'j \<Rightarrow> frame_error + byte list" where
  "encode_frame to_vec v =
    (case to_vec v of
       Inl e \<Rightarrow> Inl (Malformed e)
     | Inr bytes \<Rightarrow>
         let line = bytes @ [LF]
         in if length line > max_control_message_bytes then Inl (TooLarge (length line)) else Inr line)"

definition decode_frame :: "(byte list \<Rightarrow> string + 'j) \<Rightarrow> byte list \<Rightarrow> frame_error + 'j" where
  "decode_frame from_slice line =
    (if length line + 1 > max_control_message_bytes then Inl (TooLarge (length line + 1))
     else case from_slice line of Inl e \<Rightarrow> Inl (Malformed e) | Inr v \<Rightarrow> Inr v)"

text \<open>The loop that splits complete lines out of the caller's slice.\<close>

function frame_lines ::
  "(byte list \<Rightarrow> string + 'j) \<Rightarrow> byte list \<Rightarrow> 'j list \<Rightarrow> frame_error + ('j list \<times> byte list)" where
  "frame_lines from_slice rest values =
    (case find_byte LF rest of
       None \<Rightarrow> Inr (values, rest)
     | Some position \<Rightarrow>
         (case decode_frame from_slice (take position rest) of
            Inl e \<Rightarrow> Inl e
          | Inr v \<Rightarrow> frame_lines from_slice (drop (position + 1) rest) (values @ [v])))"
  by pat_completeness auto
termination
  by (relation "measure (\<lambda>(from_slice, rest, values). length rest)") (auto simp: find_byte_Some)

declare frame_lines.simps [simp del]

text \<open>\<open>push_bytes\<close>: the result and the bytes the decoder holds afterwards.\<close>

definition push_rest ::
  "(byte list \<Rightarrow> string + 'j) \<Rightarrow> byte list \<Rightarrow> 'j list \<Rightarrow> (frame_error + 'j list) \<times> byte list" where
  "push_rest from_slice rest values =
    (case frame_lines from_slice rest values of
       Inl e \<Rightarrow> (Inl e, [])
     | Inr (values', tail) \<Rightarrow>
         if tail \<noteq> [] \<and> length tail \<ge> max_control_message_bytes then (Inl Overflow, [])
         else (Inr values', tail))"

definition push_bytes ::
  "(byte list \<Rightarrow> string + 'j) \<Rightarrow> byte list \<Rightarrow> byte list \<Rightarrow> (frame_error + 'j list) \<times> byte list" where
  "push_bytes from_slice buffered bytes =
    (if buffered \<noteq> [] then
       case find_byte LF bytes of
         Some position \<Rightarrow>
           let wire = length buffered + position + 1
           in if wire > max_control_message_bytes then (Inl (TooLarge wire), buffered)
              else
                let line = buffered @ take (position + 1) bytes
                in (case decode_frame from_slice (take (length line - 1) line) of
                      Inl e \<Rightarrow> (Inl e, [])
                    | Inr v \<Rightarrow> push_rest from_slice (drop (position + 1) bytes) [v])
       | None \<Rightarrow>
           if length buffered + length bytes \<ge> max_control_message_bytes then (Inl Overflow, buffered)
           else (Inr [], buffered @ bytes)
     else push_rest from_slice bytes [])"

text \<open>A connection: reads until the first violation, at which the caller drops it.\<close>

fun feed_frames ::
  "(byte list \<Rightarrow> string + 'j) \<Rightarrow> byte list \<Rightarrow> byte list list \<Rightarrow> frame_error + ('j list \<times> byte list)"
where
  "feed_frames from_slice buffered [] = Inr ([], buffered)"
| "feed_frames from_slice buffered (c # cs) =
    (case push_bytes from_slice buffered c of
       (Inl e, _) \<Rightarrow> Inl e
     | (Inr vs, buffered') \<Rightarrow>
         (case feed_frames from_slice buffered' cs of
            Inl e \<Rightarrow> Inl e
          | Inr (ws, final) \<Rightarrow> Inr (vs @ ws, final)))"

section \<open>Framing a byte at a time\<close>

text \<open>The reference: a line is what precedes a line feed, and holds fewer bytes than the cap.\<close>

fun line_bytes ::
  "(byte list \<Rightarrow> string + 'j) \<Rightarrow> byte list \<Rightarrow> byte list \<Rightarrow> ('j list \<times> byte list) option" where
  "line_bytes from_slice line [] = Some ([], line)"
| "line_bytes from_slice line (b # bs) =
    (if b = LF then
       (case from_slice line of
          Inl _ \<Rightarrow> None
        | Inr v \<Rightarrow> map_option (\<lambda>(vs, rest). (v # vs, rest)) (line_bytes from_slice [] bs))
     else if length line + 1 < max_control_message_bytes
     then line_bytes from_slice (line @ [b]) bs
     else None)"

definition frames_of :: "frame_error + ('j list \<times> byte list) \<Rightarrow> ('j list \<times> byte list) option" where
  "frames_of r = (case r of Inl _ \<Rightarrow> None | Inr x \<Rightarrow> Some x)"

lemma line_bytes_append:
  "line_bytes p line (xs @ ys) =
    (case line_bytes p line xs of None \<Rightarrow> None
     | Some (vs, line') \<Rightarrow> map_option (\<lambda>(ws, rest). (vs @ ws, rest)) (line_bytes p line' ys))"
proof (induction p line xs rule: line_bytes.induct)
  case (1 p line)
  then show ?case by (cases "line_bytes p line ys") auto
next
  case (2 p line b bs)
  show ?case
  proof (cases "b = LF")
    case True
    then show ?thesis
      using "2.IH"(1)
      by (auto simp: option.map_comp comp_def case_prod_unfold split: sum.splits option.splits prod.splits)
  next
    case False
    then show ?thesis using "2.IH"(2) by (auto split: option.splits)
  qed
qed

lemma line_bytes_plain:
  "LF \<notin> set xs \<Longrightarrow> length line < max_control_message_bytes \<Longrightarrow>
    line_bytes p line xs =
      (if length line + length xs < max_control_message_bytes then Some ([], line @ xs) else None)"
  by (induction xs arbitrary: line) auto

lemma line_bytes_line:
  assumes "LF \<notin> set xs" "length line < max_control_message_bytes"
  shows "line_bytes p line (xs @ LF # ys) =
    (if length line + length xs < max_control_message_bytes then
       (case p (line @ xs) of Inl _ \<Rightarrow> None
        | Inr v \<Rightarrow> map_option (\<lambda>(vs, rest). (v # vs, rest)) (line_bytes p [] ys))
     else None)"
  using assms by (cases "line_bytes p [] ys") (auto simp: line_bytes_append line_bytes_plain split: sum.splits)

lemma find_LF_split:
  "find_byte LF xs = Some i \<Longrightarrow> xs = take i xs @ LF # drop (i + 1) xs \<and> LF \<notin> set (take i xs) \<and> i < length xs"
  using find_byte_Some [of LF xs i] id_take_nth_drop [of i xs] by auto

lemma max_control_pos [simp]: "0 < max_control_message_bytes"
  by (simp add: max_control_message_bytes_def)

lemma frame_lines_reference:
  "(case frame_lines p rest vs of
      Inl _ \<Rightarrow> None
    | Inr (ws, tail) \<Rightarrow> if length tail < max_control_message_bytes then Some (ws, tail) else None)
   = map_option (\<lambda>(ws, tail). (vs @ ws, tail)) (line_bytes p [] rest)"
proof (induction p rest vs rule: frame_lines.induct)
  case (1 p rest vs)
  show ?case
  proof (cases "find_byte LF rest")
    case None
    then have "LF \<notin> set rest" by (simp add: find_byte_None)
    then show ?thesis
      using None by (simp add: frame_lines.simps [of p rest] line_bytes_plain)
  next
    case (Some i)
    note split = find_LF_split [OF Some]
    have lb: "line_bytes p [] rest =
      (if i < max_control_message_bytes then
         (case p (take i rest) of Inl _ \<Rightarrow> None
          | Inr v \<Rightarrow> map_option (\<lambda>(vs, rest). (v # vs, rest)) (line_bytes p [] (drop (i + 1) rest)))
       else None)"
      using line_bytes_line [of "take i rest" "[]" p "drop (i + 1) rest"] split by simp
    show ?thesis
    proof (cases "i < max_control_message_bytes \<and> (\<exists>v. p (take i rest) = Inr v)")
      case True
      then obtain v where v: "p (take i rest) = Inr v" by blast
      then have "decode_frame p (take i rest) = Inr v" using True split by (simp add: decode_frame_def)
      then show ?thesis
        using 1 [OF Some] Some v True by (simp add: frame_lines.simps [of p rest] lb option.map_comp comp_def case_prod_unfold)
    next
      case False
      then have "\<exists>e. decode_frame p (take i rest) = Inl e"
        using split by (cases "p (take i rest)") (auto simp: decode_frame_def)
      moreover have "line_bytes p [] rest = None" using False lb by (auto split: sum.splits)
      ultimately show ?thesis using Some by (auto simp: frame_lines.simps [of p rest])
    qed
  qed
qed

text \<open>What the decoder holds between reads: a partial line that can still complete.\<close>

definition partial_line :: "byte list \<Rightarrow> bool" where
  "partial_line b \<longleftrightarrow> LF \<notin> set b \<and> length b < max_control_message_bytes"

definition accepted_push :: "(frame_error + 'j list) \<times> byte list \<Rightarrow> ('j list \<times> byte list) option" where
  "accepted_push r = (case fst r of Inl _ \<Rightarrow> None | Inr vs \<Rightarrow> Some (vs, snd r))"

lemma push_rest_reference:
  "accepted_push (push_rest p rest vs) = map_option (\<lambda>(ws, tail). (vs @ ws, tail)) (line_bytes p [] rest)"
  using frame_lines_reference [of p rest vs]
  by (cases "frame_lines p rest vs")
     (auto simp: push_rest_def accepted_push_def split: if_splits)

lemma push_bytes_reference:
  assumes "partial_line b"
  shows "accepted_push (push_bytes p b bytes) = line_bytes p b bytes"
proof (cases "b = []")
  case True
  then show ?thesis using push_rest_reference [of p bytes "[]"] by (simp add: push_bytes_def option.map_ident case_prod_unfold)
next
  case False
  show ?thesis
  proof (cases "find_byte LF bytes")
    case None
    then have "LF \<notin> set bytes" by (simp add: find_byte_None)
    then show ?thesis
      using None False assms by (auto simp: push_bytes_def accepted_push_def line_bytes_plain partial_line_def)
  next
    case (Some i)
    note split = find_LF_split [OF Some]
    have lb: "line_bytes p b bytes =
      (if length b + i < max_control_message_bytes then
         (case p (b @ take i bytes) of Inl _ \<Rightarrow> None
          | Inr v \<Rightarrow> map_option (\<lambda>(vs, rest). (v # vs, rest)) (line_bytes p [] (drop (i + 1) bytes)))
       else None)"
      using line_bytes_line [of "take i bytes" b p "drop (i + 1) bytes"] split assms
      by (simp add: partial_line_def)
    have line: "take (length (b @ take (i + 1) bytes) - 1) (b @ take (i + 1) bytes) = b @ take i bytes"
    proof -
      have "take (i + 1) bytes = take i bytes @ [LF]"
        using Some take_Suc_conv_app_nth [of i bytes] by (simp add: find_byte_Some)
      then show ?thesis using split by (simp add: min_def)
    qed
    have push: "push_bytes p b bytes =
      (if length b + i + 1 > max_control_message_bytes then (Inl (TooLarge (length b + i + 1)), b)
       else case decode_frame p (b @ take i bytes) of
          Inl e \<Rightarrow> (Inl e, [])
        | Inr v \<Rightarrow> push_rest p (drop (i + 1) bytes) [v])"
      unfolding push_bytes_def Let_def using False Some by (simp only: option.case if_True not_False_eq_True line)
    have rest: "accepted_push (push_rest p (drop (i + 1) bytes) [v]) =
        map_option (\<lambda>(ws, tail). (v # ws, tail)) (line_bytes p [] (drop (i + 1) bytes))" for v
      using push_rest_reference [of p "drop (i + 1) bytes" "[v]"] by simp
    consider "length b + i + 1 > max_control_message_bytes"
      | e where "length b + i + 1 \<le> max_control_message_bytes" "p (b @ take i bytes) = Inl e"
      | v where "length b + i + 1 \<le> max_control_message_bytes" "p (b @ take i bytes) = Inr v"
      by (cases "p (b @ take i bytes)"; cases "length b + i + 1 > max_control_message_bytes") auto
    then show ?thesis
    proof cases
      case 3
      then have "decode_frame p (b @ take i bytes) = Inr v" using split by (simp add: decode_frame_def)
      then show ?thesis using 3 rest [of v] by (simp add: push lb)
    qed (use split in \<open>simp_all add: push lb accepted_push_def decode_frame_def\<close>)
  qed
qed

lemma line_bytes_partial:
  "line_bytes p line xs = Some (vs, tail) \<Longrightarrow> partial_line line \<Longrightarrow> partial_line tail"
  by (induction p line xs arbitrary: vs rule: line_bytes.induct)
     (auto simp: partial_line_def split: if_splits sum.splits)

lemma feed_frames_reference:
  "partial_line b \<Longrightarrow> frames_of (feed_frames p b chunks) = line_bytes p b (concat chunks)"
proof (induction chunks arbitrary: b)
  case (Cons c cs)
  have push: "accepted_push (push_bytes p b c) = line_bytes p b c"
    by (rule push_bytes_reference [OF Cons.prems])
  show ?case
  proof (cases "line_bytes p b c")
    case None
    then show ?thesis
      using push by (auto simp: accepted_push_def frames_of_def line_bytes_append split: sum.splits prod.splits)
  next
    case (Some r)
    obtain vs tail where r: "r = (vs, tail)" by (cases r)
    have "partial_line tail" using Some r Cons.prems line_bytes_partial by metis
    from Cons.IH [OF this] have "line_bytes p tail (concat cs) = frames_of (feed_frames p tail cs)"
      by simp
    moreover have "push_bytes p b c = (Inr vs, tail)"
      using push Some r by (cases "push_bytes p b c") (auto simp: accepted_push_def split: sum.splits)
    ultimately show ?thesis
      using Some r by (auto simp: frames_of_def line_bytes_append split: sum.splits)
  qed
qed (simp add: frames_of_def)

text \<open>How a control stream was cut into reads changes neither the messages, nor the partial
  line the decoder holds, nor whether the connection is refused: it agrees with framing the stream
  a byte at a time.\<close>

theorem control_frames_read_split:
  "frames_of (feed_frames from_slice [] chunks) = line_bytes from_slice [] (concat chunks)"
  by (rule feed_frames_reference) (simp add: partial_line_def)

text \<open>What the code relies on of \<open>serde_json\<close> for every value: compact output holds no raw line feed,
  since control characters are escaped.  Reading back is not assumed: \<open>from_slice\<close> refuses, for
  instance, what is nested deeper than its recursion limit.  \<open>reread\<close> is what the reader makes of the
  encoding of a value.\<close>

definition json_ok :: "('j \<Rightarrow> string + byte list) \<Rightarrow> bool" where
  "json_ok to_vec \<longleftrightarrow> (\<forall>v bytes. to_vec v = Inr bytes \<longrightarrow> LF \<notin> set bytes)"

definition reread :: "('j \<Rightarrow> string + byte list) \<Rightarrow> (byte list \<Rightarrow> string + 'j) \<Rightarrow> 'j \<Rightarrow> 'j option" where
  "reread to_vec from_slice v =
    (case to_vec v of
       Inl _ \<Rightarrow> None
     | Inr bytes \<Rightarrow> (case from_slice bytes of Inl _ \<Rightarrow> None | Inr w \<Rightarrow> Some w))"

lemma encode_frame_Inr:
  "encode_frame to_vec v = Inr line \<Longrightarrow>
    \<exists>bytes. to_vec v = Inr bytes \<and> line = bytes @ [LF] \<and> length bytes < max_control_message_bytes"
  by (auto simp: encode_frame_def Let_def split: sum.splits if_splits)

lemma line_bytes_encoded:
  assumes "json_ok to_vec" "list_all2 (\<lambda>v line. encode_frame to_vec v = Inr line) vs lines"
  shows "line_bytes from_slice [] (concat lines)
    = map_option (\<lambda>ws. (ws, [])) (those (map (reread to_vec from_slice) vs))"
  using assms(2)
proof (induction rule: list_all2_induct)
  case (Cons v vs line lines)
  obtain bytes where b: "to_vec v = Inr bytes" "line = bytes @ [LF]" "length bytes < max_control_message_bytes"
    using encode_frame_Inr [OF Cons.hyps(1)] by blast
  then have "LF \<notin> set bytes" using assms(1) by (auto simp: json_ok_def)
  then show ?case
    using Cons.IH b line_bytes_line [of bytes "[]" from_slice "concat lines"]
    by (auto simp: reread_def option.map_comp comp_def split: sum.split)
qed simp

lemma those_Some: "list_all (\<lambda>x. f x = Some x) xs \<Longrightarrow> those (map f xs) = Some xs"
  by (induction xs) auto

text \<open>C28. Messages that the encoder accepts reach the decoder one by one, in order, however the stream
  was cut into reads: it yields exactly what the reader makes of each message, keeps nothing behind,
  and refuses the connection when the reader cannot parse one of them (nested too deeply, say).  So
  when the reader reads each of these messages back, they come back unchanged.  Of \<open>serde_json\<close> only the
  absence of line feeds in its output is assumed (\<open>json_ok\<close>).\<close>

theorem control_messages_roundtrip:
  assumes "json_ok to_vec"
    and "list_all2 (\<lambda>v line. encode_frame to_vec v = Inr line) messages lines"
    and "concat chunks = concat lines"
  shows "frames_of (feed_frames from_slice [] chunks)
      = map_option (\<lambda>vs. (vs, [])) (those (map (reread to_vec from_slice) messages))
    \<and> (list_all (\<lambda>m. reread to_vec from_slice m = Some m) messages
        \<longrightarrow> feed_frames from_slice [] chunks = Inr (messages, []))"
proof -
  have whole: "frames_of (feed_frames from_slice [] chunks)
      = map_option (\<lambda>vs. (vs, [])) (those (map (reread to_vec from_slice) messages))"
    using line_bytes_encoded [OF assms(1,2)] feed_frames_reference [of "[]" from_slice chunks] assms(3)
    by (simp add: partial_line_def)
  have "feed_frames from_slice [] chunks = Inr (messages, [])"
    if "list_all (\<lambda>m. reread to_vec from_slice m = Some m) messages"
    using whole those_Some [OF that] by (simp add: frames_of_def split: sum.splits)
  then show ?thesis using whole by blast
qed

text \<open>A JSON of nested arrays, whose reader has a recursion limit of one.\<close>

definition nested_vec :: "nat \<Rightarrow> string + byte list" where
  "nested_vec depth = Inr (replicate depth 91 @ [48] @ replicate depth 93)"

definition nested_slice :: "byte list \<Rightarrow> string + nat" where
  "nested_slice bs = (if bs = [48] then Inr 0 else if bs = [91, 48, 93] then Inr 1 else Inl ''recursion limit exceeded'')"

lemma nested_json_ok: "json_ok nested_vec"
  by (auto simp: json_ok_def nested_vec_def)

theorem control_messages_roundtrip_witness:
  "feed_frames nested_slice [] [[], [48], [10, 91, 48], [93, 10]] = Inr ([0, 1], [])
   \<and> frames_of (feed_frames nested_slice [] [[48, 10, 91], [91, 48, 93, 93, 10]]) = None"
proof -
  have one: "feed_frames nested_slice [] [[], [48], [10, 91, 48], [93, 10]] = Inr ([0, 1], [])"
    by (rule control_messages_roundtrip [OF nested_json_ok, of _ "[[48, 10], [91, 48, 93, 10]]", THEN conjunct2, rule_format])
      (simp_all add: encode_frame_def nested_vec_def nested_slice_def reread_def max_control_message_bytes_def)
  have "frames_of (feed_frames nested_slice [] [[48, 10, 91], [91, 48, 93, 93, 10]])
      = map_option (\<lambda>vs. (vs, [])) (those (map (reread nested_vec nested_slice) [0, 2]))"
    by (rule control_messages_roundtrip [OF nested_json_ok, of _ "[[48, 10], [91, 91, 48, 93, 93, 10]]", THEN conjunct1])
      (simp_all add: encode_frame_def nested_vec_def max_control_message_bytes_def numeral_2_eq_2)
  then show ?thesis
    using one by (simp add: reread_def nested_vec_def nested_slice_def numeral_2_eq_2)
qed

text \<open>The error branches, and what a decoder holds after one: a line that turns out not to parse
  has already been taken out of the buffer, although the documentation says that the state is left
  untouched for diagnosis.\<close>

lemma malformed_line_leaves_nothing:
  assumes "b \<noteq> []" "LF \<notin> set xs" "length b + length xs < max_control_message_bytes"
    "from_slice (b @ xs) = Inl e"
  shows "push_bytes from_slice b (xs @ LF # ys) = (Inl (Malformed e), [])"
  using assms by (simp add: push_bytes_def decode_frame_def Let_def)

section \<open>Viewers\<close>

definition max_viewers :: nat where
  "max_viewers = 16"

datatype viewer_admission = Admitted | RefusedFull

record viewer_set =
  vw_viewers :: "nat set"
  vw_grace :: nat
  vw_drain_until :: "nat option"


definition hello :: "nat \<Rightarrow> viewer_set \<Rightarrow> viewer_admission \<times> viewer_set" where
  "hello pid s =
    (if pid \<in> vw_viewers s then (Admitted, s)
     else if card (vw_viewers s) \<ge> max_viewers then (RefusedFull, s)
     else (Admitted, s\<lparr>vw_viewers := insert pid (vw_viewers s), vw_drain_until := None\<rparr>))"

definition goodbye :: "nat \<Rightarrow> nat \<Rightarrow> viewer_set \<Rightarrow> viewer_set" where
  "goodbye now pid s =
    (let s1 = s\<lparr>vw_viewers := vw_viewers s - {pid}\<rparr>
     in if vw_viewers s1 = {} \<and> vw_drain_until s1 = None
        then s1\<lparr>vw_drain_until := Some (now + vw_grace s1)\<rparr> else s1)"


definition draining :: "viewer_set \<Rightarrow> bool" where
  "draining s \<longleftrightarrow> vw_drain_until s \<noteq> None"


text \<open>What the worker feeds in, at instants that never go back.\<close>

inductive viewer_step :: "nat \<times> viewer_set \<Rightarrow> nat \<times> viewer_set \<Rightarrow> bool" where
  viewer_hello: "now \<le> t \<Longrightarrow> viewer_step (now, s) (t, snd (hello pid s))"
| viewer_goodbye: "now \<le> t \<Longrightarrow> viewer_step (now, s) (t, goodbye t pid s)"

definition viewer_inv :: "nat \<Rightarrow> nat \<times> viewer_set \<Rightarrow> bool" where
  "viewer_inv grace = (\<lambda>(now, s). vw_grace s = grace \<and> finite (vw_viewers s)
     \<and> card (vw_viewers s) \<le> max_viewers
     \<and> (vw_viewers s = {} \<longleftrightarrow> vw_drain_until s \<noteq> None)
     \<and> (\<forall>d. vw_drain_until s = Some d \<longrightarrow> d \<le> now + grace))"

lemma hello_inv:
  assumes "viewer_inv grace (now, s)" "now \<le> t"
  shows "viewer_inv grace (t, snd (hello pid s))"
proof -
  have "vw_drain_until s = Some d \<Longrightarrow> d \<le> t + grace" for d
    using assms by (force simp: viewer_inv_def)
  then show ?thesis using assms(1) by (auto simp: viewer_inv_def hello_def card_insert_if)
qed

lemma goodbye_inv:
  assumes "viewer_inv grace (now, s)" "now \<le> t"
  shows "viewer_inv grace (t, goodbye t pid s)"
proof -
  have "vw_drain_until s = Some d \<Longrightarrow> d \<le> t + grace" for d
    using assms by (force simp: viewer_inv_def)
  moreover have "card (vw_viewers s - {pid}) \<le> max_viewers"
    using assms(1) card_Diff1_le [of "vw_viewers s" pid] by (simp add: viewer_inv_def)
  ultimately show ?thesis using assms(1) by (auto simp: viewer_inv_def goodbye_def Let_def)
qed

interpretation vs: invariant_system viewer_step "viewer_inv grace" for grace
proof
  fix p q :: "nat \<times> viewer_set"
  assume "viewer_inv grace p" "viewer_step p q"
  then show "viewer_inv grace q"
    by (cases p; elim viewer_step.cases; simp only: prod.inject; elim conjE; hypsubst)
       (rule hello_inv goodbye_inv; assumption)+
qed



end
