(* ===== verification/Correlation.thy ===== *)
theory Correlation
  imports Chars Ordered_Maps "HOL-Library.List_Lexorder"
begin

text \<open>
  Exact correlation values of \<open>lvu-core/src/correlation.rs\<close>: typed scalars with their tokens, the
  constraint on one field, and a correlation over several sources with a field name for each.

  A float is its 64 bits; a \<open>BTreeMap\<close> is an ordered association list.  The deserializers of the
  three types build a value and then call \<open>validate\<close>, as the constructors do.
\<close>

definition max_exact_field_bytes :: nat where "max_exact_field_bytes = 64"
definition max_exact_scalar_bytes :: nat where "max_exact_scalar_bytes = 16 * 1024"
definition max_correlation_sources :: nat where "max_correlation_sources = 32"

datatype exact_field_error = EmptyField | FieldTooLarge | ReservedField ustr | ScalarTooLarge
  | NonFiniteFloat | NoMappedSource | TooManySources | InvalidSource ustr

datatype exact_scalar = Null | Bool bool | SignedInteger int | UnsignedInteger nat
  | FloatBits "64 word" | String ustr

text \<open>\<open>f64::is_finite\<close> of the bits: the eleven exponent bits are not all ones.\<close>

definition finite_bits :: "64 word \<Rightarrow> bool" where
  "finite_bits bits \<longleftrightarrow> unat bits div 2 ^ 52 mod 2 ^ 11 \<noteq> 2 ^ 11 - 1"

definition finite_float :: "64 word \<Rightarrow> exact_field_error + exact_scalar" where
  "finite_float bits = (if finite_bits bits then Inr (FloatBits bits) else Inl NonFiniteFloat)"

definition exact_string :: "ustr \<Rightarrow> exact_field_error + exact_scalar" where
  "exact_string value =
    (if utf8_len value > max_exact_scalar_bytes then Inl ScalarTooLarge else Inr (String value))"

definition scalar_validate :: "exact_scalar \<Rightarrow> exact_field_error + unit" where
  "scalar_validate s =
    (case s of
       String value \<Rightarrow> if utf8_len value > max_exact_scalar_bytes then Inl ScalarTooLarge else Inr ()
     | FloatBits bits \<Rightarrow> if \<not> finite_bits bits then Inl NonFiniteFloat else Inr ()
     | _ \<Rightarrow> Inr ())"

text \<open>\<open>{:016x}\<close>: sixteen lower-case hexadecimal digits.\<close>

definition hex_digit :: "nat \<Rightarrow> char" where
  "hex_digit d = char_of (if d < 10 then 48 + d else 87 + d)"

fun hex_digits :: "nat \<Rightarrow> nat \<Rightarrow> string" where
  "hex_digits 0 n = []"
| "hex_digits (Suc k) n = hex_digits k (n div 16) @ [hex_digit (n mod 16)]"

definition exact_token :: "exact_scalar \<Rightarrow> exact_field_error + ustr" where
  "exact_token s =
    (case scalar_validate s of
       Inl e \<Rightarrow> Inl e
     | Inr _ \<Rightarrow> Inr
         (case s of
            Null \<Rightarrow> ustr_of ''n''
          | Bool b \<Rightarrow> ustr_of ''b:'' @ ustr_of (if b then ''true'' else ''false'')
          | SignedInteger i \<Rightarrow> ustr_of ''i:'' @ ustr_of (show_int i)
          | UnsignedInteger n \<Rightarrow> ustr_of ''u:'' @ ustr_of (show_nat n)
          | FloatBits bits \<Rightarrow> ustr_of ''f:'' @ ustr_of (hex_digits 16 (unat bits))
          | String value \<Rightarrow> ustr_of ''s:'' @ value))"

section \<open>Constraints and correlations\<close>

record exact_field_constraint =
  ec_field :: ustr
  ec_value :: exact_scalar

definition constraint_validate :: "exact_field_constraint \<Rightarrow> exact_field_error + unit" where
  "constraint_validate c =
    (if ec_field c = [] then Inl EmptyField
     else if utf8_len (ec_field c) > max_exact_field_bytes then Inl FieldTooLarge
     else if ec_field c = ustr_of ''raw'' \<or> starts_with (ec_field c) (ustr_of ''_lvu_'')
     then Inl (ReservedField (ec_field c))
     else scalar_validate (ec_value c))"

definition constraint_new :: "ustr \<Rightarrow> exact_scalar \<Rightarrow> exact_field_error + exact_field_constraint" where
  "constraint_new field value =
    (let candidate = \<lparr>ec_field = field, ec_value = value\<rparr>
     in case constraint_validate candidate of Inl e \<Rightarrow> Inl e | Inr _ \<Rightarrow> Inr candidate)"

record field_correlation =
  co_origin_field :: ustr
  co_value :: exact_scalar
  co_sources :: "(ustr \<times> ustr) list"

fun validate_sources :: "exact_scalar \<Rightarrow> (ustr \<times> ustr) list \<Rightarrow> exact_field_error + unit" where
  "validate_sources value [] = Inr ()"
| "validate_sources value ((source_id, field) # rest) =
    (if source_id = [] \<or> utf8_len source_id > 128 then Inl (InvalidSource source_id)
     else case constraint_new field value of
       Inl e \<Rightarrow> Inl e
     | Inr _ \<Rightarrow> validate_sources value rest)"

definition correlation_validate :: "field_correlation \<Rightarrow> exact_field_error + unit" where
  "correlation_validate c =
    (case constraint_new (co_origin_field c) (co_value c) of
       Inl e \<Rightarrow> Inl e
     | Inr _ \<Rightarrow>
         if co_sources c = [] then Inl NoMappedSource
         else if length (co_sources c) > max_correlation_sources then Inl TooManySources
         else validate_sources (co_value c) (co_sources c))"

definition correlation_new ::
  "ustr \<Rightarrow> exact_scalar \<Rightarrow> (ustr \<times> ustr) list \<Rightarrow> exact_field_error + field_correlation" where
  "correlation_new origin value sources =
    (let candidate = \<lparr>co_origin_field = origin, co_value = value, co_sources = sources\<rparr>
     in case correlation_validate candidate of Inl e \<Rightarrow> Inl e | Inr _ \<Rightarrow> Inr candidate)"

definition source_ids :: "field_correlation \<Rightarrow> ustr list" where
  "source_ids c = map fst (co_sources c)"

definition correlation_fields :: "field_correlation \<Rightarrow> ustr list" where
  "correlation_fields c = remdups_adj (sort (map snd (co_sources c)))"

definition constraint_for :: "field_correlation \<Rightarrow> ustr \<Rightarrow> exact_field_constraint option" where
  "constraint_for c source_id =
    (case map_of (co_sources c) source_id of
       None \<Rightarrow> None
     | Some field \<Rightarrow> (case constraint_new field (co_value c) of Inl _ \<Rightarrow> None | Inr k \<Rightarrow> Some k))"

section \<open>Tokens tell values apart\<close>

lemma of_char_hex_digit: "d < 16 \<Longrightarrow> of_char (hex_digit d) = (if d < 10 then 48 + d else 87 + d :: nat)"
  by (simp add: hex_digit_def)

lemma hex_digit_inject:
  assumes "hex_digit a = hex_digit b" "a < 16" "b < 16"
  shows "a = b"
proof -
  have "(of_char (hex_digit a) :: nat) = of_char (hex_digit b)" using assms(1) by simp
  then have "(if a < 10 then 48 + a else 87 + a) = (if b < 10 then 48 + b else 87 + b)"
    unfolding of_char_hex_digit [OF assms(2)] of_char_hex_digit [OF assms(3)] .
  then show ?thesis using assms(2,3) by (simp split: if_splits)
qed

lemma length_hex_digits [simp]: "length (hex_digits k n) = k"
  by (induction k n rule: hex_digits.induct) auto

lemma hex_digits_inject: "hex_digits k m = hex_digits k n \<Longrightarrow> m < 16 ^ k \<Longrightarrow> n < 16 ^ k \<Longrightarrow> m = n"
proof (induction k arbitrary: m n)
  case (Suc k)
  then have "m div 16 = n div 16" "hex_digit (m mod 16) = hex_digit (n mod 16)"
    by (auto intro!: Suc.IH simp: less_mult_imp_div_less)
  then show ?case by (metis hex_digit_inject div_mod_decomp mod_less_divisor zero_less_numeral)
qed simp

lemma float_token_inject:
  assumes "hex_digits 16 (unat a) = hex_digits 16 (unat b)"
  shows "a = (b :: 64 word)"
proof -
  have "unat a < 16 ^ 16" "unat b < 16 ^ 16"
  proof -
    have "unat a < 2 ^ 64" "unat b < 2 ^ 64"
      using unsigned_less [where 'a = nat and 'b = 64] by simp_all
    then show "unat a < 16 ^ 16" "unat b < 16 ^ 16" by simp_all
  qed
  then have "unat a = unat b" using hex_digits_inject [OF assms] by simp
  then show ?thesis by (simp add: word_unat_eq_iff)
qed

text \<open>The token of a value determines it: two values of any kinds with one token are the same
  value, so a signed and an unsigned integer, a number and its text, and two float encodings never
  correlate by accident.\<close>

theorem exact_token_injective:
  assumes "exact_token a = Inr t" "exact_token b = Inr t"
  shows "a = b"
  using assms
  by (cases a; cases b) (auto simp: exact_token_def float_token_inject split: sum.splits if_splits)

lemma exact_token_injective_witness: "SignedInteger 7 = SignedInteger 7"
  by (rule exact_token_injective [of _ "ustr_of ''i:7''"])
     (simp_all add: exact_token_def scalar_validate_def show_int_def show_nat.simps)

section \<open>What validation establishes\<close>

lemma constraint_new_Inr:
  "constraint_new field value = Inr c \<longleftrightarrow>
    constraint_validate \<lparr>ec_field = field, ec_value = value\<rparr> = Inr ()
    \<and> c = \<lparr>ec_field = field, ec_value = value\<rparr>"
  by (auto simp: constraint_new_def Let_def split: sum.splits)

lemma validate_sources_member:
  "validate_sources value sources = Inr () \<Longrightarrow> (i, f) \<in> set sources \<Longrightarrow>
    i \<noteq> [] \<and> utf8_len i \<le> 128 \<and> constraint_new f value = Inr \<lparr>ec_field = f, ec_value = value\<rparr>"
proof (induction "value" sources rule: validate_sources.induct)
  case (2 v j g rest)
  then show ?case
    by (auto simp: constraint_new_def Let_def split: if_splits sum.splits)
qed simp

text \<open>C29. An accepted correlation has between one and thirty-two sources, and answers with the
  exact predicate for precisely the sources it maps: no mapped source is ever silently left without
  one, which would read as no records, and an unmapped source never gets one.\<close>

theorem correlation_answers_mapped_sources:
  assumes "correlation_new origin value sources = Inr c"
  shows "0 < length (co_sources c) \<and> length (co_sources c) \<le> max_correlation_sources
    \<and> scalar_validate (co_value c) = Inr ()
    \<and> (\<forall>i. constraint_for c i = map_option (\<lambda>f. \<lparr>ec_field = f, ec_value = value\<rparr>) (map_of sources i))"
proof -
  have c: "c = \<lparr>co_origin_field = origin, co_value = value, co_sources = sources\<rparr>"
    and v: "correlation_validate c = Inr ()"
    using assms by (auto simp: correlation_new_def Let_def split: sum.splits)
  have origin: "constraint_new origin value = Inr \<lparr>ec_field = origin, ec_value = value\<rparr>"
    and bounds: "sources \<noteq> []" "length sources \<le> max_correlation_sources"
    and each: "validate_sources value sources = Inr ()"
    using v by (auto simp: c correlation_validate_def constraint_new_Inr split: sum.splits if_splits)
  have "scalar_validate value = Inr ()"
    using origin by (auto simp: constraint_new_Inr constraint_validate_def split: if_splits)
  moreover have "constraint_for c i = map_option (\<lambda>f. \<lparr>ec_field = f, ec_value = value\<rparr>) (map_of sources i)" for i
    using validate_sources_member [OF each map_of_SomeD, of i]
    by (simp add: constraint_for_def c split: option.splits)
  ultimately show ?thesis using bounds by (simp add: c)
qed

lemma correlation_answers_mapped_sources_witness:
  "\<exists>c. 0 < length (co_sources c) \<and> length (co_sources c) \<le> max_correlation_sources
    \<and> scalar_validate (co_value c) = Inr ()
    \<and> (\<forall>i. constraint_for c i = map_option (\<lambda>f. \<lparr>ec_field = f, ec_value = Bool True\<rparr>)
          (map_of [([65], [97]), ([66], [98])] i))"
  by (rule exI, rule correlation_answers_mapped_sources [of "[97]"])
     (simp add: correlation_new_def correlation_validate_def constraint_new_def constraint_validate_def
        scalar_validate_def char_utf8_len_def max_exact_field_bytes_def max_correlation_sources_def
        starts_with_def Let_def)

end
