(* ===== verification/Grouping.thy ===== *)
theory Grouping
  imports Chars
begin

text \<open>
  The persisted grouping rules of \<open>lvu/src/grouping.rs\<close>: the automatic token, the two namespaces
  that name an enrichment column, and everything else as a custom regular expression.  An error is
  what the message is about.
\<close>

definition auto_grouping_token :: ustr where "auto_grouping_token = ustr_of ''(?lvu:auto:v1)''"
definition auto_namespace :: ustr where "auto_namespace = ustr_of ''(?lvu:auto:''"
definition run_namespace :: ustr where "run_namespace = ustr_of ''(?lvu:run:v1:column:''"
definition filter_namespace :: ustr where "filter_namespace = ustr_of ''(?lvu:filter:v1:column:''"
definition start_namespace :: ustr where "start_namespace = ustr_of ''(?lvu:start:''"

definition max_grouping_column_bytes :: nat where "max_grouping_column_bytes = 128"

datatype grouping_spec = AutoSpec | Custom ustr | Run ustr | Filter ustr

datatype grouping_error = MalformedRule ustr | NoColumn | UnsupportedAuto ustr | UnsupportedVersion

definition run_rule :: "ustr \<Rightarrow> ustr" where
  "run_rule column = run_namespace @ column @ [ch CHR '')'']"

definition filter_rule :: "ustr \<Rightarrow> ustr" where
  "filter_rule column = filter_namespace @ column @ [ch CHR '')'']"

definition is_grouping_column_name :: "ustr \<Rightarrow> bool" where
  "is_grouping_column_name name \<longleftrightarrow> name \<noteq> [] \<and> utf8_len name \<le> max_grouping_column_bytes
    \<and> list_all (\<lambda>c. c = ch CHR ''_'' \<or> c = ch CHR ''.'' \<or> is_ascii_alphanumeric c) name"

definition parse_column :: "ustr \<Rightarrow> ustr \<Rightarrow> grouping_error + ustr" where
  "parse_column namespace source =
    (case Option.bind (strip_prefix source namespace) (\<lambda>suffix. strip_suffix_char suffix (ch CHR '')'')) of
       None \<Rightarrow> Inl (MalformedRule source)
     | Some name \<Rightarrow> if \<not> is_grouping_column_name name then Inl NoColumn else Inr name)"

definition parse_grouping :: "ustr \<Rightarrow> grouping_error + grouping_spec" where
  "parse_grouping source =
    (if source = auto_grouping_token then Inr AutoSpec
     else if starts_with source auto_namespace then
       Inl (UnsupportedAuto (case Option.bind (strip_prefix source auto_namespace)
              (\<lambda>suffix. strip_suffix_char suffix (ch CHR '')'')) of
            None \<Rightarrow> ustr_of ''unknown'' | Some version \<Rightarrow> version))
     else if starts_with source run_namespace then
       (case parse_column run_namespace source of Inl e \<Rightarrow> Inl e | Inr c \<Rightarrow> Inr (Run c))
     else if starts_with source filter_namespace then
       (case parse_column filter_namespace source of Inl e \<Rightarrow> Inl e | Inr c \<Rightarrow> Inr (Filter c))
     else if starts_with source start_namespace \<or> starts_with source (ustr_of ''(?lvu:run:'')
         \<or> starts_with source (ustr_of ''(?lvu:filter:'') then Inl UnsupportedVersion
     else Inr (Custom source))"

definition grouping_label :: "ustr \<Rightarrow> grouping_error + string" where
  "grouping_label source =
    (case parse_grouping source of
       Inl e \<Rightarrow> Inl e
     | Inr AutoSpec \<Rightarrow> Inr ''Auto''
     | Inr (Custom _) \<Rightarrow> Inr ''Custom''
     | Inr (Run _) \<Rightarrow> Inr ''Run''
     | Inr (Filter _) \<Rightarrow> Inr ''Filter'')"

definition configured_grouping_column :: "ustr \<Rightarrow> ustr option" where
  "configured_grouping_column applied =
    (case parse_grouping applied of
       Inr (Run column) \<Rightarrow> Some column
     | Inr (Filter column) \<Rightarrow> Some column
     | _ \<Rightarrow> None)"

definition is_legacy :: "ustr \<Rightarrow> bool" where
  "is_legacy source =
    (case parse_grouping source of Inr AutoSpec \<Rightarrow> True | Inr (Custom _) \<Rightarrow> True | _ \<Rightarrow> False)"

section \<open>The rules and what they name\<close>

lemma parse_column_Inr:
  "parse_column namespace source = Inr c \<longleftrightarrow>
    source = namespace @ c @ [ch CHR '')''] \<and> is_grouping_column_name c"
proof -
  let ?name = "Option.bind (strip_prefix source namespace) (\<lambda>suffix. strip_suffix_char suffix (ch CHR '')''))"
  have "source = namespace @ c @ [ch CHR '')''] \<longleftrightarrow> ?name = Some c"
    by (simp add: bind_eq_Some_conv)
  then show ?thesis unfolding parse_column_def by (cases ?name) auto
qed

text \<open>The namespaces are told apart by their ninth character at the latest.\<close>

lemma namespaces_differ:
  "run_namespace @ t \<noteq> auto_grouping_token" "\<not> starts_with (run_namespace @ t) auto_namespace"
  "filter_namespace @ t \<noteq> auto_grouping_token" "\<not> starts_with (filter_namespace @ t) auto_namespace"
  "\<not> starts_with (filter_namespace @ t) run_namespace"
  by (simp_all add: run_namespace_def auto_grouping_token_def auto_namespace_def filter_namespace_def
      starts_with_def)

lemma parse_grouping_rules:
  "is_grouping_column_name c \<Longrightarrow> parse_grouping (run_rule c) = Inr (Run c)"
  "is_grouping_column_name c \<Longrightarrow> parse_grouping (filter_rule c) = Inr (Filter c)"
  using parse_column_Inr [of run_namespace "run_rule c" c] parse_column_Inr [of filter_namespace "filter_rule c" c]
  by (simp_all add: parse_grouping_def run_rule_def filter_rule_def namespaces_differ)

lemma parse_grouping_RunD: "parse_grouping source = Inr (Run c) \<Longrightarrow> parse_column run_namespace source = Inr c"
  by (auto simp: parse_grouping_def split: sum.splits if_splits)

lemma parse_grouping_FilterD:
  "parse_grouping source = Inr (Filter c) \<Longrightarrow> parse_column filter_namespace source = Inr c"
  by (auto simp: parse_grouping_def split: sum.splits if_splits)

text \<open>Parsing inverts the two rule builders and nothing else does: a source is a Run or Filter
  rule of a column exactly when it is the rule built for that column and the column can be named,
  only the token is Auto, and custom text comes back verbatim.\<close>

theorem grouping_rules_roundtrip:
  "(parse_grouping source = Inr (Run c) \<longleftrightarrow> source = run_rule c \<and> is_grouping_column_name c)
    \<and> (parse_grouping source = Inr (Filter c) \<longleftrightarrow> source = filter_rule c \<and> is_grouping_column_name c)
    \<and> (parse_grouping source = Inr AutoSpec \<longleftrightarrow> source = auto_grouping_token)
    \<and> (parse_grouping source = Inr (Custom c) \<longrightarrow> c = source)"
proof (intro conjI)
  show "parse_grouping source = Inr (Run c) \<longleftrightarrow> source = run_rule c \<and> is_grouping_column_name c"
    using parse_grouping_rules(1) by (auto dest!: parse_grouping_RunD simp: parse_column_Inr run_rule_def)
  show "parse_grouping source = Inr (Filter c) \<longleftrightarrow> source = filter_rule c \<and> is_grouping_column_name c"
    using parse_grouping_rules(2) by (auto dest!: parse_grouping_FilterD simp: parse_column_Inr filter_rule_def)
qed (auto simp: parse_grouping_def split: sum.splits if_splits)

end
