(* ===== verification/Text_Edit.thy ===== *)
theory Text_Edit
  imports Chars Ordered_Maps "HOL-Library.Monad_Syntax"
begin

text \<open>
  The editing primitives of \<open>lvu/src/text_edit.rs\<close>: cursors and the bank that remembers them, the
  edit commands, and the wrapped layout that vertical movement follows; and the column slicing of
  \<open>lvu/src/horizontal.rs\<close>.

  The code edits a \<open>String\<close> through byte offsets; slicing one off a character boundary panics and
  is \<^const>\<open>None\<close> here.  The cell width of a character is the table of the crate
  \<open>unicode-width\<close> and is the parameter \<open>width\<close>.
\<close>

section \<open>Strings by byte offset\<close>

fun byte_split :: "ustr \<Rightarrow> nat \<Rightarrow> (ustr \<times> ustr) option" where
  "byte_split s 0 = Some ([], s)"
| "byte_split [] (Suc n) = None"
| "byte_split (c # s) (Suc n) =
    (if Suc n < char_utf8_len c then None
     else map_option (\<lambda>(a, b). (c # a, b)) (byte_split s (Suc n - char_utf8_len c)))"

definition replace_range :: "ustr \<Rightarrow> nat \<Rightarrow> nat \<Rightarrow> ustr \<Rightarrow> ustr option" where
  "replace_range s start e new = do {
     (before, rest) \<leftarrow> byte_split s start;
     (gone, after) \<leftarrow> (if start \<le> e then byte_split rest (e - start) else None);
     Some (before @ new @ after)
   }"

definition insert_str :: "ustr \<Rightarrow> nat \<Rightarrow> ustr \<Rightarrow> ustr option" where
  "insert_str s i new = do { (before, after) \<leftarrow> byte_split s i; Some (before @ new @ after) }"

definition byte_index :: "ustr \<Rightarrow> nat \<Rightarrow> nat" where
  "byte_index s i = (if i < length s then utf8_len (take i s) else utf8_len s)"

lemma byte_split_prefix [simp]: "byte_split (a @ b) (utf8_len a) = Some (a, b)"
proof (induction a)
  case (Cons c a)
  obtain n where n: "char_utf8_len c + utf8_len a = Suc n"
    using char_utf8_len_pos [of c] by (cases "char_utf8_len c + utf8_len a") auto
  then have "Suc n - char_utf8_len c = utf8_len a" "\<not> Suc n < char_utf8_len c" by simp_all
  then show ?case using Cons n by simp
qed (cases b; simp)

lemma byte_index_take: "byte_index s i = utf8_len (take i s)"
  by (simp add: byte_index_def)

lemma byte_split_index [simp]: "byte_split s (byte_index s i) = Some (take i s, drop i s)"
  using byte_split_prefix [of "take i s" "drop i s"] by (simp add: byte_index_take)

lemma byte_index_diff:
  assumes "i \<le> j"
  shows "byte_index s i \<le> byte_index s j" "byte_index s j - byte_index s i = byte_index (drop i s) (j - i)"
proof -
  obtain d where "j = i + d" using assms le_Suc_ex by blast
  then show "byte_index s i \<le> byte_index s j"
    "byte_index s j - byte_index s i = byte_index (drop i s) (j - i)"
    by (simp_all add: byte_index_take take_add)
qed

lemma replace_range_index:
  assumes "i \<le> j"
  shows "replace_range s (byte_index s i) (byte_index s j) new = Some (take i s @ new @ drop j s)"
  using byte_index_diff [OF assms, of s] assms by (simp add: replace_range_def)

lemma insert_str_index: "insert_str s (byte_index s i) new = Some (take i s @ new @ drop i s)"
  by (simp add: insert_str_def)

section \<open>Cursors\<close>

record text_cursor =
  char_index :: nat

definition clamp_cursor :: "ustr \<Rightarrow> text_cursor \<Rightarrow> text_cursor" where
  "clamp_cursor s c = c\<lparr>char_index := min (char_index c) (length s)\<rparr>"

definition reset_cursor_to_end :: "ustr \<Rightarrow> text_cursor" where
  "reset_cursor_to_end s = \<lparr>char_index = length s\<rparr>"

record text_target =
  tt_identity :: ustr
  tt_field :: ustr

definition max_cursor_slots :: nat where
  "max_cursor_slots = 48"

type_synonym cursor_bank = "(text_target \<times> text_cursor) list"

definition bank_evict :: "cursor_bank \<Rightarrow> cursor_bank" where
  "bank_evict slots = (if length slots = max_cursor_slots then tl slots else slots)"

definition get_or_end :: "text_target \<Rightarrow> ustr \<Rightarrow> cursor_bank \<Rightarrow> text_cursor \<times> cursor_bank" where
  "get_or_end target s slots =
    (case find_index_opt (\<lambda>(saved, _). saved = target) slots of
       Some index \<Rightarrow>
         let entry = slots ! index;
             cursor = clamp_cursor s (snd entry)
         in (cursor, (take index slots @ drop (index + 1) slots) @ [(fst entry, cursor)])
     | None \<Rightarrow>
         let cursor = reset_cursor_to_end s
         in (cursor, bank_evict slots @ [(target, cursor)]))"

definition peek :: "text_target \<Rightarrow> ustr \<Rightarrow> cursor_bank \<Rightarrow> nat option" where
  "peek target s slots =
    map_option (\<lambda>c. char_index (clamp_cursor s c)) (map_of slots target)"

fun store_first :: "text_target \<Rightarrow> text_cursor \<Rightarrow> cursor_bank \<Rightarrow> cursor_bank option" where
  "store_first target cursor [] = None"
| "store_first target cursor ((saved, c) # slots) =
    (if saved = target then Some ((saved, cursor) # slots)
     else map_option ((#) (saved, c)) (store_first target cursor slots))"

definition bank_store :: "text_target \<Rightarrow> text_cursor \<Rightarrow> cursor_bank \<Rightarrow> cursor_bank" where
  "bank_store target cursor slots =
    (case store_first target cursor slots of
       Some slots' \<Rightarrow> slots'
     | None \<Rightarrow> bank_evict slots @ [(target, cursor)])"

definition bank_reset :: "text_target \<Rightarrow> ustr \<Rightarrow> cursor_bank \<Rightarrow> cursor_bank" where
  "bank_reset target s slots = bank_store target (reset_cursor_to_end s) slots"

definition prune_identity :: "ustr \<Rightarrow> cursor_bank \<Rightarrow> cursor_bank" where
  "prune_identity identity slots = filter (\<lambda>(target, _). tt_identity target \<noteq> identity) slots"

fun contains_str :: "ustr \<Rightarrow> ustr \<Rightarrow> bool" where
  "contains_str [] marker \<longleftrightarrow> marker = []"
| "contains_str (c # s) marker \<longleftrightarrow> starts_with (c # s) marker \<or> contains_str s marker"

definition prune_where_identity_contains :: "ustr \<Rightarrow> cursor_bank \<Rightarrow> cursor_bank" where
  "prune_where_identity_contains marker slots =
    filter (\<lambda>(target, _). \<not> contains_str (tt_identity target) marker) slots"

section \<open>Wrapped layout\<close>

record wrapped_layout =
  wr_lines :: "ustr list"
  wr_cursor_positions :: "(nat \<times> nat) list"

record wrap_state =
  ws_row :: nat
  ws_column :: nat
  ws_pending_wrap :: bool
  ws_lines :: "ustr list"
  ws_positions :: "(nat \<times> nat) list"

definition wrap_start :: wrap_state where
  "wrap_start = \<lparr>ws_row = 0, ws_column = 0, ws_pending_wrap = False, ws_lines = [[]], ws_positions = [(0, 0)]\<rparr>"

definition push_last :: "nat \<Rightarrow> ustr list \<Rightarrow> ustr list" where
  "push_last c lines = butlast lines @ [last lines @ [c]]"

definition wrap_row :: "wrap_state \<Rightarrow> wrap_state" where
  "wrap_row s = s\<lparr>ws_row := ws_row s + 1, ws_column := 0, ws_lines := ws_lines s @ [[]]\<rparr>"

definition wrap_char :: "(nat \<Rightarrow> nat option) \<Rightarrow> nat \<Rightarrow> wrap_state \<Rightarrow> nat \<Rightarrow> wrap_state" where
  "wrap_char cell_width width s c =
    (if c = 10 then
       let s1 = (wrap_row s)\<lparr>ws_pending_wrap := False\<rparr>
       in s1\<lparr>ws_positions := ws_positions s1 @ [(ws_row s1, ws_column s1)]\<rparr>
     else
       let cells = (case cell_width c of None \<Rightarrow> 0 | Some n \<Rightarrow> n);
           s1 = (if ws_pending_wrap s \<and> cells > 0 then wrap_row s else s);
           s2 = (if ws_column s1 > 0 \<and> ws_column s1 + cells > width then wrap_row s1 else s1);
           s3 = (if \<not> is_control c then s2\<lparr>ws_lines := push_last c (ws_lines s2)\<rparr> else s2);
           column = ws_column s3 + cells;
           pending = (column \<ge> width)
       in s3\<lparr>ws_column := column, ws_pending_wrap := pending,
             ws_positions := ws_positions s3
               @ [if pending then (ws_row s3 + 1, 0) else (ws_row s3, column)]\<rparr>)"

definition wrapped_text :: "(nat \<Rightarrow> nat option) \<Rightarrow> ustr \<Rightarrow> nat \<Rightarrow> wrapped_layout" where
  "wrapped_text cell_width s width0 =
    (let width = max width0 1;
         final = foldl (wrap_char cell_width width) wrap_start s
     in \<lparr>wr_lines = (if ws_pending_wrap final then ws_lines final @ [[]] else ws_lines final),
         wr_cursor_positions = ws_positions final\<rparr>)"

text \<open>The scan of \<open>wrapped_step\<close> over the positions from \<open>index\<close> on.\<close>

fun nearest_slot :: "nat \<Rightarrow> nat \<Rightarrow> nat \<Rightarrow> (nat \<times> nat) list \<Rightarrow> nat option \<Rightarrow> nat option" where
  "nearest_slot target column index [] best = best"
| "nearest_slot target column index ((r, c) # positions) best =
    (if r \<noteq> target then
       if best \<noteq> None then best else nearest_slot target column (index + 1) positions best
     else if c \<le> column then nearest_slot target column (index + 1) positions (Some index)
     else if best \<noteq> None then best
     else Some index)"

definition wrapped_step :: "(nat \<Rightarrow> nat option) \<Rightarrow> ustr \<Rightarrow> nat \<Rightarrow> nat \<Rightarrow> int \<Rightarrow> nat" where
  "wrapped_step cell_width s i width delta =
    (let positions = wr_cursor_positions (wrapped_text cell_width s (max width 1));
         (row, column) = positions ! min i (length positions - 1)
     in if int row + delta < 0 then i
        else case nearest_slot (nat (int row + delta)) column 0 positions None of
          None \<Rightarrow> i
        | Some best \<Rightarrow> best)"

definition wrapped_cursor :: "(nat \<Rightarrow> nat option) \<Rightarrow> ustr \<Rightarrow> text_cursor \<Rightarrow> nat \<Rightarrow> nat \<times> nat" where
  "wrapped_cursor cell_width s cursor width =
    wr_cursor_positions (wrapped_text cell_width s width) ! char_index (clamp_cursor s cursor)"

section \<open>Edit commands\<close>

datatype edit_command = Insert ustr | Backspace | StartOfLine | EndOfLine | KillToEndOfLine
  | MoveLeft | MoveRight | MoveUp | MoveDown | MoveUpWrapped nat | MoveDownWrapped nat

record edit_policy =
  ep_max_bytes :: nat
  ep_multiline :: bool

record edit_outcome =
  eo_changed :: bool
  eo_moved :: bool
  eo_rejected :: bool

definition line_char_bounds :: "ustr \<Rightarrow> nat \<Rightarrow> nat \<times> nat" where
  "line_char_bounds s i0 =
    (let i = min i0 (length s);
         start = (case find_index_opt (\<lambda>c. c = 10) (rev (take i s)) of
            None \<Rightarrow> 0 | Some k \<Rightarrow> i - k);
         e = (case find_index_opt (\<lambda>c. c = 10) (drop i s) of
            None \<Rightarrow> length s | Some k \<Rightarrow> i + k)
     in (start, e))"

definition outcome_changed :: edit_outcome where
  "outcome_changed = \<lparr>eo_changed = True, eo_moved = False, eo_rejected = False\<rparr>"

definition outcome_rejected :: edit_outcome where
  "outcome_rejected = \<lparr>eo_changed = False, eo_moved = False, eo_rejected = True\<rparr>"

definition outcome_moved :: "bool \<Rightarrow> edit_outcome" where
  "outcome_moved m = \<lparr>eo_changed = False, eo_moved = m, eo_rejected = False\<rparr>"

text \<open>The commands that only move: the new index.\<close>

definition move_index :: "(nat \<Rightarrow> nat option) \<Rightarrow> ustr \<Rightarrow> nat \<Rightarrow> edit_command \<Rightarrow> nat" where
  "move_index cell_width s before command =
    (case command of
       StartOfLine \<Rightarrow> fst (line_char_bounds s before)
     | EndOfLine \<Rightarrow> snd (line_char_bounds s before)
     | MoveLeft \<Rightarrow> before - 1
     | MoveRight \<Rightarrow> min (before + 1) (length s)
     | MoveUp \<Rightarrow>
         (let start = fst (line_char_bounds s before)
          in if start > 0 then
               let column = before - start;
                   (previous_start, previous_end) = line_char_bounds s (start - 1)
               in previous_start + min column (previous_end - previous_start)
             else before)
     | MoveDown \<Rightarrow>
         (let (start, e) = line_char_bounds s before
          in if e < length s then
               let column = before - start;
                   next_start = e + 1;
                   next_end = snd (line_char_bounds s next_start)
               in next_start + min column (next_end - next_start)
             else before)
     | MoveUpWrapped width \<Rightarrow> wrapped_step cell_width s before width (-1)
     | MoveDownWrapped width \<Rightarrow> wrapped_step cell_width s before width 1
     | _ \<Rightarrow> before)"

definition insert_rejected :: "ustr \<Rightarrow> ustr \<Rightarrow> edit_policy \<Rightarrow> bool" where
  "insert_rejected s new policy \<longleftrightarrow>
     list_ex (\<lambda>c. is_control c \<and> \<not> (ep_multiline policy \<and> c = 10)) new
     \<or> (\<not> ep_multiline policy \<and> 10 \<in> set new)
     \<or> saturating_add_u64 (utf8_len s) (utf8_len new) > ep_max_bytes policy"

definition edit ::
  "(nat \<Rightarrow> nat option) \<Rightarrow> ustr \<Rightarrow> text_cursor \<Rightarrow> edit_command \<Rightarrow> edit_policy
    \<Rightarrow> (ustr \<times> text_cursor \<times> edit_outcome) option" where
  "edit cell_width s cursor0 command policy =
    (let cursor = clamp_cursor s cursor0;
         before = char_index cursor;
         stay = Some (s, cursor, outcome_moved False)
     in case command of
          Backspace \<Rightarrow>
            if before > 0 then do {
              s' \<leftarrow> replace_range s (byte_index s (before - 1)) (byte_index s before) [];
              Some (s', cursor\<lparr>char_index := before - 1\<rparr>, outcome_changed)
            } else stay
        | KillToEndOfLine \<Rightarrow>
            (let end_char = snd (line_char_bounds s before)
             in if end_char > before then do {
                  s' \<leftarrow> replace_range s (byte_index s before) (byte_index s end_char) [];
                  Some (s', cursor, outcome_changed)
                } else stay)
        | Insert new \<Rightarrow>
            if insert_rejected s new policy then Some (s, cursor, outcome_rejected)
            else if new \<noteq> [] then do {
              s' \<leftarrow> insert_str s (byte_index s before) new;
              Some (s', cursor\<lparr>char_index := before + length new\<rparr>, outcome_changed)
            } else stay
        | _ \<Rightarrow>
            let i = move_index cell_width s before command
            in Some (s, cursor\<lparr>char_index := i\<rparr>, outcome_moved (i \<noteq> before)))"

definition cursor_line_prefix :: "ustr \<Rightarrow> text_cursor \<Rightarrow> ustr" where
  "cursor_line_prefix s cursor =
    (let i = char_index (clamp_cursor s cursor);
         start = fst (line_char_bounds s i)
     in segment s start i)"

section \<open>Every edit is defined and keeps the cursor in the text\<close>

lemma line_char_bounds_ordered:
  assumes "line_char_bounds s i = (a, b)"
  shows "a \<le> min i (length s) \<and> min i (length s) \<le> b \<and> b \<le> length s"
proof -
  define m where "m = min i (length s)"
  have a: "a = (case find_index_opt (\<lambda>c. c = 10) (rev (take m s)) of None \<Rightarrow> 0 | Some k \<Rightarrow> m - k)"
    and b: "b = (case find_index_opt (\<lambda>c. c = 10) (drop m s) of None \<Rightarrow> length s | Some k \<Rightarrow> m + k)"
    using assms by (simp_all add: line_char_bounds_def Let_def flip: m_def)
  have "a \<le> m" by (simp add: a split: option.splits)
  moreover have "m \<le> b \<and> b \<le> length s"
  proof (cases "find_index_opt (\<lambda>c. c = 10) (drop m s)")
    case (Some k)
    then show ?thesis using find_index_opt_Some [OF Some] by (auto simp: b less_diff_conv)
  qed (simp add: b m_def)
  ultimately show ?thesis by (simp add: m_def)
qed

lemma wrap_char_positions:
  "length (ws_positions (wrap_char cw width s c)) = Suc (length (ws_positions s))"
  by (simp add: wrap_char_def wrap_row_def Let_def)

lemma wrapped_positions: "length (wr_cursor_positions (wrapped_text cw s width)) = Suc (length s)"
proof -
  have "length (ws_positions (foldl (wrap_char cw w) t s)) = length (ws_positions t) + length s" for w t
    by (induction s arbitrary: t) (simp_all add: wrap_char_positions)
  then show ?thesis by (simp add: wrapped_text_def wrap_start_def Let_def)
qed

lemma nearest_slot_range:
  "nearest_slot t col i ps best = Some b \<Longrightarrow> best = Some b \<or> (i \<le> b \<and> b < i + length ps)"
proof (induction t col i ps best rule: nearest_slot.induct)
  case (2 t col i r c ps best)
  then show ?case by (force split: if_splits)
qed simp

lemma wrapped_step_range: "i \<le> length s \<Longrightarrow> wrapped_step cw s i width delta \<le> length s"
  using nearest_slot_range [of _ _ 0 "wr_cursor_positions (wrapped_text cw s (max width 1))" None]
  by (fastforce simp: wrapped_step_def wrapped_positions Let_def split: prod.splits option.splits)

lemma move_index_range:
  assumes "i \<le> length s"
  shows "move_index cw s i command \<le> length s"
proof -
  have up: "fst (line_char_bounds s i) \<le> length s" "snd (line_char_bounds s i) \<le> length s" for i
    using line_char_bounds_ordered [of s i] by (cases "line_char_bounds s i"; force)+
  have shift: "a + min k (b - a) \<le> length s" if "line_char_bounds s j = (a, b)" for a b k j
    using line_char_bounds_ordered [OF that] by auto
  have next_line: "e + 1 + min k (snd (line_char_bounds s (e + 1)) - (e + 1)) \<le> length s"
    if "e < length s" for e k
    using line_char_bounds_ordered [of s "e + 1"] that by (cases "line_char_bounds s (e + 1)") auto
  show ?thesis
    using assms up shift next_line wrapped_step_range [of i s]
    by (auto simp: move_index_def Let_def split: edit_command.splits prod.splits)
qed

lemma edit_moves:
  assumes "command \<notin> {Backspace, KillToEndOfLine} \<union> range Insert"
  shows "edit cw s cursor command policy =
    (let before = min (char_index cursor) (length s);
         i = move_index cw s before command
     in Some (s, cursor\<lparr>char_index := i\<rparr>, outcome_moved (i \<noteq> before)))"
  using assms by (cases command) (simp_all add: edit_def clamp_cursor_def Let_def)

lemma edit_backspace:
  "edit cw s cursor Backspace policy =
    (let i = min (char_index cursor) (length s)
     in if 0 < i then Some (take (i - 1) s @ drop i s, cursor\<lparr>char_index := i - 1\<rparr>, outcome_changed)
        else Some (s, cursor\<lparr>char_index := i\<rparr>, outcome_moved False))"
proof -
  have "replace_range s (byte_index s (i - 1)) (byte_index s i) [] = Some (take (i - 1) s @ drop i s)" for i
    by (simp add: replace_range_index)
  then show ?thesis by (simp add: edit_def clamp_cursor_def Let_def)
qed

lemma edit_kill:
  "edit cw s cursor KillToEndOfLine policy =
    (let i = min (char_index cursor) (length s); e = snd (line_char_bounds s i)
     in if i < e then Some (take i s @ drop e s, cursor\<lparr>char_index := i\<rparr>, outcome_changed)
        else Some (s, cursor\<lparr>char_index := i\<rparr>, outcome_moved False))"
  by (simp add: edit_def clamp_cursor_def Let_def replace_range_index)

lemma edit_insert:
  "edit cw s cursor (Insert new) policy =
    (let i = min (char_index cursor) (length s)
     in if insert_rejected s new policy then Some (s, cursor\<lparr>char_index := i\<rparr>, outcome_rejected)
        else if new = [] then Some (s, cursor\<lparr>char_index := i\<rparr>, outcome_moved False)
        else Some (take i s @ new @ drop i s, cursor\<lparr>char_index := i + length new\<rparr>, outcome_changed))"
  by (simp add: edit_def clamp_cursor_def Let_def insert_str_index)

definition edit_ok ::
  "ustr \<Rightarrow> edit_policy \<Rightarrow> (ustr \<times> text_cursor \<times> edit_outcome) option \<Rightarrow> bool" where
  "edit_ok s policy r = (case r of None \<Rightarrow> False | Some (s', cursor, out) \<Rightarrow>
     char_index cursor \<le> length s' \<and> utf8_len s' \<le> max (utf8_len s) (ep_max_bytes policy)
     \<and> (eo_changed out \<or> s' = s) \<and> (eo_rejected out \<longrightarrow> s' = s)
     \<and> (\<not> ep_multiline policy \<and> 10 \<notin> set s \<longrightarrow> 10 \<notin> set s'))"

lemma utf8_len_cut: "i \<le> j \<Longrightarrow> utf8_len (take i s @ drop j s) \<le> utf8_len s"
proof -
  assume "i \<le> j"
  then obtain d where "j = i + d" using le_Suc_ex by blast
  then have "s = take i s @ take d (drop i s) @ drop j s" by (metis append_take_drop_id drop_drop add.commute)
  then have "utf8_len s = utf8_len (take i s) + utf8_len (take d (drop i s)) + utf8_len (drop j s)"
    by (metis utf8_len_simps(3) add.assoc)
  then show ?thesis by simp
qed

lemma edit_ok_cut:
  "i \<le> j \<Longrightarrow> i \<le> length s \<Longrightarrow>
    edit_ok s policy (Some (take i s @ drop j s, cursor\<lparr>char_index := i\<rparr>, outcome_changed))"
  using utf8_len_cut [of i j s]
  by (auto simp: edit_ok_def outcome_changed_def dest: in_set_takeD in_set_dropD)

text \<open>No edit command ever slices a string off a character boundary: every command on every
  text, cursor and policy returns; the cursor it leaves is within the text, the text is no longer
  than before or than the policy allows, it changes only when the outcome says so, and a single-line
  field stays one line.\<close>

theorem edit_total_and_bounded:
  assumes "ep_max_bytes policy < u64_max"
  shows "\<exists>s' cursor' out. edit cell_width s cursor command policy = Some (s', cursor', out)
    \<and> char_index cursor' \<le> length s' \<and> utf8_len s' \<le> max (utf8_len s) (ep_max_bytes policy)
    \<and> (eo_changed out \<or> s' = s) \<and> (eo_rejected out \<longrightarrow> s' = s)
    \<and> (\<not> ep_multiline policy \<and> 10 \<notin> set s \<longrightarrow> 10 \<notin> set s')"
proof -
  define i where "i = min (char_index cursor) (length s)"
  have i: "i \<le> length s" by (simp add: i_def)
  have stay: "edit_ok s policy (Some (s, cursor\<lparr>char_index := j\<rparr>, out))"
    if "j \<le> length s" for j out
    using that by (simp add: edit_ok_def)
  have "edit_ok s policy (edit cell_width s cursor command policy)"
  proof (cases command)
    case (Insert new)
    have "utf8_len (take i s @ new @ drop i s) = utf8_len s + utf8_len new"
      by (metis append_take_drop_id utf8_len_simps(3) add.assoc add.commute)
    moreover have "utf8_len s + utf8_len new \<le> ep_max_bytes policy" if "\<not> insert_rejected s new policy"
      using that assms by (auto simp: insert_rejected_def saturating_add_u64_def)
    moreover have "10 \<notin> set new" if "\<not> insert_rejected s new policy" "\<not> ep_multiline policy"
      using that by (auto simp: insert_rejected_def)
    ultimately have "edit_ok s policy (Some (take i s @ new @ drop i s,
        cursor\<lparr>char_index := i + length new\<rparr>, outcome_changed))" if "\<not> insert_rejected s new policy"
      using that i by (auto simp: edit_ok_def outcome_changed_def dest: in_set_takeD in_set_dropD)
    then show ?thesis
      using stay [OF i] by (simp add: Insert edit_insert i_def [symmetric] Let_def)
  next
    case Backspace
    then show ?thesis
      using stay [OF i] stay [of 0] edit_ok_cut [of "i - 1" i s policy cursor] i
      by (simp add: edit_backspace i_def [symmetric] Let_def)
  next
    case KillToEndOfLine
    then show ?thesis
      using stay [OF i] edit_ok_cut [of i "snd (line_char_bounds s i)" s policy cursor] i
      by (simp add: edit_kill i_def [symmetric] Let_def)
  qed (use stay [OF move_index_range [OF i]] in \<open>simp_all add: edit_moves image_iff i_def [symmetric] Let_def\<close>)
  then show ?thesis by (auto simp: edit_ok_def split: option.splits)
qed

lemma edit_total_and_bounded_witness:
  "\<exists>s' cursor' out. edit (\<lambda>c. Some 1) [945, 98] \<lparr>char_index = 9\<rparr> (Insert [99])
        \<lparr>ep_max_bytes = 8, ep_multiline = False\<rparr> = Some (s', cursor', out)
    \<and> char_index cursor' \<le> length s' \<and> utf8_len s' \<le> 8 \<and> 10 \<notin> set s'"
  using edit_total_and_bounded [of "\<lparr>ep_max_bytes = 8, ep_multiline = False\<rparr>" "\<lambda>c. Some 1" "[945, 98]"
      "\<lparr>char_index = 9\<rparr>" "Insert [99]"]
  by (auto simp: u64_max_def utf8_len_def char_utf8_len_def)

section \<open>The bank of cursors\<close>

text \<open>At most forty-eight targets are remembered, each once, and the least recently used goes
  first.\<close>

definition bank_ok :: "cursor_bank \<Rightarrow> bool" where
  "bank_ok slots \<longleftrightarrow> distinct (map fst slots) \<and> length slots \<le> max_cursor_slots"

lemma bank_evict_ok:
  "bank_ok slots \<Longrightarrow> target \<notin> fst ` set slots \<Longrightarrow> bank_ok (bank_evict slots @ [(target, c)])"
  by (cases slots) (auto simp: bank_ok_def bank_evict_def max_cursor_slots_def)

lemma find_slot_None:
  "find_index_opt (\<lambda>(saved, _). saved = target) slots = None \<longleftrightarrow> target \<notin> fst ` set slots"
  by (induction slots) auto

lemma store_first_None: "store_first target c slots = None \<longleftrightarrow> target \<notin> fst ` set slots"
  by (induction target c slots rule: store_first.induct) auto

lemma store_first_keys: "store_first target c slots = Some slots' \<Longrightarrow> map fst slots' = map fst slots"
  by (induction target c slots arbitrary: slots' rule: store_first.induct) (auto split: if_splits)

lemma bank_store_ok:
  assumes "bank_ok slots"
  shows "bank_ok (bank_store target c slots)"
proof (cases "store_first target c slots")
  case None
  then have "target \<notin> fst ` set slots" by (simp add: store_first_None)
  then show ?thesis using None assms by (simp add: bank_store_def bank_evict_ok)
next
  case (Some slots')
  note assms
  moreover have "length slots' = length slots"
    using arg_cong [OF store_first_keys [OF Some], of length] by simp
  ultimately show ?thesis using store_first_keys [OF Some] Some by (simp add: bank_store_def bank_ok_def)
qed

lemma get_or_end_ok:
  assumes "bank_ok slots" "get_or_end target s slots = (cursor, slots')"
  shows "bank_ok slots' \<and> char_index cursor \<le> length s \<and> last slots' = (target, cursor)"
proof (cases "find_index_opt (\<lambda>(saved, _). saved = target) slots")
  case None
  then have "target \<notin> fst ` set slots" by (simp add: find_slot_None)
  then show ?thesis
    using None assms bank_evict_ok [of slots target cursor]
    by (auto simp: get_or_end_def reset_cursor_to_end_def Let_def)
next
  case (Some i)
  have i: "i < length slots" "fst (slots ! i) = target"
    using find_index_opt_Some [OF Some] by (auto simp: case_prod_unfold)
  have split: "slots = take i slots @ slots ! i # drop (i + 1) slots"
    using i(1) by (simp add: id_take_nth_drop)
  have "distinct (map fst (take i slots @ slots ! i # drop (i + 1) slots))"
    using assms(1) split by (simp add: bank_ok_def)
  moreover have "length slots' = length slots"
    using assms(2) Some i(1) by (auto simp: get_or_end_def Let_def)
  ultimately show ?thesis
    using assms Some i
    by (auto simp: get_or_end_def bank_ok_def clamp_cursor_def Let_def)
qed

section \<open>Columns of a scrolled cell\<close>

record scroll_state =
  sc_result :: ustr
  sc_position :: nat
  sc_written :: nat
  sc_visible_base :: bool

fun scroll_loop :: "(nat \<Rightarrow> nat option) \<Rightarrow> nat \<Rightarrow> nat \<Rightarrow> ustr \<Rightarrow> scroll_state \<Rightarrow> scroll_state" where
  "scroll_loop cell_width offset width [] s = s"
| "scroll_loop cell_width offset width (c # cs) s =
    (if is_control c then scroll_loop cell_width offset width cs s
     else
       let columns = (case cell_width c of None \<Rightarrow> 0 | Some n \<Rightarrow> n) in
       if columns = 0 then
         scroll_loop cell_width offset width cs
           (if sc_visible_base s then s\<lparr>sc_result := sc_result s @ [c]\<rparr> else s)
       else
         let start = sc_position s;
             position = saturating_add_u64 start columns;
             s1 = s\<lparr>sc_position := position\<rparr>
         in if position \<le> offset then
              scroll_loop cell_width offset width cs (s1\<lparr>sc_visible_base := False\<rparr>)
            else if start < offset then
              let remaining = position - offset
              in if saturating_add_u64 (sc_written s) remaining > width then s1
                 else scroll_loop cell_width offset width cs
                   (s1\<lparr>sc_result := sc_result s @ replicate remaining 32,
                       sc_written := sc_written s + remaining, sc_visible_base := False\<rparr>)
            else if saturating_add_u64 (sc_written s) columns > width then s1
            else scroll_loop cell_width offset width cs
              (s1\<lparr>sc_result := sc_result s @ [c], sc_written := sc_written s + columns,
                  sc_visible_base := True\<rparr>))"

definition scroll_columns :: "(nat \<Rightarrow> nat option) \<Rightarrow> ustr \<Rightarrow> nat \<Rightarrow> nat \<Rightarrow> ustr" where
  "scroll_columns cell_width s offset width =
    (if width = 0 then []
     else sc_result (scroll_loop cell_width offset width s
       \<lparr>sc_result = [], sc_position = 0, sc_written = 0, sc_visible_base = False\<rparr>))"

text \<open>The columns a text takes on the terminal.\<close>

definition text_columns :: "(nat \<Rightarrow> nat option) \<Rightarrow> ustr \<Rightarrow> nat" where
  "text_columns cell_width s = sum_list (map (\<lambda>c. case cell_width c of None \<Rightarrow> 0 | Some n \<Rightarrow> n) s)"

lemma text_columns_simps [simp]:
  "text_columns w [] = 0"
  "text_columns w (c # s) = (case w c of None \<Rightarrow> 0 | Some n \<Rightarrow> n) + text_columns w s"
  "text_columns w (s @ t) = text_columns w s + text_columns w t"
  by (simp_all add: text_columns_def)

lemma text_columns_spaces: "w 32 = Some 1 \<Longrightarrow> text_columns w (replicate n 32) = n"
  by (induction n) auto

lemma scroll_loop_fits:
  assumes "w 32 = Some 1" "width < u64_max"
    "text_columns w (sc_result s) = sc_written s" "sc_written s \<le> width"
  shows "text_columns w (sc_result (scroll_loop w offset width cs s)) \<le> width"
  using assms
proof (induction w offset width cs s rule: scroll_loop.induct)
  case (2 w offset width c cs s)
  have sat: "\<not> saturating_add_u64 a b > width \<Longrightarrow> a + b \<le> width" for a b
    using "2.prems"(2) by (simp add: saturating_add_u64_def min_def split: if_splits)
  define columns where "columns = (case w c of None \<Rightarrow> 0 | Some n \<Rightarrow> n)"
  define position where "position = saturating_add_u64 (sc_position s) columns"
  consider "is_control c" | "\<not> is_control c" "columns = 0"
    | "\<not> is_control c" "0 < columns" "position \<le> offset"
    | "\<not> is_control c" "0 < columns" "\<not> position \<le> offset" "sc_position s < offset"
    | "\<not> is_control c" "0 < columns" "\<not> position \<le> offset" "\<not> sc_position s < offset"
    by blast
  then show ?case
  proof cases
    case 1
    then show ?thesis using "2.IH"(1) "2.prems" by simp
  next
    case 2
    then show ?thesis
      using "2.IH"(2) [OF _ columns_def] "2.prems" by (simp add: columns_def Let_def split: option.splits)
  next
    case 3
    then show ?thesis
      using "2.IH"(3) [OF _ columns_def _ refl position_def refl] "2.prems"
      by (simp add: columns_def position_def Let_def)
  next
    case 4
    then show ?thesis
      using "2.IH"(4) [OF _ columns_def _ refl position_def refl] "2.prems" sat [of "sc_written s" "position - offset"]
      by (auto simp: columns_def [symmetric] position_def [symmetric] text_columns_spaces Let_def)
  next
    case 5
    then show ?thesis
      using "2.IH"(5) [OF _ columns_def _ refl position_def refl] "2.prems" sat [of "sc_written s" columns]
      by (auto simp: columns_def [symmetric] position_def [symmetric] Let_def)
  qed
qed simp

lemma scroll_columns_fit:
  "w 32 = Some 1 \<Longrightarrow> width < u64_max \<Longrightarrow> text_columns w (scroll_columns w s offset width) \<le> width"
  by (simp add: scroll_columns_def scroll_loop_fits)

end
