(* ===== verification/Storage_Pressure.thy ===== *)
theory Storage_Pressure
  imports Prelude
begin

text \<open>
  The cache-pressure policy of \<open>lvu-app/src/storage/pressure.rs\<close>: which class of data may be
  reclaimed, and the escalation from reclaiming caches to stopping acquisition.

  An explanation shown to the user is the facts it prints, its template by constructor; the
  rendering of sizes is text only.
\<close>

datatype durability = Disposable | Durable

datatype cache_class = RowCache | QueryMembership | DerivedIndex | RawCapture | CommandEnrichment
  | InvestigationExport | Workspace

definition class_durability :: "cache_class \<Rightarrow> durability" where
  "class_durability c =
    (if c \<in> {RowCache, QueryMembership, DerivedIndex} then Disposable else Durable)"

record cache_usage =
  cu_class :: cache_class
  cu_bytes :: nat
  cu_limit :: "nat option"
  cu_reclaimable_bytes :: nat
  cu_durability :: durability

definition cache_usage_new :: "cache_class \<Rightarrow> nat \<Rightarrow> nat option \<Rightarrow> nat \<Rightarrow> cache_usage" where
  "cache_usage_new c bytes limit reclaimable =
    \<lparr>cu_class = c, cu_bytes = bytes, cu_limit = limit,
     cu_reclaimable_bytes = (case class_durability c of Disposable \<Rightarrow> reclaimable | Durable \<Rightarrow> 0),
     cu_durability = class_durability c\<rparr>"

record disk_space =
  ds_total_bytes :: nat
  ds_available_bytes :: nat

record pressure_inputs =
  pi_disk :: "disk_space option"
  pi_reserve_bytes :: nat
  pi_derived_index_bytes :: nat
  pi_derived_index_limit :: nat
  pi_row_cache_bytes :: nat
  pi_row_cache_limit :: nat
  pi_membership_bytes :: nat
  pi_membership_limit :: nat
  pi_reclaimable_disk_bytes :: nat

datatype pressure_level = Normal | ReclaimCache | Backpressure | StopAcquisition

datatype explanation =
    WithinBudgets
  | DiskUnknown bool
  | AboveReserve nat nat bool
  | ReclaimRestores nat nat nat
  | ReclaimFallsShort nat nat nat
  | StorageFull nat nat

record pressure_decision =
  pd_level :: pressure_level
  pd_reclaim :: "cache_class list"
  pd_acquisition_error :: "explanation option"
  pd_explanation :: explanation
  pd_free_after_reclaim_bytes :: "nat option"

definition pressure_decision_default :: pressure_decision where
  "pressure_decision_default = \<lparr>pd_level = Normal, pd_reclaim = [], pd_acquisition_error = None,
     pd_explanation = WithinBudgets, pd_free_after_reclaim_bytes = None\<rparr>"

text \<open>The classes over their own budget, in the order the code pushes them.\<close>

definition over_budget :: "pressure_inputs \<Rightarrow> cache_class list" where
  "over_budget i =
    (if pi_derived_index_limit i > 0 \<and> pi_derived_index_bytes i > pi_derived_index_limit i
     then [DerivedIndex] else [])
    @ (if pi_row_cache_limit i > 0 \<and> pi_row_cache_bytes i > pi_row_cache_limit i
       then [RowCache] else [])
    @ (if pi_membership_limit i > 0 \<and> pi_membership_bytes i > pi_membership_limit i
       then [QueryMembership] else [])"

definition assess_pressure :: "pressure_inputs \<Rightarrow> pressure_decision" where
  "assess_pressure i =
    (let reclaim = over_budget i in
     case pi_disk i of
       None \<Rightarrow>
         \<lparr>pd_level = (if reclaim = [] then Normal else ReclaimCache), pd_reclaim = reclaim,
          pd_acquisition_error = None, pd_explanation = DiskUnknown (reclaim \<noteq> []),
          pd_free_after_reclaim_bytes = None\<rparr>
     | Some disk \<Rightarrow>
         let available = ds_available_bytes disk; reserve = pi_reserve_bytes i in
         if available \<ge> reserve then
           \<lparr>pd_level = (if reclaim = [] then Normal else ReclaimCache), pd_reclaim = reclaim,
            pd_acquisition_error = None,
            pd_explanation = AboveReserve available reserve (reclaim \<noteq> []),
            pd_free_after_reclaim_bytes = Some available\<rparr>
         else
           let reclaim1 = (if DerivedIndex \<notin> set reclaim \<and> pi_reclaimable_disk_bytes i > 0
                           then DerivedIndex # reclaim else reclaim);
               after = saturating_add_u64 available (pi_reclaimable_disk_bytes i)
           in if after \<ge> reserve then
                \<lparr>pd_level = ReclaimCache, pd_reclaim = reclaim1, pd_acquisition_error = None,
                 pd_explanation = ReclaimRestores available reserve (pi_reclaimable_disk_bytes i),
                 pd_free_after_reclaim_bytes = Some after\<rparr>
              else if pi_reclaimable_disk_bytes i > 0 then
                \<lparr>pd_level = Backpressure, pd_reclaim = reclaim1, pd_acquisition_error = None,
                 pd_explanation = ReclaimFallsShort available reserve after,
                 pd_free_after_reclaim_bytes = Some after\<rparr>
              else
                let message = StorageFull available reserve
                in \<lparr>pd_level = StopAcquisition, pd_reclaim = reclaim1,
                    pd_acquisition_error = Some message, pd_explanation = message,
                    pd_free_after_reclaim_bytes = Some after\<rparr>)"

section \<open>The escalation never skips a step\<close>

lemma over_budget_classes: "set (over_budget i) \<subseteq> {DerivedIndex, RowCache, QueryMembership}"
  by (auto simp: over_budget_def)

text \<open>The level as a function of what is known, without the decision.\<close>

definition pressure_level_spec :: "pressure_inputs \<Rightarrow> pressure_level" where
  "pressure_level_spec i =
    (let short = (case pi_disk i of None \<Rightarrow> False | Some d \<Rightarrow> ds_available_bytes d < pi_reserve_bytes i);
         restores = (case pi_disk i of None \<Rightarrow> False | Some d \<Rightarrow>
           pi_reserve_bytes i \<le> saturating_add_u64 (ds_available_bytes d) (pi_reclaimable_disk_bytes i))
     in if \<not> short then (if over_budget i = [] then Normal else ReclaimCache)
        else if restores then ReclaimCache
        else if pi_reclaimable_disk_bytes i > 0 then Backpressure
        else StopAcquisition)"

lemma assess_reclaim:
  "set (pd_reclaim (assess_pressure i)) \<subseteq> {DerivedIndex, RowCache, QueryMembership}"
  "distinct (pd_reclaim (assess_pressure i))"
proof -
  have d: "distinct (over_budget i)" by (simp add: over_budget_def)
  have "pd_reclaim (assess_pressure i) = over_budget i
    \<or> pd_reclaim (assess_pressure i) = DerivedIndex # over_budget i \<and> DerivedIndex \<notin> set (over_budget i)"
    by (cases "pi_disk i") (simp_all add: assess_pressure_def Let_def)
  then show "set (pd_reclaim (assess_pressure i)) \<subseteq> {DerivedIndex, RowCache, QueryMembership}"
    "distinct (pd_reclaim (assess_pressure i))"
    using d over_budget_classes [of i] by (elim disjE; auto)+
qed

lemma assess_level: "pd_level (assess_pressure i) = pressure_level_spec i"
  by (cases "pi_disk i") (auto simp: assess_pressure_def pressure_level_spec_def Let_def)

lemma assess_error:
  "pd_acquisition_error (assess_pressure i) \<noteq> None \<longleftrightarrow> pd_level (assess_pressure i) = StopAcquisition"
  by (cases "pi_disk i") (auto simp: assess_pressure_def Let_def)

lemma level_stop:
  "pressure_level_spec i = StopAcquisition \<longleftrightarrow>
    (\<exists>d. pi_disk i = Some d \<and> ds_available_bytes d < pi_reserve_bytes i \<and> pi_reclaimable_disk_bytes i = 0)"
  by (cases "pi_disk i") (auto simp: pressure_level_spec_def saturating_add_u64_def Let_def)

lemma short_reclaims_index:
  "pd_level (assess_pressure i) = Backpressure \<Longrightarrow> DerivedIndex \<in> set (pd_reclaim (assess_pressure i))"
  by (cases "pi_disk i") (auto simp: assess_pressure_def Let_def split: if_splits)

text \<open>Pressure never touches captured data and escalates one step at a time: only disposable
  classes are ever reclaimed, none twice; acquisition stops, and its error is shown, exactly when the
  disk is below the reserve and nothing disposable is left on it; while it is only slowed, the
  disposable indexes are being reclaimed.\<close>

theorem pressure_escalates_in_order:
  "(\<forall>c \<in> set (pd_reclaim (assess_pressure i)). class_durability c = Disposable)
    \<and> distinct (pd_reclaim (assess_pressure i))
    \<and> pd_level (assess_pressure i) = pressure_level_spec i
    \<and> (pd_acquisition_error (assess_pressure i) \<noteq> None \<longleftrightarrow> pd_level (assess_pressure i) = StopAcquisition)
    \<and> (pd_level (assess_pressure i) = StopAcquisition \<longleftrightarrow>
        (\<exists>d. pi_disk i = Some d \<and> ds_available_bytes d < pi_reserve_bytes i
          \<and> pi_reclaimable_disk_bytes i = 0))
    \<and> (pd_level (assess_pressure i) = Backpressure \<longrightarrow>
        DerivedIndex \<in> set (pd_reclaim (assess_pressure i)))"
  using assess_reclaim [of i] assess_level [of i] assess_error [of i] level_stop [of i]
    short_reclaims_index [of i]
  by (auto simp: class_durability_def)

lemma pressure_escalates_in_order_witness:
  "pd_level (assess_pressure \<lparr>pi_disk = Some \<lparr>ds_total_bytes = 9, ds_available_bytes = 1\<rparr>,
      pi_reserve_bytes = 4, pi_derived_index_bytes = 0, pi_derived_index_limit = 0, pi_row_cache_bytes = 3,
      pi_row_cache_limit = 2, pi_membership_bytes = 0, pi_membership_limit = 0,
      pi_reclaimable_disk_bytes = 2\<rparr>) = Backpressure
   \<and> DerivedIndex \<in> set (pd_reclaim (assess_pressure \<lparr>pi_disk = Some \<lparr>ds_total_bytes = 9, ds_available_bytes = 1\<rparr>,
      pi_reserve_bytes = 4, pi_derived_index_bytes = 0, pi_derived_index_limit = 0, pi_row_cache_bytes = 3,
      pi_row_cache_limit = 2, pi_membership_bytes = 0, pi_membership_limit = 0,
      pi_reclaimable_disk_bytes = 2\<rparr>))"
    (is "pd_level (assess_pressure ?i) = _ \<and> _")
  using pressure_escalates_in_order [of ?i]
  by (simp add: pressure_level_spec_def saturating_add_u64_def u64_max_def)

end
