(* ===== verification/Result_State.thy ===== *)
theory Result_State
  imports Main
begin

text \<open>
  Fallible operations on a state, the shape of every Rust method that takes \<open>&mut self\<close> and returns
  a \<open>Result\<close>: sequencing with the early return of the question mark, and the rules by which an
  invariant is carried through it.  A failed operation keeps the state it had reached.
\<close>

type_synonym ('s, 'e, 'a) action = "'s \<Rightarrow> ('e + 'a) \<times> 's"

definition ok :: "'a \<Rightarrow> ('s, 'e, 'a) action" where
  "ok x = (\<lambda>s. (Inr x, s))"

definition throw :: "'e \<Rightarrow> ('s, 'e, 'a) action" where
  "throw e = (\<lambda>s. (Inl e, s))"

definition update :: "('s \<Rightarrow> 's) \<Rightarrow> ('s, 'e, unit) action" where
  "update f = (\<lambda>s. (Inr (), f s))"

definition and_then :: "('s, 'e, 'a) action \<Rightarrow> ('a \<Rightarrow> ('s, 'e, 'b) action) \<Rightarrow> ('s, 'e, 'b) action" where
  "and_then m f = (\<lambda>s. case m s of (Inl e, t) \<Rightarrow> (Inl e, t) | (Inr x, t) \<Rightarrow> f x t)"

definition before :: "('s, 'e, 'a) action \<Rightarrow> ('s, 'e, 'b) action \<Rightarrow> ('s, 'e, 'b) action" where
  "before m n = and_then m (\<lambda>_. n)"

definition with_state :: "('s \<Rightarrow> ('s, 'e, 'a) action) \<Rightarrow> ('s, 'e, 'a) action" where
  "with_state f = (\<lambda>s. f s s)"

definition when_ok :: "bool \<Rightarrow> ('s, 'e, unit) action \<Rightarrow> ('s, 'e, unit) action" where
  "when_ok b m = (if b then m else ok ())"

lemmas action_defs = ok_def throw_def update_def and_then_def before_def with_state_def when_ok_def

section \<open>Carrying invariants\<close>

text \<open>\<open>run_ok P m Q E\<close>: from a state of \<open>P\<close>, \<open>m\<close> returns into \<open>Q\<close> or fails into \<open>E\<close>.\<close>

definition run_ok :: "('s \<Rightarrow> bool) \<Rightarrow> ('s, 'e, 'a) action \<Rightarrow> ('a \<Rightarrow> 's \<Rightarrow> bool) \<Rightarrow> ('s \<Rightarrow> bool) \<Rightarrow> bool" where
  "run_ok P m Q E \<longleftrightarrow> (\<forall>s. P s \<longrightarrow> (case m s of (Inl e, t) \<Rightarrow> E t | (Inr x, t) \<Rightarrow> Q x t))"

named_theorems run_rules

lemma run_okI: "(\<And>s r t. P s \<Longrightarrow> m s = (r, t) \<Longrightarrow> (case r of Inl e \<Rightarrow> E t | Inr x \<Rightarrow> Q x t)) \<Longrightarrow> run_ok P m Q E"
  by (fastforce simp: run_ok_def split: prod.splits sum.splits)

lemma run_okD: "run_ok P m Q E \<Longrightarrow> P s \<Longrightarrow> m s = (r, t) \<Longrightarrow> (case r of Inl e \<Rightarrow> E t | Inr x \<Rightarrow> Q x t)"
  by (fastforce simp: run_ok_def split: sum.splits)

lemma run_ok_ok [run_rules]: "(\<And>s. P s \<Longrightarrow> Q x s) \<Longrightarrow> run_ok P (ok x) Q E"
  by (simp add: run_ok_def ok_def)

lemma run_ok_throw [run_rules]: "(\<And>s. P s \<Longrightarrow> E s) \<Longrightarrow> run_ok P (throw e) Q E"
  by (simp add: run_ok_def throw_def)

lemma run_ok_update [run_rules]: "(\<And>s. P s \<Longrightarrow> Q () (f s)) \<Longrightarrow> run_ok P (update f) Q E"
  by (simp add: run_ok_def update_def)

lemma run_ok_and_then:
  "run_ok P m R E \<Longrightarrow> (\<And>x. run_ok (R x) (f x) Q E) \<Longrightarrow> run_ok P (and_then m f) Q E"
  by (fastforce simp: run_ok_def and_then_def split: prod.splits sum.splits)

lemma run_ok_before:
  "run_ok P m (\<lambda>_. R) E \<Longrightarrow> run_ok R n Q E \<Longrightarrow> run_ok P (before m n) Q E"
  unfolding before_def by (rule run_ok_and_then)

lemma run_ok_with_state [run_rules]:
  "(\<And>s0. P s0 \<Longrightarrow> run_ok (\<lambda>s. P s \<and> s = s0) (f s0) Q E) \<Longrightarrow> run_ok P (with_state f) Q E"
  by (simp add: run_ok_def with_state_def)

lemma run_ok_when [run_rules]:
  "(b \<Longrightarrow> run_ok P m (\<lambda>_. Q) E) \<Longrightarrow> (\<And>s. \<not> b \<Longrightarrow> P s \<Longrightarrow> Q s) \<Longrightarrow> run_ok P (when_ok b m) (\<lambda>_. Q) E"
  by (simp add: when_ok_def run_ok_def ok_def)

lemma run_ok_if [run_rules]:
  "(b \<Longrightarrow> run_ok P m Q E) \<Longrightarrow> (\<not> b \<Longrightarrow> run_ok P n Q E) \<Longrightarrow> run_ok P (if b then m else n) Q E"
  by simp

lemma run_ok_conseq:
  "run_ok P' m Q' E' \<Longrightarrow> (\<And>s. P s \<Longrightarrow> P' s) \<Longrightarrow> (\<And>x s. Q' x s \<Longrightarrow> Q x s) \<Longrightarrow> (\<And>s. E' s \<Longrightarrow> E s)
    \<Longrightarrow> run_ok P m Q E"
  by (fastforce simp: run_ok_def split: prod.splits sum.splits)

lemma run_ok_pre: "run_ok P' m Q E \<Longrightarrow> (\<And>s. P s \<Longrightarrow> P' s) \<Longrightarrow> run_ok P m Q E"
  by (simp add: run_ok_def)

lemma run_ok_assuming: "(\<And>s. P s \<Longrightarrow> run_ok P m Q E) \<Longrightarrow> run_ok P m Q E"
  by (auto simp: run_ok_def)

text \<open>The two actions one after the other, run on a state.\<close>

lemma and_then_Inr:
  "and_then m f s = (Inr y, t) \<longleftrightarrow> (\<exists>x u. m s = (Inr x, u) \<and> f x u = (Inr y, t))"
  by (auto simp: and_then_def split: prod.splits sum.splits)

lemma before_Inr:
  "before m n s = (Inr y, t) \<longleftrightarrow> (\<exists>x u. m s = (Inr x, u) \<and> n u = (Inr y, t))"
  by (simp add: before_def and_then_Inr)

lemma before_assoc: "before (before m n) p = before m (before n p)"
  by (auto simp: before_def and_then_def fun_eq_iff split: prod.splits sum.splits)

end
