(* ===== verification/Ingest_Writer.thy ===== *)
theory Ingest_Writer
  imports Journal_Writer Capture Result_State
begin

text \<open>
  The writer of one source, \<open>crates/lvu-ingest/src/writer.rs\<close>: the group commit that decides when
  appended records become durable and when the file cursor may follow them, the batches, the other
  capture events, page service, the end of a run, and the loop \<open>run_writer\<close>.  The durable cursor is
  that of \<open>cursor.rs\<close>.

  What the operating system answers is \<open>writer_env\<close>: the outcome of the n-th call.  The loop is
  driven by its wakes; the queue of capture events is first in, first out, and a wake says how many
  of the queued events the loop can see.  An error is what it is about.
\<close>

section \<open>The durable cursor\<close>

record durable_file_cursor =
  dc_schema_version :: nat
  dc_source :: source_id
  dc_path :: string
  dc_acquisition :: uuid
  dc_journal_offset :: nat
  dc_file :: file_resume_cursor
  dc_encoding :: file_encoding

section \<open>Progress, catalogue and errors\<close>

datatype runtime_state = RuntimeStarting | RuntimeRunning | RuntimeStopping | RuntimeStopped
  | RuntimeAborting | RuntimeAborted | RuntimeIncomplete | RuntimeStorageBlocked | RuntimeErrored

datatype runtime_error = StorageLimit nat | RuntimeClosed | RuntimeIo string
  | RuntimeJournal journal_error

datatype progress_error = CaptureReported string | LimitReached nat | ChannelClosed
  | WriterFailed runtime_error

record source_progress =
  sp_source :: source_id
  sp_generation :: nat
  sp_state :: runtime_state
  sp_records :: nat
  sp_high_watermark :: "record_id option"
  sp_journal_bytes :: nat
  sp_synced_records :: nat
  sp_syncs :: nat
  sp_handovers :: nat
  sp_writer_cpu_nanos :: nat
  sp_reader_cpu_nanos :: nat
  sp_boundaries :: nat
  sp_exit_code :: "int option"
  sp_discarded_bytes :: nat
  sp_discarded_bytes_known :: bool
  sp_last_error :: "progress_error option"

datatype catalog_event = CatalogStarting nat | CatalogRunning | CatalogStartFailed string
  | CatalogBoundary uuid string | CatalogCommandExit uuid "int option" bool
  | CatalogError uuid string | CatalogStorageBlocked nat nat bool | CatalogStopped
  | CatalogAborted nat bool | CatalogIncomplete nat bool string

record runtime_config =
  cf_batch_records :: nat
  cf_sync_every_records :: nat
  cf_sync_interval :: nat
  cf_max_page_records :: nat
  cf_max_page_bytes :: nat
  cf_storage_limit_bytes :: "nat option"

section \<open>The state of a writer\<close>

record commit_policy =
  cm_every_records :: nat
  cm_interval :: nat
  cm_since_sync :: nat
  cm_last :: nat
  cm_pending_cursor :: "durable_file_cursor option"
  cm_pending_cursor_path :: "string option"

definition commit_new :: "runtime_config \<Rightarrow> nat \<Rightarrow> commit_policy" where
  "commit_new config now =
    \<lparr>cm_every_records = cf_sync_every_records config, cm_interval = cf_sync_interval config,
     cm_since_sync = 0, cm_last = now, cm_pending_cursor = None, cm_pending_cursor_path = None\<rparr>"

definition commit_appended :: "nat \<Rightarrow> commit_policy \<Rightarrow> commit_policy" where
  "commit_appended records c = c\<lparr>cm_since_sync := saturating_add_u64 (cm_since_sync c) records\<rparr>"

definition outstanding :: "commit_policy \<Rightarrow> bool" where
  "outstanding c \<longleftrightarrow> cm_since_sync c > 0 \<or> cm_pending_cursor c \<noteq> None"

definition commit_due :: "nat \<Rightarrow> commit_policy \<Rightarrow> bool" where
  "commit_due now c \<longleftrightarrow> outstanding c
     \<and> (cm_since_sync c \<ge> cm_every_records c \<or> now - cm_last c \<ge> cm_interval c)"

definition commit_deadline :: "nat \<Rightarrow> commit_policy \<Rightarrow> nat option" where
  "commit_deadline now c =
    (if outstanding c then Some (cm_interval c - (now - cm_last c)) else None)"

definition defer_cursor :: "string \<Rightarrow> durable_file_cursor \<Rightarrow> commit_policy \<Rightarrow> commit_policy" where
  "defer_cursor path cursor c =
    c\<lparr>cm_pending_cursor_path := Some path, cm_pending_cursor := Some cursor\<rparr>"

record file_cursor_writer =
  fc_cursor_path :: string
  fc_source_path :: string
  fc_durable :: "durable_file_cursor option"

text \<open>The writer's own fields; then what it acts on: the disk, the cursor file as a reader sees it
  and as a crash leaves it, the catalogue, what it published and the replies it sent; then the
  number of calls made, and the events taken from the queue so far, which only the proofs read.\<close>

record writer_state =
  ws_journal :: journal
  ws_current :: source_progress
  ws_file_cursor :: "file_cursor_writer option"
  ws_commit :: commit_policy
  ws_disk :: disk
  ws_cursor_visible :: "durable_file_cursor option"
  ws_cursor_stable :: "durable_file_cursor option"
  ws_catalog :: "catalog_event list"
  ws_published :: source_progress
  ws_replies :: "(runtime_error + journal_page) list"
  ws_finish_replies :: "(runtime_error + unit) list"
  ws_calls :: nat
  ws_taken :: "capture_event list"

record writer_env =
  we_crc :: "byte list \<Rightarrow> 32 word"
  we_append :: "nat \<Rightarrow> append_io"
  we_flush :: "nat \<Rightarrow> nat option \<times> bool"
  we_sync :: "nat \<Rightarrow> nat option \<times> bool"
  we_page :: "nat \<Rightarrow> nat option"
  we_store :: "nat \<Rightarrow> watermark_io"
  we_catalog :: "nat \<Rightarrow> bool"
  we_now :: "nat \<Rightarrow> nat"
  we_cpu :: "nat \<Rightarrow> nat"
  we_visible :: "nat \<Rightarrow> runtime_state"

type_synonym 'a writer = "(writer_state, runtime_error, 'a) action"

definition answer :: "(nat \<Rightarrow> 'b) \<Rightarrow> 'b writer" where
  "answer f = (\<lambda>s. (Inr (f (ws_calls s)), s\<lparr>ws_calls := ws_calls s + 1\<rparr>))"

definition set_current :: "(source_progress \<Rightarrow> source_progress) \<Rightarrow> unit writer" where
  "set_current f = update (\<lambda>s. s\<lparr>ws_current := f (ws_current s)\<rparr>)"

definition set_commit :: "(commit_policy \<Rightarrow> commit_policy) \<Rightarrow> unit writer" where
  "set_commit f = update (\<lambda>s. s\<lparr>ws_commit := f (ws_commit s)\<rparr>)"

text \<open>A call on the journal, whose error becomes a runtime error.\<close>

definition on_journal ::
  "(journal \<Rightarrow> disk \<Rightarrow> (journal_error + 'a) \<times> journal \<times> disk) \<Rightarrow> 'a writer" where
  "on_journal f = (\<lambda>s.
    (case f (ws_journal s) (ws_disk s) of
       (Inl e, j, d) \<Rightarrow> (Inl (RuntimeJournal e), s\<lparr>ws_journal := j, ws_disk := d\<rparr>)
     | (Inr x, j, d) \<Rightarrow> (Inr x, s\<lparr>ws_journal := j, ws_disk := d\<rparr>)))"

text \<open>\<open>cursor::store\<close> writes a temporary file, syncs it, renames it over the cursor and syncs the
  directory, as the watermark is written.\<close>

definition store_cursor :: "watermark_io \<Rightarrow> durable_file_cursor \<Rightarrow> unit writer" where
  "store_cursor io c = (\<lambda>s.
    (case io of
       Watermark_Ok \<Rightarrow> (Inr (), s\<lparr>ws_cursor_visible := Some c, ws_cursor_stable := Some c\<rparr>)
     | Watermark_Lost \<Rightarrow> (Inl (RuntimeIo ''cursor''), s)
     | Watermark_Unsynced \<Rightarrow> (Inl (RuntimeIo ''cursor''), s\<lparr>ws_cursor_visible := Some c\<rparr>)))"

definition record_catalog :: "writer_env \<Rightarrow> catalog_event \<Rightarrow> unit writer" where
  "record_catalog env ev =
    and_then (answer (we_catalog env)) (\<lambda>written.
      if written then update (\<lambda>s. s\<lparr>ws_catalog := ws_catalog s @ [ev]\<rparr>)
      else throw (RuntimeIo ''catalog''))"

definition publish :: "unit writer" where
  "publish = update (\<lambda>s. s\<lparr>ws_published := ws_current s\<rparr>)"

definition accumulated_capture_cpu :: "nat \<Rightarrow> bool \<Rightarrow> nat \<Rightarrow> nat" where
  "accumulated_capture_cpu so_far capture_work elapsed =
    (if capture_work then saturating_add_u64 so_far elapsed else so_far)"

definition note_cpu :: "writer_env \<Rightarrow> bool \<Rightarrow> unit writer" where
  "note_cpu env capture_work =
    and_then (answer (we_cpu env)) (\<lambda>elapsed. set_current (\<lambda>p.
      p\<lparr>sp_writer_cpu_nanos := accumulated_capture_cpu (sp_writer_cpu_nanos p) capture_work elapsed\<rparr>))"

section \<open>Group commit\<close>

definition store_pending :: "writer_env \<Rightarrow> string option \<times> durable_file_cursor option \<Rightarrow> unit writer" where
  "store_pending env pending =
    (case pending of
       (Some path, Some cursor) \<Rightarrow>
         and_then (answer (we_store env)) (\<lambda>io.
         before (store_cursor io cursor)
           (update (\<lambda>s. s\<lparr>ws_file_cursor :=
             map_option (\<lambda>f. f\<lparr>fc_durable := Some cursor\<rparr>) (ws_file_cursor s)\<rparr>)))
     | _ \<Rightarrow> ok ())"

definition commit :: "writer_env \<Rightarrow> unit writer" where
  "commit env = with_state (\<lambda>s0.
    before
      (if cm_since_sync (ws_commit s0) > 0 then
         and_then (answer (we_sync env)) (\<lambda>(wr, sy).
         before (on_journal (sync_data wr sy))
         (before (set_commit (\<lambda>c. c\<lparr>cm_since_sync := 0\<rparr>))
           (set_current (\<lambda>p. p\<lparr>sp_syncs := sp_syncs p + 1, sp_synced_records := sp_records p\<rparr>))))
       else
         and_then (answer (we_flush env)) (\<lambda>(wr, fl). on_journal (flush_journal wr fl)))
    (and_then (answer (we_now env)) (\<lambda>now.
    before (set_commit (\<lambda>c. c\<lparr>cm_last := now\<rparr>))
    (with_state (\<lambda>s1.
       let pending = (cm_pending_cursor_path (ws_commit s1), cm_pending_cursor (ws_commit s1))
       in before (set_commit (\<lambda>c. c\<lparr>cm_pending_cursor_path := None, cm_pending_cursor := None\<rparr>))
            (store_pending env pending))))))"

definition commit_if_due :: "writer_env \<Rightarrow> unit writer" where
  "commit_if_due env =
    and_then (answer (we_now env)) (\<lambda>now.
      with_state (\<lambda>s. when_ok (commit_due now (ws_commit s)) (commit env)))"

section \<open>Appending a batch\<close>

definition payload_len :: "raw_record \<Rightarrow> nat" where
  "payload_len r = length (as_slice (rr_bytes r)) + length (as_slice (rr_delimiter r))"

definition storage_blocked :: "writer_env \<Rightarrow> nat \<Rightarrow> nat \<Rightarrow> raw_record \<Rightarrow> raw_record list \<Rightarrow> nat writer" where
  "storage_blocked env limit appended r rest =
    before (set_current (\<lambda>p. p\<lparr>sp_state := RuntimeStorageBlocked,
        sp_discarded_bytes := saturating_add_u64 (sp_discarded_bytes p)
          (payload_len r + sum_list (map payload_len rest)),
        sp_discarded_bytes_known := False, sp_last_error := Some (LimitReached limit)\<rparr>))
    (with_state (\<lambda>s.
    before (record_catalog env (CatalogStorageBlocked limit (sp_discarded_bytes (ws_current s)) False))
    (before (set_commit (commit_appended appended))
    (before publish (throw (StorageLimit limit))))))"

fun append_loop :: "writer_env \<Rightarrow> runtime_config \<Rightarrow> raw_record list \<Rightarrow> nat \<Rightarrow> nat writer" where
  "append_loop env config [] appended = ok appended"
| "append_loop env config (r # rest) appended = with_state (\<lambda>s.
    let estimated = payload_len r + 80;
        blocked = (case cf_storage_limit_bytes config of
          None \<Rightarrow> None
        | Some limit \<Rightarrow>
            if saturating_add_u64 (sp_journal_bytes (ws_current s)) estimated > limit then Some limit else None)
    in case blocked of
         Some limit \<Rightarrow> storage_blocked env limit appended r rest
       | None \<Rightarrow>
           and_then (answer (we_append env)) (\<lambda>io.
           and_then (on_journal (\<lambda>j d. append_record (we_crc env) io j d r)) (\<lambda>id.
           before (with_state (\<lambda>s1. set_current (\<lambda>p. p\<lparr>sp_records := sp_records p + 1,
               sp_high_watermark := Some id, sp_journal_bytes := jn_written_bytes (ws_journal s1)\<rparr>)))
             (append_loop env config rest (appended + 1)))))"

definition append_batch :: "writer_env \<Rightarrow> runtime_config \<Rightarrow> raw_record list \<Rightarrow> unit writer" where
  "append_batch env config batch =
    (if batch = [] then ok ()
     else
       and_then (append_loop env config batch 0) (\<lambda>appended.
       before (and_then (answer (we_flush env)) (\<lambda>(wr, fl). on_journal (flush_journal wr fl)))
       (before (set_commit (commit_appended appended))
       (before (commit_if_due env)
       (before (note_cpu env True)
       (before (and_then (answer (we_visible env)) (\<lambda>visible.
          when_ok (visible = RuntimeStopping \<or> visible = RuntimeAborting)
            (set_current (\<lambda>p. p\<lparr>sp_state := visible\<rparr>))))
        publish))))))"

section \<open>Messages\<close>

text \<open>\<open>Finish\<close> carries the requested state, the bytes discarded and whether they are known, and
  whether the receiver of its reply is still there.\<close>

datatype writer_message =
    WriterEvent capture_event
  | WriterFinish runtime_state nat bool bool

definition boundary_name :: "boundary_reason \<Rightarrow> string" where
  "boundary_name reason = (case reason of Started \<Rightarrow> ''started'' | Rotated \<Rightarrow> ''rotated''
     | Truncated \<Rightarrow> ''truncated'')"

definition finish_writer :: "writer_env \<Rightarrow> runtime_state \<Rightarrow> nat \<Rightarrow> bool \<Rightarrow> unit writer" where
  "finish_writer env requested discarded known =
    before (commit env)
    (before (with_state (\<lambda>s. set_current (\<lambda>p. p\<lparr>sp_journal_bytes := jn_written_bytes (ws_journal s),
        sp_state := requested, sp_discarded_bytes := discarded, sp_discarded_bytes_known := known\<rparr>)))
    (case requested of
       RuntimeStopped \<Rightarrow> record_catalog env CatalogStopped
     | RuntimeAborted \<Rightarrow> record_catalog env (CatalogAborted discarded known)
     | RuntimeIncomplete \<Rightarrow> record_catalog env (CatalogIncomplete discarded known ''shutdown deadline exceeded'')
     | _ \<Rightarrow> ok ()))"

text \<open>The cursor a checkpoint becomes: the journal's end is taken now, the cursor is written by the
  commit that covers it.\<close>

definition defer_checkpoint ::
  "uuid \<Rightarrow> file_resume_cursor \<Rightarrow> file_encoding \<Rightarrow> unit writer" where
  "defer_checkpoint aq checkpoint encoding = with_state (\<lambda>s.
    (case ws_file_cursor s of
       None \<Rightarrow> throw (RuntimeIo ''file checkpoint received for non-file source'')
     | Some cursor \<Rightarrow>
         set_commit (defer_cursor (fc_cursor_path cursor)
           \<lparr>dc_schema_version = 1, dc_source = sp_source (ws_current s), dc_path = fc_source_path cursor,
            dc_acquisition = aq, dc_journal_offset = jn_written_bytes (ws_journal s),
            dc_file = checkpoint, dc_encoding = encoding\<rparr>)))"

definition handle_event :: "writer_env \<Rightarrow> capture_event \<Rightarrow> unit writer" where
  "handle_event env ev =
    (case ev of
       Boundary aq reason \<Rightarrow>
         before (set_current (\<lambda>p. p\<lparr>sp_boundaries := sp_boundaries p + 1\<rparr>))
           (record_catalog env (CatalogBoundary aq (boundary_name reason)))
     | CommandExit aq code success \<Rightarrow>
         before (set_current (\<lambda>p. p\<lparr>sp_exit_code := code\<rparr>))
           (record_catalog env (CatalogCommandExit aq code success))
     | CaptureError aq message \<Rightarrow>
         before (set_current (\<lambda>p. p\<lparr>sp_last_error := Some (CaptureReported message)\<rparr>))
           (record_catalog env (CatalogError aq message))
     | FileCheckpoint aq checkpoint encoding \<Rightarrow> defer_checkpoint aq checkpoint encoding
     | CaptureStopped aq \<Rightarrow> ok ()
     | Records rs \<Rightarrow> ok ())"

text \<open>Taking a message from the queue; only the events are remembered.\<close>

definition note_taken :: "writer_message \<Rightarrow> unit writer" where
  "note_taken m = update (\<lambda>s.
    (case m of
       WriterEvent ev \<Rightarrow> s\<lparr>ws_taken := ws_taken s @ [ev]\<rparr>
     | WriterFinish _ _ _ _ \<Rightarrow> s))"

text \<open>An action whose result is handed to a reply instead of returned.\<close>

definition attempt :: "'a writer \<Rightarrow> (runtime_error + 'a) writer" where
  "attempt m = (\<lambda>s. case m s of (r, t) \<Rightarrow> (Inr r, t))"

definition handle_non_record :: "writer_env \<Rightarrow> writer_message \<Rightarrow> bool writer" where
  "handle_non_record env message =
    (case message of
       WriterEvent ev \<Rightarrow> before (handle_event env ev) (before (note_cpu env True) (before publish (ok False)))
     | WriterFinish requested discarded known listening \<Rightarrow>
         (let requested' = (if \<not> listening then RuntimeIncomplete else requested)
          in and_then (attempt (finish_writer env requested' discarded known)) (\<lambda>result.
             before (note_cpu env True)
             (before (case result of
                Inl _ \<Rightarrow> ok ()
              | Inr _ \<Rightarrow> and_then (answer (we_visible env)) (\<lambda>visible.
                  update (\<lambda>s. s\<lparr>ws_published := (ws_current s)\<lparr>sp_state := visible\<rparr>\<rparr>)))
             (before (update (\<lambda>s. s\<lparr>ws_finish_replies := ws_finish_replies s @ [result]\<rparr>))
               (ok (\<not> isl result)))))))"

definition take_records :: "captured_record list \<Rightarrow> unit writer" where
  "take_records records = set_current (\<lambda>p. p\<lparr>sp_handovers := sp_handovers p + 1,
     sp_reader_cpu_nanos := saturating_add_u64 (sp_reader_cpu_nanos p) (sum_list (map cr_reader_cpu records))\<rparr>)"

definition to_raw :: "source_id \<Rightarrow> captured_record list \<Rightarrow> raw_record list" where
  "to_raw source records = map (\<lambda>r. into_raw r source) records"

text \<open>The loop of \<open>append_records\<close>: \<open>visible\<close> of the queued messages can be received.  It returns
  whether the writer must end, and what is left of the queue.\<close>

fun gather ::
  "writer_env \<Rightarrow> runtime_config \<Rightarrow> source_id \<Rightarrow> nat \<Rightarrow> raw_record list \<Rightarrow> writer_message list
    \<Rightarrow> (bool \<times> writer_message list) writer" where
  "gather env config source visible batch [] =
    before (append_batch env config batch) (ok (False, []))"
| "gather env config source visible batch (m # queue) =
    (if length batch < cf_batch_records config \<and> visible > 0 then
       (case m of
          WriterEvent (Records records) \<Rightarrow>
            before (note_taken m)
            (before (take_records records)
              (gather env config source (visible - 1) (batch @ to_raw source records) queue))
        | _ \<Rightarrow>
            before (append_batch env config batch)
            (before (note_taken m)
            (and_then (handle_non_record env m) (\<lambda>terminal.
              if terminal then ok (True, queue)
              else before (append_batch env config []) (ok (False, queue))))))
     else before (append_batch env config batch) (ok (False, m # queue)))"

definition append_records ::
  "writer_env \<Rightarrow> runtime_config \<Rightarrow> nat \<Rightarrow> captured_record list \<Rightarrow> writer_message list
    \<Rightarrow> (bool \<times> writer_message list) writer" where
  "append_records env config visible records queue = with_state (\<lambda>s.
    let source = sp_source (ws_current s)
    in before (take_records records) (gather env config source visible (to_raw source records) queue))"

definition serve_page :: "writer_env \<Rightarrow> runtime_config \<Rightarrow> nat \<Rightarrow> nat \<Rightarrow> nat \<Rightarrow> unit writer" where
  "serve_page env config offset max_records max_bytes =
    and_then (answer (we_page env)) (\<lambda>wr.
    and_then (attempt (on_journal (read_page (we_crc env) wr offset
        (min max_records (cf_max_page_records config)) (min max_bytes (cf_max_page_bytes config))))) (\<lambda>result.
    before (note_cpu env False)
      (update (\<lambda>s. s\<lparr>ws_replies := ws_replies s @ [result]\<rparr>))))"

section \<open>The loop\<close>

text \<open>What one turn of the loop woke for: a page; the event at the head of the queue, with how many
  more of the queue can be received after it; the deadline; the closing of the event channel while
  waiting; or the closed and drained channel, found at the top of the turn or while waiting.\<close>

datatype wake = PageWake nat nat nat | EventWake nat | TimeoutWake | EventsClosedWake | ClosedWake bool

definition commit_and_publish :: "writer_env \<Rightarrow> unit writer" where
  "commit_and_publish env = before (commit env) (before (note_cpu env True) publish)"

definition commit_overdue :: "writer_env \<Rightarrow> unit writer" where
  "commit_overdue env =
    and_then (answer (we_now env)) (\<lambda>now.
      with_state (\<lambda>s. when_ok (commit_due now (ws_commit s)) (commit_and_publish env)))"

definition serve_wake ::
  "writer_env \<Rightarrow> runtime_config \<Rightarrow> wake \<Rightarrow> writer_message list \<Rightarrow> (bool \<times> writer_message list) writer" where
  "serve_wake env config w queue =
    (case w of
       PageWake offset max_records max_bytes \<Rightarrow>
         before (serve_page env config offset max_records max_bytes) (ok (False, queue))
     | TimeoutWake \<Rightarrow>
         before (with_state (\<lambda>s. when_ok (outstanding (ws_commit s)) (commit_and_publish env)))
           (ok (False, queue))
     | EventWake visible \<Rightarrow>
         (case queue of
            [] \<Rightarrow> ok (False, [])
          | m # rest \<Rightarrow>
              before (note_taken m)
              (case m of
                 WriterEvent (Records records) \<Rightarrow> append_records env config visible records rest
               | _ \<Rightarrow> and_then (handle_non_record env m) (\<lambda>terminal. ok (terminal, rest))))
     | _ \<Rightarrow> ok (False, queue))"

definition close_writer :: "writer_env \<Rightarrow> unit writer" where
  "close_writer env =
    before (commit env)
    (before (note_cpu env True)
    (before (set_current (\<lambda>p. p\<lparr>sp_state := RuntimeIncomplete, sp_last_error := Some ChannelClosed\<rparr>))
    (before (with_state (\<lambda>s. record_catalog env (CatalogIncomplete (sp_discarded_bytes (ws_current s)) False
        ''writer channel closed'')))
     publish)))"

text \<open>A wake that finds the channel closed needs the queue drained; \<open>None\<close> is a writer still
  waiting.\<close>

fun run_writer ::
  "writer_env \<Rightarrow> runtime_config \<Rightarrow> wake list \<Rightarrow> writer_message list \<Rightarrow> writer_state
    \<Rightarrow> (runtime_error + unit) option \<times> writer_state" where
  "run_writer env config [] queue s = (None, s)"
| "run_writer env config (w # wakes) queue s =
    (case w of
       ClosedWake waited \<Rightarrow>
         if queue \<noteq> [] then run_writer env config wakes queue s
         else (case before (when_ok waited (commit_overdue env)) (close_writer env) s of
             (r, t) \<Rightarrow> (Some r, t))
     | _ \<Rightarrow>
         (case before (commit_overdue env) (serve_wake env config w queue) s of
            (Inl e, t) \<Rightarrow> (Some (Inl e), t)
          | (Inr (True, rest), t) \<Rightarrow> (Some (Inr ()), t)
          | (Inr (False, rest), t) \<Rightarrow> run_writer env config wakes rest t))"

text \<open>The task around it: a failure is published over the progress last seen, whose state stays if
  the writer said itself that storage is blocked.\<close>

definition writer_task ::
  "writer_env \<Rightarrow> runtime_config \<Rightarrow> wake list \<Rightarrow> writer_message list \<Rightarrow> writer_state \<Rightarrow> writer_state" where
  "writer_task env config wakes queue s =
    (case run_writer env config wakes queue s of
       (Some (Inl e), t) \<Rightarrow>
         let failed = (ws_published t)\<lparr>sp_state := we_visible env (ws_calls t)\<rparr>;
             failed1 = (if sp_state failed = RuntimeStorageBlocked then failed
                        else failed\<lparr>sp_state := RuntimeErrored\<rparr>)
         in t\<lparr>ws_published := failed1\<lparr>sp_last_error := Some (WriterFailed e)\<rparr>\<rparr>
     | (_, t) \<Rightarrow> t)"

end
