(* ===== verification/Ingest_Loop.thy ===== *)
theory Ingest_Loop
  imports Ingest_Writer
begin

text \<open>
  What an invariant of the writer has to show to hold along the whole loop: the interface
  \<open>writer_invariant\<close> names the few operations that touch the journal, the cursor file, the commit
  policy or the queue, and its lemmas carry the invariant through batches, messages, pages, commits
  and the loop itself.  Everything else the writer does is quiet.
\<close>

section \<open>Quiet actions\<close>

text \<open>What an invariant may depend on.\<close>

definition core :: "writer_state \<Rightarrow> journal \<times> disk \<times> nat \<times> string option \<times> durable_file_cursor option \<times>
    durable_file_cursor option \<times> durable_file_cursor option \<times> capture_event list \<times> source_id" where
  "core s = (ws_journal s, ws_disk s, cm_since_sync (ws_commit s), cm_pending_cursor_path (ws_commit s), cm_pending_cursor (ws_commit s),
     ws_cursor_visible s, ws_cursor_stable s, ws_taken s, sp_source (ws_current s))"

definition insensitive :: "(writer_state \<Rightarrow> bool) \<Rightarrow> bool" where
  "insensitive I \<longleftrightarrow> (\<forall>s t. core s = core t \<longrightarrow> I s = I t)"

lemma insensitiveD: "insensitive I \<Longrightarrow> I s \<Longrightarrow> core t = core s \<Longrightarrow> I t"
  by (metis insensitive_def)

lemma insensitive_conj: "insensitive I \<Longrightarrow> insensitive J \<Longrightarrow> insensitive (\<lambda>s. I s \<and> J s)"
  unfolding insensitive_def by blast

lemma insensitive_ex: "(\<And>x. insensitive (I x)) \<Longrightarrow> insensitive (\<lambda>s. \<exists>x. I x s)"
  unfolding insensitive_def by blast

lemma core_updates [simp]:
  "core (s\<lparr>ws_calls := n\<rparr>) = core s" "core (s\<lparr>ws_catalog := c\<rparr>) = core s"
  "core (s\<lparr>ws_published := p\<rparr>) = core s" "core (s\<lparr>ws_replies := r\<rparr>) = core s"
  "core (s\<lparr>ws_finish_replies := fr\<rparr>) = core s" "core (s\<lparr>ws_file_cursor := f\<rparr>) = core s"
  "sp_source p' = sp_source (ws_current s) \<Longrightarrow> core (s\<lparr>ws_current := p'\<rparr>) = core s"
  "core (s\<lparr>ws_commit := (ws_commit s)\<lparr>cm_last := now\<rparr>\<rparr>) = core s"
  by (simp_all add: core_def)

text \<open>An action that leaves the core alone keeps every such invariant.\<close>

definition quiet :: "'a writer \<Rightarrow> bool" where
  "quiet m \<longleftrightarrow> (\<forall>s r t. m s = (r, t) \<longrightarrow> core t = core s)"

lemma run_quiet:
  assumes "quiet m" "insensitive I" "\<And>s. I s \<Longrightarrow> E s"
  shows "run_ok I m (\<lambda>_. I) E"
proof (rule run_okI)
  fix s r t
  assume "I s" "m s = (r, t)"
  then have "I t" using assms(1,2) insensitiveD by (metis quiet_def)
  then show "case r of Inl e \<Rightarrow> E t | Inr x \<Rightarrow> I t" using assms(3) by (cases r) auto
qed

lemma quiet_ok [simp]: "quiet (ok x)" by (simp add: quiet_def ok_def)

lemma quiet_throw [simp]: "quiet (throw e)" by (simp add: quiet_def throw_def)

lemma quiet_and_then [simp]: "quiet m \<Longrightarrow> (\<And>x. quiet (f x)) \<Longrightarrow> quiet (and_then m f)"
  unfolding quiet_def and_then_def by (fastforce split: prod.splits sum.splits)

lemma quiet_before [simp]: "quiet m \<Longrightarrow> quiet n \<Longrightarrow> quiet (before m n)"
  by (simp add: before_def)

lemma quiet_with_state [simp]: "(\<And>s. quiet (f s)) \<Longrightarrow> quiet (with_state f)"
  by (simp add: quiet_def with_state_def)

lemma quiet_when [simp]: "quiet m \<Longrightarrow> quiet (when_ok b m)"
  by (simp add: when_ok_def)

lemma quiet_answer [simp]: "quiet (answer f)" by (simp add: quiet_def answer_def)

lemma quiet_update: "(\<And>s. core (f s) = core s) \<Longrightarrow> quiet (update f)"
  by (simp add: quiet_def update_def)

lemma quiet_set_current: "(\<And>p. sp_source (f p) = sp_source p) \<Longrightarrow> quiet (set_current f)"
  unfolding set_current_def by (rule quiet_update) simp

lemma quiet_catalog [simp]: "quiet (record_catalog env ev)"
  by (auto simp: record_catalog_def intro!: quiet_and_then quiet_update)

lemma quiet_publish [simp]: "quiet publish"
  by (simp add: publish_def quiet_update)

lemma quiet_note_cpu [simp]: "quiet (note_cpu env w)"
  by (simp add: note_cpu_def quiet_set_current)

lemma quiet_if [simp]: "quiet m \<Longrightarrow> quiet n \<Longrightarrow> quiet (if b then m else n)"
  by simp

lemma quiet_take_records [simp]: "quiet (take_records records)"
  by (simp add: take_records_def quiet_set_current)


lemma run_quiet_keep: "quiet m \<Longrightarrow> insensitive I \<Longrightarrow> run_ok I m (\<lambda>_. I) I"
  by (rule run_quiet)

lemma run_attempt: "run_ok P m (\<lambda>_. P) P \<Longrightarrow> run_ok P (attempt m) (\<lambda>_. P) E"
  by (fastforce simp: run_ok_def attempt_def split: prod.splits sum.splits)

definition outcome :: "'a \<Rightarrow> 'a \<Rightarrow> bool \<Rightarrow> 'a" where
  "outcome yes no b = (if b then yes else no)"

lemma outcome_simps [simp]: "outcome yes no True = yes" "outcome yes no False = no"
  by (simp_all add: outcome_def)

section \<open>The interface\<close>

text \<open>\<open>I rest queue\<close> holds between operations, with \<open>rest\<close> of what was taken still to append and
  \<open>queue\<close> still to take; \<open>C queue\<close> holds after a commit, \<open>D queue\<close> at
  the end of the run, \<open>N m queue\<close> when a message that is not a
  batch has just been taken, \<open>E\<close> after an error.\<close>

locale writer_invariant =
  fixes env :: writer_env
    and config :: runtime_config
    and source :: source_id
    and I :: "raw_record list \<Rightarrow> writer_message list \<Rightarrow> writer_state \<Rightarrow> bool"
    and C :: "writer_message list \<Rightarrow> writer_state \<Rightarrow> bool"
    and D :: "writer_message list \<Rightarrow> writer_state \<Rightarrow> bool"
    and N :: "writer_message \<Rightarrow> writer_message list \<Rightarrow> writer_state \<Rightarrow> bool"
    and E :: "writer_state \<Rightarrow> bool"
  assumes failed: "I rest queue s \<Longrightarrow> E s"
    and committed: "C queue s \<Longrightarrow> I [] queue s"
    and source: "I rest queue s \<Longrightarrow> sp_source (ws_current s) = source"
    and insensitive_I: "insensitive (I rest queue)"
    and insensitive_C: "insensitive (C queue)"
    and commit: "run_ok (I [] queue) (commit env) (\<lambda>_. C queue) (I [] queue)"
    and batch: "run_ok (I batch queue) (append_batch env config batch) (\<lambda>_. I [] queue) E"
    and note_records: "run_ok (I rest (WriterEvent (Records records) # queue))
          (note_taken (WriterEvent (Records records))) (\<lambda>_. I (rest @ to_raw source records) queue) E"
    and note_other: "(\<And>records. m \<noteq> WriterEvent (Records records))
          \<Longrightarrow> run_ok (I [] (m # queue)) (note_taken m) (\<lambda>_. N m queue) E"
    and event: "run_ok (N (WriterEvent ev) queue) (handle_event env ev) (\<lambda>_. I [] queue) E"
    and finishing: "N (WriterFinish requested discarded known listening) queue s \<Longrightarrow> I [] queue s"
    and finished: "N (WriterFinish requested discarded known listening) queue s0 \<Longrightarrow> C queue s \<Longrightarrow> D queue s"
    and drained: "C [] s \<Longrightarrow> D [] s"
    and page: "run_ok (I [] queue) (on_journal (read_page (we_crc env) wr offset mr mb)) (\<lambda>_. I [] queue) (I [] queue)"
begin

lemma quiet_I: "quiet m \<Longrightarrow> run_ok (I rest queue) m (\<lambda>_. I rest queue) E"
  by (rule run_quiet) (auto intro: insensitive_I failed)

lemma quiet_C: "quiet m \<Longrightarrow> run_ok (C queue) m (\<lambda>_. C queue) E"
  by (rule run_quiet) (auto intro: insensitive_C failed committed)

lemma commit_E: "run_ok (I [] queue) (commit env) (\<lambda>_. C queue) E"
  by (rule run_ok_conseq [OF commit]) (auto intro: failed)

lemma committed_after: "run_ok P m (\<lambda>_. C queue) F \<Longrightarrow> run_ok P m (\<lambda>_. I [] queue) F"
  by (erule run_ok_conseq) (auto intro: committed)

lemma commit_and_publish: "run_ok (I [] queue) (commit_and_publish env) (\<lambda>_. I [] queue) E"
  unfolding commit_and_publish_def
  by (rule committed_after, rule run_ok_before [OF commit_E quiet_C]) simp

lemma commit_overdue: "run_ok (I [] queue) (commit_overdue env) (\<lambda>_. I [] queue) E"
proof -
  have c: "run_ok (I [] queue) (with_state (\<lambda>s. when_ok (commit_due now (ws_commit s)) (commit_and_publish env)))
      (\<lambda>_. I [] queue) E" for now
    by (rule run_ok_with_state, rule run_ok_when) (auto intro: run_ok_pre [OF commit_and_publish])
  show ?thesis
    unfolding commit_overdue_def by (rule run_ok_and_then [OF quiet_I c]) simp
qed

lemma finish: "run_ok (I [] queue) (finish_writer env requested discarded known) (\<lambda>_. C queue) (I [] queue)"
proof -
  have keep: "run_ok (C queue) m (\<lambda>_. C queue) (I [] queue)" if "quiet m" for m :: "unit writer"
    using that by (rule run_quiet) (auto intro: insensitive_C committed)
  show ?thesis
    unfolding finish_writer_def
    by (rule run_ok_before [OF commit keep])
      (auto intro!: quiet_before quiet_with_state quiet_set_current split: runtime_state.splits)
qed

lemma finish_attempt:
  "run_ok (I [] queue) (attempt (finish_writer env requested discarded known))
     (\<lambda>result. outcome (I [] queue) (C queue) (isl result)) E"
proof (rule run_okI)
  fix s r t
  assume i: "I [] queue s" and m: "attempt (finish_writer env requested discarded known) s = (r, t)"
  obtain x u where f: "finish_writer env requested discarded known s = (x, u)" by fastforce
  have "case x of Inl e \<Rightarrow> I [] queue u | Inr y \<Rightarrow> C queue u" by (rule run_okD [OF finish i f])
  then show "case r of Inl e \<Rightarrow> E t | Inr result \<Rightarrow> outcome (I [] queue) (C queue) (isl result) t"
    using m f by (cases x) (auto simp: attempt_def)
qed

text \<open>A message that is not a batch: the loop ends only after a commit.\<close>

lemma handle_non_record:
  "run_ok (N m queue) (handle_non_record env m)
     (outcome (D queue) (I [] queue)) E"
proof (cases m)
  case (WriterEvent ev)
  have "run_ok (I [] queue) (before (note_cpu env True) (before publish (ok False)))
      (outcome (D queue) (I [] queue)) E"
    by (intro run_ok_before [OF quiet_I] run_ok_ok) simp_all
  then show ?thesis
    unfolding handle_non_record_def WriterEvent by (simp, rule run_ok_before [OF event])
next
  case (WriterFinish requested discarded known listening)
  let ?r = "if \<not> listening then RuntimeIncomplete else requested"
  let ?after = "\<lambda>result :: runtime_error + unit. before (note_cpu env True)
      (before (case result of Inl _ \<Rightarrow> ok () | Inr _ \<Rightarrow> and_then (answer (we_visible env)) (\<lambda>visible.
          update (\<lambda>s. s\<lparr>ws_published := (ws_current s)\<lparr>sp_state := visible\<rparr>\<rparr>)))
      (before (update (\<lambda>s. s\<lparr>ws_finish_replies := ws_finish_replies s @ [result]\<rparr>)) (ok (\<not> isl result))))"
  have q: "quiet (before (note_cpu env True)
      (before (case result of Inl _ \<Rightarrow> ok () | Inr _ \<Rightarrow> and_then (answer (we_visible env)) (\<lambda>visible.
          update (\<lambda>s. s\<lparr>ws_published := (ws_current s)\<lparr>sp_state := visible\<rparr>\<rparr>)))
      (update (\<lambda>s. s\<lparr>ws_finish_replies := ws_finish_replies s @ [result]\<rparr>))))" for result :: "runtime_error + unit"
    by (intro quiet_before quiet_note_cpu quiet_update) (auto split: sum.splits intro!: quiet_and_then quiet_update)
  have split: "?after result = before (before (note_cpu env True)
      (before (case result of Inl _ \<Rightarrow> ok () | Inr _ \<Rightarrow> and_then (answer (we_visible env)) (\<lambda>visible.
          update (\<lambda>s. s\<lparr>ws_published := (ws_current s)\<lparr>sp_state := visible\<rparr>\<rparr>)))
      (update (\<lambda>s. s\<lparr>ws_finish_replies := ws_finish_replies s @ [result]\<rparr>)))) (ok (\<not> isl result))" for result
    by (simp add: before_assoc)
  have after: "run_ok (outcome (I [] queue) (C queue) (isl result)) (?after result)
      (outcome (C queue) (I [] queue)) E" for result
    unfolding split
    by (cases "isl result")
      (simp_all, intro run_ok_before [OF quiet_I [OF q]] run_ok_ok, simp,
       intro run_ok_before [OF quiet_C [OF q]] run_ok_ok, simp)
  have "run_ok (N m queue) (attempt (finish_writer env ?r discarded known))
     (\<lambda>result. outcome (I [] queue) (C queue) (isl result)) E"
    by (rule run_ok_pre [OF finish_attempt]) (use finishing WriterFinish in auto)
  from run_ok_and_then [OF this after]
  have r: "run_ok (N m queue) (handle_non_record env m) (outcome (C queue) (I [] queue)) E"
    using WriterFinish by (simp add: handle_non_record_def Let_def)
  show ?thesis
  proof (rule run_ok_assuming)
    fix s0
    assume "N m queue s0"
    then have "outcome (D queue) (I [] queue) x s" if "outcome (C queue) (I [] queue) x s" for x s
      using that finished WriterFinish by (cases x) auto
    with r show "run_ok (N m queue) (handle_non_record env m) (outcome (D queue) (I [] queue)) E"
      by (elim run_ok_conseq) auto
  qed
qed

lemma gather:
  "run_ok (I batch queue) (gather env config source visible batch queue)
     (\<lambda>(terminal, left). outcome (D left) (I [] left) terminal) E"
proof (induction queue arbitrary: visible batch)
  case Nil
  show ?case
    unfolding gather.simps by (rule run_ok_before [OF batch], rule run_ok_ok) simp
next
  case (Cons m queue)
  let ?Q = "\<lambda>(terminal, left). outcome (D left) (I [] left) terminal"
  let ?more = "length batch < cf_batch_records config \<and> visible > 0"
  have full: "run_ok (I batch (m # queue)) (before (append_batch env config batch) (ok (False, m # queue))) ?Q E"
    by (rule run_ok_before [OF local.batch], rule run_ok_ok) simp
  have again: "run_ok (I batch (m # queue))
      (before (note_taken m) (before (take_records records)
        (gather env config source (visible - 1) (batch @ to_raw source records) queue))) ?Q E"
    if "m = WriterEvent (Records records)" for records
    unfolding that
    by (rule run_ok_before [OF note_records], rule run_ok_before [OF quiet_I Cons.IH]) simp
  have last: "run_ok (outcome (D queue) (I [] queue) terminal)
      (if terminal then ok (True, queue) else before (append_batch env config []) (ok (False, queue))) ?Q E" for terminal
    by (cases terminal) (simp_all, rule run_ok_ok, simp, rule run_ok_before [OF local.batch], rule run_ok_ok, simp)
  have other: "run_ok (I batch (m # queue))
      (before (append_batch env config batch) (before (note_taken m)
            (and_then (handle_non_record env m) (\<lambda>terminal.
              if terminal then ok (True, queue)
              else before (append_batch env config []) (ok (False, queue)))))) ?Q E"
    if "\<And>records. m \<noteq> WriterEvent (Records records)"
    by (rule run_ok_before [OF local.batch], rule run_ok_before [OF note_other], rule that,
        rule run_ok_and_then [OF handle_non_record last])
  show ?case
  proof (cases "?more \<and> (\<exists>records. m = WriterEvent (Records records))")
    case True
    then show ?thesis using again by auto
  next
    case False
    then show ?thesis using full other by (auto split: writer_message.split capture_event.split)
  qed
qed

lemma append_records:
  "run_ok (I (to_raw source records) queue) (append_records env config visible records queue)
     (\<lambda>(terminal, left). outcome (D left) (I [] left) terminal) E"
  unfolding append_records_def Let_def
proof (rule run_ok_with_state)
  fix s0
  let ?Q = "\<lambda>(terminal, left). outcome (D left) (I [] left) terminal"
  assume "I (to_raw source records) queue s0"
  note src = source [OF this]
  show "run_ok (\<lambda>s. I (to_raw source records) queue s \<and> s = s0)
      (before (take_records records) (gather env config (sp_source (ws_current s0)) visible
        (to_raw (sp_source (ws_current s0)) records) queue)) ?Q E"
    unfolding src by (rule run_ok_pre [OF run_ok_before [OF quiet_I gather]]) auto
qed

lemma serve_page: "run_ok (I [] queue) (serve_page env config offset mr mb) (\<lambda>_. I [] queue) E"
proof -
  have q: "quiet (before (note_cpu env False) (update (\<lambda>s. s\<lparr>ws_replies := ws_replies s @ [result]\<rparr>)))" for result
    by (intro quiet_before quiet_update) simp_all
  show ?thesis
    unfolding serve_page_def
    by (rule run_ok_and_then [OF quiet_I], simp, rule run_ok_and_then [OF run_attempt [OF page]],
        rule quiet_I [OF q])
qed

lemma serve_wake:
  "run_ok (I [] queue) (serve_wake env config w queue)
     (\<lambda>(terminal, left). outcome (D left) (I [] left) terminal) E"
proof -
  let ?Q = "\<lambda>(terminal, left). outcome (D left) (I [] left) terminal"
  have skip: "run_ok (I [] left) (ok (False, left)) ?Q E" for left
    by (rule run_ok_ok) simp
  have pages: "run_ok (I [] queue) (before (serve_page env config offset mr mb) (ok (False, queue))) ?Q E"
    for offset mr mb
    by (rule run_ok_before [OF serve_page skip])
  have timeout: "run_ok (I [] queue) (before (with_state (\<lambda>s. when_ok (outstanding (ws_commit s)) (commit_and_publish env)))
           (ok (False, queue))) ?Q E"
    by (rule run_ok_before [OF run_ok_with_state skip], rule run_ok_when)
      (auto intro: run_ok_pre [OF commit_and_publish])
  have records: "run_ok (I [] (WriterEvent (Records rs) # left))
      (before (note_taken (WriterEvent (Records rs))) (append_records env config visible rs left)) ?Q E"
    for visible rs left
    by (rule run_ok_before [OF note_records [of "[]", simplified] append_records])
  have answered: "run_ok (outcome (D left) (I [] left) terminal) (ok (terminal, left)) ?Q E" for terminal left
    by (rule run_ok_ok) simp
  have other: "run_ok (I [] (m # left))
      (before (note_taken m) (and_then (handle_non_record env m) (\<lambda>terminal. ok (terminal, left)))) ?Q E"
    if "\<And>rs. m \<noteq> WriterEvent (Records rs)" for m left
    by (rule run_ok_before [OF note_other], rule that, rule run_ok_and_then [OF handle_non_record answered])
  show ?thesis
  proof (cases w)
    case (EventWake visible)
    show ?thesis
    proof (cases queue)
      case (Cons m left)
      then show ?thesis using EventWake records other
        by (cases "\<exists>rs. m = WriterEvent (Records rs)")
          (auto simp: serve_wake_def split: writer_message.split capture_event.split)
    next
      case Nil
      then show ?thesis using EventWake skip [of "[]"] by (simp add: serve_wake_def)
    qed
  qed (simp_all add: serve_wake_def pages timeout skip)
qed

lemma close: "run_ok (I [] []) (close_writer env) (\<lambda>_. D []) E"
proof -
  have "run_ok (I [] []) (close_writer env) (\<lambda>_. C []) E"
    unfolding close_writer_def
    by (rule run_ok_before [OF commit_E quiet_C])
      (intro quiet_before quiet_with_state quiet_set_current; simp)
  then show ?thesis by (rule run_ok_conseq) (auto intro: drained)
qed

text \<open>The loop: an error leaves \<open>E\<close>, an end leaves a committed state, and a writer still waiting
  holds the invariant.\<close>

lemma loop:
  assumes "I [] queue s" "run_writer env config wakes queue s = (r, t)"
  shows "case r of Some (Inl e) \<Rightarrow> E t | Some (Inr _) \<Rightarrow> (\<exists>left. D left t) | None \<Rightarrow> (\<exists>left. I [] left t)"
  using assms
proof (induction wakes arbitrary: queue s)
  case Nil
  then show ?case by auto
next
  case (Cons w wakes)
  let ?Q = "\<lambda>(terminal, left). outcome (D left) (I [] left) terminal"
  have turn: "run_ok (I [] queue) (before (commit_overdue env) (serve_wake env config w queue)) ?Q E"
    by (rule run_ok_before [OF commit_overdue serve_wake])
  have closing: "run_ok (I [] []) (before (when_ok waited (commit_overdue env)) (close_writer env)) (\<lambda>_. D []) E"
    for waited
    by (rule run_ok_before [OF run_ok_when close]) (auto intro: commit_overdue)
  show ?case
  proof (cases "\<exists>waited. w = ClosedWake waited")
    case True
    then obtain waited where w: "w = ClosedWake waited" by blast
    obtain x u where m: "before (when_ok waited (commit_overdue env)) (close_writer env) s = (x, u)" by fastforce
    show ?thesis
    proof (cases "queue = []")
      case True
      then have "case x of Inl e \<Rightarrow> E u | Inr y \<Rightarrow> D [] u" using run_okD [OF closing _ m] Cons.prems(1) by simp
      then show ?thesis using Cons.prems(2) m w True by (cases x) auto
    next
      case False
      then show ?thesis using Cons.prems Cons.IH w by simp
    qed
  next
    case False
    obtain x u where m: "before (commit_overdue env) (serve_wake env config w queue) s = (x, u)" by fastforce
    have q: "case x of Inl e \<Rightarrow> E u | Inr y \<Rightarrow> ?Q y u" by (rule run_okD [OF turn Cons.prems(1) m])
    have "run_writer env config (w # wakes) queue s = (case (x, u) of
            (Inl e, t) \<Rightarrow> (Some (Inl e), t)
          | (Inr (True, rest), t) \<Rightarrow> (Some (Inr ()), t)
          | (Inr (False, rest), t) \<Rightarrow> run_writer env config wakes rest t)"
      using False m by (cases w) auto
    note run = this [unfolded Cons.prems(2)]
    show ?thesis
    proof (cases x)
      case (Inl e)
      then show ?thesis using q run by simp
    next
      case (Inr y)
      then obtain terminal left where y: "x = Inr (terminal, left)" by (cases y) auto
      then show ?thesis using q run Cons.IH [of left u] by (cases terminal) auto
    qed
  qed
qed

end

end
