(* ===== verification/Ingest_Durability.thy ===== *)
theory Ingest_Durability
  imports Ingest_Loop
begin

text \<open>
  What a run of the writer keeps true of the disk: the journal file is what it was at the start
  followed by frames of the records taken from the queue, in order, and the cursor file, whatever
  a crash leaves of it, is the one of the start or one made from a checkpoint of the queue whose
  records the journal holds durably.
\<close>

section \<open>The start of a run and what it appends\<close>

record run_start =
  st_crc :: "byte list \<Rightarrow> 32 word"
  st_source :: source_id
  st_file :: "byte list"
  st_next :: nat
  st_visible :: "durable_file_cursor option"
  st_stable :: "durable_file_cursor option"

fun numbered :: "nat \<Rightarrow> raw_record list \<Rightarrow> raw_record list" where
  "numbered n [] = []"
| "numbered n (r # rs) = set_sequence r n # numbered (n + 1) rs"

definition taken_raws :: "source_id \<Rightarrow> capture_event list \<Rightarrow> raw_record list" where
  "taken_raws source evs = to_raw source (concat (map records_of evs))"

definition journal_with :: "run_start \<Rightarrow> raw_record list \<Rightarrow> byte list" where
  "journal_with b rs = st_file b @ journal_bytes (st_crc b) (numbered (st_next b) rs)"

lemma numbered_length [simp]: "length (numbered n rs) = length rs"
  by (induction n rs rule: numbered.induct) auto

lemma numbered_append [simp]: "numbered n (rs @ rs') = numbered n rs @ numbered (n + length rs) rs'"
  by (induction n rs rule: numbered.induct) auto

lemma taken_raws_simps [simp]:
  "taken_raws source [] = []"
  "taken_raws source (evs @ evs') = taken_raws source evs @ taken_raws source evs'"
  "taken_raws source (ev # evs) = to_raw source (records_of ev) @ taken_raws source evs"
  by (simp_all add: taken_raws_def to_raw_def)

lemma to_raw_simps [simp]: "to_raw source [] = []" "to_raw source (rs @ rs') = to_raw source rs @ to_raw source rs'"
  by (simp_all add: to_raw_def)

lemma journal_with_append:
  "journal_with b (rs @ rs') = journal_with b rs @ journal_bytes (st_crc b) (numbered (st_next b + length rs) rs')"
  by (simp add: journal_with_def)

lemma journal_with_prefix [simp]: "prefix (journal_with b rs) (journal_with b (rs @ rs'))"
  by (simp add: journal_with_append)

lemma journal_with_length [simp]: "length (st_file b) \<le> length (journal_with b rs)"
  by (simp add: journal_with_def)

section \<open>The invariants\<close>

text \<open>The cursor names the end of the journal as it was when one of the checkpoints was taken.\<close>

definition made_from :: "run_start \<Rightarrow> capture_event list \<Rightarrow> durable_file_cursor \<Rightarrow> bool" where
  "made_from b evs c \<longleftrightarrow> (\<exists>pre post. evs = pre @ FileCheckpoint (dc_acquisition c) (dc_file c) (dc_encoding c) # post
     \<and> dc_journal_offset c = length (journal_with b (taken_raws (st_source b) pre)))"

definition cursor_covered :: "run_start \<Rightarrow> writer_state \<Rightarrow> durable_file_cursor option \<Rightarrow> bool" where
  "cursor_covered b s found \<longleftrightarrow> found = st_visible b \<or> found = st_stable b
     \<or> (\<exists>c. found = Some c \<and> made_from b (ws_taken s) c \<and> dc_journal_offset c \<le> dk_synced (ws_disk s))"

definition kept :: "run_start \<Rightarrow> writer_state \<Rightarrow> bool" where
  "kept b s \<longleftrightarrow> prefix (dk_file (ws_disk s)) (journal_with b (taken_raws (st_source b) (ws_taken s)))
     \<and> length (st_file b) \<le> dk_synced (ws_disk s) \<and> dk_synced (ws_disk s) \<le> length (dk_file (ws_disk s))
     \<and> cursor_covered b s (ws_cursor_visible s) \<and> cursor_covered b s (ws_cursor_stable s)"

definition journal_at :: "run_start \<Rightarrow> raw_record list \<Rightarrow> journal \<Rightarrow> disk \<Rightarrow> bool" where
  "journal_at b rs j d \<longleftrightarrow>
     jn_written_bytes j = length (journal_with b rs) \<and> jn_next_sequence j = st_next b + length rs
   \<and> jn_source j = st_source b \<and> (jn_poisoned j \<longrightarrow> jn_buffer j = [])
   \<and> (\<not> jn_poisoned j \<longrightarrow> dk_file d @ jn_buffer j = journal_with b rs)"

definition pending_ok :: "run_start \<Rightarrow> raw_record list \<Rightarrow> writer_state \<Rightarrow> bool" where
  "pending_ok b rs s \<longleftrightarrow> (\<forall>c. cm_pending_cursor (ws_commit s) = Some c \<longrightarrow>
     made_from b (ws_taken s) c \<and> dc_journal_offset c \<le> length (journal_with b rs))"

text \<open>The writer holds \<open>rs\<close> and still has \<open>rest\<close> of what it took in its hands.\<close>

definition holding :: "run_start \<Rightarrow> raw_record list \<Rightarrow> raw_record list \<Rightarrow> writer_state \<Rightarrow> bool" where
  "holding b rs rest s \<longleftrightarrow> kept b s \<and> taken_raws (st_source b) (ws_taken s) = rs @ rest
     \<and> journal_at b rs (ws_journal s) (ws_disk s) \<and> pending_ok b rs s
     \<and> sp_source (ws_current s) = st_source b"

definition settled :: "writer_state \<Rightarrow> bool" where
  "settled s \<longleftrightarrow> (cm_since_sync (ws_commit s) = 0 \<and> \<not> jn_poisoned (ws_journal s) \<longrightarrow>
     jn_buffer (ws_journal s) = [] \<and> dk_synced (ws_disk s) = length (dk_file (ws_disk s)))"

definition steady :: "run_start \<Rightarrow> raw_record list \<Rightarrow> writer_state \<Rightarrow> bool" where
  "steady b rest s \<longleftrightarrow> (\<exists>rs. holding b rs rest s) \<and> settled s"

lemma insensitive_kept [simp]: "insensitive (kept b)"
  by (simp add: insensitive_def core_def kept_def cursor_covered_def)

lemma insensitive_holding [simp]: "insensitive (holding b rs rest)"
  by (simp add: insensitive_def core_def holding_def journal_at_def pending_ok_def kept_def cursor_covered_def)

lemma insensitive_settled [simp]: "insensitive settled"
  by (simp add: insensitive_def core_def settled_def)

lemma insensitive_steady [simp]: "insensitive (steady b rest)"
  unfolding insensitive_def
proof (intro allI impI)
  fix s t
  assume c: "core s = core t"
  have "holding b rs rest s = holding b rs rest t" for rs
    using insensitive_holding [of b rs rest] c unfolding insensitive_def by blast
  moreover have "settled s = settled t"
    using insensitive_settled c unfolding insensitive_def by blast
  ultimately show "steady b rest s = steady b rest t" by (simp add: steady_def)
qed

section \<open>Calls on the journal\<close>

lemma cursor_covered_mono:
  "cursor_covered b s found \<Longrightarrow> ws_taken t = ws_taken s
    \<Longrightarrow> dk_synced (ws_disk s) \<le> dk_synced (ws_disk t) \<Longrightarrow> cursor_covered b t found"
  by (auto simp: cursor_covered_def)

lemma kept_advance:
  assumes "kept b s" "prefix (dk_file d) (journal_with b (taken_raws (st_source b) (ws_taken s)))"
    and "dk_synced (ws_disk s) \<le> dk_synced d" "dk_synced d \<le> length (dk_file d)"
  shows "kept b (s\<lparr>ws_journal := j, ws_disk := d\<rparr>)"
  using assms cursor_covered_mono [of b s _ "s\<lparr>ws_journal := j, ws_disk := d\<rparr>"]
  by (auto simp: kept_def)

lemma holding_kept: "holding b rs rest s \<Longrightarrow> kept b s"
  by (simp add: holding_def)

lemma holding_advance:
  assumes "holding b rs rest s" "journal_at b rs j d" "prefix (dk_file d) (journal_with b (rs @ rest))"
    and "dk_synced (ws_disk s) \<le> dk_synced d" "dk_synced d \<le> length (dk_file d)"
  shows "holding b rs rest (s\<lparr>ws_journal := j, ws_disk := d\<rparr>)"
  using assms kept_advance [of b s d j] by (simp add: holding_def pending_ok_def)

lemma journal_at_prefix:
  "journal_at b rs j d \<Longrightarrow> \<not> jn_poisoned j \<Longrightarrow> prefix (dk_file d) (journal_with b rs)"
  by (metis journal_at_def prefixI)

lemma write_buffer_at:
  assumes "journal_at b rs j d" "write_buffer wr j d = (res, j', d')"
  shows "journal_at b rs j' d' \<and> dk_synced d' = dk_synced d \<and> length (dk_file d) \<le> length (dk_file d')
    \<and> (jn_poisoned j \<and> d' = d \<or> \<not> jn_poisoned j \<and> prefix (dk_file d') (journal_with b rs))
    \<and> (res = Inr () \<longrightarrow> jn_buffer j' = [] \<and> jn_poisoned j' = jn_poisoned j)"
proof (cases "jn_buffer j = []")
  case True
  then show ?thesis using assms journal_at_prefix [OF assms(1)] by (auto simp: write_buffer_def)
next
  case False
  then have live: "\<not> jn_poisoned j" "dk_file d @ jn_buffer j = journal_with b rs"
    using assms(1) by (auto simp: journal_at_def)
  have longer: "length (dk_file d) \<le> length (journal_with b rs)"
    unfolding live(2) [symmetric] by simp
  have partial: "prefix (dk_file d @ take k (jn_buffer j)) (journal_with b rs)" for k
    unfolding live(2) [symmetric] by (simp add: take_is_prefix)
  show ?thesis
  proof (cases wr)
    case None
    then show ?thesis using assms False live longer by (auto simp: write_buffer_def journal_at_def)
  next
    case (Some k)
    then show ?thesis using assms False live(1) partial by (auto simp: write_buffer_def journal_at_def)
  qed
qed

lemma holding_synced: "holding b rs rest s \<Longrightarrow> dk_synced (ws_disk s) \<le> length (dk_file (ws_disk s))"
  by (simp add: holding_def kept_def)

lemma holding_at: "holding b rs rest s \<Longrightarrow> journal_at b rs (ws_journal s) (ws_disk s)"
  by (simp add: holding_def)

lemma holding_file: "holding b rs rest s \<Longrightarrow> prefix (dk_file (ws_disk s)) (journal_with b (rs @ rest))"
  unfolding holding_def kept_def by metis

lemma prefix_journal_with: "prefix xs (journal_with b rs) \<Longrightarrow> prefix xs (journal_with b (rs @ rest))"
  using journal_with_prefix prefix_order.trans by blast

lemma holding_write:
  assumes "holding b rs rest s" "write_buffer wr (ws_journal s) (ws_disk s) = (res, j, d)"
  shows "holding b rs rest (s\<lparr>ws_journal := j, ws_disk := d\<rparr>)
    \<and> dk_synced d = dk_synced (ws_disk s) \<and> length (dk_file (ws_disk s)) \<le> length (dk_file d)
    \<and> (res = Inr () \<longrightarrow> jn_buffer j = [] \<and> jn_poisoned j = jn_poisoned (ws_journal s))"
proof -
  note w = write_buffer_at [OF holding_at [OF assms(1)] assms(2)]
  have "prefix (dk_file d) (journal_with b (rs @ rest))"
    using w holding_file [OF assms(1)] prefix_journal_with by auto
  then show ?thesis
    using w holding_advance [OF assms(1)] holding_synced [OF assms(1)] by auto
qed

text \<open>A poisoned journal with an empty buffer is where it was.\<close>

lemma holding_poison:
  assumes "holding b rs rest (s\<lparr>ws_journal := j, ws_disk := d\<rparr>)" "jn_buffer j = []"
  shows "holding b rs rest (s\<lparr>ws_journal := j\<lparr>jn_poisoned := True\<rparr>, ws_disk := d\<rparr>)"
proof -
  have "kept b (s\<lparr>ws_journal := j\<lparr>jn_poisoned := True\<rparr>, ws_disk := d\<rparr>)"
    using holding_kept [OF assms(1)] by (simp add: kept_def cursor_covered_def)
  then show ?thesis
    using assms by (simp add: holding_def journal_at_def pending_ok_def)
qed

lemma run_flush:
  "run_ok (holding b rs rest) (on_journal (flush_journal wr fl))
     (\<lambda>_ s. holding b rs rest s \<and> \<not> jn_poisoned (ws_journal s)) (holding b rs rest)"
proof (rule run_okI)
  fix s r t
  assume h: "holding b rs rest s" and m: "on_journal (flush_journal wr fl) s = (r, t)"
  obtain res j d where wb: "write_buffer wr (ws_journal s) (ws_disk s) = (res, j, d)" by (metis prod_cases3)
  note w = holding_write [OF h wb]
  let ?s1 = "s\<lparr>ws_journal := j, ws_disk := d\<rparr>"
  have fail: "holding b rs rest (s\<lparr>ws_journal := j\<lparr>jn_poisoned := True\<rparr>, ws_disk := d\<rparr>)" if "res = Inr ()"
    using holding_poison w that by blast
  show "case r of Inl e \<Rightarrow> holding b rs rest t
      | Inr x \<Rightarrow> holding b rs rest t \<and> \<not> jn_poisoned (ws_journal t)"
    using m h w wb fail by (auto simp: on_journal_def flush_journal_def split: if_splits sum.splits)
qed

lemma run_sync:
  "run_ok (holding b rs rest) (on_journal (sync_data wr sy))
     (\<lambda>_ s. holding b rs rest s \<and> \<not> jn_poisoned (ws_journal s) \<and> jn_buffer (ws_journal s) = []
        \<and> dk_synced (ws_disk s) = length (dk_file (ws_disk s))) (holding b rs rest)"
proof (rule run_okI)
  fix s r t
  assume h: "holding b rs rest s" and m: "on_journal (sync_data wr sy) s = (r, t)"
  obtain res j d where wb: "write_buffer wr (ws_journal s) (ws_disk s) = (res, j, d)" by (metis prod_cases3)
  note w = holding_write [OF h wb]
  let ?s1 = "s\<lparr>ws_journal := j, ws_disk := d\<rparr>"
  have fail: "holding b rs rest (s\<lparr>ws_journal := j\<lparr>jn_poisoned := True\<rparr>, ws_disk := d\<rparr>)" if "res = Inr ()"
    using holding_poison w that by blast
  have good: "holding b rs rest (s\<lparr>ws_journal := j, ws_disk := d\<lparr>dk_synced := length (dk_file d)\<rparr>\<rparr>)"
  proof -
    have h1: "holding b rs rest ?s1" using w by simp
    have "journal_at b rs j (d\<lparr>dk_synced := length (dk_file d)\<rparr>)"
      using holding_at [OF h1] by (simp add: journal_at_def)
    then show ?thesis
      using holding_advance [OF h1, of j "d\<lparr>dk_synced := length (dk_file d)\<rparr>"] holding_file [OF h1]
        holding_synced [OF h1] by simp
  qed
  show "case r of Inl e \<Rightarrow> holding b rs rest t
      | Inr x \<Rightarrow> holding b rs rest t \<and> \<not> jn_poisoned (ws_journal t) \<and> jn_buffer (ws_journal t) = []
        \<and> dk_synced (ws_disk t) = length (dk_file (ws_disk t))"
    using m h w wb fail good by (auto simp: on_journal_def sync_data_def split: if_splits sum.splits)
qed


section \<open>Commit\<close>

text \<open>Everything held is in the file and synced.\<close>

definition firm :: "run_start \<Rightarrow> raw_record list \<Rightarrow> writer_state \<Rightarrow> bool" where
  "firm b rest s \<longleftrightarrow> (\<exists>rs. holding b rs rest s) \<and> \<not> jn_poisoned (ws_journal s)
     \<and> jn_buffer (ws_journal s) = [] \<and> dk_synced (ws_disk s) = length (dk_file (ws_disk s))"

lemma firm_steady: "firm b rest s \<Longrightarrow> steady b rest s"
  by (auto simp: firm_def steady_def settled_def)

lemma steady_kept: "steady b rest s \<Longrightarrow> kept b s"
  by (auto simp: steady_def holding_def)

lemma insensitive_firm [simp]: "insensitive (firm b rest)"
proof -
  have "insensitive (\<lambda>s. \<not> jn_poisoned (ws_journal s) \<and> jn_buffer (ws_journal s) = []
      \<and> dk_synced (ws_disk s) = length (dk_file (ws_disk s)))"
    by (simp add: insensitive_def core_def)
  moreover have "insensitive (\<lambda>s. \<exists>rs. holding b rs rest s)" by (rule insensitive_ex) simp
  ultimately have "insensitive (\<lambda>s. (\<exists>rs. holding b rs rest s) \<and> \<not> jn_poisoned (ws_journal s)
      \<and> jn_buffer (ws_journal s) = [] \<and> dk_synced (ws_disk s) = length (dk_file (ws_disk s)))"
    by (rule insensitive_conj [rotated])
  then show ?thesis unfolding firm_def [abs_def] by simp
qed

lemma pending_covered:
  assumes "firm b rest s" "cm_pending_cursor (ws_commit s) = Some c"
  shows "made_from b (ws_taken s) c \<and> dc_journal_offset c \<le> dk_synced (ws_disk s)"
proof -
  obtain rs where h: "holding b rs rest s" using assms(1) by (auto simp: firm_def)
  have "length (journal_with b rs) = dk_synced (ws_disk s)"
    using holding_at [OF h] assms(1) by (simp add: firm_def journal_at_def)
  then show ?thesis using h assms(2) by (simp add: holding_def pending_ok_def)
qed

lemma holding_commit_update:
  assumes "holding b rs rest s" "cm_pending_cursor c = cm_pending_cursor (ws_commit s) \<or> cm_pending_cursor c = None"
  shows "holding b rs rest (s\<lparr>ws_commit := c\<rparr>)"
  using assms by (auto simp: holding_def kept_def cursor_covered_def pending_ok_def)

lemma firm_commit_update:
  assumes "firm b rest s" "cm_pending_cursor c = cm_pending_cursor (ws_commit s) \<or> cm_pending_cursor c = None"
  shows "firm b rest (s\<lparr>ws_commit := c\<rparr>)"
  using assms holding_commit_update [of b _ rest s c] by (auto simp: firm_def)

lemma firm_store:
  assumes "firm b rest s" "made_from b (ws_taken s) c" "dc_journal_offset c \<le> dk_synced (ws_disk s)"
    and "v = ws_cursor_visible s \<or> v = Some c" "w = ws_cursor_stable s \<or> w = Some c"
  shows "firm b rest (s\<lparr>ws_cursor_visible := v, ws_cursor_stable := w\<rparr>)"
  using assms by (auto simp: firm_def holding_def kept_def cursor_covered_def journal_at_def pending_ok_def)

lemma run_store_cursor:
  "run_ok (\<lambda>s. firm b rest s \<and> made_from b (ws_taken s) c \<and> dc_journal_offset c \<le> dk_synced (ws_disk s))
     (store_cursor io c) (\<lambda>_. firm b rest) (firm b rest)"
proof (rule run_okI)
  fix s r t
  assume f: "firm b rest s \<and> made_from b (ws_taken s) c \<and> dc_journal_offset c \<le> dk_synced (ws_disk s)"
    and m: "store_cursor io c s = (r, t)"
  then have "firm b rest (s\<lparr>ws_cursor_visible := v, ws_cursor_stable := w\<rparr>)"
    if "v = ws_cursor_visible s \<or> v = Some c" "w = ws_cursor_stable s \<or> w = Some c" for v w
    using firm_store that by blast
  note st = this [of "ws_cursor_visible s" "ws_cursor_stable s"] this [of "Some c" "Some c"]
    this [of "Some c" "ws_cursor_stable s"]
  show "case r of Inl e \<Rightarrow> firm b rest t | Inr x \<Rightarrow> firm b rest t"
    using m f st by (cases io) (auto simp: store_cursor_def)
qed

lemma run_store_pending:
  "run_ok (\<lambda>s. firm b rest s \<and> (\<forall>c. snd pending = Some c \<longrightarrow>
       made_from b (ws_taken s) c \<and> dc_journal_offset c \<le> dk_synced (ws_disk s)))
     (store_pending env pending) (\<lambda>_. firm b rest) (firm b rest)"
proof (cases pending)
  case (Pair p c)
  let ?P = "\<lambda>s. firm b rest s \<and> (\<forall>c'. c = Some c' \<longrightarrow>
       made_from b (ws_taken s) c' \<and> dc_journal_offset c' \<le> dk_synced (ws_disk s))"
  show ?thesis
  proof (cases p)
    case None
    then show ?thesis using Pair by (auto simp: store_pending_def intro: run_ok_ok)
  next
    case p: (Some path)
    show ?thesis
    proof (cases c)
      case None
      then show ?thesis using Pair p by (auto simp: store_pending_def intro: run_ok_ok)
    next
      case c: (Some cursor)
      have i: "insensitive ?P"
      proof (rule insensitive_conj)
        show "insensitive (\<lambda>s. \<forall>c'. c = Some c' \<longrightarrow> made_from b (ws_taken s) c' \<and> dc_journal_offset c' \<le> dk_synced (ws_disk s))"
          by (simp add: insensitive_def core_def)
      qed simp
      have "run_ok ?P (answer (we_store env)) (\<lambda>_. ?P) (firm b rest)"
        by (rule run_quiet) (use i in auto)
      moreover have "run_ok ?P (store_cursor io cursor) (\<lambda>_. firm b rest) (firm b rest)" for io
        by (rule run_ok_pre [OF run_store_cursor]) (use c in auto)
      moreover have "run_ok (firm b rest) (update (\<lambda>s. s\<lparr>ws_file_cursor :=
          map_option (\<lambda>f. f\<lparr>fc_durable := Some cursor\<rparr>) (ws_file_cursor s)\<rparr>) :: unit writer) (\<lambda>_. firm b rest) (firm b rest)"
        by (rule run_quiet) (auto intro: quiet_update)
      ultimately show ?thesis using Pair p c
        by (simp add: store_pending_def) (blast intro: run_ok_and_then run_ok_before)
    qed
  qed
qed

lemma firm_synced:
  "holding b rs rest s \<Longrightarrow> \<not> jn_poisoned (ws_journal s) \<Longrightarrow> jn_buffer (ws_journal s) = []
    \<Longrightarrow> dk_synced (ws_disk s) = length (dk_file (ws_disk s)) \<Longrightarrow> firm b rest s"
  by (auto simp: firm_def)

lemma run_commit_sync:
  "run_ok (steady b rest)
     (and_then (answer (we_sync env)) (\<lambda>(wr, sy).
         before (on_journal (sync_data wr sy))
         (before (set_commit (\<lambda>c. c\<lparr>cm_since_sync := 0\<rparr>))
           (set_current (\<lambda>p. p\<lparr>sp_syncs := sp_syncs p + 1, sp_synced_records := sp_records p\<rparr>)))))
     (\<lambda>_. firm b rest) (steady b rest)"
proof -
  have sync: "run_ok (steady b rest) (on_journal (sync_data wr sy)) (\<lambda>_. firm b rest) (steady b rest)" for wr sy
  proof (rule run_okI)
    fix s r t
    assume st: "steady b rest s" and m: "on_journal (sync_data wr sy) s = (r, t)"
    then obtain rs where h: "holding b rs rest s" by (auto simp: steady_def)
    note q = run_okD [OF run_sync h m]
    have "settled t" if "r = Inl e" for e
      using m that st by (auto simp: settled_def steady_def on_journal_def sync_data_def write_buffer_def
          split: if_splits sum.splits option.splits)
    then show "case r of Inl e \<Rightarrow> steady b rest t | Inr x \<Rightarrow> firm b rest t"
      using q by (cases r) (auto simp: steady_def firm_def)
  qed
  have c: "run_ok (firm b rest) (set_commit (\<lambda>c. c\<lparr>cm_since_sync := 0\<rparr>)) (\<lambda>_. firm b rest) (steady b rest)"
    unfolding set_commit_def by (rule run_ok_update) (simp add: firm_commit_update)
  have p: "run_ok (firm b rest) (set_current (\<lambda>p. p\<lparr>sp_syncs := sp_syncs p + 1, sp_synced_records := sp_records p\<rparr>))
      (\<lambda>_. firm b rest) (steady b rest)"
    by (rule run_quiet) (auto intro: quiet_set_current firm_steady)
  have a: "run_ok (steady b rest) (answer (we_sync env)) (\<lambda>_. steady b rest) (steady b rest)"
    by (rule run_quiet) auto
  show ?thesis
    by (rule run_ok_and_then [OF a])
      (simp only: split_beta, intro run_ok_before [OF sync] run_ok_before [OF c] p)
qed

lemma run_commit_flush:
  "run_ok (\<lambda>s. steady b rest s \<and> cm_since_sync (ws_commit s) = 0)
     (and_then (answer (we_flush env)) (\<lambda>(wr, fl). on_journal (flush_journal wr fl)))
     (\<lambda>_. firm b rest) (steady b rest)"
proof -
  let ?P = "\<lambda>s. steady b rest s \<and> cm_since_sync (ws_commit s) = 0"
  have "insensitive (\<lambda>s. cm_since_sync (ws_commit s) = 0)" by (simp add: insensitive_def core_def)
  then have "insensitive ?P" by (intro insensitive_conj) simp_all
  then have a: "run_ok ?P (answer (we_flush env)) (\<lambda>_. ?P) (steady b rest)"
    by (auto intro: run_quiet)
  have f: "run_ok ?P (on_journal (flush_journal wr fl)) (\<lambda>_. firm b rest) (steady b rest)" for wr fl
  proof (rule run_okI)
    fix s r t
    assume st: "?P s" and m: "on_journal (flush_journal wr fl) s = (r, t)"
    then obtain rs where h: "holding b rs rest s" by (auto simp: steady_def)
    note q = run_okD [OF run_flush h m]
    have "settled t" "r = Inr () \<Longrightarrow> jn_buffer (ws_journal t) = [] \<and> dk_synced (ws_disk t) = length (dk_file (ws_disk t))"
      using m st by (auto simp: settled_def steady_def on_journal_def flush_journal_def write_buffer_def
          split: if_splits sum.splits option.splits)
    then show "case r of Inl e \<Rightarrow> steady b rest t | Inr x \<Rightarrow> firm b rest t"
      using q by (cases r) (auto simp: steady_def firm_def)
  qed
  show ?thesis
    by (rule run_ok_and_then [OF a]) (auto split: prod.splits intro!: f)
qed

lemma run_commit: "run_ok (steady b rest) (commit env) (\<lambda>_. firm b rest) (steady b rest)"
proof -
  have first: "run_ok (\<lambda>s. steady b rest s \<and> s = s0)
      (if cm_since_sync (ws_commit s0) > 0 then
         and_then (answer (we_sync env)) (\<lambda>(wr, sy).
         before (on_journal (sync_data wr sy))
         (before (set_commit (\<lambda>c. c\<lparr>cm_since_sync := 0\<rparr>))
           (set_current (\<lambda>p. p\<lparr>sp_syncs := sp_syncs p + 1, sp_synced_records := sp_records p\<rparr>))))
       else
         and_then (answer (we_flush env)) (\<lambda>(wr, fl). on_journal (flush_journal wr fl)))
      (\<lambda>_. firm b rest) (steady b rest)" for s0
    using run_ok_pre [OF run_commit_sync [of b rest env], of "\<lambda>s. steady b rest s \<and> s = s0"]
      run_ok_pre [OF run_commit_flush [of b rest env], of "\<lambda>s. steady b rest s \<and> s = s0"]
    by auto
  have now: "run_ok (firm b rest) (answer (we_now env)) (\<lambda>_. firm b rest) (steady b rest)"
    by (rule run_quiet) (auto intro: firm_steady)
  have last: "run_ok (firm b rest) (set_commit (\<lambda>c. c\<lparr>cm_last := now\<rparr>)) (\<lambda>_. firm b rest) (steady b rest)" for now
    unfolding set_commit_def by (rule run_ok_update) (simp add: firm_commit_update)
  let ?T = "\<lambda>s1. (let pending = (cm_pending_cursor_path (ws_commit s1), cm_pending_cursor (ws_commit s1))
       in before (set_commit (\<lambda>c. c\<lparr>cm_pending_cursor_path := None, cm_pending_cursor := None\<rparr>))
            (store_pending env pending))"
  have rest: "run_ok (firm b rest) (with_state ?T) (\<lambda>_. firm b rest) (steady b rest)"
  proof (rule run_ok_with_state)
    fix s1
    assume f: "firm b rest s1"
    let ?pending = "(cm_pending_cursor_path (ws_commit s1), cm_pending_cursor (ws_commit s1))"
    let ?Q = "\<lambda>s. firm b rest s \<and> (\<forall>c. snd ?pending = Some c \<longrightarrow>
       made_from b (ws_taken s) c \<and> dc_journal_offset c \<le> dk_synced (ws_disk s))"
    have "run_ok (\<lambda>s. firm b rest s \<and> s = s1)
        (set_commit (\<lambda>c. c\<lparr>cm_pending_cursor_path := None, cm_pending_cursor := None\<rparr>)) (\<lambda>_. ?Q) (steady b rest)"
      unfolding set_commit_def
      by (rule run_ok_update) (use pending_covered [OF f] in \<open>auto intro: firm_commit_update\<close>)
    moreover have "run_ok ?Q (store_pending env ?pending) (\<lambda>_. firm b rest) (steady b rest)"
      by (rule run_ok_conseq [OF run_store_pending]) (auto intro: firm_steady)
    ultimately show "run_ok (\<lambda>s. firm b rest s \<and> s = s1) (?T s1) (\<lambda>_. firm b rest) (steady b rest)"
      unfolding Let_def by (rule run_ok_before)
  qed
  show ?thesis
    unfolding commit_def
    by (rule run_ok_with_state, rule run_ok_before [OF first], rule run_ok_and_then [OF now],
        rule run_ok_before [OF last rest])
qed

section \<open>Appending\<close>

lemma numbered_single [simp]: "numbered n [r] = [set_sequence r n]"
  by simp

lemma journal_with_snoc:
  "encode_into (set_sequence r (st_next b + length rs)) = Inr body
    \<Longrightarrow> journal_with b (rs @ [r]) = journal_with b rs @ frame (st_crc b) body"
  by (simp add: journal_with_append record_frame_def)

lemma reservation_disk:
  "reservation io j d = (res, d1) \<Longrightarrow> dk_file d1 = dk_file d \<and> dk_synced d1 = dk_synced d"
  by (auto simp: reservation_def write_watermark_def Let_def split: if_splits option.splits watermark_io.splits)

lemma journal_at_accepted:
  assumes "journal_at b rs j d" "\<not> jn_poisoned j" "dk_file d1 = dk_file d"
    and "encode_into (set_sequence r (jn_next_sequence j)) = Inr body"
  shows "journal_at b (rs @ [r]) (accepted (st_crc b) j reserved body) d1"
proof -
  have "jn_next_sequence j = st_next b + length rs" using assms(1) by (simp add: journal_at_def)
  then have "journal_with b (rs @ [r]) = journal_with b rs @ frame (st_crc b) body"
    using assms(4) by (simp add: journal_with_snoc)
  moreover have "dk_file d @ jn_buffer j = journal_with b rs" using assms(1,2) by (simp add: journal_at_def)
  ultimately show ?thesis
    using assms(1-3) by (simp add: journal_at_def accepted_def push_frame_append length_frame flip: append_assoc)
qed

lemma holding_accepted:
  assumes "holding b rs (r # rest) s" "journal_at b (rs @ [r]) j d" "prefix (dk_file d) (journal_with b (rs @ [r]))"
    and "dk_synced (ws_disk s) \<le> dk_synced d" "dk_synced d \<le> length (dk_file d)"
  shows "holding b (rs @ [r]) rest (s\<lparr>ws_journal := j, ws_disk := d\<rparr>)"
proof -
  have tr: "taken_raws (st_source b) (ws_taken s) = (rs @ [r]) @ rest" using assms(1) by (simp add: holding_def)
  have "prefix (dk_file d) (journal_with b ((rs @ [r]) @ rest))"
    using assms(3) by (rule prefix_journal_with)
  then have "prefix (dk_file d) (journal_with b (taken_raws (st_source b) (ws_taken s)))"
    unfolding tr .
  then have "kept b (s\<lparr>ws_journal := j, ws_disk := d\<rparr>)"
    using kept_advance [OF holding_kept [OF assms(1)]] assms(4,5) by blast
  moreover have "length (journal_with b rs) \<le> length (journal_with b (rs @ [r]))"
    by (simp add: journal_with_append)
  then have "pending_ok b (rs @ [r]) (s\<lparr>ws_journal := j, ws_disk := d\<rparr>)"
    using assms(1) by (fastforce simp: holding_def pending_ok_def)
  ultimately show ?thesis using tr assms(1,2) by (simp add: holding_def)
qed

lemma run_append:
  "run_ok (holding b rs (r # rest)) (on_journal (\<lambda>j d. append_record (st_crc b) io j d r))
     (\<lambda>_. holding b (rs @ [r]) rest) (kept b)"
proof (rule run_okI)
  fix s res t
  assume h: "holding b rs (r # rest) s"
    and m: "on_journal (\<lambda>j d. append_record (st_crc b) io j d r) s = (res, t)"
  let ?j = "ws_journal s" and ?d = "ws_disk s"
  let ?refused = "jn_poisoned ?j \<or> rid_source (rr_id r) \<noteq> jn_source ?j \<or> u64_max < jn_next_sequence ?j + 1
    \<or> (\<exists>e. encode_into (set_sequence r (jn_next_sequence ?j)) = Inl e)"
  show "case res of Inl e \<Rightarrow> kept b t | Inr x \<Rightarrow> holding b (rs @ [r]) rest t"
  proof (cases ?refused)
    case True
    from append_refused [OF this, of "st_crc b" io ?d] m holding_kept [OF h] show ?thesis
      by (auto simp: on_journal_def)
  next
    case False
    then obtain body where live: "\<not> jn_poisoned ?j" "rid_source (rr_id r) = jn_source ?j"
      "jn_next_sequence ?j + 1 \<le> u64_max"
      and enc: "encode_into (set_sequence r (jn_next_sequence ?j)) = Inr body"
      by (cases "encode_into (set_sequence r (jn_next_sequence ?j))") auto
    note taken = append_taken [OF live enc, of "st_crc b" io ?d]
    obtain rv d1 where rsv: "reservation io ?j ?d = (rv, d1)" by (metis surj_pair)
    note same = reservation_disk [OF rsv]
    note synced = holding_synced [OF h]
    show ?thesis
    proof (cases rv)
      case (Inl e)
      have "kept b (s\<lparr>ws_journal := ?j, ws_disk := d1\<rparr>)"
        by (rule kept_advance [OF holding_kept [OF h]]) (use same synced holding_kept [OF h] in \<open>auto simp: kept_def\<close>)
      then show ?thesis using m taken rsv Inl by (auto simp: on_journal_def)
    next
      case (Inr reserved)
      let ?a = "accepted (st_crc b) ?j reserved body"
      have at: "journal_at b (rs @ [r]) ?a d1"
        using journal_at_accepted [OF holding_at [OF h] live(1) _ enc] same by blast
      have alive: "\<not> jn_poisoned ?a" using live(1) by (simp add: accepted_def)
      have h1: "holding b (rs @ [r]) rest (s\<lparr>ws_journal := ?a, ws_disk := d1\<rparr>)"
        by (rule holding_accepted [OF h at journal_at_prefix [OF at alive]]) (use same synced in auto)
      show ?thesis
      proof (cases "length (push_frame (st_crc b) (jn_buffer ?j) body) \<ge> write_buffer_bytes")
        case False
        then show ?thesis using m taken rsv Inr h1 by (auto simp: on_journal_def)
      next
        case True
        obtain res' j2 d2 where wb: "write_buffer (ai_write io) ?a d1 = (res', j2, d2)" by (metis prod_cases3)
        have h2: "holding b (rs @ [r]) rest (s\<lparr>ws_journal := j2, ws_disk := d2\<rparr>)"
          using holding_write [OF h1, of "ai_write io" res' j2 d2] wb by simp
        then show ?thesis using m taken rsv Inr True wb holding_kept [OF h2]
          by (auto simp: on_journal_def split: sum.splits)
      qed
    qed
  qed
qed

lemma run_blocked:
  "run_ok (kept b) (storage_blocked env limit appended r rest) Q (kept b)"
proof -
  have p: "run_ok (kept b) (set_current (\<lambda>p. p\<lparr>sp_state := RuntimeStorageBlocked,
        sp_discarded_bytes := saturating_add_u64 (sp_discarded_bytes p)
          (payload_len r + sum_list (map payload_len rest)),
        sp_discarded_bytes_known := False, sp_last_error := Some (LimitReached limit)\<rparr>)) (\<lambda>_. kept b) (kept b)"
    by (intro run_quiet_keep quiet_set_current) simp_all
  have c: "run_ok (kept b) (set_commit (commit_appended appended)) (\<lambda>_. kept b) (kept b)"
    unfolding set_commit_def by (rule run_ok_update) (simp add: kept_def cursor_covered_def)
  have l: "run_ok (kept b) (record_catalog env (CatalogStorageBlocked limit (sp_discarded_bytes (ws_current s)) False))
      (\<lambda>_. kept b) (kept b)" for s
    by (intro run_quiet_keep) simp_all
  have e: "run_ok (kept b) (before publish (throw (StorageLimit limit))) Q (kept b)"
    by (rule run_ok_before [OF run_quiet_keep]) (auto intro: run_ok_throw)
  show ?thesis
    unfolding storage_blocked_def
    by (rule run_ok_before [OF p], rule run_ok_with_state, rule run_ok_pre [OF run_ok_before [OF l run_ok_before [OF c e]]])
      simp
qed

lemma run_append_loop:
  assumes "we_crc env = st_crc b"
  shows "run_ok (holding b rs batch) (append_loop env config batch n)
    (\<lambda>k s. k = n + length batch \<and> holding b (rs @ batch) [] s) (kept b)"
proof (induction batch arbitrary: rs n)
  case Nil
  show ?case by (simp, rule run_ok_ok) simp
next
  case (Cons r rest)
  let ?note = "\<lambda>id. with_state (\<lambda>s1. set_current (\<lambda>p. p\<lparr>sp_records := sp_records p + 1,
               sp_high_watermark := Some id, sp_journal_bytes := jn_written_bytes (ws_journal s1)\<rparr>))"
  have io: "run_ok (holding b rs (r # rest)) (answer (we_append env)) (\<lambda>_. holding b rs (r # rest)) (kept b)"
    by (rule run_quiet) (auto intro: holding_kept)
  have "quiet (?note id)" for id by (intro quiet_with_state quiet_set_current) simp
  then have note1: "run_ok (holding b (rs @ [r]) rest) (?note id) (\<lambda>_. holding b (rs @ [r]) rest) (kept b)" for id
    by (rule run_quiet) (auto intro: holding_kept)
  have go: "run_ok (holding b rs (r # rest))
      (and_then (answer (we_append env)) (\<lambda>io.
         and_then (on_journal (\<lambda>j d. append_record (we_crc env) io j d r)) (\<lambda>id.
         before (?note id) (append_loop env config rest (n + 1)))))
      (\<lambda>k s. k = n + length (r # rest) \<and> holding b (rs @ r # rest) [] s) (kept b)"
    unfolding assms
    by (rule run_ok_and_then [OF io], rule run_ok_and_then [OF run_append], rule run_ok_before [OF note1])
      (rule run_ok_conseq [OF Cons.IH [of "rs @ [r]" "n + 1"]], auto)
  have stop: "run_ok (holding b rs (r # rest)) (storage_blocked env limit n r rest)
      (\<lambda>k s. k = n + length (r # rest) \<and> holding b (rs @ r # rest) [] s) (kept b)" for limit
    by (rule run_ok_pre [OF run_blocked]) (auto intro: holding_kept)
  show ?case
    unfolding append_loop.simps
    by (rule run_ok_with_state)
      (auto simp: Let_def split: option.splits intro!: run_ok_pre [OF go, simplified] run_ok_pre [OF stop, simplified])
qed

lemma run_flush_holding:
  "run_ok (holding b rs rest) (and_then (answer (we_flush env)) (\<lambda>(wr, fl). on_journal (flush_journal wr fl)))
     (\<lambda>_. holding b rs rest) (kept b)"
proof -
  have a: "run_ok (holding b rs rest) (answer (we_flush env)) (\<lambda>_. holding b rs rest) (kept b)"
    by (rule run_quiet) (auto intro: holding_kept)
  have f: "run_ok (holding b rs rest) (on_journal (flush_journal wr fl)) (\<lambda>_. holding b rs rest) (kept b)" for wr fl
    by (rule run_ok_conseq [OF run_flush]) (auto intro: holding_kept)
  show ?thesis by (rule run_ok_and_then [OF a]) (simp only: split_beta, rule f)
qed

lemma appended_unsettled:
  "0 < n \<Longrightarrow> cm_since_sync (commit_appended n c) > 0"
  by (simp add: commit_appended_def saturating_add_u64_def u64_max_def)

lemma run_commit_keep: "run_ok (steady b rest) (commit env) (\<lambda>_. steady b rest) (kept b)"
  by (rule run_ok_conseq [OF run_commit]) (auto intro: firm_steady steady_kept)

lemma run_commit_if_due: "run_ok (steady b rest) (commit_if_due env) (\<lambda>_. steady b rest) (kept b)"
proof -
  have a: "run_ok (steady b rest) (answer (we_now env)) (\<lambda>_. steady b rest) (kept b)"
    by (rule run_quiet) (auto intro: steady_kept)
  have c: "run_ok (steady b rest) (with_state (\<lambda>s. when_ok (commit_due now (ws_commit s)) (commit env)))
      (\<lambda>_. steady b rest) (kept b)" for now
    by (rule run_ok_with_state, rule run_ok_when) (auto intro: run_ok_pre [OF run_commit_keep])
  show ?thesis unfolding commit_if_due_def by (rule run_ok_and_then [OF a c])
qed

lemma run_append_batch:
  assumes "we_crc env = st_crc b"
  shows "run_ok (steady b batch) (append_batch env config batch) (\<lambda>_. steady b []) (kept b)"
proof (cases "batch = []")
  case True
  then show ?thesis by (simp add: append_batch_def run_ok_ok)
next
  case False
  have quiet_keep: "run_ok (steady b []) m (\<lambda>_. steady b []) (kept b)" if "quiet m" for m :: "unit writer"
    using that by (rule run_quiet) (auto intro: steady_kept)
  have look: "quiet (and_then (answer (we_visible env)) (\<lambda>visible.
          when_ok (visible = RuntimeStopping \<or> visible = RuntimeAborting)
            (set_current (\<lambda>p. p\<lparr>sp_state := visible\<rparr>))))"
    by (intro quiet_and_then quiet_when quiet_set_current) simp_all
  have mark: "run_ok (holding b rs []) (set_commit (commit_appended n)) (\<lambda>_. steady b []) (kept b)" if "0 < n" for rs n
    unfolding set_commit_def
  proof (rule run_ok_update)
    fix s
    assume h: "holding b rs [] s"
    have "holding b rs [] (s\<lparr>ws_commit := commit_appended n (ws_commit s)\<rparr>)"
      using holding_commit_update [OF h] by (simp add: commit_appended_def)
    then show "steady b [] (s\<lparr>ws_commit := commit_appended n (ws_commit s)\<rparr>)"
      using appended_unsettled [OF that, of "ws_commit s"] by (auto simp: steady_def settled_def)
  qed
  have tail: "run_ok (steady b []) (before (commit_if_due env) (before (note_cpu env True)
      (before (and_then (answer (we_visible env)) (\<lambda>visible.
          when_ok (visible = RuntimeStopping \<or> visible = RuntimeAborting)
            (set_current (\<lambda>p. p\<lparr>sp_state := visible\<rparr>)))) publish))) (\<lambda>_. steady b []) (kept b)"
    by (rule run_ok_before [OF run_commit_if_due], rule run_ok_before [OF quiet_keep],
        simp, rule run_ok_before [OF quiet_keep [OF look]], rule quiet_keep, simp)
  have "run_ok (holding b rs batch)
     (and_then (append_loop env config batch 0) (\<lambda>appended.
       before (and_then (answer (we_flush env)) (\<lambda>(wr, fl). on_journal (flush_journal wr fl)))
       (before (set_commit (commit_appended appended))
       (before (commit_if_due env) (before (note_cpu env True)
       (before (and_then (answer (we_visible env)) (\<lambda>visible.
          when_ok (visible = RuntimeStopping \<or> visible = RuntimeAborting)
            (set_current (\<lambda>p. p\<lparr>sp_state := visible\<rparr>)))) publish))))))
     (\<lambda>_. steady b []) (kept b)" for rs
  proof (rule run_ok_and_then [OF run_append_loop [OF assms]])
    fix k :: nat
    let ?H = "\<lambda>s. k = 0 + length batch \<and> holding b (rs @ batch) [] s"
    let ?rest = "before (commit_if_due env) (before (note_cpu env True)
       (before (and_then (answer (we_visible env)) (\<lambda>visible.
          when_ok (visible = RuntimeStopping \<or> visible = RuntimeAborting)
            (set_current (\<lambda>p. p\<lparr>sp_state := visible\<rparr>)))) publish))"
    let ?m = "before (and_then (answer (we_flush env)) (\<lambda>(wr, fl). on_journal (flush_journal wr fl)))
       (before (set_commit (commit_appended k)) ?rest)"
    show "run_ok ?H ?m (\<lambda>_. steady b []) (kept b)"
    proof (cases "k = length batch")
      case True
      then have pos: "0 < k" using False by simp
      have "run_ok (holding b (rs @ batch) []) ?m (\<lambda>_. steady b []) (kept b)"
        by (rule run_ok_before [OF run_flush_holding run_ok_before [OF mark [OF pos] tail]])
      then show ?thesis by (rule run_ok_pre) simp
    next
      case False
      then show ?thesis by (simp add: run_ok_def)
    qed
  qed
  then show ?thesis using False
    unfolding append_batch_def by (fastforce simp: run_ok_def steady_def)
qed

section \<open>Messages\<close>

lemma made_from_later: "made_from b evs c \<Longrightarrow> made_from b (evs @ evs') c"
  unfolding made_from_def by (metis append_Cons append_assoc)

lemma kept_later: "kept b s \<Longrightarrow> kept b (s\<lparr>ws_taken := ws_taken s @ evs'\<rparr>)"
  using made_from_later [of b "ws_taken s" _ evs']
  by (auto simp: kept_def cursor_covered_def intro: prefix_journal_with)

lemma steady_later:
  assumes "steady b rest s"
  shows "steady b (rest @ to_raw (st_source b) (records_of ev)) (s\<lparr>ws_taken := ws_taken s @ [ev]\<rparr>)"
proof -
  obtain rs where h: "holding b rs rest s" and st: "settled s" using assms by (auto simp: steady_def)
  have "holding b rs (rest @ to_raw (st_source b) (records_of ev)) (s\<lparr>ws_taken := ws_taken s @ [ev]\<rparr>)"
    using h kept_later [of b s "[ev]"] made_from_later [of b "ws_taken s" _ "[ev]"]
    by (auto simp: holding_def pending_ok_def)
  moreover have "settled (s\<lparr>ws_taken := ws_taken s @ [ev]\<rparr>)" using st by (simp add: settled_def)
  ultimately show ?thesis by (auto simp: steady_def)
qed

fun message_records :: "writer_message \<Rightarrow> captured_record list" where
  "message_records (WriterEvent ev) = records_of ev"
| "message_records (WriterFinish _ _ _ _) = []"

fun last_taken :: "writer_message \<Rightarrow> writer_state \<Rightarrow> bool" where
  "last_taken (WriterEvent ev) s = (\<exists>pre. ws_taken s = pre @ [ev])"
| "last_taken (WriterFinish _ _ _ _) s = True"

lemma run_note_taken:
  "run_ok (steady b rest) (note_taken m)
     (\<lambda>_ s. steady b (rest @ to_raw (st_source b) (message_records m)) s \<and> last_taken m s) (kept b)"
  unfolding note_taken_def
  by (rule run_ok_update, cases m) (auto simp: steady_later)

lemma run_quiet_steady: "quiet m \<Longrightarrow> run_ok (steady b rest) m (\<lambda>_. steady b rest) (kept b)"
  by (rule run_quiet) (auto intro: steady_kept)

lemma kept_commit_update [simp]: "kept b (s\<lparr>ws_commit := c\<rparr>) = kept b s"
  by (simp add: kept_def cursor_covered_def)

lemma run_defer:
  "run_ok (\<lambda>s. steady b [] s \<and> last_taken (WriterEvent (FileCheckpoint aq cp en)) s)
     (defer_checkpoint aq cp en) (\<lambda>_. steady b []) (kept b)"
proof (rule run_okI)
  fix s r t
  assume st: "steady b [] s \<and> last_taken (WriterEvent (FileCheckpoint aq cp en)) s"
    and m: "defer_checkpoint aq cp en s = (r, t)"
  then obtain rs pre where h: "holding b rs [] s" and se: "settled s"
    and tk: "ws_taken s = pre @ [FileCheckpoint aq cp en]" by (auto simp: steady_def)
  have off: "jn_written_bytes (ws_journal s) = length (journal_with b rs)"
    using holding_at [OF h] by (simp add: journal_at_def)
  have rs: "rs = taken_raws (st_source b) pre"
    using h tk by (simp add: holding_def)
  show "case r of Inl e \<Rightarrow> kept b t | Inr x \<Rightarrow> steady b [] t"
  proof (cases "ws_file_cursor s")
    case None
    then show ?thesis using m steady_kept st by (auto simp: defer_checkpoint_def action_defs)
  next
    case (Some f)
    let ?c = "\<lparr>dc_schema_version = 1, dc_source = sp_source (ws_current s), dc_path = fc_source_path f,
            dc_acquisition = aq, dc_journal_offset = jn_written_bytes (ws_journal s),
            dc_file = cp, dc_encoding = en\<rparr>"
    have mf: "made_from b (ws_taken s) ?c"
      unfolding made_from_def tk off rs by auto
    have "holding b rs [] (s\<lparr>ws_commit := defer_cursor (fc_cursor_path f) ?c (ws_commit s)\<rparr>)"
      using h mf off by (simp add: holding_def pending_ok_def defer_cursor_def)
    moreover have "settled (s\<lparr>ws_commit := defer_cursor (fc_cursor_path f) ?c (ws_commit s)\<rparr>)"
      using se by (simp add: settled_def defer_cursor_def)
    ultimately show ?thesis
      using m Some by (auto simp: defer_checkpoint_def action_defs set_commit_def steady_def)
  qed
qed

lemma run_handle_event:
  "run_ok (\<lambda>s. steady b [] s \<and> last_taken (WriterEvent ev) s) (handle_event env ev) (\<lambda>_. steady b []) (kept b)"
proof (cases "\<exists>aq cp en. ev = FileCheckpoint aq cp en")
  case True
  then show ?thesis using run_defer by (auto simp: handle_event_def)
next
  case False
  then have "quiet (handle_event env ev)"
    by (cases ev) (auto simp: handle_event_def intro!: quiet_before quiet_set_current)
  from run_quiet_steady [OF this, of b "[]"] show ?thesis by (rule run_ok_pre) simp
qed

lemma run_note_other:
  assumes "\<And>rs. m \<noteq> WriterEvent (Records rs)"
  shows "run_ok (steady b rest) (note_taken m) (\<lambda>_ s. steady b rest s \<and> last_taken m s) (kept b)"
proof -
  have "message_records m = []" using assms by (cases m; cases "case m of WriterEvent ev \<Rightarrow> ev | _ \<Rightarrow> undefined") auto
  then show ?thesis using run_note_taken [of b rest m] by simp
qed

lemma run_note_records:
  "run_ok (steady b rest) (note_taken (WriterEvent (Records records)))
     (\<lambda>_. steady b (rest @ to_raw (st_source b) records)) (kept b)"
  by (rule run_ok_conseq [OF run_note_taken]) auto

lemma run_read_page:
  "run_ok (steady b rest) (on_journal (read_page crc wr offset mr mb)) (\<lambda>_. steady b rest) (steady b rest)"
proof (rule run_okI)
  fix s r t
  assume st: "steady b rest s" and m: "on_journal (read_page crc wr offset mr mb) s = (r, t)"
  then obtain rs where h: "holding b rs rest s" by (auto simp: steady_def)
  obtain res j d where wb: "write_buffer wr (ws_journal s) (ws_disk s) = (res, j, d)" by (metis prod_cases3)
  have t: "t = s\<lparr>ws_journal := j, ws_disk := d\<rparr>"
    using m wb by (auto simp: on_journal_def read_page_def split: sum.splits prod.splits)
  have "holding b rs rest t" using holding_write [OF h wb] t by simp
  moreover have "settled t"
    using st wb t by (auto simp: settled_def steady_def write_buffer_def split: if_splits option.splits)
  ultimately show "case r of Inl e \<Rightarrow> steady b rest t | Inr x \<Rightarrow> steady b rest t"
    by (auto simp: steady_def split: sum.split)
qed

section \<open>Along the loop\<close>

abbreviation with_crc :: "writer_env \<Rightarrow> run_start \<Rightarrow> run_start" where
  "with_crc env b \<equiv> b\<lparr>st_crc := we_crc env\<rparr>"

lemma run_note_records':
  "run_ok (steady b rest) (note_taken (WriterEvent (Records records)))
     (\<lambda>_. steady b (rest @ to_raw source records)) (kept b)" if "source = st_source b"
  using run_note_records that by simp

interpretation durable: writer_invariant env config "st_source b"
  "\<lambda>rest queue. steady (with_crc env b) rest" "\<lambda>queue. firm (with_crc env b) []"
  "\<lambda>queue. firm (with_crc env b) []"
  "\<lambda>m queue s. steady (with_crc env b) [] s \<and> last_taken m s" "kept (with_crc env b)"
proof
  show "run_ok (steady (with_crc env b) batch) (append_batch env config batch)
      (\<lambda>_. steady (with_crc env b) []) (kept (with_crc env b))" for batch
    by (rule run_append_batch) simp
  show "run_ok (steady (with_crc env b) rest) (note_taken (WriterEvent (Records records)))
      (\<lambda>_. steady (with_crc env b) (rest @ to_raw (st_source b) records)) (kept (with_crc env b))" for rest records
    by (rule run_note_records') simp
  show "sp_source (ws_current s) = st_source b" if "steady (with_crc env b) rest s" for rest s
    using that by (auto simp: steady_def holding_def)
  show "run_ok (\<lambda>s. steady (with_crc env b) [] s \<and> last_taken (WriterEvent ev) s) (handle_event env ev)
      (\<lambda>_. steady (with_crc env b) []) (kept (with_crc env b))" for ev
    by (rule run_handle_event)
qed (auto intro: steady_kept firm_steady run_commit run_note_other run_read_page)

section \<open>A run from a synced journal\<close>

definition starts_clean :: "run_start \<Rightarrow> writer_state \<Rightarrow> bool" where
  "starts_clean b s \<longleftrightarrow> ws_taken s = [] \<and> dk_file (ws_disk s) = st_file b
     \<and> dk_synced (ws_disk s) = length (st_file b) \<and> ws_cursor_visible s = st_visible b
     \<and> ws_cursor_stable s = st_stable b \<and> sp_source (ws_current s) = st_source b
     \<and> ws_journal s = \<lparr>jn_source = st_source b, jn_next_sequence = st_next b,
          jn_reserved_until = jn_reserved_until (ws_journal s), jn_written_bytes = length (st_file b),
          jn_buffer = [], jn_poisoned = False\<rparr>
     \<and> cm_since_sync (ws_commit s) = 0 \<and> cm_pending_cursor (ws_commit s) = None
     \<and> cm_pending_cursor_path (ws_commit s) = None"

lemma starts_fields:
  assumes "starts_clean b s"
  shows "jn_source (ws_journal s) = st_source b" "jn_next_sequence (ws_journal s) = st_next b"
    "jn_written_bytes (ws_journal s) = length (st_file b)" "jn_buffer (ws_journal s) = []"
    "\<not> jn_poisoned (ws_journal s)"
  using assms unfolding starts_clean_def by (metis journal.select_convs)+

lemma starts_steady: "starts_clean b s \<Longrightarrow> steady b [] s"
proof -
  assume c: "starts_clean b s"
  note j = starts_fields [OF c]
  have "holding b [] [] s"
    using c j by (simp add: holding_def kept_def cursor_covered_def journal_at_def journal_with_def
        pending_ok_def starts_clean_def)
  then show ?thesis using c j by (auto simp: steady_def settled_def starts_clean_def)
qed

lemma starts_with_crc: "st_crc b = we_crc env \<Longrightarrow> with_crc env b = b"
  by simp

lemma kept_after:
  assumes "starts_clean b s" "st_crc b = we_crc env" "run_writer env config wakes queue s = (r, t)"
  shows "kept b t \<and> (r = Some (Inr ()) \<longrightarrow> firm b [] t)"
proof -
  note b = starts_with_crc [OF assms(2)]
  have "steady (with_crc env b) [] s" using starts_steady [OF assms(1)] unfolding b .
  note loop = durable.loop [OF this assms(3), unfolded b]
  have "case r of Some (Inl e) \<Rightarrow> kept b t | Some (Inr _) \<Rightarrow> firm b [] t | None \<Rightarrow> steady b [] t"
    using loop by (simp split: option.splits sum.splits)
  then show ?thesis by (auto split: option.splits sum.splits intro: steady_kept firm_steady)
qed

text \<open>What a covered cursor says of the file.\<close>

lemma covered_content:
  assumes "kept b s" "made_from b (ws_taken s) c" "dc_journal_offset c \<le> dk_synced (ws_disk s)"
  shows "\<exists>pre post. ws_taken s = pre @ FileCheckpoint (dc_acquisition c) (dc_file c) (dc_encoding c) # post
    \<and> take (dc_journal_offset c) (dk_file (ws_disk s)) = journal_with b (taken_raws (st_source b) pre)"
proof -
  obtain pre post where ev: "ws_taken s = pre @ FileCheckpoint (dc_acquisition c) (dc_file c) (dc_encoding c) # post"
    and off: "dc_journal_offset c = length (journal_with b (taken_raws (st_source b) pre))"
    using assms(2) by (auto simp: made_from_def)
  have "prefix (dk_file (ws_disk s)) (journal_with b (taken_raws (st_source b) (ws_taken s)))"
    and "dc_journal_offset c \<le> length (dk_file (ws_disk s))"
    using assms by (auto simp: kept_def)
  then have "take (dc_journal_offset c) (dk_file (ws_disk s))
      = take (dc_journal_offset c) (journal_with b (taken_raws (st_source b) (ws_taken s)))"
    by (auto simp: prefix_def)
  moreover have "prefix (journal_with b (taken_raws (st_source b) pre)) (journal_with b (taken_raws (st_source b) (ws_taken s)))"
    unfolding ev by simp
  then have "take (dc_journal_offset c) (journal_with b (taken_raws (st_source b) (ws_taken s)))
      = journal_with b (taken_raws (st_source b) pre)"
    using off by (auto simp: prefix_def)
  ultimately show ?thesis using ev by auto
qed

end
