(* ===== verification/Ingest_Checkpoints.thy ===== *)
theory Ingest_Checkpoints
  imports Ingest_Durability
begin

text \<open>
  What a run of the writer keeps true of its queue and of the checkpoints in it: the messages are
  taken in order, and, while no store of the cursor fails, the last checkpoint taken is pending or
  is the cursor on disk.  With \<open>Ingest_Durability\<close> this gives what a run leaves behind.
\<close>

section \<open>The messages taken\<close>

definition events_of :: "writer_message list \<Rightarrow> capture_event list" where
  "events_of queue = concat (map (\<lambda>m. case m of WriterEvent ev \<Rightarrow> [ev] | WriterFinish _ _ _ _ \<Rightarrow> []) queue)"

lemma events_of_simps [simp]:
  "events_of [] = []" "events_of (queue @ queue') = events_of queue @ events_of queue'"
  "events_of (WriterEvent ev # queue) = ev # events_of queue"
  "events_of (WriterFinish requested discarded known listening # queue) = events_of queue"
  by (simp_all add: events_of_def)

lemma events_of_events [simp]: "events_of (map WriterEvent evs) = evs"
  by (induction evs) auto

definition last_checkpoint :: "capture_event list \<Rightarrow> (uuid \<times> file_resume_cursor \<times> file_encoding) option" where
  "last_checkpoint evs = fold (\<lambda>ev found. case ev of FileCheckpoint aq cp en \<Rightarrow> Some (aq, cp, en) | _ \<Rightarrow> found) evs None"

lemma last_checkpoint_simps [simp]:
  "last_checkpoint [] = None"
  "last_checkpoint (evs @ [ev]) = (case ev of FileCheckpoint aq cp en \<Rightarrow> Some (aq, cp, en) | _ \<Rightarrow> last_checkpoint evs)"
  by (simp_all add: last_checkpoint_def split: capture_event.split)

definition is_finish :: "writer_message \<Rightarrow> bool" where
  "is_finish m \<longleftrightarrow> (case m of WriterFinish _ _ _ _ \<Rightarrow> True | WriterEvent _ \<Rightarrow> False)"

section \<open>The invariant\<close>

definition names :: "durable_file_cursor \<Rightarrow> uuid \<times> file_resume_cursor \<times> file_encoding" where
  "names c = (dc_acquisition c, dc_file c, dc_encoding c)"

definition stored :: "run_start \<Rightarrow> durable_file_cursor option \<Rightarrow> durable_file_cursor option \<Rightarrow> capture_event list \<Rightarrow> bool" where
  "stored b vis stb evs \<longleftrightarrow> (case last_checkpoint evs of
     None \<Rightarrow> vis = st_visible b \<and> stb = st_stable b
   | Some k \<Rightarrow> (\<exists>c. vis = Some c \<and> stb = Some c \<and> names c = k))"

definition tracked :: "run_start \<Rightarrow> capture_event list \<Rightarrow> writer_state \<Rightarrow> bool" where
  "tracked b evs s \<longleftrightarrow>
     (case (cm_pending_cursor_path (ws_commit s), cm_pending_cursor (ws_commit s)) of
        (Some _, Some c) \<Rightarrow> last_checkpoint evs = Some (names c)
      | (None, None) \<Rightarrow> stored b (ws_cursor_visible s) (ws_cursor_stable s) evs
      | _ \<Rightarrow> False)"

definition stores_ok :: "writer_env \<Rightarrow> bool" where
  "stores_ok env \<longleftrightarrow> (\<forall>n. we_store env n = Watermark_Ok)"

definition follows :: "run_start \<Rightarrow> writer_env \<Rightarrow> writer_message list \<Rightarrow> writer_message list \<Rightarrow> writer_state \<Rightarrow> bool" where
  "follows b env all queue s \<longleftrightarrow> sp_source (ws_current s) = st_source b
     \<and> (\<exists>done. all = done @ queue \<and> ws_taken s = events_of done)
     \<and> (stores_ok env \<longrightarrow> tracked b (ws_taken s) s)"

definition ended :: "run_start \<Rightarrow> writer_env \<Rightarrow> writer_message list \<Rightarrow> writer_message list \<Rightarrow> writer_state \<Rightarrow> bool" where
  "ended b env all queue s \<longleftrightarrow> follows b env all queue s
     \<and> cm_pending_cursor_path (ws_commit s) = None \<and> cm_pending_cursor (ws_commit s) = None"

text \<open>What they depend on.\<close>

definition cursors :: "writer_state \<Rightarrow> string option \<times> durable_file_cursor option \<times> durable_file_cursor option
    \<times> durable_file_cursor option \<times> capture_event list \<times> source_id" where
  "cursors s = (cm_pending_cursor_path (ws_commit s), cm_pending_cursor (ws_commit s),
     ws_cursor_visible s, ws_cursor_stable s, ws_taken s, sp_source (ws_current s))"

lemma follows_cursors: "cursors s = cursors t \<Longrightarrow> follows b env all queue s = follows b env all queue t"
  by (simp add: cursors_def follows_def tracked_def split: option.split)

lemma core_cursors: "core s = core t \<Longrightarrow> cursors s = cursors t"
  by (simp add: core_def cursors_def)

definition still :: "'a writer \<Rightarrow> bool" where
  "still m \<longleftrightarrow> (\<forall>s r t. m s = (r, t) \<longrightarrow> cursors t = cursors s)"

lemma still_quiet [simp]: "quiet m \<Longrightarrow> still m"
  unfolding still_def quiet_def using core_cursors by blast

lemma still_and_then [simp]: "still m \<Longrightarrow> (\<And>x. still (f x)) \<Longrightarrow> still (and_then m f)"
  unfolding still_def and_then_def by (fastforce split: prod.splits sum.splits)

lemma still_before [simp]: "still m \<Longrightarrow> still n \<Longrightarrow> still (before m n)"
  by (simp add: before_def)

lemma still_with_state [simp]: "(\<And>s. still (f s)) \<Longrightarrow> still (with_state f)"
  by (simp add: still_def with_state_def)

lemma still_when [simp]: "still m \<Longrightarrow> still (when_ok b m)"
  by (simp add: when_ok_def)

lemma still_journal [simp]: "still (on_journal f)"
  by (auto simp: still_def on_journal_def cursors_def split: prod.splits sum.splits)

lemma still_set_commit:
  "(\<And>c. cm_pending_cursor_path (f c) = cm_pending_cursor_path c \<and> cm_pending_cursor (f c) = cm_pending_cursor c)
    \<Longrightarrow> still (set_commit f)"
  by (simp add: still_def set_commit_def update_def cursors_def)

lemma still_appended [simp]: "still (set_commit (commit_appended n))"
  by (rule still_set_commit) (simp add: commit_appended_def)

lemma run_still: "still m \<Longrightarrow> run_ok (follows b env all queue) m (\<lambda>_. follows b env all queue) (follows b env all queue)"
  by (rule run_okI) (auto simp: still_def dest!: follows_cursors split: sum.split)

section \<open>Batches and commits\<close>

lemma still_blocked [simp]: "still (storage_blocked env limit appended r rest)"
  unfolding storage_blocked_def
  by (intro still_before still_with_state still_appended still_quiet quiet_set_current quiet_catalog quiet_publish quiet_throw) simp

lemma still_append_loop [simp]: "still (append_loop env config batch n)"
proof (induction batch arbitrary: n)
  case Nil
  show ?case by simp
next
  case (Cons r rest)
  have "still (with_state (\<lambda>s1. set_current (\<lambda>p. p\<lparr>sp_records := sp_records p + 1,
               sp_high_watermark := Some id, sp_journal_bytes := jn_written_bytes (ws_journal s1)\<rparr>)))" for id
    by (intro still_quiet quiet_with_state quiet_set_current) simp
  then show ?case using Cons.IH by (auto simp: Let_def intro!: still_with_state split: option.split)
qed

lemma run_follows_commit:
  "run_ok (follows b env all queue) (commit env) (\<lambda>_. ended b env all queue) (follows b env all queue)"
proof -
  let ?F = "follows b env all queue"
  have sy: "still (and_then (answer (we_sync env)) (\<lambda>(wr, sy).
         before (on_journal (sync_data wr sy))
         (before (set_commit (\<lambda>c. c\<lparr>cm_since_sync := 0\<rparr>))
           (set_current (\<lambda>p. p\<lparr>sp_syncs := sp_syncs p + 1, sp_synced_records := sp_records p\<rparr>)))))"
    unfolding split_beta
    by (intro still_and_then still_before still_journal still_set_commit still_quiet quiet_answer quiet_set_current) simp_all
  have fl: "still (and_then (answer (we_flush env)) (\<lambda>(wr, fl). on_journal (flush_journal wr fl)))"
    unfolding split_beta by simp
  have now: "still (answer (we_now env))" by simp
  have last: "still (set_commit (\<lambda>c. c\<lparr>cm_last := now\<rparr>))" for now
    by (rule still_set_commit) simp
  have rest: "run_ok (\<lambda>s. ?F s \<and> s = s1)
      (before (set_commit (\<lambda>c. c\<lparr>cm_pending_cursor_path := None, cm_pending_cursor := None\<rparr>))
         (store_pending env (cm_pending_cursor_path (ws_commit s1), cm_pending_cursor (ws_commit s1))))
      (\<lambda>_. ended b env all queue) ?F" for s1
  proof (rule run_okI)
    fix s r t
    assume f: "?F s \<and> s = s1" and m: "before (set_commit (\<lambda>c. c\<lparr>cm_pending_cursor_path := None, cm_pending_cursor := None\<rparr>))
         (store_pending env (cm_pending_cursor_path (ws_commit s1), cm_pending_cursor (ws_commit s1))) s = (r, t)"
    have bad: "\<not> stores_ok env" if "we_store env n \<noteq> Watermark_Ok" for n using that by (auto simp: stores_ok_def)
    show "case r of Inl e \<Rightarrow> ?F t | Inr x \<Rightarrow> ended b env all queue t"
    proof (cases "\<exists>path c. cm_pending_cursor_path (ws_commit s1) = Some path \<and> cm_pending_cursor (ws_commit s1) = Some c")
      case True
      then obtain path c where p: "cm_pending_cursor_path (ws_commit s1) = Some path" "cm_pending_cursor (ws_commit s1) = Some c"
        by blast
      show ?thesis
        using f m p bad [of "ws_calls s"]
        by (cases "we_store env (ws_calls s)")
          (auto simp: follows_def ended_def tracked_def stored_def store_pending_def store_cursor_def set_commit_def
            answer_def action_defs)
    next
      case False
      then show ?thesis
        using f m
        by (cases "cm_pending_cursor_path (ws_commit s1)"; cases "cm_pending_cursor (ws_commit s1)")
          (auto simp: follows_def ended_def tracked_def store_pending_def set_commit_def action_defs)
    qed
  qed
  show ?thesis
    unfolding commit_def Let_def
    by (rule run_ok_with_state, rule run_ok_before, rule run_ok_pre [where P' = "?F"],
        rule run_ok_if, rule run_still [OF sy], rule run_still [OF fl], simp,
        rule run_ok_and_then [OF run_still [OF now]], rule run_ok_before [OF run_still [OF last]],
        rule run_ok_with_state, rule rest)
qed

lemma ended_follows: "ended b env all queue s \<Longrightarrow> follows b env all queue s"
  by (simp add: ended_def)

definition in_order :: "writer_message list \<Rightarrow> writer_state \<Rightarrow> bool" where
  "in_order all s \<longleftrightarrow> prefix (ws_taken s) (events_of all)"

lemma follows_in_order: "follows b env all queue s \<Longrightarrow> in_order all s"
  by (auto simp: follows_def in_order_def)

lemma run_follows_still: "still m \<Longrightarrow> run_ok (follows b env all queue) m (\<lambda>_. follows b env all queue) (in_order all)"
  by (rule run_ok_conseq [OF run_still]) (auto intro: follows_in_order)

lemma run_follows_batch:
  "run_ok (follows b env all queue) (append_batch env config batch) (\<lambda>_. follows b env all queue) (in_order all)"
proof -
  let ?F = "follows b env all queue"
  have due: "run_ok ?F (commit_if_due env) (\<lambda>_. ?F) (in_order all)"
    unfolding commit_if_due_def
    by (rule run_ok_and_then [OF run_follows_still], simp, rule run_ok_with_state, rule run_ok_when)
      (auto intro: run_ok_conseq [OF run_follows_commit] ended_follows follows_in_order)
  have flush: "still (and_then (answer (we_flush env)) (\<lambda>(wr, fl). on_journal (flush_journal wr fl)))"
    unfolding split_beta by simp
  have look: "still (and_then (answer (we_visible env)) (\<lambda>visible.
          when_ok (visible = RuntimeStopping \<or> visible = RuntimeAborting)
            (set_current (\<lambda>p. p\<lparr>sp_state := visible\<rparr>))))"
    by (intro still_quiet quiet_and_then quiet_when quiet_set_current) simp_all
  have cpu: "run_ok ?F (note_cpu env True) (\<lambda>_. ?F) (in_order all)" by (rule run_follows_still) simp
  have mark: "run_ok ?F (set_commit (commit_appended n)) (\<lambda>_. ?F) (in_order all)" for n
    by (rule run_follows_still) simp
  have pub: "run_ok ?F publish (\<lambda>_. ?F) (in_order all)" by (rule run_follows_still) simp
  have app: "run_ok ?F (append_loop env config batch 0) (\<lambda>_. ?F) (in_order all)" by (rule run_follows_still) simp
  note after = run_ok_before [OF run_follows_still [OF flush] run_ok_before [OF mark run_ok_before [OF due
    run_ok_before [OF cpu run_ok_before [OF run_follows_still [OF look] pub]]]]]
  show ?thesis
    unfolding append_batch_def
    by (rule run_ok_if, rule run_ok_ok, assumption, rule run_ok_and_then [OF app after])
qed

section \<open>Messages\<close>

definition noted :: "run_start \<Rightarrow> writer_env \<Rightarrow> writer_message list \<Rightarrow> writer_message \<Rightarrow> writer_message list \<Rightarrow> writer_state \<Rightarrow> bool" where
  "noted b env all m queue s \<longleftrightarrow> sp_source (ws_current s) = st_source b
     \<and> (\<exists>done. all = done @ m # queue \<and> ws_taken s = events_of (done @ [m])
          \<and> (stores_ok env \<longrightarrow> tracked b (events_of done) s))"

lemma tracked_taken [simp]: "tracked b evs (s\<lparr>ws_taken := evs'\<rparr>) = tracked b evs s"
  by (simp add: tracked_def split: option.split)

lemma run_follows_noted:
  "run_ok (follows b env all (m # queue)) (note_taken m) (\<lambda>_. noted b env all m queue) (in_order all)"
  unfolding note_taken_def
  by (rule run_ok_update) (cases m; fastforce simp: follows_def noted_def)

lemma tracked_other:
  "(\<And>aq cp en. ev \<noteq> FileCheckpoint aq cp en) \<Longrightarrow> tracked b (evs @ [ev]) s = tracked b evs s"
  by (cases ev) (auto simp: tracked_def stored_def split: option.split)

lemma noted_event:
  assumes "noted b env all (WriterEvent ev) queue s" "\<And>aq cp en. ev \<noteq> FileCheckpoint aq cp en"
  shows "follows b env all queue s"
proof -
  obtain d where "all = d @ WriterEvent ev # queue" "ws_taken s = events_of d @ [ev]"
    "stores_ok env \<longrightarrow> tracked b (events_of d) s" "sp_source (ws_current s) = st_source b"
    using assms(1) by (auto simp: noted_def)
  then show ?thesis
    using tracked_other [of ev b "events_of d" s] assms(2)
    by (auto simp: follows_def intro!: exI [of _ "d @ [WriterEvent ev]"])
qed

lemma noted_finish: "noted b env all (WriterFinish requested discarded known listening) queue s \<Longrightarrow> follows b env all queue s"
  by (fastforce simp: noted_def follows_def)

lemma noted_in_order: "noted b env all m queue s \<Longrightarrow> in_order all s"
  unfolding noted_def in_order_def
  by (metis append_Cons append_Nil append_assoc events_of_simps(2) prefixI)

lemma run_follows_defer:
  "run_ok (noted b env all (WriterEvent (FileCheckpoint aq cp en)) queue) (defer_checkpoint aq cp en)
     (\<lambda>_. follows b env all queue) (in_order all)"
proof (rule run_okI)
  fix s r t
  assume n: "noted b env all (WriterEvent (FileCheckpoint aq cp en)) queue s"
    and m: "defer_checkpoint aq cp en s = (r, t)"
  obtain d where d: "all = d @ WriterEvent (FileCheckpoint aq cp en) # queue"
    "ws_taken s = events_of d @ [FileCheckpoint aq cp en]" "sp_source (ws_current s) = st_source b"
    using n by (auto simp: noted_def)
  show "case r of Inl e \<Rightarrow> in_order all t | Inr x \<Rightarrow> follows b env all queue t"
  proof (cases "ws_file_cursor s")
    case None
    then show ?thesis using m noted_in_order [OF n] by (auto simp: defer_checkpoint_def action_defs)
  next
    case (Some f)
    then show ?thesis using m d
      by (auto simp: defer_checkpoint_def action_defs set_commit_def follows_def tracked_def defer_cursor_def names_def
          intro!: exI [of _ "d @ [WriterEvent (FileCheckpoint aq cp en)]"])
  qed
qed

lemma run_follows_event:
  "run_ok (noted b env all (WriterEvent ev) queue) (handle_event env ev) (\<lambda>_. follows b env all queue) (in_order all)"
proof (cases "\<exists>aq cp en. ev = FileCheckpoint aq cp en")
  case True
  then show ?thesis using run_follows_defer by (auto simp: handle_event_def)
next
  case False
  then have "quiet (handle_event env ev)"
    by (cases ev) (auto simp: handle_event_def intro!: quiet_before quiet_set_current)
  from run_follows_still [OF still_quiet [OF this]] show ?thesis
    by (rule run_ok_pre) (use noted_event False in blast)
qed

lemma run_follows_records:
  "run_ok (follows b env all (WriterEvent (Records records) # queue)) (note_taken (WriterEvent (Records records)))
     (\<lambda>_. follows b env all queue) (in_order all)"
  by (rule run_ok_conseq [OF run_follows_noted]) (auto intro: noted_event)

lemma insensitive_follows [simp]: "insensitive (follows b env all queue)"
  unfolding insensitive_def using core_cursors follows_cursors by blast

lemma insensitive_ended [simp]: "insensitive (ended b env all queue)"
proof -
  have "insensitive (\<lambda>s. cm_pending_cursor_path (ws_commit s) = None \<and> cm_pending_cursor (ws_commit s) = None)"
    by (simp add: insensitive_def core_def)
  from insensitive_conj [OF insensitive_follows this] show ?thesis unfolding ended_def [abs_def] .
qed

section \<open>Along the loop\<close>

definition at_end :: "run_start \<Rightarrow> writer_env \<Rightarrow> writer_message list \<Rightarrow> writer_message list \<Rightarrow> writer_state \<Rightarrow> bool" where
  "at_end b env all queue s \<longleftrightarrow> ended b env all queue s
     \<and> (queue = [] \<or> (\<exists>done m. all = done @ m # queue \<and> is_finish m))"

interpretation tracking: writer_invariant env config "st_source b"
  "\<lambda>rest. follows b env all" "ended b env all" "at_end b env all" "noted b env all" "in_order all"
proof
  show "run_ok (follows b env all queue) (commit env) (\<lambda>_. ended b env all queue) (follows b env all queue)" for queue
    by (rule run_follows_commit)
  show "run_ok (noted b env all (WriterEvent ev) queue) (handle_event env ev) (\<lambda>_. follows b env all queue) (in_order all)"
    for ev queue
    by (rule run_follows_event)
  show "at_end b env all queue s"
    if "noted b env all (WriterFinish requested discarded known listening) queue s0" "ended b env all queue s"
    for requested discarded known listening queue s0 s
    using that by (auto simp: at_end_def noted_def is_finish_def)
  show "sp_source (ws_current s) = st_source b" if "follows b env all queue s" for queue s
    using that by (simp add: follows_def)
qed (auto simp: at_end_def intro: follows_in_order ended_follows run_follows_batch run_follows_records
    run_follows_noted noted_finish run_still)

lemma run_in_order:
  assumes "starts_clean b s" "run_writer env config wakes queue s = (r, t)"
  shows "in_order queue t \<and> (r = Some (Inr ()) \<longrightarrow> (\<exists>left. at_end b env queue left t))"
proof -
  have "tracked b [] s"
    using assms(1) by (simp add: starts_clean_def tracked_def stored_def)
  then have "follows b env queue queue s"
    using assms(1) by (simp add: follows_def starts_clean_def)
  from tracking.loop [OF this assms(2)] show ?thesis
    by (auto simp: at_end_def split: option.splits sum.splits intro: follows_in_order ended_follows)
qed

lemma cursor_on_disk:
  assumes "starts_clean b s" "st_crc b = we_crc env" "run_writer env config wakes queue s = (r, t)"
    and "found = ws_cursor_visible t \<or> found = ws_cursor_stable t" "found \<noteq> st_visible b" "found \<noteq> st_stable b"
  shows "\<exists>c pre post. found = Some c
    \<and> events_of queue = pre @ FileCheckpoint (dc_acquisition c) (dc_file c) (dc_encoding c) # post
    \<and> dc_journal_offset c \<le> dk_synced (ws_disk t)
    \<and> take (dc_journal_offset c) (dk_file (ws_disk t)) = journal_with b (taken_raws (st_source b) pre)"
proof -
  have k: "kept b t" using kept_after [OF assms(1-3)] by simp
  have "cursor_covered b t found" using k assms(4) by (auto simp: kept_def)
  then obtain c where c: "found = Some c" "made_from b (ws_taken t) c" "dc_journal_offset c \<le> dk_synced (ws_disk t)"
    using assms(5,6) by (auto simp: cursor_covered_def)
  obtain pre post where p: "ws_taken t = pre @ FileCheckpoint (dc_acquisition c) (dc_file c) (dc_encoding c) # post"
    "take (dc_journal_offset c) (dk_file (ws_disk t)) = journal_with b (taken_raws (st_source b) pre)"
    using covered_content [OF k c(2,3)] by blast
  have "in_order queue t" using run_in_order [OF assms(1,3)] by simp
  then obtain more' where "events_of queue = ws_taken t @ more'" unfolding in_order_def prefix_def by blast
  then show ?thesis using c p by (intro exI [of _ c] exI [of _ pre] exI [of _ "post @ more'"]) simp
qed

end
