(* ===== verification/Ingest_Runs.thy ===== *)
theory Ingest_Runs
  imports Ingest_Checkpoints File_Capture
begin

text \<open>
  What a run of the writer promises, alone and fed by a file capture; and what it does not promise
  when it starts over a journal whose recovered tail was never synced.
\<close>

section \<open>A short run, for the witnesses\<close>

text \<open>One record, its checkpoint, and the end.\<close>

definition sample_writer_env :: writer_env where
  "sample_writer_env = \<lparr>we_crc = \<lambda>_. 5, we_append = \<lambda>_. \<lparr>ai_watermark = Watermark_Ok, ai_position = 0, ai_write = None\<rparr>,
     we_flush = \<lambda>_. (None, True), we_sync = \<lambda>_. (None, True), we_page = \<lambda>_. None,
     we_store = \<lambda>_. Watermark_Ok, we_catalog = \<lambda>_. True, we_now = \<lambda>_. 0, we_cpu = \<lambda>_. 1,
     we_visible = \<lambda>_. RuntimeStopped\<rparr>"

definition sample_progress :: source_progress where
  "sample_progress = \<lparr>sp_source = sample_source, sp_generation = 1, sp_state = RuntimeRunning, sp_records = 0,
     sp_high_watermark = None, sp_journal_bytes = 0, sp_synced_records = 0, sp_syncs = 0, sp_handovers = 0,
     sp_writer_cpu_nanos = 0, sp_reader_cpu_nanos = 0, sp_boundaries = 0, sp_exit_code = None,
     sp_discarded_bytes = 0, sp_discarded_bytes_known = True, sp_last_error = None\<rparr>"

definition sample_config :: runtime_config where
  "sample_config = \<lparr>cf_batch_records = 4, cf_sync_every_records = 100, cf_sync_interval = 100,
     cf_max_page_records = 10, cf_max_page_bytes = 1000, cf_storage_limit_bytes = None\<rparr>"

definition sample_disk :: disk where
  "sample_disk = \<lparr>dk_file = [], dk_synced = 0, dk_seq = None, dk_seq_stable = None\<rparr>"

definition sample_journal :: journal where
  "sample_journal = \<lparr>jn_source = sample_source, jn_next_sequence = 0, jn_reserved_until = 0,
     jn_written_bytes = 0, jn_buffer = [], jn_poisoned = False\<rparr>"

definition sample_writer :: writer_state where
  "sample_writer = \<lparr>ws_journal = sample_journal, ws_current = sample_progress,
     ws_file_cursor = Some \<lparr>fc_cursor_path = ''cursor'', fc_source_path = ''log'', fc_durable = None\<rparr>,
     ws_commit = commit_new sample_config 0, ws_disk = sample_disk,
     ws_cursor_visible = None, ws_cursor_stable = None, ws_catalog = [], ws_published = sample_progress,
     ws_replies = [], ws_finish_replies = [], ws_calls = 0, ws_taken = []\<rparr>"

definition sample_start :: run_start where
  "sample_start = \<lparr>st_crc = \<lambda>_. 5, st_source = sample_source, st_file = [], st_next = 0,
     st_visible = None, st_stable = None\<rparr>"

definition sample_captured :: captured_record where
  "sample_captured = \<lparr>cr_captured_at = -5, cr_stream = Stdin, cr_bytes = owned_bytes [97],
     cr_delimiter = owned_bytes [LF], cr_acquisition = replicate 16 9, cr_chunk = End, cr_reader_cpu = 1\<rparr>"

definition sample_resume :: file_resume_cursor where
  "sample_resume = \<lparr>rc_offset = 2, rc_identity = None, rc_evidence = [97, LF], rc_content_crc32 = 2\<rparr>"

definition sample_queue :: "writer_message list" where
  "sample_queue = [WriterEvent (Records [sample_captured]),
     WriterEvent (FileCheckpoint (replicate 16 9) sample_resume Plain), WriterFinish RuntimeStopped 0 True True]"

lemma sample_starts [simp]: "starts_clean sample_start sample_writer"
  by (simp add: starts_clean_def sample_start_def sample_writer_def sample_journal_def sample_disk_def
      sample_progress_def commit_new_def)

lemma sample_env_simps [simp]:
  "we_crc sample_writer_env = (\<lambda>_. 5)" "we_now sample_writer_env = (\<lambda>_. 0)" "we_cpu sample_writer_env = (\<lambda>_. 1)"
  "we_flush sample_writer_env = (\<lambda>_. (None, True))" "we_sync sample_writer_env = (\<lambda>_. (None, True))"
  "we_catalog sample_writer_env = (\<lambda>_. True)" "we_visible sample_writer_env = (\<lambda>_. RuntimeStopped)"
  "we_store sample_writer_env = (\<lambda>_. Watermark_Ok)"
  "we_append sample_writer_env = (\<lambda>_. \<lparr>ai_watermark = Watermark_Ok, ai_position = 0, ai_write = None\<rparr>)"
  "st_crc sample_start = (\<lambda>_. 5)" "st_source sample_start = sample_source" "st_file sample_start = []"
  "st_next sample_start = 0" "st_visible sample_start = None" "st_stable sample_start = None"
  by (simp_all add: sample_writer_env_def sample_start_def)

lemma sample_config_simps [simp]:
  "cf_batch_records sample_config = 4" "cf_sync_every_records sample_config = 100" "cf_sync_interval sample_config = 100"
  "cf_storage_limit_bytes sample_config = None"
  by (simp_all add: sample_config_def)

lemma sample_into_raw [simp]: "into_raw sample_captured sample_source = sample_record 0 [97]"
  by (simp add: into_raw_def sample_captured_def sample_record_def)

lemma sample_appended:
  "\<exists>body d. encode_into (sample_record 0 [97]) = Inr body \<and> length body = 60 \<and> dk_file d = [] \<and> dk_synced d = 0
    \<and> append_record (\<lambda>_. 5) \<lparr>ai_watermark = Watermark_Ok, ai_position = 0, ai_write = None\<rparr>
        sample_journal sample_disk (sample_record 0 [97])
      = (Inr (rr_id (sample_record 0 [97])), accepted (\<lambda>_. 5) sample_journal 1024 body, d)"
proof -
  let ?io = "\<lparr>ai_watermark = Watermark_Ok, ai_position = 0, ai_write = None\<rparr>"
  obtain body where body: "encode_into (sample_record 0 [97]) = Inr body" using sample_encodes by force
  have len: "length body = 60"
    using storableE [of sample_source "sample_record 0 [97]"] body by (auto simp: journal_fixed_def)
  have src: "rid_source (rr_id (sample_record 0 [97])) = sample_source" by (simp add: sample_record_def)
  obtain d where rsv: "reservation ?io sample_journal sample_disk = (Inr 1024, d)"
    by (simp add: reservation_def sequence_block_def checked_add_u64_def u64_max_def
        write_watermark_def Let_def sample_journal_def)
  have "append_record (\<lambda>_. 5) ?io sample_journal sample_disk (sample_record 0 [97])
      = (Inr (rr_id (sample_record 0 [97])), accepted (\<lambda>_. 5) sample_journal 1024 body, d)"
    using append_taken [of sample_journal "sample_record 0 [97]" body "\<lambda>_. 5" ?io sample_disk] src body rsv len
    by (simp add: u64_max_def push_frame_append write_buffer_bytes_def journal_header_def sample_journal_def)
  then show ?thesis using body len reservation_disk [OF rsv] by (auto simp: sample_disk_def)
qed

lemma sample_run:
  "\<exists>t c. run_writer sample_writer_env sample_config [EventWake 2, EventWake 2] sample_queue sample_writer = (Some (Inr ()), t)
    \<and> ws_cursor_stable t = Some c \<and> ws_cursor_visible t = Some c \<and> dc_journal_offset c = 76 \<and> dc_file c = sample_resume"
proof -
  obtain body d where b: "encode_into (sample_record 0 [97]) = Inr body" "length body = 60" "dk_file d = []" "dk_synced d = 0"
    "append_record (\<lambda>_. 5) \<lparr>ai_watermark = Watermark_Ok, ai_position = 0, ai_write = None\<rparr>
        sample_journal sample_disk (sample_record 0 [97])
      = (Inr (rr_id (sample_record 0 [97])), accepted (\<lambda>_. 5) sample_journal 1024 body, d)"
    using sample_appended by blast
  have nb: "frame (\<lambda>_. 5) body \<noteq> []"
    using b(2) length_frame [of "\<lambda>_. 5" body] by (metis add_is_0 list.size(3) zero_neq_numeral)
  show ?thesis
    using b nb
    by (simp add: sample_queue_def sample_writer_def commit_overdue_def serve_wake_def append_records_def action_defs
        answer_def commit_due_def outstanding_def commit_new_def note_taken_def take_records_def set_current_def to_raw_def
        sample_progress_def append_batch_def on_journal_def saturating_add_u64_def u64_max_def
        flush_journal_def write_buffer_def accepted_def sample_journal_def push_frame_append set_commit_def commit_appended_def
        commit_if_due_def note_cpu_def publish_def handle_non_record_def handle_event_def defer_checkpoint_def defer_cursor_def
        accumulated_capture_cpu_def Let_def attempt_def finish_writer_def commit_def sync_data_def store_pending_def
        store_cursor_def record_catalog_def journal_header_def)
qed

text \<open>A file capture that finds what its cursor says, and the writer it feeds.\<close>

definition sample_capture_env :: capture_env where
  "sample_capture_env = \<lparr>ce_memchr = find_byte, ce_deliver = \<lambda>i. True, ce_clock = \<lambda>_. ((\<lambda>_. 0), 0)\<rparr>"

definition sample_limits :: capture_limits where
  "sample_limits = \<lparr>cl_channel_capacity = 8, cl_read_chunk_bytes = 4, cl_maximum_record_bytes = 2,
     cl_poll_interval = 5, cl_partial_flush_interval = 5, cl_history_capacity = 1\<rparr>"

definition sample_open :: file_open where
  "sample_open = \<lparr>op_open = Inr None, op_len = Inr 3, op_rewind = None, op_reads = [ResumeRead [97, LF]],
     op_seek = None, op_id = [1]\<rparr>"

lemma sample_capture:
  "\<exists>completion sink. run_plain_file length sample_capture_env False sample_limits [9]
      (Some (cursor_for length None [97, LF], Plain)) sample_open [FileEof (PollCancelled False False)]
      = Some (completion, sink)
    \<and> sk_events sink = [Boundary [1] Started, FileCheckpoint [1] (cursor_for length None [97, LF]) Plain]"
  by (simp add: run_plain_file_def open_file_state_def validate_resume_def fresh_start_def cursor_for_def keep_last_def
      file_evidence_bytes_def sample_capture_env_def sample_limits_def sample_open_def numeral_2_eq_2 emit_def new_sink_def
      emit_checkpoint_def Let_def framer_new_def finish_file_def finish_framer_def loop_finish_def framer_finish_def
      tick_clock_def publish_round_def emit_records_def acknowledge_file_def acknowledge_def extend_evidence_def
      file_checkpoint_interval_bytes_def completion_default_def aborted_def try_emit_def lost_def)

lemma sample_checkpoint_run:
  "\<exists>t c. run_writer sample_writer_env sample_config [EventWake 0, EventWake 0, EventWake 0]
      [WriterEvent (Boundary aq Started), WriterEvent (FileCheckpoint aq cp Plain), WriterFinish RuntimeStopped 0 True True]
      sample_writer = (Some (Inr ()), t) \<and> ws_cursor_visible t = Some c"
  by (simp add: sample_writer_def commit_overdue_def serve_wake_def action_defs answer_def commit_due_def
      outstanding_def commit_new_def note_taken_def set_current_def sample_progress_def on_journal_def flush_journal_def
      write_buffer_def sample_journal_def set_commit_def note_cpu_def publish_def handle_non_record_def handle_event_def
      defer_checkpoint_def defer_cursor_def Let_def attempt_def finish_writer_def commit_def
      store_pending_def store_cursor_def record_catalog_def)

section \<open>What a run leaves\<close>

lemma starts_journal:
  assumes "starts_clean b s" "st_crc b = we_crc env"
  shows "journal_with b (taken_raws (st_source b) evs) = dk_file (ws_disk s)
    @ journal_bytes (we_crc env) (numbered (jn_next_sequence (ws_journal s))
        (to_raw (jn_source (ws_journal s)) (concat (map records_of evs))))"
  unfolding journal_with_def taken_raws_def assms(2) starts_fields(1,2) [OF assms(1)]
  using assms(1) by (simp add: starts_clean_def)

section \<open>Properties\<close>

text \<open>C8. The file cursor never runs ahead of the journal.  Take a writer that starts over a synced
  journal, and let it run on any queue, with any wakes, any outcome of its appends, flushes, syncs,
  cursor stores and catalogue writes, to the end, to an error, or to any point in between.  A cursor
  then found on disk, as a reader sees it or as a crash leaves it, is the one from before the run,
  or one made from a checkpoint of the queue: its journal offset lies within the synced part of the
  journal, and the journal up to it is the file of the start followed by the frames of exactly
  the records queued before that checkpoint, numbered in order.\<close>

theorem cursor_behind_durable_records:
  assumes "starts_clean b s" "st_crc b = we_crc env"
    and "run_writer env config wakes queue s = (r, t)"
    and "found = ws_cursor_visible t \<or> found = ws_cursor_stable t"
    and "found \<noteq> ws_cursor_visible s" "found \<noteq> ws_cursor_stable s"
  shows "\<exists>c pre post. found = Some c
    \<and> events_of queue = pre @ FileCheckpoint (dc_acquisition c) (dc_file c) (dc_encoding c) # post
    \<and> dc_journal_offset c \<le> dk_synced (ws_disk t)
    \<and> take (dc_journal_offset c) (dk_file (ws_disk t)) = dk_file (ws_disk s)
        @ journal_bytes (we_crc env) (numbered (jn_next_sequence (ws_journal s))
            (to_raw (jn_source (ws_journal s)) (concat (map records_of pre))))"
proof -
  have e: "st_visible b = ws_cursor_visible s" "st_stable b = ws_cursor_stable s"
    using assms(1) by (simp_all add: starts_clean_def)
  show ?thesis using cursor_on_disk [OF assms(1-4)] assms(5,6)
    unfolding e starts_journal [OF assms(1,2)] by blast
qed

theorem cursor_behind_durable_records_witness:
  "\<exists>t c pre post. run_writer sample_writer_env sample_config [EventWake 2, EventWake 2] sample_queue sample_writer
      = (Some (Inr ()), t)
    \<and> ws_cursor_stable t = Some c
    \<and> events_of sample_queue = pre @ FileCheckpoint (dc_acquisition c) (dc_file c) (dc_encoding c) # post
    \<and> 76 = dc_journal_offset c \<and> 76 \<le> dk_synced (ws_disk t)"
proof -
  obtain t c where r: "run_writer sample_writer_env sample_config [EventWake 2, EventWake 2] sample_queue sample_writer
      = (Some (Inr ()), t)" "ws_cursor_stable t = Some c" "dc_journal_offset c = 76"
    using sample_run by blast
  from cursor_behind_durable_records [OF sample_starts _ r(1), of "Some c"] r show ?thesis
    by (fastforce simp: sample_writer_def)
qed

text \<open>C10. A run that ends leaves nothing behind.  When the run of a writer that started over a synced
  journal returns without an error, the messages were taken in order up to a \<open>Finish\<close> or to the
  end of the queue; every record among them is in the journal file, in order and synced; and, when
  no store of the cursor failed, the cursor on disk, seen and stable, is that of the last checkpoint
  taken, or the one of the start when none was.\<close>

theorem clean_end_keeps_everything:
  assumes "starts_clean b s" "st_crc b = we_crc env"
    and "run_writer env config wakes queue s = (Some (Inr ()), t)"
  shows "\<exists>done left. queue = done @ left \<and> (left = [] \<or> (\<exists>m done'. done = done' @ [m] \<and> is_finish m))
    \<and> dk_file (ws_disk t) = dk_file (ws_disk s)
        @ journal_bytes (we_crc env) (numbered (jn_next_sequence (ws_journal s))
            (to_raw (jn_source (ws_journal s)) (concat (map records_of (events_of done)))))
    \<and> dk_synced (ws_disk t) = length (dk_file (ws_disk t)) \<and> jn_buffer (ws_journal t) = []
    \<and> (if stores_ok env then stored b (ws_cursor_visible t) (ws_cursor_stable t) (events_of done) else True)"
proof -
  have f: "firm b [] t" using kept_after [OF assms] by simp
  obtain left where e: "at_end b env queue left t" using run_in_order [OF assms(1,3)] by blast
  obtain d where d: "queue = d @ left" "ws_taken t = events_of d"
    and st: "stores_ok env \<Longrightarrow> tracked b (ws_taken t) t"
    and none: "cm_pending_cursor_path (ws_commit t) = None" "cm_pending_cursor (ws_commit t) = None"
    using e by (auto simp: at_end_def ended_def follows_def)
  obtain rs where h: "holding b rs [] t" using f by (auto simp: firm_def)
  have "dk_file (ws_disk t) = journal_with b (taken_raws (st_source b) (events_of d))"
  proof -
    have "rs = taken_raws (st_source b) (events_of d)" using h d(2) by (simp add: holding_def)
    moreover have "jn_buffer (ws_journal t) = []" "\<not> jn_poisoned (ws_journal t)" using f by (simp_all add: firm_def)
    then have "dk_file (ws_disk t) = journal_with b rs" using holding_at [OF h] by (simp add: journal_at_def)
    ultimately show ?thesis by simp
  qed
  moreover have "left = [] \<or> (\<exists>m d'. d = d' @ [m] \<and> is_finish m)"
    using e d(1) by (auto simp: at_end_def)
  moreover have "if stores_ok env then stored b (ws_cursor_visible t) (ws_cursor_stable t) (events_of d) else True"
    using st none d(2) by (simp add: tracked_def)
  moreover have "dk_synced (ws_disk t) = length (dk_file (ws_disk t))" "jn_buffer (ws_journal t) = []"
    using f by (simp_all add: firm_def)
  ultimately show ?thesis
    unfolding starts_journal [OF assms(1,2)] using d(1) by (intro exI [of _ d] exI [of _ left] conjI)
qed

theorem clean_end_keeps_everything_witness:
  "\<exists>t c. run_writer sample_writer_env sample_config [EventWake 2, EventWake 2] sample_queue sample_writer
      = (Some (Inr ()), t)
    \<and> dk_synced (ws_disk t) = length (dk_file (ws_disk t))
    \<and> dk_file (ws_disk t) = record_frame (\<lambda>_. 5) (sample_record 0 [97])"
proof -
  obtain t c where r: "run_writer sample_writer_env sample_config [EventWake 2, EventWake 2] sample_queue sample_writer
      = (Some (Inr ()), t)"
    using sample_run by blast
  obtain d left where d: "sample_queue = d @ left" "left = [] \<or> (\<exists>m d'. d = d' @ [m] \<and> is_finish m)"
    "dk_file (ws_disk t) = dk_file (ws_disk sample_writer)
        @ journal_bytes (we_crc sample_writer_env) (numbered (jn_next_sequence (ws_journal sample_writer))
            (to_raw (jn_source (ws_journal sample_writer)) (concat (map records_of (events_of d)))))"
    "dk_synced (ws_disk t) = length (dk_file (ws_disk t))"
    using clean_end_keeps_everything [OF sample_starts _ r] sample_env_simps(1,10) by metis
  have "left = []"
    using d(1,2) by (auto simp: sample_queue_def is_finish_def append_eq_Cons_conv Cons_eq_append_conv)
  then have "concat (map records_of (events_of d)) = [sample_captured]"
    using d(1) by (auto simp: sample_queue_def)
  then show ?thesis
    using r d by (auto simp: sample_writer_def sample_disk_def sample_journal_def to_raw_def)
qed
text \<open>C9. A file's cursor, from the bytes read to the journal synced.  Start the writer over a journal that is
  synced, with no checkpoint pending (\<open>starts_clean\<close>), and feed it the events of a run of the plain
  file capture, or of a beginning of them.  A cursor the writer then leaves on disk
  came from a checkpoint of that capture: it holds the length, the last bytes and the checksum of
  exactly the bytes of the file captured before it; and the records captured before it are, in
  order, what the journal holds between its start and the cursor's offset, all of it synced.  So a
  resumed capture skips no byte that a crash could still take from the journal.\<close>

theorem file_cursor_covered_by_journal:
  assumes "memchr_ok (ce_memchr cenv)" "limits_valid limits" "delivery_stops cenv"
    and "\<exists>ev \<in> set script. ends_file follow ev"
    and "run_plain_file fcrc cenv follow limits error_id resume io script = Some (completion, sink)"
    and "prefix (events_of queue) (sk_events sink)"
    and "starts_clean b s" "st_crc b = we_crc env"
    and "run_writer env config wakes queue s = (r, t)"
    and "found = ws_cursor_visible t \<or> found = ws_cursor_stable t"
    and "found \<noteq> ws_cursor_visible s" "found \<noteq> ws_cursor_stable s"
  shows "\<exists>c pre post. found = Some c
    \<and> sk_events sink = pre @ FileCheckpoint (dc_acquisition c) (dc_file c) Plain # post
    \<and> dc_file c = cursor_for fcrc (rc_identity (dc_file c))
        (published_bytes (skipped_bytes (map_option fst resume) io) pre)
    \<and> dc_journal_offset c \<le> dk_synced (ws_disk t)
    \<and> take (dc_journal_offset c) (dk_file (ws_disk t)) = dk_file (ws_disk s)
        @ journal_bytes (we_crc env) (numbered (jn_next_sequence (ws_journal s))
            (to_raw (jn_source (ws_journal s)) (concat (map records_of pre))))"
proof -
  have open_ok: "open_file_state fcrc (cl_maximum_record_bytes limits) (map_option fst resume) io \<noteq> None
      \<or> (\<exists>cursor a b d. resume = Some (cursor, Gzip a b d))"
    using assms(5) by (auto simp: run_plain_file_def split: option.splits prod.splits file_encoding.splits)
  have exact: "checkpoints_exact fcrc (skipped_bytes (map_option fst resume) io) (sk_events sink)"
    using plain_file_exact [OF assms(1-3) open_ok assms(4), of error_id] assms(5) by auto
  have e: "st_visible b = ws_cursor_visible s" "st_stable b = ws_cursor_stable s"
    using assms(7) by (simp_all add: starts_clean_def)
  obtain c pre post where c: "found = Some c"
    "events_of queue = pre @ FileCheckpoint (dc_acquisition c) (dc_file c) (dc_encoding c) # post"
    "dc_journal_offset c \<le> dk_synced (ws_disk t)"
    "take (dc_journal_offset c) (dk_file (ws_disk t)) = journal_with b (taken_raws (st_source b) pre)"
    using cursor_on_disk [OF assms(7-10)] assms(11,12) unfolding e by blast
  obtain post' where ev: "sk_events sink = pre @ FileCheckpoint (dc_acquisition c) (dc_file c) (dc_encoding c) # post'"
    using assms(6) c(2) by (auto simp: prefix_def)
  have "checkpoint_exact fcrc (published_bytes (skipped_bytes (map_option fst resume) io) pre)
      (FileCheckpoint (dc_acquisition c) (dc_file c) (dc_encoding c))"
    using checkpoints_exactD [OF exact ev] .
  then show ?thesis
    using c ev unfolding starts_journal [OF assms(7,8)]
    by (intro exI [of _ c] exI [of _ pre] exI [of _ post']) simp
qed

theorem file_cursor_covered_by_journal_witness:
  "\<exists>completion sink t c. run_plain_file length sample_capture_env False sample_limits [9]
      (Some (cursor_for length None [97, LF], Plain)) sample_open [FileEof (PollCancelled False False)]
      = Some (completion, sink)
    \<and> run_writer sample_writer_env sample_config [EventWake 0, EventWake 0, EventWake 0]
        (map WriterEvent (sk_events sink) @ [WriterFinish RuntimeStopped 0 True True]) sample_writer = (Some (Inr ()), t)
    \<and> ws_cursor_visible t = Some c \<and> dc_file c = cursor_for length None [97, LF]"
proof -
  let ?resume = "Some (cursor_for length None [97, LF], Plain)"
  obtain completion sink where cap: "run_plain_file length sample_capture_env False sample_limits [9] ?resume sample_open
      [FileEof (PollCancelled False False)] = Some (completion, sink)"
    and ev: "sk_events sink = [Boundary [1] Started, FileCheckpoint [1] (cursor_for length None [97, LF]) Plain]"
    using sample_capture by blast
  let ?queue = "map WriterEvent (sk_events sink) @ [WriterFinish RuntimeStopped 0 True True]"
  obtain t c where run: "run_writer sample_writer_env sample_config [EventWake 0, EventWake 0, EventWake 0] ?queue sample_writer
      = (Some (Inr ()), t)" "ws_cursor_visible t = Some c"
    using sample_checkpoint_run [of "[1]" "cursor_for length None [97, LF]"] ev by auto
  have h: "memchr_ok (ce_memchr sample_capture_env)" "limits_valid sample_limits" "delivery_stops sample_capture_env"
    "\<exists>ev \<in> set [FileEof (PollCancelled False False)]. ends_file False ev" "prefix (events_of ?queue) (sk_events sink)"
    by (simp_all add: sample_capture_env_def limits_valid_def sample_limits_def delivery_stops_def)
  from file_cursor_covered_by_journal [OF h(1-4) cap h(5) sample_starts _ run(1), of "Some c"] run(2)
  obtain pre post where p: "sk_events sink = pre @ FileCheckpoint (dc_acquisition c) (dc_file c) Plain # post"
    by (fastforce simp: sample_writer_def)
  then have "dc_file c = cursor_for length None [97, LF]"
    using ev by (auto simp: Cons_eq_append_conv append_eq_Cons_conv)
  then show ?thesis using cap run by blast
qed

end
