(* ===== verification/Ingest_Recovery.thy ===== *)
theory Ingest_Recovery
  imports Ingest_Writer File_Capture
begin

text \<open>
  How a writer starts: loading the durable cursor (\<open>cursor.rs\<close>), and, in
  \<open>crates/lvu-ingest/src/writer.rs\<close>, catching the cursor up with the tail of the journal that no
  checkpoint covers (\<open>recover_file_cursor\<close>, with the two validations it rests on), and
  \<open>spawn_writer\<close> up to the loop.

  The source is a stream of bytes, the file's own for a plain file and what the decompressor
  yields for a compressed one; how many bytes each read returns, and whether it fails, is the
  environment's choice.
\<close>

section \<open>Loading the cursor\<close>

definition max_cursor_bytes :: nat where "max_cursor_bytes = 64 * 1024"

text \<open>The outcomes of the calls of \<open>load\<close>; opening may find no file.\<close>

record load_io =
  lo_open :: "string + bool"
  lo_len :: "string + nat"
  lo_bytes :: "string + byte list"

definition load_cursor ::
  "(byte list \<Rightarrow> string + durable_file_cursor) \<Rightarrow> load_io \<Rightarrow> source_id \<Rightarrow> string
    \<Rightarrow> string + durable_file_cursor option" where
  "load_cursor parse io source source_path =
    (case lo_open io of
       Inl e \<Rightarrow> Inl e
     | Inr False \<Rightarrow> Inr None
     | Inr True \<Rightarrow>
         (case lo_len io of
            Inl e \<Rightarrow> Inl e
          | Inr len \<Rightarrow>
              if len > max_cursor_bytes then Inl ''file cursor exceeds bounded read limit''
              else case lo_bytes io of
                Inl e \<Rightarrow> Inl e
              | Inr bytes \<Rightarrow>
                  (case parse (take (max_cursor_bytes + 1) bytes) of
                     Inl e \<Rightarrow> Inl e
                   | Inr cursor \<Rightarrow>
                       if dc_schema_version cursor \<noteq> 1 \<or> dc_source cursor \<noteq> source
                         \<or> dc_path cursor \<noteq> source_path
                       then Inl ''file cursor schema or source identity mismatch''
                       else Inr (Some cursor))))"

section \<open>The state of a recovery\<close>

record recovering =
  rv_journal :: journal
  rv_disk :: disk
  rv_cursor_visible :: "durable_file_cursor option"
  rv_cursor_stable :: "durable_file_cursor option"
  rv_source :: "byte list"
  rv_calls :: nat

text \<open>The n-th read returns at most the given number of bytes, at least one unless the source has
  ended; the compressed file is read as it is, beside the source it decodes to.\<close>

record recovery_env =
  re_crc :: "byte list \<Rightarrow> 32 word"
  re_hash :: "byte list \<Rightarrow> nat"
  re_cancelled :: "nat \<Rightarrow> bool"
  re_open :: "string + file_identity option \<times> nat"
  re_read :: "nat \<Rightarrow> string + nat"
  re_page :: "nat \<Rightarrow> nat option"
  re_store :: "nat \<Rightarrow> watermark_io"
  re_compressed_len :: "string + nat"
  re_compressed :: "byte list"

type_synonym 'a recovery_action = "(recovering, runtime_error, 'a) action"

definition ask :: "(nat \<Rightarrow> 'b) \<Rightarrow> 'b recovery_action" where
  "ask f = (\<lambda>s. (Inr (f (rv_calls s)), s\<lparr>rv_calls := rv_calls s + 1\<rparr>))"

definition check_cancelled :: "recovery_env \<Rightarrow> unit recovery_action" where
  "check_cancelled env =
    and_then (ask (re_cancelled env)) (\<lambda>cancelled. if cancelled then throw RuntimeClosed else ok ())"

definition read_len :: "nat \<Rightarrow> nat \<Rightarrow> byte list \<Rightarrow> nat" where
  "read_len limit k source = min (max 1 k) (min limit (length source))"

definition source_read :: "recovery_env \<Rightarrow> nat \<Rightarrow> byte list recovery_action" where
  "source_read env limit =
    and_then (ask (re_read env)) (\<lambda>outcome.
      case outcome of
        Inl e \<Rightarrow> throw (RuntimeIo e)
      | Inr k \<Rightarrow> (\<lambda>s. let n = read_len limit k (rv_source s) in
          (Inr (take n (rv_source s)), s\<lparr>rv_source := drop n (rv_source s)\<rparr>)))"

text \<open>\<open>read_exact\<close> reads until the buffer is full; an end of the source before that is an error.\<close>

function source_read_exact :: "recovery_env \<Rightarrow> nat \<Rightarrow> byte list recovery_action" where
  "source_read_exact env n =
    (if n = 0 then ok []
     else and_then (source_read env n) (\<lambda>bytes.
       if bytes = [] then throw (RuntimeIo ''failed to fill whole buffer'')
       else and_then (source_read_exact env (n - length bytes)) (\<lambda>rest. ok (bytes @ rest))))"
  by pat_completeness auto

termination by (relation "measure snd") auto

declare source_read_exact.simps [simp del]

section \<open>The validations\<close>

function prefix_loop ::
  "recovery_env \<Rightarrow> nat \<Rightarrow> byte list \<Rightarrow> byte list \<Rightarrow> (byte list \<times> byte list) option recovery_action" where
  "prefix_loop env remaining hashed tail =
    (if remaining = 0 then ok (Some (hashed, tail))
     else before (check_cancelled env)
       (and_then (source_read env (min remaining 65536)) (\<lambda>bytes.
          if bytes = [] then ok None
          else prefix_loop env (remaining - length bytes) (hashed @ bytes)
                 (keep_last file_evidence_bytes (tail @ bytes)))))"
  by pat_completeness auto

termination by (relation "measure (\<lambda>(_, remaining, _). remaining)") auto

declare prefix_loop.simps [simp del]

definition validate_acknowledged_prefix :: "recovery_env \<Rightarrow> file_resume_cursor \<Rightarrow> byte list option recovery_action" where
  "validate_acknowledged_prefix env cursor =
    (if length (rc_evidence cursor) > rc_offset cursor then ok None
     else and_then (prefix_loop env (rc_offset cursor) [] []) (\<lambda>found.
       case found of
         None \<Rightarrow> ok None
       | Some (hashed, tail) \<Rightarrow>
           if re_hash env hashed \<noteq> rc_content_crc32 cursor \<or> tail \<noteq> rc_evidence cursor then ok None
           else ok (Some hashed)))"

text \<open>The compressed file is read to its end, by its own handle.\<close>

function compressed_loop ::
  "recovery_env \<Rightarrow> byte list \<Rightarrow> byte list \<Rightarrow> byte list \<Rightarrow> (byte list \<times> byte list) recovery_action" where
  "compressed_loop env source hashed tail =
    before (check_cancelled env)
    (and_then (ask (re_read env)) (\<lambda>outcome.
      case outcome of
        Inl e \<Rightarrow> throw (RuntimeIo e)
      | Inr k \<Rightarrow>
          let n = read_len 65536 k source in
          if n = 0 then ok (hashed, tail)
          else compressed_loop env (drop n source) (hashed @ take n source)
                 (keep_last file_evidence_bytes (tail @ take n source))))"
  by pat_completeness auto

termination by (relation "measure (\<lambda>(_, source, _). length source)") (auto simp: read_len_def)

declare compressed_loop.simps [simp del]

definition validate_source_encoding :: "recovery_env \<Rightarrow> file_encoding \<Rightarrow> bool recovery_action" where
  "validate_source_encoding env encoding =
    (case encoding of
       Plain \<Rightarrow> ok True
     | Gzip compressed_size crc evidence \<Rightarrow>
         (case re_compressed_len env of
            Inl e \<Rightarrow> throw (RuntimeIo e)
          | Inr len \<Rightarrow>
              if len \<noteq> compressed_size then ok False
              else and_then (compressed_loop env (re_compressed env) [] []) (\<lambda>(hashed, tail).
                ok (re_hash env hashed = crc \<and> tail = evidence))))"

section \<open>Catching the cursor up\<close>

definition max_recovery_records :: nat where "max_recovery_records = 65536"
definition max_recovery_bytes :: nat where "max_recovery_bytes = 8 * 1024 * 1024"

definition journal_record :: "recovery_env \<Rightarrow> nat \<Rightarrow> journal_page recovery_action" where
  "journal_record env offset =
    and_then (ask (re_page env)) (\<lambda>wr. (\<lambda>s.
      (case read_page (re_crc env) wr offset 1 (2 * 1024 * 1024) (rv_journal s) (rv_disk s) of
         (Inl e, j, d) \<Rightarrow> (Inl (RuntimeJournal e), s\<lparr>rv_journal := j, rv_disk := d\<rparr>)
       | (Inr page, j, d) \<Rightarrow> (Inr page, s\<lparr>rv_journal := j, rv_disk := d\<rparr>))))"

definition raw_content :: "raw_record \<Rightarrow> byte list" where
  "raw_content r = as_slice (rr_bytes r) @ as_slice (rr_delimiter r)"

definition advance_cursor :: "byte list \<Rightarrow> durable_file_cursor \<Rightarrow> durable_file_cursor" where
  "advance_cursor bytes durable = durable\<lparr>dc_file := (dc_file durable)\<lparr>
     rc_offset := rc_offset (dc_file durable) + length bytes,
     rc_evidence := keep_last file_evidence_bytes (rc_evidence (dc_file durable) @ bytes)\<rparr>\<rparr>"

text \<open>\<open>left\<close> is what remains of the recovery's records.\<close>

function tail_loop ::
  "recovery_env \<Rightarrow> nat \<Rightarrow> nat \<Rightarrow> nat \<Rightarrow> nat \<Rightarrow> durable_file_cursor \<Rightarrow> byte list
    \<Rightarrow> (nat \<times> durable_file_cursor \<times> byte list) recovery_action" where
  "tail_loop env journal_end left recovered offset durable hasher =
    (if \<not> offset < journal_end then ok (offset, durable, hasher)
     else before (check_cancelled env)
       (if left = 0 \<or> recovered \<ge> max_recovery_bytes
        then throw (RuntimeIo ''uncheckpointed file journal tail exceeds recovery bounds'')
        else and_then (journal_record env offset) (\<lambda>page.
          case pg_records page of
            [] \<Rightarrow> throw (RuntimeIo ''file cursor journal tail made no progress'')
          | r # _ \<Rightarrow>
              if rr_stream r \<noteq> File \<or> rr_acquisition r \<noteq> dc_acquisition durable
              then throw (RuntimeIo ''file cursor journal tail crosses an uncheckpointed boundary'')
              else and_then (source_read_exact env (length (raw_content r))) (\<lambda>actual.
                if actual \<noteq> raw_content r
                then throw (RuntimeIo ''file content no longer matches the uncheckpointed journal tail'')
                else tail_loop env journal_end (left - 1) (recovered + length (raw_content r))
                       (pg_next_offset page) (advance_cursor (raw_content r) durable)
                       (hasher @ raw_content r)))))"
  by pat_completeness auto

termination by (relation "measure (\<lambda>(_, _, left, _). left)") auto

declare tail_loop.simps [simp del]

record file_cursor_setup =
  su_cursor_path :: string
  su_source_path :: string
  su_durable :: "durable_file_cursor option"

definition recovered_writer :: "file_cursor_setup \<Rightarrow> durable_file_cursor option \<Rightarrow> file_cursor_writer option recovery_action" where
  "recovered_writer setup durable =
    ok (Some \<lparr>fc_cursor_path = su_cursor_path setup, fc_source_path = su_source_path setup, fc_durable = durable\<rparr>)"

definition store_recovered :: "recovery_env \<Rightarrow> durable_file_cursor \<Rightarrow> unit recovery_action" where
  "store_recovered env c =
    and_then (ask (re_store env)) (\<lambda>io. (\<lambda>s.
      (case io of
         Watermark_Ok \<Rightarrow> (Inr (), s\<lparr>rv_cursor_visible := Some c, rv_cursor_stable := Some c\<rparr>)
       | Watermark_Lost \<Rightarrow> (Inl (RuntimeIo ''cursor''), s)
       | Watermark_Unsynced \<Rightarrow> (Inl (RuntimeIo ''cursor''), s\<lparr>rv_cursor_visible := Some c\<rparr>))))"

definition catch_up ::
  "recovery_env \<Rightarrow> file_cursor_setup \<Rightarrow> durable_file_cursor \<Rightarrow> nat \<Rightarrow> byte list \<Rightarrow> file_cursor_writer option recovery_action" where
  "catch_up env setup durable journal_end hasher =
    and_then (tail_loop env journal_end max_recovery_records 0 (dc_journal_offset durable) durable hasher)
      (\<lambda>(offset, advanced, hashed).
        if offset \<noteq> dc_journal_offset durable then
          let stored = advanced\<lparr>dc_journal_offset := offset,
                dc_file := (dc_file advanced)\<lparr>rc_content_crc32 := re_hash env hashed\<rparr>\<rparr>
          in before (store_recovered env stored) (recovered_writer setup (Some stored))
        else recovered_writer setup (Some advanced))"

definition recover_file_cursor ::
  "recovery_env \<Rightarrow> file_cursor_setup option \<Rightarrow> file_cursor_writer option recovery_action" where
  "recover_file_cursor env setup_option =
    (case setup_option of
       None \<Rightarrow> ok None
     | Some setup \<Rightarrow>
         (case su_durable setup of
            None \<Rightarrow> recovered_writer setup None
          | Some durable \<Rightarrow> with_state (\<lambda>s.
              let journal_end = jn_written_bytes (rv_journal s) in
              if dc_journal_offset durable > journal_end
              then throw (RuntimeIo ''file cursor points beyond the journal'')
              else if dc_journal_offset durable = journal_end then recovered_writer setup (Some durable)
              else before (check_cancelled env)
                (case re_open env of
                   Inl e \<Rightarrow> throw (RuntimeIo e)
                 | Inr (identity, len) \<Rightarrow>
                     if identity \<noteq> rc_identity (dc_file durable) then recovered_writer setup (Some durable)
                     else if dc_encoding durable = Plain \<and> len < rc_offset (dc_file durable)
                     then recovered_writer setup (Some durable)
                     else and_then (validate_source_encoding env (dc_encoding durable)) (\<lambda>same.
                       if \<not> same then recovered_writer setup (Some durable)
                       else and_then (validate_acknowledged_prefix env (dc_file durable)) (\<lambda>hasher.
                         case hasher of
                           None \<Rightarrow> recovered_writer setup (Some durable)
                         | Some hashed \<Rightarrow> catch_up env setup durable journal_end hashed))))))"

section \<open>What the reads leave alone\<close>

definition untouched :: "recovering \<Rightarrow> recovering \<Rightarrow> bool" where
  "untouched s t \<longleftrightarrow> rv_journal t = rv_journal s \<and> rv_disk t = rv_disk s
     \<and> rv_cursor_visible t = rv_cursor_visible s \<and> rv_cursor_stable t = rv_cursor_stable s"

text \<open>\<open>consumes m P\<close>: \<open>m\<close> touches only the source, and what it returns is related by \<open>P\<close> to the
  bytes it took from it.\<close>

definition consumes :: "'a recovery_action \<Rightarrow> (byte list \<Rightarrow> 'a \<Rightarrow> bool) \<Rightarrow> bool" where
  "consumes m P \<longleftrightarrow> (\<forall>s r t. m s = (r, t) \<longrightarrow> untouched s t
     \<and> (\<forall>x. r = Inr x \<longrightarrow> (\<exists>bytes. rv_source s = bytes @ rv_source t \<and> P bytes x)))"

lemma consumesI:
  "(\<And>s r t. m s = (r, t) \<Longrightarrow> untouched s t
     \<and> (\<forall>x. r = Inr x \<longrightarrow> (\<exists>bytes. rv_source s = bytes @ rv_source t \<and> P bytes x))) \<Longrightarrow> consumes m P"
  by (simp add: consumes_def)

lemma consumesD:
  "consumes m P \<Longrightarrow> m s = (Inr x, t) \<Longrightarrow> untouched s t \<and> (\<exists>bytes. rv_source s = bytes @ rv_source t \<and> P bytes x)"
  by (simp add: consumes_def)

lemma untouched_refl [simp]: "untouched s s"
  by (simp add: untouched_def)

lemma untouched_trans: "untouched s t \<Longrightarrow> untouched t u \<Longrightarrow> untouched s u"
  by (simp add: untouched_def)

lemma consumes_and_then:
  assumes "consumes m P" "\<And>x. consumes (f x) (R x)"
    and "\<And>a x b y. P a x \<Longrightarrow> R x b y \<Longrightarrow> Q (a @ b) y"
  shows "consumes (and_then m f) Q"
proof (rule consumesI)
  fix s r t
  assume m: "and_then m f s = (r, t)"
  obtain x u where mu: "m s = (x, u)" by fastforce
  show "untouched s t \<and> (\<forall>y. r = Inr y \<longrightarrow> (\<exists>bytes. rv_source s = bytes @ rv_source t \<and> Q bytes y))"
  proof (cases x)
    case (Inl e)
    then show ?thesis using m mu assms(1) by (auto simp: and_then_def consumes_def)
  next
    case (Inr y)
    then have fu: "f y u = (r, t)" using m mu by (simp add: and_then_def)
    obtain a where a: "untouched s u" "rv_source s = a @ rv_source u" "P a y"
      using consumesD [OF assms(1)] mu Inr by blast
    have b: "untouched u t" "\<And>z. r = Inr z \<Longrightarrow> \<exists>b. rv_source u = b @ rv_source t \<and> R y b z"
      using assms(2) fu by (auto simp: consumes_def)
    then show ?thesis using a untouched_trans assms(3) by fastforce
  qed
qed

lemma consumes_before:
  assumes "consumes m P" "\<And>a x. P a x \<Longrightarrow> a = []" "consumes n Q"
  shows "consumes (before m n) Q"
  unfolding before_def
proof (rule consumes_and_then [OF assms(1), where R = "\<lambda>_. Q"])
  show "Q (a @ b) y" if "P a x" "Q b y" for a b x y
    using assms(2) [OF that(1)] that(2) by simp
qed (rule assms(3))

lemma consumes_ok: "P [] x \<Longrightarrow> consumes (ok x) P"
  by (auto simp: consumes_def ok_def)

lemma consumes_throw: "consumes (throw e) P"
  by (auto simp: consumes_def throw_def)

lemma consumes_ask: "consumes (ask f) (\<lambda>a _. a = [])"
  by (auto simp: consumes_def ask_def untouched_def)

lemma consumes_check: "consumes (check_cancelled env) (\<lambda>a _. a = [])"
  unfolding check_cancelled_def
  by (rule consumes_and_then [OF consumes_ask, where R = "\<lambda>_ a _. a = []"]) (auto intro: consumes_ok consumes_throw)

lemma consumes_weaken: "consumes m P \<Longrightarrow> (\<And>a x. P a x \<Longrightarrow> Q a x) \<Longrightarrow> consumes m Q"
  unfolding consumes_def by blast

lemma consumes_read: "consumes (source_read env limit) (\<lambda>a x. x = a \<and> length a \<le> limit)"
proof -
  have r: "consumes (\<lambda>s. let n = read_len limit k (rv_source s) in
      (Inr (take n (rv_source s)), s\<lparr>rv_source := drop n (rv_source s)\<rparr>)) (\<lambda>a x. x = a \<and> length a \<le> limit)" for k
    by (auto simp: consumes_def Let_def untouched_def read_len_def)
  show ?thesis
    unfolding source_read_def
    by (rule consumes_and_then [OF consumes_ask, where R = "\<lambda>_ a x. x = a \<and> length a \<le> limit"])
      (auto split: sum.split intro: consumes_throw r)
qed

lemma consumes_read_exact: "consumes (source_read_exact env n) (\<lambda>a x. x = a \<and> length a = n)"
proof (induction n rule: less_induct)
  case (less n)
  show ?case
  proof (cases "n = 0")
    case True
    then show ?thesis by (simp add: source_read_exact.simps consumes_ok)
  next
    case False
    let ?R = "\<lambda>bytes a x. length bytes \<le> n \<longrightarrow> bytes \<noteq> [] \<and> x = bytes @ a \<and> length (bytes @ a) = n"
    have "consumes (if bytes = [] then throw (RuntimeIo ''failed to fill whole buffer'')
       else and_then (source_read_exact env (n - length bytes)) (\<lambda>rest. ok (bytes @ rest))) (?R bytes)" for bytes
    proof (cases "bytes = []")
      case True
      then show ?thesis by (simp add: consumes_throw)
    next
      case False
      then have "n - length bytes < n" using \<open>n \<noteq> 0\<close> by simp
      from less.IH [OF this] show ?thesis
        using False by (auto intro!: consumes_and_then [where R = "\<lambda>rest a x. a = [] \<and> x = bytes @ rest"] consumes_ok)
    qed
    from consumes_and_then [OF consumes_read this] show ?thesis
      using False by (subst source_read_exact.simps) auto
  qed
qed

lemma consumes_prefix:
  assumes "tail = keep_last file_evidence_bytes hashed"
  shows "consumes (prefix_loop env remaining hashed tail) (\<lambda>a found. \<forall>h t. found = Some (h, t)
    \<longrightarrow> h = hashed @ a \<and> length a = remaining \<and> t = keep_last file_evidence_bytes h)"
  using assms
proof (induction remaining arbitrary: hashed tail rule: less_induct)
  case (less remaining)
  show ?case
  proof (cases "remaining = 0")
    case True
    then show ?thesis using less.prems by (simp add: prefix_loop.simps consumes_ok)
  next
    case False
    let ?Q = "\<lambda>a found. \<forall>h t. found = Some (h, t)
      \<longrightarrow> h = hashed @ a \<and> length a = remaining \<and> t = keep_last file_evidence_bytes h"
    let ?R = "\<lambda>bytes a found. \<forall>h t. length bytes \<le> remaining \<longrightarrow> found = Some (h, t)
      \<longrightarrow> h = hashed @ bytes @ a \<and> length bytes + length a = remaining \<and> t = keep_last file_evidence_bytes h"
    have step: "consumes (if bytes = [] then ok None
          else prefix_loop env (remaining - length bytes) (hashed @ bytes)
                 (keep_last file_evidence_bytes (tail @ bytes))) (?R bytes)" for bytes
    proof (cases "bytes = []")
      case True
      then show ?thesis by (simp add: consumes_ok)
    next
      case False
      then have "remaining - length bytes < remaining" using \<open>remaining \<noteq> 0\<close> by simp
      moreover have "keep_last file_evidence_bytes (tail @ bytes) = keep_last file_evidence_bytes (hashed @ bytes)"
        by (simp add: less.prems keep_last_append)
      ultimately have "consumes (prefix_loop env (remaining - length bytes) (hashed @ bytes)
          (keep_last file_evidence_bytes (tail @ bytes))) (\<lambda>a found. \<forall>h t. found = Some (h, t)
            \<longrightarrow> h = (hashed @ bytes) @ a \<and> length a = remaining - length bytes \<and> t = keep_last file_evidence_bytes h)"
        by (rule less.IH)
      then show ?thesis using False by (auto intro: consumes_weaken)
    qed
    have "consumes (and_then (source_read env (min remaining 65536)) (\<lambda>bytes.
          if bytes = [] then ok None
          else prefix_loop env (remaining - length bytes) (hashed @ bytes)
                 (keep_last file_evidence_bytes (tail @ bytes)))) ?Q"
      by (rule consumes_and_then [OF consumes_read step]) auto
    from consumes_before [OF consumes_check _ this] show ?thesis
      using False by (subst prefix_loop.simps) auto
  qed
qed

lemma consumes_validate:
  "consumes (validate_acknowledged_prefix env cursor) (\<lambda>a found. \<forall>h. found = Some h
    \<longrightarrow> h = a \<and> length a = rc_offset cursor \<and> re_hash env a = rc_content_crc32 cursor
      \<and> rc_evidence cursor = keep_last file_evidence_bytes a)"
proof -
  have "consumes (prefix_loop env (rc_offset cursor) [] []) (\<lambda>a found. \<forall>h t. found = Some (h, t)
    \<longrightarrow> h = [] @ a \<and> length a = rc_offset cursor \<and> t = keep_last file_evidence_bytes h)"
    by (rule consumes_prefix) (simp add: keep_last_def)
  then have "consumes (and_then (prefix_loop env (rc_offset cursor) [] []) (\<lambda>found.
       case found of
         None \<Rightarrow> ok None
       | Some (hashed, tail) \<Rightarrow>
           if re_hash env hashed \<noteq> rc_content_crc32 cursor \<or> tail \<noteq> rc_evidence cursor then ok None
           else ok (Some hashed))) (\<lambda>a found. \<forall>h. found = Some h
    \<longrightarrow> h = a \<and> length a = rc_offset cursor \<and> re_hash env a = rc_content_crc32 cursor
      \<and> rc_evidence cursor = keep_last file_evidence_bytes a)"
    by (rule consumes_and_then [where R = "\<lambda>found a result. a = [] \<and> (\<forall>h. result = Some h
        \<longrightarrow> (\<exists>t. found = Some (h, t) \<and> re_hash env h = rc_content_crc32 cursor \<and> t = rc_evidence cursor))"])
      (auto split: option.splits intro!: consumes_ok)
  then show ?thesis by (auto simp: validate_acknowledged_prefix_def intro: consumes_ok)
qed

lemma consumes_compressed: "consumes (compressed_loop env source hashed tail) (\<lambda>a _. a = [])"
proof (induction "length source" arbitrary: source hashed tail rule: less_induct)
  case less
  have step: "consumes (case outcome of
        Inl e \<Rightarrow> throw (RuntimeIo e)
      | Inr k \<Rightarrow>
          let n = read_len 65536 k source in
          if n = 0 then ok (hashed, tail)
          else compressed_loop env (drop n source) (hashed @ take n source)
                 (keep_last file_evidence_bytes (tail @ take n source))) (\<lambda>a _. a = [])" for outcome
    by (auto simp: Let_def read_len_def split: sum.split intro!: consumes_throw consumes_ok less)
  have "consumes (and_then (ask (re_read env)) (\<lambda>outcome. case outcome of
        Inl e \<Rightarrow> throw (RuntimeIo e)
      | Inr k \<Rightarrow>
          let n = read_len 65536 k source in
          if n = 0 then ok (hashed, tail)
          else compressed_loop env (drop n source) (hashed @ take n source)
                 (keep_last file_evidence_bytes (tail @ take n source)))) (\<lambda>a _. a = [])"
    by (rule consumes_and_then [OF consumes_ask step]) simp
  from consumes_before [OF consumes_check _ this] show ?case
    by (subst compressed_loop.simps) auto
qed

lemma consumes_encoding: "consumes (validate_source_encoding env encoding) (\<lambda>a _. a = [])"
  unfolding validate_source_encoding_def
  by (auto split: file_encoding.split sum.split prod.split
      intro!: consumes_ok consumes_throw consumes_and_then [OF consumes_compressed, where R = "\<lambda>_ a _. a = []"])

section \<open>What the tail loop finds\<close>

lemma read_complete_sound:
  assumes "read_complete_frame crc file offset (length file) source = Inr (r, n)" "length (source_bytes source) = 16"
  shows "0 < n \<and> offset + n \<le> length file \<and> storable source r \<and> segment file offset (offset + n) = record_frame crc r"
proof -
  obtain h where h: "read_header crc file offset = Inr h" "read_body crc file offset source h = Inr (r, n)"
    using assms(1) by (auto simp: read_complete_frame_def split: if_splits sum.splits)
  from frame_read_sound [OF h assms(2)] show ?thesis by (auto simp: journal_header_def)
qed

lemma page_one_sound:
  assumes "read_page_from crc file source offset 1 max_bytes = Inr page" "pg_records page = r # more'"
    and "length (source_bytes source) = 16"
  shows "offset < pg_next_offset page \<and> pg_next_offset page \<le> length file \<and> storable source r
    \<and> segment file offset (pg_next_offset page) = record_frame crc r"
proof -
  obtain records cursor where pf: "page_from crc file source 1 max_bytes offset 0 [] = Inr (records, cursor)"
    and pg: "records = r # more'" "pg_next_offset page = cursor"
    using assms(1,2) by (auto simp: read_page_from_def Let_def split: if_splits sum.splits)
  then obtain n where rc: "read_complete_frame crc file offset (length file) source = Inr (r, n)" "cursor = offset + n"
    by (auto simp: page_from.simps Let_def split: if_splits sum.splits)
  from read_complete_sound [OF rc(1) assms(3)] pg rc(2) show ?thesis by simp
qed

lemma journal_record_idle:
  assumes "jn_buffer (rv_journal s) = []"
  shows "journal_record env offset s
    = (case read_page_from (re_crc env) (dk_file (rv_disk s)) (jn_source (rv_journal s)) offset 1 (2 * 1024 * 1024) of
         Inl e \<Rightarrow> (Inl (RuntimeJournal e), s\<lparr>rv_calls := rv_calls s + 1\<rparr>)
       | Inr page \<Rightarrow> (Inr page, s\<lparr>rv_calls := rv_calls s + 1\<rparr>))"
  using assms by (simp add: journal_record_def ask_def and_then_def read_page_def write_buffer_def split: sum.split)

lemma journal_record_Inr:
  "journal_record env offset s = (Inr page, t) \<Longrightarrow> jn_buffer (rv_journal s) = []
    \<Longrightarrow> read_page_from (re_crc env) (dk_file (rv_disk s)) (jn_source (rv_journal s)) offset 1 (2 * 1024 * 1024) = Inr page
      \<and> untouched s t \<and> rv_source t = rv_source s"
  by (auto simp: journal_record_idle untouched_def split: sum.splits)

definition tail_records :: "durable_file_cursor \<Rightarrow> source_id \<Rightarrow> raw_record list \<Rightarrow> bool" where
  "tail_records durable source rs \<longleftrightarrow>
     (\<forall>r \<in> set rs. storable source r \<and> rr_stream r = File \<and> rr_acquisition r = dc_acquisition durable)"

definition contents :: "raw_record list \<Rightarrow> byte list" where
  "contents rs = concat (map raw_content rs)"

lemma contents_simps [simp]:
  "contents [] = []" "contents (r # rs) = raw_content r @ contents rs"
  by (simp_all add: contents_def)

lemma advance_cursor_simps [simp]:
  "advance_cursor ys (advance_cursor xs c) = advance_cursor (xs @ ys) c"
  "dc_acquisition (advance_cursor xs c) = dc_acquisition c"
  "dc_encoding (advance_cursor xs c) = dc_encoding c"
  "dc_journal_offset (advance_cursor xs c) = dc_journal_offset c"
  "dc_file (advance_cursor xs c) = (dc_file c)\<lparr>rc_offset := rc_offset (dc_file c) + length xs,
     rc_evidence := keep_last file_evidence_bytes (rc_evidence (dc_file c) @ xs)\<rparr>"
  by (simp_all add: advance_cursor_def keep_last_append)

lemma before_check_Inr:
  "before (check_cancelled env) m s = (Inr y, t) \<Longrightarrow> \<exists>u. untouched s u \<and> rv_source u = rv_source s \<and> m u = (Inr y, t)"
  by (rule exI [of _ "s\<lparr>rv_calls := rv_calls s + 1\<rparr>"])
    (auto simp: before_Inr check_cancelled_def ask_def and_then_def throw_def ok_def untouched_def split: if_splits)

lemma tail_loop_sound:
  assumes "tail_loop env journal_end left recovered offset durable hasher s = (Inr (offset', durable', hasher'), t)"
    and "jn_buffer (rv_journal s) = []" "length (source_bytes (jn_source (rv_journal s))) = 16"
    and "offset \<le> length (dk_file (rv_disk s))"
  shows "\<exists>rs. tail_records durable (jn_source (rv_journal s)) rs \<and> untouched s t
    \<and> offset \<le> offset' \<and> offset' \<le> length (dk_file (rv_disk s)) \<and> journal_end \<le> offset'
    \<and> segment (dk_file (rv_disk s)) offset offset' = journal_bytes (re_crc env) rs
    \<and> rv_source s = contents rs @ rv_source t \<and> hasher' = hasher @ contents rs
    \<and> (if rs = [] then durable' = durable else durable' = advance_cursor (contents rs) durable)"
  using assms
proof (induction left arbitrary: recovered offset durable hasher s)
  case 0
  then show ?case
    by (subst (asm) tail_loop.simps)
      (auto simp: ok_def throw_def tail_records_def dest!: before_check_Inr split: if_splits intro!: exI [of _ "[]"])
next
  case (Suc left)
  show ?case
  proof (cases "offset < journal_end")
    case False
    then show ?thesis using Suc.prems
      by (subst (asm) tail_loop.simps) (auto simp: ok_def tail_records_def intro!: exI [of _ "[]"])
  next
    case True
    let ?body = "\<lambda>page. case pg_records page of
            [] \<Rightarrow> throw (RuntimeIo ''file cursor journal tail made no progress'')
          | r # _ \<Rightarrow>
              if rr_stream r \<noteq> File \<or> rr_acquisition r \<noteq> dc_acquisition durable
              then throw (RuntimeIo ''file cursor journal tail crosses an uncheckpointed boundary'')
              else and_then (source_read_exact env (length (raw_content r))) (\<lambda>actual.
                if actual \<noteq> raw_content r
                then throw (RuntimeIo ''file content no longer matches the uncheckpointed journal tail'')
                else tail_loop env journal_end left (recovered + length (raw_content r))
                       (pg_next_offset page) (advance_cursor (raw_content r) durable)
                       (hasher @ raw_content r))"
    have "before (check_cancelled env)
       (if recovered \<ge> max_recovery_bytes
        then throw (RuntimeIo ''uncheckpointed file journal tail exceeds recovery bounds'')
        else and_then (journal_record env offset) ?body) s = (Inr (offset', durable', hasher'), t)"
      using Suc.prems(1) True
      by (subst (asm) tail_loop.simps) (simp split del: if_split cong: if_cong list.case_cong)
    from before_check_Inr [OF this] obtain u where u: "untouched s u" "rv_source u = rv_source s"
      and m: "and_then (journal_record env offset) ?body u = (Inr (offset', durable', hasher'), t)"
      by (auto simp: throw_def split: if_splits)
    have idle: "jn_buffer (rv_journal u) = []" using u(1) Suc.prems(2) by (simp add: untouched_def)
    obtain page v where v: "read_page_from (re_crc env) (dk_file (rv_disk u)) (jn_source (rv_journal u)) offset 1 (2 * 1024 * 1024)
        = Inr page" "untouched u v" "rv_source v = rv_source u" "?body page v = (Inr (offset', durable', hasher'), t)"
      using m journal_record_Inr [OF _ idle] unfolding and_then_Inr by blast
    obtain r more' where r: "pg_records page = r # more'" "rr_stream r = File" "rr_acquisition r = dc_acquisition durable"
      and e: "and_then (source_read_exact env (length (raw_content r))) (\<lambda>actual.
                if actual \<noteq> raw_content r
                then throw (RuntimeIo ''file content no longer matches the uncheckpointed journal tail'')
                else tail_loop env journal_end left (recovered + length (raw_content r))
                       (pg_next_offset page) (advance_cursor (raw_content r) durable)
                       (hasher @ raw_content r)) v = (Inr (offset', durable', hasher'), t)"
      using v(4) by (auto simp: throw_def split: list.splits if_splits)
    obtain actual w where ex: "source_read_exact env (length (raw_content r)) v = (Inr actual, w)"
      and cont: "(if actual \<noteq> raw_content r
                then throw (RuntimeIo ''file content no longer matches the uncheckpointed journal tail'')
                else tail_loop env journal_end left (recovered + length (raw_content r))
                       (pg_next_offset page) (advance_cursor (raw_content r) durable)
                       (hasher @ raw_content r)) w = (Inr (offset', durable', hasher'), t)"
      using e unfolding and_then_Inr by blast
    have act: "actual = raw_content r" using cont by (auto simp: throw_def split: if_splits)
    have w: "untouched v w" "rv_source v = raw_content r @ rv_source w"
      using consumesD [OF consumes_read_exact ex] act by auto
    have l: "tail_loop env journal_end left (recovered + length (raw_content r)) (pg_next_offset page)
          (advance_cursor (raw_content r) durable) (hasher @ raw_content r) w = (Inr (offset', durable', hasher'), t)"
      using cont act by simp
    have uw: "untouched s w" using u(1) v(2) w(1) untouched_trans by blast
    then have same: "rv_journal w = rv_journal s" "rv_disk w = rv_disk s" by (simp_all add: untouched_def)
    have su: "rv_journal u = rv_journal s" "rv_disk u = rv_disk s" using u(1) by (simp_all add: untouched_def)
    have pg: "offset < pg_next_offset page" "pg_next_offset page \<le> length (dk_file (rv_disk s))"
      "storable (jn_source (rv_journal s)) r"
      "segment (dk_file (rv_disk s)) offset (pg_next_offset page) = record_frame (re_crc env) r"
      using page_one_sound [OF v(1) r(1)] Suc.prems(3) unfolding su by simp_all
    obtain rs where rs: "tail_records (advance_cursor (raw_content r) durable) (jn_source (rv_journal s)) rs" "untouched w t"
      "pg_next_offset page \<le> offset'" "offset' \<le> length (dk_file (rv_disk s))" "journal_end \<le> offset'"
      "segment (dk_file (rv_disk s)) (pg_next_offset page) offset' = journal_bytes (re_crc env) rs"
      "rv_source w = contents rs @ rv_source t" "hasher' = (hasher @ raw_content r) @ contents rs"
      "if rs = [] then durable' = advance_cursor (raw_content r) durable
       else durable' = advance_cursor (contents rs) (advance_cursor (raw_content r) durable)"
      using Suc.IH [OF l, unfolded same, OF Suc.prems(2,3) pg(2)] by (elim exE conjE) (rule that)
    have "segment (dk_file (rv_disk s)) offset offset' = journal_bytes (re_crc env) (r # rs)"
      using segment_append_slice [of offset "pg_next_offset page" offset' "dk_file (rv_disk s)"] pg(1,4) rs(3,6) by simp
    then show ?thesis
      using rs pg r(2,3) w(2) u(2) v(3) untouched_trans [OF uw rs(2)]
      by (intro exI [of _ "r # rs"]) (auto simp: tail_records_def split: if_splits)
  qed
qed

section \<open>What a recovery may change\<close>

text \<open>The cursor caught up with the journal: the source begins with the bytes the cursor stood for,
  then the contents of exactly the records between its journal offset and the journal's end.\<close>

definition caught_up :: "recovery_env \<Rightarrow> recovering \<Rightarrow> durable_file_cursor \<Rightarrow> durable_file_cursor \<Rightarrow> bool" where
  "caught_up env s c c' \<longleftrightarrow> (\<exists>bytes rs left. tail_records c (jn_source (rv_journal s)) rs
     \<and> rv_source s = bytes @ contents rs @ left
     \<and> segment (dk_file (rv_disk s)) (dc_journal_offset c) (length (dk_file (rv_disk s))) = journal_bytes (re_crc env) rs
     \<and> dc_file c = cursor_for (re_hash env) (rc_identity (dc_file c)) bytes
     \<and> c' = c\<lparr>dc_journal_offset := length (dk_file (rv_disk s)),
               dc_file := cursor_for (re_hash env) (rc_identity (dc_file c)) (bytes @ contents rs)\<rparr>)"

definition recovered :: "recovery_env \<Rightarrow> recovering \<Rightarrow> durable_file_cursor \<Rightarrow> runtime_error + file_cursor_writer option \<Rightarrow> recovering \<Rightarrow> bool" where
  "recovered env s c r t \<longleftrightarrow> rv_journal t = rv_journal s \<and> rv_disk t = rv_disk s
     \<and> (rv_cursor_visible t = rv_cursor_visible s \<or> (\<exists>c'. rv_cursor_visible t = Some c' \<and> caught_up env s c c'))
     \<and> (rv_cursor_stable t = rv_cursor_stable s \<or> (\<exists>c'. rv_cursor_stable t = Some c' \<and> caught_up env s c c'))
     \<and> (case r of
          Inr (Some f) \<Rightarrow> fc_durable f = Some c
            \<or> (\<exists>c'. fc_durable f = Some c' \<and> rv_cursor_stable t = Some c' \<and> rv_cursor_visible t = Some c' \<and> caught_up env s c c')
        | _ \<Rightarrow> True)"

lemma recovered_untouched: "untouched s t \<Longrightarrow> recovered env s c (Inl e) t"
  by (simp add: recovered_def untouched_def)

lemma recovered_same: "untouched s t \<Longrightarrow> recovered env s c (Inr (Some \<lparr>fc_cursor_path = p, fc_source_path = q, fc_durable = Some c\<rparr>)) t"
  by (simp add: recovered_def untouched_def)

lemma advanced_cursor:
  assumes "dc_file c = cursor_for hash identity bytes"
  shows "(advance_cursor ys c)\<lparr>dc_journal_offset := n, dc_file := (dc_file (advance_cursor ys c))\<lparr>rc_content_crc32 := hash (bytes @ ys)\<rparr>\<rparr>
    = c\<lparr>dc_journal_offset := n, dc_file := cursor_for hash identity (bytes @ ys)\<rparr>"
  using assms by (simp add: advance_cursor_def cursor_for_def keep_last_append)

lemma run_consumes: "consumes m P \<Longrightarrow> run_ok (untouched s) m (\<lambda>_. untouched s) (untouched s)"
  by (rule run_okI) (auto simp: consumes_def intro: untouched_trans split: sum.split)

lemma run_journal_record:
  assumes "jn_buffer (rv_journal s) = []"
  shows "run_ok (untouched s) (journal_record env offset) (\<lambda>_. untouched s) (untouched s)"
proof (rule run_okI)
  fix u r t
  assume u: "untouched s u" and m: "journal_record env offset u = (r, t)"
  have "jn_buffer (rv_journal u) = []" using u assms by (simp add: untouched_def)
  from journal_record_idle [OF this, of env offset] u m
  show "case r of Inl e \<Rightarrow> untouched s t | Inr x \<Rightarrow> untouched s t"
    by (auto simp: untouched_def split: sum.splits)
qed

lemma run_tail_loop:
  assumes "jn_buffer (rv_journal s) = []"
  shows "run_ok (untouched s) (tail_loop env journal_end left got offset durable hasher) (\<lambda>_. untouched s) (untouched s)"
proof (induction left arbitrary: got offset durable hasher rule: less_induct)
  case (less left)
  let ?U = "untouched s"
  have stop: "run_ok ?U (throw e) (\<lambda>_. ?U) ?U" for e
    by (rule run_ok_throw)
  have again: "run_ok ?U (if actual \<noteq> raw_content r
                then throw (RuntimeIo ''file content no longer matches the uncheckpointed journal tail'')
                else tail_loop env journal_end (left - 1) (got + length (raw_content r))
                       (pg_next_offset page) (advance_cursor (raw_content r) durable)
                       (hasher @ raw_content r)) (\<lambda>_. ?U) ?U" if "0 < left" for actual r page
    using less.IH [of "left - 1"] that by (auto intro: stop)
  have found: "run_ok ?U (case pg_records page of
            [] \<Rightarrow> throw (RuntimeIo ''file cursor journal tail made no progress'')
          | r # _ \<Rightarrow>
              if rr_stream r \<noteq> File \<or> rr_acquisition r \<noteq> dc_acquisition durable
              then throw (RuntimeIo ''file cursor journal tail crosses an uncheckpointed boundary'')
              else and_then (source_read_exact env (length (raw_content r))) (\<lambda>actual.
                if actual \<noteq> raw_content r
                then throw (RuntimeIo ''file content no longer matches the uncheckpointed journal tail'')
                else tail_loop env journal_end (left - 1) (got + length (raw_content r))
                       (pg_next_offset page) (advance_cursor (raw_content r) durable)
                       (hasher @ raw_content r))) (\<lambda>_. ?U) ?U" if "0 < left" for page
    using stop run_ok_and_then [OF run_consumes [OF consumes_read_exact] again [OF that]]
    by (cases "pg_records page") auto
  show ?case
    by (subst tail_loop.simps, rule run_ok_if, rule run_ok_ok, assumption,
        rule run_ok_before [OF run_consumes [OF consumes_check]], rule run_ok_if, rule stop,
        rule run_ok_and_then [OF run_journal_record [OF assms] found]) simp
qed

lemma catch_up_recovered:
  assumes "catch_up env setup c journal_end hashed u = (r, t)" "untouched s u"
    and "rv_source s = hashed @ rv_source u" "dc_file c = cursor_for (re_hash env) (rc_identity (dc_file c)) hashed"
    and "jn_buffer (rv_journal s) = []" "length (source_bytes (jn_source (rv_journal s))) = 16"
    and "journal_end = length (dk_file (rv_disk s))" "dc_journal_offset c < journal_end"
  shows "recovered env s c r t"
proof -
  obtain x v where l: "tail_loop env journal_end max_recovery_records 0 (dc_journal_offset c) c hashed u = (x, v)"
    by fastforce
  have idle: "jn_buffer (rv_journal u) = []" and su: "rv_journal u = rv_journal s" "rv_disk u = rv_disk s"
    using assms(2,5) by (simp_all add: untouched_def)
  show ?thesis
  proof (cases x)
    case (Inl e)
    then have "untouched s v" using run_okD [OF run_tail_loop [OF assms(5)] assms(2) l] by simp
    then show ?thesis using assms(1) l Inl by (auto simp: catch_up_def and_then_def intro: recovered_untouched)
  next
    case (Inr y)
    obtain offset advanced hasher where y: "y = (offset, advanced, hasher)" by (cases y) auto
    obtain rs where rs: "tail_records c (jn_source (rv_journal s)) rs" "untouched u v"
      "offset \<le> length (dk_file (rv_disk s))" "journal_end \<le> offset"
      "segment (dk_file (rv_disk s)) (dc_journal_offset c) offset = journal_bytes (re_crc env) rs"
      "rv_source u = contents rs @ rv_source v" "hasher = hashed @ contents rs"
      "if rs = [] then advanced = c else advanced = advance_cursor (contents rs) c"
      using tail_loop_sound [OF l [unfolded Inr y] idle] assms(6-8) unfolding su by auto
    have off: "offset = length (dk_file (rv_disk s))" using rs(3,4) assms(7) by simp
    have "rs \<noteq> []"
    proof
      assume "rs = []"
      then have "length (segment (dk_file (rv_disk s)) (dc_journal_offset c) offset) = 0" using rs(5) by simp
      then show False using off assms(7,8) by (simp add: length_segment)
    qed
    then have adv: "advanced = advance_cursor (contents rs) c" using rs(8) by simp
    let ?new = "advanced\<lparr>dc_journal_offset := offset,
        dc_file := (dc_file advanced)\<lparr>rc_content_crc32 := re_hash env hasher\<rparr>\<rparr>"
    have new: "?new = c\<lparr>dc_journal_offset := length (dk_file (rv_disk s)),
        dc_file := cursor_for (re_hash env) (rc_identity (dc_file c)) (hashed @ contents rs)\<rparr>"
      using advanced_cursor [OF assms(4), of "contents rs" offset] off rs(7) adv by simp
    have up: "caught_up env s c ?new"
      unfolding caught_up_def new using rs(1,5,6) assms(3,4) off
      by (intro exI [of _ hashed] exI [of _ rs] exI [of _ "rv_source v"]) simp
    have sv: "untouched s v" using assms(2) rs(2) untouched_trans by blast
    have moved: "offset \<noteq> dc_journal_offset c" using off assms(7,8) by simp
    obtain io where io: "re_store env (rv_calls v) = io" by blast
    have m: "before (store_recovered env ?new) (recovered_writer setup (Some ?new)) v = (r, t)"
      using assms(1) l Inr y moved by (simp add: catch_up_def and_then_def Let_def)
    show ?thesis
      using m sv up io unfolding recovered_def untouched_def
      by (cases io) (auto simp: store_recovered_def recovered_writer_def action_defs ask_def)
  qed
qed

lemma recovered_unchanged:
  "recovered_writer setup (Some c) u = (r, t) \<Longrightarrow> untouched s u \<Longrightarrow> recovered env s c r t"
  by (auto simp: recovered_writer_def ok_def intro: recovered_same)

lemma recovered_error: "throw e u = (r, t) \<Longrightarrow> untouched s u \<Longrightarrow> recovered env s c r t"
  by (auto simp: throw_def intro: recovered_untouched)

text \<open>Following a step of validation: an error ends the recovery there.\<close>

lemma recovered_and_then:
  assumes "and_then m f u = (r, t)" "untouched s u" "consumes m P"
    and "\<And>x a v. untouched s v \<Longrightarrow> rv_source u = a @ rv_source v \<Longrightarrow> P a x \<Longrightarrow> f x v = (r, t) \<Longrightarrow> recovered env s c r t"
  shows "recovered env s c r t"
proof -
  obtain x v where m: "m u = (x, v)" by fastforce
  have v: "untouched s v" using assms(2,3) m untouched_trans by (auto simp: consumes_def)
  show ?thesis
  proof (cases x)
    case (Inl e)
    then show ?thesis using assms(1) m v by (auto simp: and_then_def intro: recovered_untouched)
  next
    case (Inr y)
    then obtain a where "rv_source u = a @ rv_source v" "P a y" using consumesD [OF assms(3)] m by blast
    then show ?thesis using assms(1,4) m v Inr by (auto simp: and_then_def)
  qed
qed

lemma recover_recovered:
  assumes "recover_file_cursor env (Some setup) s = (r, t)" "su_durable setup = Some c"
    and "jn_buffer (rv_journal s) = []" "length (source_bytes (jn_source (rv_journal s))) = 16"
    and "jn_written_bytes (rv_journal s) = length (dk_file (rv_disk s))"
  shows "recovered env s c r t"
proof -
  let ?je = "length (dk_file (rv_disk s))"
  let ?keep = "recovered_writer setup (Some c)"
  let ?checked = "\<lambda>hasher. case hasher of None \<Rightarrow> ?keep | Some hashed \<Rightarrow> catch_up env setup c ?je hashed"
  let ?encoded = "\<lambda>same. if \<not> same then ?keep else and_then (validate_acknowledged_prefix env (dc_file c)) ?checked"
  let ?opened = "case re_open env of
       Inl e \<Rightarrow> throw (RuntimeIo e)
     | Inr (identity, len) \<Rightarrow>
         if identity \<noteq> rc_identity (dc_file c) then ?keep
         else if dc_encoding c = Plain \<and> len < rc_offset (dc_file c) then ?keep
         else and_then (validate_source_encoding env (dc_encoding c)) ?encoded"
  have whole: "(if dc_journal_offset c > ?je then throw (RuntimeIo ''file cursor points beyond the journal'')
      else if dc_journal_offset c = ?je then ?keep
      else before (check_cancelled env) ?opened) s = (r, t)"
    using assms(1) by (simp only: recover_file_cursor_def with_state_def Let_def assms(2,5) option.case)
  consider "dc_journal_offset c \<ge> ?je" | "dc_journal_offset c < ?je" by linarith
  then show ?thesis
  proof cases
    case 1
    then show ?thesis using whole recovered_error recovered_unchanged
      by (auto split: if_splits)
  next
    case behind: 2
    have checked: "recovered env s c r t" if m: "?checked hasher u = (r, t)" and u: "untouched s u"
      and found: "\<And>h. hasher = Some h \<Longrightarrow> rv_source s = h @ rv_source u
        \<and> dc_file c = cursor_for (re_hash env) (rc_identity (dc_file c)) h" for hasher u
    proof (cases hasher)
      case None
      then show ?thesis using recovered_unchanged [OF _ u] m by simp
    next
      case (Some h)
      then have "catch_up env setup c ?je h u = (r, t)" using m by simp
      from catch_up_recovered [OF this u] found [OF Some] assms(3,4) behind show ?thesis by blast
    qed
    have encoded: "recovered env s c r t" if m: "?encoded same u = (r, t)" and u: "untouched s u" "rv_source u = rv_source s"
      for same u
    proof (cases same)
      case False
      then show ?thesis using recovered_unchanged [OF _ u(1)] m by simp
    next
      case True
      then have mm: "and_then (validate_acknowledged_prefix env (dc_file c)) ?checked u = (r, t)" using m by simp
      show ?thesis
      proof (rule recovered_and_then [OF mm u(1) consumes_validate])
        fix x a v
        assume v: "untouched s v" "rv_source u = a @ rv_source v" "?checked x v = (r, t)"
          and "\<forall>h. x = Some h \<longrightarrow> h = a \<and> length a = rc_offset (dc_file c)
            \<and> re_hash env a = rc_content_crc32 (dc_file c) \<and> rc_evidence (dc_file c) = keep_last file_evidence_bytes a"
        then show "recovered env s c r t"
          by (intro checked [OF v(3,1)]) (auto simp: cursor_for_def u(2))
      qed
    qed
    have opened: "recovered env s c r t" if o: "?opened u = (r, t)" "untouched s u" "rv_source u = rv_source s" for u
    proof (cases "\<exists>len. re_open env = Inr (rc_identity (dc_file c), len)
        \<and> \<not> (dc_encoding c = Plain \<and> len < rc_offset (dc_file c))")
      case True
      then have m: "and_then (validate_source_encoding env (dc_encoding c)) ?encoded u = (r, t)" using o(1) by auto
      show ?thesis
        by (rule recovered_and_then [OF m o(2) consumes_encoding], rule encoded) (use o(3) in simp_all)
    next
      case False
      then show ?thesis using o recovered_unchanged recovered_error
        by (auto split: sum.splits prod.splits if_splits)
    qed
    have "before (check_cancelled env) ?opened s = (r, t)" using whole behind by simp
    then show ?thesis unfolding before_def
      by (rule recovered_and_then [OF _ untouched_refl consumes_check]) (rule opened, simp_all)
  qed
qed

section \<open>When nothing goes wrong\<close>

definition smooth :: "recovery_env \<Rightarrow> bool" where
  "smooth env \<longleftrightarrow> (\<forall>n. \<not> re_cancelled env n) \<and> (\<forall>n. \<exists>k. re_read env n = Inr k) \<and> (\<forall>n. re_store env n = Watermark_Ok)"

lemma source_read_smooth:
  assumes "smooth env"
  shows "\<exists>n t. source_read env limit s = (Inr (take n (rv_source s)), t) \<and> rv_source t = drop n (rv_source s)
    \<and> n \<le> limit \<and> n \<le> length (rv_source s) \<and> (0 < limit \<longrightarrow> rv_source s \<noteq> [] \<longrightarrow> 0 < n)"
proof -
  obtain k where "re_read env (rv_calls s) = Inr k" using assms unfolding smooth_def by blast
  then show ?thesis
    by (intro exI [of _ "read_len limit k (rv_source s)"])
      (auto simp: source_read_def and_then_def ask_def Let_def read_len_def)
qed

lemma read_exact_smooth:
  assumes "smooth env" "rv_source s = bytes @ left"
  shows "\<exists>t. source_read_exact env (length bytes) s = (Inr bytes, t) \<and> rv_source t = left"
  using assms(2)
proof (induction "length bytes" arbitrary: bytes s rule: less_induct)
  case less
  show ?case
  proof (cases "bytes = []")
    case True
    then show ?thesis using less.prems by (simp add: source_read_exact.simps ok_def)
  next
    case False
    obtain n u where u: "source_read env (length bytes) s = (Inr (take n (rv_source s)), u)"
      "rv_source u = drop n (rv_source s)" "n \<le> length bytes" "n \<le> length (rv_source s)" "0 < n"
      using source_read_smooth [OF assms(1), of "length bytes" s] less.prems False by auto
    have got: "take n (rv_source s) = take n bytes" "rv_source u = drop n bytes @ left"
      using less.prems u(2,3) by simp_all
    obtain t where t: "source_read_exact env (length (drop n bytes)) u = (Inr (drop n bytes), t)" "rv_source t = left"
      using less.hyps [of "drop n bytes" u] got(2) u(3,5) False by fastforce
    have "take n bytes \<noteq> []" using False u(5) by simp
    moreover have "length bytes - length (take n bytes) = length (drop n bytes)" using u(3) by simp
    ultimately show ?thesis
      using u(1) got(1) t False
      by (subst source_read_exact.simps) (simp add: and_then_def ok_def)
  qed
qed

lemma check_smooth: "smooth env \<Longrightarrow> before (check_cancelled env) m s = m (s\<lparr>rv_calls := rv_calls s + 1\<rparr>)"
  by (simp add: smooth_def before_def check_cancelled_def and_then_def ask_def ok_def)

lemma prefix_smooth:
  assumes "smooth env" "rv_source s = bytes @ left"
  shows "\<exists>found t. prefix_loop env (length bytes) hashed tail s = (Inr (Some found), t)"
  using assms(2)
proof (induction "length bytes" arbitrary: bytes hashed tail s rule: less_induct)
  case less
  show ?case
  proof (cases "bytes = []")
    case True
    then show ?thesis by (simp add: prefix_loop.simps ok_def)
  next
    case False
    let ?s = "s\<lparr>rv_calls := rv_calls s + 1\<rparr>"
    obtain n u where u: "source_read env (min (length bytes) 65536) ?s = (Inr (take n (rv_source s)), u)"
      "rv_source u = drop n (rv_source s)" "n \<le> length bytes" "0 < n"
      using source_read_smooth [OF assms(1), of "min (length bytes) 65536" ?s] less.prems False by fastforce
    have got: "take n (rv_source s) = take n bytes" "rv_source u = drop n bytes @ left"
      using less.prems u(2,3) by simp_all
    have "length (drop n bytes) < length bytes" using u(3,4) False by simp
    from less.hyps [OF this got(2)] obtain found t where
      "prefix_loop env (length (drop n bytes)) (hashed @ take n bytes) (keep_last file_evidence_bytes (tail @ take n bytes)) u
        = (Inr (Some found), t)" by blast
    moreover have "take n bytes \<noteq> []" using False u(4) by simp
    moreover have "length bytes - length (take n bytes) = length (drop n bytes)" using u(3) by simp
    ultimately show ?thesis
      using u(1) got(1) False
      by (subst prefix_loop.simps) (simp add: check_smooth [OF assms(1)] and_then_def)
  qed
qed

lemma validate_smooth:
  assumes "smooth env" "rv_source s = bytes @ left" "cursor = cursor_for (re_hash env) identity bytes"
  shows "\<exists>t. validate_acknowledged_prefix env cursor s = (Inr (Some bytes), t) \<and> rv_source t = left \<and> untouched s t"
proof -
  have off: "rc_offset cursor = length bytes" "length (rc_evidence cursor) \<le> length bytes"
    using assms(3) by (simp_all add: cursor_for_def length_keep_last)
  obtain h tl t where t: "prefix_loop env (length bytes) [] [] s = (Inr (Some (h, tl)), t)"
    using prefix_smooth [OF assms(1,2)] by fastforce
  have "consumes (prefix_loop env (length bytes) [] []) (\<lambda>a found. \<forall>h t. found = Some (h, t)
    \<longrightarrow> h = [] @ a \<and> length a = length bytes \<and> t = keep_last file_evidence_bytes h)"
    by (rule consumes_prefix) (simp add: keep_last_def)
  from consumesD [OF this t] obtain a where a: "untouched s t" "rv_source s = a @ rv_source t" "h = a"
    "length a = length bytes" "tl = keep_last file_evidence_bytes a" by auto
  then have "a = bytes" "rv_source t = left" using assms(2) by auto
  then show ?thesis
    using t a off assms(3) by (simp add: validate_acknowledged_prefix_def and_then_def ok_def cursor_for_def)
qed

lemma page_one_whole:
  assumes "\<forall>r \<in> set (r # rs). storable source r" "length (contents (r # rs)) \<le> u64_max"
  shows "\<exists>r'. read_page_from crc (pre @ journal_bytes crc (r # rs)) source (length pre) 1 (2 * 1024 * 1024)
      = Inr \<lparr>pg_records = [r'], pg_next_offset = length pre + length (record_frame crc r),
             pg_end_of_journal = (length pre + length (record_frame crc r) = length (pre @ journal_bytes crc (r # rs)))\<rparr>
    \<and> raw_view r' = raw_view r"
proof -
  have pay: "payloads qs = length (contents qs)" for qs
    by (induction qs) (simp_all add: payload_bytes_def raw_content_def)
  have "(0::nat) < 2 * 1024 * 1024" by simp
  from page_from_run [OF assms(1), of 0 "2 * 1024 * 1024" crc pre 1 "[]"] assms(2) this
  obtain n page where n: "page_from crc (pre @ journal_bytes crc (r # rs)) source 1 (2 * 1024 * 1024) (length pre) 0 []
      = Inr (page, length pre + length (journal_bytes crc (take n (r # rs))))"
    "map raw_view page = map raw_view (take n (r # rs))" "page_run 1 (2 * 1024 * 1024) 0 0 (r # rs) n"
    by (auto simp: pay)
  have "n = 1" using n(3) by (cases n) (auto simp: page_run_def)
  then obtain r' where "page = [r']" "raw_view r' = raw_view r" using n(2) by auto
  then show ?thesis using n(1) \<open>n = 1\<close> by (auto simp: read_page_from_def Let_def)
qed

lemma tail_loop_smooth:
  assumes "smooth env"
    and "dk_file (rv_disk s) = pre @ journal_bytes (re_crc env) rs" "rv_source s = contents rs @ left"
    and "tail_records c (jn_source (rv_journal s)) rs" "jn_buffer (rv_journal s) = []"
    and "length rs \<le> n" "got + length (contents rs) < max_recovery_bytes"
  shows "\<exists>t. tail_loop env (length (dk_file (rv_disk s))) n got (length pre) c hasher s
    = (Inr (length (dk_file (rv_disk s)), if rs = [] then c else advance_cursor (contents rs) c, hasher @ contents rs), t)"
  using assms(2-)
proof (induction rs arbitrary: pre n got c hasher s)
  case Nil
  then show ?case by (simp add: tail_loop.simps ok_def)
next
  case (Cons r rs)
  let ?s = "s\<lparr>rv_calls := rv_calls s + 1\<rparr>" and ?je = "length (dk_file (rv_disk s))"
  let ?next = "length pre + length (record_frame (re_crc env) r)"
  have ok_r: "storable (jn_source (rv_journal s)) r" "rr_stream r = File" "rr_acquisition r = dc_acquisition c"
    using Cons.prems(3) by (simp_all add: tail_records_def)
  have more': "length pre < ?je"
    using Cons.prems(1) record_frame_length [OF ok_r(1), of "re_crc env"] by (simp add: journal_header_def)
  have small: "length (contents (r # rs)) \<le> u64_max"
    using Cons.prems(6) by (simp add: max_recovery_bytes_def u64_max_def)
  obtain r' where r': "read_page_from (re_crc env) (dk_file (rv_disk s)) (jn_source (rv_journal s)) (length pre) 1 (2 * 1024 * 1024)
      = Inr \<lparr>pg_records = [r'], pg_next_offset = ?next, pg_end_of_journal = (?next = ?je)\<rparr>"
    "raw_view r' = raw_view r"
    using page_one_whole [of r rs "jn_source (rv_journal s)" "re_crc env" pre] Cons.prems(1,3) small
    by (auto simp: tail_records_def)
  then have view: "rr_stream r' = File" "rr_acquisition r' = dc_acquisition c" "raw_content r' = raw_content r"
    using ok_r(2,3) by (auto simp: raw_view_def raw_content_def)
  let ?v = "?s\<lparr>rv_calls := rv_calls ?s + 1\<rparr>"
  have jr: "journal_record env (length pre) ?s
      = (Inr \<lparr>pg_records = [r'], pg_next_offset = ?next, pg_end_of_journal = (?next = ?je)\<rparr>, ?v)"
    using r'(1) Cons.prems(4) by (subst journal_record_idle) simp_all
  obtain w where w: "source_read_exact env (length (raw_content r)) ?v = (Inr (raw_content r), w)"
    "rv_source w = contents rs @ left"
    using read_exact_smooth [OF assms(1), of ?v "raw_content r" "contents rs @ left"] Cons.prems(2) by auto
  have uw: "rv_journal w = rv_journal s" "rv_disk w = rv_disk s"
    using consumesD [OF consumes_read_exact w(1)] by (simp_all add: untouched_def)
  obtain m where m: "n = Suc m" using Cons.prems(5) by (cases n) auto
  have "\<exists>t. tail_loop env (length (dk_file (rv_disk w))) m (got + length (raw_content r))
      (length (pre @ record_frame (re_crc env) r)) (advance_cursor (raw_content r) c) (hasher @ raw_content r) w
    = (Inr (length (dk_file (rv_disk w)), if rs = [] then advance_cursor (raw_content r) c
        else advance_cursor (contents rs) (advance_cursor (raw_content r) c), (hasher @ raw_content r) @ contents rs), t)"
    by (rule Cons.IH) (use Cons.prems w(2) uw m in \<open>auto simp: tail_records_def\<close>)
  then show ?case
    using more' jr view w(1) uw Cons.prems(6) m
    by (subst tail_loop.simps) (auto simp: check_smooth [OF assms(1)] and_then_def)
qed

lemma recover_smooth:
  assumes "smooth env" "su_durable setup = Some c" "dc_encoding c = Plain"
    and "re_open env = Inr (rc_identity (dc_file c), len)" "length bytes \<le> len"
    and "dc_file c = cursor_for (re_hash env) (rc_identity (dc_file c)) bytes"
    and "rv_source s = bytes @ contents rs @ left"
    and "dk_file (rv_disk s) = pre @ journal_bytes (re_crc env) rs" "dc_journal_offset c = length pre"
    and "jn_written_bytes (rv_journal s) = length (dk_file (rv_disk s))" "jn_buffer (rv_journal s) = []"
    and "tail_records c (jn_source (rv_journal s)) rs" "rs \<noteq> []"
    and "length rs \<le> max_recovery_records" "length (contents rs) < max_recovery_bytes"
    and "c' = c\<lparr>dc_journal_offset := length (dk_file (rv_disk s)),
               dc_file := cursor_for (re_hash env) (rc_identity (dc_file c)) (bytes @ contents rs)\<rparr>"
  shows "\<exists>t. recover_file_cursor env (Some setup) s
      = (Inr (Some \<lparr>fc_cursor_path = su_cursor_path setup, fc_source_path = su_source_path setup, fc_durable = Some c'\<rparr>), t)
    \<and> rv_cursor_visible t = Some c' \<and> rv_cursor_stable t = Some c'
    \<and> rv_journal t = rv_journal s \<and> rv_disk t = rv_disk s"
proof -
  let ?je = "length (dk_file (rv_disk s))" and ?s = "s\<lparr>rv_calls := rv_calls s + 1\<rparr>"
  obtain r rs' where rs: "rs = r # rs'" using assms(13) by (cases rs) auto
  have behind: "length pre < ?je"
    using rs assms(8,12) record_frame_length [of "jn_source (rv_journal s)" r "re_crc env"]
    by (simp add: tail_records_def journal_header_def)
  obtain u where u: "validate_acknowledged_prefix env (dc_file c) ?s = (Inr (Some bytes), u)"
    "rv_source u = contents rs @ left" "untouched ?s u"
    using validate_smooth [OF assms(1) _ assms(6), of ?s "contents rs @ left"] assms(7) by auto
  then have su: "rv_journal u = rv_journal s" "rv_disk u = rv_disk s" by (simp_all add: untouched_def)
  obtain v where v: "tail_loop env ?je max_recovery_records 0 (length pre) c bytes u
    = (Inr (?je, advance_cursor (contents rs) c, bytes @ contents rs), v)"
    using tail_loop_smooth [OF assms(1), of u pre rs left c max_recovery_records 0 bytes] assms(8,11-15) u(2)
    unfolding su by auto
  have sv: "rv_journal v = rv_journal s" "rv_disk v = rv_disk s"
    using run_okD [OF run_tail_loop [of u] untouched_refl v] assms(11) unfolding su by (simp_all add: untouched_def su)
  have off: "rc_offset (dc_file c) = length bytes" using assms(6) by (metis cursor_for_def file_resume_cursor.select_convs(1))
  have new: "(advance_cursor (contents rs) c)\<lparr>dc_journal_offset := ?je,
      dc_file := (dc_file (advance_cursor (contents rs) c))\<lparr>rc_content_crc32 := re_hash env (bytes @ contents rs)\<rparr>\<rparr> = c'"
    using advanced_cursor [OF assms(6), of "contents rs" ?je] unfolding assms(16) .
  have store: "re_store env n = Watermark_Ok" for n using assms(1) by (simp add: smooth_def)
  have "recover_file_cursor env (Some setup) s = catch_up env setup c ?je bytes u"
    using behind u(1) off assms(2,3,4,5,9,10)
    by (simp add: recover_file_cursor_def with_state_def Let_def check_smooth [OF assms(1)]
        validate_source_encoding_def and_then_def ok_def)
  moreover have "catch_up env setup c ?je bytes u = before (store_recovered env c') (recovered_writer setup (Some c')) v"
    using v behind assms(9) new by (simp add: catch_up_def and_then_def Let_def)
  ultimately show ?thesis
    using store sv
    by (auto simp: store_recovered_def recovered_writer_def before_def and_then_def ask_def ok_def)
qed

end
