(* ===== verification/Ingest_Restart.thy ===== *)
theory Ingest_Restart
  imports Ingest_Runs Ingest_Recovery
begin

text \<open>
  Starting a writer over what an earlier one left, \<open>spawn_writer\<close> of
  \<open>crates/lvu-ingest/src/writer.rs\<close>: the journal is opened, the catalogue, and the file cursor is
  caught up; then the loop runs.  What a restart keeps, and what it does not.
\<close>

section \<open>Spawning\<close>

text \<open>What is on disk when the source starts, and the locks this process holds.\<close>

record boot =
  bo_claimed :: "string set"
  bo_disk :: disk
  bo_visible :: "durable_file_cursor option"
  bo_stable :: "durable_file_cursor option"

record spawn_io =
  so_open :: open_io
  so_catalog :: bool
  so_source :: "byte list"
  so_metadata :: bool
  so_running :: bool

definition spawned_progress :: "source_id \<Rightarrow> recovery \<Rightarrow> disk \<Rightarrow> source_progress \<Rightarrow> source_progress" where
  "spawned_progress source rec d initial = initial\<lparr>sp_state := RuntimeRunning, sp_records := rc_records rec,
     sp_high_watermark := map_option (\<lambda>n. \<lparr>rid_source = source, rid_sequence = n\<rparr>) (rc_last_sequence rec),
     sp_journal_bytes := length (dk_file d), sp_synced_records := rc_records rec\<rparr>"

text \<open>An error after the journal was opened drops it, and its claim with it.  The result also says
  where a file capture resumes.\<close>

definition spawn_writer ::
  "recovery_env \<Rightarrow> runtime_config \<Rightarrow> spawn_io \<Rightarrow> string \<Rightarrow> source_id \<Rightarrow> file_cursor_setup option
    \<Rightarrow> source_progress \<Rightarrow> nat \<Rightarrow> boot
    \<Rightarrow> (runtime_error + writer_state \<times> (file_resume_cursor \<times> file_encoding) option) \<times> boot" where
  "spawn_writer env config io path source setup initial now b =
    (case open_journal (re_crc env) (so_open io) path source (bo_claimed b) (bo_disk b) of
       (Inl e, claimed, d) \<Rightarrow> (Inl (RuntimeJournal e), b\<lparr>bo_claimed := claimed, bo_disk := d\<rparr>)
     | (Inr (j, rec), claimed, d) \<Rightarrow>
         if \<not> so_catalog io
         then (Inl (RuntimeIo ''catalog''), b\<lparr>bo_claimed := claim_drop claimed path, bo_disk := d\<rparr>)
         else case recover_file_cursor env setup
             \<lparr>rv_journal = j, rv_disk = d, rv_cursor_visible = bo_visible b, rv_cursor_stable = bo_stable b,
              rv_source = so_source io, rv_calls = 0\<rparr> of
           (Inl e, t) \<Rightarrow> (Inl e, \<lparr>bo_claimed = claim_drop claimed path, bo_disk = rv_disk t,
               bo_visible = rv_cursor_visible t, bo_stable = rv_cursor_stable t\<rparr>)
         | (Inr cursor, t) \<Rightarrow>
             let b' = \<lparr>bo_claimed = claimed, bo_disk = rv_disk t,
                 bo_visible = rv_cursor_visible t, bo_stable = rv_cursor_stable t\<rparr>;
                 progress = spawned_progress source rec (rv_disk t) initial
             in if \<not> so_metadata io \<or> \<not> so_running io
                then (Inl (RuntimeIo ''metadata or catalog''), b'\<lparr>bo_claimed := claim_drop claimed path\<rparr>)
                else (Inr (\<lparr>ws_journal = rv_journal t, ws_current = progress, ws_file_cursor = cursor,
                       ws_commit = commit_new config now, ws_disk = rv_disk t,
                       ws_cursor_visible = rv_cursor_visible t, ws_cursor_stable = rv_cursor_stable t,
                       ws_catalog = [CatalogRunning], ws_published = progress, ws_replies = [],
                       ws_finish_replies = [], ws_calls = 0, ws_taken = []\<rparr>,
                     (case cursor of
                        None \<Rightarrow> None
                      | Some f \<Rightarrow> map_option (\<lambda>c. (dc_file c, dc_encoding c)) (fc_durable f))), b'))"

text \<open>The machine loses what was not synced.\<close>

definition crashed :: "disk \<Rightarrow> disk" where
  "crashed d = d\<lparr>dk_file := take (dk_synced d) (dk_file d), dk_seq := dk_seq_stable d\<rparr>"

section \<open>What spawning leaves\<close>

lemma open_journal_fields:
  assumes "open_journal crc io path source claimed d = (Inr (j, rec), claimed', d')"
    and "length (source_bytes source) = 16"
  shows "jn_buffer j = [] \<and> \<not> jn_poisoned j \<and> jn_source j = source \<and> jn_written_bytes j = length (dk_file d')
    \<and> length (dk_file d') \<le> length (dk_file d)
    \<and> (dk_synced d = length (dk_file d) \<longrightarrow> dk_synced d' = length (dk_file d'))"
proof -
  have r: "recover crc io source d = (Inr (j, rec), d')"
    using assms(1) by (auto simp: open_journal_def claim_take_def Let_def split: if_splits option.splits bool.splits prod.splits sum.splits)
  obtain scan where scan: "scan_metadata crc (dk_file d) source = Inr scan"
    using r by (auto simp: recover_def split: sum.splits)
  have valid: "sm_valid_len scan \<le> length (dk_file d)"
    using scan_sound [of crc "dk_file d" source 0 0 None scan] scan assms(2) by (auto simp: scan_metadata_def)
  show ?thesis
    using r scan valid by (auto simp: recover_def Let_def split: if_splits sum.splits)
qed

definition within :: "nat \<Rightarrow> durable_file_cursor option \<Rightarrow> bool" where
  "within n found \<longleftrightarrow> (case found of None \<Rightarrow> True | Some c \<Rightarrow> dc_journal_offset c \<le> n)"

lemma recover_within:
  assumes "recover_file_cursor env (Some su) s = (Inr cursor, t)"
    and "jn_buffer (rv_journal s) = []" "length (source_bytes (jn_source (rv_journal s))) = 16"
    and "jn_written_bytes (rv_journal s) = length (dk_file (rv_disk s))"
    and "su_durable su = rv_cursor_visible s" "rv_cursor_stable s = rv_cursor_visible s"
  shows "rv_journal t = rv_journal s \<and> rv_disk t = rv_disk s
    \<and> within (length (dk_file (rv_disk s))) (rv_cursor_visible t)
    \<and> within (length (dk_file (rv_disk s))) (rv_cursor_stable t)"
proof (cases "su_durable su")
  case None
  then show ?thesis using assms(1,5,6)
    by (auto simp: recover_file_cursor_def recovered_writer_def ok_def within_def)
next
  case (Some c)
  have rec: "recovered env s c (Inr cursor) t"
    by (rule recover_recovered [OF assms(1) Some assms(2-4)])
  have "dc_journal_offset c \<le> length (dk_file (rv_disk s))"
    using assms(1,4) Some
    by (auto simp: recover_file_cursor_def with_state_def Let_def throw_def split: if_splits)
  moreover have "dc_journal_offset c' = length (dk_file (rv_disk s))" if "caught_up env s c c'" for c'
    using that by (auto simp: caught_up_def)
  moreover have "rv_journal t = rv_journal s" "rv_disk t = rv_disk s"
    and "rv_cursor_visible t = Some c \<or> (\<exists>c'. rv_cursor_visible t = Some c' \<and> caught_up env s c c')"
    and "rv_cursor_stable t = Some c \<or> (\<exists>c'. rv_cursor_stable t = Some c' \<and> caught_up env s c c')"
    using rec assms(5,6) Some by (auto simp: recovered_def)
  ultimately show ?thesis by (auto simp: within_def)
qed

text \<open>Over a synced journal, a spawned writer starts clean.\<close>

lemma spawn_starts:
  assumes "spawn_writer env config io path source (Some su) initial now b = (Inr (s, resume), b')"
    and "length (source_bytes source) = 16" "sp_source initial = source"
    and "dk_synced (bo_disk b) = length (dk_file (bo_disk b))"
    and "su_durable su = bo_visible b" "bo_stable b = bo_visible b"
    and "start = \<lparr>st_crc = re_crc env, st_source = source, st_file = dk_file (ws_disk s),
      st_next = jn_next_sequence (ws_journal s), st_visible = ws_cursor_visible s, st_stable = ws_cursor_stable s\<rparr>"
  shows "starts_clean start s \<and> within (dk_synced (ws_disk s)) (ws_cursor_visible s)
    \<and> within (dk_synced (ws_disk s)) (ws_cursor_stable s) \<and> dk_file (ws_disk s) = dk_file (bo_disk b')"
proof -
  obtain j rec claimed d where o: "open_journal (re_crc env) (so_open io) path source (bo_claimed b) (bo_disk b)
      = (Inr (j, rec), claimed, d)"
    using assms(1) by (auto simp: spawn_writer_def split: sum.splits prod.splits)
  note f = open_journal_fields [OF o assms(2)]
  let ?s = "\<lparr>rv_journal = j, rv_disk = d, rv_cursor_visible = bo_visible b, rv_cursor_stable = bo_stable b,
              rv_source = so_source io, rv_calls = 0\<rparr>"
  obtain cursor t where r: "recover_file_cursor env (Some su) ?s = (Inr cursor, t)"
    and s: "ws_journal s = rv_journal t" "ws_disk s = rv_disk t" "ws_cursor_visible s = rv_cursor_visible t"
      "ws_cursor_stable s = rv_cursor_stable t" "ws_commit s = commit_new config now" "ws_taken s = []"
      "sp_source (ws_current s) = source" "bo_disk b' = rv_disk t"
    using assms(1,3) o by (auto simp: spawn_writer_def spawned_progress_def Let_def split: if_splits sum.splits prod.splits)
  note w = recover_within [OF r]
  have k: "rv_journal t = j" "rv_disk t = d" "within (length (dk_file d)) (rv_cursor_visible t)"
    "within (length (dk_file d)) (rv_cursor_stable t)"
    using w f assms(2,5,6) by auto
  then show ?thesis
    using s f assms(4,7) by (simp add: starts_clean_def commit_new_def)
qed

section \<open>A short restart, for the witnesses\<close>

definition tail_record :: raw_record where
  "tail_record = (sample_record 0 [97])\<lparr>rr_stream := File\<rparr>"

lemma tail_record_facts [simp]:
  "storable sample_source tail_record" "rr_stream tail_record = File" "rr_acquisition tail_record = replicate 16 9"
  "raw_content tail_record = [97, LF]"
  by (simp_all add: tail_record_def sample_record_def storable_def record_ok_def journal_fixed_def max_frame_def
      payload_bytes_def raw_content_def)

definition tail_env :: recovery_env where
  "tail_env = \<lparr>re_crc = \<lambda>_. 5, re_hash = length, re_cancelled = \<lambda>_. False, re_open = Inr (None, 3),
     re_read = \<lambda>_. Inr 1, re_page = \<lambda>_. None, re_store = \<lambda>_. Watermark_Ok, re_compressed_len = Inr 0, re_compressed = []\<rparr>"

definition tail_cursor :: durable_file_cursor where
  "tail_cursor = \<lparr>dc_schema_version = 1, dc_source = sample_source, dc_path = ''log'', dc_acquisition = replicate 16 9,
     dc_journal_offset = 0, dc_file = cursor_for length None [], dc_encoding = Plain\<rparr>"

definition tail_setup :: file_cursor_setup where
  "tail_setup = \<lparr>su_cursor_path = ''cursor'', su_source_path = ''log'', su_durable = Some tail_cursor\<rparr>"

definition tail_state :: recovering where
  "tail_state = \<lparr>rv_journal = \<lparr>jn_source = sample_source, jn_next_sequence = 1, jn_reserved_until = 1,
       jn_written_bytes = length (record_frame (\<lambda>_. 5) tail_record), jn_buffer = [], jn_poisoned = False\<rparr>,
     rv_disk = \<lparr>dk_file = record_frame (\<lambda>_. 5) tail_record, dk_synced = 0, dk_seq = None, dk_seq_stable = None\<rparr>,
     rv_cursor_visible = Some tail_cursor, rv_cursor_stable = Some tail_cursor,
     rv_source = [97, LF, 98], rv_calls = 0\<rparr>"

definition open_fine :: open_io where
  "open_fine = \<lparr>oi_lock_file = True, oi_record_lock = Some True, oi_journal_file = True,
     oi_set_len = True, oi_sync = True, oi_read_seq = True\<rparr>"

lemma tail_smooth [simp]: "smooth tail_env"
  by (simp add: smooth_def tail_env_def)

lemma tail_facts:
  "su_durable tail_setup = Some tail_cursor" "dc_encoding tail_cursor = Plain"
  "re_open tail_env = Inr (rc_identity (dc_file tail_cursor), 3)" "length ([] :: byte list) \<le> (3 :: nat)"
  "dc_file tail_cursor = cursor_for (re_hash tail_env) (rc_identity (dc_file tail_cursor)) []"
  "rv_source tail_state = [] @ contents [tail_record] @ [98]"
  "dk_file (rv_disk tail_state) = [] @ journal_bytes (re_crc tail_env) [tail_record]"
  "dc_journal_offset tail_cursor = length ([] :: byte list)"
  "jn_written_bytes (rv_journal tail_state) = length (dk_file (rv_disk tail_state))" "jn_buffer (rv_journal tail_state) = []"
  "tail_records tail_cursor (jn_source (rv_journal tail_state)) [tail_record]" "[tail_record] \<noteq> []"
  "length [tail_record] \<le> max_recovery_records" "length (contents [tail_record]) < max_recovery_bytes"
  by (simp_all add: tail_setup_def tail_cursor_def tail_env_def tail_state_def tail_records_def
      max_recovery_records_def max_recovery_bytes_def)

lemma tail_unsynced: "dk_synced (rv_disk tail_state) < length (dk_file (rv_disk tail_state))"
  using record_frame_length [of sample_source tail_record "\<lambda>_. 5"]
  by (simp add: tail_state_def journal_header_def)

lemma tail_open:
  "\<exists>j rec claimed d. open_journal (\<lambda>_. 5) open_fine ''j'' sample_source {} (crashed (rv_disk tail_state))
    = (Inr (j, rec), claimed, d)"
  by (simp add: open_journal_def claim_take_def open_fine_def recover_def scan_metadata_def crashed_def tail_state_def
      scan_from.simps read_watermark_def)

section \<open>Properties\<close>

text \<open>C11. Catching up skips nothing.  Whatever the source returns and whenever the start is cancelled,
  \<open>recover_file_cursor\<close> leaves the journal and its file alone; a cursor it writes or hands on is the
  one it was given, or that one moved to the end of the journal, and then the source begins with
  exactly the bytes the old cursor stood for followed by the contents of the records, of that file
  and that acquisition, between the old journal offset and the end; the new cursor is the one a
  checkpoint there would have been, offset, last bytes and checksum.\<close>

theorem recovery_skips_nothing:
  assumes "recover_file_cursor env (Some setup) s = (r, t)" "su_durable setup = Some c"
    and "jn_buffer (rv_journal s) = []" "length (source_bytes (jn_source (rv_journal s))) = 16"
    and "jn_written_bytes (rv_journal s) = length (dk_file (rv_disk s))"
  shows "rv_journal t = rv_journal s \<and> rv_disk t = rv_disk s
    \<and> (rv_cursor_visible t = rv_cursor_visible s \<or> (\<exists>c'. rv_cursor_visible t = Some c' \<and> caught_up env s c c'))
    \<and> (rv_cursor_stable t = rv_cursor_stable s \<or> (\<exists>c'. rv_cursor_stable t = Some c' \<and> caught_up env s c c'))
    \<and> (case r of
         Inr (Some f) \<Rightarrow> fc_durable f = Some c
           \<or> (\<exists>c'. fc_durable f = Some c' \<and> rv_cursor_stable t = Some c' \<and> caught_up env s c c')
       | _ \<Rightarrow> True)"
  using recover_recovered [OF assms] unfolding recovered_def
  by (auto split: sum.splits option.splits)

theorem recovery_skips_nothing_witness:
  "\<exists>f t. recover_file_cursor tail_env (Some tail_setup) tail_state = (Inr (Some f), t)
    \<and> fc_durable f \<noteq> Some tail_cursor \<and> (\<exists>c'. fc_durable f = Some c' \<and> caught_up tail_env tail_state tail_cursor c')"
proof -
  obtain f t c' where r: "recover_file_cursor tail_env (Some tail_setup) tail_state = (Inr (Some f), t)"
    "fc_durable f = Some c'" "dc_journal_offset c' = length (dk_file (rv_disk tail_state))"
    using recover_smooth [OF tail_smooth tail_facts refl] by fastforce
  have "dc_journal_offset tail_cursor < length (dk_file (rv_disk tail_state))"
    using tail_unsynced by (simp add: tail_cursor_def tail_state_def)
  then have "c' \<noteq> tail_cursor" using r(3) by auto
  moreover have "length (source_bytes (jn_source (rv_journal tail_state))) = 16" by (simp add: tail_state_def)
  from recovery_skips_nothing [OF r(1) tail_facts(1,10) this tail_facts(9)] r(2) \<open>c' \<noteq> tail_cursor\<close>
  have "caught_up tail_env tail_state tail_cursor c'" by auto
  ultimately show ?thesis using r(1,2) by auto
qed

text \<open>C12. A restart over a synced journal keeps the order.  Spawn a writer for a file source over a
  journal whose file is synced, with the cursor on disk as its setup, and let it run on any queue,
  with any outcomes, for any time: whatever cursor is then on disk, seen or stable, old, caught up or
  new, points within the synced part of the journal.\<close>

theorem restart_keeps_cursor_behind:
  assumes "spawn_writer env config io path source (Some setup) initial now b = (Inr (s, resume), b')"
    and "length (source_bytes source) = 16" "sp_source initial = source"
    and "dk_synced (bo_disk b) = length (dk_file (bo_disk b))"
    and "su_durable setup = bo_visible b" "bo_stable b = bo_visible b"
    and "we_crc wenv = re_crc env" "run_writer wenv config wakes queue s = (r, t)"
    and "found = ws_cursor_visible t \<or> found = ws_cursor_stable t"
  shows "case found of None \<Rightarrow> True | Some c \<Rightarrow> dc_journal_offset c \<le> dk_synced (ws_disk t)"
proof -
  define start where "start = \<lparr>st_crc = re_crc env, st_source = source, st_file = dk_file (ws_disk s),
      st_next = jn_next_sequence (ws_journal s), st_visible = ws_cursor_visible s, st_stable = ws_cursor_stable s\<rparr>"
  note c = spawn_starts [OF assms(1-6) start_def]
  have crc: "st_crc start = we_crc wenv" using assms(7) by (simp add: start_def)
  have k: "kept start t" using kept_after [OF _ crc assms(8)] c by simp
  have "dk_synced (ws_disk s) = length (st_file start)" using c by (simp add: starts_clean_def)
  also have "\<dots> \<le> dk_synced (ws_disk t)" using k by (simp add: kept_def)
  finally have grown: "dk_synced (ws_disk s) \<le> dk_synced (ws_disk t)" .
  have "cursor_covered start t found" using k assms(9) by (auto simp: kept_def)
  then have "found = ws_cursor_visible s \<or> found = ws_cursor_stable s
      \<or> (\<exists>c'. found = Some c' \<and> dc_journal_offset c' \<le> dk_synced (ws_disk t))"
    by (auto simp: cursor_covered_def start_def)
  moreover have "within (dk_synced (ws_disk t)) found" if "within (dk_synced (ws_disk s)) found" for found
    using that grown by (auto simp: within_def split: option.splits)
  ultimately have "within (dk_synced (ws_disk t)) found" using c by (auto simp: within_def)
  then show ?thesis by (simp add: within_def)
qed

theorem restart_keeps_cursor_behind_witness:
  "\<exists>s resume b' t. spawn_writer tail_env sample_config
        \<lparr>so_open = open_fine, so_catalog = True, so_source = [97], so_metadata = True, so_running = True\<rparr> ''j''
        sample_source (Some tail_setup) sample_progress 0
        \<lparr>bo_claimed = {}, bo_disk = sample_disk, bo_visible = Some tail_cursor, bo_stable = Some tail_cursor\<rparr>
      = (Inr (s, resume), b')
    \<and> run_writer sample_writer_env sample_config [EventWake 0] [WriterFinish RuntimeStopped 0 True True] s = (Some (Inr ()), t)
    \<and> ws_cursor_stable t = Some tail_cursor
    \<and> (case ws_cursor_stable t of None \<Rightarrow> True | Some c \<Rightarrow> dc_journal_offset c \<le> dk_synced (ws_disk t))"
proof -
  let ?io = "\<lparr>so_open = open_fine, so_catalog = True, so_source = [97], so_metadata = True, so_running = True\<rparr>"
    and ?b = "\<lparr>bo_claimed = {}, bo_disk = sample_disk, bo_visible = Some tail_cursor, bo_stable = Some tail_cursor\<rparr>"
  obtain s resume b' where sp: "spawn_writer tail_env sample_config ?io ''j'' sample_source (Some tail_setup) sample_progress 0 ?b
      = (Inr (s, resume), b')"
    and st: "ws_commit s = commit_new sample_config 0" "jn_buffer (ws_journal s) = []" "\<not> jn_poisoned (ws_journal s)"
      "ws_cursor_stable s = Some tail_cursor"
    by (simp add: spawn_writer_def open_journal_def claim_take_def open_fine_def recover_def scan_metadata_def sample_disk_def
        scan_from.simps read_watermark_def recover_file_cursor_def tail_setup_def tail_cursor_def with_state_def
        recovered_writer_def ok_def Let_def)
  obtain t where run: "run_writer sample_writer_env sample_config [EventWake 0] [WriterFinish RuntimeStopped 0 True True] s
      = (Some (Inr ()), t)" "ws_cursor_stable t = Some tail_cursor"
    using st by (simp add: commit_overdue_def serve_wake_def action_defs answer_def commit_due_def
      outstanding_def commit_new_def note_taken_def set_current_def on_journal_def flush_journal_def
      write_buffer_def set_commit_def note_cpu_def handle_non_record_def
      Let_def attempt_def finish_writer_def commit_def store_pending_def record_catalog_def)
  have "we_crc sample_writer_env = re_crc tail_env" by (simp add: tail_env_def)
  from restart_keeps_cursor_behind [OF sp _ _ _ _ _ this run(1), of "ws_cursor_stable t"] sp run
  show ?thesis by (auto simp: sample_progress_def sample_disk_def tail_setup_def)
qed

text \<open>Catching up trusts a tail that was never synced.  When the journal ends in records no
  checkpoint covers, which reached the file but were not synced before the earlier writer was
  killed, and the source still holds their contents, \<open>recover_file_cursor\<close> writes and syncs a
  cursor at the end of that tail.  The journal's synced part ends before it; so when the machine
  then loses what was not synced, the next start is refused.\<close>

theorem recovery_outruns_synced_journal:
  assumes "smooth env" "su_durable setup = Some c" "dc_encoding c = Plain"
    and "re_open env = Inr (rc_identity (dc_file c), len)" "length bytes \<le> len"
    and "dc_file c = cursor_for (re_hash env) (rc_identity (dc_file c)) bytes"
    and "rv_source s = bytes @ contents rs @ left"
    and "dk_file (rv_disk s) = pre @ journal_bytes (re_crc env) rs" "dc_journal_offset c = length pre"
    and "jn_written_bytes (rv_journal s) = length (dk_file (rv_disk s))" "jn_buffer (rv_journal s) = []"
    and "tail_records c (jn_source (rv_journal s)) rs" "rs \<noteq> []"
    and "length rs \<le> max_recovery_records" "length (contents rs) < max_recovery_bytes"
    and "dk_synced (rv_disk s) < length (dk_file (rv_disk s))"
    and "length (source_bytes source) = 16"
    and "open_journal crc io path source {} (crashed (rv_disk s)) = (Inr (j, rec), claimed, d)"
  shows "\<exists>f t c'. recover_file_cursor env (Some setup) s = (Inr (Some f), t)
    \<and> rv_cursor_stable t = Some c' \<and> dk_synced (rv_disk t) < dc_journal_offset c'
    \<and> recover_file_cursor env (Some (setup\<lparr>su_durable := Some c'\<rparr>)) (s\<lparr>rv_journal := j, rv_disk := d\<rparr>)
        = (Inl (RuntimeIo ''file cursor points beyond the journal''), s\<lparr>rv_journal := j, rv_disk := d\<rparr>)"
proof -
  let ?c = "c\<lparr>dc_journal_offset := length (dk_file (rv_disk s)),
               dc_file := cursor_for (re_hash env) (rc_identity (dc_file c)) (bytes @ contents rs)\<rparr>"
  obtain t where t: "recover_file_cursor env (Some setup) s
      = (Inr (Some \<lparr>fc_cursor_path = su_cursor_path setup, fc_source_path = su_source_path setup, fc_durable = Some ?c\<rparr>), t)"
    "rv_cursor_stable t = Some ?c" "rv_disk t = rv_disk s"
    using recover_smooth [OF assms(1-15) refl] by blast
  have "jn_written_bytes j \<le> dk_synced (rv_disk s)"
    using open_journal_fields [OF assms(18,17)] assms(16) by (simp add: crashed_def)
  then have "jn_written_bytes j < dc_journal_offset ?c" using assms(16) by simp
  then have "recover_file_cursor env (Some (setup\<lparr>su_durable := Some ?c\<rparr>)) (s\<lparr>rv_journal := j, rv_disk := d\<rparr>)
        = (Inl (RuntimeIo ''file cursor points beyond the journal''), s\<lparr>rv_journal := j, rv_disk := d\<rparr>)"
    by (simp add: recover_file_cursor_def with_state_def throw_def)
  then show ?thesis using t assms(16) by (intro exI) auto
qed

theorem recovery_outruns_synced_journal_witness:
  "\<exists>f t c'. recover_file_cursor tail_env (Some tail_setup) tail_state = (Inr (Some f), t)
    \<and> rv_cursor_stable t = Some c' \<and> dk_synced (rv_disk t) < dc_journal_offset c'"
proof -
  obtain j rec claimed d where o: "open_journal (\<lambda>_. 5) open_fine ''j'' sample_source {} (crashed (rv_disk tail_state))
    = (Inr (j, rec), claimed, d)"
    using tail_open by blast
  from recovery_outruns_synced_journal [OF tail_smooth tail_facts tail_unsynced _ o] show ?thesis by auto
qed

end
