(* ===== verification/Source_History.thy ===== *)
theory Source_History
  imports Http
begin

text \<open>
  The capture end of a source's published history, \<open>crates/lvu-core/src/source_event.rs\<close>: the
  bounded channel that drops and counts what its consumer is too slow for, and the cut of free
  text on a UTF-8 boundary.  A string is the list of its bytes, one \<^typ>\<open>char\<close> each.
\<close>

section \<open>Bounded detail\<close>

definition text_bytes :: "string \<Rightarrow> byte list" where
  "text_bytes t = map of_char t"

definition is_char_boundary :: "string \<Rightarrow> nat \<Rightarrow> bool" where
  "is_char_boundary t i \<longleftrightarrow>
     i = 0 \<or> (if i < length t then \<not> utf8_cont (of_char (t ! i)) else i = length t)"

fun boundary_below :: "string \<Rightarrow> nat \<Rightarrow> nat" where
  "boundary_below t 0 = 0"
| "boundary_below t (Suc e) = (if \<not> is_char_boundary t (Suc e) then boundary_below t e else Suc e)"

definition ellipsis :: string where
  "ellipsis = [CHR 0xE2, CHR 0x80, CHR 0xA6]"

definition bounded_detail :: "string \<Rightarrow> string" where
  "bounded_detail t =
    (if length t \<le> maximum_detail_bytes then t
     else take (boundary_below t maximum_detail_bytes) t @ ellipsis)"

section \<open>The channel\<close>

record source_event_record =
  ser_at_unix_nanos :: int
  ser_event :: source_event

record event_channel =
  hc_capacity :: nat
  hc_queue :: "source_event_record list"
  hc_closed :: bool
  hc_dropped :: nat

definition default_source_event_capacity :: nat where "default_source_event_capacity = 256"

definition source_event_channel :: "nat \<Rightarrow> event_channel" where
  "source_event_channel capacity =
    \<lparr>hc_capacity = max capacity 1, hc_queue = [], hc_closed = False, hc_dropped = 0\<rparr>"

text \<open>\<open>try_send\<close> fails when the queue is full or the receiver is gone.\<close>

definition history_emit :: "int \<Rightarrow> source_event \<Rightarrow> event_channel \<Rightarrow> event_channel" where
  "history_emit now ev ch =
    (if hc_closed ch \<or> hc_capacity ch \<le> length (hc_queue ch)
     then ch\<lparr>hc_dropped := (hc_dropped ch + 1) mod 2 ^ 64\<rparr>
     else ch\<lparr>hc_queue := hc_queue ch @ [\<lparr>ser_at_unix_nanos = now, ser_event = ev\<rparr>]\<rparr>)"

definition history_recv :: "event_channel \<Rightarrow> source_event_record option \<times> event_channel" where
  "history_recv ch =
    (case hc_queue ch of [] \<Rightarrow> (None, ch) | r # rest \<Rightarrow> (Some r, ch\<lparr>hc_queue := rest\<rparr>))"

text \<open>One use of the channel: an event published at a time, the consumer taking an entry, the
  consumer dropping its end.\<close>

datatype history_use = Publish int source_event | TakeEntry | DropReceiver

fun history_uses :: "event_channel \<Rightarrow> history_use list \<Rightarrow> source_event_record list \<times> event_channel" where
  "history_uses ch [] = ([], ch)"
| "history_uses ch (u # us) =
    (case u of
       Publish now ev \<Rightarrow> history_uses (history_emit now ev ch) us
     | TakeEntry \<Rightarrow>
         (let (got, ch1) = history_recv ch;
              (rest, ch2) = history_uses ch1 us
          in (case got of None \<Rightarrow> rest | Some r \<Rightarrow> r # rest, ch2))
     | DropReceiver \<Rightarrow> history_uses (ch\<lparr>hc_closed := True, hc_queue := []\<rparr>) us)"

fun published_entries :: "history_use list \<Rightarrow> source_event_record list" where
  "published_entries [] = []"
| "published_entries (Publish now ev # us) = \<lparr>ser_at_unix_nanos = now, ser_event = ev\<rparr> # published_entries us"
| "published_entries (_ # us) = published_entries us"

section \<open>Cutting on a boundary\<close>

lemma boundary_below_le: "boundary_below t e \<le> e"
  by (induction e) auto

lemma boundary_below_boundary: "e \<le> length t \<Longrightarrow> is_char_boundary t (boundary_below t e)"
  by (induction e) (auto simp: is_char_boundary_def)

text \<open>Valid UTF-8 is a first character, whose further bytes continue it, and valid UTF-8.\<close>

lemma utf8_valid_unit:
  assumes "utf8_valid (a # xs)"
  obtains u ys where "xs = u @ ys" "\<forall>b \<in> set u. utf8_cont b" "length u \<le> 3" "utf8_valid ys"
    "\<And>zs. utf8_valid zs \<Longrightarrow> utf8_valid (a # u @ zs)"
proof -
  consider (one) "a \<le> 127" | (two) "\<not> a \<le> 127" "194 \<le> a \<and> a \<le> 223"
    | (three) "\<not> a \<le> 127" "\<not> (194 \<le> a \<and> a \<le> 223)" "224 \<le> a \<and> a \<le> 239"
    | (four) "\<not> a \<le> 127" "\<not> (194 \<le> a \<and> a \<le> 223)" "\<not> (224 \<le> a \<and> a \<le> 239)" "240 \<le> a \<and> a \<le> 244"
    using assms by (simp only: utf8_valid.simps split: if_splits) blast+
  then show ?thesis
  proof cases
    case one
    show ?thesis
      by (rule that [of "[]" xs]) (use assms one in simp_all)
  next
    case two
    then obtain b ys where xs: "xs = b # ys" using assms by (cases xs) simp_all
    show ?thesis
      by (rule that [of "[b]" ys]) (use assms xs two in simp_all)
  next
    case three
    moreover from three have "\<not> a \<le> 223" by (simp add: word_le_nat_alt)
    ultimately have three: "\<not> a \<le> 127" "\<not> a \<le> 223" "224 \<le> a" "a \<le> 239" by simp_all
    then obtain b c ys where xs: "xs = b # c # ys"
      using assms by (cases xs; cases "tl xs") simp_all
    show ?thesis
      by (rule that [of "[b, c]" ys]) (use assms xs three in simp_all)
  next
    case four
    moreover from four have "\<not> a \<le> 223" "\<not> a \<le> 239" by (simp_all add: word_le_nat_alt)
    ultimately have four: "\<not> a \<le> 127" "\<not> a \<le> 223" "\<not> a \<le> 239" "240 \<le> a" "a \<le> 244"
      by simp_all
    then obtain b c d ys where xs: "xs = b # c # d # ys"
      using assms by (cases xs; cases "tl xs"; cases "tl (tl xs)") simp_all
    show ?thesis
      by (rule that [of "[b, c, d]" ys]) (use assms xs four in simp_all)
  qed
qed

text \<open>It stays valid when it is cut where no continuation byte follows.\<close>

lemma utf8_valid_take:
  assumes "utf8_valid xs" "i < length xs \<longrightarrow> \<not> utf8_cont (xs ! i)"
  shows "utf8_valid (take i xs)"
  using assms
proof (induction xs arbitrary: i rule: length_induct)
  case (1 xs)
  show ?case
  proof (cases xs)
    case Nil
    then show ?thesis by simp
  next
    case (Cons a rest)
    obtain u ys where u: "rest = u @ ys" "\<forall>b \<in> set u. utf8_cont b" "utf8_valid ys"
        "\<And>zs. utf8_valid zs \<Longrightarrow> utf8_valid (a # u @ zs)"
      using utf8_valid_unit 1(2) Cons by metis
    show ?thesis
    proof (cases i)
      case 0
      then show ?thesis by simp
    next
      case (Suc j)
      have "length u \<le> j"
      proof (rule ccontr)
        assume "\<not> length u \<le> j"
        then have "utf8_cont (xs ! i)" "i < length xs"
          using u(1,2) Cons Suc by (simp_all add: nth_append)
        then show False using 1(3) by simp
      qed
      then have t: "take i xs = a # u @ take (j - length u) ys" using Cons Suc u(1) by simp
      have "j - length u < length ys \<longrightarrow> \<not> utf8_cont (ys ! (j - length u))"
        using 1(3) Cons Suc u(1) \<open>length u \<le> j\<close> by (auto simp: nth_append)
      then show ?thesis using 1(1) u(1,3,4) Cons t by (simp del: utf8_valid.simps(2))
    qed
  qed
qed

lemma utf8_valid_append: "utf8_valid xs \<Longrightarrow> utf8_valid ys \<Longrightarrow> utf8_valid (xs @ ys)"
proof (induction xs rule: length_induct)
  case (1 xs)
  show ?case
  proof (cases xs)
    case Nil
    then show ?thesis using 1(3) by simp
  next
    case (Cons a rest)
    obtain u zs where u: "rest = u @ zs" "utf8_valid zs"
        "\<And>zs. utf8_valid zs \<Longrightarrow> utf8_valid (a # u @ zs)"
      using utf8_valid_unit 1(2) Cons by metis
    then show ?thesis using 1(1,3) Cons by (simp del: utf8_valid.simps(2))
  qed
qed

text \<open>A boundary lies at most three bytes below any place of valid text.\<close>

lemma utf8_valid_head: "utf8_valid (a # xs) \<Longrightarrow> \<not> utf8_cont a"
proof
  assume "utf8_valid (a # xs)" "utf8_cont a"
  moreover from this(2) have "\<not> a \<le> 127" "\<not> 194 \<le> a" "\<not> 224 \<le> a" "\<not> 240 \<le> a"
    unfolding utf8_cont_def by (auto simp: word_le_nat_alt)
  ultimately show False by simp
qed

lemma utf8_cont_run:
  assumes "utf8_valid xs" "i + 4 \<le> length xs"
  shows "\<exists>k < 4. \<not> utf8_cont (xs ! (i + k))"
  using assms
proof (induction xs arbitrary: i rule: length_induct)
  case (1 xs)
  obtain a rest where xs: "xs = a # rest" using 1(3) by (cases xs) auto
  obtain u ys where u: "rest = u @ ys" "length u \<le> 3" "utf8_valid ys"
    using utf8_valid_unit 1(2) xs by metis
  show ?case
  proof (cases "length u < i")
    case True
    define i' where "i' = i - Suc (length u)"
    have "\<exists>k < 4. \<not> utf8_cont (ys ! (i' + k))"
      using 1(1) [rule_format, of ys i'] 1(3) u xs True by (simp add: i'_def)
    moreover have "xs ! (i + k) = ys ! (i' + k)" for k
    proof -
      have "xs = (a # u) @ ys" using xs u(1) by simp
      moreover have "i + k = length (a # u) + (i' + k)" using True by (simp add: i'_def)
      ultimately show ?thesis by (metis nth_append_length_plus)
    qed
    ultimately show ?thesis by simp
  next
    case False
    show ?thesis
    proof (cases "i = 0")
      case True
      then show ?thesis using utf8_valid_head 1(2) xs by (intro exI [of _ 0]) simp
    next
      case pos: False
      have "ys \<noteq> []" using 1(3) u(1,2) xs False pos by auto
      then obtain b bs where ys: "ys = b # bs" by (cases ys) auto
      then have "\<not> utf8_cont b" using utf8_valid_head u(3) by simp
      then show ?thesis
        using xs u ys False pos
        by (intro exI [of _ "Suc (length u) - i"]) (auto simp: nth_append)
    qed
  qed
qed

lemma boundary_below_near:
  assumes "utf8_valid (text_bytes t)" "e < length t"
  shows "e \<le> boundary_below t e + 3"
proof (rule ccontr)
  assume far: "\<not> e \<le> boundary_below t e + 3"
  have none: "\<not> is_char_boundary t j" if "boundary_below t e < j" "j \<le> e" for j
    using that by (induction e) (auto split: if_splits simp: le_Suc_eq)
  have "utf8_cont (text_bytes t ! (e - 3 + k))" if "k < 4" for k
    using none [of "e - 3 + k"] that far assms(2)
    by (auto simp: is_char_boundary_def text_bytes_def split: if_splits)
  then show False using utf8_cont_run [OF assms(1), of "e - 3"] assms(2) far
    by (auto simp: text_bytes_def)
qed

lemma bounded_detail_cut:
  assumes "utf8_valid (text_bytes t)" "maximum_detail_bytes < length t"
  obtains n where "bounded_detail t = take n t @ ellipsis" "n \<le> maximum_detail_bytes"
    "maximum_detail_bytes \<le> n + 3" "is_char_boundary t n"
  using boundary_below_le [of t maximum_detail_bytes] boundary_below_near [OF assms]
    boundary_below_boundary [of maximum_detail_bytes t] assms(2)
  by (intro that [of "boundary_below t maximum_detail_bytes"]) (auto simp: bounded_detail_def)

lemma bounded_detail_valid:
  assumes "utf8_valid (text_bytes t)"
  shows "utf8_valid (text_bytes (bounded_detail t))"
proof (cases "length t \<le> maximum_detail_bytes")
  case True
  then show ?thesis using assms by (simp add: bounded_detail_def)
next
  case False
  then obtain n where n: "bounded_detail t = take n t @ ellipsis" "n \<le> maximum_detail_bytes"
      "is_char_boundary t n"
    using bounded_detail_cut [OF assms] by (metis not_le)
  have "utf8_valid (take n (text_bytes t))"
    by (cases "n = 0", simp) (rule utf8_valid_take [OF assms],
      use n False in \<open>auto simp: is_char_boundary_def text_bytes_def\<close>)
  moreover have "utf8_valid (text_bytes ellipsis)"
    by (simp add: text_bytes_def ellipsis_def utf8_cont_def)
  ultimately show ?thesis
    using utf8_valid_append n(1) by (simp add: text_bytes_def take_map)
qed

section \<open>What reaches the consumer\<close>

lemma mod_add_inner: "(x + (y + (d + 1) mod m)) mod m = (d + (x + Suc y)) mod (m :: nat)"
proof -
  have "(x + (y + (d + 1) mod m)) mod m = ((d + 1) mod m + (x + y)) mod m" by (simp add: ac_simps)
  then show ?thesis by (simp add: mod_add_left_eq)
qed

lemma mod_Suc_both: "a mod m = b mod m \<Longrightarrow> Suc a mod m = Suc b mod (m :: nat)"
  by (metis mod_Suc_eq)

lemma history_uses_account:
  "history_uses ch us = (got, ch') \<Longrightarrow> length (hc_queue ch) \<le> hc_capacity ch \<Longrightarrow>
     subseq (got @ hc_queue ch') (hc_queue ch @ published_entries us)
   \<and> length (hc_queue ch') \<le> hc_capacity ch \<and> hc_capacity ch' = hc_capacity ch
   \<and> (DropReceiver \<notin> set us \<longrightarrow>
        (length got + length (hc_queue ch') + hc_dropped ch') mod 2 ^ 64
        = (length (hc_queue ch) + hc_dropped ch + length (published_entries us)) mod 2 ^ 64)"
proof (induction us arbitrary: ch got)
  case Nil
  then show ?case by auto
next
  case (Cons u us)
  show ?case
  proof (cases u)
    case (Publish now ev)
    let ?ch = "history_emit now ev ch"
    have run: "history_uses ?ch us = (got, ch')" using Cons.prems Publish by simp
    show ?thesis
    proof (cases "hc_closed ch \<or> hc_capacity ch \<le> length (hc_queue ch)")
      case True
      then have ch: "?ch = ch\<lparr>hc_dropped := (hc_dropped ch + 1) mod 2 ^ 64\<rparr>"
        by (simp add: history_emit_def)
      note ih = Cons.IH [OF run]
      have "subseq (got @ hc_queue ch') (hc_queue ch @ published_entries us)" using ih ch Cons.prems by simp
      moreover have "subseq (hc_queue ch @ published_entries us) (hc_queue ch @ published_entries (u # us))"
        using Publish by (intro list_emb_append_mono) auto
      ultimately have "subseq (got @ hc_queue ch') (hc_queue ch @ published_entries (u # us))"
        by (rule subseq_order.trans)
      then show ?thesis using ih ch Cons.prems Publish
        using mod_add_inner [of "length (hc_queue ch)" "length (published_entries us)" "hc_dropped ch" "2 ^ 64"]
        by (simp add: ac_simps)
    next
      case False
      then have ch: "?ch = ch\<lparr>hc_queue := hc_queue ch @ [\<lparr>ser_at_unix_nanos = now, ser_event = ev\<rparr>]\<rparr>"
        by (simp add: history_emit_def)
      then show ?thesis using Cons.IH [OF run] False Cons.prems Publish by simp
    qed
  next
    case TakeEntry
    show ?thesis
    proof (cases "hc_queue ch")
      case Nil
      then show ?thesis using Cons.IH [of ch got] Cons.prems TakeEntry
        by (simp add: history_recv_def split: prod.splits)
    next
      case (Cons r rest)
      let ?ch = "ch\<lparr>hc_queue := rest\<rparr>"
      obtain got' where run: "history_uses ?ch us = (got', ch')" "got = r # got'"
        using Cons.prems(1) TakeEntry Cons by (auto simp: history_recv_def split: prod.splits)
      then show ?thesis using Cons.IH [OF run(1)] Cons.prems Cons TakeEntry
        by (auto intro!: mod_Suc_both)
    qed
  next
    case DropReceiver
    let ?ch = "ch\<lparr>hc_closed := True, hc_queue := []\<rparr>"
    have run: "history_uses ?ch us = (got, ch')" using Cons.prems DropReceiver by simp
    have "subseq (got @ hc_queue ch') (published_entries us)" using Cons.IH [OF run] by simp
    then have "subseq (got @ hc_queue ch') (hc_queue ch @ published_entries us)"
      by (rule subseq_order.trans) (rule list_emb_append2, simp)
    then show ?thesis using Cons.IH [OF run] DropReceiver by simp
  qed
qed

section \<open>Properties\<close>

text \<open>Free text in the history is bounded and stays text.  A valid UTF-8 detail of at most
  \<open>MAXIMUM_DETAIL_BYTES\<close> is kept; a longer one becomes an ellipsis after a prefix that ends on a
  character boundary and gives up at most three bytes of the bound, and is valid UTF-8 again.\<close>

theorem bounded_detail_keeps_text:
  assumes "utf8_valid (text_bytes t)"
  shows "utf8_valid (text_bytes (bounded_detail t))
    \<and> (if length t \<le> maximum_detail_bytes then bounded_detail t = t
       else \<exists>n. bounded_detail t = take n t @ ellipsis \<and> n \<le> maximum_detail_bytes
         \<and> maximum_detail_bytes \<le> n + 3 \<and> is_char_boundary t n)"
proof (cases "length t \<le> maximum_detail_bytes")
  case True
  then show ?thesis using bounded_detail_valid [OF assms] by (simp add: bounded_detail_def)
next
  case False
  then show ?thesis
    using bounded_detail_valid [OF assms] bounded_detail_cut [OF assms] by (metis not_le)
qed

theorem bounded_detail_keeps_text_witness:
  "utf8_valid (text_bytes (bounded_detail (replicate 511 CHR ''a'' @ [CHR 0xC3, CHR 0xA9])))"
proof -
  have bytes: "text_bytes (replicate 511 CHR ''a'' @ [CHR 0xC3, CHR 0xA9]) = replicate 511 97 @ [195, 169]"
    by (simp add: text_bytes_def)
  have "utf8_valid (replicate n 97 @ [195, 169])" for n
    by (induction n) (simp_all add: utf8_cont_def)
  then have "utf8_valid (text_bytes (replicate 511 CHR ''a'' @ [CHR 0xC3, CHR 0xA9]))"
    unfolding bytes .
  then show ?thesis by (rule bounded_detail_keeps_text [THEN conjunct1])
qed

text \<open>The history channel never holds more than its capacity and never lies about loss.  What
  the consumer took, followed by what is still queued, is in order a part of what was published;
  and as long as the consumer keeps its end, every other entry is in the dropped count.\<close>

theorem history_counts_what_it_drops:
  assumes "history_uses (source_event_channel capacity) us = (got, ch)"
  shows "subseq (got @ hc_queue ch) (published_entries us) \<and> length (hc_queue ch) \<le> max capacity 1
    \<and> (DropReceiver \<notin> set us \<longrightarrow>
        (length got + length (hc_queue ch) + hc_dropped ch) mod 2 ^ 64 = length (published_entries us) mod 2 ^ 64)"
  using history_uses_account [OF assms] by (simp add: source_event_channel_def)

theorem history_counts_what_it_drops_witness:
  "case history_uses (source_event_channel 0) [Publish 1 ReconnectDisabled, Publish 2 ReconnectDisabled, TakeEntry]
   of (got, ch) \<Rightarrow> subseq (got @ hc_queue ch) (published_entries [Publish 1 ReconnectDisabled,
        Publish 2 ReconnectDisabled, TakeEntry])
      \<and> hc_dropped ch = 1"
  using history_counts_what_it_drops [of 0 "[Publish 1 ReconnectDisabled, Publish 2 ReconnectDisabled, TakeEntry]"]
  by (simp add: source_event_channel_def history_emit_def history_recv_def)

end
