(* ===== verification/Command_Run.thy ===== *)
theory Command_Run
  imports Source_History
begin

text \<open>
  One run of a captured command, \<open>run_command_instance\<close> of \<open>crates/lvu-core/src/acquisition.rs\<close>:
  how the command is built, the two reader tasks of its output and how their rounds interleave,
  the \<open>select!\<close> that ends the run, and what the run publishes and returns.

  The tasks are two state machines over one sink.  A schedule is the sequence of their rounds;
  it is arbitrary, so what is proved holds for every interleaving.  Whether the child could be
  waited for, and with which status, is part of the script.
\<close>

section \<open>Building the command\<close>

datatype command_program = Shell string | Exec string "string list"

record command_definition =
  cd_program :: command_program
  cd_cwd :: "string option"
  cd_environment :: "(string \<times> string) list"
  cd_restart :: restart_policy

text \<open>What \<open>tokio::process::Command\<close> has been told when it is spawned.\<close>

record command_spec =
  cs_executable :: string
  cs_args :: "string list"
  cs_kill_on_drop :: bool
  cs_stdout_piped :: bool
  cs_stderr_piped :: bool
  cs_cwd :: "string option"
  cs_environment :: "(string \<times> string) list"
  cs_process_group :: "nat option"

definition build_command :: "command_definition \<Rightarrow> command_spec" where
  "build_command d =
    (let (executable, args) =
           (case cd_program d of
              Shell script \<Rightarrow> (''sh'', [''-c'', script])
            | Exec executable args \<Rightarrow> (executable, args))
     in \<lparr>cs_executable = executable, cs_args = args, cs_kill_on_drop = True,
         cs_stdout_piped = True, cs_stderr_piped = True, cs_cwd = cd_cwd d,
         cs_environment = cd_environment d, cs_process_group = None\<rparr>)"

definition configure_owned_process :: "command_spec \<Rightarrow> command_spec" where
  "configure_owned_process c = c\<lparr>cs_process_group := Some 0\<rparr>"

text \<open>A spawned process: its id until it is reaped, and which of its pipes were opened.\<close>

record child =
  ch_id :: "nat option"
  ch_stdout :: bool
  ch_stderr :: bool

definition spawn_child ::
  "(command_spec \<Rightarrow> string + child) \<Rightarrow> command_definition \<Rightarrow> string + child" where
  "spawn_child spawn d = spawn (configure_owned_process (build_command d))"

record exit_status =
  es_code :: "int option"
  es_success :: bool

section \<open>Reader tasks\<close>

datatype reader_task = NoReader | Reading framer | Returned nat | Panicked

text \<open>One round of \<open>read_stream\<close>; the loop has no arm for a stop or a closed consumer.\<close>

definition stream_round ::
  "capture_env \<Rightarrow> stream_kind \<Rightarrow> uuid \<Rightarrow> framer \<Rightarrow> read_event \<Rightarrow> sink \<Rightarrow> (reader_task \<times> sink) option" where
  "stream_round env st aq f ev s =
    (case ev of
       ReadCancelled \<Rightarrow> Some (Returned (framer_buffered_len f), s)
     | ReadStopped \<Rightarrow> None
     | ReadClosed \<Rightarrow> None
     | ReadTick \<Rightarrow>
         (let ((f1, records), s1) = loop_flush env st aq (f, s);
              (sent, s2) = emit_records env records s1
          in Some (if \<not> sent then Returned (framer_buffered_len f1) else Reading f1, s2))
     | ReadBytes [] \<Rightarrow>
         (let ((f1, records), s1) = loop_finish env st aq (f, s);
              (_, s2) = emit_records env records s1
          in Some (Returned 0, s2))
     | ReadBytes bytes \<Rightarrow>
         (case loop_push env st aq bytes (f, s) of
            None \<Rightarrow> Some (Panicked, s)
          | Some ((f1, records), s1) \<Rightarrow>
              (let (sent, s2) = emit_records env records s1
               in Some (if \<not> sent then Returned (framer_buffered_len f1) else Reading f1, s2)))
     | ReadError detail \<Rightarrow>
         (let (_, s1) = emit env (CaptureError aq detail) s
          in Some (Returned (framer_buffered_len f), s1)))"

text \<open>A task that has returned, or was never spawned, has no further rounds.\<close>

definition task_round ::
  "capture_env \<Rightarrow> stream_kind \<Rightarrow> uuid \<Rightarrow> read_event \<Rightarrow> reader_task \<times> sink \<Rightarrow> (reader_task \<times> sink) option" where
  "task_round env st aq ev = (\<lambda>(t, s).
    case t of Reading f \<Rightarrow> stream_round env st aq f ev s | _ \<Rightarrow> Some (t, s))"

text \<open>One round of either task.\<close>

datatype output_round = StdoutRound read_event | StderrRound read_event

fun run_rounds ::
  "capture_env \<Rightarrow> uuid \<Rightarrow> output_round list \<Rightarrow> reader_task \<times> reader_task \<times> sink
    \<Rightarrow> (reader_task \<times> reader_task \<times> sink) option" where
  "run_rounds env aq [] (out, err, s) = Some (out, err, s)"
| "run_rounds env aq (StdoutRound ev # rs) (out, err, s) =
    (case task_round env Stdout aq ev (out, s) of
       None \<Rightarrow> None
     | Some (out', s') \<Rightarrow> run_rounds env aq rs (out', err, s'))"
| "run_rounds env aq (StderrRound ev # rs) (out, err, s) =
    (case task_round env Stderr aq ev (err, s) of
       None \<Rightarrow> None
     | Some (err', s') \<Rightarrow> run_rounds env aq rs (out, err', s'))"

text \<open>\<open>join_reader\<close>: a task still reading is waited for; one that panicked counts nothing.\<close>

definition join_reader :: "reader_task \<Rightarrow> nat option" where
  "join_reader t = (case t of NoReader \<Rightarrow> Some 0 | Reading f \<Rightarrow> None | Returned n \<Rightarrow> Some n | Panicked \<Rightarrow> Some 0)"

section \<open>One run\<close>

datatype instance_outcome =
    InstanceAborted nat
  | InstanceHalted nat
  | InstanceExited "exit_status option" nat

datatype ended_by = EndedNatural | EndedCancelled | EndedHalted

text \<open>What ends the wait, each with what \<open>wait\<close> (after the kill, in all but the last) returns.\<close>

datatype run_end =
    RunCancelled "string + exit_status"
  | RunStopped "string + exit_status"
  | RunClosed "string + exit_status"
  | RunExited "string + exit_status"

fun ended_by_of :: "run_end \<Rightarrow> ended_by" where
  "ended_by_of (RunCancelled r) = EndedCancelled"
| "ended_by_of (RunStopped r) = EndedHalted"
| "ended_by_of (RunClosed r) = EndedHalted"
| "ended_by_of (RunExited r) = EndedNatural"

fun wait_result :: "run_end \<Rightarrow> string + exit_status" where
  "wait_result (RunCancelled r) = r"
| "wait_result (RunStopped r) = r"
| "wait_result (RunClosed r) = r"
| "wait_result (RunExited r) = r"

text \<open>The readers' rounds before and after the wait ended, and whether the capture was found
  cancelled by then.\<close>

record run_script =
  rs_before :: "output_round list"
  rs_end :: run_end
  rs_cancelled :: bool
  rs_after :: "output_round list"

text \<open>Every way out signals the process group; \<open>killed\<close> lists the groups signalled.\<close>

definition kill_process_group :: "nat option \<Rightarrow> nat list \<Rightarrow> nat list" where
  "kill_process_group process killed = (case process of None \<Rightarrow> killed | Some i \<Rightarrow> killed @ [i])"

definition terminate_child_tree :: "child \<Rightarrow> nat list \<Rightarrow> nat list" where
  "terminate_child_tree c killed = kill_process_group (ch_id c) killed"

definition exit_event :: "uuid \<Rightarrow> exit_status \<Rightarrow> capture_event" where
  "exit_event aq status = CommandExit aq (es_code status) (es_success status)"

definition run_command_instance ::
  "capture_env \<Rightarrow> uuid \<Rightarrow> capture_limits \<Rightarrow> child \<Rightarrow> run_script \<Rightarrow> sink \<times> nat list
    \<Rightarrow> (instance_outcome \<times> sink \<times> nat list) option" where
  "run_command_instance env aq limits c script = (\<lambda>(s, killed).
    let (started, s1) = emit env (Boundary aq Started) s in
    if \<not> started then Some (InstanceAborted 0, s1, terminate_child_tree c killed)
    else
      let reader = (\<lambda>pipe. if pipe then Reading (framer_new (cl_maximum_record_bytes limits)) else NoReader)
      in case run_rounds env aq (rs_before script) (reader (ch_stdout c), reader (ch_stderr c), s1) of
        None \<Rightarrow> None
      | Some tasks \<Rightarrow>
          let killed1 = (case rs_end script of
                RunExited _ \<Rightarrow> kill_process_group (ch_id c) killed
              | _ \<Rightarrow> terminate_child_tree c killed)
          in case run_rounds env aq (rs_after script) tasks of
            None \<Rightarrow> None
          | Some (out, err, s2) \<Rightarrow>
              case (join_reader out, join_reader err) of
                (Some n, Some m) \<Rightarrow>
                  if rs_cancelled script then
                    let s3 = (case wait_result (rs_end script) of
                          Inl _ \<Rightarrow> s2
                        | Inr status \<Rightarrow> snd (emit env (exit_event aq status) s2));
                        (_, s4) = emit env (CaptureStopped aq) s3
                    in Some (InstanceAborted (n + m), s4, killed1)
                  else
                    let (status, s3) = (case wait_result (rs_end script) of
                          Inr status \<Rightarrow> (Some status, snd (emit env (exit_event aq status) s2))
                        | Inl detail \<Rightarrow> (None, snd (emit env (CaptureError aq detail) s2)))
                    in Some (case ended_by_of (rs_end script) of
                           EndedNatural \<Rightarrow> InstanceExited status (n + m)
                         | _ \<Rightarrow> InstanceHalted (n + m), s3, killed1)
              | _ \<Rightarrow> None)"

fun outcome_discarded :: "instance_outcome \<Rightarrow> nat" where
  "outcome_discarded (InstanceAborted n) = n"
| "outcome_discarded (InstanceHalted n) = n"
| "outcome_discarded (InstanceExited status n) = n"

section \<open>The rounds are the loop\<close>

text \<open>\<open>read_stream\<close>'s loop is the iteration of its round.\<close>

lemma stream_loop_rounds:
  "stream_loop env st aq f s (ev # script) =
    (case stream_round env st aq f ev s of
       None \<Rightarrow> None
     | Some (t, s') \<Rightarrow>
         (case t of
            Reading f' \<Rightarrow> stream_loop env st aq f' s' script
          | Returned n \<Rightarrow> Some (n, s')
          | _ \<Rightarrow> None))"
proof (cases ev)
  case (ReadBytes bytes)
  show ?thesis
    by (cases bytes) (simp_all add: ReadBytes stream_round_def Let_def split: option.split prod.split)
qed (simp_all add: stream_round_def Let_def split: prod.split)

section \<open>Records carry their stream\<close>

definition of_run :: "stream_kind \<Rightarrow> uuid \<Rightarrow> captured_record \<Rightarrow> bool" where
  "of_run st aq r \<longleftrightarrow> cr_stream r = st \<and> cr_acquisition r = aq"

abbreviation all_of_run :: "stream_kind \<Rightarrow> uuid \<Rightarrow> captured_record list \<Rightarrow> bool" where
  "all_of_run st aq rs \<equiv> \<forall>r \<in> set rs. of_run st aq r"

lemma of_run_record [simp]: "of_run st aq (framer_record fr t bytes delimiter st aq ends)"
  by (simp add: of_run_def framer_record_def)

lemma framer_cuts_of_run_result:
  "framer_cuts backing start run now st aq fr out consumed = Some y
    \<Longrightarrow> all_of_run st aq out \<longrightarrow> all_of_run st aq (fst (snd y))"
proof (induction backing start run now st aq fr out consumed y
    rule: framer_cuts.raw_induct [rotated 1, consumes 1])
  case (1 cuts backing start run now st aq fr out consumed y)
  show ?case
  proof (cases "length (fr_pending fr) + (run - consumed) > fr_maximum fr")
    case False
    then have "y = (fr, out, consumed)" using 1(2) unfolding if_not_P [OF False] by simp
    then show ?thesis by simp
  next
    case True
    show ?thesis
    proof (cases "length (fr_pending fr) > fr_maximum fr")
      case over: True
      then show ?thesis using 1(2) unfolding if_P [OF True] if_P [OF over] by simp
    next
      case within: False
      show ?thesis using 1(2) unfolding if_P [OF True] if_not_P [OF within] Let_def
        by (auto dest!: 1(1))
    qed
  qed
qed

lemma framer_cuts_of_run:
  "framer_cuts backing start run now st aq fr out consumed = Some (fr', out', n)
    \<Longrightarrow> all_of_run st aq out \<Longrightarrow> all_of_run st aq out'"
  by (drule framer_cuts_of_run_result) simp

lemma framer_lines_of_run:
  "framer_lines mc backing now st aq start fr out = Some (fr', out')
    \<Longrightarrow> all_of_run st aq out \<Longrightarrow> all_of_run st aq out'"
proof (induction mc backing now st aq start fr out rule: framer_lines.induct)
  case (1 mc backing now st aq start fr out)
  show ?case
  proof (cases "start < length backing")
    case False
    then show ?thesis using 1 by (simp add: framer_lines.simps [of mc backing now st aq start])
  next
    case True
    let ?rest = "drop start backing"
    let ?run = "case mc LF ?rest of None \<Rightarrow> length ?rest | Some i \<Rightarrow> i"
    obtain fr1 out1 n where cut: "framer_cuts backing start ?run now st aq fr out 0 = Some (fr1, out1, n)"
      using 1(2) True
      by (cases "framer_cuts backing start ?run now st aq fr out 0")
        (auto simp: framer_lines.simps [of mc backing now st aq start] Let_def)
    note out1 = framer_cuts_of_run [OF cut 1(3)]
    show ?thesis
    proof (cases "mc LF ?rest")
      case None
      then show ?thesis using 1(2) True cut out1
        by (simp add: framer_lines.simps [of mc backing now st aq start] Let_def)
    next
      case (Some i)
      obtain fr2 rec where close: "framer_close backing start i n (now (length out1)) st aq fr1 = (fr2, rec)"
        by (metis surj_pair)
      then have "of_run st aq rec" by (auto simp: framer_close_def Let_def)
      then show ?thesis
        using 1(1) [OF True refl refl refl cut refl refl Some close [symmetric] refl] 1(2) True cut Some close out1
        by (simp add: framer_lines.simps [of mc backing now st aq start] Let_def)
    qed
  qed
qed

lemma charge_cpu_of_run:
  "charge_cpu cpu (fr, out) = (fr', out') \<Longrightarrow> all_of_run st aq out \<Longrightarrow> all_of_run st aq out'"
  by (auto simp: charge_cpu_def Let_def of_run_def split: list.splits)

lemma loop_push_of_run:
  "loop_push env st aq xs (f, s) = Some ((f', rs), s') \<Longrightarrow> all_of_run st aq rs"
  using framer_lines_of_run [of _ _ _ st aq _ _ "[]"] charge_cpu_of_run [of _ _ _ _ _ st aq]
  by (auto simp: loop_push_def tick_clock_def framer_push_def split: prod.splits option.splits)

lemma loop_finish_of_run:
  "loop_finish env st aq (f, s) = ((f', rs), s') \<Longrightarrow> all_of_run st aq rs"
  by (auto simp: loop_finish_def tick_clock_def framer_finish_def charge_cpu_def Let_def of_run_def
      framer_record_def split: prod.splits if_splits)

lemma loop_flush_of_run:
  "loop_flush env st aq (f, s) = ((f', rs), s') \<Longrightarrow> all_of_run st aq rs"
  by (auto simp: loop_flush_def tick_clock_def framer_flush_partial_def charge_cpu_def Let_def of_run_def
      framer_record_def split: prod.splits if_splits)

section \<open>The account of one reader\<close>

text \<open>What was published of one stream, and what a schedule offers it.\<close>

definition stream_content :: "stream_kind \<Rightarrow> capture_event list \<Rightarrow> byte list" where
  "stream_content st evs = content (filter (\<lambda>r. cr_stream r = st) (concat (map records_of evs)))"

fun rounds_of :: "stream_kind \<Rightarrow> output_round list \<Rightarrow> read_event list" where
  "rounds_of st [] = []"
| "rounds_of st (StdoutRound ev # rs) = (if st = Stdout then ev # rounds_of st rs else rounds_of st rs)"
| "rounds_of st (StderrRound ev # rs) = (if st = Stderr then ev # rounds_of st rs else rounds_of st rs)"

lemma stream_content_simps [simp]:
  "stream_content st [] = []"
  "stream_content st (xs @ ys) = stream_content st xs @ stream_content st ys"
  "stream_content st (ev # xs) = content (filter (\<lambda>r. cr_stream r = st) (records_of ev)) @ stream_content st xs"
  by (simp_all add: stream_content_def content_def)

text \<open>An event a run's readers publish.\<close>

definition reader_event :: "uuid \<Rightarrow> capture_event \<Rightarrow> bool" where
  "reader_event aq ev \<longleftrightarrow>
     (case ev of
        Records rs \<Rightarrow> \<forall>r \<in> set rs. cr_acquisition r = aq \<and> (cr_stream r = Stdout \<or> cr_stream r = Stderr)
      | CaptureError a detail \<Rightarrow> a = aq
      | _ \<Rightarrow> False)"

text \<open>The events of one stream: what they hold is that stream's, and nothing of the others.\<close>

definition only_stream :: "stream_kind \<Rightarrow> uuid \<Rightarrow> capture_event list \<Rightarrow> bool" where
  "only_stream st aq evs \<longleftrightarrow> (\<forall>ev \<in> set evs. reader_event aq ev \<and> all_of_run st aq (records_of ev))"

lemma only_stream_simps [simp]:
  "only_stream st aq []"
  "only_stream st aq (xs @ ys) \<longleftrightarrow> only_stream st aq xs \<and> only_stream st aq ys"
  by (auto simp: only_stream_def)

lemma only_stream_content:
  "only_stream st aq evs \<Longrightarrow> stream_content st' evs = (if st' = st then events_content evs else [])"
  by (induction evs) (auto simp: only_stream_def of_run_def filter_empty_conv intro!: arg_cong [of _ _ content])

lemma emit_records_only:
  assumes "emit_records env rs s = (sent, s')" "all_of_run st aq rs" "st = Stdout \<or> st = Stderr"
  shows "\<exists>out. sk_events s' = sk_events s @ out \<and> only_stream st aq out
    \<and> events_content out = (if sent then content rs else []) \<and> ((\<forall>i. ce_deliver env i) \<longrightarrow> sent)"
proof -
  obtain out where out: "sk_events s' = sk_events s @ out" "events_content out = (if sent then content rs else [])"
      "(\<forall>i. ce_deliver env i) \<longrightarrow> sent"
    using emit_records_spec [OF assms(1)] by blast
  have "out = [] \<or> out = [Records rs]"
    using assms(1) out(1) emit_spec [of env "Records rs" s sent s']
    by (auto simp: emit_records_def split: if_splits)
  then have "only_stream st aq out"
    using assms(2,3) by (auto simp: only_stream_def reader_event_def of_run_def)
  then show ?thesis using out by blast
qed

text \<open>One round of a reading task: it holds on to what it did not publish, or it has returned and
  what it published and what it counts make up all that was offered.\<close>

definition round_account ::
  "capture_env \<Rightarrow> reader_task \<Rightarrow> byte list \<Rightarrow> byte list \<Rightarrow> read_event \<Rightarrow> bool" where
  "round_account env t held published ev \<longleftrightarrow>
     (case t of
        Reading f' \<Rightarrow> framer_ok f'
          \<and> (\<exists>xs. published @ fr_pending f' = held @ xs
               \<and> (\<forall>rest. script_input (ev # rest) = xs @ script_input rest))
      | Returned n \<Rightarrow> (\<forall>rest. accounts env published (held @ script_input (ev # rest)) (n = 0) n)
      | _ \<Rightarrow> False)"

lemma refused_accounts: "\<not> (\<forall>i. ce_deliver env i) \<Longrightarrow> accounts env [] offered whole n"
  by (auto simp: accounts_def)

lemma stream_round_account:
  assumes "framer_ok f" "memchr_ok (ce_memchr env)" "st = Stdout \<or> st = Stderr"
    and "stream_round env st aq f ev s = Some (t, s')"
  shows "\<exists>out. sk_events s' = sk_events s @ out \<and> only_stream st aq out
    \<and> round_account env t (fr_pending f) (events_content out) ev"
proof -
  have onward: ?thesis
    if cons: "framer_ok f1" "content rs @ fr_pending f1 = fr_pending f @ xs" "sk_events s1 = sk_events s"
      and run: "all_of_run st aq rs"
      and em: "emit_records env rs s1 = (sent, s')"
      and t: "t = (if \<not> sent then Returned (framer_buffered_len f1) else Reading f1)"
      and input: "\<And>rest. script_input (ev # rest) = xs @ script_input rest"
    for f1 rs s1 sent xs
  proof -
    obtain out where out: "sk_events s' = sk_events s1 @ out" "only_stream st aq out"
      "events_content out = (if sent then content rs else [])" "(\<forall>i. ce_deliver env i) \<longrightarrow> sent"
      using emit_records_only [OF em run assms(3)] by blast
    show ?thesis
      using out cons t refused_accounts [of env] input
      by (intro exI [of _ out]) (auto simp: round_account_def)
  qed
  show ?thesis
  proof (cases ev)
    case ReadCancelled
    then show ?thesis using assms(4)
      by (intro exI [of _ "[]"])
        (auto simp: stream_round_def round_account_def accounts_def framer_buffered_len_def)
  next
    case ReadTick
    obtain f1 rs s1 where fl: "loop_flush env st aq (f, s) = ((f1, rs), s1)" by (metis surj_pair)
    obtain sent s2 where em: "emit_records env rs s1 = (sent, s2)" by (metis surj_pair)
    show ?thesis
      using onward [of f1 rs "[]" s1 sent] loop_flush_spec [OF assms(1) fl] loop_flush_of_run [OF fl] em fl
        ReadTick assms(4) by (simp add: stream_round_def)
  next
    case (ReadBytes bytes)
    show ?thesis
    proof (cases bytes)
      case Nil
      obtain f1 rs s1 where fin: "loop_finish env st aq (f, s) = ((f1, rs), s1)" by (metis surj_pair)
      obtain sent s2 where em: "emit_records env rs s1 = (sent, s2)" by (metis surj_pair)
      have t: "t = Returned 0" "s' = s2" using Nil ReadBytes assms(4) fin em by (auto simp: stream_round_def)
      obtain out where out: "sk_events s2 = sk_events s1 @ out" "only_stream st aq out"
        "events_content out = (if sent then content rs else [])" "(\<forall>i. ce_deliver env i) \<longrightarrow> sent"
        using emit_records_only [OF em loop_finish_of_run [OF fin] assms(3)] by blast
      show ?thesis
        using loop_finish_spec [OF assms(1) fin] out t Nil ReadBytes
        by (intro exI [of _ out]) (auto simp: round_account_def accounts_def)
    next
      case (Cons b bs)
      obtain f1 rs s1 where pu: "loop_push env st aq bytes (f, s) = Some ((f1, rs), s1)"
        "framer_ok f1" "content rs @ fr_pending f1 = fr_pending f @ bytes" "sk_events s1 = sk_events s"
        using loop_push_spec [OF assms(1,2)] by blast
      obtain sent s2 where em: "emit_records env rs s1 = (sent, s2)" by (metis surj_pair)
      show ?thesis
        using onward [of f1 rs bytes s1 sent] pu loop_push_of_run [OF pu(1)] em ReadBytes Cons assms(4)
        by (simp add: stream_round_def)
    qed
  next
    case (ReadError detail)
    obtain sent s1 where em: "emit env (CaptureError aq detail) s = (sent, s1)" by (metis surj_pair)
    show ?thesis using em ReadError assms(4) emit_spec [OF em]
      by (intro exI [of _ "if sent then [CaptureError aq detail] else []"])
        (auto simp: stream_round_def round_account_def accounts_def framer_buffered_len_def only_stream_def
          reader_event_def)
  qed (use assms(4) in \<open>simp_all add: stream_round_def\<close>)
qed

section \<open>The account of interleaved readers\<close>

text \<open>The same over a whole schedule, from one state of a task to another.\<close>

definition task_account ::
  "capture_env \<Rightarrow> reader_task \<Rightarrow> reader_task \<Rightarrow> byte list \<Rightarrow> read_event list \<Rightarrow> bool" where
  "task_account env t t' published script \<longleftrightarrow>
     (case t of
        Reading f \<Rightarrow>
          (case t' of
             Reading f' \<Rightarrow> framer_ok f'
               \<and> (\<exists>xs. published @ fr_pending f' = fr_pending f @ xs
                    \<and> (\<forall>rest. script_input (script @ rest) = xs @ script_input rest))
           | Returned n \<Rightarrow> (\<forall>rest. accounts env published (fr_pending f @ script_input (script @ rest)) (n = 0) n)
           | _ \<Rightarrow> False)
      | _ \<Rightarrow> t' = t \<and> published = [])"

definition task_ok :: "reader_task \<Rightarrow> bool" where
  "task_ok t \<longleftrightarrow> (case t of Reading f \<Rightarrow> framer_ok f | _ \<Rightarrow> True)"

lemma task_account_refl: "task_ok t \<Longrightarrow> task_account env t t [] []"
  by (auto simp: task_account_def task_ok_def split: reader_task.splits)

lemma task_account_cons:
  assumes "round_account env t1 (fr_pending f) pub1 ev" "task_account env t1 t' pub2 script"
  shows "task_account env (Reading f) t' (pub1 @ pub2) (ev # script)"
proof (cases t1)
  case (Reading f1)
  then obtain xs where one: "pub1 @ fr_pending f1 = fr_pending f @ xs"
    "\<And>rest. script_input (ev # rest) = xs @ script_input rest"
    using assms(1) by (auto simp: round_account_def)
  show ?thesis
  proof (cases t')
    case more: (Reading f')
    then obtain ys where two: "framer_ok f'" "pub2 @ fr_pending f' = fr_pending f1 @ ys"
      "\<And>rest. script_input (script @ rest) = ys @ script_input rest"
      using assms(2) Reading by (auto simp: task_account_def)
    have "(pub1 @ pub2) @ fr_pending f' = fr_pending f @ (xs @ ys)"
      using two(2) one(1) by (metis append.assoc)
    moreover have "script_input ((ev # script) @ rest) = (xs @ ys) @ script_input rest" for rest
      using one(2) two(3) by simp
    ultimately show ?thesis using two(1) more by (auto simp: task_account_def)
  next
    case (Returned n)
    have "accounts env (pub1 @ pub2) (fr_pending f @ script_input ((ev # script) @ rest)) (n = 0) n" for rest
    proof -
      have "accounts env pub2 (fr_pending f1 @ script_input (script @ rest)) (n = 0) n"
        using assms(2) Reading Returned by (simp add: task_account_def)
      then have "accounts env (pub1 @ pub2) ((fr_pending f @ xs) @ script_input (script @ rest)) (n = 0) n"
        using accounts_append one(1) by blast
      then show ?thesis using one(2) by simp
    qed
    then show ?thesis using Returned by (simp add: task_account_def)
  qed (use assms(2) Reading in \<open>simp_all add: task_account_def\<close>)
next
  case (Returned n)
  then have "t' = Returned n" "pub2 = []" using assms(2) by (auto simp: task_account_def)
  moreover have "accounts env pub1 (fr_pending f @ script_input (ev # script @ rest)) (n = 0) n" for rest
    using assms(1) Returned by (simp add: round_account_def)
  ultimately show ?thesis by (simp add: task_account_def)
qed (use assms(1) in \<open>simp_all add: round_account_def\<close>)

lemma task_account_idle:
  "(\<forall>f. t \<noteq> Reading f) \<Longrightarrow> task_account env t t' pub script \<Longrightarrow> task_account env t t' pub (ev # script)"
  by (auto simp: task_account_def split: reader_task.splits)

lemma task_round_account:
  assumes "task_ok t" "memchr_ok (ce_memchr env)" "st = Stdout \<or> st = Stderr"
    and "task_round env st aq ev (t, s) = Some (t1, s')"
  obtains out where "sk_events s' = sk_events s @ out" "only_stream st aq out" "task_ok t1"
    "\<And>t' pub script. task_account env t1 t' pub script
      \<Longrightarrow> task_account env t t' (stream_content st out @ pub) (ev # script)"
proof (cases "\<exists>f. t = Reading f")
  case False
  then have "t1 = t" "s' = s" using assms(4) by (cases t; simp add: task_round_def)+
  then show ?thesis using that [of "[]"] assms(1) task_account_idle [of t env] False by simp
next
  case True
  then obtain f where f: "t = Reading f" by blast
  have ok: "framer_ok f" using assms(1) f by (simp add: task_ok_def)
  obtain out where out: "sk_events s' = sk_events s @ out" "only_stream st aq out"
    "round_account env t1 (fr_pending f) (events_content out) ev"
    using stream_round_account [OF ok assms(2,3), of aq ev s t1 s'] assms(4) f
    by (auto simp: task_round_def)
  show ?thesis
    using that [OF out(1,2)] out(3) task_account_cons [OF out(3)] only_stream_content [OF out(2), of st] f
    by (auto simp: task_ok_def round_account_def split: reader_task.splits)
qed

lemma run_rounds_account:
  assumes "memchr_ok (ce_memchr env)" "task_ok o1" "task_ok e1"
    and "run_rounds env aq rs (o1, e1, s) = Some (o2, e2, s')"
  shows "\<exists>out. sk_events s' = sk_events s @ out \<and> (\<forall>ev \<in> set out. reader_event aq ev)
    \<and> task_account env o1 o2 (stream_content Stdout out) (rounds_of Stdout rs)
    \<and> task_account env e1 e2 (stream_content Stderr out) (rounds_of Stderr rs)"
  using assms(2-4)
proof (induction rs arbitrary: o1 e1 s)
  case Nil
  then show ?case by (intro exI [of _ "[]"]) (auto simp: task_account_refl)
next
  case (Cons r rs)
  show ?case
  proof (cases r)
    case (StdoutRound ev)
    obtain o3 s1 where step: "task_round env Stdout aq ev (o1, s) = Some (o3, s1)"
      "run_rounds env aq rs (o3, e1, s1) = Some (o2, e2, s')"
      using Cons.prems(3) StdoutRound by (auto split: option.splits)
    obtain out where out: "sk_events s1 = sk_events s @ out" "only_stream Stdout aq out" "task_ok o3"
      "\<And>t' pub script. task_account env o3 t' pub script
        \<Longrightarrow> task_account env o1 t' (stream_content Stdout out @ pub) (ev # script)"
      using task_round_account [OF Cons.prems(1) assms(1) _ step(1)] by blast
    obtain out2 where out2: "sk_events s' = sk_events s1 @ out2" "\<forall>ev \<in> set out2. reader_event aq ev"
      "task_account env o3 o2 (stream_content Stdout out2) (rounds_of Stdout rs)"
      "task_account env e1 e2 (stream_content Stderr out2) (rounds_of Stderr rs)"
      using Cons.IH [OF out(3) Cons.prems(2) step(2)] by blast
    show ?thesis
      using out(1) out2 out(4) [OF out2(3)] only_stream_content [OF out(2), of Stderr] out(2) StdoutRound
      by (intro exI [of _ "out @ out2"]) (auto simp: only_stream_def)
  next
    case (StderrRound ev)
    obtain e3 s1 where step: "task_round env Stderr aq ev (e1, s) = Some (e3, s1)"
      "run_rounds env aq rs (o1, e3, s1) = Some (o2, e2, s')"
      using Cons.prems(3) StderrRound by (auto split: option.splits)
    obtain out where out: "sk_events s1 = sk_events s @ out" "only_stream Stderr aq out" "task_ok e3"
      "\<And>t' pub script. task_account env e3 t' pub script
        \<Longrightarrow> task_account env e1 t' (stream_content Stderr out @ pub) (ev # script)"
      using task_round_account [OF Cons.prems(2) assms(1) _ step(1)] by blast
    obtain out2 where out2: "sk_events s' = sk_events s1 @ out2" "\<forall>ev \<in> set out2. reader_event aq ev"
      "task_account env o1 o2 (stream_content Stdout out2) (rounds_of Stdout rs)"
      "task_account env e3 e2 (stream_content Stderr out2) (rounds_of Stderr rs)"
      using Cons.IH [OF Cons.prems(1) out(3) step(2)] by blast
    show ?thesis
      using out(1) out2 out(4) [OF out2(4)] only_stream_content [OF out(2), of Stdout] out(2) StderrRound
      by (intro exI [of _ "out @ out2"]) (auto simp: only_stream_def)
  qed
qed

lemma run_rounds_append:
  "run_rounds env aq (xs @ ys) st =
    (case run_rounds env aq xs st of None \<Rightarrow> None | Some st' \<Rightarrow> run_rounds env aq ys st')"
  by (induction env aq xs st rule: run_rounds.induct) (auto split: option.splits)

section \<open>What a run publishes\<close>

definition offered_bytes :: "stream_kind \<Rightarrow> child \<Rightarrow> run_script \<Rightarrow> byte list" where
  "offered_bytes st c script =
    (if st = Stdout \<and> ch_stdout c \<or> st = Stderr \<and> ch_stderr c
     then script_input (rounds_of st (rs_before script @ rs_after script)) else [])"

text \<open>The events a run closes with.\<close>

definition run_closing :: "uuid \<Rightarrow> run_script \<Rightarrow> capture_event list" where
  "run_closing aq script =
    (case wait_result (rs_end script) of
       Inr status \<Rightarrow> [exit_event aq status]
     | Inl detail \<Rightarrow> if rs_cancelled script then [] else [CaptureError aq detail])
    @ (if rs_cancelled script then [CaptureStopped aq] else [])"

lemma exit_event_records [simp]: "records_of (exit_event aq status) = []"
  by (simp add: exit_event_def)

lemma emit_closing:
  assumes "records_of ev = []"
  obtains xs where "sk_events (snd (emit env ev s)) = sk_events s @ xs" "\<forall>st. stream_content st xs = []"
    "(\<forall>i. ce_deliver env i) \<longrightarrow> xs = [ev]"
proof -
  obtain sent s' where "emit env ev s = (sent, s')" by (metis surj_pair)
  then show ?thesis
    using that [of "if sent then [ev] else []"] emit_spec [of env ev s sent s'] assms by auto
qed

text \<open>The closing hand-overs, as the run makes them.\<close>

definition close_run :: "capture_env \<Rightarrow> uuid \<Rightarrow> run_script \<Rightarrow> sink \<Rightarrow> sink" where
  "close_run env aq script s =
    (if rs_cancelled script then
       snd (emit env (CaptureStopped aq)
         (case wait_result (rs_end script) of
            Inl _ \<Rightarrow> s
          | Inr status \<Rightarrow> snd (emit env (exit_event aq status) s)))
     else
       snd (emit env
         (case wait_result (rs_end script) of
            Inl detail \<Rightarrow> CaptureError aq detail
          | Inr status \<Rightarrow> exit_event aq status) s))"

lemma close_run_events:
  "\<exists>xs. sk_events (close_run env aq script s) = sk_events s @ xs \<and> (\<forall>st. stream_content st xs = [])
    \<and> ((\<forall>i. ce_deliver env i) \<longrightarrow> xs = run_closing aq script)"
proof (cases "wait_result (rs_end script)")
  case (Inl detail)
  define ev where "ev = (if rs_cancelled script then CaptureStopped aq else CaptureError aq detail)"
  obtain xs where "sk_events (snd (emit env ev s)) = sk_events s @ xs" "\<forall>st. stream_content st xs = []"
    "(\<forall>i. ce_deliver env i) \<longrightarrow> xs = [ev]"
    by (rule emit_closing [of ev env s]) (simp_all add: ev_def)
  then show ?thesis using Inl by (auto simp: close_run_def run_closing_def ev_def split: if_splits)
next
  case (Inr status)
  obtain xs where xs: "sk_events (snd (emit env (exit_event aq status) s)) = sk_events s @ xs"
    "\<forall>st. stream_content st xs = []" "(\<forall>i. ce_deliver env i) \<longrightarrow> xs = [exit_event aq status]"
    by (rule emit_closing [of "exit_event aq status" env s]) simp_all
  obtain ys where ys: "sk_events (snd (emit env (CaptureStopped aq) (snd (emit env (exit_event aq status) s))))
      = sk_events (snd (emit env (exit_event aq status) s)) @ ys" "\<forall>st. stream_content st ys = []"
    "(\<forall>i. ce_deliver env i) \<longrightarrow> ys = [CaptureStopped aq]"
    by (rule emit_closing [of "CaptureStopped aq" env "snd (emit env (exit_event aq status) s)"]) simp_all
  show ?thesis
  proof (cases "rs_cancelled script")
    case True
    then show ?thesis using Inr xs ys
      by (intro exI [of _ "xs @ ys"]) (auto simp: close_run_def run_closing_def)
  next
    case False
    then show ?thesis using Inr xs by (intro exI [of _ xs]) (auto simp: close_run_def run_closing_def)
  qed
qed

text \<open>The part of the run before its closing events, on the account of its readers.\<close>

definition start_readers :: "capture_limits \<Rightarrow> child \<Rightarrow> reader_task \<times> reader_task" where
  "start_readers limits c =
    (let reader = (\<lambda>pipe. if pipe then Reading (framer_new (cl_maximum_record_bytes limits)) else NoReader)
     in (reader (ch_stdout c), reader (ch_stderr c)))"

lemma joined_account:
  assumes "task_account env (if pipe then Reading (framer_new (cl_maximum_record_bytes limits)) else NoReader)
      t pub script" "join_reader t = Some n"
  shows "prefix pub (if pipe then script_input script else [])"
    and "(\<forall>i. ce_deliver env i) \<Longrightarrow> length pub + n = length (if pipe then script_input script else [])"
    and "(\<forall>i. ce_deliver env i) \<Longrightarrow> n = 0 \<Longrightarrow> pub = (if pipe then script_input script else [])"
proof -
  have "accounts env pub (if pipe then script_input script else []) (n = 0) n"
  proof (cases t)
    case (Returned m)
    then show ?thesis
      using assms by (auto simp: task_account_def join_reader_def accounts_def split: if_splits dest: spec [of _ "[]"])
  qed (use assms in \<open>auto simp: task_account_def join_reader_def accounts_def split: if_splits\<close>)
  then show "prefix pub (if pipe then script_input script else [])"
    and "(\<forall>i. ce_deliver env i) \<Longrightarrow> length pub + n = length (if pipe then script_input script else [])"
    and "(\<forall>i. ce_deliver env i) \<Longrightarrow> n = 0 \<Longrightarrow> pub = (if pipe then script_input script else [])"
    by (auto simp: accounts_def)
qed

lemma run_command_instance_cases:
  assumes "run_command_instance env aq limits c script (s, killed) = Some (outcome, s', killed')"
  obtains (refused) s1 where "emit env (Boundary aq Started) s = (False, s1)" "s' = s1"
      "outcome = InstanceAborted 0" "killed' = kill_process_group (ch_id c) killed"
  | (ran) s1 out err s2 n m where "emit env (Boundary aq Started) s = (True, s1)"
      "run_rounds env aq (rs_before script @ rs_after script)
         (fst (start_readers limits c), snd (start_readers limits c), s1) = Some (out, err, s2)"
      "join_reader out = Some n" "join_reader err = Some m" "outcome_discarded outcome = n + m"
      "killed' = kill_process_group (ch_id c) killed"
      "\<exists>xs. sk_events s' = sk_events s2 @ xs \<and> (\<forall>st. stream_content st xs = [])
         \<and> ((\<forall>i. ce_deliver env i) \<longrightarrow> xs = run_closing aq script)"
proof -
  obtain started s1 where em: "emit env (Boundary aq Started) s = (started, s1)" by (metis surj_pair)
  show ?thesis
  proof (cases started)
    case False
    then show ?thesis
      using refused [of s1] assms em by (simp add: run_command_instance_def terminate_child_tree_def)
  next
    case True
    let ?go = "\<lambda>rounds st. run_rounds env aq rounds st"
    obtain tasks out err s2 n m where run: "?go (rs_before script)
        (fst (start_readers limits c), snd (start_readers limits c), s1) = Some tasks"
      "?go (rs_after script) tasks = Some (out, err, s2)" "join_reader out = Some n" "join_reader err = Some m"
      using assms em True
      by (auto simp: run_command_instance_def start_readers_def Let_def split: option.splits)
    have killed: "killed' = kill_process_group (ch_id c) killed" "outcome_discarded outcome = n + m"
      using assms em True run
      by (auto simp: run_command_instance_def start_readers_def Let_def terminate_child_tree_def
          split: run_end.splits if_splits prod.splits sum.splits ended_by.splits)
    have closed: "s' = close_run env aq script s2"
      using assms em True run
      by (auto simp: run_command_instance_def start_readers_def Let_def close_run_def snd_def
          split: run_end.splits if_splits prod.splits sum.splits ended_by.splits)
    have closing: "\<exists>xs. sk_events s' = sk_events s2 @ xs \<and> (\<forall>st. stream_content st xs = [])
         \<and> ((\<forall>i. ce_deliver env i) \<longrightarrow> xs = run_closing aq script)"
      unfolding closed by (rule close_run_events)
    show ?thesis
      using ran [OF em [unfolded eqTrueI [OF True]] _ run(3,4) killed(2,1) closing] run(1,2)
      by (simp add: run_rounds_append)
  qed
qed

section \<open>A run returns\<close>

text \<open>Rounds the loop has an arm for, and a schedule that lets every reader finish.\<close>

definition reader_round :: "output_round \<Rightarrow> bool" where
  "reader_round r \<longleftrightarrow>
     (case r of StdoutRound ev \<Rightarrow> ev \<noteq> ReadStopped \<and> ev \<noteq> ReadClosed
      | StderrRound ev \<Rightarrow> ev \<noteq> ReadStopped \<and> ev \<noteq> ReadClosed)"

definition readers_finish :: "child \<Rightarrow> run_script \<Rightarrow> bool" where
  "readers_finish c script \<longleftrightarrow>
     (let rs = rs_before script @ rs_after script in
        list_all reader_round rs
      \<and> (ch_stdout c \<longrightarrow> list_ex ends_loop (rounds_of Stdout rs))
      \<and> (ch_stderr c \<longrightarrow> list_ex ends_loop (rounds_of Stderr rs)))"

lemma stream_round_Some: "ev \<noteq> ReadStopped \<Longrightarrow> ev \<noteq> ReadClosed \<Longrightarrow> stream_round env st aq f ev s \<noteq> None"
  by (cases ev) (auto simp: stream_round_def Let_def split: list.split option.split prod.split)

lemma task_round_Some:
  "ev \<noteq> ReadStopped \<Longrightarrow> ev \<noteq> ReadClosed \<Longrightarrow> task_round env st aq ev (t, s) \<noteq> None"
  using stream_round_Some by (cases t) (simp_all add: task_round_def)

lemma run_rounds_Some: "list_all reader_round rs \<Longrightarrow> run_rounds env aq rs st \<noteq> None"
proof (induction env aq rs st rule: run_rounds.induct)
  case (2 env aq ev rs out err s)
  then show ?case using task_round_Some [of ev env Stdout aq out s] by (auto simp: reader_round_def split: option.splits)
next
  case (3 env aq ev rs out err s)
  then show ?case using task_round_Some [of ev env Stderr aq err s] by (auto simp: reader_round_def split: option.splits)
qed simp

lemma script_input_ended: "list_ex ends_loop script \<Longrightarrow> script_input (script @ rest) = script_input script"
  by (induction script) (auto simp: ends_loop_def split: read_event.splits list.splits)

lemma ended_not_reading:
  assumes "task_account env t t' published script" "list_ex ends_loop script"
  shows "join_reader t' \<noteq> None \<or> (\<forall>f. t \<noteq> Reading f)"
proof -
  have "\<not> (\<forall>rest. script_input script = xs @ script_input rest)" for xs
  proof
    assume eq: "\<forall>rest. script_input script = xs @ script_input rest"
    from eq [THEN spec, of "[]"] eq [THEN spec, of "[ReadBytes [0]]"] show False by simp
  qed
  then show ?thesis
    using assms(1) script_input_ended [OF assms(2)]
    by (cases t; cases t') (simp_all add: task_account_def join_reader_def)
qed

lemma run_command_instance_returns:
  assumes "limits_valid limits" "memchr_ok (ce_memchr env)" "readers_finish c script"
  shows "run_command_instance env aq limits c script (s, killed) \<noteq> None"
proof -
  obtain started s1 where em: "emit env (Boundary aq Started) s = (started, s1)" by (metis surj_pair)
  let ?rs = "rs_before script @ rs_after script"
  let ?tasks = "(fst (start_readers limits c), snd (start_readers limits c), s1)"
  obtain out err s2 where run: "run_rounds env aq ?rs ?tasks = Some (out, err, s2)"
    using run_rounds_Some [of ?rs env aq ?tasks] assms(3) by (auto simp: readers_finish_def Let_def)
  have ready: "task_ok (fst (start_readers limits c))" "task_ok (snd (start_readers limits c))"
    using assms(1) by (simp_all add: task_ok_def start_readers_def limits_valid_def)
  obtain body where acc:
    "task_account env (fst (start_readers limits c)) out (stream_content Stdout body) (rounds_of Stdout ?rs)"
    "task_account env (snd (start_readers limits c)) err (stream_content Stderr body) (rounds_of Stderr ?rs)"
    using run_rounds_account [OF assms(2) ready run] by blast
  have "join_reader out \<noteq> None"
    using ended_not_reading [OF acc(1)] acc(1) assms(3)
    by (cases "ch_stdout c") (auto simp: start_readers_def readers_finish_def Let_def task_account_def join_reader_def)
  then obtain n where n: "join_reader out = Some n" by blast
  have "join_reader err \<noteq> None"
    using ended_not_reading [OF acc(2)] acc(2) assms(3)
    by (cases "ch_stderr c") (auto simp: start_readers_def readers_finish_def Let_def task_account_def join_reader_def)
  then obtain m where m: "join_reader err = Some m" by blast
  obtain tasks where tasks: "run_rounds env aq (rs_before script) ?tasks = Some tasks"
      "run_rounds env aq (rs_after script) tasks = Some (out, err, s2)"
    using run by (auto simp: run_rounds_append split: option.splits)
  show ?thesis
    using em tasks n m
    by (simp add: run_command_instance_def start_readers_def Let_def split: prod.split)
qed

lemma command_run_account:
  assumes "limits_valid limits" "memchr_ok (ce_memchr env)"
    and "run_command_instance env aq limits c script (s, killed) = Some (outcome, s', killed')"
  shows "killed' = kill_process_group (ch_id c) killed
    \<and> (\<exists>out. sk_events s' = sk_events s @ out
        \<and> prefix (stream_content Stdout out) (offered_bytes Stdout c script)
        \<and> prefix (stream_content Stderr out) (offered_bytes Stderr c script)
        \<and> ((\<forall>i. ce_deliver env i) \<longrightarrow>
             (\<exists>body. out = Boundary aq Started # body @ run_closing aq script
                \<and> (\<forall>ev \<in> set body. reader_event aq ev))
           \<and> length (stream_content Stdout out) + length (stream_content Stderr out) + outcome_discarded outcome
             = length (offered_bytes Stdout c script) + length (offered_bytes Stderr c script)
           \<and> (outcome_discarded outcome = 0 \<longrightarrow>
                stream_content Stdout out = offered_bytes Stdout c script
              \<and> stream_content Stderr out = offered_bytes Stderr c script)))"
  using assms(3)
proof (cases rule: run_command_instance_cases)
  case (refused s1)
  then have "sk_events s' = sk_events s" "\<not> ce_deliver env (sk_sends s)" using emit_spec [OF refused(1)] by auto
  then show ?thesis using refused(4) by (intro conjI exI [of _ "[]"]) auto
next
  case (ran s1 out err s2 n m)
  have ok: "framer_ok (framer_new (cl_maximum_record_bytes limits))"
    using assms(1) by (simp add: limits_valid_def)
  have ready: "task_ok (fst (start_readers limits c))" "task_ok (snd (start_readers limits c))"
    using ok by (simp_all add: task_ok_def start_readers_def)
  obtain body where body: "sk_events s2 = sk_events s1 @ body" "\<forall>ev \<in> set body. reader_event aq ev"
    "task_account env (fst (start_readers limits c)) out (stream_content Stdout body)
       (rounds_of Stdout (rs_before script @ rs_after script))"
    "task_account env (snd (start_readers limits c)) err (stream_content Stderr body)
       (rounds_of Stderr (rs_before script @ rs_after script))"
    using run_rounds_account [OF assms(2) ready ran(2)] by blast
  obtain xs where xs: "sk_events s' = sk_events s2 @ xs" "\<forall>st. stream_content st xs = []"
    "(\<forall>i. ce_deliver env i) \<longrightarrow> xs = run_closing aq script"
    using ran(7) by blast
  define all where "all = Boundary aq Started # body @ xs"
  have all: "sk_events s' = sk_events s @ all"
    using emit_spec [OF ran(1)] body(1) xs(1) by (simp add: all_def)
  have content: "stream_content st all = stream_content st body" for st
    using xs(2) by (simp add: all_def)
  note o = joined_account [OF body(3) [unfolded start_readers_def Let_def fst_conv] ran(3)]
  note e = joined_account [OF body(4) [unfolded start_readers_def Let_def snd_conv] ran(4)]
  have offered: "offered_bytes Stdout c script = (if ch_stdout c then script_input
        (rounds_of Stdout (rs_before script @ rs_after script)) else [])"
      "offered_bytes Stderr c script = (if ch_stderr c then script_input
        (rounds_of Stderr (rs_before script @ rs_after script)) else [])"
    by (simp_all add: offered_bytes_def)
  show ?thesis
  proof (rule conjI [OF ran(6) exI [of _ all]], intro conjI impI)
    assume sent: "\<forall>i. ce_deliver env i"
    show "\<exists>body. all = Boundary aq Started # body @ run_closing aq script \<and> (\<forall>ev \<in> set body. reader_event aq ev)"
      using xs(3) sent body(2) by (intro exI [of _ body]) (simp add: all_def)
    show "length (stream_content Stdout all) + length (stream_content Stderr all) + outcome_discarded outcome
        = length (offered_bytes Stdout c script) + length (offered_bytes Stderr c script)"
      using o(2) [OF sent] e(2) [OF sent] by (simp only: content offered ran(5))
    assume "outcome_discarded outcome = 0"
    then show "stream_content Stdout all = offered_bytes Stdout c script"
        "stream_content Stderr all = offered_bytes Stderr c script"
      using o(3) [OF sent] e(3) [OF sent] ran(5) by (simp_all only: content offered add_is_0)
  qed (simp_all only: content offered o(1) e(1) all)
qed

section \<open>Properties\<close>

text \<open>One run of a command accounts for every byte of its two outputs, however the rounds of
  their readers interleave.  What is published of each stream is a prefix of what the process
  wrote to it; with every hand-over succeeding, the run publishes its start, then only records
  and reader errors of this run, then its exit, and the bytes it returns as discarded are exactly
  those missing, so a count of zero means both outputs are complete.  Whatever ended it, its
  process group is signalled, once.\<close>

theorem command_run_accounts_for_output:
  assumes "limits_valid limits" "memchr_ok (ce_memchr env)"
    and "run_command_instance env aq limits c script (s, killed) = Some (outcome, s', killed')"
  shows "killed' = kill_process_group (ch_id c) killed
    \<and> (\<exists>out. sk_events s' = sk_events s @ out
        \<and> prefix (stream_content Stdout out) (offered_bytes Stdout c script)
        \<and> prefix (stream_content Stderr out) (offered_bytes Stderr c script)
        \<and> ((\<forall>i. ce_deliver env i) \<longrightarrow>
             (\<exists>body. out = Boundary aq Started # body @ run_closing aq script
                \<and> (\<forall>ev \<in> set body. reader_event aq ev))
           \<and> length (stream_content Stdout out) + length (stream_content Stderr out) + outcome_discarded outcome
             = length (offered_bytes Stdout c script) + length (offered_bytes Stderr c script)
           \<and> (outcome_discarded outcome = 0 \<longrightarrow>
                stream_content Stdout out = offered_bytes Stdout c script
              \<and> stream_content Stderr out = offered_bytes Stderr c script)))"
  by (rule command_run_account [OF assms])

theorem command_run_accounts_for_output_witness:
  "\<exists>outcome s'. run_command_instance \<lparr>ce_memchr = find_byte, ce_deliver = \<lambda>_. True, ce_clock = \<lambda>_. ((\<lambda>_. 0), 0)\<rparr>
      [1] \<lparr>cl_channel_capacity = 8, cl_read_chunk_bytes = 4, cl_maximum_record_bytes = 9, cl_poll_interval = 5,
       cl_partial_flush_interval = 5, cl_history_capacity = 1\<rparr>
      \<lparr>ch_id = Some 77, ch_stdout = True, ch_stderr = True\<rparr>
      \<lparr>rs_before = [StdoutRound (ReadBytes [97]), StderrRound (ReadBytes [98, LF]), StdoutRound (ReadBytes [99])],
       rs_end = RunExited (Inr \<lparr>es_code = Some 0, es_success = True\<rparr>), rs_cancelled = False,
       rs_after = [StderrRound (ReadBytes []), StdoutRound (ReadBytes [])]\<rparr> (new_sink, []) = Some (outcome, s', [77])"
proof -
  let ?env = "\<lparr>ce_memchr = find_byte, ce_deliver = \<lambda>_. True, ce_clock = \<lambda>_. ((\<lambda>_. 0 :: int), 0)\<rparr>"
  let ?limits = "\<lparr>cl_channel_capacity = 8, cl_read_chunk_bytes = 4, cl_maximum_record_bytes = 9,
    cl_poll_interval = 5, cl_partial_flush_interval = 5, cl_history_capacity = 1\<rparr>"
  let ?c = "\<lparr>ch_id = Some 77, ch_stdout = True, ch_stderr = True\<rparr>"
  let ?script = "\<lparr>rs_before = [StdoutRound (ReadBytes [97]), StderrRound (ReadBytes [98, LF]), StdoutRound (ReadBytes [99])],
       rs_end = RunExited (Inr \<lparr>es_code = Some 0, es_success = True\<rparr>), rs_cancelled = False,
       rs_after = [StderrRound (ReadBytes []), StdoutRound (ReadBytes [])]\<rparr>"
  have ok: "limits_valid ?limits" "memchr_ok (ce_memchr ?env)" by (simp_all add: limits_valid_def)
  have "readers_finish ?c ?script" by (simp add: readers_finish_def reader_round_def ends_loop_def)
  then obtain outcome s' killed' where
    r: "run_command_instance ?env [1] ?limits ?c ?script (new_sink, []) = Some (outcome, s', killed')"
    using run_command_instance_returns [OF ok, of ?c ?script "[1]" new_sink "[]"] by auto
  have "killed' = [77]"
    using command_run_accounts_for_output [OF ok r, THEN conjunct1] by (simp add: kill_process_group_def)
  with r show ?thesis by blast
qed

end
