(* ===== verification/Supervision.thy ===== *)
theory Supervision
  imports Command_Run
begin

text \<open>
  The supervision of a captured command, \<open>run_command_supervised\<close> of
  \<open>crates/lvu-core/src/acquisition.rs\<close>: a run, the restart decision of \<open>Restart\<close> on its exit,
  the wait, the next spawn, and the history and events published along the way.

  A script gives, per run, its acquisition id, what its readers and its \<open>select!\<close> yield, and the
  attempts to start the next one: the instant of the decision, how the wait ended, whether the
  capture was found cancelled then, and what spawning yields for the command as it is built.
\<close>

section \<open>The supervisor\<close>

record restart_try =
  rt_now :: nat
  rt_wait :: wait_event
  rt_cancelled :: bool
  rt_spawn :: "command_spec \<Rightarrow> string + child"

record command_round =
  co_id :: uuid
  co_run :: run_script
  co_tries :: "restart_try list"

record supervision =
  su_window :: attempt_window
  su_jitter :: jitter
  su_run :: nat
  su_discarded :: nat
  su_sink :: sink
  su_killed :: "nat list"
  su_history :: "source_event list"

definition announce_history :: "source_event \<Rightarrow> supervision \<Rightarrow> supervision" where
  "announce_history ev st = st\<lparr>su_history := su_history st @ [ev]\<rparr>"

definition report_error :: "capture_env \<Rightarrow> uuid \<Rightarrow> string \<Rightarrow> supervision \<Rightarrow> supervision" where
  "report_error env aq detail st =
    (let (_, s) = emit env (CaptureError aq detail) (su_sink st) in st\<lparr>su_sink := s\<rparr>)"

definition restarts_exhausted_detail :: "nat \<Rightarrow> string" where
  "restarts_exhausted_detail used =
    ''command restart budget exhausted after '' @ show_nat used @ '' restarts''"

text \<open>The inner loop: \<open>Inl\<close> ends the capture, \<open>Inr\<close> is the next child.\<close>

fun restart_loop ::
  "capture_env \<Rightarrow> command_definition \<Rightarrow> restart_bounds \<Rightarrow> uuid \<Rightarrow> bool option \<Rightarrow> supervision
    \<Rightarrow> restart_try list \<Rightarrow> ((completion + child) \<times> supervision) option" where
  "restart_loop env d bounds aq success st [] = None"
| "restart_loop env d bounds aq success st (t # ts) =
    (let policy = cd_restart d;
         (decision, w, j) = decide_restart policy success bounds (su_window st) (su_jitter st) (rt_now t);
         st1 = st\<lparr>su_window := w, su_jitter := j\<rparr>;
         finished = (\<lambda>cancelled st'. \<lparr>cc_aborted = cancelled,
           cc_discarded_buffered_bytes = su_discarded st'\<rparr>)
     in (case decision of
           PolicyDeclines \<Rightarrow>
             (let st2 = announce_history (RestartDeclined policy success) st1
              in Some (Inl (finished False st2), st2))
         | BudgetExhausted used _ \<Rightarrow>
             (let st2 = announce_history (RestartsExhausted policy used (duration_millis (rb_window bounds))) st1;
                  st3 = report_error env aq (restarts_exhausted_detail used) st2
              in Some (Inl (finished False st3), st3))
         | Restart attempt delay \<Rightarrow>
             (let st2 = announce_history (RestartScheduled policy attempt (rb_maximum_restarts bounds)
                    (duration_millis delay)) st1
              in if rt_wait t \<noteq> Waited then Some (Inl (finished (rt_cancelled t) st2), st2)
                 else case spawn_child (rt_spawn t) d of
                   Inr next \<Rightarrow> Some (Inr next, st2)
                 | Inl error \<Rightarrow>
                     let detail = bounded_detail error;
                         st3 = report_error env aq detail (announce_history (RestartFailed detail) st2)
                     in restart_loop env d bounds aq (Some False) st3 ts)))"

text \<open>The outer loop, one run per turn.\<close>

fun supervise ::
  "capture_env \<Rightarrow> capture_limits \<Rightarrow> command_definition \<Rightarrow> restart_bounds \<Rightarrow> child \<Rightarrow> supervision
    \<Rightarrow> command_round list \<Rightarrow> (completion \<times> supervision) option" where
  "supervise env limits d bounds c st [] = None"
| "supervise env limits d bounds c st (r # rs) =
    (let run = min (su_run st + 1) u32_max;
         aq = co_id r;
         st1 = announce_history (CommandStarted aq run) (st\<lparr>su_run := run\<rparr>)
     in (case run_command_instance env aq limits c (co_run r) (su_sink st1, su_killed st1) of
           None \<Rightarrow> None
         | Some (outcome, s, killed) \<Rightarrow>
             (let st2 = st1\<lparr>su_sink := s, su_killed := killed\<rparr>
              in (case outcome of
                    InstanceAborted n \<Rightarrow>
                      Some (\<lparr>cc_aborted = True, cc_discarded_buffered_bytes = su_discarded st2 + n\<rparr>, st2)
                  | InstanceHalted n \<Rightarrow>
                      Some (\<lparr>cc_aborted = False, cc_discarded_buffered_bytes = su_discarded st2 + n\<rparr>, st2)
                  | InstanceExited status n \<Rightarrow>
                      (let st3 = announce_history (CommandExited aq (Option.bind status es_code)
                             (case status of None \<Rightarrow> False | Some x \<Rightarrow> es_success x))
                             (st2\<lparr>su_discarded := su_discarded st2 + n\<rparr>)
                       in (case restart_loop env d bounds aq (map_option es_success status) st3 (co_tries r) of
                             None \<Rightarrow> None
                           | Some (Inl c', st4) \<Rightarrow> Some (c', st4)
                           | Some (Inr next, st4) \<Rightarrow> supervise env limits d bounds next st4 rs))))))"

definition start_supervision :: "restart_bounds \<Rightarrow> jitter \<Rightarrow> supervision" where
  "start_supervision bounds j =
    \<lparr>su_window = window_new (rb_maximum_restarts bounds) (rb_window bounds), su_jitter = j, su_run = 0,
     su_discarded = 0, su_sink = new_sink, su_killed = [], su_history = []\<rparr>"

definition run_command_supervised ::
  "capture_env \<Rightarrow> capture_limits \<Rightarrow> command_definition \<Rightarrow> restart_bounds \<Rightarrow> jitter \<Rightarrow> child
    \<Rightarrow> command_round list \<Rightarrow> (completion \<times> supervision) option" where
  "run_command_supervised env limits d bounds j first script =
    supervise env limits d bounds first (start_supervision bounds j) script"

text \<open>The entry point: limits are validated and the first process is spawned before anything is
  published; \<open>Inl\<close> is the error of the call.\<close>

definition invalid_limits_detail :: string where
  "invalid_limits_detail = ''capture limits must be nonzero''"

definition capture_command_supervised ::
  "(command_spec \<Rightarrow> string + child) \<Rightarrow> capture_env \<Rightarrow> capture_limits \<Rightarrow> command_definition
    \<Rightarrow> restart_bounds \<Rightarrow> jitter \<Rightarrow> command_round list \<Rightarrow> string + (completion \<times> supervision) option" where
  "capture_command_supervised spawn env limits d bounds j script =
    (if \<not> limits_valid limits then Inl invalid_limits_detail
     else case spawn_child spawn d of
       Inl error \<Rightarrow> Inl error
     | Inr c \<Rightarrow> Inr (run_command_supervised env limits d bounds j c script))"

section \<open>What a history may say\<close>

text \<open>
  The life of a supervised command as a reader of its history sees it.  A phase carries the
  number of the next run, or of the current one; after an exit, whether it was a success.
\<close>

datatype life_phase =
    AwaitStart nat
  | RunActive uuid nat
  | Deciding nat bool
  | AwaitRestart nat
  | LifeEnded

text \<open>The one step a published event makes, or none where it contradicts what was published
  before.\<close>

definition next_run :: "nat \<Rightarrow> nat" where
  "next_run n = min (n + 1) u32_max"

fun life_step :: "restart_policy \<Rightarrow> nat \<Rightarrow> life_phase \<Rightarrow> source_event \<Rightarrow> life_phase option" where
  "life_step policy maximum (AwaitStart n) (CommandStarted aq run) =
    (if run = n then Some (RunActive aq n) else None)"
| "life_step policy maximum (RunActive aq n) (CommandExited aq' code success) =
    (if aq' = aq then Some (Deciding n success) else None)"
| "life_step policy maximum (Deciding n success) (RestartDeclined p s) =
    (if p = policy \<and> \<not> policy_restarts policy s \<and> (s = Some True \<longleftrightarrow> success) then Some LifeEnded else None)"
| "life_step policy maximum (Deciding n success) (RestartsExhausted p attempts window) =
    (if p = policy \<and> policy_restarts policy (Some success) then Some LifeEnded else None)"
| "life_step policy maximum (Deciding n success) (RestartScheduled p attempt m delay) =
    (if p = policy \<and> m = maximum \<and> policy_restarts policy (Some success) then Some (AwaitRestart n) else None)"
| "life_step policy maximum (AwaitRestart n) (RestartFailed detail) =
    (if length detail \<le> maximum_detail_bytes + 3 then Some (Deciding n False) else None)"
| "life_step policy maximum (AwaitRestart n) (CommandStarted aq run) =
    (if run = next_run n then Some (RunActive aq run) else None)"
| "life_step policy maximum phase ev = None"

fun life_run :: "restart_policy \<Rightarrow> nat \<Rightarrow> life_phase \<Rightarrow> source_event list \<Rightarrow> life_phase option" where
  "life_run policy maximum phase [] = Some phase"
| "life_run policy maximum phase (ev # evs) =
    (case life_step policy maximum phase ev of
       None \<Rightarrow> None
     | Some phase' \<Rightarrow> life_run policy maximum phase' evs)"

lemma life_run_append:
  "life_run policy maximum phase (xs @ ys) =
    (case life_run policy maximum phase xs of
       None \<Rightarrow> None
     | Some phase' \<Rightarrow> life_run policy maximum phase' ys)"
  by (induction xs arbitrary: phase) (auto split: option.splits)

section \<open>The decision, on every branch\<close>

text \<open>What \<open>decide_restart\<close> answers is what the policy says, whatever the window.\<close>

lemma decide_restart_policy:
  "decide_restart policy success bounds w j now = (decision, w', j') \<Longrightarrow>
     (case decision of PolicyDeclines \<Rightarrow> \<not> policy_restarts policy success
      | _ \<Rightarrow> policy_restarts policy success)"
  by (auto simp: decide_restart_def Let_def split: prod.splits if_splits)

lemma policy_restarts_success: "policy_restarts policy success = policy_restarts policy (Some (success = Some True))"
  by (cases policy; cases success) (auto simp: policy_restarts_def)

text \<open>One turn of the inner loop.\<close>

lemma restart_turn_cases:
  assumes "restart_loop env d bounds aq success st (t # ts) = Some (r, st')"
  obtains (declines) w j where
      "decide_restart (cd_restart d) success bounds (su_window st) (su_jitter st) (rt_now t) = (PolicyDeclines, w, j)"
      "r = Inl \<lparr>cc_aborted = False, cc_discarded_buffered_bytes = su_discarded st\<rparr>"
      "st' = announce_history (RestartDeclined (cd_restart d) success) (st\<lparr>su_window := w, su_jitter := j\<rparr>)"
  | (exhausted) w j used m where
      "decide_restart (cd_restart d) success bounds (su_window st) (su_jitter st) (rt_now t) = (BudgetExhausted used m, w, j)"
      "r = Inl \<lparr>cc_aborted = False, cc_discarded_buffered_bytes = su_discarded st\<rparr>"
      "st' = report_error env aq (restarts_exhausted_detail used)
        (announce_history (RestartsExhausted (cd_restart d) used (duration_millis (rb_window bounds)))
          (st\<lparr>su_window := w, su_jitter := j\<rparr>))"
  | (restarts) w j attempt delay st2 where
      "decide_restart (cd_restart d) success bounds (su_window st) (su_jitter st) (rt_now t) = (Restart attempt delay, w, j)"
      "st2 = announce_history (RestartScheduled (cd_restart d) attempt (rb_maximum_restarts bounds) (duration_millis delay))
        (st\<lparr>su_window := w, su_jitter := j\<rparr>)"
      "if rt_wait t \<noteq> Waited
       then r = Inl \<lparr>cc_aborted = rt_cancelled t, cc_discarded_buffered_bytes = su_discarded st\<rparr> \<and> st' = st2
       else case spawn_child (rt_spawn t) d of
         Inr next \<Rightarrow> r = Inr next \<and> st' = st2
       | Inl error \<Rightarrow> restart_loop env d bounds aq (Some False)
           (report_error env aq (bounded_detail error) (announce_history (RestartFailed (bounded_detail error)) st2)) ts
             = Some (r, st')"
proof -
  obtain decision w j where dec:
    "decide_restart (cd_restart d) success bounds (su_window st) (su_jitter st) (rt_now t) = (decision, w, j)"
    by (metis surj_pair)
  have kept: "su_discarded (report_error env aq detail s) = su_discarded s"
      "su_discarded (announce_history ev s) = su_discarded s" for detail ev s
    by (simp_all add: report_error_def announce_history_def split: prod.split)
  show ?thesis
  proof (cases decision)
    case PolicyDeclines
    then show ?thesis using declines [of w j] dec assms kept by (auto simp: Let_def)
  next
    case (BudgetExhausted used m)
    then show ?thesis using exhausted [of used m w j] dec assms kept by (auto simp: Let_def)
  next
    case (Restart attempt delay)
    then show ?thesis
      using restarts [of attempt delay w j] dec assms kept
      by (auto simp: Let_def split: if_splits sum.splits)
  qed
qed

text \<open>The turns in which a run is started.\<close>

lemma supervise_turn_cases:
  assumes "supervise env limits d bounds c st (r # rs) = Some (cc, st')"
  obtains (ended) st1 outcome s killed where
      "st1 = announce_history (CommandStarted (co_id r) (next_run (su_run st))) (st\<lparr>su_run := next_run (su_run st)\<rparr>)"
      "run_command_instance env (co_id r) limits c (co_run r) (su_sink st, su_killed st) = Some (outcome, s, killed)"
      "(\<exists>n. outcome = InstanceAborted n) \<or> (\<exists>n. outcome = InstanceHalted n)"
      "cc_discarded_buffered_bytes cc = su_discarded st + outcome_discarded outcome"
      "cc_aborted cc \<longleftrightarrow> (\<exists>n. outcome = InstanceAborted n)"
      "st' = st1\<lparr>su_sink := s, su_killed := killed\<rparr>"
  | (exited) st1 st3 status n s killed answer st4 where
      "st1 = announce_history (CommandStarted (co_id r) (next_run (su_run st))) (st\<lparr>su_run := next_run (su_run st)\<rparr>)"
      "run_command_instance env (co_id r) limits c (co_run r) (su_sink st, su_killed st)
         = Some (InstanceExited status n, s, killed)"
      "st3 = announce_history (CommandExited (co_id r) (Option.bind status es_code)
           (case status of None \<Rightarrow> False | Some x \<Rightarrow> es_success x))
         (st1\<lparr>su_sink := s, su_killed := killed, su_discarded := su_discarded st + n\<rparr>)"
      "restart_loop env d bounds (co_id r) (map_option es_success status) st3 (co_tries r) = Some (answer, st4)"
      "case answer of Inl cc' \<Rightarrow> cc = cc' \<and> st' = st4
       | Inr next \<Rightarrow> supervise env limits d bounds next st4 rs = Some (cc, st')"
proof -
  define st1 where "st1 = announce_history (CommandStarted (co_id r) (next_run (su_run st))) (st\<lparr>su_run := next_run (su_run st)\<rparr>)"
  have same: "su_sink st1 = su_sink st" "su_killed st1 = su_killed st" "su_discarded st1 = su_discarded st"
    by (simp_all add: st1_def announce_history_def)
  have run: "supervise env limits d bounds c st (r # rs) =
     (case run_command_instance env (co_id r) limits c (co_run r) (su_sink st1, su_killed st1) of
           None \<Rightarrow> None
         | Some (outcome, s, killed) \<Rightarrow>
             (let st2 = st1\<lparr>su_sink := s, su_killed := killed\<rparr>
              in (case outcome of
                    InstanceAborted n \<Rightarrow>
                      Some (\<lparr>cc_aborted = True, cc_discarded_buffered_bytes = su_discarded st2 + n\<rparr>, st2)
                  | InstanceHalted n \<Rightarrow>
                      Some (\<lparr>cc_aborted = False, cc_discarded_buffered_bytes = su_discarded st2 + n\<rparr>, st2)
                  | InstanceExited status n \<Rightarrow>
                      (let st3 = announce_history (CommandExited (co_id r) (Option.bind status es_code)
                             (case status of None \<Rightarrow> False | Some x \<Rightarrow> es_success x))
                             (st2\<lparr>su_discarded := su_discarded st2 + n\<rparr>)
                       in (case restart_loop env d bounds (co_id r) (map_option es_success status) st3 (co_tries r) of
                             None \<Rightarrow> None
                           | Some (Inl c', st4) \<Rightarrow> Some (c', st4)
                           | Some (Inr next, st4) \<Rightarrow> supervise env limits d bounds next st4 rs)))))"
    by (simp only: supervise.simps Let_def st1_def next_run_def)
  obtain outcome s killed where inst:
    "run_command_instance env (co_id r) limits c (co_run r) (su_sink st, su_killed st) = Some (outcome, s, killed)"
    using assms unfolding run same by (auto split: option.splits)
  show ?thesis
  proof (cases outcome)
    case (InstanceAborted n)
    then show ?thesis using ended [OF st1_def inst] assms inst same unfolding run by (auto simp: Let_def)
  next
    case (InstanceHalted n)
    then show ?thesis using ended [OF st1_def inst] assms inst same unfolding run by (auto simp: Let_def)
  next
    case (InstanceExited status n)
    then show ?thesis
      using exited [OF st1_def inst [unfolded InstanceExited] refl] assms inst same unfolding run
      by (auto simp: Let_def split: option.splits sum.splits prod.splits)
  qed
qed

section \<open>What the supervisor adds to the history and the events\<close>

definition is_start :: "source_event \<Rightarrow> bool" where
  "is_start ev \<longleftrightarrow> (case ev of CommandStarted aq run \<Rightarrow> True | _ \<Rightarrow> False)"

fun started_id :: "source_event \<Rightarrow> uuid" where
  "started_id (CommandStarted aq run) = aq"
| "started_id ev = []"

definition started_ids :: "source_event list \<Rightarrow> uuid list" where
  "started_ids h = map started_id (filter is_start h)"

definition is_scheduled :: "source_event \<Rightarrow> bool" where
  "is_scheduled ev \<longleftrightarrow> (case ev of RestartScheduled p attempt m delay \<Rightarrow> True | _ \<Rightarrow> False)"

lemma started_ids_simps [simp]:
  "started_ids [] = []"
  "started_ids (xs @ ys) = started_ids xs @ started_ids ys"
  "started_ids (ev # xs) = (if is_start ev then [started_id ev] else []) @ started_ids xs"
  by (simp_all add: started_ids_def)

text \<open>An event of the run \<open>aq\<close>, other than its start.\<close>

definition run_event :: "uuid \<Rightarrow> capture_event \<Rightarrow> bool" where
  "run_event aq ev \<longleftrightarrow>
     (case ev of
        Records rs \<Rightarrow> \<forall>r \<in> set rs. cr_acquisition r = aq
      | CaptureError a detail \<Rightarrow> a = aq
      | CommandExit a code success \<Rightarrow> a = aq
      | CaptureStopped a \<Rightarrow> a = aq
      | _ \<Rightarrow> False)"

text \<open>Events cut into runs: each run's start, then events of that run alone.\<close>

fun in_runs :: "uuid list \<Rightarrow> capture_event list \<Rightarrow> bool" where
  "in_runs [] evs \<longleftrightarrow> evs = []"
| "in_runs (aq # aqs) evs \<longleftrightarrow>
     (\<exists>body rest. evs = Boundary aq Started # body @ rest \<and> list_all (run_event aq) body \<and> in_runs aqs rest)"

lemma reader_event_run: "reader_event aq ev \<Longrightarrow> run_event aq ev"
  by (cases ev) (auto simp: reader_event_def run_event_def)

lemma run_closing_run: "list_all (run_event aq) (run_closing aq script)"
  by (simp add: run_closing_def run_event_def exit_event_def split: sum.split)

text \<open>What a piece of supervision leaves of a state: it appends history \<open>h\<close> and events \<open>es\<close>.\<close>

definition appends :: "supervision \<Rightarrow> supervision \<Rightarrow> source_event list \<Rightarrow> capture_event list \<Rightarrow> bool" where
  "appends st st' h es \<longleftrightarrow>
     su_history st' = su_history st @ h \<and> sk_events (su_sink st') = sk_events (su_sink st) @ es"

lemma appends_refl: "appends st st [] []"
  by (simp add: appends_def)

lemma appends_trans: "appends st st1 h es \<Longrightarrow> appends st1 st2 h' es' \<Longrightarrow> appends st st2 (h @ h') (es @ es')"
  by (simp add: appends_def)

lemma announce_appends: "appends st (announce_history ev st) [ev] []"
  by (simp add: appends_def announce_history_def)

lemma announce_same [simp]:
  "su_window (announce_history ev st) = su_window st" "su_jitter (announce_history ev st) = su_jitter st"
  "su_run (announce_history ev st) = su_run st" "su_discarded (announce_history ev st) = su_discarded st"
  "su_killed (announce_history ev st) = su_killed st" "su_sink (announce_history ev st) = su_sink st"
  by (simp_all add: announce_history_def)

lemma report_error_same [simp]:
  "su_window (report_error env aq detail st) = su_window st" "su_jitter (report_error env aq detail st) = su_jitter st"
  "su_run (report_error env aq detail st) = su_run st" "su_discarded (report_error env aq detail st) = su_discarded st"
  "su_killed (report_error env aq detail st) = su_killed st"
  by (simp_all add: report_error_def split: prod.split)

lemma report_error_appends:
  "\<exists>es. appends st (report_error env aq detail st) [] es \<and> (\<forall>ev \<in> set es. ev = CaptureError aq detail)"
proof -
  obtain sent s where em: "emit env (CaptureError aq detail) (su_sink st) = (sent, s)" by (metis surj_pair)
  then show ?thesis
    using emit_spec [OF em]
    by (intro exI [of _ "if sent then [CaptureError aq detail] else []"])
      (simp add: report_error_def appends_def)
qed

text \<open>The inner loop.\<close>

definition error_of :: "uuid \<Rightarrow> capture_event \<Rightarrow> bool" where
  "error_of aq ev \<longleftrightarrow> (\<exists>detail. ev = CaptureError aq detail)"

lemma error_of_run: "error_of aq ev \<Longrightarrow> run_event aq ev \<and> records_of ev = []"
  by (auto simp: error_of_def run_event_def)

text \<open>How the history stands when the inner loop returns: another run awaited, or the end.\<close>

definition decided :: "(completion + child) \<Rightarrow> nat \<Rightarrow> life_phase \<Rightarrow> bool" where
  "decided answer n phase \<longleftrightarrow>
     (case answer of
        Inr next \<Rightarrow> phase = AwaitRestart n
      | Inl cc \<Rightarrow> phase = AwaitRestart n \<or> phase = LifeEnded \<and> \<not> cc_aborted cc)"

lemma bounded_detail_length: "length (bounded_detail t) \<le> maximum_detail_bytes + 3"
  using boundary_below_le [of t maximum_detail_bytes]
  by (auto simp: bounded_detail_def ellipsis_def min_def)

lemma restart_loop_spec:
  assumes "restart_loop env d bounds aq success st ts = Some (answer, st')"
  shows "\<exists>h es phase. appends st st' h es \<and> list_all (error_of aq) es \<and> started_ids h = []
    \<and> life_run (cd_restart d) (rb_maximum_restarts bounds) (Deciding n (success = Some True)) h = Some phase
    \<and> decided answer n phase
    \<and> su_run st' = su_run st \<and> su_killed st' = su_killed st \<and> su_discarded st' = su_discarded st
    \<and> (case answer of Inl cc \<Rightarrow> cc_discarded_buffered_bytes cc = su_discarded st
       | Inr next \<Rightarrow> list_ex (\<lambda>t. spawn_child (rt_spawn t) d = Inr next) ts)"
  using assms
proof (induction ts arbitrary: success st)
  case Nil
  then show ?case by simp
next
  case (Cons t ts)
  from Cons.prems show ?case
  proof (cases rule: restart_turn_cases)
    case (declines w j)
    have "appends st st' [RestartDeclined (cd_restart d) success] []"
      using declines(3) by (simp add: appends_def announce_history_def)
    then show ?thesis
      using declines decide_restart_policy [OF declines(1)]
      by (intro exI [of _ "[RestartDeclined (cd_restart d) success]"] exI [of _ "[]"] exI [of _ LifeEnded])
        (simp add: is_start_def decided_def)
  next
    case (exhausted w j used m)
    let ?st1 = "announce_history (RestartsExhausted (cd_restart d) used (duration_millis (rb_window bounds)))
          (st\<lparr>su_window := w, su_jitter := j\<rparr>)"
    obtain es where es: "appends ?st1 st' [] es" "list_all (error_of aq) es"
      using report_error_appends [of ?st1 env aq "restarts_exhausted_detail used"] exhausted(3)
      by (auto simp: list_all_iff error_of_def)
    have "appends st st' [RestartsExhausted (cd_restart d) used (duration_millis (rb_window bounds))] es"
      using es(1) by (simp add: appends_def announce_history_def)
    then show ?thesis
      using exhausted es(2) decide_restart_policy [OF exhausted(1)] policy_restarts_success [of "cd_restart d" success]
      by (intro exI [of _ "[RestartsExhausted (cd_restart d) used (duration_millis (rb_window bounds))]"]
          exI [of _ es] exI [of _ LifeEnded]) (simp add: is_start_def decided_def)
  next
    case (restarts w j attempt delay st2)
    let ?ev = "RestartScheduled (cd_restart d) attempt (rb_maximum_restarts bounds) (duration_millis delay)"
    have one: "appends st st2 [?ev] []" using restarts(2) by (simp add: appends_def announce_history_def)
    have same: "su_run st2 = su_run st" "su_killed st2 = su_killed st" "su_discarded st2 = su_discarded st"
      using restarts(2) by simp_all
    have step: "life_step (cd_restart d) (rb_maximum_restarts bounds) (Deciding n (success = Some True)) ?ev
        = Some (AwaitRestart n)"
      using decide_restart_policy [OF restarts(1)] policy_restarts_success [of "cd_restart d" success] by simp
    show ?thesis
    proof (cases "rt_wait t = Waited")
      case False
      then show ?thesis using restarts(3) one same step
        by (intro exI [of _ "[?ev]"] exI [of _ "[]"] exI [of _ "AwaitRestart n"]) (simp add: is_start_def decided_def)
    next
      case True
      show ?thesis
      proof (cases "spawn_child (rt_spawn t) d")
        case (Inr c)
        then show ?thesis using restarts(3) True one same step
          by (intro exI [of _ "[?ev]"] exI [of _ "[]"] exI [of _ "AwaitRestart n"]) (simp add: is_start_def decided_def)
      next
        case (Inl error)
        let ?failed = "RestartFailed (bounded_detail error)"
        let ?st3 = "report_error env aq (bounded_detail error) (announce_history ?failed st2)"
        have rest: "restart_loop env d bounds aq (Some False) ?st3 ts = Some (answer, st')"
          using restarts(3) True Inl by simp
        obtain es1 where es1: "appends (announce_history ?failed st2) ?st3 [] es1" "list_all (error_of aq) es1"
          using report_error_appends [of "announce_history ?failed st2" env aq "bounded_detail error"]
          by (auto simp: list_all_iff error_of_def)
        obtain h es phase where ih: "appends ?st3 st' h es" "list_all (error_of aq) es" "started_ids h = []"
          "life_run (cd_restart d) (rb_maximum_restarts bounds) (Deciding n False) h = Some phase"
          "decided answer n phase" "su_run st' = su_run st2" "su_killed st' = su_killed st2"
          "su_discarded st' = su_discarded st2"
          "case answer of Inl cc \<Rightarrow> cc_discarded_buffered_bytes cc = su_discarded st2
           | Inr next \<Rightarrow> list_ex (\<lambda>t. spawn_child (rt_spawn t) d = Inr next) ts"
          using Cons.IH [OF rest, unfolded report_error_same announce_same] by auto
        have "appends st st' ([?ev] @ [?failed] @ [] @ h) ([] @ [] @ es1 @ es)"
          using appends_trans [OF one appends_trans [OF announce_appends appends_trans [OF es1(1) ih(1)]]] .
        then show ?thesis
          using ih es1(2) same step bounded_detail_length [of error]
          by (intro exI [of _ "?ev # ?failed # h"] exI [of _ "es1 @ es"] exI [of _ phase])
            (auto simp: is_start_def split: sum.splits)
      qed
    qed
  qed
qed

text \<open>The outer loop.  \<open>output_bytes\<close> is what one run's process wrote to a stream, both of which
  are piped.\<close>

definition output_bytes :: "stream_kind \<Rightarrow> command_round \<Rightarrow> byte list" where
  "output_bytes st r = script_input (rounds_of st (rs_before (co_run r) @ rs_after (co_run r)))"

definition piped :: "child \<Rightarrow> bool" where
  "piped c \<longleftrightarrow> ch_stdout c \<and> ch_stderr c"

definition spawns_piped :: "command_definition \<Rightarrow> command_round \<Rightarrow> bool" where
  "spawns_piped d r \<longleftrightarrow>
     list_all (\<lambda>t. case spawn_child (rt_spawn t) d of Inl error \<Rightarrow> True | Inr c \<Rightarrow> piped c) (co_tries r)"

definition settled :: "completion \<Rightarrow> life_phase \<Rightarrow> bool" where
  "settled cc phase \<longleftrightarrow>
     (case phase of
        AwaitStart n \<Rightarrow> False
      | RunActive aq n \<Rightarrow> True
      | Deciding n success \<Rightarrow> False
      | AwaitRestart n \<Rightarrow> True
      | LifeEnded \<Rightarrow> \<not> cc_aborted cc)"

text \<open>Everything one pass of the supervisor says and keeps, relative to where it started.\<close>

definition supervised ::
  "capture_env \<Rightarrow> command_definition \<Rightarrow> nat \<Rightarrow> child \<Rightarrow> supervision \<Rightarrow> command_round list
    \<Rightarrow> completion \<Rightarrow> source_event list \<Rightarrow> capture_event list \<Rightarrow> bool" where
  "supervised env d maximum c st rounds cc h es \<longleftrightarrow>
     (\<forall>phase0. phase0 = AwaitStart (next_run (su_run st)) \<or> phase0 = AwaitRestart (su_run st) \<longrightarrow>
        (\<exists>phase. life_run (cd_restart d) maximum phase0 h = Some phase \<and> settled cc phase))
   \<and> ((\<forall>i. ce_deliver env i) \<longrightarrow> in_runs (started_ids h) es)
   \<and> ((\<forall>i. ce_deliver env i) \<longrightarrow> piped c \<longrightarrow> list_all (spawns_piped d) rounds \<longrightarrow>
        (let ran = take (length (started_ids h)) rounds;
             lost = cc_discarded_buffered_bytes cc - su_discarded st
         in su_discarded st \<le> cc_discarded_buffered_bytes cc
          \<and> length (stream_content Stdout es) + length (stream_content Stderr es) + lost
            = length (concat (map (output_bytes Stdout) ran)) + length (concat (map (output_bytes Stderr) ran))
          \<and> (lost = 0 \<longrightarrow> stream_content Stdout es = concat (map (output_bytes Stdout) ran)
                        \<and> stream_content Stderr es = concat (map (output_bytes Stderr) ran))))"

lemma errors_content: "list_all (error_of aq) es \<Longrightarrow> stream_content st es = []"
  by (induction es) (auto simp: error_of_def)

lemma in_runs_one: "list_all (run_event aq) body \<Longrightarrow> in_runs [aq] (Boundary aq Started # body)"
  by (intro in_runs.simps(2) [THEN iffD2] exI [of _ body] exI [of _ "[]"]) simp

lemma piped_output: "piped c \<Longrightarrow> st = Stdout \<or> st = Stderr \<Longrightarrow> offered_bytes st c (co_run r) = output_bytes st r"
  by (auto simp: piped_def offered_bytes_def output_bytes_def)

text \<open>One run, as the supervisor sees it.\<close>

lemma run_instance_appends:
  assumes "limits_valid limits" "memchr_ok (ce_memchr env)"
    and "run_command_instance env (co_id r) limits c (co_run r) (s, killed) = Some (outcome, s', killed')"
  obtains es where "sk_events s' = sk_events s @ es"
    "(\<forall>i. ce_deliver env i) \<Longrightarrow> \<exists>body. es = Boundary (co_id r) Started # body \<and> list_all (run_event (co_id r)) body"
    "(\<forall>i. ce_deliver env i) \<Longrightarrow> piped c \<Longrightarrow>
       length (stream_content Stdout es) + length (stream_content Stderr es) + outcome_discarded outcome
       = length (output_bytes Stdout r) + length (output_bytes Stderr r)"
    "(\<forall>i. ce_deliver env i) \<Longrightarrow> piped c \<Longrightarrow> outcome_discarded outcome = 0 \<Longrightarrow>
       stream_content Stdout es = output_bytes Stdout r \<and> stream_content Stderr es = output_bytes Stderr r"
proof -
  obtain es where es: "sk_events s' = sk_events s @ es"
    "(\<forall>i. ce_deliver env i) \<longrightarrow>
       (\<exists>body. es = Boundary (co_id r) Started # body @ run_closing (co_id r) (co_run r)
          \<and> (\<forall>ev \<in> set body. reader_event (co_id r) ev))
     \<and> length (stream_content Stdout es) + length (stream_content Stderr es) + outcome_discarded outcome
       = length (offered_bytes Stdout c (co_run r)) + length (offered_bytes Stderr c (co_run r))
     \<and> (outcome_discarded outcome = 0 \<longrightarrow>
          stream_content Stdout es = offered_bytes Stdout c (co_run r)
        \<and> stream_content Stderr es = offered_bytes Stderr c (co_run r))"
    using command_run_account [OF assms] by (elim conjE exE) (rule that)
  show ?thesis
  proof (rule that [OF es(1)])
    assume sent: "\<forall>i. ce_deliver env i"
    obtain body where body: "es = Boundary (co_id r) Started # body @ run_closing (co_id r) (co_run r)"
      "\<forall>ev \<in> set body. reader_event (co_id r) ev" using es(2) sent by blast
    then show "\<exists>body. es = Boundary (co_id r) Started # body \<and> list_all (run_event (co_id r)) body"
      using reader_event_run run_closing_run by (auto simp: list_all_iff)
    assume p: "piped c"
    show "length (stream_content Stdout es) + length (stream_content Stderr es) + outcome_discarded outcome
       = length (output_bytes Stdout r) + length (output_bytes Stderr r)"
      using es(2) sent piped_output [OF p] by simp
    show "outcome_discarded outcome = 0 \<Longrightarrow>
       stream_content Stdout es = output_bytes Stdout r \<and> stream_content Stderr es = output_bytes Stderr r"
      using es(2) sent piped_output [OF p] by simp
  qed
qed

lemma supervised_ended:
  assumes "limits_valid limits" "memchr_ok (ce_memchr env)"
    and inst: "run_command_instance env (co_id r) limits c (co_run r) (su_sink st, su_killed st) = Some (outcome, s, killed)"
    and st': "st' = announce_history (CommandStarted (co_id r) (next_run (su_run st))) (st\<lparr>su_run := next_run (su_run st)\<rparr>)
        \<lparr>su_sink := s, su_killed := killed\<rparr>"
    and cc: "cc_discarded_buffered_bytes cc = su_discarded st + outcome_discarded outcome"
  shows "\<exists>h es. appends st st' h es \<and> supervised env d maximum c st (r # rs) cc h es"
proof -
  obtain es where es: "sk_events s = sk_events (su_sink st) @ es"
    "(\<forall>i. ce_deliver env i) \<Longrightarrow> \<exists>body. es = Boundary (co_id r) Started # body \<and> list_all (run_event (co_id r)) body"
    "(\<forall>i. ce_deliver env i) \<Longrightarrow> piped c \<Longrightarrow>
       length (stream_content Stdout es) + length (stream_content Stderr es) + outcome_discarded outcome
       = length (output_bytes Stdout r) + length (output_bytes Stderr r)"
    "(\<forall>i. ce_deliver env i) \<Longrightarrow> piped c \<Longrightarrow> outcome_discarded outcome = 0 \<Longrightarrow>
       stream_content Stdout es = output_bytes Stdout r \<and> stream_content Stderr es = output_bytes Stderr r"
    using run_instance_appends [OF assms(1-3)] by metis
  let ?h = "[CommandStarted (co_id r) (next_run (su_run st))]"
  have "appends st st' ?h es" using es(1) st' by (simp add: appends_def announce_history_def)
  moreover have "supervised env d maximum c st (r # rs) cc ?h es"
    unfolding supervised_def
  proof (intro conjI allI impI)
    show "\<exists>phase. life_run (cd_restart d) maximum phase0 ?h = Some phase \<and> settled cc phase"
      if "phase0 = AwaitStart (next_run (su_run st)) \<or> phase0 = AwaitRestart (su_run st)" for phase0
      using that by (auto simp: settled_def)
    assume sent: "\<forall>i. ce_deliver env i"
    obtain body where "es = Boundary (co_id r) Started # body" "list_all (run_event (co_id r)) body"
      using es(2) [OF sent] by blast
    then show "in_runs (started_ids ?h) es" using in_runs_one [of "co_id r" body] by (simp add: is_start_def)
    assume "piped c"
    then show "let ran = take (length (started_ids ?h)) (r # rs);
            lost = cc_discarded_buffered_bytes cc - su_discarded st
         in su_discarded st \<le> cc_discarded_buffered_bytes cc
          \<and> length (stream_content Stdout es) + length (stream_content Stderr es) + lost
            = length (concat (map (output_bytes Stdout) ran)) + length (concat (map (output_bytes Stderr) ran))
          \<and> (lost = 0 \<longrightarrow> stream_content Stdout es = concat (map (output_bytes Stdout) ran)
                        \<and> stream_content Stderr es = concat (map (output_bytes Stderr) ran))"
      using es(3,4) [OF sent] cc by (simp add: is_start_def)
  qed
  ultimately show ?thesis by blast
qed

text \<open>A run that exited, with what the inner loop appended after it.\<close>

lemma exited_appends:
  assumes "limits_valid limits" "memchr_ok (ce_memchr env)"
    and inst: "run_command_instance env (co_id r) limits c (co_run r) (su_sink st, su_killed st)
      = Some (InstanceExited status n, s, killed)"
    and st3: "st3 = announce_history (CommandExited (co_id r) (Option.bind status es_code)
           (case status of None \<Rightarrow> False | Some x \<Rightarrow> es_success x))
         (announce_history (CommandStarted (co_id r) (next_run (su_run st))) (st\<lparr>su_run := next_run (su_run st)\<rparr>)
           \<lparr>su_sink := s, su_killed := killed, su_discarded := su_discarded st + n\<rparr>)"
    and loop: "restart_loop env d bounds (co_id r) (map_option es_success status) st3 (co_tries r) = Some (answer, st4)"
  obtains h es phase where "appends st st4 h es" "started_ids h = [co_id r]"
    "\<And>phase0. phase0 = AwaitStart (next_run (su_run st)) \<or> phase0 = AwaitRestart (su_run st)
       \<Longrightarrow> life_run (cd_restart d) (rb_maximum_restarts bounds) phase0 h = Some phase"
    "decided answer (next_run (su_run st)) phase" "su_run st4 = next_run (su_run st)"
    "su_discarded st4 = su_discarded st + n"
    "case answer of Inl cc \<Rightarrow> cc_discarded_buffered_bytes cc = su_discarded st + n
     | Inr next \<Rightarrow> spawns_piped d r \<longrightarrow> piped next"
    "(\<forall>i. ce_deliver env i) \<Longrightarrow> \<exists>body. es = Boundary (co_id r) Started # body \<and> list_all (run_event (co_id r)) body"
    "(\<forall>i. ce_deliver env i) \<Longrightarrow> piped c \<Longrightarrow>
       length (stream_content Stdout es) + length (stream_content Stderr es) + n
       = length (output_bytes Stdout r) + length (output_bytes Stderr r)"
    "(\<forall>i. ce_deliver env i) \<Longrightarrow> piped c \<Longrightarrow> n = 0 \<Longrightarrow>
       stream_content Stdout es = output_bytes Stdout r \<and> stream_content Stderr es = output_bytes Stderr r"
proof -
  obtain es where es: "sk_events s = sk_events (su_sink st) @ es"
    "(\<forall>i. ce_deliver env i) \<Longrightarrow> \<exists>body. es = Boundary (co_id r) Started # body \<and> list_all (run_event (co_id r)) body"
    "(\<forall>i. ce_deliver env i) \<Longrightarrow> piped c \<Longrightarrow>
       length (stream_content Stdout es) + length (stream_content Stderr es) + n
       = length (output_bytes Stdout r) + length (output_bytes Stderr r)"
    "(\<forall>i. ce_deliver env i) \<Longrightarrow> piped c \<Longrightarrow> n = 0 \<Longrightarrow>
       stream_content Stdout es = output_bytes Stdout r \<and> stream_content Stderr es = output_bytes Stderr r"
    using run_instance_appends [OF assms(1-3)] by (metis outcome_discarded.simps(3))
  let ?run = "next_run (su_run st)"
  let ?exit = "CommandExited (co_id r) (Option.bind status es_code)
     (case status of None \<Rightarrow> False | Some x \<Rightarrow> es_success x)"
  obtain h es2 phase where l: "appends st3 st4 h es2" "list_all (error_of (co_id r)) es2" "started_ids h = []"
    "life_run (cd_restart d) (rb_maximum_restarts bounds)
       (Deciding ?run (map_option es_success status = Some True)) h = Some phase"
    "decided answer ?run phase" "su_run st4 = su_run st3" "su_discarded st4 = su_discarded st3"
    "case answer of Inl cc \<Rightarrow> cc_discarded_buffered_bytes cc = su_discarded st3
     | Inr next \<Rightarrow> list_ex (\<lambda>t. spawn_child (rt_spawn t) d = Inr next) (co_tries r)"
    using restart_loop_spec [OF loop, of ?run] by blast
  have first: "appends st st3 [CommandStarted (co_id r) ?run, ?exit] es"
    using es(1) st3 by (simp add: appends_def announce_history_def)
  have success: "(map_option es_success status = Some True) = (case status of None \<Rightarrow> False | Some x \<Rightarrow> es_success x)"
    by (cases status) auto
  show ?thesis
  proof (rule that [OF appends_trans [OF first l(1)]])
    show "started_ids ([CommandStarted (co_id r) ?run, ?exit] @ h) = [co_id r]"
      using l(3) by (simp add: is_start_def)
    show "life_run (cd_restart d) (rb_maximum_restarts bounds) phase0
        ([CommandStarted (co_id r) ?run, ?exit] @ h) = Some phase"
      if "phase0 = AwaitStart ?run \<or> phase0 = AwaitRestart (su_run st)" for phase0
      using that l(4) unfolding success by auto
    show "decided answer ?run phase" using l(5) .
    show "su_run st4 = ?run" "su_discarded st4 = su_discarded st + n" using l(6,7) st3 by simp_all
    show "case answer of Inl cc \<Rightarrow> cc_discarded_buffered_bytes cc = su_discarded st + n
        | Inr next \<Rightarrow> spawns_piped d r \<longrightarrow> piped next"
      using l(8) st3 by (auto simp: spawns_piped_def list_ex_iff list_all_iff split: sum.splits)
    show "\<exists>body. es @ es2 = Boundary (co_id r) Started # body \<and> list_all (run_event (co_id r)) body"
      if "\<forall>i. ce_deliver env i"
      using es(2) [OF that] l(2) error_of_run by (fastforce simp: list_all_iff)
    show "length (stream_content Stdout (es @ es2)) + length (stream_content Stderr (es @ es2)) + n
       = length (output_bytes Stdout r) + length (output_bytes Stderr r)"
      if "\<forall>i. ce_deliver env i" "piped c"
      using es(3) that errors_content [OF l(2)] by simp
    show "stream_content Stdout (es @ es2) = output_bytes Stdout r \<and> stream_content Stderr (es @ es2) = output_bytes Stderr r"
      if "\<forall>i. ce_deliver env i" "piped c" "n = 0"
      using es(4) that errors_content [OF l(2)] by simp
  qed
qed

lemma next_turn_supervised:
  assumes first: "started_ids h1 = [co_id r]"
    "\<And>phase0. phase0 = AwaitStart (next_run (su_run st)) \<or> phase0 = AwaitRestart (su_run st)
       \<Longrightarrow> life_run (cd_restart d) maximum phase0 h1 = Some (AwaitRestart (next_run (su_run st)))"
    "(\<forall>i. ce_deliver env i) \<Longrightarrow> \<exists>body. es1 = Boundary (co_id r) Started # body \<and> list_all (run_event (co_id r)) body"
    "(\<forall>i. ce_deliver env i) \<Longrightarrow> piped c \<Longrightarrow>
       length (stream_content Stdout es1) + length (stream_content Stderr es1) + n
       = length (output_bytes Stdout r) + length (output_bytes Stderr r)"
    "(\<forall>i. ce_deliver env i) \<Longrightarrow> piped c \<Longrightarrow> n = 0 \<Longrightarrow>
       stream_content Stdout es1 = output_bytes Stdout r \<and> stream_content Stderr es1 = output_bytes Stderr r"
    and mid: "su_run st4 = next_run (su_run st)" "su_discarded st4 = su_discarded st + n"
      "spawns_piped d r \<longrightarrow> piped c'"
    and rest: "supervised env d maximum c' st4 rs cc h2 es2"
  shows "supervised env d maximum c st (r # rs) cc (h1 @ h2) (es1 @ es2)"
  unfolding supervised_def
proof (intro conjI allI impI)
  show "\<exists>phase. life_run (cd_restart d) maximum phase0 (h1 @ h2) = Some phase \<and> settled cc phase"
    if "phase0 = AwaitStart (next_run (su_run st)) \<or> phase0 = AwaitRestart (su_run st)" for phase0
    using first(2) [OF that] rest mid(1) by (simp add: life_run_append supervised_def)
  assume sent: "\<forall>i. ce_deliver env i"
  obtain body where body: "es1 = Boundary (co_id r) Started # body" "list_all (run_event (co_id r)) body"
    using first(3) [OF sent] by blast
  have "in_runs (started_ids h2) es2" using rest sent by (simp add: supervised_def)
  then show "in_runs (started_ids (h1 @ h2)) (es1 @ es2)" using body first(1) by auto
  assume p: "piped c" and all: "list_all (spawns_piped d) (r # rs)"
  then have p': "piped c'" "list_all (spawns_piped d) rs" using mid(3) by simp_all
  define ran where "ran = take (length (started_ids h2)) rs"
  define lost where "lost = cc_discarded_buffered_bytes cc - su_discarded st4"
  have two: "su_discarded st4 \<le> cc_discarded_buffered_bytes cc"
    "length (stream_content Stdout es2) + length (stream_content Stderr es2) + lost
       = length (concat (map (output_bytes Stdout) ran)) + length (concat (map (output_bytes Stderr) ran))"
    "lost = 0 \<longrightarrow> stream_content Stdout es2 = concat (map (output_bytes Stdout) ran)
        \<and> stream_content Stderr es2 = concat (map (output_bytes Stderr) ran)"
    using rest sent p' by (simp_all add: supervised_def Let_def ran_def lost_def)
  have ran: "take (length (started_ids (h1 @ h2))) (r # rs) = r # ran" using first(1) by (simp add: ran_def)
  have total: "cc_discarded_buffered_bytes cc - su_discarded st = n + lost"
    using two(1) mid(2) by (simp add: lost_def)
  show "let ran = take (length (started_ids (h1 @ h2))) (r # rs);
           lost = cc_discarded_buffered_bytes cc - su_discarded st
       in su_discarded st \<le> cc_discarded_buffered_bytes cc
        \<and> length (stream_content Stdout (es1 @ es2)) + length (stream_content Stderr (es1 @ es2)) + lost
          = length (concat (map (output_bytes Stdout) ran)) + length (concat (map (output_bytes Stderr) ran))
        \<and> (lost = 0 \<longrightarrow> stream_content Stdout (es1 @ es2) = concat (map (output_bytes Stdout) ran)
                      \<and> stream_content Stderr (es1 @ es2) = concat (map (output_bytes Stderr) ran))"
    unfolding Let_def ran total
    using two first(4) [OF sent p] first(5) [OF sent p] mid(2) by auto
qed

lemma supervise_spec:
  assumes "limits_valid limits" "memchr_ok (ce_memchr env)"
    and "supervise env limits d bounds c st rounds = Some (cc, st')"
  shows "\<exists>h es. appends st st' h es
    \<and> supervised env d (rb_maximum_restarts bounds) c st rounds cc h es"
  using assms(3)
proof (induction rounds arbitrary: c st)
  case Nil
  then show ?case by simp
next
  case (Cons r rs)
  from Cons.prems show ?case
  proof (cases rule: supervise_turn_cases)
    case (ended st1 outcome s killed)
    then show ?thesis
      using supervised_ended [OF assms(1,2) ended(2) _ ended(4)] by simp
  next
    case (exited st1 st3 status n s killed answer st4)
    obtain h es phase where one: "appends st st4 h es" "started_ids h = [co_id r]"
      "\<And>phase0. phase0 = AwaitStart (next_run (su_run st)) \<or> phase0 = AwaitRestart (su_run st)
         \<Longrightarrow> life_run (cd_restart d) (rb_maximum_restarts bounds) phase0 h = Some phase"
      "decided answer (next_run (su_run st)) phase" "su_run st4 = next_run (su_run st)"
      "su_discarded st4 = su_discarded st + n"
      "case answer of Inl cc \<Rightarrow> cc_discarded_buffered_bytes cc = su_discarded st + n
       | Inr next \<Rightarrow> spawns_piped d r \<longrightarrow> piped next"
      "(\<forall>i. ce_deliver env i) \<Longrightarrow> \<exists>body. es = Boundary (co_id r) Started # body \<and> list_all (run_event (co_id r)) body"
      "(\<forall>i. ce_deliver env i) \<Longrightarrow> piped c \<Longrightarrow>
         length (stream_content Stdout es) + length (stream_content Stderr es) + n
         = length (output_bytes Stdout r) + length (output_bytes Stderr r)"
      "(\<forall>i. ce_deliver env i) \<Longrightarrow> piped c \<Longrightarrow> n = 0 \<Longrightarrow>
         stream_content Stdout es = output_bytes Stdout r \<and> stream_content Stderr es = output_bytes Stderr r"
      by (rule exited_appends [OF assms(1,2) exited(2) exited(3) [unfolded exited(1)] exited(4)]) (rule that)
    show ?thesis
    proof (cases answer)
      case (Inr c2)
      have rest: "supervise env limits d bounds c2 st4 rs = Some (cc, st')" using exited(5) Inr by simp
      obtain h2 es2 where two: "appends st4 st' h2 es2"
        "supervised env d (rb_maximum_restarts bounds) c2 st4 rs cc h2 es2"
        using Cons.IH [OF rest] by blast
      have "phase = AwaitRestart (next_run (su_run st))" using one(4) Inr by (simp add: decided_def)
      then have "supervised env d (rb_maximum_restarts bounds) c st (r # rs) cc (h @ h2) (es @ es2)"
        using one(3,7) Inr by (intro next_turn_supervised [OF one(2) _ one(8-10,5,6) _ two(2)]) simp_all
      then show ?thesis using appends_trans [OF one(1) two(1)] by blast
    next
      case (Inl cc')
      then have fin: "cc = cc'" "st' = st4" using exited(5) by simp_all
      have "supervised env d (rb_maximum_restarts bounds) c st (r # rs) cc h es"
        unfolding supervised_def
      proof (intro conjI allI impI)
        show "\<exists>phase. life_run (cd_restart d) (rb_maximum_restarts bounds) phase0 h = Some phase \<and> settled cc phase"
          if "phase0 = AwaitStart (next_run (su_run st)) \<or> phase0 = AwaitRestart (su_run st)" for phase0
          using one(3) [OF that] one(4) Inl fin by (auto simp: decided_def settled_def)
        assume sent: "\<forall>i. ce_deliver env i"
        obtain body where "es = Boundary (co_id r) Started # body" "list_all (run_event (co_id r)) body"
          using one(8) [OF sent] by blast
        then show "in_runs (started_ids h) es" using in_runs_one one(2) by simp
        assume p: "piped c"
        show "let ran = take (length (started_ids h)) (r # rs);
            lost = cc_discarded_buffered_bytes cc - su_discarded st
         in su_discarded st \<le> cc_discarded_buffered_bytes cc
          \<and> length (stream_content Stdout es) + length (stream_content Stderr es) + lost
            = length (concat (map (output_bytes Stdout) ran)) + length (concat (map (output_bytes Stderr) ran))
          \<and> (lost = 0 \<longrightarrow> stream_content Stdout es = concat (map (output_bytes Stdout) ran)
                        \<and> stream_content Stderr es = concat (map (output_bytes Stderr) ran))"
          using one(2,7) one(9,10) [OF sent p] Inl fin by simp
      qed
      then show ?thesis using one(1) fin by blast
    qed
  qed
qed

section \<open>The restart budget\<close>

text \<open>The calls of \<open>decide_restart\<close> a pass makes: every restart announced is one it granted.\<close>

abbreviation granted_by :: "restart_bounds \<Rightarrow> supervision \<Rightarrow> ((restart_policy \<times> bool option) \<times> nat) list \<Rightarrow> nat list" where
  "granted_by bounds st calls \<equiv> granted_times (restart_attempt bounds) (su_window st, su_jitter st) calls"

definition budgeted ::
  "restart_bounds \<Rightarrow> supervision \<Rightarrow> supervision \<Rightarrow> nat list \<Rightarrow> bool" where
  "budgeted bounds st st' instants \<longleftrightarrow>
     (\<exists>calls. subseq (map snd calls) instants
        \<and> length (filter is_scheduled (su_history st'))
          = length (filter is_scheduled (su_history st)) + length (granted_by bounds st calls)
        \<and> (\<forall>calls2. granted_by bounds st (calls @ calls2)
             = granted_by bounds st calls @ granted_by bounds st' calls2))"

lemma budgeted_none:
  assumes "su_window st' = su_window st" "su_jitter st' = su_jitter st"
    "filter is_scheduled (su_history st') = filter is_scheduled (su_history st)"
  shows "budgeted bounds st st' instants"
  unfolding budgeted_def by (intro exI [of _ "[]"]) (simp add: assms)

lemma budgeted_trans:
  assumes "budgeted bounds st st1 xs" "budgeted bounds st1 st2 ys"
  shows "budgeted bounds st st2 (xs @ ys)"
proof -
  obtain c1 where c1: "subseq (map snd c1) xs"
    "length (filter is_scheduled (su_history st1))
      = length (filter is_scheduled (su_history st)) + length (granted_by bounds st c1)"
    "\<And>more. granted_by bounds st (c1 @ more) = granted_by bounds st c1 @ granted_by bounds st1 more"
    using assms(1) by (auto simp: budgeted_def)
  obtain c2 where c2: "subseq (map snd c2) ys"
    "length (filter is_scheduled (su_history st2))
      = length (filter is_scheduled (su_history st1)) + length (granted_by bounds st1 c2)"
    "\<And>more. granted_by bounds st1 (c2 @ more) = granted_by bounds st1 c2 @ granted_by bounds st2 more"
    using assms(2) by (auto simp: budgeted_def)
  show ?thesis
    unfolding budgeted_def
    using c1 c2 by (intro exI [of _ "c1 @ c2"]) (auto intro: list_emb_append_mono)
qed

lemma decision_budgeted:
  assumes "decide_restart policy success bounds (su_window st) (su_jitter st) now = (decision, w, j)"
    and "su_window st' = w" "su_jitter st' = j"
    and "length (filter is_scheduled (su_history st'))
      = length (filter is_scheduled (su_history st)) + (case decision of Restart attempt delay \<Rightarrow> 1 | _ \<Rightarrow> 0)"
  shows "budgeted bounds st st' [now]"
  unfolding budgeted_def
  using assms
  by (intro exI [of _ "[((policy, success), now)]"])
    (auto simp: restart_attempt_def split: restart_decision.splits)

lemma restart_loop_budgeted:
  "restart_loop env d bounds aq success st ts = Some (answer, st') \<Longrightarrow> budgeted bounds st st' (map rt_now ts)"
proof (induction ts arbitrary: success st)
  case Nil
  then show ?case by simp
next
  case (Cons t ts)
  have one: "budgeted bounds st st' (map rt_now (t # ts))" if "budgeted bounds st st' [rt_now t]"
    using budgeted_trans [OF that budgeted_none [of st' st' bounds "map rt_now ts"]] by simp
  from Cons.prems show ?case
  proof (cases rule: restart_turn_cases)
    case (declines w j)
    then show ?thesis by (intro one decision_budgeted [OF declines(1)]) (simp_all add: announce_history_def is_scheduled_def)
  next
    case (exhausted w j used m)
    then show ?thesis
      by (intro one decision_budgeted [OF exhausted(1)])
        (simp_all add: announce_history_def report_error_def is_scheduled_def split: prod.split)
  next
    case (restarts w j attempt delay st2)
    have first: "budgeted bounds st st2 [rt_now t]"
      using restarts(2) by (intro decision_budgeted [OF restarts(1)]) (simp_all add: announce_history_def is_scheduled_def)
    show ?thesis
    proof (cases "rt_wait t = Waited \<and> (\<exists>error. spawn_child (rt_spawn t) d = Inl error)")
      case False
      then have "st' = st2" using restarts(3) by (auto split: if_splits sum.splits)
      then show ?thesis using one first by simp
    next
      case True
      then obtain error where error: "spawn_child (rt_spawn t) d = Inl error" by blast
      let ?st3 = "report_error env aq (bounded_detail error) (announce_history (RestartFailed (bounded_detail error)) st2)"
      have "restart_loop env d bounds aq (Some False) ?st3 ts = Some (answer, st')"
        using restarts(3) True error by simp
      then have "budgeted bounds ?st3 st' (map rt_now ts)" by (rule Cons.IH)
      moreover have "budgeted bounds st2 ?st3 []"
        by (rule budgeted_none) (simp_all add: announce_history_def report_error_def is_scheduled_def split: prod.split)
      ultimately have "budgeted bounds st st' ([rt_now t] @ [] @ map rt_now ts)"
        using budgeted_trans [OF first budgeted_trans] by blast
      then show ?thesis by simp
    qed
  qed
qed

definition decision_instants :: "command_round list \<Rightarrow> nat list" where
  "decision_instants rounds = concat (map (\<lambda>r. map rt_now (co_tries r)) rounds)"

lemma supervise_budgeted:
  "supervise env limits d bounds c st rounds = Some (cc, st') \<Longrightarrow> budgeted bounds st st' (decision_instants rounds)"
proof (induction rounds arbitrary: c st)
  case Nil
  then show ?case by simp
next
  case (Cons r rs)
  have longer: "budgeted bounds st st' (decision_instants (r # rs))" if "budgeted bounds st st' (map rt_now (co_tries r))"
    using budgeted_trans [OF that budgeted_none [of st' st' bounds "decision_instants rs"]]
    by (simp add: decision_instants_def)
  from Cons.prems show ?case
  proof (cases rule: supervise_turn_cases)
    case (ended st1 outcome s killed)
    then show ?thesis by (intro longer budgeted_none) (simp_all add: announce_history_def is_scheduled_def)
  next
    case (exited st1 st3 status n s killed answer st4)
    have "budgeted bounds st st3 []"
      unfolding exited(1,3) by (rule budgeted_none) (simp_all add: announce_history_def is_scheduled_def)
    from budgeted_trans [OF this restart_loop_budgeted [OF exited(4)]]
    have first: "budgeted bounds st st4 (map rt_now (co_tries r))" by simp
    show ?thesis
    proof (cases answer)
      case (Inl cc')
      then show ?thesis using longer first exited(5) by simp
    next
      case (Inr c2)
      then have "budgeted bounds st4 st' (decision_instants rs)" using exited(5) Cons.IH by simp
      from budgeted_trans [OF first this] show ?thesis by (simp add: decision_instants_def)
    qed
  qed
qed

text \<open>With every decision inside one window, each restart uses up some of the budget, so the
  supervisor returns.\<close>

definition in_span :: "nat \<Rightarrow> nat \<Rightarrow> nat list \<Rightarrow> bool" where
  "in_span lo window ts \<longleftrightarrow> list_all (\<lambda>t. lo \<le> t \<and> t < lo + window) ts"

lemma in_span_simps [simp]:
  "in_span lo window []" "in_span lo window (t # ts) \<longleftrightarrow> (lo \<le> t \<and> t < lo + window) \<and> in_span lo window ts"
  "in_span lo window (ts @ ts') \<longleftrightarrow> in_span lo window ts \<and> in_span lo window ts'"
  by (simp_all add: in_span_def)

lemma in_span_all_near:
  assumes "in_span lo window g" "lo \<le> now" "now < lo + window"
  shows "filter (\<lambda>x. now - x < window) g = g"
  using assms by (induction g) auto

lemma restart_loop_returns:
  assumes "window_inv limit window (su_window st) g t0" "in_span lo window g" "length g \<le> limit"
    and "sorted (t0 # map rt_now ts)" "in_span lo window (map rt_now ts)" "limit < length g + length ts"
  shows "\<exists>answer st'. restart_loop env d bounds aq success st ts = Some (answer, st')
    \<and> (case answer of Inl cc \<Rightarrow> True
       | Inr c \<Rightarrow> \<exists>g' t'. window_inv limit window (su_window st') g' t' \<and> in_span lo window g'
           \<and> length g < length g' \<and> length g' \<le> limit \<and> t' \<in> set (map rt_now ts))"
  using assms
proof (induction ts arbitrary: success st g t0)
  case Nil
  then show ?case by simp
next
  case (Cons t ts)
  obtain decision w j where dec:
    "decide_restart (cd_restart d) success bounds (su_window st) (su_jitter st) (rt_now t) = (decision, w, j)"
    by (metis surj_pair)
  have now: "t0 \<le> rt_now t" "lo \<le> rt_now t" "rt_now t < lo + window" using Cons.prems(4,5) by simp_all
  note branch = decide_restart_branches [OF Cons.prems(1) now(1), where policy = "cd_restart d"
      and success = success and bounds = bounds and j = "su_jitter st", unfolded dec in_span_all_near [OF Cons.prems(2) now(2,3)]]
  show ?case
  proof (cases decision)
    case (Restart attempt delay)
    then have w: "window_inv limit window w (g @ [rt_now t]) (rt_now t)" "length g + 1 \<le> limit"
      using branch by simp_all
    define st2 where "st2 = announce_history (RestartScheduled (cd_restart d) attempt (rb_maximum_restarts bounds)
      (duration_millis delay)) (st\<lparr>su_window := w, su_jitter := j\<rparr>)"
    show ?thesis
    proof (cases "rt_wait t = Waited")
      case False
      then show ?thesis using Restart dec by (simp add: Let_def)
    next
      case True
      show ?thesis
      proof (cases "spawn_child (rt_spawn t) d")
        case (Inr c)
        then have eq: "restart_loop env d bounds aq success st (t # ts) = Some (Inr c, st2)"
          using True Restart dec by (simp add: Let_def st2_def)
        have more: "\<exists>g' t'. window_inv limit window (su_window st2) g' t' \<and> in_span lo window g'
           \<and> length g < length g' \<and> length g' \<le> limit \<and> t' \<in> set (map rt_now (t # ts))"
          by (intro exI [of _ "g @ [rt_now t]"] exI [of _ "rt_now t"])
            (use w now Cons.prems(2) in \<open>simp add: st2_def\<close>)
        show ?thesis by (intro exI [of _ "Inr c"] exI [of _ st2] conjI eq) (simp only: sum.simps more)
      next
        case (Inl error)
        let ?st3 = "report_error env aq (bounded_detail error) (announce_history (RestartFailed (bounded_detail error)) st2)"
        have "window_inv limit window (su_window ?st3) (g @ [rt_now t]) (rt_now t)"
          using w(1) by (simp add: st2_def)
        from Cons.IH [OF this, of "Some False"] obtain answer st' where ih:
          "restart_loop env d bounds aq (Some False) ?st3 ts = Some (answer, st')"
          "case answer of Inl cc \<Rightarrow> True
           | Inr c \<Rightarrow> \<exists>g' t'. window_inv limit window (su_window st') g' t' \<and> in_span lo window g'
               \<and> length (g @ [rt_now t]) < length g' \<and> length g' \<le> limit \<and> t' \<in> set (map rt_now ts)"
          using Cons.prems(2,4,5,6) now w(2) by auto
        have "restart_loop env d bounds aq success st (t # ts) = Some (answer, st')"
          using ih(1) True Inl Restart dec by (simp add: Let_def st2_def)
        then show ?thesis using ih(2)
          by (intro exI [of _ answer] exI [of _ st']) (fastforce split: sum.splits)
      qed
    qed
  qed (use dec in \<open>simp_all add: Let_def\<close>)
qed

lemma readers_finish_any: "readers_finish \<lparr>ch_id = None, ch_stdout = True, ch_stderr = True\<rparr> script \<Longrightarrow> readers_finish c script"
  by (simp add: readers_finish_def Let_def)

lemma supervise_returns:
  assumes "limits_valid limits" "memchr_ok (ce_memchr env)"
    and "window_inv limit window (su_window st) g t0" "in_span lo window g" "length g \<le> limit"
    and "sorted (t0 # decision_instants rounds)" "in_span lo window (decision_instants rounds)"
    and "limit < length g + length rounds"
    and "list_all (\<lambda>r. readers_finish \<lparr>ch_id = None, ch_stdout = True, ch_stderr = True\<rparr> (co_run r)
           \<and> limit < length (co_tries r)) rounds"
  shows "supervise env limits d bounds c st rounds \<noteq> None"
  using assms(3-9)
proof (induction rounds arbitrary: c st g t0)
  case Nil
  then show ?case by simp
next
  case (Cons r rs)
  have fin: "readers_finish c (co_run r)" and tries: "limit < length (co_tries r)"
    using Cons.prems(7) readers_finish_any by auto
  define st1 where "st1 = announce_history (CommandStarted (co_id r) (next_run (su_run st))) (st\<lparr>su_run := next_run (su_run st)\<rparr>)"
  obtain outcome s killed where inst:
    "run_command_instance env (co_id r) limits c (co_run r) (su_sink st1, su_killed st1) = Some (outcome, s, killed)"
    using run_command_instance_returns [OF assms(1,2) fin] by (metis option.exhaust surj_pair)
  note turn = supervise.simps(2) [of env limits d bounds c st r rs, unfolded Let_def, folded next_run_def,
      folded st1_def, unfolded inst]
  show ?case
  proof (cases outcome)
    case (InstanceExited status n)
    define st3 where "st3 = announce_history (CommandExited (co_id r) (Option.bind status es_code)
         (case status of None \<Rightarrow> False | Some x \<Rightarrow> es_success x))
       (st1\<lparr>su_sink := s, su_killed := killed, su_discarded := su_discarded st1 + n\<rparr>)"
    have "window_inv limit window (su_window st3) g t0" using Cons.prems(1) by (simp add: st3_def st1_def)
    moreover have "sorted (t0 # map rt_now (co_tries r))" "in_span lo window (map rt_now (co_tries r))"
      using Cons.prems(4,5) by (auto simp: decision_instants_def sorted_append)
    ultimately obtain answer st4 where loop:
      "restart_loop env d bounds (co_id r) (map_option es_success status) st3 (co_tries r) = Some (answer, st4)"
      "case answer of Inl cc \<Rightarrow> True
       | Inr c \<Rightarrow> \<exists>g' t'. window_inv limit window (su_window st4) g' t' \<and> in_span lo window g'
           \<and> length g < length g' \<and> length g' \<le> limit \<and> t' \<in> set (map rt_now (co_tries r))"
      using restart_loop_returns [of limit window st3 g t0 lo "co_tries r" env d bounds "co_id r"
          "map_option es_success status"] Cons.prems(2,3) tries by auto
    show ?thesis
    proof (cases answer)
      case (Inl cc)
      then show ?thesis using turn InstanceExited loop(1) by (simp add: st3_def)
    next
      case (Inr c2)
      then obtain g' t' where g': "window_inv limit window (su_window st4) g' t'" "in_span lo window g'"
        "length g < length g'" "length g' \<le> limit" "t' \<in> set (map rt_now (co_tries r))"
        using loop(2) by auto
      have "sorted (t' # decision_instants rs)"
        using Cons.prems(4) g'(5) by (auto simp: decision_instants_def sorted_append)
      then have "supervise env limits d bounds c2 st4 rs \<noteq> None"
        using g' Cons.prems(5-7) by (intro Cons.IH [of st4 g' t']) (auto simp: decision_instants_def)
      then show ?thesis using turn InstanceExited loop(1) Inr by (simp add: st3_def)
    qed
  qed (use turn in simp_all)
qed

section \<open>A sample capture\<close>

text \<open>A command that prints one line on each of its outputs and fails, again and again.\<close>

definition sample_env :: capture_env where
  "sample_env = \<lparr>ce_memchr = find_byte, ce_deliver = \<lambda>_. True, ce_clock = \<lambda>_. ((\<lambda>_. 0), 0)\<rparr>"

definition sample_limits :: capture_limits where
  "sample_limits = \<lparr>cl_channel_capacity = 8, cl_read_chunk_bytes = 4, cl_maximum_record_bytes = 9,
     cl_poll_interval = 5, cl_partial_flush_interval = 5, cl_history_capacity = 1\<rparr>"

definition sample_command :: command_definition where
  "sample_command = \<lparr>cd_program = Shell ''date; exit 1'', cd_cwd = None, cd_environment = [],
     cd_restart = OnFailure\<rparr>"

definition sample_child :: child where
  "sample_child = \<lparr>ch_id = Some 77, ch_stdout = True, ch_stderr = True\<rparr>"

definition sample_round :: "nat \<Rightarrow> nat \<Rightarrow> command_round" where
  "sample_round now tries = \<lparr>co_id = [1],
     co_run = \<lparr>rs_before = [StdoutRound (ReadBytes [97]), StderrRound (ReadBytes [98, LF]), StdoutRound (ReadBytes [LF])],
       rs_end = RunExited (Inr \<lparr>es_code = Some 1, es_success = False\<rparr>), rs_cancelled = False,
       rs_after = [StderrRound (ReadBytes []), StdoutRound (ReadBytes [])]\<rparr>,
     co_tries = replicate tries \<lparr>rt_now = now, rt_wait = Waited, rt_cancelled = False, rt_spawn = \<lambda>spec. Inr sample_child\<rparr>\<rparr>"

definition sample_bounds :: "nat \<Rightarrow> restart_bounds" where
  "sample_bounds maximum = \<lparr>rb_backoff = backoff_default, rb_maximum_restarts = maximum, rb_window = 60\<rparr>"

lemma sample_simps [simp]:
  "limits_valid sample_limits" "memchr_ok (ce_memchr sample_env)" "ce_deliver sample_env i" "piped sample_child"
  "rb_maximum_restarts (sample_bounds n) = n" "rb_window (sample_bounds n) = 60"
  "spawns_piped d (sample_round now tries)"
  "readers_finish c (co_run (sample_round now tries))" "length (co_tries (sample_round now tries)) = tries"
  "map rt_now (co_tries (sample_round now tries)) = replicate tries now"
  by (simp_all add: limits_valid_def sample_limits_def sample_env_def piped_def sample_child_def sample_bounds_def
      spawns_piped_def sample_round_def spawn_child_def list_all_iff readers_finish_def reader_round_def ends_loop_def)

lemma sample_tries: "co_tries (sample_round now (Suc n)) \<noteq> []"
  by (simp add: sample_round_def)

lemma supervised_spec:
  assumes "limits_valid limits" "memchr_ok (ce_memchr env)"
    and "run_command_supervised env limits d bounds j first script = Some (cc, st)"
  shows "supervised env d (rb_maximum_restarts bounds) first (start_supervision bounds j) script cc
    (su_history st) (sk_events (su_sink st))"
  using supervise_spec [OF assms(1,2) assms(3) [unfolded run_command_supervised_def]]
  by (auto simp: appends_def start_supervision_def new_sink_def)

lemma supervised_returns:
  assumes "limits_valid limits" "memchr_ok (ce_memchr env)"
    and "0 < rb_window bounds" "rb_maximum_restarts bounds \<le> maximum_tracked_attempts"
    and "sorted (decision_instants script)" "in_span lo (rb_window bounds) (decision_instants script)"
    and "rb_maximum_restarts bounds < length script"
    and "list_all (\<lambda>r. readers_finish \<lparr>ch_id = None, ch_stdout = True, ch_stderr = True\<rparr> (co_run r)
           \<and> rb_maximum_restarts bounds < length (co_tries r)) script"
  shows "run_command_supervised env limits d bounds j first script \<noteq> None"
  unfolding run_command_supervised_def
  using assms
  by (intro supervise_returns [where g = "[]" and ?t0.0 = 0 and limit = "rb_maximum_restarts bounds"
        and window = "rb_window bounds" and lo = lo])
    (auto simp: start_supervision_def window_new_def window_inv_def)

lemma sample_returns:
  obtains cc st where "run_command_supervised sample_env sample_limits sample_command (sample_bounds 1) (Jitter 1)
    sample_child [sample_round 5 2, sample_round 7 2] = Some (cc, st)"
proof -
  have instants: "decision_instants [sample_round 5 2, sample_round 7 2] = [5, 5, 7, 7]"
    by (simp add: decision_instants_def numeral_2_eq_2)
  have "run_command_supervised sample_env sample_limits sample_command (sample_bounds 1) (Jitter 1)
      sample_child [sample_round 5 2, sample_round 7 2] \<noteq> None"
    by (rule supervised_returns [where lo = 0]) (simp_all add: maximum_tracked_attempts_def instants)
  then show ?thesis using that by auto
qed

section \<open>What the history leaves out, and a consumer that left\<close>

text \<open>A run that is stopped or aborted ends with its start as the last word of the history: its
  exit is published as an event, but not as history.\<close>

lemma stopped_run_exit_unpublished:
  assumes "run_command_instance env (co_id r) limits c (co_run r) (su_sink st, su_killed st) = Some (outcome, s, killed)"
    and "outcome = InstanceHalted n \<or> outcome = InstanceAborted n"
  shows "\<exists>cc st'. supervise env limits d bounds c st (r # rs) = Some (cc, st')
    \<and> su_history st' = su_history st @ [CommandStarted (co_id r) (next_run (su_run st))]"
  using assms by (auto simp: Let_def announce_history_def next_run_def)

text \<open>The wait before a restart does not watch the consumer: it has been gone since the first run
  was started, and the command is launched a second time, only to be killed.\<close>

lemma consumer_gone_command_relaunched:
  "map_option (\<lambda>(cc, st). (cc_aborted cc, started_ids (su_history st), su_killed st))
     (run_command_supervised (sample_env\<lparr>ce_deliver := \<lambda>i. i = 0\<rparr>) sample_limits sample_command (sample_bounds 1)
        (Jitter 1) sample_child
        [(sample_round 5 1)\<lparr>co_run := \<lparr>rs_before = [], rs_end = RunExited (Inr \<lparr>es_code = Some 1, es_success = False\<rparr>),
           rs_cancelled = False, rs_after = [StdoutRound (ReadBytes []), StderrRound (ReadBytes [])]\<rparr>\<rparr>,
         sample_round 7 1])
   = Some (True, [[1], [1]], [77, 77])"
  by (simp add: run_command_supervised_def start_supervision_def sample_round_def sample_env_def sample_limits_def
      sample_child_def sample_command_def sample_bounds_def run_command_instance_def emit_def new_sink_def
      kill_process_group_def terminate_child_tree_def task_round_def stream_round_def loop_finish_def tick_clock_def
      framer_finish_def framer_new_def emit_records_def join_reader_def exit_event_def announce_history_def decide_restart_def
      policy_restarts_def window_permits_def window_used_def window_expire_def window_new_def window_record_def
      maximum_tracked_attempts_def backoff_delay_def spawn_child_def is_start_def Let_def split: prod.split)

section \<open>Properties\<close>

text \<open>C22. The history of a supervised command is one legal life.  Its runs are numbered one after
  the other, each exit is announced for the run that was started, a restart is scheduled only
  where the policy restarts the outcome announced and is followed by the start of the next run or
  the announcement that it failed, and a refusal says what the policy says.  When capture ends
  the history stands at an end it announced, at a run that was stopped or aborted, or at a wait
  that was cut; after an announced end the capture is not reported aborted.\<close>

theorem supervised_history_is_legal:
  assumes "limits_valid limits" "memchr_ok (ce_memchr env)"
    and "run_command_supervised env limits d bounds j first script = Some (cc, st)"
  shows "\<exists>phase. life_run (cd_restart d) (rb_maximum_restarts bounds) (AwaitStart 1) (su_history st) = Some phase
    \<and> settled cc phase"
  using supervised_spec [OF assms]
  by (simp add: supervised_def start_supervision_def next_run_def u32_max_def)

theorem supervised_history_is_legal_witness:
  "\<exists>cc st phase. run_command_supervised sample_env sample_limits sample_command (sample_bounds 1) (Jitter 1)
      sample_child [sample_round 5 2, sample_round 7 2] = Some (cc, st)
    \<and> life_run OnFailure 1 (AwaitStart 1) (su_history st) = Some phase"
proof -
  obtain cc st where run: "run_command_supervised sample_env sample_limits sample_command (sample_bounds 1) (Jitter 1)
      sample_child [sample_round 5 2, sample_round 7 2] = Some (cc, st)"
    using sample_returns .
  from supervised_history_is_legal [OF _ _ run] run show ?thesis
    by (auto simp: sample_command_def)
qed

text \<open>Supervision keeps the output of every run.  With every hand-over succeeding, the events
  published are, run for run as the history announces them, that run's start followed by events
  that carry its acquisition id and no other.  What was published of the two outputs and the
  bytes reported as discarded make up exactly what all the runs wrote, so a capture that reports
  none has published both outputs of every run, in order.\<close>

theorem supervised_output_accounted:
  assumes "limits_valid limits" "memchr_ok (ce_memchr env)"
    and "run_command_supervised env limits d bounds j first script = Some (cc, st)"
    and "\<forall>i. ce_deliver env i" "piped first" "list_all (spawns_piped d) script"
  shows "let ran = take (length (started_ids (su_history st))) script;
             events = sk_events (su_sink st)
         in in_runs (started_ids (su_history st)) events
          \<and> length (stream_content Stdout events) + length (stream_content Stderr events)
              + cc_discarded_buffered_bytes cc
            = length (concat (map (output_bytes Stdout) ran)) + length (concat (map (output_bytes Stderr) ran))
          \<and> (cc_discarded_buffered_bytes cc = 0 \<longrightarrow>
               stream_content Stdout events = concat (map (output_bytes Stdout) ran)
             \<and> stream_content Stderr events = concat (map (output_bytes Stderr) ran))"
  using supervised_spec [OF assms(1-3)] assms(4-6)
  by (simp add: supervised_def start_supervision_def Let_def)

theorem supervised_output_accounted_witness:
  "\<exists>cc st. run_command_supervised sample_env sample_limits sample_command (sample_bounds 1) (Jitter 1)
      sample_child [sample_round 5 2, sample_round 7 2] = Some (cc, st)
    \<and> in_runs (started_ids (su_history st)) (sk_events (su_sink st))"
proof -
  obtain cc st where run: "run_command_supervised sample_env sample_limits sample_command (sample_bounds 1) (Jitter 1)
      sample_child [sample_round 5 2, sample_round 7 2] = Some (cc, st)"
    using sample_returns .
  from supervised_output_accounted [OF _ _ run] run show ?thesis by (simp add: Let_def)
qed

text \<open>C23. Restarts are bounded.  For a window that is not empty and a configured
  \<open>maximum_restarts\<close> of at most 1024, the number of attempts the window tracks: over decisions taken
  at non-decreasing instants that span any length of time, the history announces at most
  \<open>maximum_restarts\<close> restarts for each window begun, failed launches included.  A maximum above 1024
  is never enforced, so the bound does not hold for it (\<open>restart_budget_lost_above_tracked\<close> in
  \<open>Restart\<close>).\<close>

theorem restarts_within_budget:
  assumes "0 < rb_window bounds" "rb_maximum_restarts bounds \<le> maximum_tracked_attempts"
    and "sorted (decision_instants script)" "\<forall>t \<in> set (decision_instants script). lo \<le> t \<and> t \<le> hi"
    and "run_command_supervised env limits d bounds j first script = Some (cc, st)"
  shows "length (filter is_scheduled (su_history st)) \<le> rb_maximum_restarts bounds * ((hi - lo) div rb_window bounds + 1)"
proof -
  let ?st = "start_supervision bounds j"
  obtain calls where calls: "subseq (map snd calls) (decision_instants script)"
    "length (filter is_scheduled (su_history st)) = length (granted_by bounds ?st calls)"
    using supervise_budgeted [OF assms(5) [unfolded run_command_supervised_def]]
    by (auto simp: budgeted_def start_supervision_def)
  have sub: "set (map snd calls) \<subseteq> set (decision_instants script)"
    using calls(1) set_nths_subset by (metis subseq_conv_nths)
  have sorted: "sorted (0 # map snd calls)"
    using calls(1) assms(3) by (auto simp: subseq_conv_nths sorted_nths)
  have inv: "window_hist (rb_maximum_restarts bounds) (rb_window bounds) (su_window ?st) [] 0"
    using window_hist_new [OF assms(1,2)] by (simp add: start_supervision_def)
  show ?thesis
    unfolding calls(2)
    by (rule rb.granted_bound [of _ _ "(su_window ?st, su_jitter ?st)" 0])
      (use inv sorted assms(1,4) sub in auto)
qed

theorem restarts_within_budget_witness:
  "\<exists>cc st. run_command_supervised sample_env sample_limits sample_command (sample_bounds 1) (Jitter 1)
      sample_child [sample_round 5 2, sample_round 7 2] = Some (cc, st)
    \<and> length (filter is_scheduled (su_history st)) \<le> 1"
proof -
  obtain cc st where run: "run_command_supervised sample_env sample_limits sample_command (sample_bounds 1) (Jitter 1)
      sample_child [sample_round 5 2, sample_round 7 2] = Some (cc, st)"
    using sample_returns .
  have instants: "decision_instants [sample_round 5 2, sample_round 7 2] = [5, 5, 7, 7]"
    by (simp add: decision_instants_def numeral_2_eq_2)
  from restarts_within_budget [OF _ _ _ _ run, where lo = 5 and hi = 7] run show ?thesis
    by (simp add: instants maximum_tracked_attempts_def)
qed

text \<open>C24. A crash loop ends.  For a configured \<open>maximum_restarts\<close> of at most 1024, the number of attempts
  the window tracks: however a command fails, and however often launching it fails, when its
  decisions fall within one window and the readers of each run reach the end of their output, the
  supervisor returns after at most \<open>maximum_restarts + 1\<close> runs.  Above 1024 the budget is never
  exhausted (\<open>restart_budget_lost_above_tracked\<close> in \<open>Restart\<close>), and it need not return.\<close>

theorem crash_loop_ends:
  assumes "limits_valid limits" "memchr_ok (ce_memchr env)"
    and "0 < rb_window bounds" "rb_maximum_restarts bounds \<le> maximum_tracked_attempts"
    and "sorted (decision_instants script)" "in_span lo (rb_window bounds) (decision_instants script)"
    and "rb_maximum_restarts bounds < length script"
    and "list_all (\<lambda>r. readers_finish \<lparr>ch_id = None, ch_stdout = True, ch_stderr = True\<rparr> (co_run r)
           \<and> rb_maximum_restarts bounds < length (co_tries r)) script"
  shows "\<exists>cc st. run_command_supervised env limits d bounds j first script = Some (cc, st)"
  using supervised_returns [OF assms, of d j first] by auto

theorem crash_loop_ends_witness:
  "\<exists>cc st. run_command_supervised sample_env sample_limits sample_command (sample_bounds 0) (Jitter 1)
     sample_child [sample_round 5 1] = Some (cc, st)"
proof -
  have "decision_instants [sample_round 5 1] = [5]" by (simp add: decision_instants_def)
  then show ?thesis by (intro crash_loop_ends [where lo = 0]) (simp_all add: maximum_tracked_attempts_def sample_tries)
qed

end
