(* ===== verification/Union_Commit.thy ===== *)
theory Union_Commit
  imports Prelude "HOL-Library.AList" "HOL-Library.Char_ord" "HOL-Library.List_Lexorder"
    "HOL-Library.Multiset"
begin

text \<open>
  The worker's side of publishing a union view, \<open>crates/lvu-shared/src/union_commit.rs\<close>: the bounded
  table of commit attempts (\<open>commit\<close>, \<open>settle\<close>, \<open>status\<close>, \<open>detach_window\<close>, \<open>retire\<close>) and the fence
  equality it settles by.

  Every operation holds the table's mutex throughout, so any interleaving of handlers is a sequence of
  operations.  A hash map is an association list: nothing depends on its order.  A \<open>String\<close> is its
  bytes, and a digest is opaque.
\<close>

section \<open>Fences and requests\<close>

record fence =
  fe_source :: string
  fe_generation :: nat
  fe_high_watermark :: "nat option"

definition sort_fences :: "fence list \<Rightarrow> fence list" where
  "sort_fences fences = sort_key fe_source fences"

definition max_commit_sources :: nat where "max_commit_sources = 16"
definition max_receipts_per_window :: nat where "max_receipts_per_window = 128"
definition max_commit_windows :: nat where "max_commit_windows = 16"
definition max_nonce_bytes :: nat where "max_nonce_bytes = 128"
definition max_window_id_bytes :: nat where "max_window_id_bytes = 128"
definition max_commit_view_id_bytes :: nat where "max_commit_view_id_bytes = 256"

definition session_reset_reason :: string where
  "session_reset_reason = ''worker session reset''"

definition epoch_exhausted_reason :: string where
  "epoch_exhausted_reason = ''commit epoch exhausted''"

record commit_request =
  cq_window :: string
  cq_union :: string
  cq_generation :: nat
  cq_nonce :: string
  cq_digest :: "byte list"
  cq_frozen :: "fence list"

datatype commit_outcome =
    OutcomePending
  | Committed "fence list"
  | Stale string
  | Refused string
  | Superseded
  | NonceConflict

definition is_terminal :: "commit_outcome \<Rightarrow> bool" where
  "is_terminal outcome \<longleftrightarrow> outcome \<noteq> OutcomePending"

record commit_receipt =
  ct_session :: string
  ct_window :: string
  ct_union :: string
  ct_generation :: nat
  ct_nonce :: string
  ct_digest :: "byte list"
  ct_outcome :: commit_outcome

definition receipt_answer :: "string \<Rightarrow> commit_request \<Rightarrow> commit_outcome \<Rightarrow> commit_receipt" where
  "receipt_answer session request outcome =
    \<lparr>ct_session = session, ct_window = cq_window request, ct_union = cq_union request,
     ct_generation = cq_generation request, ct_nonce = cq_nonce request,
     ct_digest = cq_digest request, ct_outcome = outcome\<rparr>"

datatype commit_admission = Verify nat | Answer commit_outcome

datatype status_answer = StatusUnknown | StatusPending | StatusSettled commit_outcome

text \<open>The frozen fences against those the worker observes.\<close>

fun fences_moved :: "fence list \<Rightarrow> fence list \<Rightarrow> string option" where
  "fences_moved [] current = None"
| "fences_moved (f # fs) current =
    (case find (\<lambda>e. fe_source e = fe_source f) current of
       None \<Rightarrow> Some (''source '' @ fe_source f @ '' is no longer published'')
     | Some e \<Rightarrow>
         if fe_generation e \<noteq> fe_generation f
         then Some (''source '' @ fe_source f @ '' restarted during the merge'')
         else if fe_high_watermark e \<noteq> fe_high_watermark f
         then Some (''source '' @ fe_source f @ '' advanced during the merge'')
         else fences_moved fs current)"

definition verify_raw_fence :: "fence list \<Rightarrow> fence list \<Rightarrow> string + unit" where
  "verify_raw_fence frozen current =
    (case fences_moved frozen current of
       Some detail \<Rightarrow> Inl detail
     | None \<Rightarrow>
         if length current \<noteq> length frozen then Inl ''input source set changed during the merge''
         else Inr ())"

definition refresh_needed :: "fence list \<Rightarrow> fence list \<Rightarrow> bool" where
  "refresh_needed installed observed \<longleftrightarrow> (\<exists>detail. verify_raw_fence installed observed = Inl detail)"

lemma refresh_needed_code [code]:
  "refresh_needed installed observed = (case verify_raw_fence installed observed of Inl _ \<Rightarrow> True | Inr _ \<Rightarrow> False)"
  by (simp add: refresh_needed_def split: sum.splits)

definition check_request_bounds :: "commit_request \<Rightarrow> string + unit" where
  "check_request_bounds request =
    (if cq_window request = [] then Inl ''window id empty''
     else if length (cq_window request) > max_window_id_bytes then Inl ''window id oversize''
     else if length (cq_union request) > max_commit_view_id_bytes then Inl ''union view id oversize''
     else if length (cq_nonce request) > max_nonce_bytes then Inl ''nonce oversize''
     else if cq_frozen request = [] then Inl ''no remote raw sources''
     else if length (cq_frozen request) > max_commit_sources then Inl ''source fence set oversize''
     else if \<not> successively (\<lambda>a b. fe_source a < fe_source b) (cq_frozen request)
     then Inl ''fences must be sorted by source with no duplicates''
     else Inr ())"

section \<open>The table\<close>

datatype slot_outcome = SlotPending | SlotSettled commit_outcome

record union_slot =
  us_highest_generation :: nat
  us_nonce :: string
  us_digest :: "byte list"
  us_frozen :: "fence list"
  us_outcome :: slot_outcome
  us_attempt_epoch :: nat

record table_state =
  ts_retired :: bool
  ts_next_epoch :: nat
  ts_windows :: "(string \<times> (string \<times> union_slot) list) list"

definition table_new :: table_state where
  "table_new = \<lparr>ts_retired = False, ts_next_epoch = 0, ts_windows = []\<rparr>"

definition alloc_epoch :: "table_state \<Rightarrow> (nat \<times> table_state) option" where
  "alloc_epoch s =
    map_option (\<lambda>epoch. (epoch, s\<lparr>ts_next_epoch := epoch\<rparr>)) (checked_add_u64 (ts_next_epoch s) 1)"

definition table_retire :: "table_state \<Rightarrow> table_state" where
  "table_retire s = s\<lparr>ts_retired := True\<rparr>"

definition detach_window :: "string \<Rightarrow> table_state \<Rightarrow> bool \<times> table_state" where
  "detach_window window s =
    (map_of (ts_windows s) window \<noteq> None, s\<lparr>ts_windows := AList.delete window (ts_windows s)\<rparr>)"

definition window_count :: "table_state \<Rightarrow> nat" where
  "window_count s = length (ts_windows s)"

definition union_count :: "string \<Rightarrow> table_state \<Rightarrow> nat" where
  "union_count window s = (case map_of (ts_windows s) window of None \<Rightarrow> 0 | Some unions \<Rightarrow> length unions)"

definition same_attempt :: "union_slot \<Rightarrow> commit_request \<Rightarrow> bool" where
  "same_attempt slot request \<longleftrightarrow>
     us_nonce slot = cq_nonce request \<and> us_digest slot = cq_digest request \<and> us_frozen slot = cq_frozen request"

text \<open>The window's entry, made where it is missing.\<close>

definition enter_window :: "string \<Rightarrow> table_state \<Rightarrow> (string \<times> union_slot) list \<times> table_state" where
  "enter_window window s =
    (case map_of (ts_windows s) window of
       Some unions \<Rightarrow> (unions, s)
     | None \<Rightarrow> ([], s\<lparr>ts_windows := AList.update window [] (ts_windows s)\<rparr>))"

text \<open>The decision: an answer, or whether the new attempt replaces a slot.\<close>

definition probe_slot :: "commit_request \<Rightarrow> (string \<times> union_slot) list \<Rightarrow> commit_outcome + bool" where
  "probe_slot request unions =
    (case map_of unions (cq_union request) of
       None \<Rightarrow>
         if length unions \<ge> max_receipts_per_window then Inl (Refused ''union table full'') else Inr False
     | Some slot \<Rightarrow>
         if cq_generation request < us_highest_generation slot then Inl Superseded
         else if cq_generation request = us_highest_generation slot then
           (if same_attempt slot request then
              (case us_outcome slot of SlotPending \<Rightarrow> Inl OutcomePending | SlotSettled outcome \<Rightarrow> Inl outcome)
            else Inl NonceConflict)
         else if cq_nonce request = us_nonce slot then Inl NonceConflict
         else Inr True)"

text \<open>The mutation: \<open>None\<close> is one of its two \<open>expect\<close>s.\<close>

definition admit_attempt ::
  "commit_request \<Rightarrow> bool \<Rightarrow> table_state \<Rightarrow> (commit_admission \<times> table_state) option" where
  "admit_attempt request supersede s =
    (case alloc_epoch s of
       None \<Rightarrow> Some (Answer (Refused epoch_exhausted_reason), s\<lparr>ts_retired := True\<rparr>)
     | Some (epoch, s1) \<Rightarrow>
         (case map_of (ts_windows s1) (cq_window request) of
            None \<Rightarrow> None
          | Some unions \<Rightarrow>
              (case (if supersede
                     then map_option (\<lambda>slot. slot\<lparr>us_attempt_epoch := epoch,
                              us_highest_generation := cq_generation request, us_nonce := cq_nonce request,
                              us_digest := cq_digest request, us_frozen := cq_frozen request,
                              us_outcome := SlotPending\<rparr>) (map_of unions (cq_union request))
                     else Some \<lparr>us_highest_generation = cq_generation request, us_nonce = cq_nonce request,
                              us_digest = cq_digest request, us_frozen = cq_frozen request,
                              us_outcome = SlotPending, us_attempt_epoch = epoch\<rparr>) of
                 None \<Rightarrow> None
               | Some slot \<Rightarrow>
                   Some (Verify epoch, s1\<lparr>ts_windows :=
                     AList.update (cq_window request) (AList.update (cq_union request) slot unions)
                       (ts_windows s1)\<rparr>))))"

definition table_commit :: "commit_request \<Rightarrow> table_state \<Rightarrow> (commit_admission \<times> table_state) option" where
  "table_commit request s =
    (case check_request_bounds request of
       Inl reason \<Rightarrow> Some (Answer (Refused reason), s)
     | Inr _ \<Rightarrow>
         if ts_retired s then Some (Answer (Refused session_reset_reason), s)
         else if map_of (ts_windows s) (cq_window request) = None \<and> length (ts_windows s) \<ge> max_commit_windows
         then Some (Answer (Refused ''window table full''), s)
         else
           let (unions, s1) = enter_window (cq_window request) s
           in (case probe_slot request unions of
                 Inl outcome \<Rightarrow> Some (Answer outcome, s1)
               | Inr supersede \<Rightarrow> admit_attempt request supersede s1))"

text \<open>What an attempt with these frozen fences is worth when these are observed.\<close>

definition judge :: "fence list \<Rightarrow> fence list \<Rightarrow> commit_outcome" where
  "judge frozen current =
    (case verify_raw_fence frozen current of Inr _ \<Rightarrow> Committed current | Inl detail \<Rightarrow> Stale detail)"

definition find_slot :: "string \<Rightarrow> string \<Rightarrow> table_state \<Rightarrow> union_slot option" where
  "find_slot window view s = Option.bind (map_of (ts_windows s) window) (\<lambda>unions. map_of unions view)"

definition put_slot :: "string \<Rightarrow> string \<Rightarrow> union_slot \<Rightarrow> table_state \<Rightarrow> table_state" where
  "put_slot window view slot s =
    s\<lparr>ts_windows := AList.map_entry window (AList.update view slot) (ts_windows s)\<rparr>"

definition table_settle ::
  "string \<Rightarrow> string \<Rightarrow> nat \<Rightarrow> commit_request \<Rightarrow> fence list \<Rightarrow> table_state \<Rightarrow> commit_outcome \<times> table_state" where
  "table_settle window view epoch request current s =
    (if ts_retired s then (Refused session_reset_reason, s)
     else
       (case find_slot window view s of
          None \<Rightarrow> (Superseded, s)
        | Some slot \<Rightarrow>
            if us_attempt_epoch slot \<noteq> epoch \<or> \<not> same_attempt slot request then (Superseded, s)
            else (case us_outcome slot of
              SlotSettled outcome \<Rightarrow> (outcome, s)
            | SlotPending \<Rightarrow>
                let outcome = judge (us_frozen slot) current
                in (outcome, put_slot window view (slot\<lparr>us_outcome := SlotSettled outcome\<rparr>) s))))"

definition table_status ::
  "string \<Rightarrow> string \<Rightarrow> nat \<Rightarrow> string \<Rightarrow> byte list \<Rightarrow> table_state \<Rightarrow> status_answer" where
  "table_status window view generation nonce digest s =
    (if ts_retired s then StatusUnknown
     else
       (case find_slot window view s of
          None \<Rightarrow> StatusUnknown
        | Some slot \<Rightarrow>
            if generation < us_highest_generation slot then StatusSettled Superseded
            else if generation > us_highest_generation slot then StatusUnknown
            else if us_nonce slot \<noteq> nonce \<or> us_digest slot \<noteq> digest then StatusSettled NonceConflict
            else (case us_outcome slot of
              SlotPending \<Rightarrow> StatusPending
            | SlotSettled outcome \<Rightarrow> StatusSettled outcome)))"

section \<open>What has happened to a table\<close>

text \<open>An operation with its answer.  A history has the newest first.\<close>

datatype table_event =
    Committing commit_request commit_admission
  | Settling string string nat commit_request "fence list" commit_outcome
  | Asking string string nat string "byte list" status_answer
  | Detaching string bool
  | Retiring

inductive table_history :: "table_event list \<Rightarrow> table_state \<Rightarrow> bool" where
  history_new: "table_history [] table_new"
| history_commit: "table_history tr s \<Longrightarrow> table_commit r s = Some (a, s') \<Longrightarrow> table_history (Committing r a # tr) s'"
| history_settle: "table_history tr s \<Longrightarrow> table_settle w v e r current s = (out, s')
    \<Longrightarrow> table_history (Settling w v e r current out # tr) s'"
| history_status: "table_history tr s \<Longrightarrow> a = table_status w v g n d s \<Longrightarrow> table_history (Asking w v g n d a # tr) s"
| history_detach: "table_history tr s \<Longrightarrow> detach_window w s = (held, s') \<Longrightarrow> table_history (Detaching w held # tr) s'"
| history_retire: "table_history tr s \<Longrightarrow> table_history (Retiring # tr) (table_retire s)"

inductive_cases history_ConsE: "table_history (ev # tr) s"

text \<open>A verdict settles an attempt; the other answers of \<open>settle\<close> say that it was displaced.\<close>

fun is_verdict :: "commit_outcome \<Rightarrow> bool" where
  "is_verdict (Committed _) = True"
| "is_verdict (Stale _) = True"
| "is_verdict _ = False"

fun admits :: "string \<Rightarrow> string \<Rightarrow> table_event \<Rightarrow> bool" where
  "admits w v (Committing r (Verify _)) = (cq_window r = w \<and> cq_union r = v)"
| "admits w v _ = False"

fun disturbs :: "string \<Rightarrow> string \<Rightarrow> table_event \<Rightarrow> bool" where
  "disturbs w v (Detaching w' _) = (w' = w)"
| "disturbs w v Retiring = True"
| "disturbs w v ev = admits w v ev"

definition undisturbed :: "string \<Rightarrow> string \<Rightarrow> table_event list \<Rightarrow> bool" where
  "undisturbed w v tr \<longleftrightarrow> list_all (\<lambda>ev. \<not> disturbs w v ev) tr"

lemma undisturbed_simps [simp]:
  "undisturbed w v []"
  "undisturbed w v (ev # tr) \<longleftrightarrow> \<not> disturbs w v ev \<and> undisturbed w v tr"
  by (simp_all add: undisturbed_def)

fun verdict_of :: "string \<Rightarrow> string \<Rightarrow> nat \<Rightarrow> table_event \<Rightarrow> (fence list \<times> commit_outcome) option" where
  "verdict_of w v e (Settling w' v' e' r current out) =
     (if w' = w \<and> v' = v \<and> e' = e \<and> is_verdict out then Some (current, out) else None)"
| "verdict_of w v e _ = None"

text \<open>The first verdict of an attempt.\<close>

fun first_verdict :: "string \<Rightarrow> string \<Rightarrow> nat \<Rightarrow> table_event list \<Rightarrow> (fence list \<times> commit_outcome) option" where
  "first_verdict w v e [] = None"
| "first_verdict w v e (ev # tr) =
     (case first_verdict w v e tr of Some found \<Rightarrow> Some found | None \<Rightarrow> verdict_of w v e ev)"

lemma first_verdict_append:
  "first_verdict w v e (tr @ past) =
     (case first_verdict w v e past of Some found \<Rightarrow> Some found | None \<Rightarrow> first_verdict w v e tr)"
  by (induction tr) (auto split: option.splits)

text \<open>The attempt a history leaves current: the last admission nothing has displaced, with its epoch
  and first verdict.\<close>

fun current_attempt :: "string \<Rightarrow> string \<Rightarrow> table_event list
    \<Rightarrow> (nat \<times> commit_request \<times> (fence list \<times> commit_outcome) option) option" where
  "current_attempt w v [] = None"
| "current_attempt w v (Committing r a # tr) =
     (case a of
        Verify e \<Rightarrow> if cq_window r = w \<and> cq_union r = v then Some (e, r, None) else current_attempt w v tr
      | Answer _ \<Rightarrow> current_attempt w v tr)"
| "current_attempt w v (Settling w' v' e' r current out # tr) =
     map_option (\<lambda>(e, adm, found). (e, adm,
         case found of Some x \<Rightarrow> Some x | None \<Rightarrow> verdict_of w v e (Settling w' v' e' r current out)))
       (current_attempt w v tr)"
| "current_attempt w v (Detaching w' held # tr) = (if w' = w then None else current_attempt w v tr)"
| "current_attempt w v (Retiring # tr) = None"
| "current_attempt w v (Asking w' v' g n d a # tr) = current_attempt w v tr"

lemma current_attempt_iff:
  "current_attempt w v tr = Some (e, adm, found) \<longleftrightarrow>
     (\<exists>mid old. tr = mid @ Committing adm (Verify e) # old \<and> cq_window adm = w \<and> cq_union adm = v
        \<and> undisturbed w v mid \<and> found = first_verdict w v e mid)"
proof (induction tr arbitrary: found)
  case Nil
  then show ?case by simp
next
  case (Cons ev tr)
  have shift: "(\<exists>mid old. ev # tr = mid @ Committing adm (Verify e) # old \<and> cq_window adm = w \<and> cq_union adm = v
        \<and> undisturbed w v mid \<and> found = first_verdict w v e mid) \<longleftrightarrow>
      (ev = Committing adm (Verify e) \<and> cq_window adm = w \<and> cq_union adm = v \<and> found = None)
    \<or> (\<not> disturbs w v ev \<and> (\<exists>mid old. tr = mid @ Committing adm (Verify e) # old \<and> cq_window adm = w
        \<and> cq_union adm = v \<and> undisturbed w v mid
        \<and> found = (case first_verdict w v e mid of Some x \<Rightarrow> Some x | None \<Rightarrow> verdict_of w v e ev)))"
    (is "?lhs = (?now \<or> ?later)")
  proof
    assume ?lhs
    then obtain mid old where l: "ev # tr = mid @ Committing adm (Verify e) # old" "cq_window adm = w"
      "cq_union adm = v" "undisturbed w v mid" "found = first_verdict w v e mid" by blast
    show "?now \<or> ?later"
    proof (cases mid)
      case Nil
      then show ?thesis using l by simp
    next
      case (Cons x xs)
      then show ?thesis using l by auto
    qed
  next
    assume "?now \<or> ?later"
    then show ?lhs
    proof
      assume now: ?now
      then show ?lhs by (intro exI [of _ "[]"] exI [of _ tr]) simp
    next
      assume ?later
      then obtain mid old where l: "\<not> disturbs w v ev" "tr = mid @ Committing adm (Verify e) # old"
        "cq_window adm = w" "cq_union adm = v" "undisturbed w v mid"
        "found = (case first_verdict w v e mid of Some x \<Rightarrow> Some x | None \<Rightarrow> verdict_of w v e ev)" by blast
      show ?lhs by (rule exI [of _ "ev # mid"], rule exI [of _ old]) (use l in simp)
    qed
  qed
  have keep: "(case x of None \<Rightarrow> None | Some y \<Rightarrow> Some y) = x" for x :: "(fence list \<times> commit_outcome) option"
    by (cases x) simp_all
  show ?case
  proof (cases ev)
    case (Committing r a)
    then have none: "verdict_of w v e ev = None" by simp
    show ?thesis unfolding shift none keep using Committing by (cases a) (auto simp: Cons.IH)
  next
    case (Settling w' v' e' r current out)
    have "current_attempt w v (ev # tr) = Some (e, adm, found) \<longleftrightarrow>
      (\<exists>old. current_attempt w v tr = Some (e, adm, old)
        \<and> found = (case old of Some x \<Rightarrow> Some x | None \<Rightarrow> verdict_of w v e ev))"
      unfolding Settling by auto
    then show ?thesis unfolding shift Cons.IH using Settling by auto
  next
    case (Asking w' v' g n d a)
    then have none: "verdict_of w v e ev = None" by simp
    show ?thesis unfolding shift none keep using Asking by (simp add: Cons.IH)
  next
    case (Detaching w' held)
    then have none: "verdict_of w v e ev = None" by simp
    show ?thesis unfolding shift none keep using Detaching by (auto simp: Cons.IH)
  next
    case Retiring
    then show ?thesis unfolding shift by simp
  qed
qed

section \<open>The table is what its history says\<close>

lemma find_slot_delete:
  "find_slot w v (s\<lparr>ts_windows := AList.delete w' (ts_windows s)\<rparr>) = (if w' = w then None else find_slot w v s)"
  by (simp add: find_slot_def delete_conv')

lemma find_slot_put:
  assumes "find_slot w v s = Some old"
  shows "find_slot w' v' (put_slot w v slot s) = (if w' = w \<and> v' = v then Some slot else find_slot w' v' s)"
proof -
  obtain views where "map_of (ts_windows s) w = Some views" using assms by (auto simp: find_slot_def bind_eq_Some_conv)
  then show ?thesis by (simp add: find_slot_def put_slot_def map_of_map_entry update_conv')
qed

lemma put_slot_keeps [simp]:
  "ts_retired (put_slot w v slot s) = ts_retired s" "ts_next_epoch (put_slot w v slot s) = ts_next_epoch s"
  by (simp_all add: put_slot_def)

lemma enter_window_spec:
  assumes "enter_window w s = (views, s1)"
  shows "map_of (ts_windows s1) w = Some views" "find_slot w' v s1 = find_slot w' v s"
    "ts_retired s1 = ts_retired s" "ts_next_epoch s1 = ts_next_epoch s" "map_of views v = find_slot w v s"
  using assms by (auto simp: enter_window_def find_slot_def update_conv' split: option.splits)

definition slot_for :: "nat \<times> commit_request \<times> (fence list \<times> commit_outcome) option \<Rightarrow> union_slot" where
  "slot_for = (\<lambda>(e, adm, found).
     \<lparr>us_highest_generation = cq_generation adm, us_nonce = cq_nonce adm, us_digest = cq_digest adm,
      us_frozen = cq_frozen adm,
      us_outcome = (case found of None \<Rightarrow> SlotPending | Some (current, out) \<Rightarrow> SlotSettled out),
      us_attempt_epoch = e\<rparr>)"

text \<open>A commit is answered, and changes no slot, or is admitted under a new epoch and replaces its own.\<close>

lemma refilled_slot:
  "slot\<lparr>us_attempt_epoch := e, us_highest_generation := g, us_nonce := n, us_digest := d, us_frozen := f,
     us_outcome := out\<rparr> =
   \<lparr>us_highest_generation = g, us_nonce = n, us_digest = d, us_frozen = f, us_outcome = out, us_attempt_epoch = e\<rparr>"
  by (cases slot) simp

lemma admit_attempt_spec:
  assumes "map_of (ts_windows s) (cq_window r) = Some views" "supersede \<longrightarrow> map_of views (cq_union r) \<noteq> None"
  shows "if u64_max \<le> ts_next_epoch s
    then admit_attempt r supersede s = Some (Answer (Refused epoch_exhausted_reason), s\<lparr>ts_retired := True\<rparr>)
    else admit_attempt r supersede s = Some (Verify (Suc (ts_next_epoch s)),
        s\<lparr>ts_next_epoch := Suc (ts_next_epoch s), ts_windows := AList.update (cq_window r)
           (AList.update (cq_union r) (slot_for (Suc (ts_next_epoch s), r, None)) views) (ts_windows s)\<rparr>)"
proof (cases "u64_max \<le> ts_next_epoch s")
  case True
  then show ?thesis by (simp add: admit_attempt_def alloc_epoch_def checked_add_u64_def)
next
  case False
  then have "alloc_epoch s = Some (Suc (ts_next_epoch s), s\<lparr>ts_next_epoch := Suc (ts_next_epoch s)\<rparr>)"
    by (simp add: alloc_epoch_def checked_add_u64_def)
  then show ?thesis using False assms by (auto simp: admit_attempt_def refilled_slot slot_for_def)
qed

lemma table_commit_cases:
  assumes "table_commit r s = Some (a, s')"
  obtains (answered) out where "a = Answer out" "\<And>w v. find_slot w v s' = find_slot w v s"
      "ts_next_epoch s' = ts_next_epoch s" "ts_retired s \<Longrightarrow> ts_retired s'"
  | (admitted) "a = Verify (Suc (ts_next_epoch s))" "ts_next_epoch s' = Suc (ts_next_epoch s)"
      "ts_next_epoch s < u64_max" "\<not> ts_retired s" "\<not> ts_retired s'"
      "\<And>w v. find_slot w v s' = (if w = cq_window r \<and> v = cq_union r
         then Some (slot_for (Suc (ts_next_epoch s), r, None)) else find_slot w v s)"
      "\<And>slot. find_slot (cq_window r) (cq_union r) s = Some slot \<Longrightarrow>
         us_highest_generation slot < cq_generation r \<and> us_nonce slot \<noteq> cq_nonce r"
proof -
  obtain views s1 where en: "enter_window (cq_window r) s = (views, s1)" by (metis surj_pair)
  note e = enter_window_spec [OF en]
  consider (early) out where "a = Answer out" "s' = s"
    | (probed) out where "a = Answer out" "s' = s1"
    | (admit) supersede where "\<not> ts_retired s" "probe_slot r views = Inr supersede" "admit_attempt r supersede s1 = Some (a, s')"
    using assms en by (auto simp: table_commit_def Let_def split: sum.splits if_splits)
  then show thesis
  proof cases
    case early
    then show thesis using answered by blast
  next
    case probed
    then show thesis using answered e by simp
  next
    case admit
    have replaced: "supersede \<longrightarrow> map_of views (cq_union r) \<noteq> None"
      "\<And>slot. map_of views (cq_union r) = Some slot \<Longrightarrow>
         us_highest_generation slot < cq_generation r \<and> us_nonce slot \<noteq> cq_nonce r"
      using admit(2) by (auto simp: probe_slot_def split: option.splits if_splits slot_outcome.splits)
    note ad = admit_attempt_spec [OF e(1) replaced(1)]
    show thesis
    proof (cases "u64_max \<le> ts_next_epoch s1")
      case True
      then have "a = Answer (Refused epoch_exhausted_reason)" "s' = s1\<lparr>ts_retired := True\<rparr>" using ad admit(3) by simp_all
      then show thesis using answered e by (simp add: find_slot_def)
    next
      case False
      then have a: "a = Verify (Suc (ts_next_epoch s1))"
        and s': "s' = s1\<lparr>ts_next_epoch := Suc (ts_next_epoch s1), ts_windows := AList.update (cq_window r)
           (AList.update (cq_union r) (slot_for (Suc (ts_next_epoch s1), r, None)) views) (ts_windows s1)\<rparr>"
        using ad admit(3) by simp_all
      have slots: "find_slot w v s' = (if w = cq_window r \<and> v = cq_union r
         then Some (slot_for (Suc (ts_next_epoch s), r, None)) else find_slot w v s)" for w v
        using e(1,4,5) e(2) [of w v] unfolding s' find_slot_def
        by (cases "w = cq_window r") (simp_all add: update_conv')
      show thesis
        by (rule admitted) (use a s' slots e False admit(1) replaced(2) in \<open>auto simp: e(4)\<close>)
    qed
  qed
qed

lemma table_settle_cases:
  assumes "table_settle w v e r current s = (out, s')"
  obtains (displaced) "\<not> is_verdict out" "s' = s"
    "\<And>slot. \<not> ts_retired s \<Longrightarrow> find_slot w v s = Some slot \<Longrightarrow> us_attempt_epoch slot = e \<Longrightarrow> \<not> same_attempt slot r"
  | (odd) slot where "s' = s" "\<not> ts_retired s" "find_slot w v s = Some slot" "us_attempt_epoch slot = e"
      "same_attempt slot r" "us_outcome slot = SlotSettled out"
  | (settled) slot where "\<not> ts_retired s" "find_slot w v s = Some slot" "us_attempt_epoch slot = e"
      "same_attempt slot r" "us_outcome slot = SlotPending" "out = judge (us_frozen slot) current"
      "s' = put_slot w v (slot\<lparr>us_outcome := SlotSettled out\<rparr>) s"
  using assms by (auto simp: table_settle_def Let_def split: if_splits option.splits slot_outcome.splits)

lemma judge_verdict [simp]: "is_verdict (judge frozen current)"
  by (simp add: judge_def split: sum.splits)

definition table_follows :: "table_event list \<Rightarrow> table_state \<Rightarrow> bool" where
  "table_follows tr s \<longleftrightarrow>
     (ts_retired s \<or> (\<forall>w v. find_slot w v s = map_option slot_for (current_attempt w v tr)))
   \<and> (\<forall>w v e adm current out. current_attempt w v tr = Some (e, adm, Some (current, out))
        \<longrightarrow> out = judge (cq_frozen adm) current)"

lemma history_follows:
  assumes "table_history tr s"
  shows "table_follows tr s"
  using assms
proof induction
  case history_new
  then show ?case by (simp add: table_follows_def table_new_def find_slot_def)
next
  case (history_commit tr s r a s')
  from history_commit(2) show ?case
  proof (cases rule: table_commit_cases)
    case (answered out)
    then show ?thesis using history_commit.IH by (auto simp: table_follows_def)
  next
    case admitted
    then show ?thesis using history_commit.IH by (auto simp: table_follows_def)
  qed
next
  case (history_settle tr s w v e r current out s')
  from history_settle(2) show ?case
  proof (cases rule: table_settle_cases)
    case displaced
    have same: "current_attempt w' v' (Settling w v e r current out # tr) = current_attempt w' v' tr" for w' v'
      using displaced(1) by (cases "current_attempt w' v' tr") (auto split: option.splits)
    show ?thesis using history_settle.IH displaced(2) unfolding table_follows_def same by simp
  next
    case (odd slot)
    then obtain e' adm found where cur': "current_attempt w v tr = Some (e', adm, found)" "slot = slot_for (e', adm, found)"
      using history_settle.IH by (auto simp: table_follows_def)
    then obtain x where cur: "current_attempt w v tr = Some (e, adm, Some x)"
      using odd(4,6) by (auto simp: slot_for_def split: option.splits)
    have same: "current_attempt w' v' (Settling w v e r current out # tr) = current_attempt w' v' tr" for w' v'
      using cur by (cases "current_attempt w' v' tr") (auto split: option.splits)
    show ?thesis using history_settle.IH odd(1) unfolding table_follows_def same by simp
  next
    case (settled slot)
    obtain e' adm found where cur': "current_attempt w v tr = Some (e', adm, found)" "slot = slot_for (e', adm, found)"
      using history_settle.IH settled(1,2) by (auto simp: table_follows_def)
    then have "e' = e" "found = None" using settled(3,5) by (auto simp: slot_for_def split: option.splits)
    then have cur: "current_attempt w v tr = Some (e, adm, None)" "slot = slot_for (e, adm, None)" using cur' by simp_all
    have out: "out = judge (cq_frozen adm) current" using settled(6) cur(2) by (simp add: slot_for_def)
    have here: "current_attempt w v (Settling w v e r current out # tr) = Some (e, adm, Some (current, out))"
      using cur(1) out by simp
    have elsewhere: "current_attempt w' v' (Settling w v e r current out # tr) = current_attempt w' v' tr"
      if "\<not> (w' = w \<and> v' = v)" for w' v'
      using that by (cases "current_attempt w' v' tr") (auto split: option.splits)
    have slot': "slot\<lparr>us_outcome := SlotSettled out\<rparr> = slot_for (e, adm, Some (current, out))"
      using cur(2) by (simp add: slot_for_def)
    have "find_slot w' v' s' = map_option slot_for (current_attempt w' v' (Settling w v e r current out # tr))" for w' v'
    proof (cases "w' = w \<and> v' = v")
      case True
      then show ?thesis using here slot' settled(7) by (simp add: find_slot_put [OF settled(2)] del: current_attempt.simps)
    next
      case False
      then have "find_slot w' v' s' = find_slot w' v' s" unfolding settled(7) by (simp only: find_slot_put [OF settled(2)] if_False)
      then show ?thesis using history_settle.IH settled(1) unfolding table_follows_def elsewhere [OF False] by simp
    qed
    moreover have "out' = judge (cq_frozen adm') current'"
      if "current_attempt w' v' (Settling w v e r current out # tr) = Some (e', adm', Some (current', out'))"
      for w' v' e' adm' current' out'
    proof (cases "w' = w \<and> v' = v")
      case True
      then show ?thesis using that here out by (simp del: current_attempt.simps)
    next
      case False
      then show ?thesis using that history_settle.IH unfolding table_follows_def elsewhere [OF False] by blast
    qed
    ultimately show ?thesis unfolding table_follows_def by blast
  qed
next
  case (history_status tr s a w v g n d)
  then show ?case by (simp add: table_follows_def)
next
  case (history_detach tr s w held s')
  then show ?case by (auto simp: table_follows_def detach_window_def find_slot_delete)
next
  case (history_retire tr s)
  then show ?case by (simp add: table_follows_def table_retire_def)
qed

section \<open>Epochs\<close>

fun admitted_epochs :: "table_event list \<Rightarrow> nat list" where
  "admitted_epochs [] = []"
| "admitted_epochs (Committing r (Verify e) # tr) = e # admitted_epochs tr"
| "admitted_epochs (ev # tr) = admitted_epochs tr"

lemma admitted_epochs_append: "admitted_epochs (tr @ past) = admitted_epochs tr @ admitted_epochs past"
  by (induction tr rule: admitted_epochs.induct) auto

lemma admitted_epoch_iff: "e \<in> set (admitted_epochs tr) \<longleftrightarrow> (\<exists>r. Committing r (Verify e) \<in> set tr)"
  by (induction tr rule: admitted_epochs.induct) auto

lemma settle_keeps:
  "table_settle w v e r current s = (out, s') \<Longrightarrow>
     ts_next_epoch s' = ts_next_epoch s \<and> ts_retired s' = ts_retired s"
  by (erule table_settle_cases) simp_all

lemma history_epochs:
  assumes "table_history tr s"
  shows "sorted_wrt (>) (admitted_epochs tr) \<and> (\<forall>e \<in> set (admitted_epochs tr). e \<le> ts_next_epoch s)
    \<and> ts_next_epoch s \<le> u64_max"
  using assms
proof induction
  case (history_commit tr s r a s')
  from history_commit(2) show ?case
  proof (cases rule: table_commit_cases)
    case (answered out)
    then show ?thesis using history_commit.IH by simp
  next
    case admitted
    then show ?thesis using history_commit.IH admitted(1,2,3) by (simp add: less_Suc_eq_le le_SucI)
  qed
next
  case (history_settle tr s w v e r current out s')
  then show ?case using settle_keeps by simp
qed (auto simp: table_new_def detach_window_def table_retire_def)

lemma history_suffix: "table_history (later @ tr) s \<Longrightarrow> \<exists>s'. table_history tr s'"
proof (induction later arbitrary: s)
  case (Cons ev later)
  then show ?case by (auto elim!: history_ConsE)
qed auto

lemma falling_distinct: "sorted_wrt (>) xs \<Longrightarrow> distinct xs" for xs :: "nat list"
  by (induction xs) auto

text \<open>Where an epoch was granted is unique.\<close>

lemma epoch_granted_once:
  assumes "table_history (later @ Committing adm (Verify e) # old) s"
    and "later @ Committing adm (Verify e) # old = later' @ Committing adm' (Verify e) # old'"
  shows "later = later' \<and> adm = adm' \<and> old = old'"
proof -
  let ?P = "\<lambda>ev. \<exists>r. ev = Committing r (Verify e)"
  have d: "distinct (admitted_epochs (later @ Committing adm (Verify e) # old))"
    using history_epochs [OF assms(1)] falling_distinct by blast
  have "\<not> list_ex ?P later" using d by (auto simp: admitted_epochs_append list_ex_iff admitted_epoch_iff)
  moreover have "\<not> list_ex ?P later'"
    using d unfolding assms(2) by (auto simp: admitted_epochs_append list_ex_iff admitted_epoch_iff)
  ultimately have "takeWhile (\<lambda>ev. \<not> ?P ev) (later @ Committing adm (Verify e) # old) = later"
    "takeWhile (\<lambda>ev. \<not> ?P ev) (later' @ Committing adm' (Verify e) # old') = later'"
    by (auto simp: takeWhile_append list_ex_iff)
  then show ?thesis using assms(2) by auto
qed

section \<open>Equal fences\<close>

lemma fences_moved_None:
  "fences_moved frozen current = None \<longleftrightarrow>
     (\<forall>f \<in> set frozen. find (\<lambda>e. fe_source e = fe_source f) current = Some f)"
proof (induction frozen)
  case (Cons f fs)
  show ?case
  proof (cases "find (\<lambda>e. fe_source e = fe_source f) current")
    case None
    then show ?thesis by simp
  next
    case (Some e)
    then have "fe_source e = fe_source f" by (auto simp: find_Some_iff)
    then have "e = f \<longleftrightarrow> fe_generation e = fe_generation f \<and> fe_high_watermark e = fe_high_watermark f"
      by (cases e, cases f) auto
    then show ?thesis using Some Cons.IH by auto
  qed
qed simp

lemma find_own_source:
  "distinct (map fe_source fences) \<Longrightarrow> f \<in> set fences \<Longrightarrow> find (\<lambda>e. fe_source e = fe_source f) fences = Some f"
  by (induction fences) auto

lemma mset_set_set_subset: "distinct xs \<Longrightarrow> set xs \<subseteq> set ys \<Longrightarrow> mset xs \<subseteq># mset ys"
  by (metis finite_set mset_set_set mset_set_set_mset_msubset msubset_mset_set_iff set_mset_mset subset_mset.order_trans)

lemma verify_raw_fence_iff:
  assumes "distinct (map fe_source frozen)"
  shows "verify_raw_fence frozen current = Inr () \<longleftrightarrow> mset frozen = mset current"
proof
  assume "verify_raw_fence frozen current = Inr ()"
  then have "fences_moved frozen current = None" and len: "length current = length frozen"
    by (auto simp: verify_raw_fence_def split: option.splits if_splits)
  then have "set frozen \<subseteq> set current" by (auto simp: fences_moved_None find_Some_iff)
  then have "mset frozen \<subseteq># mset current"
    using assms distinct_map mset_set_set_subset [of frozen current] by blast
  then show "mset frozen = mset current" using len by (metis mset_subset_size order_less_irrefl size_mset subset_mset.le_imp_less_or_eq)
next
  assume eq: "mset frozen = mset current"
  then have "mset (map fe_source frozen) = mset (map fe_source current)" by simp
  then have "distinct (map fe_source current)" using assms by (metis mset_eq_imp_distinct_iff)
  moreover have "set frozen = set current" using eq by (metis set_mset_mset)
  ultimately have "fences_moved frozen current = None" by (auto simp: fences_moved_None intro: find_own_source)
  moreover have "length current = length frozen" using eq by (metis size_mset)
  ultimately show "verify_raw_fence frozen current = Inr ()" by (simp add: verify_raw_fence_def)
qed

lemma bounded_request:
  assumes "check_request_bounds r = Inr u"
  shows "distinct (map fe_source (cq_frozen r))" "length (cq_frozen r) \<le> max_commit_sources"
proof -
  have "successively (\<lambda>a b. fe_source a < fe_source b) (cq_frozen r)" "length (cq_frozen r) \<le> max_commit_sources"
    using assms by (auto simp: check_request_bounds_def split: if_splits)
  then have "sorted_wrt (\<lambda>a b. fe_source a < fe_source b) (cq_frozen r)"
    by (subst successively_conv_sorted_wrt [symmetric]) (auto simp: transp_def)
  then have "sorted_wrt (<) (map fe_source (cq_frozen r))" by (simp add: sorted_wrt_map)
  then show "distinct (map fe_source (cq_frozen r))" by (simp add: strict_sorted_iff)
  show "length (cq_frozen r) \<le> max_commit_sources" by fact
qed

section \<open>One verdict for each attempt\<close>

lemma follows_verdict:
  "table_follows tr s \<Longrightarrow> current_attempt w v tr = Some (e, adm, Some (current, out))
    \<Longrightarrow> out = judge (cq_frozen adm) current"
  unfolding table_follows_def by blast

lemma history_at:
  assumes "table_history (later @ ev # earlier) s"
  obtains s0 s1 where "table_history earlier s0" "table_history (ev # earlier) s1"
proof -
  obtain s1 where one: "table_history (ev # earlier) s1" using history_suffix [OF assms] by blast
  then obtain s0 where "table_history earlier s0" using history_suffix [of "[ev]" earlier s1] by auto
  then show thesis using one that by blast
qed

lemma admitted_request_bounded:
  assumes "table_history tr s" "Committing r (Verify e) \<in> set tr"
  shows "check_request_bounds r = Inr ()"
  using assms by induction (auto simp: table_commit_def split: sum.splits)

lemma verdict_judges:
  assumes "table_history (Settling w v e r current out # tr) s" "is_verdict out"
  shows "\<exists>mid old adm observed. tr = mid @ Committing adm (Verify e) # old
    \<and> cq_window adm = w \<and> cq_union adm = v \<and> cq_nonce adm = cq_nonce r \<and> cq_digest adm = cq_digest r
    \<and> cq_frozen adm = cq_frozen r \<and> undisturbed w v mid
    \<and> first_verdict w v e (Settling w v e r current out # mid) = Some (observed, out)
    \<and> out = judge (cq_frozen r) observed"
proof -
  obtain s0 where h: "table_history tr s0" and st: "table_settle w v e r current s0 = (out, s)"
    using assms(1) by (auto elim!: history_ConsE)
  obtain slot where slot: "\<not> ts_retired s0" "find_slot w v s0 = Some slot" "us_attempt_epoch slot = e"
    "same_attempt slot r"
    using st assms(2) by (cases rule: table_settle_cases) auto
  obtain e' adm found where cur': "current_attempt w v tr = Some (e', adm, found)" "slot = slot_for (e', adm, found)"
    using history_follows [OF h] slot(1,2) by (auto simp: table_follows_def)
  then have cur: "current_attempt w v tr = Some (e, adm, found)" using slot(3) by (simp add: slot_for_def)
  have same: "cq_nonce adm = cq_nonce r" "cq_digest adm = cq_digest r" "cq_frozen adm = cq_frozen r"
    using slot(4) cur'(2) by (simp_all add: same_attempt_def slot_for_def)
  obtain mid old where mid: "tr = mid @ Committing adm (Verify e) # old" "cq_window adm = w" "cq_union adm = v"
    "undisturbed w v mid" "found = first_verdict w v e mid"
    using cur unfolding current_attempt_iff by blast
  have now: "current_attempt w v (Settling w v e r current out # tr)
      = Some (e, adm, Some (case found of Some x \<Rightarrow> x | None \<Rightarrow> (current, out)))"
    using cur assms(2) by (simp split: option.splits)
  obtain observed where obs: "(case found of Some x \<Rightarrow> x | None \<Rightarrow> (current, out)) = (observed, out)"
  proof (cases found)
    case None
    then show thesis using that by simp
  next
    case (Some x)
    then have "us_outcome slot = SlotSettled (snd x)" using cur'(2) by (simp add: slot_for_def split_beta)
    then have "out = snd x" using st slot by (simp add: table_settle_def)
    then show thesis using that [of "fst x"] Some by simp
  qed
  have "out = judge (cq_frozen r) observed"
    using follows_verdict [OF history_follows [OF assms(1)] now [unfolded obs]] same(3) by simp
  moreover have "first_verdict w v e (Settling w v e r current out # mid) = Some (observed, out)"
    using obs mid(5) assms(2) by (auto split: option.splits)
  ultimately show ?thesis using mid same by blast
qed

lemma later_verdict_agrees:
  assumes "table_history (Settling w v e r current out # tr) s" "is_verdict out"
    and "Settling w v e r' current' out' \<in> set tr" "is_verdict out'"
  shows "out = out'"
proof -
  obtain mid old adm observed where a: "tr = mid @ Committing adm (Verify e) # old"
    "first_verdict w v e (Settling w v e r current out # mid) = Some (observed, out)"
    using verdict_judges [OF assms(1,2)] by blast
  obtain x y where split: "tr = x @ Settling w v e r' current' out' # y" using assms(3) by (meson split_list)
  obtain s0 where h: "table_history tr s0" using history_suffix [of "[Settling w v e r current out]" tr s] assms(1) by auto
  obtain s1 where "table_history (Settling w v e r' current' out' # y) s1" using history_at [OF h [unfolded split]] by blast
  then obtain mid' old' adm' observed' where b: "y = mid' @ Committing adm' (Verify e) # old'"
    "first_verdict w v e (Settling w v e r' current' out' # mid') = Some (observed', out')"
    using verdict_judges [OF _ assms(4)] by blast
  have eq: "mid @ Committing adm (Verify e) # old = (x @ Settling w v e r' current' out' # mid') @ Committing adm' (Verify e) # old'"
    using a(1) split b(1) by simp
  have "mid = x @ Settling w v e r' current' out' # mid'"
    using epoch_granted_once [OF h [unfolded a(1)] eq] by blast
  then show ?thesis using a(2) b(2) first_verdict_append [of w v e "[Settling w v e r current out] @ x"] by simp
qed

lemma verdicts_agree:
  assumes "table_history tr s" "Settling w v e r current out \<in> set tr" "Settling w v e r' current' out' \<in> set tr"
    and "is_verdict out" "is_verdict out'"
  shows "out = out'"
  using assms(1-3)
proof induction
  case (history_settle tr s w0 v0 e0 r0 current0 out0 s')
  let ?ev = "Settling w0 v0 e0 r0 current0 out0"
  have h: "table_history (?ev # tr) s'" using history_settle.hyps by (rule table_history.history_settle)
  consider (both) "Settling w v e r current out \<in> set tr" "Settling w v e r' current' out' \<in> set tr"
    | (left) "?ev = Settling w v e r current out" "Settling w v e r' current' out' \<in> set tr"
    | (right) "?ev = Settling w v e r' current' out'" "Settling w v e r current out \<in> set tr"
    | (same) "?ev = Settling w v e r current out" "?ev = Settling w v e r' current' out'"
    using history_settle.prems by auto
  then show ?case
  proof cases
    case both
    then show ?thesis by (rule history_settle.IH)
  next
    case left
    then show ?thesis using later_verdict_agrees [OF h [unfolded left(1)] assms(4) left(2) assms(5)] by simp
  next
    case right
    then show ?thesis using later_verdict_agrees [OF h [unfolded right(1)] assms(5) right(2) assms(4)] by simp
  next
    case same
    then show ?thesis by simp
  qed
qed auto

lemma judge_iff:
  assumes "distinct (map fe_source frozen)"
  shows "judge frozen observed = (if mset frozen = mset observed then Committed observed
      else Stale (case verify_raw_fence frozen observed of Inl detail \<Rightarrow> detail | Inr _ \<Rightarrow> []))"
  using verify_raw_fence_iff [OF assms, of observed] by (auto simp: judge_def split: sum.splits)

section \<open>Replay and displacement\<close>

lemma current_slot:
  assumes "table_history (mid @ Committing adm (Verify e) # old) s" "undisturbed (cq_window adm) (cq_union adm) mid"
    and "\<not> ts_retired s"
  shows "find_slot (cq_window adm) (cq_union adm) s
    = Some (slot_for (e, adm, first_verdict (cq_window adm) (cq_union adm) e mid))"
proof -
  have "current_attempt (cq_window adm) (cq_union adm) (mid @ Committing adm (Verify e) # old)
    = Some (e, adm, first_verdict (cq_window adm) (cq_union adm) e mid)"
    unfolding current_attempt_iff using assms(2) by blast
  then show ?thesis using history_follows [OF assms(1)] assms(3) by (simp add: table_follows_def)
qed

lemma replay_commit:
  assumes "check_request_bounds adm = Inr ()" "\<not> ts_retired s"
    and "find_slot (cq_window adm) (cq_union adm) s = Some (slot_for (e, adm, found))"
  shows "table_commit adm s = Some (Answer (case found of None \<Rightarrow> OutcomePending | Some (_, out) \<Rightarrow> out), s)"
proof -
  obtain views where views: "map_of (ts_windows s) (cq_window adm) = Some views"
    "map_of views (cq_union adm) = Some (slot_for (e, adm, found))"
    using assms(3) by (auto simp: find_slot_def bind_eq_Some_conv)
  show ?thesis
    using assms(1,2) views
    by (auto simp: table_commit_def enter_window_def probe_slot_def same_attempt_def slot_for_def split: option.splits)
qed

lemma displaced_settle:
  assumes "table_history (mid @ Committing adm (Verify e) # old) s" "\<not> undisturbed (cq_window adm) (cq_union adm) mid"
    and "\<not> ts_retired s"
  shows "table_settle (cq_window adm) (cq_union adm) e r current s = (Superseded, s)"
proof (cases "find_slot (cq_window adm) (cq_union adm) s")
  case None
  then show ?thesis using assms(3) by (simp add: table_settle_def)
next
  case (Some slot)
  let ?w = "cq_window adm" and ?v = "cq_union adm"
  obtain e' adm' found where cur: "current_attempt ?w ?v (mid @ Committing adm (Verify e) # old) = Some (e', adm', found)"
    "slot = slot_for (e', adm', found)"
    using history_follows [OF assms(1)] assms(3) Some by (auto simp: table_follows_def)
  then obtain mid' old' where split: "mid @ Committing adm (Verify e) # old = mid' @ Committing adm' (Verify e') # old'"
    "undisturbed ?w ?v mid'"
    unfolding current_attempt_iff by blast
  have "e' \<noteq> e"
  proof
    assume "e' = e"
    then have "mid = mid'" using epoch_granted_once [OF assms(1)] split(1) by blast
    then show False using split(2) assms(2) by simp
  qed
  then show ?thesis using Some assms(3) cur(2) by (simp add: table_settle_def slot_for_def)
qed

section \<open>Bounds\<close>

definition slots_bounded :: "(string \<times> union_slot) list \<Rightarrow> bool" where
  "slots_bounded views \<longleftrightarrow>
     distinct (map fst views) \<and> length views \<le> max_receipts_per_window
   \<and> list_all (\<lambda>(v, slot). length (us_frozen slot) \<le> max_commit_sources) views"

definition table_bounded :: "table_state \<Rightarrow> bool" where
  "table_bounded s \<longleftrightarrow>
     distinct (map fst (ts_windows s)) \<and> window_count s \<le> max_commit_windows
   \<and> list_all (\<lambda>(w, views). slots_bounded views) (ts_windows s)"

lemma length_update:
  "length (AList.update k x al) = (if map_of al k = None then Suc (length al) else length al)"
  by (induction al) auto

lemma list_all_update: "list_all P al \<Longrightarrow> P (k, x) \<Longrightarrow> list_all P (AList.update k x al)"
  by (induction al) auto

lemma list_all_delete: "list_all P al \<Longrightarrow> list_all P (AList.delete k al)"
  by (induction al) auto

lemma list_all_map_entry:
  "list_all P al \<Longrightarrow> (\<And>x. map_of al k = Some x \<Longrightarrow> P (k, x) \<Longrightarrow> P (k, f x)) \<Longrightarrow> list_all P (AList.map_entry k f al)"
  by (induction al) auto

lemma list_all_map_of: "list_all P al \<Longrightarrow> map_of al k = Some x \<Longrightarrow> P (k, x)"
  by (auto simp: list_all_iff dest: map_of_SomeD)

lemma length_delete_le: "length (AList.delete k al) \<le> length al"
  by (induction al) auto

lemma commit_bounded:
  assumes "table_commit r s = Some (a, s')" "table_bounded s"
  shows "table_bounded s'"
proof -
  obtain views s1 where en: "enter_window (cq_window r) s = (views, s1)" by (metis surj_pair)
  note e = enter_window_spec [OF en]
  consider (early) "s' = s"
    | (entered) "check_request_bounds r = Inr ()" "\<not> (map_of (ts_windows s) (cq_window r) = None \<and> length (ts_windows s) \<ge> max_commit_windows)"
        "s' = s1 \<or> (\<exists>supersede. probe_slot r views = Inr supersede \<and> admit_attempt r supersede s1 = Some (a, s'))"
    using assms(1) en by (auto simp: table_commit_def Let_def split: sum.splits if_splits)
  then show ?thesis
  proof cases
    case early
    then show ?thesis using assms(2) by simp
  next
    case entered
    have s1: "table_bounded s1" and views: "slots_bounded views"
    proof -
      show "table_bounded s1"
        using assms(2) entered(2) en
        by (auto simp: enter_window_def table_bounded_def window_count_def length_update distinct_update slots_bounded_def
            intro!: list_all_update split: option.splits)
      then show "slots_bounded views"
        using e(1) list_all_map_of [of "\<lambda>(w, views). slots_bounded views" "ts_windows s1" "cq_window r" views]
        by (simp add: table_bounded_def)
    qed
    show ?thesis
    proof (cases "s' = s1")
      case True
      then show ?thesis using s1 by simp
    next
      case False
      then obtain supersede where pr: "probe_slot r views = Inr supersede" and ad: "admit_attempt r supersede s1 = Some (a, s')"
        using entered(3) by blast
      have replaced: "supersede \<longrightarrow> map_of views (cq_union r) \<noteq> None"
        and room: "map_of views (cq_union r) = None \<longrightarrow> length views < max_receipts_per_window"
        using pr by (auto simp: probe_slot_def split: option.splits if_splits slot_outcome.splits)
      define slot where "slot = slot_for (Suc (ts_next_epoch s1), r, None)"
      have small: "length (us_frozen slot) \<le> max_commit_sources"
        using bounded_request(2) [OF entered(1)] by (simp add: slot_def slot_for_def)
      have new: "slots_bounded (AList.update (cq_union r) slot views)"
        using views small room
        by (auto simp: slots_bounded_def length_update distinct_update intro!: list_all_update)
      show ?thesis
      proof (cases "u64_max \<le> ts_next_epoch s1")
        case True
        then have "s' = s1\<lparr>ts_retired := True\<rparr>" using admit_attempt_spec [OF e(1) replaced] ad by simp
        then show ?thesis using s1 by (simp add: table_bounded_def window_count_def)
      next
        case False
        then have "s' = s1\<lparr>ts_next_epoch := Suc (ts_next_epoch s1),
            ts_windows := AList.update (cq_window r) (AList.update (cq_union r) slot views) (ts_windows s1)\<rparr>"
          using admit_attempt_spec [OF e(1) replaced] ad by (simp add: slot_def)
        then show ?thesis
          using s1 new e(1)
          by (auto simp: table_bounded_def window_count_def length_update distinct_update intro!: list_all_update)
      qed
    qed
  qed
qed

lemma keys_map_entry: "map fst (AList.map_entry k f al) = map fst al"
  by (induction al) auto

lemma length_map_entry: "length (AList.map_entry k f al) = length al"
  by (induction al) auto

lemma put_slot_bounded:
  assumes "table_bounded s" "find_slot w v s = Some old" "length (us_frozen slot) \<le> max_commit_sources"
  shows "table_bounded (put_slot w v slot s)"
proof -
  obtain views where views: "map_of (ts_windows s) w = Some views" "map_of views v = Some old"
    using assms(2) by (auto simp: find_slot_def bind_eq_Some_conv)
  have "list_all (\<lambda>(w, views). slots_bounded views) (AList.map_entry w (AList.update v slot) (ts_windows s))"
  proof (rule list_all_map_entry)
    show "list_all (\<lambda>(w, views). slots_bounded views) (ts_windows s)" using assms(1) by (simp add: table_bounded_def)
  next
    fix x
    assume x: "map_of (ts_windows s) w = Some x" "case (w, x) of (w, views) \<Rightarrow> slots_bounded views"
    then have "x = views" using views(1) by simp
    then show "case (w, AList.update v slot x) of (w, views) \<Rightarrow> slots_bounded views"
      using x(2) views(2) assms(3) by (auto simp: slots_bounded_def length_update distinct_update intro!: list_all_update)
  qed
  then show ?thesis
    using assms(1) by (simp add: table_bounded_def put_slot_def window_count_def keys_map_entry length_map_entry)
qed

lemma history_bounded: "table_history tr s \<Longrightarrow> table_bounded s"
proof (induction rule: table_history.induct)
  case history_new
  then show ?case by (simp add: table_bounded_def table_new_def window_count_def)
next
  case (history_commit tr s r a s')
  then show ?case using commit_bounded by blast
next
  case (history_settle tr s w v e r current out s')
  from history_settle(2) show ?case
  proof (cases rule: table_settle_cases)
    case (settled slot)
    have "length (us_frozen slot) \<le> max_commit_sources"
    proof -
      obtain views where "map_of (ts_windows s) w = Some views" "map_of views v = Some slot"
        using settled(2) by (auto simp: find_slot_def bind_eq_Some_conv)
      then show ?thesis
        using history_settle.IH list_all_map_of [of "\<lambda>(w, views). slots_bounded views" "ts_windows s" w views]
          list_all_map_of [of "\<lambda>(v, slot). length (us_frozen slot) \<le> max_commit_sources" views v slot]
        by (simp add: table_bounded_def slots_bounded_def)
    qed
    then show ?thesis using settled(2,7) put_slot_bounded history_settle.IH by simp
  qed (use history_settle.IH in simp_all)
next
  case (history_detach tr s w held s')
  then show ?case
    using length_delete_le [of w "ts_windows s"]
    by (auto simp: detach_window_def table_bounded_def window_count_def distinct_delete intro!: list_all_delete)
qed (simp_all add: table_bounded_def table_retire_def window_count_def)

lemma table_commit_total: "table_commit r s \<noteq> None"
proof -
  obtain views s1 where en: "enter_window (cq_window r) s = (views, s1)" by (metis surj_pair)
  note e = enter_window_spec [OF en]
  have "admit_attempt r supersede s1 \<noteq> None" if "probe_slot r views = Inr supersede" for supersede
  proof -
    have "supersede \<longrightarrow> map_of views (cq_union r) \<noteq> None"
      using that by (auto simp: probe_slot_def split: option.splits if_splits slot_outcome.splits)
    then show ?thesis using admit_attempt_spec [OF e(1), of supersede] by (auto split: if_splits)
  qed
  then show ?thesis using en by (auto simp: table_commit_def Let_def split: sum.splits)
qed

section \<open>Properties\<close>

text \<open>C30. An attempt gets one verdict.  Whenever \<open>settle\<close> answers with a verdict, its epoch was granted
  to an admitted commit of the same slot with the same nonce, digest and fences, and since then the
  window was not detached, the table not retired, and no other attempt admitted to the slot.  The
  verdict is that of the first write-back for this epoch: committed exactly when the fences observed
  then are a permutation of the frozen ones.  Every verdict the epoch ever gets, earlier or later, is
  the same, so a late duplicate cannot flip it or bring in newer fences.\<close>

theorem commit_verdict_once:
  assumes "table_history (later @ Settling w v e r current out # earlier) s" "is_verdict out"
  shows "(\<exists>mid old adm observed. earlier = mid @ Committing adm (Verify e) # old
      \<and> cq_window adm = w \<and> cq_union adm = v \<and> cq_nonce adm = cq_nonce r \<and> cq_digest adm = cq_digest r
      \<and> cq_frozen adm = cq_frozen r \<and> undisturbed w v mid
      \<and> first_verdict w v e (Settling w v e r current out # mid) = Some (observed, out)
      \<and> (out = Committed observed \<longleftrightarrow> mset (cq_frozen r) = mset observed))
    \<and> (\<forall>r' current' out'. Settling w v e r' current' out' \<in> set (later @ Settling w v e r current out # earlier)
        \<longrightarrow> is_verdict out' \<longrightarrow> out' = out)"
proof (intro conjI allI impI)
  obtain s1 where h: "table_history (Settling w v e r current out # earlier) s1" using history_at [OF assms(1)] by blast
  obtain mid old adm observed where a: "earlier = mid @ Committing adm (Verify e) # old"
    "cq_window adm = w" "cq_union adm = v" "cq_nonce adm = cq_nonce r" "cq_digest adm = cq_digest r"
    "cq_frozen adm = cq_frozen r" "undisturbed w v mid"
    "first_verdict w v e (Settling w v e r current out # mid) = Some (observed, out)"
    "out = judge (cq_frozen r) observed"
    using verdict_judges [OF h assms(2)] by blast
  have "Committing adm (Verify e) \<in> set (Settling w v e r current out # earlier)" using a(1) by simp
  then have "distinct (map fe_source (cq_frozen r))"
    using bounded_request(1) [OF admitted_request_bounded [OF h]] a(6) by metis
  then have "out = Committed observed \<longleftrightarrow> mset (cq_frozen r) = mset observed"
    using a(9) by (simp add: judge_iff)
  with a show "\<exists>mid old adm observed. earlier = mid @ Committing adm (Verify e) # old
      \<and> cq_window adm = w \<and> cq_union adm = v \<and> cq_nonce adm = cq_nonce r \<and> cq_digest adm = cq_digest r
      \<and> cq_frozen adm = cq_frozen r \<and> undisturbed w v mid
      \<and> first_verdict w v e (Settling w v e r current out # mid) = Some (observed, out)
      \<and> (out = Committed observed \<longleftrightarrow> mset (cq_frozen r) = mset observed)" by blast
next
  fix r' current' out'
  assume "Settling w v e r' current' out' \<in> set (later @ Settling w v e r current out # earlier)" "is_verdict out'"
  moreover have "Settling w v e r current out \<in> set (later @ Settling w v e r current out # earlier)" by simp
  ultimately show "out' = out" using verdicts_agree [OF assms(1)] assms(2) by blast
qed

definition sample_request :: commit_request where
  "sample_request = \<lparr>cq_window = ''w'', cq_union = ''u'', cq_generation = 3, cq_nonce = ''n'', cq_digest = [7],
     cq_frozen = [\<lparr>fe_source = ''a'', fe_generation = 1, fe_high_watermark = Some 5\<rparr>]\<rparr>"

definition sample_table :: "slot_outcome \<Rightarrow> table_state" where
  "sample_table out = \<lparr>ts_retired = False, ts_next_epoch = 1, ts_windows = [(''w'', [(''u'',
     \<lparr>us_highest_generation = 3, us_nonce = ''n'', us_digest = [7], us_frozen = cq_frozen sample_request,
      us_outcome = out, us_attempt_epoch = 1\<rparr>)])]\<rparr>"

lemma sample_commit: "table_commit sample_request table_new = Some (Verify 1, sample_table SlotPending)"
  by (simp add: table_commit_def check_request_bounds_def sample_request_def table_new_def enter_window_def
      probe_slot_def admit_attempt_def alloc_epoch_def checked_add_u64_def sample_table_def u64_max_def
      max_window_id_bytes_def max_commit_view_id_bytes_def max_nonce_bytes_def max_commit_sources_def
      max_receipts_per_window_def max_commit_windows_def Let_def)

lemma sample_settle:
  "table_settle ''w'' ''u'' 1 sample_request (cq_frozen sample_request) (sample_table SlotPending)
     = (Committed (cq_frozen sample_request), sample_table (SlotSettled (Committed (cq_frozen sample_request))))"
  by (simp add: table_settle_def find_slot_def put_slot_def sample_table_def sample_request_def same_attempt_def
      judge_def verify_raw_fence_def Let_def)

lemma sample_settle_again:
  "table_settle ''w'' ''u'' 1 sample_request [] (sample_table (SlotSettled out)) = (out, sample_table (SlotSettled out))"
  by (simp add: table_settle_def find_slot_def sample_table_def sample_request_def same_attempt_def)

lemma sample_history:
  "table_history [Settling ''w'' ''u'' 1 sample_request [] (Committed (cq_frozen sample_request)),
      Settling ''w'' ''u'' 1 sample_request (cq_frozen sample_request) (Committed (cq_frozen sample_request)),
      Committing sample_request (Verify 1)] (sample_table (SlotSettled (Committed (cq_frozen sample_request))))"
  using history_settle [OF history_settle [OF history_commit [OF history_new sample_commit] sample_settle]
      sample_settle_again] .

lemma sample_verdict: "is_verdict (Committed (cq_frozen sample_request))"
  by simp

theorem commit_verdict_once_witness:
  "\<exists>mid old adm observed. [Settling ''w'' ''u'' 1 sample_request (cq_frozen sample_request)
        (Committed (cq_frozen sample_request)), Committing sample_request (Verify 1)] =
      mid @ Committing adm (Verify 1) # old
    \<and> undisturbed ''w'' ''u'' mid
    \<and> (Committed (cq_frozen sample_request) = Committed observed
        \<longleftrightarrow> mset (cq_frozen sample_request) = mset observed)"
  using commit_verdict_once [of "[]" "''w''" "''u''" 1 sample_request "[]" "Committed (cq_frozen sample_request)"
      "[Settling ''w'' ''u'' 1 sample_request (cq_frozen sample_request) (Committed (cq_frozen sample_request)),
        Committing sample_request (Verify 1)]", unfolded append_Nil, OF sample_history sample_verdict]
  by blast

text \<open>C31. A lost reply can be asked for again, and a displaced handler does nothing.  While the table
  is not retired, and for as long as the window stays attached and no other attempt is admitted to the
  slot, committing an admitted request again admits nothing: it answers its first verdict, or pending,
  and \<open>status\<close> agrees.  Once the window was detached or another attempt admitted, even the identical
  request, a write-back of the old epoch is answered as superseded and changes nothing.\<close>

theorem attempt_replayed_or_displaced:
  assumes "table_history (mid @ Committing adm (Verify e) # old) s" "\<not> ts_retired s"
  shows "if undisturbed (cq_window adm) (cq_union adm) mid
    then table_commit adm s = Some (Answer (case first_verdict (cq_window adm) (cq_union adm) e mid of
             None \<Rightarrow> OutcomePending | Some (_, out) \<Rightarrow> out), s)
       \<and> table_status (cq_window adm) (cq_union adm) (cq_generation adm) (cq_nonce adm) (cq_digest adm) s =
           (case first_verdict (cq_window adm) (cq_union adm) e mid of
              None \<Rightarrow> StatusPending | Some (_, out) \<Rightarrow> StatusSettled out)
    else table_settle (cq_window adm) (cq_union adm) e r current s = (Superseded, s)"
proof (cases "undisturbed (cq_window adm) (cq_union adm) mid")
  case True
  have "check_request_bounds adm = Inr ()" using admitted_request_bounded [OF assms(1), of adm e] by simp
  note replay = replay_commit [OF this assms(2) current_slot [OF assms(1) True assms(2)]]
  show ?thesis
    using True replay current_slot [OF assms(1) True assms(2)] assms(2)
    by (simp add: table_status_def slot_for_def split: option.splits)
next
  case False
  then show ?thesis using displaced_settle [OF assms(1) False assms(2)] by simp
qed

theorem attempt_replayed_or_displaced_witness:
  "table_commit sample_request (sample_table (SlotSettled (Committed (cq_frozen sample_request))))
     = Some (Answer (Committed (cq_frozen sample_request)),
         sample_table (SlotSettled (Committed (cq_frozen sample_request))))
   \<and> table_settle ''w'' ''u'' 1 sample_request [] (table_new\<lparr>ts_next_epoch := 1\<rparr>)
     = (Superseded, table_new\<lparr>ts_next_epoch := 1\<rparr>)"
proof -
  have names: "cq_window sample_request = ''w''" "cq_union sample_request = ''u''" by (simp_all add: sample_request_def)
  have pending: "table_history [Committing sample_request (Verify 1)] (sample_table SlotPending)"
    using history_commit [OF history_new sample_commit] .
  have "detach_window ''w'' (sample_table SlotPending) = (True, table_new\<lparr>ts_next_epoch := 1\<rparr>)"
    by (simp add: detach_window_def sample_table_def table_new_def)
  from history_detach [OF pending this]
  have "table_history ([Detaching ''w'' True] @ Committing sample_request (Verify 1) # []) (table_new\<lparr>ts_next_epoch := 1\<rparr>)"
    by simp
  from attempt_replayed_or_displaced [OF this, of sample_request "[]"]
    attempt_replayed_or_displaced [of "[Settling ''w'' ''u'' 1 sample_request [] (Committed (cq_frozen sample_request)),
      Settling ''w'' ''u'' 1 sample_request (cq_frozen sample_request) (Committed (cq_frozen sample_request))]"
      sample_request 1 "[]", unfolded append_Cons append_Nil, OF sample_history]
  show ?thesis by (simp add: names sample_table_def table_new_def)
qed

text \<open>Whatever is asked of it, the table stays within its bounds, every operation returns, and no two
  attempts are ever admitted under the same epoch.\<close>

theorem commit_table_bounded:
  assumes "table_history tr s"
  shows "window_count s \<le> 16 \<and> (\<forall>w. union_count w s \<le> 128)
    \<and> (\<forall>w v slot. find_slot w v s = Some slot \<longrightarrow> length (us_frozen slot) \<le> 16)
    \<and> table_commit r s \<noteq> None \<and> distinct (admitted_epochs tr)"
proof -
  have b: "table_bounded s" using history_bounded [OF assms] .
  have views: "slots_bounded views" if "map_of (ts_windows s) w = Some views" for w views
    using list_all_map_of [OF _ that, of "\<lambda>(w, views). slots_bounded views"] b by (simp add: table_bounded_def)
  have "union_count w s \<le> 128" for w
    using views by (auto simp: union_count_def slots_bounded_def max_receipts_per_window_def split: option.splits)
  moreover have "length (us_frozen slot) \<le> 16" if found: "find_slot w v s = Some slot" for w v slot
  proof -
    obtain vs where vs: "map_of (ts_windows s) w = Some vs" "map_of vs v = Some slot"
      using found by (auto simp: find_slot_def bind_eq_Some_conv)
    show ?thesis
      using list_all_map_of [OF _ vs(2), of "\<lambda>(v, slot). length (us_frozen slot) \<le> max_commit_sources"] views [OF vs(1)]
      by (simp add: slots_bounded_def max_commit_sources_def)
  qed
  moreover have "distinct (admitted_epochs tr)" using history_epochs [OF assms] falling_distinct by blast
  ultimately show ?thesis
    using b table_commit_total by (simp add: table_bounded_def max_commit_windows_def)
qed

theorem commit_table_bounded_witness:
  "table_commit sample_request (sample_table (SlotSettled (Committed (cq_frozen sample_request)))) \<noteq> None
   \<and> distinct (admitted_epochs [Settling ''w'' ''u'' 1 sample_request [] (Committed (cq_frozen sample_request)),
      Settling ''w'' ''u'' 1 sample_request (cq_frozen sample_request) (Committed (cq_frozen sample_request)),
      Committing sample_request (Verify 1)])"
  using commit_table_bounded [OF sample_history, of sample_request] by simp

end
