(* ===== verification/Union_Merge.thy ===== *)
theory Union_Merge
  imports Union_Commit Model Ordered_Maps "HOL-Library.Option_ord" "HOL-Library.Product_Lexorder"
    "HOL-Library.Transitive_Closure_Table"
begin

text \<open>
  The pure part of union views, \<open>crates/lvu-view/src/union.rs\<close>: what a union may refer to
  (\<open>validate_union_spec\<close>, \<open>detect_union_cycle\<close>), the order its rows are merged in
  (\<open>merge_union_rows\<close>), the fences a candidate publishes under (\<open>verify_source_fence\<close>) and the memory it
  may take (\<open>union_workspace_bytes\<close>).  The frames of the query engine are not modelled.
\<close>

section \<open>Specifications\<close>

definition max_union_inputs :: nat where "max_union_inputs = 8"
definition max_union_rows :: nat where "max_union_rows = 1000000"
definition max_union_view_id_bytes :: nat where "max_union_view_id_bytes = 256"

datatype union_error =
    EmptyInputs
  | TooManyInputs nat nat
  | DuplicateInput string
  | SelfReference string
  | UnionCycle string
  | RowLimit nat nat
  | ByteLimit nat nat
  | ViewIdTooLong nat
  | ProtectedColumn string
  | BadTimestampColumn string string
  | BadIdentityColumn string string
  | UnsupportedValue string string string string
  | StaleInput string string
  | Engine string

fun validate_ids :: "string \<Rightarrow> string list \<Rightarrow> string list \<Rightarrow> union_error + unit" where
  "validate_ids view seen [] = Inr ()"
| "validate_ids view seen (i # inputs) =
    (if length i > max_union_view_id_bytes \<or> length view > max_union_view_id_bytes
     then Inl (ViewIdTooLong max_union_view_id_bytes)
     else if i = view then Inl (SelfReference i)
     else if List.member seen i then Inl (DuplicateInput i)
     else validate_ids view (i # seen) inputs)"

definition validate_union_spec :: "string \<Rightarrow> string list \<Rightarrow> union_error + unit" where
  "validate_union_spec view inputs =
    (if length inputs < 2 then Inl EmptyInputs
     else if length inputs > max_union_inputs then Inl (TooManyInputs (length inputs) max_union_inputs)
     else validate_ids view [] inputs)"

section \<open>Cycles\<close>

datatype mark = Gray | Black

type_synonym marks = "(string \<times> mark) list"

definition max_visited :: nat where "max_visited = 64"

fun join_path :: "string list \<Rightarrow> string" where
  "join_path [] = []"
| "join_path [x] = x"
| "join_path (x # y # xs) = x @ '' -> '' @ join_path (y # xs)"

definition cycle_path :: "string \<Rightarrow> string list \<Rightarrow> string" where
  "cycle_path node stack =
    join_path (drop (case find_index_opt (\<lambda>x. x = node) stack of None \<Rightarrow> 0 | Some i \<Rightarrow> i) stack @ [node])"

text \<open>The depth-first search.  A visit that succeeds pops what it pushed, so the stack is an argument.\<close>

function visit ::
    "(string \<Rightarrow> string list option) \<Rightarrow> string \<Rightarrow> marks \<Rightarrow> string list \<Rightarrow> union_error + marks"
  and visit_all ::
    "(string \<Rightarrow> string list option) \<Rightarrow> string list \<Rightarrow> marks \<Rightarrow> string list \<Rightarrow> union_error + marks" where
  "visit resolve node marks stack =
    (case map_of marks node of
       Some Black \<Rightarrow> Inr marks
     | Some Gray \<Rightarrow> Inl (UnionCycle (cycle_path node stack))
     | None \<Rightarrow>
         if length marks \<ge> max_visited then Inl (UnionCycle ''dependency graph exceeds 64 views'')
         else
           (case (case resolve node of
                    None \<Rightarrow> Inr (AList.update node Gray marks)
                  | Some inputs \<Rightarrow>
                      if length inputs > max_union_inputs
                      then Inl (TooManyInputs (length inputs) max_union_inputs)
                      else visit_all resolve inputs (AList.update node Gray marks) (stack @ [node])) of
              Inl e \<Rightarrow> Inl e
            | Inr marks1 \<Rightarrow> Inr (AList.update node Black marks1)))"
| "visit_all resolve [] marks stack = Inr marks"
| "visit_all resolve (i # inputs) marks stack =
    (case visit resolve i marks stack of
       Inl e \<Rightarrow> Inl e
     | Inr marks1 \<Rightarrow> visit_all resolve inputs marks1 stack)"
  by pat_completeness auto

lemma length_update_ge: "length al \<le> length (AList.update k x al)"
  by (simp add: length_update)

lemma visit_keeps_marks:
  "visit_visit_all_dom (Inl (resolve, node, marks, stack)) \<Longrightarrow>
     visit resolve node marks stack = Inr marks' \<Longrightarrow> length marks \<le> length marks'"
  "visit_visit_all_dom (Inr (resolve, inputs, marks, stack)) \<Longrightarrow>
     visit_all resolve inputs marks stack = Inr marks' \<Longrightarrow> length marks \<le> length marks'"
proof (induction arbitrary: marks' and marks' rule: visit_visit_all.pinduct)
  case (1 resolve node marks stack)
  have inner: "length (AList.update node Gray marks) \<le> length m"
    if "map_of marks node = None" "\<not> max_visited \<le> length marks" "resolve node = Some inputs"
      "\<not> max_union_inputs < length inputs"
      "visit_all resolve inputs (AList.update node Gray marks) (stack @ [node]) = Inr m" for inputs m
    using that by (intro 1(2)) auto
  show ?case
    using 1(1,3) length_update_ge [of marks node Gray] order_trans [OF length_update_ge inner] length_update_ge
    by (auto simp: visit.psimps split: option.splits mark.splits if_splits sum.splits)
      (rule length_update_ge, rule order_trans [OF _ length_update_ge], blast)
next
  case (2 resolve marks stack)
  then show ?case by (simp add: visit_all.psimps)
next
  case (3 resolve i inputs marks stack)
  then show ?case by (fastforce simp: visit_all.psimps split: sum.splits)
qed
termination visit
proof (relation "measures [case_sum (\<lambda>(_, _, marks, _). max_visited - length marks) (\<lambda>(_, _, marks, _). max_visited - length marks),
    case_sum (\<lambda>_. 0) (\<lambda>(_, inputs, _, _). Suc (length inputs))]", goal_cases)
  case 1
  then show ?case by simp
next
  case (2 resolve node marks stack inputs)
  then show ?case by (simp add: length_update)
next
  case (3 resolve i inputs marks stack)
  then show ?case by simp
next
  case (4 resolve i inputs marks stack marks1)
  then have "length marks \<le> length marks1" by (auto intro: visit_keeps_marks(1))
  then have "max_visited - length marks1 \<le> max_visited - length marks" by simp
  then show ?case by auto
qed

declare visit.simps [simp del]

definition detect_union_cycle ::
  "string \<Rightarrow> string list \<Rightarrow> (string \<Rightarrow> string list option) \<Rightarrow> union_error + unit" where
  "detect_union_cycle view inputs resolve =
    map_sum id (\<lambda>_. ()) (visit_all resolve inputs [(view, Gray)] [view])"

text \<open>The graph that is searched: the inputs of the candidate, and the stored inputs of the others.\<close>

definition children :: "string \<Rightarrow> string list \<Rightarrow> (string \<Rightarrow> string list option) \<Rightarrow> string \<Rightarrow> string list" where
  "children view inputs resolve a =
    (if a = view then inputs else case resolve a of None \<Rightarrow> [] | Some xs \<Rightarrow> xs)"

definition edges :: "string \<Rightarrow> string list \<Rightarrow> (string \<Rightarrow> string list option) \<Rightarrow> (string \<times> string) set" where
  "edges view inputs resolve = {(a, b). b \<in> set (children view inputs resolve a)}"

definition marked :: "mark \<Rightarrow> marks \<Rightarrow> string set" where
  "marked m marks = {x. map_of marks x = Some m}"

lemma marked_update [simp]:
  "marked m (AList.update x m' marks) = (if m = m' then insert x (marked m marks) else marked m marks - {x})"
  by (auto simp: marked_def update_conv')

text \<open>What is black is closed under edges and has no cycle.\<close>

definition finished :: "(string \<times> string) set \<Rightarrow> string set \<Rightarrow> bool" where
  "finished E B \<longleftrightarrow> E `` B \<subseteq> B \<and> acyclic (E \<inter> B \<times> B)"

lemma finished_insert:
  assumes "finished E B" "n \<notin> B" "E `` {n} \<subseteq> B"
  shows "finished E (insert n B)"
proof -
  let ?R = "E \<inter> insert n B \<times> insert n B"
  have inside: "x \<in> B \<Longrightarrow> y \<in> B \<and> (x, y) \<in> (E \<inter> B \<times> B)\<^sup>+" if "(x, y) \<in> ?R\<^sup>+" for x y
    using that
  proof (induction rule: trancl_induct)
    case (base y)
    then have "y \<in> B" using assms(1) by (auto simp: finished_def)
    then show ?case using base by auto
  next
    case (step y z)
    then have "z \<in> B" using assms(1) by (auto simp: finished_def)
    then show ?case using step by (auto intro: trancl_into_trancl)
  qed
  have "(x, x) \<notin> ?R\<^sup>+" for x
  proof
    assume cycle: "(x, x) \<in> ?R\<^sup>+"
    then have "x \<in> insert n B" by (meson IntE SigmaD1 tranclD)
    moreover have "x \<notin> B" using inside [OF cycle] assms(1) by (auto simp: finished_def acyclic_def)
    ultimately have x: "x = n" by simp
    obtain y where y: "(n, y) \<in> ?R" "(y, n) \<in> ?R\<^sup>*" using tranclD [OF cycle] x by blast
    then have "y \<in> B" using assms(3) by auto
    then have "(y, n) \<in> ?R\<^sup>+" using y(2) assms(2) by (auto simp: rtrancl_eq_or_trancl)
    then show False using inside \<open>y \<in> B\<close> assms(2) by blast
  qed
  then show ?thesis using assms(1,3) by (auto simp: finished_def acyclic_def)
qed

lemma visit_sound:
  "visit resolve node marks stack = Inr marks' \<Longrightarrow> view \<in> marked Gray marks
    \<Longrightarrow> finished (edges view inputs resolve) (marked Black marks)
    \<Longrightarrow> finished (edges view inputs resolve) (marked Black marks') \<and> marked Gray marks' = marked Gray marks
      \<and> marked Black marks \<subseteq> marked Black marks' \<and> node \<in> marked Black marks'"
  "visit_all resolve nodes marks stack = Inr marks' \<Longrightarrow> view \<in> marked Gray marks
    \<Longrightarrow> finished (edges view inputs resolve) (marked Black marks)
    \<Longrightarrow> finished (edges view inputs resolve) (marked Black marks') \<and> marked Gray marks' = marked Gray marks
      \<and> marked Black marks \<subseteq> marked Black marks' \<and> set nodes \<subseteq> marked Black marks'"
proof (induction resolve node marks stack and resolve nodes marks stack arbitrary: marks' and marks' rule: visit_visit_all.induct)
  case (1 resolve node marks stack)
  let ?E = "edges view inputs resolve"
  show ?case
  proof (cases "map_of marks node")
    case (Some m)
    then have "m = Black" "marks' = marks" using 1(2) by (auto simp: visit.simps split: mark.splits)
    then show ?thesis using 1(4) Some by (auto simp: marked_def)
  next
    case None
    have other: "node \<noteq> view" using None 1(3) by (auto simp: marked_def)
    let ?m1 = "AList.update node Gray marks"
    have unmarked: "node \<notin> marked Black marks" "node \<notin> marked Gray marks" using None by (auto simp: marked_def)
    obtain m2 where m2: "marks' = AList.update node Black m2"
      "(resolve node = None \<and> m2 = ?m1)
       \<or> (\<exists>xs. resolve node = Some xs \<and> length marks < max_visited \<and> \<not> max_union_inputs < length xs
            \<and> visit_all resolve xs ?m1 (stack @ [node]) = Inr m2)"
      using 1(2) None by (auto simp: visit.simps split: if_splits option.splits sum.splits)
    have m1: "view \<in> marked Gray ?m1" "finished ?E (marked Black ?m1)" using 1(3,4) unmarked by simp_all
    have step: "finished ?E (marked Black m2) \<and> marked Gray m2 = marked Gray ?m1
      \<and> marked Black ?m1 \<subseteq> marked Black m2 \<and> ?E `` {node} \<subseteq> marked Black m2"
      using m2(2)
    proof (elim disjE exE conjE)
      assume "resolve node = None" "m2 = ?m1"
      then show ?thesis using m1 other by (auto simp: edges_def children_def)
    next
      fix xs
      assume xs: "resolve node = Some xs" "length marks < max_visited" "\<not> max_union_inputs < length xs"
        "visit_all resolve xs ?m1 (stack @ [node]) = Inr m2"
      have "finished ?E (marked Black m2) \<and> marked Gray m2 = marked Gray ?m1
        \<and> marked Black ?m1 \<subseteq> marked Black m2 \<and> set xs \<subseteq> marked Black m2"
        by (rule 1(1) [OF None _ xs(1) xs(3) xs(4) m1]) (use xs(2) in simp)
      then show ?thesis using xs(1) other by (auto simp: edges_def children_def)
    qed
    have "node \<in> marked Gray m2" using step by simp
    then have "node \<notin> marked Black m2" by (simp add: marked_def)
    then show ?thesis using m2(1) step unmarked finished_insert [of ?E "marked Black m2" node] by auto
  qed
next
  case (2 resolve marks stack)
  then show ?case by simp
next
  case (3 resolve i nodes marks stack)
  obtain m1 where m1: "visit resolve i marks stack = Inr m1" "visit_all resolve nodes m1 stack = Inr marks'"
    using 3(3) by (auto split: sum.splits)
  then show ?case using 3(1) [OF m1(1) 3(4,5)] 3(2) [OF m1(1) m1(2)] 3(4) by auto
qed

text \<open>A search that succeeds stays within its caps.\<close>

definition narrow :: "(string \<Rightarrow> string list option) \<Rightarrow> string set \<Rightarrow> bool" where
  "narrow resolve B \<longleftrightarrow> (\<forall>x \<in> B. \<forall>xs. resolve x = Some xs \<longrightarrow> length xs \<le> max_union_inputs)"

lemma visit_within_caps:
  "visit resolve node marks stack = Inr marks' \<Longrightarrow> length marks \<le> max_visited \<Longrightarrow> narrow resolve (marked Black marks)
    \<Longrightarrow> length marks' \<le> max_visited \<and> narrow resolve (marked Black marks') \<and> fst ` set marks \<subseteq> fst ` set marks'"
  "visit_all resolve nodes marks stack = Inr marks' \<Longrightarrow> length marks \<le> max_visited \<Longrightarrow> narrow resolve (marked Black marks)
    \<Longrightarrow> length marks' \<le> max_visited \<and> narrow resolve (marked Black marks') \<and> fst ` set marks \<subseteq> fst ` set marks'"
proof (induction resolve node marks stack and resolve nodes marks stack arbitrary: marks' and marks' rule: visit_visit_all.induct)
  case (1 resolve node marks stack)
  show ?case
  proof (cases "map_of marks node")
    case (Some m)
    then show ?thesis using 1(2-4) by (auto simp: visit.simps split: mark.splits)
  next
    case None
    let ?m1 = "AList.update node Gray marks"
    have "node \<notin> marked Black marks" using None by (simp add: marked_def)
    then have m1: "narrow resolve (marked Black ?m1)" using 1(4) by simp
    have full: "\<not> max_visited \<le> length marks" using 1(2) None by (auto simp: visit.simps split: if_splits)
    then have len1: "length ?m1 \<le> max_visited" by (simp add: length_update)
    obtain m2 where m2: "marks' = AList.update node Black m2"
      "(resolve node = None \<and> m2 = ?m1)
       \<or> (\<exists>xs. resolve node = Some xs \<and> \<not> max_union_inputs < length xs
            \<and> visit_all resolve xs ?m1 (stack @ [node]) = Inr m2)"
      using 1(2) None by (auto simp: visit.simps split: if_splits option.splits sum.splits)
    have step: "length m2 \<le> max_visited \<and> narrow resolve (marked Black m2) \<and> fst ` set ?m1 \<subseteq> fst ` set m2
      \<and> (\<forall>xs. resolve node = Some xs \<longrightarrow> length xs \<le> max_union_inputs)"
      using m2(2)
    proof (elim disjE exE conjE)
      assume "resolve node = None" "m2 = ?m1"
      then show ?thesis using m1 len1 by simp
    next
      fix xs
      assume xs: "resolve node = Some xs" "\<not> max_union_inputs < length xs"
        "visit_all resolve xs ?m1 (stack @ [node]) = Inr m2"
      from 1(1) [OF None full xs len1 m1] show ?thesis using xs(1,2) by simp
    qed
    have "node \<in> fst ` set m2" using step by (auto simp: dom_update)
    then have "map_of m2 node \<noteq> None" by (simp add: map_of_eq_None_iff)
    then have "length marks' = length m2" using m2(1) by (auto simp: length_update)
    moreover have "narrow resolve (marked Black marks')" using step m2(1) by (auto simp: narrow_def)
    moreover have "fst ` set marks \<subseteq> fst ` set marks'" using step m2(1) by (auto simp: dom_update)
    ultimately show ?thesis using step by simp
  qed
next
  case (2 resolve marks stack)
  then show ?case by simp
next
  case (3 resolve i nodes marks stack)
  obtain m1 where m1: "visit resolve i marks stack = Inr m1" "visit_all resolve nodes m1 stack = Inr marks'"
    using 3(3) by (auto split: sum.splits)
  then show ?case using 3(1) [OF m1(1) 3(4,5)] 3(2) [OF m1(1) m1(2)] by blast
qed

text \<open>What an accepting search has found: the candidate and what is black are closed under edges, without
  a cycle, and within the caps.\<close>

lemma detect_found:
  assumes "detect_union_cycle view inputs resolve = Inr ()"
  obtains B where "finished (edges view inputs resolve) (insert view B)" "view \<notin> B" "finite (insert view B)"
    "card (insert view B) \<le> max_visited" "narrow resolve B"
proof -
  let ?E = "edges view inputs resolve"
  obtain marks where v: "visit_all resolve inputs [(view, Gray)] [view] = Inr marks"
    using assms by (auto simp: detect_union_cycle_def map_sum_def split: sum.splits)
  let ?B = "marked Black marks"
  have found: "finished ?E ?B \<and> marked Gray marks = marked Gray [(view, Gray)]
    \<and> marked Black [(view, Gray)] \<subseteq> ?B \<and> set inputs \<subseteq> ?B"
    by (rule visit_sound(2) [OF v]) (auto simp: marked_def finished_def acyclic_def)
  then have "view \<in> marked Gray marks" by (simp add: marked_def)
  then have other: "view \<notin> ?B" by (simp add: marked_def)
  have "?E `` {view} \<subseteq> ?B" using found by (auto simp: edges_def children_def)
  then have fin: "finished ?E (insert view ?B)" using finished_insert found other by blast
  have caps: "length marks \<le> max_visited \<and> narrow resolve ?B \<and> fst ` set [(view, Gray)] \<subseteq> fst ` set marks"
    by (rule visit_within_caps(2) [OF v]) (auto simp: max_visited_def marked_def narrow_def)
  have sub: "insert view ?B \<subseteq> fst ` set marks"
    using caps by (auto simp: marked_def dest: map_of_SomeD intro: rev_image_eqI)
  have "card (insert view ?B) \<le> card (fst ` set marks)" by (rule card_mono [OF _ sub]) simp
  also have "\<dots> \<le> length marks" by (metis card_length length_map list.set_map)
  finally have "card (insert view ?B) \<le> max_visited" using caps by simp
  then show thesis using that fin other finite_subset [OF sub] caps by blast
qed

lemma finished_reach:
  assumes "finished E V" "v \<in> V"
  shows "E\<^sup>* `` {v} \<subseteq> V" and "(v, x) \<in> E\<^sup>* \<Longrightarrow> (x, x) \<notin> E\<^sup>+"
proof -
  have closed: "y \<in> V" if "(z, y) \<in> E\<^sup>*" "z \<in> V" for z y
    using that by (induction rule: rtrancl_induct) (use assms(1) in \<open>auto simp: finished_def\<close>)
  then show "E\<^sup>* `` {v} \<subseteq> V" using assms(2) by blast
  have inside: "(z, y) \<in> (E \<inter> V \<times> V)\<^sup>+" if "(z, y) \<in> E\<^sup>+" "z \<in> V" for z y
    using that
  proof (induction rule: trancl_induct)
    case (base y)
    then show ?case using closed by blast
  next
    case (step y w)
    then have "y \<in> V" "w \<in> V" using closed by (meson trancl_into_rtrancl r_into_rtrancl rtrancl_trans)+
    then show ?case using step by (auto intro: trancl_into_trancl)
  qed
  show "(x, x) \<notin> E\<^sup>+" if "(v, x) \<in> E\<^sup>*"
  proof
    assume "(x, x) \<in> E\<^sup>+"
    moreover have "x \<in> V" using closed that assms(2) by blast
    ultimately show False using inside assms(1) unfolding finished_def acyclic_def by blast
  qed
qed

text \<open>While it searches, the stack is a path from the candidate, and what is gray is on it.\<close>

definition on_path :: "(string \<times> string) set \<Rightarrow> string \<Rightarrow> marks \<Rightarrow> string list \<Rightarrow> bool" where
  "on_path E view marks stack \<longleftrightarrow>
     stack \<noteq> [] \<and> hd stack = view \<and> successively (\<lambda>a b. (a, b) \<in> E) stack
   \<and> marked Gray marks = set stack
   \<and> distinct (map fst marks) \<and> fst ` set marks \<subseteq> E\<^sup>* `` {view}"

lemma path_rtrancl: "successively (\<lambda>a b. (a, b) \<in> E) (x # xs) \<Longrightarrow> (x, last (x # xs)) \<in> E\<^sup>*"
proof (induction xs arbitrary: x)
  case (Cons y xs)
  then show ?case by (auto intro: converse_rtrancl_into_rtrancl)
qed simp

lemma path_from:
  assumes "successively (\<lambda>a b. (a, b) \<in> E) stack" "x \<in> set stack"
  shows "(hd stack, x) \<in> E\<^sup>*" "(x, last stack) \<in> E\<^sup>*"
proof -
  obtain ys zs where split: "stack = ys @ x # zs" using assms(2) by (meson split_list)
  have whole: "successively (\<lambda>a b. (a, b) \<in> E) ((ys @ [x]) @ zs)" using assms(1) split by simp
  have "successively (\<lambda>a b. (a, b) \<in> E) (ys @ [x])" using whole by (simp only: successively_append_iff)
  then show "(hd stack, x) \<in> E\<^sup>*" using path_rtrancl [of E "hd (ys @ [x])" "tl (ys @ [x])"] split by (cases ys) simp_all
  have "successively (\<lambda>a b. (a, b) \<in> E) (x # zs)" using assms(1) split by (simp add: successively_append_iff)
  then show "(x, last stack) \<in> E\<^sup>*" using path_rtrancl [of E x zs] split by simp
qed

text \<open>A graph the search can finish on: small, narrow and without a cycle in reach.\<close>

definition searchable :: "string \<Rightarrow> string list \<Rightarrow> (string \<Rightarrow> string list option) \<Rightarrow> bool" where
  "searchable view inputs resolve \<longleftrightarrow>
     (let E = edges view inputs resolve; R = E\<^sup>* `` {view}
      in finite R \<and> card R \<le> max_visited
       \<and> (\<forall>x \<in> R. (x, x) \<notin> E\<^sup>+ \<and> (x \<noteq> view \<longrightarrow> length (children view inputs resolve x) \<le> max_union_inputs)))"

lemma visit_complete:
  "searchable view inputs resolve \<Longrightarrow> on_path (edges view inputs resolve) view marks stack
      \<Longrightarrow> (last stack, node) \<in> edges view inputs resolve
      \<Longrightarrow> \<exists>marks'. visit resolve node marks stack = Inr marks' \<and> on_path (edges view inputs resolve) view marks' stack"
  "searchable view inputs resolve \<Longrightarrow> on_path (edges view inputs resolve) view marks stack
      \<Longrightarrow> \<forall>i \<in> set nodes. (last stack, i) \<in> edges view inputs resolve
      \<Longrightarrow> \<exists>marks'. visit_all resolve nodes marks stack = Inr marks' \<and> on_path (edges view inputs resolve) view marks' stack"
proof (induction resolve node marks stack and resolve nodes marks stack rule: visit_visit_all.induct)
  case (1 resolve node marks stack)
  let ?E = "edges view inputs resolve"
  note path = 1(3) [unfolded on_path_def]
  have R: "finite (?E\<^sup>* `` {view})" "card (?E\<^sup>* `` {view}) \<le> max_visited"
    "\<And>x. (view, x) \<in> ?E\<^sup>* \<Longrightarrow> (x, x) \<notin> ?E\<^sup>+"
    "\<And>x. (view, x) \<in> ?E\<^sup>* \<Longrightarrow> x \<noteq> view \<Longrightarrow> length (children view inputs resolve x) \<le> max_union_inputs"
    using 1(2) by (auto simp: searchable_def Let_def)
  have links: "successively (\<lambda>a b. (a, b) \<in> ?E) stack" and nonempty: "stack \<noteq> []" "hd stack = view"
    and gray: "marked Gray marks = set stack" and keys: "distinct (map fst marks)" "fst ` set marks \<subseteq> ?E\<^sup>* `` {view}"
    using path by blast+
  have "(view, last stack) \<in> ?E\<^sup>*" using nonempty path_from(1) [OF links, of "last stack"] by simp
  then have reach: "(view, node) \<in> ?E\<^sup>*" using 1(4) by (rule rtrancl_into_rtrancl)
  show ?case
  proof (cases "map_of marks node")
    case (Some m)
    have "m \<noteq> Gray"
    proof
      assume "m = Gray"
      then have "node \<in> set stack" using gray Some by (auto simp: marked_def)
      from path_from(2) [OF links this] have "(node, last stack) \<in> ?E\<^sup>*" .
      then have "(node, node) \<in> ?E\<^sup>+" using 1(4) by (rule rtrancl_into_trancl1)
      then show False using R(3) reach by blast
    qed
    then have "m = Black" by (cases m) auto
    then show ?thesis using Some 1(3) by (simp add: visit.simps)
  next
    case None
    have new: "node \<notin> fst ` set marks" using None by (simp add: map_of_eq_None_iff)
    have "insert node (fst ` set marks) \<subseteq> ?E\<^sup>* `` {view}" using keys(2) reach by simp
    then have "card (insert node (fst ` set marks)) \<le> max_visited" using card_mono [OF R(1)] R(2) by (meson order_trans)
    moreover have "card (fst ` set marks) = length marks" using keys(1) distinct_card [of "map fst marks"] by simp
    ultimately have room: "length marks < max_visited" using new by simp
    let ?m1 = "AList.update node Gray marks"
    have path1: "on_path ?E view ?m1 (stack @ [node])"
      unfolding on_path_def
    proof (intro conjI)
      show "successively (\<lambda>a b. (a, b) \<in> ?E) (stack @ [node])"
        using links 1(4) by (simp add: successively_append_iff)
      show "fst ` set ?m1 \<subseteq> ?E\<^sup>* `` {view}" using keys(2) reach by (simp add: dom_update)
    qed (use nonempty gray keys(1) in \<open>simp_all add: distinct_update\<close>)
    have view: "view \<in> marked Gray marks" using gray nonempty by (cases stack) auto
    then have other: "node \<noteq> view" using None by (auto simp: marked_def)
    have "\<exists>m2. (case resolve node of
          None \<Rightarrow> Inr ?m1
        | Some xs \<Rightarrow> if length xs > max_union_inputs then Inl (TooManyInputs (length xs) max_union_inputs)
            else visit_all resolve xs ?m1 (stack @ [node])) = Inr m2
      \<and> on_path ?E view m2 (stack @ [node])"
    proof (cases "resolve node")
      case None
      then show ?thesis using path1 by simp
    next
      case (Some xs)
      have kids: "children view inputs resolve node = xs" using Some other by (simp add: children_def)
      then have narrow: "\<not> max_union_inputs < length xs" using R(4) [OF reach other] by simp
      have "\<exists>m2. visit_all resolve xs ?m1 (stack @ [node]) = Inr m2 \<and> on_path ?E view m2 (stack @ [node])"
        by (rule 1(1) [OF None _ Some narrow 1(2) path1]) (use room kids in \<open>auto simp: edges_def\<close>)
      then show ?thesis using Some narrow by simp
    qed
    then obtain m2 where m2: "visit resolve node marks stack = Inr (AList.update node Black m2)"
      "on_path ?E view m2 (stack @ [node])"
      using None room by (auto simp: visit.simps)
    have "node \<notin> marked Gray marks" using None by (simp add: marked_def)
    then have "node \<notin> set stack" using gray by simp
    have "on_path ?E view (AList.update node Black m2) stack"
      unfolding on_path_def
    proof (intro conjI)
      show "marked Gray (AList.update node Black m2) = set stack"
        using m2(2) \<open>node \<notin> set stack\<close> by (simp add: on_path_def)
      show "fst ` set (AList.update node Black m2) \<subseteq> ?E\<^sup>* `` {view}"
        using m2(2) reach by (simp add: on_path_def dom_update)
    qed (use nonempty links m2(2) in \<open>simp_all add: on_path_def distinct_update\<close>)
    then show ?thesis using m2(1) by blast
  qed
next
  case (2 resolve marks stack)
  then show ?case by simp
next
  case (3 resolve i nodes marks stack)
  have "(last stack, i) \<in> edges view inputs resolve" using 3(5) by simp
  from 3(1) [OF 3(3,4) this]
  obtain m1 where m1: "visit resolve i marks stack = Inr m1" "on_path (edges view inputs resolve) view m1 stack" by blast
  then show ?case using 3(2) [OF m1(1) 3(3) m1(2)] 3(5) by simp
qed

lemma detect_searchable:
  assumes "detect_union_cycle view inputs resolve = Inr ()"
  shows "searchable view inputs resolve"
proof -
  let ?E = "edges view inputs resolve"
  obtain B where B: "finished ?E (insert view B)" "view \<notin> B" "finite (insert view B)"
    "card (insert view B) \<le> max_visited" "narrow resolve B"
    using detect_found [OF assms] .
  note reach = finished_reach [OF B(1), of view, simplified]
  have "finite (?E\<^sup>* `` {view})" using finite_subset [OF reach(1) B(3)] .
  moreover have "card (?E\<^sup>* `` {view}) \<le> max_visited" using card_mono [OF B(3) reach(1)] B(4) by simp
  moreover have "length (children view inputs resolve x) \<le> max_union_inputs"
    if "(view, x) \<in> ?E\<^sup>*" "x \<noteq> view" for x
    using that reach(1) B(5) by (auto simp: children_def narrow_def split: option.split)
  ultimately show ?thesis using reach(2) by (auto simp: searchable_def Let_def)
qed

lemma detect_complete:
  assumes "searchable view inputs resolve"
  shows "detect_union_cycle view inputs resolve = Inr ()"
proof -
  have "on_path (edges view inputs resolve) view [(view, Gray)] [view]"
    by (auto simp: on_path_def marked_def)
  moreover have "\<forall>i \<in> set inputs. (last [view], i) \<in> edges view inputs resolve"
    by (simp add: edges_def children_def)
  ultimately have "\<exists>marks'. visit_all resolve inputs [(view, Gray)] [view] = Inr marks'
      \<and> on_path (edges view inputs resolve) view marks' [view]"
    by (rule visit_complete(2) [OF assms])
  then show ?thesis by (auto simp: detect_union_cycle_def)
qed

lemma validate_ids_iff:
  "validate_ids view seen inputs = Inr () \<longleftrightarrow>
     (inputs \<noteq> [] \<longrightarrow> length view \<le> max_union_view_id_bytes) \<and> (\<forall>i \<in> set inputs. length i \<le> max_union_view_id_bytes)
   \<and> view \<notin> set inputs \<and> distinct inputs \<and> set inputs \<inter> set seen = {}"
  by (induction inputs arbitrary: seen) auto

lemma validate_iff:
  "validate_union_spec view inputs = Inr () \<longleftrightarrow>
     2 \<le> length inputs \<and> length inputs \<le> 8 \<and> distinct inputs \<and> view \<notin> set inputs
   \<and> length view \<le> 256 \<and> (\<forall>i \<in> set inputs. length i \<le> 256)"
  by (auto simp: validate_union_spec_def validate_ids_iff max_union_inputs_def max_union_view_id_bytes_def)

section \<open>The merge order\<close>

record input_row =
  ir_id :: record_id
  ir_timestamp :: "int option"

record input_snapshot =
  is_view_id :: string
  is_accepted_revision :: nat
  is_rows :: "input_row list"

record merged_row =
  mr_id :: record_id
  mr_input :: nat
  mr_timestamp :: "int option"

type_synonym winners = "(record_id \<times> nat \<times> int option) list"

definition or_insert :: "nat \<Rightarrow> input_row \<Rightarrow> winners \<Rightarrow> winners" where
  "or_insert position row winners =
    (case map_of winners (ir_id row) of
       Some _ \<Rightarrow> winners
     | None \<Rightarrow> winners @ [(ir_id row, position, ir_timestamp row)])"

fun collect_winners :: "nat \<Rightarrow> input_snapshot list \<Rightarrow> winners \<Rightarrow> winners" where
  "collect_winners position [] winners = winners"
| "collect_winners position (input # inputs) winners =
     collect_winners (Suc position) inputs (fold (or_insert position) (is_rows input) winners)"

definition merge_key :: "merged_row \<Rightarrow> (bool \<times> int option) \<times> nat \<times> nat \<times> source_id" where
  "merge_key r = ((mr_timestamp r = None, mr_timestamp r), mr_input r, rid_sequence (mr_id r), rid_source (mr_id r))"

text \<open>\<open>hash_order\<close> is the order in which the hash map yields its entries.\<close>

definition merge_union_rows ::
  "(winners \<Rightarrow> winners) \<Rightarrow> input_snapshot list \<Rightarrow> union_error + merged_row list" where
  "merge_union_rows hash_order inputs =
    (let rows = sum_list (map (\<lambda>i. length (is_rows i)) inputs)
     in if rows > max_union_rows then Inl (RowLimit rows max_union_rows)
        else Inr (sort_key merge_key
          (map (\<lambda>(r, input, t). \<lparr>mr_id = r, mr_input = input, mr_timestamp = t\<rparr>)
             (hash_order (collect_winners 0 inputs [])))))"

definition union_input_stale :: "nat \<Rightarrow> nat \<Rightarrow> bool" where
  "union_input_stale fenced current \<longleftrightarrow> fenced \<noteq> current"

text \<open>The first input that holds a record, with that input's timestamp for it.\<close>

fun first_winner :: "nat \<Rightarrow> input_snapshot list \<Rightarrow> record_id \<Rightarrow> (nat \<times> int option) option" where
  "first_winner position [] r = None"
| "first_winner position (input # inputs) r =
    (case find (\<lambda>row. ir_id row = r) (is_rows input) of
       Some row \<Rightarrow> Some (position, ir_timestamp row)
     | None \<Rightarrow> first_winner (Suc position) inputs r)"

lemma fold_or_insert:
  assumes "distinct (map fst winners)"
  shows "distinct (map fst (fold (or_insert p) rows winners))
    \<and> map_of (fold (or_insert p) rows winners) r =
       (case map_of winners r of
          Some x \<Rightarrow> Some x
        | None \<Rightarrow> map_option (\<lambda>row. (p, ir_timestamp row)) (find (\<lambda>row. ir_id row = r) rows))"
  using assms
proof (induction rows arbitrary: winners)
  case Nil
  then show ?case by (simp split: option.splits)
next
  case (Cons row rows)
  have "distinct (map fst (or_insert p row winners))"
    using Cons.prems by (auto simp: or_insert_def map_of_eq_None_iff split: option.splits)
  moreover have "map_of (or_insert p row winners) r =
      (case map_of winners r of Some x \<Rightarrow> Some x
       | None \<Rightarrow> if ir_id row = r then Some (p, ir_timestamp row) else None)"
    by (auto simp: or_insert_def map_add_def split: option.splits)
  ultimately show ?case using Cons.IH [of "or_insert p row winners"] by (auto split: option.splits)
qed

lemma collect_winners_spec:
  assumes "distinct (map fst winners)"
  shows "distinct (map fst (collect_winners p inputs winners))
    \<and> map_of (collect_winners p inputs winners) r =
       (case map_of winners r of Some x \<Rightarrow> Some x | None \<Rightarrow> first_winner p inputs r)"
  using assms
proof (induction inputs arbitrary: p winners)
  case Nil
  then show ?case by (simp split: option.splits)
next
  case (Cons input inputs)
  note f = fold_or_insert [OF Cons.prems, of p "is_rows input"]
  then show ?case
    using Cons.IH [of "fold (or_insert p) (is_rows input) winners" "Suc p"] by (auto split: option.splits)
qed

lemma first_winner_iff:
  "first_winner p inputs r = None \<longleftrightarrow> (\<forall>input \<in> set inputs. \<forall>row \<in> set (is_rows input). ir_id row \<noteq> r)"
  by (induction inputs arbitrary: p) (auto simp: find_None_iff find_Some_iff split: option.splits)

text \<open>The key determines the row among rows of different records, so sorting by it forgets the order.\<close>

lemma merge_key_inj: "merge_key a = merge_key b \<Longrightarrow> a = b" for a b :: merged_row
  by (cases a; cases b; cases "mr_id a"; cases "mr_id b") (auto simp: merge_key_def)

lemma sort_merge_unique:
  assumes "mset xs = mset ys"
  shows "sort_key merge_key xs = sort_key merge_key ys"
proof (rule properties_for_sort_key)
  show "mset (sort_key merge_key ys) = mset xs" using assms by simp
  show "sorted (map merge_key (sort_key merge_key ys))" by simp
  show "filter (\<lambda>x. merge_key k = merge_key x) (sort_key merge_key ys) = filter (\<lambda>x. merge_key k = merge_key x) xs"
    if "k \<in> set (sort_key merge_key ys)" for k
  proof -
    have eq: "(\<lambda>x. merge_key k = merge_key x) = (\<lambda>x. k = x)" using merge_key_inj by blast
    have copies: "filter (\<lambda>x. k = x) zs = replicate (count (mset zs) k) k" for zs :: "merged_row list"
      by (induction zs) auto
    show ?thesis unfolding eq copies using assms by simp
  qed
qed

section \<open>Publication and memory\<close>

fun fences_stale :: "string \<Rightarrow> fence list \<Rightarrow> fence list \<Rightarrow> union_error option" where
  "fences_stale view [] current = None"
| "fences_stale view (f # fs) current =
    (case find (\<lambda>e. fe_source e = fe_source f) current of
       None \<Rightarrow> Some (StaleInput view (''source '' @ fe_source f @ '' is no longer published''))
     | Some e \<Rightarrow>
         if fe_generation e \<noteq> fe_generation f
         then Some (StaleInput view (''source '' @ fe_source f @ '' restarted during the merge''))
         else if fe_high_watermark e \<noteq> fe_high_watermark f
         then Some (StaleInput view (''source '' @ fe_source f @ '' advanced during the merge''))
         else fences_stale view fs current)"

definition verify_source_fence :: "string \<Rightarrow> fence list \<Rightarrow> fence list \<Rightarrow> union_error + unit" where
  "verify_source_fence view frozen current =
    (case fences_stale view frozen current of
       Some e \<Rightarrow> Inl e
     | None \<Rightarrow>
         if length current \<noteq> length frozen
         then Inl (StaleInput view ''input source set changed during the merge'')
         else Inr ())"

text \<open>A window's own check and the worker's are the same; only the window names the view.\<close>

lemma verify_source_fence_eq:
  "verify_source_fence view frozen current = map_sum (StaleInput view) id (verify_raw_fence frozen current)"
proof -
  have "fences_stale view frozen current = map_option (StaleInput view) (fences_moved frozen current)"
    by (induction frozen) (auto split: option.splits)
  then show ?thesis by (auto simp: verify_source_fence_def verify_raw_fence_def split: option.splits)
qed

datatype json_value =
    JsonNull
  | JsonBool bool
  | JsonNumber string
  | JsonString string
  | JsonArray "json_value list"
  | JsonObject "(string \<times> json_value) list"

definition union_overflow :: union_error where
  "union_overflow = ByteLimit u64_max u64_max"

definition add_bytes :: "nat \<Rightarrow> nat \<Rightarrow> union_error + nat" where
  "add_bytes a b = (case checked_add_u64 a b of None \<Rightarrow> Inl union_overflow | Some c \<Rightarrow> Inr c)"

definition mul_bytes :: "nat \<Rightarrow> nat \<Rightarrow> union_error + nat" where
  "mul_bytes a b = (if a * b \<le> u64_max then Inr (a * b) else Inl union_overflow)"

fun value_bytes :: "json_value \<Rightarrow> union_error + nat" where
  "value_bytes JsonNull = Inr 8"
| "value_bytes (JsonBool _) = Inr 8"
| "value_bytes (JsonNumber _) = Inr 32"
| "value_bytes (JsonString s) = Inr (length s)"
| "value_bytes (JsonArray vs) = mul_bytes (length vs) 128"
| "value_bytes (JsonObject vs) = mul_bytes (length vs) 192"

definition bind_sum :: "'e + 'a \<Rightarrow> ('a \<Rightarrow> 'e + 'b) \<Rightarrow> 'e + 'b" where
  "bind_sum m f = (case m of Inl e \<Rightarrow> Inl e | Inr x \<Rightarrow> f x)"

fun field_bytes :: "(string \<times> string) list \<Rightarrow> (string \<times> json_value) list \<Rightarrow> nat \<Rightarrow> union_error + nat" where
  "field_bytes types [] acc = Inr acc"
| "field_bytes types ((name, v) # fs) acc =
    bind_sum (value_bytes v) (\<lambda>n.
    bind_sum (add_bytes acc (length name)) (\<lambda>a.
    bind_sum (add_bytes a (case map_of types name of None \<Rightarrow> 0 | Some t \<Rightarrow> length t)) (\<lambda>a.
    bind_sum (add_bytes a n) (\<lambda>a.
    bind_sum (add_bytes a 128) (field_bytes types fs)))))"

definition union_row_carrier_bytes ::
  "nat \<Rightarrow> nat \<Rightarrow> (string \<times> json_value) list \<Rightarrow> (string \<times> string) list \<Rightarrow> union_error + nat" where
  "union_row_carrier_bytes raw raw_bytes fs types =
    bind_sum (add_bytes 512 raw) (\<lambda>a. bind_sum (add_bytes a raw_bytes) (field_bytes types fs))"

record frozen_row =
  fw_raw :: nat
  fw_raw_bytes :: nat
  fw_fields :: "(string \<times> json_value) list"
  fw_field_types :: "(string \<times> string) list"

record frozen_input =
  fi_view_id :: string
  fi_rows :: "frozen_row list"

fun rows_bytes :: "frozen_row list \<Rightarrow> nat \<Rightarrow> union_error + nat" where
  "rows_bytes [] acc = Inr acc"
| "rows_bytes (row # rows) acc =
    bind_sum (union_row_carrier_bytes (fw_raw row) (fw_raw_bytes row) (fw_fields row) (fw_field_types row))
      (\<lambda>n. bind_sum (add_bytes acc n) (rows_bytes rows))"

fun inputs_bytes :: "frozen_input list \<Rightarrow> nat \<Rightarrow> union_error + nat" where
  "inputs_bytes [] acc = Inr acc"
| "inputs_bytes (input # inputs) acc =
    bind_sum (add_bytes acc (length (fi_view_id input))) (\<lambda>a.
    bind_sum (rows_bytes (fi_rows input) a) (inputs_bytes inputs))"

definition union_workspace_bytes :: "frozen_input list \<Rightarrow> union_error + nat" where
  "union_workspace_bytes inputs = bind_sum (inputs_bytes inputs 0) (\<lambda>carrier. mul_bytes carrier 4)"

text \<open>The charge in unbounded arithmetic.\<close>

fun value_charge :: "json_value \<Rightarrow> nat" where
  "value_charge JsonNull = 8"
| "value_charge (JsonBool _) = 8"
| "value_charge (JsonNumber _) = 32"
| "value_charge (JsonString s) = length s"
| "value_charge (JsonArray vs) = length vs * 128"
| "value_charge (JsonObject vs) = length vs * 192"

definition field_charge :: "(string \<times> string) list \<Rightarrow> string \<times> json_value \<Rightarrow> nat" where
  "field_charge types = (\<lambda>(name, v).
     length name + (case map_of types name of None \<Rightarrow> 0 | Some t \<Rightarrow> length t) + value_charge v + 128)"

definition row_charge :: "frozen_row \<Rightarrow> nat" where
  "row_charge row = 512 + fw_raw row + fw_raw_bytes row
     + sum_list (map (field_charge (fw_field_types row)) (fw_fields row))"

definition carrier_charge :: "frozen_input list \<Rightarrow> nat" where
  "carrier_charge inputs = sum_list (map (\<lambda>i. length (fi_view_id i) + sum_list (map row_charge (fi_rows i))) inputs)"

definition checked :: "nat \<Rightarrow> union_error + nat" where
  "checked n = (if n \<le> u64_max then Inr n else Inl union_overflow)"

text \<open>Lengths are at most \<open>u64::MAX\<close>, and an overflow on the way is one of the total.\<close>

definition lengths_fit :: "frozen_row \<Rightarrow> bool" where
  "lengths_fit row \<longleftrightarrow> list_all (\<lambda>(name, v). \<forall>s. v = JsonString s \<longrightarrow> length s \<le> u64_max) (fw_fields row)"

lemma add_bytes_checked: "add_bytes a b = checked (a + b)"
  by (auto simp: add_bytes_def checked_def checked_add_u64_def)

lemma value_bytes_checked:
  "(\<forall>s. v = JsonString s \<longrightarrow> length s \<le> u64_max) \<Longrightarrow> value_bytes v = checked (value_charge v)"
  by (cases v) (auto simp: checked_def mul_bytes_def u64_max_def)

lemma field_bytes_checked:
  assumes "list_all (\<lambda>(name, v). \<forall>s. v = JsonString s \<longrightarrow> length s \<le> u64_max) fs" "acc \<le> u64_max"
  shows "field_bytes types fs acc = checked (acc + sum_list (map (field_charge types) fs))"
  using assms
proof (induction types fs acc rule: field_bytes.induct)
  case (1 types acc)
  then show ?case by (simp add: checked_def)
next
  case (2 types name v fs acc)
  have v: "value_bytes v = checked (value_charge v)" using 2(2) by (simp add: value_bytes_checked)
  have IH: "field_bytes types fs a = checked (a + sum_list (map (field_charge types) fs))" if "a \<le> u64_max" for a
    using 2 that by (cases "value_bytes v"; simp add: bind_sum_def)
  show ?case
    using IH unfolding field_bytes.simps v add_bytes_checked
    by (auto simp: bind_sum_def checked_def field_charge_def)
qed

lemma row_bytes_checked:
  assumes "lengths_fit row"
  shows "union_row_carrier_bytes (fw_raw row) (fw_raw_bytes row) (fw_fields row) (fw_field_types row)
    = checked (row_charge row)"
  using assms field_bytes_checked [of "fw_fields row"]
  by (auto simp: union_row_carrier_bytes_def add_bytes_checked bind_sum_def checked_def row_charge_def lengths_fit_def)

lemma rows_bytes_checked:
  "list_all lengths_fit rows \<Longrightarrow> acc \<le> u64_max \<Longrightarrow> rows_bytes rows acc = checked (acc + sum_list (map row_charge rows))"
proof (induction rows arbitrary: acc)
  case Nil
  then show ?case by (simp add: checked_def)
next
  case (Cons row rows)
  then have row: "union_row_carrier_bytes (fw_raw row) (fw_raw_bytes row) (fw_fields row) (fw_field_types row)
    = checked (row_charge row)" by (simp add: row_bytes_checked)
  show ?case
    unfolding rows_bytes.simps row add_bytes_checked
    using Cons by (auto simp: bind_sum_def checked_def)
qed

lemma inputs_bytes_checked:
  "list_all (\<lambda>i. list_all lengths_fit (fi_rows i)) inputs \<Longrightarrow> acc \<le> u64_max
    \<Longrightarrow> inputs_bytes inputs acc = checked (acc + carrier_charge inputs)"
proof (induction inputs arbitrary: acc)
  case Nil
  then show ?case by (simp add: checked_def carrier_charge_def)
next
  case (Cons input inputs)
  show ?case
    unfolding inputs_bytes.simps add_bytes_checked
    using Cons rows_bytes_checked [of "fi_rows input"] by (auto simp: bind_sum_def checked_def carrier_charge_def)
qed

section \<open>Properties\<close>

text \<open>C32. The dependency check.  Whatever the stored unions are, the search returns, and it accepts a
  candidate exactly when: the candidate and the views it depends on, directly or through other unions, are
  at most 64; none of the unions among these dependencies declares more than 8 inputs; and neither the
  candidate nor any of them depends on itself.  So no union is cut short: a wider union or a larger
  graph is refused, whether it holds a cycle or not.\<close>

theorem union_cycle_check_exact:
  "detect_union_cycle view inputs resolve = Inr () \<longleftrightarrow>
    (let E = edges view inputs resolve; R = E\<^sup>* `` {view} in
       finite R \<and> card R \<le> 64
     \<and> {x \<in> R. x \<noteq> view \<and> 8 < length (children view inputs resolve x)} = {}
     \<and> {x \<in> R. (x, x) \<in> E\<^sup>+} = {})"
proof -
  have "detect_union_cycle view inputs resolve = Inr () \<longleftrightarrow> searchable view inputs resolve"
    using detect_searchable detect_complete by blast
  then show ?thesis
    by (auto simp: searchable_def Let_def max_visited_def max_union_inputs_def not_less)
qed

text \<open>On a candidate over a view and a union that share an input.\<close>

lemma sample_edges:
  "edges ''u'' [''a'', ''b''] (\<lambda>v. if v = ''b'' then Some [''a'', ''c''] else None)
     = {(''u'', ''a''), (''u'', ''b''), (''b'', ''a''), (''b'', ''c'')}"
  by (auto simp: edges_def children_def split: if_splits option.splits)

theorem union_cycle_check_exact_witness:
  "{x \<in> {(''u'', ''a''), (''u'', ''b''), (''b'', ''a''), (''b'', ''c'')}\<^sup>* `` {''u''}.
      (x, x) \<in> {(''u'', ''a''), (''u'', ''b''), (''b'', ''a''), (''b'', ''c'')}\<^sup>+} = {}"
proof -
  have "detect_union_cycle ''u'' [''a'', ''b''] (\<lambda>v. if v = ''b'' then Some [''a'', ''c''] else None) = Inr ()"
    by (simp add: detect_union_cycle_def visit.simps max_visited_def max_union_inputs_def)
  then show ?thesis
    using union_cycle_check_exact [of "''u''" "[''a'', ''b'']" "\<lambda>v. if v = ''b'' then Some [''a'', ''c''] else None",
        unfolded sample_edges] by (simp add: Let_def)
qed

text \<open>C33. The merge.  Within the row limit the merged rows are exactly the records of the inputs, each
  once, with the position and timestamp of the first input that holds it, in the order of timestamp
  with missing ones last, then input, sequence and source; and the result does not depend on the
  order in which the hash map yields its entries.\<close>

theorem union_merge_order:
  assumes "\<And>ws. mset (hash_order ws) = mset ws"
    and "sum_list (map (\<lambda>i. length (is_rows i)) inputs) \<le> 1000000"
  shows "\<exists>rows. merge_union_rows hash_order inputs = Inr rows
    \<and> sorted (map merge_key rows) \<and> distinct (map mr_id rows)
    \<and> set (map mr_id rows) = (\<Union>input \<in> set inputs. ir_id ` set (is_rows input))
    \<and> list_all (\<lambda>row. first_winner 0 inputs (mr_id row) = Some (mr_input row, mr_timestamp row)) rows
    \<and> merge_union_rows (\<lambda>ws. ws) inputs = Inr rows"
proof -
  let ?ws = "collect_winners 0 inputs []"
  let ?row = "\<lambda>(r, input, t). \<lparr>mr_id = r, mr_input = input, mr_timestamp = t\<rparr>"
  let ?rows = "sort_key merge_key (map ?row (hash_order ?ws))"
  have c: "distinct (map fst ?ws)" "map_of ?ws r = first_winner 0 inputs r" for r
    using collect_winners_spec [of "[]" 0 inputs r] by simp_all
  have ms: "mset (map ?row (hash_order ?ws)) = mset (map ?row ?ws)" using assms(1) by simp
  have mr: "mset ?rows = mset (map ?row ?ws)" using ms by simp
  have ids: "mset (map mr_id ?rows) = mset (map fst ?ws)"
  proof -
    have "mset (map mr_id ?rows) = mset (map mr_id (map ?row ?ws))" by (subst (1 2) mset_map) (simp only: mr)
    also have "map mr_id (map ?row ?ws) = map fst ?ws" by (auto simp: split_beta)
    finally show ?thesis .
  qed
  have rows: "set ?rows = ?row ` set ?ws" using arg_cong [OF mr, of set_mset] by simp
  have "distinct (map mr_id ?rows)" using mset_eq_imp_distinct_iff [OF ids] c(1) by simp
  moreover have "set (map mr_id ?rows) = (\<Union>input \<in> set inputs. ir_id ` set (is_rows input))"
  proof -
    have "set (map mr_id ?rows) = set (map fst ?ws)" using arg_cong [OF ids, of set_mset] by (simp only: set_mset_mset)
    also have "\<dots> = {r. map_of ?ws r \<noteq> None}" by (auto simp: map_of_eq_None_iff)
    also have "\<dots> = (\<Union>input \<in> set inputs. ir_id ` set (is_rows input))"
      unfolding c(2) by (auto simp: first_winner_iff)
    finally show ?thesis .
  qed
  moreover have winner: "first_winner 0 inputs (mr_id row) = Some (mr_input row, mr_timestamp row)" if here: "row \<in> set ?rows" for row
  proof -
    have "row \<in> ?row ` set ?ws" using here by (simp only: rows)
    then obtain w where w: "w \<in> set ?ws" "row = ?row w" by (rule imageE) blast
    then have "map_of ?ws (fst w) = Some (snd w)" using c(1) by simp
    then show ?thesis using w(2) c(2) [of "fst w"] by (simp add: split_beta)
  qed
  then have "\<forall>row \<in> set ?rows. first_winner 0 inputs (mr_id row) = Some (mr_input row, mr_timestamp row)" by blast
  moreover have "sort_key merge_key (map ?row (hash_order ?ws)) = sort_key merge_key (map ?row ?ws)"
    by (rule sort_merge_unique [OF ms])
  moreover have "\<not> max_union_rows < sum_list (map (\<lambda>i. length (is_rows i)) inputs)"
    using assms(2) by (simp add: max_union_rows_def)
  ultimately show ?thesis
    by (intro exI [of _ ?rows] conjI) (simp_all only: merge_union_rows_def Let_def list_all_iff if_False ball_triv
        sorted_sort_key HOL.simp_thms)
qed

definition sample_snapshots :: "input_snapshot list" where
  "sample_snapshots =
    (let r = \<lambda>n t. \<lparr>ir_id = \<lparr>rid_source = SourceId [1], rid_sequence = n\<rparr>, ir_timestamp = t\<rparr>
     in [\<lparr>is_view_id = ''a'', is_accepted_revision = 1, is_rows = [r 1 None, r 2 (Some 9)]\<rparr>,
         \<lparr>is_view_id = ''b'', is_accepted_revision = 1, is_rows = [r 2 (Some 1), r 3 (Some (-4))]\<rparr>])"

theorem union_merge_order_witness:
  "\<exists>rows. merge_union_rows rev sample_snapshots = Inr rows \<and> sorted (map merge_key rows)
    \<and> merge_union_rows (\<lambda>ws. ws) sample_snapshots = Inr rows
    \<and> map (\<lambda>r. (rid_sequence (mr_id r), mr_input r)) rows = [(3, 1), (2, 0), (1, 0)]"
proof -
  have "\<exists>rows. merge_union_rows rev sample_snapshots = Inr rows
    \<and> sorted (map merge_key rows) \<and> distinct (map mr_id rows)
    \<and> set (map mr_id rows) = (\<Union>input \<in> set sample_snapshots. ir_id ` set (is_rows input))
    \<and> list_all (\<lambda>row. first_winner 0 sample_snapshots (mr_id row) = Some (mr_input row, mr_timestamp row)) rows
    \<and> merge_union_rows (\<lambda>ws. ws) sample_snapshots = Inr rows"
    by (rule union_merge_order) (simp_all add: sample_snapshots_def)
  moreover have "\<exists>rows. merge_union_rows (\<lambda>ws. ws) sample_snapshots = Inr rows
    \<and> map (\<lambda>r. (rid_sequence (mr_id r), mr_input r)) rows = [(3, 1), (2, 0), (1, 0)]"
    by (simp add: merge_union_rows_def sample_snapshots_def or_insert_def max_union_rows_def merge_key_def
        less_eq_prod_def less_prod_def)
  ultimately show ?thesis by auto
qed

text \<open>The memory a union is charged.  With the lengths of strings within 64 bits, the charge is exactly
  four times the sum over inputs and rows in unbounded arithmetic, and refused exactly where that sum
  exceeds 64 bits: no partial sum overflows earlier and nothing wraps.\<close>

theorem union_workspace_exact:
  assumes "list_all (\<lambda>i. list_all lengths_fit (fi_rows i)) inputs"
  shows "union_workspace_bytes inputs =
    (if 4 * carrier_charge inputs \<le> 2 ^ 64 - 1 then Inr (4 * carrier_charge inputs)
     else Inl (ByteLimit (2 ^ 64 - 1) (2 ^ 64 - 1)))"
  using inputs_bytes_checked [OF assms, of 0]
  by (auto simp: union_workspace_bytes_def bind_sum_def checked_def mul_bytes_def union_overflow_def u64_max_def)

theorem union_workspace_exact_witness:
  "union_workspace_bytes [\<lparr>fi_view_id = ''v'', fi_rows = [\<lparr>fw_raw = 3, fw_raw_bytes = 4,
      fw_fields = [(''k'', JsonString ''x'')], fw_field_types = [(''k'', ''String'')]\<rparr>]\<rparr>] = Inr 2624"
  using union_workspace_exact [of "[\<lparr>fi_view_id = ''v'', fi_rows = [\<lparr>fw_raw = 3, fw_raw_bytes = 4,
      fw_fields = [(''k'', JsonString ''x'')], fw_field_types = [(''k'', ''String'')]\<rparr>]\<rparr>]"]
  by (simp add: lengths_fit_def carrier_charge_def row_charge_def field_charge_def u64_max_def)

end
