(* ===== verification/Appended_Chunks.thy ===== *)
theory Appended_Chunks
  imports Prelude
begin

text \<open>
  The published sequence that a refresh extends, \<open>crates/lvu-view/src/appended.rs\<close>: immutable chunks
  whose sizes decrease, an index of where each starts, and the builder a scan appends to.

  A slice's \<open>binary_search\<close> is a parameter: which of several equal elements it answers is unspecified
  (named hypothesis \<open>search_ok\<close>).  \<open>None\<close> is a panic: an index out of range or a subtraction below
  zero.
\<close>

section \<open>The sequence\<close>

record 'a appended =
  ap_chunks :: "'a list list"
  ap_starts :: "nat list"
  ap_len :: nat

definition appended_default :: "'a appended" where
  "appended_default = \<lparr>ap_chunks = [], ap_starts = [], ap_len = 0\<rparr>"

definition nth_opt :: "'a list \<Rightarrow> nat \<Rightarrow> 'a option" where
  "nth_opt xs i = (if i < length xs then Some (xs ! i) else None)"

definition sub_opt :: "nat \<Rightarrow> nat \<Rightarrow> nat option" where
  "sub_opt a b = (if b \<le> a then Some (a - b) else None)"

definition appended_len :: "'a appended \<Rightarrow> nat" where
  "appended_len a = ap_len a"

definition appended_is_empty :: "'a appended \<Rightarrow> bool" where
  "appended_is_empty a \<longleftrightarrow> ap_len a = 0"

definition appended_iter :: "'a appended \<Rightarrow> 'a list" where
  "appended_iter a = concat (ap_chunks a)"

text \<open>The answer of a search: \<open>Inr i\<close> is \<open>Ok(i)\<close>, \<open>Inl i\<close> is \<open>Err(i)\<close>.\<close>

definition appended_chunk_of :: "(nat list \<Rightarrow> nat \<Rightarrow> nat + nat) \<Rightarrow> 'a appended \<Rightarrow> nat \<Rightarrow> nat option option" where
  "appended_chunk_of search a index =
    (if index \<ge> ap_len a then Some None
     else (case search (ap_starts a) index of
       Inr exact \<Rightarrow> Some (Some exact)
     | Inl after \<Rightarrow> map_option Some (sub_opt after 1)))"

definition appended_get :: "(nat list \<Rightarrow> nat \<Rightarrow> nat + nat) \<Rightarrow> 'a appended \<Rightarrow> nat \<Rightarrow> 'a option option" where
  "appended_get search a index =
    Option.bind (appended_chunk_of search a index) (\<lambda>found.
      case found of
        None \<Rightarrow> Some None
      | Some chunk \<Rightarrow>
          Option.bind (nth_opt (ap_chunks a) chunk) (\<lambda>c.
          Option.bind (nth_opt (ap_starts a) chunk) (\<lambda>start.
          Option.bind (sub_opt index start) (\<lambda>i. Some (nth_opt c i)))))"

definition pop_last :: "'a appended \<Rightarrow> 'a option \<times> 'a appended" where
  "pop_last a =
    (if ap_chunks a = [] \<or> last (ap_chunks a) = [] then (None, a)
     else
       let chunk = last (ap_chunks a);
           start = last (ap_starts a);
           a1 = a\<lparr>ap_chunks := butlast (ap_chunks a), ap_starts := butlast (ap_starts a),
                  ap_len := ap_len a - length chunk\<rparr>
       in (Some (last chunk),
           if length chunk > 1
           then a1\<lparr>ap_chunks := ap_chunks a1 @ [butlast chunk], ap_starts := ap_starts a1 @ [start],
                   ap_len := ap_len a1 + length (butlast chunk)\<rparr>
           else a1))"

text \<open>Merge while the chunk being added is at least as large as the one before it.\<close>

function merge_loop :: "'a list list \<Rightarrow> nat list \<Rightarrow> nat \<Rightarrow> 'a list \<Rightarrow> 'a list list \<times> nat list \<times> nat \<times> 'a list" where
  "merge_loop chunks starts n pending =
    (if chunks \<noteq> [] \<and> length (last chunks) \<le> length pending
     then merge_loop (butlast chunks) (butlast starts) (n - length (last chunks)) (last chunks @ pending)
     else (chunks, starts, n, pending))"
  by pat_completeness auto
termination by (relation "measure (\<lambda>(chunks, _). length chunks)") auto

declare merge_loop.simps [simp del]

definition appended_extend :: "'a list \<Rightarrow> 'a appended \<Rightarrow> 'a appended" where
  "appended_extend values a =
    (if values = [] then a
     else
       let (chunks, starts, n, pending) = merge_loop (ap_chunks a) (ap_starts a) (ap_len a) values
       in a\<lparr>ap_chunks := chunks @ [pending], ap_starts := starts @ [n], ap_len := n + length pending\<rparr>)"

definition appended_from_vec :: "'a list \<Rightarrow> 'a appended" where
  "appended_from_vec values = appended_extend values appended_default"

function partition_loop ::
  "(nat \<Rightarrow> 'a option option) \<Rightarrow> ('a \<Rightarrow> bool) \<Rightarrow> nat \<Rightarrow> nat \<Rightarrow> nat option" where
  "partition_loop get predicate low high =
    (if low < high then
       let middle = low + (high - low) div 2
       in Option.bind (get middle) (\<lambda>found.
            if (case found of Some v \<Rightarrow> predicate v | None \<Rightarrow> False)
            then partition_loop get predicate (middle + 1) high
            else partition_loop get predicate low middle)
     else Some low)"
  by pat_completeness auto
termination by (relation "measure (\<lambda>(_, _, low, high). high - low)") auto

declare partition_loop.simps [simp del]

definition partition_point ::
  "(nat list \<Rightarrow> nat \<Rightarrow> nat + nat) \<Rightarrow> ('a \<Rightarrow> bool) \<Rightarrow> 'a appended \<Rightarrow> nat option" where
  "partition_point search predicate a = partition_loop (appended_get search a) predicate 0 (ap_len a)"

function chunk_loop :: "'a :: linorder list list \<Rightarrow> 'a \<Rightarrow> nat \<Rightarrow> nat \<Rightarrow> nat option" where
  "chunk_loop chunks x low high =
    (if low < high then
       let middle = (low + high) div 2
       in Option.bind (nth_opt chunks middle) (\<lambda>c.
          Option.bind (nth_opt c 0) (\<lambda>first.
            if first > x then chunk_loop chunks x low middle
            else chunk_loop chunks x (middle + 1) high))
     else Some low)"
  by pat_completeness auto
termination by (relation "measure (\<lambda>(_, _, low, high). high - low)") auto

declare chunk_loop.simps [simp del]

definition appended_binary_search ::
  "('a list \<Rightarrow> 'a \<Rightarrow> nat + nat) \<Rightarrow> 'a :: linorder \<Rightarrow> 'a appended \<Rightarrow> (nat + nat) option" where
  "appended_binary_search search x a =
    Option.bind (chunk_loop (ap_chunks a) x 0 (length (ap_chunks a))) (\<lambda>low.
      if low = 0 then Some (Inl 0)
      else
        Option.bind (nth_opt (ap_chunks a) (low - 1)) (\<lambda>c.
        Option.bind (nth_opt (ap_starts a) (low - 1)) (\<lambda>start.
          Some (case search c x of Inr index \<Rightarrow> Inr (start + index) | Inl index \<Rightarrow> Inl (start + index)))))"

section \<open>The builder\<close>

record 'a appended_builder =
  ab_base :: "'a appended"
  ab_added :: "'a list"

definition builder_new :: "'a appended \<Rightarrow> 'a appended_builder" where
  "builder_new base = \<lparr>ab_base = base, ab_added = []\<rparr>"

definition builder_len :: "'a appended_builder \<Rightarrow> nat" where
  "builder_len b = ap_len (ab_base b) + length (ab_added b)"

definition builder_last :: "(nat list \<Rightarrow> nat \<Rightarrow> nat + nat) \<Rightarrow> 'a appended_builder \<Rightarrow> 'a option option" where
  "builder_last search b =
    (if ab_added b \<noteq> [] then Some (Some (last (ab_added b)))
     else (case sub_opt (ap_len (ab_base b)) 1 of
       None \<Rightarrow> Some None
     | Some i \<Rightarrow> appended_get search (ab_base b) i))"

definition builder_push :: "'a \<Rightarrow> 'a appended_builder \<Rightarrow> 'a appended_builder" where
  "builder_push x b = b\<lparr>ab_added := ab_added b @ [x]\<rparr>"

definition builder_reopen :: "'a appended_builder \<Rightarrow> 'a appended_builder" where
  "builder_reopen b =
    (if ab_added b = [] then
       (case pop_last (ab_base b) of
          (Some x, base) \<Rightarrow> b\<lparr>ab_base := base, ab_added := [x]\<rparr>
        | (None, base) \<Rightarrow> b\<lparr>ab_base := base\<rparr>)
     else b)"

text \<open>What a caller does through \<open>last_mut\<close>: the last value, where there is one, is replaced.\<close>

definition builder_last_mut :: "('a \<Rightarrow> 'a) \<Rightarrow> 'a appended_builder \<Rightarrow> 'a appended_builder" where
  "builder_last_mut f b =
    (let b1 = builder_reopen b
     in if ab_added b1 = [] then b1
        else b1\<lparr>ab_added := butlast (ab_added b1) @ [f (last (ab_added b1))]\<rparr>)"

definition builder_finish :: "'a appended_builder \<Rightarrow> 'a appended" where
  "builder_finish b = appended_extend (ab_added b) (ab_base b)"

section \<open>Well-formed sequences\<close>

fun starts_from :: "nat \<Rightarrow> 'a list list \<Rightarrow> nat list" where
  "starts_from n [] = []"
| "starts_from n (c # cs) = n # starts_from (n + length c) cs"

definition appended_ok :: "'a appended \<Rightarrow> bool" where
  "appended_ok a \<longleftrightarrow>
     ap_starts a = starts_from 0 (ap_chunks a) \<and> ap_len a = length (concat (ap_chunks a))
   \<and> (\<forall>c \<in> set (ap_chunks a). c \<noteq> []) \<and> sorted_wrt (>) (map length (ap_chunks a))"

lemma starts_from_append:
  "starts_from n (cs @ ds) = starts_from n cs @ starts_from (n + length (concat cs)) ds"
  by (induction cs arbitrary: n) (auto simp: add.assoc)

lemma length_starts [simp]: "length (starts_from n cs) = length cs"
  by (induction cs arbitrary: n) auto

lemma appended_default_ok [simp]: "appended_ok appended_default"
  by (simp add: appended_ok_def appended_default_def)

lemma merge_loop_spec:
  assumes "merge_loop chunks starts n pending = (chunks', starts', n', pending')"
    and "starts = starts_from 0 chunks" "n = length (concat chunks)" "\<forall>c \<in> set chunks. c \<noteq> []"
    and "sorted_wrt (>) (map length chunks)" "pending \<noteq> []"
  shows "concat chunks' @ pending' = concat chunks @ pending \<and> starts' = starts_from 0 chunks'
    \<and> n' = length (concat chunks') \<and> (\<forall>c \<in> set (chunks' @ [pending']). c \<noteq> [])
    \<and> sorted_wrt (>) (map length (chunks' @ [pending']))"
  using assms
proof (induction chunks starts n pending rule: merge_loop.induct)
  case (1 chunks starts n pending)
  show ?case
  proof (cases "chunks \<noteq> [] \<and> length (last chunks) \<le> length pending")
    case True
    then obtain cs c where cs: "chunks = cs @ [c]" by (metis append_butlast_last_id)
    have step: "merge_loop (butlast chunks) (butlast starts) (n - length (last chunks)) (last chunks @ pending)
        = (chunks', starts', n', pending')"
      using 1(2) True by (subst (asm) merge_loop.simps) simp
    have "concat chunks' @ pending' = concat (butlast chunks) @ last chunks @ pending \<and> starts' = starts_from 0 chunks'
      \<and> n' = length (concat chunks') \<and> (\<forall>c \<in> set (chunks' @ [pending']). c \<noteq> [])
      \<and> sorted_wrt (>) (map length (chunks' @ [pending']))"
      by (rule 1(1) [OF True step]) (use 1(3-7) cs in \<open>auto simp: starts_from_append sorted_wrt_append\<close>)
    then show ?thesis using cs by simp
  next
    case False
    then have res: "chunks' = chunks" "starts' = starts" "n' = n" "pending' = pending"
      using 1(2) by (subst (asm) merge_loop.simps; simp)+
    have "\<forall>x \<in> set chunks. length pending < length x"
    proof (cases "chunks = []")
      case nonempty: False
      then obtain cs c where "chunks = cs @ [c]" by (metis append_butlast_last_id)
      then show ?thesis using False 1(6) by (auto simp: sorted_wrt_append)
    qed simp
    then show ?thesis using res 1(3-7) by (auto simp: sorted_wrt_append)
  qed
qed

lemma extend_spec:
  assumes "appended_ok a"
  shows "appended_ok (appended_extend vs a) \<and> appended_iter (appended_extend vs a) = appended_iter a @ vs"
proof (cases "vs = []")
  case True
  then show ?thesis using assms by (simp add: appended_extend_def)
next
  case False
  obtain chunks starts n pending where m: "merge_loop (ap_chunks a) (ap_starts a) (ap_len a) vs = (chunks, starts, n, pending)"
    by (metis prod_cases4)
  have s: "concat chunks @ pending = concat (ap_chunks a) @ vs \<and> starts = starts_from 0 chunks
      \<and> n = length (concat chunks) \<and> (\<forall>c \<in> set (chunks @ [pending]). c \<noteq> [])
      \<and> sorted_wrt (>) (map length (chunks @ [pending]))"
    by (rule merge_loop_spec [OF m]) (use assms False in \<open>auto simp: appended_ok_def\<close>)
  then have "length (concat chunks) + length pending = length (concat (ap_chunks a)) + length vs"
    by (metis length_append)
  then show ?thesis
    using s False m by (simp add: appended_extend_def appended_ok_def appended_iter_def starts_from_append)
qed

lemma from_vec_spec: "appended_ok (appended_from_vec vs) \<and> appended_iter (appended_from_vec vs) = vs"
  using extend_spec [OF appended_default_ok, of vs]
  by (simp add: appended_from_vec_def appended_iter_def appended_default_def del: appended_default_ok)

lemma appended_len_ok: "appended_ok a \<Longrightarrow> ap_len a = length (appended_iter a)"
  by (simp add: appended_ok_def appended_iter_def)

lemma pop_last_spec:
  assumes "appended_ok a"
  shows "(case pop_last a of
      (None, b) \<Rightarrow> appended_iter a = [] \<and> b = a
    | (Some x, b) \<Rightarrow> appended_ok b \<and> appended_iter a = appended_iter b @ [x])"
proof (cases "ap_chunks a = []")
  case True
  then show ?thesis by (simp add: pop_last_def appended_iter_def)
next
  case False
  then obtain cs c where cs: "ap_chunks a = cs @ [c]" by (metis append_butlast_last_id)
  have c: "c \<noteq> []" using assms cs by (simp add: appended_ok_def)
  then obtain ds d where ds: "c = ds @ [d]" by (metis append_butlast_last_id)
  show ?thesis
    using assms cs c ds
    by (auto simp: pop_last_def appended_ok_def appended_iter_def Let_def starts_from_append sorted_wrt_append)
qed

section \<open>Lookups\<close>

definition slice_search_ok :: "('a :: linorder list \<Rightarrow> 'a \<Rightarrow> nat + nat) \<Rightarrow> bool" where
  "slice_search_ok search \<longleftrightarrow> (\<forall>xs x. sorted xs \<longrightarrow>
     (case search xs x of
        Inr i \<Rightarrow> i < length xs \<and> xs ! i = x
      | Inl i \<Rightarrow> i \<le> length xs \<and> (\<forall>y \<in> set (take i xs). y < x) \<and> (\<forall>y \<in> set (drop i xs). x < y)))"

text \<open>One search that keeps the contract: the first element not below the value looked for.\<close>

definition first_not_below :: "'a :: linorder list \<Rightarrow> 'a \<Rightarrow> nat + nat" where
  "first_not_below xs x =
    (let i = length (takeWhile (\<lambda>y. y < x) xs) in if i < length xs \<and> xs ! i = x then Inr i else Inl i)"

lemma first_not_below_ok: "slice_search_ok first_not_below"
  unfolding slice_search_ok_def
proof (intro allI impI)
  fix xs :: "'a list" and x
  assume sorted: "sorted xs"
  let ?i = "length (takeWhile (\<lambda>y. y < x) xs)"
  have take: "take ?i xs = takeWhile (\<lambda>y. y < x) xs" by (simp add: takeWhile_eq_take [symmetric])
  have drop: "drop ?i xs = dropWhile (\<lambda>y. y < x) xs" by (simp add: dropWhile_eq_drop [symmetric])
  have "x < y" if miss: "\<not> (?i < length xs \<and> xs ! ?i = x)" and y: "y \<in> set (drop ?i xs)" for y
  proof -
    have i: "?i < length xs" using y by (cases "?i < length xs") auto
    then have "\<not> xs ! ?i < x" by (rule nth_length_takeWhile)
    then have low: "x < xs ! ?i" using miss i by auto
    obtain j where "j < length xs - ?i" "y = xs ! (?i + j)"
      using y i by (auto simp: in_set_conv_nth)
    moreover from this have "xs ! ?i \<le> xs ! (?i + j)" by (intro sorted_nth_mono [OF sorted]) simp_all
    ultimately show ?thesis using low by simp
  qed
  then have above: "\<forall>y \<in> set (drop ?i xs). x < y" if "\<not> (?i < length xs \<and> xs ! ?i = x)" using that by blast
  have below: "\<forall>y \<in> set (take ?i xs). y < x" unfolding take by (auto dest: set_takeWhileD)
  show "case first_not_below xs x of
        Inr i \<Rightarrow> i < length xs \<and> xs ! i = x
      | Inl i \<Rightarrow> i \<le> length xs \<and> (\<forall>y \<in> set (take i xs). y < x) \<and> (\<forall>y \<in> set (drop i xs). x < y)"
  proof (cases "?i < length xs \<and> xs ! ?i = x")
    case True
    then have "first_not_below xs x = Inr ?i" by (simp add: first_not_below_def)
    then show ?thesis using True by simp
  next
    case False
    then have "first_not_below xs x = Inl ?i" by (auto simp: first_not_below_def)
    then show ?thesis using above [OF False] below length_takeWhile_le [of "\<lambda>y. y < x" xs] by (simp only: sum.case)
  qed
qed

lemma starts_from_nth: "k < length cs \<Longrightarrow> starts_from n cs ! k = n + length (concat (take k cs))"
proof (induction cs arbitrary: n k)
  case (Cons c cs)
  then show ?case by (cases k) auto
qed simp

lemma concat_take_mono: "i \<le> j \<Longrightarrow> length (concat (take i cs)) \<le> length (concat (take j cs))"
proof -
  assume "i \<le> j"
  then have "take j cs = take i cs @ take (j - i) (drop i cs)" by (metis le_add_diff_inverse take_add)
  then show ?thesis by simp
qed

lemma starts_from_sorted: "sorted (starts_from n cs)"
  by (auto simp: sorted_iff_nth_mono starts_from_nth concat_take_mono)

lemma concat_chunk_nth:
  assumes "k < length cs" "i < length (cs ! k)"
  shows "concat cs ! (length (concat (take k cs)) + i) = cs ! k ! i"
proof -
  have "concat cs = concat (take k cs @ cs ! k # drop (Suc k) cs)" by (simp add: id_take_nth_drop [OF assms(1), symmetric])
  then have "concat cs = concat (take k cs) @ cs ! k @ concat (drop (Suc k) cs)" by simp
  then show ?thesis using assms(2) by (simp add: nth_append)
qed

lemma concat_take_Suc: "k < length cs \<Longrightarrow> length (concat (take (Suc k) cs)) = length (concat (take k cs)) + length (cs ! k)"
  by (simp add: take_Suc_conv_app_nth)

lemma chunk_of_spec:
  assumes "appended_ok a" "slice_search_ok search" "index < ap_len a"
  obtains k where "appended_chunk_of search a index = Some (Some k)" "k < length (ap_chunks a)"
    "length (concat (take k (ap_chunks a))) \<le> index"
    "index < length (concat (take k (ap_chunks a))) + length (ap_chunks a ! k)"
proof -
  let ?cs = "ap_chunks a"
  have starts: "ap_starts a = starts_from 0 ?cs" and len: "ap_len a = length (concat ?cs)"
    and full: "\<forall>c \<in> set ?cs. c \<noteq> []"
    using assms(1) by (auto simp: appended_ok_def)
  have ne: "?cs \<noteq> []" using assms(3) len by auto
  have found: "case search (ap_starts a) index of
        Inr i \<Rightarrow> i < length (ap_starts a) \<and> ap_starts a ! i = index
      | Inl i \<Rightarrow> i \<le> length (ap_starts a) \<and> (\<forall>y \<in> set (take i (ap_starts a)). y < index)
          \<and> (\<forall>y \<in> set (drop i (ap_starts a)). index < y)"
    using assms(2) starts_from_sorted [of 0 ?cs] unfolding slice_search_ok_def starts by blast
  show thesis
  proof (cases "search (ap_starts a) index")
    case (Inr i)
    then have i: "i < length ?cs" "length (concat (take i ?cs)) = index"
      using found starts starts_from_nth [of i ?cs 0] by auto
    then have "?cs ! i \<noteq> []" using full by auto
    then show thesis using that [of i] i Inr assms(3) by (simp add: appended_chunk_of_def)
  next
    case (Inl i)
    then have i: "i \<le> length ?cs" and below: "\<forall>y \<in> set (take i (ap_starts a)). y < index"
      and above: "\<forall>y \<in> set (drop i (ap_starts a)). index < y"
      using found starts by auto
    have "i \<noteq> 0"
    proof
      assume "i = 0"
      then have "\<forall>y \<in> set (ap_starts a). index < y" using above by simp
      moreover have "0 \<in> set (ap_starts a)" using ne starts by (cases ?cs) auto
      ultimately show False by auto
    qed
    then obtain k where k: "i = Suc k" using not0_implies_Suc by auto
    have klt: "k < length ?cs" using i k by simp
    have "ap_starts a ! k \<in> set (take i (ap_starts a))"
      using klt k starts by (auto simp: take_Suc_conv_app_nth)
    then have low: "length (concat (take k ?cs)) < index"
      using below starts starts_from_nth [OF klt, of 0] by auto
    have "index < length (concat (take (Suc k) ?cs))"
    proof (cases "Suc k < length ?cs")
      case True
      have "ap_starts a ! Suc k \<in> set (drop i (ap_starts a))"
        using True k starts by (auto simp: Cons_nth_drop_Suc [symmetric])
      then show ?thesis using above starts starts_from_nth [OF True, of 0] by auto
    next
      case False
      then show ?thesis using assms(3) len klt by simp
    qed
    then show thesis using that [of k] low klt Inl k assms(3) concat_take_Suc [OF klt]
      by (simp add: appended_chunk_of_def sub_opt_def)
  qed
qed

lemma get_spec:
  assumes "appended_ok a" "slice_search_ok search"
  shows "appended_get search a index = Some (nth_opt (appended_iter a) index)"
proof (cases "index < ap_len a")
  case False
  then show ?thesis using assms(1)
    by (simp add: appended_get_def appended_chunk_of_def nth_opt_def appended_len_ok)
next
  case True
  obtain k where k: "appended_chunk_of search a index = Some (Some k)" "k < length (ap_chunks a)"
    "length (concat (take k (ap_chunks a))) \<le> index"
    "index < length (concat (take k (ap_chunks a))) + length (ap_chunks a ! k)"
    using chunk_of_spec [OF assms True] .
  let ?s = "length (concat (take k (ap_chunks a)))"
  have starts: "ap_starts a = starts_from 0 (ap_chunks a)" using assms(1) by (simp add: appended_ok_def)
  have "appended_iter a ! index = ap_chunks a ! k ! (index - ?s)"
    using concat_chunk_nth [of k "ap_chunks a" "index - ?s"] k by (simp add: appended_iter_def)
  moreover have "nth_opt (ap_starts a) k = Some ?s"
    using k(2) starts starts_from_nth [OF k(2), of 0] by (simp add: nth_opt_def)
  ultimately show ?thesis using k True assms(1)
    by (simp add: appended_get_def nth_opt_def sub_opt_def appended_len_ok less_diff_conv2 add.commute)
qed

lemma partition_loop_spec:
  assumes "\<And>i. i < n \<Longrightarrow> get i = Some (Some (xs ! i))" "n = length xs"
    and "m \<le> n" "\<forall>i < m. P (xs ! i)" "\<forall>i. m \<le> i \<and> i < n \<longrightarrow> \<not> P (xs ! i)"
    and "low \<le> m" "m \<le> high" "high \<le> n"
  shows "partition_loop get P low high = Some m"
  using assms(6-8)
proof (induction "high - low" arbitrary: low high rule: less_induct)
  case less
  show ?case
  proof (cases "low < high")
    case False
    then show ?thesis using less by (simp add: partition_loop.simps)
  next
    case True
    define mid where "mid = low + (high - low) div 2"
    have mid: "low \<le> mid" "mid < high" using True by (auto simp: mid_def)
    have got: "get mid = Some (Some (xs ! mid))" using assms(1) mid less(4) by simp
    show ?thesis
    proof (cases "P (xs ! mid)")
      case holds: True
      have "Suc mid \<le> m" using assms(5) holds mid less(4) by (meson linorder_not_less not_less_eq_eq order_less_le_trans)
      moreover have "high - Suc mid < high - low" using mid by simp
      ultimately have "partition_loop get P (Suc mid) high = Some m" using less by simp
      then show ?thesis using True got holds
        by (subst partition_loop.simps) (simp add: Let_def mid_def [symmetric])
    next
      case fails: False
      have "m \<le> mid" using assms(4) fails by (meson linorder_not_less)
      moreover have "mid - low < high - low" using mid by simp
      ultimately have "partition_loop get P low mid = Some m" using less mid by simp
      then show ?thesis using True got fails
        by (subst partition_loop.simps) (simp add: Let_def mid_def [symmetric])
    qed
  qed
qed

lemma partition_point_spec:
  assumes "appended_ok a" "slice_search_ok search"
    and "filter P (appended_iter a) = takeWhile P (appended_iter a)"
  shows "partition_point search P a = Some (length (takeWhile P (appended_iter a)))"
proof -
  let ?xs = "appended_iter a"
  let ?m = "length (takeWhile P ?xs)"
  have len: "ap_len a = length ?xs" using appended_len_ok [OF assms(1)] .
  have "filter P ?xs = filter P (takeWhile P ?xs) @ filter P (dropWhile P ?xs)"
    by (metis filter_append takeWhile_dropWhile_id)
  moreover have "filter P (takeWhile P ?xs) = takeWhile P ?xs"
    by (auto simp: filter_id_conv dest: set_takeWhileD)
  ultimately have "filter P (dropWhile P ?xs) = []" using assms(3) by simp
  then have none: "\<forall>y \<in> set (drop ?m ?xs). \<not> P y" by (auto simp: dropWhile_eq_drop filter_empty_conv)
  show ?thesis
    unfolding partition_point_def len
  proof (rule partition_loop_spec [where n = "length ?xs" and xs = ?xs])
    show "appended_get search a i = Some (Some (?xs ! i))" if "i < length ?xs" for i
      using that get_spec [OF assms(1,2)] by (simp add: nth_opt_def)
    show "\<forall>i < ?m. P (?xs ! i)"
      by (metis nth_mem set_takeWhileD takeWhile_nth)
    show "\<forall>i. ?m \<le> i \<and> i < length ?xs \<longrightarrow> \<not> P (?xs ! i)"
    proof (intro allI impI)
      fix i assume i: "?m \<le> i \<and> i < length ?xs"
      then have "?xs ! i = drop ?m ?xs ! (i - ?m)" by simp
      then have "?xs ! i \<in> set (drop ?m ?xs)" using i by (metis diff_less_mono length_drop nth_mem)
      then show "\<not> P (?xs ! i)" using none by auto
    qed
  qed (auto simp: length_takeWhile_le)
qed

lemma chunk_loop_spec:
  assumes "\<forall>c \<in> set cs. c \<noteq> []" "sorted (concat cs)" "low \<le> high" "high \<le> length cs"
    and "\<forall>i < low. hd (cs ! i) \<le> x" "\<forall>i. high \<le> i \<and> i < length cs \<longrightarrow> x < hd (cs ! i)"
  shows "\<exists>m \<le> length cs. chunk_loop cs x low high = Some m \<and> (\<forall>i < m. hd (cs ! i) \<le> x)
    \<and> (\<forall>i. m \<le> i \<and> i < length cs \<longrightarrow> x < hd (cs ! i))"
  using assms(3-6)
proof (induction "high - low" arbitrary: low high rule: less_induct)
  case less
  show ?case
  proof (cases "low < high")
    case False
    then have "low = high" using less(2) by simp
    then show ?thesis using less(3-5) by (auto simp: chunk_loop.simps)
  next
    case True
    define mid where "mid = (low + high) div 2"
    have mid: "low \<le> mid" "mid < high" using True by (auto simp: mid_def)
    have ml: "mid < length cs" using mid less(3) by simp
    then have ne: "cs ! mid \<noteq> []" using assms(1) by auto
    have step: "chunk_loop cs x low high =
        (if hd (cs ! mid) > x then chunk_loop cs x low mid else chunk_loop cs x (Suc mid) high)"
      using True ml ne by (subst chunk_loop.simps) (simp add: Let_def mid_def [symmetric] nth_opt_def hd_conv_nth)
    have heads: "hd (cs ! i) \<le> hd (cs ! j)" if "i \<le> j" "j < length cs" for i j
    proof (cases "i = j")
      case False
      have split: "cs = take j cs @ cs ! j # drop (Suc j) cs" using that by (simp add: id_take_nth_drop)
      have "cs ! i \<in> set (take j cs)"
        using that False by (metis length_take min.absorb2 nat_less_le nth_mem nth_take order_less_imp_le)
      moreover have "cs ! i \<noteq> []" "cs ! j \<noteq> []" using that assms(1) by auto
      ultimately have "hd (cs ! i) \<in> set (concat (take j cs))" "hd (cs ! j) \<in> set (cs ! j)"
        using list.set_sel(1) by (metis UN_I set_concat, blast)
      moreover have "sorted (concat (take j cs) @ cs ! j @ concat (drop (Suc j) cs))"
        using assms(2) split by (metis concat.simps(2) concat_append)
      ultimately show ?thesis unfolding sorted_append by (metis UnI1 set_append)
    qed simp
    show ?thesis
    proof (cases "hd (cs ! mid) > x")
      case above: True
      have "\<forall>i. mid \<le> i \<and> i < length cs \<longrightarrow> x < hd (cs ! i)" using above heads by (meson order_less_le_trans)
      then show ?thesis using less(1) [of mid low] mid ml less(4) above step by auto
    next
      case below: False
      have "\<forall>i < Suc mid. hd (cs ! i) \<le> x" using below heads ml by (meson less_Suc_eq_le not_less order_trans)
      then show ?thesis using less(1) [of high "Suc mid"] mid less(3,5) below step by auto
    qed
  qed
qed

lemma binary_search_spec:
  assumes "appended_ok a" "slice_search_ok search" "sorted (appended_iter a)"
  shows "case appended_binary_search search x a of
      Some (Inr i) \<Rightarrow> i < length (appended_iter a) \<and> appended_iter a ! i = x
    | Some (Inl i) \<Rightarrow> i \<le> length (appended_iter a) \<and> (\<forall>y \<in> set (take i (appended_iter a)). y < x)
        \<and> (\<forall>y \<in> set (drop i (appended_iter a)). x < y)
    | None \<Rightarrow> False"
proof -
  let ?cs = "ap_chunks a"
  have full: "\<forall>c \<in> set ?cs. c \<noteq> []" and starts: "ap_starts a = starts_from 0 ?cs"
    using assms(1) by (auto simp: appended_ok_def)
  have sorted: "sorted (concat ?cs)" using assms(3) by (simp add: appended_iter_def)
  obtain m where m: "m \<le> length ?cs" "chunk_loop ?cs x 0 (length ?cs) = Some m"
    and le: "\<forall>i < m. hd (?cs ! i) \<le> x" and gr: "\<forall>i. m \<le> i \<and> i < length ?cs \<longrightarrow> x < hd (?cs ! i)"
  proof -
    have "\<exists>m \<le> length ?cs. chunk_loop ?cs x 0 (length ?cs) = Some m \<and> (\<forall>i < m. hd (?cs ! i) \<le> x)
      \<and> (\<forall>i. m \<le> i \<and> i < length ?cs \<longrightarrow> x < hd (?cs ! i))"
      by (rule chunk_loop_spec [OF full sorted]) auto
    then show ?thesis using that by blast
  qed
  have after: "\<forall>y \<in> set (concat (drop m ?cs)). x < y"
  proof (cases "m < length ?cs")
    case True
    then have d: "drop m ?cs = ?cs ! m # drop (Suc m) ?cs" by (simp add: Cons_nth_drop_Suc)
    have "sorted (concat (drop m ?cs))"
      using sorted by (metis append_take_drop_id concat_append sorted_append)
    moreover have "?cs ! m = hd (?cs ! m) # tl (?cs ! m)" using True full by (simp add: hd_Cons_tl)
    ultimately have "\<forall>y \<in> set (concat (drop m ?cs)). hd (?cs ! m) \<le> y"
      using d by (metis append_Cons concat.simps(2) order_refl set_ConsD sorted_simps(2))
    then show ?thesis using gr True by (meson order_less_le_trans order_refl)
  qed simp
  show ?thesis
  proof (cases m)
    case 0
    then show ?thesis using m after by (simp add: appended_binary_search_def appended_iter_def)
  next
    case (Suc k)
    then have k: "k < length ?cs" using m by simp
    let ?c = "?cs ! k" and ?pre = "concat (take k ?cs)" and ?post = "concat (drop m ?cs)"
    have split: "concat ?cs = ?pre @ ?c @ ?post"
      using id_take_nth_drop [OF k] Suc by (metis concat.simps(2) concat_append)
    have sc: "sorted ?c" using sorted split by (simp add: sorted_append)
    have ne: "?c \<noteq> []" using full k by auto
    have found: "case search ?c x of
        Inr i \<Rightarrow> i < length ?c \<and> ?c ! i = x
      | Inl i \<Rightarrow> i \<le> length ?c \<and> (\<forall>y \<in> set (take i ?c). y < x) \<and> (\<forall>y \<in> set (drop i ?c). x < y)"
      using assms(2) sc unfolding slice_search_ok_def by blast
    have result: "appended_binary_search search x a = Some (case search ?c x of
        Inr index \<Rightarrow> Inr (length ?pre + index) | Inl index \<Rightarrow> Inl (length ?pre + index))"
      using m Suc k starts starts_from_nth [OF k, of 0] by (simp add: appended_binary_search_def nth_opt_def)
    have before: "\<forall>y \<in> set ?pre. y \<le> hd ?c" using sorted split ne by (auto simp: sorted_append)
    show ?thesis
    proof (cases "search ?c x")
      case (Inr i)
      then show ?thesis using found result split by (simp add: appended_iter_def nth_append)
    next
      case (Inl i)
      have "hd ?c < x"
      proof (cases i)
        case 0
        then have "x < hd ?c" using found Inl ne by simp
        then show ?thesis using le Suc by auto
      next
        case (Suc j)
        then show ?thesis using found Inl ne by (cases ?c) auto
      qed
      then have "\<forall>y \<in> set ?pre. y < x" using before by (meson order_le_less_trans)
      then show ?thesis using found result split after Inl by (auto simp: appended_iter_def)
    qed
  qed
qed

section \<open>The builder against a plain list\<close>

datatype 'a builder_op = Add_value 'a | Change_last "'a \<Rightarrow> 'a"

definition builder_step :: "'a builder_op \<Rightarrow> 'a appended_builder \<Rightarrow> 'a appended_builder" where
  "builder_step c b = (case c of Add_value x \<Rightarrow> builder_push x b | Change_last f \<Rightarrow> builder_last_mut f b)"

definition list_step :: "'a builder_op \<Rightarrow> 'a list \<Rightarrow> 'a list" where
  "list_step c xs = (case c of Add_value x \<Rightarrow> xs @ [x]
     | Change_last f \<Rightarrow> (if xs = [] then [] else butlast xs @ [f (last xs)]))"

definition builder_abs :: "'a appended_builder \<Rightarrow> 'a list" where
  "builder_abs b = appended_iter (ab_base b) @ ab_added b"

definition builder_ok :: "'a appended_builder \<Rightarrow> bool" where
  "builder_ok b \<longleftrightarrow> appended_ok (ab_base b)"

lemma builder_reopen_spec:
  assumes "builder_ok b"
  shows "builder_ok (builder_reopen b) \<and> builder_abs (builder_reopen b) = builder_abs b
    \<and> (ab_added (builder_reopen b) = [] \<longrightarrow> builder_abs b = [])"
  using pop_last_spec [of "ab_base b"] assms
  by (auto simp: builder_reopen_def builder_ok_def builder_abs_def split: prod.splits option.splits)

lemma builder_step_spec:
  assumes "builder_ok b"
  shows "builder_ok (builder_step c b) \<and> builder_abs (builder_step c b) = list_step c (builder_abs b)"
proof (cases c)
  case (Add_value x)
  then show ?thesis using assms
    by (simp add: builder_step_def builder_push_def builder_ok_def builder_abs_def list_step_def)
next
  case (Change_last f)
  note r = builder_reopen_spec [OF assms]
  let ?r = "builder_reopen b"
  show ?thesis
  proof (cases "ab_added ?r = []")
    case True
    then show ?thesis using r Change_last
      by (simp add: builder_step_def builder_last_mut_def list_step_def Let_def)
  next
    case False
    moreover have "builder_abs b = appended_iter (ab_base ?r) @ ab_added ?r"
      using r by (simp add: builder_abs_def)
    ultimately have "builder_abs b \<noteq> []" "last (builder_abs b) = last (ab_added ?r)"
      "butlast (builder_abs b) = appended_iter (ab_base ?r) @ butlast (ab_added ?r)"
      by (simp_all add: butlast_append)
    then show ?thesis using r False Change_last
      by (simp add: builder_step_def builder_last_mut_def list_step_def Let_def builder_abs_def builder_ok_def)
  qed
qed

lemma builder_run_spec:
  assumes "builder_ok b"
  shows "builder_ok (fold builder_step cs b) \<and> builder_abs (fold builder_step cs b) = fold list_step cs (builder_abs b)"
  using assms
proof (induction cs arbitrary: b)
  case (Cons c cs)
  then show ?case using builder_step_spec [of b c] by simp
qed simp

lemma builder_last_spec:
  assumes "builder_ok b" "slice_search_ok search"
  shows "builder_last search b = Some (if builder_abs b = [] then None else Some (last (builder_abs b)))"
proof (cases "ab_added b = []")
  case True
  have len: "ap_len (ab_base b) = length (appended_iter (ab_base b))"
    using assms(1) appended_len_ok by (auto simp: builder_ok_def)
  show ?thesis
    using True get_spec [OF _ assms(2), of "ab_base b" "length (appended_iter (ab_base b)) - 1"] assms(1) len
    by (cases "appended_iter (ab_base b) = []")
      (simp_all add: builder_last_def builder_ok_def builder_abs_def sub_opt_def nth_opt_def last_conv_nth Suc_le_eq)
next
  case False
  then show ?thesis by (simp add: builder_last_def builder_abs_def)
qed

section \<open>How many chunks\<close>

text \<open>Sizes strictly decrease, so \<open>k\<close> chunks hold at least \<open>1 + 2 + \<dots> + k\<close> values.\<close>

lemma decreasing_sum:
  assumes "sorted_wrt (>) ns" "\<forall>n \<in> set ns. 0 < n"
  shows "length ns * (length ns + 1) \<le> 2 * sum_list ns \<and> (\<forall>n \<in> set (take 1 ns). length ns \<le> n)"
  using assms
proof (induction ns)
  case (Cons n ns)
  then have ih: "length ns * (length ns + 1) \<le> 2 * sum_list ns" "\<forall>m \<in> set (take 1 ns). length ns \<le> m"
    by auto
  have "length ns < n"
  proof (cases ns)
    case Nil
    then show ?thesis using Cons by simp
  next
    case (Cons m ms)
    then show ?thesis using ih Cons.prems by auto
  qed
  then show ?case using ih by (auto simp: algebra_simps)
qed simp

lemma chunk_count_bound:
  assumes "appended_ok a"
  shows "length (ap_chunks a) * (length (ap_chunks a) + 1) \<le> 2 * ap_len a"
proof -
  have "ap_len a = sum_list (map length (ap_chunks a))" using assms by (simp add: appended_ok_def length_concat)
  moreover have "\<forall>n \<in> set (map length (ap_chunks a)). 0 < n" using assms by (auto simp: appended_ok_def)
  ultimately show ?thesis using decreasing_sum [of "map length (ap_chunks a)"] assms
    by (simp add: appended_ok_def)
qed

text \<open>Batches of sizes \<open>k, k - 1, \<dots>, 1\<close> never merge.\<close>

definition shrinking_batches :: "'a \<Rightarrow> nat \<Rightarrow> 'a list list" where
  "shrinking_batches x k = map (\<lambda>n. replicate n x) (rev [1..<Suc k])"

lemma unmerged_batches:
  assumes "sorted_wrt (>) (map length (chunks @ bs))" "\<forall>b \<in> set bs. b \<noteq> []" "ap_chunks a = chunks"
  shows "ap_chunks (fold appended_extend bs a) = chunks @ bs"
  using assms
proof (induction bs arbitrary: chunks a)
  case (Cons b bs)
  have "merge_loop chunks (ap_starts a) (ap_len a) b = (chunks, ap_starts a, ap_len a, b)"
  proof (cases "chunks = []")
    case False
    then have "length b < length (last chunks)"
      using Cons.prems(1) by (auto simp: sorted_wrt_append)
    then show ?thesis by (subst merge_loop.simps) simp
  qed (simp add: merge_loop.simps)
  then have "ap_chunks (appended_extend b a) = chunks @ [b]"
    using Cons.prems by (simp add: appended_extend_def)
  then show ?case using Cons.IH [of "chunks @ [b]" "appended_extend b a"] Cons.prems by simp
qed simp

lemma shrinking_batches_chunks:
  "ap_chunks (fold appended_extend (shrinking_batches x k) appended_default) = shrinking_batches x k"
proof -
  have "map length (shrinking_batches x k) = rev [1..<Suc k]"
    unfolding shrinking_batches_def by (simp only: map_map comp_def length_replicate map_ident)
  moreover have "sorted_wrt (>) (rev [1..<Suc k])"
    unfolding sorted_wrt_rev by (rule sorted_wrt_upt)
  ultimately show ?thesis
    using unmerged_batches [of "[]" "shrinking_batches x k" appended_default]
    by (auto simp: appended_default_def shrinking_batches_def)
qed

lemma chunk_count_not_logarithmic:
  "\<exists>bs. length (ap_chunks (fold appended_extend bs appended_default)) = k
      \<and> 2 * length (concat bs) = k * (k + 1)"
proof (intro exI conjI)
  let ?bs = "shrinking_batches undefined k"
  show "length (ap_chunks (fold appended_extend ?bs appended_default)) = k"
    unfolding shrinking_batches_chunks by (simp add: shrinking_batches_def)
  show "2 * length (concat ?bs) = k * (k + 1)"
    by (induction k) (auto simp: shrinking_batches_def length_concat comp_def algebra_simps)
qed

section \<open>Properties\<close>

text \<open>C34. A builder over a published sequence behaves as a plain list: after any pushes and changes of
  the last value, across the boundary to the values published before, its length and its last value
  are the list's, what it publishes is well formed and lists exactly those values, and every index of
  it is looked up without a panic, past the end as none.
\<close>

theorem builder_refines_list:
  fixes cs :: "'a builder_op list" and a :: "'a appended"
  assumes "appended_ok a" "slice_search_ok search"
  defines "b \<equiv> fold builder_step cs (builder_new a)"
    and "xs \<equiv> fold list_step cs (appended_iter a)"
  shows "appended_ok (builder_finish b) \<and> appended_iter (builder_finish b) = xs
    \<and> appended_len (builder_finish b) = length xs \<and> builder_len b = length xs
    \<and> builder_last search b = Some (if xs = [] then None else Some (last xs))
    \<and> (\<forall>i. appended_get search (builder_finish b) i = Some (nth_opt xs i))"
proof -
  have ok: "builder_ok b" and abs: "builder_abs b = xs"
    using builder_run_spec [of "builder_new a" cs] assms(1)
    by (simp_all add: b_def xs_def builder_ok_def builder_abs_def builder_new_def)
  have fin: "appended_ok (builder_finish b)" "appended_iter (builder_finish b) = xs"
    using extend_spec [of "ab_base b" "ab_added b"] ok abs
    by (simp_all add: builder_finish_def builder_ok_def builder_abs_def)
  moreover have "builder_len b = length xs"
    using ok abs appended_len_ok [of "ab_base b"] by (auto simp: builder_len_def builder_ok_def builder_abs_def)
  moreover have "appended_len (builder_finish b) = length xs"
    using fin appended_len_ok by (auto simp: appended_len_def)
  ultimately show ?thesis
    using builder_last_spec [OF ok assms(2)] abs get_spec [OF fin(1) assms(2)] by simp
qed

theorem builder_refines_list_witness:
  "appended_iter (builder_finish (fold builder_step [Change_last Suc, Add_value 9]
     (builder_new (appended_from_vec [1, 2, 3])))) = [1, 2, 4, 9::nat]"
  using builder_refines_list [OF _ first_not_below_ok, of "appended_from_vec [1, 2, 3]" "[Change_last Suc, Add_value 9]"]
    from_vec_spec [of "[1, 2, 3::nat]"]
  by (simp add: list_step_def)

text \<open>Both searches of a chunked sequence keep the contract of the slice they stand for, without a
  panic: over a sequence that a predicate partitions, the partition point is the length of its true
  prefix; over a sorted sequence, the binary search answers either an index that holds the value or
  the one place where inserting it keeps the order, and then the value is absent.
\<close>

theorem chunked_search_exact:
  assumes "appended_ok a" "slice_search_ok starts_search" "slice_search_ok chunk_search"
  shows "(filter P (appended_iter a) = takeWhile P (appended_iter a) \<longrightarrow>
      partition_point starts_search P a = Some (length (takeWhile P (appended_iter a))))
    \<and> (sorted (appended_iter a) \<longrightarrow>
      (case appended_binary_search chunk_search x a of
        Some (Inr i) \<Rightarrow> i < length (appended_iter a) \<and> appended_iter a ! i = x
      | Some (Inl i) \<Rightarrow> i \<le> length (appended_iter a) \<and> (\<forall>y \<in> set (take i (appended_iter a)). y < x)
          \<and> (\<forall>y \<in> set (drop i (appended_iter a)). x < y)
      | None \<Rightarrow> False))"
  using partition_point_spec [OF assms(1,2), of P] binary_search_spec [OF assms(1,3), of x] by blast

theorem chunked_search_exact_witness:
  "partition_point first_not_below (\<lambda>n. n < (3::nat)) (appended_extend [5] (appended_from_vec [1, 3])) = Some 1
   \<and> appended_binary_search first_not_below (4::nat) (appended_extend [5] (appended_from_vec [1, 3])) = Some (Inl 2)"
proof -
  let ?a = "appended_extend [5] (appended_from_vec [1, 3::nat])"
  have ok: "appended_ok ?a" and it: "appended_iter ?a = [1, 3, 5]"
    using from_vec_spec [of "[1, 3::nat]"] extend_spec [of "appended_from_vec [1, 3::nat]" "[5]"] by simp_all
  have "partition_point first_not_below (\<lambda>n. n < 3) ?a = Some (length (takeWhile (\<lambda>n. n < 3) [1, 3, 5::nat]))
    \<and> (case appended_binary_search first_not_below 4 ?a of
        Some (Inr i) \<Rightarrow> i < length [1, 3, 5::nat] \<and> [1, 3, 5] ! i = (4::nat)
      | Some (Inl i) \<Rightarrow> i \<le> length [1, 3, 5::nat] \<and> (\<forall>y \<in> set (take i [1, 3, 5::nat]). y < 4)
          \<and> (\<forall>y \<in> set (drop i [1, 3, 5::nat]). 4 < y)
      | None \<Rightarrow> False)"
    using chunked_search_exact [OF ok first_not_below_ok first_not_below_ok, of "\<lambda>n. n < 3" 4]
    unfolding it by simp
  then have both: "partition_point first_not_below (\<lambda>n. n < 3) ?a = Some 1"
    "case appended_binary_search first_not_below 4 ?a of
        Some (Inr i) \<Rightarrow> i < length [1, 3, 5::nat] \<and> [1, 3, 5] ! i = (4::nat)
      | Some (Inl i) \<Rightarrow> i \<le> length [1, 3, 5::nat] \<and> (\<forall>y \<in> set (take i [1, 3, 5::nat]). y < 4)
          \<and> (\<forall>y \<in> set (drop i [1, 3, 5::nat]). 4 < y)
      | None \<Rightarrow> False"
    by simp_all
  have small: "i = 0 \<or> i = 1 \<or> i = 2 \<or> i = 3" if "i \<le> length [1, 3, 5::nat]" for i
    using that by auto
  have "appended_binary_search first_not_below 4 ?a = Some (Inl 2)"
  proof (cases "appended_binary_search first_not_below 4 ?a")
    case None
    then show ?thesis using both(2) by simp
  next
    case (Some r)
    show ?thesis
    proof (cases r)
      case (Inl i)
      then show ?thesis using both(2) Some small [of i] by auto
    next
      case (Inr i)
      then show ?thesis using both(2) Some small [of i] by auto
    qed
  qed
  with both(1) show ?thesis by simp
qed

end
