(* ===== verification/Stdin_Chunks.thy ===== *)
theory Stdin_Chunks
  imports Prelude Chars
begin

text \<open>
  The payloads that cross the shared worker's control channel as base64,
  \<open>crates/lvu-shared/src/protocol.rs\<close>: the encoder, the check that measures a text without decoding
  it, the bounded decoder, and the checks of an inbound chunk.

  A \<open>str\<close> is its UTF-8 bytes, which is all these routines look at.  The fields of requests other
  than a chunk are a type parameter: nothing here reads them.
\<close>

section \<open>Encoder, measure and decoder\<close>

datatype protocol_error =
    BadBase64 string
  | ChunkTooLarge nat
  | InvalidChunkSize nat
  | StoreTooLarge nat
  | Unserializable string

definition base64_alphabet :: "byte list" where
  "base64_alphabet = map of_char ''ABCDEFGHIJKLMNOPQRSTUVWXYZabcdefghijklmnopqrstuvwxyz0123456789+/''"

definition PAD :: byte where "PAD = of_char CHR ''=''"

definition max_stdin_chunk_bytes :: nat where "max_stdin_chunk_bytes = 64 * 1024"

definition from_be_bytes :: "byte list \<Rightarrow> 32 word" where
  "from_be_bytes bs = foldl (\<lambda>w b. or (push_bit 8 w) (ucast b)) 0 bs"

definition encode_piece :: "byte list \<Rightarrow> byte list \<Rightarrow> byte list" where
  "encode_piece piece out =
    (let block = piece @ drop (length piece) [0, 0, 0];
         triple = from_be_bytes (0 # block);
         out1 = out @ map (\<lambda>shift. base64_alphabet ! unat (and (drop_bit shift triple) 63)) [18, 12, 6, 0];
         out2 = take (length out1 - (3 - length piece)) out1
     in out2 @ replicate (3 - length piece) PAD)"

function pieces :: "nat \<Rightarrow> 'a list \<Rightarrow> 'a list list" where
  "pieces n xs = (if xs = [] \<or> n = 0 then [] else take n xs # pieces n (drop n xs))"
  by pat_completeness auto
termination by (relation "measure (\<lambda>(_, xs). length xs)") auto

declare pieces.simps [simp del]

definition base64_encode :: "byte list \<Rightarrow> byte list" where
  "base64_encode raw = fold encode_piece (pieces 3 raw) []"

fun spelling :: "byte list \<Rightarrow> nat \<Rightarrow> bool \<Rightarrow> nat \<Rightarrow> protocol_error + nat" where
  "spelling [] index padding_seen padding = Inr padding"
| "spelling (byte # bytes) index padding_seen padding =
    (if byte = PAD then spelling bytes (index + 1) True (padding + 1)
     else if padding_seen then Inl (BadBase64 (''data at byte '' @ show_nat index @ '' follows padding''))
     else if byte \<notin> set base64_alphabet
     then Inl (BadBase64 (''byte '' @ show_nat index @ '' is outside the alphabet''))
     else spelling bytes (index + 1) padding_seen padding)"

definition decoded_base64_len :: "byte list \<Rightarrow> protocol_error + nat" where
  "decoded_base64_len bytes =
    (if length bytes mod 4 \<noteq> 0 then Inl (BadBase64 ''length is not a multiple of 4'')
     else (case spelling bytes 0 False 0 of
       Inl e \<Rightarrow> Inl e
     | Inr padding \<Rightarrow>
         if padding > 2 then Inl (BadBase64 ''more than two padding bytes'')
         else Inr (length bytes div 4 * 3 - padding)))"

fun position :: "'a \<Rightarrow> 'a list \<Rightarrow> nat option" where
  "position x [] = None"
| "position x (y # ys) = (if y = x then Some 0 else map_option Suc (position x ys))"

fun quantum_loop :: "byte list \<Rightarrow> 32 word \<Rightarrow> nat \<Rightarrow> (32 word \<times> nat) option" where
  "quantum_loop [] triple padding = Some (triple, padding)"
| "quantum_loop (byte # bytes) triple padding =
    (let shifted = push_bit 6 triple
     in if byte = PAD then quantum_loop bytes shifted (padding + 1)
        else (case position byte base64_alphabet of
          None \<Rightarrow> None
        | Some v \<Rightarrow> if padding > 0 then None else quantum_loop bytes (or shifted (word_of_nat v)) padding))"

definition decode_quantum :: "byte list \<Rightarrow> byte list \<Rightarrow> byte list option" where
  "decode_quantum quantum out =
    Option.bind (quantum_loop quantum 0 0) (\<lambda>(triple, padding).
      if padding > 2 then None
      else Some (out @ [ucast (drop_bit 16 triple)]
        @ (if padding < 2 then [ucast (drop_bit 8 triple)] else [])
        @ (if padding = 0 then [ucast triple] else [])))"

fun decode_quanta :: "byte list list \<Rightarrow> byte list \<Rightarrow> byte list option" where
  "decode_quanta [] out = Some out"
| "decode_quanta (q # qs) out = Option.bind (decode_quantum q out) (decode_quanta qs)"

definition base64_decode_bounded :: "byte list \<Rightarrow> nat \<Rightarrow> byte list option" where
  "base64_decode_bounded bytes decoded =
    (if length bytes mod 4 \<noteq> 0 then None
     else Option.bind (decode_quanta (pieces 4 bytes) []) (\<lambda>out.
       if length out = decoded then Some out else None))"

section \<open>Checks of a chunk\<close>

definition check_stdin_chunk_base64 :: "byte list \<Rightarrow> protocol_error + nat" where
  "check_stdin_chunk_base64 encoded =
    (case decoded_base64_len encoded of
       Inl e \<Rightarrow> Inl e
     | Inr decoded \<Rightarrow> if decoded > max_stdin_chunk_bytes then Inl (ChunkTooLarge decoded) else Inr decoded)"

definition check_stdin_open :: "nat \<Rightarrow> protocol_error + unit" where
  "check_stdin_open chunk_bytes =
    (if chunk_bytes = 0 \<or> chunk_bytes > max_stdin_chunk_bytes then Inl (InvalidChunkSize chunk_bytes)
     else Inr ())"

text \<open>The requests of a window; \<open>'v\<close> is a JSON value, whose contents nothing here reads.\<close>

datatype 'v worker_request =
    Hello string nat string nat
  | Goodbye string
  | RequestStart string 'v
  | RequestStop string string
  | RequestRestart string string
  | NoteSessionMember string 'v
  | StatusSubscribe string
  | StdinChunk string string nat "byte list"
  | StdinClose string string
  | RequestProgress string string

definition stdin_chunk ::
  "string \<Rightarrow> string \<Rightarrow> nat \<Rightarrow> byte list \<Rightarrow> protocol_error + 'v worker_request" where
  "stdin_chunk request_id source_id seq raw =
    (if length raw > max_stdin_chunk_bytes then Inl (ChunkTooLarge (length raw))
     else Inr (StdinChunk request_id source_id seq (base64_encode raw)))"

definition validate_inbound :: "'v worker_request \<Rightarrow> protocol_error + unit" where
  "validate_inbound request =
    (case request of
       StdinChunk _ _ _ base64 \<Rightarrow>
         (case check_stdin_chunk_base64 base64 of Inl e \<Rightarrow> Inl e | Inr _ \<Rightarrow> Inr ())
     | _ \<Rightarrow> Inr ())"

section \<open>One quantum\<close>

lemma alphabet_positions: "map (\<lambda>v. position (base64_alphabet ! v) base64_alphabet) [0..<64] = map Some [0..<64]"
  unfolding base64_alphabet_def by code_simp

lemma alphabet_length [simp]: "length base64_alphabet = 64"
  unfolding base64_alphabet_def by simp

lemma alphabet_pad: "PAD \<notin> set base64_alphabet"
  unfolding base64_alphabet_def PAD_def by code_simp

lemma position_alphabet: "v < 64 \<Longrightarrow> position (base64_alphabet ! v) base64_alphabet = Some v"
  using arg_cong [OF alphabet_positions, of "\<lambda>xs. xs ! v"] by simp

lemma alphabet_not_pad: "v < 64 \<Longrightarrow> base64_alphabet ! v \<noteq> PAD"
  by (metis alphabet_length alphabet_pad nth_mem)

lemma position_set: "x \<in> set xs \<Longrightarrow> \<exists>v < length xs. position x xs = Some v"
  by (induction xs) auto

lemma position_None: "x \<notin> set xs \<Longrightarrow> position x xs = None"
  by (induction xs) auto

definition sextet :: "32 word \<Rightarrow> nat \<Rightarrow> nat" where
  "sextet triple shift = unat (and (drop_bit shift triple) 63)"

lemma sextet_less: "sextet triple shift < 64"
proof -
  have "and (drop_bit shift triple) 63 \<le> (63 :: 32 word)" by (rule word_and_le1)
  then have "unat (and (drop_bit shift triple) 63) \<le> unat (63 :: 32 word)" by (simp only: word_le_nat_alt)
  then show ?thesis by (simp add: sextet_def)
qed

lemma word_of_sextet: "word_of_nat (sextet triple shift) = and (drop_bit shift triple) (63 :: 32 word)"
  by (simp add: sextet_def)

lemma mask_63: "(63 :: 32 word) = mask 6"
  by (simp add: mask_eq_exp_minus_1)

lemma quantum_letter:
  "v < 64 \<Longrightarrow> quantum_loop (base64_alphabet ! v # bytes) triple 0
    = quantum_loop bytes (or (push_bit 6 triple) (word_of_nat v)) 0"
  by (simp add: alphabet_not_pad position_alphabet Let_def)

lemma three_bytes:
  "from_be_bytes [0, b0, b1, b2] = or (push_bit 16 (ucast b0)) (or (push_bit 8 (ucast b1)) (ucast b2))"
  by (rule bit_word_eqI) (auto simp: from_be_bytes_def bit_simps)

definition packed :: "byte \<Rightarrow> byte \<Rightarrow> byte \<Rightarrow> 32 word" where
  "packed b0 b1 b2 = or (push_bit 16 (ucast b0)) (or (push_bit 8 (ucast b1)) (ucast b2))"

lemma packed_bits: "n \<ge> 24 \<Longrightarrow> \<not> bit (packed b0 b1 b2) n"
  by (auto simp: packed_def bit_simps dest: bit_imp_le_length)

lemma packed_bytes:
  "ucast (drop_bit 16 (packed b0 b1 b2)) = b0" "ucast (drop_bit 8 (packed b0 b1 b2)) = b1"
  "ucast (packed b0 b1 b2) = b2"
  by (rule bit_word_eqI; auto simp: packed_def bit_simps dest: bit_imp_le_length)+

text \<open>Six bits at a time from the top put a word of 24 bits together again.\<close>

lemma regroup:
  assumes "\<And>n. n \<ge> 24 \<Longrightarrow> \<not> bit t n"
  shows "or (push_bit 6 (or (push_bit 6 (or (push_bit 6 (and (drop_bit 18 t) 63)) (and (drop_bit 12 t) 63)))
      (and (drop_bit 6 t) 63))) (and t 63) = (t :: 32 word)"
proof (rule bit_word_eqI)
  fix n
  assume n: "n < LENGTH(32)"
  consider "n < 6" | "6 \<le> n" "n < 12" | "12 \<le> n" "n < 18" | "18 \<le> n" "n < 24" | "24 \<le> n" by linarith
  then show "bit (or (push_bit 6 (or (push_bit 6 (or (push_bit 6 (and (drop_bit 18 t) 63)) (and (drop_bit 12 t) 63)))
      (and (drop_bit 6 t) 63))) (and t 63)) n = bit t n"
    using n assms [of n] by cases (auto simp: mask_63 bit_simps)
qed

definition letters :: "32 word \<Rightarrow> byte list" where
  "letters t = map (\<lambda>shift. base64_alphabet ! sextet t shift) [18, 12, 6, 0]"

lemma length_letters [simp]: "length (letters t) = 4"
  by (simp add: letters_def)

definition quantum_of :: "byte list \<Rightarrow> byte list" where
  "quantum_of piece =
    (let t = from_be_bytes (0 # piece @ drop (length piece) [0, 0, 0])
     in take (length piece + 1) (letters t) @ replicate (3 - length piece) PAD)"

lemma encode_piece_eq:
  assumes "length piece \<le> 3"
  shows "encode_piece piece out = out @ quantum_of piece"
proof -
  have "4 - (3 - length piece) = length piece + 1" using assms by simp
  then show ?thesis
    by (simp add: encode_piece_def quantum_of_def Let_def letters_def sextet_def)
qed

lemma letters_loop:
  "quantum_loop (letters t) 0 0 =
     Some (or (push_bit 6 (or (push_bit 6 (or (push_bit 6 (and (drop_bit 18 t) 63)) (and (drop_bit 12 t) 63)))
      (and (drop_bit 6 t) 63))) (and t 63), 0)"
  by (simp add: letters_def quantum_letter sextet_less word_of_sextet del: quantum_loop.simps(2))

lemma low_bits_zero:
  "and (packed b0 b1 0) 63 = 0" "and (drop_bit 6 (packed b0 0 0)) 63 = 0" "and (packed b0 0 0) 63 = 0"
  by (rule bit_word_eqI; auto simp: packed_def mask_63 bit_simps)+

lemma pad_step: "quantum_loop (PAD # bytes) triple padding = quantum_loop bytes (push_bit 6 triple) (padding + 1)"
  by (simp add: Let_def)

lemma quantum_loop_padded:
  "quantum_loop (take 3 (letters (packed b0 b1 0)) @ [PAD]) 0 0 = Some (packed b0 b1 0, 1)"
  "quantum_loop (take 2 (letters (packed b0 0 0)) @ [PAD, PAD]) 0 0 = Some (packed b0 0 0, 2)"
  using regroup [OF packed_bits [of _ b0 b1 0]] regroup [OF packed_bits [of _ b0 0 0]]
  by (simp_all add: letters_def quantum_letter sextet_less word_of_sextet pad_step low_bits_zero
      numeral_3_eq_3 numeral_2_eq_2 del: quantum_loop.simps(2))

lemma decode_quantum_of:
  assumes "piece \<noteq> []" "length piece \<le> 3"
  shows "decode_quantum (quantum_of piece) out = Some (out @ piece)"
proof -
  consider b0 where "piece = [b0]" | b0 b1 where "piece = [b0, b1]" | b0 b1 b2 where "piece = [b0, b1, b2]"
    using assms by (auto simp: Suc_le_length_iff neq_Nil_conv numeral_3_eq_3 le_Suc_eq length_Suc_conv)
  then show ?thesis
  proof cases
    case 1
    then have "quantum_of piece = take 2 (letters (packed b0 0 0)) @ [PAD, PAD]"
      using three_bytes [of b0 0 0] by (simp add: quantum_of_def Let_def packed_def numeral_2_eq_2)
    then show ?thesis using 1 by (simp add: decode_quantum_def quantum_loop_padded packed_bytes)
  next
    case 2
    then have "quantum_of piece = take 3 (letters (packed b0 b1 0)) @ [PAD]"
      using three_bytes [of b0 b1 0] by (simp add: quantum_of_def Let_def packed_def numeral_3_eq_3)
    then show ?thesis using 2 by (simp add: decode_quantum_def quantum_loop_padded packed_bytes)
  next
    case 3
    then have "quantum_of piece = letters (packed b0 b1 b2)"
      using three_bytes [of b0 b1 b2] by (simp add: quantum_of_def Let_def packed_def)
    then show ?thesis using 3 regroup [OF packed_bits [of _ b0 b1 b2]]
      by (simp add: decode_quantum_def letters_loop packed_bytes)
  qed
qed

section \<open>Whole texts\<close>

lemma pieces_append: "length q = Suc n \<Longrightarrow> pieces (Suc n) (q @ xs) = q # pieces (Suc n) xs"
  by (subst pieces.simps) auto

lemma pieces_4: "length q = 4 \<Longrightarrow> pieces 4 (q @ xs) = q # pieces 4 xs"
  by (subst pieces.simps) auto

lemma pieces_concat: "\<forall>q \<in> set qs. length q = Suc n \<Longrightarrow> pieces (Suc n) (concat qs) = qs"
  by (induction qs) (simp_all add: pieces.simps [of _ "[]"] pieces_append)

lemma pieces_shape:
  "n \<noteq> 0 \<Longrightarrow> concat (pieces n xs) = xs \<and> (\<forall>q \<in> set (pieces n xs). q \<noteq> [] \<and> length q \<le> n)"
proof (induction n xs rule: pieces.induct)
  case (1 n xs)
  then show ?case by (subst (1 2) pieces.simps) auto
qed

lemma length_quantum_of: "length piece \<le> 3 \<Longrightarrow> length (quantum_of piece) = 4"
  by (simp add: quantum_of_def Let_def)

lemma fold_encode:
  "\<forall>q \<in> set qs. length q \<le> 3 \<Longrightarrow> fold encode_piece qs out = out @ concat (map quantum_of qs)"
  by (induction qs arbitrary: out) (simp_all add: encode_piece_eq)

lemma base64_encode_eq: "base64_encode raw = concat (map quantum_of (pieces 3 raw))"
  using pieces_shape [of 3 raw] by (simp add: base64_encode_def fold_encode)

lemma decode_quanta_of:
  "\<forall>q \<in> set qs. q \<noteq> [] \<and> length q \<le> 3 \<Longrightarrow> decode_quanta (map quantum_of qs) out = Some (out @ concat qs)"
  by (induction qs arbitrary: out) (simp_all add: decode_quantum_of)

lemma quanta_of_raw: "pieces 4 (base64_encode raw) = map quantum_of (pieces 3 raw)"
  using pieces_concat [of "map quantum_of (pieces 3 raw)" 3] pieces_shape [of 3 raw]
  by (simp add: base64_encode_eq length_quantum_of)

lemma length_base64_encode: "length (base64_encode raw) = 4 * length (pieces 3 raw)"
proof -
  have "length (concat (map quantum_of qs)) = 4 * length qs" if "\<forall>q \<in> set qs. length q \<le> 3" for qs
    using that by (induction qs) (simp_all add: length_quantum_of)
  then show ?thesis using pieces_shape [of 3 raw] by (simp add: base64_encode_eq)
qed

lemma base64_decodes_encoded: "base64_decode_bounded (base64_encode raw) (length raw) = Some raw"
  using pieces_shape [of 3 raw] decode_quanta_of [of "pieces 3 raw" "[]"]
  by (simp add: base64_decode_bounded_def quanta_of_raw length_base64_encode)

lemma spelling_spec:
  "spelling bs i seen p = Inr q \<Longrightarrow>
    \<exists>ls k. bs = ls @ replicate k PAD \<and> set ls \<subseteq> set base64_alphabet \<and> (seen \<longrightarrow> ls = []) \<and> q = p + k"
proof (induction bs i seen p rule: spelling.induct)
  case (1 i seen p)
  then show ?case by (intro exI [of _ "[]"] exI [of _ 0]) auto
next
  case (2 b bs i seen p)
  show ?case
  proof (cases "b = PAD")
    case True
    then obtain k where "bs = replicate k PAD" "q = p + 1 + k" using 2 by auto
    then show ?thesis using True by (intro exI [of _ "[]"] exI [of _ "Suc k"]) auto
  next
    case False
    then have b: "\<not> seen" "b \<in> set base64_alphabet" "spelling bs (i + 1) seen p = Inr q"
      using 2(3) by (auto split: if_splits)
    then obtain ls k where "bs = ls @ replicate k PAD" "set ls \<subseteq> set base64_alphabet" "q = p + k"
      using 2(2) [OF False] by auto
    then show ?thesis using b by (intro exI [of _ "b # ls"] exI [of _ k]) auto
  qed
qed

lemma spelling_spell:
  "set ls \<subseteq> set base64_alphabet \<Longrightarrow> (seen \<longrightarrow> ls = []) \<Longrightarrow> spelling (ls @ replicate k PAD) i seen p = Inr (p + k)"
proof (induction ls arbitrary: i)
  case Nil
  have "spelling (replicate k PAD) i seen p = Inr (p + k)" for i seen p
    by (induction k arbitrary: i seen p) simp_all
  then show ?case by simp
next
  case (Cons l ls)
  then have "l \<noteq> PAD" using alphabet_pad by auto
  then show ?case using Cons by simp
qed

lemma loop_letters:
  "set ls \<subseteq> set base64_alphabet \<Longrightarrow> \<exists>t'. quantum_loop (ls @ rest) t 0 = quantum_loop rest t' 0"
proof (induction ls arbitrary: t)
  case (Cons l ls)
  then have l: "l \<noteq> PAD" using alphabet_pad by auto
  obtain v where "position l base64_alphabet = Some v" using Cons.prems position_set by fastforce
  then show ?case using Cons l by (simp add: Let_def)
qed auto

lemma loop_pads: "\<exists>t'. quantum_loop (replicate k PAD) t p = Some (t', p + k)"
proof (induction k arbitrary: t p)
  case (Suc k)
  obtain t' where "quantum_loop (replicate k PAD) (push_bit 6 t) (p + 1) = Some (t', p + 1 + k)" using Suc by blast
  then show ?case by (simp add: Let_def)
qed simp

lemma decode_quantum_length:
  assumes "set ls \<subseteq> set base64_alphabet" "k \<le> 2"
  shows "\<exists>bytes. decode_quantum (ls @ replicate k PAD) out = Some (out @ bytes) \<and> length bytes = 3 - k"
proof -
  obtain t where t: "quantum_loop (ls @ replicate k PAD) 0 0 = quantum_loop (replicate k PAD) t 0"
    using loop_letters [OF assms(1)] by metis
  obtain t' where "quantum_loop (replicate k PAD) t 0 = Some (t', k)" using loop_pads [of k t 0] by auto
  then show ?thesis using t assms(2) by (auto simp: decode_quantum_def)
qed

lemma decode_quanta_length:
  assumes "set ls \<subseteq> set base64_alphabet" "k \<le> 2" "(length ls + k) mod 4 = 0"
  shows "\<exists>bytes. decode_quanta (pieces 4 (ls @ replicate k PAD)) out = Some (out @ bytes)
    \<and> length bytes = (length ls + k) div 4 * 3 - k"
  using assms
proof (induction "length ls" arbitrary: ls out rule: less_induct)
  case less
  show ?case
  proof (cases "length ls < 4")
    case True
    then have "length ls + k = 0 \<or> length ls + k = 4" using less(3,4) by presburger
    then show ?thesis
    proof
      assume "length ls + k = 0"
      then show ?thesis by (simp add: pieces.simps)
    next
      assume four: "length ls + k = 4"
      then have "pieces 4 (ls @ replicate k PAD) = [ls @ replicate k PAD]"
        using pieces_append [of "ls @ replicate k PAD" 3 "[]"] by (simp add: pieces.simps [of _ "[]"])
      then show ?thesis using decode_quantum_length [OF less(2,3), of out] four by auto
    qed
  next
    case False
    define q rest where "q = take 4 ls" and "rest = drop 4 ls"
    have ls: "ls = q @ rest" "length q = 4" using False by (auto simp: q_def rest_def)
    have sub: "set q \<subseteq> set base64_alphabet" "set rest \<subseteq> set base64_alphabet" using less(2) ls by auto
    obtain bytes where bytes: "decode_quantum q out = Some (out @ bytes)" "length bytes = 3"
      using decode_quantum_length [OF sub(1), of 0 out] by auto
    have "length ls = 4 + length rest" using ls by simp
    then have rem: "(length rest + k) mod 4 = 0" using less(4) by presburger
    then obtain more where more: "decode_quanta (pieces 4 (rest @ replicate k PAD)) (out @ bytes) = Some ((out @ bytes) @ more)"
      "length more = (length rest + k) div 4 * 3 - k"
      using less(1) [of rest "out @ bytes"] sub less(3) ls by auto
    have "pieces 4 (ls @ replicate k PAD) = q # pieces 4 (rest @ replicate k PAD)"
      unfolding ls(1) append_assoc by (rule pieces_4 [OF ls(2)])
    moreover obtain m where m: "length rest + k = 4 * m" using rem by (metis mod_0_imp_dvd dvdE)
    moreover have bound: "k \<le> (length rest + k) div 4 * 3" using m less(3) by (cases m) auto
    ultimately have "decode_quanta (pieces 4 (ls @ replicate k PAD)) out = Some (out @ (bytes @ more))"
      using bytes(1) more(1) by simp
    moreover have "length (bytes @ more) = (length ls + k) div 4 * 3 - k"
    proof -
      have "length ls + k = 4 * Suc m" using \<open>length ls = 4 + length rest\<close> m by simp
      then have "(length ls + k) div 4 = Suc m" by (simp only: nonzero_mult_div_cancel_left)
      then show ?thesis using bytes(2) more(2) bound m by simp
    qed
    ultimately show ?thesis by blast
  qed
qed

lemma measured_decodes:
  assumes "decoded_base64_len enc = Inr n"
  shows "\<exists>raw. base64_decode_bounded enc n = Some raw \<and> length raw = n"
proof -
  obtain k where m: "length enc mod 4 = 0" "spelling enc 0 False 0 = Inr k" "k \<le> 2" "n = length enc div 4 * 3 - k"
    using assms by (auto simp: decoded_base64_len_def split: if_splits sum.splits)
  obtain ls where ls: "enc = ls @ replicate k PAD" "set ls \<subseteq> set base64_alphabet"
    using spelling_spec [OF m(2)] by auto
  have len: "length enc = length ls + k" using ls(1) by simp
  obtain bytes where "decode_quanta (pieces 4 enc) [] = Some bytes" "length bytes = n"
    using decode_quanta_length [OF ls(2) m(3), of "[]"] m(1,4) unfolding ls(1) [symmetric] len by auto
  then show ?thesis using m(1) by (simp add: base64_decode_bounded_def)
qed

lemma letters_alphabet: "set (letters t) \<subseteq> set base64_alphabet"
  using sextet_less by (auto simp: letters_def)

lemma quantum_shape:
  assumes "piece \<noteq> []" "length piece \<le> 3"
  shows "\<exists>ls. quantum_of piece = ls @ replicate (3 - length piece) PAD \<and> set ls \<subseteq> set base64_alphabet"
  using letters_alphabet by (force simp: quantum_of_def Let_def dest: in_set_takeD)

lemma encode_shape:
  "\<exists>ls k. base64_encode raw = ls @ replicate k PAD \<and> set ls \<subseteq> set base64_alphabet \<and> k \<le> 2"
proof (induction "length raw" arbitrary: raw rule: less_induct)
  case less
  show ?case
  proof (cases "raw = []")
    case True
    then show ?thesis by (simp add: base64_encode_eq pieces.simps)
  next
    case False
    have step: "base64_encode raw = quantum_of (take 3 raw) @ base64_encode (drop 3 raw)"
      using False unfolding base64_encode_eq by (subst pieces.simps) simp
    obtain ls where ls: "quantum_of (take 3 raw) = ls @ replicate (3 - length (take 3 raw)) PAD"
      "set ls \<subseteq> set base64_alphabet"
      using quantum_shape [of "take 3 raw"] False by auto
    show ?thesis
    proof (cases "length raw \<le> 3")
      case True
      then have "base64_encode (drop 3 raw) = []" by (simp add: base64_encode_eq pieces.simps)
      then have "base64_encode raw = ls @ replicate (3 - length raw) PAD" using step ls True by simp
      moreover have "3 - length raw \<le> 2" using False by (cases raw) auto
      ultimately show ?thesis using ls(2) by blast
    next
      case False
      then have "length (drop 3 raw) < length raw" by (cases raw) auto
      then obtain ls' k where "base64_encode (drop 3 raw) = ls' @ replicate k PAD"
        "set ls' \<subseteq> set base64_alphabet" "k \<le> 2"
        using less by blast
      then have "base64_encode raw = (ls @ ls') @ replicate k PAD \<and> set (ls @ ls') \<subseteq> set base64_alphabet \<and> k \<le> 2"
        using step ls False by simp
      then show ?thesis by blast
    qed
  qed
qed

lemma decoded_len_encode: "decoded_base64_len (base64_encode raw) = Inr (length raw)"
proof -
  obtain ls k where "base64_encode raw = ls @ replicate k PAD" "set ls \<subseteq> set base64_alphabet" "k \<le> 2"
    using encode_shape by blast
  then obtain n where n: "decoded_base64_len (base64_encode raw) = Inr n"
    using spelling_spell [of ls False k 0 0] length_base64_encode [of raw]
    by (simp add: decoded_base64_len_def)
  obtain out where "base64_decode_bounded (base64_encode raw) n = Some out" "length out = n"
    using measured_decodes [OF n] by blast
  moreover have "decode_quanta (pieces 4 (base64_encode raw)) [] = Some raw"
    using base64_decodes_encoded [of raw] by (auto simp: base64_decode_bounded_def split: if_splits Option.bind_splits)
  ultimately show ?thesis using n
    by (auto simp: base64_decode_bounded_def split: if_splits)
qed

section \<open>Forwarded streams\<close>

text \<open>
  \<open>worker.rs\<close>: a bound stream holds what was written to it and the sequence number expected next.
  \<open>io\<close> is the outcome of the write: \<open>None\<close>, or the error and how many bytes went before it.
  A binding is made when a capture of standard input starts (\<open>new_binding\<close>).
\<close>

record stdin_binding =
  sb_written :: "byte list"
  sb_expected_seq :: nat

definition new_binding :: stdin_binding where
  "new_binding = \<lparr>sb_written = [], sb_expected_seq = 0\<rparr>"

type_synonym 'i bindings = "'i \<Rightarrow> stdin_binding option"

definition stdin_credit_window :: nat where "stdin_credit_window = 8"

datatype stdin_note_error = UnknownStream | Desync string

definition note_stdin_chunk ::
  "(string \<times> nat) option \<Rightarrow> 'i \<Rightarrow> nat \<Rightarrow> byte list \<Rightarrow> 'i bindings
     \<Rightarrow> (stdin_note_error + nat) \<times> 'i bindings" where
  "note_stdin_chunk io source_id seq raw bindings =
    (if length raw > max_stdin_chunk_bytes
     then (Inl (Desync (''stdin chunk is '' @ show_nat (length raw) @ '' bytes; limit is ''
             @ show_nat max_stdin_chunk_bytes)), bindings)
     else (case bindings source_id of
       None \<Rightarrow> (Inl UnknownStream, bindings)
     | Some binding \<Rightarrow>
         if seq \<noteq> sb_expected_seq binding
         then (Inl (Desync (''stdin chunk out of order: got '' @ show_nat seq @ '', expected ''
                 @ show_nat (sb_expected_seq binding))), bindings)
         else (case io of
           Some (error, n) \<Rightarrow>
             (Inl (Desync (''stdin stream closed: '' @ error)),
              bindings(source_id \<mapsto> binding\<lparr>sb_written := sb_written binding @ take n raw\<rparr>))
         | None \<Rightarrow>
             (Inr seq, bindings(source_id \<mapsto> binding\<lparr>sb_written := sb_written binding @ raw,
                sb_expected_seq := sb_expected_seq binding + 1\<rparr>)))))"

definition close_stdin :: "'i \<Rightarrow> 'i bindings \<Rightarrow> 'i bindings" where
  "close_stdin source_id bindings = bindings(source_id := None)"

text \<open>The events of a worker; summaries, store events and progress are type parameters.\<close>

datatype ('s, 't, 'p) worker_event =
    Ev_Welcome string nat nat string "'s list"
  | Ev_Started string string string
  | Ev_Refused string string
  | Ev_Stopped string string
  | Ev_SessionNoted string
  | Ev_SourceStatus "'s list"
  | Ev_ShutdownNotice string
  | Ev_StdinCredit string nat nat
  | Ev_Store 't
  | Ev_SourceProgress string string 'p
  | Ev_StdinOpen string string nat

datatype 'e dispatch_outcome = Reply "'e list" | Close "'e list"

definition error_text :: "protocol_error \<Rightarrow> string" where
  "error_text error =
    (case error of
       BadBase64 reason \<Rightarrow> ''invalid base64: '' @ reason
     | ChunkTooLarge decoded \<Rightarrow> ''stdin chunk decodes to '' @ show_nat decoded @ '' bytes; limit is ''
         @ show_nat max_stdin_chunk_bytes
     | InvalidChunkSize n \<Rightarrow> ''stdin chunk size '' @ show_nat n @ '' exceeds '' @ show_nat max_stdin_chunk_bytes
     | StoreTooLarge bytes \<Rightarrow> ''store command is '' @ show_nat bytes @ '' bytes; limit is '' @ show_nat (256 * 1024)
     | Unserializable reason \<Rightarrow> ''store command failed to serialize: '' @ reason)"

text \<open>The two requests of a stream, as an attached window's connection dispatches them: \<open>parse\<close> and
  \<open>shown\<close> read and write a source id.\<close>

definition dispatch_chunk ::
  "(string \<Rightarrow> 'i option) \<Rightarrow> ('i \<Rightarrow> string) \<Rightarrow> (string \<times> nat) option \<Rightarrow> string \<Rightarrow> string \<Rightarrow> nat \<Rightarrow> byte list
     \<Rightarrow> 'i bindings \<Rightarrow> ('s, 't, 'p) worker_event dispatch_outcome \<times> 'i bindings" where
  "dispatch_chunk parse shown io request_id source_id seq base64 bindings =
    (case validate_inbound (StdinChunk request_id source_id seq base64 :: unit worker_request) of
       Inl error \<Rightarrow> (Close [Ev_Refused request_id (''protocol violation: '' @ error_text error)], bindings)
     | Inr _ \<Rightarrow>
       (case parse source_id of
         None \<Rightarrow> (Reply [Ev_Refused request_id ''invalid source id''], bindings)
       | Some i \<Rightarrow>
         (case (case decoded_base64_len base64 of
             Inr n \<Rightarrow> if n \<le> max_stdin_chunk_bytes
               then (case base64_decode_bounded base64 n of
                   Some raw \<Rightarrow> Inr raw
                 | None \<Rightarrow> Inl ''stdin chunk failed to decode'')
               else Inl ''stdin chunk violates size bounds''
           | Inl _ \<Rightarrow> Inl ''stdin chunk violates size bounds'') of
           Inl reason \<Rightarrow> (Close [Ev_Refused request_id reason], bindings)
         | Inr raw \<Rightarrow>
           (case note_stdin_chunk io i seq raw bindings of
             (Inr ack, bindings') \<Rightarrow> (Reply [Ev_StdinCredit (shown i) ack stdin_credit_window], bindings')
           | (Inl UnknownStream, bindings') \<Rightarrow>
               (Reply [Ev_Refused request_id ''stdin stream is not bound (stale or replaced worker)''], bindings')
           | (Inl (Desync reason), bindings') \<Rightarrow> (Close [Ev_Refused request_id reason], bindings')))))"

definition dispatch_close ::
  "(string \<Rightarrow> 'i option) \<Rightarrow> ('i \<Rightarrow> string) \<Rightarrow> string \<Rightarrow> string
     \<Rightarrow> 'i bindings \<Rightarrow> ('s, 't, 'p) worker_event dispatch_outcome \<times> 'i bindings" where
  "dispatch_close parse shown request_id source_id bindings =
    (case parse source_id of
       None \<Rightarrow> (Reply [Ev_Refused request_id ''invalid source id''], bindings)
     | Some i \<Rightarrow> (Reply [Ev_Stopped request_id (shown i)], close_stdin i bindings))"

section \<open>What the streams hold\<close>

record 'i chunk_request =
  cr_request :: string
  cr_source :: string
  cr_seq :: nat
  cr_base64 :: "byte list"
  cr_io :: "(string \<times> nat) option"

definition dispatch_one ::
  "(string \<Rightarrow> 'i option) \<Rightarrow> ('i \<Rightarrow> string) \<Rightarrow> 'i chunk_request
     \<Rightarrow> 'i bindings \<Rightarrow> ('s, 't, 'p) worker_event dispatch_outcome \<times> 'i bindings" where
  "dispatch_one parse shown c =
    dispatch_chunk parse shown (cr_io c) (cr_request c) (cr_source c) (cr_seq c) (cr_base64 c)"

text \<open>Requests in the order the worker takes them, from any number of connections, with their answers.\<close>

fun dispatch_run ::
  "(string \<Rightarrow> 'i option) \<Rightarrow> ('i \<Rightarrow> string) \<Rightarrow> 'i chunk_request list \<Rightarrow> 'i bindings
     \<Rightarrow> ('i chunk_request \<times> ('s, 't, 'p) worker_event dispatch_outcome) list \<times> 'i bindings" where
  "dispatch_run parse shown [] b = ([], b)"
| "dispatch_run parse shown (c # cs) b =
    (let (answer, b1) = dispatch_one parse shown c b;
         (rest, b2) = dispatch_run parse shown cs b1
     in ((c, answer) # rest, b2))"

definition credited :: "('s, 't, 'p) worker_event dispatch_outcome \<Rightarrow> bool" where
  "credited answer \<longleftrightarrow> (case answer of Reply [Ev_StdinCredit _ _ _] \<Rightarrow> True | _ \<Rightarrow> False)"

definition raw_of :: "byte list \<Rightarrow> byte list" where
  "raw_of base64 = (case decoded_base64_len base64 of
     Inr n \<Rightarrow> (case base64_decode_bounded base64 n of Some raw \<Rightarrow> raw | None \<Rightarrow> []) | Inl _ \<Rightarrow> [])"

definition accepted_for ::
  "(string \<Rightarrow> 'i option) \<Rightarrow> 'i \<Rightarrow> ('i chunk_request \<times> ('s, 't, 'p) worker_event dispatch_outcome) list
     \<Rightarrow> 'i chunk_request list" where
  "accepted_for parse i answers =
     map fst (filter (\<lambda>(c, answer). parse (cr_source c) = Some i \<and> credited answer) answers)"

lemma dispatch_one_cases:
  assumes "dispatch_one parse shown c b = (answer, b')"
  shows "(credited answer \<and> (\<exists>i binding. parse (cr_source c) = Some i \<and> b i = Some binding
          \<and> cr_seq c = sb_expected_seq binding \<and> length (raw_of (cr_base64 c)) \<le> max_stdin_chunk_bytes
          \<and> (\<exists>n. decoded_base64_len (cr_base64 c) = Inr n) \<and> cr_io c = None
          \<and> b' = b(i \<mapsto> binding\<lparr>sb_written := sb_written binding @ raw_of (cr_base64 c),
                sb_expected_seq := sb_expected_seq binding + 1\<rparr>)))
    \<or> (\<not> credited answer \<and> (cr_io c = None \<longrightarrow> b' = b))"
proof (cases "decoded_base64_len (cr_base64 c)")
  case (Inl e)
  then show ?thesis using assms
    by (auto simp: dispatch_one_def dispatch_chunk_def validate_inbound_def check_stdin_chunk_base64_def credited_def)
next
  case (Inr n)
  obtain raw where raw: "base64_decode_bounded (cr_base64 c) n = Some raw" "length raw = n"
    using measured_decodes [OF Inr] by blast
  then have is_raw: "raw_of (cr_base64 c) = raw" using Inr by (simp add: raw_of_def)
  show ?thesis using assms Inr raw is_raw
    by (auto simp: dispatch_one_def dispatch_chunk_def validate_inbound_def check_stdin_chunk_base64_def credited_def
        note_stdin_chunk_def split: if_splits option.splits)
qed

lemma dispatch_run_stream:
  fixes answers :: "('i chunk_request \<times> ('s, 't, 'p) worker_event dispatch_outcome) list"
  assumes "dispatch_run parse shown cs b = (answers, b')" "b i = Some binding"
    and "\<forall>c \<in> set cs. cr_io c = None"
  shows "\<exists>k. map cr_seq (accepted_for parse i answers) = [sb_expected_seq binding..<sb_expected_seq binding + k]
    \<and> b' i = Some \<lparr>sb_written = sb_written binding
          @ concat (map (raw_of \<circ> cr_base64) (accepted_for parse i answers)),
        sb_expected_seq = sb_expected_seq binding + k\<rparr>"
  using assms
proof (induction cs arbitrary: b answers binding)
  case Nil
  then show ?case by (intro exI [of _ 0]) (auto simp: accepted_for_def)
next
  case (Cons c cs)
  obtain answer :: "('s, 't, 'p) worker_event dispatch_outcome" and b1
    where one: "dispatch_one parse shown c b = (answer, b1)" by fastforce
  obtain rest where rest: "dispatch_run parse shown cs b1 = (rest, b')" "answers = (c, answer) # rest"
    using Cons.prems(1) one by (auto split: prod.splits)
  have io: "cr_io c = None" "\<forall>c \<in> set cs. cr_io c = None" using Cons.prems(3) by auto
  show ?case
  proof (cases "parse (cr_source c) = Some i \<and> credited answer")
    case True
    then have b1: "b1 i = Some \<lparr>sb_written = sb_written binding @ raw_of (cr_base64 c),
        sb_expected_seq = sb_expected_seq binding + 1\<rparr>" "cr_seq c = sb_expected_seq binding"
      using dispatch_one_cases [OF one] Cons.prems(2) by (cases binding; auto)+
    obtain k where k: "map cr_seq (accepted_for parse i rest) = [sb_expected_seq binding + 1..<sb_expected_seq binding + 1 + k]"
      "b' i = Some \<lparr>sb_written = (sb_written binding @ raw_of (cr_base64 c))
          @ concat (map (raw_of \<circ> cr_base64) (accepted_for parse i rest)),
        sb_expected_seq = sb_expected_seq binding + 1 + k\<rparr>"
      using Cons.IH [OF rest(1) b1(1) io(2)] unfolding stdin_binding.select_convs by blast
    then show ?thesis using True rest(2) b1(2)
      by (intro exI [of _ "Suc k"]) (auto simp: accepted_for_def upt_conv_Cons comp_def)
  next
    case False
    then have "b1 i = Some binding" using dispatch_one_cases [OF one] Cons.prems(2) io(1) by auto
    then show ?thesis using Cons.IH [OF rest(1) _ io(2)] False rest(2) by (auto simp: accepted_for_def)
  qed
qed

lemma closed_stream_refuses:
  assumes "bindings i = None"
  shows "note_stdin_chunk io i seq raw bindings = (Inl UnknownStream, bindings)
    \<or> length raw > max_stdin_chunk_bytes"
  using assms by (simp add: note_stdin_chunk_def)

text \<open>A violation closes the connection and leaves the stream bound.\<close>

lemma violation_keeps_binding:
  assumes "dispatch_one parse shown c b = (Close events, b')" "cr_io c = None"
  shows "b' = b"
  using dispatch_one_cases [OF assms(1)] assms(2) by (auto simp: credited_def)

section \<open>Properties\<close>

text \<open>C35. A chunk crosses the channel unchanged.  Whatever bytes a window reads, within the limit it sends
  them, the worker admits the message, measures exactly their number and decodes exactly them; above
  the limit nothing is built.  And of any text, also a hostile one: when its measure is accepted, the
  decoder produces that many bytes and no more, so an accepted chunk is within the limit.
\<close>

theorem stdin_chunk_roundtrip:
  "(if length raw \<le> max_stdin_chunk_bytes
    then stdin_chunk r s seq raw = Inr (StdinChunk r s seq (base64_encode raw))
      \<and> validate_inbound (StdinChunk r s seq (base64_encode raw)) = Inr ()
      \<and> check_stdin_chunk_base64 (base64_encode raw) = Inr (length raw)
      \<and> base64_decode_bounded (base64_encode raw) (length raw) = Some raw
    else stdin_chunk r s seq raw = Inl (ChunkTooLarge (length raw)))
   \<and> (case decoded_base64_len text of
       Inr n \<Rightarrow> map_option length (base64_decode_bounded text n) = Some n
     | Inl _ \<Rightarrow> True)
   \<and> (case check_stdin_chunk_base64 text of
       Inr n \<Rightarrow> n \<le> max_stdin_chunk_bytes \<and> map_option length (base64_decode_bounded text n) = Some n
     | Inl _ \<Rightarrow> True)"
proof -
  have measured: "map_option length (base64_decode_bounded text n) = Some n" if "decoded_base64_len text = Inr n" for n
    using measured_decodes [OF that] by auto
  show ?thesis
    using measured base64_decodes_encoded [of raw] decoded_len_encode [of raw]
    by (auto simp: stdin_chunk_def check_stdin_chunk_base64_def validate_inbound_def split: sum.splits)
qed

text \<open>C36. Forwarded standard input reaches the capture exactly.  Into a freshly bound stream whose reader
  takes what is written, any requests that carry a chunk, in any order and from any connections, malformed,
  repeated or out of sequence (a stream is closed by another request, \<open>dispatch_close\<close>): the chunks answered with credit are numbered from zero without a gap, what the stream
  holds is the concatenation of their decoded payloads, and the next number
  expected is their count.
\<close>

theorem forwarded_stdin_exact:
  fixes answers :: "('i chunk_request \<times> ('s, 't, 'p) worker_event dispatch_outcome) list"
  assumes "dispatch_run parse shown cs b = (answers, b')" "b i = Some new_binding"
    and "\<forall>c \<in> set cs. cr_io c = None"
  defines "taken \<equiv> accepted_for parse i answers"
  shows "map cr_seq taken = [0..<length taken]
    \<and> b' i = Some \<lparr>sb_written = concat (map (raw_of \<circ> cr_base64) taken), sb_expected_seq = length taken\<rparr>"
proof -
  obtain k where k: "map cr_seq taken = [0..<k]"
    "b' i = Some \<lparr>sb_written = concat (map (raw_of \<circ> cr_base64) taken), sb_expected_seq = k\<rparr>"
    using dispatch_run_stream [OF assms(1-3)] by (auto simp: new_binding_def taken_def)
  then have "length taken = k" by (metis diff_zero length_map length_upt)
  with k show ?thesis by simp
qed

definition sample_chunk :: "nat \<Rightarrow> byte list \<Rightarrow> string chunk_request" where
  "sample_chunk seq raw = \<lparr>cr_request = ''r'', cr_source = ''s'', cr_seq = seq,
     cr_base64 = base64_encode raw, cr_io = None\<rparr>"

theorem forwarded_stdin_exact_witness:
  "snd (dispatch_run Some (\<lambda>s. s) [sample_chunk 0 [104, 105], sample_chunk 0 [104, 105], sample_chunk 1 [10]]
      [''s'' \<mapsto> new_binding] :: (string chunk_request \<times> (unit, unit, unit) worker_event dispatch_outcome) list \<times> string bindings) ''s''
   = Some \<lparr>sb_written = [104, 105, 10], sb_expected_seq = 2\<rparr>"
proof -
  let ?cs = "[sample_chunk 0 [104, 105], sample_chunk 0 [104, 105], sample_chunk 1 [10]]"
  obtain answers b' where run: "dispatch_run Some (\<lambda>s. s) ?cs [''s'' \<mapsto> new_binding]
      = (answers :: (string chunk_request \<times> (unit, unit, unit) worker_event dispatch_outcome) list, b')"
    by fastforce
  have raws: "raw_of (base64_encode raw) = raw" for raw
    by (simp add: raw_of_def decoded_len_encode base64_decodes_encoded)
  have dec: "base64_decode_bounded (base64_encode raw) n = Some raw" if "n = length raw" for raw n
    using that base64_decodes_encoded by simp
  have "accepted_for Some ''s'' answers = [sample_chunk 0 [104, 105], sample_chunk 1 [10]]"
    using run
    by (auto simp: sample_chunk_def dispatch_one_def dispatch_chunk_def validate_inbound_def
        check_stdin_chunk_base64_def decoded_len_encode dec note_stdin_chunk_def
        max_stdin_chunk_bytes_def new_binding_def accepted_for_def credited_def Let_def)
  then show ?thesis
    using forwarded_stdin_exact [OF run, of "''s''"] run
    by (simp add: sample_chunk_def raws)
qed

end
