(* ===== verification/Deletion_Ledger.thy ===== *)
theory Deletion_Ledger
  imports Prelude Chars
begin

text \<open>
  The record of what was deleted on purpose, \<open>crates/lvu-app/src/storage/ledger.rs\<close>: the append-only
  file of JSON lines that a deletion writes its intent to before it removes anything, its reader, and
  the gaps shown from it.

  \<open>serde_json\<close> is a pair of parameters (hypothesis \<open>ledger_json_ok\<close>); \<open>parse\<close> reads a line with its
  terminator, which the code trims.  The file is what a reader sees, with the length of the part that
  a crash cannot take away.  Each call that reaches the operating system has its outcome as a
  parameter.  The rendering of sizes (\<open>format_bytes\<close>, floating point) is a parameter too.
\<close>

section \<open>Records\<close>

datatype deletion_cause = UserRequested | ByRetention

definition cause_label :: "deletion_cause \<Rightarrow> string" where
  "cause_label cause = (case cause of UserRequested \<Rightarrow> ''requested'' | ByRetention \<Rightarrow> ''retention'')"

datatype deletion_state = Intended | Completed | DeletionFailed

datatype deleted_kind = DeletedCapture | DeletedInvestigation

record capture_boundary =
  bd_source_id :: string
  bd_source_name :: string
  bd_generation :: nat
  bd_first_sequence :: "nat option"
  bd_last_sequence :: "nat option"
  bd_reserved_sequence_upper_bound :: "nat option"
  bd_first_captured_at :: "int option"
  bd_journal_bytes :: nat
  bd_whole_capture :: bool
  bd_probed :: bool

definition boundary_default :: capture_boundary where
  "boundary_default = \<lparr>bd_source_id = [], bd_source_name = [], bd_generation = 0, bd_first_sequence = None,
     bd_last_sequence = None, bd_reserved_sequence_upper_bound = None, bd_first_captured_at = None,
     bd_journal_bytes = 0, bd_whole_capture = False, bd_probed = False\<rparr>"

record deletion_record =
  dr_schema_version :: nat
  dr_entry_id :: string
  dr_recorded_at :: int
  dr_state :: deletion_state
  dr_kind :: deleted_kind
  dr_target_id :: string
  dr_target_label :: string
  dr_cause :: deletion_cause
  dr_policy :: "string option"
  dr_boundary :: "capture_boundary option"
  dr_bytes_freed :: nat
  dr_detail :: string

definition ledger_schema_version :: nat where "ledger_schema_version = 1"
definition max_record_bytes :: nat where "max_record_bytes = 8 * 1024"
definition max_ledger_bytes :: nat where "max_ledger_bytes = 8 * 1024 * 1024"
definition max_ledger_records :: nat where "max_ledger_records = 4096"

text \<open>The clock, and the entry id built from it, the process and a counter, are arguments.\<close>

definition deletion_intent ::
  "int \<Rightarrow> string \<Rightarrow> deleted_kind \<Rightarrow> string \<Rightarrow> string \<Rightarrow> deletion_cause \<Rightarrow> string option
     \<Rightarrow> capture_boundary option \<Rightarrow> nat \<Rightarrow> deletion_record" where
  "deletion_intent now entry_id kind target_id target_label cause policy boundary planned_bytes =
    \<lparr>dr_schema_version = ledger_schema_version, dr_entry_id = entry_id, dr_recorded_at = now,
     dr_state = Intended, dr_kind = kind, dr_target_id = target_id, dr_target_label = target_label,
     dr_cause = cause, dr_policy = policy, dr_boundary = boundary, dr_bytes_freed = planned_bytes,
     dr_detail = ''deletion authorized; removal not yet finished''\<rparr>"

definition deletion_settled ::
  "int \<Rightarrow> deletion_state \<Rightarrow> nat \<Rightarrow> string \<Rightarrow> deletion_record \<Rightarrow> deletion_record" where
  "deletion_settled now state bytes_freed detail r =
    r\<lparr>dr_state := state, dr_bytes_freed := bytes_freed, dr_detail := detail, dr_recorded_at := now\<rparr>"

section \<open>The file\<close>

record ledger_file =
  lf_bytes :: "byte list option"
  lf_synced :: nat

datatype append_outcome =
    AppendFine | DirectoryFails string | OpenFails string | WriteFails string nat | SyncFails string

definition put_bytes :: "byte list \<Rightarrow> ledger_file \<Rightarrow> ledger_file" where
  "put_bytes bytes file = file\<lparr>lf_bytes := Some (case lf_bytes file of None \<Rightarrow> bytes | Some old \<Rightarrow> old @ bytes)\<rparr>"

definition sync_ledger :: "ledger_file \<Rightarrow> ledger_file" where
  "sync_ledger file = file\<lparr>lf_synced := (case lf_bytes file of None \<Rightarrow> 0 | Some bytes \<Rightarrow> length bytes)\<rparr>"

definition ledger_append ::
  "(deletion_record \<Rightarrow> string + byte list) \<Rightarrow> append_outcome \<Rightarrow> deletion_record \<Rightarrow> ledger_file
     \<Rightarrow> (string + unit) \<times> ledger_file" where
  "ledger_append to_vec io r file =
    (case to_vec r of
       Inl error \<Rightarrow> (Inl error, file)
     | Inr line \<Rightarrow>
         if length line + 1 > max_record_bytes
         then (Inl ''deletion record exceeds the ledger entry limit'', file)
         else (let line = line @ [LF] in
           case io of
             DirectoryFails e \<Rightarrow> (Inl e, file)
           | OpenFails e \<Rightarrow> (Inl e, file)
           | WriteFails e n \<Rightarrow> (Inl e, put_bytes (take n line) file)
           | SyncFails e \<Rightarrow> (Inl e, put_bytes line file)
           | AppendFine \<Rightarrow> (Inr (), sync_ledger (put_bytes line file))))"

text \<open>A crash leaves the synced part and any part of what follows it.\<close>

definition ledger_crash :: "nat \<Rightarrow> ledger_file \<Rightarrow> ledger_file" where
  "ledger_crash kept file = sync_ledger
     (file\<lparr>lf_bytes := map_option (take (max kept (lf_synced file))) (lf_bytes file)\<rparr>)"

section \<open>The reader\<close>

record ledger_readout =
  lo_records :: "deletion_record list"
  lo_truncated :: bool
  lo_readable :: bool
  lo_errors :: "string list"

definition readout_default :: ledger_readout where
  "readout_default = \<lparr>lo_records = [], lo_truncated = False, lo_readable = True, lo_errors = []\<rparr>"

definition push_read_error :: "string \<Rightarrow> ledger_readout \<Rightarrow> ledger_readout" where
  "push_read_error e out = out\<lparr>lo_errors := lo_errors out @ [e]\<rparr>"

text \<open>What \<open>read_line\<close> takes from the bytes ahead: up to and with the first newline, or all of them.\<close>

definition line_ahead :: "byte list \<Rightarrow> byte list" where
  "line_ahead bytes = (let body = takeWhile (\<lambda>b. b \<noteq> LF) bytes in
     if length body < length bytes then body @ [LF] else body)"

definition take_record :: "(string + deletion_record) \<Rightarrow> ledger_readout \<Rightarrow> ledger_readout" where
  "take_record parsed out =
    (case parsed of
       Inr r \<Rightarrow>
         if dr_schema_version r = ledger_schema_version then out\<lparr>lo_records := lo_records out @ [r]\<rparr>
         else push_read_error (''deletion ledger entry uses unsupported schema '' @ show_nat (dr_schema_version r)) out
     | Inl error \<Rightarrow> push_read_error (''deletion ledger entry: '' @ error) out)"

text \<open>\<open>faults i\<close> is the error of the i-th read, if it has one.\<close>

function read_lines ::
  "(byte list \<Rightarrow> string + deletion_record) \<Rightarrow> (nat \<Rightarrow> string option) \<Rightarrow> nat \<Rightarrow> byte list \<Rightarrow> ledger_readout \<Rightarrow> ledger_readout" where
  "read_lines parse faults i bytes out =
    (case faults i of
       Some error \<Rightarrow> push_read_error (''deletion ledger: '' @ error) out
     | None \<Rightarrow>
       if bytes = [] then out
       else (let line = line_ahead bytes in
         if \<not> utf8_valid line then push_read_error (''deletion ledger: '' @ ''stream did not contain valid UTF-8'') out
         else if last line \<noteq> LF then push_read_error ''deletion ledger has an incomplete final entry'' out
         else if length (lo_records out) \<ge> max_ledger_records then out\<lparr>lo_truncated := True\<rparr>
         else read_lines parse faults (i + 1) (drop (length line) bytes) (take_record (parse line) out)))"
  by pat_completeness auto
termination by (relation "measure (\<lambda>(_, _, _, bytes, _). length bytes)") (auto simp: line_ahead_def Let_def neq_Nil_conv)

declare read_lines.simps [simp del]

record read_outcome =
  ro_open :: "string option"
  ro_metadata :: "string option"
  ro_faults :: "nat \<Rightarrow> string option"

definition ledger_read ::
  "(byte list \<Rightarrow> string + deletion_record) \<Rightarrow> read_outcome \<Rightarrow> ledger_file \<Rightarrow> ledger_readout" where
  "ledger_read parse io file =
    (case lf_bytes file of
       None \<Rightarrow> readout_default
     | Some bytes \<Rightarrow>
       (case ro_open io of
          Some error \<Rightarrow> (push_read_error (''deletion ledger: '' @ error) readout_default)\<lparr>lo_readable := False\<rparr>
        | None \<Rightarrow>
          (let out = (case ro_metadata io of
                  Some error \<Rightarrow> push_read_error (''deletion ledger: '' @ error) readout_default
                | None \<Rightarrow> if length bytes > max_ledger_bytes then readout_default\<lparr>lo_truncated := True\<rparr>
                    else readout_default)
           in read_lines parse (ro_faults io) 0 (take max_ledger_bytes bytes) out)))"

section \<open>Gaps\<close>

record capture_gap =
  cg_source_id :: string
  cg_source_name :: string
  cg_recorded_at :: int
  cg_cause :: deletion_cause
  cg_state :: deletion_state
  cg_sequence_range :: "(nat \<times> nat) option"
  cg_first_captured_at :: "int option"
  cg_bytes_freed :: nat
  cg_policy :: "string option"
  cg_summary :: ustr

definition gap_summary ::
  "(nat \<Rightarrow> string) \<Rightarrow> deletion_record \<Rightarrow> deletion_state \<Rightarrow> capture_boundary \<Rightarrow> (nat \<times> nat) option \<Rightarrow> nat \<Rightarrow> ustr" where
  "gap_summary format_bytes r state boundary sequence_range bytes_freed =
    (let range = (case (sequence_range, bd_first_sequence boundary) of
            (Some (first, final), _) \<Rightarrow> ustr_of (''records '' @ show_nat first) @ [0x2013] @ ustr_of (show_nat final)
          | (None, Some first) \<Rightarrow> ustr_of (''records from '' @ show_nat first @ '' onward'')
          | (None, None) \<Rightarrow> ustr_of ''an unrecorded record range'');
         verb = (case state of
            Completed \<Rightarrow> ''removed''
          | DeletionFailed \<Rightarrow> ''partially removed''
          | Intended \<Rightarrow> ''left in an interrupted removal'');
         scope = (if bd_whole_capture boundary then ''the whole capture'' else ''part of the capture'');
         tail = (case state of
            Intended \<Rightarrow> '' Restart did not observe a completion entry; treat this source as incomplete.''
          | DeletionFailed \<Rightarrow> '' Some files may remain; this source is incomplete.''
          | Completed \<Rightarrow> '''')
     in ustr_of (scope @ '' of '' @ [CHR 0x22] @ dr_target_label r @ [CHR 0x22] @ '' was '' @ verb @ '' by ''
          @ cause_label (dr_cause r) @ '' ('') @ range
        @ ustr_of ('', '' @ format_bytes bytes_freed @ '' freed).'' @ tail))"

definition settlement :: "deletion_record list \<Rightarrow> string \<Rightarrow> deletion_record option" where
  "settlement records entry_id =
    fold (\<lambda>r found. if dr_state r \<noteq> Intended \<and> dr_entry_id r = entry_id then Some r else found) records None"

definition gap_of :: "(nat \<Rightarrow> string) \<Rightarrow> deletion_record list \<Rightarrow> deletion_record \<Rightarrow> capture_gap" where
  "gap_of format_bytes records r =
    (let outcome = settlement records (dr_entry_id r);
         state = (case outcome of None \<Rightarrow> Intended | Some value \<Rightarrow> dr_state value);
         bytes_freed = (case outcome of None \<Rightarrow> dr_bytes_freed r | Some value \<Rightarrow> dr_bytes_freed value);
         boundary = (case dr_boundary r of None \<Rightarrow> boundary_default | Some b \<Rightarrow> b);
         sequence_range = (case (bd_first_sequence boundary, bd_last_sequence boundary) of
             (Some first, Some final) \<Rightarrow> if first \<le> final then Some (first, final) else None
           | _ \<Rightarrow> None)
     in \<lparr>cg_source_id = bd_source_id boundary,
         cg_source_name = (if bd_source_name boundary = [] then dr_target_label r else bd_source_name boundary),
         cg_recorded_at = dr_recorded_at r, cg_cause = dr_cause r, cg_state = state,
         cg_sequence_range = sequence_range, cg_first_captured_at = bd_first_captured_at boundary,
         cg_bytes_freed = bytes_freed, cg_policy = dr_policy r,
         cg_summary = gap_summary format_bytes r state boundary sequence_range bytes_freed\<rparr>)"

definition capture_gaps :: "(nat \<Rightarrow> string) \<Rightarrow> ledger_readout \<Rightarrow> capture_gap list" where
  "capture_gaps format_bytes readout =
    map (gap_of format_bytes (lo_records readout))
      (filter (\<lambda>r. dr_state r = Intended \<and> dr_kind r = DeletedCapture) (lo_records readout))"

section \<open>What a reader finds\<close>

definition ledger_json_ok ::
  "(deletion_record \<Rightarrow> string + byte list) \<Rightarrow> (byte list \<Rightarrow> string + deletion_record) \<Rightarrow> bool" where
  "ledger_json_ok to_vec parse \<longleftrightarrow>
    (\<forall>r bytes. to_vec r = Inr bytes \<longrightarrow> LF \<notin> set bytes \<and> utf8_valid (bytes @ [LF]) \<and> parse (bytes @ [LF]) = Inr r)"

definition record_line :: "(deletion_record \<Rightarrow> string + byte list) \<Rightarrow> deletion_record \<Rightarrow> byte list" where
  "record_line to_vec r = (case to_vec r of Inr bytes \<Rightarrow> bytes @ [LF] | Inl _ \<Rightarrow> [])"

definition ledger_text :: "(deletion_record \<Rightarrow> string + byte list) \<Rightarrow> deletion_record list \<Rightarrow> byte list" where
  "ledger_text to_vec rs = concat (map (record_line to_vec) rs)"

definition recordable :: "(deletion_record \<Rightarrow> string + byte list) \<Rightarrow> deletion_record \<Rightarrow> bool" where
  "recordable to_vec r \<longleftrightarrow> dr_schema_version r = ledger_schema_version \<and> (\<exists>bytes. to_vec r = Inr bytes)"

lemma ledger_text_simps [simp]:
  "ledger_text to_vec [] = []"
  "ledger_text to_vec (r # rs) = record_line to_vec r @ ledger_text to_vec rs"
  "ledger_text to_vec (rs @ qs) = ledger_text to_vec rs @ ledger_text to_vec qs"
  by (simp_all add: ledger_text_def)

lemma line_ahead_line: "LF \<notin> set body \<Longrightarrow> line_ahead (body @ LF # rest) = body @ [LF]"
proof -
  assume "LF \<notin> set body"
  then have "takeWhile (\<lambda>b. b \<noteq> LF) (body @ LF # rest) = body"
    by (subst takeWhile_append2) auto
  then show ?thesis by (simp add: line_ahead_def Let_def)
qed

lemma line_ahead_rest: "LF \<notin> set bytes \<Longrightarrow> line_ahead bytes = bytes"
proof -
  assume "LF \<notin> set bytes"
  then have "takeWhile (\<lambda>b. b \<noteq> LF) bytes = bytes" by (auto simp: takeWhile_eq_all_conv)
  then show ?thesis by (simp only: line_ahead_def Let_def) simp
qed

lemma read_lines_line:
  assumes "faults i = None" "LF \<notin> set body" "utf8_valid (body @ [LF])" "length (lo_records out) < max_ledger_records"
  shows "read_lines parse faults i (body @ LF # rest) out
    = read_lines parse faults (i + 1) rest (take_record (parse (body @ [LF])) out)"
proof -
  have "drop (length (body @ [LF])) (body @ LF # rest) = rest" by simp
  then show ?thesis using assms
    by (subst read_lines.simps) (simp add: line_ahead_line Let_def)
qed

text \<open>Reading a whole text, and whatever follows it, takes its records in order.\<close>

lemma read_lines_text:
  assumes "ledger_json_ok to_vec parse" "\<forall>r \<in> set rs. recordable to_vec r" "\<forall>j. faults j = None"
    and "length (lo_records out) + length rs \<le> max_ledger_records"
  shows "read_lines parse faults i (ledger_text to_vec rs @ rest) out
    = read_lines parse faults (i + length rs) rest (out\<lparr>lo_records := lo_records out @ rs\<rparr>)"
  using assms(2,4)
proof (induction rs arbitrary: i out)
  case (Cons r rs)
  obtain bytes where b: "to_vec r = Inr bytes" using Cons.prems(1) by (auto simp: recordable_def)
  then have ok: "LF \<notin> set bytes" "utf8_valid (bytes @ [LF])" "parse (bytes @ [LF]) = Inr r"
    using assms(1) by (auto simp: ledger_json_ok_def)
  have "read_lines parse faults i (ledger_text to_vec (r # rs) @ rest) out
      = read_lines parse faults i (bytes @ LF # (ledger_text to_vec rs @ rest)) out"
    using b by (simp add: record_line_def)
  also have "\<dots> = read_lines parse faults (i + 1) (ledger_text to_vec rs @ rest) (take_record (Inr r) out)"
    using read_lines_line [of faults i bytes out parse] ok assms(3) Cons.prems(2) by simp
  also have "take_record (Inr r) out = out\<lparr>lo_records := lo_records out @ [r]\<rparr>"
    using Cons.prems(1) by (simp add: take_record_def recordable_def)
  finally show ?case using Cons by simp
qed simp

lemma read_lines_end: "faults i = None \<Longrightarrow> read_lines parse faults i [] out = out"
  by (simp add: read_lines.simps)

text \<open>A torn tail adds an error and no record.\<close>

lemma read_lines_torn:
  assumes "LF \<notin> set torn" "faults i = None"
  shows "lo_records (read_lines parse faults i torn out) = lo_records out"
  using assms by (subst read_lines.simps) (auto simp: line_ahead_rest push_read_error_def Let_def dest: last_in_set)

definition reads_fine :: "read_outcome \<Rightarrow> bool" where
  "reads_fine io \<longleftrightarrow> ro_open io = None \<and> (\<forall>i. ro_faults io i = None)"

lemma ledger_read_text:
  assumes "ledger_json_ok to_vec parse" "\<forall>r \<in> set rs. recordable to_vec r" "reads_fine io"
    and "length rs \<le> max_ledger_records" "length (ledger_text to_vec rs @ torn) \<le> max_ledger_bytes"
    and "LF \<notin> set torn" "lf_bytes file = Some (ledger_text to_vec rs @ torn)"
  shows "lo_records (ledger_read parse io file) = rs"
proof -
  define out where "out = (case ro_metadata io of
      Some error \<Rightarrow> push_read_error (''deletion ledger: '' @ error) readout_default | None \<Rightarrow> readout_default)"
  have none: "lo_records out = []"
    by (simp add: out_def readout_default_def push_read_error_def split: option.split)
  have "ledger_read parse io file = read_lines parse (ro_faults io) 0 (ledger_text to_vec rs @ torn) out"
    using assms(3,5,7) by (auto simp: ledger_read_def reads_fine_def out_def split: option.split)
  also have "\<dots> = read_lines parse (ro_faults io) (0 + length rs) torn (out\<lparr>lo_records := lo_records out @ rs\<rparr>)"
    by (rule read_lines_text [OF assms(1,2)]) (use assms(3,4) none in \<open>auto simp: reads_fine_def\<close>)
  finally show ?thesis
    using read_lines_torn [OF assms(6)] none assms(3) by (simp add: reads_fine_def)
qed

text \<open>What a crash leaves of a synced text and a line behind it.\<close>

lemma prefix_of_line:
  assumes "LF \<notin> set body"
  shows "take n (body @ [LF]) = body @ [LF] \<or> LF \<notin> set (take n (body @ [LF]))"
  using assms by (cases "n \<le> length body") (auto dest: in_set_takeD)

definition bytes_of :: "ledger_file \<Rightarrow> byte list" where
  "bytes_of file = (case lf_bytes file of None \<Rightarrow> [] | Some bytes \<Rightarrow> bytes)"

lemma put_bytes_of [simp]:
  "bytes_of (put_bytes bytes file) = bytes_of file @ bytes" "lf_synced (put_bytes bytes file) = lf_synced file"
  by (simp_all add: put_bytes_def bytes_of_def split: option.split)

lemma sync_bytes_of [simp]:
  "bytes_of (sync_ledger file) = bytes_of file" "lf_synced (sync_ledger file) = length (bytes_of file)"
  by (simp_all add: sync_ledger_def bytes_of_def split: option.split)

lemma append_shape:
  assumes "ledger_append to_vec io r file = (answer, file')" "lf_synced file = length (bytes_of file)"
  shows "\<exists>n. bytes_of file' = bytes_of file @ take n (record_line to_vec r) \<and> length (bytes_of file) \<le> lf_synced file'"
proof (cases "to_vec r")
  case (Inl e)
  then show ?thesis using assms by (auto simp: ledger_append_def intro: exI [of _ 0])
next
  case (Inr bytes)
  then have line: "record_line to_vec r = bytes @ [LF]" by (simp add: record_line_def)
  show ?thesis
  proof (cases "length bytes + 1 > max_record_bytes")
    case True
    then show ?thesis using assms Inr by (auto simp: ledger_append_def intro: exI [of _ 0])
  next
    case False
    show ?thesis
    proof (cases io)
      case (WriteFails e n)
      then show ?thesis using assms Inr False
        by (intro exI [of _ n]) (auto simp: ledger_append_def line Let_def)
    qed (use assms Inr False in \<open>auto simp: ledger_append_def line Let_def
        intro: exI [of _ 0] exI [of _ "Suc (length bytes)"]\<close>)
  qed
qed

lemma append_done:
  assumes "ledger_append to_vec io r file = (Inr (), file')"
  shows "(\<exists>bytes. to_vec r = Inr bytes) \<and> bytes_of file' = bytes_of file @ record_line to_vec r
    \<and> lf_synced file' = length (bytes_of file')"
  using assms by (auto simp: ledger_append_def record_line_def Let_def split: sum.splits if_splits append_outcome.splits)

lemma crash_shape:
  assumes "bytes_of file = old @ rest" "length old \<le> lf_synced file"
  shows "\<exists>n. bytes_of (ledger_crash kept file) = old @ take n rest"
proof -
  have "bytes_of (ledger_crash kept file) = take (max kept (lf_synced file)) (bytes_of file)"
    by (cases "lf_bytes file") (simp_all add: ledger_crash_def sync_ledger_def bytes_of_def)
  then show ?thesis using assms by auto
qed

lemma ledger_read_bytes:
  assumes "ledger_json_ok to_vec parse" "\<forall>r \<in> set rs. recordable to_vec r" "reads_fine io"
    and "length rs \<le> max_ledger_records" "length (ledger_text to_vec rs @ torn) \<le> max_ledger_bytes"
    and "LF \<notin> set torn" "bytes_of file = ledger_text to_vec rs @ torn"
  shows "lo_records (ledger_read parse io file) = rs"
proof (cases "lf_bytes file")
  case None
  then have "ledger_text to_vec rs = []" using assms(7) by (simp add: bytes_of_def)
  then have "rs = []"
    using assms(2) by (cases rs) (auto simp: recordable_def record_line_def)
  then show ?thesis using None by (simp add: ledger_read_def readout_default_def)
next
  case (Some bytes)
  then show ?thesis using ledger_read_text [OF assms(1-6)] assms(7) by (simp add: bytes_of_def)
qed

lemma settlement_append:
  "settlement (rs @ [s]) e = (if dr_state s \<noteq> Intended \<and> dr_entry_id s = e then Some s else settlement rs e)"
  by (simp add: settlement_def)

lemma settlement_fresh: "\<forall>r \<in> set rs. dr_entry_id r \<noteq> e \<Longrightarrow> settlement rs e = None"
  by (induction rs rule: rev_induct) (auto simp: settlement_append settlement_def)

section \<open>Properties\<close>

text \<open>C38. A recorded deletion stays visible.  For a ledger that is synced, ends in a whole record (no torn
  tail), and with the intent and its outcome stays within what a reader takes, 4096 records and 8 MiB:
  once the intent of the deletion of a capture, with an entry id of its own, has been accepted, whatever
  becomes of the record of its outcome - refused, failed on the way, cut short, or lost in a crash - a
  reader whose reads do not fail finds all the earlier records and the intent, in order, and a gap for
  the capture, either interrupted or in the state the outcome records.  Beyond these limits, or behind
  a torn tail, an accepted intent may stay invisible (\<open>torn_tail_hides_next_record\<close>, \<open>full_ledger_hides_next_record\<close>).\<close>

theorem recorded_deletion_stays_visible:
  assumes "ledger_json_ok to_vec parse" "\<forall>r \<in> set (rs @ [intent, outcome]). dr_schema_version r = ledger_schema_version"
    and "\<forall>r \<in> set rs. \<exists>bytes. to_vec r = Inr bytes" "reads_fine io"
    and "length rs + 2 \<le> max_ledger_records" "length (ledger_text to_vec (rs @ [intent, outcome])) \<le> max_ledger_bytes"
    and "bytes_of file = ledger_text to_vec rs" "lf_synced file = length (bytes_of file)"
    and "ledger_append to_vec first intent file = (Inr (), file1)"
    and "file2 = snd (ledger_append to_vec second outcome file1)"
    and "dr_state intent = Intended" "dr_kind intent = DeletedCapture"
    and "dr_state outcome \<noteq> Intended" "dr_entry_id outcome = dr_entry_id intent"
    and "\<forall>r \<in> set rs. dr_entry_id r \<noteq> dr_entry_id intent"
    and "after = ledger_crash kept file2 \<or> after = file2"
  defines "found \<equiv> ledger_read parse io after"
  shows "(lo_records found = rs @ [intent] \<or> lo_records found = rs @ [intent, outcome])
    \<and> (\<exists>gap \<in> set (capture_gaps format_bytes found). cg_cause gap = dr_cause intent
        \<and> cg_recorded_at gap = dr_recorded_at intent \<and> cg_state gap \<in> {Intended, dr_state outcome})"
proof -
  note fin = append_done [OF assms(9)]
  obtain n where n: "bytes_of file2 = bytes_of file1 @ take n (record_line to_vec outcome)"
    "length (bytes_of file1) \<le> lf_synced file2"
    using append_shape [of to_vec second outcome file1 "fst (ledger_append to_vec second outcome file1)" file2]
      fin assms(10) by auto
  have one: "bytes_of file1 = ledger_text to_vec (rs @ [intent])" using fin assms(7) by simp
  obtain m where m: "bytes_of after = ledger_text to_vec (rs @ [intent]) @ take m (record_line to_vec outcome)"
    using assms(16) n crash_shape [OF n(1) n(2), of kept] one by (metis take_take)
  have rec: "\<forall>r \<in> set (rs @ [intent]). recordable to_vec r"
    using assms(2,3) fin by (auto simp: recordable_def)
  have size: "length (ledger_text to_vec (rs @ [intent]) @ take m (record_line to_vec outcome)) \<le> max_ledger_bytes"
    using assms(6) by simp
  have "lo_records found = rs @ [intent] \<or> lo_records found = rs @ [intent, outcome]"
  proof (cases "to_vec outcome")
    case (Inl e)
    then have "lo_records found = rs @ [intent]" unfolding found_def
      using ledger_read_bytes [OF assms(1) rec assms(4), of "[]" after] m size assms(5)
      by (simp add: record_line_def)
    then show ?thesis by simp
  next
    case (Inr bytes)
    then have line: "record_line to_vec outcome = bytes @ [LF]" "LF \<notin> set bytes"
      using assms(1) by (auto simp: record_line_def ledger_json_ok_def)
    show ?thesis
    proof (cases "take m (bytes @ [LF]) = bytes @ [LF]")
      case True
      have "recordable to_vec outcome" using Inr assms(2) by (simp add: recordable_def)
      then have "\<forall>r \<in> set (rs @ [intent, outcome]). recordable to_vec r" using rec by auto
      then have "lo_records found = rs @ [intent, outcome]" unfolding found_def
        using ledger_read_bytes [OF assms(1) _ assms(4), of "rs @ [intent, outcome]" "[]" after]
          m True assms(5,6) by (simp add: line)
      then show ?thesis by simp
    next
      case False
      then have "LF \<notin> set (take m (bytes @ [LF]))" using prefix_of_line [OF line(2), of m] by blast
      then have "lo_records found = rs @ [intent]" unfolding found_def
        using ledger_read_bytes [OF assms(1) rec assms(4), of "take m (bytes @ [LF])" after] m size assms(5)
        by (simp add: line)
      then show ?thesis by simp
    qed
  qed
  moreover have "settlement (rs @ [intent]) (dr_entry_id intent) = None"
    using settlement_fresh [of rs "dr_entry_id intent"] assms(11,15) by (simp add: settlement_append)
  moreover from this have "settlement (rs @ [intent, outcome]) (dr_entry_id intent) = Some outcome"
    using settlement_append [of "rs @ [intent]" outcome] assms(13,14) by simp
  ultimately show ?thesis
    using assms(11,12) by (auto simp: capture_gaps_def gap_of_def Let_def)
qed

definition sample_intent :: deletion_record where
  "sample_intent = deletion_intent 7 ''7-1-0'' DeletedCapture ''id'' ''api'' UserRequested None None 10"

definition sample_settled :: deletion_record where
  "sample_settled = deletion_settled 9 Completed 10 ''removed 10 B'' sample_intent"

definition sample_to_vec :: "deletion_record \<Rightarrow> string + byte list" where
  "sample_to_vec r = (if r = sample_intent then Inr [105] else if r = sample_settled then Inr [115] else Inl ''unknown'')"

definition sample_parse :: "byte list \<Rightarrow> string + deletion_record" where
  "sample_parse line = (if line = [105, LF] then Inr sample_intent
     else if line = [115, LF] then Inr sample_settled else Inl ''unknown'')"

lemma sample_records: "sample_settled \<noteq> sample_intent"
  by (simp add: sample_settled_def sample_intent_def deletion_settled_def deletion_intent_def)

lemma sample_ledger_json: "ledger_json_ok sample_to_vec sample_parse"
  using sample_records by (auto simp: ledger_json_ok_def sample_to_vec_def sample_parse_def split: if_splits)

theorem recorded_deletion_stays_visible_witness:
  "map cg_state (capture_gaps show_nat (ledger_read sample_parse \<lparr>ro_open = None, ro_metadata = None, ro_faults = (\<lambda>_. None)\<rparr>
     (ledger_crash 0 (snd (ledger_append sample_to_vec (SyncFails ''full'') sample_settled
       (snd (ledger_append sample_to_vec AppendFine sample_intent \<lparr>lf_bytes = None, lf_synced = 0\<rparr>))))))) = [Intended]
   \<or> map cg_state (capture_gaps show_nat (ledger_read sample_parse \<lparr>ro_open = None, ro_metadata = None, ro_faults = (\<lambda>_. None)\<rparr>
     (ledger_crash 0 (snd (ledger_append sample_to_vec (SyncFails ''full'') sample_settled
       (snd (ledger_append sample_to_vec AppendFine sample_intent \<lparr>lf_bytes = None, lf_synced = 0\<rparr>))))))) = [Completed]"
proof -
  let ?io = "\<lparr>ro_open = None, ro_metadata = None, ro_faults = (\<lambda>_. None)\<rparr>"
  let ?file = "\<lparr>lf_bytes = None, lf_synced = 0\<rparr>"
  let ?one = "snd (ledger_append sample_to_vec AppendFine sample_intent ?file)"
  let ?found = "ledger_read sample_parse ?io (ledger_crash 0 (snd (ledger_append sample_to_vec (SyncFails ''full'') sample_settled ?one)))"
  have first: "ledger_append sample_to_vec AppendFine sample_intent ?file = (Inr (), ?one)"
    by (simp add: ledger_append_def sample_to_vec_def max_record_bytes_def Let_def)
  have fields: "dr_state sample_intent = Intended" "dr_kind sample_intent = DeletedCapture"
    "dr_state sample_settled = Completed" "dr_entry_id sample_settled = dr_entry_id sample_intent"
    "dr_schema_version sample_intent = ledger_schema_version" "dr_schema_version sample_settled = ledger_schema_version"
    by (simp_all add: sample_intent_def sample_settled_def deletion_intent_def deletion_settled_def)
  have size: "length (ledger_text sample_to_vec ([] @ [sample_intent, sample_settled])) \<le> max_ledger_bytes"
    using sample_records by (simp add: record_line_def sample_to_vec_def max_ledger_bytes_def)
  have "(lo_records ?found = [] @ [sample_intent] \<or> lo_records ?found = [] @ [sample_intent, sample_settled])
    \<and> (\<exists>gap \<in> set (capture_gaps show_nat ?found). cg_cause gap = dr_cause sample_intent
        \<and> cg_recorded_at gap = dr_recorded_at sample_intent \<and> cg_state gap \<in> {Intended, dr_state sample_settled})"
    by (rule recorded_deletion_stays_visible [OF sample_ledger_json _ _ _ _ size _ _ first refl])
      (auto simp: fields bytes_of_def reads_fine_def max_ledger_records_def)
  then have "lo_records ?found = [sample_intent] \<or> lo_records ?found = [sample_intent, sample_settled]" by simp
  then show ?thesis
    by (auto simp: capture_gaps_def gap_of_def Let_def fields settlement_def)
qed

text \<open>
  A tail that a crash or a failed write left is glued to the record appended next: the append succeeds,
  and a reader finds neither the record nor a gap for it.
\<close>

lemma torn_tail_hides_next_record:
  assumes "ledger_json_ok to_vec parse" "\<forall>r \<in> set rs. recordable to_vec r" "reads_fine io"
    and "length rs + 1 \<le> max_ledger_records" "length (ledger_text to_vec rs @ torn @ bytes @ [LF]) \<le> max_ledger_bytes"
    and "bytes_of file = ledger_text to_vec rs @ torn" "LF \<notin> set torn"
    and "to_vec r = Inr bytes" "length bytes + 1 \<le> max_record_bytes"
    and "parse (torn @ bytes @ [LF]) = Inl error"
  shows "fst (ledger_append to_vec AppendFine r file) = Inr ()
    \<and> lo_records (ledger_read parse io (snd (ledger_append to_vec AppendFine r file))) = rs"
proof -
  define file' where "file' = snd (ledger_append to_vec AppendFine r file)"
  have app: "ledger_append to_vec AppendFine r file = (Inr (), file')" using assms(8,9)
    by (simp add: ledger_append_def file'_def Let_def)
  have b: "bytes_of file' = ledger_text to_vec rs @ torn @ bytes @ [LF]"
    using append_done [OF app] assms(6,8) by (simp add: record_line_def)
  then have some: "lf_bytes file' = Some (ledger_text to_vec rs @ torn @ bytes @ [LF])"
    by (cases "lf_bytes file'") (auto simp: bytes_of_def)
  define out where "out = (case ro_metadata io of
      Some error \<Rightarrow> push_read_error (''deletion ledger: '' @ error) readout_default | None \<Rightarrow> readout_default)"
  have none: "lo_records out = []"
    by (simp add: out_def readout_default_def push_read_error_def split: option.split)
  have nolf: "LF \<notin> set (torn @ bytes)" using assms(1,7,8) by (auto simp: ledger_json_ok_def)
  have "ledger_read parse io file' = read_lines parse (ro_faults io) 0 (ledger_text to_vec rs @ (torn @ bytes @ [LF])) out"
    using assms(3,5) some by (auto simp: ledger_read_def reads_fine_def out_def split: option.split)
  also have "\<dots> = read_lines parse (ro_faults io) (0 + length rs) (torn @ bytes @ [LF]) (out\<lparr>lo_records := lo_records out @ rs\<rparr>)"
    by (rule read_lines_text [OF assms(1,2)]) (use assms(3,4) none in \<open>auto simp: reads_fine_def\<close>)
  finally have eq: "ledger_read parse io file' = read_lines parse (ro_faults io) (0 + length rs) (torn @ bytes @ [LF])
      (out\<lparr>lo_records := lo_records out @ rs\<rparr>)" .
  have "lo_records (read_lines parse (ro_faults io) (0 + length rs) (torn @ bytes @ [LF])
      (out\<lparr>lo_records := lo_records out @ rs\<rparr>)) = rs"
  proof (cases "utf8_valid ((torn @ bytes) @ [LF])")
    case True
    then have "read_lines parse (ro_faults io) (0 + length rs) ((torn @ bytes) @ LF # []) (out\<lparr>lo_records := lo_records out @ rs\<rparr>)
        = read_lines parse (ro_faults io) (0 + length rs + 1) [] (take_record (parse ((torn @ bytes) @ [LF])) (out\<lparr>lo_records := lo_records out @ rs\<rparr>))"
      by (intro read_lines_line nolf) (use assms(3,4) none in \<open>auto simp: reads_fine_def\<close>)
    then show ?thesis using assms(3,10) none
      by (simp add: read_lines_end reads_fine_def take_record_def push_read_error_def)
  next
    case False
    have "line_ahead ((torn @ bytes) @ LF # []) = (torn @ bytes) @ [LF]" by (rule line_ahead_line [OF nolf])
    then show ?thesis using False assms(3) none
      by (subst read_lines.simps) (simp add: reads_fine_def Let_def push_read_error_def)
  qed
  then show ?thesis unfolding app fst_conv snd_conv eq by simp
qed

text \<open>
  A ledger that already holds as many records as a reader takes accepts one more: the append succeeds,
  the reader does not find it, and says that it has not read everything.
\<close>

lemma full_ledger_hides_next_record:
  assumes "ledger_json_ok to_vec parse" "\<forall>r \<in> set rs. recordable to_vec r" "reads_fine io" "ro_metadata io = None"
    and "length rs = max_ledger_records" "length (ledger_text to_vec (rs @ [r])) \<le> max_ledger_bytes"
    and "bytes_of file = ledger_text to_vec rs" "to_vec r = Inr bytes" "length bytes + 1 \<le> max_record_bytes"
  defines "found \<equiv> ledger_read parse io (snd (ledger_append to_vec AppendFine r file))"
  shows "fst (ledger_append to_vec AppendFine r file) = Inr () \<and> lo_records found = rs \<and> lo_truncated found"
proof -
  define file' where "file' = snd (ledger_append to_vec AppendFine r file)"
  have app: "ledger_append to_vec AppendFine r file = (Inr (), file')" using assms(8,9)
    by (simp add: ledger_append_def file'_def Let_def)
  have "bytes_of file' = ledger_text to_vec rs @ bytes @ [LF]"
    using append_done [OF app] assms(7,8) by (simp add: record_line_def)
  then have some: "lf_bytes file' = Some (ledger_text to_vec rs @ bytes @ [LF])"
    by (cases "lf_bytes file'") (auto simp: bytes_of_def)
  have ok: "LF \<notin> set bytes" "utf8_valid (bytes @ [LF])" using assms(1,8) by (auto simp: ledger_json_ok_def)
  have fine: "ro_faults io j = None" for j using assms(3) by (simp add: reads_fine_def)
  have "found = read_lines parse (ro_faults io) 0 (ledger_text to_vec rs @ bytes @ [LF]) readout_default"
    using assms(3,4,6,8) some unfolding found_def file'_def [symmetric]
    by (simp add: ledger_read_def reads_fine_def record_line_def)
  also have "\<dots> = read_lines parse (ro_faults io) (0 + length rs) (bytes @ [LF]) (readout_default\<lparr>lo_records := rs\<rparr>)"
    using read_lines_text [OF assms(1,2), of "ro_faults io" readout_default 0 "bytes @ [LF]"] fine assms(5)
    by (simp add: readout_default_def)
  also have "\<dots> = readout_default\<lparr>lo_records := rs, lo_truncated := True\<rparr>"
    using line_ahead_line [OF ok(1), of "[]"] ok(2) fine assms(5)
    by (subst read_lines.simps) (simp add: Let_def readout_default_def)
  finally show ?thesis using app by simp
qed

end
