(* ===== verification/Capture_Deletion.thy ===== *)
theory Capture_Deletion
  imports Deletion_Ledger Union_Merge
begin

text \<open>
  Ownership of what a capture root holds and the deletion of it, \<open>crates/lvu-app/src/storage/ownership.rs\<close>:
  captures, the investigations that pin them, the plan of a deletion with everything that forbids it,
  the removal of a directory tree, and \<open>execute\<close>, which records an intent before it removes anything.
  Of the scan that builds the index only the reading of pins is modelled.

  A path is the list of its components; the file system is an association list from paths to what is
  there, and a path below a symbolic link is not resolved.  The answers of the operating system, the
  hash of the standard library, and reading and writing an id are parameters.
\<close>

section \<open>What a capture root owns\<close>

type_synonym fs_path = "string list"

datatype fs_kind = FsDirectory | FsFile nat | FsLink

type_synonym file_system = "(fs_path \<times> fs_kind) list"

definition path_text :: "fs_path \<Rightarrow> string" where
  "path_text path = concat (map (\<lambda>c. CHR ''/'' # c) path)"

record derived_index_entry =
  di_path :: fs_path
  di_bytes :: nat
  di_source_id :: "source_id option"
  di_reclaimable_bytes :: nat
  di_status :: string

record capture_unit =
  cu_source_id :: source_id
  cu_name :: string
  cu_directory :: fs_path
  cu_generation :: nat
  cu_journal_bytes :: nat
  cu_durable_bytes :: nat
  cu_derived_bytes :: nat
  cu_last_modified :: "int option"
  cu_first_captured_at :: "int option"
  cu_first_sequence :: "nat option"
  cu_reserved_sequence :: "nat option"
  cu_active :: bool
  cu_incomplete :: bool
  cu_notes :: "string list"

record capture_pin =
  pn_source_id :: source_id
  pn_generation :: nat
  pn_high_watermark :: "nat option"
  pn_exported_projection :: bool
  pn_exported_rows :: nat

record investigation_unit =
  iu_investigation_id :: string
  iu_name :: string
  iu_directory :: fs_path
  iu_durable_bytes :: nat
  iu_created_at :: "int option"
  iu_pins :: "capture_pin list"
  iu_unknown_pins :: bool
  iu_incomplete :: bool
  iu_notes :: "string list"

record ownership_index =
  oi_root :: fs_path
  oi_captures :: "capture_unit list"
  oi_investigations :: "investigation_unit list"
  oi_derived :: "derived_index_entry list"
  oi_workspace_bytes :: nat
  oi_truncated :: bool
  oi_cancelled :: bool
  oi_errors :: "string list"

definition investigations_dir :: string where "investigations_dir = ''investigations''"
definition open_note :: string where "open_note = ''open in the application''"
definition max_tree_files :: nat where "max_tree_files = 8192"
definition max_tree_directories :: nat where "max_tree_directories = 2048"
definition max_tree_depth :: nat where "max_tree_depth = 6"
definition max_pins_per_investigation :: nat where "max_pins_per_investigation = 64"

definition short_id :: "string \<Rightarrow> string" where "short_id value = take 8 value"

text \<open>A directory name of at most 64 bytes, padded with zeros.\<close>

type_synonym investigation_ref = string

definition investigation_ref_new :: "string \<Rightarrow> investigation_ref option" where
  "investigation_ref_new name =
    (if name = [] \<or> length name > 64 then None else Some (name @ replicate (64 - length name) (CHR 0x00)))"

definition ref_as_str :: "investigation_ref \<Rightarrow> string" where
  "ref_as_str r = takeWhile (\<lambda>c. c \<noteq> CHR 0x00) r"

datatype deletion_target = TargetCapture source_id | TargetInvestigation investigation_ref

datatype hash_item = HashTarget deletion_target | HashText string | HashNumber nat | HashPath fs_path | HashOption "nat option"

record deletion_env =
  de_shown :: "source_id \<Rightarrow> string"
  de_parse_uuid :: "string \<Rightarrow> source_id option"
  de_hash :: "hash_item list \<Rightarrow> nat"
  de_format_bytes :: "nat \<Rightarrow> string"
  de_metadata :: "fs_path \<Rightarrow> string option"
  de_not_found :: string

definition parse_source_id :: "deletion_env \<Rightarrow> string \<Rightarrow> source_id option" where
  "parse_source_id env value = (if length value \<noteq> 36 then None else de_parse_uuid env value)"

definition capture_label :: "deletion_env \<Rightarrow> capture_unit \<Rightarrow> string" where
  "capture_label env c = cu_name c @ '' ('' @ short_id (de_shown env (cu_source_id c)) @ '')''"

definition capture_boundary_of :: "deletion_env \<Rightarrow> capture_unit \<Rightarrow> capture_boundary" where
  "capture_boundary_of env c =
    \<lparr>bd_source_id = de_shown env (cu_source_id c), bd_source_name = cu_name c, bd_generation = cu_generation c,
     bd_first_sequence = cu_first_sequence c, bd_last_sequence = None,
     bd_reserved_sequence_upper_bound = cu_reserved_sequence c,
     bd_first_captured_at = cu_first_captured_at c, bd_journal_bytes = cu_journal_bytes c,
     bd_whole_capture = True, bd_probed = True\<rparr>"

definition investigation_label :: "investigation_unit \<Rightarrow> string" where
  "investigation_label i =
    (if iu_name i = [] then short_id (iu_investigation_id i)
     else iu_name i @ '' ('' @ short_id (iu_investigation_id i) @ '')'')"

section \<open>The pins of a manifest\<close>

definition json_get :: "string \<Rightarrow> json_value \<Rightarrow> json_value option" where
  "json_get key value = (case value of JsonObject members \<Rightarrow> map_of members key | _ \<Rightarrow> None)"

definition json_str :: "json_value \<Rightarrow> string option" where
  "json_str value = (case value of JsonString s \<Rightarrow> Some s | _ \<Rightarrow> None)"

definition json_array :: "json_value \<Rightarrow> json_value list option" where
  "json_array value = (case value of JsonArray vs \<Rightarrow> Some vs | _ \<Rightarrow> None)"

definition json_u64 :: "(string \<Rightarrow> nat option) \<Rightarrow> json_value \<Rightarrow> nat option" where
  "json_u64 number value = (case value of JsonNumber s \<Rightarrow> number s | _ \<Rightarrow> None)"

definition or_zero :: "nat option \<Rightarrow> nat" where
  "or_zero value = (case value of Some n \<Rightarrow> n | None \<Rightarrow> 0)"

definition count_part ::
  "(string \<Rightarrow> nat option) \<Rightarrow> string \<Rightarrow> json_value \<Rightarrow> nat \<times> nat option \<Rightarrow> nat \<times> nat option" where
  "count_part number key part counted =
    (case counted of (exported_rows, covered) \<Rightarrow>
      if Option.bind (json_get ''source_id'' part) json_str \<noteq> Some key then (exported_rows, covered)
      else
        (let rows = or_zero (Option.bind (json_get ''rows'' part) (json_u64 number));
             last_row = or_zero (Option.bind (json_get ''last_sequence'' part) (json_u64 number))
         in (saturating_add_u64 exported_rows rows,
             Some (case covered of None \<Rightarrow> last_row | Some value \<Rightarrow> max value last_row))))"

definition read_pin ::
  "deletion_env \<Rightarrow> (string \<Rightarrow> nat option) \<Rightarrow> json_value list \<Rightarrow> json_value \<Rightarrow> investigation_unit \<Rightarrow> investigation_unit" where
  "read_pin env number parts source unit =
    (case Option.bind (Option.bind (json_get ''source_id'' source) json_str) (parse_source_id env) of
       None \<Rightarrow> unit\<lparr>iu_unknown_pins := True,
         iu_notes := iu_notes unit @ [''manifest source entry is unreadable; dependencies unknown'']\<rparr>
     | Some source_id \<Rightarrow>
         (let high_watermark = Option.bind (json_get ''high_watermark'' source) (json_u64 number);
              (exported_rows, covered) = fold (count_part number (de_shown env source_id)) parts (0, None);
              exported_projection = (exported_rows > 0 \<and> (case (covered, high_watermark) of
                  (Some covered, Some watermark) \<Rightarrow> covered \<ge> watermark | _ \<Rightarrow> False))
          in unit\<lparr>iu_pins := iu_pins unit @
               [\<lparr>pn_source_id = source_id,
                 pn_generation = or_zero (Option.bind (json_get ''generation'' source) (json_u64 number)),
                 pn_high_watermark = high_watermark, pn_exported_projection = exported_projection,
                 pn_exported_rows = exported_rows\<rparr>]\<rparr>))"

text \<open>\<open>manifest\<close> is the answer of \<open>read_json\<close>: no file, an error, or the value read.\<close>

definition read_manifest_pins ::
  "deletion_env \<Rightarrow> (string \<Rightarrow> nat option) \<Rightarrow> (string + json_value) option \<Rightarrow> investigation_unit \<Rightarrow> investigation_unit" where
  "read_manifest_pins env number manifest unit =
    (case manifest of
       None \<Rightarrow> unit\<lparr>iu_notes := iu_notes unit @ [''no published dataset; no capture is pinned'']\<rparr>
     | Some (Inl reason) \<Rightarrow> unit\<lparr>iu_unknown_pins := True,
         iu_notes := iu_notes unit @ [''manifest unreadable ('' @ reason @ ''); dependencies unknown'']\<rparr>
     | Some (Inr value) \<Rightarrow>
         (let parts = (case Option.bind (json_get ''source_parts'' value) json_array of Some ps \<Rightarrow> ps | None \<Rightarrow> [])
          in case Option.bind (json_get ''sources'' value) json_array of
            None \<Rightarrow> unit\<lparr>iu_unknown_pins := True,
              iu_notes := iu_notes unit @ [''manifest has no source list; dependencies unknown'']\<rparr>
          | Some sources \<Rightarrow>
              (let read = fold (read_pin env number parts) (take max_pins_per_investigation sources) unit
               in if length sources > max_pins_per_investigation
                  then read\<lparr>iu_unknown_pins := True,
                    iu_notes := iu_notes read @ [''manifest lists more sources than the pin limit; dependencies unknown'']\<rparr>
                  else read)))"

section \<open>Plans\<close>

datatype deletion_blocker =
    PinnedByInvestigation string "nat option" bool
  | UnknownPins string
  | SourceCapturing
  | InvestigationOpen
  | ItemNotFound
  | PathRefused string
  | BoundaryNotRecordable string
  | PlanStale

definition quoted :: "string \<Rightarrow> string" where
  "quoted s = [CHR 0x22] @ s @ [CHR 0x22]"

definition blocker_explanation :: "deletion_blocker \<Rightarrow> string" where
  "blocker_explanation blocker =
    (case blocker of
       PinnedByInvestigation investigation high_watermark exported_projection \<Rightarrow>
         ''investigation '' @ quoted investigation @ '' depends on this capture''
         @ (case high_watermark of Some value \<Rightarrow> '' through record '' @ show_nat value | None \<Rightarrow> [])
         @ ''. Delete that investigation first, or keep the capture.''
         @ (if exported_projection
            then '' Its exported dataset holds a projection of those rows, not the original bytes.'' else [])
     | UnknownPins investigation \<Rightarrow>
         ''investigation '' @ quoted investigation
         @ '' has a manifest that cannot be read, so the captures it depends on are unknown. Nothing is assumed unreferenced.''
     | SourceCapturing \<Rightarrow> ''this source is capturing now. Stop the source, then delete it.''
     | InvestigationOpen \<Rightarrow> ''this investigation is open in the application. Close it, then delete it.''
     | ItemNotFound \<Rightarrow> ''this item is no longer present under the capture root.''
     | PathRefused reason \<Rightarrow> ''refused for safety: '' @ reason @ ''. Nothing was removed.''
     | BoundaryNotRecordable reason \<Rightarrow>
         ''the deletion boundary could not be recorded ('' @ reason
         @ ''), so nothing was removed. A gap that is not recorded would make the capture look uninterrupted.''
     | PlanStale \<Rightarrow> ''storage changed since this preview was produced. Review it again.'')"

datatype item_class = ItemDurable | ItemDisposable

record plan_item =
  it_path :: fs_path
  it_bytes :: nat
  it_class :: item_class

record deletion_plan =
  dp_target :: deletion_target
  dp_label :: string
  dp_cause :: deletion_cause
  dp_policy :: "string option"
  dp_durable_bytes :: nat
  dp_disposable_bytes :: nat
  dp_items :: "plan_item list"
  dp_dependents :: "(string \<times> string) list"
  dp_blockers :: "deletion_blocker list"
  dp_boundary :: "capture_boundary option"
  dp_digest :: nat
  dp_truncated :: bool

definition plan_allowed :: "deletion_plan \<Rightarrow> bool" where
  "plan_allowed plan \<longleftrightarrow> dp_blockers plan = []"

definition freed_bytes :: "deletion_plan \<Rightarrow> nat" where
  "freed_bytes plan = saturating_add_u64 (dp_durable_bytes plan) (dp_disposable_bytes plan)"

definition plan_digest :: "deletion_env \<Rightarrow> deletion_plan \<Rightarrow> nat" where
  "plan_digest env plan = de_hash env
    ([HashTarget (dp_target plan), HashText (dp_label plan), HashNumber (dp_durable_bytes plan),
      HashNumber (dp_disposable_bytes plan), HashNumber (length (dp_blockers plan))]
     @ concat (map (\<lambda>item. [HashPath (it_path item), HashNumber (it_bytes item)]) (dp_items plan))
     @ map (\<lambda>(label, _). HashText label) (dp_dependents plan)
     @ (case dp_boundary plan of None \<Rightarrow> []
        | Some b \<Rightarrow> [HashText (bd_source_id b), HashOption (bd_first_sequence b), HashOption (bd_last_sequence b)]))"

definition sum_bytes :: "nat list \<Rightarrow> nat" where
  "sum_bytes ns = fold (\<lambda>n total. saturating_add_u64 total n) ns 0"

definition finish_plan ::
  "deletion_env \<Rightarrow> deletion_target \<Rightarrow> string \<Rightarrow> deletion_cause \<Rightarrow> string option \<Rightarrow> plan_item list
     \<Rightarrow> (string \<times> string) list \<Rightarrow> deletion_blocker list \<Rightarrow> capture_boundary option \<Rightarrow> bool \<Rightarrow> deletion_plan" where
  "finish_plan env target label cause policy items dependents blockers boundary truncated =
    (let plan = \<lparr>dp_target = target, dp_label = label, dp_cause = cause, dp_policy = policy,
           dp_durable_bytes = sum_bytes (map it_bytes (filter (\<lambda>item. it_class item = ItemDurable) items)),
           dp_disposable_bytes = sum_bytes (map it_bytes (filter (\<lambda>item. it_class item = ItemDisposable) items)),
           dp_items = items, dp_dependents = dependents, dp_blockers = blockers, dp_boundary = boundary,
           dp_digest = 0, dp_truncated = truncated\<rparr>
     in plan\<lparr>dp_digest := plan_digest env plan\<rparr>)"

definition refused_plan ::
  "deletion_env \<Rightarrow> deletion_target \<Rightarrow> string \<Rightarrow> deletion_cause \<Rightarrow> string option \<Rightarrow> deletion_blocker \<Rightarrow> deletion_plan" where
  "refused_plan env target label cause policy blocker =
    finish_plan env target label cause policy [] [] [blocker] None False"

definition find_capture :: "ownership_index \<Rightarrow> source_id \<Rightarrow> capture_unit option" where
  "find_capture index source_id = find (\<lambda>c. cu_source_id c = source_id) (oi_captures index)"

definition find_investigation :: "ownership_index \<Rightarrow> investigation_ref \<Rightarrow> investigation_unit option" where
  "find_investigation index r =
    find (\<lambda>i. iu_directory i \<noteq> [] \<and> last (iu_directory i) = ref_as_str r) (oi_investigations index)"

definition pins_for :: "ownership_index \<Rightarrow> source_id \<Rightarrow> (investigation_unit \<times> capture_pin option) list" where
  "pins_for index source_id =
    List.map_filter (\<lambda>i.
      if iu_unknown_pins i then Some (i, None)
      else map_option (\<lambda>pin. (i, Some pin)) (find (\<lambda>pin. pn_source_id pin = source_id) (iu_pins i)))
    (oi_investigations index)"

definition verify_directory :: "deletion_env \<Rightarrow> file_system \<Rightarrow> fs_path \<Rightarrow> string option" where
  "verify_directory env fs directory =
    (case de_metadata env directory of
       Some error \<Rightarrow> Some (path_text directory @ '': '' @ error)
     | None \<Rightarrow>
       (case map_of fs directory of
          None \<Rightarrow> Some (path_text directory @ '': '' @ de_not_found env)
        | Some FsLink \<Rightarrow> Some ''the target is a symbolic link''
        | Some (FsFile _) \<Rightarrow> Some ''the target is not a directory''
        | Some FsDirectory \<Rightarrow> None))"

definition verify_capture_path :: "deletion_env \<Rightarrow> file_system \<Rightarrow> fs_path \<Rightarrow> fs_path \<Rightarrow> source_id \<Rightarrow> string option" where
  "verify_capture_path env fs root directory source_id =
    (if directory = [] \<or> butlast directory \<noteq> root
     then Some ''capture directory is not directly under the capture root''
     else if parse_source_id env (last directory) \<noteq> Some source_id
     then Some ''capture directory name does not match its source identity''
     else verify_directory env fs directory)"

definition verify_investigation_path :: "deletion_env \<Rightarrow> file_system \<Rightarrow> fs_path \<Rightarrow> fs_path \<Rightarrow> string option" where
  "verify_investigation_path env fs root directory =
    (if directory = [] \<or> butlast directory \<noteq> root @ [investigations_dir]
     then Some ''investigation directory is not under the investigations directory''
     else verify_directory env fs directory)"

definition pin_blocker :: "investigation_unit \<times> capture_pin option \<Rightarrow> deletion_blocker" where
  "pin_blocker p =
    (case p of
       (i, Some pin) \<Rightarrow> PinnedByInvestigation (investigation_label i) (pn_high_watermark pin) (pn_exported_projection pin)
     | (i, None) \<Rightarrow> UnknownPins (investigation_label i))"

definition pin_dependent :: "investigation_unit \<times> capture_pin option \<Rightarrow> string \<times> string" where
  "pin_dependent p =
    (case p of
       (i, Some pin) \<Rightarrow> (investigation_label i,
         ''pins generation '' @ show_nat (pn_generation pin) @ '' through record ''
         @ (case pn_high_watermark pin of Some value \<Rightarrow> show_nat value | None \<Rightarrow> ''unknown'')
         @ (if pn_exported_projection pin then ''; holds '' @ show_nat (pn_exported_rows pin) @ '' exported rows'' else []))
     | (i, None) \<Rightarrow> (investigation_label i, ''dependencies unknown; manifest unreadable''))"

definition option_list :: "'a option \<Rightarrow> 'a list" where
  "option_list x = (case x of None \<Rightarrow> [] | Some a \<Rightarrow> [a])"

definition plan_delete_capture ::
  "deletion_env \<Rightarrow> file_system \<Rightarrow> ownership_index \<Rightarrow> source_id \<Rightarrow> deletion_cause \<Rightarrow> string option \<Rightarrow> deletion_plan" where
  "plan_delete_capture env fs index source_id cause policy =
    (case find_capture index source_id of
       None \<Rightarrow> refused_plan env (TargetCapture source_id) (short_id (de_shown env source_id)) cause policy ItemNotFound
     | Some capture \<Rightarrow>
         finish_plan env (TargetCapture source_id) (capture_label env capture) cause policy
           (\<lparr>it_path = cu_directory capture, it_bytes = cu_durable_bytes capture, it_class = ItemDurable\<rparr>
            # map (\<lambda>e. \<lparr>it_path = di_path e, it_bytes = di_bytes e, it_class = ItemDisposable\<rparr>)
                (filter (\<lambda>e. di_source_id e = Some source_id) (oi_derived index)))
           (map pin_dependent (pins_for index source_id))
           ((if cu_active capture then [SourceCapturing] else [])
            @ map PathRefused (option_list (verify_capture_path env fs (oi_root index) (cu_directory capture) source_id))
            @ map pin_blocker (pins_for index source_id))
           (Some (capture_boundary_of env capture)) (cu_incomplete capture))"

definition plan_delete_investigation ::
  "deletion_env \<Rightarrow> file_system \<Rightarrow> ownership_index \<Rightarrow> investigation_ref \<Rightarrow> deletion_cause \<Rightarrow> string option \<Rightarrow> deletion_plan" where
  "plan_delete_investigation env fs index reference cause policy =
    (case find_investigation index reference of
       None \<Rightarrow> refused_plan env (TargetInvestigation reference) (ref_as_str reference) cause policy ItemNotFound
     | Some i \<Rightarrow>
         finish_plan env (TargetInvestigation reference) (investigation_label i) cause policy
           [\<lparr>it_path = iu_directory i, it_bytes = iu_durable_bytes i, it_class = ItemDurable\<rparr>]
           (map (\<lambda>pin. (case find_capture index (pn_source_id pin) of
                  Some c \<Rightarrow> capture_label env c | None \<Rightarrow> short_id (de_shown env (pn_source_id pin)),
                ''pin released; that capture becomes deletable'')) (iu_pins i))
           (map PathRefused (option_list (verify_investigation_path env fs (oi_root index) (iu_directory i)))
            @ (if open_note \<in> set (iu_notes i) then [InvestigationOpen] else []))
           None (iu_incomplete i))"

section \<open>Removing a tree\<close>

text \<open>\<open>rm_cancel\<close> is read at each entry, with the budget that is left.\<close>

record removal_env =
  rm_cancel :: "nat \<Rightarrow> bool"
  rm_metadata :: "fs_path \<Rightarrow> string option"
  rm_unlink :: "fs_path \<Rightarrow> string option"
  rm_read_dir :: "fs_path \<Rightarrow> string + (string + string) list"
  rm_rmdir :: "fs_path \<Rightarrow> string option"

record remove_state =
  rs_fs :: file_system
  rs_budget :: nat
  rs_bytes :: nat
  rs_complete :: bool
  rs_errors :: "string list"

definition remove_error :: "fs_path \<Rightarrow> string \<Rightarrow> remove_state \<Rightarrow> remove_state" where
  "remove_error path e st = st\<lparr>rs_complete := False, rs_errors := rs_errors st @ [path_text path @ '': '' @ e]\<rparr>"

definition unlink_entry :: "fs_path \<Rightarrow> remove_state \<Rightarrow> remove_state" where
  "unlink_entry path st = st\<lparr>rs_fs := filter (\<lambda>(p, _). p \<noteq> path) (rs_fs st)\<rparr>"

definition dir_empty :: "file_system \<Rightarrow> fs_path \<Rightarrow> bool" where
  "dir_empty fs path \<longleftrightarrow> list_all (\<lambda>(p, _). \<not> (strict_prefix path p)) fs"

definition remove_file :: "removal_env \<Rightarrow> fs_path \<Rightarrow> nat \<Rightarrow> remove_state \<Rightarrow> remove_state" where
  "remove_file env path bytes st =
    (case rm_unlink env path of
       Some e \<Rightarrow> remove_error path e st
     | None \<Rightarrow> (unlink_entry path st)\<lparr>rs_bytes := saturating_add_u64 (rs_bytes st) bytes\<rparr>)"

definition remove_directory :: "removal_env \<Rightarrow> fs_path \<Rightarrow> remove_state \<Rightarrow> remove_state" where
  "remove_directory env path st =
    (case rm_rmdir env path of
       Some e \<Rightarrow> remove_error path e st
     | None \<Rightarrow> if dir_empty (rs_fs st) path then unlink_entry path st
         else remove_error path ''Directory not empty (os error 39)'' st)"

function remove_inner :: "removal_env \<Rightarrow> fs_path \<Rightarrow> nat \<Rightarrow> remove_state \<Rightarrow> remove_state"
  and remove_entries :: "removal_env \<Rightarrow> fs_path \<Rightarrow> nat \<Rightarrow> (string + string) list \<Rightarrow> remove_state \<Rightarrow> remove_state" where
  "remove_inner env path depth st =
    (if rm_cancel env (rs_budget st) then st\<lparr>rs_complete := False\<rparr>
     else if rs_budget st = 0 \<or> depth > max_tree_depth then remove_error path ''removal limit reached'' st
     else
       let st1 = st\<lparr>rs_budget := rs_budget st - 1\<rparr>
       in case rm_metadata env path of
         Some e \<Rightarrow> remove_error path e st1
       | None \<Rightarrow>
         (case map_of (rs_fs st1) path of
            None \<Rightarrow> st1
          | Some FsLink \<Rightarrow> remove_file env path 0 st1
          | Some (FsFile n) \<Rightarrow> remove_file env path n st1
          | Some FsDirectory \<Rightarrow>
            (case rm_read_dir env path of
               Inl e \<Rightarrow> remove_error path e st1
             | Inr entries \<Rightarrow>
                 let st2 = remove_entries env path depth entries st1
                 in if rs_complete st2 then remove_directory env path st2 else st2)))"
| "remove_entries env path depth [] st = st"
| "remove_entries env path depth (entry # entries) st =
    (let st1 = (case entry of
          Inr name \<Rightarrow> remove_inner env (path @ [name]) (depth + 1) st
        | Inl e \<Rightarrow> remove_error path e st)
     in if rs_complete st1 then remove_entries env path depth entries st1 else st1)"
  by pat_completeness auto
termination
  by (relation "measures [\<lambda>x. (case x of Inl (_, _, depth, _) \<Rightarrow> 2 * (max_tree_depth + 1 - depth)
        | Inr (_, _, depth, _, _) \<Rightarrow> 2 * (max_tree_depth + 1 - depth) - 1),
      \<lambda>x. (case x of Inl _ \<Rightarrow> 0 | Inr (_, _, _, entries, _) \<Rightarrow> length entries)]")
    (auto simp: max_tree_depth_def)

declare remove_inner.simps [simp del] remove_entries.simps [simp del]

definition remove_tree :: "removal_env \<Rightarrow> fs_path \<Rightarrow> file_system \<Rightarrow> remove_state" where
  "remove_tree env path fs =
    remove_inner env path 0
      \<lparr>rs_fs = fs, rs_budget = max_tree_files + max_tree_directories, rs_bytes = 0, rs_complete = True, rs_errors = []\<rparr>"

section \<open>Executing a plan\<close>

record deletion_outcome =
  do_target :: deletion_target
  do_label :: string
  do_state :: deletion_state
  do_bytes_freed :: nat
  do_blockers :: "deletion_blocker list"
  do_errors :: "string list"
  do_ledger_entry_id :: "string option"
  do_detail :: string

definition refused_outcome :: "deletion_plan \<Rightarrow> deletion_blocker list \<Rightarrow> deletion_outcome" where
  "refused_outcome plan blockers =
    \<lparr>do_target = dp_target plan, do_label = dp_label plan, do_state = DeletionFailed, do_bytes_freed = 0,
     do_blockers = blockers, do_errors = [], do_ledger_entry_id = None,
     do_detail = ''nothing was deleted: '' @ (case blockers of b # _ \<Rightarrow> blocker_explanation b | [] \<Rightarrow> ''refused'')\<rparr>"

text \<open>One call of \<open>execute\<close>: the clock and the id of its record, how its two appends fare, the removal of
  its i-th item, and whether it was cancelled when the items were done.\<close>

record execute_env =
  ee_to_vec :: "deletion_record \<Rightarrow> string + byte list"
  ee_entry_id :: string
  ee_intent_time :: int
  ee_settled_time :: int
  ee_intent_io :: append_outcome
  ee_settled_io :: append_outcome
  ee_removal :: "nat \<Rightarrow> removal_env"
  ee_cancelled :: bool

record deletion_world =
  dw_fs :: file_system
  dw_ledger :: ledger_file

fun remove_items ::
  "(nat \<Rightarrow> removal_env) \<Rightarrow> nat \<Rightarrow> plan_item list \<Rightarrow> file_system \<Rightarrow> nat \<Rightarrow> string list
     \<Rightarrow> file_system \<times> nat \<times> bool \<times> string list" where
  "remove_items removal i [] fs removed errors = (fs, removed, True, errors)"
| "remove_items removal i (item # items) fs removed errors =
    (let st = remove_tree (removal i) (it_path item) fs;
         removed' = saturating_add_u64 removed (rs_bytes st);
         errors' = errors @ rs_errors st
     in if rs_complete st then remove_items removal (i + 1) items (rs_fs st) removed' errors'
        else (rs_fs st, removed', False, errors'))"

definition current_plan ::
  "deletion_env \<Rightarrow> file_system \<Rightarrow> ownership_index \<Rightarrow> deletion_plan \<Rightarrow> deletion_plan" where
  "current_plan env fs index plan =
    (case dp_target plan of
       TargetCapture source_id \<Rightarrow> plan_delete_capture env fs index source_id (dp_cause plan) (dp_policy plan)
     | TargetInvestigation reference \<Rightarrow>
         plan_delete_investigation env fs index reference (dp_cause plan) (dp_policy plan))"

definition plan_intent :: "deletion_env \<Rightarrow> execute_env \<Rightarrow> deletion_plan \<Rightarrow> deletion_record" where
  "plan_intent env x plan =
    deletion_intent (ee_intent_time x) (ee_entry_id x)
      (case dp_target plan of TargetCapture _ \<Rightarrow> DeletedCapture | TargetInvestigation _ \<Rightarrow> DeletedInvestigation)
      (case dp_target plan of TargetCapture source_id \<Rightarrow> de_shown env source_id
         | TargetInvestigation reference \<Rightarrow> ref_as_str reference)
      (dp_label plan) (dp_cause plan) (dp_policy plan) (dp_boundary plan) (freed_bytes plan)"

definition outcome_detail :: "deletion_env \<Rightarrow> deletion_state \<Rightarrow> bool \<Rightarrow> nat \<Rightarrow> string list \<Rightarrow> string" where
  "outcome_detail env state cancelled removed errors =
    (if state = Completed then ''removed '' @ de_format_bytes env removed
     else if cancelled
     then ''cancelled after removing '' @ de_format_bytes env removed @ ''; this item is incomplete''
     else ''stopped after removing '' @ de_format_bytes env removed @ ''; this item is incomplete: ''
       @ (case errors of e # _ \<Rightarrow> e | [] \<Rightarrow> []))"

definition execute ::
  "deletion_env \<Rightarrow> execute_env \<Rightarrow> ownership_index \<Rightarrow> deletion_plan \<Rightarrow> deletion_world \<Rightarrow> deletion_outcome \<times> deletion_world" where
  "execute env x index plan w =
    (let current = current_plan env (dw_fs w) index plan
     in if dp_digest current \<noteq> dp_digest plan then (refused_outcome plan [PlanStale], w)
        else if \<not> plan_allowed current then (refused_outcome plan (dp_blockers current), w)
        else
          let intent = plan_intent env x plan;
              (recorded, ledger1) = ledger_append (ee_to_vec x) (ee_intent_io x) intent (dw_ledger w)
          in case recorded of
            Inl e \<Rightarrow> (refused_outcome plan [BoundaryNotRecordable e], w\<lparr>dw_ledger := ledger1\<rparr>)
          | Inr _ \<Rightarrow>
              let (fs, removed, complete, errors) = remove_items (ee_removal x) 0 (dp_items plan) (dw_fs w) 0 [];
                  cancelled = ee_cancelled x;
                  state = (if complete \<and> \<not> cancelled then Completed else DeletionFailed);
                  detail = outcome_detail env state cancelled removed errors;
                  (settled, ledger2) = ledger_append (ee_to_vec x) (ee_settled_io x)
                    (deletion_settled (ee_settled_time x) state removed detail intent) ledger1;
                  errors' = (case settled of Inr _ \<Rightarrow> errors
                    | Inl e \<Rightarrow> errors @ [''deletion completed but its outcome could not be recorded: '' @ e])
              in (\<lparr>do_target = dp_target plan, do_label = dp_label plan, do_state = state, do_bytes_freed = removed,
                   do_blockers = [], do_errors = errors', do_ledger_entry_id = Some (dr_entry_id intent),
                   do_detail = detail\<rparr>,
                  \<lparr>dw_fs = fs, dw_ledger = ledger2\<rparr>))"

section \<open>What a removal touches\<close>

definition only_below :: "fs_path \<Rightarrow> file_system \<Rightarrow> file_system \<Rightarrow> bool" where
  "only_below path fs fs' \<longleftrightarrow> set fs' \<subseteq> set fs \<and> (\<forall>e \<in> set fs. e \<in> set fs' \<or> prefix path (fst e))"

lemma only_below_refl [simp]: "only_below path fs fs"
  by (simp add: only_below_def)

lemma only_below_trans: "only_below path fs fs1 \<Longrightarrow> only_below path fs1 fs2 \<Longrightarrow> only_below path fs fs2"
  by (auto simp: only_below_def)

lemma only_below_deeper: "only_below (path @ [name]) fs fs' \<Longrightarrow> only_below path fs fs'"
  by (force simp: only_below_def prefix_def)

lemma remove_error_simps [simp]:
  "rs_fs (remove_error path e st) = rs_fs st" "rs_complete (remove_error path e st) = False"
  by (simp_all add: remove_error_def)

lemma unlink_below: "only_below path (rs_fs st) (rs_fs (unlink_entry path st))"
  by (auto simp: only_below_def unlink_entry_def)

lemma unlink_gone: "map_of (rs_fs (unlink_entry path st)) path = None"
  by (auto simp: unlink_entry_def map_of_eq_None_iff)

lemma remove_file_below: "only_below path (rs_fs st) (rs_fs (remove_file env path n st))"
  using unlink_below [of path st] by (simp add: remove_file_def split: option.split)

lemma remove_directory_below: "only_below path (rs_fs st) (rs_fs (remove_directory env path st))"
  using unlink_below [of path st] by (simp add: remove_directory_def split: option.split)

lemma remove_below:
  "only_below path (rs_fs st) (rs_fs (remove_inner env path depth st))"
  "only_below path (rs_fs st) (rs_fs (remove_entries env path depth entries st))"
proof (induction env path depth st and env path depth entries st rule: remove_inner_remove_entries.induct)
  case (1 env path depth st)
  let ?st1 = "st\<lparr>rs_budget := rs_budget st - 1\<rparr>"
  show ?case
  proof (cases "rm_cancel env (rs_budget st) \<or> rs_budget st = 0 \<or> depth > max_tree_depth \<or> rm_metadata env path \<noteq> None")
    case True
    then show ?thesis by (subst remove_inner.simps) (auto split: option.split)
  next
    case False
    then have eq: "remove_inner env path depth st =
         (case map_of (rs_fs st) path of
            None \<Rightarrow> ?st1
          | Some FsLink \<Rightarrow> remove_file env path 0 ?st1
          | Some (FsFile n) \<Rightarrow> remove_file env path n ?st1
          | Some FsDirectory \<Rightarrow>
            (case rm_read_dir env path of
               Inl e \<Rightarrow> remove_error path e ?st1
             | Inr entries \<Rightarrow>
                 let st2 = remove_entries env path depth entries ?st1
                 in if rs_complete st2 then remove_directory env path st2 else st2))"
      by (subst remove_inner.simps) (simp add: Let_def del: One_nat_def)
    have entries: "only_below path (rs_fs ?st1) (rs_fs (remove_entries env path depth es ?st1))"
      if "map_of (rs_fs st) path = Some FsDirectory" "rm_read_dir env path = Inr es" for es
      using 1 [OF _ _ refl _ _ _ that(2)] False that(1) by simp
    show ?thesis
    proof (cases "map_of (rs_fs st) path")
      case None
      then show ?thesis by (simp add: eq)
    next
      case (Some kind)
      show ?thesis
      proof (cases kind)
        case FsDirectory
        show ?thesis
        proof (cases "rm_read_dir env path")
          case (Inl e)
          then show ?thesis using Some FsDirectory by (simp add: eq)
        next
          case (Inr es)
          then show ?thesis using entries [of es] remove_directory_below only_below_trans Some FsDirectory
            by (simp add: eq Let_def)
        qed
      qed (use Some remove_file_below [of path ?st1] in \<open>simp_all add: eq\<close>)
    qed
  qed
next
  case (2 env path depth st)
  then show ?case by (simp add: remove_entries.simps)
next
  case (3 env path depth entry entries st)
  define st1 where "st1 = (case entry of Inr name \<Rightarrow> remove_inner env (path @ [name]) (depth + 1) st
      | Inl e \<Rightarrow> remove_error path e st)"
  have first: "only_below path (rs_fs st) (rs_fs st1)"
    using 3(1) only_below_deeper by (cases entry) (auto simp: st1_def)
  have rest: "only_below path (rs_fs st1) (rs_fs (remove_entries env path depth entries st1))" if "rs_complete st1"
    using 3(2) [OF st1_def] that by simp
  have "remove_entries env path depth (entry # entries) st
      = (if rs_complete st1 then remove_entries env path depth entries st1 else st1)"
    by (simp add: remove_entries.simps Let_def st1_def)
  then show ?case using first rest only_below_trans by auto
qed

lemma only_below_gone: "only_below path fs fs' \<Longrightarrow> map_of fs p = None \<Longrightarrow> map_of fs' p = None"
  by (auto simp: only_below_def map_of_eq_None_iff)

lemma remove_file_gone: "rs_complete (remove_file env path n st) \<Longrightarrow> map_of (rs_fs (remove_file env path n st)) path = None"
  using unlink_gone [of path st] by (simp add: remove_file_def split: option.splits)

lemma remove_directory_gone:
  "rs_complete (remove_directory env path st) \<Longrightarrow> map_of (rs_fs (remove_directory env path st)) path = None"
  using unlink_gone [of path st] by (simp add: remove_directory_def split: option.splits if_splits)

lemma remove_inner_gone:
  assumes "rs_complete (remove_inner env path depth st)"
  shows "map_of (rs_fs (remove_inner env path depth st)) path = None"
  using assms remove_file_gone remove_directory_gone
  by (subst (asm) remove_inner.simps, subst remove_inner.simps)
    (auto simp: Let_def split: option.splits fs_kind.splits sum.splits if_splits)

lemma remove_items_spec:
  assumes "remove_items removal i items fs removed errors = (fs', removed', complete, errors')"
  shows "set fs' \<subseteq> set fs \<and> (\<forall>e \<in> set fs. e \<in> set fs' \<or> (\<exists>item \<in> set items. prefix (it_path item) (fst e)))
    \<and> (complete \<longrightarrow> (\<forall>item \<in> set items. map_of fs' (it_path item) = None))"
  using assms
proof (induction items arbitrary: i fs removed errors)
  case (Cons item items)
  define st where "st = remove_tree (removal i) (it_path item) fs"
  have below: "only_below (it_path item) fs (rs_fs st)"
    using remove_below(1) [of "it_path item" "\<lparr>rs_fs = fs, rs_budget = max_tree_files + max_tree_directories,
        rs_bytes = 0, rs_complete = True, rs_errors = []\<rparr>" "removal i" 0]
    by (simp add: st_def remove_tree_def)
  show ?case
  proof (cases "rs_complete st")
    case False
    then show ?thesis using Cons.prems below by (auto simp: Let_def st_def [symmetric] only_below_def)
  next
    case True
    then have gone: "map_of (rs_fs st) (it_path item) = None"
      using remove_inner_gone by (auto simp: st_def remove_tree_def)
    have rest: "remove_items removal (i + 1) items (rs_fs st) (saturating_add_u64 removed (rs_bytes st)) (errors @ rs_errors st)
        = (fs', removed', complete, errors')"
      using Cons.prems True by (simp add: Let_def st_def [symmetric])
    note ih = Cons.IH [OF rest]
    have "map_of fs' (it_path item) = None" using ih gone by (auto simp: map_of_eq_None_iff)
    then show ?thesis using ih below by (fastforce simp: only_below_def)
  qed
qed simp

section \<open>What a plan allows\<close>

lemma finish_plan_simps [simp]:
  "dp_blockers (finish_plan env t l c p items deps bs bd tr) = bs"
  "dp_items (finish_plan env t l c p items deps bs bd tr) = items"
  "dp_target (finish_plan env t l c p items deps bs bd tr) = t"
  "dp_boundary (finish_plan env t l c p items deps bs bd tr) = bd"
  by (simp_all add: finish_plan_def Let_def)

lemma map_filter_Nil: "List.map_filter f xs = [] \<longleftrightarrow> (\<forall>x \<in> set xs. f x = None)"
  by (auto simp: List.map_filter_def filter_empty_conv)

lemma pins_for_empty:
  "pins_for index s = [] \<longleftrightarrow>
    (\<forall>i \<in> set (oi_investigations index). \<not> iu_unknown_pins i \<and> (\<forall>pin \<in> set (iu_pins i). pn_source_id pin \<noteq> s))"
  by (simp add: pins_for_def map_filter_Nil find_None_iff split: if_split) blast

lemma allowed_capture:
  assumes "plan_allowed (plan_delete_capture env fs index s cause policy)"
  shows "\<exists>c. find_capture index s = Some c \<and> \<not> cu_active c \<and> pins_for index s = []
    \<and> cu_directory c \<noteq> [] \<and> butlast (cu_directory c) = oi_root index
    \<and> parse_source_id env (last (cu_directory c)) = Some s \<and> map_of fs (cu_directory c) = Some FsDirectory
    \<and> dp_items (plan_delete_capture env fs index s cause policy)
        = \<lparr>it_path = cu_directory c, it_bytes = cu_durable_bytes c, it_class = ItemDurable\<rparr>
          # map (\<lambda>e. \<lparr>it_path = di_path e, it_bytes = di_bytes e, it_class = ItemDisposable\<rparr>)
              (filter (\<lambda>e. di_source_id e = Some s) (oi_derived index))"
proof (cases "find_capture index s")
  case None
  then show ?thesis using assms by (simp add: plan_delete_capture_def refused_plan_def plan_allowed_def)
next
  case (Some c)
  then have "\<not> cu_active c" "pins_for index s = []"
    "verify_capture_path env fs (oi_root index) (cu_directory c) s = None"
    using assms by (auto simp: plan_delete_capture_def plan_allowed_def option_list_def split: option.splits if_splits)
  then show ?thesis using Some
    by (auto simp: plan_delete_capture_def verify_capture_path_def verify_directory_def
        split: option.splits fs_kind.splits if_splits)
qed

text \<open>
  An inventory that was cut short counts for nothing in a plan: a capture pinned only by an investigation
  that was not reached, or behind a directory that could not be read, is planned as if it were free.
\<close>

lemma unscanned_investigation_unprotected:
  "plan_delete_capture env fs (index\<lparr>oi_truncated := t, oi_cancelled := c, oi_errors := e\<rparr>) s cause policy
    = plan_delete_capture env fs index s cause policy"
  by (simp add: plan_delete_capture_def find_capture_def pins_for_def cong: option.case_cong)

text \<open>A plan executed against the index and files it was made from is never found stale or refused.\<close>

lemma fresh_plan_runs:
  assumes "plan = plan_delete_capture env (dw_fs w) index s cause policy" "plan_allowed plan"
    and "execute env x index plan w = (outcome, w')"
  shows "(\<exists>e. do_blockers outcome = [BoundaryNotRecordable e]) \<or> do_blockers outcome = []"
proof -
  have "dp_target plan = TargetCapture s" "dp_cause plan = cause" "dp_policy plan = policy"
    using assms(1) by (simp_all add: plan_delete_capture_def refused_plan_def finish_plan_def Let_def split: option.splits)
  then have "current_plan env (dw_fs w) index plan = plan" using assms(1) by (simp add: current_plan_def)
  then show ?thesis using assms(2,3)
    by (auto simp: execute_def Let_def refused_outcome_def split: prod.splits sum.splits)
qed

section \<open>Properties\<close>

text \<open>C37. Nothing is removed that may not be, and nothing before it is recorded.  If executing the deletion
  of a capture changes the file system at all, then the plan made from the current index and files has no
  blocker and the digest that was confirmed: the source is not capturing, no investigation pins it and
  none has unknown pins, its directory lies directly under the capture root, carries its id and is a
  directory, not a link.  The intent was accepted by the ledger, synced, and is in it behind
  all it held before; a plan refused for any reason leaves every file.  What was removed lies at or below
  a path of the plan, and after a completed deletion none of these paths exists.
\<close>

theorem deletion_permitted_and_recorded:
  assumes "execute env x index plan w = (outcome, w')" "dp_target plan = TargetCapture s"
  defines "current \<equiv> plan_delete_capture env (dw_fs w) index s (dp_cause plan) (dp_policy plan)"
    and "intent \<equiv> plan_intent env x plan"
  shows "(dw_fs w' \<noteq> dw_fs w \<longrightarrow>
      plan_allowed current \<and> dp_digest current = dp_digest plan
      \<and> (\<exists>c. find_capture index s = Some c \<and> \<not> cu_active c \<and> butlast (cu_directory c) = oi_root index
          \<and> parse_source_id env (last (cu_directory c)) = Some s \<and> map_of (dw_fs w) (cu_directory c) = Some FsDirectory)
      \<and> (\<forall>i \<in> set (oi_investigations index). \<not> iu_unknown_pins i \<and> (\<forall>pin \<in> set (iu_pins i). pn_source_id pin \<noteq> s))
      \<and> fst (ledger_append (ee_to_vec x) (ee_intent_io x) intent (dw_ledger w)) = Inr ()
      \<and> (\<exists>tail. bytes_of (dw_ledger w') = bytes_of (dw_ledger w) @ record_line (ee_to_vec x) intent @ tail)
      \<and> lf_synced (dw_ledger w') \<ge> length (bytes_of (dw_ledger w) @ record_line (ee_to_vec x) intent))
    \<and> (do_blockers outcome \<noteq> [] \<longrightarrow> dw_fs w' = dw_fs w \<and> do_state outcome = DeletionFailed)
    \<and> set (dw_fs w') \<subseteq> set (dw_fs w)
    \<and> (\<forall>e \<in> set (dw_fs w) - set (dw_fs w'). \<exists>item \<in> set (dp_items plan). prefix (it_path item) (fst e))
    \<and> (do_state outcome = Completed \<longrightarrow> (\<forall>item \<in> set (dp_items plan). map_of (dw_fs w') (it_path item) = None))"
proof -
  have cur: "current_plan env (dw_fs w) index plan = current" by (simp add: current_plan_def assms(2) current_def)
  show ?thesis
  proof (cases "dp_digest current \<noteq> dp_digest plan \<or> \<not> plan_allowed current")
    case True
    then have "w' = w \<and> do_state outcome = DeletionFailed" using assms(1)
      by (auto simp: execute_def cur Let_def refused_outcome_def split: if_splits)
    then show ?thesis by simp
  next
    case allowed: False
    obtain recorded ledger1 where app: "ledger_append (ee_to_vec x) (ee_intent_io x) intent (dw_ledger w) = (recorded, ledger1)"
      by fastforce
    show ?thesis
    proof (cases recorded)
      case (Inl e)
      then have "dw_fs w' = dw_fs w \<and> do_state outcome = DeletionFailed" using assms(1) allowed app
        by (auto simp: execute_def cur Let_def refused_outcome_def intent_def)
      then show ?thesis by simp
    next
      case (Inr u)
      obtain fs removed complete errors where items:
        "remove_items (ee_removal x) 0 (dp_items plan) (dw_fs w) 0 [] = (fs, removed, complete, errors)"
        by (metis prod_cases4)
      define state where "state = (if complete \<and> \<not> ee_cancelled x then Completed else DeletionFailed)"
      define r where "r = deletion_settled (ee_settled_time x) state removed
          (outcome_detail env state (ee_cancelled x) removed errors) intent"
      obtain settled ledger2 where app2: "ledger_append (ee_to_vec x) (ee_settled_io x) r ledger1 = (settled, ledger2)"
        by fastforce
      have "dw_fs w' = fs \<and> do_blockers outcome = [] \<and> do_state outcome = state \<and> dw_ledger w' = ledger2"
        using assms(1) allowed app Inr items app2 unfolding r_def
        by (auto simp: execute_def cur Let_def intent_def [symmetric] state_def [symmetric] simp del: if_split)
      then have ex: "dw_fs w' = fs" "do_blockers outcome = []" "do_state outcome = Completed \<longrightarrow> complete"
        "dw_ledger w' = ledger2"
        by (simp_all add: state_def)
      have app1: "ledger_append (ee_to_vec x) (ee_intent_io x) intent (dw_ledger w) = (Inr (), ledger1)"
        using app Inr by simp
      note fin = append_done [OF app1]
      obtain n where ledger: "bytes_of (dw_ledger w') = bytes_of ledger1 @ take n (record_line (ee_to_vec x) r)"
        "length (bytes_of ledger1) \<le> lf_synced (dw_ledger w')"
        using append_shape [OF app2] fin ex(4) by auto
      have "pins_for index s = []" "\<exists>c. find_capture index s = Some c \<and> \<not> cu_active c \<and> butlast (cu_directory c) = oi_root index
          \<and> parse_source_id env (last (cu_directory c)) = Some s \<and> map_of (dw_fs w) (cu_directory c) = Some FsDirectory"
        using allowed_capture [of env "dw_fs w" index s "dp_cause plan" "dp_policy plan"] allowed
        by (auto simp: current_def)
      then show ?thesis
        using allowed ex(1,2,3) fin ledger app Inr remove_items_spec [OF items]
        by (auto simp: pins_for_empty)
    qed
  qed
qed

definition sample_owner :: source_id where "sample_owner = SourceId [1]"

definition sample_id_text :: string where "sample_id_text = replicate 36 (CHR ''a'')"

definition sample_deletion_env :: deletion_env where
  "sample_deletion_env = \<lparr>de_shown = (\<lambda>_. sample_id_text), de_parse_uuid = (\<lambda>_. Some sample_owner), de_hash = length,
     de_format_bytes = show_nat, de_metadata = (\<lambda>_. None), de_not_found = ''not found''\<rparr>"

definition sample_capture_unit :: capture_unit where
  "sample_capture_unit = \<lparr>cu_source_id = sample_owner, cu_name = ''api'', cu_directory = [''r'', sample_id_text],
     cu_generation = 1, cu_journal_bytes = 10, cu_durable_bytes = 10, cu_derived_bytes = 0, cu_last_modified = None,
     cu_first_captured_at = None, cu_first_sequence = Some 0, cu_reserved_sequence = None, cu_active = False,
     cu_incomplete = False, cu_notes = []\<rparr>"

definition sample_index :: ownership_index where
  "sample_index = \<lparr>oi_root = [''r''], oi_captures = [sample_capture_unit], oi_investigations = [], oi_derived = [],
     oi_workspace_bytes = 0, oi_truncated = False, oi_cancelled = False, oi_errors = []\<rparr>"

definition sample_world :: deletion_world where
  "sample_world = \<lparr>dw_fs = [([''r''], FsDirectory), ([''r'', sample_id_text], FsDirectory),
       ([''r'', sample_id_text, ''j''], FsFile 10)],
     dw_ledger = \<lparr>lf_bytes = None, lf_synced = 0\<rparr>\<rparr>"

definition sample_removal :: removal_env where
  "sample_removal = \<lparr>rm_cancel = (\<lambda>_. False), rm_metadata = (\<lambda>_. None), rm_unlink = (\<lambda>_. None),
     rm_read_dir = (\<lambda>path. Inr (if length path = 2 then [Inr ''j''] else [])), rm_rmdir = (\<lambda>_. None)\<rparr>"

definition sample_execution :: execute_env where
  "sample_execution = \<lparr>ee_to_vec = (\<lambda>_. Inr [1]), ee_entry_id = ''7-1-0'', ee_intent_time = 7, ee_settled_time = 9,
     ee_intent_io = AppendFine, ee_settled_io = AppendFine, ee_removal = (\<lambda>_. sample_removal), ee_cancelled = False\<rparr>"

definition sample_plan :: deletion_plan where
  "sample_plan = plan_delete_capture sample_deletion_env (dw_fs sample_world) sample_index sample_owner UserRequested None"

lemma sample_fs_simps [simp]:
  "sample_id_text \<noteq> []" "length sample_id_text = 36"
  by (simp_all add: sample_id_text_def)

lemma sample_plan_allowed: "plan_allowed sample_plan" "dp_target sample_plan = TargetCapture sample_owner"
    "dp_cause sample_plan = UserRequested" "dp_policy sample_plan = None"
    "map it_path (dp_items sample_plan) = [[''r'', sample_id_text]]"
  by (simp_all add: sample_plan_def plan_delete_capture_def sample_index_def find_capture_def sample_capture_unit_def
      plan_allowed_def option_list_def verify_capture_path_def parse_source_id_def sample_deletion_env_def
      verify_directory_def sample_world_def pins_for_def List.map_filter_simps finish_plan_def Let_def)

lemma sample_tree_removed:
  "rs_fs (remove_tree sample_removal [''r'', sample_id_text] (dw_fs sample_world)) = [([''r''], FsDirectory)]
   \<and> rs_complete (remove_tree sample_removal [''r'', sample_id_text] (dw_fs sample_world))"
  by (simp add: remove_tree_def remove_inner.simps remove_entries.simps sample_removal_def sample_world_def
      max_tree_files_def max_tree_directories_def max_tree_depth_def remove_file_def unlink_entry_def
      remove_directory_def dir_empty_def Let_def strict_prefix_def)

lemma sample_removed:
  "dw_fs (snd (execute sample_deletion_env sample_execution sample_index sample_plan sample_world)) = [([''r''], FsDirectory)]"
proof -
  have cur: "current_plan sample_deletion_env (dw_fs sample_world) sample_index sample_plan = sample_plan"
    using sample_plan_allowed by (simp add: current_plan_def) (simp add: sample_plan_def)
  obtain item where item: "dp_items sample_plan = [item]" "it_path item = [''r'', sample_id_text]"
    using sample_plan_allowed(5) by auto
  show ?thesis
    using cur sample_plan_allowed(1) item sample_tree_removed
    by (simp add: execute_def ledger_append_def sample_execution_def max_record_bytes_def Let_def)
qed

theorem deletion_permitted_and_recorded_witness:
  "prefix [1, LF] (bytes_of (dw_ledger (snd (execute sample_deletion_env sample_execution sample_index sample_plan sample_world))))
   \<and> do_blockers (fst (execute sample_deletion_env sample_execution sample_index sample_plan sample_world)) = []"
proof -
  obtain outcome w' where run: "execute sample_deletion_env sample_execution sample_index sample_plan sample_world = (outcome, w')"
    by fastforce
  note target = sample_plan_allowed(2)
  have changed: "dw_fs w' \<noteq> dw_fs sample_world" using sample_removed run by (simp add: sample_world_def)
  note all = deletion_permitted_and_recorded [OF run target]
  have "bytes_of (dw_ledger sample_world) = []" by (simp add: sample_world_def bytes_of_def)
  moreover have "record_line (ee_to_vec sample_execution) r = [1, LF]" for r
    by (simp add: sample_execution_def record_line_def)
  ultimately have "prefix [1, LF] (bytes_of (dw_ledger w'))" using all changed by (auto simp: prefix_def)
  moreover have "do_blockers outcome = []" using all changed by blast
  ultimately show ?thesis using run by simp
qed

end
