(* ===== verification/Retention.thy ===== *)
theory Retention
  imports Capture_Deletion "HOL-Library.Product_Lexorder" "HOL-Library.List_Lexorder"
begin

text \<open>
  The opt-in retention of whole captures, \<open>crates/lvu-app/src/storage/retention.rs\<close>: the rules, the
  selection of captures, oldest first, that \<open>assess\<close> makes without touching anything, and \<open>apply\<close>,
  which executes the plans of an assessment.  A \<open>Duration\<close> is its nanoseconds.
\<close>

section \<open>Rules\<close>

record retention_rule =
  rt_maximum_bytes :: "nat option"
  rt_maximum_age :: "nat option"

definition rule_default :: retention_rule where
  "rule_default = \<lparr>rt_maximum_bytes = None, rt_maximum_age = None\<rparr>"

definition rule_is_set :: "retention_rule \<Rightarrow> bool" where
  "rule_is_set rule \<longleftrightarrow> rt_maximum_bytes rule \<noteq> None \<or> rt_maximum_age rule \<noteq> None"

record retention_rules =
  rl_enabled :: bool
  rl_global :: retention_rule
  rl_per_source :: "(string \<times> retention_rule) list"

definition max_source_rules :: nat where "max_source_rules = 32"

definition rules_from_fields ::
  "bool \<Rightarrow> nat option \<Rightarrow> nat option \<Rightarrow> (string \<times> nat option \<times> nat option) list \<Rightarrow> retention_rules" where
  "rules_from_fields enabled global_bytes global_age per_source =
    \<lparr>rl_enabled = enabled, rl_global = \<lparr>rt_maximum_bytes = global_bytes, rt_maximum_age = global_age\<rparr>,
     rl_per_source = fold (\<lambda>(key, bytes, age). AList.update key \<lparr>rt_maximum_bytes = bytes, rt_maximum_age = age\<rparr>)
       (take max_source_rules per_source) []\<rparr>"

definition rules_active :: "retention_rules \<Rightarrow> bool" where
  "rules_active rules \<longleftrightarrow> rl_enabled rules
     \<and> (rule_is_set (rl_global rules) \<or> (\<exists>r \<in> set (map snd (rl_per_source rules)). rule_is_set r))"

definition rule_for :: "deletion_env \<Rightarrow> retention_rules \<Rightarrow> capture_unit \<Rightarrow> retention_rule" where
  "rule_for env rules c =
    (case map_of (rl_per_source rules) (cu_name c) of
       Some rule \<Rightarrow> rule
     | None \<Rightarrow>
       (case map_of (rl_per_source rules) (de_shown env (cu_source_id c)) of
          Some rule \<Rightarrow> rule
        | None \<Rightarrow> rule_default))"

section \<open>Assessment\<close>

record refused_retention =
  rx_label :: string
  rx_bytes :: nat
  rx_reason :: string

record retention_assessment =
  ra_active :: bool
  ra_capture_bytes :: nat
  ra_global_limit :: "nat option"
  ra_over_by :: nat
  ra_plans :: "deletion_plan list"
  ra_refused :: "refused_retention list"
  ra_unreclaimable :: nat
  ra_shortfall :: nat
  ra_summary :: string

definition would_free_bytes :: "retention_assessment \<Rightarrow> nat" where
  "would_free_bytes a = sum_bytes (map freed_bytes (ra_plans a))"

definition durable_capture_bytes :: "ownership_index \<Rightarrow> nat" where
  "durable_capture_bytes index = sum_bytes (map cu_durable_bytes (oi_captures index))"

definition age_nanos :: "capture_unit \<Rightarrow> int \<Rightarrow> int option" where
  "age_nanos c now =
    map_option (\<lambda>last. now - last)
      (case cu_last_modified c of Some t \<Rightarrow> Some t | None \<Rightarrow> cu_first_captured_at c)"

definition humanize :: "nat \<Rightarrow> string" where
  "humanize value =
    (let seconds = value div 1000000000
     in if seconds mod 86400 = 0 then show_nat (seconds div 86400) @ '' day(s)''
        else if seconds mod 3600 = 0 then show_nat (seconds div 3600) @ '' hour(s)''
        else show_nat seconds @ '' second(s)'')"

definition activity_order :: "capture_unit \<Rightarrow> int \<times> nat list" where
  "activity_order c = ((case cu_last_modified c of Some t \<Rightarrow> t | None \<Rightarrow> 0), map of_char (cu_name c))"

definition ordered_captures :: "ownership_index \<Rightarrow> capture_unit list" where
  "ordered_captures index = sort_key activity_order (oi_captures index)"

text \<open>Why the rules of its own or the global age select a capture, if they do.\<close>

definition rule_reason :: "deletion_env \<Rightarrow> retention_rules \<Rightarrow> int \<Rightarrow> capture_unit \<Rightarrow> string option" where
  "rule_reason env rules now c =
    (let rule = rule_for env rules c;
         by_age = (case (case rt_maximum_age rule of Some m \<Rightarrow> Some m | None \<Rightarrow> rt_maximum_age (rl_global rules)) of
             Some maximum \<Rightarrow>
               (case age_nanos c now of
                  Some age \<Rightarrow> if age > int maximum then Some (''older than '' @ humanize maximum) else None
                | None \<Rightarrow> None)
           | None \<Rightarrow> None)
     in case by_age of
       Some reason \<Rightarrow> Some reason
     | None \<Rightarrow>
       (case rt_maximum_bytes rule of
          Some maximum \<Rightarrow>
            if cu_durable_bytes c > maximum
            then Some (''larger than the '' @ de_format_bytes env maximum @ '' per-source limit'')
            else None
        | None \<Rightarrow> None))"

definition rule_selected ::
  "deletion_env \<Rightarrow> retention_rules \<Rightarrow> int \<Rightarrow> capture_unit list \<Rightarrow> (capture_unit \<times> string) list" where
  "rule_selected env rules now ordered =
    List.map_filter (\<lambda>c. map_option (Pair c) (rule_reason env rules now c)) ordered"

fun global_loop ::
  "string \<Rightarrow> nat \<Rightarrow> capture_unit list \<Rightarrow> nat \<Rightarrow> (capture_unit \<times> string) list \<Rightarrow> (capture_unit \<times> string) list" where
  "global_loop reason limit [] projected selected = selected"
| "global_loop reason limit (c # cs) projected selected =
    (if projected \<le> limit then selected
     else if cu_source_id c \<in> set (map (cu_source_id \<circ> fst) selected)
     then global_loop reason limit cs projected selected
     else global_loop reason limit cs (projected - cu_durable_bytes c) (selected @ [(c, reason)]))"

definition selected_captures ::
  "deletion_env \<Rightarrow> ownership_index \<Rightarrow> retention_rules \<Rightarrow> int \<Rightarrow> (capture_unit \<times> string) list" where
  "selected_captures env index rules now =
    (let ordered = ordered_captures index;
         selected = rule_selected env rules now ordered
     in case rt_maximum_bytes (rl_global rules) of
       None \<Rightarrow> selected
     | Some limit \<Rightarrow>
         global_loop (''total captures above the '' @ de_format_bytes env limit @ '' limit'') limit ordered
           (fold (\<lambda>(c, _) projected. projected - cu_durable_bytes c) selected (durable_capture_bytes index))
           selected)"

definition retention_plan ::
  "deletion_env \<Rightarrow> file_system \<Rightarrow> ownership_index \<Rightarrow> capture_unit \<times> string \<Rightarrow> deletion_plan" where
  "retention_plan env fs index s =
    plan_delete_capture env fs index (cu_source_id (fst s)) ByRetention (Some (snd s))"

definition take_selected ::
  "deletion_env \<Rightarrow> file_system \<Rightarrow> ownership_index \<Rightarrow> capture_unit \<times> string \<Rightarrow> retention_assessment \<Rightarrow> retention_assessment" where
  "take_selected env fs index s out =
    (let plan = retention_plan env fs index s
     in if plan_allowed plan then out\<lparr>ra_plans := ra_plans out @ [plan]\<rparr>
        else out\<lparr>ra_unreclaimable := saturating_add_u64 (ra_unreclaimable out) (cu_durable_bytes (fst s)),
               ra_refused := ra_refused out @ [\<lparr>rx_label = capture_label env (fst s), rx_bytes = cu_durable_bytes (fst s),
                 rx_reason = (case dp_blockers plan of b # _ \<Rightarrow> blocker_explanation b | [] \<Rightarrow> ''refused'')\<rparr>]\<rparr>)"

definition summarize_retention :: "deletion_env \<Rightarrow> retention_assessment \<Rightarrow> string" where
  "summarize_retention env a =
    (if ra_plans a = [] \<and> ra_refused a = []
     then ''Retention is on. '' @ de_format_bytes env (ra_capture_bytes a)
       @ '' of captures is within the configured limits; nothing to remove.''
     else ''Retention would delete '' @ show_nat (length (ra_plans a)) @ '' capture(s), freeing ''
       @ de_format_bytes env (would_free_bytes a) @ ''. Each removal is recorded as a visible gap.''
       @ (if ra_refused a \<noteq> []
          then '' '' @ show_nat (length (ra_refused a)) @ '' capture(s) holding ''
            @ de_format_bytes env (ra_unreclaimable a) @ '' are protected and will not be removed.'' else [])
       @ (if ra_shortfall a > 0
          then '' Even so, '' @ de_format_bytes env (ra_shortfall a)
            @ '' remains above the configured limit; retention will not delete protected data to reach it.'' else []))"

definition assess_retention ::
  "deletion_env \<Rightarrow> file_system \<Rightarrow> ownership_index \<Rightarrow> retention_rules \<Rightarrow> int \<Rightarrow> retention_assessment" where
  "assess_retention env fs index rules now =
    (let capture_bytes = durable_capture_bytes index;
         limit = rt_maximum_bytes (rl_global rules);
         out = \<lparr>ra_active = rules_active rules, ra_capture_bytes = capture_bytes, ra_global_limit = limit,
           ra_over_by = 0, ra_plans = [], ra_refused = [], ra_unreclaimable = 0, ra_shortfall = 0, ra_summary = []\<rparr>
     in if \<not> ra_active out
        then out\<lparr>ra_summary := ''Retention is off. Captured data is kept until you delete it explicitly.''\<rparr>
        else
          let out1 = out\<lparr>ra_over_by := (case limit of Some l \<Rightarrow> capture_bytes - l | None \<Rightarrow> 0)\<rparr>;
              out2 = fold (take_selected env fs index) (selected_captures env index rules now) out1;
              out3 = out2\<lparr>ra_shortfall := (case limit of Some l \<Rightarrow> capture_bytes - would_free_bytes out2 - l | None \<Rightarrow> 0)\<rparr>
          in out3\<lparr>ra_summary := summarize_retention env out3\<rparr>)"

text \<open>\<open>cancelled\<close> is read before each plan; each plan is executed with its own \<open>execute_env\<close>.\<close>

fun apply_retention ::
  "deletion_env \<Rightarrow> (nat \<Rightarrow> execute_env) \<Rightarrow> (nat \<Rightarrow> bool) \<Rightarrow> ownership_index \<Rightarrow> nat \<Rightarrow> deletion_plan list
     \<Rightarrow> deletion_world \<Rightarrow> deletion_outcome list \<times> deletion_world" where
  "apply_retention env xs cancelled index i [] w = ([], w)"
| "apply_retention env xs cancelled index i (plan # plans) w =
    (if cancelled i then ([], w)
     else (case dp_target plan of
       TargetInvestigation _ \<Rightarrow> apply_retention env xs cancelled index (i + 1) plans w
     | TargetCapture _ \<Rightarrow>
         (let (outcome, w1) = execute env (xs i) index plan w;
              (outcomes, w2) = apply_retention env xs cancelled index (i + 1) plans w1
          in (outcome # outcomes, w2))))"

section \<open>The selection\<close>

abbreviation chosen :: "(capture_unit \<times> string) list \<Rightarrow> source_id list" where
  "chosen selected \<equiv> map (cu_source_id \<circ> fst) selected"

lemma retention_plan_target [simp]: "dp_target (retention_plan env fs index s) = TargetCapture (cu_source_id (fst s))"
  by (simp add: retention_plan_def plan_delete_capture_def refused_plan_def split: option.split)

lemma rule_selected_filter:
  "rule_selected env rules now cs = map (\<lambda>c. (c, the (rule_reason env rules now c)))
     (filter (\<lambda>c. rule_reason env rules now c \<noteq> None) cs)"
  by (induction cs) (auto simp: rule_selected_def List.map_filter_simps)

lemma global_loop_spec:
  assumes "global_loop reason limit cs projected selected = final" "distinct (chosen selected)"
  shows "\<exists>new pre post. final = selected @ map (\<lambda>c. (c, reason)) new \<and> distinct (chosen final)
    \<and> cs = pre @ post \<and> set new \<subseteq> set pre \<and> cu_source_id ` set pre \<subseteq> set (chosen final)
    \<and> (projected - sum_list (map cu_durable_bytes new) \<le> limit \<or> post = [])"
  using assms
proof (induction reason limit cs projected selected rule: global_loop.induct)
  case (1 reason limit projected selected)
  then show ?case by (intro exI [of _ "[]"]) auto
next
  case (2 reason limit c cs projected selected)
  show ?case
  proof (cases "projected \<le> limit")
    case True
    then show ?thesis using 2(3,4) by (intro exI [of _ "[]"] exI [of _ "c # cs"]) auto
  next
    case over: False
    show ?thesis
    proof (cases "cu_source_id c \<in> set (chosen selected)")
      case True
      have rec: "global_loop reason limit cs projected selected = final" using 2(3) over True by simp
      obtain new pre post where ih: "final = selected @ map (\<lambda>c. (c, reason)) new" "distinct (chosen final)"
        "cs = pre @ post" "set new \<subseteq> set pre" "cu_source_id ` set pre \<subseteq> set (chosen final)"
        "projected - sum_list (map cu_durable_bytes new) \<le> limit \<or> post = []"
        using 2(1) [OF over True rec 2(4)] by blast
      show ?thesis
      proof (intro exI conjI)
        show "c # cs = (c # pre) @ post" using ih(3) by simp
        show "set new \<subseteq> set (c # pre)" using ih(4) by auto
        show "cu_source_id ` set (c # pre) \<subseteq> set (chosen final)" using ih(1,5) True by auto
      qed (fact ih(1) ih(2) ih(6))+
    next
      case False
      then have d: "distinct (chosen (selected @ [(c, reason)]))" using 2(4) by (simp add: comp_def)
      have rec: "global_loop reason limit cs (projected - cu_durable_bytes c) (selected @ [(c, reason)]) = final"
        using 2(3) over False by simp
      obtain new pre post where ih: "final = (selected @ [(c, reason)]) @ map (\<lambda>c. (c, reason)) new"
        "distinct (chosen final)" "cs = pre @ post" "set new \<subseteq> set pre" "cu_source_id ` set pre \<subseteq> set (chosen final)"
        "projected - cu_durable_bytes c - sum_list (map cu_durable_bytes new) \<le> limit \<or> post = []"
        using 2(2) [OF over False rec d] by blast
      show ?thesis
      proof (intro exI conjI)
        show "final = selected @ map (\<lambda>c. (c, reason)) (c # new)" using ih(1) by simp
        show "c # cs = (c # pre) @ post" using ih(3) by simp
        show "set (c # new) \<subseteq> set (c # pre)" using ih(4) by auto
        show "cu_source_id ` set (c # pre) \<subseteq> set (chosen final)" using ih(1,5) by auto
        show "projected - sum_list (map cu_durable_bytes (c # new)) \<le> limit \<or> post = []"
          using ih(6) by (simp add: diff_diff_left)
      qed (fact ih(2))
    qed
  qed
qed

lemma fold_projection:
  "fold (\<lambda>(c, _) projected. projected - cu_durable_bytes c) selected held
    = held - sum_list (map (cu_durable_bytes \<circ> fst) selected)"
  by (induction selected arbitrary: held) (auto simp: diff_diff_left)

lemma sum_bytes_fold:
  "start + sum_list ns \<le> u64_max \<Longrightarrow> fold (\<lambda>n total. saturating_add_u64 total n) ns start = start + sum_list ns"
  by (induction ns arbitrary: start) (auto simp: saturating_add_u64_exact add.assoc)

lemma sum_bytes_exact: "sum_list ns \<le> u64_max \<Longrightarrow> sum_bytes ns = sum_list ns"
  using sum_bytes_fold [of 0 ns] by (simp add: sum_bytes_def)

lemma ordered_captures_set [simp]: "set (ordered_captures index) = set (oi_captures index)"
  by (simp add: ordered_captures_def)

lemma ordered_captures_ids:
  "distinct (map cu_source_id (oi_captures index)) \<Longrightarrow> distinct (map cu_source_id (ordered_captures index))"
  by (simp add: ordered_captures_def distinct_map)

lemma rule_selected_ids:
  assumes "distinct (map cu_source_id cs)"
  shows "distinct (chosen (rule_selected env rules now cs))"
proof -
  have "chosen (rule_selected env rules now cs) = map cu_source_id (filter (\<lambda>c. rule_reason env rules now c \<noteq> None) cs)"
    by (simp add: rule_selected_filter comp_def)
  then show ?thesis using assms by (simp add: distinct_map_filter)
qed

lemma selected_spec:
  fixes env :: deletion_env and now :: int
  assumes "distinct (map cu_source_id (oi_captures index))"
    and "rt_maximum_bytes (rl_global rules) = Some limit"
  defines "sel \<equiv> selected_captures env index rules now"
  shows "\<exists>pre post. distinct (chosen sel) \<and> set (map fst sel) \<subseteq> set (oi_captures index)
    \<and> ordered_captures index = pre @ post \<and> cu_source_id ` set pre \<subseteq> set (chosen sel)
    \<and> (\<forall>s \<in> set sel. fst s \<in> set post \<longrightarrow> fst s \<in> set pre \<or> rule_reason env rules now (fst s) \<noteq> None)
    \<and> (durable_capture_bytes index - sum_list (map (cu_durable_bytes \<circ> fst) sel) \<le> limit \<or> post = [])"
proof -
  define ruled where "ruled = rule_selected env rules now (ordered_captures index)"
  have d: "distinct (chosen ruled)"
    using rule_selected_ids [OF ordered_captures_ids [OF assms(1)]] by (simp add: ruled_def)
  obtain reason where sel: "global_loop reason limit (ordered_captures index)
      (durable_capture_bytes index - sum_list (map (cu_durable_bytes \<circ> fst) ruled)) ruled = sel"
    by (auto simp: sel_def selected_captures_def Let_def assms(2) ruled_def fold_projection)
  obtain new pre post where g: "sel = ruled @ map (\<lambda>c. (c, reason)) new" "distinct (chosen sel)"
    "ordered_captures index = pre @ post" "set new \<subseteq> set pre" "cu_source_id ` set pre \<subseteq> set (chosen sel)"
    "durable_capture_bytes index - sum_list (map (cu_durable_bytes \<circ> fst) ruled) - sum_list (map cu_durable_bytes new) \<le> limit
      \<or> post = []"
    using global_loop_spec [OF sel d] by blast
  have within: "set (map fst ruled) \<subseteq> set (oi_captures index)"
    by (auto simp: ruled_def rule_selected_filter)
  have "set pre \<subseteq> set (oi_captures index)" using g(3) ordered_captures_set [of index] by auto
  then have "set (map fst sel) \<subseteq> set (oi_captures index)" using within g(1,4) by auto
  moreover have "fst s \<in> set pre \<or> rule_reason env rules now (fst s) \<noteq> None" if "s \<in> set sel" for s
    using that g(1,4) by (auto simp: ruled_def rule_selected_filter)
  moreover have "sum_list (map (cu_durable_bytes \<circ> fst) sel)
      = sum_list (map (cu_durable_bytes \<circ> fst) ruled) + sum_list (map cu_durable_bytes new)"
    using g(1) by (simp add: comp_def)
  ultimately show ?thesis using g(2,3,5,6)
    by (intro exI [of _ pre] exI [of _ post]) (simp add: diff_diff_left)
qed

lemma take_selected_spec:
  "ra_plans (fold (take_selected env fs index) sel out)
      = ra_plans out @ filter plan_allowed (map (retention_plan env fs index) sel)
   \<and> ra_unreclaimable (fold (take_selected env fs index) sel out)
      = fold (\<lambda>n total. saturating_add_u64 total n)
          (map (cu_durable_bytes \<circ> fst) (filter (\<lambda>s. \<not> plan_allowed (retention_plan env fs index s)) sel)) (ra_unreclaimable out)"
  by (induction sel arbitrary: out) (simp_all add: take_selected_def Let_def)

lemma assessed:
  assumes "rules_active rules"
  shows "ra_plans (assess_retention env fs index rules now)
      = filter plan_allowed (map (retention_plan env fs index) (selected_captures env index rules now))"
    "ra_unreclaimable (assess_retention env fs index rules now)
      = sum_bytes (map (cu_durable_bytes \<circ> fst)
          (filter (\<lambda>s. \<not> plan_allowed (retention_plan env fs index s)) (selected_captures env index rules now)))"
  using assms take_selected_spec by (simp_all add: assess_retention_def Let_def sum_bytes_def)

lemma distinct_map_fst: "distinct (chosen sel) \<Longrightarrow> distinct (map fst sel)"
  by (auto simp: distinct_map inj_on_def)

lemma retention_plan_id:
  "cu_source_id c = cu_source_id (fst s) \<Longrightarrow> retention_plan env fs index (c, snd s) = retention_plan env fs index s"
  by (simp add: retention_plan_def)

lemma execute_fs:
  assumes "execute env x index plan w = (outcome, w')"
  shows "set (dw_fs w') \<subseteq> set (dw_fs w)
    \<and> (\<forall>e \<in> set (dw_fs w). e \<in> set (dw_fs w') \<or> (\<exists>item \<in> set (dp_items plan). prefix (it_path item) (fst e)))"
proof -
  obtain fs removed complete errors where items:
    "remove_items (ee_removal x) 0 (dp_items plan) (dw_fs w) 0 [] = (fs, removed, complete, errors)"
    by (metis prod_cases4)
  have "dw_fs w' = dw_fs w \<or> dw_fs w' = fs"
    using assms items by (auto simp: execute_def Let_def split: prod.splits sum.splits if_splits)
  then show ?thesis using remove_items_spec [OF items] by auto
qed

lemma apply_fs:
  assumes "apply_retention env xs cancelled index i plans w = (outcomes, w')"
  shows "set (dw_fs w') \<subseteq> set (dw_fs w)
    \<and> (\<forall>e \<in> set (dw_fs w). e \<in> set (dw_fs w')
        \<or> (\<exists>plan \<in> set plans. \<exists>item \<in> set (dp_items plan). prefix (it_path item) (fst e)))"
  using assms
proof (induction plans arbitrary: i w outcomes)
  case (Cons plan plans)
  show ?case
  proof (cases "cancelled i")
    case True
    then show ?thesis using Cons.prems by simp
  next
    case False
    show ?thesis
    proof (cases "dp_target plan")
      case (TargetInvestigation r)
      then have "apply_retention env xs cancelled index (i + 1) plans w = (outcomes, w')"
        using Cons.prems False by simp
      from Cons.IH [OF this] show ?thesis by fastforce
    next
      case (TargetCapture source)
      obtain outcome w1 where one: "execute env (xs i) index plan w = (outcome, w1)" by fastforce
      obtain rest where rest: "apply_retention env xs cancelled index (i + 1) plans w1 = (rest, w')"
        using Cons.prems False TargetCapture one by (auto split: prod.splits)
      note ih = Cons.IH [OF rest]
      show ?thesis
      proof (intro conjI ballI)
        show "set (dw_fs w') \<subseteq> set (dw_fs w)" using ih execute_fs [OF one] by auto
        fix e assume "e \<in> set (dw_fs w)"
        then consider "e \<in> set (dw_fs w1)" | "\<exists>item \<in> set (dp_items plan). prefix (it_path item) (fst e)"
          using execute_fs [OF one] by blast
        then show "e \<in> set (dw_fs w') \<or> (\<exists>p \<in> set (plan # plans). \<exists>item \<in> set (dp_items p). prefix (it_path item) (fst e))"
          using ih by cases auto
      qed
    qed
  qed
qed simp

section \<open>Properties\<close>

text \<open>C39. Retention takes only what may be deleted.  Without an active rule there is no plan.  Every plan is
  allowed, and is for a selected capture that is not capturing and that no investigation pins, none
  having unknown pins.  Applying an assessment, whatever the outcomes and whenever it is cancelled,
  removes only entries at or below the paths of its plans: the directories of such captures and the
  disposable indexes attributed to them.
\<close>

theorem retention_spares_protected:
  fixes env :: deletion_env
  assumes "apply_retention env xs cancelled index 0 (ra_plans (assess_retention env fs index rules now)) w = (outcomes, w')"
  shows "(\<not> rules_active rules \<longrightarrow> w' = w)
    \<and> (\<forall>e \<in> set (dw_fs w) - set (dw_fs w'). \<exists>c reason.
        (c, reason) \<in> set (selected_captures env index rules now) \<and> \<not> (\<forall>d. find_capture index (cu_source_id c) = Some d \<longrightarrow> cu_active d)
        \<and> (\<forall>i \<in> set (oi_investigations index). \<not> iu_unknown_pins i
            \<and> (\<forall>pin \<in> set (iu_pins i). pn_source_id pin \<noteq> cu_source_id c))
        \<and> ((\<exists>d. find_capture index (cu_source_id c) = Some d \<and> prefix (cu_directory d) (fst e))
           \<or> (\<exists>x \<in> set (oi_derived index). di_source_id x = Some (cu_source_id c) \<and> prefix (di_path x) (fst e))))
    \<and> set (dw_fs w') \<subseteq> set (dw_fs w)"
proof (cases "rules_active rules")
  case False
  then have "ra_plans (assess_retention env fs index rules now) = []" by (simp add: assess_retention_def Let_def)
  then show ?thesis using assms by simp
next
  case True
  show ?thesis
  proof (intro conjI impI ballI)
    fix e assume e: "e \<in> set (dw_fs w) - set (dw_fs w')"
    then obtain plan item where plan: "plan \<in> set (ra_plans (assess_retention env fs index rules now))"
      "item \<in> set (dp_items plan)" "prefix (it_path item) (fst e)"
      using apply_fs [OF assms] by blast
    then obtain c reason where sel: "(c, reason) \<in> set (selected_captures env index rules now)"
      "plan = retention_plan env fs index (c, reason)" "plan_allowed plan"
      using assessed(1) [OF True] by auto
    then obtain d where d: "find_capture index (cu_source_id c) = Some d" "\<not> cu_active d" "pins_for index (cu_source_id c) = []"
      "dp_items plan = \<lparr>it_path = cu_directory d, it_bytes = cu_durable_bytes d, it_class = ItemDurable\<rparr>
          # map (\<lambda>e. \<lparr>it_path = di_path e, it_bytes = di_bytes e, it_class = ItemDisposable\<rparr>)
              (filter (\<lambda>e. di_source_id e = Some (cu_source_id c)) (oi_derived index))"
      using allowed_capture [of env fs index "cu_source_id c" ByRetention "Some reason"]
      by (auto simp: retention_plan_def)
    show "\<exists>c reason.
        (c, reason) \<in> set (selected_captures env index rules now) \<and> \<not> (\<forall>d. find_capture index (cu_source_id c) = Some d \<longrightarrow> cu_active d)
        \<and> (\<forall>i \<in> set (oi_investigations index). \<not> iu_unknown_pins i
            \<and> (\<forall>pin \<in> set (iu_pins i). pn_source_id pin \<noteq> cu_source_id c))
        \<and> ((\<exists>d. find_capture index (cu_source_id c) = Some d \<and> prefix (cu_directory d) (fst e))
           \<or> (\<exists>x \<in> set (oi_derived index). di_source_id x = Some (cu_source_id c) \<and> prefix (di_path x) (fst e)))"
      using sel(1) d plan(2,3) pins_for_empty [of index "cu_source_id c"]
      by (intro exI [of _ c] exI [of _ reason]) auto
  qed (use True apply_fs [OF assms] in auto)
qed

text \<open>C40. Retention reaches its limit, oldest first.  With an active global limit over captures of distinct
  sources, whatever the captures hold: what no plan takes is at most the limit plus what the assessment
  reports as protected.  The captures in the order of their last activity split in two: each of the
  older is planned or its plan is refused, and a newer one is planned only if a rule of its own or
  the age limit selects it.
\<close>

theorem retention_frees_enough:
  fixes env :: deletion_env and fs :: file_system and now :: int
  assumes "distinct (map cu_source_id (oi_captures index))"
    and "sum_list (map cu_durable_bytes (oi_captures index)) \<le> u64_max"
    and "rules_active rules" "rt_maximum_bytes (rl_global rules) = Some limit"
  defines "a \<equiv> assess_retention env fs index rules now"
  defines "planned \<equiv> (\<lambda>c. TargetCapture (cu_source_id c) \<in> set (map dp_target (ra_plans a)))"
  shows "sum_list (map cu_durable_bytes (filter (\<lambda>c. \<not> planned c) (oi_captures index))) \<le> limit + ra_unreclaimable a
    \<and> (\<exists>older newer. ordered_captures index = older @ newer
        \<and> (\<forall>c \<in> set older. planned c \<or> (\<exists>reason. \<not> plan_allowed (retention_plan env fs index (c, reason))))
        \<and> (\<forall>c \<in> set newer. planned c \<longrightarrow> rule_reason env rules now c \<noteq> None))"
proof -
  define C where "C = oi_captures index"
  define sel where "sel = selected_captures env index rules now"
  define refused where "refused = filter (\<lambda>s. \<not> plan_allowed (retention_plan env fs index s)) sel"
  obtain pre post where sp: "distinct (chosen sel)" "set (map fst sel) \<subseteq> set C"
    "ordered_captures index = pre @ post" "cu_source_id ` set pre \<subseteq> set (chosen sel)"
    "\<forall>s \<in> set sel. fst s \<in> set post \<longrightarrow> fst s \<in> set pre \<or> rule_reason env rules now (fst s) \<noteq> None"
    "durable_capture_bytes index - sum_list (map (cu_durable_bytes \<circ> fst) sel) \<le> limit \<or> post = []"
    using selected_spec [OF assms(1,4), of env now] by (auto simp: sel_def C_def)
  have dC: "distinct C" using assms(1) by (simp add: C_def distinct_map)
  have inj: "c = d" if "c \<in> set C" "d \<in> set C" "cu_source_id c = cu_source_id d" for c d
    using that assms(1) by (auto simp: C_def distinct_map inj_on_def)
  have planned: "planned c \<longleftrightarrow> (\<exists>s \<in> set sel. cu_source_id (fst s) = cu_source_id c \<and> plan_allowed (retention_plan env fs index s))" for c
  proof -
    have "planned c \<longleftrightarrow> TargetCapture (cu_source_id c)
        \<in> dp_target ` {p \<in> retention_plan env fs index ` set sel. plan_allowed p}"
      by (simp add: planned_def a_def assessed(1) [OF assms(3)] sel_def)
    also have "\<dots> \<longleftrightarrow> (\<exists>s \<in> set sel. plan_allowed (retention_plan env fs index s)
        \<and> TargetCapture (cu_source_id c) = dp_target (retention_plan env fs index s))" by blast
    finally show ?thesis unfolding retention_plan_target by (metis deletion_target.inject(1))
  qed
  let ?f = cu_durable_bytes
  let ?S = "fst ` set sel" and ?R = "fst ` set refused"
  have sumS: "sum_list (map (?f \<circ> fst) sel) = sum ?f ?S"
    using sum_list_distinct_conv_sum_set [OF distinct_map_fst [OF sp(1)], of ?f] by simp
  have "distinct (map fst refused)" using distinct_map_fst [OF sp(1)] by (simp add: refused_def distinct_map_filter)
  then have sumR: "sum_list (map (?f \<circ> fst) refused) = sum ?f ?R"
    using sum_list_distinct_conv_sum_set [of "map fst refused" ?f] by simp
  have sumC: "sum_list (map ?f C) = sum ?f (set C)" using sum_list_distinct_conv_sum_set [OF dC] by simp
  have RS: "?R \<subseteq> ?S" by (auto simp: refused_def)
  have SC: "?S \<subseteq> set C" using sp(2) by auto
  have "sum ?f ?R \<le> sum ?f (set C)" using RS SC by (intro sum_mono2) auto
  then have unre: "ra_unreclaimable a = sum ?f ?R"
    using assms(2) sumR sumC
    by (simp add: a_def assessed(2) [OF assms(3)] sel_def [symmetric] refused_def [symmetric] sum_bytes_exact C_def)
  have total: "durable_capture_bytes index = sum ?f (set C)"
    using assms(2) sumC by (simp add: durable_capture_bytes_def sum_bytes_exact C_def)
  have rest: "sum ?f (set C - ?S) \<le> limit"
  proof (cases "post = []")
    case True
    then have "set pre = set C" using sp(3) ordered_captures_set [of index] by (simp add: C_def)
    have "c \<in> ?S" if c: "c \<in> set C" for c
    proof -
      have "cu_source_id c \<in> set (chosen sel)" using c sp(4) \<open>set pre = set C\<close> by blast
      then obtain s where s: "s \<in> set sel" "cu_source_id c = cu_source_id (fst s)" by auto
      then have "c = fst s" using inj [OF c] SC by blast
      then show ?thesis using s(1) by blast
    qed
    then have "set C - ?S = {}" by blast
    then show ?thesis by (simp only: sum.empty le0)
  next
    case False
    then have "sum ?f (set C) - sum ?f ?S \<le> limit" using sp(6) total sumS by simp
    then show ?thesis using sum_diff_nat [of ?S "set C" ?f] SC by simp
  qed
  have "set (filter (\<lambda>c. \<not> planned c) C) \<subseteq> (set C - ?S) \<union> ?R"
    by (auto simp: planned refused_def image_iff)
  then have "sum ?f (set (filter (\<lambda>c. \<not> planned c) C)) \<le> sum ?f ((set C - ?S) \<union> ?R)"
    by (intro sum_mono2) auto
  also have "\<dots> \<le> sum ?f (set C - ?S) + sum ?f ?R"
    using RS by (subst sum.union_disjoint) auto
  also have "\<dots> \<le> limit + ra_unreclaimable a" using rest unre by simp
  finally have kept: "sum_list (map ?f (filter (\<lambda>c. \<not> planned c) C)) \<le> limit + ra_unreclaimable a"
    using sum_list_distinct_conv_sum_set [OF distinct_filter [OF dC], of ?f "\<lambda>c. \<not> planned c"] by simp
  have old: "planned c \<or> (\<exists>reason. \<not> plan_allowed (retention_plan env fs index (c, reason)))" if "c \<in> set pre" for c
  proof -
    have "cu_source_id c \<in> set (chosen sel)" using that sp(4) by blast
    then obtain s where s: "s \<in> set sel" "cu_source_id (fst s) = cu_source_id c" by auto
    then show ?thesis using planned [of c] retention_plan_id [of c s env fs index] by metis
  qed
  have new: "rule_reason env rules now c \<noteq> None" if post: "c \<in> set post" and taken: "planned c" for c
  proof -
    obtain s where s: "s \<in> set sel" "cu_source_id (fst s) = cu_source_id c"
      using taken unfolding planned by blast
    have "c \<in> set C" "fst s \<in> set C" using post sp(2,3) s(1) ordered_captures_set [of index] by (auto simp: C_def)
    then have "fst s = c" using inj s(2) by blast
    moreover have "distinct (pre @ post)" using ordered_captures_ids [OF assms(1)] sp(3) by (metis distinct_map)
    ultimately show ?thesis using sp(5) s(1) post by auto
  qed
  show ?thesis using kept sp(3) old new unfolding C_def by blast
qed

definition sample_rules :: "nat \<Rightarrow> retention_rules" where
  "sample_rules limit = rules_from_fields True (Some limit) None []"

lemma sample_rules_simps [simp]:
  "rules_active (sample_rules limit)" "rt_maximum_bytes (rl_global (sample_rules limit)) = Some limit"
  "rule_reason env (sample_rules limit) now c = None"
  by (simp_all add: sample_rules_def rules_from_fields_def rules_active_def rule_is_set_def rule_reason_def
      rule_for_def rule_default_def Let_def split: option.split)

definition sample_assessment :: retention_assessment where
  "sample_assessment = assess_retention sample_deletion_env (dw_fs sample_world) sample_index (sample_rules 5) 0"

lemma sample_selected:
  "\<exists>reason. selected_captures sample_deletion_env sample_index (sample_rules 5) 0 = [(sample_capture_unit, reason)]"
  by (auto simp: selected_captures_def rule_selected_filter ordered_captures_def sample_index_def Let_def
      durable_capture_bytes_def sum_bytes_def sample_capture_unit_def saturating_add_u64_def u64_max_def)

lemma sample_retention_plan:
  "\<exists>reason. ra_plans sample_assessment
    = [plan_delete_capture sample_deletion_env (dw_fs sample_world) sample_index sample_owner ByRetention (Some reason)]"
proof -
  obtain reason where sel: "selected_captures sample_deletion_env sample_index (sample_rules 5) 0 = [(sample_capture_unit, reason)]"
    using sample_selected by blast
  have "plan_allowed (plan_delete_capture sample_deletion_env (dw_fs sample_world) sample_index sample_owner ByRetention (Some reason))"
    by (simp add: plan_delete_capture_def sample_index_def find_capture_def sample_capture_unit_def
        plan_allowed_def option_list_def verify_capture_path_def parse_source_id_def sample_deletion_env_def
        verify_directory_def sample_world_def pins_for_def List.map_filter_simps)
  then show ?thesis unfolding sample_assessment_def
    by (intro exI [of _ reason]) (simp add: assessed sel retention_plan_def sample_capture_unit_def)
qed

theorem retention_frees_enough_witness:
  "sum_list (map cu_durable_bytes (filter (\<lambda>c. TargetCapture (cu_source_id c) \<notin> set (map dp_target (ra_plans sample_assessment)))
      (oi_captures sample_index))) \<le> 5 + ra_unreclaimable sample_assessment
   \<and> map dp_target (ra_plans sample_assessment) = [TargetCapture sample_owner]"
proof -
  have "map dp_target (ra_plans sample_assessment) = [TargetCapture sample_owner]"
    using sample_retention_plan by (auto simp: plan_delete_capture_def refused_plan_def split: option.split)
  moreover have "distinct (map cu_source_id (oi_captures sample_index))"
    "sum_list (map cu_durable_bytes (oi_captures sample_index)) \<le> u64_max"
    by (simp_all add: sample_index_def sample_capture_unit_def u64_max_def)
  ultimately show ?thesis
    using retention_frees_enough [of sample_index "sample_rules 5" 5 sample_deletion_env "dw_fs sample_world" 0]
    by (simp add: sample_assessment_def)
qed

lemma sample_applied:
  "dw_fs (snd (apply_retention sample_deletion_env (\<lambda>_. sample_execution) (\<lambda>_. False) sample_index 0
      (ra_plans sample_assessment) sample_world)) = [([''r''], FsDirectory)]"
proof -
  obtain plan reason where plan: "ra_plans sample_assessment = [plan]"
    "plan = plan_delete_capture sample_deletion_env (dw_fs sample_world) sample_index sample_owner ByRetention (Some reason)"
    using sample_retention_plan by auto
  have facts: "plan_allowed plan" "dp_target plan = TargetCapture sample_owner" "dp_cause plan = ByRetention"
    "dp_policy plan = Some reason" "map it_path (dp_items plan) = [[''r'', sample_id_text]]"
    by (simp_all add: plan(2) plan_delete_capture_def sample_index_def find_capture_def sample_capture_unit_def
        plan_allowed_def option_list_def verify_capture_path_def parse_source_id_def sample_deletion_env_def
        verify_directory_def sample_world_def pins_for_def List.map_filter_simps finish_plan_def Let_def)
  have cur: "current_plan sample_deletion_env (dw_fs sample_world) sample_index plan = plan"
    using facts by (simp add: current_plan_def) (simp add: plan(2))
  obtain item where "dp_items plan = [item]" "it_path item = [''r'', sample_id_text]" using facts(5) by auto
  then show ?thesis
    using cur facts(1,2) sample_tree_removed plan(1)
    by (simp add: execute_def ledger_append_def sample_execution_def max_record_bytes_def Let_def)
qed

theorem retention_spares_protected_witness:
  "set (dw_fs (snd (apply_retention sample_deletion_env (\<lambda>_. sample_execution) (\<lambda>_. False) sample_index 0
      (ra_plans sample_assessment) sample_world))) \<subseteq> set (dw_fs sample_world)
   \<and> dw_fs (snd (apply_retention sample_deletion_env (\<lambda>_. sample_execution) (\<lambda>_. False) sample_index 0
      (ra_plans sample_assessment) sample_world)) \<noteq> dw_fs sample_world"
proof -
  obtain outcomes w' where run: "apply_retention sample_deletion_env (\<lambda>_. sample_execution) (\<lambda>_. False) sample_index 0
      (ra_plans sample_assessment) sample_world = (outcomes, w')"
    by fastforce
  have "dw_fs w' = [([''r''], FsDirectory)]" using sample_applied run by simp
  then show ?thesis
    using retention_spares_protected [OF run [unfolded sample_assessment_def]] run by (simp add: sample_world_def)
qed

section \<open>Where retention stops short\<close>

text \<open>Two captures of which the older is capturing, and room for one: the newer, which may be deleted and
  whose deletion would reach the limit, is not selected, since the older one counts as freed.\<close>

definition second_owner :: source_id where "second_owner = SourceId [2]"

definition two_captures :: "nat \<Rightarrow> derived_index_entry list \<Rightarrow> ownership_index" where
  "two_captures n derived = sample_index\<lparr>oi_captures :=
     [sample_capture_unit\<lparr>cu_source_id := second_owner, cu_directory := [''r'', ''x''], cu_active := True,
        cu_durable_bytes := n, cu_last_modified := Some 1\<rparr>,
      sample_capture_unit\<lparr>cu_durable_bytes := n, cu_last_modified := Some 2\<rparr>],
     oi_derived := derived\<rparr>"

lemma two_owners [simp]: "sample_owner \<noteq> second_owner" "second_owner \<noteq> sample_owner"
  by (simp_all add: sample_owner_def second_owner_def)

lemma two_captures_plans:
  "plan_allowed (plan_delete_capture sample_deletion_env (dw_fs sample_world) (two_captures n derived) sample_owner cause policy)"
  "\<not> plan_allowed (plan_delete_capture sample_deletion_env (dw_fs sample_world) (two_captures n derived) second_owner cause policy)"
  by (simp_all add: plan_delete_capture_def two_captures_def sample_index_def find_capture_def sample_capture_unit_def
      plan_allowed_def option_list_def verify_capture_path_def parse_source_id_def sample_deletion_env_def
      verify_directory_def sample_world_def pins_for_def List.map_filter_simps)

lemma newer_spared_behind_protected:
  "ra_plans (assess_retention sample_deletion_env (dw_fs sample_world) (two_captures 100 []) (sample_rules 100) 0) = []
   \<and> ra_shortfall (assess_retention sample_deletion_env (dw_fs sample_world) (two_captures 100 []) (sample_rules 100) 0) = 100
   \<and> plan_allowed (plan_delete_capture sample_deletion_env (dw_fs sample_world) (two_captures 100 []) sample_owner ByRetention None)"
proof -
  have "\<exists>reason. map (\<lambda>(c, r). (cu_source_id c, r)) (selected_captures sample_deletion_env (two_captures 100 []) (sample_rules 100) 0)
      = [(second_owner, reason)]"
    by (auto simp: selected_captures_def rule_selected_filter ordered_captures_def two_captures_def sample_index_def Let_def
        durable_capture_bytes_def sum_bytes_def sample_capture_unit_def saturating_add_u64_def u64_max_def activity_order_def)
  then obtain c reason where sel: "selected_captures sample_deletion_env (two_captures 100 []) (sample_rules 100) 0 = [(c, reason)]"
    "cu_source_id c = second_owner" by auto
  have refused: "\<not> plan_allowed (retention_plan sample_deletion_env (dw_fs sample_world) (two_captures 100 []) (c, reason))"
    using sel(2) two_captures_plans(2) by (simp add: retention_plan_def)
  have "durable_capture_bytes (two_captures 100 []) = 200"
    by (simp add: durable_capture_bytes_def two_captures_def sample_index_def sample_capture_unit_def sum_bytes_def
        saturating_add_u64_def u64_max_def)
  then show ?thesis using sel(1) refused two_captures_plans(1)
    by (simp add: assess_retention_def Let_def take_selected_def would_free_bytes_def sum_bytes_def)
qed

text \<open>The shortfall subtracts the disposable bytes a plan frees from a total that does not hold them.\<close>

definition index_entry :: derived_index_entry where
  "index_entry = \<lparr>di_path = [''i''], di_bytes = 40, di_source_id = Some sample_owner, di_reclaimable_bytes = 0, di_status = []\<rparr>"

lemma shortfall_hidden_by_index_bytes:
  "ra_shortfall (assess_retention sample_deletion_env (dw_fs sample_world) (two_captures 60 [index_entry]) (sample_rules 50) 0) = 0
   \<and> ra_unreclaimable (assess_retention sample_deletion_env (dw_fs sample_world) (two_captures 60 [index_entry]) (sample_rules 50) 0) = 60"
proof -
  let ?index = "two_captures 60 [index_entry]"
  have "\<exists>reason. map (\<lambda>(c, r). (cu_source_id c, cu_durable_bytes c, r)) (selected_captures sample_deletion_env ?index (sample_rules 50) 0)
      = [(second_owner, 60, reason), (sample_owner, 60, reason)]"
    by (auto simp: selected_captures_def rule_selected_filter ordered_captures_def two_captures_def sample_index_def Let_def
        durable_capture_bytes_def sum_bytes_def sample_capture_unit_def saturating_add_u64_def u64_max_def activity_order_def)
  then obtain c d reason where sel: "selected_captures sample_deletion_env ?index (sample_rules 50) 0 = [(c, reason), (d, reason)]"
    "cu_source_id c = second_owner" "cu_source_id d = sample_owner" "cu_durable_bytes c = 60" by auto
  have refused: "\<not> plan_allowed (retention_plan sample_deletion_env (dw_fs sample_world) ?index (c, reason))"
    and allowed: "plan_allowed (retention_plan sample_deletion_env (dw_fs sample_world) ?index (d, reason))"
    using sel(2,3) two_captures_plans by (simp_all add: retention_plan_def)
  have bytes: "durable_capture_bytes ?index = 120"
    by (simp add: durable_capture_bytes_def two_captures_def sample_index_def sample_capture_unit_def sum_bytes_def
        saturating_add_u64_def u64_max_def)
  have "freed_bytes (retention_plan sample_deletion_env (dw_fs sample_world) ?index (d, reason)) = 100"
    using sel(3) by (simp add: retention_plan_def plan_delete_capture_def two_captures_def sample_index_def find_capture_def
        sample_capture_unit_def freed_bytes_def finish_plan_def Let_def sum_bytes_def saturating_add_u64_def u64_max_def index_entry_def)
  then show ?thesis using sel(1,4) refused allowed bytes
    by (simp add: assess_retention_def Let_def take_selected_def would_free_bytes_def sum_bytes_def
        saturating_add_u64_def u64_max_def)
qed

end
