(* ===== verification/Spec2Isabelle.thy ===== *)
theory Spec2Isabelle
  imports Prelude Ordered_Maps Chars Model Framer Sse Restart Journal Journal_Writer Capture
    File_Capture Gzip_Capture Http Fold_Pattern Folding Shared_Control Correlation Grouping Text_Edit
    Storage_Pressure Result_State Ingest_Writer Ingest_Loop Ingest_Durability Ingest_Checkpoints
    Ingest_Runs Ingest_Recovery Ingest_Restart Source_History Command_Run Supervision
    Union_Commit Union_Merge Appended_Chunks Stdin_Chunks Deletion_Ledger Capture_Deletion Retention
begin

text \<open>
  \<^bold>\<open>The program.\<close>  lvu is a terminal viewer for logs, a Cargo workspace under \<open>src/crates\<close>.
  Capture reads a source (standard input, a command, a file, an HTTP connection), frames its bytes
  into records and publishes them as events (\<open>lvu-core/src/acquisition.rs\<close>, \<open>http.rs\<close>,
  \<open>restart.rs\<close>); a journal makes the records durable and numbers them (\<open>lvu-core/src/journal.rs\<close>), driven by one
  writer per source, which also keeps a file's resume cursor behind them (\<open>lvu-ingest/src/writer.rs\<close>);
  views fold repeated events (\<open>lvu-view/src/folding.rs\<close>) and correlate fields across sources
  (\<open>lvu-core/src/correlation.rs\<close>) and merge into unions (\<open>lvu-view/src/union.rs\<close>); a worker shared by several windows speaks a bounded line
  protocol (\<open>lvu-shared\<close>); and the terminal front end edits text and parses persisted rules
  (\<open>lvu\<close>).  The theories follow that order, one per component.

  \<^bold>\<open>Theories and code.\<close>
  \<^item> \<open>Prelude\<close>: bytes, bounded arithmetic on naturals (\<open>u64\<close> saturation and wrap-around written
    out), little-endian fields, byte search, and the interfaces as locales: a transition system with
    an invariant, a framer that loses no byte, a log read by pages.  \<open>Ordered_Maps\<close> is the
    \<open>BTreeMap\<close> as an ordered association list; \<open>Chars\<close> is \<open>char\<close> and \<open>str\<close> as code points.
  \<^item> \<open>Model\<close>: \<open>lvu-core/src/model.rs\<close> and the captured record of \<open>acquisition.rs\<close>; a
    \<open>RecordBytes\<close> keeps its backing and range, so sharing is visible.
  \<^item> \<open>Framer\<close>: \<open>Framer\<close> of \<open>acquisition.rs\<close>, its scan-based \<open>push\<close> (\<open>framer_lines\<close>,
    \<open>framer_cuts\<close>, \<open>framer_close\<close>), \<open>finish\<close>, \<open>flush_partial\<close>, and the byte loop it replaced.
  \<^item> \<open>Sse\<close>: \<open>SseFramer\<close>, \<open>split_sse_lines\<close> and \<open>last_event_id\<close> of \<open>http.rs\<close>.
  \<^item> \<open>Restart\<close>: all of \<open>restart.rs\<close>: backoff, jitter as 64-bit words, the window of attempts.
  \<^item> \<open>Journal\<close>, \<open>Journal_Writer\<close>: \<open>journal.rs\<close>.  The first has the frame format, the recovery scan and
    the page reads over a byte list; the second the writer, whose world has the file a reader sees,
    the part of it a crash cannot take away, the \<open>.seq\<close> watermark in both senses, and the locks.
  \<^item> \<open>Capture\<close>: events, their hand-over, \<open>run_reader\<close> and \<open>read_stream\<close> of \<open>acquisition.rs\<close>.
  \<^item> \<open>File_Capture\<close>: \<open>run_file\<close> of \<open>acquisition.rs\<close> for a plain file: \<open>validate_resume\<close>,
    \<open>open_file_state\<close>, \<open>acknowledge_file\<close>, \<open>emit_checkpoint\<close>, \<open>update_follow_state\<close>, the loop.
    \<open>Gzip_Capture\<close>: the dispatch on the first bytes, and a compressed file: the decoder thread
    (\<open>spawn_gzip_decoder\<close>) and its consumer (\<open>run_gzip_file\<close>), which simulates the plain file's
    acknowledgement so that its invariant carries over.
  \<^item> \<open>Result_State\<close>: methods on \<open>&mut self\<close> that return a \<open>Result\<close>, and triples for them.
    \<open>Ingest_Writer\<close>: \<open>lvu-ingest/src/writer.rs\<close>, the group commit, batches, events, pages, the end of
    a run and the loop, over the journal and disk of \<open>Journal_Writer\<close> and the cursor file of
    \<open>cursor.rs\<close>, as a reader sees it and as a crash leaves it; \<open>ws_taken\<close> is a ghost.
    \<open>Ingest_Loop\<close>: the locale of what an invariant must show of the few operations that matter to
    hold along the loop; \<open>Ingest_Durability\<close> and \<open>Ingest_Checkpoints\<close> interpret it, with what is on
    disk and with what was taken; \<open>Ingest_Runs\<close> has their consequences.
    \<open>Ingest_Recovery\<close>: \<open>load\<close> and \<open>recover_file_cursor\<close>; \<open>Ingest_Restart\<close>: \<open>spawn_writer\<close>.
  \<^item> \<open>Http\<close>: connections, resume modes, notices and the reconnect loop of \<open>http.rs\<close>.
  \<^item> \<open>Source_History\<close>: the sink of \<open>source_event.rs\<close> and \<open>bounded_detail\<close>.  \<open>Command_Run\<close>: one run of
    a command (\<open>run_command_instance\<close>), its two readers as state machines over one sink whose rounds
    a schedule interleaves.  \<open>Supervision\<close>: \<open>run_command_supervised\<close>, its two loops and what they
    publish; \<open>life_step\<close> is the abstract life a history must follow.
  \<^item> \<open>Fold_Pattern\<close>, \<open>Folding\<close>: \<open>folding.rs\<close>, the first its keys, the second its engine.
  \<^item> \<open>Shared_Control\<close>: \<open>frame.rs\<close> and \<open>lifetime.rs\<close> of \<open>lvu-shared\<close>.  \<open>Stdin_Chunks\<close>: the base64 of
    \<open>protocol.rs\<close> and the streams of forwarded standard input of \<open>worker.rs\<close>.  \<open>Union_Commit\<close>:
    \<open>union_commit.rs\<close>, the table of commit attempts, with its histories as traces of operations and
    answers, newest first.  \<open>Union_Merge\<close>: the pure part of \<open>lvu-view/src/union.rs\<close>.
    \<open>Appended_Chunks\<close>: \<open>lvu-view/src/appended.rs\<close>, the chunked sequence views publish, and its builder.
  \<^item> \<open>Deletion_Ledger\<close>, \<open>Capture_Deletion\<close>, \<open>Retention\<close>: \<open>ledger.rs\<close>, \<open>ownership.rs\<close> and
    \<open>retention.rs\<close> of \<open>lvu-app/src/storage\<close>, each over the one before: the file of deletions, the plan
    and execution of one, the policy that selects captures.  Files are an association list of paths.
  \<^item> \<open>Correlation\<close>, \<open>Grouping\<close>, \<open>Text_Edit\<close>, \<open>Storage_Pressure\<close>: \<open>lvu-core/src/correlation.rs\<close>,
    \<open>lvu/src/grouping.rs\<close>, \<open>lvu/src/text_edit.rs\<close> with \<open>horizontal.rs\<close>, and
    \<open>lvu-app/src/storage/pressure.rs\<close>.

  \<^bold>\<open>Conventions.\<close>  A struct is a record whose fields carry a short prefix; an enum is a datatype with
  the source's constructors; an operation returns its updated state.  An error is \<open>Inl\<close>; \<open>None\<close> is
  a panic or a loop that has not returned.  Code outside the repository is a parameter: \<open>memchr\<close>
  (named hypothesis \<open>memchr_ok\<close>), the CRC, \<open>serde_json\<close> (hypotheses \<open>json_ok\<close>, its output
  holds no line feed, and \<open>ledger_json_ok\<close>, it reads back the flat records of the ledger), the Unicode and
  terminal-width tables, and the header check of the HTTP client.  What the operating system or a
  \<open>select!\<close> yields is a script with one entry per round, so a theorem about every script covers
  every interleaving; clocks are functions of the number of the call.  Whether the i-th hand-over
  of an event succeeds is \<open>ce_deliver\<close>.

  \<^bold>\<open>What is shown.\<close>
  \<^item> Journal: records accepted before a sync survive every crash, numbers are never used twice, the
    recovery scan keeps exactly the whole frames and accepts nothing else, decoding inverts encoding,
    paging returns every record once and ends, a failed write poisons the writer whichever call
    made it, and nothing is written after it.
  \<^item> Framers: the fast loop equals the byte loop; no byte is lost, repeated or moved; records are
    bounded; how the input was cut into reads is invisible.  The three framers interpret one locale.
  \<^item> Capture: standard input, command output and HTTP bodies are published as a prefix of what was
    read with the rest accounted for; every reconnect is announced; attempts stay in their budget.
    A file's checkpoints hold length, evidence and checksum of exactly what was published before
    them, and such a checkpoint resumes at its offset exactly when the file still has those bytes.
    The same holds of a compressed file over its decoded bytes, with the archive's fingerprint in the
    checkpoint; an undisturbed capture of a complete archive publishes all its content.
  \<^item> Commands: however the readers of its outputs interleave, a run publishes each output in order and
    counts what it could not; over all runs the history is a legal life, the events are cut into runs
    as it says; for a maximum of at most the 1024 attempts that are tracked, restarts stay within
    their budget over any span, and a crash loop ends.
  \<^item> Writer: over a synced journal, whatever fails and wherever the run stops, a cursor on disk lies
    within the synced journal, right behind the records of its checkpoint; fed by the file capture,
    it stands for exactly the bytes those records hold; a clean end leaves nothing behind; catching a
    cursor up skips no byte; a restart keeps all this.  Over a journal whose tail was flushed but
    never synced it does not hold: the cursor outruns the journal, which a theorem shows.
  \<^item> Folding: every event is a retained member or counted as evicted, expansion restores the order,
    the caps hold, adjacent folding computes the maximal runs of equal keys, keys hold no digit.
  \<^item> Shared worker: messages come back in order however the stream was cut; the lifetime policy
    never stops a worker with a viewer and stops an idle one within its grace.  A chunk of forwarded
    input is decoded to the bytes sent, and a stream holds exactly the chunks that were credited.
  \<^item> Unions: in any interleaving of handlers an attempt to publish gets one verdict, that of the fences
    observed under its still current epoch, a replay repeats it and a displaced handler changes
    nothing; a union is accepted exactly when it reaches no cycle, at most 64 views, and no union
    of more than 8 inputs; the merge holds each record once, in
    an order no hash map can change; the memory charge is exact and never wraps.
  \<^item> Published sequences: a builder over chunks behaves as a plain list, lookups and searches included;
    the count of chunks is bounded by a square root, not by the logarithm the source claims.
  \<^item> Correlation, editing, grouping, pressure: accepted correlations answer for precisely the mapped
    sources; every edit command returns with cursor and length in bounds; parsing a grouping rule
    inverts building it; pressure takes disposable data only, and stops acquisition last.
  \<^item> Deletion: files change only under a plan without blockers, with the digest that was confirmed and an
    intent synced before, and only below the plan's paths; in a ledger of whole records within the
    reader's limits a recorded deletion stays visible through failed appends and crashes; retention spares what is capturing or pinned, takes the oldest first and
    leaves at most its limit plus what it reports as protected.
  Lemmas and properties with a concrete input also record where the code departs from what it says:
  a CRLF cut by the limit, a restart maximum above what is tracked, cursors that add up over
  connections, a gzip error that another replaces, a run closed by another's eviction, counts that miss refused records, a ledger
  entry glued to a torn one or beyond what a reader takes,
  investigations a truncated scan missed, newer captures spared behind protected ones.

  \<^bold>\<open>Bounds and fuel.\<close>  No definition takes fuel.  The cutting loop of the framer is a partial
  function that is shown defined for every valid framer; the others recurse on their input or have a
  measure.  A script that ends before its loop does leaves it waiting, so the theorems about loops
  ask for a round that ends it and then show that it returns.

  \<^bold>\<open>Not modelled.\<close>  The manager, the history and the catalogue
  file of \<open>lvu-ingest\<close>, and in its writer the turns pages and events take, which are the script of
  wakes; the worker beyond its stdin streams, election and
  session of \<open>lvu-shared\<close>; the scan that builds the ownership index; the decoding of a union's frozen fields into frames; queries, which are plans for DataFusion; memory and its SQL; widgets,
  discovery and application glue, mostly input and output.  Of CPU accounting only the charge to a
  record is kept; the retained size of the folding engine depends on compiled layouts and is left out.
\<close>

end
